(* ===== verification/Prelude.thy ===== *)
theory Prelude
  imports Main "HOL-Library.Word" "HOL-Library.Monad_Syntax"
begin

text \<open>
  The vocabulary the component theories share: the C integer types of
  \<open>port.h\<close> as words of their width, byte buffers as lists whose loads and
  stores return \<open>None\<close> when the C code would leave the array, and the
  big-endian packing of a 16-bit register into two bytes that every PDU uses.
\<close>

unbundle bit_operations_syntax

type_synonym u8 = "8 word"
type_synonym u16 = "16 word"
type_synonym u32 = "32 word"
type_synonym bytes = "u8 list"

named_theorems cmem "characterisations of in-bounds loads and stores"
named_theorems pack16 "laws of the 16-bit big-endian packing"

section \<open>C arrays: loads and stores with their bounds\<close>

definition cget :: "'a list \<Rightarrow> nat \<Rightarrow> 'a option" where
  "cget a i = (if i < length a then Some (a ! i) else None)"

definition cset :: "'a list \<Rightarrow> nat \<Rightarrow> 'a \<Rightarrow> 'a list option" where
  "cset a i x = (if i < length a then Some (a[i := x]) else None)"

definition cread :: "'a list \<Rightarrow> nat \<Rightarrow> nat \<Rightarrow> 'a list option" where
  "cread a off n = (if off + n \<le> length a then Some (take n (drop off a)) else None)"

definition cwrite :: "'a list \<Rightarrow> nat \<Rightarrow> 'a list \<Rightarrow> 'a list option" where
  "cwrite a off xs =
     (if off + length xs \<le> length a
      then Some (take off a @ xs @ drop (off + length xs) a) else None)"

lemma cget_Some [cmem]: "cget a i = Some x \<longleftrightarrow> i < length a \<and> a ! i = x"
  by (auto simp: cget_def)

lemma cset_Some [cmem]: "cset a i x = Some b \<longleftrightarrow> i < length a \<and> b = a[i := x]"
  by (auto simp: cset_def)

lemma cread_Some [cmem]:
  "cread a off n = Some xs \<longleftrightarrow> off + n \<le> length a \<and> xs = take n (drop off a)"
  by (auto simp: cread_def)

lemma cwrite_Some [cmem]:
  "cwrite a off xs = Some b \<longleftrightarrow>
     off + length xs \<le> length a \<and> b = take off a @ xs @ drop (off + length xs) a"
  by (auto simp: cwrite_def)

lemma cget_None: "cget a i = None \<longleftrightarrow> length a \<le> i"
  by (auto simp: cget_def)

lemma cset_None: "cset a i x = None \<longleftrightarrow> length a \<le> i"
  by (auto simp: cset_def)

lemma cget_in [simp]: "i < length a \<Longrightarrow> cget a i = Some (a ! i)"
  by (simp add: cget_def)

lemma cset_in [simp]: "i < length a \<Longrightarrow> cset a i x = Some (a[i := x])"
  by (simp add: cset_def)

lemma cread_in [simp]: "off + n \<le> length a \<Longrightarrow> cread a off n = Some (take n (drop off a))"
  by (simp add: cread_def)

lemma cwrite_length: "cwrite a off xs = Some b \<Longrightarrow> length b = length a"
  by (auto simp: cmem)

lemma cread_length: "cread a off n = Some xs \<Longrightarrow> length xs = n"
  by (auto simp: cmem)

lemma cwrite_nth:
  assumes "cwrite a off xs = Some b" "i < length a"
  shows "b ! i = (if off \<le> i \<and> i < off + length xs then xs ! (i - off) else a ! i)"
  using assms by (auto simp: cmem nth_append)

lemma cread_cwrite: "cwrite a off xs = Some b \<Longrightarrow> cread b off (length xs) = Some xs"
  by (auto simp: cmem)

lemma take_update1: "i < length a \<Longrightarrow> take (Suc i) (a[i := x]) = take i a @ [x]"
  by (simp add: take_Suc_conv_app_nth)

lemma take_update2:
  "Suc i < length a \<Longrightarrow> take (Suc (Suc i)) (a[i := x, Suc i := y]) = take i a @ [x, y]"
  by (simp add: take_Suc_conv_app_nth)

lemma take_Suc_drop:
  "i < length r \<Longrightarrow> take (Suc n) (drop i r) = r ! i # take n (drop (Suc i) r)"
  by (metis Cons_nth_drop_Suc take_Suc_Cons)

text \<open>Replacing a part of a list leaves a part before or after it as it was.\<close>

lemma take_drop_splice:
  assumes "i + length vs \<le> length xs" "b + m \<le> i \<or> i + length vs \<le> b"
  shows "take m (drop b (take i xs @ vs @ drop (i + length vs) xs)) = take m (drop b xs)"
  using assms(2)
proof
  assume "b + m \<le> i"
  then show ?thesis using assms(1) by (simp add: drop_take)
next
  assume "i + length vs \<le> b"
  then show ?thesis using assms(1) by simp
qed

section \<open>Registers as two bytes, most significant first\<close>

definition mk16 :: "u8 \<Rightarrow> u8 \<Rightarrow> u16" where
  "mk16 h l = push_bit 8 (ucast h) OR ucast l"

definition hi8 :: "u16 \<Rightarrow> u8" where
  "hi8 w = ucast (drop_bit 8 w)"

definition lo8 :: "u16 \<Rightarrow> u8" where
  "lo8 w = ucast (w AND 0xFF)"

lemma bit_255_int [simp]: "bit (255 :: int) n \<longleftrightarrow> n < 8"
proof -
  have "(255 :: int) = mask 8" by (simp add: mask_eq_exp_minus_1)
  then show ?thesis by (simp only: bit_mask_iff) auto
qed

lemma bit_ff8 [simp]: "bit (0xFF :: u8) n \<longleftrightarrow> n < 8"
  by (simp add: bit_simps)

lemma bit_ff16 [simp]: "bit (0xFF :: u16) n \<longleftrightarrow> n < 8"
  by (auto simp: bit_simps)

lemma hi8_mk16 [simp, pack16]: "hi8 (mk16 h l) = h"
  by (rule bit_word_eqI) (auto simp: hi8_def mk16_def bit_simps dest: bit_imp_le_length)

lemma lo8_mk16 [simp, pack16]: "lo8 (mk16 h l) = l"
  by (rule bit_word_eqI) (auto simp: lo8_def mk16_def bit_simps bit_ff16)

lemma mk16_hi_lo [simp, pack16]: "mk16 (hi8 w) (lo8 w) = w"
proof (rule bit_word_eqI)
  fix n assume "n < LENGTH(16)"
  then show "bit (mk16 (hi8 w) (lo8 w)) n \<longleftrightarrow> bit w n"
    by (cases "n < 8") (auto simp: hi8_def lo8_def mk16_def bit_simps bit_ff16)
qed

lemma mk16_eq_iff [pack16]: "mk16 h l = mk16 h' l' \<longleftrightarrow> h = h' \<and> l = l'"
  by (metis hi8_mk16 lo8_mk16)

lemma mk16_xor: "mk16 a b XOR mk16 c d = mk16 (a XOR c) (b XOR d)"
proof (rule bit_word_eqI)
  fix n assume "n < LENGTH(16)"
  then show "bit (mk16 a b XOR mk16 c d) n \<longleftrightarrow> bit (mk16 (a XOR c) (b XOR d)) n"
    by (cases "n < 8") (auto simp: mk16_def bit_simps dest: bit_imp_le_length)
qed

lemma unat_u8 [simp]: "unat (b :: u8) < 256"
proof -
  have "unat b < 2 ^ LENGTH(8)" by (rule unsigned_less)
  then show ?thesis by simp
qed

lemma unat_u16 [simp]: "unat (b :: u16) < 65536"
proof -
  have "unat b < 2 ^ LENGTH(16)" by (rule unsigned_less)
  then show ?thesis by simp
qed

lemma unat_of_nat_u16: "n < 65536 \<Longrightarrow> unat (of_nat n :: u16) = n"
  by (simp add: unat_of_nat)

lemma unat_of_nat_u8: "n < 256 \<Longrightarrow> unat (of_nat n :: u8) = n"
  by (simp add: unat_of_nat)

lemma xor_0_iff: "a XOR b = 0 \<longleftrightarrow> a = (b :: 'a::len word)"
  by (metis xor.assoc xor_self_eq xor.left_neutral xor.right_neutral)

lemma xor_cancel [simp]: "a XOR (a XOR b) = (b :: 'a::len word)"
  by (simp add: xor.assoc [symmetric])

lemma xor_cancel_right [simp]: "a XOR b = c XOR b \<longleftrightarrow> a = (c :: 'a::len word)"
  by (metis xor.assoc xor_self_eq xor.right_neutral)

lemma take_bit_uint_8 [simp]: "take_bit 8 (uint (b :: u8)) = uint b"
  using uint_lt2p[of b] by (simp add: take_bit_int_eq_self_iff)

lemma take_bit_uint_16 [simp]: "take_bit 16 (uint (c :: u16)) = uint c"
  using uint_lt2p[of c] by (simp add: take_bit_int_eq_self_iff)

lemma take_bit_16_uint_8 [simp]: "take_bit 16 (uint (b :: u8)) = uint b"
  using uint_lt2p[of b] by (simp add: take_bit_int_eq_self_iff)

lemma uint_mk16: "uint (mk16 h l) = 256 * uint h + uint l"
proof -
  have "uint (mk16 h l) = concat_bit 8 (uint l) (uint h)"
    by (rule bit_eqI) (auto simp: mk16_def bit_simps concat_bit_def dest: bit_imp_le_length)
  also have "\<dots> = 256 * uint h + uint l"
    by (simp add: concat_bit_eq push_bit_eq_mult)
  finally show ?thesis .
qed

lemma unat_mk16: "unat (mk16 h l) = 256 * unat h + unat l"
proof -
  have "int (unat (mk16 h l)) = int (256 * unat h + unat l)"
    by (simp add: uint_mk16)
  then show ?thesis by (simp only: of_nat_eq_iff)
qed

lemma mk16_0: "mk16 0 l = ucast l"
  by (simp add: mk16_def)

lemma ucast_lo8: "unat w < 256 \<Longrightarrow> ucast (lo8 w) = w"
proof -
  assume w: "unat w < 256"
  have "unat w = 256 * unat (hi8 w) + unat (lo8 w)" by (metis unat_mk16 mk16_hi_lo)
  then have "unat (hi8 w) = 0" using w by simp
  then have "hi8 w = 0" by (simp add: unat_eq_zero)
  then show ?thesis by (metis mk16_0 mk16_hi_lo)
qed

lemma unat_ucast_8_16 [simp]: "unat (ucast (b :: u8) :: u16) = unat b"
  using unat_mk16[of 0 b] by (simp add: mk16_0)

end
