(* ===== verification/FlashIf.thy ===== *)
theory FlashIf
  imports Prelude
begin

text \<open>
  The configuration in the internal flash, \<open>flash_if.c\<close>.  The memory is a map from
  the address of a word to the word.  \<open>FLASH_ErasePage\<close> and \<open>FLASH_ProgramWord\<close>
  drive the flash controller: what they do with the memory, and whether they report
  \<open>FLASH_COMPLETE\<close>, is the parameter \<open>hw\<close>.  \<open>irq\<close> is the global interrupt enable
  that \<open>__disable_irq\<close> and \<open>__enable_irq\<close> clear and set.
\<close>

type_synonym words = "u32 \<Rightarrow> u32"

record flash_hw =
  FLASH_ErasePage :: "u32 \<Rightarrow> words \<Rightarrow> bool \<times> words"
  FLASH_ProgramWord :: "u32 \<Rightarrow> u32 \<Rightarrow> words \<Rightarrow> bool \<times> words"

record flash =
  fmem :: words
  irq :: bool
  unlocked :: bool

definition USER_FLASH_LAST_PAGE_ADDRESS :: u32 where "USER_FLASH_LAST_PAGE_ADDRESS = 0x0803F000"
definition USER_FLASH_END_ADDRESS :: u32 where "USER_FLASH_END_ADDRESS = 0x0803FFFF"
definition FLASH_PAGE_SIZE :: u32 where "FLASH_PAGE_SIZE = 0x800"
definition IP_ADDR_FLASH :: u32 where "IP_ADDR_FLASH = 0x0803f800"
definition IP_PORT_FLASH :: u32 where "IP_PORT_FLASH = 0x0803f800 + 4"
definition IAP_MODE_FLAGE_FLASH :: u32 where "IAP_MODE_FLAGE_FLASH = 0x0803f800 + 8"
definition RF_CHANNEL_FLAGE_FLASH :: u32 where "RF_CHANNEL_FLAGE_FLASH = 0x0803f800 + 12"

section \<open>Operations\<close>

definition FLASH_If_Init :: "flash \<Rightarrow> flash" where
  "FLASH_If_Init f = f \<lparr> unlocked := True, irq := True \<rparr>"

text \<open>The page by page erase; the result is 0 or -1.\<close>

function erase_from :: "flash_hw \<Rightarrow> u32 \<Rightarrow> flash \<Rightarrow> int \<times> flash" where
  "erase_from hw FlashAddress f =
    (if FlashAddress \<le> USER_FLASH_LAST_PAGE_ADDRESS then
       let (ok, m) = FLASH_ErasePage hw FlashAddress (fmem f); f = f \<lparr> fmem := m \<rparr>
       in if ok then erase_from hw (FlashAddress + FLASH_PAGE_SIZE) f
          else (-1, f \<lparr> irq := True \<rparr>)
     else (0, f \<lparr> irq := True \<rparr>))"
  by pat_completeness auto

lemma page_step:
  assumes "a \<le> USER_FLASH_LAST_PAGE_ADDRESS"
  shows "unat (a + FLASH_PAGE_SIZE) = unat a + 0x800"
proof -
  have "unat a \<le> 0x0803F000"
    using assms by (simp add: USER_FLASH_LAST_PAGE_ADDRESS_def word_le_nat_alt)
  then show ?thesis by (simp add: FLASH_PAGE_SIZE_def unat_word_ariths)
qed

termination erase_from
  by (relation "measure (\<lambda>(hw, a, f). 0x0803F001 - unat a)")
    (simp_all add: page_step, simp add: USER_FLASH_LAST_PAGE_ADDRESS_def word_le_nat_alt)

declare erase_from.simps [simp del]

definition FLASH_If_Erase :: "flash_hw \<Rightarrow> u32 \<Rightarrow> flash \<Rightarrow> int \<times> flash" where
  "FLASH_If_Erase hw StartSector f = erase_from hw StartSector (f \<lparr> irq := False \<rparr>)"

text \<open>
  The write loop shared by \<open>FLASH_If_Write\<close>, which stores the address back, and
  \<open>FLASH_If_DataFlashWrite\<close>: the address after it, whether it reached the end of the
  data, and the flash.  \<open>None\<close> is a read past the end of \<open>Data\<close>.
\<close>

fun write_words :: "flash_hw \<Rightarrow> nat \<Rightarrow> u32 \<Rightarrow> u32 list \<Rightarrow> flash \<Rightarrow> (u32 \<times> bool \<times> flash) option" where
  "write_words hw 0 a ds f = Some (a, True, f)"
| "write_words hw (Suc n) a ds f =
    (if a \<le> USER_FLASH_END_ADDRESS - 4 then
       (case ds of
          [] \<Rightarrow> None
        | d # ds \<Rightarrow>
            let (ok, m) = FLASH_ProgramWord hw a d (fmem f); f = f \<lparr> fmem := m \<rparr>
            in if ok then write_words hw n (a + 4) ds f else Some (a, False, f))
     else Some (a, False, f))"

definition FLASH_If_Write :: "flash_hw \<Rightarrow> u32 \<Rightarrow> u32 list \<Rightarrow> u16 \<Rightarrow> flash \<Rightarrow> (u32 \<times> flash) option" where
  "FLASH_If_Write hw FlashAddress Data DataLength f = do {
     (a, _, f) \<leftarrow> write_words hw (unat DataLength) FlashAddress Data (f \<lparr> irq := False \<rparr>);
     Some (a, f \<lparr> irq := True \<rparr>)
   }"

text \<open>After a complete write the interrupts stay disabled.\<close>

definition FLASH_If_DataFlashWrite :: "flash_hw \<Rightarrow> u32 \<Rightarrow> u32 list \<Rightarrow> u16 \<Rightarrow> flash \<Rightarrow> flash option" where
  "FLASH_If_DataFlashWrite hw FlashAddress Data DataLength f = do {
     (_, complete, f) \<leftarrow> write_words hw (unat DataLength) FlashAddress Data (f \<lparr> irq := False \<rparr>);
     Some (if complete then f else f \<lparr> irq := True \<rparr>)
   }"

text \<open>Every turn reads into the same \<open>*Data\<close>, from a word 16 bytes further on.\<close>

fun read_words :: "nat \<Rightarrow> u32 \<Rightarrow> u32 \<Rightarrow> words \<Rightarrow> u32 \<Rightarrow> u32" where
  "read_words 0 i a m d = d"
| "read_words (Suc n) i a m d =
     read_words n (i + 1) a m (if a \<le> USER_FLASH_END_ADDRESS - 4 then m (a + 4 * (i * 4)) else d)"

definition FLASH_If_DataFlashRead :: "u32 \<Rightarrow> u32 \<Rightarrow> u16 \<Rightarrow> flash \<Rightarrow> u32 \<times> flash" where
  "FLASH_If_DataFlashRead FlashAddress d DataLength f =
     (read_words (unat DataLength) 0 FlashAddress (fmem f) d, f \<lparr> irq := True \<rparr>)"

text \<open>The four words of the configuration, with the default server when it is empty.\<close>

definition GetIpFromFlash :: "flash_hw \<Rightarrow> flash \<Rightarrow> (u32 list \<times> flash) option" where
  "GetIpFromFlash hw f =
    (let f = FLASH_If_Init f;
         (m0, f) = FLASH_If_DataFlashRead IP_ADDR_FLASH 0 1 f;
         (m1, f) = FLASH_If_DataFlashRead IP_PORT_FLASH 0 1 f;
         (m2, f) = FLASH_If_DataFlashRead IAP_MODE_FLAGE_FLASH 0 1 f;
         (m3, f) = FLASH_If_DataFlashRead RF_CHANNEL_FLAGE_FLASH 0 1 f
     in if m0 = 0xffffffff \<or> m1 = 0xffffffff \<or> m3 = 0xffffffff then
          let mid = [0x7B3B60E9, 0x162F, m2, 0];
              f = f \<lparr> fmem := snd (FLASH_ErasePage hw IP_ADDR_FLASH (fmem f)) \<rparr>
          in map_option (\<lambda>f. (mid, f)) (FLASH_If_DataFlashWrite hw IP_ADDR_FLASH mid 4 f)
        else Some ([m0, m1, m2, m3], f))"

text \<open>The length \<open>len\<close> is not used.\<close>

definition WriteIpToFlash :: "flash_hw \<Rightarrow> u32 list \<Rightarrow> u8 \<Rightarrow> flash \<Rightarrow> flash option" where
  "WriteIpToFlash hw ptr len f = do {
     let f = FLASH_If_Init (f \<lparr> irq := False \<rparr>);
     temp \<leftarrow> cread ptr 0 4;
     let f = f \<lparr> fmem := snd (FLASH_ErasePage hw IP_ADDR_FLASH (fmem f)) \<rparr>;
     f \<leftarrow> FLASH_If_DataFlashWrite hw IP_ADDR_FLASH temp 4 f;
     Some (f \<lparr> irq := True \<rparr>)
   }"

section \<open>What the controller does\<close>

text \<open>
  The documented behaviour of the flash: the erase of a page sets every word of it to
  ones, and programming an erased word stores the value; both report completion and
  change nothing else.
\<close>

definition in_page :: "u32 \<Rightarrow> u32 \<Rightarrow> bool" where
  "in_page a x \<longleftrightarrow> unat a \<le> unat x \<and> unat x < unat a + 0x800"

definition erased :: "u32 \<Rightarrow> words \<Rightarrow> words" where
  "erased a m = (\<lambda>x. if in_page a x then 0xFFFFFFFF else m x)"

definition flash_laws :: "flash_hw \<Rightarrow> bool" where
  "flash_laws hw \<longleftrightarrow>
     (\<forall>a m. FLASH_ErasePage hw a m = (True, erased a m)) \<and>
     (\<forall>a v m. m a = 0xFFFFFFFF \<longrightarrow> FLASH_ProgramWord hw a v m = (True, m(a := v)))"

definition nor_flash :: flash_hw where
  "nor_flash = \<lparr> FLASH_ErasePage = \<lambda>a m. (True, erased a m),
     FLASH_ProgramWord = \<lambda>a v m. if m a = 0xFFFFFFFF then (True, m(a := v)) else (False, m) \<rparr>"

lemma nor_flash_laws: "flash_laws nor_flash"
  by (simp add: nor_flash_def flash_laws_def)

lemma program_erased [simp]:
  "flash_laws hw \<Longrightarrow> m a = 0xFFFFFFFF \<Longrightarrow> FLASH_ProgramWord hw a v m = (True, m(a := v))"
  "flash_laws hw \<Longrightarrow> FLASH_ErasePage hw a m = (True, erased a m)"
  by (simp_all add: flash_laws_def)

lemmas flash_addr = IP_ADDR_FLASH_def IP_PORT_FLASH_def IAP_MODE_FLAGE_FLASH_def
  RF_CHANNEL_FLAGE_FLASH_def USER_FLASH_END_ADDRESS_def

text \<open>The memory with the four words of the configuration in their page.\<close>

definition config_mem :: "u32 list \<Rightarrow> words \<Rightarrow> words" where
  "config_mem c m = (erased IP_ADDR_FLASH m)
     (IP_ADDR_FLASH := c ! 0, IP_PORT_FLASH := c ! 1, IAP_MODE_FLAGE_FLASH := c ! 2,
      RF_CHANNEL_FLAGE_FLASH := c ! 3)"

lemma write_config:
  assumes "flash_laws hw" "length c = 4"
  shows "FLASH_If_DataFlashWrite hw IP_ADDR_FLASH c 4
      (f \<lparr> fmem := erased IP_ADDR_FLASH m \<rparr>) =
    Some (f \<lparr> irq := False, fmem := config_mem c m \<rparr>)"
proof -
  obtain w x y z where c: "c = [w, x, y, z]"
    using assms(2) by (auto simp: numeral_eq_Suc length_Suc_conv)
  have blank: "in_page 0x803F800 0x803F800" "in_page 0x803F800 0x803F804"
    "in_page 0x803F800 0x803F808" "in_page 0x803F800 0x803F80C"
    by (simp_all add: in_page_def)
  have four: "write_words hw 4 a ds g = write_words hw (Suc (Suc (Suc (Suc 0)))) a ds g" for a ds g
    by (rule arg_cong[of _ _ "\<lambda>n. write_words hw n a ds g"]) simp
  show ?thesis
    using assms(1) blank
    by (simp add: FLASH_If_DataFlashWrite_def four c config_mem_def flash_addr erased_def)
qed

lemma GetIp_words:
  "GetIpFromFlash hw f =
    (let c = [fmem f IP_ADDR_FLASH, fmem f IP_PORT_FLASH, fmem f IAP_MODE_FLAGE_FLASH,
              fmem f RF_CHANNEL_FLAGE_FLASH];
         f = f \<lparr> unlocked := True, irq := True \<rparr>
     in if c ! 0 = 0xffffffff \<or> c ! 1 = 0xffffffff \<or> c ! 3 = 0xffffffff then
          let mid = [0x7B3B60E9, 0x162F, c ! 2, 0]
          in map_option (\<lambda>f. (mid, f)) (FLASH_If_DataFlashWrite hw IP_ADDR_FLASH mid 4
               (f \<lparr> fmem := snd (FLASH_ErasePage hw IP_ADDR_FLASH (fmem f)) \<rparr>))
        else Some (c, f))"
  by (simp add: GetIpFromFlash_def FLASH_If_Init_def FLASH_If_DataFlashRead_def flash_addr
      numeral_eq_Suc[of num.One] Let_def)

lemma config_mem_lookup [simp]:
  "config_mem c m IP_ADDR_FLASH = c ! 0" "config_mem c m IP_PORT_FLASH = c ! 1"
  "config_mem c m IAP_MODE_FLAGE_FLASH = c ! 2" "config_mem c m RF_CHANNEL_FLAGE_FLASH = c ! 3"
  by (simp_all add: config_mem_def flash_addr)

lemma config_mem_frame: "\<not> in_page IP_ADDR_FLASH a \<Longrightarrow> config_mem c m a = m a"
  by (auto simp: config_mem_def erased_def flash_addr in_page_def)

lemma GetIp_config:
  assumes "c ! 0 \<noteq> 0xffffffff" "c ! 1 \<noteq> 0xffffffff" "c ! 3 \<noteq> 0xffffffff" "length c = 4"
    "fmem f = config_mem c m"
  shows "GetIpFromFlash hw f = Some (c, f \<lparr> unlocked := True, irq := True \<rparr>)"
proof -
  have "[c ! 0, c ! 1, c ! 2, c ! 3] = c"
    using assms(4) by (auto simp: numeral_eq_Suc length_Suc_conv)
  then show ?thesis using assms by (simp add: GetIp_words Let_def)
qed

lemma WriteIp_config:
  assumes "flash_laws hw" "length c = 4"
  shows "WriteIpToFlash hw c n f =
    Some (f \<lparr> unlocked := True, irq := True, fmem := config_mem c (fmem f) \<rparr>)"
  using assms write_config[OF assms, where f = "f \<lparr> unlocked := True, irq := True \<rparr>" and m = "fmem f"]
  by (simp add: WriteIpToFlash_def FLASH_If_Init_def cread_def Let_def)

lemma erase_from_pages:
  assumes "flash_laws hw" "unat a = 0x0803F800 - k * 0x800" "k \<le> 127"
  shows "\<exists>f'. erase_from hw a f = (0, f') \<and> irq f' \<and>
    (\<forall>x. fmem f' x = (if unat a \<le> unat x \<and> unat x < 0x0803F800 then 0xFFFFFFFF else fmem f x))"
  using assms(2,3)
proof (induction k arbitrary: a f)
  case 0
  then have "\<not> a \<le> USER_FLASH_LAST_PAGE_ADDRESS"
    by (simp add: USER_FLASH_LAST_PAGE_ADDRESS_def word_le_nat_alt)
  then show ?case using 0 by (auto simp: erase_from.simps)
next
  case (Suc k)
  have le: "a \<le> USER_FLASH_LAST_PAGE_ADDRESS"
    using Suc.prems by (simp add: USER_FLASH_LAST_PAGE_ADDRESS_def word_le_nat_alt)
  have step: "unat (a + FLASH_PAGE_SIZE) = 0x0803F800 - k * 0x800"
    using page_step[OF le] Suc.prems by simp
  obtain f' where f': "erase_from hw (a + FLASH_PAGE_SIZE) (f \<lparr> fmem := erased a (fmem f) \<rparr>) = (0, f')"
    "irq f'"
    "\<And>x. fmem f' x = (if unat (a + FLASH_PAGE_SIZE) \<le> unat x \<and> unat x < 0x0803F800 then 0xFFFFFFFF
                       else erased a (fmem f) x)"
    using Suc.IH[OF step, of "f \<lparr> fmem := erased a (fmem f) \<rparr>"] Suc.prems by auto
  have "fmem f' x = (if unat a \<le> unat x \<and> unat x < 0x0803F800 then 0xFFFFFFFF else fmem f x)" for x
    unfolding f'(3) step using Suc.prems by (auto simp: erased_def in_page_def)
  then show ?case
    using f'(1,2) le assms(1) by (subst erase_from.simps) (simp add: Let_def)
qed

section \<open>Properties\<close>

text \<open>
  GetIpFromFlash reads back the four words that WriteIpToFlash wrote when the
  server address, the port and the channel are not blank words.
\<close>

theorem config_roundtrip:
  assumes "flash_laws hw" "length c = 4"
    "c ! 0 \<noteq> 0xffffffff" "c ! 1 \<noteq> 0xffffffff" "c ! 3 \<noteq> 0xffffffff"
  shows "\<exists>f'. WriteIpToFlash hw c n f = Some f' \<and> irq f' \<and>
    GetIpFromFlash hw f' = Some (c, f') \<and>
    (\<forall>a. unat a < 0x0803F800 \<or> 0x08040000 \<le> unat a \<longrightarrow> fmem f' a = fmem f a)"
proof -
  let ?f = "f \<lparr> unlocked := True, irq := True, fmem := config_mem c (fmem f) \<rparr>"
  have "GetIpFromFlash hw ?f = Some (c, ?f)"
    using GetIp_config[OF assms(3-5,2), of ?f "fmem f" hw] by simp
  moreover have "\<not> in_page IP_ADDR_FLASH a" if "unat a < 0x0803F800 \<or> 0x08040000 \<le> unat a" for a
    using that by (auto simp: in_page_def IP_ADDR_FLASH_def)
  ultimately show ?thesis
    using WriteIp_config[OF assms(1,2), of n f] by (auto simp: config_mem_frame)
qed

text \<open>
  On a blank flash GetIpFromFlash answers the default server address, port and
  channel and stores them, and returns with interrupts disabled.
\<close>

theorem blank_config_gets_defaults:
  assumes "flash_laws hw" "fmem f IP_ADDR_FLASH = 0xffffffff \<or> fmem f IP_PORT_FLASH = 0xffffffff \<or>
    fmem f RF_CHANNEL_FLAGE_FLASH = 0xffffffff"
  shows "\<exists>f'. GetIpFromFlash hw f = Some ([0x7B3B60E9, 0x162F, fmem f IAP_MODE_FLAGE_FLASH, 0], f') \<and>
    \<not> irq f' \<and>
    GetIpFromFlash hw f' = Some ([0x7B3B60E9, 0x162F, fmem f IAP_MODE_FLAGE_FLASH, 0], f' \<lparr> irq := True \<rparr>)"
proof -
  let ?c = "[0x7B3B60E9, 0x162F, fmem f IAP_MODE_FLAGE_FLASH, 0 :: u32]"
  let ?f = "f \<lparr> unlocked := True, irq := False, fmem := config_mem ?c (fmem f) \<rparr>"
  have "GetIpFromFlash hw f = Some (?c, ?f)"
    using assms write_config[OF assms(1), where c = ?c and f = "f \<lparr> unlocked := True, irq := True \<rparr>" and m = "fmem f"]
    by (auto simp: GetIp_words Let_def)
  moreover have "GetIpFromFlash hw ?f = Some (?c, ?f \<lparr> irq := True \<rparr>)"
    using GetIp_config[of ?c ?f "fmem f" hw] by simp
  ultimately show ?thesis by (intro exI[of _ ?f]) simp
qed

text \<open>
  FLASH_If_Erase from a page below the last one erases every page up to the last
  one, ends, answers 0 and enables interrupts.
\<close>

theorem erase_clears_pages:
  assumes "flash_laws hw" "unat a = 0x0803F800 - k * 0x800" "k \<le> 127"
  shows "\<exists>f'. FLASH_If_Erase hw a f = (0, f') \<and> irq f' \<and>
    (\<forall>x. fmem f' x = (if unat a \<le> unat x \<and> unat x < 0x0803F800 then 0xFFFFFFFF else fmem f x))"
proof -
  have mem: "fmem (f \<lparr> irq := False \<rparr>) = fmem f" by simp
  show ?thesis
    using erase_from_pages[OF assms, of "f \<lparr> irq := False \<rparr>"] unfolding FLASH_If_Erase_def mem .
qed

definition blank_flash :: flash where
  "blank_flash = \<lparr> fmem = \<lambda>_. 0xFFFFFFFF, irq = True, unlocked = False \<rparr>"

theorem config_roundtrip_witness:
  "\<exists>f'. WriteIpToFlash nor_flash [0xC0A80004, 2301, 0xAAAAAAAA, 7] 3 blank_flash = Some f' \<and>
     GetIpFromFlash nor_flash f' = Some ([0xC0A80004, 2301, 0xAAAAAAAA, 7], f')"
  using config_roundtrip[OF nor_flash_laws, of "[0xC0A80004, 2301, 0xAAAAAAAA, 7]" 3 blank_flash] by auto

theorem blank_config_gets_defaults_witness:
  "\<exists>f'. GetIpFromFlash nor_flash blank_flash = Some ([0x7B3B60E9, 0x162F, 0xFFFFFFFF, 0], f') \<and> \<not> irq f'"
  using blank_config_gets_defaults[OF nor_flash_laws, of blank_flash] by (auto simp: blank_flash_def)

theorem erase_clears_pages_witness:
  "\<exists>f'. FLASH_If_Erase nor_flash 0x08010000 blank_flash = (0, f') \<and> irq f'"
  using erase_clears_pages[OF nor_flash_laws, where a = "0x08010000" and k = 95 and f = blank_flash] by auto

end
