(* ===== verification/Iap.thy ===== *)
theory Iap
  imports FlashIf
begin

text \<open>
  The boot loader: the TFTP server of \<open>iap/src/tftpserver_iap.c\<close>, the start of the application
  in \<open>iap/src/main_iap.c\<close> and the choice between the two in \<open>main.c\<close>, compiled in with
  \<open>USE_IAP_TFTP\<close>.  It programs the flash with the functions of \<open>FlashIf\<close>.  What lwIP answers
  (a new control block, whether memory is left, whether the port could be bound) is the
  argument \<open>lw\<close>; a connection is the number of its control block.
\<close>

unbundle bit_operations_syntax

abbreviation (input) TFTP_DATA_LEN_MAX :: nat where "TFTP_DATA_LEN_MAX \<equiv> 512"
abbreviation (input) TFTP_DATA_PKT_HDR_LEN :: nat where "TFTP_DATA_PKT_HDR_LEN \<equiv> 4"
abbreviation (input) TFTP_DATA_PKT_LEN_MAX :: nat where "TFTP_DATA_PKT_LEN_MAX \<equiv> 516"
abbreviation (input) TFTP_WRQ :: u8 where "TFTP_WRQ \<equiv> 2"
abbreviation (input) TFTP_ACK :: u8 where "TFTP_ACK \<equiv> 4"

section \<open>State\<close>

text \<open>The fields \<open>data\<close>, \<open>data_len\<close> and \<open>last_time\<close> of the structure are not used here.\<close>

record tftp_connection_args =
  op :: u8
  to_ip :: u32
  to_port :: u16
  block :: int
  tot_bytes :: int

text \<open>The first segment of a received packet and the length of all its segments.\<close>

record pbuf =
  payload :: bytes
  tot_len :: nat

record lwip_answers =
  udp_new :: "nat option"
  bind_ok :: bool
  malloc_ok :: bool
  alloc_ok :: bool

text \<open>
  \<open>conns\<close>: the connections that have a receive callback, with their arguments; \<open>listening\<close>:
  the callback of port 69; \<open>sent\<close>: the packets given to \<open>udp_sendto\<close>; \<open>app\<close>: stack pointer
  and entry of the application, once it was started.
\<close>

record iap =
  iflash :: flash
  Flash_First_Page_Address :: u32
  Flash_Write_Address :: u32
  total_count :: u32
  conns :: "nat \<Rightarrow> tftp_connection_args option"
  listening :: bool
  sent :: "bytes list"
  flash_net_buf :: "u32 list"
  app :: "(u32 \<times> u32) option"

section \<open>Packets\<close>

definition IAP_tftp_decode_op :: "bytes \<Rightarrow> u8 option" where
  "IAP_tftp_decode_op buf = cget buf 1"

definition IAP_tftp_extract_block :: "bytes \<Rightarrow> u16 option" where
  "IAP_tftp_extract_block buf = do { h \<leftarrow> cget buf 2; l \<leftarrow> cget buf 3; Some (mk16 h l) }"

definition IAP_tftp_set_opcode :: "bytes \<Rightarrow> u8 \<Rightarrow> bytes option" where
  "IAP_tftp_set_opcode buffer opcode = do { b \<leftarrow> cset buffer 0 0; cset b 1 opcode }"

definition IAP_tftp_set_block :: "bytes \<Rightarrow> u16 \<Rightarrow> bytes option" where
  "IAP_tftp_set_block packet blk = do { p \<leftarrow> cset packet 2 (hi8 blk); cset p 3 (lo8 blk) }"

definition IAP_tftp_send_ack_packet :: "lwip_answers \<Rightarrow> int \<Rightarrow> iap \<Rightarrow> iap option" where
  "IAP_tftp_send_ack_packet lw blk s = do {
     packet \<leftarrow> IAP_tftp_set_opcode (replicate 4 0) TFTP_ACK;
     packet \<leftarrow> IAP_tftp_set_block packet (of_int blk);
     if \<not> alloc_ok lw then Some s else Some (s \<lparr> sent := sent s @ [packet] \<rparr>)
   }"

section \<open>Connections\<close>

definition IAP_tftp_cleanup_wr :: "nat \<Rightarrow> iap \<Rightarrow> iap" where
  "IAP_tftp_cleanup_wr upcb s = s \<lparr> conns := (conns s)(upcb := None), listening := True \<rparr>"

text \<open>
  The application is started when its first word can be a stack pointer; the loader does not
  return then.  The mode in the configuration is set before.
\<close>

definition IAP_EndSetFlash :: "flash_hw \<Rightarrow> iap \<Rightarrow> iap option" where
  "IAP_EndSetFlash hw s =
    (if fmem (iflash s) (Flash_First_Page_Address s) AND 0x2FFE0000 = 0x20000000 then do {
       nb \<leftarrow> cset (flash_net_buf s) 2 0xAAAAAAAA;
       f \<leftarrow> WriteIpToFlash hw nb 3 (iflash s);
       let s = s \<lparr> flash_net_buf := nb, iflash := f \<rparr>;
       Some (s \<lparr> app := Some (fmem f (Flash_First_Page_Address s), fmem f (Flash_First_Page_Address s + 4)) \<rparr>)
     } else Some s)"

text \<open>The words of \<open>data_buffer\<close>, which the processor stores with the least significant byte first.\<close>

definition le32 :: "u8 \<Rightarrow> u8 \<Rightarrow> u8 \<Rightarrow> u8 \<Rightarrow> u32" where
  "le32 a b c d = ucast a OR push_bit 8 (ucast b) OR push_bit 16 (ucast c) OR push_bit 24 (ucast d)"

fun words_of :: "bytes \<Rightarrow> u32 list" where
  "words_of (a # b # c # d # r) = le32 a b c d # words_of r"
| "words_of _ = []"

text \<open>\<open>junk\<close> is what \<open>data_buffer\<close>, a local variable of 128 words, holds before the copy.\<close>

definition IAP_wrq_recv_callback ::
    "flash_hw \<Rightarrow> bytes \<Rightarrow> lwip_answers \<Rightarrow> nat \<Rightarrow> pbuf \<Rightarrow> iap \<Rightarrow> iap option" where
  "IAP_wrq_recv_callback hw junk lw upcb p s =
    (if length (payload p) \<noteq> tot_len p then Some s
     else do {
       args \<leftarrow> conns s upcb;
       let len = length (payload p);
       k \<leftarrow> IAP_tftp_extract_block (payload p);
       (s, args) \<leftarrow>
         (if TFTP_DATA_PKT_HDR_LEN < len \<and> uint k = block args + 1 then do {
            data_buffer \<leftarrow> cwrite junk 0 (drop TFTP_DATA_PKT_HDR_LEN (payload p));
            let n = len - TFTP_DATA_PKT_HDR_LEN;
            let count = (if n mod 4 \<noteq> 0 then n div 4 + 1 else n div 4);
            (a, f) \<leftarrow> FLASH_If_Write hw (Flash_Write_Address s) (words_of data_buffer) (of_nat count) (iflash s);
            Some (s \<lparr> total_count := total_count s + of_nat n, Flash_Write_Address := a, iflash := f \<rparr>,
                  args \<lparr> block := block args + 1, tot_bytes := tot_bytes args + int n \<rparr>)
          }
          else if uint k = block args + 1 then Some (s, args \<lparr> block := block args + 1 \<rparr>)
          else Some (s, args));
       let s = s \<lparr> conns := (conns s)(upcb \<mapsto> args) \<rparr>;
       s \<leftarrow> IAP_tftp_send_ack_packet lw (block args) s;
       if len < TFTP_DATA_PKT_LEN_MAX then IAP_EndSetFlash hw (IAP_tftp_cleanup_wr upcb s) else Some s
     })"

definition IAP_tftp_process_write ::
    "flash_hw \<Rightarrow> lwip_answers \<Rightarrow> nat \<Rightarrow> u32 \<Rightarrow> u16 \<Rightarrow> iap \<Rightarrow> iap option" where
  "IAP_tftp_process_write hw lw upcb ip port s =
    (if \<not> malloc_ok lw then Some (IAP_tftp_cleanup_wr upcb s)
     else
       let args = \<lparr> op = TFTP_WRQ, to_ip = ip, to_port = port, block = 0, tot_bytes = 0 \<rparr>;
           s = s \<lparr> conns := (conns s)(upcb \<mapsto> args), total_count := 0 \<rparr>;
           (r, f) = FLASH_If_Erase hw (Flash_First_Page_Address s) (FLASH_If_Init (iflash s));
           s = s \<lparr> iflash := f, Flash_Write_Address := Flash_First_Page_Address s \<rparr>
       in IAP_tftp_send_ack_packet lw (block args) s)"

definition IAP_tftp_recv_callback ::
    "flash_hw \<Rightarrow> lwip_answers \<Rightarrow> u32 \<Rightarrow> u16 \<Rightarrow> pbuf \<Rightarrow> iap \<Rightarrow> iap option" where
  "IAP_tftp_recv_callback hw lw ip port p s =
    (case udp_new lw of
       None \<Rightarrow> Some s
     | Some upcb \<Rightarrow>
         if \<not> bind_ok lw then Some s
         else do {
           opc \<leftarrow> IAP_tftp_decode_op (payload p);
           if opc \<noteq> TFTP_WRQ then Some s
           else IAP_tftp_process_write hw lw upcb ip port s
         })"

definition IAP_tftpd_init :: "lwip_answers \<Rightarrow> iap \<Rightarrow> iap" where
  "IAP_tftpd_init lw s =
    (case udp_new lw of None \<Rightarrow> s | Some _ \<Rightarrow> if bind_ok lw then s \<lparr> listening := True \<rparr> else s)"

definition IAP_main :: "lwip_answers \<Rightarrow> iap \<Rightarrow> iap" where
  "IAP_main lw s = IAP_tftpd_init lw s"

text \<open>The part of \<open>main\<close> that concerns the loader: the mode of the configuration decides.\<close>

definition boot :: "flash_hw \<Rightarrow> lwip_answers \<Rightarrow> iap \<Rightarrow> iap option" where
  "boot hw lw s = do {
     (nb, f) \<leftarrow> GetIpFromFlash hw (iflash s);
     let s = s \<lparr> flash_net_buf := nb, iflash := f \<rparr>;
     iap_mode \<leftarrow> cget nb 2;
     s \<leftarrow> (if iap_mode = 0xAAAAAAAA then IAP_EndSetFlash hw s else Some s);
     Some (if app s = None then IAP_main lw s else s)
   }"


section \<open>Words and bytes\<close>

definition byte_of :: "nat \<Rightarrow> u32 \<Rightarrow> u8" where
  "byte_of j w = ucast (drop_bit (8 * j) w)"

lemma byte_of_le32:
  "byte_of 0 (le32 a b c d) = a" "byte_of 1 (le32 a b c d) = b"
  "byte_of 2 (le32 a b c d) = c" "byte_of 3 (le32 a b c d) = d"
  by (rule bit_word_eqI, auto simp: byte_of_def le32_def bit_simps dest: bit_imp_le_length)+

lemma words_of_length [simp]: "length (words_of bs) = length bs div 4"
  by (induction bs rule: words_of.induct) simp_all

lemma words_of_byte: "i < 4 * (length bs div 4) \<Longrightarrow> byte_of (i mod 4) (words_of bs ! (i div 4)) = bs ! i"
proof (induction bs arbitrary: i rule: words_of.induct)
  case (1 a b c d r)
  show ?case
  proof (cases "i < 4")
    case True
    then have "i = 0 \<or> i = 1 \<or> i = 2 \<or> i = 3" by auto
    then show ?thesis by (elim disjE) (simp_all add: byte_of_le32[simplified])
  next
    case False
    then obtain j where i: "i = j + 4" using le_Suc_ex[of 4 i] by (auto simp: add.commute)
    have "(4 + length r) div 4 = length r div 4 + 1" by presburger
    then have "j < 4 * (length r div 4)" using "1.prems" by (simp add: i)
    moreover have "(j + 4) div 4 = Suc (j div 4)" by presburger
    ultimately show ?thesis using "1.IH"[of j] by (simp add: i)
  qed
qed auto

section \<open>The words of the program in the flash\<close>

definition adr :: "nat \<Rightarrow> u32" where
  "adr k = 0x08010000 + 4 * of_nat k"

lemma unat_adr: "k < 0x10000 \<Longrightarrow> unat (adr k) = 0x08010000 + 4 * k"
  by (simp add: adr_def unat_word_ariths unat_of_nat)

lemma adr_inj: "j < 0x10000 \<Longrightarrow> k < 0x10000 \<Longrightarrow> adr j = adr k \<longleftrightarrow> j = k"
proof
  assume l: "j < 0x10000" "k < 0x10000" and "adr j = adr k"
  then have "unat (adr j) = unat (adr k)" by simp
  then show "j = k" unfolding unat_adr[OF l(1)] unat_adr[OF l(2)] by simp
qed simp

lemma adr_Suc: "adr k + 4 = adr (Suc k)"
  by (simp add: adr_def)

lemma adr_0: "adr 0 = 0x08010000" "adr 1 = 0x08010004"
  by (simp_all add: adr_def)

lemma adr_in: "k < 0xBE00 \<Longrightarrow> adr k \<le> USER_FLASH_END_ADDRESS - 4"
  using unat_adr[of k] by (simp add: word_le_nat_alt USER_FLASH_END_ADDRESS_def)

lemma write_program:
  assumes "flash_laws hw" "j + n \<le> 0xBE00" "n \<le> length ds" "\<forall>i. j \<le> i \<and> i < j + n \<longrightarrow> fmem f (adr i) = 0xFFFFFFFF"
  shows "\<exists>m. write_words hw n (adr j) ds f = Some (adr (j + n), True, f \<lparr> fmem := m \<rparr>) \<and>
    (\<forall>i < n. m (adr (j + i)) = ds ! i) \<and> (\<forall>x. (\<forall>i < n. x \<noteq> adr (j + i)) \<longrightarrow> m x = fmem f x)"
  using assms(2-4)
proof (induction n arbitrary: j ds f)
  case 0
  then show ?case by (intro exI[of _ "fmem f"]) simp
next
  case (Suc n)
  obtain d es where ds: "ds = d # es" using Suc.prems(2) by (cases ds) auto
  let ?f = "f \<lparr> fmem := (fmem f)(adr j := d) \<rparr>"
  have blank: "\<forall>i. Suc j \<le> i \<and> i < Suc j + n \<longrightarrow> fmem ?f (adr i) = 0xFFFFFFFF"
  proof (intro allI impI)
    fix i assume i: "Suc j \<le> i \<and> i < Suc j + n"
    then have "i < 0x10000" "j < 0x10000" "i \<noteq> j" using Suc.prems(1) by linarith+
    then have "adr i \<noteq> adr j" by (simp only: adr_inj simp_thms)
    then show "fmem ?f (adr i) = 0xFFFFFFFF" using Suc.prems(3) i by simp
  qed
  have "Suc j + n \<le> 0xBE00" "n \<le> length es" using Suc.prems(1,2) by (simp_all add: ds)
  from Suc.IH[OF this blank] obtain m where m:
    "write_words hw n (adr (Suc j)) es ?f = Some (adr (Suc j + n), True, ?f \<lparr> fmem := m \<rparr>)"
    "\<forall>i < n. m (adr (Suc j + i)) = es ! i" "\<forall>x. (\<forall>i < n. x \<noteq> adr (Suc j + i)) \<longrightarrow> m x = fmem ?f x"
    by blast
  have p: "FLASH_ProgramWord hw (adr j) d (fmem f) = (True, (fmem f)(adr j := d))"
    using assms(1) Suc.prems(3) by simp
  have "adr j \<le> USER_FLASH_END_ADDRESS - 4" using Suc.prems(1) by (intro adr_in) simp
  then have "write_words hw (Suc n) (adr j) ds f = Some (adr (j + Suc n), True, f \<lparr> fmem := m \<rparr>)"
    using p m(1) by (simp add: ds adr_Suc)
  moreover have mj: "m (adr j) = d"
  proof -
    have "adr j \<noteq> adr (Suc j + i)" if "i < n" for i
    proof -
      have "j < 0x10000" "Suc j + i < 0x10000" "j \<noteq> Suc j + i" using that Suc.prems(1) by linarith+
      then show ?thesis by (simp only: adr_inj simp_thms)
    qed
    then have "m (adr j) = fmem ?f (adr j)" using m(3) by blast
    then show ?thesis by simp
  qed
  have "m (adr (j + i)) = ds ! i" if "i < Suc n" for i
    using that mj m(2) by (cases i) (simp_all add: ds)
  moreover have "m x = fmem f x" if "\<forall>i < Suc n. x \<noteq> adr (j + i)" for x
  proof -
    have "x \<noteq> adr j" using that[rule_format, of 0] by simp
    moreover have "\<forall>i < n. x \<noteq> adr (Suc j + i)"
    proof (intro allI impI)
      fix i assume "i < n"
      then show "x \<noteq> adr (Suc j + i)" using that[rule_format, of "Suc i"] by simp
    qed
    ultimately show ?thesis using m(3) by simp
  qed
  ultimately show ?case by blast
qed

text \<open>The bytes of the program, as the processor reads them.\<close>

definition fbyte :: "words \<Rightarrow> nat \<Rightarrow> u8" where
  "fbyte m i = byte_of (i mod 4) (m (adr (i div 4)))"

lemma FLASH_If_Write_program:
  assumes "flash_laws hw" "128 * k + n \<le> 0xBE00" "n \<le> 128" "length buf = 512"
    "\<forall>i. 128 * k \<le> i \<and> i < 128 * k + n \<longrightarrow> fmem f (adr i) = 0xFFFFFFFF"
  shows "\<exists>m. FLASH_If_Write hw (adr (128 * k)) (words_of buf) (of_nat n) f =
      Some (adr (128 * k + n), f \<lparr> fmem := m, irq := True \<rparr>) \<and>
    (\<forall>i < 512 * k. fbyte m i = fbyte (fmem f) i) \<and> (\<forall>i < 4 * n. fbyte m (512 * k + i) = buf ! i) \<and>
    (\<forall>x. (\<forall>i < n. x \<noteq> adr (128 * k + i)) \<longrightarrow> m x = fmem f x)"
proof -
  have n: "unat (of_nat n :: u16) = n" using assms(3) by (intro unat_of_nat_u16) simp
  have "n \<le> length (words_of buf)" using assms(3,4) by simp
  from write_program[OF assms(1,2) this, of "f \<lparr> irq := False \<rparr>"] assms(5) obtain m where m:
    "write_words hw n (adr (128 * k)) (words_of buf) (f \<lparr> irq := False \<rparr>) =
      Some (adr (128 * k + n), True, f \<lparr> irq := False, fmem := m \<rparr>)"
    "\<forall>i < n. m (adr (128 * k + i)) = words_of buf ! i" "\<forall>x. (\<forall>i < n. x \<noteq> adr (128 * k + i)) \<longrightarrow> m x = fmem f x"
    by auto
  have "fbyte m i = fbyte (fmem f) i" if "i < 512 * k" for i
  proof -
    have "i div 4 < 128 * k" using that by (intro div_less_iff_less_mult[THEN iffD2]) simp_all
    then have "adr (i div 4) \<noteq> adr (128 * k + j)" if "j < n" for j
    proof -
      have "i div 4 < 0x10000" "128 * k + j < 0x10000" "i div 4 \<noteq> 128 * k + j"
        using that assms(2) \<open>i div 4 < 128 * k\<close> by linarith+
      then show ?thesis by (simp only: adr_inj simp_thms)
    qed
    then show ?thesis using m(3) by (simp add: fbyte_def)
  qed
  moreover have "fbyte m (512 * k + i) = buf ! i" if "i < 4 * n" for i
  proof -
    have "512 * k + i = 4 * (128 * k) + i" by simp
    then have e: "(512 * k + i) div 4 = 128 * k + i div 4" "(512 * k + i) mod 4 = i mod 4"
      by (simp_all only: div_mult_self4 mod_mult_self4 zero_neq_numeral not_False_eq_True)
    have "i div 4 < n" using that by (intro div_less_iff_less_mult[THEN iffD2]) simp_all
    then have "m (adr (128 * k + i div 4)) = words_of buf ! (i div 4)" using m(2) by blast
    moreover have "i < 4 * (length buf div 4)" using that assms(3,4) by simp
    ultimately show ?thesis by (simp add: fbyte_def e words_of_byte)
  qed
  ultimately show ?thesis
    using m(1,3) by (intro exI[of _ m]) (simp add: FLASH_If_Write_def n)
qed


section \<open>An upload\<close>

text \<open>The packet with block \<open>k\<close> (from 1 on) of a file, and the acknowledgement of a block.\<close>

definition block_of :: "bytes \<Rightarrow> nat \<Rightarrow> bytes" where
  "block_of img k = take 512 (drop (512 * (k - 1)) img)"

definition data_pkt :: "bytes \<Rightarrow> nat \<Rightarrow> pbuf" where
  "data_pkt img k = (let d = [0, 3, hi8 (of_nat k), lo8 (of_nat k)] @ block_of img k
     in \<lparr> payload = d, tot_len = length d \<rparr>)"

definition ack_pkt :: "nat \<Rightarrow> bytes" where
  "ack_pkt k = [0, 4, hi8 (of_nat k), lo8 (of_nat k)]"

text \<open>
  What a client that repeats packets may send after \<open>k\<close> blocks: a block again, the next
  one, or the last one, which is shorter than 512 bytes and ends the transfer.
\<close>

inductive upload :: "bytes \<Rightarrow> nat \<Rightarrow> pbuf list \<Rightarrow> bool" for img where
  last: "length img < 512 * (k + 1) \<Longrightarrow> upload img k [data_pkt img (k + 1)]"
| more: "512 * (k + 1) \<le> length img \<Longrightarrow> upload img (k + 1) ps \<Longrightarrow> upload img k (data_pkt img (k + 1) # ps)"
| again: "1 \<le> j \<Longrightarrow> j \<le> k \<Longrightarrow> upload img k ps \<Longrightarrow> upload img k (data_pkt img j # ps)"

text \<open>lwIP calls the callback for the packets of a connection as long as it is open.\<close>

fun datagrams :: "flash_hw \<Rightarrow> bytes \<Rightarrow> lwip_answers \<Rightarrow> nat \<Rightarrow> pbuf list \<Rightarrow> iap \<Rightarrow> iap option" where
  "datagrams hw junk lw u [] s = Some s"
| "datagrams hw junk lw u (p # ps) s = do {
     s \<leftarrow> (if conns s u = None then Some s else IAP_wrq_recv_callback hw junk lw u p s);
     datagrams hw junk lw u ps s
   }"

lemma send_ack:
  assumes "alloc_ok lw"
  shows "IAP_tftp_send_ack_packet lw (int k) s = Some (s \<lparr> sent := sent s @ [ack_pkt k] \<rparr>)"
proof -
  have "replicate 4 (0 :: u8) = [0, 0, 0, 0]" by (simp add: numeral_eq_Suc)
  then show ?thesis
    using assms by (simp add: IAP_tftp_send_ack_packet_def IAP_tftp_set_opcode_def IAP_tftp_set_block_def ack_pkt_def)
qed

lemma data_pkt_simps:
  "length (payload (data_pkt img k)) = 4 + length (block_of img k)"
  "tot_len (data_pkt img k) = 4 + length (block_of img k)"
  "IAP_tftp_extract_block (payload (data_pkt img k)) = Some (of_nat k)"
  "drop 4 (payload (data_pkt img k)) = block_of img k"
  by (simp_all add: data_pkt_def Let_def IAP_tftp_extract_block_def)

text \<open>The state of an upload after \<open>k\<close> blocks.\<close>

definition uploading :: "nat \<Rightarrow> bytes \<Rightarrow> words \<Rightarrow> u32 list \<Rightarrow> nat \<Rightarrow> iap \<Rightarrow> bool" where
  "uploading u img m0 nb k s \<longleftrightarrow> (\<exists>c. conns s u = Some c \<and> block c = int k) \<and>
     Flash_First_Page_Address s = adr 0 \<and> Flash_Write_Address s = adr (128 * k) \<and> app s = None \<and>
     flash_net_buf s = nb \<and> (\<forall>i < 512 * k. fbyte (fmem (iflash s)) i = img ! i) \<and>
     (\<forall>j. 128 * k \<le> j \<and> j < 0xBE00 \<longrightarrow> fmem (iflash s) (adr j) = 0xFFFFFFFF) \<and>
     (\<forall>x. 0x0803F800 \<le> unat x \<longrightarrow> fmem (iflash s) x = m0 x)"

lemma u16_of_nat: "k < 65536 \<Longrightarrow> uint (of_nat k :: u16) = int k"
  using unat_of_nat_u16[of k] by (metis uint_nat)

text \<open>Storing a block of the file, whole or the last one.\<close>

lemma store_block:
  assumes "flash_laws hw" "length junk = 512" "length img \<le> 0x2F800" "uploading u img m0 nb k s"
    "b = block_of img (k + 1)" "b \<noteq> []" "n = length b div 4 + (if length b mod 4 \<noteq> 0 then 1 else 0)"
    "512 * k < length img"
  shows "\<exists>buf m a. cwrite junk 0 b = Some buf \<and> n \<le> 128 \<and>
    FLASH_If_Write hw (Flash_Write_Address s) (words_of buf) (of_nat n) (iflash s) =
      Some (a, iflash s \<lparr> fmem := m, irq := True \<rparr>) \<and>
    a = adr (128 * k + n) \<and> (\<forall>i < 512 * k + length b. fbyte m i = img ! i) \<and>
    (\<forall>j. 128 * k + n \<le> j \<and> j < 0xBE00 \<longrightarrow> m (adr j) = 0xFFFFFFFF) \<and>
    (\<forall>x. 0x0803F800 \<le> unat x \<longrightarrow> m x = m0 x)"
proof -
  have b: "b = take 512 (drop (512 * k) img)" using assms(5) by (simp add: block_of_def)
  then have lb: "length b \<le> 512" "length b \<le> length img - 512 * k" by simp_all
  have dm: "4 * (length b div 4) + length b mod 4 = length b" "length b mod 4 < 4" by simp_all
  have ln: "length b \<le> 4 * n \<and> 4 * n \<le> length b + 3"
  proof (cases "length b mod 4 = 0")
    case True
    then have "n = length b div 4" by (simp only: assms(7) simp_thms if_False not_True_eq_False add_0_right)
    then show ?thesis using dm True by linarith
  next
    case False
    then have "n = length b div 4 + 1" by (simp only: assms(7) simp_thms if_True not_False_eq_True)
    then show ?thesis using dm False by linarith
  qed
  have n: "n \<le> 128" using ln lb(1) by linarith
  have kn: "128 * k + n \<le> 0xBE00" using ln lb(2) assms(3,8) by linarith
  obtain buf where buf: "cwrite junk 0 b = Some buf" "buf = b @ drop (length b) junk"
    using assms(2) lb(1) by (simp add: cwrite_def)
  have lbuf: "length buf = 512" using buf(2) assms(2) lb(1) by simp
  have up: "Flash_Write_Address s = adr (128 * k)" "\<forall>i < 512 * k. fbyte (fmem (iflash s)) i = img ! i"
    "\<forall>j. 128 * k \<le> j \<and> j < 0xBE00 \<longrightarrow> fmem (iflash s) (adr j) = 0xFFFFFFFF"
    "\<forall>x. 0x0803F800 \<le> unat x \<longrightarrow> fmem (iflash s) x = m0 x"
    using assms(4) by (simp_all add: uploading_def)
  have "\<forall>i. 128 * k \<le> i \<and> i < 128 * k + n \<longrightarrow> fmem (iflash s) (adr i) = 0xFFFFFFFF" using up(3) kn by simp
  from FLASH_If_Write_program[OF assms(1) kn n lbuf this] obtain m where m:
    "FLASH_If_Write hw (adr (128 * k)) (words_of buf) (of_nat n) (iflash s) =
      Some (adr (128 * k + n), iflash s \<lparr> fmem := m, irq := True \<rparr>)"
    "\<forall>i < 512 * k. fbyte m i = fbyte (fmem (iflash s)) i" "\<forall>i < 4 * n. fbyte m (512 * k + i) = buf ! i"
    "\<forall>x. (\<forall>i < n. x \<noteq> adr (128 * k + i)) \<longrightarrow> m x = fmem (iflash s) x"
    by blast
  have "fbyte m i = img ! i" if "i < 512 * k + length b" for i
  proof (cases "i < 512 * k")
    case True
    then show ?thesis using m(2) up(2) by simp
  next
    case False
    define j where "j = i - 512 * k"
    have j: "i = 512 * k + j" "j < length b" using False that by (simp_all add: j_def)
    then have "fbyte m i = buf ! j" using m(3) ln by simp
    also have "\<dots> = img ! i" using j lb assms(8) by (simp add: buf(2) nth_append b)
    finally show ?thesis .
  qed
  moreover have "m (adr j) = 0xFFFFFFFF" if "128 * k + n \<le> j \<and> j < 0xBE00" for j
  proof -
    have "adr j \<noteq> adr (128 * k + i)" if "i < n" for i
    proof -
      have "j < 0x10000" "128 * k + i < 0x10000" "j \<noteq> 128 * k + i"
        using that \<open>128 * k + n \<le> j \<and> j < 0xBE00\<close> kn by linarith+
      then show ?thesis by (simp only: adr_inj simp_thms)
    qed
    then show ?thesis using m(4) up(3) that by simp
  qed
  moreover have "m x = m0 x" if "0x0803F800 \<le> unat x" for x
  proof -
    have "x \<noteq> adr (128 * k + i)" if "i < n" for i
    proof -
      have "128 * k + i < 0xBE00" using that kn by linarith
      then have "unat (adr (128 * k + i)) < 0x0803F800" using unat_adr[of "128 * k + i"] by simp
      then show ?thesis using \<open>0x0803F800 \<le> unat x\<close> by auto
    qed
    then show ?thesis using m(4) up(4) that by simp
  qed
  ultimately show ?thesis using buf(1) m(1) n up(1) by metis
qed


text \<open>What the callback does with the next block: \<open>upload_last\<close> is the state before the start.\<close>

definition upload_last :: "nat \<Rightarrow> bytes \<Rightarrow> words \<Rightarrow> u32 list \<Rightarrow> nat \<Rightarrow> iap \<Rightarrow> bool" where
  "upload_last u img m0 nb k s \<longleftrightarrow> conns s u = None \<and> listening s \<and> Flash_First_Page_Address s = adr 0 \<and>
     app s = None \<and> flash_net_buf s = nb \<and> sent s \<noteq> [] \<and> List.last (sent s) = ack_pkt k \<and>
     (\<forall>i < length img. fbyte (fmem (iflash s)) i = img ! i) \<and>
     (\<forall>x. 0x0803F800 \<le> unat x \<longrightarrow> fmem (iflash s) x = m0 x)"

lemma callback_next:
  assumes "length (payload p) = tot_len p" "conns s u = Some c0" "IAP_tftp_extract_block (payload p) = Some w"
    "uint w = block c0 + 1" "length (payload p) = 4 + n" "0 < n" "cwrite junk 0 (drop 4 (payload p)) = Some buf"
    "FLASH_If_Write hw (Flash_Write_Address s) (words_of buf)
       (of_nat (if n mod 4 \<noteq> 0 then n div 4 + 1 else n div 4)) (iflash s) = Some (a, f)"
    "\<And>s. IAP_tftp_send_ack_packet lw (block c0 + 1) s = Some (s \<lparr> sent := sent s @ [ack] \<rparr>)"
  shows "IAP_wrq_recv_callback hw junk lw u p s =
    (let c = c0 \<lparr> block := block c0 + 1, tot_bytes := tot_bytes c0 + int n \<rparr>;
         s1 = s \<lparr> total_count := total_count s + of_nat n, Flash_Write_Address := a, iflash := f,
                  conns := (conns s)(u \<mapsto> c), sent := sent s @ [ack] \<rparr>
     in if n < 512 then IAP_EndSetFlash hw (IAP_tftp_cleanup_wr u s1) else Some s1)"
proof -
  have "4 < length (payload p) \<and> uint w = block c0 + 1" using assms(4-6) by simp
  moreover have "length (payload p) - 4 = n" using assms(5) by simp
  moreover have "length (payload p) < 516 \<longleftrightarrow> n < 512" using assms(5) by simp
  ultimately show ?thesis
    using assms(1-3,7,8) by (simp add: IAP_wrq_recv_callback_def Let_def assms(9))
qed

lemma callback_other:
  assumes "length (payload p) = tot_len p" "conns s u = Some c0" "IAP_tftp_extract_block (payload p) = Some w"
    "uint w \<noteq> block c0 + 1"
    "\<And>s. IAP_tftp_send_ack_packet lw (block c0) s = Some (s \<lparr> sent := sent s @ [ack] \<rparr>)"
  shows "IAP_wrq_recv_callback hw junk lw u p s =
    (let s1 = s \<lparr> conns := (conns s)(u \<mapsto> c0), sent := sent s @ [ack] \<rparr>
     in if length (payload p) < 516 then IAP_EndSetFlash hw (IAP_tftp_cleanup_wr u s1) else Some s1)"
  using assms(1-4) by (simp add: IAP_wrq_recv_callback_def Let_def assms(5))

lemma callback_empty:
  assumes "length (payload p) = tot_len p" "conns s u = Some c0" "IAP_tftp_extract_block (payload p) = Some w"
    "uint w = block c0 + 1" "length (payload p) = 4"
    "\<And>s. IAP_tftp_send_ack_packet lw (block c0 + 1) s = Some (s \<lparr> sent := sent s @ [ack] \<rparr>)"
  shows "IAP_wrq_recv_callback hw junk lw u p s =
    IAP_EndSetFlash hw (IAP_tftp_cleanup_wr u
      (s \<lparr> conns := (conns s)(u \<mapsto> c0 \<lparr> block := block c0 + 1 \<rparr>), sent := sent s @ [ack] \<rparr>))"
  using assms(1-5) by (simp add: IAP_wrq_recv_callback_def Let_def assms(6))

lemma stored_block:
  assumes "flash_laws hw" "alloc_ok lw" "length junk = 512" "length img \<le> 0x2F800" "uploading u img m0 nb k s"
    "512 * k < length img"
  shows "\<exists>c m a s1. s1 = s \<lparr> total_count := total_count s + of_nat (length (block_of img (k + 1))),
        Flash_Write_Address := a, iflash := iflash s \<lparr> fmem := m, irq := True \<rparr>, conns := (conns s)(u \<mapsto> c),
        sent := sent s @ [ack_pkt (k + 1)] \<rparr> \<and> block c = int (k + 1) \<and>
    IAP_wrq_recv_callback hw junk lw u (data_pkt img (k + 1)) s =
      (if length (block_of img (k + 1)) < 512 then IAP_EndSetFlash hw (IAP_tftp_cleanup_wr u s1) else Some s1) \<and>
    (512 * (k + 1) \<le> length img \<longrightarrow> a = adr (128 * (k + 1))) \<and>
    (\<forall>i < 512 * k + length (block_of img (k + 1)). fbyte m i = img ! i) \<and>
    (\<forall>j. 128 * (k + 1) \<le> j \<and> j < 0xBE00 \<longrightarrow> m (adr j) = 0xFFFFFFFF) \<and>
    (\<forall>x. 0x0803F800 \<le> unat x \<longrightarrow> m x = m0 x)"
proof -
  let ?b = "block_of img (k + 1)"
  define n where "n = length ?b div 4 + (if length ?b mod 4 \<noteq> 0 then 1 else 0)"
  have ne: "?b \<noteq> []" using assms(6) by (simp add: block_of_def)
  obtain c0 where c0: "conns s u = Some c0" "block c0 = int k" using assms(5) by (auto simp: uploading_def)
  obtain buf m a where m: "cwrite junk 0 ?b = Some buf" "n \<le> 128"
    "FLASH_If_Write hw (Flash_Write_Address s) (words_of buf) (of_nat n) (iflash s) =
      Some (a, iflash s \<lparr> fmem := m, irq := True \<rparr>)"
    "a = adr (128 * k + n)" "\<forall>i < 512 * k + length ?b. fbyte m i = img ! i"
    "\<forall>j. 128 * k + n \<le> j \<and> j < 0xBE00 \<longrightarrow> m (adr j) = 0xFFFFFFFF" "\<forall>x. 0x0803F800 \<le> unat x \<longrightarrow> m x = m0 x"
    using store_block[OF assms(1,3-5) refl ne n_def assms(6)] by (elim exE conjE) (rule that)
  define c where "c = c0 \<lparr> block := block c0 + 1, tot_bytes := tot_bytes c0 + int (length ?b) \<rparr>"
  define s1 where "s1 = s \<lparr> total_count := total_count s + of_nat (length ?b), Flash_Write_Address := a,
    iflash := iflash s \<lparr> fmem := m, irq := True \<rparr>, conns := (conns s)(u \<mapsto> c), sent := sent s @ [ack_pkt (k + 1)] \<rparr>"
  have k: "k + 1 < 65536" using assms(4,6) by linarith
  have cnt: "(if length ?b mod 4 \<noteq> 0 then length ?b div 4 + 1 else length ?b div 4) = n"
    by (simp add: n_def)
  have bc: "block c = int (k + 1)" by (simp add: c_def c0(2))
  have "IAP_wrq_recv_callback hw junk lw u (data_pkt img (k + 1)) s =
      (if length ?b < 512 then IAP_EndSetFlash hw (IAP_tftp_cleanup_wr u s1) else Some s1)"
  proof -
    have "length (payload (data_pkt img (k + 1))) = tot_len (data_pkt img (k + 1))"
      by (simp only: data_pkt_simps)
    note callback_next[OF this c0(1) data_pkt_simps(3) _ data_pkt_simps(1), of junk buf hw a _ lw "ack_pkt (k + 1)"]
    moreover have "uint (of_nat (k + 1) :: u16) = block c0 + 1" using u16_of_nat[OF k] c0(2) by simp
    moreover have "cwrite junk 0 (drop 4 (payload (data_pkt img (k + 1)))) = Some buf"
      using m(1) by (simp only: data_pkt_simps)
    moreover have "0 < length ?b" using ne by simp
    moreover have "IAP_tftp_send_ack_packet lw (block c0 + 1) t = Some (t \<lparr> sent := sent t @ [ack_pkt (k + 1)] \<rparr>)" for t
      using send_ack[OF assms(2), of "k + 1" t] c0(2) by (simp add: add.commute)
    ultimately show ?thesis
      using m(3) cnt by (simp only: Let_def c_def[symmetric] s1_def)
  qed
  moreover have "a = adr (128 * (k + 1))" if "512 * (k + 1) \<le> length img"
  proof -
    have "length ?b = 512" using that by (simp add: block_of_def)
    then have "n = 128" by (simp add: n_def)
    then show ?thesis using m(4) by (simp add: add.commute)
  qed
  moreover have "\<forall>j. 128 * (k + 1) \<le> j \<and> j < 0xBE00 \<longrightarrow> m (adr j) = 0xFFFFFFFF" using m(2,6) by simp
  ultimately show ?thesis using s1_def bc m(5,7) by blast
qed


lemma upload_step:
  assumes "flash_laws hw" "alloc_ok lw" "length junk = 512" "length img \<le> 0x2F800" "uploading u img m0 nb k s"
    "512 * (k + 1) \<le> length img"
  shows "\<exists>s'. IAP_wrq_recv_callback hw junk lw u (data_pkt img (k + 1)) s = Some s' \<and> uploading u img m0 nb (k + 1) s'"
proof -
  have "512 * k < length img" using assms(6) by simp
  from stored_block[OF assms(1-5) this] obtain c m a s1 where s1:
    "s1 = s \<lparr> total_count := total_count s + of_nat (length (block_of img (k + 1))),
        Flash_Write_Address := a, iflash := iflash s \<lparr> fmem := m, irq := True \<rparr>, conns := (conns s)(u \<mapsto> c),
        sent := sent s @ [ack_pkt (k + 1)] \<rparr>" "block c = int (k + 1)"
    "IAP_wrq_recv_callback hw junk lw u (data_pkt img (k + 1)) s =
      (if length (block_of img (k + 1)) < 512 then IAP_EndSetFlash hw (IAP_tftp_cleanup_wr u s1) else Some s1)"
    "512 * (k + 1) \<le> length img \<longrightarrow> a = adr (128 * (k + 1))"
    "\<forall>i < 512 * k + length (block_of img (k + 1)). fbyte m i = img ! i"
    "\<forall>j. 128 * (k + 1) \<le> j \<and> j < 0xBE00 \<longrightarrow> m (adr j) = 0xFFFFFFFF"
    "\<forall>x. 0x0803F800 \<le> unat x \<longrightarrow> m x = m0 x"
    by (elim exE conjE) (rule that)
  have full: "length (block_of img (k + 1)) = 512" using assms(6) by (simp add: block_of_def)
  have "\<forall>i < 512 * (k + 1). fbyte m i = img ! i" using s1(5) unfolding full by simp
  then have "uploading u img m0 nb (k + 1) s1"
    using s1(1,2,4,6,7) assms(5,6) by (simp only: uploading_def) simp
  then show ?thesis using s1(3) full by simp
qed

lemma upload_again:
  assumes "alloc_ok lw" "uploading u img m0 nb k s" "1 \<le> j" "j \<le> k" "512 * k \<le> length img" "length img \<le> 0x2F800"
  shows "\<exists>s'. IAP_wrq_recv_callback hw junk lw u (data_pkt img j) s = Some s' \<and> uploading u img m0 nb k s'"
proof -
  obtain c0 where c0: "conns s u = Some c0" "block c0 = int k" using assms(2) by (auto simp: uploading_def)
  have j: "j < 65536" using assms(4-6) by linarith
  have "length (block_of img j) = 512"
  proof -
    have "512 * (j - 1) + 512 \<le> length img" using assms(3-5) by linarith
    then show ?thesis by (simp add: block_of_def)
  qed
  then have len: "length (payload (data_pkt img j)) = 516" by (simp add: data_pkt_simps)
  have "length (payload (data_pkt img j)) = tot_len (data_pkt img j)" by (simp only: data_pkt_simps)
  from callback_other[OF this c0(1) data_pkt_simps(3), of lw "ack_pkt k"] len
  have "IAP_wrq_recv_callback hw junk lw u (data_pkt img j) s =
      Some (s \<lparr> conns := (conns s)(u \<mapsto> c0), sent := sent s @ [ack_pkt k] \<rparr>)"
    using send_ack[OF assms(1), of k] u16_of_nat[OF j] c0(2) assms(4) by simp
  moreover have "uploading u img m0 nb k (s \<lparr> conns := (conns s)(u \<mapsto> c0), sent := sent s @ [ack_pkt k] \<rparr>)"
    using assms(2) c0 by (simp add: uploading_def)
  ultimately show ?thesis by blast
qed

lemma upload_end:
  assumes "flash_laws hw" "alloc_ok lw" "length junk = 512" "length img \<le> 0x2F800" "uploading u img m0 nb k s"
    "512 * k \<le> length img" "length img < 512 * (k + 1)"
  shows "\<exists>s1. upload_last u img m0 nb (k + 1) s1 \<and>
    IAP_wrq_recv_callback hw junk lw u (data_pkt img (k + 1)) s = IAP_EndSetFlash hw s1"
proof (cases "512 * k = length img")
  case True
  obtain c0 where c0: "conns s u = Some c0" "block c0 = int k" using assms(5) by (auto simp: uploading_def)
  have k: "k + 1 < 65536" using assms(4,6) by linarith
  have e: "block_of img (k + 1) = []" using True by (simp add: block_of_def)
  then have len: "length (payload (data_pkt img (k + 1))) = 4" by (simp only: data_pkt_simps) simp
  have "length (payload (data_pkt img (k + 1))) = tot_len (data_pkt img (k + 1))" by (simp only: data_pkt_simps)
  note callback_empty[OF this c0(1) data_pkt_simps(3) _ len, of lw "ack_pkt (k + 1)" hw junk]
  moreover have "uint (of_nat (k + 1) :: u16) = block c0 + 1" using u16_of_nat[OF k] c0(2) by simp
  moreover have "IAP_tftp_send_ack_packet lw (block c0 + 1) t = Some (t \<lparr> sent := sent t @ [ack_pkt (k + 1)] \<rparr>)" for t
    using send_ack[OF assms(2), of "k + 1" t] c0(2) by (simp add: add.commute)
  ultimately have "IAP_wrq_recv_callback hw junk lw u (data_pkt img (k + 1)) s =
    IAP_EndSetFlash hw (IAP_tftp_cleanup_wr u
      (s \<lparr> conns := (conns s)(u \<mapsto> c0 \<lparr> block := block c0 + 1 \<rparr>), sent := sent s @ [ack_pkt (k + 1)] \<rparr>))" by blast
  moreover have "upload_last u img m0 nb (k + 1) (IAP_tftp_cleanup_wr u
      (s \<lparr> conns := (conns s)(u \<mapsto> c0 \<lparr> block := block c0 + 1 \<rparr>), sent := sent s @ [ack_pkt (k + 1)] \<rparr>))"
    using assms(5) True by (simp add: upload_last_def uploading_def IAP_tftp_cleanup_wr_def)
  ultimately show ?thesis by blast
next
  case False
  then have "512 * k < length img" using assms(6) by simp
  from stored_block[OF assms(1-5) this] obtain c m a s1 where s1:
    "s1 = s \<lparr> total_count := total_count s + of_nat (length (block_of img (k + 1))),
        Flash_Write_Address := a, iflash := iflash s \<lparr> fmem := m, irq := True \<rparr>, conns := (conns s)(u \<mapsto> c),
        sent := sent s @ [ack_pkt (k + 1)] \<rparr>" "block c = int (k + 1)"
    "IAP_wrq_recv_callback hw junk lw u (data_pkt img (k + 1)) s =
      (if length (block_of img (k + 1)) < 512 then IAP_EndSetFlash hw (IAP_tftp_cleanup_wr u s1) else Some s1)"
    "\<forall>i < 512 * k + length (block_of img (k + 1)). fbyte m i = img ! i"
    "\<forall>x. 0x0803F800 \<le> unat x \<longrightarrow> m x = m0 x"
    by (elim exE conjE) (rule that)
  have l: "length (block_of img (k + 1)) = length img - 512 * k" "length (block_of img (k + 1)) < 512"
    using assms(6,7) by (simp_all add: block_of_def)
  then have "\<forall>i < length img. fbyte m i = img ! i" using s1(4) assms(6) by simp
  then have "upload_last u img m0 nb (k + 1) (IAP_tftp_cleanup_wr u s1)"
    using s1(1,5) assms(5) by (simp add: upload_last_def uploading_def IAP_tftp_cleanup_wr_def)
  then show ?thesis using s1(3) l(2) by auto
qed

lemma datagrams_closed: "conns s u = None \<Longrightarrow> datagrams hw junk lw u ps s = Some s"
  by (induction ps) simp_all

lemma upload_runs:
  assumes "upload img k ps" "flash_laws hw" "alloc_ok lw" "length junk = 512" "length img \<le> 0x2F800"
    "uploading u img m0 nb k s" "512 * k \<le> length img"
  shows "\<exists>s1. upload_last u img m0 nb (length img div 512 + 1) s1 \<and> datagrams hw junk lw u ps s = IAP_EndSetFlash hw s1"
  using assms(1,6,7)
proof (induction arbitrary: s rule: upload.induct)
  case (last k)
  have "length img div 512 = k" using last by (intro div_nat_eqI) simp_all
  moreover obtain c where "conns s u = Some c" using last(2) by (auto simp: uploading_def)
  moreover have "datagrams hw junk lw u [data_pkt img (k + 1)] s = IAP_wrq_recv_callback hw junk lw u (data_pkt img (k + 1)) s"
    if "conns s u = Some c" for c
    using that by (cases "IAP_wrq_recv_callback hw junk lw u (data_pkt img (k + 1)) s") simp_all
  ultimately show ?case using upload_end[OF assms(2-5) last(2,3,1)] by metis
next
  case (more k ps)
  obtain s' where s': "IAP_wrq_recv_callback hw junk lw u (data_pkt img (k + 1)) s = Some s'"
    "uploading u img m0 nb (k + 1) s'" using upload_step[OF assms(2-5) more.prems(1) more.hyps(1)] by blast
  obtain c where "conns s u = Some c" using more.prems(1) by (auto simp: uploading_def)
  then show ?case using s'(1) more.IH[OF s'(2) more.hyps(1)] by simp
next
  case (again j k ps)
  obtain s' where s': "IAP_wrq_recv_callback hw junk lw u (data_pkt img j) s = Some s'" "uploading u img m0 nb k s'"
    using upload_again[OF assms(3) again.prems(1) again.hyps(1,2) again.prems(2) assms(5)] by blast
  obtain c where "conns s u = Some c" using again.prems(1) by (auto simp: uploading_def)
  then show ?case using s'(1) again.IH[OF s'(2) again.prems(2)] by simp
qed


lemma bit_byte_of: "bit (byte_of j w) n \<longleftrightarrow> n < 8 \<and> bit w (8 * j + n)"
  by (auto simp: byte_of_def bit_simps)

lemma le32_bytes: "le32 (byte_of 0 w) (byte_of 1 w) (byte_of 2 w) (byte_of 3 w) = w"
proof (rule bit_word_eqI)
  fix n assume n: "n < LENGTH(32)"
  then consider "n < 8" | "8 \<le> n" "n < 16" | "16 \<le> n" "n < 24" | "24 \<le> n" "n < 32" by fastforce
  then show "bit (le32 (byte_of 0 w) (byte_of 1 w) (byte_of 2 w) (byte_of 3 w)) n \<longleftrightarrow> bit w n"
    using n by cases (simp_all add: le32_def bit_or_iff bit_push_bit_iff bit_ucast_iff bit_byte_of, auto)
qed

text \<open>The first two words of a program: its stack pointer and its entry.\<close>

definition program_sp :: "bytes \<Rightarrow> u32" where
  "program_sp img = le32 (img ! 0) (img ! 1) (img ! 2) (img ! 3)"

definition program_entry :: "bytes \<Rightarrow> u32" where
  "program_entry img = le32 (img ! 4) (img ! 5) (img ! 6) (img ! 7)"

definition valid_sp :: "u32 \<Rightarrow> bool" where
  "valid_sp w \<longleftrightarrow> w AND 0x2FFE0000 = 0x20000000"

lemma program_words:
  assumes "\<forall>i < length img. fbyte m i = img ! i" "8 \<le> length img"
  shows "m (adr 0) = program_sp img" "m (adr 1) = program_entry img"
proof -
  have "fbyte m i = img ! i" if "i < 8" for i
  proof -
    have "i < length img" using that assms(2) by linarith
    then show ?thesis using assms(1) by blast
  qed
  then have "fbyte m 0 = img ! 0" "fbyte m 1 = img ! 1" "fbyte m 2 = img ! 2" "fbyte m 3 = img ! 3"
    "fbyte m 4 = img ! 4" "fbyte m 5 = img ! 5" "fbyte m 6 = img ! 6" "fbyte m 7 = img ! 7"
    by simp_all
  then have b: "byte_of 0 (m (adr 0)) = img ! 0" "byte_of 1 (m (adr 0)) = img ! 1" "byte_of 2 (m (adr 0)) = img ! 2"
    "byte_of 3 (m (adr 0)) = img ! 3" "byte_of 0 (m (adr 1)) = img ! 4" "byte_of 1 (m (adr 1)) = img ! 5"
    "byte_of 2 (m (adr 1)) = img ! 6" "byte_of 3 (m (adr 1)) = img ! 7"
    by (simp_all add: fbyte_def)
  show "m (adr 0) = program_sp img" using le32_bytes[of "m (adr 0)"] unfolding b program_sp_def by simp
  show "m (adr 1) = program_entry img" using le32_bytes[of "m (adr 1)"] unfolding b program_entry_def by simp
qed

lemma below_config: "i < 0xBE00 \<Longrightarrow> \<not> in_page IP_ADDR_FLASH (adr i)"
  using unat_adr[of i] by (simp add: in_page_def IP_ADDR_FLASH_def)

text \<open>The start: nothing happens without a valid stack pointer.\<close>

lemma EndSetFlash:
  assumes "flash_laws hw" "length nb = 4" "flash_net_buf s = nb" "Flash_First_Page_Address s = adr 0" "app s = None"
  shows "IAP_EndSetFlash hw s =
    Some (if valid_sp (fmem (iflash s) (adr 0)) then s \<lparr> flash_net_buf := nb[2 := 0xAAAAAAAA],
        iflash := iflash s \<lparr> unlocked := True, irq := True, fmem := config_mem (nb[2 := 0xAAAAAAAA]) (fmem (iflash s)) \<rparr>,
        app := Some (fmem (iflash s) (adr 0), fmem (iflash s) (adr 1)) \<rparr>
      else s)"
proof -
  have "length (nb[2 := 0xAAAAAAAA]) = 4" using assms(2) by simp
  note WriteIp_config[OF assms(1) this, of 3 "iflash s"]
  moreover have "config_mem c m (adr 0) = m (adr 0)" "config_mem c m (adr 1) = m (adr 1)" for c m
    using config_mem_frame below_config by simp_all
  moreover have "adr 0 + 4 = adr 1" by (simp add: adr_Suc)
  ultimately show ?thesis
    using assms(2-5) by (simp add: IAP_EndSetFlash_def valid_sp_def Let_def)
qed

lemma process_write_starts:
  assumes "flash_laws hw" "malloc_ok lw" "alloc_ok lw" "Flash_First_Page_Address s = adr 0" "app s = None"
  shows "\<exists>s1. IAP_tftp_process_write hw lw u ip port s = Some s1 \<and>
    uploading u img (fmem (iflash s)) (flash_net_buf s) 0 s1"
proof -
  have "unat (adr 0) = 0x0803F800 - 95 * 0x800" by (simp add: adr_0)
  then obtain f where f: "FLASH_If_Erase hw (adr 0) (FLASH_If_Init (iflash s)) = (0, f)"
    "\<forall>x. fmem f x = (if unat (adr 0) \<le> unat x \<and> unat x < 0x0803F800 then 0xFFFFFFFF
                      else fmem (FLASH_If_Init (iflash s)) x)"
    using erase_clears_pages[OF assms(1), of "adr 0" 95 "FLASH_If_Init (iflash s)"] by auto
  have "fmem f (adr j) = 0xFFFFFFFF" if "j < 0xBE00" for j
    using f(2) that unat_adr[of j] unat_adr[of 0] by simp
  moreover have "fmem f x = fmem (iflash s) x" if "0x0803F800 \<le> unat x" for x
    using f(2) that by (simp add: FLASH_If_Init_def)
  ultimately show ?thesis
    using assms(2-5) f(1) send_ack[OF assms(3), of 0]
    by (simp add: IAP_tftp_process_write_def Let_def uploading_def)
qed

section \<open>Properties\<close>

text \<open>
  C24: A program of at most 0x2F800 bytes that a client uploads to the boot loader by
  TFTP, repeating blocks as it likes, stands byte for byte in the flash afterwards and
  its last block is acknowledged; when its first word can be a stack pointer it is
  started with its entry, then and at every later start of the board.
\<close>

theorem uploaded_program_starts:
  assumes "flash_laws hw" "upload img 0 ps" "8 \<le> length img" "length img \<le> 0x2F800" "length junk = 512"
    "udp_new lw = Some u" "bind_ok lw" "malloc_ok lw" "alloc_ok lw" "IAP_tftp_decode_op (payload w) = Some TFTP_WRQ"
    "Flash_First_Page_Address s = 0x08010000" "app s = None" "flash_net_buf s = nb" "length nb = 4"
    "nb ! 0 \<noteq> 0xFFFFFFFF" "nb ! 1 \<noteq> 0xFFFFFFFF" "nb ! 3 \<noteq> 0xFFFFFFFF"
  shows "\<exists>s1 s2. IAP_tftp_recv_callback hw lw ip port w s = Some s1 \<and> datagrams hw junk lw u ps s1 = Some s2 \<and>
    (\<forall>i < length img. fbyte (fmem (iflash s2)) i = img ! i) \<and>
    List.last (sent s2) = ack_pkt (length img div 512 + 1) \<and> conns s2 u = None \<and>
    app s2 = (if valid_sp (program_sp img) then Some (program_sp img, program_entry img) else None) \<and>
    (valid_sp (program_sp img) \<longrightarrow>
      (\<forall>t. iflash t = iflash s2 \<and> Flash_First_Page_Address t = 0x08010000 \<and> app t = None \<longrightarrow>
        (\<exists>t'. boot hw lw t = Some t' \<and> app t' = Some (program_sp img, program_entry img))))"
proof -
  note a = assms(11)[folded adr_0(1)]
  obtain s1 where s1: "IAP_tftp_process_write hw lw u ip port s = Some s1"
    "uploading u img (fmem (iflash s)) nb 0 s1"
    using process_write_starts[OF assms(1,8,9) a assms(12)] assms(13) by blast
  have rcv: "IAP_tftp_recv_callback hw lw ip port w s = Some s1"
    using s1(1) assms(6,7,10) by (simp add: IAP_tftp_recv_callback_def)
  obtain s3 where s3: "upload_last u img (fmem (iflash s)) nb (length img div 512 + 1) s3"
    "datagrams hw junk lw u ps s1 = IAP_EndSetFlash hw s3"
    using upload_runs[OF assms(2,1,9,5,4) s1(2)] by auto
  have l: "conns s3 u = None" "Flash_First_Page_Address s3 = adr 0" "app s3 = None" "flash_net_buf s3 = nb"
    "List.last (sent s3) = ack_pkt (length img div 512 + 1)" "\<forall>i < length img. fbyte (fmem (iflash s3)) i = img ! i"
    using s3(1) by (simp_all add: upload_last_def)
  note pw = program_words[OF l(6) assms(3)]
  note fin = EndSetFlash[OF assms(1,14) l(4,2,3), unfolded pw]
  show ?thesis
  proof (cases "valid_sp (program_sp img)")
    case False
    then show ?thesis using rcv s3(2) fin l by auto
  next
    case True
    let ?c = "nb[2 := 0xAAAAAAAA]" and ?m = "fmem (iflash s3)"
    define f where "f = iflash s3 \<lparr> unlocked := True, irq := True, fmem := config_mem ?c ?m \<rparr>"
    define s2 where "s2 = s3 \<lparr> flash_net_buf := ?c, iflash := f, app := Some (program_sp img, program_entry img) \<rparr>"
    have s2: "datagrams hw junk lw u ps s1 = Some s2" using s3(2) fin True by (simp add: s2_def f_def)
    have keep: "config_mem ?c ?m (adr i) = ?m (adr i)" if "i < 0xBE00" for i
      using config_mem_frame below_config that by simp
    have "fbyte (fmem f) i = img ! i" if "i < length img" for i
    proof -
      have "i div 4 < 0xBE00" using that assms(4) by (intro div_less_iff_less_mult[THEN iffD2]) simp_all
      then show ?thesis using l(6) that keep by (simp add: f_def fbyte_def)
    qed
    moreover have "\<exists>t'. boot hw lw t = Some t' \<and> app t' = Some (program_sp img, program_entry img)"
      if t: "iflash t = f" "Flash_First_Page_Address t = 0x08010000" "app t = None" for t
    proof -
      have c: "?c ! 0 \<noteq> 0xffffffff" "?c ! 1 \<noteq> 0xffffffff" "?c ! 3 \<noteq> 0xffffffff" "length ?c = 4"
        using assms(14-17) by simp_all
      have "fmem f = config_mem ?c ?m" by (simp add: f_def)
      from GetIp_config[OF c this, of hw] have g: "GetIpFromFlash hw f = Some (?c, f)" by (simp add: f_def)
      let ?t = "t \<lparr> flash_net_buf := ?c, iflash := f \<rparr>"
      have "fmem f (adr 0) = program_sp img" "fmem f (adr 1) = program_entry img"
        using keep[of 0] keep[of 1] pw by (simp_all add: f_def)
      then have "\<exists>t'. IAP_EndSetFlash hw ?t = Some t' \<and> app t' = Some (program_sp img, program_entry img)"
        using EndSetFlash[OF assms(1) c(4), of ?t] t True by (simp add: adr_0)
      moreover have "cget ?c 2 = Some 0xAAAAAAAA" using assms(14) by (simp add: cget_def)
      ultimately show ?thesis using g t(1) by (auto simp: boot_def Let_def)
    qed
    ultimately show ?thesis using rcv s2 l(1,5) True by (auto simp: s2_def)
  qed
qed


text \<open>
  The result of programming is not looked at: with a flash that takes no word, a block is
  acknowledged all the same, and nothing is stored.
\<close>

theorem failed_program_is_acknowledged:
  assumes "\<forall>a v m. FLASH_ProgramWord hw a v m = (False, m)" "alloc_ok lw" "length junk = 512"
    "conns s u = Some c" "block c = int k" "k < 65535" "512 * (k + 1) \<le> length img"
  shows "\<exists>s'. IAP_wrq_recv_callback hw junk lw u (data_pkt img (k + 1)) s = Some s' \<and>
    fmem (iflash s') = fmem (iflash s) \<and> Flash_Write_Address s' = Flash_Write_Address s \<and>
    sent s' = sent s @ [ack_pkt (k + 1)]"
proof -
  have len: "length (block_of img (k + 1)) = 512" using assms(7) by (simp add: block_of_def)
  have k: "k + 1 < 65536" using assms(6) by simp
  let ?buf = "block_of img (k + 1)"
  obtain x xs where xs: "words_of ?buf = x # xs" "length (words_of ?buf) = 128"
    using len by (cases "words_of ?buf") (auto dest: arg_cong[where f = length])
  have u: "unat (of_nat 128 :: u16) = Suc 127" by simp
  define f where "f = iflash s \<lparr> irq := True \<rparr>"
  have wr: "FLASH_If_Write hw a (x # xs) (of_nat 128) (iflash s) = Some (a, f)" for a
  proof -
    have w: "write_words hw (Suc n) a (x # xs) g = Some (a, False, g)" for n g using assms(1) by simp
    show ?thesis by (simp only: FLASH_If_Write_def u w bind.bind_lunit prod.case) (simp add: f_def)
  qed
  have "length (payload (data_pkt img (k + 1))) = tot_len (data_pkt img (k + 1))" by (simp only: data_pkt_simps)
  note callback_next[OF this assms(4) data_pkt_simps(3) _ data_pkt_simps(1), of junk ?buf hw "Flash_Write_Address s" f lw
      "ack_pkt (k + 1)"]
  moreover have "uint (of_nat (k + 1) :: u16) = block c + 1" using u16_of_nat[OF k] assms(5) by simp
  moreover have "cwrite junk 0 (drop 4 (payload (data_pkt img (k + 1)))) = Some ?buf"
    using len assms(3) by (simp add: data_pkt_simps cwrite_def)
  moreover have "IAP_tftp_send_ack_packet lw (block c + 1) t = Some (t \<lparr> sent := sent t @ [ack_pkt (k + 1)] \<rparr>)" for t
    using send_ack[OF assms(2), of "k + 1" t] assms(5) by (simp add: add.commute)
  moreover have "FLASH_If_Write hw (Flash_Write_Address s) (words_of ?buf)
      (of_nat (if length ?buf mod 4 \<noteq> 0 then length ?buf div 4 + 1 else length ?buf div 4)) (iflash s) =
    Some (Flash_Write_Address s, f)"
    using wr len xs(1) by simp
  moreover have "block_of img (k + 1) \<noteq> []" using len by auto
  ultimately show ?thesis using len by (simp add: Let_def f_def)
qed

text \<open>A packet with more than 512 bytes of data is copied past \<open>data_buffer\<close>.\<close>

theorem long_packet_overflows:
  assumes "length (payload p) = tot_len p" "516 < tot_len p" "length junk = 512" "conns s u = Some c"
    "IAP_tftp_extract_block (payload p) = Some w" "uint w = block c + 1"
  shows "IAP_wrq_recv_callback hw junk lw u p s = None"
proof -
  have "\<not> tot_len p - 4 \<le> 512" using assms(2) by simp
  then show ?thesis using assms by (simp add: IAP_wrq_recv_callback_def Let_def cwrite_def)
qed

section \<open>Witnesses\<close>

definition small_program :: bytes where
  "small_program = [0x00, 0x50, 0x00, 0x20, 0x01, 0x00, 0x01, 0x08]"

definition idle_loader :: iap where
  "idle_loader = \<lparr> iflash = blank_flash, Flash_First_Page_Address = 0x08010000, Flash_Write_Address = 0, total_count = 0,
     conns = \<lambda>_. None, listening = True, sent = [], flash_net_buf = [0xC0A80004, 2301, 0x55555555, 7], app = None \<rparr>"

definition good_answers :: lwip_answers where
  "good_answers = \<lparr> udp_new = Some 1, bind_ok = True, malloc_ok = True, alloc_ok = True \<rparr>"

theorem uploaded_program_starts_witness:
  "\<exists>s1 s2. IAP_tftp_recv_callback nor_flash good_answers 0 50000 \<lparr> payload = [0, 2, 97, 0], tot_len = 4 \<rparr> idle_loader = Some s1 \<and>
    datagrams nor_flash (replicate 512 0) good_answers 1 [data_pkt small_program 1] s1 = Some s2 \<and>
    app s2 = Some (0x20005000, 0x08010001)"
proof -
  have p: "program_sp small_program = 0x20005000" "program_entry small_program = 0x08010001"
    by (simp_all add: program_sp_def program_entry_def small_program_def le32_def push_bit_eq_mult)
  have v: "valid_sp 0x20005000" by (simp add: valid_sp_def)
  have "upload small_program 0 [data_pkt small_program 1]"
    using upload.last[of small_program 0] by (simp add: small_program_def)
  from uploaded_program_starts[OF nor_flash_laws this, of "replicate 512 0" good_answers 1
      "\<lparr> payload = [0, 2, 97, 0], tot_len = 4 \<rparr>" idle_loader "[0xC0A80004, 2301, 0x55555555, 7]" 0 50000]
  have "\<exists>s1 s2. IAP_tftp_recv_callback nor_flash good_answers 0 50000 \<lparr> payload = [0, 2, 97, 0], tot_len = 4 \<rparr> idle_loader = Some s1 \<and>
    datagrams nor_flash (replicate 512 0) good_answers 1 [data_pkt small_program 1] s1 = Some s2 \<and>
    app s2 = (if valid_sp (program_sp small_program) then Some (program_sp small_program, program_entry small_program) else None)"
    by (auto simp: small_program_def good_answers_def idle_loader_def IAP_tftp_decode_op_def)
  then show ?thesis unfolding p using v by simp
qed

end
