(* ===== verification/Tftp.thy ===== *)
theory Tftp
  imports Iap
begin

text \<open>
  The TFTP server of the file system, \<open>tftp/tftpserver.c\<close> with \<open>tftp/tftputils.c\<close>.  \<open>main\<close> has
  the call of \<open>tftpd_init\<close> commented out.  The file system (the vendored efsl) is the argument
  \<open>F\<close>; what lwIP answers is \<open>lw\<close>, as in \<open>Iap\<close>.  There is at most one transfer: port 69 is
  not listened to while one runs.  \<open>t_args\<close> is the memory the arguments of the transfer were
  allocated in, \<open>None\<close> when they were not or are freed: their use is then a fault.
\<close>

unbundle bit_operations_syntax

section \<open>State\<close>

abbreviation (input) TFTP_RRQ :: u8 where "TFTP_RRQ \<equiv> 1"
abbreviation (input) TFTP_DATA :: u8 where "TFTP_DATA \<equiv> 3"
abbreviation (input) TFTP_ERROR :: u8 where "TFTP_ERROR \<equiv> 5"

datatype tftp_errorcode = TFTP_ERR_NOTDEFINED | TFTP_ERR_FILE_NOT_FOUND | TFTP_ERR_ACCESS_VIOLATION
  | TFTP_ERR_DISKFULL | TFTP_ERR_ILLEGALOP | TFTP_ERR_UKNOWN_TRANSFER_ID | TFTP_ERR_FILE_ALREADY_EXISTS
  | TFTP_ERR_NO_SUCH_USER

primrec err_code :: "tftp_errorcode \<Rightarrow> u8" where
  "err_code TFTP_ERR_NOTDEFINED = 0"
| "err_code TFTP_ERR_FILE_NOT_FOUND = 1"
| "err_code TFTP_ERR_ACCESS_VIOLATION = 2"
| "err_code TFTP_ERR_DISKFULL = 3"
| "err_code TFTP_ERR_ILLEGALOP = 4"
| "err_code TFTP_ERR_UKNOWN_TRANSFER_ID = 5"
| "err_code TFTP_ERR_FILE_ALREADY_EXISTS = 6"
| "err_code TFTP_ERR_NO_SUCH_USER = 7"

primrec tftp_errorcode_string :: "tftp_errorcode \<Rightarrow> string" where
  "tftp_errorcode_string TFTP_ERR_NOTDEFINED = ''not defined/timeout-QQ:925295580''"
| "tftp_errorcode_string TFTP_ERR_FILE_NOT_FOUND = ''file not found''"
| "tftp_errorcode_string TFTP_ERR_ACCESS_VIOLATION = ''access violation''"
| "tftp_errorcode_string TFTP_ERR_DISKFULL = ''disk full''"
| "tftp_errorcode_string TFTP_ERR_ILLEGALOP = ''illegal operation''"
| "tftp_errorcode_string TFTP_ERR_UKNOWN_TRANSFER_ID = ''unknown transfer id''"
| "tftp_errorcode_string TFTP_ERR_FILE_ALREADY_EXISTS = ''file already exists''"
| "tftp_errorcode_string TFTP_ERR_NO_SUCH_USER = ''no such user''"

record tftp_args =
  a_op :: u8
  a_data :: bytes
  data_len :: int
  a_to_ip :: u32
  a_to_port :: u16
  a_block :: int
  a_tot_bytes :: int

datatype transfer = Rrq | Wrq

record 'f filesys =
  efs_init :: "'f \<Rightarrow> bool \<times> 'f"
  ls_openDir :: "'f \<Rightarrow> bool \<times> 'f"
  file_fopen :: "bytes \<Rightarrow> bool \<Rightarrow> 'f \<Rightarrow> bool \<times> 'f"
  file_read :: "nat \<Rightarrow> 'f \<Rightarrow> bytes \<times> 'f"
  file_write :: "bytes \<Rightarrow> 'f \<Rightarrow> int \<times> 'f"
  file_fclose :: "transfer \<Rightarrow> 'f \<Rightarrow> 'f"
  fs_umount :: "transfer \<Rightarrow> 'f \<Rightarrow> 'f"

record 'f tftp =
  files :: 'f
  t_args :: "tftp_args option"
  t_conn :: "transfer option"
  t_listening :: bool
  t_sent :: "bytes list"
  tftptimeoutTimer :: bool
  tftptimeout :: u8

section \<open>Packets\<close>

definition tftp_decode_op :: "bytes \<Rightarrow> u8 option" where
  "tftp_decode_op buf = cget buf 1"

definition tftp_extract_block :: "bytes \<Rightarrow> u16 option" where
  "tftp_extract_block buf = do { h \<leftarrow> cget buf 2; l \<leftarrow> cget buf 3; Some (mk16 h l) }"

text \<open>\<open>strcpy\<close>: the string up to its end, which has to lie inside both arrays.\<close>

definition strcpy :: "bytes \<Rightarrow> nat \<Rightarrow> bytes \<Rightarrow> bytes option" where
  "strcpy dst off src =
    (let t = takeWhile (\<lambda>b. b \<noteq> 0) src in if length t < length src then cwrite dst off (t @ [0]) else None)"

definition tftp_extract_filename :: "bytes \<Rightarrow> bytes \<Rightarrow> bytes option" where
  "tftp_extract_filename fname buf = strcpy fname 0 (drop 2 buf)"

definition tftp_set_opcode :: "bytes \<Rightarrow> u8 \<Rightarrow> bytes option" where
  "tftp_set_opcode buffer opcode = do { b \<leftarrow> cset buffer 0 0; cset b 1 opcode }"

definition tftp_set_errorcode :: "bytes \<Rightarrow> tftp_errorcode \<Rightarrow> bytes option" where
  "tftp_set_errorcode buffer errCode = do { b \<leftarrow> cset buffer 2 0; cset b 3 (err_code errCode) }"

definition tftp_set_errormsg :: "bytes \<Rightarrow> bytes \<Rightarrow> bytes option" where
  "tftp_set_errormsg buffer errormsg = strcpy buffer 4 errormsg"

definition tftp_set_block :: "bytes \<Rightarrow> u16 \<Rightarrow> bytes option" where
  "tftp_set_block packet blk = do { p \<leftarrow> cset packet 2 (hi8 blk); cset p 3 (lo8 blk) }"

definition tftp_set_data_message :: "bytes \<Rightarrow> bytes \<Rightarrow> nat \<Rightarrow> bytes option" where
  "tftp_set_data_message packet buf buflen = do { d \<leftarrow> cread buf 0 buflen; cwrite packet 4 d }"

definition tftp_is_correct_ack :: "bytes \<Rightarrow> int \<Rightarrow> bool option" where
  "tftp_is_correct_ack buf blk = do {
     opc \<leftarrow> tftp_decode_op buf;
     if opc \<noteq> TFTP_ACK then Some False
     else do { k \<leftarrow> tftp_extract_block buf; Some (blk = uint k) }
   }"

section \<open>Sending\<close>

definition tftp_send_message :: "lwip_answers \<Rightarrow> bytes \<Rightarrow> nat \<Rightarrow> 'f tftp \<Rightarrow> 'f tftp option" where
  "tftp_send_message lw buf buflen s =
    (if \<not> alloc_ok lw then Some s
     else do { d \<leftarrow> cread buf 0 buflen; Some (s \<lparr> t_sent := t_sent s @ [d] \<rparr>) })"

definition tftp_construct_error_message :: "bytes \<Rightarrow> tftp_errorcode \<Rightarrow> (bytes \<times> nat) option" where
  "tftp_construct_error_message buf err = do {
     b \<leftarrow> tftp_set_opcode buf TFTP_ERROR;
     b \<leftarrow> tftp_set_errorcode b err;
     b \<leftarrow> tftp_set_errormsg b (map of_char (tftp_errorcode_string err) @ [0]);
     let errorlen = length (tftp_errorcode_string err);
     Some (b, 4 + errorlen + 1)
   }"

definition tftp_send_error_message :: "lwip_answers \<Rightarrow> tftp_errorcode \<Rightarrow> 'f tftp \<Rightarrow> 'f tftp option" where
  "tftp_send_error_message lw err s = do {
     (buf, error_len) \<leftarrow> tftp_construct_error_message (replicate 512 0) err;
     tftp_send_message lw buf error_len s
   }"

definition tftp_send_data_packet ::
    "lwip_answers \<Rightarrow> int \<Rightarrow> bytes \<Rightarrow> nat \<Rightarrow> 'f tftp \<Rightarrow> 'f tftp option" where
  "tftp_send_data_packet lw blk buf buflen s = do {
     packet \<leftarrow> tftp_set_opcode (replicate 516 0) TFTP_DATA;
     packet \<leftarrow> tftp_set_block packet (of_int blk);
     packet \<leftarrow> tftp_set_data_message packet buf buflen;
     tftp_send_message lw packet (buflen + 4) s
   }"

definition tftp_send_ack_packet :: "lwip_answers \<Rightarrow> int \<Rightarrow> 'f tftp \<Rightarrow> 'f tftp option" where
  "tftp_send_ack_packet lw blk s = do {
     packet \<leftarrow> tftp_set_opcode (replicate 4 0) TFTP_ACK;
     packet \<leftarrow> tftp_set_block packet (of_int blk);
     tftp_send_message lw packet 4 s
   }"

section \<open>Reading and writing a file\<close>

text \<open>A read uses \<open>file_SD\<close> of \<open>efs1\<close> and a write \<open>file_CR\<close> of \<open>efs2\<close>: the argument of the two closing functions.\<close>

definition tftp_cleanup_rd :: "'f filesys \<Rightarrow> 'f tftp \<Rightarrow> 'f tftp" where
  "tftp_cleanup_rd F s =
     s \<lparr> files := fs_umount F Rrq (file_fclose F Rrq (files s)), t_args := None, t_conn := None, t_listening := True \<rparr>"

definition tftp_cleanup_wr :: "'f filesys \<Rightarrow> 'f tftp \<Rightarrow> 'f tftp" where
  "tftp_cleanup_wr F s =
     s \<lparr> files := fs_umount F Wrq (file_fclose F Wrq (files s)), t_args := None, t_conn := None, t_listening := True \<rparr>"

definition tftp_send_next_block :: "'f filesys \<Rightarrow> lwip_answers \<Rightarrow> 'f tftp \<Rightarrow> 'f tftp option" where
  "tftp_send_next_block F lw s = do {
     let (d, f) = file_read F 512 (files s);
     args \<leftarrow> t_args s;
     data \<leftarrow> cwrite (a_data args) 0 d;
     let args = args \<lparr> a_data := data, data_len := int (length d) \<rparr>;
     tftp_send_data_packet lw (a_block args) (a_data args) (nat (data_len args))
       (s \<lparr> files := f, t_args := Some args \<rparr>)
   }"

definition rrq_recv_callback :: "'f filesys \<Rightarrow> lwip_answers \<Rightarrow> pbuf \<Rightarrow> 'f tftp \<Rightarrow> 'f tftp option" where
  "rrq_recv_callback F lw p s = do {
     let s = s \<lparr> tftptimeout := 0 \<rparr>;
     args \<leftarrow> t_args s;
     ok \<leftarrow> tftp_is_correct_ack (payload p) (a_block args);
     let args = (if ok then args \<lparr> a_block := a_block args + 1 \<rparr> else args);
     let s = s \<lparr> t_args := Some args \<rparr>;
     let s = (if data_len args < 512
              then tftp_cleanup_rd F (s \<lparr> tftptimeoutTimer := False, tftptimeout := 0 \<rparr>) else s);
     tftp_send_next_block F lw s
   }"

text \<open>What a new block of memory holds (\<open>junk\<close>) is not initialised, except for these fields.\<close>

definition tftp_process_read ::
    "'f filesys \<Rightarrow> bytes \<Rightarrow> lwip_answers \<Rightarrow> u32 \<Rightarrow> u16 \<Rightarrow> bytes \<Rightarrow> 'f tftp \<Rightarrow> 'f tftp option" where
  "tftp_process_read F junk lw ip port FileName s =
    (let (ok, f) = file_fopen F FileName False (files s); s = s \<lparr> files := f \<rparr>
     in if \<not> ok then map_option (tftp_cleanup_rd F) (tftp_send_error_message lw TFTP_ERR_FILE_NOT_FOUND s)
        else if \<not> malloc_ok lw then map_option (tftp_cleanup_rd F) (tftp_send_error_message lw TFTP_ERR_NOTDEFINED s)
        else
          let args = \<lparr> a_op = TFTP_RRQ, a_data = junk, data_len = 0, a_to_ip = ip, a_to_port = port,
                       a_block = 1, a_tot_bytes = 0 \<rparr>
          in tftp_send_next_block F lw
               (s \<lparr> t_args := Some args, t_conn := Some Rrq, tftptimeoutTimer := True \<rparr>))"

definition wrq_recv_callback :: "'f filesys \<Rightarrow> lwip_answers \<Rightarrow> pbuf \<Rightarrow> 'f tftp \<Rightarrow> 'f tftp option" where
  "wrq_recv_callback F lw p s =
    (if length (payload p) \<noteq> tot_len p then Some s
     else do {
       args \<leftarrow> t_args s;
       let len = length (payload p);
       k \<leftarrow> tftp_extract_block (payload p);
       s \<leftarrow>
         (if 4 < len \<and> uint k = a_block args + 1 then do {
            let (n, f) = file_write F (drop 4 (payload p)) (files s);
            let s = s \<lparr> files := f \<rparr>;
            s \<leftarrow> (if n \<le> 0 then map_option (tftp_cleanup_wr F) (tftp_send_error_message lw TFTP_ERR_FILE_NOT_FOUND s)
                  else Some s);
            args \<leftarrow> t_args s;
            Some (s \<lparr> t_args := Some (args \<lparr> a_block := a_block args + 1,
                                         a_tot_bytes := a_tot_bytes args + int (len - 4) \<rparr>) \<rparr>)
          }
          else if uint k = a_block args + 1 then Some (s \<lparr> t_args := Some (args \<lparr> a_block := a_block args + 1 \<rparr>) \<rparr>)
          else Some s);
       args \<leftarrow> t_args s;
       s \<leftarrow> tftp_send_ack_packet lw (a_block args) s;
       Some (if len < 516 then tftp_cleanup_wr F s else s)
     })"

definition tftp_process_write ::
    "'f filesys \<Rightarrow> bytes \<Rightarrow> lwip_answers \<Rightarrow> u32 \<Rightarrow> u16 \<Rightarrow> bytes \<Rightarrow> 'f tftp \<Rightarrow> 'f tftp option" where
  "tftp_process_write F junk lw ip port FileName s =
    (let (ok, f) = file_fopen F FileName True (files s); s = s \<lparr> files := f \<rparr>
     in if \<not> ok then map_option (tftp_cleanup_wr F) (tftp_send_error_message lw TFTP_ERR_FILE_ALREADY_EXISTS s)
        else if \<not> malloc_ok lw then map_option (tftp_cleanup_wr F) (tftp_send_error_message lw TFTP_ERR_NOTDEFINED s)
        else
          let args = \<lparr> a_op = TFTP_WRQ, a_data = junk, data_len = 0, a_to_ip = ip, a_to_port = port,
                       a_block = 0, a_tot_bytes = 0 \<rparr>
          in tftp_send_ack_packet lw (a_block args) (s \<lparr> t_args := Some args, t_conn := Some Wrq \<rparr>))"

section \<open>Requests\<close>

text \<open>A request that is not served gets an error, and port 69 is listened to again.\<close>

definition refuse :: "lwip_answers \<Rightarrow> tftp_errorcode \<Rightarrow> 'f tftp \<Rightarrow> 'f tftp option" where
  "refuse lw err s = map_option (\<lambda>s. s \<lparr> t_listening := True \<rparr>) (tftp_send_error_message lw err s)"

definition process_tftp_request ::
    "'f filesys \<Rightarrow> bytes \<Rightarrow> lwip_answers \<Rightarrow> u32 \<Rightarrow> u16 \<Rightarrow> pbuf \<Rightarrow> 'f tftp \<Rightarrow> 'f tftp option" where
  "process_tftp_request F junk lw ip port p s = do {
     opc \<leftarrow> tftp_decode_op (payload p);
     let s = s \<lparr> t_listening := False \<rparr>;
     if udp_new lw = None \<or> \<not> bind_ok lw then Some (s \<lparr> t_listening := True \<rparr>)
     else if opc = TFTP_RRQ \<or> opc = TFTP_WRQ then do {
       FileName \<leftarrow> tftp_extract_filename (replicate 30 0) (payload p);
       let (ok, f) = efs_init F (files s);
       let s = s \<lparr> files := f \<rparr>;
       if \<not> ok then refuse lw TFTP_ERR_FILE_NOT_FOUND s
       else do {
         let (ok, f) = ls_openDir F (files s);
         let s = s \<lparr> files := f \<rparr>;
         if \<not> ok then refuse lw TFTP_ERR_FILE_NOT_FOUND s
         else if opc = TFTP_RRQ then tftp_process_read F junk lw ip port (takeWhile (\<lambda>b. b \<noteq> 0) FileName) s
         else tftp_process_write F junk lw ip port (takeWhile (\<lambda>b. b \<noteq> 0) FileName) s
       }
     }
     else refuse lw TFTP_ERR_ACCESS_VIOLATION s
   }"

definition recv_callback_tftp ::
    "'f filesys \<Rightarrow> bytes \<Rightarrow> lwip_answers \<Rightarrow> u32 \<Rightarrow> u16 \<Rightarrow> pbuf \<Rightarrow> 'f tftp \<Rightarrow> 'f tftp option" where
  "recv_callback_tftp F junk lw ip port p s = process_tftp_request F junk lw ip port p s"

definition tftpd_init :: "lwip_answers \<Rightarrow> 'f tftp \<Rightarrow> 'f tftp" where
  "tftpd_init lw s = (if udp_new lw = None \<or> \<not> bind_ok lw then s else s \<lparr> t_listening := True \<rparr>)"

text \<open>Called every 250 ms; a read that got no packet for 86 calls is given up.\<close>

definition TftpTrm250ms :: "'f filesys \<Rightarrow> lwip_answers \<Rightarrow> 'f tftp \<Rightarrow> 'f tftp option" where
  "TftpTrm250ms F lw s =
    (if tftptimeoutTimer s then
       let s = s \<lparr> tftptimeout := tftptimeout s + 1 \<rparr>
       in if 85 < tftptimeout s then do {
            s \<leftarrow> tftp_send_error_message lw TFTP_ERR_NOTDEFINED s;
            Some ((tftp_cleanup_rd F s) \<lparr> tftptimeoutTimer := False, tftptimeout := 0 \<rparr>)
          } else Some s
     else Some s)"


section \<open>What the packets hold\<close>

lemma send_ack_pkt:
  assumes "alloc_ok lw"
  shows "tftp_send_ack_packet lw (int k) s = Some (s \<lparr> t_sent := t_sent s @ [ack_pkt k] \<rparr>)"
proof -
  have "replicate 4 (0 :: u8) = [0, 0, 0, 0]" by (simp add: numeral_eq_Suc)
  then show ?thesis
    using assms by (simp add: tftp_send_ack_packet_def tftp_set_opcode_def tftp_set_block_def ack_pkt_def
        tftp_send_message_def cread_def)
qed

lemma send_data_pkt:
  assumes "alloc_ok lw" "n \<le> 512" "n \<le> length buf"
  shows "tftp_send_data_packet lw (int k) buf n s =
    Some (s \<lparr> t_sent := t_sent s @ [[0, 3, hi8 (of_nat k), lo8 (of_nat k)] @ take n buf] \<rparr>)"
proof -
  let ?h = "[0, 3, hi8 (of_nat k), lo8 (of_nat k)] :: bytes"
  have r: "replicate 516 (0 :: u8) = [0, 0, 0, 0] @ replicate 512 0"
    by (rule nth_equalityI) (simp_all add: nth_append nth_Cons')
  have "tftp_set_opcode (replicate 516 0) TFTP_DATA = Some ([0, 3, 0, 0] @ replicate 512 0)"
    unfolding r by (simp add: tftp_set_opcode_def)
  moreover have "tftp_set_block ([0, 3, 0, 0] @ replicate 512 0) (of_int (int k)) = Some (?h @ replicate 512 0)"
    by (simp add: tftp_set_block_def)
  moreover have "tftp_set_data_message (?h @ replicate 512 0) buf n =
      Some (?h @ take n buf @ replicate (512 - n) 0)"
  proof -
    have "cwrite (h @ replicate 512 0) 4 (take n buf) = Some (h @ take n buf @ replicate (512 - n) 0)"
      if "length h = 4" for h :: bytes
      using that assms(2,3) by (simp add: cwrite_def)
    from this[of ?h] show ?thesis using assms(3) by (simp add: tftp_set_data_message_def)
  qed
  moreover have "tftp_send_message lw (?h @ take n buf @ replicate (512 - n) 0) (n + 4) s =
      Some (s \<lparr> t_sent := t_sent s @ [?h @ take n buf] \<rparr>)"
  proof -
    have "tftp_send_message lw (h @ take n buf @ replicate (512 - n) 0) (n + 4) s = Some (s \<lparr> t_sent := t_sent s @ [h @ take n buf] \<rparr>)"
      if "length h = 4" for h :: bytes
      using that assms by (simp add: tftp_send_message_def cread_def)
    from this[of ?h] show ?thesis by simp
  qed
  ultimately show ?thesis by (simp only: tftp_send_data_packet_def bind.bind_lunit)
qed

lemma data_pkt_payload: "payload (data_pkt img k) = [0, 3, hi8 (of_nat k), lo8 (of_nat k)] @ block_of img k"
  by (simp add: data_pkt_def Let_def)

definition ack_pbuf :: "nat \<Rightarrow> pbuf" where
  "ack_pbuf k = \<lparr> payload = ack_pkt k, tot_len = 4 \<rparr>"

lemma correct_ack:
  assumes "j < 65536"
  shows "tftp_is_correct_ack (payload (ack_pbuf j)) b = Some (b = int j)"
  using u16_of_nat[OF assms]
  by (simp add: ack_pbuf_def ack_pkt_def tftp_is_correct_ack_def tftp_decode_op_def tftp_extract_block_def)

section \<open>Reading\<close>

text \<open>
  The documented behaviour of \<open>file_read\<close> and \<open>file_write\<close>: \<open>unread f\<close> is what an open file still
  has to give, \<open>stored f\<close> what was written to it.  Both answer the number of bytes they moved, which
  for a write on a full disk is less than was asked for, down to 0.
\<close>

definition read_law :: "'f filesys \<Rightarrow> ('f \<Rightarrow> bytes) \<Rightarrow> bool" where
  "read_law F unread \<longleftrightarrow> (\<forall>n f. fst (file_read F n f) = take n (unread f) \<and>
     unread (snd (file_read F n f)) = drop n (unread f))"

definition write_law :: "'f filesys \<Rightarrow> ('f \<Rightarrow> bytes) \<Rightarrow> bool" where
  "write_law F stored \<longleftrightarrow>
     (\<forall>d f. case file_write F d f of (n, g) \<Rightarrow>
        0 \<le> n \<and> n \<le> int (length d) \<and> stored g = stored f @ take (nat n) d) \<and>
     (\<forall>f. stored (fs_umount F Wrq (file_fclose F Wrq f)) = stored f)"

text \<open>There is room for all of these pieces, written one after the other.\<close>

fun takes :: "'f filesys \<Rightarrow> bytes list \<Rightarrow> 'f \<Rightarrow> bool" where
  "takes F [] f = True"
| "takes F (b # bs) f = (case file_write F b f of (n, g) \<Rightarrow> n = int (length b) \<and> takes F bs g)"

fun read_acks :: "'f filesys \<Rightarrow> lwip_answers \<Rightarrow> nat list \<Rightarrow> 'f tftp \<Rightarrow> 'f tftp option" where
  "read_acks F lw [] s = Some s"
| "read_acks F lw (k # ks) s = do { s \<leftarrow> rrq_recv_callback F lw (ack_pbuf k) s; read_acks F lw ks s }"

lemma read_acks_snoc: "read_acks F lw (ks @ [k]) s = Option.bind (read_acks F lw ks s) (rrq_recv_callback F lw (ack_pbuf k))"
proof (induction ks arbitrary: s)
  case Nil
  then show ?case by (cases "rrq_recv_callback F lw (ack_pbuf k) s") simp_all
next
  case (Cons j ks)
  then show ?case by (cases "rrq_recv_callback F lw (ack_pbuf j) s") simp_all
qed

text \<open>The block \<open>k\<close> was sent last; the data of the blocks after \<open>j\<close> is still to be read.\<close>

definition reading :: "('f \<Rightarrow> bytes) \<Rightarrow> bytes \<Rightarrow> nat \<Rightarrow> nat \<Rightarrow> 'f tftp \<Rightarrow> bool" where
  "reading unread img j k s \<longleftrightarrow> unread (files s) = drop (512 * j) img \<and>
     (\<exists>a. t_args s = Some a \<and> a_block a = int k \<and> data_len a = int (length (block_of img j)) \<and>
        length (a_data a) = 516)"

lemma next_block:
  assumes "read_law F unread" "alloc_ok lw" "unread (files s) = drop (512 * j) img" "t_args s = Some a"
    "a_block a = int k" "length (a_data a) = 516"
  shows "\<exists>s'. tftp_send_next_block F lw s = Some s' \<and> reading unread img (j + 1) k s' \<and>
    t_sent s' = t_sent s @ [[0, 3, hi8 (of_nat k), lo8 (of_nat k)] @ block_of img (j + 1)]"
proof -
  let ?d = "block_of img (j + 1)"
  obtain f where f: "file_read F 512 (files s) = (?d, f)" "unread f = drop (512 * (j + 1)) img"
    using assms(1,3) by (cases "file_read F 512 (files s)") (auto simp: read_law_def block_of_def dest!: spec[of _ 512] spec[of _ "files s"])
  have l: "length ?d \<le> 512" by (simp add: block_of_def)
  let ?data = "?d @ drop (length ?d) (a_data a)"
  have w: "cwrite (a_data a) 0 ?d = Some ?data" using l assms(6) by (simp add: cwrite_def)
  let ?a = "a \<lparr> a_data := ?data, data_len := int (length ?d) \<rparr>"
  have "tftp_send_data_packet lw (int k) ?data (length ?d) (s \<lparr> files := f, t_args := Some ?a \<rparr>) =
      Some (s \<lparr> files := f, t_args := Some ?a,
        t_sent := t_sent s @ [[0, 3, hi8 (of_nat k), lo8 (of_nat k)] @ ?d] \<rparr>)"
    using send_data_pkt[OF assms(2) l, of ?data k "s \<lparr> files := f, t_args := Some ?a \<rparr>"] by simp
  then show ?thesis
    using f w assms(4-6) l by (simp add: tftp_send_next_block_def Let_def reading_def)
qed


lemma full_block: "1 \<le> k \<Longrightarrow> 512 * k \<le> length img \<Longrightarrow> length (block_of img k) = 512"
  by (cases k) (simp_all add: block_of_def)

lemma ack_sends_next:
  assumes "read_law F unread" "alloc_ok lw" "reading unread img j k s" "i < 65536" "length (block_of img j) = 512"
  defines "k' \<equiv> if i = k then k + 1 else k"
  shows "\<exists>s'. rrq_recv_callback F lw (ack_pbuf i) s = Some s' \<and> reading unread img (j + 1) k' s' \<and>
    t_sent s' = t_sent s @ [[0, 3, hi8 (of_nat k'), lo8 (of_nat k')] @ block_of img (j + 1)]"
proof -
  obtain a where a: "t_args s = Some a" "a_block a = int k" "data_len a = 512" "length (a_data a) = 516"
    "unread (files s) = drop (512 * j) img"
    using assms(3,5) by (auto simp: reading_def)
  define a' where "a' = (if i = k then a \<lparr> a_block := a_block a + 1 \<rparr> else a)"
  define t where "t = s \<lparr> tftptimeout := 0, t_args := Some a' \<rparr>"
  have a': "a_block a' = int k'" "data_len a' = 512" "length (a_data a') = 516"
    using a by (simp_all add: a'_def k'_def)
  have "rrq_recv_callback F lw (ack_pbuf i) s = tftp_send_next_block F lw t"
    using a correct_ack[OF assms(4), of "int k"] by (cases "i = k") (simp_all add: rrq_recv_callback_def Let_def t_def a'_def)
  moreover have t: "unread (files t) = drop (512 * j) img" "t_args t = Some a'" "t_sent t = t_sent s"
    using a(5) by (simp_all add: t_def)
  ultimately show ?thesis using next_block[OF assms(1,2) t(1,2) a'(1,3)] by (simp only: t(3))
qed

lemma last_ack_faults:
  assumes "reading unread img k k s" "i < 65536" "length (block_of img k) < 512"
  shows "rrq_recv_callback F lw (ack_pbuf i) s = None"
proof -
  obtain a where a: "t_args s = Some a" "a_block a = int k" "data_len a < 512"
    using assms(1,3) by (auto simp: reading_def)
  show ?thesis
    using a correct_ack[OF assms(2), of "int k"]
    by (cases "i = k") (simp_all add: rrq_recv_callback_def Let_def tftp_cleanup_rd_def tftp_send_next_block_def
        case_prod_beta)
qed

lemma reads_on:
  assumes "read_law F unread" "alloc_ok lw" "reading unread img 1 1 s" "512 * k \<le> length img" "k < 65535"
  shows "\<exists>s'. read_acks F lw [1..<k + 1] s = Some s' \<and> reading unread img (k + 1) (k + 1) s' \<and>
    t_sent s' = t_sent s @ map (\<lambda>j. payload (data_pkt img j)) [2..<k + 2]"
  using assms(4,5)
proof (induction k)
  case 0
  then show ?case using assms(3) by simp
next
  case (Suc k)
  then obtain s' where s': "read_acks F lw [1..<k + 1] s = Some s'" "reading unread img (k + 1) (k + 1) s'"
    "t_sent s' = t_sent s @ map (\<lambda>j. payload (data_pkt img j)) [2..<k + 2]" by auto
  have "length (block_of img (k + 1)) = 512" using Suc.prems by (intro full_block) simp_all
  from ack_sends_next[OF assms(1,2) s'(2) _ this, of "k + 1"] Suc.prems
  obtain t where t: "rrq_recv_callback F lw (ack_pbuf (k + 1)) s' = Some t"
    "reading unread img (k + 1 + 1) (k + 1 + 1) t"
    "t_sent t = t_sent s' @ [payload (data_pkt img (k + 1 + 1))]"
    by (auto simp: data_pkt_payload)
  have "[1..<Suc k + 1] = [1..<k + 1] @ [k + 1]" "[2..<Suc k + 2] = [2..<k + 2] @ [k + 1 + 1]" by simp_all
  then show ?case using s' t by (simp only: read_acks_snoc bind.bind_lunit) simp
qed

lemma process_read_starts:
  assumes "read_law F unread" "alloc_ok lw" "malloc_ok lw" "file_fopen F name False (files s) = (True, f)"
    "unread f = img" "length junk = 516"
  shows "\<exists>s'. tftp_process_read F junk lw ip port name s = Some s' \<and> reading unread img 1 1 s' \<and>
    t_sent s' = t_sent s @ [payload (data_pkt img 1)]"
proof -
  define a where "a = \<lparr> a_op = TFTP_RRQ, a_data = junk, data_len = 0, a_to_ip = ip, a_to_port = port, a_block = 1, a_tot_bytes = 0 \<rparr>"
  define t where "t = s \<lparr> files := f, t_args := Some a, t_conn := Some Rrq, tftptimeoutTimer := True \<rparr>"
  have "tftp_process_read F junk lw ip port name s = tftp_send_next_block F lw t"
    using assms(3,4) by (simp add: tftp_process_read_def t_def a_def)
  moreover have "unread (files t) = drop (512 * 0) img" "t_args t = Some a" "a_block a = int 1" "length (a_data a) = 516"
    using assms(5,6) by (simp_all add: t_def a_def)
  from next_block[OF assms(1,2) this] obtain s' where "tftp_send_next_block F lw t = Some s'"
    "reading unread img 1 1 s'" "t_sent s' = t_sent t @ [payload (data_pkt img 1)]"
    by (auto simp: data_pkt_payload)
  ultimately show ?thesis by (simp add: t_def)
qed

section \<open>Writing\<close>

fun write_packets :: "'f filesys \<Rightarrow> lwip_answers \<Rightarrow> pbuf list \<Rightarrow> 'f tftp \<Rightarrow> 'f tftp option" where
  "write_packets F lw [] s = Some s"
| "write_packets F lw (p # ps) s = do { s \<leftarrow> wrq_recv_callback F lw p s; write_packets F lw ps s }"

text \<open>The blocks after \<open>k\<close> that have data, and the state after \<open>k\<close> blocks when there is room for them.\<close>

definition rest :: "bytes \<Rightarrow> nat \<Rightarrow> bytes list" where
  "rest img k = filter (\<lambda>b. b \<noteq> []) (map (block_of img) [k + 1 ..< length img div 512 + 2])"

lemma rest_step:
  assumes "512 * k \<le> length img"
  shows "rest img k = (if block_of img (k + 1) = [] then rest img (k + 1) else block_of img (k + 1) # rest img (k + 1))"
proof -
  have "k + 1 < length img div 512 + 2" using div_le_mono[OF assms, of 512] by simp
  then show ?thesis unfolding rest_def by (subst upt_conv_Cons) simp_all
qed

definition writing :: "'f filesys \<Rightarrow> ('f \<Rightarrow> bytes) \<Rightarrow> bytes \<Rightarrow> nat \<Rightarrow> 'f tftp \<Rightarrow> bool" where
  "writing F stored img k s \<longleftrightarrow> stored (files s) = take (512 * k) img \<and> takes F (rest img k) (files s) \<and>
     (\<exists>a. t_args s = Some a \<and> a_block a = int k)"

lemma extract_data_pkt: "k < 65536 \<Longrightarrow> \<exists>w. tftp_extract_block (payload (data_pkt img k)) = Some w \<and> uint w = int k"
  by (simp add: data_pkt_payload tftp_extract_block_def u16_of_nat)

lemma write_step:
  assumes "write_law F stored" "alloc_ok lw" "writing F stored img k s" "k < 65535" "512 * k \<le> length img"
  shows "\<exists>s' a. wrq_recv_callback F lw (data_pkt img (k + 1)) s =
      Some (if length (block_of img (k + 1)) < 512 then tftp_cleanup_wr F s' else s') \<and>
    stored (files s') = take (512 * (k + 1)) img \<and> takes F (rest img (k + 1)) (files s') \<and> t_args s' = Some a \<and> a_block a = int (k + 1) \<and>
    t_sent s' = t_sent s @ [ack_pkt (k + 1)]"
proof -
  define p b where "p = data_pkt img (k + 1)" and "b = block_of img (k + 1)"
  obtain a where a: "t_args s = Some a" "a_block a = int k" "stored (files s) = take (512 * k) img"
    and room: "takes F (rest img k) (files s)"
    using assms(3) by (auto simp: writing_def)
  obtain w where w: "tftp_extract_block (payload p) = Some w" "uint w = int k + 1"
    using extract_data_pkt[of "k + 1" img] assms(4) by (auto simp: p_def)
  have img: "take (512 * (k + 1)) img = take (512 * k) img @ b"
    by (simp add: b_def block_of_def take_add[symmetric] add.commute)
  have len: "length (payload p) = 4 + length b" "tot_len p = 4 + length b" "drop 4 (payload p) = b"
    by (simp_all only: p_def b_def data_pkt_simps)
  have ack: "tftp_send_ack_packet lw (int k + 1) t = Some (t \<lparr> t_sent := t_sent t @ [ack_pkt (k + 1)] \<rparr>)" for t :: "'a tftp"
    using send_ack_pkt[OF assms(2), of "k + 1" t] by (simp add: add.commute)
  have "\<exists>s' a. wrq_recv_callback F lw p s =
      Some (if length b < 512 then tftp_cleanup_wr F s' else s') \<and>
    stored (files s') = take (512 * (k + 1)) img \<and> takes F (rest img (k + 1)) (files s') \<and> t_args s' = Some a \<and> a_block a = int (k + 1) \<and>
    t_sent s' = t_sent s @ [ack_pkt (k + 1)]"
  proof (cases "b = []")
    case True
    let ?s = "s \<lparr> t_args := Some (a \<lparr> a_block := int k + 1 \<rparr>), t_sent := t_sent s @ [ack_pkt (k + 1)] \<rparr>"
    have "wrq_recv_callback F lw p s = Some (tftp_cleanup_wr F ?s)"
      using a w True ack by (simp add: wrq_recv_callback_def len Let_def)
    then show ?thesis using a(3) img True room rest_step[OF assms(5)] by (intro exI[of _ ?s]) (simp add: b_def)
  next
    case False
    obtain f where f: "file_write F b (files s) = (int (length b), f)" "takes F (rest img (k + 1)) f"
      using room rest_step[OF assms(5)] False by (auto simp: b_def)
    moreover have "stored f = stored (files s) @ take (nat (int (length b))) b"
      using conjunct1[OF assms(1)[unfolded write_law_def], rule_format, of b "files s"] f(1) by simp
    ultimately have f3: "stored f = take (512 * (k + 1)) img" using a(3) img by simp
    let ?a = "a \<lparr> a_block := int k + 1, a_tot_bytes := a_tot_bytes a + int (length b) \<rparr>"
    let ?s = "s \<lparr> files := f, t_args := Some ?a, t_sent := t_sent s @ [ack_pkt (k + 1)] \<rparr>"
    have "wrq_recv_callback F lw p s = Some (if length b < 512 then tftp_cleanup_wr F ?s else ?s)"
      using a(1,2) w f(1) False ack by (simp add: wrq_recv_callback_def len Let_def)
    then show ?thesis using f(2) f3 by (intro exI[of _ ?s]) simp
  qed
  then show ?thesis by (simp only: p_def b_def)
qed


lemma write_again:
  assumes "alloc_ok lw" "writing F stored img k s" "1 \<le> j" "j \<le> k" "k < 65535" "512 * k \<le> length img"
  shows "\<exists>s'. wrq_recv_callback F lw (data_pkt img j) s = Some s' \<and> writing F stored img k s'"
proof -
  obtain a where a: "t_args s = Some a" "a_block a = int k" "stored (files s) = take (512 * k) img"
    "takes F (rest img k) (files s)"
    using assms(2) by (auto simp: writing_def)
  obtain w where w: "tftp_extract_block (payload (data_pkt img j)) = Some w" "uint w = int j"
    using extract_data_pkt[of j img] assms(4,5) by auto
  have "512 * j \<le> length img" using assms(4,6) by linarith
  then have "length (block_of img j) = 512" using full_block assms(3) by blast
  then have len: "length (payload (data_pkt img j)) = 516" "tot_len (data_pkt img j) = 516"
    by (simp_all add: data_pkt_simps)
  have "wrq_recv_callback F lw (data_pkt img j) s = Some (s \<lparr> t_sent := t_sent s @ [ack_pkt k] \<rparr>)"
    using a w assms(4) send_ack_pkt[OF assms(1), of k s] by (simp add: wrq_recv_callback_def len)
  then show ?thesis using a by (auto simp: writing_def)
qed

lemma writes_file:
  assumes "upload img k ps" "write_law F stored" "alloc_ok lw" "length img < 512 * 65535"
    "writing F stored img k s" "512 * k \<le> length img"
  shows "\<exists>s'. write_packets F lw ps s = Some s' \<and> stored (files s') = img \<and> t_args s' = None \<and> t_conn s' = None \<and>
    t_listening s' \<and> t_sent s' \<noteq> [] \<and> List.last (t_sent s') = ack_pkt (length img div 512 + 1)"
  using assms(1,5,6)
proof (induction arbitrary: s rule: upload.induct)
  case (last k)
  have "k < 65535" using last.prems(2) assms(4) by linarith
  from write_step[OF assms(2,3) last.prems(1) this last.prems(2)] obtain s' a where s':
    "wrq_recv_callback F lw (data_pkt img (k + 1)) s =
      Some (if length (block_of img (k + 1)) < 512 then tftp_cleanup_wr F s' else s')"
    "stored (files s') = take (512 * (k + 1)) img" "t_sent s' = t_sent s @ [ack_pkt (k + 1)]" by blast
  have "length (block_of img (k + 1)) < 512" using last by (simp add: block_of_def)
  then have "write_packets F lw [data_pkt img (k + 1)] s = Some (tftp_cleanup_wr F s')" using s'(1) by simp
  moreover have "stored (files (tftp_cleanup_wr F s')) = img"
    using s'(2) assms(2) last.hyps by (simp add: tftp_cleanup_wr_def write_law_def)
  moreover have "length img div 512 = k" using last by (intro div_nat_eqI) simp_all
  ultimately show ?case using s'(3) by (auto simp: tftp_cleanup_wr_def)
next
  case (more k ps)
  have k: "k < 65535" using more.prems(2) assms(4) by linarith
  from write_step[OF assms(2,3) more.prems(1) k more.prems(2)] obtain s' a where s':
    "wrq_recv_callback F lw (data_pkt img (k + 1)) s =
      Some (if length (block_of img (k + 1)) < 512 then tftp_cleanup_wr F s' else s')"
    "stored (files s') = take (512 * (k + 1)) img" "takes F (rest img (k + 1)) (files s')" "t_args s' = Some a"
    "a_block a = int (k + 1)" by blast
  have "length (block_of img (k + 1)) = 512" using full_block[of "k + 1" img] more.hyps(1) by simp
  then have 1: "wrq_recv_callback F lw (data_pkt img (k + 1)) s = Some s'" using s'(1) by simp
  have "writing F stored img (k + 1) s'" using s'(2-5) by (simp add: writing_def)
  from more.IH[OF this more.hyps(1)] show ?case using 1 by simp
next
  case (again j k ps)
  have "k < 65535" using again.prems(2) assms(4) by linarith
  from write_again[OF assms(3) again.prems(1) again.hyps(1,2) this again.prems(2)]
  obtain s' where "wrq_recv_callback F lw (data_pkt img j) s = Some s'" "writing F stored img k s'" by blast
  then show ?case using again.IH[OF _ again.prems(2)] by simp
qed

section \<open>Properties\<close>

text \<open>
  A client that reads a file by TFTP gets its blocks one by one, each after the
  acknowledgement of the one before, up to the last; the acknowledgement of the last
  makes the server use the arguments it has just freed.
\<close>

theorem read_transfer_ends_in_fault:
  assumes "read_law F unread" "alloc_ok lw" "malloc_ok lw" "file_fopen F name False (files s) = (True, f)"
    "unread f = img" "length junk = 516" "length img < 512 * 65535" "i < 65536"
  defines "n \<equiv> length img div 512 + 1"
  shows "\<exists>s1 s2. tftp_process_read F junk lw ip port name s = Some s1 \<and> read_acks F lw [1..<n] s1 = Some s2 \<and>
    t_sent s2 = t_sent s @ map (\<lambda>j. payload (data_pkt img j)) [1..<n + 1] \<and>
    rrq_recv_callback F lw (ack_pbuf i) s2 = None"
proof -
  obtain s1 where s1: "tftp_process_read F junk lw ip port name s = Some s1" "reading unread img 1 1 s1"
    "t_sent s1 = t_sent s @ [payload (data_pkt img 1)]"
    using process_read_starts[OF assms(1-6)] by blast
  have q: "512 * (length img div 512) \<le> length img" "length img < 512 * (length img div 512) + 512" by simp_all
  then have "length img div 512 < 65535" using assms(7) by linarith
  from reads_on[OF assms(1,2) s1(2) q(1) this] obtain s2 where s2: "read_acks F lw [1..<n] s1 = Some s2"
    "reading unread img n n s2" "t_sent s2 = t_sent s1 @ map (\<lambda>j. payload (data_pkt img j)) [2..<n + 1]"
    by (auto simp: n_def)
  have "length (block_of img n) < 512" using q by (simp add: n_def block_of_def)
  from last_ack_faults[OF s2(2) assms(8) this] have "rrq_recv_callback F lw (ack_pbuf i) s2 = None" .
  moreover have "[1..<n + 1] = 1 # [2..<n + 1]" by (simp add: n_def upt_conv_Cons numeral_2_eq_2 del: upt_Suc)
  ultimately show ?thesis using s1(1,3) s2(1,3) by simp
qed

text \<open>
  An acknowledgement that is not the expected one, such as a repeated one, makes the server
  send the next data of the file under the number of the block it sent before.
\<close>

theorem repeated_ack_skips_data:
  assumes "read_law F unread" "alloc_ok lw" "reading unread img k k s" "length (block_of img k) = 512" "i \<noteq> k" "i < 65536"
  shows "\<exists>s'. rrq_recv_callback F lw (ack_pbuf i) s = Some s' \<and>
    t_sent s' = t_sent s @ [[0, 3, hi8 (of_nat k), lo8 (of_nat k)] @ block_of img (k + 1)]"
  using ack_sends_next[OF assms(1-3,6,4)] assms(5) by auto

text \<open>
  C25: A file shorter than 512 times 65535 bytes that a client writes by TFTP into a new
  empty file, repeating blocks as it likes, is stored whole and in order, its last block
  is acknowledged, and the server listens for requests again. The file system, which is
  vendored, appends to the file as many bytes as its write answers, which may be fewer
  than it was given; for this property it takes every block of the file whole, and lwIP
  can allocate its packets.
\<close>

theorem write_transfer_stores:
  assumes "write_law F stored" "alloc_ok lw" "malloc_ok lw" "file_fopen F name True (files s) = (True, f)"
    "stored f = []" "takes F (rest img 0) f" "upload img 0 ps" "length img < 512 * 65535"
  shows "\<exists>s1 s2. tftp_process_write F junk lw ip port name s = Some s1 \<and> write_packets F lw ps s1 = Some s2 \<and>
    stored (files s2) = img \<and> t_conn s2 = None \<and> t_listening s2 \<and>
    List.last (t_sent s2) = ack_pkt (length img div 512 + 1)"
proof -
  define s1 where "s1 = s \<lparr> files := f, t_args := Some \<lparr> a_op = TFTP_WRQ, a_data = junk, data_len = 0, a_to_ip = ip,
    a_to_port = port, a_block = 0, a_tot_bytes = 0 \<rparr>, t_conn := Some Wrq, t_sent := t_sent s @ [ack_pkt 0] \<rparr>"
  have "tftp_send_ack_packet lw 0 t = Some (t \<lparr> t_sent := t_sent t @ [ack_pkt 0] \<rparr>)" for t :: "'a tftp"
    using send_ack_pkt[OF assms(2), of 0 t] by simp
  then have s1: "tftp_process_write F junk lw ip port name s = Some s1" "writing F stored img 0 s1"
    using assms(3-6) by (simp_all add: tftp_process_write_def writing_def s1_def)
  show ?thesis using writes_file[OF assms(7,1,2,8) s1(2)] s1(1) by auto
qed

text \<open>
  A disk that is full.  A block of which only a part was written is acknowledged like any other,
  although the rest of it is lost; when nothing could be written the server goes on with the
  arguments it has freed.
\<close>

theorem short_write_acknowledged:
  assumes "alloc_ok lw" "t_args s = Some a" "a_block a = int k" "k < 65535" "length (block_of img (k + 1)) = 512"
    "file_write F (block_of img (k + 1)) (files s) = (n, f)"
  shows "0 < n \<Longrightarrow> \<exists>s'. wrq_recv_callback F lw (data_pkt img (k + 1)) s = Some s' \<and> files s' = f \<and>
      t_sent s' = t_sent s @ [ack_pkt (k + 1)]"
    and "n \<le> 0 \<Longrightarrow> wrq_recv_callback F lw (data_pkt img (k + 1)) s = None"
proof -
  define p where "p = data_pkt img (k + 1)"
  obtain w where w: "tftp_extract_block (payload p) = Some w" "uint w = int k + 1"
    using extract_data_pkt[of "k + 1" img] assms(4) by (auto simp: p_def)
  have len: "length (payload p) = 516" "tot_len p = 516" "drop 4 (payload p) = block_of img (k + 1)"
    using assms(5) by (simp_all only: p_def data_pkt_simps)
  have ack: "tftp_send_ack_packet lw (int k + 1) t = Some (t \<lparr> t_sent := t_sent t @ [ack_pkt (k + 1)] \<rparr>)" for t :: "'a tftp"
    using send_ack_pkt[OF assms(1), of "k + 1" t] by (simp add: add.commute)
  show "0 < n \<Longrightarrow> \<exists>s'. wrq_recv_callback F lw (data_pkt img (k + 1)) s = Some s' \<and> files s' = f \<and>
      t_sent s' = t_sent s @ [ack_pkt (k + 1)]"
    unfolding p_def[symmetric] using assms(2,3,6) w ack by (simp add: wrq_recv_callback_def len Let_def)
  show "n \<le> 0 \<Longrightarrow> wrq_recv_callback F lw (data_pkt img (k + 1)) s = None"
    unfolding p_def[symmetric] using assms(2,3,6) w
    by (auto simp: wrq_recv_callback_def len Let_def bind_eq_None_conv tftp_cleanup_wr_def)
qed

text \<open>A file name of 30 characters or more is copied past its array.\<close>

theorem long_name_overflows:
  assumes "udp_new lw \<noteq> None" "bind_ok lw" "tftp_decode_op (payload p) \<in> {Some TFTP_RRQ, Some TFTP_WRQ}"
    "30 \<le> length (takeWhile (\<lambda>b. b \<noteq> 0) (drop 2 (payload p)))"
  shows "process_tftp_request F junk lw ip port p s = None"
  using assms by (auto simp: process_tftp_request_def tftp_extract_filename_def strcpy_def Let_def cwrite_def)

text \<open>A read without packets is given up in the 86th call of the timer, and not before.\<close>

fun timer_calls :: "'f filesys \<Rightarrow> lwip_answers \<Rightarrow> nat \<Rightarrow> 'f tftp \<Rightarrow> 'f tftp option" where
  "timer_calls F lw 0 s = Some s"
| "timer_calls F lw (Suc n) s = do { s \<leftarrow> TftpTrm250ms F lw s; timer_calls F lw n s }"

lemma timer_counts:
  assumes "tftptimeoutTimer s" "unat (tftptimeout s) + n \<le> 85"
  shows "timer_calls F lw n s = Some (s \<lparr> tftptimeout := tftptimeout s + of_nat n \<rparr>)"
  using assms
proof (induction n arbitrary: s)
  case (Suc n)
  have u: "unat (tftptimeout s + 1) = unat (tftptimeout s) + 1"
    using Suc.prems(2) by (simp add: unat_word_ariths)
  then have "\<not> 85 < tftptimeout s + 1" using Suc.prems(2) by (simp add: word_less_nat_alt)
  then have "TftpTrm250ms F lw s = Some (s \<lparr> tftptimeout := tftptimeout s + 1 \<rparr>)"
    using Suc.prems(1) by (simp add: TftpTrm250ms_def)
  then show ?case using Suc.IH[of "s \<lparr> tftptimeout := tftptimeout s + 1 \<rparr>"] Suc.prems u by (simp add: add.assoc)
qed simp

theorem read_timeout:
  assumes "tftptimeoutTimer s" "tftptimeout s = 0" "t_conn s = Some Rrq" "n \<le> 85"
  shows "\<exists>s'. timer_calls F lw n s = Some s' \<and> t_conn s' = Some Rrq \<and>
    (\<forall>t. n = 85 \<and> TftpTrm250ms F lw s' = Some t \<longrightarrow> t_conn t = None \<and> t_args t = None \<and> t_listening t)"
  using timer_counts[of s n F lw] assms
  by (auto simp: TftpTrm250ms_def bind_eq_Some_conv tftp_cleanup_rd_def)

section \<open>Witnesses\<close>

text \<open>A file system with one file: what is left to read, and what was written.\<close>

definition one_file :: "(bytes \<times> bytes) filesys" where
  "one_file = \<lparr> efs_init = Pair True, ls_openDir = Pair True, file_fopen = \<lambda>n w f. (True, f),
     file_read = \<lambda>n (u, w). (take n u, drop n u, w), file_write = \<lambda>d (u, w). (int (length d), u, w @ d),
     file_fclose = \<lambda>t f. f, fs_umount = \<lambda>t f. f \<rparr>"

lemma one_file_laws: "read_law one_file fst" "write_law one_file snd"
  by (auto simp: read_law_def write_law_def one_file_def)

definition idle_tftp :: "bytes \<Rightarrow> (bytes \<times> bytes) tftp" where
  "idle_tftp img = \<lparr> files = (img, []), t_args = None, t_conn = None, t_listening = True, t_sent = [],
     tftptimeoutTimer = False, tftptimeout = 0 \<rparr>"

theorem read_transfer_ends_in_fault_witness:
  "\<exists>s1. tftp_process_read one_file (replicate 516 0) good_answers 0 50000 [97] (idle_tftp [1, 2, 3]) = Some s1 \<and>
    t_sent s1 = [[0, 3, 0, 1, 1, 2, 3]] \<and> rrq_recv_callback one_file good_answers (ack_pbuf 1) s1 = None"
proof -
  have "payload (data_pkt [1, 2, 3] 1) = [0, 3, 0, 1, 1, 2, 3]"
    by (simp add: data_pkt_payload block_of_def hi8_def lo8_def drop_bit_eq_div)
  then show ?thesis
    using read_transfer_ends_in_fault[OF one_file_laws(1), of good_answers "[97]" "idle_tftp [1, 2, 3]"
        "([1, 2, 3], [])" "[1, 2, 3]" "replicate 516 0" 1 0 50000]
    by (simp add: good_answers_def idle_tftp_def one_file_def)
qed

theorem write_transfer_stores_witness:
  "\<exists>s1 s2. tftp_process_write one_file (replicate 516 0) good_answers 0 50000 [97] (idle_tftp []) = Some s1 \<and>
    write_packets one_file good_answers [data_pkt [4, 5] 1] s1 = Some s2 \<and> snd (files s2) = [4, 5]"
proof -
  have "upload [4, 5] 0 [data_pkt [4, 5] 1]" using upload.last[of "[4, 5]" 0] by simp
  moreover have "takes one_file (rest [4, 5] 0) ([], [])"
    by (simp add: rest_def block_of_def one_file_def)
  ultimately show ?thesis
    using write_transfer_stores[OF one_file_laws(2), of good_answers "[97]" "idle_tftp []" "([], [])" "[4, 5]" "[data_pkt [4, 5] 1]"
      "replicate 516 0" 0 50000]
    by (auto simp: good_answers_def idle_tftp_def one_file_def)
qed

end
