(* ===== verification/NetBios.thy ===== *)
theory NetBios
  imports Prelude
begin

text \<open>
  The NetBIOS name service, \<open>netbios/netbios.c\<close>, which answers queries for one name; \<open>main\<close>
  has the call of \<open>netbios_init\<close> commented out.  A packet is the bytes of its first segment and
  the fields of \<open>struct netbios_hdr\<close> and \<open>struct netbios_name_hdr\<close> are at their offsets.
  The encoder is compiled out in the source (\<open>#if 0\<close>).  \<open>None\<close> is an access outside a
  packet or an array; the address of the interface is an argument, as is the memory for the answer.
\<close>

unbundle bit_operations_syntax

abbreviation (input) NETBIOS_NAME_LEN :: nat where "NETBIOS_NAME_LEN \<equiv> 16"

definition NETBIOS_LWIP_NAME :: bytes where
  "NETBIOS_LWIP_NAME = map of_char ''TEMPNETBIOS''"

section \<open>Names\<close>

text \<open>
  The loop over the pairs of characters; the name ends at a zero or a full stop.  The result
  is the return value and \<open>name_dec\<close>.
\<close>

definition in_AZ :: "u8 \<Rightarrow> bool" where
  "in_AZ c \<longleftrightarrow> 0x41 \<le> c \<and> c \<le> 0x5A"

fun netbios_name_decoding :: "bytes \<Rightarrow> bytes \<Rightarrow> nat \<Rightarrow> (int \<times> bytes) option" where
  "netbios_name_decoding [] name_dec index = None"
| "netbios_name_decoding (c # r) name_dec index =
    (if c = 0 \<or> c = 0x2E then Some (0, name_dec)
     else if \<not> in_AZ c then Some (-1, name_dec)
     else (case r of
         [] \<Rightarrow> None
       | d # r \<Rightarrow>
           if d = 0 \<or> d = 0x2E then Some (-1, name_dec)
           else if \<not> in_AZ d then Some (-1, name_dec)
           else
             let cnbname = push_bit 4 (c - 0x41) OR (d - 0x41)
             in if index < NETBIOS_NAME_LEN then do {
                  name_dec \<leftarrow> cset name_dec index (if cnbname \<noteq> 0x20 then cnbname else 0);
                  netbios_name_decoding r name_dec (index + 1)
                }
                else netbios_name_decoding r name_dec index))"

fun enc_chars :: "bytes \<Rightarrow> nat \<Rightarrow> nat \<Rightarrow> bytes \<Rightarrow> (int \<times> nat \<times> bytes) option" where
  "enc_chars [] len index name_dec = None"
| "enc_chars (c # r) len index name_dec =
    (if c = 0 \<or> c = 0x2E then Some (0, index, name_dec)
     else if (c < 0x41 \<or> 0x5A < c) \<and> (c < 0x30 \<or> 0x39 < c) then Some (-1, index, name_dec)
     else if len \<le> index then Some (-1, index, name_dec)
     else do {
       name_dec \<leftarrow> cset name_dec index (0x41 + (drop_bit 4 c AND 0x0F));
       name_dec \<leftarrow> cset name_dec (index + 1) (0x41 + (c AND 0x0F));
       enc_chars r len (index + 2) name_dec
     })"

function enc_fill :: "nat \<Rightarrow> nat \<Rightarrow> bytes \<Rightarrow> (nat \<times> bytes) option" where
  "enc_fill len index name_dec =
    (if int index < int len - 1 then do {
       name_dec \<leftarrow> cset name_dec index 0x43;
       name_dec \<leftarrow> cset name_dec (index + 1) 0x41;
       enc_fill len (index + 2) name_dec
     } else Some (index, name_dec))"
  by pat_completeness auto

termination by (relation "measure (\<lambda>(len, index, d). len - index)") auto

declare enc_fill.simps [simp del]

definition netbios_name_encoding :: "bytes \<Rightarrow> bytes \<Rightarrow> nat \<Rightarrow> (int \<times> bytes) option" where
  "netbios_name_encoding name_enc name_dec name_dec_len = do {
     (e, index, d) \<leftarrow> enc_chars name_enc name_dec_len 0 name_dec;
     if e \<noteq> 0 then Some (e, d)
     else do {
       (index, d) \<leftarrow> enc_fill name_dec_len index d;
       d \<leftarrow> cset d index 0;
       Some (0, d)
     }
   }"

section \<open>Queries\<close>

text \<open>\<open>strcmp\<close> against the name: equal up to and with the zero that ends it.\<close>

definition is_our_name :: "bytes \<Rightarrow> bool" where
  "is_our_name name \<longleftrightarrow> take (length NETBIOS_LWIP_NAME + 1) name = NETBIOS_LWIP_NAME @ [0]"

definition netbios_resp :: "bytes \<Rightarrow> bytes \<Rightarrow> bytes" where
  "netbios_resp p ip =
     take 2 p @ [0x85, 0x00] @ [0, 0] @ [0, 1] @ [0, 0] @ [0, 0] @
     [p ! 12] @ take 33 (drop 13 p) @ take 2 (drop 46 p) @ take 2 (drop 48 p) @
     [0, 0, 0, 5] @ [0, 6] @ [0, 0] @ ip"

text \<open>\<open>junk\<close> is what the array of 17 characters holds before the decoding.\<close>

definition netbios_recv :: "bytes \<Rightarrow> bytes option \<Rightarrow> bool \<Rightarrow> bytes \<Rightarrow> bytes list \<Rightarrow> bytes list option" where
  "netbios_recv junk netif_default alloc_ok p sent =
    (case netif_default of
       None \<Rightarrow> Some sent
     | Some ip \<Rightarrow> do {
         fh \<leftarrow> cget p 2;
         fl \<leftarrow> cget p 3;
         qh \<leftarrow> cget p 4;
         ql \<leftarrow> cget p 5;
         let flags = mk16 fh fl;
         if flags AND 0x7800 = 0x0000 \<and> flags AND 0x8000 = 0 \<and> mk16 qh ql = 1 then do {
           (_, netbios_name) \<leftarrow> netbios_name_decoding (drop 13 p) junk 0;
           if is_our_name netbios_name then
             if \<not> alloc_ok then Some sent
             else if length p < 50 then None
             else Some (sent @ [netbios_resp p ip])
           else Some sent
         } else Some sent
       })"

definition netbios_init :: "bool \<Rightarrow> bool \<Rightarrow> bool" where
  "netbios_init new_ok listening = (if new_ok then True else listening)"

section \<open>Decoding what was encoded\<close>

text \<open>The pairs of characters of a name, and what is left of a name by the decoder.\<close>

definition nb_pair :: "u8 \<Rightarrow> bytes" where
  "nb_pair c = [0x41 + (drop_bit 4 c AND 0x0F), 0x41 + (c AND 0x0F)]"

definition no_space :: "u8 \<Rightarrow> u8" where
  "no_space c = (if c \<noteq> 0x20 then c else 0)"


lemma nibble_le: "c AND 0x0F \<le> (0x0F :: u8)"
  by (rule word_and_le1)

lemma nib_AZ: "n \<le> 0x0F \<Longrightarrow> in_AZ (0x41 + n) \<and> 0x41 + n \<noteq> 0 \<and> 0x41 + n \<noteq> 0x2E"
proof -
  assume n: "n \<le> 0x0F"
  then have "unat n \<le> 15" by (simp add: word_le_nat_alt)
  then have "unat (0x41 + n) = 0x41 + unat n" by (simp add: unat_word_ariths)
  then have "0x41 \<le> unat (0x41 + n)" "unat (0x41 + n) \<le> 0x50" using \<open>unat n \<le> 15\<close> by simp_all
  moreover have "0x41 + n \<noteq> x" if "unat x < 0x41" for x
    using \<open>0x41 \<le> unat (0x41 + n)\<close> that by auto
  from this[of 0] this[of "0x2E"] have "0x41 + n \<noteq> 0 \<and> 0x41 + n \<noteq> 0x2E" by simp
  ultimately show ?thesis by (simp only: in_AZ_def word_le_nat_alt) simp
qed

lemma nibbles_join: "push_bit 4 (drop_bit 4 c AND 0x0F) OR (c AND 0x0F) = (c :: u8)"
proof -
  have m: "(0x0F :: u8) = mask 4" by (simp add: mask_eq_exp_minus_1)
  show ?thesis unfolding m by (rule bit_word_eqI) (auto simp: bit_simps)
qed

lemma decode_pair:
  assumes "i < 16" "i < length d"
  shows "netbios_name_decoding (nb_pair c @ r) d i = netbios_name_decoding r (d[i := no_space c]) (i + 1)"
proof -
  let ?h = "drop_bit 4 c AND 0x0F" and ?l = "c AND 0x0F"
  have "netbios_name_decoding ((0x41 + ?h) # (0x41 + ?l) # r) d i =
      netbios_name_decoding r (d[i := if push_bit 4 ?h OR ?l \<noteq> 0x20 then push_bit 4 ?h OR ?l else 0]) (i + 1)"
    using assms nib_AZ[OF nibble_le[of "drop_bit 4 c"]] nib_AZ[OF nibble_le[of c]]
    by (simp only: netbios_name_decoding.simps list.case Let_def add_diff_cancel_left' if_True if_False simp_thms
        cset_in bind.bind_lunit)
  then show ?thesis by (simp only: nibbles_join nb_pair_def no_space_def append_Cons append_Nil)
qed

lemma decode_name:
  assumes "i + length n \<le> 16" "length d = 17"
  shows "netbios_name_decoding (concat (map nb_pair n) @ 0 # r) d i =
    Some (0, take i d @ map no_space n @ drop (i + length n) d)"
  using assms
proof (induction n arbitrary: i d)
  case (Cons c n)
  have "netbios_name_decoding (nb_pair c @ (concat (map nb_pair n) @ 0 # r)) d i =
      netbios_name_decoding (concat (map nb_pair n) @ 0 # r) (d[i := no_space c]) (i + 1)"
    using Cons.prems by (intro decode_pair) simp_all
  also have "\<dots> = Some (0, take (i + 1) (d[i := no_space c]) @ map no_space n @ drop (i + 1 + length n) (d[i := no_space c]))"
    using Cons.prems by (intro Cons.IH) simp_all
  finally show ?case using Cons.prems by (simp add: take_update1)
qed simp

lemma encode_chars:
  assumes "\<forall>c \<in> set n. (0x41 \<le> c \<and> c \<le> 0x5A) \<or> (0x30 \<le> c \<and> c \<le> 0x39)" "k + length n \<le> 16" "length d = 33"
  shows "enc_chars (n @ 0 # r) 33 (2 * k) d =
    Some (0, 2 * (k + length n), take (2 * k) d @ concat (map nb_pair n) @ drop (2 * (k + length n)) d)"
  using assms
proof (induction n arbitrary: k d)
  case (Cons c n)
  have c: "(0x41 \<le> c \<and> c \<le> 0x5A) \<or> (0x30 \<le> c \<and> c \<le> 0x39)" using Cons.prems(1) by simp
  then have ok: "\<not> (c = 0 \<or> c = 0x2E)" "\<not> ((c < 0x41 \<or> 0x5A < c) \<and> (c < 0x30 \<or> 0x39 < c))"
    by (auto simp: not_less)
  let ?d = "d[2 * k := 0x41 + (drop_bit 4 c AND 0x0F), Suc (2 * k) := 0x41 + (c AND 0x0F)]"
  have "enc_chars ((c # n) @ 0 # r) 33 (2 * k) d = enc_chars (n @ 0 # r) 33 (2 * (k + 1)) ?d"
    using ok Cons.prems(2,3) by (simp only: enc_chars.simps append_Cons if_False) simp
  also have "\<dots> = Some (0, 2 * (k + 1 + length n), take (2 * (k + 1)) ?d @ concat (map nb_pair n) @
      drop (2 * (k + 1 + length n)) ?d)"
    using Cons.prems by (intro Cons.IH) simp_all
  also have "take (2 * (k + 1)) ?d = take (2 * k) d @ nb_pair c"
    using Cons.prems(2,3) take_update2[of "2 * k" d] by (simp add: nb_pair_def)
  also have "drop (2 * (k + 1 + length n)) ?d = drop (2 * (k + 1 + length n)) d" by simp
  finally show ?case by simp
qed simp

lemma encode_fill:
  assumes "k \<le> 16" "length d = 33"
  shows "enc_fill 33 (2 * k) d = Some (32, take (2 * k) d @ concat (map nb_pair (replicate (16 - k) 0x20)) @ drop 32 d)"
  using assms
proof (induction "16 - k" arbitrary: k d)
  case 0
  then have "k = 16" by simp
  then show ?case by (simp add: enc_fill.simps)
next
  case (Suc m)
  have k: "k < 16" using Suc.hyps(2) by simp
  let ?d = "d[2 * k := 0x43, Suc (2 * k) := 0x41 :: u8]"
  have "nb_pair 0x20 = [0x43, 0x41]" by (simp add: nb_pair_def drop_bit_eq_div)
  then have t: "take (2 * (k + 1)) ?d = take (2 * k) d @ nb_pair 0x20"
    using k Suc.prems(2) take_update2[of "2 * k" d] by simp
  have "enc_fill 33 (2 * k) d = enc_fill 33 (2 * (k + 1)) ?d"
    using k Suc.prems(2) by (subst enc_fill.simps) simp
  also have "\<dots> = Some (32, take (2 * (k + 1)) ?d @ concat (map nb_pair (replicate (16 - (k + 1)) 0x20)) @ drop 32 ?d)"
    using Suc by (intro Suc.hyps(1)) simp_all
  also have "drop 32 ?d = drop 32 d" using k by simp
  finally show ?case using k unfolding t by (simp add: Suc_diff_Suc[symmetric])
qed

section \<open>Properties\<close>

text \<open>
  A name of at most 16 capital letters and digits that is encoded into the 33 characters of a
  query is decoded to itself, filled with zeros.
\<close>

theorem netbios_name_roundtrip:
  assumes "\<forall>c \<in> set n. (0x41 \<le> c \<and> c \<le> 0x5A) \<or> (0x30 \<le> c \<and> c \<le> 0x39)" "length n \<le> 16" "length d = 33"
    "length junk = 17"
  shows "\<exists>e. netbios_name_encoding (n @ 0 # r) d 33 = Some (0, e) \<and> length e = 33 \<and>
    netbios_name_decoding (e @ x) junk 0 = Some (0, n @ replicate (16 - length n) 0 @ [junk ! 16])"
proof -
  let ?m = "n @ replicate (16 - length n) 0x20"
  have "enc_chars (n @ 0 # r) 33 (2 * 0) d = Some (0, 2 * (0 + length n), take (2 * 0) d @ concat (map nb_pair n) @ drop (2 * (0 + length n)) d)"
    using assms(2) by (intro encode_chars[OF assms(1) _ assms(3)]) simp
  then have 1: "enc_chars (n @ 0 # r) 33 0 d = Some (0, 2 * length n, concat (map nb_pair n) @ drop (2 * length n) d)"
    by simp
  have two: "length (concat (map nb_pair xs)) = 2 * length xs" for xs
    by (induction xs) (simp_all add: nb_pair_def)
  have "length (concat (map nb_pair n) @ drop (2 * length n) d) = 33" using two assms(2,3) by simp
  from encode_fill[OF assms(2) this]
  have 2: "enc_fill 33 (2 * length n) (concat (map nb_pair n) @ drop (2 * length n) d) =
      Some (32, concat (map nb_pair ?m) @ drop 32 d)"
    using two assms(2) by simp
  have l: "length (concat (map nb_pair ?m)) = 32" using two[of ?m] assms(2) by simp
  have "drop 32 d = d ! 32 # drop 33 d" using Cons_nth_drop_Suc[of 32 d] assms(3) by simp
  then obtain z where z: "drop 32 d = [z]" using assms(3) by simp
  have "(concat (map nb_pair ?m) @ drop 32 d)[32 := 0] = concat (map nb_pair ?m) @ [0]"
    unfolding z using l by (simp add: list_update_append del: map_append concat_append)
  then have enc: "netbios_name_encoding (n @ 0 # r) d 33 = Some (0, concat (map nb_pair ?m) @ [0])"
    using 1 2 l z by (simp add: netbios_name_encoding_def del: map_append concat_append)
  have "0x20 \<notin> set n"
  proof
    assume "0x20 \<in> set n"
    then have "((0x41 :: u8) \<le> 0x20 \<and> (0x20 :: u8) \<le> 0x5A) \<or> ((0x30 :: u8) \<le> 0x20 \<and> (0x20 :: u8) \<le> 0x39)"
      using assms(1) by blast
    then show False by simp
  qed
  then have "map no_space ?m = n @ replicate (16 - length n) 0"
    by (auto simp: no_space_def intro!: map_idI)
  moreover have "drop 16 junk = [junk ! 16]" using assms(4) by (simp add: Cons_nth_drop_Suc[symmetric])
  moreover have "netbios_name_decoding (concat (map nb_pair ?m) @ 0 # x) junk 0 =
      Some (0, take 0 junk @ map no_space ?m @ drop (0 + length ?m) junk)"
    using assms(2,4) by (intro decode_name) simp_all
  ultimately show ?thesis using enc l assms(2) by (intro exI[of _ "concat (map nb_pair ?m) @ [0]"]) (simp del: map_append concat_append)
qed

text \<open>
  A query for a NetBIOS name is answered exactly when the name is TEMPNETBIOS
  filled with spaces or zeros, and the answer has the identifier, the name, type and
  class of the query and the address of the interface.
\<close>

theorem netbios_answers_iff:
  assumes "length n = 16" "length junk = 17" "flags AND 0xF800 = 0"
    "p = [t0, t1, hi8 flags, lo8 flags, 0, 1] @ more @ [nametype] @ concat (map nb_pair n) @ [0] @ [ty0, ty1, cl0, cl1] @ rest"
    "length more = 6"
  shows "netbios_recv junk (Some ip) True p sent =
    Some (sent @ (if take 12 (map no_space n) = NETBIOS_LWIP_NAME @ [0]
      then [[t0, t1, 0x85, 0, 0, 0, 0, 1, 0, 0, 0, 0, nametype] @ concat (map nb_pair n) @
            [0, ty0, ty1, cl0, cl1, 0, 0, 0, 5, 0, 6, 0, 0] @ ip]
      else []))"
proof -
  let ?e = "concat (map nb_pair n)"
  have "length (concat (map nb_pair xs)) = 2 * length xs" for xs
    by (induction xs) (simp_all add: nb_pair_def)
  then have le: "length ?e = 32" using assms(1) by simp
  obtain a b c d e f where more: "more = [a, b, c, d, e, f]"
    using assms(5) by (auto simp: numeral_eq_Suc length_Suc_conv)
  define q where "q = ?e @ 0 # ty0 # ty1 # cl0 # cl1 # rest"
  have p: "p = [t0, t1, hi8 flags, lo8 flags, 0, 1, a, b, c, d, e, f, nametype] @ q"
    by (simp add: assms(4) more q_def)
  have f: "flags AND 0x7800 = 0" "flags AND 0x8000 = 0"
  proof -
    have "flags AND 0x7800 = (flags AND 0xF800) AND 0x7800" "flags AND 0x8000 = (flags AND 0xF800) AND 0x8000"
      by (simp_all add: and.assoc)
    then show "flags AND 0x7800 = 0" "flags AND 0x8000 = 0" using assms(3) by simp_all
  qed
  have dec: "netbios_name_decoding (drop 13 p) junk 0 = Some (0, map no_space n @ drop 16 junk)"
    using decode_name[of 0 n junk "ty0 # ty1 # cl0 # cl1 # rest"] assms(1,2) by (simp add: p q_def)
  have nm: "length NETBIOS_LWIP_NAME = 11" by (simp add: NETBIOS_LWIP_NAME_def)
  have our: "is_our_name (map no_space n @ drop 16 junk) \<longleftrightarrow> take 12 (map no_space n) = NETBIOS_LWIP_NAME @ [0]"
    using assms(1) by (simp add: is_our_name_def nm)
  have q: "take 33 q = ?e @ [0]" "take 2 (drop 33 q) = [ty0, ty1]" "take 2 (drop 35 q) = [cl0, cl1]" "37 \<le> length q"
    using le by (simp_all add: q_def)
  have one: "mk16 0 1 = 1" by (simp add: mk16_def)
  have "netbios_resp p ip = [t0, t1, 0x85, 0, 0, 0, 0, 1, 0, 0, 0, 0, nametype] @ ?e @
      [0, ty0, ty1, cl0, cl1, 0, 0, 0, 5, 0, 6, 0, 0] @ ip"
    using q by (simp add: netbios_resp_def p)
  then show ?thesis
    using dec our f q(4) one by (simp add: netbios_recv_def p)
qed


text \<open>
  The result of the decoder is not looked at: after the right eleven characters an illegal one
  is as good as the end of the name when the array held zeros before.
\<close>

lemma illegal_name_answered:
  "netbios_recv [0, 0, 0, 0, 0, 0, 0, 0, 0, 0, 0, 0, 0, 0, 0, 0, 0] (Some [192, 168, 1, 252]) True
     ([0, 7, 0, 0, 0, 1, 0, 0, 0, 0, 0, 0, 32] @ concat (map nb_pair NETBIOS_LWIP_NAME) @ [0x23] @ replicate 20 0) []
   \<noteq> Some []"
  by (simp add: netbios_recv_def mk16_def NETBIOS_LWIP_NAME_def nb_pair_def in_AZ_def drop_bit_eq_div is_our_name_def
      push_bit_eq_mult)

section \<open>Witnesses\<close>

theorem netbios_name_roundtrip_witness:
  "\<exists>e. netbios_name_encoding [0x41, 0x42, 0] (replicate 33 0) 33 = Some (0, e) \<and>
    netbios_name_decoding (e @ [1]) (replicate 17 7) 0 = Some (0, [0x41, 0x42] @ replicate 14 0 @ [7])"
  using netbios_name_roundtrip[of "[0x41, 0x42]" "replicate 33 0" "replicate 17 7" "[]" "[1]"] by auto

theorem netbios_answers_iff_witness:
  "\<exists>r. netbios_recv (replicate 17 0) (Some [192, 168, 1, 252]) True
     ([0, 7, 1, 16, 0, 1] @ replicate 6 0 @ [32] @ concat (map nb_pair (NETBIOS_LWIP_NAME @ replicate 5 0x20)) @ [0] @
      [0, 32, 0, 1] @ []) [] = Some [r]"
proof -
  have f: "hi8 0x0110 = 1" "lo8 0x0110 = 16" by (simp_all add: hi8_def lo8_def drop_bit_eq_div)
  have n: "length (NETBIOS_LWIP_NAME @ replicate 5 0x20) = 16" by (simp add: NETBIOS_LWIP_NAME_def)
  have "take 12 (map no_space (NETBIOS_LWIP_NAME @ replicate 5 0x20)) = NETBIOS_LWIP_NAME @ [0]"
    by (simp add: NETBIOS_LWIP_NAME_def no_space_def)
  then show ?thesis
    using netbios_answers_iff[OF n, of "replicate 17 0" "0x0110" _ 0 7 "replicate 6 0" 32 0 32 0 1 "[]" "[192, 168, 1, 252]" "[]", OF _ _ refl]
    by (simp add: f)
qed

end
