(* ===== verification/PortEvent.thy ===== *)
theory PortEvent
  imports MbTypes
begin

text \<open>
  The event queues of the port, \<open>portevent.c\<close> for the slave stack and
  \<open>portevent_m.c\<close> for the master stack: one slot and a flag each.  The contract
  the stacks rely on is the locale \<open>event_port\<close>; both ports are instances.
\<close>

section \<open>The slave's queue\<close>

record slave_queue =
  eQueuedEvent :: eMBEventType
  xEventInQueue :: bool

definition xMBPortEventInit :: "slave_queue \<Rightarrow> bool \<times> slave_queue" where
  "xMBPortEventInit q = (True, q \<lparr> xEventInQueue := False \<rparr>)"

definition xMBPortEventPost :: "eMBEventType \<Rightarrow> slave_queue \<Rightarrow> bool \<times> slave_queue" where
  "xMBPortEventPost eEvent q = (True, q \<lparr> xEventInQueue := True, eQueuedEvent := eEvent \<rparr>)"

definition xMBPortEventGet :: "slave_queue \<Rightarrow> eMBEventType option \<times> slave_queue" where
  "xMBPortEventGet q =
    (if xEventInQueue q then (Some (eQueuedEvent q), q \<lparr> xEventInQueue := False \<rparr>)
     else (None, q))"

section \<open>The master's queue\<close>

record master_queue =
  eMasterQueuedEvent :: eMBMasterEventType
  xMasterEventInQueue :: bool

definition xMBMasterPortEventInit :: "master_queue \<Rightarrow> bool \<times> master_queue" where
  "xMBMasterPortEventInit q = (True, q \<lparr> xMasterEventInQueue := False \<rparr>)"

definition xMBMasterPortEventPost :: "eMBMasterEventType \<Rightarrow> master_queue \<Rightarrow> bool \<times> master_queue" where
  "xMBMasterPortEventPost eEvent q =
     (True, q \<lparr> xMasterEventInQueue := True, eMasterQueuedEvent := eEvent \<rparr>)"

definition xMBMasterPortEventGet :: "master_queue \<Rightarrow> eMBMasterEventType option \<times> master_queue" where
  "xMBMasterPortEventGet q =
    (if xMasterEventInQueue q
     then (Some (eMasterQueuedEvent q), q \<lparr> xMasterEventInQueue := False \<rparr>)
     else (None, q))"

section \<open>The contract\<close>

text \<open>
  A post succeeds and replaces what was queued; a get returns the last event
  posted since the last get or the initialisation, and empties the queue.
\<close>

locale event_port =
  fixes init :: "'q \<Rightarrow> bool \<times> 'q"
    and post :: "'e \<Rightarrow> 'q \<Rightarrow> bool \<times> 'q"
    and get :: "'q \<Rightarrow> 'e option \<times> 'q"
  assumes init_ok: "fst (init q)"
    and post_ok: "fst (post e q)"
    and get_init: "fst (get (snd (init q))) = None"
    and get_post: "fst (get (snd (post e q))) = Some e"
    and get_once: "fst (get (snd (get q))) = None"
begin

definition posts :: "'e list \<Rightarrow> 'q \<Rightarrow> 'q" where
  "posts es q = fold (\<lambda>e q. snd (post e q)) es q"

lemma posts_last: "es \<noteq> [] \<Longrightarrow> fst (get (posts es q)) = Some (last es)"
proof (induction es rule: rev_induct)
  case (snoc e es)
  then show ?case using get_post by (simp add: posts_def)
qed simp

text \<open>Of any events posted between two gets, the last one is delivered, once.\<close>

lemma posts_then_gets:
  assumes "es \<noteq> []" "get (posts es q) = (r, q')"
  shows "r = Some (last es) \<and> fst (get q') = None"
  using posts_last[OF assms(1), of q] get_once[of "posts es q"] assms(2) by simp

end

interpretation slave_ev: event_port xMBPortEventInit xMBPortEventPost xMBPortEventGet
  by unfold_locales (auto simp: xMBPortEventInit_def xMBPortEventPost_def xMBPortEventGet_def)

interpretation master_ev: event_port xMBMasterPortEventInit xMBMasterPortEventPost xMBMasterPortEventGet
  by unfold_locales
    (auto simp: xMBMasterPortEventInit_def xMBMasterPortEventPost_def xMBMasterPortEventGet_def)

lemma event_get_simps [simp]:
  "xMBMasterPortEventGet (snd (xMBMasterPortEventPost e q)) =
     (Some e, q \<lparr> xMasterEventInQueue := False, eMasterQueuedEvent := e \<rparr>)"
  "xMBPortEventGet (snd (xMBPortEventPost e' q')) =
     (Some e', q' \<lparr> xEventInQueue := False, eQueuedEvent := e' \<rparr>)"
  by (simp_all add: xMBMasterPortEventGet_def xMBMasterPortEventPost_def
      xMBPortEventGet_def xMBPortEventPost_def)

section \<open>Properties\<close>

text \<open>
  The event queue of the master holds one event: after any number of posts the next
  get returns the last of them, and the one after that none.
\<close>

theorem master_queue_last_post_wins:
  assumes "es \<noteq> []"
    "xMBMasterPortEventGet (fold (\<lambda>e q. snd (xMBMasterPortEventPost e q)) es q) = (r, q')"
  shows "r = Some (last es) \<and> fst (xMBMasterPortEventGet q') = None"
  using master_ev.posts_then_gets assms unfolding master_ev.posts_def by blast

theorem master_queue_last_post_wins_witness:
  "let (r, q') = xMBMasterPortEventGet (fold (\<lambda>e q. snd (xMBMasterPortEventPost e q))
        [EV_MASTER_FRAME_RECEIVED, EV_MASTER_ERROR_PROCESS]
        \<lparr> eMasterQueuedEvent = EV_MASTER_READY, xMasterEventInQueue = False \<rparr>)
   in r = Some EV_MASTER_ERROR_PROCESS \<and> fst (xMBMasterPortEventGet q') = None"
  using master_queue_last_post_wins[of "[EV_MASTER_FRAME_RECEIVED, EV_MASTER_ERROR_PROCESS]"
      "\<lparr> eMasterQueuedEvent = EV_MASTER_READY, xMasterEventInQueue = False \<rparr>"]
  by (auto split: prod.splits)

end
