(* ===== verification/MbRtuM.thy ===== *)
theory MbRtuM
  imports PortEvent
begin

text \<open>
  The master's serial side: the UART and timer of the port (\<open>portserial_m.c\<close>,
  \<open>porttimer_m.c\<close>) as the fields the code sets, and the receive, transmit and
  timer state machines of \<open>mbrtu_m.c\<close>.  The peripheral registers the state
  machines depend on are modelled: the two interrupt enables of USART2, the
  RS485 direction pin, the bytes written to its data register, and enable,
  interrupt enable and period of TIM3.  \<open>assert_param\<close> expands to nothing in
  this build.
\<close>

section \<open>State\<close>

datatype eMBMasterRcvState = STATE_M_RX_INIT | STATE_M_RX_IDLE | STATE_M_RX_RCV | STATE_M_RX_ERROR

datatype eMBMasterSndState = STATE_M_TX_IDLE | STATE_M_TX_XMIT | STATE_M_TX_XFWR

text \<open>A pointer into one of the two RTU buffers.\<close>

datatype rtu_ptr = SndBuf nat | RcvBuf nat

record rtu_master =
  queue :: master_queue
  rxne_ie :: bool
  txe_ie :: bool
  usart_on :: bool
  rs485_send :: bool
  wire :: bytes
  usart_baud :: u32
  usart_parity :: eMBParity
  usart_9bit :: bool
  tim_on :: bool
  tim_ie :: bool
  tim_period :: u16
  usT35TimeOut50us :: u16
  usPrescalerValue :: u16
  eSndState :: eMBMasterSndState
  eRcvState :: eMBMasterRcvState
  ucMasterRTUSndBuf :: bytes
  ucMasterRTURcvBuf :: bytes
  ucMasterSendPDULength :: u8
  pucMasterSndBufferCur :: rtu_ptr
  usMasterSndBufferCount :: u16
  usMasterRcvBufferPos :: u16
  xFrameIsBroadcast :: bool
  eMasterCurTimerMode :: eMBMasterTimerMode
  xMasterIsBusy :: bool

definition MB_SER_PDU_SIZE_MIN :: u16 where "MB_SER_PDU_SIZE_MIN = 4"
definition MB_SER_PDU_SIZE_MAX :: u16 where "MB_SER_PDU_SIZE_MAX = 256"

text \<open>The load through a pointer into the RTU buffers.\<close>

fun rtu_load :: "rtu_master \<Rightarrow> rtu_ptr \<Rightarrow> u8 option" where
  "rtu_load s (SndBuf i) = cget (ucMasterRTUSndBuf s) i"
| "rtu_load s (RcvBuf i) = cget (ucMasterRTURcvBuf s) i"

fun ptr_next :: "rtu_ptr \<Rightarrow> rtu_ptr" where
  "ptr_next (SndBuf i) = SndBuf (i + 1)"
| "ptr_next (RcvBuf i) = RcvBuf (i + 1)"

definition vMBMasterSetIsBusy :: "bool \<Rightarrow> rtu_master \<Rightarrow> rtu_master" where
  "vMBMasterSetIsBusy IsBusy s = s \<lparr> xMasterIsBusy := IsBusy \<rparr>"

definition vMBMasterSetCurTimerMode :: "eMBMasterTimerMode \<Rightarrow> rtu_master \<Rightarrow> rtu_master" where
  "vMBMasterSetCurTimerMode m s = s \<lparr> eMasterCurTimerMode := m \<rparr>"

definition event_post :: "eMBMasterEventType \<Rightarrow> rtu_master \<Rightarrow> bool \<times> rtu_master" where
  "event_post e s = (let (b, q) = xMBMasterPortEventPost e (queue s) in (b, s \<lparr> queue := q \<rparr>))"

section \<open>The serial port\<close>

definition vMBMasterPortSerialEnable :: "bool \<Rightarrow> bool \<Rightarrow> rtu_master \<Rightarrow> rtu_master" where
  "vMBMasterPortSerialEnable xRxEnable xTxEnable s =
    (let s = (if xRxEnable then s \<lparr> rs485_send := False, rxne_ie := True \<rparr>
              else s \<lparr> rs485_send := True, rxne_ie := False \<rparr>)
     in if xTxEnable then s \<lparr> txe_ie := True \<rparr> else s \<lparr> txe_ie := False \<rparr>)"

definition vMBMasterPortClose :: "rtu_master \<Rightarrow> rtu_master" where
  "vMBMasterPortClose s = s \<lparr> txe_ie := False, rxne_ie := False, usart_on := False \<rparr>"

text \<open>The \<open>default\<close> case of the switch over the parity is not reachable from an enumerator.\<close>

definition xMBMasterPortSerialInit ::
    "u8 \<Rightarrow> u32 \<Rightarrow> u8 \<Rightarrow> eMBParity \<Rightarrow> rtu_master \<Rightarrow> bool \<times> rtu_master" where
  "xMBMasterPortSerialInit ucPORT ulBaudRate ucDataBits eParity s =
     (True, s \<lparr> usart_baud := ulBaudRate, usart_parity := eParity,
               usart_9bit := (case eParity of MB_PAR_NONE \<Rightarrow> False | _ \<Rightarrow> True),
               rxne_ie := True, usart_on := True \<rparr>)"

definition xMBMasterPortSerialPutByte :: "u8 \<Rightarrow> rtu_master \<Rightarrow> bool \<times> rtu_master" where
  "xMBMasterPortSerialPutByte ucByte s = (True, s \<lparr> wire := wire s @ [ucByte] \<rparr>)"

section \<open>The timer\<close>

definition xMBMasterPortTimersInit :: "u16 \<Rightarrow> rtu_master \<Rightarrow> bool \<times> rtu_master" where
  "xMBMasterPortTimersInit usTimeOut50us s =
     (True, s \<lparr> usPrescalerValue := 3600 - 1, usT35TimeOut50us := usTimeOut50us,
               tim_ie := False, tim_on := False \<rparr>)"

definition timer_start :: "u16 \<Rightarrow> rtu_master \<Rightarrow> rtu_master" where
  "timer_start period s = s \<lparr> tim_period := period, tim_ie := True, tim_on := True \<rparr>"

definition vMBMasterPortTimersT35Enable :: "rtu_master \<Rightarrow> rtu_master" where
  "vMBMasterPortTimersT35Enable s =
     timer_start (usT35TimeOut50us s) (vMBMasterSetCurTimerMode MB_TMODE_T35 s)"

definition vMBMasterPortTimersConvertDelayEnable :: "rtu_master \<Rightarrow> rtu_master" where
  "vMBMasterPortTimersConvertDelayEnable s =
     timer_start (of_nat (200 * 1000 div 50)) (vMBMasterSetCurTimerMode MB_TMODE_CONVERT_DELAY s)"

definition vMBMasterPortTimersRespondTimeoutEnable :: "rtu_master \<Rightarrow> rtu_master" where
  "vMBMasterPortTimersRespondTimeoutEnable s =
     timer_start (of_nat (2000 * 1000 div 50)) (vMBMasterSetCurTimerMode MB_TMODE_RESPOND_TIMEOUT s)"

definition vMBMasterPortTimersDisable :: "rtu_master \<Rightarrow> rtu_master" where
  "vMBMasterPortTimersDisable s = s \<lparr> tim_ie := False, tim_on := False \<rparr>"

section \<open>Initialisation, start and stop\<close>

text \<open>\<open>None\<close> is the division by a baud rate of zero.\<close>

definition t35_50us :: "u32 \<Rightarrow> u32 option" where
  "t35_50us ulBaudRate =
    (if 19200 < ulBaudRate then Some 35
     else if 2 * ulBaudRate = 0 then None else Some ((7 * 220000) div (2 * ulBaudRate)))"

definition eMBMasterRTUInit ::
    "u8 \<Rightarrow> u32 \<Rightarrow> eMBParity \<Rightarrow> rtu_master \<Rightarrow> (eMBErrorCode \<times> rtu_master) option" where
  "eMBMasterRTUInit ucPort ulBaudRate eParity s =
    (let (ok, s) = xMBMasterPortSerialInit ucPort ulBaudRate 8 eParity s in
     if \<not> ok then Some (MB_EPORTERR, s)
     else do {
       usTimerT35_50us \<leftarrow> t35_50us ulBaudRate;
       let (ok, s) = xMBMasterPortTimersInit (ucast usTimerT35_50us) s;
       Some (if ok then MB_ENOERR else MB_EPORTERR, s)
     })"

definition eMBMasterRTUStart :: "rtu_master \<Rightarrow> rtu_master" where
  "eMBMasterRTUStart s =
     vMBMasterPortTimersT35Enable
       (vMBMasterPortSerialEnable True False (s \<lparr> eRcvState := STATE_M_RX_INIT \<rparr>))"

definition eMBMasterRTUStop :: "rtu_master \<Rightarrow> rtu_master" where
  "eMBMasterRTUStop s = vMBMasterPortTimersDisable (vMBMasterPortSerialEnable False False s)"

section \<open>Receive and send\<close>

text \<open>
  The frame and its length are returned by reference, and are left as they were
  when the frame is too short; the address is never set.
\<close>

definition eMBMasterRTUReceive ::
    "rtu_ptr option \<times> u16 \<Rightarrow> rtu_master \<Rightarrow> eMBErrorCode \<times> rtu_ptr option \<times> u16" where
  "eMBMasterRTUReceive out s =
    (if MB_SER_PDU_SIZE_MIN \<le> usMasterRcvBufferPos s
     then (MB_ENOERR, Some (RcvBuf 0), usMasterRcvBufferPos s)
     else (MB_EIO, out))"

definition eMBMasterRTUSend ::
    "u8 \<Rightarrow> rtu_ptr \<Rightarrow> u16 \<Rightarrow> rtu_master \<Rightarrow> eMBErrorCode \<times> rtu_master" where
  "eMBMasterRTUSend ucSlaveAddress pucFrame usLength s =
    (if 16 < ucSlaveAddress then (MB_EINVAL, s)
     else if eRcvState s = STATE_M_RX_IDLE
     then (MB_ENOERR,
           vMBMasterPortSerialEnable False True
             (s \<lparr> pucMasterSndBufferCur := pucFrame, usMasterSndBufferCount := usLength,
                 eSndState := STATE_M_TX_XMIT \<rparr>))
     else (MB_EIO, s))"

section \<open>The state machines\<close>

definition xMBMasterRTUReceiveFSM :: "u8 \<Rightarrow> rtu_master \<Rightarrow> (bool \<times> rtu_master) option" where
  "xMBMasterRTUReceiveFSM ucByte s =
    (case eRcvState s of
       STATE_M_RX_INIT \<Rightarrow> Some (False, vMBMasterPortTimersT35Enable s)
     | STATE_M_RX_ERROR \<Rightarrow> Some (False, vMBMasterPortTimersT35Enable s)
     | STATE_M_RX_IDLE \<Rightarrow> do {
         let s = (vMBMasterPortTimersDisable s) \<lparr> eSndState := STATE_M_TX_IDLE \<rparr>;
         buf \<leftarrow> cset (ucMasterRTURcvBuf s) 0 ucByte;
         let s = s \<lparr> ucMasterRTURcvBuf := buf, usMasterRcvBufferPos := 1,
                     eRcvState := STATE_M_RX_RCV \<rparr>;
         Some (False, vMBMasterPortTimersT35Enable s)
       }
     | STATE_M_RX_RCV \<Rightarrow>
         if usMasterRcvBufferPos s < MB_SER_PDU_SIZE_MAX then do {
           buf \<leftarrow> cset (ucMasterRTURcvBuf s) (unat (usMasterRcvBufferPos s)) ucByte;
           Some (False, vMBMasterPortTimersT35Enable
                   (s \<lparr> ucMasterRTURcvBuf := buf,
                        usMasterRcvBufferPos := usMasterRcvBufferPos s + 1 \<rparr>))
         } else
           Some (False, vMBMasterPortTimersT35Enable (s \<lparr> eRcvState := STATE_M_RX_ERROR \<rparr>)))"

definition xMBMasterRTUTransmitFSM :: "rtu_master \<Rightarrow> (bool \<times> rtu_master) option" where
  "xMBMasterRTUTransmitFSM s =
    (case eSndState s of
       STATE_M_TX_IDLE \<Rightarrow> Some (False, vMBMasterPortSerialEnable True False s)
     | STATE_M_TX_XMIT \<Rightarrow>
         if usMasterSndBufferCount s \<noteq> 0 then do {
           b \<leftarrow> rtu_load s (pucMasterSndBufferCur s);
           let s = snd (xMBMasterPortSerialPutByte b s);
           Some (False, s \<lparr> pucMasterSndBufferCur := ptr_next (pucMasterSndBufferCur s),
                           usMasterSndBufferCount := usMasterSndBufferCount s - 1 \<rparr>)
         } else do {
           a \<leftarrow> cget (ucMasterRTUSndBuf s) 0;
           let s = s \<lparr> xFrameIsBroadcast := (a = MB_ADDRESS_BROADCAST) \<rparr>;
           let s = (vMBMasterPortSerialEnable True False s) \<lparr> eSndState := STATE_M_TX_XFWR \<rparr>;
           Some (False, if xFrameIsBroadcast s then vMBMasterPortTimersConvertDelayEnable s
                        else vMBMasterPortTimersRespondTimeoutEnable s)
         }
     | STATE_M_TX_XFWR \<Rightarrow> Some (False, s))"

definition xMBMasterRTUTimerExpired :: "rtu_master \<Rightarrow> bool \<times> rtu_master" where
  "xMBMasterRTUTimerExpired s =
    (let (xNeedPoll, s) = (case eRcvState s of
         STATE_M_RX_INIT \<Rightarrow> event_post EV_MASTER_READY s
       | STATE_M_RX_RCV \<Rightarrow> event_post EV_MASTER_FRAME_RECEIVED s
       | STATE_M_RX_ERROR \<Rightarrow> (False, s)
       | STATE_M_RX_IDLE \<Rightarrow> (False, s));
         s = s \<lparr> eRcvState := STATE_M_RX_IDLE \<rparr>;
         (xNeedPoll, s) = (case eSndState s of
             STATE_M_TX_XFWR \<Rightarrow>
               if \<not> xFrameIsBroadcast s then event_post EV_MASTER_ERROR_PROCESS s
               else (xNeedPoll, s)
           | _ \<Rightarrow> (xNeedPoll, s));
         s = vMBMasterPortTimersDisable (s \<lparr> eSndState := STATE_M_TX_IDLE \<rparr>);
         s = (if eMasterCurTimerMode s = MB_TMODE_CONVERT_DELAY then vMBMasterSetIsBusy False s else s)
     in (xNeedPoll, s))"

section \<open>The interrupt handlers\<close>

text \<open>
  \<open>USART2_IRQHandler\<close> with the receive flag and its byte, or the transmit flag;
  an overrun, the last branch, only reads the status and data registers.
\<close>

definition USART2_IRQHandler :: "u8 option \<Rightarrow> bool \<Rightarrow> rtu_master \<Rightarrow> rtu_master option" where
  "USART2_IRQHandler rxne txe s =
    (case rxne of
       Some b \<Rightarrow> map_option snd (xMBMasterRTUReceiveFSM b s)
     | None \<Rightarrow> if txe then map_option snd (xMBMasterRTUTransmitFSM s) else Some s)"

definition TIM3_IRQHandler :: "bool \<Rightarrow> rtu_master \<Rightarrow> rtu_master" where
  "TIM3_IRQHandler update s = (if update then snd (xMBMasterRTUTimerExpired s) else s)"

section \<open>Accessors\<close>

definition vMBMasterGetRTUSndBuf :: "rtu_master \<Rightarrow> rtu_ptr" where
  "vMBMasterGetRTUSndBuf s = SndBuf 0"

definition vMBMasterGetPDUSndBuf :: "rtu_master \<Rightarrow> rtu_ptr" where
  "vMBMasterGetPDUSndBuf s = SndBuf 0"

definition vMBMasterSetPDUSndLength :: "u8 \<Rightarrow> rtu_master \<Rightarrow> rtu_master" where
  "vMBMasterSetPDUSndLength n s = s \<lparr> ucMasterSendPDULength := n \<rparr>"

definition ucMBMasterGetPDUSndLength :: "rtu_master \<Rightarrow> u8" where
  "ucMBMasterGetPDUSndLength s = ucMasterSendPDULength s"

section \<open>Invariant\<close>

text \<open>
  The buffers have their declared sizes, the receive position stays inside, a
  frame being received has at least one byte, the line is never driven and
  listened to at once, and a frame being sent lies inside the send buffer.
\<close>

definition rtu_inv :: "rtu_master \<Rightarrow> bool" where
  "rtu_inv s \<longleftrightarrow>
     length (ucMasterRTUSndBuf s) = 253 \<and> length (ucMasterRTURcvBuf s) = 256 \<and>
     unat (usMasterRcvBufferPos s) \<le> 256 \<and>
     (eRcvState s = STATE_M_RX_RCV \<longrightarrow> 0 < unat (usMasterRcvBufferPos s)) \<and>
     \<not> (rxne_ie s \<and> txe_ie s) \<and>
     (eSndState s = STATE_M_TX_XMIT \<longrightarrow>
        (\<exists>i. pucMasterSndBufferCur s = SndBuf i \<and> i + unat (usMasterSndBufferCount s) \<le> 253)) \<and>
     unat (ucMasterSendPDULength s) \<le> 253"

named_theorems rtu_defs "the operations of the port that only set fields"

lemmas [rtu_defs] =
  vMBMasterSetIsBusy_def vMBMasterSetCurTimerMode_def vMBMasterPortSerialEnable_def
  vMBMasterPortClose_def timer_start_def vMBMasterPortTimersT35Enable_def
  vMBMasterPortTimersConvertDelayEnable_def vMBMasterPortTimersRespondTimeoutEnable_def
  vMBMasterPortTimersDisable_def event_post_def xMBMasterPortSerialPutByte_def
  xMBMasterPortEventPost_def

lemma size_max [simp]: "MB_SER_PDU_SIZE_MAX = 256" "MB_SER_PDU_SIZE_MIN = 4"
  by (simp_all add: MB_SER_PDU_SIZE_MAX_def MB_SER_PDU_SIZE_MIN_def)

lemma pos_suc: "p < (256 :: u16) \<Longrightarrow> unat (p + 1) = unat p + 1 \<and> unat p < 256"
  by (simp add: word_less_nat_alt unat_word_ariths)

lemma count_pred: "n \<noteq> (0 :: u16) \<Longrightarrow> unat (n - 1) = unat n - 1 \<and> 0 < unat n"
  by (simp add: unat_sub word_le_nat_alt unat_gt_0 Suc_leI unat_eq_zero)

lemma ReceiveFSM_inv:
  assumes "rtu_inv s"
  shows "\<exists>r s'. xMBMasterRTUReceiveFSM b s = Some (r, s') \<and> rtu_inv s'"
proof (cases "eRcvState s")
  case STATE_M_RX_RCV
  then show ?thesis
    using assms pos_suc[of "usMasterRcvBufferPos s"]
    by (auto simp: xMBMasterRTUReceiveFSM_def rtu_defs rtu_inv_def)
next
  case STATE_M_RX_IDLE
  moreover have "ucMasterRTURcvBuf s \<noteq> []" using assms by (auto simp: rtu_inv_def)
  ultimately show ?thesis
    using assms by (auto simp: xMBMasterRTUReceiveFSM_def rtu_defs rtu_inv_def Let_def)
qed (use assms in \<open>auto simp: xMBMasterRTUReceiveFSM_def rtu_defs rtu_inv_def\<close>)

lemma TransmitFSM_inv:
  assumes "rtu_inv s"
  shows "\<exists>r s'. xMBMasterRTUTransmitFSM s = Some (r, s') \<and> rtu_inv s'"
proof (cases "eSndState s")
  case STATE_M_TX_XMIT
  then obtain i where i: "pucMasterSndBufferCur s = SndBuf i" "i + unat (usMasterSndBufferCount s) \<le> 253"
    using assms by (auto simp: rtu_inv_def)
  have ne: "ucMasterRTUSndBuf s \<noteq> []" using assms by (auto simp: rtu_inv_def)
  show ?thesis
    using assms i ne STATE_M_TX_XMIT count_pred[of "usMasterSndBufferCount s"]
    by (auto simp: xMBMasterRTUTransmitFSM_def rtu_defs rtu_inv_def Let_def)
qed (use assms in \<open>auto simp: xMBMasterRTUTransmitFSM_def rtu_defs rtu_inv_def\<close>)

lemma TimerExpired_inv: "rtu_inv s \<Longrightarrow> rtu_inv (snd (xMBMasterRTUTimerExpired s))"
  by (cases "eRcvState s"; cases "eSndState s")
    (simp_all add: xMBMasterRTUTimerExpired_def rtu_defs rtu_inv_def Let_def)

lemma Send_inv:
  "rtu_inv s \<Longrightarrow> unat n \<le> 253 \<Longrightarrow> rtu_inv (snd (eMBMasterRTUSend a (SndBuf 0) n s))"
  by (auto simp: eMBMasterRTUSend_def rtu_defs rtu_inv_def)

lemma Start_inv: "rtu_inv s \<Longrightarrow> rtu_inv (eMBMasterRTUStart s)"
  by (simp add: eMBMasterRTUStart_def rtu_defs rtu_inv_def)

lemma Stop_inv: "rtu_inv s \<Longrightarrow> rtu_inv (eMBMasterRTUStop s)"
  by (simp add: eMBMasterRTUStop_def rtu_defs rtu_inv_def)

lemma USART2_inv:
  "rtu_inv s \<Longrightarrow> \<exists>s'. USART2_IRQHandler rx tx s = Some s' \<and> rtu_inv s'"
  using ReceiveFSM_inv[of s] TransmitFSM_inv[of s]
  by (fastforce simp: USART2_IRQHandler_def split: option.splits)

lemma TIM3_inv: "rtu_inv s \<Longrightarrow> rtu_inv (TIM3_IRQHandler u s)"
  by (simp add: TIM3_IRQHandler_def TimerExpired_inv)

section \<open>Receiving a frame\<close>

fun rx_all :: "bytes \<Rightarrow> rtu_master \<Rightarrow> rtu_master option" where
  "rx_all [] s = Some s"
| "rx_all (b # bs) s = do { s \<leftarrow> USART2_IRQHandler (Some b) False s; rx_all bs s }"

lemma T35_idem [simp]:
  "vMBMasterPortTimersT35Enable (vMBMasterPortTimersT35Enable s) = vMBMasterPortTimersT35Enable s"
  by (simp add: rtu_defs)

definition rcv_done :: "bytes \<Rightarrow> nat \<Rightarrow> rtu_master \<Rightarrow> rtu_master" where
  "rcv_done buf n s = vMBMasterPortTimersT35Enable
     (s \<lparr> ucMasterRTURcvBuf := buf, usMasterRcvBufferPos := of_nat n, eRcvState := STATE_M_RX_RCV \<rparr>)"

lemma rx_step:
  assumes "length buf = 256" "n < 256"
  shows "USART2_IRQHandler (Some b) False (rcv_done buf n s) = Some (rcv_done (buf[n := b]) (n + 1) s)"
proof -
  have "unat (of_nat n :: u16) = n" using assms(2) by (simp add: unat_of_nat_u16)
  moreover from this have "(of_nat n :: u16) < 256"
    unfolding word_less_nat_alt using assms(2) by simp
  ultimately show ?thesis
    using assms
    by (simp add: USART2_IRQHandler_def xMBMasterRTUReceiveFSM_def rcv_done_def rtu_defs add.commute)
qed

lemma rx_more:
  assumes "length buf = 256" "n + length bs \<le> 256"
  shows "rx_all bs (rcv_done buf n s) =
     Some (rcv_done (take n buf @ bs @ drop (n + length bs) buf) (n + length bs) s)"
  using assms
proof (induction bs arbitrary: buf n)
  case (Cons b bs)
  then have "rx_all bs (rcv_done (buf[n := b]) (n + 1) s) =
      Some (rcv_done (take (n + 1) (buf[n := b]) @ bs @ drop (n + 1 + length bs) (buf[n := b]))
             (n + 1 + length bs) s)"
    by (intro Cons.IH) simp_all
  moreover have "take (n + 1) (buf[n := b]) = take n buf @ [b]"
    using Cons.prems by (simp add: take_update1)
  ultimately show ?case
    using Cons.prems by (simp add: rx_step drop_update_cancel)
qed simp

lemma rx_first:
  assumes "rtu_inv s" "eRcvState s = STATE_M_RX_IDLE"
  shows "USART2_IRQHandler (Some b) False s =
     Some (rcv_done ((ucMasterRTURcvBuf s)[0 := b]) 1 (s \<lparr> eSndState := STATE_M_TX_IDLE \<rparr>))"
proof -
  have "ucMasterRTURcvBuf s \<noteq> []" using assms by (auto simp: rtu_inv_def)
  then show ?thesis
    using assms
    by (simp add: USART2_IRQHandler_def xMBMasterRTUReceiveFSM_def rcv_done_def rtu_defs Let_def)
qed

text \<open>A frame of 1 to 256 bytes is collected at the start of the receive buffer.\<close>

lemma rx_frame:
  assumes "rtu_inv s" "eRcvState s = STATE_M_RX_IDLE" "bs \<noteq> []" "length bs \<le> 256"
  shows "rx_all bs s = Some (rcv_done (bs @ drop (length bs) (ucMasterRTURcvBuf s)) (length bs)
                              (s \<lparr> eSndState := STATE_M_TX_IDLE \<rparr>))"
proof -
  obtain b cs where bs: "bs = b # cs" using assms(3) by (cases bs) auto
  have len: "length (ucMasterRTURcvBuf s) = 256" using assms(1) by (simp add: rtu_inv_def)
  have "take 1 ((ucMasterRTURcvBuf s)[0 := b]) = [b]"
    using len by (cases "ucMasterRTURcvBuf s") auto
  then show ?thesis
    using assms len by (simp add: bs rx_first rx_more drop_update_cancel)
qed

text \<open>More than 256 bytes put the receiver into the error state, where it stays.\<close>

definition rcv_error :: "rtu_master \<Rightarrow> bool" where
  "rcv_error s \<longleftrightarrow> eRcvState s = STATE_M_RX_ERROR \<and> rtu_inv s \<and> eSndState s = STATE_M_TX_IDLE"

lemma rx_error_stays:
  "rcv_error s \<Longrightarrow> \<exists>s'. rx_all bs s = Some s' \<and> rcv_error s' \<and> queue s' = queue s"
proof (induction bs arbitrary: s)
  case (Cons b bs)
  have "USART2_IRQHandler (Some b) False s = Some (vMBMasterPortTimersT35Enable s)"
    using Cons.prems by (simp add: rcv_error_def USART2_IRQHandler_def xMBMasterRTUReceiveFSM_def)
  moreover have "rcv_error (vMBMasterPortTimersT35Enable s)" "queue (vMBMasterPortTimersT35Enable s) = queue s"
    using Cons.prems by (auto simp: rcv_error_def rtu_defs rtu_inv_def)
  ultimately show ?case using Cons.IH by force
qed simp

lemma rx_oversize:
  assumes "rtu_inv s" "eRcvState s = STATE_M_RX_IDLE" "256 < length bs"
  shows "\<exists>s'. rx_all bs s = Some s' \<and> rcv_error s' \<and> queue s' = queue s"
proof -
  let ?a = "take 256 bs" and ?s = "s \<lparr> eSndState := STATE_M_TX_IDLE \<rparr>"
  obtain b cs where d: "drop 256 bs = b # cs" using assms(3) by (cases "drop 256 bs") auto
  have split: "rx_all (xs @ ys) s = do { s \<leftarrow> rx_all xs s; rx_all ys s }" for xs ys s
  proof (induction xs arbitrary: s)
    case (Cons x xs)
    then show ?case by (cases "USART2_IRQHandler (Some x) False s") simp_all
  qed simp
  define s1 where "s1 = rcv_done (?a @ drop 256 (ucMasterRTURcvBuf s)) 256 ?s"
  have "bs \<noteq> []" using assms(3) by auto
  then have 1: "rx_all ?a s = Some s1"
    using rx_frame[OF assms(1,2), of ?a] assms(3) by (auto simp: s1_def min_def)
  have "length (ucMasterRTURcvBuf s) = 256" using assms(1) by (simp add: rtu_inv_def)
  then have 2: "USART2_IRQHandler (Some b) False s1 =
      Some (vMBMasterPortTimersT35Enable (s1 \<lparr> eRcvState := STATE_M_RX_ERROR \<rparr>))"
    by (simp add: s1_def USART2_IRQHandler_def xMBMasterRTUReceiveFSM_def rcv_done_def rtu_defs)
  have inv1: "rtu_inv s1" using assms by (auto simp: s1_def rcv_done_def rtu_defs rtu_inv_def)
  let ?e = "vMBMasterPortTimersT35Enable (s1 \<lparr> eRcvState := STATE_M_RX_ERROR \<rparr>)"
  have err: "rcv_error ?e" "queue ?e = queue s"
    using inv1 by (auto simp: rcv_error_def rtu_defs rtu_inv_def s1_def rcv_done_def)
  have "bs = ?a @ b # cs" by (metis append_take_drop_id d)
  then have "rx_all bs s = rx_all cs ?e"
    using split[of ?a "b # cs" s] 1 2 by simp
  then show ?thesis using rx_error_stays[OF err(1), of cs] err(2) by simp
qed

section \<open>Sending a frame\<close>

fun tx_irqs :: "nat \<Rightarrow> rtu_master \<Rightarrow> rtu_master option" where
  "tx_irqs 0 s = Some s"
| "tx_irqs (Suc n) s = do { s \<leftarrow> USART2_IRQHandler None True s; tx_irqs n s }"

text \<open>The state after the last byte has left: listening, the response or broadcast timer running.\<close>

definition tx_done :: "rtu_master \<Rightarrow> rtu_master" where
  "tx_done s =
    (let bc = (ucMasterRTUSndBuf s ! 0 = 0);
         s = (vMBMasterPortSerialEnable True False (s \<lparr> xFrameIsBroadcast := bc \<rparr>))
               \<lparr> eSndState := STATE_M_TX_XFWR \<rparr>
     in if bc then vMBMasterPortTimersConvertDelayEnable s else vMBMasterPortTimersRespondTimeoutEnable s)"

lemma tx_step:
  assumes "eSndState s = STATE_M_TX_XMIT" "pucMasterSndBufferCur s = SndBuf i"
    "usMasterSndBufferCount s \<noteq> 0" "i < length (ucMasterRTUSndBuf s)"
  shows "USART2_IRQHandler None True s =
    Some (s \<lparr> wire := wire s @ [ucMasterRTUSndBuf s ! i], pucMasterSndBufferCur := SndBuf (i + 1),
              usMasterSndBufferCount := usMasterSndBufferCount s - 1 \<rparr>)"
  using assms
  by (simp add: USART2_IRQHandler_def xMBMasterRTUTransmitFSM_def xMBMasterPortSerialPutByte_def Let_def)

lemma tx_last:
  assumes "eSndState s = STATE_M_TX_XMIT" "usMasterSndBufferCount s = 0" "ucMasterRTUSndBuf s \<noteq> []"
  shows "USART2_IRQHandler None True s = Some (tx_done s)"
  using assms
  by (simp add: USART2_IRQHandler_def xMBMasterRTUTransmitFSM_def tx_done_def Let_def
      MB_ADDRESS_BROADCAST_def) (simp add: rtu_defs)

lemma tx_frame:
  assumes "eSndState s = STATE_M_TX_XMIT" "pucMasterSndBufferCur s = SndBuf i"
    "unat (usMasterSndBufferCount s) = n" "i + n \<le> length (ucMasterRTUSndBuf s)" "ucMasterRTUSndBuf s \<noteq> []"
  shows "tx_irqs (Suc n) s =
    Some (tx_done (s \<lparr> wire := wire s @ take n (drop i (ucMasterRTUSndBuf s)),
                       pucMasterSndBufferCur := SndBuf (i + n), usMasterSndBufferCount := 0 \<rparr>))"
  using assms
proof (induction n arbitrary: s i)
  case 0
  then have "usMasterSndBufferCount s = 0" by (simp add: unat_eq_zero)
  then have "tx_irqs (Suc 0) s = Some (tx_done s)" using 0 by (simp add: tx_last)
  moreover have "s \<lparr> wire := wire s @ take 0 (drop i (ucMasterRTUSndBuf s)),
                    pucMasterSndBufferCur := SndBuf (i + 0), usMasterSndBufferCount := 0 \<rparr> = s"
    using 0 \<open>usMasterSndBufferCount s = 0\<close> by (cases s) simp
  ultimately show ?case by (simp only:)
next
  case (Suc n)
  have c: "usMasterSndBufferCount s \<noteq> 0" using Suc.prems(3) by auto
  let ?s = "s \<lparr> wire := wire s @ [ucMasterRTUSndBuf s ! i], pucMasterSndBufferCur := SndBuf (i + 1),
              usMasterSndBufferCount := usMasterSndBufferCount s - 1 \<rparr>"
  have "USART2_IRQHandler None True s = Some ?s" using Suc.prems c by (intro tx_step) auto
  moreover have "tx_irqs (Suc n) ?s =
      Some (tx_done (?s \<lparr> wire := wire ?s @ take n (drop (i + 1) (ucMasterRTUSndBuf ?s)),
                         pucMasterSndBufferCur := SndBuf (i + 1 + n), usMasterSndBufferCount := 0 \<rparr>))"
    using Suc.prems count_pred[OF c] by (intro Suc.IH) auto
  moreover have "take (Suc n) (drop i (ucMasterRTUSndBuf s)) =
      ucMasterRTUSndBuf s ! i # take n (drop (i + 1) (ucMasterRTUSndBuf s))"
    using Suc.prems by (simp add: take_Suc_drop)
  ultimately show ?case by (simp del: tx_irqs.simps add: tx_irqs.simps(2)[of "Suc n"])
qed

lemma sent_frame:
  assumes "rtu_inv s" "eRcvState s = STATE_M_RX_IDLE" "a \<le> 16" "unat n \<le> 253"
  shows "\<exists>r. tx_irqs (Suc (unat n)) (snd (eMBMasterRTUSend a (SndBuf 0) n s)) = Some (tx_done r) \<and>
    wire r = wire s @ take (unat n) (ucMasterRTUSndBuf s) \<and> ucMasterRTUSndBuf r = ucMasterRTUSndBuf s \<and>
    eRcvState r = eRcvState s"
proof -
  let ?s = "snd (eMBMasterRTUSend a (SndBuf 0) n s)"
  have s: "eSndState ?s = STATE_M_TX_XMIT" "pucMasterSndBufferCur ?s = SndBuf 0"
    "unat (usMasterSndBufferCount ?s) = unat n" "ucMasterRTUSndBuf ?s = ucMasterRTUSndBuf s"
    "wire ?s = wire s" "eRcvState ?s = eRcvState s"
    using assms leD[OF assms(3)] by (simp_all add: eMBMasterRTUSend_def rtu_defs)
  have "0 + unat n \<le> length (ucMasterRTUSndBuf ?s)" "ucMasterRTUSndBuf ?s \<noteq> []"
    using assms s(4) by (auto simp: rtu_inv_def)
  from tx_frame[OF s(1,2,3) this] show ?thesis
    using s(4,5,6) by auto
qed

section \<open>Properties\<close>

text \<open>
  Up to 19200 baud the timer reload of eMBMasterRTUInit is the number of 50 us
  ticks in 3.5 characters of 11 bits, rounded down, and fits into 16 bits.
\<close>

theorem t35_reload_bounds:
  assumes "12 \<le> unat b" "unat b \<le> 19200"
  shows "\<exists>t. t35_50us b = Some t \<and>
    2 * unat b * unat (ucast t :: u16) \<le> 7 * 220000 \<and>
    7 * 220000 < 2 * unat b * (unat (ucast t :: u16) + 1)"
proof -
  have b2: "unat (2 * b) = 2 * unat b" using assms by (simp add: unat_word_ariths)
  have le: "\<not> 19200 < b" using assms by (simp add: word_less_nat_alt)
  have nz: "2 * b \<noteq> 0" using b2 assms by auto
  define t :: u32 where "t = (7 * 220000) div (2 * b)"
  have t: "unat t = 1540000 div (2 * unat b)" by (simp add: t_def unat_div b2)
  have "1540000 div (2 * unat b) \<le> 1540000 div 24" using assms by (intro div_le_mono2) auto
  then have c: "unat (ucast t :: u16) = 1540000 div (2 * unat b)"
    by (simp add: t unsigned_ucast_eq take_bit_nat_eq_self)
  have "t35_50us b = Some t" using le nz by (simp add: t35_50us_def t_def)
  moreover have "2 * unat b * (1540000 div (2 * unat b)) \<le> 7 * 220000"
    using times_div_less_eq_dividend[of "2 * unat b" 1540000] by simp
  moreover have "7 * 220000 < 2 * unat b * (1540000 div (2 * unat b) + 1)"
    using assms dividend_less_times_div[of "2 * unat b" 1540000] by simp
  ultimately show ?thesis by (intro exI[of _ t] conjI) (simp_all only: c)
qed

theorem t35_reload_bounds_witness:
  "\<exists>t. t35_50us 9600 = Some t \<and> 2 * 9600 * unat (ucast t :: u16) \<le> 7 * 220000"
  using t35_reload_bounds[of 9600] by auto

text \<open>
  C7: In every state that satisfies the invariant of the RTU master, the USART and the
  timer interrupt stay inside their buffers and keep the invariant.
\<close>

theorem irq_handlers_keep_invariant:
  assumes "rtu_inv s"
  shows "(\<exists>s'. USART2_IRQHandler rxne txe s = Some s' \<and> rtu_inv s') \<and> rtu_inv (TIM3_IRQHandler u s)"
  using USART2_inv[OF assms] TIM3_inv[OF assms] by blast

text \<open>
  A frame given to eMBMasterRTUSend while the receiver is idle leaves byte by byte
  in the transmit interrupts; the last interrupt switches the line to receiving and
  starts the response timer, or the turnaround timer for a broadcast.
\<close>

theorem send_puts_frame_on_wire:
  assumes "rtu_inv s" "eRcvState s = STATE_M_RX_IDLE" "a \<le> 16" "unat n \<le> 253"
  shows "\<exists>s'. tx_irqs (Suc (unat n)) (snd (eMBMasterRTUSend a (SndBuf 0) n s)) = Some s' \<and>
    wire s' = wire s @ take (unat n) (ucMasterRTUSndBuf s) \<and>
    eSndState s' = STATE_M_TX_XFWR \<and> rxne_ie s' \<and> \<not> txe_ie s' \<and> \<not> rs485_send s' \<and>
    tim_on s' \<and> tim_ie s' \<and>
    tim_period s' = (if ucMasterRTUSndBuf s ! 0 = 0 then 4000 else 40000)"
  using sent_frame[OF assms] by (auto simp: tx_done_def rtu_defs Let_def)

definition idle_rtu :: rtu_master where
  "idle_rtu = \<lparr>
     queue = \<lparr> eMasterQueuedEvent = EV_MASTER_READY, xMasterEventInQueue = False \<rparr>,
     rxne_ie = True, txe_ie = False, usart_on = True, rs485_send = False, wire = [],
     usart_baud = 9600, usart_parity = MB_PAR_NONE, usart_9bit = False,
     tim_on = False, tim_ie = False, tim_period = 80, usT35TimeOut50us = 80,
     usPrescalerValue = 3599, eSndState = STATE_M_TX_IDLE, eRcvState = STATE_M_RX_IDLE,
     ucMasterRTUSndBuf = replicate 253 0, ucMasterRTURcvBuf = replicate 256 0,
     ucMasterSendPDULength = 0, pucMasterSndBufferCur = SndBuf 0, usMasterSndBufferCount = 0,
     usMasterRcvBufferPos = 0, xFrameIsBroadcast = False, eMasterCurTimerMode = MB_TMODE_T35,
     xMasterIsBusy = False \<rparr>"

lemma idle_rtu_inv: "rtu_inv idle_rtu"
  by (simp add: idle_rtu_def rtu_inv_def)

theorem irq_handlers_keep_invariant_witness:
  "rtu_inv (TIM3_IRQHandler True idle_rtu)"
  using irq_handlers_keep_invariant[OF idle_rtu_inv] by blast

theorem send_puts_frame_on_wire_witness:
  "\<exists>s'. tx_irqs 3 (snd (eMBMasterRTUSend 6 (SndBuf 0) 2 (idle_rtu \<lparr> ucMasterRTUSndBuf := [1, 3] @ replicate 251 0 \<rparr>)))
     = Some s' \<and> wire s' = [1, 3]"
proof -
  let ?s = "idle_rtu \<lparr> ucMasterRTUSndBuf := [1, 3] @ replicate 251 0 \<rparr>"
  have "rtu_inv ?s" "eRcvState ?s = STATE_M_RX_IDLE"
    by (simp_all add: idle_rtu_def rtu_inv_def)
  moreover have "(6 :: u8) \<le> 16" "unat (2 :: u16) \<le> 253" "Suc (unat (2 :: u16)) = 3" by simp_all
  ultimately obtain s' where
    "tx_irqs 3 (snd (eMBMasterRTUSend 6 (SndBuf 0) 2 ?s)) = Some s'"
    "wire s' = wire ?s @ take (unat (2 :: u16)) (ucMasterRTUSndBuf ?s)"
    using send_puts_frame_on_wire[of ?s 6 2] by metis
  then show ?thesis by (intro exI[of _ s'] conjI) (simp_all add: idle_rtu_def)
qed

text \<open>
  A timer interrupt that arrives while a frame is being sent ends the transmission:
  the next transmit interrupt sends nothing more and switches to receiving.
\<close>

theorem timer_cuts_transmission:
  assumes "eSndState s = STATE_M_TX_XMIT"
  shows "\<exists>s'. USART2_IRQHandler None True (TIM3_IRQHandler True s) = Some s' \<and>
    wire s' = wire s \<and> \<not> txe_ie s' \<and> rxne_ie s' \<and> eSndState s' = STATE_M_TX_IDLE"
  using assms
  by (cases "eRcvState s")
    (auto simp: TIM3_IRQHandler_def xMBMasterRTUTimerExpired_def USART2_IRQHandler_def
      xMBMasterRTUTransmitFSM_def rtu_defs Let_def)

theorem timer_cuts_transmission_witness:
  "\<exists>s'. USART2_IRQHandler None True (TIM3_IRQHandler True
          (idle_rtu \<lparr> eSndState := STATE_M_TX_XMIT, usMasterSndBufferCount := 8 \<rparr>)) = Some s' \<and>
        wire s' = [] \<and> \<not> txe_ie s'"
  using timer_cuts_transmission[of "idle_rtu \<lparr> eSndState := STATE_M_TX_XMIT, usMasterSndBufferCount := 8 \<rparr>"]
  by (auto simp: idle_rtu_def)

end
