(* ===== verification/MbCrc.thy ===== *)
theory MbCrc
  imports MbTypes
begin

text \<open>
  The CRC of the RTU framing, \<open>mbcrc.c\<close>: the two lookup tables as they are in
  the source and the loop over the frame.  The reference it is compared with is
  the bit-serial division by the reflected polynomial \<open>0xA001\<close> started at
  \<open>0xFFFF\<close>.
\<close>

unbundle bit_operations_syntax

section \<open>The code\<close>

definition aucCRCHi :: bytes where
  "aucCRCHi = [
    0x00, 0xC1, 0x81, 0x40, 0x01, 0xC0, 0x80, 0x41, 0x01, 0xC0, 0x80, 0x41, 0x00, 0xC1, 0x81, 0x40,
    0x01, 0xC0, 0x80, 0x41, 0x00, 0xC1, 0x81, 0x40, 0x00, 0xC1, 0x81, 0x40, 0x01, 0xC0, 0x80, 0x41,
    0x01, 0xC0, 0x80, 0x41, 0x00, 0xC1, 0x81, 0x40, 0x00, 0xC1, 0x81, 0x40, 0x01, 0xC0, 0x80, 0x41,
    0x00, 0xC1, 0x81, 0x40, 0x01, 0xC0, 0x80, 0x41, 0x01, 0xC0, 0x80, 0x41, 0x00, 0xC1, 0x81, 0x40,
    0x01, 0xC0, 0x80, 0x41, 0x00, 0xC1, 0x81, 0x40, 0x00, 0xC1, 0x81, 0x40, 0x01, 0xC0, 0x80, 0x41,
    0x00, 0xC1, 0x81, 0x40, 0x01, 0xC0, 0x80, 0x41, 0x01, 0xC0, 0x80, 0x41, 0x00, 0xC1, 0x81, 0x40,
    0x00, 0xC1, 0x81, 0x40, 0x01, 0xC0, 0x80, 0x41, 0x01, 0xC0, 0x80, 0x41, 0x00, 0xC1, 0x81, 0x40,
    0x01, 0xC0, 0x80, 0x41, 0x00, 0xC1, 0x81, 0x40, 0x00, 0xC1, 0x81, 0x40, 0x01, 0xC0, 0x80, 0x41,
    0x01, 0xC0, 0x80, 0x41, 0x00, 0xC1, 0x81, 0x40, 0x00, 0xC1, 0x81, 0x40, 0x01, 0xC0, 0x80, 0x41,
    0x00, 0xC1, 0x81, 0x40, 0x01, 0xC0, 0x80, 0x41, 0x01, 0xC0, 0x80, 0x41, 0x00, 0xC1, 0x81, 0x40,
    0x00, 0xC1, 0x81, 0x40, 0x01, 0xC0, 0x80, 0x41, 0x01, 0xC0, 0x80, 0x41, 0x00, 0xC1, 0x81, 0x40,
    0x01, 0xC0, 0x80, 0x41, 0x00, 0xC1, 0x81, 0x40, 0x00, 0xC1, 0x81, 0x40, 0x01, 0xC0, 0x80, 0x41,
    0x00, 0xC1, 0x81, 0x40, 0x01, 0xC0, 0x80, 0x41, 0x01, 0xC0, 0x80, 0x41, 0x00, 0xC1, 0x81, 0x40,
    0x01, 0xC0, 0x80, 0x41, 0x00, 0xC1, 0x81, 0x40, 0x00, 0xC1, 0x81, 0x40, 0x01, 0xC0, 0x80, 0x41,
    0x01, 0xC0, 0x80, 0x41, 0x00, 0xC1, 0x81, 0x40, 0x00, 0xC1, 0x81, 0x40, 0x01, 0xC0, 0x80, 0x41,
    0x00, 0xC1, 0x81, 0x40, 0x01, 0xC0, 0x80, 0x41, 0x01, 0xC0, 0x80, 0x41, 0x00, 0xC1, 0x81, 0x40]"

definition aucCRCLo :: bytes where
  "aucCRCLo = [
    0x00, 0xC0, 0xC1, 0x01, 0xC3, 0x03, 0x02, 0xC2, 0xC6, 0x06, 0x07, 0xC7, 0x05, 0xC5, 0xC4, 0x04,
    0xCC, 0x0C, 0x0D, 0xCD, 0x0F, 0xCF, 0xCE, 0x0E, 0x0A, 0xCA, 0xCB, 0x0B, 0xC9, 0x09, 0x08, 0xC8,
    0xD8, 0x18, 0x19, 0xD9, 0x1B, 0xDB, 0xDA, 0x1A, 0x1E, 0xDE, 0xDF, 0x1F, 0xDD, 0x1D, 0x1C, 0xDC,
    0x14, 0xD4, 0xD5, 0x15, 0xD7, 0x17, 0x16, 0xD6, 0xD2, 0x12, 0x13, 0xD3, 0x11, 0xD1, 0xD0, 0x10,
    0xF0, 0x30, 0x31, 0xF1, 0x33, 0xF3, 0xF2, 0x32, 0x36, 0xF6, 0xF7, 0x37, 0xF5, 0x35, 0x34, 0xF4,
    0x3C, 0xFC, 0xFD, 0x3D, 0xFF, 0x3F, 0x3E, 0xFE, 0xFA, 0x3A, 0x3B, 0xFB, 0x39, 0xF9, 0xF8, 0x38,
    0x28, 0xE8, 0xE9, 0x29, 0xEB, 0x2B, 0x2A, 0xEA, 0xEE, 0x2E, 0x2F, 0xEF, 0x2D, 0xED, 0xEC, 0x2C,
    0xE4, 0x24, 0x25, 0xE5, 0x27, 0xE7, 0xE6, 0x26, 0x22, 0xE2, 0xE3, 0x23, 0xE1, 0x21, 0x20, 0xE0,
    0xA0, 0x60, 0x61, 0xA1, 0x63, 0xA3, 0xA2, 0x62, 0x66, 0xA6, 0xA7, 0x67, 0xA5, 0x65, 0x64, 0xA4,
    0x6C, 0xAC, 0xAD, 0x6D, 0xAF, 0x6F, 0x6E, 0xAE, 0xAA, 0x6A, 0x6B, 0xAB, 0x69, 0xA9, 0xA8, 0x68,
    0x78, 0xB8, 0xB9, 0x79, 0xBB, 0x7B, 0x7A, 0xBA, 0xBE, 0x7E, 0x7F, 0xBF, 0x7D, 0xBD, 0xBC, 0x7C,
    0xB4, 0x74, 0x75, 0xB5, 0x77, 0xB7, 0xB6, 0x76, 0x72, 0xB2, 0xB3, 0x73, 0xB1, 0x71, 0x70, 0xB0,
    0x50, 0x90, 0x91, 0x51, 0x93, 0x53, 0x52, 0x92, 0x96, 0x56, 0x57, 0x97, 0x55, 0x95, 0x94, 0x54,
    0x9C, 0x5C, 0x5D, 0x9D, 0x5F, 0x9F, 0x9E, 0x5E, 0x5A, 0x9A, 0x9B, 0x5B, 0x99, 0x59, 0x58, 0x98,
    0x88, 0x48, 0x49, 0x89, 0x4B, 0x8B, 0x8A, 0x4A, 0x4E, 0x8E, 0x8F, 0x4F, 0x8D, 0x4D, 0x4C, 0x8C,
    0x44, 0x84, 0x85, 0x45, 0x87, 0x47, 0x46, 0x86, 0x82, 0x42, 0x43, 0x83, 0x41, 0x81, 0x80, 0x40]"

text \<open>
  One iteration of the \<open>while\<close> loop, then the loop over \<open>usLen\<close> bytes at
  \<open>pucFrame\<close>; \<open>None\<close> is a read past the end of the buffer.
\<close>

definition crc_step :: "u8 \<Rightarrow> u8 \<times> u8 \<Rightarrow> u8 \<times> u8" where
  "crc_step b = (\<lambda>(ucCRCHi, ucCRCLo).
     (let iIndex = unat (ucCRCLo XOR b)
      in (aucCRCLo ! iIndex, ucCRCHi XOR aucCRCHi ! iIndex)))"

fun crc_loop :: "nat \<Rightarrow> bytes \<Rightarrow> u8 \<times> u8 \<Rightarrow> (u8 \<times> u8) option" where
  "crc_loop 0 p s = Some s"
| "crc_loop (Suc n) [] s = None"
| "crc_loop (Suc n) (b # p) s = crc_loop n p (crc_step b s)"

definition usMBCRC16 :: "bytes \<Rightarrow> u16 \<Rightarrow> u16 option" where
  "usMBCRC16 pucFrame usLen =
     map_option (\<lambda>(ucCRCHi, ucCRCLo). push_bit 8 (ucast ucCRCHi) OR ucast ucCRCLo)
       (crc_loop (unat usLen) pucFrame (0xFF, 0xFF))"

section \<open>The bit-serial reference\<close>

definition crc_bit :: "u16 \<Rightarrow> u16" where
  "crc_bit c = (if bit c 0 then drop_bit 1 c XOR 0xA001 else drop_bit 1 c)"

definition crc_byte_ref :: "u8 \<Rightarrow> u16 \<Rightarrow> u16" where
  "crc_byte_ref b c = (crc_bit ^^ 8) (c XOR ucast b)"

definition crc_ref :: "bytes \<Rightarrow> u16" where
  "crc_ref bs = fold crc_byte_ref bs 0xFFFF"

section \<open>Laws of the bit step\<close>

lemma crc_bit_xor: "crc_bit (a XOR b) = crc_bit a XOR crc_bit b"
proof -
  have "bit (a XOR b) 0 \<longleftrightarrow> bit a 0 \<noteq> bit b 0" by (simp add: bit_simps)
  then show ?thesis
    by (cases "bit a 0"; cases "bit b 0") (simp_all add: crc_bit_def ac_simps)
qed

lemma crc_bits_xor: "(crc_bit ^^ n) (a XOR b) = (crc_bit ^^ n) a XOR (crc_bit ^^ n) b"
  by (induction n arbitrary: a b) (simp_all add: crc_bit_xor)

lemma crc_bits_high:
  "n \<le> 8 \<Longrightarrow> (crc_bit ^^ n) (push_bit 8 c) = drop_bit n (push_bit 8 c)"
proof (induction n)
  case (Suc n)
  have "\<not> bit (drop_bit n (push_bit 8 c)) 0"
    using Suc.prems by (simp add: bit_simps)
  then show ?case using Suc by (simp add: crc_bit_def)
qed simp

lemma crc_bit_0_iff: "crc_bit c = 0 \<longleftrightarrow> c = 0"
proof
  assume z: "crc_bit c = 0"
  have "\<not> bit c 0"
  proof
    assume "bit c 0"
    then have "bit (crc_bit c) 15"
      using bit_imp_le_length[of c 16] by (auto simp: crc_bit_def bit_simps)
    with z show False by simp
  qed
  then have *: "drop_bit 1 c = 0" "\<not> bit c 0"
    using z by (simp_all add: crc_bit_def)
  show "c = 0"
  proof (rule bit_word_eqI)
    fix n show "bit c n \<longleftrightarrow> bit (0 :: u16) n"
    proof (cases n)
      case (Suc m)
      have "bit c (Suc m) \<longleftrightarrow> bit (drop_bit 1 c) m" by (simp only: bit_drop_bit_eq) simp
      also have "\<dots> \<longleftrightarrow> False" unfolding * by simp
      finally show ?thesis using Suc by simp
    qed (use * in simp)
  qed
qed (simp add: crc_bit_def)

lemma crc_bits_0_iff: "(crc_bit ^^ n) c = 0 \<longleftrightarrow> c = 0"
  by (induction n) (simp_all add: crc_bit_0_iff)

lemma crc_bits_inj: "(crc_bit ^^ n) a = (crc_bit ^^ n) b \<longleftrightarrow> a = b"
  using crc_bits_0_iff[of n "a XOR b"] by (simp add: crc_bits_xor xor_0_iff)

section \<open>The tables hold eight bit steps of each byte\<close>

lemma aucCRCHi_length [simp]: "length aucCRCHi = 256"
  by (simp add: aucCRCHi_def)

lemma aucCRCLo_length [simp]: "length aucCRCLo = 256"
  by (simp add: aucCRCLo_def)

lemma aucCRC_0: "aucCRCHi ! 0 = 0" "aucCRCLo ! 0 = 0"
  by (simp_all add: aucCRCHi_def aucCRCLo_def)

lemma aucCRCLo_0_iff: "i < 256 \<Longrightarrow> aucCRCLo ! i = 0 \<longleftrightarrow> i = 0"
proof -
  have tl: "0 \<notin> set (tl aucCRCLo)" by (simp add: aucCRCLo_def)
  assume "i < 256"
  then have "0 < i \<Longrightarrow> aucCRCLo ! i \<in> set (tl aucCRCLo)"
    using nth_mem[of "i - 1" "tl aucCRCLo"] by (simp add: nth_tl)
  with tl show ?thesis using aucCRC_0 by (metis neq0_conv)
qed

text \<open>The bit step read as an operation on integers, which the simplifier evaluates.\<close>

definition crc_bit_i :: "int \<Rightarrow> int" where
  "crc_bit_i c = (if odd c then (c div 2) XOR 0xA001 else c div 2)"

lemma crc_bit_i_numeral:
  "crc_bit_i (numeral (num.Bit0 k)) = numeral k"
  "crc_bit_i (numeral (num.Bit1 k)) = numeral k XOR 0xA001"
  "crc_bit_i 1 = 0xA001" "crc_bit_i 0 = 0"
  by (simp_all add: crc_bit_i_def)

lemma uint_crc_bit: "uint (crc_bit c) = crc_bit_i (uint c)"
proof -
  have "bit c 0 \<longleftrightarrow> odd (uint c)" by (simp add: bit_uint_iff bit_0 [symmetric])
  moreover have "uint (drop_bit 1 c) = uint c div 2"
    by (simp only: unsigned_drop_bit_eq) (simp add: drop_bit_Suc take_bit_int_eq_self_iff)
  ultimately show ?thesis
    by (simp add: crc_bit_def crc_bit_i_def unsigned_xor_eq)
qed

lemma uint_crc_bits: "uint ((crc_bit ^^ n) c) = (crc_bit_i ^^ n) (uint c)"
  by (induction n) (simp_all add: uint_crc_bit)

lemma funpow_8: "(f ^^ 8) x = f (f (f (f (f (f (f (f x)))))))"
  by (simp add: eval_nat_numeral)

lemma crc_table_i:
  "map (crc_bit_i ^^ 8) [0..255] = map2 (\<lambda>l h. 256 * uint l + uint h) aucCRCLo aucCRCHi"
  by (simp add: funpow_8 crc_bit_i_numeral aucCRCLo_def aucCRCHi_def upto_rec1 del: funpow.simps)

lemma crc_table:
  "mk16 (aucCRCLo ! unat b) (aucCRCHi ! unat b) = (crc_bit ^^ 8) (ucast (b :: u8))"
proof -
  let ?i = "unat b"
  have i: "?i < 256" by simp
  have u: "[0..255] ! ?i = int ?i" using i by (subst nth_upto) linarith+
  have "(crc_bit_i ^^ 8) (int ?i) = map (crc_bit_i ^^ 8) [0..255] ! ?i"
    using i by (simp only: nth_map length_upto u)
  also have "\<dots> = 256 * uint (aucCRCLo ! ?i) + uint (aucCRCHi ! ?i)"
    unfolding crc_table_i using i by simp
  finally have "(crc_bit_i ^^ 8) (uint (ucast b :: u16)) = uint (mk16 (aucCRCLo ! ?i) (aucCRCHi ! ?i))"
    by (simp add: uint_mk16 unsigned_ucast_eq)
  then have "uint ((crc_bit ^^ 8) (ucast b :: u16)) = uint (mk16 (aucCRCLo ! ?i) (aucCRCHi ! ?i))"
    by (simp only: uint_crc_bits)
  then show ?thesis by (simp only: word_uint_eq_iff)
qed

section \<open>The loop is the bit-serial division\<close>

definition crc_word :: "u8 \<times> u8 \<Rightarrow> u16" where
  "crc_word s = mk16 (fst s) (snd s)"

lemma crc_byte_ref_mk16:
  "crc_byte_ref b (mk16 h l) =
     mk16 (aucCRCLo ! unat (l XOR b)) (h XOR aucCRCHi ! unat (l XOR b))"
proof -
  have "mk16 h l XOR ucast b = mk16 h 0 XOR ucast (l XOR b)"
    by (rule bit_word_eqI) (auto simp: mk16_def bit_simps dest: bit_imp_le_length)
  moreover have "(crc_bit ^^ 8) (mk16 h 0) = mk16 0 h"
    by (rule bit_word_eqI) (auto simp: mk16_def crc_bits_high bit_simps dest: bit_imp_le_length)
  ultimately show ?thesis
    by (simp add: crc_byte_ref_def crc_bits_xor crc_table [symmetric] mk16_xor)
qed

lemma crc_step_ref: "crc_word (crc_step b s) = crc_byte_ref b (crc_word s)"
  by (cases s) (simp add: crc_word_def crc_step_def crc_byte_ref_mk16 Let_def)

lemma crc_loop_ref:
  "n \<le> length p \<Longrightarrow>
     \<exists>s'. crc_loop n p s = Some s' \<and> crc_word s' = fold crc_byte_ref (take n p) (crc_word s)"
  by (induction n p s rule: crc_loop.induct) (auto simp: crc_step_ref)

lemma crc_loop_None: "crc_loop n p s = None \<longleftrightarrow> length p < n"
  by (induction n p s rule: crc_loop.induct) auto

lemma usMBCRC16_take:
  assumes "unat n \<le> length p"
  shows "usMBCRC16 p n = Some (crc_ref (take (unat n) p))"
proof -
  obtain s' where "crc_loop (unat n) p (0xFF, 0xFF) = Some s'"
    "crc_word s' = fold crc_byte_ref (take (unat n) p) (crc_word (0xFF, 0xFF))"
    using crc_loop_ref[OF assms] by blast
  moreover have "crc_word (0xFF, 0xFF) = 0xFFFF"
    by (simp add: crc_word_def mk16_def)
  ultimately show ?thesis
    by (cases s') (simp add: usMBCRC16_def crc_ref_def crc_word_def mk16_def)
qed

lemma usMBCRC16_full:
  "length p < 2 ^ 16 \<Longrightarrow> usMBCRC16 p (of_nat (length p)) = Some (crc_ref p)"
  using usMBCRC16_take[of "of_nat (length p)" p]
  by (simp add: unat_of_nat_u16)


section \<open>Error detection\<close>

lemma crc_byte_ref_inj: "crc_byte_ref b c = crc_byte_ref b c' \<longleftrightarrow> c = c'"
  by (simp add: crc_byte_ref_def crc_bits_inj)

lemma crc_fold_inj: "fold crc_byte_ref bs c = fold crc_byte_ref bs c' \<longleftrightarrow> c = c'"
  by (induction bs arbitrary: c c') (simp_all add: crc_byte_ref_inj)

lemma crc_two_bytes_inj:
  assumes "crc_byte_ref b2 (crc_byte_ref b1 c) = crc_byte_ref d2 (crc_byte_ref d1 c)"
  shows "b1 = d1 \<and> b2 = d2"
proof -
  obtain h l where c: "c = mk16 h l" by (metis mk16_hi_lo)
  let ?T = "\<lambda>b. (crc_bit ^^ 8) (ucast (b :: u8)) :: u16"
  have eq: "crc_byte_ref b1 c XOR ucast b2 = crc_byte_ref d1 c XOR ucast d2"
    using assms by (simp add: crc_byte_ref_def [of b2] crc_byte_ref_def [of d2] crc_bits_inj)
  have "ucast b2 XOR ucast d2 = crc_byte_ref b1 c XOR (crc_byte_ref b1 c XOR ucast b2) XOR ucast d2"
    by (simp add: xor.assoc)
  also have "\<dots> = crc_byte_ref b1 c XOR crc_byte_ref d1 c"
    unfolding eq by (simp add: xor.assoc)
  finally have "crc_byte_ref b1 c XOR crc_byte_ref d1 c = ucast (b2 XOR d2)"
    by (simp add: unsigned_xor_eq)
  moreover have "crc_byte_ref b1 c XOR crc_byte_ref d1 c = ?T (b1 XOR d1)"
    by (simp add: crc_byte_ref_def crc_bits_xor [symmetric] unsigned_xor_eq xor.left_commute
        xor.assoc)
  ultimately have T: "mk16 (aucCRCLo ! unat (b1 XOR d1)) (aucCRCHi ! unat (b1 XOR d1))
      = mk16 0 (b2 XOR d2)"
    by (simp only: crc_table) (simp add: mk16_def)
  then have "aucCRCLo ! unat (b1 XOR d1) = 0" by (simp only: mk16_eq_iff)
  then have "unat (b1 XOR d1) = 0"
    using aucCRCLo_0_iff by simp
  then have 1: "b1 XOR d1 = 0" by (simp add: unat_eq_zero)
  with T have "b2 XOR d2 = 0" by (simp add: mk16_eq_iff aucCRC_0)
  with 1 show ?thesis by (simp add: xor_0_iff)
qed

lemma crc_append_residue:
  "crc_byte_ref hi (crc_byte_ref lo c) = 0 \<longleftrightarrow> c = mk16 hi lo"
proof -
  have z: "crc_byte_ref hi (crc_byte_ref lo (mk16 hi lo)) = 0" for hi lo
    by (simp add: crc_byte_ref_mk16 aucCRC_0) (simp add: mk16_def)
  obtain h l where c: "c = mk16 h l" by (metis mk16_hi_lo)
  show ?thesis
  proof
    assume "crc_byte_ref hi (crc_byte_ref lo c) = 0"
    then have "crc_byte_ref hi (crc_byte_ref lo c) = crc_byte_ref h (crc_byte_ref l c)"
      using z c by simp
    then show "c = mk16 hi lo" using crc_two_bytes_inj c by blast
  qed (simp add: z)
qed

section \<open>Properties\<close>

text \<open>
  C8: usMBCRC16 with its two tables computes the bitwise CRC-16 with the reflected
  polynomial 0xA001 and the start value 0xFFFF, for every frame that holds the given
  number of bytes.
\<close>

theorem usMBCRC16_correct:
  "usMBCRC16 p n =
     (if unat n \<le> length p then Some (crc_ref (take (unat n) p)) else None)"
  using usMBCRC16_take[of n p] crc_loop_None[of "unat n" p "(0xFF, 0xFF)"]
  by (simp add: usMBCRC16_def)

text \<open>
  The CRC over a frame with its two CRC bytes is zero exactly when these bytes are
  the CRC of the frame, low byte first.
\<close>

theorem crc_accepts_iff:
  assumes "length fr + 2 < 65536"
  shows "usMBCRC16 (fr @ [lo, hi]) (of_nat (length fr + 2)) = Some 0 \<longleftrightarrow>
         usMBCRC16 fr (of_nat (length fr)) = Some (mk16 hi lo)"
  using assms usMBCRC16_full[of "fr @ [lo, hi]"] usMBCRC16_full[of fr]
  by (simp add: crc_ref_def crc_append_residue)

theorem crc_accepts_iff_witness:
  "usMBCRC16 [0x01, 0x03, 0x84, 0x0A] 4 = Some 0 \<longleftrightarrow> usMBCRC16 [0x01, 0x03] 2 = Some (mk16 0x0A 0x84)"
  using crc_accepts_iff[of "[0x01, 0x03]" "0x84" "0x0A"] by simp

text \<open>
  Every error confined to two neighbouring bytes of a frame of any length changes
  its CRC.
\<close>

theorem crc_detects_two_byte_burst:
  assumes "length (pre @ [a, b] @ post) < 65536" "(a, b) \<noteq> (c, d)"
  shows "usMBCRC16 (pre @ [a, b] @ post) (of_nat (length (pre @ [a, b] @ post))) \<noteq>
         usMBCRC16 (pre @ [c, d] @ post) (of_nat (length (pre @ [c, d] @ post)))"
proof
  assume "usMBCRC16 (pre @ [a, b] @ post) (of_nat (length (pre @ [a, b] @ post))) =
          usMBCRC16 (pre @ [c, d] @ post) (of_nat (length (pre @ [c, d] @ post)))"
  then have "crc_ref (pre @ [a, b] @ post) = crc_ref (pre @ [c, d] @ post)"
    using assms usMBCRC16_full[of "pre @ [a, b] @ post"] usMBCRC16_full[of "pre @ [c, d] @ post"]
    by simp
  with assms show False
    by (auto simp: crc_ref_def crc_fold_inj dest!: crc_two_bytes_inj)
qed

theorem crc_detects_two_byte_burst_witness:
  "usMBCRC16 ([0x11] @ [0x03, 0x00] @ [0x6B]) 4 \<noteq> usMBCRC16 ([0x11] @ [0x03, 0x01] @ [0x6B]) 4"
  using crc_detects_two_byte_burst[of "[0x11]" "0x03" "0" "[0x6B]" "0x03" "1"] by simp

end
