(* ===== verification/FrameLayer.thy ===== *)
theory FrameLayer
  imports MbTypes
begin

text \<open>
  What the Modbus stack relies on in a framing (RTU or ASCII), whose functions it calls
  through pointers: a PDU that one station puts on the line is delivered, with the address it
  was sent for, to the other, and both stations are ready for the next one.
\<close>

text \<open>
  A conversation: in each step one of the two stations sends (the flag tells which) and the
  other receives.  The result is what the receivers got.
\<close>

fun talk :: "(u8 \<Rightarrow> bytes \<Rightarrow> 's \<Rightarrow> (bytes \<times> 's) option) \<Rightarrow> (bytes \<Rightarrow> 's \<Rightarrow> ((u8 \<times> bytes) option \<times> 's) option) \<Rightarrow>
    (bool \<times> u8 \<times> bytes) list \<Rightarrow> 's \<Rightarrow> 's \<Rightarrow> ((u8 \<times> bytes) option list \<times> 's \<times> 's) option" where
  "talk tx rx [] s t = Some ([], s, t)"
| "talk tx rx ((b, a, p) # ms) s t = do {
     (w, x) \<leftarrow> tx a p (if b then s else t);
     (m, y) \<leftarrow> rx w (if b then t else s);
     (rs, s', t') \<leftarrow> (if b then talk tx rx ms x y else talk tx rx ms y x);
     Some (m # rs, s', t')
   }"

section \<open>The contract\<close>

text \<open>
  \<open>transmit a p s\<close> answers the bytes on the line for the PDU \<open>p\<close> and the address \<open>a\<close>;
  \<open>deliver w t\<close> is the other side: what the receiver makes of the bytes \<open>w\<close>.
\<close>

locale frame_layer =
  fixes ready :: "'s \<Rightarrow> bool"
    and transmit :: "u8 \<Rightarrow> bytes \<Rightarrow> 's \<Rightarrow> (bytes \<times> 's) option"
    and deliver :: "bytes \<Rightarrow> 's \<Rightarrow> ((u8 \<times> bytes) option \<times> 's) option"
  assumes sends: "ready s \<Longrightarrow> 1 \<le> length p \<Longrightarrow> length p \<le> 253 \<Longrightarrow>
      \<exists>w s'. transmit a p s = Some (w, s') \<and> ready s'"
    and arrives: "ready s \<Longrightarrow> ready t \<Longrightarrow> 1 \<le> length p \<Longrightarrow> length p \<le> 253 \<Longrightarrow>
      transmit a p s = Some (w, s') \<Longrightarrow> \<exists>t'. deliver w t = Some (Some (a, p), t') \<and> ready t'"
begin

lemma talk_delivers:
  assumes "ready s" "ready t" "\<forall>(b, a, p) \<in> set ms. 1 \<le> length p \<and> length p \<le> 253"
  shows "\<exists>s' t'. talk transmit deliver ms s t = Some (map (\<lambda>(b, m). Some m) ms, s', t') \<and> ready s' \<and> ready t'"
  using assms
proof (induction ms arbitrary: s t)
  case (Cons m ms)
  obtain b a p where m: "m = (b, a, p)" by (cases m)
  have p: "1 \<le> length p" "length p \<le> 253" using Cons.prems(3) by (auto simp: m)
  let ?s = "if b then s else t" and ?t = "if b then t else s"
  have r: "ready ?s" "ready ?t" using Cons.prems by auto
  obtain w x where x: "transmit a p ?s = Some (w, x)" "ready x" using sends[OF r(1) p] by blast
  obtain y where y: "deliver w ?t = Some (Some (a, p), y)" "ready y" using arrives[OF r p x(1)] by blast
  have "\<exists>s' t'. (if b then talk transmit deliver ms x y else talk transmit deliver ms y x) = Some (map (\<lambda>(b, m). Some m) ms, s', t') \<and>
      ready s' \<and> ready t'"
    using Cons.IH[OF x(2) y(2)] Cons.IH[OF y(2) x(2)] Cons.prems(3) by simp
  then show ?case using x y by (auto simp: m)
qed simp

end

text \<open>The PDU of a response stands behind the address in the buffer of the serial framings.\<close>

definition put_pdu :: "bytes \<Rightarrow> bytes \<Rightarrow> bytes" where
  "put_pdu p buf = take 1 buf @ p @ drop (1 + length p) buf"

lemma put_pdu_length: "length p < length buf \<Longrightarrow> length (put_pdu p buf) = length buf"
  by (simp add: put_pdu_def)

lemma put_pdu_read: "buf \<noteq> [] \<Longrightarrow> take (length p) (drop 1 (put_pdu p buf)) = p"
  by (cases buf) (simp_all add: put_pdu_def)

end
