(* ===== verification/MbRtu.thy ===== *)
theory MbRtu
  imports MbRtuM MbCrc FrameLayer
begin

text \<open>
  The serial side of the slave: \<open>mbrtu.c\<close> with the port of \<open>portserial.c\<close> and
  \<open>porttimer.c\<close>, in the manner of \<open>MbRtuM\<close>.  Received and sent frames share one
  buffer, and here a frame carries its address and its CRC.  What the slave's
  variables have in common with the master's is named with \<open>s_\<close>.  These files are
  compiled in with \<open>MB_SLAVE_RTU_ENABLED\<close>.
\<close>

unbundle bit_operations_syntax

datatype eMBRcvState = STATE_RX_INIT | STATE_RX_IDLE | STATE_RX_RCV | STATE_RX_ERROR

datatype eMBSndState = STATE_TX_IDLE | STATE_TX_XMIT

record rtu_slave =
  s_queue :: slave_queue
  s_rxne_ie :: bool
  s_txe_ie :: bool
  s_usart_on :: bool
  s_rs485_send :: bool
  s_wire :: bytes
  s_baud :: u32
  s_parity :: eMBParity
  s_9bit :: bool
  s_tim_on :: bool
  s_tim_ie :: bool
  s_tim_period :: u16
  s_tim_prescaler :: u16
  s_SndState :: eMBSndState
  s_RcvState :: eMBRcvState
  ucRTUBuf :: bytes
  pucSndBufferCur :: nat
  usSndBufferCount :: u16
  usRcvBufferPos :: u16

definition s_event_post :: "eMBEventType \<Rightarrow> rtu_slave \<Rightarrow> bool \<times> rtu_slave" where
  "s_event_post e s = (let (b, q) = xMBPortEventPost e (s_queue s) in (b, s \<lparr> s_queue := q \<rparr>))"

section \<open>The port\<close>

definition vMBPortSerialEnable :: "bool \<Rightarrow> bool \<Rightarrow> rtu_slave \<Rightarrow> rtu_slave" where
  "vMBPortSerialEnable xRxEnable xTxEnable s =
    (let s = (if xRxEnable then s \<lparr> s_rs485_send := False, s_rxne_ie := True \<rparr>
              else s \<lparr> s_rs485_send := True, s_rxne_ie := False \<rparr>)
     in if xTxEnable then s \<lparr> s_txe_ie := True \<rparr> else s \<lparr> s_txe_ie := False \<rparr>)"

definition vMBPortClose :: "rtu_slave \<Rightarrow> rtu_slave" where
  "vMBPortClose s = s \<lparr> s_txe_ie := False, s_rxne_ie := False, s_usart_on := False \<rparr>"

text \<open>The number of the port is tested after the switch over the parity.\<close>

definition xMBPortSerialInit ::
    "u8 \<Rightarrow> u32 \<Rightarrow> u8 \<Rightarrow> eMBParity \<Rightarrow> rtu_slave \<Rightarrow> bool \<times> rtu_slave" where
  "xMBPortSerialInit ucPORT ulBaudRate ucDataBits eParity s =
    (if ucPORT \<noteq> 1 then (False, s)
     else (True, s \<lparr> s_baud := ulBaudRate, s_parity := eParity,
                    s_9bit := (case eParity of MB_PAR_NONE \<Rightarrow> False | _ \<Rightarrow> True),
                    s_rxne_ie := True, s_usart_on := True \<rparr>))"

definition xMBPortSerialPutByte :: "u8 \<Rightarrow> rtu_slave \<Rightarrow> bool \<times> rtu_slave" where
  "xMBPortSerialPutByte ucByte s = (True, s \<lparr> s_wire := s_wire s @ [ucByte] \<rparr>)"

definition xMBPortTimersInit :: "u16 \<Rightarrow> rtu_slave \<Rightarrow> bool \<times> rtu_slave" where
  "xMBPortTimersInit usTim1Timerout50us s =
     (True, s \<lparr> s_tim_period := usTim1Timerout50us, s_tim_prescaler := 3600 - 1,
               s_tim_ie := False, s_tim_on := False \<rparr>)"

definition vMBPortTimersEnable :: "rtu_slave \<Rightarrow> rtu_slave" where
  "vMBPortTimersEnable s = s \<lparr> s_tim_ie := True, s_tim_on := True \<rparr>"

definition vMBPortTimersDisable :: "rtu_slave \<Rightarrow> rtu_slave" where
  "vMBPortTimersDisable s = s \<lparr> s_tim_ie := False, s_tim_on := False \<rparr>"

section \<open>Initialisation, start and stop\<close>

definition eMBRTUInit ::
    "u8 \<Rightarrow> u8 \<Rightarrow> u32 \<Rightarrow> eMBParity \<Rightarrow> rtu_slave \<Rightarrow> (eMBErrorCode \<times> rtu_slave) option" where
  "eMBRTUInit ucSlaveAddress ucPort ulBaudRate eParity s =
    (let (ok, s) = xMBPortSerialInit ucPort ulBaudRate 8 eParity s in
     if \<not> ok then Some (MB_EPORTERR, s)
     else do {
       usTimerT35_50us \<leftarrow> t35_50us ulBaudRate;
       let (ok, s) = xMBPortTimersInit (ucast usTimerT35_50us) s;
       Some (if ok then MB_ENOERR else MB_EPORTERR, s)
     })"

definition eMBRTUStart :: "rtu_slave \<Rightarrow> rtu_slave" where
  "eMBRTUStart s = vMBPortTimersEnable (vMBPortSerialEnable True False (s \<lparr> s_RcvState := STATE_RX_INIT \<rparr>))"

definition eMBRTUStop :: "rtu_slave \<Rightarrow> rtu_slave" where
  "eMBRTUStop s = vMBPortTimersDisable (vMBPortSerialEnable False False s)"

section \<open>Receive and send\<close>

text \<open>
  The address, the frame (as an offset into the buffer) and the length are returned by
  reference, and are left as they were for a frame that is too short or damaged.
\<close>

definition eMBRTUReceive ::
    "u8 \<times> nat option \<times> u16 \<Rightarrow> rtu_slave \<Rightarrow> (eMBErrorCode \<times> u8 \<times> nat option \<times> u16) option" where
  "eMBRTUReceive out s = do {
     ok \<leftarrow> (if MB_SER_PDU_SIZE_MIN \<le> usRcvBufferPos s
            then map_option (\<lambda>c. c = 0) (usMBCRC16 (ucRTUBuf s) (usRcvBufferPos s)) else Some False);
     if ok then do {
       a \<leftarrow> cget (ucRTUBuf s) 0;
       Some (MB_ENOERR, a, Some 1, usRcvBufferPos s - 1 - 2)
     } else Some (MB_EIO, out)
   }"

text \<open>The byte before the PDU takes the address; the CRC follows the PDU.\<close>

definition eMBRTUSend ::
    "u8 \<Rightarrow> nat \<Rightarrow> u16 \<Rightarrow> rtu_slave \<Rightarrow> (eMBErrorCode \<times> rtu_slave) option" where
  "eMBRTUSend ucSlaveAddress pucFrame usLength s =
    (if s_RcvState s = STATE_RX_IDLE then do {
       c \<leftarrow> (if pucFrame = 0 then None else Some (pucFrame - 1));
       buf \<leftarrow> cset (ucRTUBuf s) c ucSlaveAddress;
       let n = 1 + usLength;
       usCRC16 \<leftarrow> usMBCRC16 (drop c buf) n;
       buf \<leftarrow> cset buf (unat n) (ucast (usCRC16 AND 0xFF));
       let n = n + 1;
       buf \<leftarrow> cset buf (unat n) (ucast (drop_bit 8 usCRC16));
       let n = n + 1;
       Some (MB_ENOERR,
         vMBPortSerialEnable False True
           (s \<lparr> ucRTUBuf := buf, pucSndBufferCur := c, usSndBufferCount := n, s_SndState := STATE_TX_XMIT \<rparr>))
     } else Some (MB_EIO, s))"

section \<open>The state machines\<close>

definition xMBRTUReceiveFSM :: "u8 \<Rightarrow> rtu_slave \<Rightarrow> (bool \<times> rtu_slave) option" where
  "xMBRTUReceiveFSM ucByte s =
    (case s_RcvState s of
       STATE_RX_INIT \<Rightarrow> Some (False, vMBPortTimersEnable s)
     | STATE_RX_ERROR \<Rightarrow> Some (False, vMBPortTimersEnable s)
     | STATE_RX_IDLE \<Rightarrow> do {
         buf \<leftarrow> cset (ucRTUBuf s) 0 ucByte;
         Some (False, vMBPortTimersEnable
           (s \<lparr> ucRTUBuf := buf, usRcvBufferPos := 1, s_RcvState := STATE_RX_RCV \<rparr>))
       }
     | STATE_RX_RCV \<Rightarrow>
         if usRcvBufferPos s < MB_SER_PDU_SIZE_MAX then do {
           buf \<leftarrow> cset (ucRTUBuf s) (unat (usRcvBufferPos s)) ucByte;
           Some (False, vMBPortTimersEnable
             (s \<lparr> ucRTUBuf := buf, usRcvBufferPos := usRcvBufferPos s + 1 \<rparr>))
         } else Some (False, vMBPortTimersEnable (s \<lparr> s_RcvState := STATE_RX_ERROR \<rparr>)))"

definition xMBRTUTransmitFSM :: "rtu_slave \<Rightarrow> (bool \<times> rtu_slave) option" where
  "xMBRTUTransmitFSM s =
    (case s_SndState s of
       STATE_TX_IDLE \<Rightarrow> Some (False, vMBPortSerialEnable True False s)
     | STATE_TX_XMIT \<Rightarrow>
         if usSndBufferCount s \<noteq> 0 then do {
           b \<leftarrow> cget (ucRTUBuf s) (pucSndBufferCur s);
           let s = snd (xMBPortSerialPutByte b s);
           Some (False, s \<lparr> pucSndBufferCur := pucSndBufferCur s + 1,
                           usSndBufferCount := usSndBufferCount s - 1 \<rparr>)
         } else
           (let (xNeedPoll, s) = s_event_post EV_FRAME_SENT s
            in Some (xNeedPoll, (vMBPortSerialEnable True False s) \<lparr> s_SndState := STATE_TX_IDLE \<rparr>)))"

definition xMBRTUTimerT35Expired :: "rtu_slave \<Rightarrow> bool \<times> rtu_slave" where
  "xMBRTUTimerT35Expired s =
    (let (xNeedPoll, s) = (case s_RcvState s of
         STATE_RX_INIT \<Rightarrow> s_event_post EV_READY s
       | STATE_RX_RCV \<Rightarrow> s_event_post EV_FRAME_RECEIVED s
       | STATE_RX_ERROR \<Rightarrow> (False, s)
       | STATE_RX_IDLE \<Rightarrow> (False, s))
     in (xNeedPoll, (vMBPortTimersDisable s) \<lparr> s_RcvState := STATE_RX_IDLE \<rparr>))"

section \<open>The interrupt handlers\<close>

text \<open>Here the two flags are served one after the other.\<close>

definition USART1_IRQHandler :: "u8 option \<Rightarrow> bool \<Rightarrow> rtu_slave \<Rightarrow> rtu_slave option" where
  "USART1_IRQHandler rxne txe s = do {
     s \<leftarrow> (case rxne of Some b \<Rightarrow> map_option snd (xMBRTUReceiveFSM b s) | None \<Rightarrow> Some s);
     if txe then map_option snd (xMBRTUTransmitFSM s) else Some s
   }"

definition TIM3_IRQHandler_s :: "bool \<Rightarrow> rtu_slave \<Rightarrow> rtu_slave" where
  "TIM3_IRQHandler_s update s = (if update then snd (xMBRTUTimerT35Expired s) else s)"

section \<open>Invariant\<close>

definition srtu_inv :: "rtu_slave \<Rightarrow> bool" where
  "srtu_inv s \<longleftrightarrow> length (ucRTUBuf s) = 256 \<and> unat (usRcvBufferPos s) \<le> 256 \<and>
     (s_SndState s = STATE_TX_XMIT \<longrightarrow> pucSndBufferCur s + unat (usSndBufferCount s) \<le> 256)"

named_theorems srtu_defs "the operations of the slave's port that only set fields"

lemmas [srtu_defs] =
  vMBPortSerialEnable_def vMBPortClose_def vMBPortTimersEnable_def vMBPortTimersDisable_def
  s_event_post_def xMBPortEventPost_def xMBPortSerialPutByte_def

lemma slave_receive_inv:
  assumes "srtu_inv s"
  shows "\<exists>r s'. xMBRTUReceiveFSM b s = Some (r, s') \<and> srtu_inv s'"
proof (cases "s_RcvState s")
  case STATE_RX_RCV
  then show ?thesis
    using assms pos_suc[of "usRcvBufferPos s"]
    by (auto simp: xMBRTUReceiveFSM_def srtu_defs srtu_inv_def)
next
  case STATE_RX_IDLE
  moreover have "ucRTUBuf s \<noteq> []" using assms by (auto simp: srtu_inv_def)
  ultimately show ?thesis using assms by (auto simp: xMBRTUReceiveFSM_def srtu_defs srtu_inv_def)
qed (use assms in \<open>auto simp: xMBRTUReceiveFSM_def srtu_defs srtu_inv_def\<close>)

lemma slave_transmit_inv:
  assumes "srtu_inv s"
  shows "\<exists>r s'. xMBRTUTransmitFSM s = Some (r, s') \<and> srtu_inv s'"
proof (cases "s_SndState s")
  case STATE_TX_XMIT
  then show ?thesis
    using assms count_pred[of "usSndBufferCount s"]
    by (auto simp: xMBRTUTransmitFSM_def srtu_defs srtu_inv_def Let_def)
qed (use assms in \<open>auto simp: xMBRTUTransmitFSM_def srtu_defs srtu_inv_def\<close>)

lemma USART1_inv: "srtu_inv s \<Longrightarrow> \<exists>s'. USART1_IRQHandler rxne txe s = Some s' \<and> srtu_inv s'"
proof -
  assume s: "srtu_inv s"
  obtain s1 where "(case rxne of Some b \<Rightarrow> map_option snd (xMBRTUReceiveFSM b s) | None \<Rightarrow> Some s) = Some s1"
    "srtu_inv s1"
    using s slave_receive_inv[OF s] by (cases rxne) force+
  then show ?thesis using slave_transmit_inv[of s1] by (cases txe) (force simp: USART1_IRQHandler_def)+
qed

lemma TIM3_s_inv: "srtu_inv s \<Longrightarrow> srtu_inv (TIM3_IRQHandler_s u s)"
  by (cases "s_RcvState s")
    (simp_all add: TIM3_IRQHandler_s_def xMBRTUTimerT35Expired_def srtu_defs srtu_inv_def Let_def)

section \<open>Frames on the line\<close>

text \<open>A frame: the address, the PDU and the CRC with its low byte first.\<close>

definition adu :: "u8 \<Rightarrow> bytes \<Rightarrow> bytes" where
  "adu a p = a # p @ [lo8 (crc_ref (a # p)), hi8 (crc_ref (a # p))]"

lemma adu_length [simp]: "length (adu a p) = length p + 3"
  by (simp add: adu_def)

fun slave_rx :: "bytes \<Rightarrow> rtu_slave \<Rightarrow> rtu_slave option" where
  "slave_rx [] s = Some s"
| "slave_rx (b # bs) s = do { s \<leftarrow> USART1_IRQHandler (Some b) False s; slave_rx bs s }"

definition received :: "bytes \<Rightarrow> nat \<Rightarrow> rtu_slave \<Rightarrow> rtu_slave" where
  "received buf n s = vMBPortTimersEnable
     (s \<lparr> ucRTUBuf := buf, usRcvBufferPos := of_nat n, s_RcvState := STATE_RX_RCV \<rparr>)"

lemma slave_rx_step:
  assumes "length buf = 256" "n < 256"
  shows "USART1_IRQHandler (Some b) False (received buf n s) = Some (received (buf[n := b]) (n + 1) s)"
proof -
  have "unat (of_nat n :: u16) = n" using assms(2) by (simp add: unat_of_nat_u16)
  moreover from this have "(of_nat n :: u16) < 256" unfolding word_less_nat_alt using assms(2) by simp
  ultimately show ?thesis
    using assms by (simp add: USART1_IRQHandler_def xMBRTUReceiveFSM_def received_def srtu_defs add.commute)
qed

lemma slave_rx_more:
  assumes "length buf = 256" "n + length bs \<le> 256"
  shows "slave_rx bs (received buf n s) =
     Some (received (take n buf @ bs @ drop (n + length bs) buf) (n + length bs) s)"
  using assms
proof (induction bs arbitrary: buf n)
  case (Cons b bs)
  then have "slave_rx bs (received (buf[n := b]) (n + 1) s) =
      Some (received (take (n + 1) (buf[n := b]) @ bs @ drop (n + 1 + length bs) (buf[n := b]))
             (n + 1 + length bs) s)"
    by (intro Cons.IH) simp_all
  moreover have "take (n + 1) (buf[n := b]) = take n buf @ [b]" using Cons.prems by (simp add: take_update1)
  ultimately show ?case using Cons.prems by (simp add: slave_rx_step drop_update_cancel)
qed simp

lemma slave_rx_frame:
  assumes "srtu_inv s" "s_RcvState s = STATE_RX_IDLE" "bs \<noteq> []" "length bs \<le> 256"
  shows "slave_rx bs s = Some (received (bs @ drop (length bs) (ucRTUBuf s)) (length bs) s)"
proof -
  obtain b cs where bs: "bs = b # cs" using assms(3) by (cases bs) auto
  have len: "length (ucRTUBuf s) = 256" using assms(1) by (simp add: srtu_inv_def)
  then have ne: "ucRTUBuf s \<noteq> []" by auto
  have "take 1 ((ucRTUBuf s)[0 := b]) = [b]" using ne by (cases "ucRTUBuf s") auto
  moreover have "USART1_IRQHandler (Some b) False s = Some (received ((ucRTUBuf s)[0 := b]) 1 s)"
    using assms(2) ne by (simp add: USART1_IRQHandler_def xMBRTUReceiveFSM_def received_def)
  ultimately show ?thesis
    using assms(4) len by (simp add: bs slave_rx_more drop_update_cancel)
qed

text \<open>After the timer the frame is complete, and the receiver tells a good one from a damaged one.\<close>

lemma received_timer:
  "TIM3_IRQHandler_s True (received buf n s) =
     s \<lparr> ucRTUBuf := buf, usRcvBufferPos := of_nat n, s_RcvState := STATE_RX_IDLE, s_tim_ie := False,
        s_tim_on := False, s_queue := \<lparr> eQueuedEvent = EV_FRAME_RECEIVED, xEventInQueue = True \<rparr> \<rparr>"
  by (simp add: TIM3_IRQHandler_s_def xMBRTUTimerT35Expired_def received_def srtu_defs Let_def)

lemma eMBRTUReceive_eq:
  assumes "srtu_inv s"
  shows "eMBRTUReceive out s =
    Some (if 4 \<le> unat (usRcvBufferPos s) \<and> crc_ref (take (unat (usRcvBufferPos s)) (ucRTUBuf s)) = 0
          then (MB_ENOERR, ucRTUBuf s ! 0, Some 1, usRcvBufferPos s - 3) else (MB_EIO, out))"
proof -
  have "unat (usRcvBufferPos s) \<le> length (ucRTUBuf s)" "ucRTUBuf s \<noteq> []"
    using assms by (auto simp: srtu_inv_def)
  then show ?thesis
    by (auto simp: eMBRTUReceive_def usMBCRC16_take word_le_nat_alt diff_diff_eq)
qed

lemma crc_ref_adu: "crc_ref (adu a p) = 0"
proof -
  let ?c = "crc_ref (a # p)"
  have "crc_ref (adu a p) = crc_byte_ref (hi8 ?c) (crc_byte_ref (lo8 ?c) ?c)"
    by (simp add: adu_def crc_ref_def)
  also have "\<dots> = 0" by (simp only: crc_append_residue mk16_hi_lo)
  finally show ?thesis .
qed

lemma crc_ref_zero: "crc_ref (fr @ [lo, hi]) = 0 \<longleftrightarrow> lo = lo8 (crc_ref fr) \<and> hi = hi8 (crc_ref fr)"
  by (simp add: crc_ref_def crc_append_residue) (metis hi8_mk16 lo8_mk16 mk16_hi_lo)

section \<open>Sending\<close>

lemma eMBRTUSend_eq:
  assumes "srtu_inv s" "s_RcvState s = STATE_RX_IDLE" "unat n \<le> 253"
  shows "eMBRTUSend a 1 n s = Some (MB_ENOERR, vMBPortSerialEnable False True
    (s \<lparr> ucRTUBuf := adu a (take (unat n) (drop 1 (ucRTUBuf s))) @ drop (unat n + 3) (ucRTUBuf s),
        pucSndBufferCur := 0, usSndBufferCount := n + 3, s_SndState := STATE_TX_XMIT \<rparr>))"
proof -
  let ?B = "ucRTUBuf s" and ?m = "unat n"
  define p where "p = take ?m (drop 1 ?B)"
  define c where "c = crc_ref (a # p)"
  have len: "length ?B = 256" using assms(1) by (simp add: srtu_inv_def)
  have pl: "length p = ?m" using len assms(3) by (simp add: p_def)
  have u: "unat (1 + n) = ?m + 1" "unat (1 + n + 1) = ?m + 2"
    using assms(3) by (simp_all add: unat_word_ariths)
  have B: "?B[0 := a] = a # p @ drop (?m + 1) ?B"
    using len by (cases ?B) (simp_all add: p_def)
  have crc: "usMBCRC16 (a # p @ drop (?m + 1) ?B) (1 + n) = Some c"
    using usMBCRC16_take[of "1 + n" "a # p @ drop (?m + 1) ?B"] len pl by (simp add: u(1) c_def)
  have 1: "cset (a # p @ drop (?m + 1) ?B) (?m + 1) x = Some (a # p @ x # drop (?m + 2) ?B)" for x
    using len pl assms(3) by (simp add: list_update_append Cons_nth_drop_Suc[symmetric])
  have 2: "cset (a # p @ x # drop (?m + 2) ?B) (?m + 2) y = Some (a # p @ x # y # drop (?m + 3) ?B)" for x y
    using len pl assms(3) by (simp add: list_update_append Cons_nth_drop_Suc[symmetric] numeral_3_eq_3)
  have ne: "?B \<noteq> []" using len by auto
  have "adu a p @ drop (?m + 3) ?B = a # p @ ucast (c AND 0xFF) # ucast (drop_bit 8 c) # drop (?m + 3) ?B"
    by (simp add: adu_def c_def lo8_def hi8_def)
  moreover have "eMBRTUSend a 1 n s = Some (MB_ENOERR, vMBPortSerialEnable False True
      (s \<lparr> ucRTUBuf := a # p @ ucast (c AND 0xFF) # ucast (drop_bit 8 c) # drop (?m + 3) ?B,
          pucSndBufferCur := 0, usSndBufferCount := 1 + n + 1 + 1, s_SndState := STATE_TX_XMIT \<rparr>))"
    using ne assms(2)
    by (simp only: eMBRTUSend_def Let_def if_True if_False simp_thms one_neq_zero diff_self_eq_0 bind.bind_lunit
        cset_in length_greater_0_conv B crc 1 2 u drop_0)
  moreover have "1 + n + 1 + 1 = n + 3" by simp
  ultimately show ?thesis by (simp only: p_def)
qed

fun slave_tx :: "nat \<Rightarrow> rtu_slave \<Rightarrow> rtu_slave option" where
  "slave_tx 0 s = Some s"
| "slave_tx (Suc n) s = do { s \<leftarrow> USART1_IRQHandler None True s; slave_tx n s }"

definition slave_sent :: "rtu_slave \<Rightarrow> rtu_slave" where
  "slave_sent s = (vMBPortSerialEnable True False (snd (s_event_post EV_FRAME_SENT s)))
     \<lparr> s_SndState := STATE_TX_IDLE \<rparr>"

lemma slave_tx_frame:
  assumes "s_SndState s = STATE_TX_XMIT" "pucSndBufferCur s = i"
    "unat (usSndBufferCount s) = n" "i + n \<le> length (ucRTUBuf s)"
  shows "slave_tx (Suc n) s = Some (slave_sent (s \<lparr> s_wire := s_wire s @ take n (drop i (ucRTUBuf s)),
    pucSndBufferCur := i + n, usSndBufferCount := 0 \<rparr>))"
  using assms
proof (induction n arbitrary: s i)
  case 0
  then have z: "usSndBufferCount s = 0" by (simp add: unat_eq_zero)
  have "s \<lparr> s_wire := s_wire s @ take 0 (drop i (ucRTUBuf s)), pucSndBufferCur := i + 0, usSndBufferCount := 0 \<rparr> = s"
    using 0 z by (cases s) simp
  moreover have "slave_tx (Suc 0) s = Some (slave_sent s)"
    using 0 z by (simp add: USART1_IRQHandler_def xMBRTUTransmitFSM_def slave_sent_def case_prod_beta Let_def)
  ultimately show ?case by (simp only:)
next
  case (Suc n)
  have c: "usSndBufferCount s \<noteq> 0" using Suc.prems(3) by auto
  let ?s = "s \<lparr> s_wire := s_wire s @ [ucRTUBuf s ! i], pucSndBufferCur := i + 1,
              usSndBufferCount := usSndBufferCount s - 1 \<rparr>"
  have "USART1_IRQHandler None True s = Some ?s"
    using Suc.prems c by (simp add: USART1_IRQHandler_def xMBRTUTransmitFSM_def xMBPortSerialPutByte_def Let_def)
  moreover have "slave_tx (Suc n) ?s = Some (slave_sent (?s \<lparr>
      s_wire := s_wire ?s @ take n (drop (i + 1) (ucRTUBuf ?s)), pucSndBufferCur := i + 1 + n, usSndBufferCount := 0 \<rparr>))"
    using Suc.prems count_pred[OF c] by (intro Suc.IH) auto
  moreover have "take (Suc n) (drop i (ucRTUBuf s)) = ucRTUBuf s ! i # take n (drop (i + 1) (ucRTUBuf s))"
    using Suc.prems by (simp add: take_Suc_drop)
  ultimately show ?case by (simp del: slave_tx.simps add: slave_tx.simps(2)[of "Suc n"])
qed

section \<open>Properties\<close>

lemma burst_changes_crc:
  "crc_ref (pre @ [a, b] @ post) = crc_ref (pre @ [c, d] @ post) \<Longrightarrow> a = c \<and> b = d"
  by (auto simp: crc_ref_def crc_fold_inj dest!: crc_two_bytes_inj)

lemma slave_sends:
  assumes "srtu_inv s" "s_RcvState s = STATE_RX_IDLE" "unat n \<le> 253"
  shows "\<exists>s1 s2. eMBRTUSend a 1 n s = Some (MB_ENOERR, s1) \<and> srtu_inv s1 \<and>
    slave_tx (unat n + 4) s1 = Some s2 \<and>
    s_wire s2 = s_wire s @ adu a (take (unat n) (drop 1 (ucRTUBuf s))) \<and> s_SndState s2 = STATE_TX_IDLE \<and>
    s_rxne_ie s2 \<and> \<not> s_txe_ie s2 \<and> s_RcvState s2 = STATE_RX_IDLE"
proof -
  let ?m = "unat n"
  define p where "p = take ?m (drop 1 (ucRTUBuf s))"
  define s1 where "s1 = vMBPortSerialEnable False True
    (s \<lparr> ucRTUBuf := adu a p @ drop (?m + 3) (ucRTUBuf s), pucSndBufferCur := 0, usSndBufferCount := n + 3,
        s_SndState := STATE_TX_XMIT \<rparr>)"
  have len: "length (ucRTUBuf s) = 256" using assms(1) by (simp add: srtu_inv_def)
  have pl: "length p = ?m" using len assms(3) by (simp add: p_def)
  have u: "unat (n + 3) = ?m + 3" using assms(3) by (simp add: unat_word_ariths)
  have 1: "eMBRTUSend a 1 n s = Some (MB_ENOERR, s1)" using eMBRTUSend_eq[OF assms] by (simp add: s1_def p_def)
  have inv: "srtu_inv s1"
    using assms(1,3) len pl u by (simp add: s1_def srtu_inv_def srtu_defs)
  have "s_SndState s1 = STATE_TX_XMIT" "pucSndBufferCur s1 = 0" "unat (usSndBufferCount s1) = ?m + 3"
    "0 + (?m + 3) \<le> length (ucRTUBuf s1)"
    using u len pl assms(3) by (simp_all add: s1_def srtu_defs)
  from slave_tx_frame[OF this]
  have "slave_tx (?m + 4) s1 = Some (slave_sent (s1 \<lparr> s_wire := s_wire s1 @ take (?m + 3) (drop 0 (ucRTUBuf s1)),
    pucSndBufferCur := 0 + (?m + 3), usSndBufferCount := 0 \<rparr>))" by (simp add: eval_nat_numeral del: slave_tx.simps)
  moreover have "take (?m + 3) (ucRTUBuf s1) = adu a p" "s_wire s1 = s_wire s" "s_RcvState s1 = STATE_RX_IDLE"
    using pl assms(2) by (simp_all add: s1_def srtu_defs)
  ultimately show ?thesis
    using 1 inv by (simp add: slave_sent_def srtu_defs p_def del: slave_tx.simps)
qed

lemma slave_receives:
  assumes "srtu_inv t" "s_RcvState t = STATE_RX_IDLE" "length p \<le> 253" "1 \<le> length p"
  shows "\<exists>t1. slave_rx (adu a p) t = Some t1 \<and> srtu_inv (TIM3_IRQHandler_s True t1) \<and>
    eMBRTUReceive out (TIM3_IRQHandler_s True t1) = Some (MB_ENOERR, a, Some 1, of_nat (length p)) \<and>
    take (length p) (drop 1 (ucRTUBuf (TIM3_IRQHandler_s True t1))) = p"
proof -
  let ?B = "adu a p @ drop (length p + 3) (ucRTUBuf t)"
  have len: "length (ucRTUBuf t) = 256" using assms(1) by (simp add: srtu_inv_def)
  have "adu a p \<noteq> []" by (simp add: adu_def)
  then have rx: "slave_rx (adu a p) t = Some (received ?B (length p + 3) t)"
    using slave_rx_frame[OF assms(1,2), of "adu a p"] assms(3) by simp
  let ?t = "TIM3_IRQHandler_s True (received ?B (length p + 3) t)"
  have u: "unat (of_nat (length p + 3) :: u16) = length p + 3" using assms(3) by (intro unat_of_nat_u16) simp
  have B: "ucRTUBuf ?t = ?B" "usRcvBufferPos ?t = of_nat (length p + 3)" by (simp_all only: received_timer) simp_all
  have inv: "srtu_inv ?t"
    using assms(1,3) len u unfolding received_timer srtu_inv_def by (simp del: of_nat_add)
  have "take (length p + 3) ?B = adu a p" "?B ! 0 = a"
    by (simp, simp add: adu_def)
  moreover have "(of_nat (length p + 3) :: u16) - 3 = of_nat (length p)" by simp
  ultimately have "eMBRTUReceive out ?t = Some (MB_ENOERR, a, Some 1, of_nat (length p))"
    unfolding eMBRTUReceive_eq[OF inv] B u using assms(4) by (simp add: crc_ref_adu)
  moreover have "take (length p) (drop 1 ?B) = p" by (simp add: adu_def)
  ultimately show ?thesis using rx inv B(1) by auto
qed

text \<open>
  C14: A PDU of 1 to 253 bytes that eMBRTUSend puts on the line through the transmit
  interrupts is received by another stack with its address, length and bytes.
\<close>

theorem rtu_frame_roundtrip:
  assumes "srtu_inv s" "s_RcvState s = STATE_RX_IDLE" "srtu_inv t" "s_RcvState t = STATE_RX_IDLE"
    "1 \<le> unat n" "unat n \<le> 253" "s_wire s = []"
  shows "\<exists>s1 s2 t1. eMBRTUSend a 1 n s = Some (MB_ENOERR, s1) \<and> slave_tx (unat n + 4) s1 = Some s2 \<and>
    slave_rx (s_wire s2) t = Some t1 \<and>
    eMBRTUReceive out (TIM3_IRQHandler_s True t1) = Some (MB_ENOERR, a, Some 1, n) \<and>
    take (unat n) (drop 1 (ucRTUBuf (TIM3_IRQHandler_s True t1))) = take (unat n) (drop 1 (ucRTUBuf s))"
proof -
  let ?p = "take (unat n) (drop 1 (ucRTUBuf s))"
  have l: "length ?p = unat n" using assms(1,6) by (simp add: srtu_inv_def)
  obtain s1 s2 where s: "eMBRTUSend a 1 n s = Some (MB_ENOERR, s1)" "slave_tx (unat n + 4) s1 = Some s2"
    "s_wire s2 = adu a ?p"
    using slave_sends[OF assms(1,2,6), of a] assms(7) by auto
  have "length ?p \<le> 253" "1 \<le> length ?p" unfolding l using assms(5,6) by simp_all
  from slave_receives[OF assms(3,4) this, of a out] obtain t1 where
    "slave_rx (adu a ?p) t = Some t1"
    "eMBRTUReceive out (TIM3_IRQHandler_s True t1) = Some (MB_ENOERR, a, Some 1, of_nat (length ?p))"
    "take (length ?p) (drop 1 (ucRTUBuf (TIM3_IRQHandler_s True t1))) = ?p"
    by blast
  then show ?thesis using s unfolding l by (simp del: slave_tx.simps)
qed

definition idle_slave_rtu :: rtu_slave where
  "idle_slave_rtu = \<lparr> s_queue = \<lparr> eQueuedEvent = EV_READY, xEventInQueue = False \<rparr>,
     s_rxne_ie = True, s_txe_ie = False, s_usart_on = True, s_rs485_send = False, s_wire = [],
     s_baud = 9600, s_parity = MB_PAR_NONE, s_9bit = False, s_tim_on = False, s_tim_ie = False,
     s_tim_period = 80, s_tim_prescaler = 3599, s_SndState = STATE_TX_IDLE, s_RcvState = STATE_RX_IDLE,
     ucRTUBuf = replicate 256 0, pucSndBufferCur = 0, usSndBufferCount = 0, usRcvBufferPos = 0 \<rparr>"

lemma idle_slave_ready:
  "srtu_inv idle_slave_rtu" "s_RcvState idle_slave_rtu = STATE_RX_IDLE" "s_wire idle_slave_rtu = []"
  by (simp_all add: idle_slave_rtu_def srtu_inv_def)

theorem rtu_frame_roundtrip_witness:
  "\<exists>s1 s2 t1. eMBRTUSend 7 1 5 idle_slave_rtu = Some (MB_ENOERR, s1) \<and> slave_tx 9 s1 = Some s2 \<and>
    slave_rx (s_wire s2) idle_slave_rtu = Some t1 \<and>
    eMBRTUReceive (0, None, 0) (TIM3_IRQHandler_s True t1) = Some (MB_ENOERR, 7, Some 1, 5)"
proof -
  have c: "1 \<le> unat (5 :: u16)" "unat (5 :: u16) \<le> 253" by simp_all
  have "unat (5 :: u16) + 4 = 9" by simp
  then show ?thesis
    using rtu_frame_roundtrip[OF idle_slave_ready(1,2,1,2) c idle_slave_ready(3), of 7 "(0, None, 0)"] by metis
qed


section \<open>RTU as a framing\<close>

text \<open>
  \<open>rtu_transmit\<close>: the response is in the buffer, \<open>eMBRTUSend\<close> and the transmit interrupts.
  \<open>rtu_deliver\<close>: the receive interrupts, the silence, the event and \<open>eMBRTUReceive\<close>.
\<close>

definition rtu_ready :: "rtu_slave \<Rightarrow> bool" where
  "rtu_ready s \<longleftrightarrow> srtu_inv s \<and> s_RcvState s = STATE_RX_IDLE"

definition rtu_transmit :: "u8 \<Rightarrow> bytes \<Rightarrow> rtu_slave \<Rightarrow> (bytes \<times> rtu_slave) option" where
  "rtu_transmit a p s = do {
     let s = s \<lparr> ucRTUBuf := put_pdu p (ucRTUBuf s) \<rparr>;
     (e, s') \<leftarrow> eMBRTUSend a 1 (of_nat (length p)) s;
     s' \<leftarrow> slave_tx (length p + 4) s';
     Some (drop (length (s_wire s)) (s_wire s'), s')
   }"

definition rtu_deliver :: "bytes \<Rightarrow> rtu_slave \<Rightarrow> ((u8 \<times> bytes) option \<times> rtu_slave) option" where
  "rtu_deliver w t = do {
     t \<leftarrow> slave_rx w t;
     let t = TIM3_IRQHandler_s True t;
     let (ev, q) = xMBPortEventGet (s_queue t);
     let t = t \<lparr> s_queue := q \<rparr>;
     (e, a, p, n) \<leftarrow> eMBRTUReceive (0, None, 0) t;
     if ev = Some EV_FRAME_RECEIVED \<and> e = MB_ENOERR then do {
       p \<leftarrow> p;
       f \<leftarrow> cread (ucRTUBuf t) p (unat n);
       Some (Some (a, f), t)
     } else Some (None, t)
   }"

lemma eMBRTUReceive_queue: "eMBRTUReceive out (t \<lparr> s_queue := q \<rparr>) = eMBRTUReceive out t"
  by (cases "usMBCRC16 (ucRTUBuf t) (usRcvBufferPos t)") (simp_all add: eMBRTUReceive_def)

lemma slave_tx_inv: "srtu_inv s \<Longrightarrow> slave_tx n s = Some s' \<Longrightarrow> srtu_inv s'"
proof (induction n arbitrary: s)
  case (Suc n)
  obtain s1 where s1: "USART1_IRQHandler None True s = Some s1" "srtu_inv s1" using USART1_inv[OF Suc.prems(1)] by blast
  then show ?case using Suc.IH[OF s1(2)] Suc.prems(2) by simp
qed simp

lemma rtu_transmits:
  assumes "rtu_ready s" "length p \<le> 253"
  shows "\<exists>s'. rtu_transmit a p s = Some (adu a p, s') \<and> rtu_ready s'"
proof -
  let ?s = "s \<lparr> ucRTUBuf := put_pdu p (ucRTUBuf s) \<rparr>" and ?n = "of_nat (length p) :: u16"
  have len: "length (ucRTUBuf s) = 256" using assms(1) by (simp add: rtu_ready_def srtu_inv_def)
  then have ne: "ucRTUBuf s \<noteq> []" by auto
  have u: "unat ?n = length p" using assms(2) by (intro unat_of_nat_u16) simp
  have inv: "srtu_inv ?s" "s_RcvState ?s = STATE_RX_IDLE"
    using assms len by (simp_all add: rtu_ready_def srtu_inv_def put_pdu_length)
  have "unat ?n \<le> 253" using u assms(2) by simp
  from slave_sends[OF inv this, of a] obtain s1 s2 where s: "eMBRTUSend a 1 ?n ?s = Some (MB_ENOERR, s1)"
    "srtu_inv s1" "slave_tx (length p + 4) s1 = Some s2" "s_RcvState s2 = STATE_RX_IDLE"
    "s_wire s2 = s_wire s @ adu a p"
    unfolding u by (simp del: slave_tx.simps add: put_pdu_read[OF ne, simplified]) blast
  have "rtu_ready s2" using s slave_tx_inv by (simp add: rtu_ready_def)
  then show ?thesis using s by (simp add: rtu_transmit_def Let_def del: slave_tx.simps)
qed

lemma rtu_delivers:
  assumes "rtu_ready t" "1 \<le> length p" "length p \<le> 253"
  shows "\<exists>t'. rtu_deliver (adu a p) t = Some (Some (a, p), t') \<and> rtu_ready t'"
proof -
  have t: "srtu_inv t" "s_RcvState t = STATE_RX_IDLE" using assms(1) by (simp_all add: rtu_ready_def)
  obtain t1 where t1: "slave_rx (adu a p) t = Some t1" "srtu_inv (TIM3_IRQHandler_s True t1)"
    "eMBRTUReceive (0, None, 0) (TIM3_IRQHandler_s True t1) = Some (MB_ENOERR, a, Some 1, of_nat (length p))"
    "take (length p) (drop 1 (ucRTUBuf (TIM3_IRQHandler_s True t1))) = p"
    using slave_receives[OF t assms(3,2)] by blast
  have "adu a p \<noteq> []" by (simp add: adu_def)
  then obtain buf n where "t1 = received buf n t"
    using slave_rx_frame[OF t, of "adu a p"] t1(1) assms(3) by auto
  then have q: "s_queue (TIM3_IRQHandler_s True t1) = \<lparr> eQueuedEvent = EV_FRAME_RECEIVED, xEventInQueue = True \<rparr>"
    "s_RcvState (TIM3_IRQHandler_s True t1) = STATE_RX_IDLE"
    by (simp_all add: received_timer)
  define t2 where "t2 = TIM3_IRQHandler_s True t1"
  have u: "unat (of_nat (length p) :: u16) = length p" using assms(3) by (intro unat_of_nat_u16) simp
  have "1 + length p \<le> length (ucRTUBuf t2)" using t1(2) assms(3) by (simp add: t2_def srtu_inv_def)
  then have "cread (ucRTUBuf t2) 1 (length p) = Some p" using t1(4) by (simp add: t2_def cread_def)
  then have "rtu_deliver (adu a p) t = Some (Some (a, p), t2 \<lparr> s_queue := s_queue t2 \<lparr> xEventInQueue := False \<rparr> \<rparr>)"
    using t1(1,3) q by (simp add: rtu_deliver_def Let_def eMBRTUReceive_queue t2_def[symmetric] xMBPortEventGet_def u)
  moreover have "rtu_ready (t2 \<lparr> s_queue := s_queue t2 \<lparr> xEventInQueue := False \<rparr> \<rparr>)"
    using t1(2) q(2) by (simp add: rtu_ready_def srtu_inv_def t2_def[symmetric])
  ultimately show ?thesis by blast
qed

interpretation rtu_frame: frame_layer rtu_ready rtu_transmit rtu_deliver
proof unfold_locales
  fix s a and p :: bytes assume "rtu_ready s" "1 \<le> length p" "length p \<le> 253"
  then show "\<exists>w s'. rtu_transmit a p s = Some (w, s') \<and> rtu_ready s'" using rtu_transmits by blast
next
  fix s t a w s' and p :: bytes
  assume "rtu_ready s" "rtu_ready t" "1 \<le> length p" "length p \<le> 253" "rtu_transmit a p s = Some (w, s')"
  then show "\<exists>t'. rtu_deliver w t = Some (Some (a, p), t') \<and> rtu_ready t'"
    using rtu_transmits[of s p a] rtu_delivers[of t p a] by auto
qed

end
