(* ===== verification/MbAscii.thy ===== *)
theory MbAscii
  imports MbRtu
begin

text \<open>
  The ASCII framing of the slave, \<open>ascii/mbascii.c\<close>, on the port of \<open>MbRtu\<close>, whose state
  is the field \<open>aport\<close>: the two framings share the serial port, the timer, the queue
  and the buffer \<open>ucRTUBuf\<close>.  The file is compiled in with \<open>MB_SLAVE_ASCII_ENABLED\<close>;
  its variables that have the names of those of \<open>mbrtu.c\<close> are named with \<open>a_\<close>, and the
  states with \<open>A_\<close>.  A failed assertion is \<open>None\<close>, as is an access outside the buffer.
\<close>

unbundle bit_operations_syntax

section \<open>State\<close>

datatype eMBRcvState_a = A_RX_IDLE | A_RX_RCV | A_RX_WAIT_EOF

datatype eMBSndState_a = A_TX_IDLE | A_TX_START | A_TX_DATA | A_TX_END | A_TX_NOTIFY

datatype eMBBytePos = BYTE_HIGH_NIBBLE | BYTE_LOW_NIBBLE

record ascii_slave =
  aport :: rtu_slave
  a_SndState :: eMBSndState_a
  a_RcvState :: eMBRcvState_a
  a_RcvBufferPos :: u16
  eBytePos :: eMBBytePos
  a_SndBufferCur :: nat
  a_SndBufferCount :: u16
  ucMBLFCharacter :: u8

abbreviation (input) MB_ASCII_DEFAULT_CR :: u8 where "MB_ASCII_DEFAULT_CR \<equiv> 0x0D"
abbreviation (input) MB_ASCII_DEFAULT_LF :: u8 where "MB_ASCII_DEFAULT_LF \<equiv> 0x0A"
abbreviation (input) colon :: u8 where "colon \<equiv> 0x3A"

abbreviation ascii_buf :: "ascii_slave \<Rightarrow> bytes" where
  "ascii_buf s \<equiv> ucRTUBuf (aport s)"

definition on_port :: "(rtu_slave \<Rightarrow> rtu_slave) \<Rightarrow> ascii_slave \<Rightarrow> ascii_slave" where
  "on_port f s = s \<lparr> aport := f (aport s) \<rparr>"

definition store :: "nat \<Rightarrow> u8 \<Rightarrow> ascii_slave \<Rightarrow> ascii_slave option" where
  "store i b s = map_option (\<lambda>buf. on_port (ucRTUBuf_update (\<lambda>_. buf)) s) (cset (ascii_buf s) i b)"

section \<open>Characters and checksum\<close>

definition prvucMBCHAR2BIN :: "u8 \<Rightarrow> u8" where
  "prvucMBCHAR2BIN c =
    (if 0x30 \<le> c \<and> c \<le> 0x39 then c - 0x30
     else if 0x41 \<le> c \<and> c \<le> 0x46 then c - 0x41 + 0x0A
     else 0xFF)"

definition prvucMBBIN2CHAR :: "u8 \<Rightarrow> u8 option" where
  "prvucMBBIN2CHAR b =
    (if b \<le> 0x09 then Some (0x30 + b)
     else if 0x0A \<le> b \<and> b \<le> 0x0F then Some (b - 0x0A + 0x41)
     else None)"

primrec lrc_loop :: "nat \<Rightarrow> bytes \<Rightarrow> u8 \<Rightarrow> u8 option" where
  "lrc_loop 0 p c = Some c"
| "lrc_loop (Suc n) p c = (case p of [] \<Rightarrow> None | b # p \<Rightarrow> lrc_loop n p (c + b))"

definition prvucMBLRC :: "bytes \<Rightarrow> u16 \<Rightarrow> u8 option" where
  "prvucMBLRC pucFrame usLen = map_option uminus (lrc_loop (unat usLen) pucFrame 0)"

section \<open>Initialisation, start and stop\<close>

definition eMBASCIIInit ::
    "u8 \<Rightarrow> u8 \<Rightarrow> u32 \<Rightarrow> eMBParity \<Rightarrow> ascii_slave \<Rightarrow> eMBErrorCode \<times> ascii_slave" where
  "eMBASCIIInit ucSlaveAddress ucPort ulBaudRate eParity s =
    (let s = s \<lparr> ucMBLFCharacter := MB_ASCII_DEFAULT_LF \<rparr>;
         (ok, p) = xMBPortSerialInit ucPort ulBaudRate 7 eParity (aport s);
         s = s \<lparr> aport := p \<rparr>
     in if \<not> ok then (MB_EPORTERR, s)
        else let (ok, p) = xMBPortTimersInit (1 * 20000) (aport s);
                 s = s \<lparr> aport := p \<rparr>
             in (if ok then MB_ENOERR else MB_EPORTERR, s))"

definition eMBASCIIStart :: "ascii_slave \<Rightarrow> ascii_slave" where
  "eMBASCIIStart s =
    (let s = (on_port (vMBPortSerialEnable True False) s) \<lparr> a_RcvState := A_RX_IDLE \<rparr>
     in on_port (\<lambda>p. snd (s_event_post EV_READY p)) s)"

definition eMBASCIIStop :: "ascii_slave \<Rightarrow> ascii_slave" where
  "eMBASCIIStop s = on_port vMBPortTimersDisable (on_port (vMBPortSerialEnable False False) s)"

section \<open>Receive and send\<close>

definition eMBASCIIReceive ::
    "u8 \<times> nat option \<times> u16 \<Rightarrow> ascii_slave \<Rightarrow> (eMBErrorCode \<times> u8 \<times> nat option \<times> u16) option" where
  "eMBASCIIReceive out s =
    (if \<not> a_RcvBufferPos s < 256 then None
     else do {
       ok \<leftarrow> (if 3 \<le> a_RcvBufferPos s
              then map_option (\<lambda>c. c = 0) (prvucMBLRC (ascii_buf s) (a_RcvBufferPos s)) else Some False);
       if ok then do {
         a \<leftarrow> cget (ascii_buf s) 0;
         Some (MB_ENOERR, a, Some 1, a_RcvBufferPos s - 1 - 1)
       } else Some (MB_EIO, out)
     })"

definition eMBASCIISend ::
    "u8 \<Rightarrow> nat \<Rightarrow> u16 \<Rightarrow> ascii_slave \<Rightarrow> (eMBErrorCode \<times> ascii_slave) option" where
  "eMBASCIISend ucSlaveAddress pucFrame usLength s =
    (if a_RcvState s = A_RX_IDLE then do {
       cur \<leftarrow> (if pucFrame = 0 then None else Some (pucFrame - 1));
       s \<leftarrow> store cur ucSlaveAddress s;
       let n = 1 + usLength;
       usLRC \<leftarrow> prvucMBLRC (drop cur (ascii_buf s)) n;
       s \<leftarrow> store (unat n) usLRC s;
       let n = n + 1;
       Some (MB_ENOERR, on_port (vMBPortSerialEnable False True)
         (s \<lparr> a_SndBufferCur := cur, a_SndBufferCount := n, a_SndState := A_TX_START \<rparr>))
     } else Some (MB_EIO, s))"

section \<open>The state machines\<close>

definition xMBASCIIReceiveFSM :: "u8 \<Rightarrow> ascii_slave \<Rightarrow> (bool \<times> ascii_slave) option" where
  "xMBASCIIReceiveFSM ucByte s =
    (if a_SndState s \<noteq> A_TX_IDLE then None else
     case a_RcvState s of
       A_RX_RCV \<Rightarrow>
         (let s = on_port vMBPortTimersEnable s in
          if ucByte = colon then Some (False, s \<lparr> eBytePos := BYTE_HIGH_NIBBLE, a_RcvBufferPos := 0 \<rparr>)
          else if ucByte = MB_ASCII_DEFAULT_CR then Some (False, s \<lparr> a_RcvState := A_RX_WAIT_EOF \<rparr>)
          else let ucResult = prvucMBCHAR2BIN ucByte in
            case eBytePos s of
              BYTE_HIGH_NIBBLE \<Rightarrow>
                if a_RcvBufferPos s < 256 then do {
                  s \<leftarrow> store (unat (a_RcvBufferPos s)) (push_bit 4 ucResult) s;
                  Some (False, s \<lparr> eBytePos := BYTE_LOW_NIBBLE \<rparr>)
                } else Some (False, on_port vMBPortTimersDisable (s \<lparr> a_RcvState := A_RX_IDLE \<rparr>))
            | BYTE_LOW_NIBBLE \<Rightarrow> do {
                let i = unat (a_RcvBufferPos s);
                b \<leftarrow> cget (ascii_buf s) i;
                s \<leftarrow> store i (b OR ucResult) s;
                Some (False, s \<lparr> a_RcvBufferPos := a_RcvBufferPos s + 1, eBytePos := BYTE_HIGH_NIBBLE \<rparr>)
              })
     | A_RX_WAIT_EOF \<Rightarrow>
         if ucByte = ucMBLFCharacter s then
           (let s = on_port vMBPortTimersDisable s;
                s = s \<lparr> a_RcvState := A_RX_IDLE \<rparr>;
                (xNeedPoll, p) = s_event_post EV_FRAME_RECEIVED (aport s)
            in Some (xNeedPoll, s \<lparr> aport := p \<rparr>))
         else if ucByte = colon then
           Some (False, on_port vMBPortTimersEnable
             (s \<lparr> eBytePos := BYTE_HIGH_NIBBLE, a_RcvBufferPos := 0, a_RcvState := A_RX_RCV \<rparr>))
         else Some (False, s \<lparr> a_RcvState := A_RX_IDLE \<rparr>)
     | A_RX_IDLE \<Rightarrow>
         if ucByte = colon then
           Some (False, (on_port vMBPortTimersEnable s)
             \<lparr> a_RcvBufferPos := 0, eBytePos := BYTE_HIGH_NIBBLE, a_RcvState := A_RX_RCV \<rparr>)
         else Some (False, s))"

definition a_put :: "u8 \<Rightarrow> ascii_slave \<Rightarrow> ascii_slave" where
  "a_put b = on_port (\<lambda>p. snd (xMBPortSerialPutByte b p))"

definition xMBASCIITransmitFSM :: "ascii_slave \<Rightarrow> (bool \<times> ascii_slave) option" where
  "xMBASCIITransmitFSM s =
    (if a_RcvState s \<noteq> A_RX_IDLE then None else
     case a_SndState s of
       A_TX_START \<Rightarrow>
         Some (False, (a_put colon s) \<lparr> a_SndState := A_TX_DATA, eBytePos := BYTE_HIGH_NIBBLE \<rparr>)
     | A_TX_DATA \<Rightarrow>
         if 0 < a_SndBufferCount s then
           (case eBytePos s of
              BYTE_HIGH_NIBBLE \<Rightarrow> do {
                b \<leftarrow> cget (ascii_buf s) (a_SndBufferCur s);
                c \<leftarrow> prvucMBBIN2CHAR (drop_bit 4 b);
                Some (False, (a_put c s) \<lparr> eBytePos := BYTE_LOW_NIBBLE \<rparr>)
              }
            | BYTE_LOW_NIBBLE \<Rightarrow> do {
                b \<leftarrow> cget (ascii_buf s) (a_SndBufferCur s);
                c \<leftarrow> prvucMBBIN2CHAR (b AND 0x0F);
                Some (False, (a_put c s) \<lparr> a_SndBufferCur := a_SndBufferCur s + 1,
                  eBytePos := BYTE_HIGH_NIBBLE, a_SndBufferCount := a_SndBufferCount s - 1 \<rparr>)
              })
         else Some (False, (a_put MB_ASCII_DEFAULT_CR s) \<lparr> a_SndState := A_TX_END \<rparr>)
     | A_TX_END \<Rightarrow> Some (False, (a_put (ucMBLFCharacter s) s) \<lparr> a_SndState := A_TX_NOTIFY \<rparr>)
     | A_TX_NOTIFY \<Rightarrow>
         (let s = s \<lparr> a_SndState := A_TX_IDLE \<rparr>;
              (xNeedPoll, p) = s_event_post EV_FRAME_SENT (aport s);
              s = on_port (vMBPortSerialEnable True False) (s \<lparr> aport := p \<rparr>)
          in Some (xNeedPoll, s \<lparr> a_SndState := A_TX_IDLE \<rparr>))
     | A_TX_IDLE \<Rightarrow> Some (False, on_port (vMBPortSerialEnable True False) s))"

definition xMBASCIITimerT1SExpired :: "ascii_slave \<Rightarrow> (bool \<times> ascii_slave) option" where
  "xMBASCIITimerT1SExpired s =
    (case a_RcvState s of
       A_RX_IDLE \<Rightarrow> None
     | _ \<Rightarrow> Some (False, on_port vMBPortTimersDisable (s \<lparr> a_RcvState := A_RX_IDLE \<rparr>)))"

text \<open>The interrupt handlers of the port, with the function pointers of this framing.\<close>

definition USART1_IRQHandler_a :: "u8 option \<Rightarrow> bool \<Rightarrow> ascii_slave \<Rightarrow> ascii_slave option" where
  "USART1_IRQHandler_a rxne txe s = do {
     s \<leftarrow> (case rxne of Some b \<Rightarrow> map_option snd (xMBASCIIReceiveFSM b s) | None \<Rightarrow> Some s);
     if txe then map_option snd (xMBASCIITransmitFSM s) else Some s
   }"

definition TIM3_IRQHandler_a :: "bool \<Rightarrow> ascii_slave \<Rightarrow> ascii_slave option" where
  "TIM3_IRQHandler_a update s = (if update then map_option snd (xMBASCIITimerT1SExpired s) else Some s)"



section \<open>The checksum\<close>

lemma lrc_loop_eq: "n \<le> length p \<Longrightarrow> lrc_loop n p c = Some (c + sum_list (take n p))"
  by (induction n arbitrary: p c) (auto simp: add.assoc split: list.splits)

lemma prvucMBLRC_eq: "unat n \<le> length p \<Longrightarrow> prvucMBLRC p n = Some (- sum_list (take (unat n) p))"
  by (simp add: prvucMBLRC_def lrc_loop_eq)

text \<open>A frame: the address, the PDU and the byte that makes the sum zero.\<close>

definition ascii_adu :: "u8 \<Rightarrow> bytes \<Rightarrow> bytes" where
  "ascii_adu a p = a # p @ [- sum_list (a # p)]"

lemma ascii_adu_simps [simp]: "length (ascii_adu a p) = length p + 2" "sum_list (ascii_adu a p) = 0"
  by (simp_all add: ascii_adu_def)

section \<open>Characters\<close>

definition hex2 :: "u8 \<Rightarrow> bytes" where
  "hex2 b = [the (prvucMBBIN2CHAR (drop_bit 4 b)), the (prvucMBBIN2CHAR (b AND 0x0F))]"

text \<open>What the receiver makes of two characters.\<close>

definition unhex :: "u8 \<Rightarrow> u8 \<Rightarrow> u8" where
  "unhex c d = push_bit 4 (prvucMBCHAR2BIN c) OR prvucMBCHAR2BIN d"

definition plain :: "u8 \<Rightarrow> bool" where
  "plain c \<longleftrightarrow> c \<noteq> colon \<and> c \<noteq> MB_ASCII_DEFAULT_CR"

lemma nibble_chars:
  "\<forall>n \<in> set [0..<16]. case prvucMBBIN2CHAR (of_nat n) of None \<Rightarrow> False
     | Some c \<Rightarrow> plain c \<and> prvucMBCHAR2BIN c = of_nat n"
  by (simp add: upt_rec numeral_eq_Suc[symmetric] prvucMBBIN2CHAR_def prvucMBCHAR2BIN_def plain_def)

lemma nibble_char:
  fixes b :: u8
  assumes "b < 16"
  shows "\<exists>c. prvucMBBIN2CHAR b = Some c \<and> plain c \<and> prvucMBCHAR2BIN c = b"
proof -
  have "unat b < 16" using assms by (simp add: word_less_nat_alt)
  then show ?thesis using nibble_chars[rule_format, of "unat b"] by (auto split: option.splits)
qed

lemma nibbles:
  fixes b :: u8
  shows "drop_bit 4 b < 16" "b AND 0x0F < 16" "push_bit 4 (drop_bit 4 b) OR (b AND 0x0F) = b"
proof -
  have "unat (drop_bit 4 b) = unat b div 16"
    by (simp only: unat_drop_bit_eq) (simp add: drop_bit_eq_div)
  then show "drop_bit 4 b < 16" unfolding word_less_nat_alt using unat_u8[of b] by (simp del: unat_u8)
  have m: "(0x0F :: u8) = mask 4" by (simp add: mask_eq_exp_minus_1)
  have "unat (b AND 0x0F) = unat b mod 16" 
    unfolding m by (simp only: take_bit_eq_mask[symmetric] unsigned_take_bit_eq) (simp add: take_bit_eq_mod)
  then show "b AND 0x0F < 16" unfolding word_less_nat_alt by simp
  show "push_bit 4 (drop_bit 4 b) OR (b AND 0x0F) = b"
    unfolding m by (rule bit_word_eqI) (auto simp: bit_simps)
qed

lemma hex2_chars:
  "\<exists>c d. prvucMBBIN2CHAR (drop_bit 4 b) = Some c \<and> prvucMBBIN2CHAR (b AND 0x0F) = Some d \<and>
     hex2 b = [c, d] \<and> plain c \<and> plain d \<and> unhex c d = b"
  using nibble_char[OF nibbles(1)[of b]] nibble_char[OF nibbles(2)[of b]] nibbles(3)[of b]
  by (auto simp: hex2_def unhex_def)

section \<open>Receiving\<close>

fun ascii_rx :: "bytes \<Rightarrow> ascii_slave \<Rightarrow> ascii_slave option" where
  "ascii_rx [] s = Some s"
| "ascii_rx (b # bs) s = do { s \<leftarrow> USART1_IRQHandler_a (Some b) False s; ascii_rx bs s }"

lemma ascii_rx_append: "ascii_rx (xs @ ys) s = Option.bind (ascii_rx xs s) (ascii_rx ys)"
proof (induction xs arbitrary: s)
  case (Cons x xs)
  then show ?case by (cases "USART1_IRQHandler_a (Some x) False s") simp_all
qed simp

definition a_received :: "bytes \<Rightarrow> nat \<Rightarrow> ascii_slave \<Rightarrow> ascii_slave" where
  "a_received buf n s =
     (on_port (\<lambda>p. vMBPortTimersEnable (p \<lparr> ucRTUBuf := buf \<rparr>)) s)
       \<lparr> a_RcvBufferPos := of_nat n, eBytePos := BYTE_HIGH_NIBBLE, a_RcvState := A_RX_RCV \<rparr>"

lemma a_received_pair:
  assumes "a_SndState s = A_TX_IDLE" "length buf = 256" "n < 256" "plain c" "plain d"
  shows "ascii_rx [c, d] (a_received buf n s) = Some (a_received (buf[n := unhex c d]) (n + 1) s)"
proof -
  have u: "unat (of_nat n :: u16) = n" using assms(3) by (simp add: unat_of_nat_u16)
  then have "(of_nat n :: u16) < 256" unfolding word_less_nat_alt using assms(3) by simp
  then show ?thesis
    using assms u by (simp add: USART1_IRQHandler_a_def xMBASCIIReceiveFSM_def a_received_def plain_def store_def
        on_port_def srtu_defs unhex_def add.commute)
qed

lemma a_received_pairs:
  assumes "a_SndState s = A_TX_IDLE" "length buf = 256" "n + length cs \<le> 256"
    "\<forall>(c, d) \<in> set cs. plain c \<and> plain d"
  shows "ascii_rx (concat (map (\<lambda>(c, d). [c, d]) cs)) (a_received buf n s) =
    Some (a_received (take n buf @ map (\<lambda>(c, d). unhex c d) cs @ drop (n + length cs) buf) (n + length cs) s)"
  using assms(2-4)
proof (induction cs arbitrary: buf n)
  case (Cons x cs)
  obtain c d where x: "x = (c, d)" by (cases x)
  have p: "plain c" "plain d" "n < 256" using Cons.prems by (auto simp: x)
  have "ascii_rx (concat (map (\<lambda>(c, d). [c, d]) cs)) (a_received (buf[n := unhex c d]) (n + 1) s) =
      Some (a_received (take (n + 1) (buf[n := unhex c d]) @ map (\<lambda>(c, d). unhex c d) cs @
        drop (n + 1 + length cs) (buf[n := unhex c d])) (n + 1 + length cs) s)"
    using Cons.prems by (intro Cons.IH) auto
  moreover have "take (n + 1) (buf[n := unhex c d]) = take n buf @ [unhex c d]"
    using Cons.prems by (simp add: take_update1)
  moreover have "concat (map (\<lambda>(c, d). [c, d]) (x # cs)) = [c, d] @ concat (map (\<lambda>(c, d). [c, d]) cs)"
    by (simp add: x)
  ultimately show ?case
    using a_received_pair[OF assms(1) Cons.prems(1) p(3,1,2)]
    by (simp only: ascii_rx_append bind.bind_lunit) (simp add: x drop_update_cancel)
qed simp

text \<open>A whole frame of characters, right or wrong, from the colon to the line feed.\<close>

definition a_complete :: "bytes \<Rightarrow> nat \<Rightarrow> ascii_slave \<Rightarrow> ascii_slave" where
  "a_complete buf n s =
     s \<lparr> aport := (vMBPortTimersDisable (aport s)) \<lparr> ucRTUBuf := buf,
           s_queue := \<lparr> eQueuedEvent = EV_FRAME_RECEIVED, xEventInQueue = True \<rparr> \<rparr>,
         a_RcvBufferPos := of_nat n, eBytePos := BYTE_HIGH_NIBBLE, a_RcvState := A_RX_IDLE \<rparr>"

definition frame_chars :: "(u8 \<times> u8) list \<Rightarrow> bytes" where
  "frame_chars cs = colon # concat (map (\<lambda>(c, d). [c, d]) cs) @ [MB_ASCII_DEFAULT_CR, MB_ASCII_DEFAULT_LF]"

definition ascii_ready :: "ascii_slave \<Rightarrow> bool" where
  "ascii_ready s \<longleftrightarrow> length (ascii_buf s) = 256 \<and> a_SndState s = A_TX_IDLE \<and> a_RcvState s = A_RX_IDLE \<and>
     ucMBLFCharacter s = MB_ASCII_DEFAULT_LF"

lemma ascii_rx_frame:
  assumes "ascii_ready s" "length cs \<le> 256" "\<forall>(c, d) \<in> set cs. plain c \<and> plain d"
  shows "ascii_rx (frame_chars cs) s =
    Some (a_complete (map (\<lambda>(c, d). unhex c d) cs @ drop (length cs) (ascii_buf s)) (length cs) s)"
proof -
  let ?cs = "concat (map (\<lambda>(c, d). [c, d]) cs)"
  have 0: "a_SndState s = A_TX_IDLE" "length (ascii_buf s) = 256" "0 + length cs \<le> 256"
    using assms by (simp_all add: ascii_ready_def)
  have "ascii_rx [colon] s = Some (a_received (ascii_buf s) 0 s)"
    using assms(1) by (simp add: USART1_IRQHandler_a_def xMBASCIIReceiveFSM_def a_received_def ascii_ready_def
        on_port_def srtu_defs)
  moreover note a_received_pairs[OF 0 assms(3)]
  moreover have "ascii_rx [MB_ASCII_DEFAULT_CR, MB_ASCII_DEFAULT_LF] (a_received buf n s) = Some (a_complete buf n s)"
    for buf n
    using assms(1) by (simp add: USART1_IRQHandler_a_def xMBASCIIReceiveFSM_def a_received_def ascii_ready_def
        on_port_def srtu_defs a_complete_def)
  moreover have "frame_chars cs = [colon] @ ?cs @ [MB_ASCII_DEFAULT_CR, MB_ASCII_DEFAULT_LF]"
    by (simp add: frame_chars_def)
  ultimately show ?thesis by (simp only: ascii_rx_append bind.bind_lunit) simp
qed

lemma eMBASCIIReceive_eq:
  assumes "length (ascii_buf s) = 256"
  shows "eMBASCIIReceive out s =
    (if unat (a_RcvBufferPos s) < 256
     then Some (if 3 \<le> unat (a_RcvBufferPos s) \<and> sum_list (take (unat (a_RcvBufferPos s)) (ascii_buf s)) = 0
                then (MB_ENOERR, ascii_buf s ! 0, Some 1, a_RcvBufferPos s - 2) else (MB_EIO, out))
     else None)"
proof -
  have "ascii_buf s \<noteq> []" using assms by auto
  moreover have "unat (a_RcvBufferPos s) < 256 \<Longrightarrow> prvucMBLRC (ascii_buf s) (a_RcvBufferPos s) =
      Some (- sum_list (take (unat (a_RcvBufferPos s)) (ascii_buf s)))"
    using assms by (simp add: prvucMBLRC_eq)
  ultimately show ?thesis by (auto simp: eMBASCIIReceive_def word_less_nat_alt word_le_nat_alt diff_diff_eq)
qed


section \<open>Sending\<close>

fun ascii_tx :: "nat \<Rightarrow> ascii_slave \<Rightarrow> ascii_slave option" where
  "ascii_tx 0 s = Some s"
| "ascii_tx (Suc n) s = do { s \<leftarrow> USART1_IRQHandler_a None True s; ascii_tx n s }"

lemma ascii_tx_add: "ascii_tx (m + n) s = Option.bind (ascii_tx m s) (ascii_tx n)"
proof (induction m arbitrary: s)
  case (Suc m)
  then show ?case by (cases "USART1_IRQHandler_a None True s") simp_all
qed simp

definition on_wire :: "bytes \<Rightarrow> ascii_slave \<Rightarrow> ascii_slave" where
  "on_wire bs = on_port (\<lambda>p. p \<lparr> s_wire := s_wire p @ bs \<rparr>)"

lemma on_wire_simps [simp]:
  "on_wire bs (on_wire as s) = on_wire (as @ bs) s" "a_put b s = on_wire [b] s"
  "ascii_buf (on_wire bs s) = ascii_buf s" "a_RcvState (on_wire bs s) = a_RcvState s"
  "a_SndState (on_wire bs s) = a_SndState s" "ucMBLFCharacter (on_wire bs s) = ucMBLFCharacter s"
  "s_wire (aport (on_wire bs s)) = s_wire (aport s) @ bs"
  by (simp_all add: on_wire_def on_port_def a_put_def xMBPortSerialPutByte_def)

lemma ascii_tx_byte:
  assumes "a_SndState s = A_TX_DATA" "a_RcvState s = A_RX_IDLE" "eBytePos s = BYTE_HIGH_NIBBLE"
    "a_SndBufferCount s \<noteq> 0" "a_SndBufferCur s < length (ascii_buf s)"
  shows "ascii_tx 2 s = Some ((on_wire (hex2 (ascii_buf s ! a_SndBufferCur s)) s)
    \<lparr> a_SndBufferCur := a_SndBufferCur s + 1, a_SndBufferCount := a_SndBufferCount s - 1 \<rparr>)"
proof -
  obtain c d where cd: "prvucMBBIN2CHAR (drop_bit 4 (ascii_buf s ! a_SndBufferCur s)) = Some c"
    "prvucMBBIN2CHAR (ascii_buf s ! a_SndBufferCur s AND 0x0F) = Some d" "hex2 (ascii_buf s ! a_SndBufferCur s) = [c, d]"
    using hex2_chars by blast
  let ?s = "(on_wire [c] s) \<lparr> eBytePos := BYTE_LOW_NIBBLE \<rparr>"
  have 0: "0 < a_SndBufferCount s" using assms(4) by (simp add: word_gt_0)
  have 1: "USART1_IRQHandler_a None True s = Some ?s"
    using assms cd(1) 0 by (simp add: USART1_IRQHandler_a_def xMBASCIITransmitFSM_def)
  have "a_SndBufferCount ?s = a_SndBufferCount s" "a_SndBufferCur ?s = a_SndBufferCur s"
    by (simp_all add: on_wire_def on_port_def)
  then have "USART1_IRQHandler_a None True ?s = Some ((on_wire [c, d] s) \<lparr> a_SndBufferCur := a_SndBufferCur s + 1,
      eBytePos := BYTE_HIGH_NIBBLE, a_SndBufferCount := a_SndBufferCount s - 1 \<rparr>)"
    using assms cd(2) 0 by (simp add: USART1_IRQHandler_a_def xMBASCIITransmitFSM_def on_wire_def on_port_def
        a_put_def xMBPortSerialPutByte_def)
  moreover have "(on_wire [c, d] s) \<lparr> a_SndBufferCur := i, eBytePos := BYTE_HIGH_NIBBLE, a_SndBufferCount := k \<rparr> =
      (on_wire [c, d] s) \<lparr> a_SndBufferCur := i, a_SndBufferCount := k \<rparr>" for i k
    using assms(3) by (cases s) (simp add: on_wire_def on_port_def)
  ultimately show ?thesis using 1 cd(3) by (simp add: numeral_2_eq_2)
qed

lemma ascii_tx_bytes:
  assumes "a_SndState s = A_TX_DATA" "a_RcvState s = A_RX_IDLE" "eBytePos s = BYTE_HIGH_NIBBLE"
    "unat (a_SndBufferCount s) = n" "a_SndBufferCur s + n \<le> length (ascii_buf s)"
  shows "ascii_tx (2 * n) s = Some ((on_wire (concat (map hex2 (take n (drop (a_SndBufferCur s) (ascii_buf s))))) s)
    \<lparr> a_SndBufferCur := a_SndBufferCur s + n, a_SndBufferCount := 0 \<rparr>)"
  using assms
proof (induction n arbitrary: s)
  case 0
  then have "a_SndBufferCount s = 0" by (simp add: unat_eq_zero)
  then have "(on_wire [] s) \<lparr> a_SndBufferCur := a_SndBufferCur s, a_SndBufferCount := 0 \<rparr> = s"
    by (cases s) (simp add: on_wire_def on_port_def)
  then show ?case by simp
next
  case (Suc n)
  have c: "a_SndBufferCount s \<noteq> 0" using Suc.prems(4) by auto
  let ?h = "hex2 (ascii_buf s ! a_SndBufferCur s)"
  let ?s = "(on_wire ?h s) \<lparr> a_SndBufferCur := a_SndBufferCur s + 1, a_SndBufferCount := a_SndBufferCount s - 1 \<rparr>"
  have 1: "ascii_tx 2 s = Some ?s" using Suc.prems c by (intro ascii_tx_byte) auto
  have "eBytePos ?s = BYTE_HIGH_NIBBLE" using Suc.prems by (simp add: on_wire_def on_port_def)
  then have "ascii_tx (2 * n) ?s = Some ((on_wire (concat (map hex2 (take n (drop (a_SndBufferCur ?s) (ascii_buf ?s))))) ?s)
    \<lparr> a_SndBufferCur := a_SndBufferCur ?s + n, a_SndBufferCount := 0 \<rparr>)"
    using Suc.prems count_pred[OF c] by (intro Suc.IH) auto
  moreover have "take (Suc n) (drop (a_SndBufferCur s) (ascii_buf s)) =
      ascii_buf s ! a_SndBufferCur s # take n (drop (a_SndBufferCur s + 1) (ascii_buf s))"
    using Suc.prems by (simp add: take_Suc_drop)
  moreover have "2 * Suc n = 2 + 2 * n" by simp
  ultimately show ?case
    using 1 by (simp only: ascii_tx_add bind.bind_lunit) (simp add: on_wire_def on_port_def)
qed

text \<open>The end of a transmission: CR, LF, and the interrupt that switches back to receiving.\<close>

definition ascii_sent :: "ascii_slave \<Rightarrow> ascii_slave" where
  "ascii_sent s = (on_port (\<lambda>p. vMBPortSerialEnable True False (snd (s_event_post EV_FRAME_SENT p))) s)
     \<lparr> a_SndState := A_TX_IDLE \<rparr>"

lemma ascii_tx_end:
  assumes "a_SndState s = A_TX_DATA" "a_RcvState s = A_RX_IDLE" "a_SndBufferCount s = 0"
    "ucMBLFCharacter s = MB_ASCII_DEFAULT_LF"
  shows "ascii_tx 3 s = Some (ascii_sent (on_wire [MB_ASCII_DEFAULT_CR, MB_ASCII_DEFAULT_LF] s))"
proof -
  have "USART1_IRQHandler_a None True s = Some ((on_wire [MB_ASCII_DEFAULT_CR] s) \<lparr> a_SndState := A_TX_END \<rparr>)"
    using assms by (simp add: USART1_IRQHandler_a_def xMBASCIITransmitFSM_def)
  moreover have "USART1_IRQHandler_a None True ((on_wire [MB_ASCII_DEFAULT_CR] s) \<lparr> a_SndState := A_TX_END \<rparr>) =
      Some ((on_wire [MB_ASCII_DEFAULT_CR, MB_ASCII_DEFAULT_LF] s) \<lparr> a_SndState := A_TX_NOTIFY \<rparr>)"
    using assms by (simp add: USART1_IRQHandler_a_def xMBASCIITransmitFSM_def on_wire_def on_port_def a_put_def
        xMBPortSerialPutByte_def)
  moreover have "USART1_IRQHandler_a None True (t \<lparr> a_SndState := A_TX_NOTIFY \<rparr>) = Some (ascii_sent t)"
    if "a_RcvState t = A_RX_IDLE" for t
    using that by (simp add: USART1_IRQHandler_a_def xMBASCIITransmitFSM_def ascii_sent_def on_port_def Let_def
        case_prod_beta)
  ultimately show ?thesis using assms(2) by (simp add: numeral_3_eq_3)
qed

lemma eMBASCIISend_eq:
  assumes "a_RcvState s = A_RX_IDLE" "length (ascii_buf s) = 256" "unat n \<le> 254"
  shows "eMBASCIISend a 1 n s = Some (MB_ENOERR, on_port (vMBPortSerialEnable False True)
    ((on_port (\<lambda>p. p \<lparr> ucRTUBuf := ascii_adu a (take (unat n) (drop 1 (ascii_buf s))) @ drop (unat n + 2) (ascii_buf s) \<rparr>) s)
      \<lparr> a_SndBufferCur := 0, a_SndBufferCount := n + 2, a_SndState := A_TX_START \<rparr>))"
proof -
  let ?B = "ascii_buf s" and ?m = "unat n"
  define p where "p = take ?m (drop 1 ?B)"
  have pl: "length p = ?m" using assms(2,3) by (simp add: p_def)
  have u: "unat (1 + n) = ?m + 1" using assms(3) by (simp add: unat_word_ariths)
  have ne: "?B \<noteq> []" using assms(2) by auto
  have B: "?B[0 := a] = a # p @ drop (?m + 1) ?B"
    using ne by (cases ?B) (simp_all add: p_def)
  have lrc: "prvucMBLRC (a # p @ drop (?m + 1) ?B) (1 + n) = Some (- sum_list (a # p))"
    using assms(2,3) pl by (subst prvucMBLRC_eq) (simp_all add: u)
  have 1: "cset (a # p @ drop (?m + 1) ?B) (?m + 1) x = Some (a # p @ x # drop (?m + 2) ?B)" for x
    using assms(2,3) pl by (simp add: list_update_append Cons_nth_drop_Suc[symmetric])
  have "store 0 a s = Some (on_port (\<lambda>q. q \<lparr> ucRTUBuf := a # p @ drop (?m + 1) ?B \<rparr>) s)"
    using ne by (simp add: store_def B on_port_def)
  moreover have "store (?m + 1) x (on_port (\<lambda>q. q \<lparr> ucRTUBuf := a # p @ drop (?m + 1) ?B \<rparr>) s) =
      Some (on_port (\<lambda>q. q \<lparr> ucRTUBuf := a # p @ x # drop (?m + 2) ?B \<rparr>) s)" for x
    using 1[of x] by (simp add: store_def on_port_def)
  moreover have "ascii_buf (on_port (\<lambda>q. q \<lparr> ucRTUBuf := buf \<rparr>) s) = buf" for buf by (simp add: on_port_def)
  moreover have "1 + n + 1 = n + 2" by simp
  ultimately show ?thesis
    using assms(1) lrc by (simp add: eMBASCIISend_def Let_def u ascii_adu_def p_def[symmetric, simplified]) (simp add: add.commute)
qed


section \<open>ASCII as a framing\<close>

definition ascii_transmit :: "u8 \<Rightarrow> bytes \<Rightarrow> ascii_slave \<Rightarrow> (bytes \<times> ascii_slave) option" where
  "ascii_transmit a p s = do {
     let s = on_port (\<lambda>q. q \<lparr> ucRTUBuf := put_pdu p (ucRTUBuf q) \<rparr>) s;
     (e, s') \<leftarrow> eMBASCIISend a 1 (of_nat (length p)) s;
     s' \<leftarrow> ascii_tx (2 * length p + 8) s';
     Some (drop (length (s_wire (aport s))) (s_wire (aport s')), s')
   }"

definition ascii_deliver :: "bytes \<Rightarrow> ascii_slave \<Rightarrow> ((u8 \<times> bytes) option \<times> ascii_slave) option" where
  "ascii_deliver w t = do {
     t \<leftarrow> ascii_rx w t;
     let (ev, q) = xMBPortEventGet (s_queue (aport t));
     let t = on_port (\<lambda>p. p \<lparr> s_queue := q \<rparr>) t;
     (e, a, p, n) \<leftarrow> eMBASCIIReceive (0, None, 0) t;
     if ev = Some EV_FRAME_RECEIVED \<and> e = MB_ENOERR then do {
       p \<leftarrow> p;
       f \<leftarrow> cread (ascii_buf t) p (unat n);
       Some (Some (a, f), t)
     } else Some (None, t)
   }"

definition hex_pair :: "u8 \<Rightarrow> u8 \<times> u8" where
  "hex_pair b = (hex2 b ! 0, hex2 b ! 1)"

lemma hex_pair_decode: "(\<lambda>(c, d). unhex c d) (hex_pair b) = b" "(\<lambda>(c, d). plain c \<and> plain d) (hex_pair b)"
  "(\<lambda>(c, d). [c, d]) (hex_pair b) = hex2 b"
  using hex2_chars[of b] by (auto simp: hex_pair_def)

lemma ascii_transmits:
  assumes "ascii_ready s" "length p \<le> 253"
  shows "\<exists>s'. ascii_transmit a p s = Some (frame_chars (map hex_pair (ascii_adu a p)), s') \<and> ascii_ready s'"
proof -
  define s0 where "s0 = on_port (\<lambda>q. q \<lparr> ucRTUBuf := put_pdu p (ucRTUBuf q) \<rparr>) s"
  let ?n = "of_nat (length p) :: u16" and ?f = "ascii_adu a p"
  define s1 where "s1 = on_port (vMBPortSerialEnable False True)
    ((on_port (\<lambda>q. q \<lparr> ucRTUBuf := ?f @ drop (length p + 2) (ascii_buf s0) \<rparr>) s0)
      \<lparr> a_SndBufferCur := 0, a_SndBufferCount := ?n + 2, a_SndState := A_TX_START \<rparr>)"
  define s2 where "s2 = (on_wire [colon] s1) \<lparr> a_SndState := A_TX_DATA, eBytePos := BYTE_HIGH_NIBBLE \<rparr>"
  have len: "length (ascii_buf s) = 256" using assms(1) by (simp add: ascii_ready_def)
  then have ne: "ascii_buf s \<noteq> []" by auto
  have u: "unat ?n = length p" using assms(2) by (intro unat_of_nat_u16) simp
  have n2: "unat (?n + 2) = length p + 2" using u assms(2) by (simp add: unat_word_ariths)
  have s0: "a_RcvState s0 = A_RX_IDLE" "length (ascii_buf s0) = 256" "ascii_buf s0 = put_pdu p (ascii_buf s)"
    "s_wire (aport s0) = s_wire (aport s)"
    using assms len by (simp_all add: s0_def ascii_ready_def on_port_def put_pdu_length)
  have "unat ?n \<le> 254" using u assms(2) by simp
  from eMBASCIISend_eq[OF s0(1,2) this, of a]
  have send: "eMBASCIISend a 1 ?n s0 = Some (MB_ENOERR, s1)"
    unfolding u s1_def s0(3) put_pdu_read[OF ne] by simp
  have b: "ascii_buf s1 = ?f @ drop (length p + 2) (ascii_buf s0)" "length (ascii_buf s1) = 256"
    using s0(2) assms(2) by (simp_all add: s1_def on_port_def srtu_defs)
  have st: "a_SndState s2 = A_TX_DATA" "a_RcvState s2 = A_RX_IDLE" "eBytePos s2 = BYTE_HIGH_NIBBLE"
    "unat (a_SndBufferCount s2) = length p + 2" "a_SndBufferCur s2 = 0" "ascii_buf s2 = ascii_buf s1"
    "ucMBLFCharacter s2 = MB_ASCII_DEFAULT_LF" "s_wire (aport s2) = s_wire (aport s) @ [colon]"
    using s0(1,4) n2 assms(1)
    by (simp_all add: s2_def s1_def s0_def on_wire_def on_port_def srtu_defs ascii_ready_def)
  have "a_SndBufferCur s2 + (length p + 2) \<le> length (ascii_buf s2)" using st(5,6) b(2) assms(2) by simp
  from ascii_tx_bytes[OF st(1-4) this]
  have data: "ascii_tx (2 * (length p + 2)) s2 = Some ((on_wire (concat (map hex2 ?f)) s2)
      \<lparr> a_SndBufferCur := length p + 2, a_SndBufferCount := 0 \<rparr>)" (is "_ = Some ?s3")
    unfolding st(5,6) b(1) by simp
  have "ascii_tx 1 s1 = Some s2"
    using s0(1) by (simp add: USART1_IRQHandler_a_def xMBASCIITransmitFSM_def s2_def s1_def on_port_def)
  moreover have "ascii_tx 3 ?s3 = Some (ascii_sent (on_wire [MB_ASCII_DEFAULT_CR, MB_ASCII_DEFAULT_LF] ?s3))"
    using st(1,2,7) by (intro ascii_tx_end) (simp_all add: on_wire_def on_port_def)
  moreover have "2 * length p + 8 = 1 + (2 * (length p + 2) + 3)" by simp
  ultimately have tx: "ascii_tx (2 * length p + 8) s1 =
      Some (ascii_sent (on_wire [MB_ASCII_DEFAULT_CR, MB_ASCII_DEFAULT_LF] ?s3))"
    using data by (simp only: ascii_tx_add bind.bind_lunit)
  let ?s4 = "ascii_sent (on_wire [MB_ASCII_DEFAULT_CR, MB_ASCII_DEFAULT_LF] ?s3)"
  have fin: "a_SndState ?s4 = A_TX_IDLE" "a_RcvState ?s4 = A_RX_IDLE" "ascii_buf ?s4 = ascii_buf s2"
    "ucMBLFCharacter ?s4 = MB_ASCII_DEFAULT_LF"
    "s_wire (aport ?s4) = s_wire (aport s2) @ concat (map hex2 ?f) @ [MB_ASCII_DEFAULT_CR, MB_ASCII_DEFAULT_LF]"
    using st(2,7) by (simp_all add: ascii_sent_def on_wire_def on_port_def srtu_defs)
  have "ascii_ready ?s4" using fin st(6) b(2) by (simp add: ascii_ready_def)
  moreover have "s_wire (aport ?s4) = s_wire (aport s) @ frame_chars (map hex_pair ?f)"
    unfolding fin(5) st(8) frame_chars_def by (simp add: comp_def hex_pair_decode(3))
  ultimately show ?thesis
    using send tx s0(4) by (simp add: ascii_transmit_def Let_def s0_def[symmetric] del: ascii_tx.simps)
qed


lemma a_complete_simps [simp]:
  "ascii_buf (a_complete buf n s) = buf" "a_RcvBufferPos (a_complete buf n s) = of_nat n"
  "s_queue (aport (a_complete buf n s)) = \<lparr> eQueuedEvent = EV_FRAME_RECEIVED, xEventInQueue = True \<rparr>"
  "a_SndState (a_complete buf n s) = a_SndState s" "a_RcvState (a_complete buf n s) = A_RX_IDLE"
  "ucMBLFCharacter (a_complete buf n s) = ucMBLFCharacter s"
  by (simp_all add: a_complete_def)

lemma receive_complete:
  assumes "length xs \<le> 256" "length buf = 256"
  shows "eMBASCIIReceive out (a_complete (xs @ drop (length xs) buf) (length xs) s) =
    (if length xs = 256 then None
     else if 3 \<le> length xs \<and> sum_list xs = 0 then Some (MB_ENOERR, xs ! 0, Some 1, of_nat (length xs) - 2)
     else Some (MB_EIO, out))"
proof -
  let ?s = "a_complete (xs @ drop (length xs) buf) (length xs) s"
  have "length (ascii_buf ?s) = 256" using assms by simp
  moreover have "unat (of_nat (length xs) :: u16) = length xs" using assms(1) by (intro unat_of_nat_u16) simp
  moreover have "3 \<le> length xs \<Longrightarrow> (xs @ drop (length xs) buf) ! 0 = xs ! 0" by (cases xs) simp_all
  ultimately show ?thesis using assms(1) by (simp add: eMBASCIIReceive_eq)
qed

lemma eMBASCIIReceive_queue: "eMBASCIIReceive out (on_port (\<lambda>p. p \<lparr> s_queue := q \<rparr>) t) = eMBASCIIReceive out t"
  by (cases "prvucMBLRC (ascii_buf t) (a_RcvBufferPos t)") (simp_all add: eMBASCIIReceive_def on_port_def)

lemma ascii_delivers:
  assumes "ascii_ready t" "1 \<le> length p" "length p \<le> 253"
  shows "\<exists>t'. ascii_deliver (frame_chars (map hex_pair (ascii_adu a p))) t = Some (Some (a, p), t') \<and> ascii_ready t'"
proof -
  let ?f = "ascii_adu a p" and ?cs = "map hex_pair (ascii_adu a p)"
  let ?t = "a_complete (?f @ drop (length ?f) (ascii_buf t)) (length ?f) t"
  define q where "q = \<lparr> eQueuedEvent = EV_FRAME_RECEIVED, xEventInQueue = False \<rparr>"
  let ?u = "on_port (\<lambda>p. p \<lparr> s_queue := q \<rparr>) ?t"
  have len: "length (ascii_buf t) = 256" using assms(1) by (simp add: ascii_ready_def)
  have d: "map (\<lambda>(c, d). unhex c d) ?cs = ?f" by (simp add: comp_def hex_pair_decode(1))
  have "\<forall>(c, d) \<in> set ?cs. plain c \<and> plain d" using hex_pair_decode(2) by auto
  from ascii_rx_frame[OF assms(1) _ this] have rx: "ascii_rx (frame_chars ?cs) t = Some ?t"
    using assms(3) unfolding d by simp
  have "eMBASCIIReceive (0, None, 0) ?t = Some (MB_ENOERR, a, Some 1, of_nat (length p))"
    using receive_complete[of ?f "ascii_buf t" "(0, None, 0)" t] len assms(2,3) by (simp add: ascii_adu_def)
  then have rcv: "eMBASCIIReceive (0, None, 0) ?u = Some (MB_ENOERR, a, Some 1, of_nat (length p))"
    by (simp only: eMBASCIIReceive_queue)
  have ev: "xMBPortEventGet (s_queue (aport ?t)) = (Some EV_FRAME_RECEIVED, q)"
    by (simp add: xMBPortEventGet_def q_def)
  have u: "unat (of_nat (length p) :: u16) = length p" using assms(3) by (intro unat_of_nat_u16) simp
  have "cread (?f @ drop (length ?f) (ascii_buf t)) 1 (length p) = Some p"
    using len assms(3) by (simp add: cread_def ascii_adu_def)
  then have "ascii_deliver (frame_chars ?cs) t = Some (Some (a, p), ?u)"
    using rx rcv ev by (simp add: ascii_deliver_def Let_def u) (simp add: on_port_def)
  moreover have "ascii_ready ?u"
    using assms(1,3) len by (simp add: ascii_ready_def on_port_def a_complete_def)
  ultimately show ?thesis by blast
qed

interpretation ascii_frame: frame_layer ascii_ready ascii_transmit ascii_deliver
proof unfold_locales
  fix s a and p :: bytes assume "ascii_ready s" "1 \<le> length p" "length p \<le> 253"
  then show "\<exists>w s'. ascii_transmit a p s = Some (w, s') \<and> ascii_ready s'" using ascii_transmits by blast
next
  fix s t a w s' and p :: bytes
  assume "ascii_ready s" "ascii_ready t" "1 \<le> length p" "length p \<le> 253" "ascii_transmit a p s = Some (w, s')"
  then show "\<exists>t'. ascii_deliver w t = Some (Some (a, p), t') \<and> ascii_ready t'"
    using ascii_transmits[of s p a] ascii_delivers[of t p a] by auto
qed

section \<open>Properties\<close>

text \<open>
  C26: Whatever PDUs of 1 to 253 bytes two stations with the ASCII framing send each
  other, in any order, each arrives with its address and its bytes, and both stations
  are ready for the next.
\<close>

theorem ascii_conversation:
  assumes "ascii_ready s" "ascii_ready t" "\<forall>(b, a, p) \<in> set ms. 1 \<le> length p \<and> length p \<le> 253"
  shows "\<exists>s' t'. talk ascii_transmit ascii_deliver ms s t = Some (map (\<lambda>(b, m). Some m) ms, s', t') \<and>
    ascii_ready s' \<and> ascii_ready t'"
  using assms by (rule ascii_frame.talk_delivers)

text \<open>
  A frame of up to 256 pairs of characters between the colon and the line end,
  hexadecimal or not, is stored as the bytes the pairs stand for (FF for a character
  that is no digit); it is accepted exactly when it has 3 to 255 bytes whose sum is
  zero, and with 256 bytes the assertion of eMBASCIIReceive fails.
\<close>

theorem ascii_receives_iff:
  assumes "ascii_ready t" "length cs \<le> 256" "\<forall>(c, d) \<in> set cs. plain c \<and> plain d"
  shows "\<exists>t'. ascii_rx (frame_chars cs) t = Some t' \<and>
    s_queue (aport t') = \<lparr> eQueuedEvent = EV_FRAME_RECEIVED, xEventInQueue = True \<rparr> \<and>
    take (length cs) (ascii_buf t') = map (\<lambda>(c, d). unhex c d) cs \<and>
    eMBASCIIReceive out t' =
      (if length cs = 256 then None
       else if 3 \<le> length cs \<and> sum_list (map (\<lambda>(c, d). unhex c d) cs) = 0
       then Some (MB_ENOERR, (case cs ! 0 of (c, d) \<Rightarrow> unhex c d), Some 1, of_nat (length cs) - 2)
       else Some (MB_EIO, out))"
proof -
  let ?xs = "map (\<lambda>(c, d). unhex c d) cs"
  have "length (ascii_buf t) = 256" "length ?xs \<le> 256" using assms(1,2) by (simp_all add: ascii_ready_def)
  then have rcv: "eMBASCIIReceive out (a_complete (?xs @ drop (length cs) (ascii_buf t)) (length cs) t) =
    (if length cs = 256 then None
     else if 3 \<le> length cs \<and> sum_list ?xs = 0 then Some (MB_ENOERR, ?xs ! 0, Some 1, of_nat (length cs) - 2)
     else Some (MB_EIO, out))"
    using receive_complete[of ?xs "ascii_buf t" out t] by simp
  have hd: "3 \<le> length cs \<Longrightarrow> ?xs ! 0 = (case cs ! 0 of (c, d) \<Rightarrow> unhex c d)"
    by (subst nth_map) auto
  have take: "take (length cs) (ascii_buf (a_complete (?xs @ drop (length cs) (ascii_buf t)) (length cs) t)) = ?xs"
    by simp
  show ?thesis
    by (rule exI, rule conjI[OF ascii_rx_frame[OF assms]], rule conjI[OF a_complete_simps(3)],
        rule conjI[OF take], subst rcv) (use hd in auto)
qed


text \<open>
  A character that is no upper case hexadecimal digit has the value FF, and two of them are
  the byte FF: such a frame is not told from a right one.
\<close>

lemma no_hex_digit: "c \<in> {0x30..0x39} \<or> c \<in> {0x41..0x46} \<or> prvucMBCHAR2BIN c = 0xFF"
  by (auto simp: prvucMBCHAR2BIN_def)

text \<open>
  The receiver and the transmitter do not run together: the interrupts of the one are off
  while the other is at work.  \<open>eBytePos\<close> belongs to both.
\<close>

definition ascii_inv :: "ascii_slave \<Rightarrow> bool" where
  "ascii_inv s \<longleftrightarrow> length (ascii_buf s) = 256 \<and> unat (a_RcvBufferPos s) \<le> 256 \<and>
     \<not> (s_rxne_ie (aport s) \<and> s_txe_ie (aport s)) \<and>
     (a_RcvState s = A_RX_RCV \<and> eBytePos s = BYTE_LOW_NIBBLE \<longrightarrow> unat (a_RcvBufferPos s) < 256) \<and>
     (s_rxne_ie (aport s) \<longrightarrow> a_SndState s = A_TX_IDLE) \<and>
     (s_txe_ie (aport s) \<longrightarrow> a_RcvState s = A_RX_IDLE) \<and>
     (a_SndState s \<in> {A_TX_START, A_TX_DATA} \<longrightarrow> a_SndBufferCur s + unat (a_SndBufferCount s) \<le> 256)"

lemmas a_rx_defs = USART1_IRQHandler_a_def xMBASCIIReceiveFSM_def on_port_def srtu_defs store_def Let_def

lemma ascii_receive_inv:
  assumes "ascii_inv s" "s_rxne_ie (aport s)"
  shows "\<exists>s'. USART1_IRQHandler_a (Some b) False s = Some s' \<and> ascii_inv s'"
proof -
  have 0: "length (ascii_buf s) = 256" "a_SndState s = A_TX_IDLE" "\<not> s_txe_ie (aport s)"
    "unat (a_RcvBufferPos s) \<le> 256"
    using assms by (auto simp: ascii_inv_def)
  have l: "unat (a_RcvBufferPos s) < 256" if "a_RcvState s = A_RX_RCV" "eBytePos s = BYTE_LOW_NIBBLE"
    using assms(1) that by (simp add: ascii_inv_def)
  have suc: "unat (a_RcvBufferPos s + 1) \<le> 256" if "unat (a_RcvBufferPos s) < 256"
    using that by (simp add: unat_word_ariths)
  consider "a_RcvState s = A_RX_RCV" "eBytePos s = BYTE_HIGH_NIBBLE" "a_RcvBufferPos s < 256"
    | "a_RcvState s = A_RX_RCV" "eBytePos s = BYTE_HIGH_NIBBLE" "\<not> a_RcvBufferPos s < 256"
    | "a_RcvState s = A_RX_RCV" "eBytePos s = BYTE_LOW_NIBBLE"
    | "a_RcvState s = A_RX_WAIT_EOF" | "a_RcvState s = A_RX_IDLE"
    by (cases "a_RcvState s"; cases "eBytePos s") auto
  then show ?thesis
  proof cases
    case 1
    then have "unat (a_RcvBufferPos s) < 256" by (simp add: word_less_nat_alt)
    then show ?thesis using 0 1 assms(2)
      by (cases "b = colon"; cases "b = MB_ASCII_DEFAULT_CR") (simp_all add: a_rx_defs ascii_inv_def)
  next
    case 2
    then show ?thesis using 0 assms(2)
      by (cases "b = colon"; cases "b = MB_ASCII_DEFAULT_CR") (simp_all add: a_rx_defs ascii_inv_def)
  next
    case 3
    then show ?thesis using 0 assms(2) l[OF 3] suc[OF l[OF 3]]
      by (cases "b = colon"; cases "b = MB_ASCII_DEFAULT_CR") (simp_all add: a_rx_defs ascii_inv_def)
  next
    case 4
    then show ?thesis using 0 assms(2)
      by (cases "b = ucMBLFCharacter s"; cases "b = colon") (simp_all add: a_rx_defs ascii_inv_def)
  next
    case 5
    then show ?thesis using 0 assms(2)
      by (cases "b = colon") (simp_all add: a_rx_defs ascii_inv_def)
  qed
qed

lemma ascii_transmit_inv:
  assumes "ascii_inv s" "s_txe_ie (aport s)"
  shows "\<exists>s'. USART1_IRQHandler_a None True s = Some s' \<and> ascii_inv s'"
proof -
  have 0: "length (ascii_buf s) = 256" "a_RcvState s = A_RX_IDLE" "\<not> s_rxne_ie (aport s)"
    using assms by (auto simp: ascii_inv_def)
  show ?thesis
  proof (cases "a_SndState s = A_TX_DATA \<and> a_SndBufferCount s \<noteq> 0")
    case True
    let ?b = "ascii_buf s ! a_SndBufferCur s"
    have c: "unat (a_SndBufferCount s - 1) = unat (a_SndBufferCount s) - 1" "unat (a_SndBufferCount s) \<noteq> 0"
      using True count_pred[of "a_SndBufferCount s"] by (auto simp: unat_eq_zero)
    have i: "a_SndBufferCur s + unat (a_SndBufferCount s) \<le> 256" using assms True by (simp add: ascii_inv_def)
    obtain x y where x: "prvucMBBIN2CHAR (drop_bit 4 ?b) = Some x" "prvucMBBIN2CHAR (?b AND 0x0F) = Some y"
      using hex2_chars by blast
    show ?thesis
      using assms True 0 c i x
      by (cases "eBytePos s") (auto simp: USART1_IRQHandler_a_def xMBASCIITransmitFSM_def ascii_inv_def on_port_def
          a_put_def xMBPortSerialPutByte_def word_gt_0)
  next
    case False
    then show ?thesis
      using assms 0 by (cases "a_SndState s") (auto simp: USART1_IRQHandler_a_def xMBASCIITransmitFSM_def ascii_inv_def
          on_port_def a_put_def srtu_defs Let_def)
  qed
qed

lemma ascii_timer_inv:
  assumes "ascii_inv s" "TIM3_IRQHandler_a True s = Some s'"
  shows "ascii_inv s'"
proof -
  have "s' = on_port vMBPortTimersDisable (s \<lparr> a_RcvState := A_RX_IDLE \<rparr>)"
    using assms(2) by (cases "a_RcvState s") (simp_all add: TIM3_IRQHandler_a_def xMBASCIITimerT1SExpired_def)
  then show ?thesis using assms(1) by (simp add: ascii_inv_def on_port_def vMBPortTimersDisable_def)
qed

lemma ascii_timer_fails: "TIM3_IRQHandler_a True s = None \<longleftrightarrow> a_RcvState s = A_RX_IDLE"
  by (cases "a_RcvState s") (simp_all add: TIM3_IRQHandler_a_def xMBASCIITimerT1SExpired_def)

lemma ascii_start_inv: "ascii_inv s \<Longrightarrow> a_SndState s = A_TX_IDLE \<Longrightarrow> ascii_inv (eMBASCIIStart s)"
  by (simp add: eMBASCIIStart_def ascii_inv_def on_port_def srtu_defs Let_def)

lemma ascii_stop_inv: "ascii_inv s \<Longrightarrow> ascii_inv (eMBASCIIStop s)"
  by (simp add: eMBASCIIStop_def ascii_inv_def on_port_def srtu_defs)

text \<open>The interrupts that the port has enabled, in any order; the timer as long as its assertion holds.\<close>

inductive ascii_irqs :: "ascii_slave \<Rightarrow> ascii_slave \<Rightarrow> bool" where
  here: "ascii_irqs s s"
| rx: "ascii_irqs s t \<Longrightarrow> s_rxne_ie (aport t) \<Longrightarrow> USART1_IRQHandler_a (Some b) False t = Some u \<Longrightarrow> ascii_irqs s u"
| tx: "ascii_irqs s t \<Longrightarrow> s_txe_ie (aport t) \<Longrightarrow> USART1_IRQHandler_a None True t = Some u \<Longrightarrow> ascii_irqs s u"
| timer: "ascii_irqs s t \<Longrightarrow> s_tim_ie (aport t) \<Longrightarrow> TIM3_IRQHandler_a True t = Some u \<Longrightarrow> ascii_irqs s u"

lemma ascii_irqs_inv: "ascii_irqs s t \<Longrightarrow> ascii_inv s \<Longrightarrow> ascii_inv t"
proof (induction rule: ascii_irqs.induct)
  case (rx s t b u)
  then show ?case using ascii_receive_inv[of t b] by auto
next
  case (tx s t u)
  then show ?case using ascii_transmit_inv[of t] by auto
next
  case (timer s t u)
  then show ?case using ascii_timer_inv by blast
qed

text \<open>
  From a well formed state of the ASCII framing, the serial interrupts that the
  port has enabled return in every order of interrupts; the timer interrupt fails its
  assertion exactly when the receiver is idle.
\<close>

theorem ascii_irqs_safe:
  assumes "ascii_inv s" "ascii_irqs s t"
  shows "(s_rxne_ie (aport t) \<longrightarrow> (\<exists>u. USART1_IRQHandler_a (Some b) False t = Some u)) \<and>
    (s_txe_ie (aport t) \<longrightarrow> (\<exists>u. USART1_IRQHandler_a None True t = Some u)) \<and>
    (TIM3_IRQHandler_a True t = None \<longleftrightarrow> a_RcvState t = A_RX_IDLE)"
proof (intro conjI impI)
  have inv: "ascii_inv t" using ascii_irqs_inv[OF assms(2,1)] .
  show "\<exists>u. USART1_IRQHandler_a (Some b) False t = Some u" if "s_rxne_ie (aport t)"
    using ascii_receive_inv[OF inv that] by blast
  show "\<exists>u. USART1_IRQHandler_a None True t = Some u" if "s_txe_ie (aport t)"
    using ascii_transmit_inv[OF inv that] by blast
qed (rule ascii_timer_fails)

text \<open>
  After a CR an unexpected character ends the frame but not its timer, whose interrupt then
  finds the receiver idle and fails its assertion.
\<close>

theorem ascii_bad_end_fails_assertion:
  assumes "ascii_ready s" "x \<noteq> MB_ASCII_DEFAULT_LF" "x \<noteq> colon"
  shows "\<exists>t. ascii_rx [colon, MB_ASCII_DEFAULT_CR, x] s = Some t \<and> s_tim_ie (aport t) \<and> s_tim_on (aport t) \<and>
    TIM3_IRQHandler_a True t = None"
proof -
  have s: "a_SndState s = A_TX_IDLE" "a_RcvState s = A_RX_IDLE" "ucMBLFCharacter s = MB_ASCII_DEFAULT_LF"
    using assms(1) by (simp_all add: ascii_ready_def)
  let ?r = "a_received (ascii_buf s) 0 s"
  let ?w = "?r \<lparr> a_RcvState := A_RX_WAIT_EOF \<rparr>"
  have "USART1_IRQHandler_a (Some colon) False s = Some ?r"
    using s by (simp add: a_rx_defs a_received_def)
  moreover have "USART1_IRQHandler_a (Some MB_ASCII_DEFAULT_CR) False ?r = Some ?w"
    using s by (simp add: a_rx_defs a_received_def)
  moreover have "USART1_IRQHandler_a (Some x) False ?w = Some (?r \<lparr> a_RcvState := A_RX_IDLE \<rparr>)"
    using s assms(2,3) by (simp add: a_rx_defs a_received_def)
  ultimately have "ascii_rx [colon, MB_ASCII_DEFAULT_CR, x] s = Some (?r \<lparr> a_RcvState := A_RX_IDLE \<rparr>)" by simp
  then show ?thesis by (simp add: ascii_timer_fails) (simp add: a_received_def on_port_def srtu_defs)
qed

section \<open>Witnesses\<close>

definition idle_ascii :: ascii_slave where
  "idle_ascii = \<lparr> aport = idle_slave_rtu, a_SndState = A_TX_IDLE, a_RcvState = A_RX_IDLE, a_RcvBufferPos = 0,
     eBytePos = BYTE_HIGH_NIBBLE, a_SndBufferCur = 0, a_SndBufferCount = 0, ucMBLFCharacter = MB_ASCII_DEFAULT_LF \<rparr>"

lemma idle_ascii_ready: "ascii_ready idle_ascii" "ascii_inv idle_ascii"
  by (simp_all add: ascii_ready_def ascii_inv_def idle_ascii_def idle_slave_rtu_def)

theorem ascii_conversation_witness:
  "\<exists>s' t'. talk ascii_transmit ascii_deliver [(True, 7, [3, 0, 0, 0, 1]), (False, 7, [3, 2, 0, 42])] idle_ascii idle_ascii =
     Some ([Some (7, [3, 0, 0, 0, 1]), Some (7, [3, 2, 0, 42])], s', t')"
  using ascii_conversation[OF idle_ascii_ready(1) idle_ascii_ready(1),
      of "[(True, 7, [3, 0, 0, 0, 1]), (False, 7, [3, 2, 0, 42])]"] by fastforce

text \<open>The frame of the bytes 01, 00 and FF, with the last one sent as two letters z.\<close>

theorem ascii_receives_iff_witness:
  "\<exists>t'. ascii_rx (frame_chars [(0x30, 0x31), (0x30, 0x30), (0x7A, 0x7A)]) idle_ascii = Some t' \<and>
    eMBASCIIReceive (0, None, 0) t' = Some (MB_ENOERR, 1, Some 1, 1)"
proof -
  let ?cs = "[(0x30, 0x31), (0x30, 0x30), (0x7A, 0x7A)] :: (u8 \<times> u8) list"
  have v: "unhex 0x30 0x31 = 1" "unhex 0x30 0x30 = 0" "unhex 0x7A 0x7A = 0xFF"
    by (simp_all add: unhex_def prvucMBCHAR2BIN_def)
  have "\<forall>(c, d) \<in> set ?cs. plain c \<and> plain d" by (simp add: plain_def)
  with ascii_receives_iff[OF idle_ascii_ready(1), of ?cs "(0, None, 0)"]
  show ?thesis by (auto simp: v)
qed

theorem ascii_irqs_safe_witness:
  "s_rxne_ie (aport idle_ascii) \<and> (\<exists>u. USART1_IRQHandler_a (Some 0x3A) False idle_ascii = Some u)"
  using ascii_irqs_safe[OF idle_ascii_ready(2) ascii_irqs.here, of "0x3A"]
  by (simp add: idle_ascii_def idle_slave_rtu_def)

theorem ascii_bad_end_fails_assertion_witness:
  "\<exists>t. ascii_rx [0x3A, 0x0D, 0x41] idle_ascii = Some t \<and> TIM3_IRQHandler_a True t = None"
  using ascii_bad_end_fails_assertion[OF idle_ascii_ready(1), of "0x41"] by auto

end
