(* ===== verification/MbUtils.thy ===== *)
theory MbUtils
  imports MbTypes
begin

text \<open>
  The bit-field helpers of \<open>mbutils.c\<close> over a byte buffer, and the mapping of
  an error code of a register callback to the exception that is put on the wire.
  Both helpers always load the byte of the first bit and the byte after it;
  \<open>None\<close> is a load or store outside the buffer, or a shift by 31 or more.
\<close>

unbundle bit_operations_syntax

section \<open>The code\<close>

definition xMBUtilSetBits :: "bytes \<Rightarrow> u16 \<Rightarrow> u8 \<Rightarrow> u8 \<Rightarrow> bytes option" where
  "xMBUtilSetBits ucByteBuf usBitOffset ucNBits ucValue =
    (if 31 \<le> unat ucNBits then None else
     let usByteOffset = unat usBitOffset div 8;
         usNPreBits = unat usBitOffset - usByteOffset * 8;
         usValue = push_bit usNPreBits (ucast ucValue :: u16);
         usMask = push_bit usNPreBits (ucast (push_bit (unat ucNBits) (1 :: u32) - 1) :: u16)
     in do {
       b0 \<leftarrow> cget ucByteBuf usByteOffset;
       b1 \<leftarrow> cget ucByteBuf (usByteOffset + 1);
       let usWordBuf = ucast b0 OR push_bit 8 (ucast b1);
       let usWordBuf = (usWordBuf AND NOT usMask) OR usValue;
       buf \<leftarrow> cset ucByteBuf usByteOffset (ucast (usWordBuf AND 0xFF));
       cset buf (usByteOffset + 1) (ucast (drop_bit 8 usWordBuf))
     })"

definition xMBUtilGetBits :: "bytes \<Rightarrow> u16 \<Rightarrow> u8 \<Rightarrow> u8 option" where
  "xMBUtilGetBits ucByteBuf usBitOffset ucNBits =
    (if 31 \<le> unat ucNBits then None else
     let usByteOffset = unat usBitOffset div 8;
         usNPreBits = unat usBitOffset - usByteOffset * 8;
         usMask = (ucast (push_bit (unat ucNBits) (1 :: u32) - 1) :: u16)
     in do {
       b0 \<leftarrow> cget ucByteBuf usByteOffset;
       b1 \<leftarrow> cget ucByteBuf (usByteOffset + 1);
       let usWordBuf = ucast b0 OR push_bit 8 (ucast b1);
       let usWordBuf = drop_bit usNPreBits usWordBuf;
       Some (ucast (usWordBuf AND usMask))
     })"

fun prveMBError2Exception :: "eMBErrorCode \<Rightarrow> eMBException" where
  "prveMBError2Exception MB_ENOERR = MB_EX_NONE"
| "prveMBError2Exception MB_ENOREG = MB_EX_ILLEGAL_DATA_ADDRESS"
| "prveMBError2Exception MB_ETIMEDOUT = MB_EX_SLAVE_BUSY"
| "prveMBError2Exception _ = MB_EX_SLAVE_DEVICE_FAILURE"

lemma prveMBError2Exception_none [simp]:
  "prveMBError2Exception e = MB_EX_NONE \<longleftrightarrow> e = MB_ENOERR"
  by (cases e) simp_all

section \<open>The bits of a buffer\<close>

text \<open>Bit \<open>i\<close> of a buffer, least significant bit of byte 0 first.\<close>

definition bbit :: "bytes \<Rightarrow> nat \<Rightarrow> bool" where
  "bbit buf i = bit (buf ! (i div 8)) (i mod 8)"

lemma bit_nmask: "bit (ucast (push_bit n (1 :: u32) - 1) :: u16) k \<longleftrightarrow> k < n \<and> k < 16"
  if "n < 32"
proof -
  have "push_bit n (1 :: u32) - 1 = mask n"
    by (simp add: mask_eq_exp_minus_1 push_bit_eq_mult)
  then show ?thesis using that by (simp only:) (auto simp: bit_simps)
qed

lemma bit_pair:
  "bit (ucast (b0 :: u8) OR push_bit 8 (ucast (b1 :: u8)) :: u16) k \<longleftrightarrow>
     (if k < 8 then bit b0 k else bit b1 (k - 8))"
  by (auto simp: bit_simps dest: bit_imp_le_length)

lemma bbit_pair:
  assumes "k < 16"
  shows "bbit buf (8 * q + k) \<longleftrightarrow>
    (if k < 8 then bit (buf ! q) k else bit (buf ! Suc q) (k - 8))"
proof (cases "k < 8")
  case False
  then obtain j where j: "k = 8 + j" "j < 8" using assms by (metis add_diff_inverse_nat
      less_diff_conv2 linorder_not_less numeral_Bit0)
  then have "(8 * q + k) div 8 = Suc q" "(8 * q + k) mod 8 = j" by simp_all
  then show ?thesis using j by (simp add: bbit_def)
qed (simp add: bbit_def)

lemma off_split: "off = 8 * (off div 8) + (off - off div 8 * 8)" for off :: nat
  by presburger

lemma pre_lt: "off - off div 8 * 8 < (8 :: nat)"
  by presburger

lemma bit_window:
  "k < 16 \<Longrightarrow> bit (ucast (buf ! q) OR push_bit 8 (ucast (buf ! Suc q)) :: u16) k
     \<longleftrightarrow> bbit buf (8 * q + k)"
  by (simp only: bit_pair bbit_pair)

lemma getbits_bit:
  assumes n: "unat n \<le> 8" and len: "unat off div 8 + 1 < length buf"
  shows "\<exists>r. xMBUtilGetBits buf off n = Some r \<and>
             (\<forall>k. bit r k \<longleftrightarrow> k < unat n \<and> bbit buf (unat off + k))"
proof -
  define q p where "q = unat off div 8" and "p = unat off - q * 8"
  define W :: u16 where "W = ucast (buf ! q) OR push_bit 8 (ucast (buf ! Suc q))"
  define M :: u16 where "M = ucast (push_bit (unat n) (1 :: u32) - 1)"
  have p: "p < 8" "unat off = 8 * q + p" unfolding p_def q_def by presburger+
  have M: "bit M k \<longleftrightarrow> k < unat n \<and> k < 16" for k
    unfolding M_def by (rule bit_nmask) (use n in simp)
  have get: "xMBUtilGetBits buf off n = Some (ucast (drop_bit p W AND M))"
    using n len by (simp add: xMBUtilGetBits_def Let_def q_def p_def W_def M_def)
  have "bit (ucast (drop_bit p W AND M) :: u8) k \<longleftrightarrow> k < unat n \<and> bbit buf (unat off + k)" for k
  proof (cases "k < unat n")
    case True
    then have "bit W (p + k) \<longleftrightarrow> bbit buf (unat off + k)"
      unfolding W_def using p n by (subst bit_window) (simp_all add: add.assoc)
    with True n show ?thesis
      by (simp add: M bit_and_iff bit_drop_bit_eq bit_unsigned_iff)
  next
    case False
    with n show ?thesis by (simp add: M bit_and_iff bit_unsigned_iff)
  qed
  with get show ?thesis by blast
qed

lemma bbit_put:
  assumes "q + 1 < length buf" "i < 8 * length buf"
  shows "bbit (buf[q := ucast (w AND 0xFF), Suc q := ucast (drop_bit 8 w)]) i \<longleftrightarrow>
     (if 8 * q \<le> i \<and> i < 8 * q + 16 then bit (w :: u16) (i - 8 * q) else bbit buf i)"
proof -
  have m: "i mod 8 < 8" "i mod 8 < 16" by (simp_all add: order_less_trans[of _ 8])
  consider "i div 8 = q" | "i div 8 = Suc q" | "i div 8 \<noteq> q" "i div 8 \<noteq> Suc q" by blast
  then show ?thesis
  proof cases
    case 1
    with m(1) mult_div_mod_eq[of 8 i]
    have k: "i - 8 * q = i mod 8" "8 * q \<le> i \<and> i < 8 * q + 16" by linarith+
    have "bbit (buf[q := ucast (w AND 0xFF), Suc q := ucast (drop_bit 8 w)]) i
        \<longleftrightarrow> bit (ucast (w AND 0xFF) :: u8) (i mod 8)"
      using 1 assms by (simp only: bbit_def) simp
    also have "\<dots> \<longleftrightarrow> bit w (i mod 8)"
      using m by (simp add: bit_unsigned_iff bit_and_iff)
    finally show ?thesis by (simp only: k if_True simp_thms)
  next
    case 2
    with m(1) mult_div_mod_eq[of 8 i]
    have k: "i - 8 * q = 8 + i mod 8" "8 * q \<le> i \<and> i < 8 * q + 16" by linarith+
    have "bbit (buf[q := ucast (w AND 0xFF), Suc q := ucast (drop_bit 8 w)]) i
        \<longleftrightarrow> bit (ucast (drop_bit 8 w) :: u8) (i mod 8)"
      using 2 assms by (simp only: bbit_def) simp
    also have "\<dots> \<longleftrightarrow> bit w (8 + i mod 8)"
      using m by (simp add: bit_unsigned_iff bit_drop_bit_eq)
    finally show ?thesis by (simp only: k if_True simp_thms)
  next
    case 3
    with m(1) mult_div_mod_eq[of 8 i] have "\<not> (8 * q \<le> i \<and> i < 8 * q + 16)" by linarith
    moreover have "bbit (buf[q := ucast (w AND 0xFF), Suc q := ucast (drop_bit 8 w)]) i = bbit buf i"
      using 3 by (simp add: bbit_def)
    ultimately show ?thesis by (simp only: if_False)
  qed
qed

lemma setbits_bit:
  assumes n: "unat n \<le> 8" and len: "unat off div 8 + 1 < length buf"
  shows "\<exists>buf'. xMBUtilSetBits buf off n v = Some buf' \<and> length buf' = length buf \<and>
     (\<forall>i < 8 * length buf. bbit buf' i \<longleftrightarrow>
        (if unat off \<le> i \<and> i < unat off + unat n then bit v (i - unat off)
         else bbit buf i \<or> unat off \<le> i \<and> bit v (i - unat off)))"
proof -
  define q p where "q = unat off div 8" and "p = unat off - q * 8"
  define W :: u16 where "W = ucast (buf ! q) OR push_bit 8 (ucast (buf ! Suc q))"
  define M0 :: u16 where "M0 = ucast (push_bit (unat n) (1 :: u32) - 1)"
  define M where "M = push_bit p M0"
  define V :: u16 where "V = push_bit p (ucast v)"
  define w where "w = (W AND NOT M) OR V"
  have p: "p < 8" "unat off = 8 * q + p" unfolding p_def q_def by presburger+
  have set: "xMBUtilSetBits buf off n v
      = Some (buf[q := ucast (w AND 0xFF), Suc q := ucast (drop_bit 8 w)])"
    using n len by (simp add: xMBUtilSetBits_def Let_def q_def p_def W_def M0_def M_def V_def w_def)
  have M0: "bit M0 k \<longleftrightarrow> k < unat n \<and> k < 16" for k
    unfolding M0_def by (rule bit_nmask) (use n in simp)
  have M: "bit M k \<longleftrightarrow> p \<le> k \<and> k < p + unat n" if "k < 16" for k
  proof -
    have "bit M k \<longleftrightarrow> p \<le> k \<and> bit M0 (k - p)"
      using that by (auto simp: M_def bit_push_bit_iff)
    then show ?thesis using that by (simp only: M0) arith
  qed
  have V: "bit V k \<longleftrightarrow> p \<le> k \<and> bit v (k - p)" if "k < 16" for k
    using that by (auto simp: V_def bit_push_bit_iff bit_unsigned_iff)
  have w: "bit w k \<longleftrightarrow>
      (if p \<le> k \<and> k < p + unat n then bit v (k - p)
       else bbit buf (8 * q + k) \<or> p \<le> k \<and> bit v (k - p))" if k: "k < 16" for k
    using M[OF k] V[OF k] bit_window[OF k, of buf q] k
    by (auto simp: w_def bit_or_iff bit_and_iff bit_not_iff W_def)
  have "bbit (buf[q := ucast (w AND 0xFF), Suc q := ucast (drop_bit 8 w)]) i \<longleftrightarrow>
      (if unat off \<le> i \<and> i < unat off + unat n then bit v (i - unat off)
       else bbit buf i \<or> unat off \<le> i \<and> bit v (i - unat off))"
    if i: "i < 8 * length buf" for i
  proof (cases "8 * q \<le> i \<and> i < 8 * q + 16")
    case True
    then obtain k where k: "i = 8 * q + k" "k < 16" by (metis le_add_diff_inverse nat_add_left_cancel_less)
    have "bbit (buf[q := ucast (w AND 0xFF), Suc q := ucast (drop_bit 8 w)]) i \<longleftrightarrow> bit w k"
      using len i k by (subst bbit_put) (simp_all add: q_def)
    then show ?thesis
      unfolding w[OF k(2)] unfolding k(1) p(2) by simp
  next
    case False
    with p n have "\<not> (unat off \<le> i \<and> i < unat off + unat n)" by auto
    moreover have "\<not> (unat off \<le> i \<and> bit v (i - unat off))"
      using False p bit_imp_le_length[of v "i - unat off"] by auto
    moreover have "bbit (buf[q := ucast (w AND 0xFF), Suc q := ucast (drop_bit 8 w)]) i = bbit buf i"
      using len i False by (subst bbit_put) (simp_all only: q_def if_False)
    ultimately show ?thesis by (simp only: if_False simp_thms)
  qed
  with set show ?thesis by simp
qed

end
