(* ===== verification/RegBank.thy ===== *)
theory RegBank
  imports Prelude
begin

text \<open>
  The contract of a register bank, as the function handlers rely on it: a write
  is read back, leaves other registers as they are, and does not change which
  ranges can be read.  \<open>UserApp\<close> interprets it for the holding registers and for
  the coils.
\<close>

primrec wr_all :: "('s \<Rightarrow> u16 \<Rightarrow> 'v list \<Rightarrow> 's option) \<Rightarrow> 's \<Rightarrow> (u16 \<times> 'v list) list \<Rightarrow> 's option" where
  "wr_all wr s [] = Some s"
| "wr_all wr s (w # ws) = do { s \<leftarrow> wr s (fst w) (snd w); wr_all wr s ws }"

definition apart :: "u16 \<times> 'v list \<Rightarrow> u16 \<times> 'v list \<Rightarrow> bool" where
  "apart v w \<longleftrightarrow> unat (fst v) + length (snd v) \<le> unat (fst w) \<or>
                unat (fst w) + length (snd w) \<le> unat (fst v)"

locale register_bank =
  fixes wr :: "'s \<Rightarrow> u16 \<Rightarrow> 'v list \<Rightarrow> 's option"
    and rd :: "'s \<Rightarrow> u16 \<Rightarrow> nat \<Rightarrow> 'v list option"
    and ok :: "'s \<Rightarrow> bool"
  assumes wr_ok: "ok s \<Longrightarrow> wr s a vs = Some s' \<Longrightarrow> ok s'"
    and wr_rd: "ok s \<Longrightarrow> wr s a vs = Some s' \<Longrightarrow> rd s' a (length vs) = Some us \<Longrightarrow> us = vs"
    and rd_dom: "ok s \<Longrightarrow> wr s a vs = Some s' \<Longrightarrow> rd s' b m = None \<longleftrightarrow> rd s b m = None"
    and wr_frame: "ok s \<Longrightarrow> wr s a vs = Some s' \<Longrightarrow>
      unat b + m \<le> unat a \<or> unat a + length vs \<le> unat b \<Longrightarrow> rd s' b m = rd s b m"
begin

lemma written:
  "ok s \<Longrightarrow> wr s a vs = Some s' \<Longrightarrow> rd s a (length vs) \<noteq> None \<Longrightarrow> rd s' a (length vs) = Some vs"
  using rd_dom[of s a vs s' a "length vs"] wr_rd[of s a vs s'] by auto

lemma overwritten:
  assumes "ok s" "wr s a vs = Some s1" "wr s1 a us = Some s2" "length us = length vs"
    "rd s a (length vs) \<noteq> None"
  shows "rd s2 a (length us) = Some us"
  using assms written[of s1 a us s2] wr_ok rd_dom[of s a vs s1 a "length vs"] by auto

lemma wr_all_ok: "ok s \<Longrightarrow> wr_all wr s ws = Some s' \<Longrightarrow> ok s'"
  by (induction ws arbitrary: s) (auto simp: bind_eq_Some_conv dest: wr_ok)

lemma wr_all_dom:
  "ok s \<Longrightarrow> wr_all wr s ws = Some s' \<Longrightarrow> rd s' b m = None \<longleftrightarrow> rd s b m = None"
proof (induction ws arbitrary: s)
  case (Cons w ws)
  then obtain s1 where s1: "wr s (fst w) (snd w) = Some s1" "wr_all wr s1 ws = Some s'"
    by (auto simp: bind_eq_Some_conv)
  then show ?case
    using Cons.IH[of s1] Cons.prems(1) wr_ok[OF _ s1(1)] rd_dom[OF _ s1(1), of b m] by simp
qed simp

lemma wr_all_frame:
  "ok s \<Longrightarrow> wr_all wr s ws = Some s' \<Longrightarrow> \<forall>w \<in> set ws. apart (b, vs) w \<Longrightarrow>
     rd s' b (length vs) = rd s b (length vs)"
proof (induction ws arbitrary: s)
  case (Cons w ws)
  then obtain s1 where s1: "wr s (fst w) (snd w) = Some s1" "wr_all wr s1 ws = Some s'"
    by (auto simp: bind_eq_Some_conv)
  then have "rd s1 b (length vs) = rd s b (length vs)"
    using Cons.prems wr_frame[OF _ s1(1), of b "length vs"] by (auto simp: apart_def)
  then show ?case using Cons s1 wr_ok[OF _ s1(1)] by auto
qed simp

text \<open>
  After any sequence of writes, whatever ranges they have, one of them reads back as long as no
  later one touched its range; the last one always does.
\<close>

lemma wr_all_append:
  "wr_all wr s (us @ ws) = Option.bind (wr_all wr s us) (\<lambda>s1. wr_all wr s1 ws)"
proof (induction us arbitrary: s)
  case (Cons u us)
  then show ?case by (cases "wr s (fst u) (snd u)") simp_all
qed simp

lemma reads_back:
  assumes "ok s" "wr_all wr s (us @ (a, vs) # ws) = Some s'" "\<forall>w \<in> set ws. apart (a, vs) w"
    "rd s a (length vs) \<noteq> None"
  shows "rd s' a (length vs) = Some vs"
proof -
  obtain s1 s2 where s1: "wr_all wr s us = Some s1" "wr s1 a vs = Some s2" "wr_all wr s2 ws = Some s'"
    using assms(2) by (auto simp: wr_all_append bind_eq_Some_conv)
  have ok1: "ok s1" by (rule wr_all_ok[OF assms(1) s1(1)])
  have "rd s1 a (length vs) \<noteq> None" using wr_all_dom[OF assms(1) s1(1)] assms(4) by simp
  then have "rd s2 a (length vs) = Some vs" by (rule written[OF ok1 s1(2)])
  then show ?thesis using wr_all_frame[OF wr_ok[OF ok1 s1(2)] s1(3) assms(3)] by simp
qed

end

end
