(* ===== verification/UserApp.thy ===== *)
theory UserApp
  imports MbUtils RegBank
begin

text \<open>
  The register banks of \<open>user_mb_app.c\<close> and its four callbacks, through which
  the protocol stack reads and writes the application's registers.  A callback
  gets the address of its data inside the frame buffer, here the buffer and an
  offset into it, and returns the error code with the changed banks and buffer;
  \<open>None\<close> is an access outside an array.  The two fields \<open>cb_master\<close> and
  \<open>cb_dest\<close> are what \<open>xMBMasterGetCBRunInMasterMode\<close> and
  \<open>ucMBMasterGetDestAddress\<close> of \<open>mb_m.c\<close> return.
\<close>

unbundle bit_operations_syntax

section \<open>The banks\<close>

definition MB_MASTER_TOTAL_SLAVE_NUM :: nat where "MB_MASTER_TOTAL_SLAVE_NUM = 16"
definition DISCRETE_INPUT_START :: nat where "DISCRETE_INPUT_START = 1"
definition DISCRETE_INPUT_NDISCRETES :: nat where "DISCRETE_INPUT_NDISCRETES = 16"
definition COIL_START :: nat where "COIL_START = 1"
definition COIL_NCOILS :: nat where "COIL_NCOILS = 64"
definition REG_INPUT_START :: nat where "REG_INPUT_START = 1"
definition REG_INPUT_NREGS :: nat where "REG_INPUT_NREGS = 100"
definition REG_HOLDING_START :: nat where "REG_HOLDING_START = 1"
definition REG_HOLDING_NREGS :: nat where "REG_HOLDING_NREGS = 100"

lemmas bank_consts =
  MB_MASTER_TOTAL_SLAVE_NUM_def DISCRETE_INPUT_START_def DISCRETE_INPUT_NDISCRETES_def
  COIL_START_def COIL_NCOILS_def REG_INPUT_START_def REG_INPUT_NREGS_def
  REG_HOLDING_START_def REG_HOLDING_NREGS_def

record mb_regs =
  ucSDiscInBuf :: bytes
  ucSCoilBuf :: bytes
  usSRegInBuf :: "u16 list"
  usSRegHoldBuf :: "u16 list"
  ucMDiscInBuf :: "bytes list"
  ucMCoilBuf :: "bytes list"
  usMRegInBuf :: "u16 list list"
  usMRegHoldBuf :: "u16 list list"
  hold_k :: bool
  gpio_pd11 :: bool
  cb_master :: bool
  cb_dest :: u8

definition init_regs :: mb_regs where
  "init_regs = \<lparr>
     ucSDiscInBuf = replicate 2 0, ucSCoilBuf = replicate 8 0,
     usSRegInBuf = replicate 100 0, usSRegHoldBuf = replicate 100 0,
     ucMDiscInBuf = replicate 16 (replicate 2 0), ucMCoilBuf = replicate 16 (replicate 8 0),
     usMRegInBuf = replicate 16 (replicate 100 0), usMRegHoldBuf = replicate 16 (replicate 100 0),
     hold_k = False, gpio_pd11 = False, cb_master = False, cb_dest = 0 \<rparr>"

definition wf_regs :: "mb_regs \<Rightarrow> bool" where
  "wf_regs r \<longleftrightarrow>
     length (ucSDiscInBuf r) = 2 \<and> length (ucSCoilBuf r) = 8 \<and>
     length (usSRegInBuf r) = 100 \<and> length (usSRegHoldBuf r) = 100 \<and>
     length (ucMDiscInBuf r) = 16 \<and> list_all (\<lambda>b. length b = 2) (ucMDiscInBuf r) \<and>
     length (ucMCoilBuf r) = 16 \<and> list_all (\<lambda>b. length b = 8) (ucMCoilBuf r) \<and>
     length (usMRegInBuf r) = 16 \<and> list_all (\<lambda>b. length b = 100) (usMRegInBuf r) \<and>
     length (usMRegHoldBuf r) = 16 \<and> list_all (\<lambda>b. length b = 100) (usMRegHoldBuf r)"

text \<open>
  The bank a callback works on: row \<open>ucMBMasterGetDestAddress()\<close> of the master's
  array in master mode, else the slave's array; and the store back into it.
\<close>

definition pick_bank ::
    "(mb_regs \<Rightarrow> 'a list list) \<Rightarrow> (mb_regs \<Rightarrow> 'a list) \<Rightarrow> mb_regs \<Rightarrow> 'a list option" where
  "pick_bank M S r = (if cb_master r then cget (M r) (unat (cb_dest r)) else Some (S r))"

definition put_bank ::
    "(('a list list \<Rightarrow> 'a list list) \<Rightarrow> mb_regs \<Rightarrow> mb_regs) \<Rightarrow>
     (('a list \<Rightarrow> 'a list) \<Rightarrow> mb_regs \<Rightarrow> mb_regs) \<Rightarrow> 'a list \<Rightarrow> mb_regs \<Rightarrow> mb_regs" where
  "put_bank M S x r =
     (if cb_master r then M (\<lambda>rows. rows[unat (cb_dest r) := x]) r else S (\<lambda>_. x) r)"

section \<open>The loops over 16-bit registers\<close>

text \<open>
  From the bank to the buffer, high byte first, and from the buffer to the bank;
  \<open>i\<close> is \<open>iRegIndex\<close> and \<open>p\<close> the position of \<open>pucRegBuffer\<close>.
\<close>

fun regs_to_buf :: "nat \<Rightarrow> u16 list \<Rightarrow> nat \<Rightarrow> bytes \<Rightarrow> nat \<Rightarrow> bytes option" where
  "regs_to_buf 0 r i b p = Some b"
| "regs_to_buf (Suc n) r i b p = do {
     v \<leftarrow> cget r i;
     b \<leftarrow> cset b p (ucast (drop_bit 8 v));
     b \<leftarrow> cset b (p + 1) (ucast (v AND 0xFF));
     regs_to_buf n r (i + 1) b (p + 2)
   }"

fun buf_to_regs :: "nat \<Rightarrow> u16 list \<Rightarrow> nat \<Rightarrow> bytes \<Rightarrow> nat \<Rightarrow> u16 list option" where
  "buf_to_regs 0 r i b p = Some r"
| "buf_to_regs (Suc n) r i b p = do {
     h \<leftarrow> cget b p;
     r \<leftarrow> cset r i (push_bit 8 (ucast h));
     l \<leftarrow> cget b (p + 1);
     v \<leftarrow> cget r i;
     r \<leftarrow> cset r i (v OR ucast l);
     buf_to_regs n r (i + 1) b (p + 2)
   }"

section \<open>The register callbacks\<close>

definition eMBRegInputCB ::
    "mb_regs \<Rightarrow> bytes \<Rightarrow> nat \<Rightarrow> u16 \<Rightarrow> u16 \<Rightarrow> (eMBErrorCode \<times> mb_regs \<times> bytes) option" where
  "eMBRegInputCB r buf p usAddress usNRegs =
    (if REG_INPUT_START \<le> unat usAddress \<and>
        unat usAddress + unat usNRegs \<le> REG_INPUT_START + REG_INPUT_NREGS
     then do {
       bank \<leftarrow> pick_bank usMRegInBuf usSRegInBuf r;
       let iRegIndex = unat usAddress - REG_INPUT_START;
       if cb_master r then do {
         bank \<leftarrow> buf_to_regs (unat usNRegs) bank iRegIndex buf p;
         Some (MB_ENOERR, put_bank usMRegInBuf_update usSRegInBuf_update bank r, buf)
       } else do {
         buf \<leftarrow> regs_to_buf (unat usNRegs) bank iRegIndex buf p;
         Some (MB_ENOERR, r, buf)
       }
     }
     else Some (MB_ENOREG, r, buf))"

text \<open>
  The toggle of \<open>GPIO_Pin_11\<close> at the end of a write of holding registers: the
  static \<open>k\<close> and the level the pin is set to.
\<close>

definition toggle_led :: "mb_regs \<Rightarrow> mb_regs" where
  "toggle_led r = (if hold_k r then r \<lparr> hold_k := False, gpio_pd11 := True \<rparr>
                   else r \<lparr> hold_k := True, gpio_pd11 := False \<rparr>)"

definition eMBRegHoldingCB ::
    "mb_regs \<Rightarrow> bytes \<Rightarrow> nat \<Rightarrow> u16 \<Rightarrow> u16 \<Rightarrow> eMBRegisterMode \<Rightarrow>
     (eMBErrorCode \<times> mb_regs \<times> bytes) option" where
  "eMBRegHoldingCB r buf p usAddress usNRegs eMode =
    (let eMode = (if cb_master r then MB_REG_WRITE else eMode) in
     if REG_HOLDING_START \<le> unat usAddress \<and>
        unat usAddress + unat usNRegs \<le> REG_HOLDING_START + REG_HOLDING_NREGS
     then do {
       bank \<leftarrow> pick_bank usMRegHoldBuf usSRegHoldBuf r;
       let iRegIndex = unat usAddress - REG_HOLDING_START;
       (case eMode of
          MB_REG_READ \<Rightarrow> do {
            buf \<leftarrow> regs_to_buf (unat usNRegs) bank iRegIndex buf p;
            Some (MB_ENOERR, r, buf)
          }
        | MB_REG_WRITE \<Rightarrow> do {
            bank \<leftarrow> buf_to_regs (unat usNRegs) bank iRegIndex buf p;
            Some (MB_ENOERR,
                  toggle_led (put_bank usMRegHoldBuf_update usSRegHoldBuf_update bank r), buf)
          })
     }
     else Some (MB_ENOREG, r, buf))"

section \<open>The loops over bits\<close>

text \<open>
  \<open>&pucCoilBuf[iRegIndex]\<close> is the rest of the bank from byte \<open>iRegIndex\<close> on.  The
  read loop runs \<open>iNReg\<close> times, the write loop while \<open>iNReg > 1\<close>.
\<close>

fun bits_to_buf :: "nat \<Rightarrow> bytes \<Rightarrow> nat \<Rightarrow> u16 \<Rightarrow> bytes \<Rightarrow> nat \<Rightarrow> bytes option" where
  "bits_to_buf 0 c i k b p = Some b"
| "bits_to_buf (Suc n) c i k b p = do {
     x \<leftarrow> xMBUtilGetBits (drop i c) k 8;
     b \<leftarrow> cset b p x;
     bits_to_buf n c (i + 1) k b (p + 1)
   }"

fun buf_to_bits :: "nat \<Rightarrow> bytes \<Rightarrow> nat \<Rightarrow> u16 \<Rightarrow> bytes \<Rightarrow> nat \<Rightarrow> bytes option" where
  "buf_to_bits 0 c i k b p = Some c"
| "buf_to_bits (Suc n) c i k b p = do {
     x \<leftarrow> cget b p;
     t \<leftarrow> xMBUtilSetBits (drop i c) k 8 x;
     buf_to_bits n (take i c @ t) (i + 1) k b (p + 1)
   }"

text \<open>
  Reading: \<open>n div 8 + 1\<close> bytes are stored, then the last of them is shifted up and
  down by \<open>8 - n mod 8\<close> in a byte.  Writing: \<open>n div 8\<close> whole bytes, then the rest.
\<close>

definition read_bits :: "bytes \<Rightarrow> nat \<Rightarrow> nat \<Rightarrow> bytes \<Rightarrow> nat \<Rightarrow> bytes option" where
  "read_bits c off n b p = do {
     let iNReg = n div 8 + 1;
     b \<leftarrow> bits_to_buf iNReg c (off div 8) (of_nat (off mod 8)) b p;
     let p = p + iNReg - 1;
     let n = n mod 8;
     x \<leftarrow> cget b p;
     b \<leftarrow> cset b p (push_bit (8 - n) x);
     x \<leftarrow> cget b p;
     cset b p (drop_bit (8 - n) x)
   }"

definition write_bits :: "bytes \<Rightarrow> nat \<Rightarrow> nat \<Rightarrow> bytes \<Rightarrow> nat \<Rightarrow> bytes option" where
  "write_bits c off n b p = do {
     let iNReg = n div 8 + 1;
     let iRegIndex = off div 8;
     c \<leftarrow> buf_to_bits (iNReg - 1) c iRegIndex (of_nat (off mod 8)) b p;
     let iRegIndex = iRegIndex + (iNReg - 1);
     let p = p + (iNReg - 1);
     let n = n mod 8;
     if n \<noteq> 0 then do {
       x \<leftarrow> cget b p;
       t \<leftarrow> xMBUtilSetBits (drop iRegIndex c) (of_nat (off mod 8)) (of_nat n) x;
       Some (take iRegIndex c @ t)
     } else Some c
   }"

definition eMBRegCoilsCB ::
    "mb_regs \<Rightarrow> bytes \<Rightarrow> nat \<Rightarrow> u16 \<Rightarrow> u16 \<Rightarrow> eMBRegisterMode \<Rightarrow>
     (eMBErrorCode \<times> mb_regs \<times> bytes) option" where
  "eMBRegCoilsCB r buf p usAddress usNCoils eMode =
    (let eMode = (if cb_master r then MB_REG_WRITE else eMode) in
     if COIL_START \<le> unat usAddress \<and>
        unat usAddress + unat usNCoils \<le> COIL_START + COIL_NCOILS
     then do {
       bank \<leftarrow> pick_bank ucMCoilBuf ucSCoilBuf r;
       (case eMode of
          MB_REG_READ \<Rightarrow> do {
            buf \<leftarrow> read_bits bank (unat usAddress - COIL_START) (unat usNCoils) buf p;
            Some (MB_ENOERR, r, buf)
          }
        | MB_REG_WRITE \<Rightarrow> do {
            bank \<leftarrow> write_bits bank (unat usAddress - COIL_START) (unat usNCoils) buf p;
            Some (MB_ENOERR, put_bank ucMCoilBuf_update ucSCoilBuf_update bank r, buf)
          })
     }
     else Some (MB_ENOREG, r, buf))"

definition eMBRegDiscreteCB ::
    "mb_regs \<Rightarrow> bytes \<Rightarrow> nat \<Rightarrow> u16 \<Rightarrow> u16 \<Rightarrow> (eMBErrorCode \<times> mb_regs \<times> bytes) option" where
  "eMBRegDiscreteCB r buf p usAddress usNDiscrete =
    (if DISCRETE_INPUT_START \<le> unat usAddress \<and>
        unat usAddress + unat usNDiscrete \<le> DISCRETE_INPUT_START + DISCRETE_INPUT_NDISCRETES
     then do {
       bank \<leftarrow> pick_bank ucMDiscInBuf ucSDiscInBuf r;
       if cb_master r then do {
         bank \<leftarrow> write_bits bank (unat usAddress - DISCRETE_INPUT_START) (unat usNDiscrete) buf p;
         Some (MB_ENOERR, put_bank ucMDiscInBuf_update ucSDiscInBuf_update bank r, buf)
       } else do {
         buf \<leftarrow> read_bits bank (unat usAddress - DISCRETE_INPUT_START) (unat usNDiscrete) buf p;
         Some (MB_ENOERR, r, buf)
       }
     }
     else Some (MB_ENOREG, r, buf))"

section \<open>What the register loops do\<close>

definition reg_bytes :: "u16 list \<Rightarrow> bytes" where
  "reg_bytes vs = concat (map (\<lambda>v. [hi8 v, lo8 v]) vs)"

fun bytes_regs :: "bytes \<Rightarrow> u16 list" where
  "bytes_regs (h # l # bs) = mk16 h l # bytes_regs bs"
| "bytes_regs _ = []"

lemma reg_bytes_simps [simp]:
  "reg_bytes [] = []" "reg_bytes (v # vs) = hi8 v # lo8 v # reg_bytes vs"
  by (simp_all add: reg_bytes_def)

lemma length_reg_bytes [simp]: "length (reg_bytes vs) = 2 * length vs"
  by (induction vs) simp_all

lemma bytes_regs_reg_bytes [simp]: "bytes_regs (reg_bytes vs) = vs"
  by (induction vs) simp_all

lemma length_bytes_regs [simp]: "length (bytes_regs bs) = length bs div 2"
  by (induction bs rule: bytes_regs.induct) simp_all

lemma reg_bytes_bytes_regs: "even (length bs) \<Longrightarrow> reg_bytes (bytes_regs bs) = bs"
  by (induction bs rule: bytes_regs.induct) simp_all

lemma regs_to_buf_eq:
  "regs_to_buf n r i b p =
    (if n = 0 \<or> i + n \<le> length r \<and> p + 2 * n \<le> length b
     then Some (take p b @ reg_bytes (take n (drop i r)) @ drop (p + 2 * n) b) else None)"
proof (induction n arbitrary: b i p)
  case (Suc n)
  show ?case
  proof (cases "i + Suc n \<le> length r \<and> p + 2 * Suc n \<le> length b")
    case True
    then show ?thesis
      by (simp add: Suc.IH take_update2 take_Suc_drop hi8_def lo8_def)
  next
    case False
    then show ?thesis
      by (cases "i < length r"; cases "Suc p < length b"; cases "n = 0")
        (auto simp: Suc.IH cget_def cset_def)
  qed
qed simp

lemma buf_to_regs_eq:
  "buf_to_regs n r i b p =
    (if n = 0 \<or> i + n \<le> length r \<and> p + 2 * n \<le> length b
     then Some (take i r @ bytes_regs (take (2 * n) (drop p b)) @ drop (i + n) r) else None)"
proof (induction n arbitrary: r i p)
  case (Suc n)
  show ?case
  proof (cases "i + Suc n \<le> length r \<and> p + 2 * Suc n \<le> length b")
    case True
    then show ?thesis
      by (simp add: Suc.IH take_update1 take_Suc_drop mk16_def)
  next
    case False
    then show ?thesis
      by (cases "i < length r"; cases "Suc p < length b"; cases "n = 0")
        (auto simp: Suc.IH cget_def cset_def)
  qed
qed simp

section \<open>What the bit loops do\<close>

lemma bbit_drop: "i \<le> length c \<Longrightarrow> bbit (drop i c) m = bbit c (8 * i + m)"
  by (simp add: bbit_def)

lemma bbit_byte: "m < 8 \<Longrightarrow> bbit b (8 * q + m) \<longleftrightarrow> bit (b ! q) m"
  by (simp add: bbit_def)

lemma bbit_update:
  "j < 8 * length b \<Longrightarrow>
     bbit (b[p := x]) j \<longleftrightarrow> (if 8 * p \<le> j \<and> j < 8 * Suc p then bit x (j - 8 * p) else bbit b j)"
proof -
  assume j: "j < 8 * length b"
  have "j div 8 = p \<longleftrightarrow> 8 * p \<le> j \<and> j < 8 * Suc p" by auto
  moreover have "j mod 8 = j - 8 * (j div 8)" by (simp add: modulo_nat_def)
  ultimately show ?thesis
    using j by (cases "j div 8 = p") (auto simp: bbit_def)
qed

lemma bbit_append_take:
  assumes "i \<le> length c" "length t = length c - i"
  shows "bbit (take i c @ t) j \<longleftrightarrow> (if j < 8 * i then bbit c j else bbit t (j - 8 * i))"
proof (cases "j < 8 * i")
  case True
  then have "j div 8 < i" by (simp add: less_mult_imp_div_less mult.commute)
  with True assms show ?thesis by (simp add: bbit_def nth_append)
next
  case False
  then obtain m where m: "j = 8 * i + m" by (metis le_add_diff_inverse not_less)
  then show ?thesis using assms by (simp add: bbit_def nth_append)
qed

lemma xMBUtilGetBits_None:
  "length buf \<le> unat off div 8 + 1 \<Longrightarrow> xMBUtilGetBits buf off n = None"
  by (cases "unat off div 8 < length buf") (simp_all add: xMBUtilGetBits_def Let_def cget_def)

lemma xMBUtilSetBits_None:
  "length buf \<le> unat off div 8 + 1 \<Longrightarrow> xMBUtilSetBits buf off n v = None"
  by (cases "unat off div 8 < length buf") (simp_all add: xMBUtilSetBits_def Let_def cget_def)

lemma get_window:
  assumes "unat k < 8" "Suc i < length c"
  obtains x where "xMBUtilGetBits (drop i c) k 8 = Some x"
    "\<And>m. m < 8 \<Longrightarrow> bit x m \<longleftrightarrow> bbit c (8 * i + unat k + m)"
proof -
  have "unat k div 8 + 1 < length (drop i c)" using assms by simp
  then obtain x where "xMBUtilGetBits (drop i c) k 8 = Some x"
    "\<forall>m. bit x m \<longleftrightarrow> m < 8 \<and> bbit (drop i c) (unat k + m)"
    using getbits_bit[of 8 k "drop i c"] by auto
  with assms show ?thesis using that by (simp add: bbit_drop add.assoc)
qed

lemma get_window_None:
  "unat k < 8 \<Longrightarrow> length c \<le> Suc i \<Longrightarrow> xMBUtilGetBits (drop i c) k 8 = None"
  by (rule xMBUtilGetBits_None) auto

lemma set_window_None:
  "unat k < 8 \<Longrightarrow> length c \<le> Suc i \<Longrightarrow> xMBUtilSetBits (drop i c) k n v = None"
  by (rule xMBUtilSetBits_None) auto

lemma bits_to_buf_Some:
  assumes "unat k < 8" "n = 0 \<or> i + n < length c" "n = 0 \<or> p + n \<le> length b"
  shows "\<exists>b'. bits_to_buf n c i k b p = Some b' \<and> length b' = length b \<and>
    (\<forall>j < 8 * length b. bbit b' j \<longleftrightarrow>
       (if 8 * p \<le> j \<and> j < 8 * (p + n) then bbit c (8 * i + unat k + (j - 8 * p)) else bbit b j))"
  using assms
proof (induction n arbitrary: i b p)
  case (Suc n)
  obtain x where x: "xMBUtilGetBits (drop i c) k 8 = Some x"
    "\<And>m. m < 8 \<Longrightarrow> bit x m \<longleftrightarrow> bbit c (8 * i + unat k + m)"
    using get_window[of k i c] Suc.prems by auto
  let ?b = "b[p := x]"
  obtain b' where b': "bits_to_buf n c (i + 1) k ?b (p + 1) = Some b'" "length b' = length b"
    "\<forall>j < 8 * length b. bbit b' j \<longleftrightarrow>
      (if 8 * (p + 1) \<le> j \<and> j < 8 * (p + 1 + n) then bbit c (8 * (i + 1) + unat k + (j - 8 * (p + 1)))
       else bbit ?b j)"
    using Suc.IH[of "i + 1" "p + 1" ?b] Suc.prems by auto
  have "bits_to_buf (Suc n) c i k b p = Some b'"
    using x b' Suc.prems by simp
  moreover have "bbit b' j \<longleftrightarrow> (if 8 * p \<le> j \<and> j < 8 * (p + Suc n)
      then bbit c (8 * i + unat k + (j - 8 * p)) else bbit b j)" if j: "j < 8 * length b" for j
  proof (cases "8 * (p + 1) \<le> j \<and> j < 8 * (p + 1 + n)")
    case True
    then have "8 * (i + 1) + unat k + (j - 8 * (p + 1)) = 8 * i + unat k + (j - 8 * p)" by auto
    with True b'(3) j show ?thesis by auto
  next
    case False
    then have "bbit b' j \<longleftrightarrow> bbit ?b j" using b'(3) j by auto
    also have "\<dots> \<longleftrightarrow> (if 8 * p \<le> j \<and> j < 8 * Suc p then bit x (j - 8 * p) else bbit b j)"
      using j by (rule bbit_update)
    finally show ?thesis using False x(2)[of "j - 8 * p"] by auto
  qed
  ultimately show ?case using b'(2) by blast
qed auto

lemma bits_to_buf_None:
  assumes "unat k < 8" "0 < n" "length c \<le> i + n \<or> length b < p + n"
  shows "bits_to_buf n c i k b p = None"
  using assms
proof (induction n arbitrary: i b p)
  case (Suc n)
  show ?case
  proof (cases "Suc i < length c \<and> p < length b")
    case True
    then have "0 < n" using Suc.prems by auto
    then show ?thesis
      using Suc.IH[of "i + 1" "_" "p + 1"] Suc.prems
      by (cases "xMBUtilGetBits (drop i c) k 8") (auto simp: cset_def)
  next
    case False
    then show ?thesis
      using get_window_None[of k c i] Suc.prems
      by (cases "Suc i < length c"; cases "xMBUtilGetBits (drop i c) k 8")
        (auto simp: cset_def)
  qed
qed simp

lemma set_window:
  assumes "unat k < 8" "Suc i < length c" "unat n \<le> 8"
  obtains t where "xMBUtilSetBits (drop i c) k n v = Some t" "length t = length c - i"
    "\<And>j. j < 8 * length c \<Longrightarrow> bbit (take i c @ t) j \<longleftrightarrow>
      (if 8 * i + unat k \<le> j \<and> j < 8 * i + unat k + unat n then bit v (j - (8 * i + unat k))
       else bbit c j \<or> 8 * i + unat k \<le> j \<and> bit v (j - (8 * i + unat k)))"
proof -
  have "unat k div 8 + 1 < length (drop i c)" using assms by simp
  then obtain t where t: "xMBUtilSetBits (drop i c) k n v = Some t" "length t = length c - i"
    "\<forall>m < 8 * (length c - i). bbit t m \<longleftrightarrow>
        (if unat k \<le> m \<and> m < unat k + unat n then bit v (m - unat k)
         else bbit (drop i c) m \<or> unat k \<le> m \<and> bit v (m - unat k))"
    using setbits_bit[of n k "drop i c" v] assms by auto
  have "bbit (take i c @ t) j \<longleftrightarrow>
      (if 8 * i + unat k \<le> j \<and> j < 8 * i + unat k + unat n then bit v (j - (8 * i + unat k))
       else bbit c j \<or> 8 * i + unat k \<le> j \<and> bit v (j - (8 * i + unat k)))"
    if j: "j < 8 * length c" for j
  proof (cases "j < 8 * i")
    case True
    then show ?thesis using bbit_append_take[of i c t j] t(2) assms by auto
  next
    case False
    define m where "m = j - 8 * i"
    have m: "j = 8 * i + m" "m < 8 * (length c - i)"
      using False j by (simp_all add: m_def diff_mult_distrib2)
    have "bbit (take i c @ t) j \<longleftrightarrow> bbit t m"
      using bbit_append_take[of i c t j] t(2) assms m by simp
    then show ?thesis using t(3) m assms(2) by (simp add: bbit_drop add.assoc)
  qed
  with t show ?thesis using that by blast
qed

lemma buf_to_bits_Some:
  assumes "unat k < 8" "n = 0 \<or> i + n < length c" "n = 0 \<or> p + n \<le> length b"
  shows "\<exists>c'. buf_to_bits n c i k b p = Some c' \<and> length c' = length c \<and>
    (\<forall>j < 8 * length c. bbit c' j \<longleftrightarrow>
       (if 8 * i + unat k \<le> j \<and> j < 8 * (i + n) + unat k
        then bbit b (8 * p + (j - (8 * i + unat k))) else bbit c j))"
  using assms
proof (induction n arbitrary: i c p)
  case (Suc n)
  obtain t where t: "xMBUtilSetBits (drop i c) k 8 (b ! p) = Some t" "length t = length c - i"
    "\<And>j. j < 8 * length c \<Longrightarrow> bbit (take i c @ t) j \<longleftrightarrow>
      (if 8 * i + unat k \<le> j \<and> j < 8 * i + unat k + 8 then bit (b ! p) (j - (8 * i + unat k))
       else bbit c j \<or> 8 * i + unat k \<le> j \<and> bit (b ! p) (j - (8 * i + unat k)))"
    using set_window[of k i c 8 "b ! p"] Suc.prems by auto
  let ?c = "take i c @ t"
  have len: "length ?c = length c" using t(2) Suc.prems by simp
  obtain c' where c': "buf_to_bits n ?c (i + 1) k b (p + 1) = Some c'" "length c' = length c"
    "\<forall>j < 8 * length c. bbit c' j \<longleftrightarrow>
       (if 8 * (i + 1) + unat k \<le> j \<and> j < 8 * (i + 1 + n) + unat k
        then bbit b (8 * (p + 1) + (j - (8 * (i + 1) + unat k))) else bbit ?c j)"
    using Suc.IH[of "i + 1" ?c "p + 1"] Suc.prems len by auto
  have "buf_to_bits (Suc n) c i k b p = Some c'"
    using t(1) c' Suc.prems by simp
  moreover have "bbit c' j \<longleftrightarrow> (if 8 * i + unat k \<le> j \<and> j < 8 * (i + Suc n) + unat k
        then bbit b (8 * p + (j - (8 * i + unat k))) else bbit c j)"
    if j: "j < 8 * length c" for j
  proof (cases "8 * (i + 1) + unat k \<le> j \<and> j < 8 * (i + 1 + n) + unat k")
    case True
    then have "8 * (p + 1) + (j - (8 * (i + 1) + unat k)) = 8 * p + (j - (8 * i + unat k))" by auto
    with True c'(3) j show ?thesis by auto
  next
    case False
    then have 1: "bbit c' j \<longleftrightarrow> bbit ?c j" using c'(3) j by auto
    show ?thesis
    proof (cases "8 * i + unat k \<le> j \<and> j < 8 * i + unat k + 8")
      case True
      then have "j - (8 * i + unat k) < 8" by auto
      then have "bbit b (8 * p + (j - (8 * i + unat k))) \<longleftrightarrow> bit (b ! p) (j - (8 * i + unat k))"
        by (simp only: bbit_def) simp
      with True show ?thesis unfolding 1 t(3)[OF j] by simp
    next
      case F2: False
      have "\<not> (8 * i + unat k \<le> j \<and> bit (b ! p) (j - (8 * i + unat k)))"
        using F2 bit_imp_le_length[of "b ! p" "j - (8 * i + unat k)"] by auto
      then show ?thesis using 1 t(3)[OF j] F2 False by auto
    qed
  qed
  ultimately show ?case using c'(2) by blast
qed auto

lemma buf_to_bits_None:
  assumes "unat k < 8" "0 < n" "length c \<le> i + n \<or> length b < p + n"
  shows "buf_to_bits n c i k b p = None"
  using assms
proof (induction n arbitrary: i c p)
  case (Suc n)
  show ?case
  proof (cases "Suc i < length c \<and> p < length b")
    case True
    then obtain t where "xMBUtilSetBits (drop i c) k 8 (b ! p) = Some t" "length t = length c - i"
      using set_window[of k i c 8 "b ! p"] Suc.prems by auto
    moreover have "0 < n" using True Suc.prems by auto
    ultimately show ?thesis
      using Suc.IH[of "take i c @ t" "i + 1" "p + 1"] Suc.prems True by auto
  next
    case False
    then show ?thesis
      using set_window_None[of k c i 8] Suc.prems by (cases "p < length b") (auto simp: cget_def)
  qed
qed simp

lemma unat_off_mod: "unat (of_nat (off mod 8) :: u16) = off mod 8"
  by (rule unat_of_nat_u16) (simp add: order_less_trans[of _ 8])

lemma unat_off_mod8: "unat (of_nat (off mod 8) :: u8) = off mod 8"
  by (rule unat_of_nat_u8) (simp add: order_less_trans[of _ 8])

lemma read_bits_Some:
  assumes "off div 8 + n div 8 + 1 < length c" "p + n div 8 + 1 \<le> length b"
  shows "\<exists>b'. read_bits c off n b p = Some b' \<and> length b' = length b \<and>
    (\<forall>j < 8 * length b. bbit b' j \<longleftrightarrow>
       (if 8 * p \<le> j \<and> j < 8 * p + n then bbit c (off + (j - 8 * p))
        else if 8 * p \<le> j \<and> j < 8 * (p + n div 8 + 1) then False else bbit b j))"
proof -
  define N q m where "N = n div 8 + 1" and "q = p + n div 8" and "m = n mod 8"
  have n: "n = 8 * (n div 8) + m" "m < 8" by (simp_all add: m_def)
  have off: "8 * (off div 8) + off mod 8 = off" by simp
  obtain b1 where b1: "bits_to_buf N c (off div 8) (of_nat (off mod 8)) b p = Some b1"
    "length b1 = length b"
    "\<forall>j < 8 * length b. bbit b1 j \<longleftrightarrow>
       (if 8 * p \<le> j \<and> j < 8 * (p + N) then bbit c (off + (j - 8 * p)) else bbit b j)"
    using bits_to_buf_Some[of "of_nat (off mod 8)" N "off div 8" c p b] assms
    unfolding unat_off_mod off N_def by auto
  define x where "x = drop_bit (8 - m) (push_bit (8 - m) (b1 ! q))"
  have q: "q < length b" using assms by (simp add: q_def)
  have "read_bits c off n b p = Some (b1[q := x])"
    using b1 q by (simp add: read_bits_def N_def q_def m_def x_def Let_def)
  moreover have "bbit (b1[q := x]) j \<longleftrightarrow>
       (if 8 * p \<le> j \<and> j < 8 * p + n then bbit c (off + (j - 8 * p))
        else if 8 * p \<le> j \<and> j < 8 * (p + n div 8 + 1) then False else bbit b j)"
    if j: "j < 8 * length b" for j
  proof (cases "8 * q \<le> j \<and> j < 8 * Suc q")
    case True
    define t where "t = j - 8 * q"
    have t: "t < 8" "j = 8 * q + t" using True by (auto simp: t_def)
    have "bbit (b1[q := x]) j \<longleftrightarrow> bit x t"
      using True j b1(2) by (simp add: bbit_update t_def)
    also have "\<dots> \<longleftrightarrow> t < m \<and> bit (b1 ! q) t"
      using t n(2) by (auto simp: x_def bit_drop_bit_eq bit_push_bit_iff)
    also have "bit (b1 ! q) t \<longleftrightarrow> bbit b1 j"
      using t by (simp only: bbit_def) simp
    also have "\<dots> \<longleftrightarrow> bbit c (off + (j - 8 * p))"
      using b1(3) j True by (simp add: N_def q_def)
    finally show ?thesis using t n by (auto simp: q_def)
  next
    case False
    then have "bbit (b1[q := x]) j \<longleftrightarrow> bbit b1 j"
      using j b1(2) by (auto simp: bbit_update)
    then show ?thesis using b1(3) j False n by (auto simp: N_def q_def)
  qed
  ultimately show ?thesis using b1(2) by auto
qed

lemma read_bits_None:
  assumes "length c \<le> off div 8 + n div 8 + 1 \<or> length b < p + n div 8 + 1"
  shows "read_bits c off n b p = None"
  using assms bits_to_buf_None[of "of_nat (off mod 8)" "n div 8 + 1" c "off div 8" b p]
  by (auto simp: read_bits_def unat_off_mod)

text \<open>The number of bytes that hold \<open>n\<close> bits.\<close>

definition nbytes :: "nat \<Rightarrow> nat" where
  "nbytes n = (if n mod 8 \<noteq> 0 then n div 8 + 1 else n div 8)"

lemma write_bits_Some:
  assumes "nbytes n = 0 \<or> off div 8 + nbytes n < length c" "nbytes n = 0 \<or> p + nbytes n \<le> length b"
  shows "\<exists>c'. write_bits c off n b p = Some c' \<and> length c' = length c \<and>
    (\<forall>j < 8 * length c. bbit c' j \<longleftrightarrow>
       (if off \<le> j \<and> j < off + n then bbit b (8 * p + (j - off))
        else bbit c j \<or> off + n \<le> j \<and> j < off + 8 * nbytes n \<and> bbit b (8 * p + (j - off))))"
proof -
  define N m where "N = n div 8" and "m = n mod 8"
  have n: "n = 8 * N + m" "m < 8" by (simp_all add: m_def N_def)
  define k where "k = (of_nat (off mod 8) :: u16)"
  have k: "unat k = off mod 8" "unat k < 8" by (simp_all add: k_def unat_off_mod)
  have off: "8 * (off div 8) + unat k = off" "8 * (off div 8 + N) + unat k = 8 * N + off"
    using k by simp_all
  have pre: "N = 0 \<or> off div 8 + N < length c" "N = 0 \<or> p + N \<le> length b"
    using assms by (auto simp: nbytes_def N_def split: if_splits)
  obtain c1 where c1: "buf_to_bits N c (off div 8) k b p = Some c1" "length c1 = length c"
    "\<forall>j < 8 * length c. bbit c1 j \<longleftrightarrow>
       (if off \<le> j \<and> j < 8 * N + off then bbit b (8 * p + (j - off)) else bbit c j)"
    using buf_to_bits_Some[OF k(2) pre] unfolding off by blast
  show ?thesis
  proof (cases "m = 0")
    case True
    then have w: "write_bits c off n b p = Some c1"
      unfolding write_bits_def Let_def diff_add_inverse2 N_def [symmetric] m_def [symmetric]
        k_def [symmetric] c1(1) by simp
    have nb: "nbytes n = N" using True by (simp add: nbytes_def m_def N_def)
    have n8: "off + n = 8 * N + off" using True n(1) by linarith
    have "bbit c1 j \<longleftrightarrow>
       (if off \<le> j \<and> j < off + n then bbit b (8 * p + (j - off))
        else bbit c j \<or> off + n \<le> j \<and> j < off + 8 * nbytes n \<and> bbit b (8 * p + (j - off)))"
      if "j < 8 * length c" for j
      using c1(3) that unfolding n8 nb by auto
    with w c1(2) show ?thesis by blast
  next
    case False
    then have nb: "nbytes n = N + 1" by (simp add: nbytes_def m_def N_def)
    define i where "i = off div 8 + N"
    have i: "8 * i + unat k = 8 * N + off" "unat k < 8" "Suc i < length c1" "p + N < length b"
      using off k assms nb c1(2) by (simp_all add: i_def)
    obtain t where t: "xMBUtilSetBits (drop i c1) k (of_nat m) (b ! (p + N)) = Some t"
      "length t = length c1 - i"
      "\<And>j. j < 8 * length c1 \<Longrightarrow> bbit (take i c1 @ t) j \<longleftrightarrow>
        (if 8 * N + off \<le> j \<and> j < 8 * N + off + m then bit (b ! (p + N)) (j - (8 * N + off))
         else bbit c1 j \<or> 8 * N + off \<le> j \<and> bit (b ! (p + N)) (j - (8 * N + off)))"
    proof -
      have "unat (of_nat m :: u8) = m" using n(2) by (simp add: unat_of_nat_u8)
      then show thesis
        using that set_window[of k i c1 "of_nat m" "b ! (p + N)"] i n(2) by (simp only:) auto
    qed
    have w: "write_bits c off n b p = Some (take i c1 @ t)"
      unfolding write_bits_def Let_def diff_add_inverse2 N_def [symmetric] m_def [symmetric]
        k_def [symmetric] c1(1) i_def [symmetric] using t(1) i(4) False
      by (simp flip: i_def)
    have byte: "bbit b (8 * p + (j - off)) \<longleftrightarrow> bit (b ! (p + N)) (j - (8 * N + off))"
      if "8 * N + off \<le> j" "j < 8 * N + off + 8" for j
    proof -
      have "8 * p + (j - off) = 8 * (p + N) + (j - (8 * N + off))" "j - (8 * N + off) < 8"
        using that by auto
      then show ?thesis by (simp only: bbit_byte)
    qed
    have "bbit (take i c1 @ t) j \<longleftrightarrow>
       (if off \<le> j \<and> j < off + n then bbit b (8 * p + (j - off))
        else bbit c j \<or> off + n \<le> j \<and> j < off + 8 * nbytes n \<and> bbit b (8 * p + (j - off)))"
      if j: "j < 8 * length c" for j
    proof (cases "8 * N + off \<le> j \<and> j < 8 * N + off + 8")
      case True
      then have "off \<le> j \<and> j < off + n \<longleftrightarrow> j < 8 * N + off + m"
        "off + n \<le> j \<longleftrightarrow> \<not> j < 8 * N + off + m" "j < off + 8 * nbytes n"
        using nb n by auto
      moreover have "bbit c1 j \<longleftrightarrow> bbit c j" using c1(3) j True by auto
      ultimately show ?thesis
        using True t(3)[of j] c1(2) j byte[of j] by auto
    next
      case F: False
      then have "\<not> (8 * N + off \<le> j \<and> bit (b ! (p + N)) (j - (8 * N + off)))"
        using bit_imp_le_length[of "b ! (p + N)" "j - (8 * N + off)"] by auto
      moreover have "off \<le> j \<and> j < off + n \<longleftrightarrow> off \<le> j \<and> j < 8 * N + off"
        "\<not> (off + n \<le> j \<and> j < off + 8 * nbytes n)" "\<not> (8 * N + off \<le> j \<and> j < 8 * N + off + m)"
        using F nb n by auto
      ultimately show ?thesis
        using t(3)[of j] c1(2,3) j by auto
    qed
    with w t(2) c1(2) i(3) show ?thesis by auto
  qed
qed

lemma write_bits_None:
  assumes "nbytes n \<noteq> 0" "length c \<le> off div 8 + nbytes n \<or> length b < p + nbytes n"
  shows "write_bits c off n b p = None"
proof (cases "n mod 8 = 0")
  case True
  then show ?thesis
    using assms buf_to_bits_None[of "of_nat (off mod 8)" "n div 8" c "off div 8" b p]
    by (simp add: write_bits_def nbytes_def unat_off_mod)
next
  case False
  let ?N = "n div 8" and ?k = "of_nat (off mod 8) :: u16"
  have nb: "nbytes n = ?N + 1" using False by (simp add: nbytes_def)
  have k: "unat ?k < 8" by (simp add: unat_off_mod)
  show ?thesis
  proof (cases "?N = 0 \<or> off div 8 + ?N < length c \<and> p + ?N \<le> length b")
    case True
    then obtain c1 where c1: "buf_to_bits ?N c (off div 8) ?k b p = Some c1" "length c1 = length c"
      using buf_to_bits_Some[OF k, of ?N "off div 8" c p b] by auto
    then show ?thesis
      using assms nb False set_window_None[OF k, of c1 "off div 8 + ?N" "of_nat (n mod 8)"]
      by (cases "p + ?N < length b") (auto simp: write_bits_def Let_def cget_def)
  next
    case F: False
    then show ?thesis
      using buf_to_bits_None[OF k, of ?N c "off div 8" b p]
      by (auto simp: write_bits_def Let_def)
  qed
qed

section \<open>What the callbacks do\<close>

lemma pick_bank_slave [simp]: "\<not> cb_master r \<Longrightarrow> pick_bank M S r = Some (S r)"
  by (simp add: pick_bank_def)

lemma put_bank_slave [simp]: "\<not> cb_master r \<Longrightarrow> put_bank M S x r = S (\<lambda>_. x) r"
  by (simp add: put_bank_def)

lemma pick_bank_master:
  "cb_master r \<Longrightarrow> unat (cb_dest r) < length (M r) \<Longrightarrow> pick_bank M S r = Some (M r ! unat (cb_dest r))"
  by (simp add: pick_bank_def)

lemma put_bank_frame [simp]:
  "cb_master (put_bank usMRegInBuf_update usSRegInBuf_update x r) = cb_master r"
  "cb_master (put_bank usMRegHoldBuf_update usSRegHoldBuf_update x r) = cb_master r"
  "cb_master (put_bank ucMCoilBuf_update ucSCoilBuf_update y r) = cb_master r"
  "cb_master (put_bank ucMDiscInBuf_update ucSDiscInBuf_update y r) = cb_master r"
  by (simp_all add: put_bank_def)

lemma toggle_led_simps [simp]:
  "cb_master (toggle_led r) = cb_master r"
  "usSRegHoldBuf (toggle_led r) = usSRegHoldBuf r"
  "wf_regs (toggle_led r) = wf_regs r"
  by (simp_all add: toggle_led_def wf_regs_def)

lemma eMBRegHoldingCB_read:
  assumes "wf_regs r" "\<not> cb_master r" "p + 2 * unat n \<le> length buf"
  shows "eMBRegHoldingCB r buf p a n MB_REG_READ =
    Some (if 1 \<le> unat a \<and> unat a + unat n \<le> 101
          then (MB_ENOERR, r, take p buf @ reg_bytes (take (unat n) (drop (unat a - 1) (usSRegHoldBuf r)))
                                @ drop (p + 2 * unat n) buf)
          else (MB_ENOREG, r, buf))"
  using assms by (auto simp: eMBRegHoldingCB_def Let_def bank_consts regs_to_buf_eq wf_regs_def)

lemma eMBRegHoldingCB_write:
  assumes "wf_regs r" "\<not> cb_master r" "p + 2 * unat n \<le> length buf"
  shows "eMBRegHoldingCB r buf p a n MB_REG_WRITE =
    Some (if 1 \<le> unat a \<and> unat a + unat n \<le> 101
          then (MB_ENOERR,
                toggle_led (r \<lparr> usSRegHoldBuf :=
                  take (unat a - 1) (usSRegHoldBuf r) @ bytes_regs (take (2 * unat n) (drop p buf))
                    @ drop (unat a - 1 + unat n) (usSRegHoldBuf r) \<rparr>), buf)
          else (MB_ENOREG, r, buf))"
  using assms by (auto simp: eMBRegHoldingCB_def Let_def bank_consts buf_to_regs_eq wf_regs_def)

lemma eMBRegInputCB_read:
  assumes "wf_regs r" "\<not> cb_master r" "p + 2 * unat n \<le> length buf"
  shows "eMBRegInputCB r buf p a n =
    Some (if 1 \<le> unat a \<and> unat a + unat n \<le> 101
          then (MB_ENOERR, r, take p buf @ reg_bytes (take (unat n) (drop (unat a - 1) (usSRegInBuf r)))
                                @ drop (p + 2 * unat n) buf)
          else (MB_ENOREG, r, buf))"
  using assms by (auto simp: eMBRegInputCB_def Let_def bank_consts regs_to_buf_eq wf_regs_def)

text \<open>
  The exact condition under which reading or writing coils stays inside the
  bank of eight bytes, for a range of coils that the callback accepts.
\<close>

definition coil_read_safe :: "nat \<Rightarrow> nat \<Rightarrow> bool" where
  "coil_read_safe off n \<longleftrightarrow> off div 8 + n div 8 + 1 < 8"

definition coil_write_safe :: "nat \<Rightarrow> nat \<Rightarrow> bool" where
  "coil_write_safe off n \<longleftrightarrow> nbytes n = 0 \<or> off div 8 + nbytes n < 8"

lemma eMBRegCoilsCB_read_None:
  assumes "wf_regs r" "\<not> cb_master r" "1 \<le> unat a" "unat a + unat n \<le> 65"
  shows "eMBRegCoilsCB r buf p a n MB_REG_READ = None \<longleftrightarrow>
     \<not> coil_read_safe (unat a - 1) (unat n) \<or> length buf < p + unat n div 8 + 1"
proof -
  have len: "length (ucSCoilBuf r) = 8" using assms by (simp add: wf_regs_def)
  have "eMBRegCoilsCB r buf p a n MB_REG_READ = None \<longleftrightarrow>
      read_bits (ucSCoilBuf r) (unat a - 1) (unat n) buf p = None"
    using assms by (simp add: eMBRegCoilsCB_def bank_consts bind_eq_None_conv)
  also have "\<dots> \<longleftrightarrow> \<not> coil_read_safe (unat a - 1) (unat n) \<or> length buf < p + unat n div 8 + 1"
  proof (cases "coil_read_safe (unat a - 1) (unat n) \<and> p + unat n div 8 + 1 \<le> length buf")
    case True
    then show ?thesis
      using read_bits_Some[of "unat a - 1" "unat n" "ucSCoilBuf r" p buf] len
      unfolding coil_read_safe_def by auto
  next
    case False
    then show ?thesis
      using read_bits_None[of "ucSCoilBuf r" "unat a - 1" "unat n" buf p] len
      unfolding coil_read_safe_def by auto
  qed
  finally show ?thesis .
qed

lemma eMBRegCoilsCB_read:
  assumes "wf_regs r" "\<not> cb_master r" "1 \<le> unat a" "unat a + unat n \<le> 65"
    "coil_read_safe (unat a - 1) (unat n)" "p + unat n div 8 + 1 \<le> length buf"
  shows "\<exists>buf'. eMBRegCoilsCB r buf p a n MB_REG_READ = Some (MB_ENOERR, r, buf') \<and>
    length buf' = length buf \<and>
    (\<forall>j < 8 * length buf. bbit buf' j \<longleftrightarrow>
       (if 8 * p \<le> j \<and> j < 8 * p + unat n then bbit (ucSCoilBuf r) (unat a - 1 + (j - 8 * p))
        else if 8 * p \<le> j \<and> j < 8 * (p + unat n div 8 + 1) then False else bbit buf j))"
proof -
  have "length (ucSCoilBuf r) = 8" using assms by (simp add: wf_regs_def)
  then obtain buf' where "read_bits (ucSCoilBuf r) (unat a - 1) (unat n) buf p = Some buf'"
    "length buf' = length buf"
    "\<forall>j < 8 * length buf. bbit buf' j \<longleftrightarrow>
       (if 8 * p \<le> j \<and> j < 8 * p + unat n then bbit (ucSCoilBuf r) (unat a - 1 + (j - 8 * p))
        else if 8 * p \<le> j \<and> j < 8 * (p + unat n div 8 + 1) then False else bbit buf j)"
    using read_bits_Some[of "unat a - 1" "unat n" "ucSCoilBuf r" p buf] assms
    unfolding coil_read_safe_def by auto
  moreover from this(1) have "eMBRegCoilsCB r buf p a n MB_REG_READ = Some (MB_ENOERR, r, buf')"
    using assms(1-4) by (simp add: eMBRegCoilsCB_def bank_consts)
  ultimately show ?thesis by blast
qed

lemma eMBRegCoilsCB_write:
  assumes "wf_regs r" "\<not> cb_master r" "1 \<le> unat a" "unat a + unat n \<le> 65"
    "coil_write_safe (unat a - 1) (unat n)" "p + nbytes (unat n) \<le> length buf"
  shows "\<exists>c. eMBRegCoilsCB r buf p a n MB_REG_WRITE =
        Some (MB_ENOERR, r \<lparr> ucSCoilBuf := c \<rparr>, buf) \<and> length c = 8 \<and>
    (\<forall>j < 64. bbit c j \<longleftrightarrow>
       (if unat a - 1 \<le> j \<and> j < unat a - 1 + unat n then bbit buf (8 * p + (j - (unat a - 1)))
        else bbit (ucSCoilBuf r) j \<or>
             unat a - 1 + unat n \<le> j \<and> j < unat a - 1 + 8 * nbytes (unat n) \<and>
             bbit buf (8 * p + (j - (unat a - 1)))))"
proof -
  have len: "length (ucSCoilBuf r) = 8" using assms by (simp add: wf_regs_def)
  then obtain c where c: "write_bits (ucSCoilBuf r) (unat a - 1) (unat n) buf p = Some c"
    "length c = 8"
    "\<forall>j < 8 * 8. bbit c j \<longleftrightarrow>
       (if unat a - 1 \<le> j \<and> j < unat a - 1 + unat n then bbit buf (8 * p + (j - (unat a - 1)))
        else bbit (ucSCoilBuf r) j \<or>
             unat a - 1 + unat n \<le> j \<and> j < unat a - 1 + 8 * nbytes (unat n) \<and>
             bbit buf (8 * p + (j - (unat a - 1))))"
    using write_bits_Some[of "unat n" "unat a - 1" "ucSCoilBuf r" p buf] assms(5,6)
    unfolding coil_write_safe_def len by blast
  moreover have "eMBRegCoilsCB r buf p a n MB_REG_WRITE =
      Some (MB_ENOERR, r \<lparr> ucSCoilBuf := c \<rparr>, buf)"
    using assms(1-4) c(1) by (simp add: eMBRegCoilsCB_def bank_consts)
  ultimately show ?thesis by auto
qed

section \<open>The holding registers and the coils as register banks\<close>

text \<open>
  The callbacks seen from outside the frame: a write passes the values as the
  bytes of a PDU, a read collects them from a cleared buffer.
\<close>

definition slave_ok :: "mb_regs \<Rightarrow> bool" where
  "slave_ok r \<longleftrightarrow> wf_regs r \<and> \<not> cb_master r"

definition hold_wr :: "mb_regs \<Rightarrow> u16 \<Rightarrow> u16 list \<Rightarrow> mb_regs option" where
  "hold_wr r a vs =
    (if length vs < 65536 then
       (case eMBRegHoldingCB r (reg_bytes vs) 0 a (of_nat (length vs)) MB_REG_WRITE of
          Some (MB_ENOERR, r', _) \<Rightarrow> Some r' | _ \<Rightarrow> None)
     else None)"

definition hold_rd :: "mb_regs \<Rightarrow> u16 \<Rightarrow> nat \<Rightarrow> u16 list option" where
  "hold_rd r a n =
    (if n < 65536 then
       (case eMBRegHoldingCB r (replicate (2 * n) 0) 0 a (of_nat n) MB_REG_READ of
          Some (MB_ENOERR, _, buf) \<Rightarrow> Some (bytes_regs buf) | _ \<Rightarrow> None)
     else None)"

lemma wf_hold_update:
  "wf_regs r \<Longrightarrow> length b = 100 \<Longrightarrow> wf_regs (r \<lparr> usSRegHoldBuf := b \<rparr>)"
  by (simp add: wf_regs_def)

lemma wf_coil_update: "wf_regs r \<Longrightarrow> length c = 8 \<Longrightarrow> wf_regs (r \<lparr> ucSCoilBuf := c \<rparr>)"
  by (simp add: wf_regs_def)

lemma hold_wr_eq:
  assumes "slave_ok r"
  shows "hold_wr r a vs =
    (if 1 \<le> unat a \<and> unat a + length vs \<le> 101
     then Some (toggle_led (r \<lparr> usSRegHoldBuf :=
            take (unat a - 1) (usSRegHoldBuf r) @ vs @ drop (unat a - 1 + length vs) (usSRegHoldBuf r) \<rparr>))
     else None)"
proof (cases "length vs < 65536")
  case True
  then show ?thesis
    using assms by (simp add: slave_ok_def hold_wr_def unat_of_nat_u16 eMBRegHoldingCB_write)
qed (auto simp: hold_wr_def)

lemma hold_rd_eq:
  assumes "slave_ok r"
  shows "hold_rd r a n =
    (if 1 \<le> unat a \<and> unat a + n \<le> 101 then Some (take n (drop (unat a - 1) (usSRegHoldBuf r)))
     else None)"
proof (cases "n < 65536")
  case True
  then show ?thesis
    using assms by (simp add: slave_ok_def hold_rd_def unat_of_nat_u16 eMBRegHoldingCB_read)
qed (auto simp: hold_rd_def)

interpretation hold: register_bank hold_wr hold_rd slave_ok
proof unfold_locales
  fix r r' :: mb_regs and a b :: u16 and vs us :: "u16 list" and m :: nat
  assume ok: "slave_ok r" and w: "hold_wr r a vs = Some r'"
  then have len: "length (usSRegHoldBuf r) = 100" by (simp add: slave_ok_def wf_regs_def)
  from w have r': "1 \<le> unat a" "unat a + length vs \<le> 101"
    "usSRegHoldBuf r' = take (unat a - 1) (usSRegHoldBuf r) @ vs @ drop (unat a - 1 + length vs) (usSRegHoldBuf r)"
    by (auto simp: hold_wr_eq[OF ok] split: if_splits)
  show ok': "slave_ok r'"
    using w ok r' len by (auto simp: hold_wr_eq[OF ok] slave_ok_def intro!: wf_hold_update)
  show "us = vs" if "hold_rd r' a (length vs) = Some us"
    using that r' len by (auto simp: hold_rd_eq[OF ok'] split: if_splits)
  show "hold_rd r' b m = None \<longleftrightarrow> hold_rd r b m = None"
    by (simp add: hold_rd_eq[OF ok] hold_rd_eq[OF ok'])
  show "hold_rd r' b m = hold_rd r b m"
    if sep: "unat b + m \<le> unat a \<or> unat a + length vs \<le> unat b"
  proof -
    have "take m (drop (unat b - 1) (usSRegHoldBuf r')) = take m (drop (unat b - 1) (usSRegHoldBuf r))"
      if "1 \<le> unat b"
    proof -
      have "unat b - 1 + m \<le> unat a - 1 \<or> unat a - 1 + length vs \<le> unat b - 1"
        using sep that r'(1) by auto
      then show ?thesis unfolding r'(3) using r' len by (intro take_drop_splice) auto
    qed
    then show ?thesis by (simp add: hold_rd_eq[OF ok] hold_rd_eq[OF ok'])
  qed
qed

text \<open>Coil values as the packed bytes of a PDU.\<close>

definition pack_bits :: "bool list \<Rightarrow> bytes" where
  "pack_bits bs = map (\<lambda>q. horner_sum of_bool 2 (take 8 (drop (8 * q) bs))) [0..<nbytes (length bs)]"

definition unpack_bits :: "bytes \<Rightarrow> nat \<Rightarrow> bool list" where
  "unpack_bits b n = map (bbit b) [0..<n]"

lemma length_pack_bits [simp]: "length (pack_bits bs) = nbytes (length bs)"
  by (simp add: pack_bits_def)

lemma nbytes_le: "n \<le> 8 * nbytes n" "8 * nbytes n < n + 8"
  by (auto simp: nbytes_def) (presburger+)

lemma bbit_pack_bits:
  assumes "j < 8 * nbytes (length bs)"
  shows "bbit (pack_bits bs) j \<longleftrightarrow> j < length bs \<and> bs ! j"
proof -
  have "j div 8 < nbytes (length bs)" using assms by (simp add: less_mult_imp_div_less mult.commute)
  then have "bbit (pack_bits bs) j \<longleftrightarrow>
      j mod 8 < length (take 8 (drop (8 * (j div 8)) bs)) \<and> take 8 (drop (8 * (j div 8)) bs) ! (j mod 8)"
    by (simp add: bbit_def pack_bits_def bit_horner_sum_bit_word_iff)
  also have "j mod 8 < length (take 8 (drop (8 * (j div 8)) bs)) \<longleftrightarrow> j < length bs"
    by (simp add: less_diff_conv)
  also have "(j < length bs \<and> take 8 (drop (8 * (j div 8)) bs) ! (j mod 8)) \<longleftrightarrow> j < length bs \<and> bs ! j"
    using div_mult_mod_eq[of j 8] by (auto simp: mult.commute)
  finally show ?thesis .
qed

definition coil_wr :: "mb_regs \<Rightarrow> u16 \<Rightarrow> bool list \<Rightarrow> mb_regs option" where
  "coil_wr r a vs =
    (if length vs < 65536 then
       (case eMBRegCoilsCB r (pack_bits vs) 0 a (of_nat (length vs)) MB_REG_WRITE of
          Some (MB_ENOERR, r', _) \<Rightarrow> Some r' | _ \<Rightarrow> None)
     else None)"

definition coil_rd :: "mb_regs \<Rightarrow> u16 \<Rightarrow> nat \<Rightarrow> bool list option" where
  "coil_rd r a n =
    (if n < 65536 then
       (case eMBRegCoilsCB r (replicate (n div 8 + 1) 0) 0 a (of_nat n) MB_REG_READ of
          Some (MB_ENOERR, _, buf) \<Rightarrow> Some (unpack_bits buf n) | _ \<Rightarrow> None)
     else None)"

lemma eMBRegCoilsCB_range:
  assumes "\<not> (1 \<le> unat a \<and> unat a + unat n \<le> 65)"
  shows "eMBRegCoilsCB r buf p a n m = Some (MB_ENOREG, r, buf)"
  using assms by (auto simp: eMBRegCoilsCB_def bank_consts)

lemma eMBRegCoilsCB_write_None:
  assumes "wf_regs r" "\<not> cb_master r" "1 \<le> unat a" "unat a + unat n \<le> 65"
    "\<not> coil_write_safe (unat a - 1) (unat n)"
  shows "eMBRegCoilsCB r buf p a n MB_REG_WRITE = None"
proof -
  have "length (ucSCoilBuf r) = 8" using assms by (simp add: wf_regs_def)
  then have "write_bits (ucSCoilBuf r) (unat a - 1) (unat n) buf p = None"
    using write_bits_None assms(5) by (simp add: coil_write_safe_def)
  then show ?thesis using assms by (simp add: eMBRegCoilsCB_def bank_consts)
qed

lemma coil_rd_eq:
  assumes "slave_ok r"
  shows "coil_rd r a n =
    (if 1 \<le> unat a \<and> unat a + n \<le> 65 \<and> coil_read_safe (unat a - 1) n
     then Some (map (\<lambda>j. bbit (ucSCoilBuf r) (unat a - 1 + j)) [0..<n]) else None)"
proof (cases "n < 65536 \<and> 1 \<le> unat a \<and> unat a + n \<le> 65")
  case True
  have n: "unat (of_nat n :: u16) = n" using True by (simp add: unat_of_nat_u16)
  note r = assms[unfolded slave_ok_def]
  show ?thesis
  proof (cases "coil_read_safe (unat a - 1) n")
    case safe: True
    have "n \<le> 8 * (n div 8 + 1)" by presburger
    then obtain buf' where "eMBRegCoilsCB r (replicate (n div 8 + 1) 0) 0 a (of_nat n) MB_REG_READ
        = Some (MB_ENOERR, r, buf')" "\<forall>j < n. bbit buf' j \<longleftrightarrow> bbit (ucSCoilBuf r) (unat a - 1 + j)"
      using eMBRegCoilsCB_read[of r a "of_nat n" 0 "replicate (n div 8 + 1) 0"] True safe r n by auto
    then show ?thesis using True safe by (simp add: coil_rd_def unpack_bits_def)
  next
    case False
    then show ?thesis
      using eMBRegCoilsCB_read_None[of r a "of_nat n" "replicate (n div 8 + 1) 0" 0] True r n
      by (simp add: coil_rd_def)
  qed
next
  case False
  then show ?thesis
    using eMBRegCoilsCB_range[of a "of_nat n" r] by (auto simp: coil_rd_def unat_of_nat_u16)
qed

lemma coil_wr_Some:
  assumes "slave_ok r" "coil_wr r a vs = Some r'"
  shows "1 \<le> unat a \<and> unat a + length vs \<le> 65 \<and>
    (\<exists>c. r' = r \<lparr> ucSCoilBuf := c \<rparr> \<and> length c = 8 \<and>
      (\<forall>j < 64. bbit c j \<longleftrightarrow>
         (if unat a - 1 \<le> j \<and> j < unat a - 1 + length vs then vs ! (j - (unat a - 1))
          else bbit (ucSCoilBuf r) j)))"
proof -
  note r = assms(1)[unfolded slave_ok_def]
  have len: "length vs < 65536" using assms(2) by (auto simp: coil_wr_def split: if_splits)
  then have n: "unat (of_nat (length vs) :: u16) = length vs" by (simp add: unat_of_nat_u16)
  have rng: "1 \<le> unat a \<and> unat a + length vs \<le> 65"
    using assms(2) len eMBRegCoilsCB_range[of a "of_nat (length vs)" r "pack_bits vs"] n
    by (cases "1 \<le> unat a \<and> unat a + length vs \<le> 65") (auto simp: coil_wr_def)
  have safe: "coil_write_safe (unat a - 1) (length vs)"
    using assms(2) len rng r n eMBRegCoilsCB_write_None[of r a "of_nat (length vs)" "pack_bits vs" 0]
    by (cases "coil_write_safe (unat a - 1) (length vs)") (auto simp: coil_wr_def)
  obtain c where c: "eMBRegCoilsCB r (pack_bits vs) 0 a (of_nat (length vs)) MB_REG_WRITE =
        Some (MB_ENOERR, r \<lparr> ucSCoilBuf := c \<rparr>, pack_bits vs)" "length c = 8"
    "\<forall>j < 64. bbit c j \<longleftrightarrow>
       (if unat a - 1 \<le> j \<and> j < unat a - 1 + length vs then bbit (pack_bits vs) (j - (unat a - 1))
        else bbit (ucSCoilBuf r) j \<or>
             unat a - 1 + length vs \<le> j \<and> j < unat a - 1 + 8 * nbytes (length vs) \<and>
             bbit (pack_bits vs) (j - (unat a - 1)))"
    using eMBRegCoilsCB_write[of r a "of_nat (length vs)" 0 "pack_bits vs"] r rng safe
    unfolding n by auto
  have "bbit c j \<longleftrightarrow> (if unat a - 1 \<le> j \<and> j < unat a - 1 + length vs then vs ! (j - (unat a - 1))
          else bbit (ucSCoilBuf r) j)" if "j < 64" for j
  proof (cases "unat a - 1 \<le> j \<and> j < unat a - 1 + 8 * nbytes (length vs)")
    case True
    then have "bbit (pack_bits vs) (j - (unat a - 1)) \<longleftrightarrow>
        j - (unat a - 1) < length vs \<and> vs ! (j - (unat a - 1))"
      by (intro bbit_pack_bits) auto
    then show ?thesis using c(3) that True by auto
  next
    case False
    then show ?thesis using c(3) that nbytes_le(1)[of "length vs"] by auto
  qed
  then show ?thesis using c(1,2) assms(2) len rng by (auto simp: coil_wr_def)
qed

interpretation coil: register_bank coil_wr coil_rd slave_ok
proof unfold_locales
  fix r r' :: mb_regs and a b :: u16 and vs us :: "bool list" and m :: nat
  assume ok: "slave_ok r" and w: "coil_wr r a vs = Some r'"
  obtain c where r': "1 \<le> unat a" "unat a + length vs \<le> 65" "r' = r \<lparr> ucSCoilBuf := c \<rparr>"
    "length c = 8" and c: "\<And>j. j < 64 \<Longrightarrow> bbit c j \<longleftrightarrow>
         (if unat a - 1 \<le> j \<and> j < unat a - 1 + length vs then vs ! (j - (unat a - 1))
          else bbit (ucSCoilBuf r) j)"
    using coil_wr_Some[OF ok w] by auto
  show ok': "slave_ok r'" using ok r' by (simp add: slave_ok_def wf_regs_def)
  show "us = vs" if "coil_rd r' a (length vs) = Some us"
  proof -
    have "us = map (\<lambda>j. bbit c (unat a - 1 + j)) [0..<length vs]"
      using that unfolding coil_rd_eq[OF ok'] unfolding r'(3) by (simp split: if_splits)
    also have "\<dots> = vs"
      using r'(1,2) c by (intro nth_equalityI) auto
    finally show ?thesis .
  qed
  show "coil_rd r' b m = None \<longleftrightarrow> coil_rd r b m = None"
    by (simp add: coil_rd_eq[OF ok] coil_rd_eq[OF ok'])
  show "coil_rd r' b m = coil_rd r b m"
    if sep: "unat b + m \<le> unat a \<or> unat a + length vs \<le> unat b"
  proof -
    have "bbit c (unat b - 1 + x) \<longleftrightarrow> bbit (ucSCoilBuf r) (unat b - 1 + x)"
      if "1 \<le> unat b" "unat b + m \<le> 65" "x < m" for x
    proof -
      have "\<not> (unat a - 1 \<le> unat b - 1 + x \<and> unat b - 1 + x < unat a - 1 + length vs)"
        using that sep r'(1) by auto
      then show ?thesis using that c[of "unat b - 1 + x"] by (simp only: if_False)
    qed
    then show ?thesis
      unfolding coil_rd_eq[OF ok] coil_rd_eq[OF ok'] unfolding r'(3) by simp
  qed
qed

end
