(* ===== verification/MbFuncs.thy ===== *)
theory MbFuncs
  imports UserApp
begin

text \<open>
  The function handlers of the slave, \<open>mbfuncholding.c\<close>, \<open>mbfuncinput.c\<close>,
  \<open>mbfunccoils.c\<close>, \<open>mbfuncdisc.c\<close> and \<open>mbfuncother.c\<close>.  A handler gets the PDU in
  the frame buffer and its length, works in place, and returns the exception with
  the banks, the buffer and the length of the response.  The fields of a request
  are read with \<open>frame16\<close>, the shift-and-or the source repeats at each field.
\<close>

unbundle bit_operations_syntax

definition frame16 :: "bytes \<Rightarrow> nat \<Rightarrow> u16 option" where
  "frame16 f off = do { h \<leftarrow> cget f off; l \<leftarrow> cget f (off + 1); Some (mk16 h l) }"

definition exc_of :: "eMBErrorCode \<Rightarrow> eMBException" where
  "exc_of eRegStatus =
     (if eRegStatus \<noteq> MB_ENOERR then prveMBError2Exception eRegStatus else MB_EX_NONE)"

type_synonym handler_result = "(eMBException \<times> mb_regs \<times> bytes \<times> u16) option"
type_synonym handler = "mb_regs \<Rightarrow> bytes \<Rightarrow> u16 \<Rightarrow> handler_result"

section \<open>Holding registers\<close>

definition eMBFuncWriteHoldingRegister :: handler where
  "eMBFuncWriteHoldingRegister r f usLen =
    (if usLen = 4 + 1 then do {
       a \<leftarrow> frame16 f 1;
       (eRegStatus, r, f) \<leftarrow> eMBRegHoldingCB r f 3 (a + 1) 1 MB_REG_WRITE;
       Some (exc_of eRegStatus, r, f, usLen)
     } else Some (MB_EX_ILLEGAL_DATA_VALUE, r, f, usLen))"

definition eMBFuncWriteMultipleHoldingRegister :: handler where
  "eMBFuncWriteMultipleHoldingRegister r f usLen =
    (if 5 + 1 \<le> usLen then do {
       a \<leftarrow> frame16 f 1;
       usRegCount \<leftarrow> frame16 f 3;
       ucRegByteCount \<leftarrow> cget f 5;
       if 1 \<le> usRegCount \<and> usRegCount \<le> 0x78 \<and> ucRegByteCount = ucast (2 * usRegCount)
       then do {
         (eRegStatus, r, f) \<leftarrow> eMBRegHoldingCB r f 6 (a + 1) usRegCount MB_REG_WRITE;
         Some (exc_of eRegStatus, r, f, if eRegStatus \<noteq> MB_ENOERR then usLen else 5)
       } else Some (MB_EX_ILLEGAL_DATA_VALUE, r, f, usLen)
     } else Some (MB_EX_ILLEGAL_DATA_VALUE, r, f, usLen))"

text \<open>
  The register count of a read request is assigned twice: the second assignment,
  of the low byte, overwrites the first.
\<close>

definition eMBFuncReadHoldingRegister :: handler where
  "eMBFuncReadHoldingRegister r f usLen =
    (if usLen = 4 + 1 then do {
       a \<leftarrow> frame16 f 1;
       _ \<leftarrow> cget f 3;
       l \<leftarrow> cget f 4;
       let usRegCount = (ucast l :: u16);
       if 1 \<le> usRegCount \<and> usRegCount \<le> 0x7D then do {
         f \<leftarrow> cset f 0 MB_FUNC_READ_HOLDING_REGISTER;
         f \<leftarrow> cset f 1 (ucast (usRegCount * 2));
         (eRegStatus, r, f) \<leftarrow> eMBRegHoldingCB r f 2 (a + 1) usRegCount MB_REG_READ;
         Some (exc_of eRegStatus, r, f, if eRegStatus \<noteq> MB_ENOERR then 2 else 2 + usRegCount * 2)
       } else Some (MB_EX_ILLEGAL_DATA_VALUE, r, f, usLen)
     } else Some (MB_EX_ILLEGAL_DATA_VALUE, r, f, usLen))"

definition eMBFuncReadWriteMultipleHoldingRegister :: handler where
  "eMBFuncReadWriteMultipleHoldingRegister r f usLen =
    (if 9 + 1 \<le> usLen then do {
       ra \<leftarrow> frame16 f 1;
       usRegReadCount \<leftarrow> frame16 f 3;
       wa \<leftarrow> frame16 f 5;
       usRegWriteCount \<leftarrow> frame16 f 7;
       ucRegWriteByteCount \<leftarrow> cget f 9;
       if 1 \<le> usRegReadCount \<and> usRegReadCount \<le> 0x7D \<and>
          1 \<le> usRegWriteCount \<and> usRegWriteCount \<le> 0x79 \<and>
          2 * unat usRegWriteCount = unat ucRegWriteByteCount
       then do {
         (eRegStatus, r, f) \<leftarrow> eMBRegHoldingCB r f 10 (wa + 1) usRegWriteCount MB_REG_WRITE;
         if eRegStatus = MB_ENOERR then do {
           f \<leftarrow> cset f 0 MB_FUNC_READWRITE_MULTIPLE_REGISTERS;
           f \<leftarrow> cset f 1 (ucast (usRegReadCount * 2));
           (eRegStatus, r, f) \<leftarrow> eMBRegHoldingCB r f 2 (ra + 1) usRegReadCount MB_REG_READ;
           Some (exc_of eRegStatus, r, f,
                 if eRegStatus = MB_ENOERR then 2 + 2 * usRegReadCount else 2)
         } else Some (exc_of eRegStatus, r, f, usLen)
       } else Some (MB_EX_ILLEGAL_DATA_VALUE, r, f, usLen)
     } else Some (MB_EX_NONE, r, f, usLen))"

section \<open>Input registers\<close>

definition eMBFuncReadInputRegister :: handler where
  "eMBFuncReadInputRegister r f usLen =
    (if usLen = 4 + 1 then do {
       a \<leftarrow> frame16 f 1;
       usRegCount \<leftarrow> frame16 f 3;
       if 1 \<le> usRegCount \<and> usRegCount < 0x7D then do {
         f \<leftarrow> cset f 0 MB_FUNC_READ_INPUT_REGISTER;
         f \<leftarrow> cset f 1 (ucast (usRegCount * 2));
         (eRegStatus, r, f) \<leftarrow> eMBRegInputCB r f 2 (a + 1) usRegCount;
         Some (exc_of eRegStatus, r, f, if eRegStatus \<noteq> MB_ENOERR then 2 else 2 + usRegCount * 2)
       } else Some (MB_EX_ILLEGAL_DATA_VALUE, r, f, usLen)
     } else Some (MB_EX_ILLEGAL_DATA_VALUE, r, f, usLen))"

section \<open>Coils and discrete inputs\<close>

definition ucNBytes :: "u16 \<Rightarrow> u8" where
  "ucNBytes n = (if n AND 0x0007 \<noteq> 0 then ucast (n div 8 + 1) else ucast (n div 8))"

definition eMBFuncReadCoils :: handler where
  "eMBFuncReadCoils r f usLen =
    (if usLen = 4 + 1 then do {
       a \<leftarrow> frame16 f 1;
       usCoilCount \<leftarrow> frame16 f 3;
       if 1 \<le> usCoilCount \<and> usCoilCount < 0x07D0 then do {
         f \<leftarrow> cset f 0 MB_FUNC_READ_COILS;
         f \<leftarrow> cset f 1 (ucNBytes usCoilCount);
         (eRegStatus, r, f) \<leftarrow> eMBRegCoilsCB r f 2 (a + 1) usCoilCount MB_REG_READ;
         Some (exc_of eRegStatus, r, f,
               if eRegStatus \<noteq> MB_ENOERR then 2 else 2 + ucast (ucNBytes usCoilCount))
       } else Some (MB_EX_ILLEGAL_DATA_VALUE, r, f, usLen)
     } else Some (MB_EX_ILLEGAL_DATA_VALUE, r, f, usLen))"

definition eMBFuncWriteCoil :: handler where
  "eMBFuncWriteCoil r f usLen =
    (if usLen = 4 + 1 then do {
       a \<leftarrow> frame16 f 1;
       hi \<leftarrow> cget f 3;
       lo \<leftarrow> cget f 4;
       if lo = 0x00 \<and> (hi = 0xFF \<or> hi = 0x00) then do {
         let ucBuf = [if hi = 0xFF then 1 else 0, 0];
         (eRegStatus, r, ucBuf) \<leftarrow> eMBRegCoilsCB r ucBuf 0 (a + 1) 1 MB_REG_WRITE;
         Some (exc_of eRegStatus, r, f, usLen)
       } else Some (MB_EX_ILLEGAL_DATA_VALUE, r, f, usLen)
     } else Some (MB_EX_ILLEGAL_DATA_VALUE, r, f, usLen))"

definition eMBFuncWriteMultipleCoils :: handler where
  "eMBFuncWriteMultipleCoils r f usLen =
    (if 4 + 1 < usLen then do {
       a \<leftarrow> frame16 f 1;
       usCoilCnt \<leftarrow> frame16 f 3;
       ucByteCount \<leftarrow> cget f 5;
       if 1 \<le> usCoilCnt \<and> usCoilCnt \<le> 0x07B0 \<and> ucNBytes usCoilCnt = ucByteCount then do {
         (eRegStatus, r, f) \<leftarrow> eMBRegCoilsCB r f 6 (a + 1) usCoilCnt MB_REG_WRITE;
         Some (exc_of eRegStatus, r, f, if eRegStatus \<noteq> MB_ENOERR then usLen else 5)
       } else Some (MB_EX_ILLEGAL_DATA_VALUE, r, f, usLen)
     } else Some (MB_EX_ILLEGAL_DATA_VALUE, r, f, usLen))"

definition eMBFuncReadDiscreteInputs :: handler where
  "eMBFuncReadDiscreteInputs r f usLen =
    (if usLen = 4 + 1 then do {
       a \<leftarrow> frame16 f 1;
       usDiscreteCnt \<leftarrow> frame16 f 3;
       if 1 \<le> usDiscreteCnt \<and> usDiscreteCnt < 0x07D0 then do {
         f \<leftarrow> cset f 0 MB_FUNC_READ_DISCRETE_INPUTS;
         f \<leftarrow> cset f 1 (ucNBytes usDiscreteCnt);
         (eRegStatus, r, f) \<leftarrow> eMBRegDiscreteCB r f 2 (a + 1) usDiscreteCnt;
         Some (exc_of eRegStatus, r, f,
               if eRegStatus \<noteq> MB_ENOERR then 2 else 2 + ucast (ucNBytes usDiscreteCnt))
       } else Some (MB_EX_ILLEGAL_DATA_VALUE, r, f, usLen)
     } else Some (MB_EX_ILLEGAL_DATA_VALUE, r, f, usLen))"

section \<open>The slave identification\<close>

definition MB_FUNC_OTHER_REP_SLAVEID_BUF :: nat where "MB_FUNC_OTHER_REP_SLAVEID_BUF = 32"

record slave_id =
  ucMBSlaveID :: bytes
  usMBSlaveIDLen :: u16

definition eMBSetSlaveID ::
    "slave_id \<Rightarrow> u8 \<Rightarrow> bool \<Rightarrow> bytes \<Rightarrow> u16 \<Rightarrow> (eMBErrorCode \<times> slave_id) option" where
  "eMBSetSlaveID s ucSlaveID xIsRunning pucAdditional usAdditionalLen =
    (if unat usAdditionalLen + 2 < MB_FUNC_OTHER_REP_SLAVEID_BUF then do {
       b \<leftarrow> cset (ucMBSlaveID s) 0 ucSlaveID;
       b \<leftarrow> cset b 1 (if xIsRunning then 0xFF else 0x00);
       if 0 < usAdditionalLen then do {
         src \<leftarrow> cread pucAdditional 0 (unat usAdditionalLen);
         b \<leftarrow> cwrite b 2 src;
         Some (MB_ENOERR, s \<lparr> ucMBSlaveID := b, usMBSlaveIDLen := 2 + usAdditionalLen \<rparr>)
       } else Some (MB_ENOERR, s \<lparr> ucMBSlaveID := b, usMBSlaveIDLen := 2 \<rparr>)
     } else Some (MB_ENORES, s))"

definition eMBFuncReportSlaveID ::
    "slave_id \<Rightarrow> bytes \<Rightarrow> u16 \<Rightarrow> (eMBException \<times> bytes \<times> u16) option" where
  "eMBFuncReportSlaveID s f usLen = do {
     src \<leftarrow> cread (ucMBSlaveID s) 0 (unat (usMBSlaveIDLen s));
     f \<leftarrow> cwrite f 1 src;
     Some (MB_EX_NONE, f, 1 + usMBSlaveIDLen s)
   }"

section \<open>Every register handler stays inside its buffers\<close>

definition handler_ok :: "handler \<Rightarrow> bool" where
  "handler_ok h \<longleftrightarrow> (\<forall>r f l. wf_regs r \<longrightarrow> \<not> cb_master r \<longrightarrow> 255 \<le> length f \<longrightarrow>
     (\<exists>e r' f' l'. h r f l = Some (e, r', f', l') \<and> wf_regs r' \<and> \<not> cb_master r' \<and>
        length f' = length f \<and> (l' = l \<or> unat l' \<le> 252)))"

lemma frame16_in [simp]:
  "2 < length f \<Longrightarrow> frame16 f (Suc 0) = Some (mk16 (f ! 1) (f ! 2))"
  "4 < length f \<Longrightarrow> frame16 f 3 = Some (mk16 (f ! 3) (f ! 4))"
  "6 < length f \<Longrightarrow> frame16 f 5 = Some (mk16 (f ! 5) (f ! 6))"
  "8 < length f \<Longrightarrow> frame16 f 7 = Some (mk16 (f ! 7) (f ! 8))"
  by (simp_all add: frame16_def numeral_eq_Suc)

text \<open>The two register callbacks in the form the handlers use them.\<close>

lemma hold_write_ok:
  assumes "wf_regs r" "\<not> cb_master r" "p + 2 * unat n \<le> length f"
  shows "\<exists>e r'. eMBRegHoldingCB r f p a n MB_REG_WRITE = Some (e, r', f) \<and>
           wf_regs r' \<and> \<not> cb_master r'"
proof -
  have "length (usSRegHoldBuf r) = 100" using assms by (simp add: wf_regs_def)
  then show ?thesis
    using assms by (auto simp: eMBRegHoldingCB_write intro!: wf_hold_update)
qed

lemma hold_read_ok:
  assumes "wf_regs r" "\<not> cb_master r" "p + 2 * unat n \<le> length f"
  shows "\<exists>e f'. eMBRegHoldingCB r f p a n MB_REG_READ = Some (e, r, f') \<and> length f' = length f"
proof -
  have "length (usSRegHoldBuf r) = 100" using assms by (simp add: wf_regs_def)
  then show ?thesis
    using assms by (auto simp: eMBRegHoldingCB_read)
qed

lemma input_read_ok:
  assumes "wf_regs r" "\<not> cb_master r" "p + 2 * unat n \<le> length f"
  shows "\<exists>e f'. eMBRegInputCB r f p a n = Some (e, r, f') \<and> length f' = length f"
proof -
  have "length (usSRegInBuf r) = 100" using assms by (simp add: wf_regs_def)
  then show ?thesis
    using assms by (auto simp: eMBRegInputCB_read)
qed

lemma rsp_len: "c \<le> 0x7D \<Longrightarrow> unat (2 + c * 2 :: u16) = 2 + 2 * unat c"
  by (simp add: word_le_nat_alt unat_word_ariths)

lemma write_register_ok: "handler_ok eMBFuncWriteHoldingRegister"
  unfolding handler_ok_def
proof (intro allI impI)
  fix r :: mb_regs and f :: bytes and l :: u16
  assume "wf_regs r" "\<not> cb_master r" "255 \<le> length f"
  then show "\<exists>e r' f' l'. eMBFuncWriteHoldingRegister r f l = Some (e, r', f', l') \<and> wf_regs r' \<and>
      \<not> cb_master r' \<and> length f' = length f \<and> (l' = l \<or> unat l' \<le> 252)"
    using hold_write_ok[of r 3 1 f "mk16 (f ! 1) (f ! 2) + 1"]
    by (auto simp: eMBFuncWriteHoldingRegister_def)
qed

lemma write_multiple_ok: "handler_ok eMBFuncWriteMultipleHoldingRegister"
  unfolding handler_ok_def
proof (intro allI impI)
  fix r :: mb_regs and f :: bytes and l :: u16
  assume *: "wf_regs r" "\<not> cb_master r" "255 \<le> length f"
  have ne: "f \<noteq> []" using * by auto
  let ?c = "mk16 (f ! 3) (f ! 4)"
  have "?c \<le> 0x78 \<Longrightarrow> 6 + 2 * unat ?c \<le> length f"
    using * by (simp add: word_le_nat_alt)
  then show "\<exists>e r' f' l'. eMBFuncWriteMultipleHoldingRegister r f l = Some (e, r', f', l') \<and>
      wf_regs r' \<and> \<not> cb_master r' \<and> length f' = length f \<and> (l' = l \<or> unat l' \<le> 252)"
    using * hold_write_ok[of r 6 ?c f "mk16 (f ! 1) (f ! 2) + 1"]
    by (auto simp: eMBFuncWriteMultipleHoldingRegister_def)
qed

lemma read_holding_ok: "handler_ok eMBFuncReadHoldingRegister"
  unfolding handler_ok_def
proof (intro allI impI)
  fix r :: mb_regs and f :: bytes and l :: u16
  assume *: "wf_regs r" "\<not> cb_master r" "255 \<le> length f"
  have ne: "f \<noteq> []" using * by auto
  let ?c = "ucast (f ! 4) :: u16"
  let ?f = "f[0 := MB_FUNC_READ_HOLDING_REGISTER, Suc 0 := ucast (?c * 2)]"
  have "?c \<le> 0x7D \<Longrightarrow> 2 + 2 * unat ?c \<le> length ?f" "?c \<le> 0x7D \<Longrightarrow> unat (2 + ?c * 2) \<le> 252"
    using * by (simp_all add: word_le_nat_alt rsp_len)
  then show "\<exists>e r' f' l'. eMBFuncReadHoldingRegister r f l = Some (e, r', f', l') \<and>
      wf_regs r' \<and> \<not> cb_master r' \<and> length f' = length f \<and> (l' = l \<or> unat l' \<le> 252)"
    using * ne hold_read_ok[of r 2 ?c ?f "mk16 (f ! 1) (f ! 2) + 1"]
    by (auto simp: eMBFuncReadHoldingRegister_def Let_def)
qed

lemma read_input_ok: "handler_ok eMBFuncReadInputRegister"
  unfolding handler_ok_def
proof (intro allI impI)
  fix r :: mb_regs and f :: bytes and l :: u16
  assume *: "wf_regs r" "\<not> cb_master r" "255 \<le> length f"
  have ne: "f \<noteq> []" using * by auto
  let ?c = "mk16 (f ! 3) (f ! 4)"
  let ?f = "f[0 := MB_FUNC_READ_INPUT_REGISTER, Suc 0 := ucast (?c * 2)]"
  have "?c < 0x7D \<Longrightarrow> 2 + 2 * unat ?c \<le> length ?f" "?c < 0x7D \<Longrightarrow> unat (2 + ?c * 2) \<le> 252"
    using * by (simp_all add: word_less_nat_alt rsp_len word_le_nat_alt)
  then show "\<exists>e r' f' l'. eMBFuncReadInputRegister r f l = Some (e, r', f', l') \<and>
      wf_regs r' \<and> \<not> cb_master r' \<and> length f' = length f \<and> (l' = l \<or> unat l' \<le> 252)"
    using * ne input_read_ok[of r 2 ?c ?f "mk16 (f ! 1) (f ! 2) + 1"]
    by (auto simp: eMBFuncReadInputRegister_def Let_def)
qed

lemma read_write_ok: "handler_ok eMBFuncReadWriteMultipleHoldingRegister"
  unfolding handler_ok_def
proof (intro allI impI)
  fix r :: mb_regs and f :: bytes and l :: u16
  assume *: "wf_regs r" "\<not> cb_master r" "255 \<le> length f"
  have ne: "f \<noteq> []" using * by auto
  let ?c = "mk16 (f ! 3) (f ! 4)" and ?w = "mk16 (f ! 7) (f ! 8)"
  let ?wa = "mk16 (f ! 5) (f ! 6) + 1" and ?ra = "mk16 (f ! 1) (f ! 2) + 1"
  let ?f = "f[0 := MB_FUNC_READWRITE_MULTIPLE_REGISTERS, Suc 0 := ucast (?c * 2)]"
  have c: "?c \<le> 0x7D \<Longrightarrow> 2 + 2 * unat ?c \<le> length ?f" "?c \<le> 0x7D \<Longrightarrow> unat (2 + 2 * ?c) \<le> 252"
    using * rsp_len[of ?c] by (simp_all add: word_le_nat_alt mult.commute)
  have "?w \<le> 0x79 \<Longrightarrow> 10 + 2 * unat ?w \<le> length f"
    using * by (simp add: word_le_nat_alt)
  then have W: "?w \<le> 0x79 \<Longrightarrow> \<exists>e r'. eMBRegHoldingCB r f 10 ?wa ?w MB_REG_WRITE = Some (e, r', f) \<and>
      wf_regs r' \<and> \<not> cb_master r'"
    using * hold_write_ok by blast
  have R: "?c \<le> 0x7D \<Longrightarrow> wf_regs r' \<Longrightarrow> \<not> cb_master r' \<Longrightarrow>
      \<exists>e f'. eMBRegHoldingCB r' ?f 2 ?ra ?c MB_REG_READ = Some (e, r', f') \<and> length f' = length ?f"
    for r' using c hold_read_ok[of r' 2 ?c ?f ?ra] by simp
  show "\<exists>e r' f' l'. eMBFuncReadWriteMultipleHoldingRegister r f l = Some (e, r', f', l') \<and>
      wf_regs r' \<and> \<not> cb_master r' \<and> length f' = length f \<and> (l' = l \<or> unat l' \<le> 252)"
  proof (cases "9 + 1 \<le> l \<and> 1 \<le> ?c \<and> ?c \<le> 0x7D \<and> 1 \<le> ?w \<and> ?w \<le> 0x79 \<and> 2 * unat ?w = unat (f ! 9)")
    case True
    with W obtain e r1 where w: "eMBRegHoldingCB r f 10 ?wa ?w MB_REG_WRITE = Some (e, r1, f)"
      "wf_regs r1" "\<not> cb_master r1" by blast
    moreover obtain e2 f2 where "eMBRegHoldingCB r1 ?f 2 ?ra ?c MB_REG_READ = Some (e2, r1, f2)"
      "length f2 = length ?f" using R[OF _ w(2,3)] True by blast
    ultimately show ?thesis
      using True * ne c(2) by (simp add: eMBFuncReadWriteMultipleHoldingRegister_def)
  next
    case False
    then show ?thesis
      using * by (auto simp: eMBFuncReadWriteMultipleHoldingRegister_def)
  qed
qed

section \<open>Requests over the holding-register bank\<close>

text \<open>
  A request of function 16 for registers from callback address \<open>a\<close> (one more
  than the address in the PDU) and of function 3, each in a frame of 255 bytes.
\<close>

definition fc16_req :: "u16 \<Rightarrow> u16 list \<Rightarrow> bytes" where
  "fc16_req a vs =
     [MB_FUNC_WRITE_MULTIPLE_REGISTERS, hi8 (a - 1), lo8 (a - 1),
      hi8 (of_nat (length vs)), lo8 (of_nat (length vs)), of_nat (2 * length vs)]
     @ reg_bytes vs @ replicate (249 - 2 * length vs) 0"

definition fc03_req :: "u16 \<Rightarrow> nat \<Rightarrow> bytes" where
  "fc03_req a n =
     [MB_FUNC_READ_HOLDING_REGISTER, hi8 (a - 1), lo8 (a - 1), hi8 (of_nat n), lo8 (of_nat n)]
     @ replicate 250 0"

lemma exc_of_simps [simp]:
  "exc_of MB_ENOERR = MB_EX_NONE" "exc_of MB_ENOREG = MB_EX_ILLEGAL_DATA_ADDRESS"
  by (simp_all add: exc_of_def)

lemma fc16_eq:
  assumes "slave_ok r" "1 \<le> length vs" "length vs \<le> 120" "6 \<le> l"
  shows "eMBFuncWriteMultipleHoldingRegister r (fc16_req a vs) l =
    Some (case hold_wr r a vs of
            Some r' \<Rightarrow> (MB_EX_NONE, r', fc16_req a vs, 5)
          | None \<Rightarrow> (MB_EX_ILLEGAL_DATA_ADDRESS, r, fc16_req a vs, l))"
proof -
  let ?n = "of_nat (length vs) :: u16"
  have n: "unat ?n = length vs" using assms by (simp add: unat_of_nat_u16)
  have cnt: "1 \<le> ?n" "?n \<le> 0x78" "ucast (2 * ?n) = (of_nat (2 * length vs) :: u8)"
    using assms n by (simp_all add: word_le_nat_alt)
      (simp add: word_unat_eq_iff unat_of_nat unat_word_ariths unsigned_ucast_eq take_bit_eq_mod)
  have "take (2 * length vs) (drop 6 (fc16_req a vs)) = reg_bytes vs"
    by (simp add: fc16_req_def)
  moreover have "6 + 2 * unat ?n \<le> length (fc16_req a vs)"
    using assms n by (simp add: fc16_req_def)
  ultimately have cb: "eMBRegHoldingCB r (fc16_req a vs) 6 a ?n MB_REG_WRITE =
      Some (case hold_wr r a vs of Some r' \<Rightarrow> (MB_ENOERR, r', fc16_req a vs)
            | None \<Rightarrow> (MB_ENOREG, r, fc16_req a vs))"
    using assms(1) n by (simp add: slave_ok_def eMBRegHoldingCB_write hold_wr_eq)
  have f: "frame16 (fc16_req a vs) (Suc 0) = Some (a - 1)" "frame16 (fc16_req a vs) 3 = Some ?n"
    "cget (fc16_req a vs) 5 = Some (of_nat (2 * length vs))"
    by (simp_all add: fc16_req_def)
  show ?thesis
    using assms(4) f cnt cb
    by (simp add: eMBFuncWriteMultipleHoldingRegister_def split: option.split)
qed

lemma fc03_eq:
  assumes "slave_ok r" "1 \<le> n" "n \<le> 125"
  shows "eMBFuncReadHoldingRegister r (fc03_req a n) 5 =
    Some (case hold_rd r a n of
            Some vs \<Rightarrow> (MB_EX_NONE, r, [3, of_nat (2 * n)] @ reg_bytes vs @ drop (2 + 2 * n) (fc03_req a n),
                        of_nat (2 + 2 * n))
          | None \<Rightarrow> (MB_EX_ILLEGAL_DATA_ADDRESS, r, (fc03_req a n)[0 := 3, 1 := of_nat (2 * n)], 2))"
proof -
  let ?n = "of_nat n :: u16" and ?f = "(fc03_req a n)[0 := 3, Suc 0 := of_nat (2 * n)]"
  have n: "unat ?n = n" using assms by (simp add: unat_of_nat_u16)
  have lo: "ucast (lo8 ?n) = ?n" using assms n by (simp add: ucast_lo8)
  have cnt: "1 \<le> ?n" "?n \<le> 0x7D" "ucast (?n * 2) = (of_nat (2 * n) :: u8)" "2 + ?n * 2 = of_nat (2 + 2 * n)"
    using assms n by (simp_all add: word_le_nat_alt)
      (simp add: word_unat_eq_iff unat_of_nat unat_word_ariths unsigned_ucast_eq take_bit_eq_mod mult.commute)
  have f: "frame16 (fc03_req a n) (Suc 0) = Some (a - 1)" "\<exists>h. cget (fc03_req a n) 3 = Some h"
    "cget (fc03_req a n) 4 = Some (lo8 ?n)" "fc03_req a n \<noteq> []" "Suc 0 < length (fc03_req a n)"
    by (simp_all add: fc03_req_def)
  have "2 + 2 * unat ?n \<le> length ?f" "take 2 ?f = [3, of_nat (2 * n)]"
    "drop (2 + 2 * n) ?f = drop (2 + 2 * n) (fc03_req a n)"
    using assms n by (simp_all add: fc03_req_def)
  then have cb: "eMBRegHoldingCB r ?f 2 a ?n MB_REG_READ =
      Some (case hold_rd r a n of
          Some vs \<Rightarrow> (MB_ENOERR, r, [3, of_nat (2 * n)] @ reg_bytes vs @ drop (2 + 2 * n) (fc03_req a n))
        | None \<Rightarrow> (MB_ENOREG, r, ?f))"
    using assms(1) n by (simp add: slave_ok_def eMBRegHoldingCB_read hold_rd_eq)
  show ?thesis
    using f cnt cb lo
    by (auto simp: eMBFuncReadHoldingRegister_def Let_def MB_FUNC_READ_HOLDING_REGISTER_def split: option.split)
qed

text \<open>A request of function 16, as the change of the banks it makes when it is granted.\<close>

definition fc16_write :: "mb_regs \<Rightarrow> u16 \<Rightarrow> u16 list \<Rightarrow> mb_regs option" where
  "fc16_write r a vs =
    (if 1 \<le> length vs \<and> length vs \<le> 120 then
       (case eMBFuncWriteMultipleHoldingRegister r (fc16_req a vs) (of_nat (6 + 2 * length vs)) of
          Some (MB_EX_NONE, r', _, _) \<Rightarrow> Some r' | _ \<Rightarrow> None)
     else None)"

lemma fc16_write_hold:
  assumes "slave_ok r" "fc16_write r a vs = Some r'"
  shows "hold_wr r a vs = Some r' \<and> 1 \<le> length vs \<and> length vs \<le> 120 \<and> hold_rd r a (length vs) \<noteq> None"
proof -
  have len: "1 \<le> length vs" "length vs \<le> 120"
    using assms(2) by (auto simp: fc16_write_def split: if_splits)
  then have "6 \<le> (of_nat (6 + 2 * length vs) :: u16)"
    by (simp only: word_le_nat_alt unat_of_nat_u16) (simp add: unat_of_nat_u16)
  from fc16_eq[OF assms(1) len this] show ?thesis
    using assms len by (auto simp: fc16_write_def hold_wr_eq hold_rd_eq split: option.splits if_splits)
qed

lemma fc16_run:
  "slave_ok r \<Longrightarrow> wr_all fc16_write r ws = Some r' \<Longrightarrow>
     wr_all hold_wr r ws = Some r' \<and>
     (\<forall>w \<in> set ws. 1 \<le> length (snd w) \<and> length (snd w) \<le> 120 \<and> hold_rd r (fst w) (length (snd w)) \<noteq> None)"
proof (induction ws arbitrary: r)
  case (Cons w ws)
  then obtain r1 where r1: "fc16_write r (fst w) (snd w) = Some r1" "wr_all fc16_write r1 ws = Some r'"
    by (auto simp: bind_eq_Some_conv)
  note h = fc16_write_hold[OF Cons.prems(1) r1(1)]
  have "slave_ok r1" using hold.wr_ok Cons.prems(1) h by blast
  with Cons.IH r1(2) have "wr_all hold_wr r1 ws = Some r'"
    "\<forall>w \<in> set ws. 1 \<le> length (snd w) \<and> length (snd w) \<le> 120 \<and> hold_rd r1 (fst w) (length (snd w)) \<noteq> None"
    by auto
  moreover have "hold_rd r1 b m = None \<longleftrightarrow> hold_rd r b m = None" for b m
    using h hold.rd_dom[OF Cons.prems(1)] by blast
  ultimately show ?case using h by simp
qed simp

section \<open>Properties\<close>

text \<open>
  C9: The handlers of the register functions never access memory outside the PDU buffer
  or the banks, whatever the request, and keep the banks well formed and the length of
  the answer inside a PDU.
\<close>

theorem register_handlers_safe:
  "list_all handler_ok
     [eMBFuncWriteHoldingRegister, eMBFuncWriteMultipleHoldingRegister, eMBFuncReadHoldingRegister,
      eMBFuncReadWriteMultipleHoldingRegister, eMBFuncReadInputRegister]"
  by (simp add: write_register_ok write_multiple_ok read_holding_ok read_write_ok read_input_ok)

text \<open>
  C10: After any sequence of accepted write multiple registers requests (function 16), a
  read holding registers request (function 3) for the range of any one of them answers
  with the values it wrote, provided no later request of the sequence wrote into that
  range; those before it may overlap it as they like.
\<close>

theorem fc16_sequence_reads_back:
  assumes "slave_ok r" "wr_all fc16_write r (us @ (a, vs) # ws) = Some r'" "\<forall>w \<in> set ws. apart (a, vs) w"
  shows "\<exists>f'. eMBFuncReadHoldingRegister r' (fc03_req a (length vs)) 5 =
             Some (MB_EX_NONE, r', [3, of_nat (2 * length vs)] @ reg_bytes vs @ f', of_nat (2 + 2 * length vs))"
proof -
  note run = fc16_run[OF assms(1,2)]
  have "hold_rd r' a (length vs) = Some vs"
    using hold.reads_back[OF assms(1) _ assms(3)] run by force
  moreover have "slave_ok r'" using hold.wr_all_ok assms(1) run by blast
  moreover have "1 \<le> length vs" "length vs \<le> 120" using run by force+
  ultimately show ?thesis by (simp add: fc03_eq)
qed

lemma fc16_granted:
  assumes "slave_ok r" "1 \<le> length vs" "length vs \<le> 100" "hold_wr r a vs \<noteq> None"
  shows "\<exists>r'. fc16_write r a vs = Some r' \<and> slave_ok r'"
proof -
  obtain r' where r': "hold_wr r a vs = Some r'" using assms(4) by blast
  have "6 \<le> (of_nat (6 + 2 * length vs) :: u16)"
    using assms(3) by (simp only: word_le_nat_alt unat_of_nat_u16) (simp add: unat_of_nat_u16)
  from fc16_eq[OF assms(1,2) _ this, of a] r' assms(2,3) have "fc16_write r a vs = Some r'"
    by (simp add: fc16_write_def)
  then show ?thesis using hold.wr_ok[OF assms(1) r'] by blast
qed

theorem fc16_sequence_reads_back_witness:
  "\<exists>r' f'. wr_all fc16_write init_regs ([(2, [9])] @ (1, [7, 8]) # [(5, [0x1234])]) = Some r' \<and>
     eMBFuncReadHoldingRegister r' (fc03_req 1 2) 5 =
       Some (MB_EX_NONE, r', [3, 4, 0, 7, 0, 8] @ f', 6)"
proof -
  have ok: "slave_ok init_regs" by (simp add: slave_ok_def init_regs_def wf_regs_def list_all_length)
  obtain r1 where r1: "fc16_write init_regs 2 [9] = Some r1" "slave_ok r1"
    using fc16_granted[OF ok, of "[9]" 2] by (auto simp: hold_wr_eq[OF ok])
  obtain r2 where r2: "fc16_write r1 1 [7, 8] = Some r2" "slave_ok r2"
    using fc16_granted[OF r1(2), of "[7, 8]" 1] by (auto simp: hold_wr_eq[OF r1(2)])
  obtain r3 where r3: "fc16_write r2 5 [0x1234] = Some r3"
    using fc16_granted[OF r2(2), of "[0x1234]" 5] by (auto simp: hold_wr_eq[OF r2(2)])
  have run: "wr_all fc16_write init_regs ([(2, [9])] @ (1, [7, 8]) # [(5, [0x1234])]) = Some r3"
    using r1(1) r2(1) r3 by simp
  have "\<forall>w \<in> set [(5 :: u16, [0x1234 :: u16])]. apart (1, [7, 8]) w" by (simp add: apart_def)
  from fc16_sequence_reads_back[OF ok run this] obtain f' where
    "eMBFuncReadHoldingRegister r3 (fc03_req 1 2) 5 = Some (MB_EX_NONE, r3, [3, 4] @ reg_bytes [7, 8] @ f', 6)"
    by (auto simp: numeral_2_eq_2)
  moreover have "[3, 4] @ reg_bytes [7, 8] @ f' = [3, 4, 0, 7, 0, 8] @ f'"
    by (simp add: hi8_def lo8_def)
  ultimately show ?thesis using run by metis
qed

text \<open>
  Write single coil (function 5) sets exactly the addressed coil; for the coils
  from 57 on the bit routine touches the byte after the last one of the bank.
\<close>

theorem fc05_write_coil:
  assumes "slave_ok r" "255 \<le> length f" "f ! 3 = 0xFF \<or> f ! 3 = 0" "f ! 4 = 0"
    "unat (mk16 (f ! 1) (f ! 2)) < 64"
  shows "(case eMBFuncWriteCoil r f 5 of
            None \<Rightarrow> 56 \<le> unat (mk16 (f ! 1) (f ! 2))
          | Some (e, r', f', l') \<Rightarrow>
              unat (mk16 (f ! 1) (f ! 2)) < 56 \<and> e = MB_EX_NONE \<and> f' = f \<and> l' = 5 \<and>
              (\<exists>c. r' = r \<lparr> ucSCoilBuf := c \<rparr> \<and> length c = 8 \<and>
                 (\<forall>j < 64. bbit c j \<longleftrightarrow>
                    (if j = unat (mk16 (f ! 1) (f ! 2)) then f ! 3 = 0xFF else bbit (ucSCoilBuf r) j))))"
proof -
  let ?w = "mk16 (f ! 1) (f ! 2)" and ?b = "[if f ! 3 = 0xFF then 1 else 0, 0] :: bytes"
  have a: "unat (?w + 1) = unat ?w + 1" using assms(5) by (simp add: unat_word_ariths)
  have ne: "f \<noteq> []" using assms(2) by auto
  have nb: "nbytes 1 = 1" by (simp add: nbytes_def)
  note r = assms(1)[unfolded slave_ok_def]
  have h: "eMBFuncWriteCoil r f 5 = do {
      (e, r, b) \<leftarrow> eMBRegCoilsCB r ?b 0 (?w + 1) 1 MB_REG_WRITE; Some (exc_of e, r, f, 5) }"
    using assms ne by (auto simp: eMBFuncWriteCoil_def)
  show ?thesis
  proof (cases "unat ?w < 56")
    case True
    then have safe: "coil_write_safe (unat (?w + 1) - 1) (unat (1 :: u16))"
      unfolding coil_write_safe_def a unat_1 nb using less_mult_imp_div_less[of "unat ?w" 7 8] by simp
    obtain c where c: "eMBRegCoilsCB r ?b 0 (?w + 1) 1 MB_REG_WRITE =
        Some (MB_ENOERR, r \<lparr> ucSCoilBuf := c \<rparr>, ?b)" "length c = 8"
      "\<forall>j < 64. bbit c j \<longleftrightarrow>
         (if unat ?w \<le> j \<and> j < unat ?w + 1 then bbit ?b (j - unat ?w)
          else bbit (ucSCoilBuf r) j \<or> unat ?w + 1 \<le> j \<and> j < unat ?w + 8 \<and> bbit ?b (j - unat ?w))"
      using eMBRegCoilsCB_write[OF _ _ _ _ safe, of r 0 ?b] r assms(5) nb a by auto
    have b0: "bbit ?b m \<longleftrightarrow> m = 0 \<and> f ! 3 = 0xFF" if "m < 8" for m
      using that by (auto simp: bbit_def bit_1_iff)
    define w where "w = unat ?w"
    have "bbit c j \<longleftrightarrow> (if j = w then f ! 3 = 0xFF else bbit (ucSCoilBuf r) j)" if "j < 64" for j
    proof (cases "w \<le> j \<and> j < w + 8")
      case True
      then have "j - w < 8" by auto
      from b0[OF this] True have "bbit ?b (j - w) \<longleftrightarrow> j = w \<and> f ! 3 = 0xFF" by auto
      then show ?thesis using c(3)[folded w_def] that True by auto
    qed (use c(3)[folded w_def] that in auto)
    note this[unfolded w_def]
    with True h c(1,2) show ?thesis by auto
  next
    case False
    then have "\<not> coil_write_safe (unat (?w + 1) - 1) (unat (1 :: u16))"
      unfolding coil_write_safe_def a unat_1 nb using div_le_mono[of 56 "unat ?w" 8] by simp
    then show ?thesis
      using False h eMBRegCoilsCB_write_None[of r "?w + 1" 1 ?b 0] r assms(5) a by simp
  qed
qed

theorem fc05_write_coil_witness:
  "case eMBFuncWriteCoil init_regs ([5, 0, 56, 0xFF, 0] @ replicate 250 0) 5 of None \<Rightarrow> True | Some _ \<Rightarrow> False"
  using fc05_write_coil[of init_regs "[5, 0, 56, 0xFF, 0] @ replicate 250 0"]
  by (simp add: slave_ok_def init_regs_def wf_regs_def list_all_length unat_mk16 split: option.splits)

text \<open>
  Read holding registers looks at the low byte of the count only: the high byte is
  overwritten, so a count of 256 * k + n is answered as n.
\<close>

theorem fc03_count_low_byte:
  assumes "slave_ok r" "255 \<le> length f" "1 \<le> unat (f ! 4)"
    "unat (mk16 (f ! 1) (f ! 2)) + unat (f ! 4) \<le> 100"
  shows "\<exists>f'. eMBFuncReadHoldingRegister r f 5 = Some (MB_EX_NONE, r, f', 2 + 2 * ucast (f ! 4)) \<and>
    take (2 + 2 * unat (f ! 4)) f' = [3, 2 * (f ! 4)] @
      reg_bytes (take (unat (f ! 4)) (drop (unat (mk16 (f ! 1) (f ! 2))) (usSRegHoldBuf r)))"
proof -
  let ?w = "mk16 (f ! 1) (f ! 2)" and ?n = "ucast (f ! 4) :: u16"
  have a: "unat (?w + 1) = unat ?w + 1" using assms(4) by (simp add: unat_word_ariths)
  have n: "unat ?n = unat (f ! 4)" by simp
  have lim: "1 \<le> ?n" "?n \<le> 0x7D" using assms n by (simp_all add: word_le_nat_alt)
  have b: "ucast (?n * 2) = 2 * (f ! 4)"
    by (simp add: word_unat_eq_iff unat_word_ariths unsigned_ucast_eq take_bit_eq_mod mod_mod_cancel mult.commute)
  have ne: "f \<noteq> []" using assms(2) by auto
  have l: "length (usSRegHoldBuf r) = 100" using assms(1) by (simp add: slave_ok_def wf_regs_def)
  have t: "take (Suc (Suc 0)) (f[0 := 3, Suc 0 := x]) = [3, x]" for x
    using assms(2) by (subst take_update2) auto
  show ?thesis
    using assms ne lim a n b l t
    by (auto simp: eMBFuncReadHoldingRegister_def Let_def slave_ok_def eMBRegHoldingCB_read
        MB_FUNC_READ_HOLDING_REGISTER_def take_Cons' mult.commute)
qed

theorem fc03_count_low_byte_witness:
  "\<exists>f'. eMBFuncReadHoldingRegister init_regs ([3, 0, 0, 0xFF, 1] @ replicate 250 0) 5
          = Some (MB_EX_NONE, init_regs, f', 4)"
  using fc03_count_low_byte[of init_regs "[3, 0, 0, 0xFF, 1] @ replicate 250 0"]
  by (auto simp: slave_ok_def init_regs_def wf_regs_def list_all_length unat_mk16)

text \<open>
  A request of function 23 that is too short is answered with MB_EX_NONE and the
  request itself, not with an exception.
\<close>

theorem fc23_short_request_accepted:
  "l < 10 \<Longrightarrow> eMBFuncReadWriteMultipleHoldingRegister r f l = Some (MB_EX_NONE, r, f, l)"
  by (auto simp: eMBFuncReadWriteMultipleHoldingRegister_def)

theorem fc23_short_request_accepted_witness:
  "eMBFuncReadWriteMultipleHoldingRegister init_regs [23] 1 = Some (MB_EX_NONE, init_regs, [23], 1)"
  by (rule fc23_short_request_accepted) simp

end
