(* ===== verification/MbTcp.thy ===== *)
theory MbTcp
  imports MbFuncs
begin

text \<open>
  Modbus over TCP, \<open>tcp/mbtcp.c\<close>, compiled in with \<open>MB_SLAVE_TCP_ENABLED\<close>.  The port below it
  (\<open>xMBTCPPortInit\<close>, \<open>xMBTCPPortGetRequest\<close>, \<open>xMBTCPPortSendResponse\<close>) is not part of the
  sources: what it answers is an argument.  A request is the buffer of the port and the length
  of the frame in it; a pointer to the frame is an offset into that buffer.
\<close>

unbundle bit_operations_syntax

abbreviation (input) MB_TCP_PID :: nat where "MB_TCP_PID \<equiv> 2"
abbreviation (input) MB_TCP_LEN :: nat where "MB_TCP_LEN \<equiv> 4"
abbreviation (input) MB_TCP_FUNC :: nat where "MB_TCP_FUNC \<equiv> 7"
abbreviation (input) MB_TCP_PROTOCOL_ID :: u16 where "MB_TCP_PROTOCOL_ID \<equiv> 0"
abbreviation (input) MB_TCP_PSEUDO_ADDRESS :: u8 where "MB_TCP_PSEUDO_ADDRESS \<equiv> 255"

definition eMBTCPDoInit :: "(u16 \<Rightarrow> bool) \<Rightarrow> u16 \<Rightarrow> eMBErrorCode" where
  "eMBTCPDoInit port_init ucTCPPort = (if \<not> port_init ucTCPPort then MB_EPORTERR else MB_ENOERR)"

definition eMBTCPReceive ::
    "(bytes \<times> u16) option \<Rightarrow> u8 \<times> nat option \<times> u16 \<Rightarrow> (eMBErrorCode \<times> u8 \<times> nat option \<times> u16) option" where
  "eMBTCPReceive request out =
    (case request of
       None \<Rightarrow> Some (MB_EIO, out)
     | Some (f, usLength) \<Rightarrow> do {
         h \<leftarrow> cget f MB_TCP_PID;
         l \<leftarrow> cget f (MB_TCP_PID + 1);
         let usPID = push_bit 8 (ucast h) OR ucast l;
         if usPID = MB_TCP_PROTOCOL_ID
         then Some (MB_ENOERR, MB_TCP_PSEUDO_ADDRESS, Some MB_TCP_FUNC, usLength - of_nat MB_TCP_FUNC)
         else Some (MB_EIO, out)
       })"

text \<open>The answer is the status, the buffer and what the port was given to send.\<close>

definition eMBTCPSend ::
    "(bytes \<Rightarrow> bool) \<Rightarrow> u8 \<Rightarrow> bytes \<Rightarrow> nat \<Rightarrow> u16 \<Rightarrow> (eMBErrorCode \<times> bytes \<times> bytes) option" where
  "eMBTCPSend send_ok unused buf pucFrame usLength = do {
     start \<leftarrow> (if pucFrame < MB_TCP_FUNC then None else Some (pucFrame - MB_TCP_FUNC));
     let usTCPLength = usLength + of_nat MB_TCP_FUNC;
     buf \<leftarrow> cset buf (start + MB_TCP_LEN) (of_int (drop_bit 8 (uint usLength + 1)));
     buf \<leftarrow> cset buf (start + MB_TCP_LEN + 1) (of_int ((uint usLength + 1) AND 0xFF));
     frame \<leftarrow> cread buf start (unat usTCPLength);
     Some (if send_ok frame then MB_ENOERR else MB_EIO, buf, frame)
   }"

lemma length_field:
  fixes n :: u16
  assumes "unat n \<le> 253"
  shows "mk16 (of_int (drop_bit 8 (uint n + 1))) (of_int ((uint n + 1) AND 0xFF)) = n + 1"
proof -
  have u: "uint n = int (unat n)" by simp
  then have le: "0 \<le> uint n" "uint n \<le> 253" using assms by linarith+
  have m: "(255 :: int) = mask 8" by (simp add: mask_eq_exp_minus_1)
  have "(uint n + 1) AND 0xFF = (uint n + 1) mod 256"
    unfolding m by (simp add: take_bit_eq_mod flip: take_bit_eq_mask)
  then have l: "(uint n + 1) AND 0xFF = uint n + 1" using le by simp
  have h: "drop_bit 8 (uint n + 1) = 0" using le by (simp add: drop_bit_eq_div)
  have b: "unat (of_int (uint n + 1) :: u8) = nat (uint n + 1)"
    using le by (simp only: unsigned_of_int take_bit_eq_mod) simp
  have "unat (n + 1) = unat n + 1" using assms by (simp add: unat_word_ariths)
  then have "unat (n + 1) = nat (uint n + 1)" using u by linarith
  then have "unat (mk16 0 (of_int (uint n + 1))) = unat (n + 1)" using b by (simp only: unat_mk16) simp
  then have "mk16 0 (of_int (uint n + 1)) = n + 1" by (rule unsigned_word_eqI)
  then show ?thesis unfolding l h by simp
qed

text \<open>
  A transaction: the request is in the buffer of the port, a handler of the registers works on
  its PDU in place, and the response goes out with the transaction, the protocol and the unit
  identifier of the request and its own length.
\<close>

theorem tcp_transaction:
  assumes "handler_ok h" "wf_regs r" "\<not> cb_master r" "262 \<le> length f" "f ! 2 = 0" "f ! 3 = 0"
    "7 \<le> unat n" "unat n \<le> 260"
  shows "\<exists>e r' f' len g. eMBTCPReceive (Some (f, n)) out = Some (MB_ENOERR, 255, Some 7, n - 7) \<and>
    h r (drop 7 f) (n - 7) = Some (e, r', f', len) \<and>
    eMBTCPSend ok 255 (take 7 f @ f') 7 len =
      Some (if ok (take (7 + unat len) g) then MB_ENOERR else MB_EIO, g, take (7 + unat len) g) \<and>
    take 4 g = take 4 f \<and> g ! 6 = f ! 6 \<and> mk16 (g ! 4) (g ! 5) = len + 1 \<and> drop 7 g = f'"
proof -
  have "mk16 0 0 = 0" by (simp add: mk16_def)
  then have pid: "push_bit 8 (ucast (f ! 2)) OR ucast (f ! 3) = (0 :: u16)" using assms(5,6) by simp
  have rcv: "eMBTCPReceive (Some (f, n)) out = Some (MB_ENOERR, 255, Some 7, n - 7)"
    using assms(4) pid by (simp add: eMBTCPReceive_def)
  have "255 \<le> length (drop 7 f)" using assms(4) by simp
  then obtain e r' f' len where h: "h r (drop 7 f) (n - 7) = Some (e, r', f', len)" "length f' = length f - 7"
    "len = n - 7 \<or> unat len \<le> 252"
    using assms(1)[unfolded handler_ok_def, rule_format, OF assms(2,3), of "drop 7 f" "n - 7"] by auto
  have "unat (n - 7) = unat n - 7" using assms(7) by (simp add: unat_sub word_le_nat_alt)
  then have len: "unat len \<le> 253" using h(3) assms(8) by auto
  then have l7: "unat (len + 7) = 7 + unat len" by (simp add: unat_word_ariths)
  let ?a = "of_int (drop_bit 8 (uint len + 1)) :: u8" and ?b = "of_int ((uint len + 1) AND 0xFF) :: u8"
  define g where "g = (take 7 f @ f')[4 := ?a, 5 := ?b]"
  have lg: "length g = length f" using h(2) assms(4) by (simp add: g_def)
  have "eMBTCPSend ok 255 (take 7 f @ f') 7 len =
      Some (if ok (take (7 + unat len) g) then MB_ENOERR else MB_EIO, g, take (7 + unat len) g)"
    using h(2) assms(4) len lg l7 by (simp add: eMBTCPSend_def Let_def g_def)
  moreover have "take 4 g = take 4 f" "drop 7 g = f'" using assms(4) h(2) by (simp_all add: g_def)
  moreover have "g ! 6 = f ! 6" "g ! 4 = ?a" "g ! 5 = ?b" using assms(4) h(2) by (simp_all add: g_def nth_append)
  ultimately show ?thesis using rcv h(1) length_field[OF len] by metis
qed

text \<open>A frame shorter than its header gets a length that wrapped around.\<close>

lemma short_frame_wraps:
  "eMBTCPReceive (Some (replicate 262 0, 6)) out = Some (MB_ENOERR, 255, Some 7, 0xFFFF)"
  by (simp add: eMBTCPReceive_def)

end
