(* ===== verification/OneWire.thy ===== *)
theory OneWire
  imports Prelude
begin

text \<open>
  The 1-Wire bus of the temperature sensors: the slots of \<open>DS18B20SROM.c\<close> on the pin and
  the search for the devices of \<open>ds18b20sech.c\<close>.  The state holds the operations on the
  pin so far; what the pin reads after them is an argument.
\<close>

unbundle bit_operations_syntax

section \<open>The pin\<close>

datatype ow_op = Dir_out | Dir_in | Drive bool | Delay_us nat | Sense | Irq_enable bool

type_synonym ow_env = "ow_op list \<Rightarrow> bool"

record onewire =
  ow_ops :: "ow_op list"
  ROM_NO :: bytes
  LastDiscrepancy :: int
  LastFamilyDiscrepancy :: int
  LastDeviceFlag :: bool
  crc8 :: u8

definition ow_do :: "ow_op list \<Rightarrow> onewire \<Rightarrow> onewire" where
  "ow_do os s = s \<lparr> ow_ops := ow_ops s @ os \<rparr>"

definition Read18b20IO :: "ow_env \<Rightarrow> onewire \<Rightarrow> bool \<times> onewire" where
  "Read18b20IO E s = (E (ow_ops s), ow_do [Sense] s)"

text \<open>The wait for the presence pulse: at most 101 turns.\<close>

function reset_wait :: "ow_env \<Rightarrow> nat \<Rightarrow> onewire \<Rightarrow> bool \<times> onewire" where
  "reset_wait E i s =
    (let (high, s) = Read18b20IO E s in
     if \<not> high then (True, s)
     else (let i = i + 1; s = ow_do [Delay_us 1] s
           in if 100 < i then (False, s) else reset_wait E i s))"
  by pat_completeness auto

termination by (relation "measure (\<lambda>(E, i, s). 101 - i)") auto

declare reset_wait.simps [simp del]

definition DS18B20_Reset :: "ow_env \<Rightarrow> onewire \<Rightarrow> bool \<times> onewire" where
  "DS18B20_Reset E s =
    (let s = ow_do [Dir_out, Drive True, Delay_us 1, Drive False, Delay_us 500, Drive True, Delay_us 2, Dir_in] s;
         (here, s) = reset_wait E 0 s
     in if here then (True, ow_do [Delay_us 410] s) else (False, s))"

definition DS18B20_ReadBit :: "ow_env \<Rightarrow> onewire \<Rightarrow> u8 \<times> onewire" where
  "DS18B20_ReadBit E s =
    (let s = ow_do [Dir_out, Drive False, Delay_us 12, Drive True, Dir_in, Delay_us 10] s;
         (high, s) = Read18b20IO E s
     in (if high then 1 else 0, ow_do [Delay_us 40] s))"

definition DS18B20_WriteBit :: "u8 \<Rightarrow> onewire \<Rightarrow> onewire" where
  "DS18B20_WriteBit b s =
     ow_do [Dir_out, Drive False, Delay_us 12, Drive (b AND 0x01 \<noteq> 0), Delay_us 30, Drive True, Delay_us 5] s"

fun write_bits8 :: "nat \<Rightarrow> u8 \<Rightarrow> onewire \<Rightarrow> onewire" where
  "write_bits8 0 d s = s"
| "write_bits8 (Suc n) d s = write_bits8 n (drop_bit 1 d) (DS18B20_WriteBit d s)"

definition DS18B20_WriteData :: "u8 \<Rightarrow> onewire \<Rightarrow> onewire" where
  "DS18B20_WriteData d s = ow_do [Irq_enable True] (write_bits8 8 d (ow_do [Irq_enable False] s))"

fun read_bits8 :: "ow_env \<Rightarrow> nat \<Rightarrow> u8 \<Rightarrow> onewire \<Rightarrow> u8 \<times> onewire" where
  "read_bits8 E 0 d s = (d, s)"
| "read_bits8 E (Suc n) d s =
    (let d = drop_bit 1 d; (b, s) = DS18B20_ReadBit E s
     in read_bits8 E n (if b \<noteq> 0 then d OR 0x80 else d) s)"

definition DS18B20_ReadData :: "ow_env \<Rightarrow> onewire \<Rightarrow> u8 \<times> onewire" where
  "DS18B20_ReadData E s =
    (let (d, s) = read_bits8 E 8 0 (ow_do [Irq_enable False] s) in (d, ow_do [Irq_enable True] s))"

section \<open>CRC-8\<close>

definition dscrc_table :: "u8 list" where
  "dscrc_table = [
    0, 94,188,226, 97, 63,221,131,194,156,126, 32,163,253, 31, 65,
    157,195, 33,127,252,162, 64, 30, 95,  1,227,189, 62, 96,130,220,
    35,125,159,193, 66, 28,254,160,225,191, 93,  3,128,222, 60, 98,
    190,224,  2, 92,223,129, 99, 61,124, 34,192,158, 29, 67,161,255,
    70, 24,250,164, 39,121,155,197,132,218, 56,102,229,187, 89,  7,
    219,133,103, 57,186,228,  6, 88, 25, 71,165,251,120, 38,196,154,
    101, 59,217,135,  4, 90,184,230,167,249, 27, 69,198,152,122, 36,
    248,166, 68, 26,153,199, 37,123, 58,100,134,216, 91,  5,231,185,
    140,210, 48,110,237,179, 81, 15, 78, 16,242,172, 47,113,147,205,
    17, 79,173,243,112, 46,204,146,211,141,111, 49,178,236, 14, 80,
    175,241, 19, 77,206,144,114, 44,109, 51,209,143, 12, 82,176,238,
    50,108,142,208, 83, 13,239,177,240,174, 76, 18,145,207, 45,115,
    202,148,118, 40,171,245, 23, 73,  8, 86,180,234,105, 55,213,139,
    87,  9,235,181, 54,104,138,212,149,203, 41,119,244,170, 72, 22,
    233,183, 85, 11,136,214, 52,106, 43,117,151,201, 74, 20,246,168,
    116, 42,200,150, 21, 75,169,247,182,232, 10, 84,215,137,107, 53]"

definition docrc8 :: "u8 \<Rightarrow> onewire \<Rightarrow> onewire option" where
  "docrc8 v s = do { c \<leftarrow> cget dscrc_table (unat (crc8 s XOR v)); Some (s \<lparr> crc8 := c \<rparr>) }"

section \<open>The search\<close>

definition OWReset :: "ow_env \<Rightarrow> onewire \<Rightarrow> bool \<times> onewire" where
  "OWReset E s = DS18B20_Reset E s"

definition OWWriteByte :: "u8 \<Rightarrow> onewire \<Rightarrow> onewire" where
  "OWWriteByte dat s = DS18B20_WriteData dat s"

definition OWWriteBit :: "u8 \<Rightarrow> onewire \<Rightarrow> onewire" where
  "OWWriteBit b s = DS18B20_WriteBit b s"

definition OWReadBit :: "ow_env \<Rightarrow> onewire \<Rightarrow> u8 \<times> onewire" where
  "OWReadBit E s = DS18B20_ReadBit E s"

text \<open>
  The direction at position \<open>n\<close>: the bit all devices have there, or at a discrepancy the
  way the last search went, 1 at the last discrepancy and 0 behind it.  A 0 chosen at a
  discrepancy is remembered.
\<close>

definition search_direction ::
    "int \<Rightarrow> nat \<Rightarrow> u8 \<Rightarrow> u8 \<Rightarrow> u8 \<Rightarrow> int \<Rightarrow> onewire \<Rightarrow> (bool \<times> int \<times> onewire) option" where
  "search_direction n k m id_bit cmp_id_bit lz s =
    (if id_bit \<noteq> cmp_id_bit then Some (id_bit = 1, lz, s)
     else do {
       b \<leftarrow> (if n < LastDiscrepancy s then map_option (\<lambda>r. 0 < r AND m) (cget (ROM_NO s) k)
             else Some (n = LastDiscrepancy s));
       Some (if b then (b, lz, s)
             else (b, n, if n < 9 then s \<lparr> LastFamilyDiscrepancy := n \<rparr> else s))
     })"

definition set_direction :: "bool \<Rightarrow> nat \<Rightarrow> u8 \<Rightarrow> onewire \<Rightarrow> onewire option" where
  "set_direction dir k m s = do {
     r \<leftarrow> cget (ROM_NO s) k;
     rom \<leftarrow> cset (ROM_NO s) k (if dir then r OR m else r AND NOT m);
     Some (OWWriteBit (if dir then 1 else 0) (s \<lparr> ROM_NO := rom \<rparr>))
   }"

text \<open>
  The loop over the bits: \<open>n\<close> is \<open>id_bit_number\<close>, \<open>k\<close> and \<open>m\<close> are the number of the byte and
  the mask of the bit in it, \<open>lz\<close> is \<open>last_zero\<close>.
\<close>

partial_function (option) search_loop ::
    "ow_env \<Rightarrow> int \<Rightarrow> nat \<Rightarrow> u8 \<Rightarrow> int \<Rightarrow> onewire \<Rightarrow> (int \<times> int \<times> onewire) option" where
  "search_loop E n k m lz s =
    (let (id_bit, s) = OWReadBit E s;
         (cmp_id_bit, s) = OWReadBit E s
     in if id_bit = 1 \<and> cmp_id_bit = 1 then Some (n, lz, s)
        else do {
          (dir, lz, s) \<leftarrow> search_direction n k m id_bit cmp_id_bit lz s;
          s \<leftarrow> set_direction dir k m s;
          let n = n + 1;
          let m = push_bit 1 m;
          (k, m, s) \<leftarrow> (if m = 0 then do {
               r \<leftarrow> cget (ROM_NO s) k;
               s \<leftarrow> docrc8 r s;
               Some (k + 1, 1, s)
             } else Some (k, m, s));
          if k < 8 then search_loop E n k m lz s else Some (n, lz, s)
        })"

definition reset_search :: "onewire \<Rightarrow> onewire" where
  "reset_search s = s \<lparr> LastDiscrepancy := 0, LastDeviceFlag := False, LastFamilyDiscrepancy := 0 \<rparr>"

definition OWSearch :: "ow_env \<Rightarrow> onewire \<Rightarrow> (bool \<times> onewire) option" where
  "OWSearch E s =
    (let s = s \<lparr> crc8 := 0 \<rparr>; (here, s') = OWReset E s
     in if \<not> LastDeviceFlag s \<and> \<not> here then Some (False, reset_search s')
        else do {
          (found, s) \<leftarrow> (if LastDeviceFlag s then Some (False, s)
             else do {
               (n, lz, s) \<leftarrow> search_loop E 1 0 1 0 (OWWriteByte 0xF0 s');
               Some (if \<not> (n < 65 \<or> crc8 s \<noteq> 0)
                     then (True, s \<lparr> LastDiscrepancy := lz,
                                    LastDeviceFlag := (if lz = 0 then True else LastDeviceFlag s) \<rparr>)
                     else (False, s))
             });
          b \<leftarrow> (if found then map_option (\<lambda>r. r = 0) (cget (ROM_NO s) 0) else Some True);
          Some (if b then (False, reset_search s) else (found, s))
        })"

definition OWFirst :: "ow_env \<Rightarrow> onewire \<Rightarrow> (bool \<times> onewire) option" where
  "OWFirst E s = OWSearch E (s \<lparr> LastDiscrepancy := 0, LastDeviceFlag := False, LastFamilyDiscrepancy := 0 \<rparr>)"

definition OWNext :: "ow_env \<Rightarrow> onewire \<Rightarrow> (bool \<times> onewire) option" where
  "OWNext E s = OWSearch E s"

definition OWVerify :: "ow_env \<Rightarrow> onewire \<Rightarrow> (bool \<times> onewire) option" where
  "OWVerify E s = do {
     rom_backup \<leftarrow> cread (ROM_NO s) 0 8;
     (found, s') \<leftarrow> OWSearch E (s \<lparr> LastDiscrepancy := 64, LastDeviceFlag := False \<rparr>);
     rslt \<leftarrow> (if found then map_option (\<lambda>r. rom_backup = r) (cread (ROM_NO s') 0 8) else Some False);
     rom \<leftarrow> cwrite (ROM_NO s') 0 rom_backup;
     Some (rslt, s' \<lparr> ROM_NO := rom, LastDiscrepancy := LastDiscrepancy s, LastDeviceFlag := LastDeviceFlag s,
                     LastFamilyDiscrepancy := LastFamilyDiscrepancy s \<rparr>)
   }"

definition OWTargetSetup :: "u8 \<Rightarrow> onewire \<Rightarrow> onewire option" where
  "OWTargetSetup family_code s = do {
     rom \<leftarrow> cwrite (ROM_NO s) 0 (family_code # replicate 7 0);
     Some (s \<lparr> ROM_NO := rom, LastDiscrepancy := 64, LastFamilyDiscrepancy := 0, LastDeviceFlag := False \<rparr>)
   }"

definition OWFamilySkipSetup :: "onewire \<Rightarrow> onewire" where
  "OWFamilySkipSetup s =
    (let d = LastFamilyDiscrepancy s
     in s \<lparr> LastDiscrepancy := d, LastFamilyDiscrepancy := 0,
           LastDeviceFlag := (if d = 0 then True else LastDeviceFlag s) \<rparr>)"

section \<open>Bits of a ROM code\<close>

definition rbit :: "bytes \<Rightarrow> nat \<Rightarrow> bool" where
  "rbit r i = bit (r ! (i div 8)) (i mod 8)"

definition agree :: "bytes \<Rightarrow> bytes \<Rightarrow> nat \<Rightarrow> bool" where
  "agree r d n \<longleftrightarrow> (\<forall>j < n. rbit r j = rbit d j)"

lemma agree_sym: "agree r d n \<Longrightarrow> agree d r n"
  by (simp add: agree_def)

lemma agree_trans: "agree r d n \<Longrightarrow> agree d e n \<Longrightarrow> agree r e n"
  by (simp add: agree_def)

lemma agree_less: "agree r d n \<Longrightarrow> m \<le> n \<Longrightarrow> agree r d m"
  by (simp add: agree_def)

lemma agree_Suc: "agree r d (Suc n) \<longleftrightarrow> agree r d n \<and> rbit r n = rbit d n"
  by (auto simp: agree_def less_Suc_eq)

lemma agree_refl [simp]: "agree r r n"
  by (simp add: agree_def)

lemma agree_0 [simp]: "agree r d 0"
  by (simp add: agree_def)

lemma agree_64:
  assumes "agree r d 64" "length r = 8" "length d = 8"
  shows "r = d"
proof (rule nth_equalityI)
  fix k assume k: "k < length r"
  show "r ! k = d ! k"
  proof (rule bit_word_eqI)
    fix i assume i: "i < LENGTH(8)"
    have "8 * k + i < 64" using k i assms(2) by simp
    then show "bit (r ! k) i \<longleftrightarrow> bit (d ! k) i"
      using assms(1) i by (auto simp: agree_def rbit_def dest!: spec[of _ "8 * k + i"])
  qed
qed (use assms in simp)

text \<open>The mask of the loop sets or clears one bit.\<close>

lemma bit_mask8: "bit (push_bit i 1 :: u8) j \<longleftrightarrow> j = i \<and> i < 8"
  by (auto simp: bit_simps)

lemma rbit_update:
  assumes "length r = 8" "j < 64" "i < 64"
  shows "rbit (r[j div 8 := if b then r ! (j div 8) OR push_bit (j mod 8) 1
                            else r ! (j div 8) AND NOT (push_bit (j mod 8) 1)]) i = (if i = j then b else rbit r i)"
proof (cases "i div 8 = j div 8")
  case True
  then have "i = j \<longleftrightarrow> i mod 8 = j mod 8" by (metis mod_div_decomp)
  then show ?thesis using True assms by (auto simp: rbit_def bit_simps bit_mask8)
next
  case False
  then show ?thesis by (auto simp: rbit_def)
qed

lemma rbit_test: "0 < r AND push_bit i (1 :: u8) \<longleftrightarrow> bit r i" if "i < 8"
proof -
  have "r AND push_bit i 1 = (if bit r i then push_bit i 1 else 0)"
    by (rule bit_word_eqI) (auto simp: bit_simps bit_mask8)
  moreover have "push_bit i (1 :: u8) \<noteq> 0"
    using bit_mask8[of i i] that by (metis bit_0_eq bot_apply bot_bool_def)
  ultimately show ?thesis by (simp add: word_gt_0)
qed

section \<open>The devices on the bus\<close>

text \<open>
  The slots as operations on the pin.
\<close>

definition reset_ops :: "ow_op list" where
  "reset_ops = [Dir_out, Drive True, Delay_us 1, Drive False, Delay_us 500, Drive True, Delay_us 2, Dir_in]"

definition waits :: "nat \<Rightarrow> ow_op list" where
  "waits i = concat (replicate i [Sense, Delay_us 1])"

definition read_ops :: "ow_op list" where
  "read_ops = [Dir_out, Drive False, Delay_us 12, Drive True, Dir_in, Delay_us 10]"

definition write_ops :: "bool \<Rightarrow> ow_op list" where
  "write_ops b = [Dir_out, Drive False, Delay_us 12, Drive b, Delay_us 30, Drive True, Delay_us 5]"

definition byte_ops :: "u8 \<Rightarrow> ow_op list" where
  "byte_ops d = [Irq_enable False] @ concat (map (\<lambda>i. write_ops (bit d i)) [0..<8]) @ [Irq_enable True]"

lemma ow_do_do [simp]: "ow_do b (ow_do a s) = ow_do (a @ b) s"
  by (simp add: ow_do_def)

lemma ow_ops_do [simp]: "ow_ops (ow_do a s) = ow_ops s @ a"
  by (simp add: ow_do_def)

lemma ow_do_fields [simp]:
  "ROM_NO (ow_do a s) = ROM_NO s" "LastDiscrepancy (ow_do a s) = LastDiscrepancy s"
  "LastFamilyDiscrepancy (ow_do a s) = LastFamilyDiscrepancy s" "LastDeviceFlag (ow_do a s) = LastDeviceFlag s"
  "crc8 (ow_do a s) = crc8 s"
  by (simp_all add: ow_do_def)

lemma ReadBit_eq:
  "DS18B20_ReadBit E s = (if E (ow_ops s @ read_ops) then 1 else 0, ow_do (read_ops @ [Sense, Delay_us 40]) s)"
  by (simp add: DS18B20_ReadBit_def Read18b20IO_def read_ops_def)

lemma WriteBit_eq: "DS18B20_WriteBit b s = ow_do (write_ops (bit b 0)) s"
  by (simp add: DS18B20_WriteBit_def write_ops_def one_and_eq and_one_eq even_iff_mod_2_eq_zero[symmetric] flip: bit_0)

lemma write_bits8_eq: "write_bits8 n d s = ow_do (concat (map (\<lambda>i. write_ops (bit d i)) [0..<n])) s"
proof (induction n arbitrary: d s)
  case 0
  then show ?case by (simp add: ow_do_def)
next
  case (Suc n)
  have "map (\<lambda>i. write_ops (bit d i)) [0..<Suc n] = write_ops (bit d 0) # map (\<lambda>i. write_ops (bit (drop_bit 1 d) i)) [0..<n]"
    by (simp add: upt_conv_Cons map_Suc_upt[symmetric] bit_drop_bit_eq del: upt_Suc)
  then show ?case using Suc.IH by (simp add: WriteBit_eq del: upt_Suc)
qed

lemma WriteData_eq: "DS18B20_WriteData d s = ow_do (byte_ops d) s"
  by (simp add: DS18B20_WriteData_def write_bits8_eq byte_ops_def del: upt_Suc)

lemma waits_Suc: "waits (Suc n) = [Sense, Delay_us 1] @ waits n"
  by (simp add: waits_def)

lemma reset_wait_step:
  "\<not> E (ow_ops s) \<Longrightarrow> reset_wait E k s = (True, ow_do [Sense] s)"
  "E (ow_ops s) \<Longrightarrow> 100 \<le> k \<Longrightarrow> reset_wait E k s = (False, ow_do [Sense, Delay_us 1] s)"
  "E (ow_ops s) \<Longrightarrow> k < 100 \<Longrightarrow> reset_wait E k s = reset_wait E (k + 1) (ow_do [Sense, Delay_us 1] s)"
  by (simp_all add: reset_wait.simps[of E k s] Read18b20IO_def Let_def)

lemma reset_wait_low:
  assumes "\<forall>j < i. E (ow_ops s @ waits j)" "\<not> E (ow_ops s @ waits i)" "k + i \<le> 100"
  shows "reset_wait E k s = (True, ow_do (waits i @ [Sense]) s)"
  using assms
proof (induction i arbitrary: k s)
  case 0
  then show ?case by (simp add: reset_wait_step waits_def)
next
  case (Suc i)
  have "E (ow_ops s)" using Suc.prems(1) by (auto simp: waits_def dest: spec[of _ 0])
  moreover have "reset_wait E (k + 1) (ow_do [Sense, Delay_us 1] s) = (True, ow_do (waits i @ [Sense]) (ow_do [Sense, Delay_us 1] s))"
  proof (rule Suc.IH)
    show "\<forall>j < i. E (ow_ops (ow_do [Sense, Delay_us 1] s) @ waits j)"
      using Suc.prems(1)[rule_format, of "Suc _"] by (simp add: waits_Suc)
  qed (use Suc.prems in \<open>simp_all add: waits_Suc\<close>)
  ultimately show ?case using Suc.prems(3) by (simp add: reset_wait_step waits_Suc)
qed

lemma reset_wait_high:
  assumes "\<forall>j. E (ow_ops s @ waits j)"
  shows "fst (reset_wait E k s) = False"
  using assms
proof (induction "101 - k" arbitrary: k s)
  case 0
  have "E (ow_ops s)" using 0(2) by (auto simp: waits_def dest: spec[of _ 0])
  then show ?case using 0(1) by (simp add: reset_wait_step)
next
  case (Suc n)
  have "E (ow_ops s)" using Suc.prems by (auto simp: waits_def dest: spec[of _ 0])
  moreover have "\<forall>j. E (ow_ops (ow_do [Sense, Delay_us 1] s) @ waits j)"
    using Suc.prems[rule_format, of "Suc _"] by (simp add: waits_Suc)
  then have "fst (reset_wait E (k + 1) (ow_do [Sense, Delay_us 1] s)) = False"
    using Suc(2) by (intro Suc.hyps(1)) simp_all
  ultimately show ?case by (cases "100 \<le> k") (simp_all add: reset_wait_step)
qed

section \<open>The order of the search\<close>

text \<open>
  ROM codes in the order of their bits, first bit first.  A position is a discrepancy for a
  path \<open>r\<close> if devices that agree with it before have both bits there.
\<close>

definition rom_less :: "bytes \<Rightarrow> bytes \<Rightarrow> bool" where
  "rom_less r d \<longleftrightarrow> (\<exists>i < 64. agree r d i \<and> \<not> rbit r i \<and> rbit d i)"

definition discrepancy :: "bytes set \<Rightarrow> bytes \<Rightarrow> nat \<Rightarrow> bool" where
  "discrepancy D r i \<longleftrightarrow> (\<exists>d \<in> D. agree d r i \<and> rbit d i) \<and> (\<exists>d \<in> D. agree d r i \<and> \<not> rbit d i)"

text \<open>The last position below \<open>n\<close> at which \<open>r\<close> goes to 0 at a discrepancy, counted from 1; 0 for none.\<close>

fun zero_taken :: "bytes set \<Rightarrow> bytes \<Rightarrow> nat \<Rightarrow> nat" where
  "zero_taken D r 0 = 0"
| "zero_taken D r (Suc i) = (if \<not> rbit r i \<and> discrepancy D r i then Suc i else zero_taken D r i)"

text \<open>The choice the search makes at the discrepancies below \<open>n\<close>.\<close>

definition follows :: "bytes set \<Rightarrow> nat \<Rightarrow> bytes \<Rightarrow> bytes \<Rightarrow> nat \<Rightarrow> bool" where
  "follows D l old r n \<longleftrightarrow> (\<forall>i < n. discrepancy D r i \<longrightarrow>
     rbit r i = (if i + 1 < l then rbit old i else i + 1 = l))"

lemma discrepancyI:
  "d \<in> D \<Longrightarrow> e \<in> D \<Longrightarrow> agree d r i \<Longrightarrow> agree e r i \<Longrightarrow> rbit d i \<Longrightarrow> \<not> rbit e i \<Longrightarrow> discrepancy D r i"
  unfolding discrepancy_def by blast

lemma discrepancy_cong: "agree r r' i \<Longrightarrow> discrepancy D r i = discrepancy D r' i"
  unfolding discrepancy_def using agree_trans agree_sym by metis

lemma zero_taken_cong: "agree r r' n \<Longrightarrow> zero_taken D r n = zero_taken D r' n"
  by (induction n) (auto simp: agree_Suc discrepancy_cong)

lemma follows_cong: "agree r r' n \<Longrightarrow> follows D l old r n \<Longrightarrow> follows D l old r' n"
  unfolding follows_def using discrepancy_cong agree_less
  by (metis agree_def less_imp_le)

lemma follows_Suc: "follows D l old r (Suc n) \<longleftrightarrow> follows D l old r n \<and>
    (discrepancy D r n \<longrightarrow> rbit r n = (if n + 1 < l then rbit old n else n + 1 = l))"
  by (auto simp: follows_def less_Suc_eq)

lemma zero_taken_le: "zero_taken D r n \<le> n"
  by (induction n) auto

lemma zero_taken_at:
  "zero_taken D r n = Suc k \<Longrightarrow> k < n \<and> \<not> rbit r k \<and> discrepancy D r k"
  by (induction n) (auto split: if_splits)

lemma zero_taken_ge:
  "i < n \<Longrightarrow> \<not> rbit r i \<Longrightarrow> discrepancy D r i \<Longrightarrow> Suc i \<le> zero_taken D r n"
  by (induction n) (auto simp: less_Suc_eq)

lemma first_difference:
  assumes "\<not> agree r d n"
  shows "\<exists>i < n. agree r d i \<and> rbit r i \<noteq> rbit d i"
  using assms by (induction n) (auto simp: agree_Suc less_Suc_eq)

lemma rom_total:
  assumes "length r = 8" "length d = 8" "r \<noteq> d"
  shows "rom_less r d \<or> rom_less d r"
proof -
  obtain i where "i < 64" "agree r d i" "rbit r i \<noteq> rbit d i"
    using first_difference[of r d 64] agree_64 assms by blast
  then show ?thesis unfolding rom_less_def using agree_sym by (cases "rbit r i") blast+
qed

lemma rom_less_trans:
  assumes "rom_less a b" "rom_less b c"
  shows "rom_less a c"
proof -
  obtain i j where i: "i < 64" "agree a b i" "\<not> rbit a i" "rbit b i"
    and j: "j < 64" "agree b c j" "\<not> rbit b j" "rbit c j" using assms by (auto simp: rom_less_def)
  consider "i < j" | "j < i" using i j by (cases i j rule: linorder_cases) auto
  then show ?thesis
  proof cases
    case 1
    then have "agree a c i" "rbit c i"
      using i j agree_trans[OF i(2) agree_less[OF j(2)]] by (auto simp: agree_def)
    then show ?thesis using i by (auto simp: rom_less_def)
  next
    case 2
    then have "agree a c j" "\<not> rbit a j"
      using i j agree_trans[OF agree_less[OF i(2)] j(2)] by (auto simp: agree_def)
    then show ?thesis using j by (auto simp: rom_less_def)
  qed
qed

lemma rom_less_irrefl: "\<not> rom_less r r"
  by (simp add: rom_less_def)

lemma follows_old:
  assumes "r \<in> D" "r' \<in> D" "follows D l r r' 64" "i \<le> 64" "i < l"
  shows "agree r' r i"
  using assms(4,5)
proof (induction i)
  case (Suc i)
  then have ih: "agree r' r i" by simp
  have "rbit r' i = rbit r i"
  proof (cases "discrepancy D r' i")
    case True
    then show ?thesis using assms(3) Suc.prems by (auto simp: follows_def)
  next
    case False
    then show ?thesis using assms(1,2) ih agree_sym[OF ih] unfolding discrepancy_def by auto
  qed
  then show ?case using ih by (simp add: agree_Suc)
qed simp

lemma search_successor:
  assumes "r \<in> D" "r' \<in> D" "zero_taken D r 64 = Suc k" "follows D (Suc k) r r' 64" "\<forall>d \<in> D. length d = 8"
  shows "rom_less r r'" "\<And>d. d \<in> D \<Longrightarrow> rom_less r d \<Longrightarrow> d = r' \<or> rom_less r' d"
proof -
  have k: "k < 64" "\<not> rbit r k" "discrepancy D r k" using zero_taken_at[OF assms(3)] by simp_all
  have pre: "agree r' r k" using follows_old[OF assms(1,2,4), of k] k by simp
  have "rbit r' k" using assms(4) k discrepancy_cong[OF pre] by (auto simp: follows_def)
  then show "rom_less r r'" using k agree_sym[OF pre] by (auto simp: rom_less_def)
  fix d assume d: "d \<in> D" "rom_less r d"
  show "d = r' \<or> rom_less r' d"
  proof (rule ccontr)
    assume n: "\<not> (d = r' \<or> rom_less r' d)"
    then have "rom_less d r'" using rom_total[of d r'] assms(2,5) d(1) by blast
    then obtain i where i: "i < 64" "agree d r' i" "\<not> rbit d i" "rbit r' i" by (auto simp: rom_less_def)
    have disc: "discrepancy D r' i"
      by (rule discrepancyI[OF assms(2) d(1) agree_refl i(2) i(4) i(3)])
    have f: "rbit r' i = (if i + 1 < Suc k then rbit r i else i + 1 = Suc k)"
      using assms(4) disc i(1) unfolding follows_def by blast
    obtain q where q: "q < 64" "agree r d q" "\<not> rbit r q" "rbit d q" using d(2) by (auto simp: rom_less_def)
    have q_le: "q \<le> k"
    proof -
      have "discrepancy D r q"
        by (rule discrepancyI[OF d(1) assms(1) agree_sym[OF q(2)] agree_refl q(4) q(3)])
      from zero_taken_ge[OF q(1,3) this] assms(3) show ?thesis by simp
    qed
    consider "i < k" | "i = k" using f i(4) by (auto split: if_splits)
    then show False
    proof cases
      case 1
      have "rbit r i" using f i(4) 1 by simp
      moreover have "agree d r i" using agree_trans[OF i(2) agree_less[OF pre]] 1 by simp
      ultimately show False using q i(3) by (cases q i rule: linorder_cases) (auto simp: agree_def)
    next
      case 2
      have "agree d r k" using agree_trans[OF i(2)] pre 2 by simp
      then show False using q q_le i(3) 2 by (cases "q = k") (auto simp: agree_def)
    qed
  qed
qed

lemma search_first:
  assumes "r' \<in> D" "follows D 0 old r' 64" "\<forall>d \<in> D. length d = 8" "d \<in> D"
  shows "d = r' \<or> rom_less r' d"
proof (rule ccontr)
  assume "\<not> (d = r' \<or> rom_less r' d)"
  then have "rom_less d r'" using rom_total[of d r'] assms by blast
  then obtain i where i: "i < 64" "agree d r' i" "\<not> rbit d i" "rbit r' i" by (auto simp: rom_less_def)
  then have "discrepancy D r' i" using discrepancyI[OF assms(1,4) agree_refl] by blast
  then show False using assms(2) i by (auto simp: follows_def)
qed

lemma search_last:
  assumes "r \<in> D" "d \<in> D" "zero_taken D r 64 = 0"
  shows "\<not> rom_less r d"
proof
  assume "rom_less r d"
  then obtain i where i: "i < 64" "agree r d i" "\<not> rbit r i" "rbit d i" by (auto simp: rom_less_def)
  have "discrepancy D r i" by (rule discrepancyI[OF assms(2,1) agree_sym[OF i(2)] agree_refl i(4) i(3)])
  from zero_taken_ge[OF i(1,3) this] show False using assms(3) by simp
qed

section \<open>The bus\<close>

text \<open>
  What devices with the codes \<open>D\<close> do on the pin, as the 1-Wire standard describes it: a
  presence pulse after a reset, and after the search command in each position the bit and
  its complement, which the devices that follow the path so far pull low, and the
  direction.  \<open>R ops p k\<close> stands for: after \<open>ops\<close> the search has taken the path \<open>p\<close>, and
  \<open>k\<close> of the two bits of the next position were read.
\<close>

definition on_path :: "bytes \<Rightarrow> bool list \<Rightarrow> bool" where
  "on_path d p \<longleftrightarrow> (\<forall>j < length p. rbit d j = p ! j)"

definition ow_laws :: "ow_env \<Rightarrow> bytes set \<Rightarrow> (ow_op list \<Rightarrow> bool list \<Rightarrow> nat \<Rightarrow> bool) \<Rightarrow> bool" where
  "ow_laws E D R \<longleftrightarrow>
     (D = {} \<longrightarrow> (\<forall>ops i. E (ops @ reset_ops @ waits i))) \<and>
     (D \<noteq> {} \<longrightarrow> (\<forall>ops. \<exists>i \<le> 100. (\<forall>j < i. E (ops @ reset_ops @ waits j)) \<and> \<not> E (ops @ reset_ops @ waits i) \<and>
        R (ops @ reset_ops @ waits i @ [Sense, Delay_us 410] @ byte_ops 0xF0) [] 0)) \<and>
     (\<forall>ops p. R ops p 0 \<longrightarrow> length p < 64 \<longrightarrow>
        E (ops @ read_ops) = (\<forall>d \<in> D. on_path d p \<longrightarrow> rbit d (length p)) \<and>
        R (ops @ read_ops @ [Sense, Delay_us 40]) p 1) \<and>
     (\<forall>ops p. R ops p 1 \<longrightarrow> length p < 64 \<longrightarrow>
        E (ops @ read_ops) = (\<forall>d \<in> D. on_path d p \<longrightarrow> \<not> rbit d (length p)) \<and>
        R (ops @ read_ops @ [Sense, Delay_us 40]) p 2) \<and>
     (\<forall>ops p b. R ops p 2 \<longrightarrow> length p < 64 \<longrightarrow> R (ops @ write_ops b) (p @ [b]) 0)"

definition ow_bus :: "ow_env \<Rightarrow> bytes set \<Rightarrow> bool" where
  "ow_bus E D \<longleftrightarrow> (\<exists>R. ow_laws E D R)"

definition rom_crc :: "bytes \<Rightarrow> u8" where
  "rom_crc r = foldl (\<lambda>c b. dscrc_table ! unat (c XOR b)) 0 r"

text \<open>Codes as devices have them: eight bytes with their CRC, and a family that is not 0.\<close>

definition valid_roms :: "bytes set \<Rightarrow> bool" where
  "valid_roms D \<longleftrightarrow> (\<forall>d \<in> D. length d = 8 \<and> rom_crc d = 0 \<and> d ! 0 \<noteq> 0)"

section \<open>The loop\<close>

definition path_of :: "bytes \<Rightarrow> nat \<Rightarrow> bool list" where
  "path_of r j = map (rbit r) [0..<j]"

lemma length_path_of [simp]: "length (path_of r j) = j"
  by (simp add: path_of_def)

lemma on_path_of: "on_path d (path_of r j) \<longleftrightarrow> agree d r j"
  by (simp add: on_path_def path_of_def agree_def)

lemma path_of_Suc: "agree r r' j \<Longrightarrow> path_of r' (Suc j) = path_of r j @ [rbit r' j]"
  by (auto simp: path_of_def agree_def)

definition searching ::
    "bytes set \<Rightarrow> (ow_op list \<Rightarrow> bool list \<Rightarrow> nat \<Rightarrow> bool) \<Rightarrow> nat \<Rightarrow> bytes \<Rightarrow> nat \<Rightarrow> int \<Rightarrow> onewire \<Rightarrow> bool" where
  "searching D R l old j lz s \<longleftrightarrow> length (ROM_NO s) = 8 \<and> R (ow_ops s) (path_of (ROM_NO s) j) 0 \<and>
     (\<exists>d \<in> D. agree d (ROM_NO s) j) \<and> (\<forall>i. j \<le> i \<longrightarrow> i < 64 \<longrightarrow> rbit (ROM_NO s) i = rbit old i) \<and>
     follows D l old (ROM_NO s) j \<and> lz = int (zero_taken D (ROM_NO s) j) \<and> LastDiscrepancy s = int l \<and>
     \<not> LastDeviceFlag s \<and> crc8 s = rom_crc (take (j div 8) (ROM_NO s))"

lemma dscrc_table_length: "length dscrc_table = 256"
  by (simp add: dscrc_table_def)

lemma docrc8_eq: "docrc8 v s = Some (s \<lparr> crc8 := dscrc_table ! unat (crc8 s XOR v) \<rparr>)"
  by (simp add: docrc8_def dscrc_table_length)

lemma mask_next:
  assumes "i < 8"
  shows "push_bit 1 (push_bit i (1 :: u8)) = 0 \<longleftrightarrow> i = 7"
    "i \<noteq> 7 \<Longrightarrow> push_bit 1 (push_bit i (1 :: u8)) = push_bit (Suc i) 1"
proof -
  have e: "push_bit 1 (push_bit i (1 :: u8)) = push_bit (Suc i) 1" by (simp add: push_bit_push_bit)
  then show "push_bit 1 (push_bit i (1 :: u8)) = push_bit (Suc i) 1" .
  show "push_bit 1 (push_bit i (1 :: u8)) = 0 \<longleftrightarrow> i = 7"
  proof (cases "i = 7")
    case True
    then show ?thesis by simp
  next
    case False
    then have "bit (push_bit (Suc i) (1 :: u8)) (Suc i)" using assms unfolding bit_mask8 by simp
    then show ?thesis using False unfolding e by (metis bit_0_eq bot_apply bot_bool_def)
  qed
qed

text \<open>One turn of the loop.\<close>

lemma read_two:
  assumes "ow_laws E D R" "R (ow_ops s) p 0" "length p < 64"
  shows "\<exists>s'. R (ow_ops s') p 2 \<and> ROM_NO s' = ROM_NO s \<and> LastDiscrepancy s' = LastDiscrepancy s \<and>
    LastDeviceFlag s' = LastDeviceFlag s \<and> crc8 s' = crc8 s \<and>
    (let (a, s1) = OWReadBit E s; (b, s2) = OWReadBit E s1 in (a, b, s2)) =
      (if \<forall>d \<in> D. on_path d p \<longrightarrow> rbit d (length p) then 1 else 0,
       if \<forall>d \<in> D. on_path d p \<longrightarrow> \<not> rbit d (length p) then 1 else 0, s')"
proof -
  let ?slot = "read_ops @ [Sense, Delay_us 40]"
  have 1: "E (ow_ops s @ read_ops) = (\<forall>d \<in> D. on_path d p \<longrightarrow> rbit d (length p))" "R (ow_ops s @ ?slot) p 1"
    using assms unfolding ow_laws_def by blast+
  then have "E ((ow_ops s @ ?slot) @ read_ops) = (\<forall>d \<in> D. on_path d p \<longrightarrow> \<not> rbit d (length p))"
    "R ((ow_ops s @ ?slot) @ ?slot) p 2"
    using assms(1,3) unfolding ow_laws_def by blast+
  then show ?thesis
    using 1(1) by (intro exI[of _ "ow_do ?slot (ow_do ?slot s)"]) (simp add: OWReadBit_def ReadBit_eq)
qed

lemma direction_spec:
  assumes "searching D R l old j lz s" "j < 64" "ROM_NO s1 = ROM_NO s" "LastDiscrepancy s1 = LastDiscrepancy s"
    "a = (if \<forall>d \<in> D. agree d (ROM_NO s) j \<longrightarrow> rbit d j then 1 else 0)"
    "b = (if \<forall>d \<in> D. agree d (ROM_NO s) j \<longrightarrow> \<not> rbit d j then 1 else 0)"
  shows "\<not> (a = 1 \<and> b = 1)"
    "\<exists>dir lz' s'. search_direction (int j + 1) (j div 8) (push_bit (j mod 8) 1) a b lz s1 = Some (dir, lz', s') \<and>
      (\<exists>d \<in> D. agree d (ROM_NO s) j \<and> rbit d j = dir) \<and>
      (discrepancy D (ROM_NO s) j \<longrightarrow> dir = (if j + 1 < l then rbit old j else j + 1 = l)) \<and>
      lz' = (if \<not> dir \<and> discrepancy D (ROM_NO s) j then int j + 1 else lz) \<and>
      ow_ops s' = ow_ops s1 \<and> ROM_NO s' = ROM_NO s1 \<and> LastDiscrepancy s' = LastDiscrepancy s1 \<and>
      LastDeviceFlag s' = LastDeviceFlag s1 \<and> crc8 s' = crc8 s1"
proof -
  let ?r = "ROM_NO s"
  have s: "length ?r = 8" "LastDiscrepancy s = int l" "rbit ?r j = rbit old j"
    using assms(1,2) by (auto simp: searching_def)
  obtain d0 where d0: "d0 \<in> D" "agree d0 ?r j" using assms(1) by (auto simp: searching_def)
  show "\<not> (a = 1 \<and> b = 1)" using d0 assms(5,6) by (auto split: if_splits)
  have k: "j div 8 < 8" "j mod 8 < 8" using assms(2) by auto
  have test: "0 < ?r ! (j div 8) AND push_bit (j mod 8) 1 \<longleftrightarrow> rbit old j"
    unfolding rbit_test[OF k(2)] using s(3) by (simp add: rbit_def)
  have c: "int j + 1 < int l \<longleftrightarrow> j + 1 < l" "int j + 1 = int l \<longleftrightarrow> j + 1 = l" by linarith+
  consider (one) "\<forall>d \<in> D. agree d ?r j \<longrightarrow> rbit d j" | (zero) "\<forall>d \<in> D. agree d ?r j \<longrightarrow> \<not> rbit d j"
    | (both) "discrepancy D ?r j" unfolding discrepancy_def by blast
  then show "\<exists>dir lz' s'. search_direction (int j + 1) (j div 8) (push_bit (j mod 8) 1) a b lz s1 = Some (dir, lz', s') \<and>
      (\<exists>d \<in> D. agree d ?r j \<and> rbit d j = dir) \<and>
      (discrepancy D ?r j \<longrightarrow> dir = (if j + 1 < l then rbit old j else j + 1 = l)) \<and>
      lz' = (if \<not> dir \<and> discrepancy D ?r j then int j + 1 else lz) \<and>
      ow_ops s' = ow_ops s1 \<and> ROM_NO s' = ROM_NO s1 \<and> LastDiscrepancy s' = LastDiscrepancy s1 \<and>
      LastDeviceFlag s' = LastDeviceFlag s1 \<and> crc8 s' = crc8 s1"
  proof cases
    case one
    then have "\<not> discrepancy D ?r j" "a = 1" "b = 0" using d0 assms(5,6) by (auto simp: discrepancy_def)
    then show ?thesis using one d0 by (auto simp: search_direction_def)
  next
    case zero
    then have "\<not> discrepancy D ?r j" "a = 0" "b = 1" using d0 assms(5,6) by (auto simp: discrepancy_def)
    then show ?thesis using zero d0 by (auto simp: search_direction_def)
  next
    case both
    then have ab: "a = 0" "b = 0" using assms(5,6) by (auto simp: discrepancy_def)
    have "\<exists>d \<in> D. agree d ?r j \<and> rbit d j = x" for x using both by (cases x) (auto simp: discrepancy_def)
    moreover have "cget (ROM_NO s1) (j div 8) = Some (?r ! (j div 8))" using k s(1) assms(3) by simp
    ultimately show ?thesis
      using both test c by (auto simp: search_direction_def ab assms(4) s(2))
  qed
qed

lemma search_step:
  assumes "ow_laws E D R" "searching D R l old j lz s" "j < 64"
  shows "\<exists>lz' s'. searching D R l old (Suc j) lz' s' \<and>
    search_loop E (int j + 1) (j div 8) (push_bit (j mod 8) 1) lz s =
      (if Suc j < 64 then search_loop E (int (Suc j) + 1) (Suc j div 8) (push_bit (Suc j mod 8) 1) lz' s'
       else Some (65, lz', s'))"
proof -
  let ?r = "ROM_NO s" and ?k = "j div 8" and ?m = "push_bit (j mod 8) 1 :: u8"
  have inv: "length ?r = 8" "R (ow_ops s) (path_of ?r j) 0" "\<forall>i. j \<le> i \<longrightarrow> i < 64 \<longrightarrow> rbit ?r i = rbit old i"
    "follows D l old ?r j" "lz = int (zero_taken D ?r j)" "LastDiscrepancy s = int l" "\<not> LastDeviceFlag s"
    "crc8 s = rom_crc (take ?k ?r)"
    using assms(2) by (simp_all add: searching_def)
  have k: "?k < 8" "j mod 8 < 8" using assms(3) by auto
  define a where "a = (if \<forall>d \<in> D. agree d ?r j \<longrightarrow> rbit d j then 1 else 0 :: u8)"
  define b where "b = (if \<forall>d \<in> D. agree d ?r j \<longrightarrow> \<not> rbit d j then 1 else 0 :: u8)"
  obtain s1 where s1: "R (ow_ops s1) (path_of ?r j) 2" "ROM_NO s1 = ?r" "LastDiscrepancy s1 = LastDiscrepancy s"
    "LastDeviceFlag s1 = LastDeviceFlag s" "crc8 s1 = crc8 s"
    "(let (a, s1) = OWReadBit E s; (b, s2) = OWReadBit E s1 in (a, b, s2)) = (a, b, s1)"
    using read_two[OF assms(1) inv(2), unfolded length_path_of on_path_of, OF assms(3), folded a_def b_def] by blast
  note dir = direction_spec[OF assms(2,3) s1(2,3) a_def b_def]
  from dir(2) obtain c lz' s2 where d: "search_direction (int j + 1) ?k ?m a b lz s1 = Some (c, lz', s2)"
    "\<exists>d \<in> D. agree d ?r j \<and> rbit d j = c" "discrepancy D ?r j \<longrightarrow> c = (if j + 1 < l then rbit old j else j + 1 = l)"
    "lz' = (if \<not> c \<and> discrepancy D ?r j then int j + 1 else lz)"
    "ow_ops s2 = ow_ops s1" "ROM_NO s2 = ?r" "LastDiscrepancy s2 = int l" "\<not> LastDeviceFlag s2"
    "crc8 s2 = rom_crc (take ?k ?r)"
    unfolding s1(2-5) inv(6,8) using inv(7) by blast
  define r' where "r' = ?r[?k := if c then ?r ! ?k OR ?m else ?r ! ?k AND NOT ?m]"
  have r': "rbit r' i = (if i = j then c else rbit ?r i)" if "i < 64" for i
    unfolding r'_def by (rule rbit_update[OF inv(1) assms(3) that])
  define s3 where "s3 = ow_do (write_ops c) (s2 \<lparr> ROM_NO := r' \<rparr>)"
  have set: "set_direction c ?k ?m s2 = Some s3"
    using k(1) inv(1) d(6) by (simp add: set_direction_def r'_def s3_def OWWriteBit_def WriteBit_eq)
  have ag: "agree ?r r' j" using r' assms(3) by (simp add: agree_def)
  have R3: "R (ow_ops s3) (path_of r' (Suc j)) 0"
    using assms(1,3) s1(1) d(5) path_of_Suc[OF ag] r'[OF assms(3)]
    unfolding ow_laws_def by (simp add: s3_def ow_do_def)
  obtain d1 where d1: "d1 \<in> D" "agree d1 ?r j" "rbit d1 j = c" using d(2) by blast
  have ex: "\<exists>d \<in> D. agree d r' (Suc j)"
    using d1 agree_trans[OF d1(2) ag] r'[OF assms(3)] by (auto simp: agree_Suc)
  have fo: "follows D l old r' (Suc j)"
    using follows_cong[OF ag inv(4)] d(3) discrepancy_cong[OF ag] r'[OF assms(3)] by (simp add: follows_Suc)
  have lz': "lz' = int (zero_taken D r' (Suc j))"
    using d(4) inv(5) zero_taken_cong[OF ag] discrepancy_cong[OF ag] r'[OF assms(3)] by auto
  have len: "length r' = 8" using inv(1) by (simp add: r'_def)
  define s4 where "s4 = (if j mod 8 = 7 then s3 \<lparr> crc8 := dscrc_table ! unat (crc8 s3 XOR r' ! ?k) \<rparr> else s3)"
  have tk: "take ?k r' = take ?k ?r" by (simp add: r'_def)
  have crc: "crc8 s4 = rom_crc (take (Suc j div 8) r')"
  proof (cases "j mod 8 = 7")
    case True
    then have "Suc j div 8 = Suc ?k" by (simp add: div_Suc mod_Suc)
    then show ?thesis using True d(9) k(1) len tk
      by (simp add: s4_def s3_def rom_crc_def take_Suc_conv_app_nth)
  next
    case False
    then have "Suc j div 8 = ?k" by (simp add: div_Suc mod_Suc)
    then show ?thesis using False d(9) tk by (simp add: s4_def s3_def)
  qed
  have "searching D R l old (Suc j) lz' s4"
    using R3 ex fo lz' len crc d(7,8) inv(3) r' unfolding searching_def by (simp add: s4_def s3_def)
  moreover have "search_loop E (int j + 1) ?k ?m lz s = do {
      (k, m, s) \<leftarrow> (if push_bit 1 ?m = 0 then Some (?k + 1, 1, s4) else Some (?k, push_bit 1 ?m, s4));
      if k < 8 then search_loop E (int j + 1 + 1) k m lz' s else Some (int j + 1 + 1, lz', s) }"
  proof -
    obtain t where t: "OWReadBit E s = (a, t)" "OWReadBit E t = (b, s1)"
      using s1(6) by (cases "OWReadBit E s"; cases "OWReadBit E (snd (OWReadBit E s))") simp
    have 7: "push_bit 1 ?m = 0 \<longleftrightarrow> j mod 8 = 7" by (rule mask_next(1)[OF k(2)])
    have rom: "cget (ROM_NO s3) ?k = Some (r' ! ?k)" using k(1) len by (simp add: s3_def)
    have q: "\<not> (a = 1 \<and> b = 1)" using dir(1) .
    show ?thesis
      unfolding search_loop.simps[of E "int j + 1"] Let_def t prod.case if_not_P[OF q] d(1) bind.bind_lunit set
        docrc8_eq rom
      by (cases "push_bit 1 ?m = 0") (simp_all only: 7[symmetric] s4_def if_True if_False bind.bind_lunit prod.case simp_thms)
  qed
  moreover have "int j + 1 + 1 = int (Suc j) + 1" by simp
  moreover have "j mod 8 = 7 \<Longrightarrow> Suc j div 8 = ?k + 1 \<and> Suc j mod 8 = 0" "j mod 8 \<noteq> 7 \<Longrightarrow> Suc j div 8 = ?k \<and> Suc j mod 8 = Suc (j mod 8)"
    by (simp_all add: div_Suc mod_Suc)
  moreover have "Suc j < 64 \<longleftrightarrow> Suc j div 8 < 8" "\<not> Suc j < 64 \<Longrightarrow> j = 63" using assms(3) by auto
  ultimately show ?thesis
    using mask_next[OF k(2)] by (intro exI[of _ lz'] exI[of _ s4]) (cases "j mod 8 = 7"; simp add: mult.commute)
qed

lemma search_all:
  assumes "ow_laws E D R" "j \<le> 63" "searching D R l old j lz s"
  shows "\<exists>lz' s'. searching D R l old 64 lz' s' \<and>
    search_loop E (int j + 1) (j div 8) (push_bit (j mod 8) 1) lz s = Some (65, lz', s')"
  using assms(2,3)
proof (induction j arbitrary: lz s rule: inc_induct)
  case base
  from search_step[OF assms(1) base] show ?case by (simp del: push_bit_of_1)
next
  case (step j)
  then have j: "j < 64" "Suc j < 64" by simp_all
  obtain lz1 s1 where s1: "searching D R l old (Suc j) lz1 s1"
    "search_loop E (int j + 1) (j div 8) (push_bit (j mod 8) 1) lz s =
       search_loop E (int (Suc j) + 1) (Suc j div 8) (push_bit (Suc j mod 8) 1) lz1 s1"
    using search_step[OF assms(1) step.prems j(1)] unfolding if_P[OF j(2)] by blast
  from step.IH[OF s1(1)] show ?case unfolding s1(2) .
qed

lemma Reset_eq: "DS18B20_Reset E s = (let (here, t) = reset_wait E 0 (ow_do reset_ops s)
    in if here then (True, ow_do [Delay_us 410] t) else (False, t))"
  by (simp only: DS18B20_Reset_def reset_ops_def Let_def)

text \<open>A search from any state in which the last device was not reached.\<close>

lemma search_found:
  assumes "ow_bus E D" "valid_roms D" "D \<noteq> {}" "length (ROM_NO s) = 8" "\<not> LastDeviceFlag s"
    "LastDiscrepancy s = int l"
  shows "\<exists>s'. OWSearch E s = Some (True, s') \<and> ROM_NO s' \<in> D \<and> follows D l (ROM_NO s) (ROM_NO s') 64 \<and>
    LastDiscrepancy s' = int (zero_taken D (ROM_NO s') 64) \<and>
    LastDeviceFlag s' = (zero_taken D (ROM_NO s') 64 = 0)"
proof -
  obtain R where R: "ow_laws E D R" using assms(1) by (auto simp: ow_bus_def)
  define s0 where "s0 = ow_do reset_ops (s \<lparr> crc8 := 0 \<rparr>)"
  obtain i where i: "i \<le> 100" "\<forall>j < i. E (ow_ops s0 @ waits j)" "\<not> E (ow_ops s0 @ waits i)"
    "R (ow_ops s0 @ waits i @ [Sense, Delay_us 410] @ byte_ops 0xF0) [] 0"
    using R assms(3) unfolding ow_laws_def by (auto simp: s0_def) (metis append_assoc)
  define s1 where "s1 = ow_do (waits i @ [Sense, Delay_us 410] @ byte_ops 0xF0) s0"
  have reset: "OWReset E (s \<lparr> crc8 := 0 \<rparr>) = (True, ow_do (waits i @ [Sense, Delay_us 410]) s0)"
    using reset_wait_low[OF i(2,3), of 0] i(1)
    by (simp add: OWReset_def Reset_eq s0_def[symmetric])
  have s1: "OWWriteByte 0xF0 (ow_do (waits i @ [Sense, Delay_us 410]) s0) = s1"
    by (simp add: OWWriteByte_def WriteData_eq s1_def)
  have "searching D R l (ROM_NO s) 0 0 s1"
    using i(4) assms(3-6) by (auto simp: searching_def s1_def s0_def follows_def path_of_def rom_crc_def)
  from search_all[OF R _ this] obtain lz s2 where s2: "searching D R l (ROM_NO s) 64 lz s2"
    "search_loop E 1 0 1 0 s1 = Some (65, lz, s2)" by auto
  have len: "length (ROM_NO s2) = 8" "crc8 s2 = rom_crc (ROM_NO s2)" "\<not> LastDeviceFlag s2"
    "lz = int (zero_taken D (ROM_NO s2) 64)" "follows D l (ROM_NO s) (ROM_NO s2) 64"
    using s2(1) by (simp_all add: searching_def)
  obtain d where "d \<in> D" "agree d (ROM_NO s2) 64" using s2(1) by (auto simp: searching_def)
  then have d: "ROM_NO s2 \<in> D" using agree_64[of d "ROM_NO s2"] len(1) assms(2) by (auto simp: valid_roms_def)
  then have "crc8 s2 = 0" "ROM_NO s2 ! 0 \<noteq> 0" using assms(2) len(2) by (auto simp: valid_roms_def)
  then show ?thesis
    using assms(5) d len reset s1 s2(2) by (simp add: OWSearch_def Let_def)
qed

lemma search_end:
  assumes "LastDeviceFlag s"
  shows "\<exists>s'. OWSearch E s = Some (False, s') \<and> ROM_NO s' = ROM_NO s \<and> LastDiscrepancy s' = 0 \<and>
    \<not> LastDeviceFlag s'"
  using assms by (cases "OWReset E (s \<lparr> crc8 := 0 \<rparr>)") (simp add: OWSearch_def Let_def reset_search_def)

lemma search_empty:
  assumes "ow_bus E {}" "\<not> LastDeviceFlag s"
  shows "\<exists>s'. OWSearch E s = Some (False, s')"
proof -
  obtain R where R: "ow_laws E {} R" using assms(1) by (auto simp: ow_bus_def)
  define s0 where "s0 = ow_do reset_ops (s \<lparr> crc8 := 0 \<rparr>)"
  have "\<forall>j. E (ow_ops s0 @ waits j)" using R by (simp add: ow_laws_def s0_def)
  from reset_wait_high[OF this, of 0] have "fst (OWReset E (s \<lparr> crc8 := 0 \<rparr>)) = False"
    by (simp add: OWReset_def Reset_eq s0_def[symmetric] case_prod_beta)
  then show ?thesis using assms(2)
    by (cases "OWReset E (s \<lparr> crc8 := 0 \<rparr>)") (simp add: OWSearch_def Let_def)
qed

section \<open>The table of the CRC\<close>

text \<open>The CRC-8 of the devices: the polynomial \<open>x^8 + x^5 + x^4 + 1\<close>, lowest bit first.\<close>

definition crc8_bit :: "u8 \<Rightarrow> u8" where
  "crc8_bit c = (if bit c 0 then drop_bit 1 c XOR 0x8C else drop_bit 1 c)"

lemma crc8_bit_eq_0: "crc8_bit c = 0 \<Longrightarrow> c = 0"
proof -
  assume c: "crc8_bit c = 0"
  show "c = 0"
  proof (cases "bit c 0")
    case True
    then have "drop_bit 1 c = 0x8C" using c by (simp add: crc8_bit_def xor_0_iff)
    moreover have "bit (0x8C :: u8) 7" by simp
    ultimately have "bit (drop_bit 1 c) 7" by simp
    then show ?thesis by (auto simp: bit_simps dest: bit_imp_le_length)
  next
    case False
    show ?thesis
    proof (rule bit_word_eqI)
      fix i assume "i < LENGTH(8)"
      have "bit (drop_bit 1 c) k = False" for k using c False by (simp add: crc8_bit_def)
      from this[of "i - 1"] show "bit c i \<longleftrightarrow> bit 0 i" using False by (cases i) (auto simp: bit_simps)
    qed
  qed
qed

lemma crc8_bits_eq_0: "(crc8_bit ^^ n) c = 0 \<Longrightarrow> c = 0"
  by (induction n) (auto dest: crc8_bit_eq_0)

definition crc8_bit_i :: "int \<Rightarrow> int" where
  "crc8_bit_i c = (if odd c then (c div 2) XOR 0x8C else c div 2)"

lemma crc8_bit_i_numeral:
  "crc8_bit_i (numeral (num.Bit0 k)) = numeral k"
  "crc8_bit_i (numeral (num.Bit1 k)) = numeral k XOR 0x8C"
  "crc8_bit_i 1 = 0x8C" "crc8_bit_i 0 = 0"
  by (simp_all add: crc8_bit_i_def)

lemma uint_crc8_bit: "uint (crc8_bit c) = crc8_bit_i (uint c)"
proof -
  have "bit c 0 \<longleftrightarrow> odd (uint c)" by (simp add: bit_uint_iff bit_0 [symmetric])
  moreover have "uint (drop_bit 1 c) = uint c div 2"
    by (simp only: unsigned_drop_bit_eq) (simp add: drop_bit_Suc take_bit_int_eq_self_iff)
  ultimately show ?thesis
    by (simp add: crc8_bit_def crc8_bit_i_def unsigned_xor_eq)
qed

lemma uint_crc8_bits: "uint ((crc8_bit ^^ n) c) = (crc8_bit_i ^^ n) (uint c)"
  by (induction n) (simp_all add: uint_crc8_bit)

lemma funpow_eight: "(f ^^ 8) x = f (f (f (f (f (f (f (f x)))))))"
  by (simp add: eval_nat_numeral)

lemma crc8_table_i: "map (crc8_bit_i ^^ 8) [0..255] = map uint dscrc_table"
  by (simp add: funpow_eight crc8_bit_i_numeral dscrc_table_def upto_rec1 del: funpow.simps)

text \<open>The table holds the eight steps of the polynomial for each byte.\<close>

lemma crc8_table: "dscrc_table ! unat x = (crc8_bit ^^ 8) x"
proof -
  let ?i = "unat x"
  have i: "?i < 256" by simp
  have u: "[0..255] ! ?i = int ?i" using i by (subst nth_upto) linarith+
  have "(crc8_bit_i ^^ 8) (int ?i) = map (crc8_bit_i ^^ 8) [0..255] ! ?i"
    using i by (simp only: nth_map length_upto u)
  also have "\<dots> = uint (dscrc_table ! ?i)" unfolding crc8_table_i using i by (simp add: dscrc_table_length)
  finally have "uint ((crc8_bit ^^ 8) x) = uint (dscrc_table ! ?i)" by (simp add: uint_crc8_bits)
  then show ?thesis by (simp only: word_uint_eq_iff)
qed

lemma crc8_zero: "dscrc_table ! unat (x :: u8) = 0 \<Longrightarrow> x = 0"
  unfolding crc8_table by (rule crc8_bits_eq_0)

lemma rom_crc_last: "rom_crc (r @ [x]) = 0 \<Longrightarrow> x = rom_crc r"
  by (auto simp: rom_crc_def xor_0_iff dest!: crc8_zero)

text \<open>So the last bit of a code is fixed by those before it.\<close>

lemma agree_63:
  assumes "agree r d 63" "length r = 8" "length d = 8" "rom_crc r = 0" "rom_crc d = 0"
  shows "r = d"
proof -
  have t: "take 7 r = take 7 d"
  proof (rule nth_equalityI)
    fix k assume k: "k < length (take 7 r)"
    show "take 7 r ! k = take 7 d ! k"
    proof (rule bit_word_eqI)
      fix i assume i: "i < LENGTH(8)"
      have "8 * k + i < 63" using k i assms(2) by simp
      then show "bit (take 7 r ! k) i \<longleftrightarrow> bit (take 7 d ! k) i"
        using assms(1) i k by (auto simp: agree_def rbit_def dest!: spec[of _ "8 * k + i"])
    qed
  qed (use assms in simp)
  have split: "r = take 7 r @ [r ! 7]" "d = take 7 d @ [d ! 7]"
    using take_Suc_conv_app_nth[of 7 r] take_Suc_conv_app_nth[of 7 d] assms(2,3) by simp_all
  have "r ! 7 = rom_crc (take 7 r)" using rom_crc_last[of "take 7 r" "r ! 7"] split(1) assms(4) by simp
  moreover have "d ! 7 = rom_crc (take 7 d)" using rom_crc_last[of "take 7 d" "d ! 7"] split(2) assms(5) by simp
  ultimately show ?thesis using split t by simp
qed

section \<open>Properties\<close>

text \<open>The first search and \<open>n\<close> further ones.\<close>

fun ow_find :: "ow_env \<Rightarrow> nat \<Rightarrow> onewire \<Rightarrow> (bool \<times> onewire) option" where
  "ow_find E 0 s = OWFirst E s"
| "ow_find E (Suc n) s = do { (_, s) \<leftarrow> ow_find E n s; OWNext E s }"

lemma rom_sorted:
  assumes "sorted_wrt rom_less ds" "m < length ds" "n < length ds" "rom_less (ds ! m) (ds ! n)"
  shows "m < n"
proof (rule ccontr)
  assume "\<not> m < n"
  then consider "m = n" | "n < m" by linarith
  then show False
  proof cases
    case 2
    then have "rom_less (ds ! n) (ds ! m)" using assms(1,2) by (simp add: sorted_wrt_iff_nth_less)
    then show ?thesis using rom_less_trans[OF assms(4)] rom_less_irrefl by blast
  qed (use assms(4) rom_less_irrefl in blast)
qed

lemma next_in_order:
  assumes "sorted_wrt rom_less ds" "n < length ds" "r \<in> set ds" "rom_less (ds ! n) r"
    "\<And>d. d \<in> set ds \<Longrightarrow> rom_less (ds ! n) d \<Longrightarrow> d = r \<or> rom_less r d"
  shows "Suc n < length ds \<and> ds ! Suc n = r"
proof -
  obtain m where m: "m < length ds" "ds ! m = r" using assms(3) by (auto simp: in_set_conv_nth)
  have "n < m" using rom_sorted[OF assms(1,2) m(1)] assms(4) m(2) by simp
  then have n: "Suc n < length ds" using m(1) by simp
  have "rom_less (ds ! n) (ds ! Suc n)" using assms(1) n by (simp add: sorted_wrt_iff_nth_less)
  then consider "ds ! Suc n = r" | "rom_less r (ds ! Suc n)" using assms(5) n nth_mem by blast
  then show ?thesis
  proof cases
    case 2
    then have "m < Suc n" using rom_sorted[OF assms(1) m(1) n] m(2) by simp
    then show ?thesis using \<open>n < m\<close> by simp
  qed (use n in blast)
qed

lemma found_step:
  assumes "ow_bus E (set ds)" "valid_roms (set ds)" "ds \<noteq> []" "sorted_wrt rom_less ds" "length (ROM_NO s) = 8"
    "n < length ds"
  shows "\<exists>s'. ow_find E n s = Some (True, s') \<and> ROM_NO s' = ds ! n \<and>
    LastDiscrepancy s' = int (zero_taken (set ds) (ds ! n) 64) \<and>
    LastDeviceFlag s' = (zero_taken (set ds) (ds ! n) 64 = 0)"
  using assms(6)
proof (induction n)
  case 0
  let ?s = "s \<lparr> LastDiscrepancy := 0, LastDeviceFlag := False, LastFamilyDiscrepancy := 0 \<rparr>"
  have ne: "set ds \<noteq> {}" using assms(3) by simp
  have len: "\<forall>d \<in> set ds. length d = 8" using assms(2) by (simp add: valid_roms_def)
  obtain s' where s': "OWSearch E ?s = Some (True, s')" "ROM_NO s' \<in> set ds"
    "follows (set ds) 0 (ROM_NO ?s) (ROM_NO s') 64"
    "LastDiscrepancy s' = int (zero_taken (set ds) (ROM_NO s') 64)"
    "LastDeviceFlag s' = (zero_taken (set ds) (ROM_NO s') 64 = 0)"
    using search_found[OF assms(1,2) ne, of ?s 0] assms(5) by auto
  obtain m where m: "m < length ds" "ds ! m = ROM_NO s'" using s'(2) by (auto simp: in_set_conv_nth)
  have "ds ! 0 = ROM_NO s' \<or> rom_less (ROM_NO s') (ds ! 0)"
    using search_first[OF s'(2,3) len] 0 nth_mem by blast
  then have "ds ! 0 = ROM_NO s'" using rom_sorted[OF assms(4) m(1) 0] m(2) by auto
  then show ?case using s' by (simp add: OWFirst_def)
next
  case (Suc n)
  then obtain s1 where s1: "ow_find E n s = Some (True, s1)" "ROM_NO s1 = ds ! n"
    "LastDiscrepancy s1 = int (zero_taken (set ds) (ds ! n) 64)"
    "LastDeviceFlag s1 = (zero_taken (set ds) (ds ! n) 64 = 0)" by auto
  have n: "n < length ds" "ds ! n \<in> set ds" "ds ! Suc n \<in> set ds" using Suc.prems by simp_all
  have "rom_less (ds ! n) (ds ! Suc n)" using assms(4) Suc.prems by (simp add: sorted_wrt_iff_nth_less)
  then have "zero_taken (set ds) (ds ! n) 64 \<noteq> 0" using search_last[OF n(2,3)] by blast
  then obtain k where k: "zero_taken (set ds) (ds ! n) 64 = Suc k" by (cases "zero_taken (set ds) (ds ! n) 64") auto
  have len: "\<forall>d \<in> set ds. length d = 8" using assms(2) by (simp add: valid_roms_def)
  have ne: "set ds \<noteq> {}" using assms(3) by simp
  obtain s' where s': "OWSearch E s1 = Some (True, s')" "ROM_NO s' \<in> set ds"
    "follows (set ds) (Suc k) (ds ! n) (ROM_NO s') 64"
    "LastDiscrepancy s' = int (zero_taken (set ds) (ROM_NO s') 64)"
    "LastDeviceFlag s' = (zero_taken (set ds) (ROM_NO s') 64 = 0)"
    using search_found[OF assms(1,2) ne, of s1 "Suc k"] s1(2-4) k len n(2) by auto
  note succ = search_successor[OF n(2) s'(2) k s'(3) len]
  have "ds ! Suc n = ROM_NO s'" using next_in_order[OF assms(4) n(1) s'(2) succ] by blast
  then show ?case using s1(1) s' by (simp add: OWNext_def)
qed

text \<open>
  C23: On a bus with n devices, OWFirst and OWNext find them one after the other in the
  order of their identities read with the least significant bit first, each once; the
  call after the last answers that there is none, and every search ends after its 64
  bits.
\<close>

theorem search_enumerates:
  assumes "ow_bus E (set ds)" "valid_roms (set ds)" "ds \<noteq> []" "sorted_wrt rom_less ds" "length (ROM_NO s) = 8"
    "n \<le> length ds"
  shows "\<exists>s'. ow_find E n s = Some (n < length ds, s') \<and> (n < length ds \<longrightarrow> ROM_NO s' = ds ! n)"
proof (cases "n < length ds")
  case True
  then show ?thesis using found_step[OF assms(1-5) True] by auto
next
  case False
  then obtain m where m: "n = Suc m" "m < length ds" using assms(3,6) by (cases n) auto
  obtain s1 where s1: "ow_find E m s = Some (True, s1)"
    "LastDeviceFlag s1 = (zero_taken (set ds) (ds ! m) 64 = 0)" "ROM_NO s1 = ds ! m"
    "LastDiscrepancy s1 = int (zero_taken (set ds) (ds ! m) 64)"
    using found_step[OF assms(1-5) m(2)] by (elim exE conjE) (rule that)
  have len: "\<forall>d \<in> set ds. length d = 8" using assms(2) by (simp add: valid_roms_def)
  have ne: "set ds \<noteq> {}" using assms(3) by simp
  have "zero_taken (set ds) (ds ! m) 64 = 0"
  proof (rule ccontr)
    assume "zero_taken (set ds) (ds ! m) 64 \<noteq> 0"
    then obtain k where k: "zero_taken (set ds) (ds ! m) 64 = Suc k" by (cases "zero_taken (set ds) (ds ! m) 64") auto
    have "length (ROM_NO s1) = 8" "\<not> LastDeviceFlag s1" "LastDiscrepancy s1 = int (Suc k)"
      using s1(2-4) k len nth_mem[OF m(2)] by simp_all
    from search_found[OF assms(1,2) ne this] obtain s' :: onewire where s': "ROM_NO s' \<in> set ds"
      "follows (set ds) (Suc k) (ds ! m) (ROM_NO s') 64" unfolding s1(3) by blast
    note succ = search_successor[OF nth_mem[OF m(2)] s'(1) k s'(2) len]
    have "Suc m < length ds" using next_in_order[OF assms(4) m(2) s'(1) succ] by blast
    then show False using False m(1) by simp
  qed
  then have "LastDeviceFlag s1" using s1(2) by simp
  from search_end[OF this, of E] obtain s' where "OWSearch E s1 = Some (False, s')" by (elim exE conjE) (rule that)
  then show ?thesis using s1(1) m(1) False by (simp add: OWNext_def)
qed


text \<open>
  OWVerify answers whether the device whose identity stands in ROM_NO is on the
  bus, and leaves the state of the search as it was.
\<close>

theorem verify_finds_device:
  assumes "ow_bus E D" "valid_roms D" "D \<noteq> {}" "length (ROM_NO s) = 8" "rom_crc (ROM_NO s) = 0"
  shows "\<exists>s'. OWVerify E s = Some (ROM_NO s \<in> D, s') \<and> ROM_NO s' = ROM_NO s \<and>
    LastDiscrepancy s' = LastDiscrepancy s \<and> LastFamilyDiscrepancy s' = LastFamilyDiscrepancy s \<and>
    LastDeviceFlag s' = LastDeviceFlag s"
proof -
  let ?s = "s \<lparr> LastDiscrepancy := 64, LastDeviceFlag := False \<rparr>"
  have len: "\<forall>d \<in> D. length d = 8" using assms(2) by (simp add: valid_roms_def)
  obtain s1 where s1: "OWSearch E ?s = Some (True, s1)" "ROM_NO s1 \<in> D" "follows D 64 (ROM_NO s) (ROM_NO s1) 64"
    using search_found[OF assms(1-3), of ?s 64] assms(4) by auto
  have "ROM_NO s = ROM_NO s1" if "ROM_NO s \<in> D"
  proof -
    have "agree (ROM_NO s1) (ROM_NO s) 63" using follows_old[OF that s1(2,3), of 63] by simp
    then show ?thesis using agree_63[of "ROM_NO s1" "ROM_NO s"] s1(2) assms(2,4,5) by (simp add: valid_roms_def)
  qed
  then have eq: "ROM_NO s = ROM_NO s1 \<longleftrightarrow> ROM_NO s \<in> D" using s1(2) by auto
  have l1: "length (ROM_NO s1) = 8" using len s1(2) by blast
  then show ?thesis
    using assms(4) eq by (simp add: OWVerify_def s1(1) cwrite_def)
qed

text \<open>
  \<open>OWTargetSetup\<close> makes the next search answer a device of the family, where the bus has one.
\<close>

theorem target_setup_finds_family:
  assumes "ow_bus E D" "valid_roms D" "d \<in> D" "d ! 0 = f" "length (ROM_NO s) = 8"
  shows "\<exists>s1 s2. OWTargetSetup f s = Some s1 \<and> OWNext E s1 = Some (True, s2) \<and> ROM_NO s2 \<in> D \<and> ROM_NO s2 ! 0 = f"
proof -
  let ?old = "f # replicate 7 0"
  let ?s1 = "s \<lparr> ROM_NO := ?old, LastDiscrepancy := 64, LastFamilyDiscrepancy := 0, LastDeviceFlag := False \<rparr>"
  have s1: "OWTargetSetup f s = Some ?s1" using assms(5) by (simp add: OWTargetSetup_def cwrite_def)
  have ne: "D \<noteq> {}" using assms(3) by blast
  obtain s2 where s2: "OWSearch E ?s1 = Some (True, s2)" "ROM_NO s2 \<in> D" "follows D 64 ?old (ROM_NO s2) 64"
    using search_found[OF assms(1,2) ne, of ?s1 64] by auto
  have fb: "rbit d i = rbit ?old i" if "i < 8" for i using that assms(4) by (simp add: rbit_def)
  have ag: "agree (ROM_NO s2) ?old i" if "i \<le> 8" for i
    using that
  proof (induction i)
    case (Suc i)
    then have ih: "agree (ROM_NO s2) ?old i" by simp
    have d: "agree d (ROM_NO s2) i" using ih fb Suc.prems by (auto simp: agree_def)
    have "rbit (ROM_NO s2) i = rbit ?old i"
    proof (cases "discrepancy D (ROM_NO s2) i")
      case True
      then show ?thesis using s2(3) Suc.prems by (simp add: follows_def)
    next
      case False
      then have "rbit (ROM_NO s2) i = rbit d i"
        using discrepancyI[OF s2(2) assms(3) agree_refl d] discrepancyI[OF assms(3) s2(2) d agree_refl] by blast
      then show ?thesis using fb[of i] Suc.prems by simp
    qed
    then show ?case using ih by (simp add: agree_Suc)
  qed simp
  have "ROM_NO s2 ! 0 = f"
  proof (rule bit_word_eqI)
    fix i assume i: "i < LENGTH(8)"
    have "agree (ROM_NO s2) ?old 8" by (rule ag) simp
    then show "bit (ROM_NO s2 ! 0) i \<longleftrightarrow> bit f i" using i by (auto simp: agree_def rbit_def dest!: spec[of _ i])
  qed
  then show ?thesis using s1 s2 by (auto simp: OWNext_def)
qed

section \<open>A bus that keeps the laws\<close>

text \<open>
  Devices as a machine over the operations on the pin: the command slots that are still to
  come after a reset, the path, the bits read at its position, the level of the pin and
  the bit of the last write slot.
\<close>

type_synonym ow_sim = "nat \<times> bool list \<times> nat \<times> bool \<times> bool"

fun sim_step :: "ow_op \<Rightarrow> ow_sim \<Rightarrow> ow_sim" where
  "sim_step (Drive b) (c, p, k, l, x) = (c, p, k, b, x)"
| "sim_step (Delay_us n) (c, p, k, l, x) =
    (if n = 500 then (8, [], 0, l, x) else if n = 30 then (c, p, k, l, l)
     else if n = 5 then (if 0 < c then (c - 1, p, k, l, x) else if k = 2 then (c, p @ [x], 0, l, x) else (c, p, k, l, x))
     else if n = 40 then (c, p, k + 1, l, x) else (c, p, k, l, x))"
| "sim_step _ s = s"

definition sim_run :: "ow_op list \<Rightarrow> ow_sim" where
  "sim_run ops = fold sim_step ops (0, [], 0, True, False)"

definition bus_sim :: "bytes list \<Rightarrow> ow_env" where
  "bus_sim ds ops = (case sim_run ops of (c, p, k, _) \<Rightarrow>
     if 0 < c then ds = []
     else if k = 0 then list_all (\<lambda>d. on_path d p \<longrightarrow> rbit d (length p)) ds
     else list_all (\<lambda>d. on_path d p \<longrightarrow> \<not> rbit d (length p)) ds)"

lemma sim_run_append: "sim_run (a @ b) = fold sim_step b (sim_run a)"
  by (simp add: sim_run_def)

lemma bus_sim_bus: "ow_bus (bus_sim ds) (set ds)"
proof -
  define R where "R ops p k \<longleftrightarrow> (\<exists>l x. sim_run ops = (0, p, k, l, x))" for ops p k
  have reset: "\<exists>x. sim_run (ops @ reset_ops) = (8, [], 0, True, x)" for ops
    by (cases "sim_run ops") (simp add: sim_run_append reset_ops_def)
  have read: "sim_run (ops @ read_ops) = (0, p, k, True, x)" if "sim_run ops = (0, p, k, l, x)" for ops p k l x
    using that by (simp add: sim_run_append read_ops_def)
  have slot: "sim_run (ops @ read_ops @ [Sense, Delay_us 40]) = (0, p, k + 1, True, x)"
    if "sim_run ops = (0, p, k, l, x)" for ops p k l x
    using read[OF that] by (simp add: sim_run_append)
  have wslot: "sim_run (ops @ write_ops b) = (0, p @ [b], 0, True, b)" if "sim_run ops = (0, p, 2, l, x)" for ops p l x b
    using that by (simp add: sim_run_append write_ops_def)
  have byte: "R (ops @ reset_ops @ [Sense, Delay_us 410] @ byte_ops 0xF0) [] 0" for ops
  proof -
    obtain x where "sim_run (ops @ reset_ops) = (8, [], 0, True, x)" using reset by blast
    then have "sim_run ((ops @ reset_ops) @ [Sense, Delay_us 410] @ byte_ops 0xF0) = (0, [], 0, True, True)"
      by (simp add: sim_run_append byte_ops_def write_ops_def upt_rec)
    then show ?thesis by (auto simp: R_def)
  qed
  have high: "fst (sim_run (ops @ reset_ops @ waits i)) = 8" for ops i
  proof (induction i)
    case 0
    then show ?case using reset[of ops] by (auto simp: waits_def)
  next
    case (Suc i)
    have "waits (Suc i) = waits i @ [Sense, Delay_us 1]"
      by (induction i) (simp_all add: waits_def)
    then show ?case using Suc by (cases "sim_run (ops @ reset_ops @ waits i)") (simp add: sim_run_append)
  qed
  have "ow_laws (bus_sim ds) (set ds) R"
    unfolding ow_laws_def
  proof (intro conjI impI allI)
    fix ops i assume "set ds = {}"
    then show "bus_sim ds (ops @ reset_ops @ waits i)"
      using high[of ops i] by (auto simp: bus_sim_def split: prod.splits)
  next
    fix ops assume "set ds \<noteq> {}"
    then have "\<not> bus_sim ds (ops @ reset_ops @ waits 0)"
      using high[of ops 0] by (auto simp: bus_sim_def split: prod.splits)
    then show "\<exists>i \<le> 100. (\<forall>j < i. bus_sim ds (ops @ reset_ops @ waits j)) \<and> \<not> bus_sim ds (ops @ reset_ops @ waits i) \<and>
        R (ops @ reset_ops @ waits i @ [Sense, Delay_us 410] @ byte_ops 0xF0) [] 0"
      using byte[of ops] by (intro exI[of _ 0]) (simp add: waits_def)
  next
    fix ops p assume "R ops p 0"
    then obtain l x where "sim_run ops = (0, p, 0, l, x)" by (auto simp: R_def)
    from read[OF this] slot[OF this]
    show "bus_sim ds (ops @ read_ops) = (\<forall>d \<in> set ds. on_path d p \<longrightarrow> rbit d (length p))"
      "R (ops @ read_ops @ [Sense, Delay_us 40]) p 1" by (auto simp: bus_sim_def R_def list_all_iff)
  next
    fix ops p assume "R ops p 1"
    then obtain l x where "sim_run ops = (0, p, 1, l, x)" by (auto simp: R_def)
    from read[OF this] slot[OF this]
    show "bus_sim ds (ops @ read_ops) = (\<forall>d \<in> set ds. on_path d p \<longrightarrow> \<not> rbit d (length p))"
      "R (ops @ read_ops @ [Sense, Delay_us 40]) p 2" by (auto simp: bus_sim_def R_def list_all_iff)
  next
    fix ops p b assume "R ops p 2"
    then show "R (ops @ write_ops b) (p @ [b]) 0" using wslot by (auto simp: R_def)
  qed
  then show ?thesis by (auto simp: ow_bus_def)
qed

text \<open>Two sensors whose codes a comment in \<open>DS18B20SROM.c\<close> shows.\<close>

definition sensors :: "bytes list" where
  "sensors = [[0x28, 0xB0, 0x4A, 0x24, 0x07, 0x00, 0x00, 0x49], [0x28, 0x84, 0x17, 0x24, 0x07, 0x00, 0x00, 0x01]]"

definition ow_start :: onewire where
  "ow_start = \<lparr> ow_ops = [], ROM_NO = replicate 8 0, LastDiscrepancy = 0, LastFamilyDiscrepancy = 0,
     LastDeviceFlag = False, crc8 = 0 \<rparr>"

lemma sensors_crc: "rom_crc (sensors ! 0) = 0 \<and> rom_crc (sensors ! 1) = 0"
  by (code_simp)

lemma sensors_valid: "valid_roms (set sensors)"
proof -
  have "list_all (\<lambda>d. length d = 8 \<and> rom_crc d = 0 \<and> d ! 0 \<noteq> 0) sensors" by code_simp
  then show ?thesis by (simp add: valid_roms_def list_all_iff)
qed

lemma sensors_sorted: "sorted_wrt rom_less sensors"
proof -
  have "agree (sensors ! 0) (sensors ! 1) 10 \<and> \<not> rbit (sensors ! 0) 10 \<and> rbit (sensors ! 1) 10"
    by code_simp
  then have "rom_less (sensors ! 0) (sensors ! 1)" unfolding rom_less_def by (intro exI[of _ 10]) simp
  then show ?thesis by (simp add: sensors_def)
qed

theorem search_enumerates_witness:
  "\<exists>s'. ow_find (bus_sim sensors) 2 ow_start = Some (False, s')"
  using search_enumerates[OF bus_sim_bus sensors_valid _ sensors_sorted, of ow_start 2]
  by (auto simp: ow_start_def sensors_def)

theorem verify_finds_device_witness:
  "\<exists>s'. OWVerify (bus_sim sensors) (ow_start \<lparr> ROM_NO := sensors ! 1 \<rparr>) = Some (True, s')"
proof -
  have "sensors ! 1 \<in> set sensors" "set sensors \<noteq> {}" by (simp_all add: sensors_def)
  then show ?thesis
    using verify_finds_device[OF bus_sim_bus sensors_valid, of "ow_start \<lparr> ROM_NO := sensors ! 1 \<rparr>"]
      sensors_valid by (auto simp: valid_roms_def)
qed

theorem target_setup_finds_family_witness:
  "\<exists>s1 s2. OWTargetSetup 0x28 ow_start = Some s1 \<and> OWNext (bus_sim sensors) s1 = Some (True, s2) \<and>
    ROM_NO s2 ! 0 = 0x28"
proof -
  have "sensors ! 0 \<in> set sensors" "sensors ! 0 ! 0 = 0x28" "length (ROM_NO ow_start) = 8"
    by (simp_all add: sensors_def ow_start_def)
  from target_setup_finds_family[OF bus_sim_bus sensors_valid this] show ?thesis by blast
qed

end
