(* ===== verification/Ds18b20.thy ===== *)
theory Ds18b20
  imports OneWire "HOL-Library.Signed_Division"
begin

text \<open>
  The temperature sensors, \<open>DS18B20SROM.c\<close>: reading a temperature, the older search
  \<open>DS18B20_SearchROM\<close>, the line of text that \<open>DS1820main\<close> makes, and the thread that
  writes it.  As configured with \<open>TEMP_WRITE_HTML\<close> and without mail; what is given to
  the file system is recorded.
\<close>

unbundle bit_operations_syntax

section \<open>A temperature\<close>

text \<open>
  \<open>data *= 6.25\<close>: the product is exact, the conversion back cuts the fraction off.  It is
  not defined when the result does not fit into 16 bits.
\<close>

definition times_6_25 :: "u16 \<Rightarrow> u16 option" where
  "times_6_25 d =
    (let v = (sint d * 25) sdiv 4
     in if - 32768 \<le> v \<and> v \<le> 32767 then Some (word_of_int v) else None)"

definition read_scaled :: "ow_env \<Rightarrow> onewire \<Rightarrow> (u16 \<times> onewire) option" where
  "read_scaled E s =
    (let (tl, s) = DS18B20_ReadData E s;
         (th, s) = DS18B20_ReadData E s;
         d = push_bit 8 (ucast th) OR ucast tl
     in map_option (\<lambda>v. (v, s)) (times_6_25 d))"

definition DS18B20_ReadTemper :: "ow_env \<Rightarrow> onewire \<Rightarrow> (u16 \<times> onewire) option" where
  "DS18B20_ReadTemper E s =
    (let (here, s) = DS18B20_Reset E s
     in if \<not> here then Some (0xFFFF, s)
        else (let s = DS18B20_WriteData 0x44 (DS18B20_WriteData 0xCC s);
                  (_, s) = DS18B20_Reset E s;
                  s = DS18B20_WriteData 0xBE (DS18B20_WriteData 0xCC s)
              in read_scaled E s))"

definition DS18B20_ReadDesignateTemper :: "ow_env \<Rightarrow> bytes \<Rightarrow> onewire \<Rightarrow> (u16 \<times> onewire) option" where
  "DS18B20_ReadDesignateTemper E pID s =
    (let (here, s) = DS18B20_Reset E s
     in if \<not> here then Some (0xFFFF, s)
        else do {
          let s = DS18B20_WriteData 0x44 (DS18B20_WriteData 0xCC s);
          let (_, s) = DS18B20_Reset E s;
          let s = DS18B20_WriteData 0x55 s;
          ds \<leftarrow> cread pID 0 8;
          let s = fold DS18B20_WriteData ds s;
          let s = DS18B20_WriteData 0xBE (ow_do [Delay_us 10] s);
          read_scaled E s
        })"

section \<open>The older search\<close>

definition DS18B20_Read2Bit :: "ow_env \<Rightarrow> onewire \<Rightarrow> u8 \<times> onewire" where
  "DS18B20_Read2Bit E s =
    (let (a, s) = DS18B20_ReadBit E s; (b, s) = DS18B20_ReadBit E s
     in (push_bit 1 (if a \<noteq> 0 then 1 else 0) OR (if b \<noteq> 0 then 1 else 0), s))"

text \<open>
  The stack \<open>zhan\<close> of the discrepancies has \<open>MAXNUM - 1\<close> elements, which is one, and is not
  initialised; nor is \<open>ss\<close>, the bits of the last code.
\<close>

record rom_search =
  sr_s :: u8
  sr_l :: u8
  zhan :: bytes
  ss :: bytes
  sr_ow :: onewire

definition MAXNUM :: nat where "MAXNUM = 2"

definition sr_write :: "u8 \<Rightarrow> nat \<Rightarrow> rom_search \<Rightarrow> rom_search option" where
  "sr_write b j q = do {
     ss' \<leftarrow> cset (ss q) j b;
     Some (q \<lparr> sr_ow := DS18B20_WriteBit b (sr_ow q), ss := ss' \<rparr>)
   }"

definition sr_bit :: "ow_env \<Rightarrow> nat \<Rightarrow> rom_search \<Rightarrow> (bool \<times> rom_search) option" where
  "sr_bit E j q =
    (let (k, w) = DS18B20_Read2Bit E (sr_ow q);
         k = k AND 0x03;
         s = drop_bit 1 (sr_s q);
         q = q \<lparr> sr_ow := w, sr_s := s \<rparr>
     in if k = 0x01 then map_option (Pair True) (sr_write 0 j q)
        else if k = 0x02 then map_option (Pair True) (sr_write 1 j (q \<lparr> sr_s := s OR 0x80 \<rparr>))
        else if k = 0x00 then do {
          let c = of_nat (j + 1);
          z \<leftarrow> cget (zhan q) (unat (sr_l q));
          if z < c then do {
            q \<leftarrow> sr_write 0 j q;
            let l = sr_l q + 1;
            zs \<leftarrow> cset (zhan q) (unat l) c;
            Some (True, q \<lparr> sr_l := l, zhan := zs \<rparr>)
          } else if c < z then do {
            b \<leftarrow> cget (ss q) j;
            Some (True, q \<lparr> sr_s := s OR push_bit 7 (b AND 0x01), sr_ow := DS18B20_WriteBit b (sr_ow q) \<rparr>)
          } else do {
            q \<leftarrow> sr_write 1 j (q \<lparr> sr_s := s OR 0x80 \<rparr>);
            Some (True, q \<lparr> sr_l := sr_l q - 1 \<rparr>)
          }
        } else Some (False, q))"

fun sr_bits :: "ow_env \<Rightarrow> nat \<Rightarrow> nat \<Rightarrow> rom_search \<Rightarrow> (bool \<times> rom_search) option" where
  "sr_bits E 0 j q = Some (True, q)"
| "sr_bits E (Suc n) j q = do {
     (go, q) \<leftarrow> sr_bit E j q;
     if go then sr_bits E n (j + 1) q else Some (False, q)
   }"

text \<open>The bytes of one code, into the row \<open>num\<close>; the search ends where no device answers.\<close>

fun sr_bytes :: "ow_env \<Rightarrow> nat \<Rightarrow> nat \<Rightarrow> nat \<Rightarrow> bytes list \<Rightarrow> rom_search \<Rightarrow> (bool \<times> bytes list \<times> rom_search) option" where
  "sr_bytes E 0 m num pID q = Some (True, pID, q)"
| "sr_bytes E (Suc n) m num pID q = do {
     (go, q) \<leftarrow> sr_bits E 8 (m * 8) (q \<lparr> sr_s := 0 \<rparr>);
     if go then do {
       row \<leftarrow> cget pID num;
       row \<leftarrow> cset row m (sr_s q);
       pID \<leftarrow> cset pID num row;
       sr_bytes E n (m + 1) num pID q
     } else Some (False, pID, q)
   }"

text \<open>The do-while loop ends when \<open>num\<close> reaches \<open>MAXNUM\<close>: \<open>n\<close> turns are left.\<close>

fun sr_codes :: "ow_env \<Rightarrow> nat \<Rightarrow> nat \<Rightarrow> bytes list \<Rightarrow> rom_search \<Rightarrow> (nat \<times> bytes list \<times> rom_search) option" where
  "sr_codes E 0 num pID q = Some (num, pID, q)"
| "sr_codes E (Suc n) num pID q = do {
     let w = snd (DS18B20_Reset E (sr_ow q));
     (go, pID, q) \<leftarrow> sr_bytes E 8 0 num pID (q \<lparr> sr_ow := DS18B20_WriteData 0xF0 w \<rparr>);
     if \<not> go then Some (num, pID, q)
     else do {
       z \<leftarrow> cget (zhan q) (unat (sr_l q));
       if z \<noteq> 0 then sr_codes E n (num + 1) pID q else Some (num + 1, pID, q)
     }
   }"

definition DS18B20_SearchROM ::
    "ow_env \<Rightarrow> bytes \<Rightarrow> bytes \<Rightarrow> bytes list \<Rightarrow> onewire \<Rightarrow> (nat \<times> bytes list \<times> onewire) option" where
  "DS18B20_SearchROM E zhan0 ss0 pID w =
    map_option (\<lambda>(n, pID, q). (n, pID, sr_ow q))
      (sr_codes E MAXNUM 0 pID \<lparr> sr_s = 0, sr_l = 0, zhan = zhan0, ss = ss0, sr_ow = w \<rparr>)"

section \<open>The line of text\<close>

datatype fs_call = FS_Write nat bytes | FS_Writehtml bytes

record thermo =
  bus :: onewire
  fistsech :: bool
  ID_Buff :: "bytes list"
  time_run :: u32
  temp :: bytes
  TempCreatTrm :: u32
  Day :: u16
  Assic :: bytes
  fs_writes :: "fs_call list"

definition DS18B20_NUM :: nat where "DS18B20_NUM = 2"

fun csets :: "(nat \<times> u8) list \<Rightarrow> bytes \<Rightarrow> bytes option" where
  "csets [] b = Some b"
| "csets ((i, x) # ps) b = do { b \<leftarrow> cset b i x; csets ps b }"

text \<open>The further codes; the search stops at the first that is not found.\<close>

fun more_ids :: "ow_env \<Rightarrow> nat \<Rightarrow> nat \<Rightarrow> onewire \<Rightarrow> bytes list \<Rightarrow> (onewire \<times> bytes list) option" where
  "more_ids E 0 i w ids = Some (w, ids)"
| "more_ids E (Suc n) i w ids = do {
     (found, w) \<leftarrow> OWSearch E w;
     if found then do {
       r \<leftarrow> cread (ROM_NO w) 0 8;
       ids \<leftarrow> cset ids i r;
       more_ids E n (i + 1) w ids
     } else Some (w, ids)
   }"

definition first_search :: "ow_env \<Rightarrow> thermo \<Rightarrow> (bool \<times> thermo) option" where
  "first_search E s = do {
     (found, w) \<leftarrow> OWFirst E (ow_do [Dir_out] (bus s));
     if \<not> found then Some (False, s \<lparr> bus := w \<rparr>)
     else do {
       r \<leftarrow> cread (ROM_NO w) 0 8;
       ids \<leftarrow> cset (ID_Buff s) 0 r;
       (w, ids) \<leftarrow> more_ids E (DS18B20_NUM - 1) 1 w ids;
       t \<leftarrow> csets [(0, 0x09), (1, 0x54), (2, 0x69), (3, 0x6D), (4, 0x65), (5, 0x3A), (11, 0x09),
                  (12, 0x54), (13, 0x65), (14, 0x6D), (15, 0x70), (16, 0x3A), (23, 0x09), (20, 0x2E),
                  (27, 0x2E), (30, 0x09), (31, 0x0D), (32, 0x0A)] (temp s);
       Some (True, s \<lparr> bus := w, ID_Buff := ids, temp := t, fistsech := True \<rparr>)
     }
   }"

text \<open>The digits of a signed number, divided the way C divides.\<close>

definition digits5 :: "int \<Rightarrow> u8 list" where
  "digits5 t = map (\<lambda>d. word_of_int (d + 0x30))
     [t sdiv 10000, (t smod 10000) sdiv 1000, ((t smod 10000) smod 1000) sdiv 100,
      (((t smod 10000) smod 1000) smod 100) sdiv 10, (((t smod 10000) smod 1000) smod 100) smod 10]"

definition DS1820main :: "ow_env \<Rightarrow> thermo \<Rightarrow> thermo option" where
  "DS1820main E s = do {
     (go, s) \<leftarrow> (if fistsech s then Some (True, s) else first_search E s);
     if \<not> go then Some s
     else do {
       id0 \<leftarrow> cget (ID_Buff s) 0;
       (temp1, w) \<leftarrow> DS18B20_ReadDesignateTemper E id0 (bus s);
       id1 \<leftarrow> cget (ID_Buff s) 1;
       (temp2, w) \<leftarrow> DS18B20_ReadDesignateTemper E id1 w;
       t \<leftarrow> csets (zip [6, 7, 8, 9, 10] (digits5 (uint (time_run s))) @
                  zip [17, 18, 19, 21, 22] (digits5 (sint temp1)) @
                  zip [24, 25, 26, 28, 29] (digits5 (sint temp2))) (temp s);
       Some (s \<lparr> bus := w, temp := t \<rparr>)
     }
   }"

definition TEMP_CREATTRM_INTERVAL :: u32 where "TEMP_CREATTRM_INTERVAL = (250 * 4) * 2"

definition TemperatureThread :: "ow_env \<Rightarrow> u32 \<Rightarrow> thermo \<Rightarrow> thermo option" where
  "TemperatureThread E Time s = do {
     let s = s \<lparr> time_run := Time div 1000 \<rparr>;
     s \<leftarrow> (if time_run s = 86400 then do {
            let d = Day s + 1;
            a \<leftarrow> csets [(0, 0x0A), (1, ucast (d div 100 + 0x30)), (2, ucast (d mod 100 div 10 + 0x30)),
                       (3, ucast (d mod 100 mod 10 + 0x30)), (4, ucast (d mod 100 mod 10 + 0x30)), (5, 0x0A)] (Assic s);
            Some (s \<lparr> Day := d, Assic := a, time_run := 0, fs_writes := fs_writes s @ [FS_Write 2 a] \<rparr>)
          } else Some s);
     if TEMP_CREATTRM_INTERVAL \<le> Time - TempCreatTrm s then do {
       s \<leftarrow> DS1820main E (s \<lparr> TempCreatTrm := Time \<rparr>);
       w \<leftarrow> cread (temp s) 0 33;
       Some (s \<lparr> fs_writes := fs_writes s @ [FS_Writehtml w] \<rparr>)
     } else Some s
   }"

section \<open>Scaling\<close>

lemma sdiv_4: "v sdiv (4 :: int) = (if 0 \<le> v then v div 4 else - ((- v) div 4))"
  by (simp add: signed_divide_int_def sgn_if)

lemma sint_u16: "- 32768 \<le> sint (d :: u16) \<and> sint d \<le> 32767"
  using sint_ge[of d] sint_lt[of d] by simp

lemma sint_of_int_u16: "- 32768 \<le> v \<Longrightarrow> v \<le> 32767 \<Longrightarrow> sint (word_of_int v :: u16) = v"
  by (simp add: sint_sbintrunc' signed_take_bit_int_eq_self)

text \<open>
  The product of the code fits its 16 bits between -327 and 327 degrees only.
\<close>

theorem temperature_range:
  "(case times_6_25 d of None \<Rightarrow> sint d < - 5243 \<or> 5242 < sint d
    | Some v \<Rightarrow> - 5243 \<le> sint d \<and> sint d \<le> 5242 \<and> sint v = (sint d * 25) sdiv 4)"
proof -
  have "- 32768 \<le> (sint d * 25) sdiv 4 \<and> (sint d * 25) sdiv 4 \<le> 32767 \<longleftrightarrow> - 5243 \<le> sint d \<and> sint d \<le> 5242"
    unfolding sdiv_4 by (auto split: if_splits)
  then show ?thesis by (auto simp: times_6_25_def sint_of_int_u16)
qed

section \<open>The digits\<close>

lemma sdiv_nonneg: "0 \<le> a \<Longrightarrow> 0 < b \<Longrightarrow> a sdiv b = a div (b :: int)"
  by (simp add: signed_divide_int_def sgn_if)

lemma smod_nonneg: "0 \<le> a \<Longrightarrow> 0 < b \<Longrightarrow> a smod b = a mod (b :: int)"
  by (cases "a = 0") (simp_all add: signed_modulo_int_def sgn_if)

lemma sdiv_neg: "0 < b \<Longrightarrow> (- a) sdiv b = - (a sdiv (b :: int))"
  by (simp add: signed_divide_int_def sgn_if)

lemma smod_neg: "0 < b \<Longrightarrow> (- a) smod b = - (a smod (b :: int))"
  by (simp add: signed_modulo_int_def)

definition dec_digits :: "int \<Rightarrow> int list" where
  "dec_digits t = [t div 10000, t mod 10000 div 1000, t mod 1000 div 100, t mod 100 div 10, t mod 10]"

lemma digits5_eq: "0 \<le> t \<Longrightarrow> digits5 t = map (\<lambda>d. word_of_int (d + 0x30)) (dec_digits t)"
  by (simp add: digits5_def dec_digits_def sdiv_nonneg smod_nonneg mod_mod_cancel)

lemma digits5_neg: "0 \<le> t \<Longrightarrow> digits5 (- t) = map (\<lambda>d. word_of_int (0x30 - d)) (dec_digits t)"
  by (simp add: digits5_def dec_digits_def sdiv_nonneg smod_nonneg sdiv_neg smod_neg mod_mod_cancel)

text \<open>The number a decimal text stands for; \<open>None\<close> when a character is no digit.\<close>

definition is_digit :: "u8 \<Rightarrow> bool" where
  "is_digit c \<longleftrightarrow> 0x30 \<le> uint c \<and> uint c \<le> 0x39"

definition decimal :: "u8 list \<Rightarrow> int option" where
  "decimal cs = (if list_all is_digit cs then Some (foldl (\<lambda>n c. 10 * n + (uint c - 0x30)) 0 cs) else None)"

lemma five_digits:
  "10000 * a + m4 = t \<Longrightarrow> 1000 * b + m3 = m4 \<Longrightarrow> 100 * c + m2 = m3 \<Longrightarrow> 10 * d + m1 = m2 \<Longrightarrow>
   foldl (\<lambda>n d. 10 * n + d) 0 [a, b, c, d, m1] = (t :: int)"
  by simp

lemma dec_digits_value:
  "foldl (\<lambda>n d. 10 * n + d) 0 (dec_digits t) = t"
  unfolding dec_digits_def
proof (rule five_digits)
  have m: "t mod 1000 = t mod 10000 mod 1000" "t mod 100 = t mod 1000 mod 100" "t mod 10 = t mod 100 mod 10"
    by (simp_all add: mod_mod_cancel)
  show "10000 * (t div 10000) + t mod 10000 = t" by (rule mult_div_mod_eq)
  show "1000 * (t mod 10000 div 1000) + t mod 1000 = t mod 10000" unfolding m(1) by (rule mult_div_mod_eq)
  show "100 * (t mod 1000 div 100) + t mod 100 = t mod 1000" unfolding m(2) by (rule mult_div_mod_eq)
  show "10 * (t mod 100 div 10) + t mod 10 = t mod 100" unfolding m(3) by (rule mult_div_mod_eq)
qed

lemma dec_digits_range:
  "0 \<le> t \<Longrightarrow> t < 100000 \<Longrightarrow> d \<in> set (dec_digits t) \<Longrightarrow> 0 \<le> d \<and> d \<le> 9"
  by (auto simp: dec_digits_def)

lemma uint_digit: "- 9 \<le> d \<Longrightarrow> d \<le> 9 \<Longrightarrow> uint (word_of_int (d + 0x30) :: u8) = d + 0x30"
  by (simp only: uint_word_of_int) simp

lemma decimal_digits5:
  assumes "0 \<le> t" "t < 100000"
  shows "decimal (digits5 t) = Some t"
proof -
  have r: "0 \<le> d \<and> d \<le> 9" if "d \<in> set (dec_digits t)" for d using dec_digits_range[OF assms that] .
  have "is_digit (word_of_int (d + 0x30))" if "d \<in> set (dec_digits t)" for d
    unfolding is_digit_def using r[OF that] uint_digit[of d] by simp
  then have "list_all is_digit (digits5 t)" by (simp add: digits5_eq[OF assms(1)] list_all_iff)
  moreover have "foldl (\<lambda>n c. 10 * n + (uint (c :: u8) - 0x30)) a (map (\<lambda>d. word_of_int (d + 0x30)) ds) =
      foldl (\<lambda>n d. 10 * n + d) a ds" if "\<forall>d \<in> set ds. 0 \<le> d \<and> d \<le> 9" for a ds
    using that by (induction ds arbitrary: a) (simp_all add: uint_digit del: of_int_add)
  ultimately show ?thesis using r by (simp add: decimal_def digits5_eq[OF assms(1)] dec_digits_value del: of_int_add)
qed

lemma zero_digits: "\<forall>d \<in> set ds. d = 0 \<Longrightarrow> foldl (\<lambda>n d. 10 * n + d) 0 ds = (0 :: int)"
  by (induction ds) simp_all

lemma decimal_negative:
  assumes "- 100000 < t" "t < 0"
  shows "decimal (digits5 t) = None"
proof -
  have r: "0 \<le> d \<and> d \<le> 9" if "d \<in> set (dec_digits (- t))" for d
    using dec_digits_range[OF _ _ that] assms by simp
  have "\<exists>d \<in> set (dec_digits (- t)). d \<noteq> 0"
  proof (rule ccontr)
    assume "\<not> ?thesis"
    then have "foldl (\<lambda>n d. 10 * n + d) 0 (dec_digits (- t)) = 0" by (intro zero_digits) blast
    then show False using assms(2) unfolding dec_digits_value by simp
  qed
  then obtain d where d: "d \<in> set (dec_digits (- t))" "d \<noteq> 0" by blast
  have "\<not> is_digit (word_of_int (0x30 - d))"
    using uint_digit[of "- d"] r[OF d(1)] d(2) unfolding is_digit_def by (simp add: add.commute)
  moreover have "word_of_int (0x30 - d) \<in> set (digits5 t)" using digits5_neg[of "- t"] assms(2) d(1) by simp
  ultimately show ?thesis by (auto simp: decimal_def list_all_iff)
qed

section \<open>The line\<close>

lemma csets_spec:
  assumes "distinct (map fst ps)" "\<forall>q \<in> set ps. fst q < length b"
  shows "\<exists>b'. csets ps b = Some b' \<and> length b' = length b \<and> (\<forall>q \<in> set ps. b' ! fst q = snd q) \<and>
    (\<forall>i. i \<notin> fst ` set ps \<longrightarrow> b' ! i = b ! i)"
  using assms
proof (induction ps arbitrary: b)
  case (Cons p ps)
  obtain i x where p: "p = (i, x)" by (cases p)
  have i: "i < length b" "i \<notin> fst ` set ps" using Cons.prems by (simp_all add: p)
  have "\<forall>q \<in> set ps. fst q < length (b[i := x])" "distinct (map fst ps)" using Cons.prems by simp_all
  from Cons.IH[OF this(2,1)] obtain b' where b': "csets ps (b[i := x]) = Some b'" "length b' = length (b[i := x])"
    "\<forall>q \<in> set ps. b' ! fst q = snd q" "\<forall>k. k \<notin> fst ` set ps \<longrightarrow> b' ! k = b[i := x] ! k"
    by (elim exE conjE) (rule that)
  have "b' ! i = x" using b'(4) i by simp
  moreover have "b' ! k = b ! k" if "k \<noteq> i" "k \<notin> fst ` set ps" for k using b'(4) that by simp
  ultimately show ?case using b'(1-3) i(1) by (simp add: p)
qed simp

lemma length_digits5 [simp]: "length (digits5 t) = 5"
  by (simp add: digits5_def)

lemma zip_values:
  assumes "length is = length xs" "\<forall>q \<in> set (zip is xs). b ! fst q = snd q"
  shows "map ((!) b) is = xs"
  using assms by (induction "is" xs rule: list_induct2) auto

definition time_at :: "nat list" where "time_at = [6, 7, 8, 9, 10]"
definition temp1_at :: "nat list" where "temp1_at = [17, 18, 19, 21, 22]"
definition temp2_at :: "nat list" where "temp2_at = [24, 25, 26, 28, 29]"

lemma decimal_sint: "decimal (digits5 (sint (t :: u16))) = (if 0 \<le> sint t then Some (sint t) else None)"
  using decimal_digits5[of "sint t"] decimal_negative[of "sint t"] sint_u16[of t] by auto

text \<open>
  The line of text that DS1820main fills has the time and the two temperatures in
  decimal digits when they are not negative; a negative temperature puts characters
  there that are no digits.
\<close>

theorem temperature_line:
  assumes "fistsech s" "length (temp s) = 33" "ID_Buff s = [id0, id1]"
    "DS18B20_ReadDesignateTemper E id0 (bus s) = Some (t1, w1)"
    "DS18B20_ReadDesignateTemper E id1 w1 = Some (t2, w2)" "uint (time_run s) < 100000"
  shows "\<exists>s'. DS1820main E s = Some s' \<and>
    decimal (map ((!) (temp s')) time_at) = Some (uint (time_run s)) \<and>
    decimal (map ((!) (temp s')) temp1_at) = (if 0 \<le> sint t1 then Some (sint t1) else None) \<and>
    decimal (map ((!) (temp s')) temp2_at) = (if 0 \<le> sint t2 then Some (sint t2) else None) \<and>
    (\<forall>i. i \<notin> set (time_at @ temp1_at @ temp2_at) \<longrightarrow> temp s' ! i = temp s ! i)"
proof -
  let ?ps = "zip time_at (digits5 (uint (time_run s))) @ zip temp1_at (digits5 (sint t1)) @
    zip temp2_at (digits5 (sint t2))"
  have len: "length time_at = 5" "length temp1_at = 5" "length temp2_at = 5"
    by (simp_all add: time_at_def temp1_at_def temp2_at_def)
  have fst: "map fst ?ps = time_at @ temp1_at @ temp2_at" using len by simp
  then have set: "fst ` set ?ps = set (time_at @ temp1_at @ temp2_at)" by (metis set_map)
  have "distinct (map fst ?ps)" unfolding fst by (simp add: time_at_def temp1_at_def temp2_at_def)
  moreover have "\<forall>i \<in> fst ` set ?ps. i < length (temp s)"
    unfolding set using assms(2) by (simp add: time_at_def temp1_at_def temp2_at_def)
  then have "\<forall>q \<in> set ?ps. fst q < length (temp s)" by blast
  ultimately obtain b where b: "csets ?ps (temp s) = Some b" "\<forall>q \<in> set ?ps. b ! fst q = snd q"
    "\<forall>i. i \<notin> fst ` set ?ps \<longrightarrow> b ! i = temp s ! i"
    using csets_spec by blast
  have "DS1820main E s = Some (s \<lparr> bus := w2, temp := b \<rparr>)"
    using assms(1,3,4,5) b(1) by (simp add: DS1820main_def time_at_def temp1_at_def temp2_at_def)
  moreover have t: "temp (s \<lparr> bus := w2, temp := b \<rparr>) = b" by simp
  moreover have v: "\<forall>q \<in> set (zip time_at (digits5 (uint (time_run s)))). b ! fst q = snd q"
    "\<forall>q \<in> set (zip temp1_at (digits5 (sint t1))). b ! fst q = snd q"
    "\<forall>q \<in> set (zip temp2_at (digits5 (sint t2))). b ! fst q = snd q"
    using b(2) unfolding set_append by blast+
  have "map ((!) b) time_at = digits5 (uint (time_run s))" "map ((!) b) temp1_at = digits5 (sint t1)"
    "map ((!) b) temp2_at = digits5 (sint t2)"
    by (rule zip_values[OF _ v(1)] zip_values[OF _ v(2)] zip_values[OF _ v(3)], simp add: len)+
  moreover have "decimal (digits5 (uint (time_run s))) = Some (uint (time_run s))"
    using assms(6) by (intro decimal_digits5) simp_all
  ultimately show ?thesis
    using b(3) t unfolding set by (intro exI[of _ "s \<lparr> bus := w2, temp := b \<rparr>"]) (simp only: decimal_sint simp_thms)
qed

section \<open>The thread\<close>

fun thread_calls :: "ow_env \<Rightarrow> u32 list \<Rightarrow> thermo \<Rightarrow> thermo option" where
  "thread_calls E [] s = Some s"
| "thread_calls E (t # ts) s = do { s \<leftarrow> TemperatureThread E t s; thread_calls E ts s }"

lemma day_call:
  assumes "t div 1000 = 86400" "t - TempCreatTrm s < 2000" "length (Assic s) = 6"
  shows "\<exists>s'. TemperatureThread E t s = Some s' \<and> Day s' = Day s + 1 \<and> length (Assic s') = 6 \<and>
    TempCreatTrm s' = TempCreatTrm s"
proof -
  have "\<not> TEMP_CREATTRM_INTERVAL \<le> t - TempCreatTrm s"
    using assms(2) by (simp add: TEMP_CREATTRM_INTERVAL_def not_le)
  then show ?thesis using assms(1,3) by (simp add: TemperatureThread_def Let_def)
qed

text \<open>
  Every call of \<open>TemperatureThread\<close> during the last second of a day counts a day.
\<close>

theorem day_counted_per_call:
  assumes "\<forall>t \<in> set ts. t div 1000 = 86400 \<and> t - TempCreatTrm s < 2000" "length (Assic s) = 6"
  shows "\<exists>s'. thread_calls E ts s = Some s' \<and> Day s' = Day s + of_nat (length ts)"
  using assms
proof (induction ts arbitrary: s)
  case (Cons t ts)
  obtain s1 where s1: "TemperatureThread E t s = Some s1" "Day s1 = Day s + 1" "length (Assic s1) = 6"
    "TempCreatTrm s1 = TempCreatTrm s"
    using day_call[of t s E] Cons.prems by auto
  have "\<forall>u \<in> set ts. u div 1000 = 86400 \<and> u - TempCreatTrm s1 < 2000" using Cons.prems(1) s1(4) by simp
  from Cons.IH[OF this s1(3)] show ?case using s1 by (auto simp: ac_simps)
qed simp

section \<open>The codes of the two sensors\<close>

text \<open>
  With two or more devices on the bus, the search at the first call of DS1820main
  stores the identities of the first two and does not come again.
\<close>

theorem first_search_finds_sensors:
  assumes "ow_bus E (set ds)" "valid_roms (set ds)" "sorted_wrt rom_less ds" "2 \<le> length ds"
    "length (ROM_NO (bus s)) = 8" "length (ID_Buff s) = 2" "length (temp s) = 33"
  shows "\<exists>s'. first_search E s = Some (True, s') \<and> fistsech s' \<and> ID_Buff s' = [ds ! 0, ds ! 1]"
proof -
  define w where "w = ow_do [Dir_out] (bus s)"
  have w: "length (ROM_NO w) = 8" and ne: "ds \<noteq> []" and l: "0 < length ds" "1 < length ds"
    using assms(4,5) by (auto simp: w_def)
  note found = found_step[OF assms(1,2) ne assms(3) w]
  obtain w0 where w0: "OWFirst E w = Some (True, w0)" "ROM_NO w0 = ds ! 0"
    using found[OF l(1)] by auto
  obtain w1 where w1: "OWNext E w0 = Some (True, w1)" "ROM_NO w1 = ds ! 1"
    using found[OF l(2)] w0(1) by auto
  have len: "length (ds ! 0) = 8" "length (ds ! 1) = 8" using assms(2) nth_mem l unfolding valid_roms_def by blast+
  obtain a b where ids: "ID_Buff s = [a, b]" using assms(6) by (auto simp: numeral_2_eq_2 length_Suc_conv)
  let ?ps = "[(0, 0x09), (1, 0x54), (2, 0x69), (3, 0x6D), (4, 0x65), (5, 0x3A), (11, 0x09),
     (12, 0x54), (13, 0x65), (14, 0x6D), (15, 0x70), (16, 0x3A), (23, 0x09), (20, 0x2E),
     (27, 0x2E), (30, 0x09), (31, 0x0D), (32, 0x0A)] :: (nat \<times> u8) list"
  have "distinct (map fst ?ps)" "\<forall>q \<in> set ?ps. fst q < length (temp s)" using assms(7) by simp_all
  from csets_spec[OF this] obtain t where t: "csets ?ps (temp s) = Some t" by blast
  have m: "more_ids E (DS18B20_NUM - 1) 1 w0 [ds ! 0, b] = Some (w1, [ds ! 0, ds ! 1])"
    using w1 len by (simp add: DS18B20_NUM_def OWNext_def)
  have "first_search E s = Some (True, s \<lparr> bus := w1, ID_Buff := [ds ! 0, ds ! 1], temp := t, fistsech := True \<rparr>)"
    unfolding first_search_def w_def[symmetric]
    using w0 len t m by (simp add: ids del: csets.simps)
  then show ?thesis by simp
qed

section \<open>The older search\<close>

text \<open>Before the first discrepancy all devices go the same way, and the stack is empty.\<close>

definition sr_inv :: "(ow_op list \<Rightarrow> bool list \<Rightarrow> nat \<Rightarrow> bool) \<Rightarrow> bytes \<Rightarrow> nat \<Rightarrow> rom_search \<Rightarrow> bool" where
  "sr_inv R r j q \<longleftrightarrow> R (ow_ops (sr_ow q)) (path_of r j) 0 \<and> sr_l q = 0 \<and> zhan q = [0] \<and> length (ss q) = 64"

lemma same_way:
  assumes "r \<in> D" "\<forall>j < n. \<not> discrepancy D r j" "d \<in> D"
  shows "agree d r n"
  using assms(2)
proof (induction n)
  case (Suc n)
  then have ih: "agree d r n" by simp
  have "rbit d n = rbit r n"
    using Suc.prems discrepancyI[OF assms(3,1) ih agree_refl] discrepancyI[OF assms(1,3) agree_refl ih] by blast
  then show ?case using ih by (simp add: agree_Suc)
qed simp

lemma read2_spec:
  assumes "ow_laws E D R" "R (ow_ops w) (path_of r j) 0" "j < 64"
    "x \<longleftrightarrow> (\<forall>d \<in> D. agree d r j \<longrightarrow> rbit d j)" "y \<longleftrightarrow> (\<forall>d \<in> D. agree d r j \<longrightarrow> \<not> rbit d j)"
  shows "\<exists>w'. R (ow_ops w') (path_of r j) 2 \<and> DS18B20_Read2Bit E w = ((if x then 2 else 0) OR (if y then 1 else 0), w')"
proof -
  let ?a = "if x then 1 else 0 :: u8"
  let ?b = "if y then 1 else 0 :: u8"
  obtain w' where w': "R (ow_ops w') (path_of r j) 2"
    "(let (a, s1) = OWReadBit E w; (b, s2) = OWReadBit E s1 in (a, b, s2)) = (?a, ?b, w')"
    using read_two[OF assms(1,2), unfolded length_path_of on_path_of, OF assms(3), folded assms(4,5)] by blast
  obtain t where "DS18B20_ReadBit E w = (?a, t)" "DS18B20_ReadBit E t = (?b, w')"
    using w'(2) unfolding OWReadBit_def
    by (cases "DS18B20_ReadBit E w"; cases "DS18B20_ReadBit E (snd (DS18B20_ReadBit E w))") simp
  then show ?thesis using w'(1) by (intro exI[of _ w']) (cases x; cases y; simp add: DS18B20_Read2Bit_def)
qed

lemma write_spec:
  assumes "ow_laws E D R" "R (ow_ops w) (path_of r j) 2" "j < 64" "bit b 0 = rbit r j"
  shows "R (ow_ops (DS18B20_WriteBit b w)) (path_of r (Suc j)) 0"
proof -
  have "R (ow_ops w @ write_ops (rbit r j)) (path_of r j @ [rbit r j]) 0"
    using assms(1-3) unfolding ow_laws_def by simp
  then show ?thesis using path_of_Suc[OF agree_refl, of r j] by (simp add: WriteBit_eq assms(4))
qed

lemma sr_bit_same:
  assumes "ow_laws E D R" "sr_inv R r j q" "r \<in> D" "\<forall>i \<le> j. \<not> discrepancy D r i" "j < 64"
  shows "\<exists>q'. sr_bit E j q = Some (True, q') \<and> sr_inv R r (Suc j) q'"
proof -
  have q: "R (ow_ops (sr_ow q)) (path_of r j) 0" "sr_l q = 0" "zhan q = [0]" "length (ss q) = 64"
    using assms(2) by (simp_all add: sr_inv_def)
  have "agree d r (Suc j)" if "d \<in> D" for d using same_way[OF assms(3) _ that, of "Suc j"] assms(4) by (simp add: less_Suc_eq_le)
  then have bit: "rbit d j = rbit r j" if "d \<in> D" for d using that by (simp add: agree_Suc)
  have "rbit r j \<longleftrightarrow> (\<forall>d \<in> D. agree d r j \<longrightarrow> rbit d j)" "\<not> rbit r j \<longleftrightarrow> (\<forall>d \<in> D. agree d r j \<longrightarrow> \<not> rbit d j)"
    using bit assms(3) agree_refl[of r j] by blast+
  from read2_spec[OF assms(1) q(1) assms(5) this] obtain w where w: "R (ow_ops w) (path_of r j) 2"
    "DS18B20_Read2Bit E (sr_ow q) = (if rbit r j then 2 else 1, w)" by (cases "rbit r j") auto
  note ws = write_spec[OF assms(1) w(1) assms(5)]
  show ?thesis
  proof (cases "rbit r j")
    case True
    have "R (ow_ops (DS18B20_WriteBit 1 w)) (path_of r (Suc j)) 0" using ws[of 1] True by simp
    then show ?thesis using True w(2) q assms(5) by (simp add: sr_bit_def sr_write_def sr_inv_def Let_def)
  next
    case False
    have "R (ow_ops (DS18B20_WriteBit 0 w)) (path_of r (Suc j)) 0" using ws[of 0] False by simp
    then show ?thesis using False w(2) q assms(5) by (simp add: sr_bit_def sr_write_def sr_inv_def Let_def)
  qed
qed

text \<open>At the first discrepancy the code pushes its position onto the stack, at the index 1.\<close>

lemma sr_bit_overflow:
  assumes "ow_laws E D R" "sr_inv R r j q" "discrepancy D r j" "j < 64"
  shows "sr_bit E j q = None"
proof -
  have q: "R (ow_ops (sr_ow q)) (path_of r j) 0" "sr_l q = 0" "zhan q = [0]" "length (ss q) = 64"
    using assms(2) by (simp_all add: sr_inv_def)
  obtain w where w: "DS18B20_Read2Bit E (sr_ow q) = (0, w)"
    using read2_spec[OF assms(1) q(1) assms(4), of False False] assms(3) unfolding discrepancy_def by auto
  have "unat (of_nat (j + 1) :: u8) = j + 1" using assms(4) by (intro unat_of_nat_u8) simp
  then have "(0 :: u8) < of_nat (j + 1)" by (simp add: word_less_nat_alt del: of_nat_Suc of_nat_add)
  then show ?thesis using w q assms(4) by (simp add: sr_bit_def sr_write_def Let_def cset_def del: of_nat_Suc of_nat_add)
qed

lemma sr_bits_same:
  assumes "ow_laws E D R" "sr_inv R r j q" "r \<in> D" "\<forall>i < j + n. \<not> discrepancy D r i" "j + n \<le> 64"
  shows "\<exists>q'. sr_bits E n j q = Some (True, q') \<and> sr_inv R r (j + n) q'"
  using assms(2,4,5)
proof (induction n arbitrary: j q)
  case (Suc n)
  obtain q1 where q1: "sr_bit E j q = Some (True, q1)" "sr_inv R r (Suc j) q1"
    using sr_bit_same[OF assms(1) Suc.prems(1) assms(3)] Suc.prems(2,3) by auto
  then show ?case using Suc.IH[OF q1(2)] Suc.prems(2,3) by auto
qed simp

lemma sr_bits_overflow:
  assumes "ow_laws E D R" "sr_inv R r j q" "r \<in> D" "\<forall>i < k. \<not> discrepancy D r i" "discrepancy D r k"
    "j \<le> k" "k < j + n" "k < 64"
  shows "sr_bits E n j q = None"
  using assms(2,6,7)
proof (induction n arbitrary: j q)
  case (Suc n)
  show ?case
  proof (cases "j = k")
    case True
    then show ?thesis using sr_bit_overflow[OF assms(1) Suc.prems(1)] assms(5,8) by simp
  next
    case False
    then obtain q1 where q1: "sr_bit E j q = Some (True, q1)" "sr_inv R r (Suc j) q1"
      using sr_bit_same[OF assms(1) Suc.prems(1) assms(3)] Suc.prems(2) assms(4,8) by auto
    then show ?thesis using Suc.IH[OF q1(2)] Suc.prems(2,3) False by simp
  qed
qed (use assms(6,7) in simp)

lemma sr_inv_s: "sr_inv R r j (q \<lparr> sr_s := x \<rparr>) = sr_inv R r j q"
  by (simp add: sr_inv_def)

lemma sr_bytes_overflow:
  assumes "ow_laws E D R" "sr_inv R r (m * 8) q" "r \<in> D" "\<forall>i < k. \<not> discrepancy D r i" "discrepancy D r k"
    "m * 8 \<le> k" "k < 64" "m + n = 8"
  shows "sr_bytes E n m num pID q = None"
  using assms(2,6,8)
proof (induction n arbitrary: m pID q)
  case 0
  then show ?case using assms(7) by simp
next
  case (Suc n)
  have inv: "sr_inv R r (m * 8) (q \<lparr> sr_s := 0 \<rparr>)" using Suc.prems(1) by (simp add: sr_inv_s)
  show ?case
  proof (cases "k < m * 8 + 8")
    case True
    then show ?thesis
      using sr_bits_overflow[OF assms(1) inv assms(3-5) Suc.prems(2) True assms(7)] by simp
  next
    case False
    have "\<forall>i < m * 8 + 8. \<not> discrepancy D r i" "m * 8 + 8 \<le> 64" using False assms(4,7) by auto
    from sr_bits_same[OF assms(1) inv assms(3) this]
    obtain q1 where q1: "sr_bits E 8 (m * 8) (q \<lparr> sr_s := 0 \<rparr>) = Some (True, q1)" "sr_inv R r (m * 8 + 8) q1" by blast
    have "sr_bytes E n (m + 1) num pID' q1 = None" for pID'
      using q1(2) False Suc.prems(3) by (intro Suc.IH) (simp_all add: add.commute)
    then show ?thesis using q1(1) by (simp del: sr_bits.simps split: option.splits Option.bind_splits)
  qed
qed

text \<open>
  DS18B20_SearchROM leaves its stack of one entry on every bus with two devices or
  more.
\<close>

theorem older_search_overflows:
  assumes "ow_bus E D" "valid_roms D" "d \<in> D" "e \<in> D" "d \<noteq> e" "length ss0 = 64"
  shows "DS18B20_SearchROM E [0] ss0 pID w = None"
proof -
  obtain R where R: "ow_laws E D R" using assms(1) by (auto simp: ow_bus_def)
  define s0 where "s0 = ow_do reset_ops w"
  obtain i where i: "i \<le> 100" "\<forall>j < i. E (ow_ops s0 @ waits j)" "\<not> E (ow_ops s0 @ waits i)"
    "R (ow_ops s0 @ waits i @ [Sense, Delay_us 410] @ byte_ops 0xF0) [] 0"
    using R assms(3) unfolding ow_laws_def by (auto simp: s0_def) (metis append_assoc)
  have reset: "snd (DS18B20_Reset E w) = ow_do (waits i @ [Sense, Delay_us 410]) s0"
    using reset_wait_low[OF i(2,3), of 0] i(1) by (simp add: Reset_eq s0_def[symmetric])
  define q where "q = \<lparr> sr_s = 0, sr_l = 0, zhan = [0], ss = ss0,
    sr_ow = DS18B20_WriteData 0xF0 (snd (DS18B20_Reset E w)) \<rparr>"
  have inv: "sr_inv R d 0 q"
    using i(4) assms(6) by (simp add: sr_inv_def q_def reset WriteData_eq path_of_def)
  obtain k0 where k0: "k0 < 64" "agree d e k0" "rbit d k0 \<noteq> rbit e k0"
    using first_difference[of d e 64] agree_64[of d e] assms(2-5) by (auto simp: valid_roms_def)
  have "discrepancy D d k0"
    using k0 assms(3,4) agree_sym[OF k0(2)] discrepancyI[OF assms(3,4) agree_refl, of k0]
      discrepancyI[OF assms(4,3) _ agree_refl, of k0] by (cases "rbit d k0") auto
  then obtain k where k: "discrepancy D d k" "\<forall>i < k. \<not> discrepancy D d i" "k \<le> k0"
    using exists_least_iff[of "discrepancy D d"] by (metis linorder_not_le)
  have "sr_bytes E 8 0 0 pID q = None"
    using sr_bytes_overflow[OF R _ assms(3) k(2,1)] inv k(3) k0(1) by simp
  then show ?thesis
    by (simp add: DS18B20_SearchROM_def MAXNUM_def numeral_2_eq_2 q_def[symmetric] del: sr_bytes.simps)
qed

section \<open>Witnesses\<close>

definition thermo_start :: thermo where
  "thermo_start = \<lparr> bus = ow_start, fistsech = False, ID_Buff = replicate 2 (replicate 8 0), time_run = 0,
     temp = replicate 33 0, TempCreatTrm = 0, Day = 0, Assic = replicate 6 0, fs_writes = [] \<rparr>"

text \<open>A bus on which every read slot gives 0: a device that answers 0 degrees.\<close>

lemma zero_reset: "DS18B20_Reset (\<lambda>_. False) s = (True, ow_do (reset_ops @ [Sense, Delay_us 410]) s)"
  by (simp add: Reset_eq reset_wait_step)

lemma zero_data: "fst (DS18B20_ReadData (\<lambda>_. False) s) = 0"
proof -
  have "fst (read_bits8 (\<lambda>_. False) n 0 t) = 0" for n t
    by (induction n arbitrary: t) (simp_all add: ReadBit_eq)
  then show ?thesis by (simp add: DS18B20_ReadData_def case_prod_beta)
qed

lemma zero_read: "length i = 8 \<Longrightarrow> \<exists>w. DS18B20_ReadDesignateTemper (\<lambda>_. False) i s = Some (0, w)"
  by (simp add: DS18B20_ReadDesignateTemper_def zero_reset read_scaled_def case_prod_beta Let_def zero_data
      times_6_25_def)

theorem temperature_line_witness:
  "\<exists>s'. DS1820main (\<lambda>_. False) (thermo_start \<lparr> fistsech := True, time_run := 12345 \<rparr>) = Some s' \<and>
    decimal (map ((!) (temp s')) time_at) = Some 12345"
proof -
  let ?s = "thermo_start \<lparr> fistsech := True, time_run := 12345 \<rparr>" and ?z = "replicate 8 0 :: bytes"
  have z: "length ?z = 8" by simp
  obtain w1 where w1: "DS18B20_ReadDesignateTemper (\<lambda>_. False) ?z (bus ?s) = Some (0, w1)"
    using zero_read[OF z] by blast
  obtain w2 where w2: "DS18B20_ReadDesignateTemper (\<lambda>_. False) ?z w1 = Some (0, w2)"
    using zero_read[OF z] by blast
  have s: "fistsech ?s" "length (temp ?s) = 33" "uint (time_run ?s) < 100000" "uint (time_run ?s) = 12345"
    by (simp_all add: thermo_start_def)
  have ids: "ID_Buff ?s = [?z, ?z]" by (simp add: thermo_start_def numeral_2_eq_2)
  from temperature_line[OF s(1,2) ids w1 w2 s(3)] show ?thesis unfolding s(4) by blast
qed

theorem day_counted_per_call_witness:
  "\<exists>s'. thread_calls (\<lambda>_. False) [86400000, 86400004] (thermo_start \<lparr> TempCreatTrm := 86399000 \<rparr>) = Some s' \<and> Day s' = 2"
  using day_counted_per_call[of "[86400000, 86400004]" "thermo_start \<lparr> TempCreatTrm := 86399000 \<rparr>" "\<lambda>_. False"]
  by (simp add: thermo_start_def)

theorem first_search_finds_sensors_witness:
  "\<exists>s'. first_search (bus_sim sensors) thermo_start = Some (True, s') \<and> ID_Buff s' = sensors"
proof -
  have "2 \<le> length sensors" "length (ROM_NO (bus thermo_start)) = 8" "length (ID_Buff thermo_start) = 2"
    "length (temp thermo_start) = 33" "[sensors ! 0, sensors ! 1] = sensors"
    by (simp_all add: sensors_def thermo_start_def ow_start_def)
  with first_search_finds_sensors[OF bus_sim_bus sensors_valid sensors_sorted, of thermo_start] show ?thesis by auto
qed

theorem older_search_overflows_witness:
  "DS18B20_SearchROM (bus_sim sensors) [0] (replicate 64 0) (replicate 2 (replicate 8 0)) ow_start = None"
  by (rule older_search_overflows[OF bus_sim_bus sensors_valid, where d = "sensors ! 0" and e = "sensors ! 1"])
    (simp_all add: sensors_def)

end
