(* ===== verification/MbM.thy ===== *)
theory MbM
  imports MbRtuM
begin

text \<open>
  The master stack of \<open>mb_m.c\<close>: its life cycle, the polling function that takes
  one event from the queue, and the frame \<open>Mb2TcpBuff\<close> it builds from a received
  RTU frame for the server.  \<open>None\<close> is an access outside a buffer or a call
  through a function pointer that \<open>eMBMasterInit\<close> has not set.
\<close>

datatype mb_state = STATE_ENABLED | STATE_DISABLED | STATE_NOT_INITIALIZED

record mb_master =
  rtu :: rtu_master
  rtu_selected :: bool
  eMBState :: mb_state
  ucMBMasterDestAddress :: u8
  xMBRunInMasterMode :: bool
  ucMBFrame :: "rtu_ptr option"
  usLength :: u16
  Mb2TcpBuff :: bytes
  Mb2TcpLenth :: u32
  UID_STM32 :: bytes

section \<open>Life cycle\<close>

text \<open>Only the RTU framing is compiled in; \<open>MB_PORT_HAS_CLOSE\<close> is 0.\<close>

definition eMBMasterInit ::
    "eMBMode \<Rightarrow> u8 \<Rightarrow> u32 \<Rightarrow> eMBParity \<Rightarrow> mb_master \<Rightarrow> (eMBErrorCode \<times> mb_master) option" where
  "eMBMasterInit eMode ucPort ulBaudRate eParity s = do {
     (eStatus, s) \<leftarrow> (case eMode of
         MB_RTU \<Rightarrow> do {
           (e, r) \<leftarrow> eMBMasterRTUInit ucPort ulBaudRate eParity (rtu s);
           Some (e, s \<lparr> rtu := r, rtu_selected := True \<rparr>)
         }
       | _ \<Rightarrow> Some (MB_EINVAL, s));
     if eStatus = MB_ENOERR then
       (let (ok, q) = xMBMasterPortEventInit (queue (rtu s));
            s = s \<lparr> rtu := (rtu s) \<lparr> queue := q \<rparr> \<rparr>
        in if \<not> ok then Some (MB_EPORTERR, s)
           else Some (eStatus, s \<lparr> eMBState := STATE_DISABLED \<rparr>))
     else Some (eStatus, s)
   }"

definition eMBMasterClose :: "mb_master \<Rightarrow> eMBErrorCode \<times> mb_master" where
  "eMBMasterClose s = (if eMBState s = STATE_DISABLED then MB_ENOERR else MB_EILLSTATE, s)"

definition eMBMasterEnable :: "mb_master \<Rightarrow> (eMBErrorCode \<times> mb_master) option" where
  "eMBMasterEnable s =
    (if eMBState s = STATE_DISABLED then
       if rtu_selected s
       then Some (MB_ENOERR, s \<lparr> rtu := eMBMasterRTUStart (rtu s), eMBState := STATE_ENABLED \<rparr>)
       else None
     else Some (MB_EILLSTATE, s))"

definition eMBMasterDisable :: "mb_master \<Rightarrow> (eMBErrorCode \<times> mb_master) option" where
  "eMBMasterDisable s =
    (if eMBState s = STATE_ENABLED then
       if rtu_selected s
       then Some (MB_ENOERR, s \<lparr> rtu := eMBMasterRTUStop (rtu s), eMBState := STATE_DISABLED \<rparr>)
       else None
     else if eMBState s = STATE_DISABLED then Some (MB_ENOERR, s)
     else Some (MB_EILLSTATE, s))"

section \<open>The accessors\<close>

definition xMBMasterGetIsBusy :: "mb_master \<Rightarrow> bool" where
  "xMBMasterGetIsBusy s = xMasterIsBusy (rtu s)"

definition xMBMasterGetCBRunInMasterMode :: "mb_master \<Rightarrow> bool" where
  "xMBMasterGetCBRunInMasterMode s = xMBRunInMasterMode s"

definition vMBMasterSetCBRunInMasterMode :: "bool \<Rightarrow> mb_master \<Rightarrow> mb_master" where
  "vMBMasterSetCBRunInMasterMode b s = s \<lparr> xMBRunInMasterMode := b \<rparr>"

definition ucMBMasterGetDestAddress :: "mb_master \<Rightarrow> u8" where
  "ucMBMasterGetDestAddress s = ucMBMasterDestAddress s"

definition vMBMasterSetDestAddress :: "u8 \<Rightarrow> mb_master \<Rightarrow> mb_master" where
  "vMBMasterSetDestAddress a s = s \<lparr> ucMBMasterDestAddress := a \<rparr>"

section \<open>The frame for the server\<close>

text \<open>\<open>memcpy\<close> from a pointer into the RTU buffers.\<close>

definition rtu_read :: "rtu_master \<Rightarrow> rtu_ptr option \<Rightarrow> nat \<Rightarrow> bytes option" where
  "rtu_read r p n =
    (case p of
       None \<Rightarrow> None
     | Some (SndBuf i) \<Rightarrow> cread (ucMasterRTUSndBuf r) i n
     | Some (RcvBuf i) \<Rightarrow> cread (ucMasterRTURcvBuf r) i n)"

definition uid_header :: "bytes \<Rightarrow> bytes option" where
  "uid_header u = do {
     u2 \<leftarrow> cget u 2; u3 \<leftarrow> cget u 3; u4 \<leftarrow> cget u 4; u5 \<leftarrow> cget u 5; u6 \<leftarrow> cget u 6;
     u8 \<leftarrow> cget u 8; u9 \<leftarrow> cget u 9;
     Some [0xFF, 0xAA, u2, u3, u4, u5, u6, 0x02, u8, u9, 0, 0, 0]
   }"

text \<open>The case \<open>EV_MASTER_EXECUTE\<close> of the poll.\<close>

definition execute_frame :: "mb_master \<Rightarrow> mb_master option" where
  "execute_frame s =
    (if usLength s < 256 then do {
       let n = unat (usLength s);
       h \<leftarrow> uid_header (UID_STM32 s);
       b \<leftarrow> cwrite (Mb2TcpBuff s) 0 h;
       f \<leftarrow> rtu_read (rtu s) (ucMBFrame s) n;
       b \<leftarrow> cwrite b 13 f;
       b \<leftarrow> cset b (n + 13 + 0) 0xAA;
       b \<leftarrow> cset b (n + 13 + 1) 0xFF;
       b \<leftarrow> cset b (n + 13 + 2) 0x24;
       b \<leftarrow> cset b (n + 13 + 3) 0x0D;
       b \<leftarrow> cset b (n + 13 + 4) 0x0A;
       Some (s \<lparr> Mb2TcpBuff := b, Mb2TcpLenth := ucast (usLength s) + 18 \<rparr>)
     } else Some s)"

section \<open>The poll\<close>

definition eMBMasterPoll :: "mb_master \<Rightarrow> (eMBErrorCode \<times> mb_master) option" where
  "eMBMasterPoll s =
    (if eMBState s \<noteq> STATE_ENABLED then Some (MB_EILLSTATE, s) else
     let (e, q) = xMBMasterPortEventGet (queue (rtu s));
         s = s \<lparr> rtu := (rtu s) \<lparr> queue := q \<rparr> \<rparr>
     in case e of
          None \<Rightarrow> Some (MB_ENOERR, s)
        | Some EV_MASTER_READY \<Rightarrow> Some (MB_ENOERR, s)
        | Some EV_MASTER_FRAME_RECEIVED \<Rightarrow>
            (let (eStatus, p, n) = eMBMasterRTUReceive (ucMBFrame s, usLength s) (rtu s);
                 ev = (if eStatus = MB_ENOERR then EV_MASTER_EXECUTE else EV_MASTER_ERROR_PROCESS)
             in Some (MB_ENOERR,
                      s \<lparr> rtu := snd (event_post ev (rtu s)), ucMBFrame := p, usLength := n \<rparr>))
        | Some EV_MASTER_EXECUTE \<Rightarrow> map_option (\<lambda>s. (MB_ENOERR, s)) (execute_frame s)
        | Some EV_MASTER_FRAME_SENT \<Rightarrow>
            (let r = vMBMasterSetIsBusy True (rtu s);
                 p = vMBMasterGetPDUSndBuf r;
                 (eStatus, r) = eMBMasterRTUSend (ucMBMasterGetDestAddress s) p
                                  (ucast (ucMBMasterGetPDUSndLength r)) r
             in Some (MB_ENOERR, s \<lparr> rtu := r, ucMBFrame := Some p \<rparr>))
        | Some EV_MASTER_ERROR_PROCESS \<Rightarrow>
            Some (MB_ENOERR, s \<lparr> rtu := vMBMasterSetIsBusy False (rtu s) \<rparr>))"

section \<open>Invariant\<close>

text \<open>
  An \<open>EV_MASTER_EXECUTE\<close> in the queue was posted by the poll that stored the
  frame pointer, so that pointer is the receive buffer.
\<close>

definition queued :: "rtu_master \<Rightarrow> eMBMasterEventType \<Rightarrow> bool" where
  "queued r e \<longleftrightarrow> xMasterEventInQueue (queue r) \<and> eMasterQueuedEvent (queue r) = e"

definition mbm_inv :: "mb_master \<Rightarrow> bool" where
  "mbm_inv s \<longleftrightarrow> rtu_inv (rtu s) \<and> length (Mb2TcpBuff s) = 256 \<and> length (UID_STM32 s) = 16 \<and>
     (queued (rtu s) EV_MASTER_EXECUTE \<longrightarrow> ucMBFrame s = Some (RcvBuf 0))"

lemma rtu_inv_queue [simp]: "rtu_inv (r \<lparr> queue := q \<rparr>) = rtu_inv r"
  by (simp add: rtu_inv_def)

lemma rtu_inv_busy [simp]: "rtu_inv (r \<lparr> xMasterIsBusy := b \<rparr>) = rtu_inv r"
  by (simp add: rtu_inv_def)

text \<open>The 13 header bytes, and the whole frame for the server.\<close>

definition server_header :: "bytes \<Rightarrow> bytes" where
  "server_header u = [0xFF, 0xAA, u ! 2, u ! 3, u ! 4, u ! 5, u ! 6, 0x02, u ! 8, u ! 9, 0, 0, 0]"

definition server_frame :: "bytes \<Rightarrow> bytes \<Rightarrow> bytes" where
  "server_frame u f = server_header u @ f @ [0xAA, 0xFF, 0x24, 0x0D, 0x0A]"

lemma server_header_length [simp]: "length (server_header u) = 13"
  by (simp add: server_header_def)

lemma server_frame_length [simp]: "length (server_frame u f) = length f + 18"
  by (simp add: server_frame_def)

lemma uid_header_Some: "length u = 16 \<Longrightarrow> uid_header u = Some (server_header u)"
  by (simp add: uid_header_def server_header_def)

text \<open>Five stores one after the other.\<close>

lemma five_csets:
  "(do { b \<leftarrow> cset b (i + 0) v; b \<leftarrow> cset b (i + 1) w; b \<leftarrow> cset b (i + 2) x;
        b \<leftarrow> cset b (i + 3) y; b \<leftarrow> cset b (i + 4) z; k b }) =
   (if i + 5 \<le> length b then k (take i b @ [v, w, x, y, z] @ drop (i + 5) b) else None)"
proof (cases "i + 5 \<le> length b")
  case True
  have "b[i := v, Suc i := w, i + 2 := x, i + 3 := y, i + 4 := z]
      = take i b @ [v, w, x, y, z] @ drop (i + 5) b"
  proof (rule nth_equalityI)
    fix j assume "j < length (b[i := v, Suc i := w, i + 2 := x, i + 3 := y, i + 4 := z])"
    then have j: "j < length b" by simp
    consider "j < i" | "j = i" | "j = i + 1" | "j = i + 2" | "j = i + 3" | "j = i + 4" | k where "j = i + 5 + k"
    proof -
      have "j < i \<or> j = i \<or> j = i + 1 \<or> j = i + 2 \<or> j = i + 3 \<or> j = i + 4 \<or> i + 5 \<le> j" by linarith
      then show ?thesis using that by (auto simp: le_iff_add)
    qed
    then show "b[i := v, Suc i := w, i + 2 := x, i + 3 := y, i + 4 := z] ! j
        = (take i b @ [v, w, x, y, z] @ drop (i + 5) b) ! j"
    proof cases
      case (7 k)
      then show ?thesis using True j by (simp add: nth_append)
    qed (use True j in \<open>simp_all add: nth_append numeral_eq_Suc\<close>)
  qed (use True in simp)
  with True show ?thesis by simp
next
  case False
  then show ?thesis
    by (auto simp: bind_eq_None_conv cset_def)
qed

lemma execute_frame_eq:
  assumes "length (UID_STM32 s) = 16" "length (Mb2TcpBuff s) = 256"
    "rtu_read (rtu s) (ucMBFrame s) (unat (usLength s)) = Some f" "unat (usLength s) \<le> 255"
  shows "execute_frame s =
    (if unat (usLength s) \<le> 238 then Some (s \<lparr>
       Mb2TcpBuff := server_frame (UID_STM32 s) f @ drop (unat (usLength s) + 18) (Mb2TcpBuff s),
       Mb2TcpLenth := ucast (usLength s) + 18 \<rparr>)
     else None)"
proof -
  let ?n = "unat (usLength s)" and ?h = "server_header (UID_STM32 s)" and ?B = "Mb2TcpBuff s"
  have len: "length f = ?n"
    using assms(3) by (auto simp: rtu_read_def cmem split: option.splits rtu_ptr.splits)
  have lt: "usLength s < 256" using assms(4) by (simp add: word_less_nat_alt)
  have w1: "cwrite ?B 0 ?h = Some (?h @ drop 13 ?B)"
    using assms(2) by (simp add: cwrite_def)
  show ?thesis
  proof (cases "13 + ?n \<le> 256")
    case True
    then have w2: "cwrite (?h @ drop 13 ?B) 13 f = Some (?h @ f @ drop (?n + 13) ?B)"
      using assms(2) len by (simp add: cwrite_def add.commute)
    have "take (?n + 13) (?h @ f @ drop (?n + 13) ?B) = ?h @ f"
      "drop (?n + 13 + 5) (?h @ f @ drop (?n + 13) ?B) = drop (?n + 18) ?B"
      using len by (simp_all add: add.commute)
    then show ?thesis
      using assms lt len True
      by (simp only: execute_frame_def if_True uid_header_Some bind.bind_lunit w1 w2 Let_def five_csets)
        (simp add: server_frame_def add.commute)
  next
    case False
    then have "cwrite (?h @ drop 13 ?B) 13 f = None"
      using assms(2) len by (simp add: cwrite_def)
    then show ?thesis
      using assms lt False
      by (simp only: execute_frame_def if_True uid_header_Some bind.bind_lunit w1 Let_def) simp
  qed
qed

section \<open>The poll keeps the invariant\<close>

definition poll_overflows :: "mb_master \<Rightarrow> bool" where
  "poll_overflows s \<longleftrightarrow> eMBState s = STATE_ENABLED \<and> queued (rtu s) EV_MASTER_EXECUTE \<and>
     239 \<le> unat (usLength s) \<and> unat (usLength s) \<le> 255"

lemma execute_frame_inv:
  assumes "rtu_inv (rtu s)" "length (Mb2TcpBuff s) = 256" "length (UID_STM32 s) = 16"
    "ucMBFrame s = Some (RcvBuf 0)" "\<not> queued (rtu s) EV_MASTER_EXECUTE"
  shows "case execute_frame s of
      None \<Rightarrow> 239 \<le> unat (usLength s) \<and> unat (usLength s) \<le> 255
    | Some s' \<Rightarrow> \<not> (239 \<le> unat (usLength s) \<and> unat (usLength s) \<le> 255) \<and> mbm_inv s' \<and>
        rtu s' = rtu s \<and> eMBState s' = eMBState s"
proof (cases "unat (usLength s) \<le> 255")
  case True
  have "rtu_read (rtu s) (ucMBFrame s) (unat (usLength s)) =
      Some (take (unat (usLength s)) (ucMasterRTURcvBuf (rtu s)))"
    using assms True by (simp add: rtu_read_def rtu_inv_def)
  moreover have "length (ucMasterRTURcvBuf (rtu s)) = 256" using assms(1) by (simp add: rtu_inv_def)
  ultimately show ?thesis
    using execute_frame_eq[OF assms(3,2) _ True] assms True by (cases "unat (usLength s) \<le> 238") (simp_all add: mbm_inv_def)
next
  case False
  then have "\<not> usLength s < 256" by (simp add: word_less_nat_alt)
  then show ?thesis using assms False by (simp add: execute_frame_def mbm_inv_def)
qed

text \<open>What the poll does with each event, once it is taken from the queue.\<close>

abbreviation dequeued :: "mb_master \<Rightarrow> mb_master" where
  "dequeued s \<equiv> s \<lparr> rtu := (rtu s) \<lparr> queue := (queue (rtu s)) \<lparr> xMasterEventInQueue := False \<rparr> \<rparr> \<rparr>"

lemma poll_disabled: "eMBState s \<noteq> STATE_ENABLED \<Longrightarrow> eMBMasterPoll s = Some (MB_EILLSTATE, s)"
  by (simp add: eMBMasterPoll_def)

lemma poll_empty:
  "eMBState s = STATE_ENABLED \<Longrightarrow> \<not> xMasterEventInQueue (queue (rtu s)) \<Longrightarrow>
   eMBMasterPoll s = Some (MB_ENOERR, s)"
  by (simp add: eMBMasterPoll_def xMBMasterPortEventGet_def)

lemma poll_event:
  assumes "eMBState s = STATE_ENABLED" "queued (rtu s) e"
  shows "e = EV_MASTER_READY \<Longrightarrow> eMBMasterPoll s = Some (MB_ENOERR, dequeued s)"
    "e = EV_MASTER_FRAME_RECEIVED \<Longrightarrow> MB_SER_PDU_SIZE_MIN \<le> usMasterRcvBufferPos (rtu s) \<Longrightarrow>
       eMBMasterPoll s = Some (MB_ENOERR, s \<lparr> rtu := snd (event_post EV_MASTER_EXECUTE (rtu s)),
         ucMBFrame := Some (RcvBuf 0), usLength := usMasterRcvBufferPos (rtu s) \<rparr>)"
    "e = EV_MASTER_FRAME_RECEIVED \<Longrightarrow> \<not> MB_SER_PDU_SIZE_MIN \<le> usMasterRcvBufferPos (rtu s) \<Longrightarrow>
       eMBMasterPoll s = Some (MB_ENOERR, s \<lparr> rtu := snd (event_post EV_MASTER_ERROR_PROCESS (rtu s)) \<rparr>)"
    "e = EV_MASTER_EXECUTE \<Longrightarrow>
       eMBMasterPoll s = map_option (\<lambda>s. (MB_ENOERR, s)) (execute_frame (dequeued s))"
    "e = EV_MASTER_ERROR_PROCESS \<Longrightarrow>
       eMBMasterPoll s = Some (MB_ENOERR, dequeued s \<lparr> rtu := vMBMasterSetIsBusy False (rtu (dequeued s)) \<rparr>)"
  using assms
  by (simp_all add: eMBMasterPoll_def xMBMasterPortEventGet_def Let_def queued_def
      eMBMasterRTUReceive_def event_post_def xMBMasterPortEventPost_def)

lemma poll_sent:
  assumes "eMBState s = STATE_ENABLED" "queued (rtu s) EV_MASTER_FRAME_SENT"
  shows "eMBMasterPoll s = Some (MB_ENOERR, s \<lparr>
      rtu := snd (eMBMasterRTUSend (ucMBMasterDestAddress s) (SndBuf 0)
        (ucast (ucMasterSendPDULength (rtu s))) ((rtu (dequeued s)) \<lparr> xMasterIsBusy := True \<rparr>)),
      ucMBFrame := Some (SndBuf 0) \<rparr>)"
  using assms
  by (simp add: eMBMasterPoll_def xMBMasterPortEventGet_def Let_def queued_def
      vMBMasterSetIsBusy_def vMBMasterGetPDUSndBuf_def ucMBMasterGetPDUSndLength_def
      ucMBMasterGetDestAddress_def case_prod_beta)

lemma Send_queue [simp]: "queue (snd (eMBMasterRTUSend a p n r)) = queue r"
  by (simp add: eMBMasterRTUSend_def rtu_defs)

lemma event_post_inv [simp]: "rtu_inv (snd (event_post e r)) = rtu_inv r"
  by (simp add: event_post_def xMBMasterPortEventPost_def)

lemma queued_post [simp]: "queued (snd (event_post e r)) e' \<longleftrightarrow> e = e'"
  by (simp add: event_post_def xMBMasterPortEventPost_def queued_def)

lemma eMBMasterPoll_inv:
  assumes "mbm_inv s"
  shows "case eMBMasterPoll s of
      None \<Rightarrow> poll_overflows s
    | Some (e, s') \<Rightarrow> \<not> poll_overflows s \<and> mbm_inv s' \<and> eMBState s' = eMBState s"
proof (cases "eMBState s = STATE_ENABLED \<and> xMasterEventInQueue (queue (rtu s))")
  case False
  then show ?thesis
    using assms by (cases "eMBState s = STATE_ENABLED")
      (simp_all add: poll_disabled poll_empty poll_overflows_def queued_def)
next
  case True
  define e where "e = eMasterQueuedEvent (queue (rtu s))"
  with True have st: "eMBState s = STATE_ENABLED" and q: "queued (rtu s) e"
    by (simp_all add: queued_def)
  have other: "\<not> poll_overflows s" if "e \<noteq> EV_MASTER_EXECUTE"
    using q that by (auto simp: poll_overflows_def queued_def)
  have deq: "\<not> queued (rtu (dequeued s)) e'" for e' by (simp add: queued_def)
  note inv = assms[unfolded mbm_inv_def] and ev = poll_event[OF st q]
  show ?thesis
  proof (cases e)
    case EV_MASTER_READY
    with other have "\<not> poll_overflows s" by simp
    then show ?thesis using inv deq by (simp add: ev(1)[OF EV_MASTER_READY] mbm_inv_def)
  next
    case EV_MASTER_FRAME_RECEIVED
    with other have "\<not> poll_overflows s" by simp
    then show ?thesis
      using inv EV_MASTER_FRAME_RECEIVED
      by (cases "MB_SER_PDU_SIZE_MIN \<le> usMasterRcvBufferPos (rtu s)")
        (simp_all add: ev(2,3) mbm_inv_def)
  next
    case EV_MASTER_EXECUTE
    have "ucMBFrame s = Some (RcvBuf 0)" using inv q EV_MASTER_EXECUTE by simp
    then have "case execute_frame (dequeued s) of
      None \<Rightarrow> 239 \<le> unat (usLength s) \<and> unat (usLength s) \<le> 255
    | Some s' \<Rightarrow> \<not> (239 \<le> unat (usLength s) \<and> unat (usLength s) \<le> 255) \<and> mbm_inv s' \<and>
        rtu s' = rtu (dequeued s) \<and> eMBState s' = eMBState s"
      using execute_frame_inv[of "dequeued s"] inv deq[of EV_MASTER_EXECUTE]
      by (simp split: option.splits)
    then show ?thesis
      using st q EV_MASTER_EXECUTE
      by (auto simp: ev(4)[OF EV_MASTER_EXECUTE] poll_overflows_def split: option.splits)
  next
    case EV_MASTER_FRAME_SENT
    with other have "\<not> poll_overflows s" by simp
    moreover have "unat (ucast (ucMasterSendPDULength (rtu s)) :: u16) \<le> 253"
      using inv by (simp add: rtu_inv_def)
    then have "rtu_inv (snd (eMBMasterRTUSend a (SndBuf 0) (ucast (ucMasterSendPDULength (rtu s)))
        ((rtu (dequeued s)) \<lparr> xMasterIsBusy := True \<rparr>)))" for a
      using inv by (intro Send_inv) simp_all
    ultimately show ?thesis
      using inv q EV_MASTER_FRAME_SENT
      by (simp add: poll_sent[OF st] mbm_inv_def) (simp add: queued_def)
  next
    case EV_MASTER_ERROR_PROCESS
    with other have "\<not> poll_overflows s" by simp
    then show ?thesis
      using inv by (simp add: ev(5)[OF EV_MASTER_ERROR_PROCESS] mbm_inv_def vMBMasterSetIsBusy_def)
        (simp add: queued_def)
  qed
qed

section \<open>The interrupt handlers keep the invariant of the stack\<close>

lemma ReceiveFSM_queue:
  assumes "xMBMasterRTUReceiveFSM b r = Some (p, r')"
  shows "queue r' = queue r"
proof (cases "eRcvState r")
  case STATE_M_RX_RCV
  then show ?thesis
    using assms by (cases "usMasterRcvBufferPos r < 256";
        cases "cset (ucMasterRTURcvBuf r) (unat (usMasterRcvBufferPos r)) b")
      (auto simp: xMBMasterRTUReceiveFSM_def rtu_defs)
next
  case STATE_M_RX_IDLE
  then show ?thesis
    using assms by (cases "cset (ucMasterRTURcvBuf r) 0 b")
      (auto simp: xMBMasterRTUReceiveFSM_def rtu_defs Let_def)
qed (use assms in \<open>auto simp: xMBMasterRTUReceiveFSM_def rtu_defs\<close>)

lemma TransmitFSM_queue:
  assumes "xMBMasterRTUTransmitFSM r = Some (p, r')"
  shows "queue r' = queue r"
proof (cases "eSndState r")
  case STATE_M_TX_XMIT
  then show ?thesis
    using assms by (cases "usMasterSndBufferCount r = 0";
        cases "rtu_load r (pucMasterSndBufferCur r)"; cases "cget (ucMasterRTUSndBuf r) 0")
      (auto simp: xMBMasterRTUTransmitFSM_def rtu_defs Let_def)
qed (use assms in \<open>auto simp: xMBMasterRTUTransmitFSM_def rtu_defs\<close>)

lemma USART2_mbm:
  assumes "mbm_inv s"
  shows "\<exists>r. USART2_IRQHandler rxne txe (rtu s) = Some r \<and> mbm_inv (s \<lparr> rtu := r \<rparr>) \<and> queue r = queue (rtu s)"
proof -
  have "rtu_inv (rtu s)" using assms by (simp add: mbm_inv_def)
  then obtain r where r: "USART2_IRQHandler rxne txe (rtu s) = Some r" "rtu_inv r"
    using USART2_inv by blast
  then have "queue r = queue (rtu s)"
    by (auto simp: USART2_IRQHandler_def split: option.splits if_splits
        dest: ReceiveFSM_queue TransmitFSM_queue)
  then show ?thesis using r assms by (simp add: mbm_inv_def queued_def)
qed

lemma TIM3_mbm:
  assumes "mbm_inv s"
  shows "mbm_inv (s \<lparr> rtu := TIM3_IRQHandler u (rtu s) \<rparr>)"
proof -
  define r where "r = rtu s"
  have "queue (snd (xMBMasterRTUTimerExpired r)) = queue r \<or>
      \<not> queued (snd (xMBMasterRTUTimerExpired r)) EV_MASTER_EXECUTE"
    unfolding xMBMasterRTUTimerExpired_def
    by (cases "eRcvState r"; cases "eSndState r") (simp_all add: rtu_defs Let_def queued_def)
  moreover have "rtu_inv (snd (xMBMasterRTUTimerExpired r))"
    using assms by (intro TimerExpired_inv) (simp add: mbm_inv_def r_def)
  ultimately show ?thesis
    using assms by (auto simp: mbm_inv_def TIM3_IRQHandler_def queued_def r_def)
qed

section \<open>From the line to the server\<close>

text \<open>The bytes of a frame, the timer, and two turns of the polling loop.\<close>

definition poll :: "mb_master \<Rightarrow> mb_master option" where
  "poll s = map_option snd (eMBMasterPoll s)"

definition frame_arrives :: "bytes \<Rightarrow> mb_master \<Rightarrow> mb_master option" where
  "frame_arrives bs s = do {
     r \<leftarrow> rx_all bs (rtu s);
     s \<leftarrow> poll (s \<lparr> rtu := TIM3_IRQHandler True r \<rparr>);
     poll s
   }"

lemma timer_rcv_done:
  assumes "eSndState s = STATE_M_TX_IDLE"
  shows "ucMasterRTURcvBuf (TIM3_IRQHandler True (rcv_done buf n s)) = buf"
    "usMasterRcvBufferPos (TIM3_IRQHandler True (rcv_done buf n s)) = of_nat n"
    "queued (TIM3_IRQHandler True (rcv_done buf n s)) EV_MASTER_FRAME_RECEIVED"
proof -
  define r where "r = rcv_done buf n s"
  have st: "eRcvState r = STATE_M_RX_RCV" "eSndState r = STATE_M_TX_IDLE"
    "ucMasterRTURcvBuf r = buf" "usMasterRcvBufferPos r = of_nat n"
    using assms by (simp_all add: r_def rcv_done_def rtu_defs)
  then show "ucMasterRTURcvBuf (TIM3_IRQHandler True (rcv_done buf n s)) = buf"
    "usMasterRcvBufferPos (TIM3_IRQHandler True (rcv_done buf n s)) = of_nat n"
    "queued (TIM3_IRQHandler True (rcv_done buf n s)) EV_MASTER_FRAME_RECEIVED"
    unfolding r_def[symmetric] TIM3_IRQHandler_def xMBMasterRTUTimerExpired_def
    by (simp_all add: rtu_defs Let_def queued_def)
qed

lemma timer_rcv_error:
  assumes "rcv_error r" "\<not> xMasterEventInQueue (queue r)"
  shows "\<not> xMasterEventInQueue (queue (TIM3_IRQHandler True r))"
  using assms
  by (simp add: rcv_error_def TIM3_IRQHandler_def xMBMasterRTUTimerExpired_def rtu_defs Let_def)

lemma frame_polled:
  assumes "mbm_inv s" "eMBState s = STATE_ENABLED" "eRcvState (rtu s) = STATE_M_RX_IDLE"
    "bs \<noteq> []" "length bs \<le> 256"
  obtains r where "rx_all bs (rtu s) = Some r" "rtu_inv r"
    "queued (TIM3_IRQHandler True r) EV_MASTER_FRAME_RECEIVED"
    "usMasterRcvBufferPos (TIM3_IRQHandler True r) = of_nat (length bs)"
    "take (length bs) (ucMasterRTURcvBuf (TIM3_IRQHandler True r)) = bs"
proof -
  let ?r = "rcv_done (bs @ drop (length bs) (ucMasterRTURcvBuf (rtu s))) (length bs)
                              ((rtu s) \<lparr> eSndState := STATE_M_TX_IDLE \<rparr>)"
  have inv: "rtu_inv (rtu s)" using assms(1) by (simp add: mbm_inv_def)
  have "unat (of_nat (length bs) :: u16) = length bs" using assms(5) by (simp add: unat_of_nat_u16)
  then have "rtu_inv ?r"
    using inv assms(4,5) by (simp add: rtu_inv_def rcv_done_def rtu_defs)
  with that[of ?r] rx_frame[OF inv assms(3-5)] show ?thesis
    by (simp add: timer_rcv_done)
qed

lemma frame_arrives_eq:
  assumes "mbm_inv s" "eMBState s = STATE_ENABLED" "eRcvState (rtu s) = STATE_M_RX_IDLE"
    "4 \<le> length bs" "length bs \<le> 256"
  obtains s2 where "frame_arrives bs s = execute_frame s2" "length (UID_STM32 s2) = 16"
    "UID_STM32 s2 = UID_STM32 s" "Mb2TcpBuff s2 = Mb2TcpBuff s" "Mb2TcpLenth s2 = Mb2TcpLenth s"
    "length (Mb2TcpBuff s2) = 256" "unat (usLength s2) = length bs"
    "rtu_read (rtu s2) (ucMBFrame s2) (length bs) = Some bs"
proof -
  have ne: "bs \<noteq> []" using assms(4) by auto
  obtain r where r: "rx_all bs (rtu s) = Some r" "rtu_inv r"
    "queued (TIM3_IRQHandler True r) EV_MASTER_FRAME_RECEIVED"
    "usMasterRcvBufferPos (TIM3_IRQHandler True r) = of_nat (length bs)"
    "take (length bs) (ucMasterRTURcvBuf (TIM3_IRQHandler True r)) = bs"
    using frame_polled[OF assms(1-3) ne assms(5)] by metis
  define t where "t = TIM3_IRQHandler True r"
  have tinv: "rtu_inv t" using TIM3_inv[OF r(2)] by (simp add: t_def)
  have u: "unat (of_nat (length bs) :: u16) = length bs" using assms(5) by (simp add: unat_of_nat_u16)
  then have ge: "4 \<le> usMasterRcvBufferPos t"
    using assms(4) r(4) by (simp add: t_def word_le_nat_alt)
  define s1 where "s1 = s \<lparr> rtu := snd (event_post EV_MASTER_EXECUTE t),
    ucMBFrame := Some (RcvBuf 0), usLength := usMasterRcvBufferPos t \<rparr>"
  have p1: "poll (s \<lparr> rtu := t \<rparr>) = Some s1"
    using assms(2) r(3) ge
    by (simp add: poll_def s1_def poll_event(2)[OF _ _ refl] flip: t_def)
  have en: "eMBState s1 = STATE_ENABLED" "queued (rtu s1) EV_MASTER_EXECUTE"
    using assms(2) by (simp_all add: s1_def)
  have p2: "poll s1 = execute_frame (dequeued s1)"
    by (simp add: poll_def poll_event(4)[OF en refl] option.map_comp comp_def option.map_ident)
  have "frame_arrives bs s = execute_frame (dequeued s1)"
    by (simp add: frame_arrives_def r(1) p1 p2 flip: t_def)
  moreover have "rtu_read (rtu (dequeued s1)) (ucMBFrame (dequeued s1)) (length bs) = Some bs"
    using r(5) tinv assms(5)
    by (simp add: s1_def rtu_read_def rtu_inv_def event_post_def case_prod_beta flip: t_def)
  ultimately show ?thesis
    using that[of "dequeued s1"] assms(1) u r(4)
    by (simp add: s1_def mbm_inv_def flip: t_def)
qed

lemma short_frame_arrives:
  assumes "mbm_inv s" "eMBState s = STATE_ENABLED" "eRcvState (rtu s) = STATE_M_RX_IDLE"
    "bs \<noteq> []" "length bs < 4"
  shows "\<exists>s'. frame_arrives bs s = Some s' \<and> Mb2TcpBuff s' = Mb2TcpBuff s \<and> Mb2TcpLenth s' = Mb2TcpLenth s"
proof -
  have le: "length bs \<le> 256" using assms(5) by simp
  obtain r where r: "rx_all bs (rtu s) = Some r"
    "queued (TIM3_IRQHandler True r) EV_MASTER_FRAME_RECEIVED"
    "usMasterRcvBufferPos (TIM3_IRQHandler True r) = of_nat (length bs)"
    using frame_polled[OF assms(1-4)] le by metis
  define t where "t = TIM3_IRQHandler True r"
  have "\<not> 4 \<le> (of_nat (length bs) :: u16)"
    using assms(5) by (simp add: word_le_nat_alt unat_of_nat_u16)
  then have lt: "\<not> MB_SER_PDU_SIZE_MIN \<le> usMasterRcvBufferPos t" using r(3) by (simp add: t_def)
  define s1 where "s1 = s \<lparr> rtu := snd (event_post EV_MASTER_ERROR_PROCESS t) \<rparr>"
  have p1: "poll (s \<lparr> rtu := t \<rparr>) = Some s1"
    using assms(2) r(2) lt by (simp add: poll_def s1_def poll_event(3)[OF _ _ refl] flip: t_def)
  have en: "eMBState s1 = STATE_ENABLED" "queued (rtu s1) EV_MASTER_ERROR_PROCESS"
    using assms(2) by (simp_all add: s1_def)
  have p2: "poll s1 = Some (dequeued s1 \<lparr> rtu := vMBMasterSetIsBusy False (rtu (dequeued s1)) \<rparr>)"
    by (simp add: poll_def poll_event(5)[OF en refl])
  show ?thesis
    by (simp add: frame_arrives_def r(1) p1 p2 flip: t_def) (simp add: s1_def)
qed

text \<open>The first of the two turns.\<close>

lemma frame_first_poll:
  assumes "mbm_inv s" "eMBState s = STATE_ENABLED" "eRcvState (rtu s) = STATE_M_RX_IDLE"
    "4 \<le> length bs" "length bs \<le> 256"
  obtains r s1 where "rx_all bs (rtu s) = Some r"
    "eMBMasterPoll (s \<lparr> rtu := TIM3_IRQHandler True r \<rparr>) = Some (MB_ENOERR, s1)"
    "Mb2TcpLenth s1 = Mb2TcpLenth s" "frame_arrives bs s = poll s1"
proof -
  have ne: "bs \<noteq> []" using assms(4) by auto
  obtain r where r: "rx_all bs (rtu s) = Some r"
    "queued (TIM3_IRQHandler True r) EV_MASTER_FRAME_RECEIVED"
    "usMasterRcvBufferPos (TIM3_IRQHandler True r) = of_nat (length bs)"
    using frame_polled[OF assms(1-3) ne assms(5)] by metis
  have "unat (of_nat (length bs) :: u16) = length bs" using assms(5) by (simp add: unat_of_nat_u16)
  then have ge: "MB_SER_PDU_SIZE_MIN \<le> usMasterRcvBufferPos (TIM3_IRQHandler True r)"
    using assms(4) r(3) by (simp add: word_le_nat_alt)
  let ?t = "s \<lparr> rtu := TIM3_IRQHandler True r \<rparr>"
  have p: "eMBMasterPoll ?t = Some (MB_ENOERR, ?t \<lparr> rtu := snd (event_post EV_MASTER_EXECUTE (rtu ?t)),
         ucMBFrame := Some (RcvBuf 0), usLength := usMasterRcvBufferPos (rtu ?t) \<rparr>)" (is "_ = Some (_, ?s1)")
    using assms(2) r(2) ge by (intro poll_event(2)[OF _ _ refl]) simp_all
  show ?thesis
    by (rule that[OF r(1) p]) (simp_all add: frame_arrives_def r(1) poll_def p)
qed

lemma frame_to_server:
  assumes "mbm_inv s" "eMBState s = STATE_ENABLED" "eRcvState (rtu s) = STATE_M_RX_IDLE"
    "4 \<le> length bs" "length bs \<le> 238"
  shows "\<exists>s'. frame_arrives bs s = Some s' \<and>
    take (length bs + 18) (Mb2TcpBuff s') = server_frame (UID_STM32 s) bs \<and>
    drop (length bs + 18) (Mb2TcpBuff s') = drop (length bs + 18) (Mb2TcpBuff s) \<and>
    Mb2TcpLenth s' = of_nat (length bs + 18) \<and> unat (usLength s') = length bs"
proof -
  have le: "length bs \<le> 256" using assms(5) by simp
  obtain s2 where s2: "frame_arrives bs s = execute_frame s2" "length (UID_STM32 s2) = 16"
    "UID_STM32 s2 = UID_STM32 s" "Mb2TcpBuff s2 = Mb2TcpBuff s"
    "length (Mb2TcpBuff s2) = 256" "unat (usLength s2) = length bs"
    "rtu_read (rtu s2) (ucMBFrame s2) (length bs) = Some bs"
    using frame_arrives_eq[OF assms(1-4) le] by metis
  have "(ucast (usLength s2) :: u32) = of_nat (length bs)" by (simp flip: s2(6))
  then show ?thesis
    using execute_frame_eq[OF s2(2,5), of bs] s2 assms(5) by (simp add: add.commute)
qed

section \<open>Properties\<close>

text \<open>
  C4: A reply of 4 to 238 bytes that arrives on the RS485 line while the stack is
  enabled and the receiver idle, followed by the t3.5 interrupt and two turns of
  eMBMasterPoll, is found in Mb2TcpBuff between the 13 bytes of the header with the
  gateway's id and the 5 bytes of the trailer, the rest of Mb2TcpBuff is untouched, and
  Mb2TcpLenth is the length of that frame.
\<close>

theorem frame_reaches_server:
  assumes "mbm_inv s" "eMBState s = STATE_ENABLED" "eRcvState (rtu s) = STATE_M_RX_IDLE"
    "4 \<le> length bs" "length bs \<le> 238"
  shows "\<exists>s'. frame_arrives bs s = Some s' \<and>
    take (length bs + 18) (Mb2TcpBuff s') = server_frame (UID_STM32 s) bs \<and>
    drop (length bs + 18) (Mb2TcpBuff s') = drop (length bs + 18) (Mb2TcpBuff s) \<and>
    Mb2TcpLenth s' = of_nat (length bs + 18)"
  using frame_to_server[OF assms] by blast

text \<open>
  A reply of 239 to 255 bytes passes the guard usLength < 256 of the poll and is
  written past the end of Mb2TcpBuff.
\<close>

theorem long_frame_overflows_server_buffer:
  assumes "mbm_inv s" "eMBState s = STATE_ENABLED" "eRcvState (rtu s) = STATE_M_RX_IDLE"
    "239 \<le> length bs" "length bs \<le> 255"
  shows "frame_arrives bs s = None"
proof -
  have ge: "4 \<le> length bs" and le: "length bs \<le> 256" using assms(4,5) by simp_all
  obtain s2 where s2: "frame_arrives bs s = execute_frame s2" "length (UID_STM32 s2) = 16"
    "length (Mb2TcpBuff s2) = 256" "unat (usLength s2) = length bs"
    "rtu_read (rtu s2) (ucMBFrame s2) (length bs) = Some bs"
    using frame_arrives_eq[OF assms(1-3) ge le] by metis
  then show ?thesis
    using execute_frame_eq[OF s2(2,3), of bs] assms(4,5) by simp
qed

text \<open>
  A reply shorter than 4 bytes or of 256 bytes and more is dropped: neither
  Mb2TcpBuff nor Mb2TcpLenth changes.
\<close>

theorem other_frames_leave_server_buffer:
  assumes "mbm_inv s" "eMBState s = STATE_ENABLED" "eRcvState (rtu s) = STATE_M_RX_IDLE"
    "bs \<noteq> []" "length bs < 4 \<or> 256 \<le> length bs"
    "\<not> xMasterEventInQueue (queue (rtu s))"
  shows "\<exists>s'. frame_arrives bs s = Some s' \<and> Mb2TcpBuff s' = Mb2TcpBuff s \<and> Mb2TcpLenth s' = Mb2TcpLenth s"
proof -
  consider "length bs < 4" | "length bs = 256" | "256 < length bs" using assms(5) by linarith
  then show ?thesis
  proof cases
    case 1
    then show ?thesis by (rule short_frame_arrives[OF assms(1-4)])
  next
    case 2
    then have ge: "4 \<le> length bs" and le: "length bs \<le> 256" by simp_all
    with 2 obtain s2 where s2: "frame_arrives bs s = execute_frame s2"
      "Mb2TcpBuff s2 = Mb2TcpBuff s" "Mb2TcpLenth s2 = Mb2TcpLenth s" "unat (usLength s2) = 256"
      using frame_arrives_eq[OF assms(1-3) ge le] by metis
    then have "\<not> usLength s2 < 256" by (simp add: word_less_nat_alt)
    then show ?thesis using s2 by (simp add: execute_frame_def)
  next
    case 3
    have "rtu_inv (rtu s)" using assms(1) by (simp add: mbm_inv_def)
    then obtain r where r: "rx_all bs (rtu s) = Some r" "rcv_error r" "queue r = queue (rtu s)"
      using rx_oversize[OF _ assms(3) 3] by blast
    then have "\<not> xMasterEventInQueue (queue (TIM3_IRQHandler True r))"
      using timer_rcv_error assms(6) by simp
    then show ?thesis
      using assms(2) r(1) by (simp add: frame_arrives_def poll_def poll_empty)
  qed
qed

definition enabled_master :: mb_master where
  "enabled_master = \<lparr> rtu = idle_rtu, rtu_selected = True, eMBState = STATE_ENABLED,
     ucMBMasterDestAddress = 0, xMBRunInMasterMode = False, ucMBFrame = None, usLength = 0,
     Mb2TcpBuff = replicate 256 0, Mb2TcpLenth = 0, UID_STM32 = replicate 16 0 \<rparr>"

lemma enabled_master_ready:
  "mbm_inv enabled_master" "eMBState enabled_master = STATE_ENABLED"
  "eRcvState (rtu enabled_master) = STATE_M_RX_IDLE"
  "\<not> xMasterEventInQueue (queue (rtu enabled_master))"
  by (simp_all add: mbm_inv_def enabled_master_def idle_rtu_inv queued_def) (simp_all add: idle_rtu_def)

theorem frame_reaches_server_witness:
  "\<exists>s'. frame_arrives [6, 3, 2, 0, 1, 0x8D, 0x84] enabled_master = Some s' \<and>
    take 25 (Mb2TcpBuff s') =
      [0xFF, 0xAA, 0, 0, 0, 0, 0, 2, 0, 0, 0, 0, 0, 6, 3, 2, 0, 1, 0x8D, 0x84, 0xAA, 0xFF, 0x24, 0x0D, 0x0A]"
  using frame_reaches_server[OF enabled_master_ready(1-3), of "[6, 3, 2, 0, 1, 0x8D, 0x84]"]
  by (auto simp: server_frame_def server_header_def enabled_master_def)

theorem long_frame_overflows_server_buffer_witness:
  "frame_arrives (replicate 240 1) enabled_master = None"
  by (rule long_frame_overflows_server_buffer[OF enabled_master_ready(1-3)]) simp_all

theorem other_frames_leave_server_buffer_witness:
  "\<exists>s'. frame_arrives [6, 3] enabled_master = Some s' \<and> Mb2TcpBuff s' = replicate 256 0"
  using other_frames_leave_server_buffer[OF enabled_master_ready(1-3), of "[6, 3]"] enabled_master_ready(4)
  by (auto simp: enabled_master_def)

text \<open>
  C6: eMBMasterPoll keeps the invariant of the master stack, and its only access outside
  a buffer is the frame of 239 to 255 bytes that does not fit into Mb2TcpBuff together
  with its header and trailer.
\<close>

theorem poll_keeps_invariant:
  assumes "mbm_inv s"
  shows "(eMBMasterPoll s = None \<longleftrightarrow> poll_overflows s) \<and>
    (\<forall>e s'. eMBMasterPoll s = Some (e, s') \<longrightarrow> mbm_inv s')"
  using eMBMasterPoll_inv[OF assms] by (auto split: option.splits)

theorem poll_keeps_invariant_witness:
  "\<exists>e s'. eMBMasterPoll enabled_master = Some (e, s') \<and> mbm_inv s'"
  using poll_keeps_invariant[OF enabled_master_ready(1)] enabled_master_ready(2,4)
  by (simp add: poll_empty)

end
