(* ===== verification/SI4432.thy ===== *)
theory SI4432
  imports Prelude
begin

text \<open>
  The driver of the 433 MHz radio, \<open>SI4432.c\<close>: the SPI by hand over four pins, the
  register accesses over it, configuration, sending and receiving a packet.  The
  state of the pins is the sequence of what the code did to them.  What the module
  drives on its two lines, \<open>SDO\<close> and \<open>NIRQ\<close>, is an argument: a function of
  everything done to it so far.
\<close>

datatype gpio_mode = Out_PP | IPU | IPD

datatype pin_op =
    SDI bool | SCK bool | NSEL bool | SDN bool | Delay_us nat | Delay_init nat
  | Port_clocks | Gpio_Init char "nat list" gpio_mode

type_synonym trace = "pin_op list"

record si_env =
  SDO :: "trace \<Rightarrow> bool"
  NIRQ :: "trace \<Rightarrow> bool"

record radio =
  pins :: trace
  RSSI :: u8

section \<open>SPI\<close>

text \<open>A byte out, most significant bit first, and a byte in through the same variable.\<close>

fun shift_addr :: "nat \<Rightarrow> u8 \<Rightarrow> trace \<Rightarrow> trace" where
  "shift_addr 0 addr t = t"
| "shift_addr (Suc n) addr t =
    shift_addr n (push_bit 1 addr) (t @ [SDI (addr AND 0x80 \<noteq> 0), SCK True, SCK False])"

fun shift_data :: "si_env \<Rightarrow> nat \<Rightarrow> u8 \<Rightarrow> trace \<Rightarrow> u8 \<times> trace" where
  "shift_data e 0 data t = (data, t)"
| "shift_data e (Suc n) data t =
    (let t = t @ [SDI (data AND 0x80 \<noteq> 0)];
         data = push_bit 1 data;
         t = t @ [SCK True];
         data = (if SDO e t then data OR 0x01 else data AND 0xFE)
     in shift_data e n data (t @ [SCK False]))"

definition spi_byte :: "si_env \<Rightarrow> u8 \<Rightarrow> trace \<Rightarrow> u8 \<times> trace" where
  "spi_byte e data t = shift_data e 8 data t"

definition spi_rw :: "si_env \<Rightarrow> u8 \<Rightarrow> u8 \<Rightarrow> trace \<Rightarrow> u8 \<times> trace" where
  "spi_rw e addr data t =
    (let t = shift_addr 8 addr (t @ [SCK False, NSEL False]);
         (data, t) = shift_data e 8 data t
     in (data, t @ [NSEL True, SCK True]))"

text \<open>Accesses whose answer is not used.\<close>

fun spi_seq :: "si_env \<Rightarrow> (u8 \<times> u8) list \<Rightarrow> trace \<Rightarrow> trace" where
  "spi_seq e [] t = t"
| "spi_seq e ((a, d) # l) t = spi_seq e l (snd (spi_rw e a d t))"

section \<open>Registers\<close>

definition SI4432_PWRSTATE_READY :: u8 where "SI4432_PWRSTATE_READY = 1"
definition SI4432_PWRSTATE_TX :: u8 where "SI4432_PWRSTATE_TX = 0x09"
definition SI4432_PWRSTATE_RX :: u8 where "SI4432_PWRSTATE_RX = 5"
definition SI4432_PACKET_SENT_INTERRUPT :: u8 where "SI4432_PACKET_SENT_INTERRUPT = 4"
definition SI4432_Rx_packet_received_interrupt :: u8 where
  "SI4432_Rx_packet_received_interrupt = 0x02"

definition TX1_RX0 :: "u8 \<times> u8" where "TX1_RX0 = (0x0e OR 0x80, 0x01)"
definition TX0_RX1 :: "u8 \<times> u8" where "TX0_RX1 = (0x0e OR 0x80, 0x02)"
definition TX0_RX0 :: "u8 \<times> u8" where "TX0_RX0 = (0x0e OR 0x80, 0x00)"

definition clr_interruput_si4432 :: "(u8 \<times> u8) list" where
  "clr_interruput_si4432 = [(0x03, 0x00), (0x04, 0x00)]"

definition rx_data :: "(u8 \<times> u8) list" where
  "rx_data = [(0x02, 0), (0x07 OR 0x80, SI4432_PWRSTATE_READY), (0x07, 0), (0x02, 0), TX0_RX1,
     (0x08 OR 0x80, 0x03), (0x08 OR 0x80, 0x00), (0x07 OR 0x80, SI4432_PWRSTATE_RX), (0x07, 0),
     (0x05 OR 0x80, SI4432_Rx_packet_received_interrupt)]"

text \<open>The carrier: three registers for each of the 20 channels, none for another number.\<close>

definition channels :: "(u8 \<times> u8 \<times> u8) list" where
  "channels =
     [(0, (0x4b, 0x00)), (1, (0x4d, 0x80)), (2, (0x50, 0x00)), (3, (0x52, 0x80)),
      (4, (0x55, 0x00)), (5, (0x57, 0x80)), (6, (0x5A, 0x00)), (7, (0x5C, 0x80)),
      (8, (0x5F, 0x00)), (9, (0x61, 0x80)), (10, (0x32, 0x00)), (11, (0x34, 0x80)),
      (12, (0x37, 0x00)), (13, (0x39, 0x80)), (14, (0x3C, 0x00)), (15, (0x3E, 0x80)),
      (16, (0x41, 0x00)), (17, (0x43, 0x80)), (18, (0x46, 0x00)), (19, (0x48, 0x80))]"

definition carrier :: "u8 \<Rightarrow> (u8 \<times> u8) list" where
  "carrier RF_Chl = (case map_of channels RF_Chl of
       Some (h, l) \<Rightarrow> [(0x75 OR 0x80, 0x53), (0x76 OR 0x80, h), (0x77 OR 0x80, l)]
     | None \<Rightarrow> [])"

definition table_v26 :: "(u8 \<times> u8) list" where
  "table_v26 =
     [(0x1c OR 0x80, 0xac), (0x1d OR 0x80, 0x40),
      (0x20 OR 0x80, 0x9c), (0x21 OR 0x80, 0x00), (0x22 OR 0x80, 0xd1), (0x23 OR 0x80, 0xb7),
      (0x24 OR 0x80, 0x00), (0x25 OR 0x80, 0x53),
      (0x30 OR 0x80, 0xac), (0x32 OR 0x80, 0x8c), (0x33 OR 0x80, 0x02), (0x34 OR 0x80, 0x08),
      (0x35 OR 0x80, 0x2a), (0x36 OR 0x80, 0x2d), (0x37 OR 0x80, 0xd4), (0x38 OR 0x80, 0),
      (0x39 OR 0x80, 0), (0x3a OR 0x80, 0), (0x3b OR 0x80, 0), (0x3c OR 0x80, 0),
      (0x3d OR 0x80, 0), (0x3e OR 0x80, 0), (0x3f OR 0x80, 0), (0x40 OR 0x80, 0),
      (0x41 OR 0x80, 0), (0x42 OR 0x80, 0), (0x43 OR 0x80, 0xff), (0x44 OR 0x80, 0xff),
      (0x45 OR 0x80, 0xff), (0x46 OR 0x80, 0xff), (0x56 OR 0x80, 0x00),
      (0x6e OR 0x80, 0x9d), (0x6f OR 0x80, 0x49),
      (0x70 OR 0x80, 0x2c), (0x71 OR 0x80, 0x2b), (0x72 OR 0x80, 0x50)]"

definition Si4432RegisterSetV26 :: "u32 \<Rightarrow> (u8 \<times> u8) list" where
  "Si4432RegisterSetV26 chl = table_v26 @ carrier (ucast chl)"

definition SI4432_init :: "u32 \<Rightarrow> (u8 \<times> u8) list" where
  "SI4432_init chl = clr_interruput_si4432 @
     [(0x06 OR 0x80, 0x00), (0x07 OR 0x80, 1), (0x09 OR 0x80, 0x64), (0x0a OR 0x80, 0x05),
      (0x0b OR 0x80, 0xea), (0x0c OR 0x80, 0xea), (0x0d OR 0x80, 0xea)] @
     Si4432RegisterSetV26 chl @
     [(0x6d OR 0x80, 0x07), (0x79 OR 0x80, 0), (0x7a OR 0x80, 0)]"

section \<open>The module\<close>

definition initsi4432 :: "si_env \<Rightarrow> u32 \<Rightarrow> trace \<Rightarrow> trace" where
  "initsi4432 e chl t =
    spi_seq e ([(0x36, 0)] @ SI4432_init chl @ [TX0_RX0])
      (t @ [Port_clocks, Gpio_Init CHR ''A'' [4, 5, 7] Out_PP, Gpio_Init CHR ''A'' [6] IPU,
            Gpio_Init CHR ''C'' [4] IPD, Gpio_Init CHR ''C'' [5] Out_PP,
            Delay_init 72, Delay_us 10000, SDN False, Delay_us 200000])"

definition Check_si4432_HW :: "si_env \<Rightarrow> trace \<Rightarrow> bool \<times> trace" where
  "Check_si4432_HW e t = (let (state, t) = spi_rw e 0 0 t in (state = 0x08, t))"

definition RE_RSSI :: "si_env \<Rightarrow> radio \<Rightarrow> radio" where
  "RE_RSSI e r = (let (v, t) = spi_rw e 0x26 0 (pins r) in r \<lparr> RSSI := v, pins := t \<rparr>)"

text \<open>\<open>leg\<close> bytes from the receive buffer of the module.\<close>

fun read_fifo :: "si_env \<Rightarrow> nat \<Rightarrow> nat \<Rightarrow> bytes \<Rightarrow> trace \<Rightarrow> (bytes \<times> trace) option" where
  "read_fifo e 0 i buf t = Some (buf, t)"
| "read_fifo e (Suc n) i buf t = do {
     let (v, t) = spi_byte e 0 t;
     buf \<leftarrow> cset buf i v;
     read_fifo e n (Suc i) buf t
   }"

definition save_rec_data :: "si_env \<Rightarrow> bytes \<Rightarrow> radio \<Rightarrow> (u8 \<times> bytes \<times> radio) option" where
  "save_rec_data e buf r =
    (if \<not> NIRQ e (pins r) then do {
       let r = RE_RSSI e r;
       let t = spi_seq e clr_interruput_si4432 (pins r);
       let (leg, t) = spi_rw e 0x4b 0 t;
       let (_, t) = spi_byte e 0x7f (t @ [SCK False, NSEL False]);
       (buf, t) \<leftarrow> read_fifo e (unat leg) 0 buf t;
       let t = spi_seq e ([(0x07 OR 0x80, SI4432_PWRSTATE_READY), (0x03, 0), (0x04, 0)] @ rx_data)
                 (t @ [NSEL True]);
       Some (leg, buf, r \<lparr> pins := t \<rparr>)
     } else Some (0, buf, r))"

section \<open>Sending\<close>

text \<open>
  The status is polled until the module reports the packet sent, at most 350 times; the
  result is the number of polls.
\<close>

function tx_wait :: "si_env \<Rightarrow> nat \<Rightarrow> trace \<Rightarrow> nat \<times> trace" where
  "tx_wait e ct t =
    (let (Temp, t) = spi_rw e 0x03 0x00 t;
         t = t @ [Delay_us 350]
     in if Temp AND 0x04 \<noteq> 0 \<or> 350 \<le> ct + 1 then (ct + 1, t) else tx_wait e (ct + 1) t)"
  by pat_completeness auto
termination by (relation "measure (\<lambda>(e, ct, t). 350 - ct)") auto

declare tx_wait.simps [simp del]

definition tx_data :: "si_env \<Rightarrow> u32 \<Rightarrow> bytes \<Rightarrow> u8 \<Rightarrow> trace \<Rightarrow> (bool \<times> trace) option" where
  "tx_data e chl pt leg t = do {
     let t = spi_seq e [(0x05 OR 0x80, SI4432_PACKET_SENT_INTERRUPT),
       (0x07 OR 0x80, SI4432_PWRSTATE_READY), (0x07, 0), (0x02, 0), TX1_RX0,
       (0x08 OR 0x80, 0x03), (0x08 OR 0x80, 0x00), (0x34 OR 0x80, 64), (0x3e OR 0x80, leg)] t;
     d \<leftarrow> cread pt 0 (unat leg);
     let t = spi_seq e (map (\<lambda>x. (0x7f OR 0x80, x)) d) t;
     let (ct, t) = tx_wait e 0 (spi_seq e [(0x07 OR 0x80, SI4432_PWRSTATE_TX)] t);
     Some (if 350 \<le> ct
           then (False, spi_seq e ([(0x07 OR 0x80, 0x01)] @ SI4432_init chl @ rx_data) t)
           else (True, spi_seq e ([(0x03, 0), (0x04, 0), (0x07 OR 0x80, 0x01)] @
             SI4432_init chl @ rx_data) t))
   }"


section \<open>What the pins carry\<close>

definition bits :: "u8 \<Rightarrow> bool list" where
  "bits x = map (\<lambda>i. bit x (7 - i)) [0..<8]"

definition clocked :: "bool list \<Rightarrow> trace" where
  "clocked bs = concat (map (\<lambda>b. [SDI b, SCK True, SCK False]) bs)"

definition frame :: "bool list \<Rightarrow> trace" where
  "frame bs = [SCK False, NSEL False] @ clocked bs @ [NSEL True, SCK True]"

lemma clocked_simps [simp]:
  "clocked [] = []" "clocked (b # bs) = [SDI b, SCK True, SCK False] @ clocked bs"
  "clocked (bs @ cs) = clocked bs @ clocked cs"
  by (simp_all add: clocked_def)

lemma bit_80: "bit (0x80 :: u8) n \<longleftrightarrow> n = 7"
proof -
  have "(0x80 :: u8) = 2 ^ 7" by simp
  then show ?thesis by (simp only: bit_exp_iff) (auto dest: bit_imp_le_length)
qed

lemma msb: "(x AND 0x80 \<noteq> 0) = bit (x :: u8) 7"
proof -
  have "bit (x AND 0x80) n = bit (if bit x 7 then 0x80 else 0 :: u8) n" for n
    unfolding bit_and_iff bit_80 by (cases "bit x 7") (simp_all only: if_True if_False bit_80 bit_0_eq, auto)
  then have "x AND 0x80 = (if bit x 7 then 0x80 else 0)" by (rule bit_eqI)
  then show ?thesis by simp
qed

lemma bit_double: "bit (push_bit 1 (x :: u8)) k \<longleftrightarrow> 0 < k \<and> k < 8 \<and> bit x (k - 1)"
  unfolding bit_push_bit_iff by auto

lemma bit_shifted_in:
  assumes "k < 8"
  shows "bit (if s then push_bit 1 x OR 0x01 else push_bit 1 x AND 0xFE :: u8) k =
    (if k = 0 then s else bit x (k - 1))"
proof -
  have "(0xFE :: u8) = NOT 1" by simp
  then have fe: "bit (0xFE :: u8) k \<longleftrightarrow> 0 < k" using assms by (simp only: bit_not_iff bit_1_iff) simp
  show ?thesis
    unfolding if_distrib[of "\<lambda>w. bit w k"] bit_or_iff bit_and_iff bit_double fe bit_1_iff using assms by auto
qed

lemma upt_Suc_shift: "map f [0..<Suc n] = f 0 # map (\<lambda>i. f (Suc i)) [0..<n]"
  by (simp add: upt_conv_Cons map_Suc_upt [symmetric] del: upt_Suc map_Suc_upt)

lemma shift_addr_trace:
  "n \<le> 8 \<Longrightarrow> shift_addr n a t = t @ clocked (map (\<lambda>i. bit a (7 - i)) [0..<n])"
proof (induction n arbitrary: a t)
  case (Suc n)
  have eq: "map (\<lambda>i. bit (push_bit 1 a) (7 - i)) [0..<n] = map (\<lambda>i. bit a (7 - Suc i)) [0..<n]"
    using Suc.prems by (intro map_cong refl) (simp only: bit_double, auto)
  have "n \<le> 8" using Suc.prems by simp
  note IH = Suc.IH[OF this]
  show ?case unfolding shift_addr.simps IH eq upt_Suc_shift msb by simp
qed simp

lemma shift_data_trace:
  "n \<le> 8 \<Longrightarrow> snd (shift_data e n a t) = t @ clocked (map (\<lambda>i. bit a (7 - i)) [0..<n])"
proof (induction n arbitrary: a t)
  case (Suc n)
  define s where "s = SDO e (t @ [SDI (bit a 7), SCK True])"
  define a' where "a' = (if s then push_bit 1 a OR 0x01 else push_bit 1 a AND 0xFE)"
  have "bit a' (7 - i) = bit a (7 - Suc i)" if "i < n" for i
    using that Suc.prems bit_shifted_in[of "7 - i" s a] by (simp add: a'_def)
  then have "map (\<lambda>i. bit a' (7 - i)) [0..<n] = map (\<lambda>i. bit a (7 - Suc i)) [0..<n]" by simp
  moreover have "shift_data e (Suc n) a t = shift_data e n a' (t @ clocked [bit a 7])"
    by (simp add: Let_def msb a'_def s_def)
  ultimately show ?case
    using Suc.IH[of a'] Suc.prems by (simp only: upt_Suc_shift) simp
qed simp

text \<open>Bit \<open>j\<close> of the byte read is the line at the rising edge \<open>n - 1 - j\<close>.\<close>

definition sample_at :: "u8 \<Rightarrow> nat \<Rightarrow> trace \<Rightarrow> trace" where
  "sample_at d i t = t @ clocked (map (\<lambda>i. bit d (7 - i)) [0..<i]) @ [SDI (bit d (7 - i)), SCK True]"

lemma shift_data_value:
  "n \<le> 8 \<Longrightarrow> j < 8 \<Longrightarrow> bit (fst (shift_data e n a t)) j =
    (if j < n then SDO e (sample_at a (n - 1 - j) t) else bit a (j - n))"
proof (induction n arbitrary: a t)
  case (Suc n)
  define s where "s = SDO e (t @ [SDI (bit a 7), SCK True])"
  define a' where "a' = (if s then push_bit 1 a OR 0x01 else push_bit 1 a AND 0xFE)"
  define t' where "t' = t @ clocked [bit a 7]"
  have step: "shift_data e (Suc n) a t = shift_data e n a' t'"
    by (simp add: Let_def msb a'_def s_def t'_def)
  have a': "bit a' k = (if k = 0 then s else bit a (k - 1))" if "k < 8" for k
    unfolding a'_def by (rule bit_shifted_in[OF that])
  have at: "sample_at a' i t' = sample_at a (Suc i) t" if "i < n" for i
  proof -
    have "map (\<lambda>i. bit a' (7 - i)) [0..<i] = map (\<lambda>i. bit a (7 - Suc i)) [0..<i]"
      using that Suc.prems by (auto simp: a')
    moreover have "bit a' (7 - i) = bit a (7 - Suc i)" using that Suc.prems by (simp add: a')
    ultimately show ?thesis
      by (simp only: sample_at_def t'_def upt_Suc_shift) simp
  qed
  show ?case
  proof (cases "j < n")
    case True
    then have "n - 1 - j < n" "Suc n - 1 - j = Suc (n - 1 - j)" by auto
    then show ?thesis using Suc.IH[of a' t'] Suc.prems True at by (simp add: step del: shift_data.simps)
  next
    case False
    then show ?thesis
      using Suc.IH[of a' t'] Suc.prems by (auto simp: step a' s_def sample_at_def simp del: shift_data.simps)
  qed
qed simp

lemma spi_byte_trace [simp]: "snd (spi_byte e d t) = t @ clocked (bits d)"
  by (simp add: spi_byte_def shift_data_trace bits_def del: upt_Suc)

lemma spi_rw_trace [simp]: "snd (spi_rw e a d t) = t @ frame (bits a @ bits d)"
  using shift_data_trace[of 8 e d]
  by (simp add: spi_rw_def Let_def case_prod_beta shift_addr_trace frame_def bits_def del: upt_Suc)

lemma spi_seq_trace [simp]:
  "spi_seq e l t = t @ concat (map (\<lambda>(a, d). frame (bits a @ bits d)) l)"
  by (induction l arbitrary: t) auto


section \<open>What a module on the bus sees\<close>

text \<open>
  A slave takes the data line at the rising edges of the clock while it is selected; a
  transfer ends when it is released.
\<close>

record slave =
  sel :: bool
  sdi :: bool
  sck :: bool
  shifted :: "bool list"
  done_xfers :: "bool list list"

fun slave_step :: "pin_op \<Rightarrow> slave \<Rightarrow> slave" where
  "slave_step (NSEL False) s = s \<lparr> sel := True, shifted := [] \<rparr>"
| "slave_step (NSEL True) s =
    (if sel s then s \<lparr> sel := False, done_xfers := done_xfers s @ [shifted s] \<rparr> else s)"
| "slave_step (SDI b) s = s \<lparr> sdi := b \<rparr>"
| "slave_step (SCK True) s =
    (if sel s \<and> \<not> sck s then s \<lparr> sck := True, shifted := shifted s @ [sdi s] \<rparr> else s \<lparr> sck := True \<rparr>)"
| "slave_step (SCK False) s = s \<lparr> sck := False \<rparr>"
| "slave_step _ s = s"

definition slave_of :: "trace \<Rightarrow> slave" where
  "slave_of t = fold slave_step t
     \<lparr> sel = False, sdi = False, sck = False, shifted = [], done_xfers = [] \<rparr>"

definition transfers :: "trace \<Rightarrow> bool list list" where
  "transfers t = done_xfers (slave_of t)"

definition released :: "trace \<Rightarrow> bool" where
  "released t \<longleftrightarrow> \<not> sel (slave_of t)"

definition access :: "u8 \<times> u8 \<Rightarrow> bool list" where
  "access = (\<lambda>(a, d). bits a @ bits d)"

lemma clocked_shifts:
  "sel s \<Longrightarrow> \<not> sck s \<Longrightarrow>
   sel (fold slave_step (clocked bs) s) \<and> \<not> sck (fold slave_step (clocked bs) s) \<and>
   shifted (fold slave_step (clocked bs) s) = shifted s @ bs \<and>
   done_xfers (fold slave_step (clocked bs) s) = done_xfers s"
  by (induction bs arbitrary: s) auto

lemma transfers_frame:
  assumes "released t"
  shows "transfers (t @ frame bs) = transfers t @ [bs]" "released (t @ frame bs)"
proof -
  define s where "s = slave_of (t @ [SCK False, NSEL False])"
  have s: "sel s" "\<not> sck s" "shifted s = []" "done_xfers s = transfers t"
    by (simp_all add: s_def slave_of_def transfers_def)
  have "slave_of (t @ frame bs) = fold slave_step [NSEL True, SCK True] (fold slave_step (clocked bs) s)"
    by (simp add: slave_of_def frame_def s_def)
  then show "transfers (t @ frame bs) = transfers t @ [bs]" "released (t @ frame bs)"
    using clocked_shifts[OF s(1,2), of bs] s by (simp_all add: transfers_def released_def)
qed

lemma transfers_frames:
  assumes "released t"
  shows "transfers (t @ concat (map (\<lambda>(a, d). frame (bits a @ bits d)) l)) = transfers t @ map access l \<and>
    released (t @ concat (map (\<lambda>(a, d). frame (bits a @ bits d)) l))"
  using assms
proof (induction l arbitrary: t)
  case (Cons p l)
  then show ?case
    using transfers_frame[OF Cons.prems, of "access p"] Cons.IH[of "t @ frame (access p)"]
    by (simp add: access_def case_prod_beta)
qed simp

lemma transfers_seq:
  "released t \<Longrightarrow> transfers (spi_seq e l t) = transfers t @ map access l"
  "released t \<Longrightarrow> released (spi_seq e l t)"
  using transfers_frames[of t l] by simp_all

lemma transfers_delay [simp]:
  "transfers (t @ [Delay_us n]) = transfers t" "released (t @ [Delay_us n]) = released t"
  by (simp_all add: transfers_def released_def slave_of_def)

section \<open>Waiting for the end of a transmission\<close>

text \<open>The status the module answers at poll \<open>i\<close>.\<close>

definition poll_ops :: trace where
  "poll_ops = frame (access (0x03, 0)) @ [Delay_us 350]"

definition sent_at :: "si_env \<Rightarrow> trace \<Rightarrow> nat \<Rightarrow> bool" where
  "sent_at e t i \<longleftrightarrow> fst (spi_rw e 0x03 0 (t @ concat (replicate i poll_ops))) AND 0x04 \<noteq> 0"

lemma ex_Suc: "(\<exists>i. P i) \<longleftrightarrow> P 0 \<or> (\<exists>i. P (Suc i))"
  by (metis not0_implies_Suc)

lemma tx_wait_spec:
  "ct < 350 \<Longrightarrow> ct < fst (tx_wait e ct t) \<and> fst (tx_wait e ct t) \<le> 350 \<and>
   snd (tx_wait e ct t) = t @ concat (replicate (fst (tx_wait e ct t) - ct) poll_ops) \<and>
   (fst (tx_wait e ct t) < 350 \<longleftrightarrow> (\<exists>i. ct + i < 349 \<and> sent_at e t i))"
proof (induction e ct t rule: tx_wait.induct)
  case (1 e ct t)
  define t' where "t' = t @ poll_ops"
  have t': "snd (spi_rw e 3 0 t) @ [Delay_us 350] = t'" by (simp add: t'_def poll_ops_def access_def)
  have shift: "sent_at e t (Suc i) = sent_at e t' i" for i by (simp add: sent_at_def t'_def)
  show ?case
  proof (cases "sent_at e t 0 \<or> 350 \<le> ct + 1")
    case True
    then have eq: "tx_wait e ct t = (ct + 1, t')"
      by (subst tx_wait.simps) (simp add: case_prod_beta t'[symmetric] sent_at_def del: spi_rw_trace)
    have "(ct + 1 < 350) = (\<exists>i. ct + i < 349 \<and> sent_at e t i)"
      using True by (auto intro: exI[of _ 0])
    then show ?thesis using "1.prems" by (simp add: eq t'_def)
  next
    case False
    then have eq: "tx_wait e ct t = tx_wait e (ct + 1) t'"
      by (subst tx_wait.simps) (simp add: case_prod_beta t'[symmetric] sent_at_def del: spi_rw_trace)
    have ih: "ct + 1 < fst (tx_wait e (ct + 1) t') \<and> fst (tx_wait e (ct + 1) t') \<le> 350 \<and>
      snd (tx_wait e (ct + 1) t') = t' @ concat (replicate (fst (tx_wait e (ct + 1) t') - (ct + 1)) poll_ops) \<and>
      (fst (tx_wait e (ct + 1) t') < 350 \<longleftrightarrow> (\<exists>i. ct + 1 + i < 349 \<and> sent_at e t' i))"
      using "1.IH"[OF refl surjective_pairing[symmetric] t'[symmetric]] False
      by (simp add: sent_at_def del: spi_rw_trace)
    have "(\<exists>i. ct + i < 349 \<and> sent_at e t i) \<longleftrightarrow> (\<exists>i. ct + 1 + i < 349 \<and> sent_at e t' i)"
      using False shift ex_Suc[of "\<lambda>i. ct + i < 349 \<and> sent_at e t i"] by simp
    moreover obtain m where m: "fst (tx_wait e (ct + 1) t') - ct = Suc m"
      "fst (tx_wait e (ct + 1) t') - (ct + 1) = m"
      using ih by (cases "fst (tx_wait e (ct + 1) t') - ct") auto
    ultimately show ?thesis using ih unfolding eq m by (auto simp: t'_def)
  qed
qed


section \<open>The driver as accesses\<close>

lemma transfers_polls:
  assumes "released t"
  shows "transfers (t @ concat (replicate n poll_ops)) = transfers t @ replicate n (access (0x03, 0)) \<and>
    released (t @ concat (replicate n poll_ops))"
  using assms
proof (induction n arbitrary: t)
  case (Suc n)
  define t' where "t' = t @ frame (access (0x03, 0))"
  have "transfers (t' @ [Delay_us 350]) = transfers t @ [access (0x03, 0)]" "released (t' @ [Delay_us 350])"
    using transfers_frame[OF Suc.prems] unfolding transfers_delay t'_def by blast+
  then show ?case using Suc.IH[of "t' @ [Delay_us 350]"] by (simp add: t'_def poll_ops_def)
qed simp

definition tx_prepare :: "u8 \<Rightarrow> (u8 \<times> u8) list" where
  "tx_prepare leg = [(0x85, 4), (0x87, 1), (0x07, 0), (0x02, 0), (0x8e, 1), (0x88, 3), (0x88, 0),
     (0xb4, 64), (0xbe, leg)]"

definition after_tx :: "bool \<Rightarrow> u32 \<Rightarrow> (u8 \<times> u8) list" where
  "after_tx ok chl = (if ok then [(0x03, 0), (0x04, 0)] else []) @ [(0x87, 1)] @ SI4432_init chl @ rx_data"

definition tx_start :: "u8 \<Rightarrow> bytes \<Rightarrow> (u8 \<times> u8) list" where
  "tx_start leg d = tx_prepare leg @ map (\<lambda>x. (0xff, x)) d @ [(0x87, 9)]"

lemma tx_data_eq:
  assumes "unat leg \<le> length pt" "released t"
  shows "\<exists>ok t' n. tx_data e chl pt leg t = Some (ok, t') \<and>
    transfers t' = transfers t @ map access (tx_start leg (take (unat leg) pt) @
      replicate n (0x03, 0) @ after_tx ok chl) \<and>
    released t' \<and> 1 \<le> n \<and> n \<le> 350 \<and> (ok \<longleftrightarrow> n < 350) \<and>
    (ok \<longleftrightarrow> (\<exists>i < 349. sent_at e (spi_seq e (tx_start leg (take (unat leg) pt)) t) i))"
proof -
  have or80: "(0x05 OR 0x80 :: u8) = 0x85" "(0x07 OR 0x80 :: u8) = 0x87" "(0x0e OR 0x80 :: u8) = 0x8e"
    "(0x08 OR 0x80 :: u8) = 0x88" "(0x34 OR 0x80 :: u8) = 0xb4" "(0x3e OR 0x80 :: u8) = 0xbe"
    "(0x7f OR 0x80 :: u8) = 0xff"
    by simp_all
  define l1 where "l1 = tx_start leg (take (unat leg) pt)"
  define t1 where "t1 = spi_seq e l1 t"
  define n where "n = fst (tx_wait e 0 t1)"
  define ok where "ok = (n < 350)"
  define t2 where "t2 = t1 @ concat (replicate n poll_ops)"
  define t' where "t' = spi_seq e (after_tx ok chl) t2"
  have w: "0 < n" "n \<le> 350" "snd (tx_wait e 0 t1) = t2" "ok \<longleftrightarrow> (\<exists>i < 349. sent_at e t1 i)"
    using tx_wait_spec[of 0 e t1] by (auto simp: n_def t2_def ok_def)
  have seq: "spi_seq e b (spi_seq e a t) = spi_seq e (a @ b) t" for a b t by simp
  note vals = SI4432_PACKET_SENT_INTERRUPT_def SI4432_PWRSTATE_READY_def SI4432_PWRSTATE_TX_def
    TX1_RX0_def tx_prepare_def tx_start_def l1_def
  have "spi_seq e [(0x07 OR 0x80, SI4432_PWRSTATE_TX)] (spi_seq e (map (\<lambda>x. (0x7f OR 0x80, x)) (take (unat leg) pt))
      (spi_seq e [(0x05 OR 0x80, SI4432_PACKET_SENT_INTERRUPT), (0x07 OR 0x80, SI4432_PWRSTATE_READY),
         (0x07, 0), (0x02, 0), TX1_RX0, (0x08 OR 0x80, 0x03), (0x08 OR 0x80, 0x00), (0x34 OR 0x80, 64),
         (0x3e OR 0x80, leg)] t)) = t1"
    unfolding t1_def seq vals or80 by simp
  moreover have "cread pt 0 (unat leg) = Some (take (unat leg) pt)" using assms(1) by simp
  ultimately have "tx_data e chl pt leg t = Some (ok, t')"
    using w(3) unfolding tx_data_def Let_def
    by (simp only: bind.bind_lunit case_prod_beta)
      (simp add: ok_def t'_def after_tx_def n_def[symmetric] or80 del: spi_seq_trace spi_seq.simps)
  moreover have t1: "transfers t1 = transfers t @ map access l1" "released t1"
    unfolding t1_def by (rule transfers_seq[OF assms(2)])+
  moreover have "transfers t2 = transfers t1 @ replicate n (access (0x03, 0))" "released t2"
    using transfers_polls[OF t1(2), of n] by (simp_all add: t2_def)
  moreover have "transfers t' = transfers t2 @ map access (after_tx ok chl)" "released t'"
    unfolding t'_def by (rule transfers_seq[OF \<open>released t2\<close>])+
  ultimately show ?thesis
    using w unfolding l1_def[symmetric] t1_def[symmetric]
    by (intro exI[of _ ok] exI[of _ t'] exI[of _ n]) (simp add: ok_def)
qed


section \<open>Receiving\<close>

text \<open>Byte \<open>i\<close> of a burst that begins at \<open>t\<close>.\<close>

definition zeros :: "nat \<Rightarrow> bool list" where
  "zeros n = concat (replicate n (bits 0))"

definition fifo :: "si_env \<Rightarrow> trace \<Rightarrow> nat \<Rightarrow> u8" where
  "fifo e t i = fst (spi_byte e 0 (t @ clocked (zeros i)))"

lemma zeros_Suc: "clocked (zeros (Suc n)) = clocked (bits 0) @ clocked (zeros n)"
  by (simp add: zeros_def)

lemma read_fifo_eq:
  "i + n \<le> length buf \<Longrightarrow> read_fifo e n i buf t =
    Some (take i buf @ map (fifo e t) [0..<n] @ drop (i + n) buf, t @ clocked (zeros n))"
proof (induction n arbitrary: i buf t)
  case (Suc n)
  define v where "v = fst (spi_byte e 0 t)"
  define t' where "t' = t @ clocked (bits 0)"
  have t': "spi_byte e 0 t = (v, t')" by (simp add: v_def t'_def prod_eq_iff)
  have shift: "fifo e t (Suc j) = fifo e t' j" for j by (simp add: fifo_def t'_def zeros_Suc)
  have v: "v = fifo e t 0" by (simp add: v_def fifo_def zeros_def)
  have "take (Suc i) (buf[i := v]) = take i buf @ [v]" using Suc.prems by (simp add: take_update1)
  moreover have "map (fifo e t) [0..<Suc n] = v # map (fifo e t') [0..<n]"
    unfolding upt_Suc_shift shift v by simp
  ultimately show ?case
    using Suc.IH[of "Suc i" "buf[i := v]" t'] Suc.prems
    by (simp add: t' t'_def zeros_Suc del: upt_Suc)
qed (simp add: zeros_def)

lemma read_fifo_None: "length buf < i + n \<Longrightarrow> i \<le> length buf \<Longrightarrow> read_fifo e n i buf t = None"
proof (induction n arbitrary: i buf t)
  case (Suc n)
  then show ?case
    by (cases "i < length buf") (simp_all add: case_prod_beta cset_None[THEN iffD2])
qed simp

lemma transfers_burst:
  assumes "released t"
  shows "transfers (t @ [SCK False, NSEL False] @ clocked bs @ [NSEL True]) = transfers t @ [bs] \<and>
    released (t @ [SCK False, NSEL False] @ clocked bs @ [NSEL True])"
proof -
  have "transfers (t @ frame bs) = transfers (t @ [SCK False, NSEL False] @ clocked bs @ [NSEL True])"
    "released (t @ frame bs) = released (t @ [SCK False, NSEL False] @ clocked bs @ [NSEL True])"
    by (simp_all add: transfers_def released_def slave_of_def frame_def)
  then show ?thesis using transfers_frame[OF assms, of bs] by simp
qed

text \<open>The packet that waits in the module: its length and its bytes.\<close>

definition rx_head :: "(u8 \<times> u8) list" where
  "rx_head = [(0x26, 0), (0x03, 0), (0x04, 0)]"

definition rx_len :: "si_env \<Rightarrow> trace \<Rightarrow> u8" where
  "rx_len e t = fst (spi_rw e 0x4b 0 (spi_seq e rx_head t))"

definition rx_bytes :: "si_env \<Rightarrow> trace \<Rightarrow> bytes" where
  "rx_bytes e t = map (fifo e (spi_seq e (rx_head @ [(0x4b, 0)]) t @ [SCK False, NSEL False] @
     clocked (bits 0x7f))) [0..<unat (rx_len e t)]"

definition rx_again :: "(u8 \<times> u8) list" where
  "rx_again = [(0x87, 1), (0x03, 0), (0x04, 0)] @ rx_data"

lemma save_rec_data_eq:
  assumes "\<not> NIRQ e (pins r)" "released (pins r)"
  shows "if length buf < unat (rx_len e (pins r)) then save_rec_data e buf r = None
    else \<exists>t. save_rec_data e buf r = Some (rx_len e (pins r),
        rx_bytes e (pins r) @ drop (unat (rx_len e (pins r))) buf,
        r \<lparr> RSSI := fst (spi_rw e 0x26 0 (pins r)), pins := t \<rparr>) \<and> released t \<and>
      transfers t = transfers (pins r) @ map access rx_head @ [access (0x4b, 0)] @
        [bits 0x7f @ zeros (unat (rx_len e (pins r)))] @ map access rx_again"
proof -
  define t1 where "t1 = spi_seq e rx_head (pins r)"
  define leg where "leg = fst (spi_rw e 0x4b 0 t1)"
  define t2 where "t2 = spi_seq e [(0x4b, 0)] t1"
  define t3 where "t3 = t2 @ [SCK False, NSEL False] @ clocked (bits 0x7f)"
  define t4 where "t4 = t3 @ clocked (zeros (unat leg)) @ [NSEL True]"
  define t5 where "t5 = spi_seq e rx_again t4"
  have leg: "rx_len e (pins r) = leg" by (simp add: rx_len_def leg_def t1_def)
  have t3: "spi_seq e (rx_head @ [(0x4b, 0)]) (pins r) @ [SCK False, NSEL False] @ clocked (bits 0x7f) = t3"
    by (simp add: t3_def t2_def t1_def)
  have bytes: "rx_bytes e (pins r) = map (fifo e t3) [0..<unat leg]"
    unfolding rx_bytes_def t3 leg ..
  have 1: "spi_seq e clr_interruput_si4432 (pins (RE_RSSI e r)) = t1"
    "RE_RSSI e r = r \<lparr> RSSI := fst (spi_rw e 0x26 0 (pins r)), pins := snd (spi_rw e 0x26 0 (pins r)) \<rparr>"
    by (simp_all add: RE_RSSI_def case_prod_beta Let_def t1_def rx_head_def clr_interruput_si4432_def)
  have 2: "spi_rw e 0x4b 0 t1 = (leg, t2)" by (simp add: leg_def t2_def prod_eq_iff)
  have 3: "snd (spi_byte e 0x7f (t2 @ [SCK False, NSEL False])) = t3" by (simp add: t3_def)
  have or80: "(0x07 OR 0x80 :: u8) = 0x87" by simp
  have step: "save_rec_data e buf r = do {
      (buf, t) \<leftarrow> read_fifo e (unat leg) 0 buf t3;
      Some (leg, buf, r \<lparr> RSSI := fst (spi_rw e 0x26 0 (pins r)),
        pins := spi_seq e rx_again (t @ [NSEL True]) \<rparr>) }"
    using assms(1)
    unfolding save_rec_data_def Let_def unfolding 1(1) 2 case_prod_beta
    unfolding fst_conv snd_conv 3 or80 SI4432_PWRSTATE_READY_def unfolding 1(2)
    by (simp add: rx_again_def del: spi_seq_trace spi_seq.simps)
  show ?thesis
  proof (cases "length buf < unat leg")
    case True
    then show ?thesis unfolding leg step by (simp add: read_fifo_None)
  next
    case False
    have "save_rec_data e buf r = Some (leg, rx_bytes e (pins r) @ drop (unat leg) buf,
        r \<lparr> RSSI := fst (spi_rw e 0x26 0 (pins r)), pins := t5 \<rparr>)"
      using False read_fifo_eq[of 0 "unat leg" buf e t3] unfolding step bytes
      by (simp add: t5_def t4_def del: spi_seq_trace)
    moreover have s1: "transfers t1 = transfers (pins r) @ map access rx_head" "released t1"
      unfolding t1_def by (rule transfers_seq[OF assms(2)])+
    moreover have s2: "transfers t2 = transfers t1 @ map access [(0x4b, 0)]" "released t2"
      unfolding t2_def by (rule transfers_seq[OF s1(2)])+
    moreover have "t4 = t2 @ [SCK False, NSEL False] @ clocked (bits 0x7f @ zeros (unat leg)) @ [NSEL True]"
      by (simp add: t4_def t3_def)
    with transfers_burst[OF s2(2), of "bits 0x7f @ zeros (unat leg)"]
    have s4: "transfers t4 = transfers t2 @ [bits 0x7f @ zeros (unat leg)]" "released t4" by simp_all
    moreover have "transfers t5 = transfers t4 @ map access rx_again" "released t5"
      unfolding t5_def by (rule transfers_seq[OF s4(2)])+
    ultimately show ?thesis using False unfolding leg by (simp add: exI[of _ t5])
  qed
qed


section \<open>The carrier frequency\<close>

text \<open>
  The value a register has after a sequence of accesses, and the carrier in kHz that the
  data sheet gives for registers 0x75 to 0x77: 10 MHz (24 + fb + fc / 64000) in the low band.
\<close>

definition reg_after :: "(u8 \<times> u8) list \<Rightarrow> u8 \<Rightarrow> u8 option" where
  "reg_after l a = map_of (rev l) (a OR 0x80)"

definition carrier_kHz :: "(u8 \<times> u8) list \<Rightarrow> nat option" where
  "carrier_kHz l = do {
     b \<leftarrow> reg_after l 0x75; h \<leftarrow> reg_after l 0x76; lo \<leftarrow> reg_after l 0x77;
     if b AND 0x20 = 0
     then Some ((24 + unat (b AND 0x1F)) * 10000 + (256 * unat h + unat lo) * 10000 div 64000)
     else None
   }"

lemma carrier_regs:
  assumes "x \<in> {0xf5, 0xf6, 0xf7}"
  shows "map_of (rev (SI4432_init chl)) x = map_of (rev (carrier (ucast chl))) x"
proof -
  define A where "A = clr_interruput_si4432 @
     [(0x06 OR 0x80, 0x00), (0x07 OR 0x80, 1), (0x09 OR 0x80, 0x64), (0x0a OR 0x80, 0x05),
      (0x0b OR 0x80, 0xea), (0x0c OR 0x80, 0xea), (0x0d OR 0x80, 0xea)] @ table_v26"
  define B :: "(u8 \<times> u8) list" where "B = [(0x6d OR 0x80, 0x07), (0x79 OR 0x80, 0), (0x7a OR 0x80, 0)]"
  have "x \<notin> fst ` set A" "x \<notin> fst ` set B"
    using assms by (auto simp: A_def B_def clr_interruput_si4432_def table_v26_def)
  then have "map_of (rev A) x = None" "map_of (rev B) x = None" by (simp_all add: map_of_eq_None_iff)
  moreover have "SI4432_init chl = A @ carrier (ucast chl) @ B"
    by (simp add: SI4432_init_def Si4432RegisterSetV26_def A_def B_def)
  ultimately show ?thesis by (simp add: map_add_def split: option.splits)
qed

lemma carrier_kHz_init:
  "carrier_kHz (SI4432_init chl) = do {
     b \<leftarrow> map_of (rev (carrier (ucast chl))) 0xf5; h \<leftarrow> map_of (rev (carrier (ucast chl))) 0xf6;
     lo \<leftarrow> map_of (rev (carrier (ucast chl))) 0xf7;
     if b AND 0x20 = 0
     then Some ((24 + unat (b AND 0x1F)) * 10000 + (256 * unat h + unat lo) * 10000 div 64000)
     else None
   }"
  using carrier_regs[of "0xf5" chl] carrier_regs[of "0xf6" chl] carrier_regs[of "0xf7" chl]
  by (simp add: carrier_kHz_def reg_after_def)

lemma no_carrier: "20 \<le> c \<Longrightarrow> c < 256 \<Longrightarrow> carrier (of_nat c) = []"
proof -
  assume c: "20 \<le> c" "c < 256"
  have "(of_nat c :: u8) \<notin> fst ` set channels"
  proof
    assume "(of_nat c :: u8) \<in> fst ` set channels"
    then have "unat (of_nat c :: u8) \<in> unat ` fst ` set channels" by blast
    then have "unat (of_nat c :: u8) < 20" by (auto simp: channels_def)
    then show False using c unat_of_nat_u8[OF c(2)] by simp
  qed
  then show ?thesis by (simp add: carrier_def map_of_eq_None_iff[symmetric])
qed

section \<open>Properties\<close>

text \<open>
  C22: Seen from the module, an access by spi_rw is one transfer of 16 bits, the address
  and the data with the most significant bit first, and the answer consists of the bits
  the module drove at the last eight rising edges.
\<close>

theorem spi_rw_transfers:
  assumes "released t"
  shows "transfers (snd (spi_rw e a d t)) = transfers t @ [bits a @ bits d] \<and>
    released (snd (spi_rw e a d t)) \<and>
    (\<forall>j < 8. bit (fst (spi_rw e a d t)) j =
       SDO e (sample_at d (7 - j) (t @ [SCK False, NSEL False] @ clocked (bits a))))"
proof -
  have "fst (spi_rw e a d t) = fst (shift_data e 8 d (t @ [SCK False, NSEL False] @ clocked (bits a)))"
    by (simp add: spi_rw_def Let_def case_prod_beta shift_addr_trace bits_def del: upt_Suc)
  then show ?thesis
    using transfers_frame[OF assms] shift_data_value[of 8 _ e d] by simp
qed

text \<open>
  C21: Seen from the module, tx_data is one sequence of register accesses: the
  preparation with the length and the bytes of the packet, the start of the
  transmission, some polls of the packet-sent flag, and then the return to receiving for
  success or for failure.
\<close>

theorem tx_data_sends_packet:
  assumes "unat leg \<le> length pt" "released t"
  shows "\<exists>ok t' n. tx_data e chl pt leg t = Some (ok, t') \<and> released t' \<and>
    transfers t' = transfers t @ map access (tx_start leg (take (unat leg) pt)) @
      replicate n (access (0x03, 0)) @ map access (after_tx ok chl)"
  using tx_data_eq[OF assms, of e chl] by auto

text \<open>
  tx_data ends after at most 350 polls whatever the module answers, for every
  packet of the given length, and answers success exactly when one of the first 349
  polls sees the packet-sent flag.
\<close>

theorem tx_data_ends:
  assumes "unat leg \<le> length pt" "released t"
  shows "\<exists>ok t' n. tx_data e chl pt leg t = Some (ok, t') \<and> 1 \<le> n \<and> n \<le> 350 \<and>
    length (transfers t') = length (transfers t) + length (tx_start leg (take (unat leg) pt)) + n +
      length (after_tx ok chl) \<and>
    (ok \<longleftrightarrow> (\<exists>i < 349. sent_at e (spi_seq e (tx_start leg (take (unat leg) pt)) t) i))"
proof -
  obtain ok t' n where r: "tx_data e chl pt leg t = Some (ok, t')"
    "transfers t' = transfers t @ map access (tx_start leg (take (unat leg) pt) @
      replicate n (0x03, 0) @ after_tx ok chl)" "1 \<le> n" "n \<le> 350"
    "ok \<longleftrightarrow> (\<exists>i < 349. sent_at e (spi_seq e (tx_start leg (take (unat leg) pt)) t) i)"
    using tx_data_eq[OF assms, of e chl] by blast
  show ?thesis
    by (rule exI[of _ ok], rule exI[of _ t'], rule exI[of _ n])
      (use r in \<open>simp del: spi_seq_trace\<close>)
qed

text \<open>
  Reading a packet of the radio stays inside its buffer exactly when the length
  register of the module is at most the size of the buffer.
\<close>

theorem save_rec_data_bounds:
  assumes "\<not> NIRQ e (pins r)" "released (pins r)"
  shows "if length buf < unat (rx_len e (pins r)) then save_rec_data e buf r = None
    else \<exists>r'. save_rec_data e buf r = Some (rx_len e (pins r),
        rx_bytes e (pins r) @ drop (unat (rx_len e (pins r))) buf, r') \<and> released (pins r') \<and>
      transfers (pins r') = transfers (pins r) @ map access rx_head @ [access (0x4b, 0)] @
        [bits 0x7f @ zeros (unat (rx_len e (pins r)))] @ map access rx_again"
  using save_rec_data_eq[OF assms, of buf] by (auto split: if_splits)

text \<open>
  The register settings of the channels 0 to 19 put the carrier at 433.0 to 433.9
  and 432.0 to 432.9 MHz; any other channel leaves the carrier registers alone.
\<close>

theorem channel_frequency:
  "carrier_kHz (SI4432_init (of_nat k)) =
    (if k mod 256 < 10 then Some (433000 + 100 * (k mod 256))
     else if k mod 256 < 20 then Some (432000 + 100 * (k mod 256 - 10)) else None)"
proof -
  define c where "c = k mod 256"
  have u: "(ucast (of_nat k :: u32) :: u8) = of_nat c"
    by (simp add: c_def unsigned_of_nat word_of_nat_eq_iff take_bit_eq_mod mod_mod_cancel)
  show ?thesis
  proof (cases "c < 20")
    case True
    then have "c = 0 \<or> c = 1 \<or> c = 2 \<or> c = 3 \<or> c = 4 \<or> c = 5 \<or> c = 6 \<or> c = 7 \<or> c = 8 \<or> c = 9 \<or>
      c = 10 \<or> c = 11 \<or> c = 12 \<or> c = 13 \<or> c = 14 \<or> c = 15 \<or> c = 16 \<or> c = 17 \<or> c = 18 \<or> c = 19"
      by presburger
    then show ?thesis unfolding c_def[symmetric] carrier_kHz_init u
      by (elim disjE) (simp_all add: carrier_def channels_def)
  next
    case False
    then show ?thesis
      unfolding c_def[symmetric] carrier_kHz_init u using no_carrier[of c] by (simp add: c_def)
  qed
qed


section \<open>Witnesses\<close>

definition quiet_module :: si_env where
  "quiet_module = \<lparr> SDO = \<lambda>_. False, NIRQ = \<lambda>_. False \<rparr>"

lemma released_Nil [simp]: "released []" "transfers [] = []"
  by (simp_all add: released_def transfers_def slave_of_def)

theorem spi_rw_transfers_witness:
  "transfers (snd (spi_rw quiet_module 0x8e 0x01 [])) =
     [[True, False, False, False, True, True, True, False,
       False, False, False, False, False, False, False, True]]"
  using spi_rw_transfers[OF released_Nil(1), of quiet_module "0x8e" "0x01"]
  by (simp add: bits_def upt_rec)

theorem tx_data_sends_packet_witness:
  "\<exists>ok t' n. tx_data quiet_module 3 [7, 8] 2 [] = Some (ok, t') \<and>
    transfers t' = map access (tx_start 2 [7, 8]) @ replicate n (access (3, 0)) @ map access (after_tx ok 3)"
  using tx_data_sends_packet[of 2 "[7, 8]" "[]" quiet_module 3] by auto

theorem tx_data_ends_witness:
  "\<exists>ok t'. tx_data quiet_module 3 [7, 8] 2 [] = Some (ok, t')"
  using tx_data_ends[of 2 "[7, 8]" "[]" quiet_module 3] by auto

theorem save_rec_data_bounds_witness:
  "\<exists>n b r'. save_rec_data quiet_module (replicate 255 0) \<lparr> pins = [], RSSI = 0 \<rparr> = Some (n, b, r')"
proof -
  let ?r = "\<lparr> pins = [], RSSI = 0 \<rparr>"
  have "\<not> 255 < unat (rx_len quiet_module (pins ?r))" using unat_u8[of "rx_len quiet_module (pins ?r)"] by linarith
  then show ?thesis
    using save_rec_data_bounds[of quiet_module ?r "replicate 255 0"]
    by (auto simp: quiet_module_def simp del: unat_u8)
qed

end
