(* ===== verification/Gateway.thy ===== *)
theory Gateway
  imports MbM SI4432
begin

text \<open>
  The gateway between the server connection and the RS485 line,
  \<open>modbus_main.c\<close>: \<open>Master_Send\<close>, which hands a packet to the RTU transmitter,
  \<open>ModbusSenttset\<close>, which forwards what the server sent and otherwise works
  through the list of poll commands the server stored, and the main loop of
  \<open>modbus_main\<close>.  What the radio module answers, the channel stored in the flash
  buffer and the sum of the chip's unique id are arguments.
\<close>

record radio_env =
  si :: si_env
  chl :: u32

record gateway =
  mbm :: mb_master
  TcpRecvBuf :: bytes
  TcpRecvLenth :: u32
  TCP2RS485CMDLIST :: bytes
  MasterCallTrm :: u32
  DevIndex :: u32
  MsaterTime :: u32
  sptr :: "nat option"
  rf :: radio
  Tick :: u32

section \<open>Sending on the line\<close>

text \<open>
  \<open>len\<close> is an \<open>int\<close>: the test against the buffer size is signed, the copy loop runs
  while \<open>i < len\<close>, and the length handed on is converted to 16 bits.
\<close>

definition Master_Send :: "u8 \<Rightarrow> bytes \<Rightarrow> int \<Rightarrow> mb_master \<Rightarrow> mb_master option" where
  "Master_Send Slave_addr Data len s =
    (if int MB_PDU_SIZE_MAX < len then Some s else do {
       src \<leftarrow> cread Data 0 (nat len);
       buf \<leftarrow> cwrite (ucMasterRTUSndBuf (rtu s)) 0 src;
       let r = (rtu s) \<lparr> ucMasterRTUSndBuf := buf \<rparr>;
       Some (s \<lparr> rtu := snd (eMBMasterRTUSend Slave_addr (vMBMasterGetPDUSndBuf r) (of_int len) r) \<rparr>)
     })"

section \<open>Forwarding and polling\<close>

definition si_tx :: "radio_env \<Rightarrow> bytes \<Rightarrow> u32 \<Rightarrow> gateway \<Rightarrow> gateway option" where
  "si_tx x buf len g = do {
     let (hw, t) = Check_si4432_HW (si x) (pins (rf g));
     t \<leftarrow> (if hw then map_option snd (tx_data (si x) (chl x) buf (ucast len) t) else Some t);
     Some (g \<lparr> rf := (rf g) \<lparr> pins := t \<rparr> \<rparr>)
   }"

definition send_mb :: "bytes \<Rightarrow> int \<Rightarrow> gateway \<Rightarrow> gateway option" where
  "send_mb buf len g = do { m \<leftarrow> Master_Send 6 buf len (mbm g); Some (g \<lparr> mbm := m \<rparr>) }"

text \<open>The marks the poll puts into \<open>UID_STM32\<close> and \<open>Mb2TcpBuff\<close> before it sends.\<close>

definition poll_header :: "u32 \<Rightarrow> mb_master \<Rightarrow> mb_master option" where
  "poll_header uid m = do {
     u \<leftarrow> cset (UID_STM32 m) 2 0x01;
     u \<leftarrow> cset u 3 0x01;
     u \<leftarrow> cset u 4 (ucast uid);
     u \<leftarrow> cset u 5 (ucast (drop_bit 8 uid));
     u \<leftarrow> cset u 6 (ucast (drop_bit 16 uid));
     u \<leftarrow> cset u 8 0x88;
     u \<leftarrow> cset u 9 0x88;
     b \<leftarrow> cwrite (Mb2TcpBuff m) 10 [0, 0, 0];
     Some (m \<lparr> UID_STM32 := u, Mb2TcpBuff := b \<rparr>)
   }"

definition be32 :: "bytes \<Rightarrow> nat \<Rightarrow> u32 option" where
  "be32 l i = do {
     a \<leftarrow> cget l i; b \<leftarrow> cget l (i + 1); c \<leftarrow> cget l (i + 2); d \<leftarrow> cget l (i + 3);
     Some (push_bit 24 (ucast a) + push_bit 16 (ucast b) + push_bit 8 (ucast c) + ucast d)
   }"

text \<open>
  One poll: the command at \<open>sptr\<close> is looked up by its letter \<open>0x41 + DevIndex\<close>
  (\<open>memchr\<close> over one byte) and sent, or the index goes back to 0.
\<close>

definition call_next :: "radio_env \<Rightarrow> u32 \<Rightarrow> gateway \<Rightarrow> gateway option" where
  "call_next x uid g = do {
     let L = TCP2RS485CMDLIST g;
     let g = (if DevIndex g = 0 then g \<lparr> sptr := Some 0 \<rparr> else g);
     p \<leftarrow> sptr g;
     c \<leftarrow> cget L p;
     mark \<leftarrow> (if c = ucast (0x41 + DevIndex g) then map_option (\<lambda>x. x = 0x23) (cget L (p + 1))
              else Some False);
     g \<leftarrow> (if mark then do {
         l \<leftarrow> cget L (p + 2);
         let len = unat l;
         cmd \<leftarrow> (if len < 4 \<or> 24 < len - 4 then None else cread L (p + 3) (len - 4));
         m \<leftarrow> poll_header uid (mbm g);
         let g = g \<lparr> mbm := m \<rparr>;
         g \<leftarrow> si_tx x cmd (of_nat (len - 4)) g;
         g \<leftarrow> send_mb cmd (int (len - 4)) g;
         g \<leftarrow> (if DevIndex g = 0 then do {
             t \<leftarrow> be32 L (p + 3 + len - 4);
             Some (g \<lparr> MsaterTime := (if sint t < 1 then 1 else t) \<rparr>)
           } else Some g);
         Some (g \<lparr> sptr := Some (p + 3 + len), DevIndex := DevIndex g + 1 \<rparr>)
       } else Some (g \<lparr> DevIndex := 0 \<rparr>));
     Some (if DevIndex g = 255 then g \<lparr> DevIndex := 0 \<rparr> else g)
   }"

definition ModbusSenttset :: "radio_env \<Rightarrow> u32 \<Rightarrow> u32 \<Rightarrow> gateway \<Rightarrow> gateway option" where
  "ModbusSenttset x uid Time g =
    (if 0 < TcpRecvLenth g then do {
       let len = TcpRecvLenth g;
       g \<leftarrow> si_tx x (TcpRecvBuf g) len g;
       g \<leftarrow> send_mb (TcpRecvBuf g) (sint len) g;
       Some (g \<lparr> TcpRecvLenth := 0 \<rparr>)
     }
     else if MsaterTime g \<le> Time - MasterCallTrm g then do {
       let g = g \<lparr> MasterCallTrm := Time \<rparr>;
       c0 \<leftarrow> cget (TCP2RS485CMDLIST g) 0;
       if c0 \<noteq> 0 then call_next x uid g else Some g
     }
     else Some g)"

text \<open>One turn of the inner loop of \<open>modbus_main\<close>, whose test request is \<open>usedata\<close>.\<close>

definition modbus_main_turn :: "gateway \<Rightarrow> gateway option" where
  "modbus_main_turn g = do {
     g \<leftarrow> (if 20 \<le> Tick g
          then do { g \<leftarrow> send_mb [3, 0, 0, 0, 0x0A, 0, 0, 0, 0, 0] 5 g; Some (g \<lparr> Tick := 0 \<rparr>) }
          else Some g);
     (_, m) \<leftarrow> eMBMasterPoll (mbm g);
     Some (g \<lparr> mbm := m \<rparr>)
   }"

section \<open>Handing a packet to the transmitter\<close>

lemma of_int_u16: "0 \<le> n \<Longrightarrow> n \<le> 253 \<Longrightarrow> unat (of_int n :: u16) = nat n"
  by (cases n) (simp_all add: unat_of_nat_u16)

definition with_sndbuf :: "bytes \<Rightarrow> mb_master \<Rightarrow> mb_master" where
  "with_sndbuf d s = s \<lparr> rtu := (rtu s)
     \<lparr> ucMasterRTUSndBuf := d @ drop (length d) (ucMasterRTUSndBuf (rtu s)) \<rparr> \<rparr>"

lemma with_sndbuf_inv: "mbm_inv s \<Longrightarrow> length d \<le> 253 \<Longrightarrow> mbm_inv (with_sndbuf d s)"
  by (auto simp: mbm_inv_def with_sndbuf_def rtu_inv_def queued_def)

lemma Master_Send_eq:
  assumes "mbm_inv s" "0 \<le> len" "len \<le> 253" "nat len \<le> length D"
  shows "Master_Send a D len s =
    (let t = with_sndbuf (take (nat len) D) s
     in Some (t \<lparr> rtu := snd (eMBMasterRTUSend a (SndBuf 0) (of_int len) (rtu t)) \<rparr>))"
proof -
  have "length (ucMasterRTUSndBuf (rtu s)) = 253" using assms(1) by (simp add: mbm_inv_def rtu_inv_def)
  moreover have "min (length D) (nat len) = nat len" using assms(4) by simp
  ultimately have "cwrite (ucMasterRTUSndBuf (rtu s)) 0 (take (nat len) D) =
      Some (take (nat len) D @ drop (nat len) (ucMasterRTUSndBuf (rtu s)))"
    using assms(3) by (simp add: cwrite_def)
  then show ?thesis
    using assms
    by (simp add: Master_Send_def MB_PDU_SIZE_MAX_def with_sndbuf_def vMBMasterGetPDUSndBuf_def
        Let_def min_def)
qed

lemma Master_Send_inv:
  assumes "mbm_inv s" "0 \<le> len" "len \<le> 253" "nat len \<le> length D"
  shows "\<exists>s'. Master_Send a D len s = Some s' \<and> mbm_inv s' \<and> eMBState s' = eMBState s"
proof -
  let ?t = "with_sndbuf (take (nat len) D) s"
  have inv: "mbm_inv ?t" using assms by (intro with_sndbuf_inv) simp_all
  then have "rtu_inv (snd (eMBMasterRTUSend a (SndBuf 0) (of_int len) (rtu ?t)))"
    using assms of_int_u16[of len] by (intro Send_inv) (simp_all add: mbm_inv_def)
  moreover have "\<not> queued (snd (eMBMasterRTUSend a p n r)) e" if "\<not> queued r e" for p n r e
    using that by (simp add: queued_def)
  ultimately have "mbm_inv (?t \<lparr> rtu := snd (eMBMasterRTUSend a (SndBuf 0) (of_int len) (rtu ?t)) \<rparr>)"
    using inv by (auto simp: mbm_inv_def queued_def)
  then show ?thesis
    unfolding Master_Send_eq[OF assms] Let_def by (auto simp: with_sndbuf_def)
qed

lemma sint_small: assumes "unat (L :: u32) < 2 ^ 31" shows "sint L = int (unat L)"
proof -
  have "uint L < 2147483648" using assms by (simp add: nat_less_iff flip: nat_uint_eq)
  moreover have "0 \<le> uint L" by simp
  then have "- 2147483648 \<le> uint L" by linarith
  ultimately have "signed_take_bit 31 (uint L) = uint L" by (intro signed_take_bit_int_eq_self) simp_all
  then show ?thesis by (simp add: sint_uint)
qed
lemma neg_u16: assumes "0 < k" "k < 65536" shows "unat (- of_nat k :: u16) = 65536 - k"
proof -
  have "(of_nat (65536 - k) :: u16) = - of_nat k" using assms by (simp add: of_nat_diff)
  moreover have "unat (of_nat (65536 - k) :: u16) = 65536 - k" using assms by (intro unat_of_nat_u16) simp
  ultimately show ?thesis by simp
qed
lemma neg_u32:
  assumes "0 < k" "k < 65536"
  shows "0 < (- of_nat k :: u32)" "sint (- of_nat k :: u32) = - int k"
proof -
  have "sint (word_of_int (- int k) :: u32) = - int k"
    unfolding signed_of_int using assms by (simp add: signed_take_bit_int_eq_self)
  then show s: "sint (- of_nat k :: u32) = - int k" by simp
  have "(- of_nat k :: u32) \<noteq> 0"
  proof
    assume "(- of_nat k :: u32) = 0"
    then have "sint (- of_nat k :: u32) = 0" by (simp only: signed_0)
    then show False using s assms(1) by linarith
  qed
  then show "0 < (- of_nat k :: u32)" by (simp only: word_greater_zero_iff) simp
qed

text \<open>What a packet for the radio does to its pins.\<close>

definition radio_send :: "radio_env \<Rightarrow> bytes \<Rightarrow> radio \<Rightarrow> radio" where
  "radio_send x d r =
    (let (hw, t) = Check_si4432_HW (si x) (pins r)
     in r \<lparr> pins := (if hw then snd (the (tx_data (si x) (chl x) d (of_nat (length d)) t)) else t) \<rparr>)"

lemma tx_data_take:
  assumes "unat leg \<le> length b"
  shows "\<exists>p. tx_data e c b leg t = Some p \<and> tx_data e c (take (unat leg) b) leg t = Some p"
  using assms by (simp add: tx_data_def Let_def case_prod_beta)

lemma si_tx_eq:
  assumes "unat (ucast len :: u8) \<le> length b"
  shows "si_tx x b len g = Some (g \<lparr> rf := radio_send x (take (unat (ucast len :: u8)) b) (rf g) \<rparr>)"
proof -
  let ?d = "take (unat (ucast len :: u8)) b"
  have l: "of_nat (length ?d) = (ucast len :: u8)" using assms by (simp add: min_def)
  obtain p where "tx_data (si x) (chl x) b (ucast len) (snd (Check_si4432_HW (si x) (pins (rf g)))) = Some p"
    "tx_data (si x) (chl x) ?d (ucast len) (snd (Check_si4432_HW (si x) (pins (rf g)))) = Some p"
    using tx_data_take[OF assms] by blast
  then show ?thesis unfolding si_tx_def radio_send_def l by (simp add: case_prod_beta Let_def)
qed

text \<open>Where the module answers, it is handed the packet.\<close>

lemma radio_send_transfers:
  assumes "released (pins r)" "length d < 256"
  shows "if fst (Check_si4432_HW (si x) (pins r))
    then \<exists>ok n. transfers (pins (radio_send x d r)) = transfers (pins r) @ [access (0, 0)] @
        map access (tx_start (of_nat (length d)) d) @ replicate n (access (0x03, 0)) @
        map access (after_tx ok (chl x))
    else transfers (pins (radio_send x d r)) = transfers (pins r) @ [access (0, 0)]"
proof -
  define t where "t = snd (Check_si4432_HW (si x) (pins r))"
  have t: "transfers t = transfers (pins r) @ [access (0, 0)]" "released t"
    using transfers_frame[OF assms(1), of "access (0, 0)"]
    by (simp_all add: t_def Check_si4432_HW_def case_prod_beta Let_def access_def)
  have l: "unat (of_nat (length d) :: u8) = length d" using assms(2) by (rule unat_of_nat_u8)
  obtain ok t' n where "tx_data (si x) (chl x) d (of_nat (length d)) t = Some (ok, t')"
    "transfers t' = transfers t @ map access (tx_start (of_nat (length d)) d @
      replicate n (0x03, 0) @ after_tx ok (chl x))"
    using tx_data_eq[of "of_nat (length d)" d t "si x" "chl x"] t(2) unfolding l by auto
  then show ?thesis
    using t(1) by (auto simp: radio_send_def case_prod_beta Let_def t_def[symmetric])
qed

lemma radio_send_released:
  assumes "released (pins r)" "length d < 256"
  shows "released (pins (radio_send x d r))"
proof -
  define t where "t = snd (Check_si4432_HW (si x) (pins r))"
  have t: "released t"
    using transfers_frame(2)[OF assms(1), of "access (0, 0)"]
    by (simp add: t_def Check_si4432_HW_def case_prod_beta Let_def access_def)
  have l: "unat (of_nat (length d) :: u8) = length d" using assms(2) by (rule unat_of_nat_u8)
  obtain ok t' where "tx_data (si x) (chl x) d (of_nat (length d)) t = Some (ok, t')" "released t'"
    using tx_data_eq[of "of_nat (length d)" d t "si x" "chl x"] t unfolding l by auto
  then show ?thesis using t by (simp add: radio_send_def case_prod_beta Let_def t_def[symmetric])
qed

section \<open>Forwarding a packet of the server\<close>

lemma forward_eq:
  assumes "0 < TcpRecvLenth g" "length (TcpRecvBuf g) = 1500"
  shows "ModbusSenttset x uid t g = map_option (\<lambda>m. g \<lparr> mbm := m, TcpRecvLenth := 0,
      rf := radio_send x (take (unat (ucast (TcpRecvLenth g) :: u8)) (TcpRecvBuf g)) (rf g) \<rparr>)
     (Master_Send 6 (TcpRecvBuf g) (sint (TcpRecvLenth g)) (mbm g))"
proof -
  have "unat (ucast (TcpRecvLenth g) :: u8) \<le> length (TcpRecvBuf g)"
    using unat_u8[of "ucast (TcpRecvLenth g)"] assms(2) by linarith
  then show ?thesis
    using assms
    by (cases "Master_Send 6 (TcpRecvBuf g) (sint (TcpRecvLenth g)) (mbm g)")
      (simp_all add: ModbusSenttset_def si_tx_eq send_mb_def Let_def)
qed

text \<open>A count larger than what is left of the buffer is read past its end.\<close>

lemma tx_overrun:
  assumes "eSndState s = STATE_M_TX_XMIT" "pucMasterSndBufferCur s = SndBuf i"
    "i \<le> length (ucMasterRTUSndBuf s)" "length (ucMasterRTUSndBuf s) - i < unat (usMasterSndBufferCount s)"
  shows "tx_irqs (Suc (length (ucMasterRTUSndBuf s) - i)) s = None"
  using assms
proof (induction "length (ucMasterRTUSndBuf s) - i" arbitrary: s i)
  case 0
  then have "usMasterSndBufferCount s \<noteq> 0" "cget (ucMasterRTUSndBuf s) i = None"
    by (auto simp: cget_None)
  then have "USART2_IRQHandler None True s = None"
    using 0 by (simp add: USART2_IRQHandler_def xMBMasterRTUTransmitFSM_def)
  then show ?case using 0 by simp
next
  case (Suc k)
  have c: "usMasterSndBufferCount s \<noteq> 0" using Suc.prems(4) by auto
  let ?s = "s \<lparr> wire := wire s @ [ucMasterRTUSndBuf s ! i], pucMasterSndBufferCur := SndBuf (i + 1),
              usMasterSndBufferCount := usMasterSndBufferCount s - 1 \<rparr>"
  have "USART2_IRQHandler None True s = Some ?s" using Suc c by (intro tx_step) auto
  moreover have "tx_irqs (Suc (length (ucMasterRTUSndBuf ?s) - (i + 1))) ?s = None"
    using Suc.hyps(2) Suc.prems count_pred[OF c] by (intro Suc.hyps(1)) auto
  moreover have "length (ucMasterRTUSndBuf s) - (i + 1) = k" using Suc.hyps(2) by simp
  ultimately show ?case using Suc.hyps(2)[symmetric] by simp
qed

section \<open>Working through the poll list\<close>

text \<open>
  The list format of the comment in \<open>ModbusSenttset\<close>: a letter, \<open>#\<close>, the length of
  the command and the four bytes of the time, the command, the time.
\<close>

definition be32_bytes :: "u32 \<Rightarrow> bytes" where
  "be32_bytes t = [ucast (drop_bit 24 t), ucast (drop_bit 16 t), ucast (drop_bit 8 t), ucast t]"

definition entry :: "nat \<Rightarrow> bytes \<times> u32 \<Rightarrow> bytes" where
  "entry i e = [of_nat (0x41 + i), 0x23, of_nat (length (fst e) + 4)] @ fst e @ be32_bytes (snd e)"

fun entries :: "nat \<Rightarrow> (bytes \<times> u32) list \<Rightarrow> bytes" where
  "entries i [] = []"
| "entries i (e # es) = entry i e @ entries (i + 1) es"

definition poll_list :: "(bytes \<times> u32) list \<Rightarrow> bytes \<Rightarrow> bool" where
  "poll_list es L \<longleftrightarrow> length es \<le> 254 \<and> (\<forall>e \<in> set es. length (fst e) \<le> 24) \<and>
     take (length (entries 0 es)) L = entries 0 es \<and> length (entries 0 es) < length L \<and>
     L ! length (entries 0 es) \<noteq> of_nat (0x41 + length es)"

lemma be32_bytes_length [simp]: "length (be32_bytes t) = 4" by (simp add: be32_bytes_def)

lemma entry_length [simp]: "length (entry i e) = length (fst e) + 7" by (simp add: entry_def)

lemma entries_append: "entries i (xs @ ys) = entries i xs @ entries (i + length xs) ys"
  by (induction xs arbitrary: i) simp_all

lemma entries_length: "7 * length es \<le> length (entries i es)"
  by (induction es arbitrary: i) (auto simp: add_le_mono)

text \<open>Where the cursor stands before entry \<open>i\<close>.\<close>

definition offset :: "nat \<Rightarrow> (bytes \<times> u32) list \<Rightarrow> nat" where
  "offset i es = length (entries 0 (take i es))"

lemma poll_list_split:
  assumes "poll_list es L" "i < length es"
  shows "\<exists>rest. L = entries 0 (take i es) @ entry i (es ! i) @ rest \<and> rest \<noteq> [] \<and>
    offset (Suc i) es = offset i es + length (fst (es ! i)) + 7"
proof -
  have es: "es = take i es @ es ! i # drop (Suc i) es" using assms(2) by (rule id_take_nth_drop)
  have "entries 0 es = entries 0 (take i es @ es ! i # drop (Suc i) es)" using es by simp
  then have e: "entries 0 es = entries 0 (take i es) @ entry i (es ! i) @ entries (i + 1) (drop (Suc i) es)"
    using assms(2) by (simp add: entries_append)
  have L: "L = entries 0 es @ drop (length (entries 0 es)) L" "drop (length (entries 0 es)) L \<noteq> []"
    using assms(1) by (auto simp: poll_list_def) (metis append_take_drop_id)
  have "offset (Suc i) es = offset i es + length (fst (es ! i)) + 7"
    using assms(2) by (simp add: offset_def take_Suc_conv_app_nth entries_append)
  then show ?thesis using L e by auto
qed

unbundle bit_operations_syntax

lemma be32_join: 
  "push_bit 24 (ucast (ucast (drop_bit 24 t) :: u8)) + push_bit 16 (ucast (ucast (drop_bit 16 t) :: u8)) +
        push_bit 8 (ucast (ucast (drop_bit 8 t) :: u8)) + ucast (ucast t :: u8) = (t :: u32)" (is "?a + ?b + ?c + ?d = t")
proof -
  have or: "x + y = x OR y" if "x AND y = 0" for x y :: u32
    using that by (rule disjunctive_add_eq_or)
  have 1: "?a + ?b = ?a OR ?b" by (rule or, rule bit_word_eqI) (auto simp: bit_simps)
  have 2: "(?a OR ?b) + ?c = ?a OR ?b OR ?c" by (subst or, rule bit_word_eqI) (auto simp: bit_simps or.assoc)
  have 3: "(?a OR ?b OR ?c) + ?d = ?a OR ?b OR ?c OR ?d" by (subst or, rule bit_word_eqI) (auto simp: bit_simps or.assoc)
  have "?a OR ?b OR ?c OR ?d = t"
  proof (rule bit_word_eqI)
    fix n assume "n < LENGTH(32)"
    then consider "n < 8" | "8 \<le> n \<and> n < 16" | "16 \<le> n \<and> n < 24" | "24 \<le> n \<and> n < 32" by force
    then show "bit (?a OR ?b OR ?c OR ?d) n \<longleftrightarrow> bit t n" by cases (auto simp: bit_simps)
  qed
  then show ?thesis by (simp only: 1 2 3)
qed

lemma be32_of_bytes:
  assumes "length p = i"
  shows "be32 (p @ be32_bytes t @ q) i = Some t"
  using assms by (simp add: be32_def be32_bytes_def cget_def nth_append be32_join)

lemma ucast_of_nat_u8: "ucast (of_nat n :: u32) = (of_nat n :: u8)"
  by (rule bit_word_eqI) (auto simp: bit_simps)

lemma poll_header_Some:
  assumes "mbm_inv m"
  obtains m' where "poll_header uid m = Some m'" "mbm_inv m'" "rtu m' = rtu m" "eMBState m' = eMBState m"
    "usLength m' = usLength m" "Mb2TcpLenth m' = Mb2TcpLenth m"
proof -
  have "length (UID_STM32 m) = 16" "length (Mb2TcpBuff m) = 256"
    using assms by (simp_all add: mbm_inv_def)
  then have "\<exists>u b. poll_header uid m = Some (m \<lparr> UID_STM32 := u, Mb2TcpBuff := b \<rparr>) \<and>
      length u = 16 \<and> length b = 256"
    by (simp add: poll_header_def cwrite_def) (intro exI conjI, rule refl, simp_all)
  then obtain u b where "poll_header uid m = Some (m \<lparr> UID_STM32 := u, Mb2TcpBuff := b \<rparr>)"
    "length u = 16" "length b = 256" by blast
  then show ?thesis using that assms by (simp add: mbm_inv_def)
qed

text \<open>The cursor of a gateway is before entry \<open>i\<close> of the list.\<close>

definition at_entry :: "nat \<Rightarrow> (bytes \<times> u32) list \<Rightarrow> gateway \<Rightarrow> bool" where
  "at_entry i es g \<longleftrightarrow> poll_list es (TCP2RS485CMDLIST g) \<and> DevIndex g = of_nat i \<and>
     (i = 0 \<or> sptr g = Some (offset i es)) \<and> mbm_inv (mbm g)"

text \<open>What a poll leaves alone.\<close>

definition same_input :: "gateway \<Rightarrow> gateway \<Rightarrow> bool" where
  "same_input g g' \<longleftrightarrow> TcpRecvBuf g' = TcpRecvBuf g \<and> TcpRecvLenth g' = TcpRecvLenth g \<and>
     TCP2RS485CMDLIST g' = TCP2RS485CMDLIST g \<and> queue (rtu (mbm g')) = queue (rtu (mbm g)) \<and>
     usLength (mbm g') = usLength (mbm g) \<and> Mb2TcpLenth (mbm g') = Mb2TcpLenth (mbm g) \<and>
     eMBState (mbm g') = eMBState (mbm g)"

lemma entry_lookup:
  assumes "poll_list es L" "i < length es"
  shows "cget L (offset i es) = Some (of_nat (0x41 + i))"
    "cget L (offset i es + 1) = Some 0x23"
    "cget L (offset i es + 2) = Some (of_nat (length (fst (es ! i)) + 4))"
    "cread L (offset i es + 3) (length (fst (es ! i))) = Some (fst (es ! i))"
    "be32 L (offset i es + 3 + length (fst (es ! i))) = Some (snd (es ! i))"
proof -
  define pre where "pre = entries 0 (take i es)"
  define cmd where "cmd = fst (es ! i)"
  obtain rest where L: "L = pre @ entry i (es ! i) @ rest"
    using poll_list_split[OF assms] unfolding pre_def by blast
  then have L: "L = pre @ of_nat (0x41 + i) # 0x23 # of_nat (length cmd + 4) # cmd @
      be32_bytes (snd (es ! i)) @ rest"
    by (simp add: entry_def cmd_def)
  have p: "offset i es = length pre" by (simp add: offset_def pre_def)
  show "cget L (offset i es) = Some (of_nat (0x41 + i))"
    "cget L (offset i es + 1) = Some 0x23"
    "cget L (offset i es + 2) = Some (of_nat (length (fst (es ! i)) + 4))"
    unfolding L p cmd_def by (simp_all add: cget_def nth_append)
  show "cread L (offset i es + 3) (length (fst (es ! i))) = Some (fst (es ! i))"
    unfolding L p cmd_def[symmetric] by (simp add: cread_def)
  have "be32 ((pre @ [of_nat (0x41 + i), 0x23, of_nat (length cmd + 4)] @ cmd) @
      be32_bytes (snd (es ! i)) @ rest) (length pre + 3 + length cmd) = Some (snd (es ! i))"
    by (rule be32_of_bytes) simp
  then show "be32 L (offset i es + 3 + length (fst (es ! i))) = Some (snd (es ! i))"
    unfolding L p cmd_def[symmetric] by (simp only: append.assoc append_Cons append_Nil)
qed

lemma call_next_entry:
  assumes "at_entry i es g" "i < length es"
  defines "cmd \<equiv> fst (es ! i)"
  shows "\<exists>g'. call_next x uid g = Some g' \<and> at_entry (i + 1) es g' \<and>
    rf g' = radio_send x cmd (rf g) \<and>
    MsaterTime g' = (if i = 0 then if sint (snd (es ! i)) < 1 then 1 else snd (es ! i) else MsaterTime g) \<and>
    rtu (mbm g') = snd (eMBMasterRTUSend 6 (SndBuf 0) (of_nat (length cmd)) (rtu (with_sndbuf cmd (mbm g)))) \<and>
    eMBState (mbm g') = eMBState (mbm g) \<and> same_input g g'"
proof -
  let ?L = "TCP2RS485CMDLIST g" and ?p = "offset i es" and ?n = "length cmd"
  have pl: "poll_list es ?L" and dev: "DevIndex g = of_nat i" and inv: "mbm_inv (mbm g)"
    using assms(1) by (simp_all add: at_entry_def)
  have i: "i \<le> 253" and n: "?n \<le> 24"
    using pl assms(2) by (auto simp: poll_list_def cmd_def)
  note look = entry_lookup[OF pl assms(2), folded cmd_def]
  have un: "unat (of_nat i :: u32) = i" "unat (of_nat (i + 1) :: u32) = i + 1"
    using i by (simp_all only: unat_of_nat) (simp_all add: take_bit_nat_eq_self)
  then have dev0: "(of_nat i :: u32) = 0 \<longleftrightarrow> i = 0" and dev254: "(of_nat i :: u32) \<noteq> 254"
    using i by (auto simp: unat_eq_zero)
  define g0 where "g0 = (if DevIndex g = 0 then g \<lparr> sptr := Some 0 \<rparr> else g)"
  have p0: "sptr g0 = Some ?p" "TCP2RS485CMDLIST g0 = ?L" "DevIndex g0 = of_nat i" "mbm g0 = mbm g"
    "rf g0 = rf g" "MsaterTime g0 = MsaterTime g"
    using assms(1) dev dev0 by (auto simp: g0_def at_entry_def offset_def)
  have c: "(of_nat (0x41 + i) :: u8) = ucast (0x41 + DevIndex g0)"
    by (simp only: p0 ucast_of_nat_u8[symmetric]) simp
  have l: "unat (of_nat (?n + 4) :: u8) = ?n + 4" using n by (intro unat_of_nat_u8) simp
  obtain m where m: "poll_header uid (mbm g) = Some m" "mbm_inv m" "rtu m = rtu (mbm g)"
    "eMBState m = eMBState (mbm g)" "usLength m = usLength (mbm g)"
    "Mb2TcpLenth m = Mb2TcpLenth (mbm g)"
    using poll_header_Some[OF inv] by blast
  define g1 where "g1 = g0 \<lparr> mbm := m \<rparr>"
  define g2 where "g2 = g1 \<lparr> rf := radio_send x cmd (rf g1) \<rparr>"
  have "unat (ucast (of_nat ?n :: u32) :: u8) = ?n"
    using n by (simp only: ucast_of_nat_u8) (simp add: unat_of_nat_u8)
  then have tx: "si_tx x cmd (of_nat ?n) g1 = Some g2" by (simp add: si_tx_eq g2_def)
  define t where "t = with_sndbuf cmd m"
  define m' where "m' = t \<lparr> rtu := snd (eMBMasterRTUSend 6 (SndBuf 0) (of_nat ?n) (rtu t)) \<rparr>"
  have "Master_Send 6 cmd (int ?n) m = Some m'"
    using Master_Send_eq[OF m(2), of "int ?n" cmd 6] n by (simp add: m'_def t_def Let_def)
  moreover have g2: "mbm g2 = m" "DevIndex g2 = of_nat i" "TCP2RS485CMDLIST g2 = ?L"
    "rf g2 = radio_send x cmd (rf g)" "MsaterTime g2 = MsaterTime g"
    by (simp_all add: g2_def g1_def p0)
  ultimately have send: "send_mb cmd (int ?n) g2 = Some (g2 \<lparr> mbm := m' \<rparr>)"
    by (simp add: send_mb_def)
  have m': "mbm_inv m'" "eMBState m' = eMBState (mbm g)"
    using Master_Send_inv[OF m(2), of "int ?n" cmd 6] n m(4) \<open>Master_Send 6 cmd (int ?n) m = Some m'\<close>
    by auto
  define T where "T = (if i = 0 then if sint (snd (es ! i)) < 1 then 1 else snd (es ! i) else MsaterTime g)"
  define g' where "g' = g2 \<lparr> mbm := m', MsaterTime := T,
    sptr := Some (?p + 3 + (?n + 4)), DevIndex := of_nat (i + 1) \<rparr>"
  have "call_next x uid g = Some g'"
  proof -
    have key: "((of_nat (0x41 + i) :: u8) = ucast (0x41 + of_nat i :: u32)) = True"
      by (rule iffD2[OF eq_True]) (rule c[unfolded p0(3)])
    have ar: "(?n + 4 < 4 \<or> 24 < ?n) = False" "?n + 4 - 4 = ?n"
      "?p + 3 + (?n + 4) - 4 = ?p + 3 + ?n" "(0x23 = (0x23 :: u8)) = True"
      using n by auto
    have d: "DevIndex (g2 \<lparr> mbm := m' \<rparr>) = of_nat i" "of_nat i + 1 = (of_nat (i + 1) :: u32)"
      using g2 by simp_all
    have keep: "g2 \<lparr> mbm := m', MsaterTime := MsaterTime g \<rparr> = g2 \<lparr> mbm := m' \<rparr>"
      using g2(5) by (cases g2) simp
    show ?thesis
      unfolding call_next_def Let_def g0_def[symmetric]
      by (simp only: p0 look key if_True option.map bind.bind_lunit l ar if_False m(1)
          g1_def[symmetric] tx send d dev0 cong: if_cong)
        (cases "i = 0"; simp add: look dev254 keep g'_def T_def g2)
  qed
  moreover have "at_entry (i + 1) es g'"
    using poll_list_split[OF pl assms(2)] pl m'(1)
    by (auto simp: at_entry_def g'_def g2 cmd_def)
  moreover have "rtu t = rtu (with_sndbuf cmd (mbm g))" by (simp add: t_def with_sndbuf_def m(3))
  moreover have "same_input g g'"
    using m by (simp add: same_input_def g'_def g2_def g1_def g0_def m'_def t_def with_sndbuf_def)
  ultimately show ?thesis
    using m'(2) by (intro exI[of _ g']) (simp add: g'_def g2 T_def, simp add: m'_def)
qed

lemma call_next_end:
  assumes "at_entry (length es) es g"
  shows "\<exists>g'. call_next x uid g = Some g' \<and> at_entry 0 es g' \<and> mbm g' = mbm g \<and>
    rf g' = rf g \<and> MsaterTime g' = MsaterTime g \<and> same_input g g'"
proof -
  let ?L = "TCP2RS485CMDLIST g" and ?i = "length es"
  have pl: "poll_list es ?L" and dev: "DevIndex g = of_nat ?i" and i: "?i \<le> 254"
    using assms by (simp_all add: at_entry_def poll_list_def)
  have "unat (of_nat ?i :: u32) = ?i" using i by (simp add: unat_of_nat take_bit_nat_eq_self)
  then have dev0: "(of_nat ?i :: u32) = 0 \<longleftrightarrow> ?i = 0" by (auto simp: unat_eq_zero)
  define g0 where "g0 = (if DevIndex g = 0 then g \<lparr> sptr := Some 0 \<rparr> else g)"
  have p0: "sptr g0 = Some (offset ?i es)" "TCP2RS485CMDLIST g0 = ?L" "DevIndex g0 = of_nat ?i"
    "mbm g0 = mbm g" "rf g0 = rf g" "MsaterTime g0 = MsaterTime g"
    using assms dev dev0 by (auto simp: g0_def at_entry_def offset_def)
  have off: "offset ?i es < length ?L" "?L ! offset ?i es \<noteq> of_nat (0x41 + ?i)"
    using pl by (simp_all add: poll_list_def offset_def)
  then have c: "cget ?L (offset ?i es) = Some (?L ! offset ?i es)" by simp
  have "(of_nat (0x41 + ?i) :: u8) = ucast (0x41 + of_nat ?i :: u32)"
    by (simp only: ucast_of_nat_u8[symmetric]) simp
  then have ne: "(?L ! offset ?i es = ucast (0x41 + of_nat ?i :: u32)) = False" using off(2) by simp
  have "call_next x uid g = Some (g0 \<lparr> DevIndex := 0 \<rparr>)"
    unfolding call_next_def Let_def g0_def[symmetric]
    by (simp only: p0 c ne if_False bind.bind_lunit) simp
  moreover have "same_input g (g0 \<lparr> DevIndex := 0 \<rparr>)" by (simp add: same_input_def g0_def)
  ultimately show ?thesis
    using assms by (intro exI[of _ "g0 \<lparr> DevIndex := 0 \<rparr>"]) (simp add: p0 at_entry_def)
qed

text \<open>One poll and the interrupts until the command has left; and several of them.\<close>

definition poll_and_send :: "radio_env \<Rightarrow> u32 \<Rightarrow> gateway \<Rightarrow> gateway option" where
  "poll_and_send x uid g = do {
     g \<leftarrow> call_next x uid g;
     r \<leftarrow> tx_irqs (Suc (unat (usMasterSndBufferCount (rtu (mbm g))))) (rtu (mbm g));
     Some (g \<lparr> mbm := (mbm g) \<lparr> rtu := r \<rparr> \<rparr>)
   }"

fun polls :: "nat \<Rightarrow> radio_env \<Rightarrow> u32 \<Rightarrow> gateway \<Rightarrow> gateway option" where
  "polls 0 x uid g = Some g"
| "polls (Suc n) x uid g = do { g \<leftarrow> poll_and_send x uid g; polls n x uid g }"

lemma tx_irqs_inv:
  "mbm_inv s \<Longrightarrow> \<exists>r. tx_irqs n (rtu s) = Some r \<and> mbm_inv (s \<lparr> rtu := r \<rparr>)"
proof (induction n arbitrary: s)
  case 0
  then show ?case by simp
next
  case (Suc n)
  obtain r where r: "USART2_IRQHandler None True (rtu s) = Some r" "mbm_inv (s \<lparr> rtu := r \<rparr>)"
    using USART2_mbm[OF Suc.prems] by blast
  then show ?case using Suc.IH[OF r(2)] by simp
qed

lemma poll_and_send_entry:
  assumes "at_entry i es g" "i < length es" "eRcvState (rtu (mbm g)) = STATE_M_RX_IDLE"
  shows "\<exists>g'. poll_and_send x uid g = Some g' \<and> at_entry (i + 1) es g' \<and>
    eRcvState (rtu (mbm g')) = STATE_M_RX_IDLE \<and>
    wire (rtu (mbm g')) = wire (rtu (mbm g)) @ fst (es ! i)"
proof -
  let ?cmd = "fst (es ! i)" and ?m = "with_sndbuf (fst (es ! i)) (mbm g)"
  obtain g1 where g1: "call_next x uid g = Some g1" "at_entry (i + 1) es g1"
    "rtu (mbm g1) = snd (eMBMasterRTUSend 6 (SndBuf 0) (of_nat (length ?cmd)) (rtu ?m))"
    using call_next_entry[OF assms(1,2)] by blast
  have n: "length ?cmd \<le> 24" and inv: "mbm_inv (mbm g)"
    using assms(1,2) by (auto simp: at_entry_def poll_list_def)
  then have "mbm_inv ?m" by (intro with_sndbuf_inv) simp_all
  then have rinv: "rtu_inv (rtu ?m)" by (simp add: mbm_inv_def)
  have m: "eRcvState (rtu ?m) = STATE_M_RX_IDLE" "wire (rtu ?m) = wire (rtu (mbm g))"
    "take (length ?cmd) (ucMasterRTUSndBuf (rtu ?m)) = ?cmd"
    using assms(3) by (simp_all add: with_sndbuf_def)
  have n16: "unat (of_nat (length ?cmd) :: u16) = length ?cmd" using n by (simp add: unat_of_nat_u16)
  have "unat (of_nat (length ?cmd) :: u16) \<le> 253" "(6 :: u8) \<le> 16" using n16 n by simp_all
  from sent_frame[OF rinv m(1) this(2,1)] obtain r where
    r: "tx_irqs (Suc (length ?cmd)) (rtu (mbm g1)) = Some (tx_done r)"
    "wire r = wire (rtu (mbm g)) @ ?cmd" "eRcvState r = STATE_M_RX_IDLE"
    unfolding n16 g1(3)[symmetric] m by blast
  have c: "unat (usMasterSndBufferCount (rtu (mbm g1))) = length ?cmd"
    using m(1) n16 by (simp add: g1(3) eMBMasterRTUSend_def rtu_defs)
  have "mbm_inv (mbm g1)" using g1(2) by (simp add: at_entry_def)
  then have "mbm_inv ((mbm g1) \<lparr> rtu := tx_done r \<rparr>)" 
    using tx_irqs_inv[of "mbm g1" "Suc (length ?cmd)"] r(1) by (simp del: tx_irqs.simps)
  then have "at_entry (i + 1) es (g1 \<lparr> mbm := (mbm g1) \<lparr> rtu := tx_done r \<rparr> \<rparr>)"
    using g1(2) by (simp add: at_entry_def)
  moreover have "wire (tx_done r) = wire r" "eRcvState (tx_done r) = eRcvState r"
    by (simp_all add: tx_done_def rtu_defs Let_def)
  ultimately show ?thesis
    using g1(1) r c by (simp add: poll_and_send_def del: tx_irqs.simps)
qed

lemma polls_entries:
  assumes "at_entry i es g" "i + n \<le> length es" "eRcvState (rtu (mbm g)) = STATE_M_RX_IDLE"
  shows "\<exists>g'. polls n x uid g = Some g' \<and> at_entry (i + n) es g' \<and>
    eRcvState (rtu (mbm g')) = STATE_M_RX_IDLE \<and>
    wire (rtu (mbm g')) = wire (rtu (mbm g)) @ concat (map fst (take n (drop i es)))"
  using assms
proof (induction n arbitrary: i g)
  case (Suc n)
  have i: "i < length es" using Suc.prems(2) by simp
  obtain g1 where g1: "poll_and_send x uid g = Some g1" "at_entry (i + 1) es g1"
    "eRcvState (rtu (mbm g1)) = STATE_M_RX_IDLE" "wire (rtu (mbm g1)) = wire (rtu (mbm g)) @ fst (es ! i)"
    using poll_and_send_entry[OF Suc.prems(1) i Suc.prems(3)] by blast
  obtain g2 where "polls n x uid g1 = Some g2" "at_entry (i + 1 + n) es g2"
    "eRcvState (rtu (mbm g2)) = STATE_M_RX_IDLE"
    "wire (rtu (mbm g2)) = wire (rtu (mbm g1)) @ concat (map fst (take n (drop (i + 1) es)))"
    using Suc.IH[OF g1(2) _ g1(3)] Suc.prems(2) by auto
  moreover have "take (Suc n) (drop i es) = es ! i # take n (drop (i + 1) es)"
    using Suc.prems(2) by (simp add: take_Suc_drop)
  ultimately show ?case using g1 by simp
qed simp

lemma forward_wire:
  assumes "mbm_inv (mbm g)" "eRcvState (rtu (mbm g)) = STATE_M_RX_IDLE"
    "length (TcpRecvBuf g) = 1500" "TcpRecvLenth g = of_nat n" "1 \<le> n" "n \<le> 253"
  shows "\<exists>g' r. ModbusSenttset x uid t g = Some g' \<and> TcpRecvLenth g' = 0 \<and>
    rf g' = radio_send x (take n (TcpRecvBuf g)) (rf g) \<and>
    tx_irqs (Suc n) (rtu (mbm g')) = Some r \<and>
    wire r = wire (rtu (mbm g)) @ take n (TcpRecvBuf g) \<and>
    rxne_ie r \<and> \<not> txe_ie r \<and> eSndState r = STATE_M_TX_XFWR"
proof -
  have L: "unat (of_nat n :: u32) = n" using assms(6) by (simp add: unat_of_nat)
  then have pos: "0 < TcpRecvLenth g" using assms(4,5) by (simp add: word_less_nat_alt)
  have s: "sint (TcpRecvLenth g) = int n" using L assms(4,6) sint_small[of "of_nat n"] by simp
  have u8: "unat (ucast (TcpRecvLenth g) :: u8) = n"
    using assms(4,6) L by (simp add: unsigned_ucast_eq take_bit_nat_eq_self)
  let ?t = "with_sndbuf (take n (TcpRecvBuf g)) (mbm g)"
  have ms: "Master_Send 6 (TcpRecvBuf g) (sint (TcpRecvLenth g)) (mbm g) =
      Some (?t \<lparr> rtu := snd (eMBMasterRTUSend 6 (SndBuf 0) (of_nat n) (rtu ?t)) \<rparr>)"
    using Master_Send_eq[OF assms(1), of "int n" "TcpRecvBuf g" 6] assms(3,6) by (simp add: s Let_def)
  have inv: "rtu_inv (rtu ?t)" "eRcvState (rtu ?t) = STATE_M_RX_IDLE"
    "wire (rtu ?t) = wire (rtu (mbm g))"
    "take n (ucMasterRTUSndBuf (rtu ?t)) = take n (TcpRecvBuf g)"
    using with_sndbuf_inv[OF assms(1), of "take n (TcpRecvBuf g)"] assms(2,3,6)
    by (simp_all add: mbm_inv_def with_sndbuf_def min_def)
  have n16: "unat (of_nat n :: u16) = n" using assms(6) by (simp add: unat_of_nat_u16)
  have "unat (of_nat n :: u16) \<le> 253" "(6 :: u8) \<le> 16" using n16 assms(6) by simp_all
  from sent_frame[OF inv(1,2) this(2,1)] obtain r where
    r: "tx_irqs (Suc n) (snd (eMBMasterRTUSend 6 (SndBuf 0) (of_nat n) (rtu ?t))) = Some (tx_done r)"
    "wire r = wire (rtu (mbm g)) @ take n (TcpRecvBuf g)"
    unfolding n16 inv(3,4) by blast
  moreover have "wire (tx_done r) = wire r" "rxne_ie (tx_done r)" "\<not> txe_ie (tx_done r)"
    "eSndState (tx_done r) = STATE_M_TX_XFWR"
    by (simp_all add: tx_done_def rtu_defs Let_def)
  ultimately show ?thesis
    unfolding forward_eq[OF pos assms(3)] ms u8 by simp
qed

section \<open>One turn\<close>

text \<open>
  The state between two turns: the packet of the server and the frame for it fit, and the
  poll list is blank or well formed with the cursor at one of its commands or after the last.
\<close>

definition list_ok :: "gateway \<Rightarrow> bool" where
  "list_ok g \<longleftrightarrow> TCP2RS485CMDLIST g ! 0 = 0 \<or> (\<exists>i es. at_entry i es g \<and> i \<le> length es)"

definition gw_inv :: "gateway \<Rightarrow> bool" where
  "gw_inv g \<longleftrightarrow> mbm_inv (mbm g) \<and> length (TcpRecvBuf g) = 1500 \<and> length (TCP2RS485CMDLIST g) = 1400 \<and>
     unat (TcpRecvLenth g) \<le> 1497 \<and> list_ok g \<and> released (pins (rf g)) \<and>
     unat (Mb2TcpLenth (mbm g)) \<le> 256"

lemma Master_Send_long: "253 < len \<Longrightarrow> Master_Send a D len s = Some s"
  by (simp add: Master_Send_def MB_PDU_SIZE_MAX_def)

lemma forward_inv:
  assumes "gw_inv g" "0 < TcpRecvLenth g"
  shows "\<exists>g'. ModbusSenttset x uid t g = Some g' \<and> gw_inv g' \<and> TcpRecvLenth g' = 0 \<and>
    queue (rtu (mbm g')) = queue (rtu (mbm g)) \<and> usLength (mbm g') = usLength (mbm g) \<and>
    eMBState (mbm g') = eMBState (mbm g)"
proof -
  define n where "n = unat (TcpRecvLenth g)"
  have inv: "mbm_inv (mbm g)" "length (TcpRecvBuf g) = 1500" "n \<le> 1497" "released (pins (rf g))"
    using assms(1) by (simp_all add: gw_inv_def n_def)
  have s: "sint (TcpRecvLenth g) = int n" using inv(3) unfolding n_def by (intro sint_small) simp
  have "\<exists>m. Master_Send 6 (TcpRecvBuf g) (sint (TcpRecvLenth g)) (mbm g) = Some m \<and> mbm_inv m \<and>
      eMBState m = eMBState (mbm g) \<and> queue (rtu m) = queue (rtu (mbm g)) \<and> usLength m = usLength (mbm g) \<and>
      Mb2TcpLenth m = Mb2TcpLenth (mbm g)"
  proof (cases "n \<le> 253")
    case True
    then have le: "0 \<le> int n" "int n \<le> 253" "nat (int n) \<le> length (TcpRecvBuf g)"
      using inv(2) by simp_all
    show ?thesis
      using Master_Send_inv[OF inv(1) le, of 6] Master_Send_eq[OF inv(1) le, of 6]
      unfolding s by (auto simp: Let_def with_sndbuf_def)
  next
    case False
    then show ?thesis using inv(1) by (simp add: s Master_Send_long)
  qed
  then obtain m where m: "Master_Send 6 (TcpRecvBuf g) (sint (TcpRecvLenth g)) (mbm g) = Some m" "mbm_inv m"
    "eMBState m = eMBState (mbm g)" "queue (rtu m) = queue (rtu (mbm g))" "usLength m = usLength (mbm g)"
    "Mb2TcpLenth m = Mb2TcpLenth (mbm g)"
    by blast
  have "released (pins (radio_send x (take (unat (ucast (TcpRecvLenth g) :: u8)) (TcpRecvBuf g)) (rf g)))"
    using inv(4) by (rule radio_send_released)
      (rule le_less_trans[OF _ unat_u8[of "ucast (TcpRecvLenth g)"]], simp)
  then show ?thesis
    using assms(1) m
    by (auto simp: forward_eq[OF assms(2) inv(2)] gw_inv_def list_ok_def at_entry_def)
qed

lemma call_next_inv:
  assumes "gw_inv g" "TCP2RS485CMDLIST g ! 0 \<noteq> 0"
  shows "\<exists>g'. call_next x uid g = Some g' \<and> gw_inv g' \<and> same_input g g'"
proof -
  obtain i es where e: "at_entry i es g" "i \<le> length es"
    using assms by (auto simp: gw_inv_def list_ok_def)
  have step: "gw_inv g'" if "at_entry j es g'" "j \<le> length es" "released (pins (rf g'))" "same_input g g'"
    for j g'
    using that assms(1) by (auto simp: gw_inv_def list_ok_def same_input_def at_entry_def)
  show ?thesis
  proof (cases "i < length es")
    case True
    obtain g' where g': "call_next x uid g = Some g'" "at_entry (i + 1) es g'"
      "rf g' = radio_send x (fst (es ! i)) (rf g)" "same_input g g'"
      using call_next_entry[OF e(1) True] by blast
    have "length (fst (es ! i)) \<le> 24" using e(1) True by (simp add: at_entry_def poll_list_def)
    then have "released (pins (rf g'))"
      unfolding g'(3) using assms(1) by (intro radio_send_released) (simp_all add: gw_inv_def)
    then show ?thesis using g' step[OF g'(2)] True by auto
  next
    case False
    then have "i = length es" using e(2) by simp
    then obtain g' where g': "call_next x uid g = Some g'" "at_entry 0 es g'" "rf g' = rf g" "same_input g g'"
      using call_next_end[of es g x uid] e(1) by blast
    then show ?thesis using step[OF g'(2)] assms(1) by (auto simp: gw_inv_def)
  qed
qed

lemma Senttset_inv:
  assumes "gw_inv g"
  shows "\<exists>g'. ModbusSenttset x uid t g = Some g' \<and> gw_inv g' \<and>
    queue (rtu (mbm g')) = queue (rtu (mbm g)) \<and> usLength (mbm g') = usLength (mbm g) \<and>
    eMBState (mbm g') = eMBState (mbm g)"
proof (cases "0 < TcpRecvLenth g")
  case True
  then show ?thesis using forward_inv[OF assms True] by blast
next
  case False
  let ?g = "g \<lparr> MasterCallTrm := t \<rparr>"
  have inv: "gw_inv ?g" using assms by (auto simp: gw_inv_def list_ok_def at_entry_def)
  have c0: "cget (TCP2RS485CMDLIST g) 0 = Some (TCP2RS485CMDLIST g ! 0)"
    using assms by (intro cget_in) (simp add: gw_inv_def)
  then show ?thesis
    using False assms inv call_next_inv[OF inv, of x uid]
    by (auto simp: ModbusSenttset_def Let_def same_input_def)
qed

section \<open>Properties\<close>

text \<open>
  A packet of 1 to 253 bytes left by the TCP client in TcpRecvBuf is handed by
  ModbusSenttset to the RTU transmitter (and to the radio where it answers), and the
  transmit interrupts put exactly these bytes on the wire, after which the line is
  switched back to receiving; TcpRecvLenth is 0 again.
\<close>

theorem packet_reaches_line:
  assumes "mbm_inv (mbm g)" "eRcvState (rtu (mbm g)) = STATE_M_RX_IDLE"
    "length (TcpRecvBuf g) = 1500" "TcpRecvLenth g = of_nat n" "1 \<le> n" "n \<le> 253"
  shows "\<exists>g' r. ModbusSenttset x uid t g = Some g' \<and> TcpRecvLenth g' = 0 \<and>
    rf g' = radio_send x (take n (TcpRecvBuf g)) (rf g) \<and>
    tx_irqs (Suc n) (rtu (mbm g')) = Some r \<and>
    wire r = wire (rtu (mbm g)) @ take n (TcpRecvBuf g) \<and>
    rxne_ie r \<and> \<not> txe_ie r \<and> eSndState r = STATE_M_TX_XFWR"
  using forward_wire[OF assms] by blast

text \<open>
  A packet of 254 to 1500 bytes is not sent on the line: nothing but TcpRecvLenth
  changes, while the radio is given the length modulo 256.
\<close>

theorem long_packet_not_sent:
  assumes "length (TcpRecvBuf g) = 1500" "TcpRecvLenth g = of_nat n" "254 \<le> n" "n \<le> 1500"
  shows "ModbusSenttset x uid t g = Some (g \<lparr> TcpRecvLenth := 0,
    rf := radio_send x (take (n mod 256) (TcpRecvBuf g)) (rf g) \<rparr>)"
proof -
  have L: "unat (of_nat n :: u32) = n" using assms(4) by (simp add: unat_of_nat)
  then have pos: "0 < TcpRecvLenth g" using assms(2,3) by (simp add: word_less_nat_alt)
  have s: "sint (TcpRecvLenth g) = int n" using L assms(2,4) sint_small[of "of_nat n"] by simp
  have u8: "unat (ucast (TcpRecvLenth g) :: u8) = n mod 256"
    using assms(2) L by (simp add: unsigned_ucast_eq take_bit_eq_mod)
  show ?thesis
    using assms(3) by (simp add: forward_eq[OF pos assms(1)] s u8 Master_Send_def MB_PDU_SIZE_MAX_def)
qed

text \<open>
  When TcpRecvLenth is the negative number 1 to 7 below zero, the test of
  Master_Send against the buffer size passes and the transmitter reads past the end of
  its buffer.
\<close>

theorem negative_length_overruns:
  assumes "mbm_inv (mbm g)" "eRcvState (rtu (mbm g)) = STATE_M_RX_IDLE"
    "length (TcpRecvBuf g) = 1500" "TcpRecvLenth g = - of_nat k" "1 \<le> k" "k \<le> 7"
  shows "\<exists>g'. ModbusSenttset x uid t g = Some g' \<and> tx_irqs 254 (rtu (mbm g')) = None"
proof -
  have k: "0 < k" "k < 65536" using assms(5,6) by simp_all
  have pos: "0 < TcpRecvLenth g" and s: "sint (TcpRecvLenth g) = - int k"
    using neg_u32[OF k] assms(4) by simp_all
  have u: "unat (- of_nat k :: u16) = 65536 - k" by (rule neg_u16[OF k])
  let ?r = "rtu (mbm g)"
  let ?s = "snd (eMBMasterRTUSend 6 (SndBuf 0) (- of_nat k) ?r)"
  have len: "length (ucMasterRTUSndBuf ?r) = 253" using assms(1) by (simp add: mbm_inv_def rtu_inv_def)
  have "nat (- int k) = 0" using k by simp
  then have ms: "Master_Send 6 (TcpRecvBuf g) (sint (TcpRecvLenth g)) (mbm g) = Some ((mbm g) \<lparr> rtu := ?s \<rparr>)"
    using len by (simp add: s Master_Send_def cwrite_def MB_PDU_SIZE_MAX_def vMBMasterGetPDUSndBuf_def Let_def)
  have st: "eSndState ?s = STATE_M_TX_XMIT" "pucMasterSndBufferCur ?s = SndBuf 0"
    "length (ucMasterRTUSndBuf ?s) = 253" "usMasterSndBufferCount ?s = - of_nat k"
    using assms(2) len by (simp_all add: eMBMasterRTUSend_def rtu_defs)
  have "tx_irqs (Suc (length (ucMasterRTUSndBuf ?s) - 0)) ?s = None"
    by (rule tx_overrun) (use st u assms(6) in simp_all)
  then have "tx_irqs 254 ?s = None" using st(3) by simp
  then show ?thesis by (simp add: forward_eq[OF pos assms(3)] ms)
qed



text \<open>
  The first command of the poll list sets the poll period to its time field, at
  least 1 ms, and is given to the radio where it answers.
\<close>

theorem first_entry_sets_period:
  assumes "at_entry 0 es g" "es \<noteq> []"
  shows "\<exists>g'. call_next x uid g = Some g' \<and>
    MsaterTime g' = (if sint (snd (hd es)) < 1 then 1 else snd (hd es)) \<and>
    rf g' = radio_send x (fst (hd es)) (rf g)"
  using call_next_entry[OF assms(1), of x uid] assms(2) by (auto simp: hd_conv_nth)

text \<open>
  With no packet waiting, ModbusSenttset sends the next command of the list exactly
  when the period since the last poll has passed (modulo 2^32), and changes nothing
  before.
\<close>

theorem poll_runs_when_due:
  assumes "TcpRecvLenth g = 0" "at_entry i es g" "es \<noteq> []"
  shows "ModbusSenttset x uid Time g =
    (if MsaterTime g \<le> Time - MasterCallTrm g then call_next x uid (g \<lparr> MasterCallTrm := Time \<rparr>)
     else Some g)"
proof -
  have pl: "poll_list es (TCP2RS485CMDLIST g)" using assms(2) by (simp add: at_entry_def)
  have "cget (TCP2RS485CMDLIST g) 0 = Some (0x41 :: u8)"
    using entry_lookup(1)[OF pl, of 0] assms(3) by (simp add: offset_def)
  then show ?thesis using assms(1) by (simp add: ModbusSenttset_def Let_def)
qed

definition no_radio :: radio_env where
  "no_radio = \<lparr> si = quiet_module, chl = 0 \<rparr>"

definition idle_gateway :: gateway where
  "idle_gateway = \<lparr> mbm = enabled_master, TcpRecvBuf = replicate 1500 0, TcpRecvLenth = 0,
     TCP2RS485CMDLIST = replicate 1400 0, MasterCallTrm = 0, DevIndex = 0, MsaterTime = 1000,
     sptr = None, rf = \<lparr> pins = [], RSSI = 0 \<rparr>, Tick = 0 \<rparr>"

lemma idle_gateway_ready:
  "mbm_inv (mbm idle_gateway)" "eRcvState (rtu (mbm idle_gateway)) = STATE_M_RX_IDLE"
  by (simp_all add: idle_gateway_def enabled_master_ready)

theorem packet_reaches_line_witness:
  "\<exists>g' r. ModbusSenttset no_radio 0 0 (idle_gateway \<lparr> TcpRecvBuf := [6, 3] @ replicate 1498 0, TcpRecvLenth := 2 \<rparr>)
      = Some g' \<and> tx_irqs 3 (rtu (mbm g')) = Some r \<and> wire r = [6, 3]"
  using packet_reaches_line[of "idle_gateway \<lparr> TcpRecvBuf := [6, 3] @ replicate 1498 0, TcpRecvLenth := 2 \<rparr>" 2 no_radio 0 0]
    idle_gateway_ready
  by (auto simp: idle_gateway_def enabled_master_def idle_rtu_def simp del: tx_irqs.simps)

theorem long_packet_not_sent_witness:
  "ModbusSenttset no_radio 0 0 (idle_gateway \<lparr> TcpRecvLenth := 300 \<rparr>) =
     Some (idle_gateway \<lparr> rf := radio_send no_radio (replicate 44 0) (rf idle_gateway) \<rparr>)"
  using long_packet_not_sent[of "idle_gateway \<lparr> TcpRecvLenth := 300 \<rparr>" 300 no_radio 0 0]
  by (simp add: idle_gateway_def)

theorem negative_length_overruns_witness:
  "\<exists>g'. ModbusSenttset no_radio 0 0 (idle_gateway \<lparr> TcpRecvLenth := - 4 \<rparr>) = Some g' \<and>
     tx_irqs 254 (rtu (mbm g')) = None"
  using negative_length_overruns[of "idle_gateway \<lparr> TcpRecvLenth := - 4 \<rparr>" 4 no_radio 0 0] idle_gateway_ready
  by (simp add: idle_gateway_def)

text \<open>The example of the comment: the command \<open>C8 03 00 02 00 01 34 53\<close> every second.\<close>

definition one_entry :: "(bytes \<times> u32) list" where
  "one_entry = [([0xC8, 3, 0, 2, 0, 1, 0x34, 0x53], 1000)]"

definition polling_gateway :: gateway where
  "polling_gateway = idle_gateway \<lparr> TCP2RS485CMDLIST := entries 0 one_entry @ replicate 1385 0 \<rparr>"

lemma polling_gateway_ready:
  "at_entry 0 one_entry polling_gateway" "eRcvState (rtu (mbm polling_gateway)) = STATE_M_RX_IDLE"
  using idle_gateway_ready
  by (simp_all add: at_entry_def poll_list_def one_entry_def polling_gateway_def)
    (simp_all add: idle_gateway_def entry_def nth_append)


theorem first_entry_sets_period_witness:
  "\<exists>g'. call_next no_radio 0 polling_gateway = Some g' \<and> MsaterTime g' = 1000"
  using first_entry_sets_period[OF polling_gateway_ready(1), of no_radio 0]
  by (auto simp: one_entry_def)

theorem poll_runs_when_due_witness:
  "ModbusSenttset no_radio 0 500 polling_gateway = Some polling_gateway"
  using poll_runs_when_due[OF _ polling_gateway_ready(1), of no_radio 0 500]
  by (simp add: polling_gateway_def idle_gateway_def one_entry_def)

end
