(* ===== verification/TcpUdp.thy ===== *)
theory TcpUdp
  imports Gateway FlashIf
begin

text \<open>
  The connection to the server and the configuration over UDP, \<open>client_tcpudp.c\<close>.
  What the code asks of lwIP is kept as the list \<open>calls\<close>; what lwIP answers (whether a
  buffer could be allocated, the error of a write) is an argument.  Bytes the code
  sends without having set them come from the argument \<open>junk\<close>, and the uninitialised
  \<open>data\<close> of the UDP callback from \<open>stack\<close>.  After \<open>reboot\<close> the watchdog is armed and
  the code spins: \<open>in_reset\<close>.
\<close>

datatype net_call =
    Tcp_recved nat | Tcp_write bytes | Tcp_output | Tcp_close | Tcp_new | Tcp_bind u16
  | Tcp_connect bytes u16 | Tcp_set_err | Tcp_set_recv | Tcp_keepalive nat nat nat
  | Udp_new | Udp_broadcast | Udp_bind u16 | Udp_set_recv | Udp_sendto bytes u32 u16
  | Pbuf_free | Fs_write bytes

record net =
  gw :: gateway
  chip :: flash
  flash_net_buf :: "u32 list"
  ipaddr_sever :: bytes
  port_sever :: u16
  Tcplink :: bool
  Udplink :: bool
  retry_TCP_connect :: u32
  SystemRunTime :: u32
  TCPCreatTrm :: u32
  RunSecTimer :: u32
  cansent :: bool
  Tdata :: bytes
  num :: u8
  num2 :: u8
  RX_Buf :: bytes
  RxSi4432Len :: u8
  in_reset :: bool
  calls :: "net_call list"

record net_env =
  hw :: flash_hw
  uid_sum :: u32
  meminf :: bytes
  DataStr :: bytes
  TimeStr :: bytes
  stack :: bytes
  junk :: bytes

section \<open>Strings and small stores\<close>

text \<open>\<open>strncmp (a, b, n) == 0\<close>.\<close>

fun strneq :: "bytes \<Rightarrow> bytes \<Rightarrow> nat \<Rightarrow> bool" where
  "strneq xs ys 0 = True"
| "strneq (x # xs) (y # ys) (Suc n) = (x = y \<and> (x = 0 \<or> strneq xs ys n))"
| "strneq xs ys n = False"

definition str :: "string \<Rightarrow> bytes" where
  "str s = map of_char s @ [0]"

definition line :: "string \<Rightarrow> bytes" where
  "line s = map of_char s @ [0x0D, 0x0A, 0]"

fun puts :: "(nat \<times> u8) list \<Rightarrow> bytes \<Rightarrow> bytes option" where
  "puts [] b = Some b"
| "puts ((i, v) # r) b = do { b \<leftarrow> cset b i v; puts r b }"

definition byte :: "nat \<Rightarrow> u32 \<Rightarrow> u8" where
  "byte k w = ucast (drop_bit (8 * k) w)"

definition call :: "net_call \<Rightarrow> net \<Rightarrow> net" where
  "call c n = n \<lparr> calls := calls n @ [c] \<rparr>"

definition write_out :: "bytes \<Rightarrow> net \<Rightarrow> net" where
  "write_out b n = call Tcp_output (call (Tcp_write b) n)"

abbreviation uid_of :: "net \<Rightarrow> bytes" where
  "uid_of n \<equiv> UID_STM32 (mbm (gw n))"

definition put_uid :: "(nat \<times> u8) list \<Rightarrow> net \<Rightarrow> net option" where
  "put_uid l n = do {
     u \<leftarrow> puts l (uid_of n);
     Some (n \<lparr> gw := (gw n) \<lparr> mbm := (mbm (gw n)) \<lparr> UID_STM32 := u \<rparr> \<rparr> \<rparr>)
   }"

text \<open>The three ways the answers use the flash.\<close>

definition load_config :: "flash_hw \<Rightarrow> net \<Rightarrow> net option" where
  "load_config h n = do {
     (ws, f) \<leftarrow> GetIpFromFlash h (chip n);
     Some (n \<lparr> flash_net_buf := ws, chip := f \<rparr>)
   }"

definition save_config :: "flash_hw \<Rightarrow> u8 \<Rightarrow> net \<Rightarrow> net option" where
  "save_config h len n = do {
     f \<leftarrow> WriteIpToFlash h (flash_net_buf n) len (chip n);
     Some (n \<lparr> chip := f \<rparr>)
   }"

definition set_word :: "nat \<Rightarrow> u32 \<Rightarrow> net \<Rightarrow> net option" where
  "set_word i w n = do { b \<leftarrow> cset (flash_net_buf n) i w; Some (n \<lparr> flash_net_buf := b \<rparr>) }"

section \<open>Answers shared by TCP and UDP\<close>

definition fill_run :: "net \<Rightarrow> net option" where
  "fill_run n = put_uid
     [(0, 0xAA), (4, byte 0 (retry_TCP_connect n)), (3, byte 1 (retry_TCP_connect n)),
      (2, byte 2 (retry_TCP_connect n)), (1, byte 3 (retry_TCP_connect n)),
      (8, byte 0 (SystemRunTime n)), (7, byte 1 (SystemRunTime n)),
      (6, byte 2 (SystemRunTime n)), (5, byte 3 (SystemRunTime n)),
      (9, 0xBB), (10, 0x0d), (11, 0x0a)] n"

definition set_channel :: "net_env \<Rightarrow> bytes \<Rightarrow> net \<Rightarrow> net option" where
  "set_channel e data n = do {
     c \<leftarrow> cget data 6;
     n \<leftarrow> set_word 3 (ucast c) n;
     save_config (hw e) 3 n
   }"

definition channel_msg :: "net_env \<Rightarrow> net \<Rightarrow> (bytes \<times> net) option" where
  "channel_msg e n = do {
     n \<leftarrow> load_config (hw e) n;
     w \<leftarrow> cget (flash_net_buf n) 3;
     Some ([0xAB, 0x43, 0x48, byte 3 w, byte 2 w, byte 1 w, byte 0 w, 0xCD, 0x24, 0x0d, 0x0a], n)
   }"

definition config_msg :: "net_env \<Rightarrow> net \<Rightarrow> (bytes \<times> net) option" where
  "config_msg e n = do {
     n \<leftarrow> load_config (hw e) n;
     ip \<leftarrow> cget (flash_net_buf n) 0;
     pt \<leftarrow> cget (flash_net_buf n) 1;
     Some ([0xAB, 0x49, 0x50, byte 3 ip, byte 2 ip, byte 1 ip, byte 0 ip, 0x50, 0x4F, 0x52, 0x54,
            byte 1 pt, byte 0 pt, 0xCD, 0x24, 0x0d, 0x0a], n)
   }"

definition set_server :: "net_env \<Rightarrow> bytes \<Rightarrow> u8 \<Rightarrow> net \<Rightarrow> net option" where
  "set_server e data len n = do {
     a \<leftarrow> cget data 10; b \<leftarrow> cget data 12; c \<leftarrow> cget data 14; d \<leftarrow> cget data 16;
     ip \<leftarrow> puts [(0, a), (1, b), (2, c), (3, d)] (ipaddr_sever n);
     h \<leftarrow> cget data 18; l \<leftarrow> cget data 19;
     let p = push_bit 8 (ucast h) + ucast l;
     let n = n \<lparr> ipaddr_sever := ip, port_sever := p \<rparr>;
     n \<leftarrow> set_word 0 (push_bit 24 (ucast a) + push_bit 16 (ucast b) + push_bit 8 (ucast c) + ucast d) n;
     n \<leftarrow> set_word 1 (ucast p) n;
     save_config (hw e) len n
   }"

section \<open>The data of the server\<close>

text \<open>
  \<open>FF AA\<close>: a packet for the line; 8 bytes of it are not data.  \<open>FF BB\<close>: the poll list;
  7 bytes are not data, the first 1024 of the list are cleared.  The lengths are
  computed in \<open>uint32_t\<close>.
\<close>

definition recv_ffaa :: "nat \<Rightarrow> net \<Rightarrow> net option" where
  "recv_ffaa tcplen n = do {
     let L = of_nat tcplen - 5 - 3;
     src \<leftarrow> cread (Tdata n) 3 (unat L);
     buf \<leftarrow> cwrite (TcpRecvBuf (gw n)) 0 src;
     Some (n \<lparr> gw := (gw n) \<lparr> TcpRecvBuf := buf, TcpRecvLenth := L \<rparr> \<rparr>)
   }"

definition recv_ffbb :: "nat \<Rightarrow> net \<Rightarrow> net option" where
  "recv_ffbb tcplen n = do {
     let L = (of_nat tcplen - 5 - 2 :: u32);
     l \<leftarrow> cwrite (TCP2RS485CMDLIST (gw n)) 0 (replicate 1024 0);
     src \<leftarrow> cread (Tdata n) 2 (unat L);
     l \<leftarrow> cwrite l 0 src;
     let n = n \<lparr> gw := (gw n) \<lparr> TCP2RS485CMDLIST := l, DevIndex := 0, TcpRecvLenth := 0 \<rparr> \<rparr>;
     Some (write_out (line ''FFBBsave'') n)
   }"

definition recv_getid :: "net_env \<Rightarrow> net \<Rightarrow> net option" where
  "recv_getid e n = do {
     let id = uid_sum e;
     n \<leftarrow> put_uid
       [(0, 0xFF), (1, 0xAA), (2, 0x01), (3, 0x01), (4, byte 0 id), (5, byte 1 id), (6, byte 2 id),
        (7, 0x01), (8, 0x00), (9, 0x26), (10, 0), (11, 0), (12, 0), (13, 0), (14, 0xAA), (15, 0xFF),
        (16, 0x24), (17, 0x0d), (18, 0x0a)] n;
     b \<leftarrow> cread (uid_of n) 0 19;
     Some (write_out b n)
   }"

definition OK_CRLF :: bytes where
  "OK_CRLF = [0x4F, 0x4B, 0xA3, 0xA1, 0x0D, 0x0A, 0]"

text \<open>The chain of comparisons in the order of the code.\<close>

definition tcp_command :: "net_env \<Rightarrow> nat \<Rightarrow> net \<Rightarrow> net option" where
  "tcp_command e tcplen n =
    (let T = Tdata n in
     if strneq T [0xFF, 0xAA] 2 then recv_ffaa tcplen n
     else if strneq T [0xFF, 0xBB] 2 then recv_ffbb tcplen n
     else if strneq T (str ''mem'') 3 then Some (write_out (meminf e) n)
     else if strneq T (str ''start'') 5
     then Some (write_out (line ''startsent'') (n \<lparr> cansent := True \<rparr>))
     else if strneq T (str ''stop'') 4
     then Some (write_out (line ''startsent'') (n \<lparr> cansent := False \<rparr>))
     else if strneq T (str ''getrun'') 6
     then do { n \<leftarrow> fill_run n; b \<leftarrow> cread (uid_of n) 0 12; Some (write_out b n) }
     else if strneq T (str ''getid'') 5 then recv_getid e n
     else if strneq T (str ''setchl'') 6
     then map_option (write_out OK_CRLF) (set_channel e T n)
     else if strneq T (str ''setconfig'') 9 \<and> strneq (drop 17 T) (str '':'') 1
     then map_option (write_out OK_CRLF) (set_server e T 0 n)
     else if strneq T (str ''getchl'') 6
     then map_option (\<lambda>(b, n). write_out b n) (channel_msg e n)
     else if strneq T (str ''getconfig'') 9
     then map_option (\<lambda>(b, n). write_out b n) (config_msg e n)
     else if strneq T (str ''reboot'') 6 then Some (n \<lparr> in_reset := True \<rparr>)
     else Some n)"

text \<open>
  The receive callback: the first segment of the buffer and its \<open>tot_len\<close>, or
  \<open>NULL\<close>, and the error code.  1500 bytes and more are not copied, but the chain
  of comparisons runs on what \<open>Tdata\<close> still holds.
\<close>

definition tcp_client_reciver :: "net_env \<Rightarrow> (bytes \<times> u16) option \<Rightarrow> int \<Rightarrow> net \<Rightarrow> net option" where
  "tcp_client_reciver e p err n = do {
     n \<leftarrow> (case p of
         Some (payload, tot_len) \<Rightarrow>
           if err = 0 then do {
             let n = call (Tcp_recved (unat tot_len)) n;
             let tcplen = unat tot_len;
             n \<leftarrow> (if tcplen < 1500 then do {
                     src \<leftarrow> cread payload 0 tcplen;
                     t \<leftarrow> cwrite (Tdata n) 0 src;
                     Some (n \<lparr> Tdata := t \<rparr>)
                   } else Some n);
             tcp_command e tcplen (call Pbuf_free n)
           } else Some n
       | None \<Rightarrow> Some n);
     if \<not> in_reset n \<and> ((err = 0 \<and> p = None) \<or> err < 0)
     then Some (call Tcp_close (n \<lparr> Tcplink := True \<rparr>))
     else Some n
   }"

section \<open>The connection\<close>

text \<open>Whatever the error is, only the link flag is set.\<close>

definition tcp_client_err :: "int \<Rightarrow> net \<Rightarrow> net" where
  "tcp_client_err err n =
    (if err = -11 then n \<lparr> Tcplink := True \<rparr>
     else if err = -10 then n \<lparr> Tcplink := True \<rparr>
     else n \<lparr> Tcplink := True \<rparr>)"

definition tcp_client_callback :: "bool \<Rightarrow> net \<Rightarrow> net" where
  "tcp_client_callback bind_ok n =
    (let n = call (Tcp_bind 40096) (call Tcp_new n)
     in if bind_ok
        then call Tcp_set_recv (call Tcp_set_err (call (Tcp_connect (ipaddr_sever n) (port_sever n)) n))
        else n)"

definition tcp_client_connected :: "net \<Rightarrow> net" where
  "tcp_client_connected n = call (Tcp_keepalive 1000 1000 2)
     (n \<lparr> Tcplink := False, retry_TCP_connect := retry_TCP_connect n + 1 \<rparr>)"

definition udp_client_callback_app :: "net \<Rightarrow> net" where
  "udp_client_callback_app n =
     call Udp_set_recv (call (Udp_bind 21228) (call Udp_broadcast (call Udp_new n)))"

definition TcpTestThread :: "bool \<Rightarrow> u32 \<Rightarrow> net \<Rightarrow> net" where
  "TcpTestThread bind_ok Time n =
    (if 5000 \<le> Time - TCPCreatTrm n then
       let n = n \<lparr> TCPCreatTrm := Time \<rparr>;
           n = (if Tcplink n
                then tcp_client_callback bind_ok (call (Fs_write (line ''TCP_Retry'')) n) else n)
       in if \<not> Udplink n
          then udp_client_callback_app (call (Fs_write (line ''UDP_Retry'')) (n \<lparr> Udplink := True \<rparr>))
          else n
     else n)"

definition SynruntimHook :: "u32 \<Rightarrow> net \<Rightarrow> net" where
  "SynruntimHook Time n =
    (if 500 \<le> Time - RunSecTimer n
     then n \<lparr> RunSecTimer := Time, SystemRunTime := SystemRunTime n + 1 \<rparr> else n)"

section \<open>Configuration over UDP\<close>

text \<open>
  An answer is sent if its buffer can be allocated; \<open>ps\<close> tells.  The address and the
  port are those the request came from.
\<close>

record udp_in =
  u_payload :: bytes
  u_tot_len :: u16
  u_addr :: u32
  u_port :: u16
  u_ps :: bool

definition udp_reply :: "udp_in \<Rightarrow> bytes \<Rightarrow> net \<Rightarrow> net" where
  "udp_reply u b n =
    call Pbuf_free (if u_ps u then call (Udp_sendto b (u_addr u) (u_port u)) n else n)"

definition OK_msg :: bytes where "OK_msg = [0x4F, 0x4B, 0x0D, 0x0A]"

definition udp_getid :: "net_env \<Rightarrow> udp_in \<Rightarrow> net \<Rightarrow> net option" where
  "udp_getid e u n = do {
     let id = uid_sum e;
     n \<leftarrow> put_uid [(0, 0xAB), (1, 0x00), (2, byte 0 id), (3, byte 1 id), (4, byte 2 id),
       (5, 0xCD), (6, 0x24), (7, 0x0d), (8, 0x0a)] n;
     b \<leftarrow> cread (uid_of n) 0 9;
     Some (udp_reply u b n)
   }"

definition udp_getrun :: "udp_in \<Rightarrow> net \<Rightarrow> net option" where
  "udp_getrun u n = do {
     n \<leftarrow> fill_run n;
     b \<leftarrow> cread (uid_of n) 0 12;
     Some (udp_reply u b n)
   }"

text \<open>17 bytes are copied from an array of 10 into a buffer of 10.\<close>

definition udp_getiap :: "net_env \<Rightarrow> udp_in \<Rightarrow> net \<Rightarrow> net option" where
  "udp_getiap e u n = do {
     n \<leftarrow> load_config (hw e) n;
     w \<leftarrow> cget (flash_net_buf n) 2;
     j \<leftarrow> cget (junk e) 0;
     let iap = [0xAB, byte 3 w, byte 2 w, byte 1 w, byte 0 w, 0xCD, 0x24, 0x0d, 0x0a, j];
     if u_ps u then do {
       src \<leftarrow> cread iap 0 17;
       b \<leftarrow> cwrite (replicate 10 0) 0 src;
       Some (udp_reply u b n)
     } else Some (udp_reply u [] n)
   }"

definition udp_set_mode :: "net_env \<Rightarrow> u32 \<Rightarrow> udp_in \<Rightarrow> net \<Rightarrow> net option" where
  "udp_set_mode e mode u n = do {
     n \<leftarrow> set_word 2 mode n;
     n \<leftarrow> save_config (hw e) 3 n;
     Some (udp_reply u OK_msg n)
   }"

text \<open>11 bytes are copied into a buffer of 12.\<close>

definition udp_getchl :: "net_env \<Rightarrow> udp_in \<Rightarrow> net \<Rightarrow> net option" where
  "udp_getchl e u n = do {
     (b, n) \<leftarrow> channel_msg e n;
     j \<leftarrow> cget (junk e) 0;
     Some (udp_reply u (b @ [j]) n)
   }"

definition udp_getconfig :: "net_env \<Rightarrow> udp_in \<Rightarrow> net \<Rightarrow> net option" where
  "udp_getconfig e u n = do { (b, n) \<leftarrow> config_msg e n; Some (udp_reply u b n) }"

text \<open>The version is \<open>0.9.0\<close>; the last 4 of the 40 bytes are not set.\<close>

definition udp_getver :: "net_env \<Rightarrow> udp_in \<Rightarrow> net \<Rightarrow> net option" where
  "udp_getver e u n = do {
     d \<leftarrow> cread (DataStr e) 0 12;
     t \<leftarrow> cread (TimeStr e) 0 9;
     j \<leftarrow> cread (junk e) 0 40;
     v \<leftarrow> cwrite j 0 (map of_char ''version='');
     v \<leftarrow> puts [(8, 0x20), (9, 0 + 0x30), (10, 0x2E), (11, 9 + 0x30), (12, 0x2E), (13, 0 + 0x30),
                (14, 0x20)] v;
     v \<leftarrow> cwrite v 15 d;
     v \<leftarrow> cwrite v 27 t;
     v \<leftarrow> cset v 26 0x20;
     Some (udp_reply u v n)
   }"

definition udp_command :: "net_env \<Rightarrow> udp_in \<Rightarrow> bytes \<Rightarrow> net \<Rightarrow> net option" where
  "udp_command e u data n =
    (if strneq data (str ''getid'') 5 then udp_getid e u n
     else if strneq data (str ''getrun'') 6 then udp_getrun u n
     else if strneq data (str ''getiap'') 6 then udp_getiap e u n
     else if strneq data (str ''setiap'') 6 then udp_set_mode e 0x55555555 u n
     else if strneq data (str ''setapp'') 6 then udp_set_mode e 0xAAAAAAAA u n
     else if strneq data (str ''setchl'') 6
     then map_option (udp_reply u OK_msg) (set_channel e data n)
     else if strneq data (str ''getchl'') 6 then udp_getchl e u n
     else if strneq data (str ''getconfig'') 9 then udp_getconfig e u n
     else if strneq data (str ''setconfig'') 9 \<and> strneq (drop 17 data) (str '':'') 1
     then map_option (udp_reply u OK_msg) (set_server e data 3 n)
     else if strneq data (str ''getver'') 6 then udp_getver e u n
     else if strneq data (str ''reboot'') 6 then Some (n \<lparr> in_reset := True \<rparr>)
     else Some n)"

definition udp_client_callback :: "net_env \<Rightarrow> udp_in option \<Rightarrow> net \<Rightarrow> net option" where
  "udp_client_callback e p n =
    (case p of
       None \<Rightarrow> Some n
     | Some u \<Rightarrow>
         if unat (u_tot_len u) < 1024 then do {
           src \<leftarrow> cread (u_payload u) 0 (unat (u_tot_len u));
           data \<leftarrow> cwrite (stack e) 0 src;
           udp_command e u data (call Pbuf_free n)
         } else Some (call Pbuf_free n))"

section \<open>Sending to the server\<close>

text \<open>\<open>erro\<close> is what \<open>tcp_write\<close> returns; its length is a \<open>u16_t\<close>.\<close>

definition SendDataToSever :: "int \<Rightarrow> net \<Rightarrow> net option" where
  "SendDataToSever erro n =
    (let m = mbm (gw n); L = Mb2TcpLenth m;
         n0 = n \<lparr> gw := (gw n) \<lparr> mbm := m \<lparr> Mb2TcpLenth := 0 \<rparr> \<rparr> \<rparr>
     in if \<not> Tcplink n \<and> 0 < L then do {
          b \<leftarrow> cread (Mb2TcpBuff m) 0 (unat (ucast L :: u16));
          let n = call (Tcp_write b) n0;
          Some (if erro = 0 then call Tcp_output n
                else n \<lparr> num := (if 50 \<le> num n + 1 then 0 else num n + 1) \<rparr>)
        }
        else if 0 < L then Some n0 else Some n)"

definition Si4432SendDataToSever :: "int \<Rightarrow> net \<Rightarrow> net option" where
  "Si4432SendDataToSever erro n =
    (let len = unat (RxSi4432Len n)
     in if \<not> Tcplink n \<and> 0 < RxSi4432Len n then do {
          h \<leftarrow> uid_header (uid_of n);
          b \<leftarrow> cwrite (replicate 100 0) 0 h;
          f \<leftarrow> cread (RX_Buf n) 0 len;
          b \<leftarrow> cwrite b 13 f;
          b \<leftarrow> puts [(len + 13, 0xAA), (len + 13 + 1, 0xFF), (len + 13 + 2, 0x24),
                     (len + 13 + 3, 0x0D), (len + 13 + 4, 0x0A)] b;
          out \<leftarrow> cread b 0 (len + 18);
          let n = call (Tcp_write out) (n \<lparr> RxSi4432Len := 0 \<rparr>);
          Some (if erro = 0 then call Tcp_output n
                else n \<lparr> num2 := (if 50 \<le> num2 n + 1 then 0 else num2 n + 1) \<rparr>)
        }
        else if 0 < RxSi4432Len n then Some (n \<lparr> RxSi4432Len := 0 \<rparr>) else Some n)"

section \<open>Invariant\<close>

definition net_inv :: "net \<Rightarrow> bool" where
  "net_inv n \<longleftrightarrow> mbm_inv (mbm (gw n)) \<and> length (Tdata n) = 1500 \<and> length (TcpRecvBuf (gw n)) = 1500 \<and>
     length (TCP2RS485CMDLIST (gw n)) = 1400 \<and> length (flash_net_buf n) = 4 \<and>
     length (ipaddr_sever n) = 4 \<and> length (RX_Buf n) = 64 \<and> unat (RxSi4432Len n) \<le> 64"

lemma strneq_take:
  "n \<le> length xs \<Longrightarrow> n \<le> length ys \<Longrightarrow> 0 \<notin> set (take n ys) \<Longrightarrow>
   strneq xs ys n \<longleftrightarrow> take n xs = take n ys"
proof (induction xs ys n rule: strneq.induct)
  case (2 x xs y ys n)
  then show ?case by auto
qed auto

lemma net_inv_call [simp]: "net_inv (call c n) = net_inv n"
  by (simp add: net_inv_def call_def)

lemma net_inv_write_out [simp]: "net_inv (write_out b n) = net_inv n"
  by (simp add: write_out_def)

lemma puts_Some: "\<forall>p \<in> set l. fst p < length b \<Longrightarrow> \<exists>b'. puts l b = Some b' \<and> length b' = length b"
proof (induction l arbitrary: b)
  case (Cons p l)
  obtain i v where p: "p = (i, v)" by (cases p)
  have "\<forall>p \<in> set l. fst p < length (b[i := v])" using Cons.prems by simp
  from Cons.IH[OF this] show ?case using Cons.prems by (simp add: p)
qed simp

lemma puts_None: "(i, v) \<in> set l \<Longrightarrow> length b \<le> i \<Longrightarrow> puts l b = None"
  by (induction l arbitrary: b) (auto simp: cset_None split: option.splits simp: bind_eq_None_conv cset_def)

lemma put_uid_Some:
  assumes "net_inv n" "\<forall>p \<in> set l. fst p < 16"
  shows "\<exists>n'. put_uid l n = Some n' \<and> net_inv n'"
proof -
  have "length (uid_of n) = 16" using assms(1) by (simp add: net_inv_def mbm_inv_def)
  then obtain b where "puts l (uid_of n) = Some b" "length b = 16"
    using puts_Some[of l "uid_of n"] assms(2) by auto
  then show ?thesis using assms(1) by (auto simp: put_uid_def net_inv_def mbm_inv_def)
qed

lemma net_inv_uid: "net_inv n \<Longrightarrow> length (uid_of n) = 16"
  by (simp add: net_inv_def mbm_inv_def)

lemma fill_run_Some: "net_inv n \<Longrightarrow> \<exists>n'. fill_run n = Some n' \<and> net_inv n'"
  unfolding fill_run_def by (rule put_uid_Some) auto

section \<open>The configuration\<close>

lemma load_config_Some:
  assumes "flash_laws h" "net_inv n"
  shows "\<exists>n'. load_config h n = Some n' \<and> net_inv n'"
proof -
  have "\<exists>c f. GetIpFromFlash h (chip n) = Some (c, f) \<and> length c = 4"
    using assms(1) write_config[OF assms(1), where c = "[0x7B3B60E9, 0x162F, fmem (chip n) IAP_MODE_FLAGE_FLASH, 0]"
      and f = "(chip n) \<lparr> unlocked := True, irq := True \<rparr>" and m = "fmem (chip n)"]
    by (simp add: GetIp_words Let_def)
  then show ?thesis using assms(2) by (auto simp: load_config_def net_inv_def)
qed

lemma save_config_Some:
  assumes "flash_laws h" "net_inv n"
  shows "save_config h k n = Some (n \<lparr> chip := (chip n)
    \<lparr> unlocked := True, irq := True, fmem := config_mem (flash_net_buf n) (fmem (chip n)) \<rparr> \<rparr>)"
  using assms WriteIp_config[OF assms(1), of "flash_net_buf n" k "chip n"]
  by (simp add: save_config_def net_inv_def)

lemma net_inv_chip [simp]: "net_inv (n \<lparr> chip := f \<rparr>) = net_inv n"
  by (simp add: net_inv_def)

lemma set_word_Some:
  "net_inv n \<Longrightarrow> i < 4 \<Longrightarrow> set_word i w n = Some (n \<lparr> flash_net_buf := (flash_net_buf n)[i := w] \<rparr>)"
  by (simp add: set_word_def net_inv_def)

lemma net_inv_word [simp]: "net_inv (n \<lparr> flash_net_buf := (flash_net_buf n)[i := w] \<rparr>) = net_inv n"
  by (simp add: net_inv_def)

lemma set_channel_Some:
  assumes "flash_laws (hw e)" "net_inv n" "6 < length data"
  shows "\<exists>n'. set_channel e data n = Some n' \<and> net_inv n'"
  using assms by (simp add: set_channel_def set_word_Some save_config_Some)

text \<open>What \<open>setconfig\<close> stores.\<close>

definition server_words :: "bytes \<Rightarrow> u32 list \<Rightarrow> u32 list" where
  "server_words d c = c[0 := push_bit 24 (ucast (d ! 10)) + push_bit 16 (ucast (d ! 12)) +
       push_bit 8 (ucast (d ! 14)) + ucast (d ! 16),
     1 := ucast (push_bit 8 (ucast (d ! 18)) + ucast (d ! 19) :: u16)]"

lemma puts_ip:
  assumes "length ip = 4"
  shows "puts [(0, a), (1, b), (2, c), (3, x)] ip = Some [a, b, c, x]"
proof -
  obtain p q r s where "ip = [p, q, r, s]"
    using assms by (auto simp: numeral_eq_Suc length_Suc_conv)
  then show ?thesis by (simp add: numeral_eq_Suc)
qed

lemma set_server_eq:
  assumes "flash_laws (hw e)" "net_inv n" "20 \<le> length d"
  shows "set_server e d k n = Some (n \<lparr>
      ipaddr_sever := [d ! 10, d ! 12, d ! 14, d ! 16],
      port_sever := push_bit 8 (ucast (d ! 18)) + ucast (d ! 19),
      flash_net_buf := server_words d (flash_net_buf n),
      chip := (chip n) \<lparr> unlocked := True, irq := True,
        fmem := config_mem (server_words d (flash_net_buf n)) (fmem (chip n)) \<rparr> \<rparr>)"
proof -
  define ip where "ip = [d ! 10, d ! 12, d ! 14, d ! 16]"
  define p :: u16 where "p = push_bit 8 (ucast (d ! 18)) + ucast (d ! 19)"
  define w0 :: u32 where "w0 = push_bit 24 (ucast (d ! 10)) + push_bit 16 (ucast (d ! 12)) +
    push_bit 8 (ucast (d ! 14)) + ucast (d ! 16)"
  define n1 where "n1 = n \<lparr> ipaddr_sever := ip, port_sever := p \<rparr>"
  define n2 where "n2 = n1 \<lparr> flash_net_buf := (flash_net_buf n1)[0 := w0] \<rparr>"
  define n3 where "n3 = n2 \<lparr> flash_net_buf := (flash_net_buf n2)[1 := ucast p] \<rparr>"
  have inv: "net_inv n1" "net_inv n2" "net_inv n3"
    using assms(2) by (simp_all add: n1_def n2_def n3_def net_inv_def ip_def)
  have d: "cget d 10 = Some (d ! 10)" "cget d 12 = Some (d ! 12)" "cget d 14 = Some (d ! 14)"
    "cget d 16 = Some (d ! 16)" "cget d 18 = Some (d ! 18)" "cget d 19 = Some (d ! 19)"
    using assms(3) by simp_all
  have "length (ipaddr_sever n) = 4" using assms(2) by (simp add: net_inv_def)
  from puts_ip[OF this] have "puts [(0, d ! 10), (1, d ! 12), (2, d ! 14), (3, d ! 16)] (ipaddr_sever n) = Some ip"
    by (simp add: ip_def)
  moreover have "set_word 0 w0 n1 = Some n2" "set_word 1 (ucast p) n2 = Some n3"
    using inv by (simp_all add: n2_def n3_def set_word_Some)
  ultimately have "set_server e d k n = save_config (hw e) k n3"
    unfolding set_server_def d Let_def by (simp add: n1_def p_def w0_def del: puts.simps)
  moreover have "flash_net_buf n3 = server_words d (flash_net_buf n)"
    by (simp add: n3_def n2_def n1_def server_words_def w0_def p_def)
  ultimately show ?thesis
    unfolding save_config_Some[OF assms(1) inv(3)] by (simp add: n3_def n2_def n1_def ip_def p_def)
qed

section \<open>The commands of the server\<close>

lemma net_inv_reset [simp]: "net_inv (n \<lparr> in_reset := b \<rparr>) = net_inv n"
  "net_inv (n \<lparr> cansent := b \<rparr>) = net_inv n" "net_inv (n \<lparr> Tcplink := b \<rparr>) = net_inv n"
  by (simp_all add: net_inv_def)

lemma packet_length:
  assumes "c \<le> 8" "k < 65536"
  shows "unat (of_nat k - of_nat c :: u32) = (if c \<le> k then k - c else 2 ^ 32 - (c - k))"
proof (cases "c \<le> k")
  case True
  then have e: "(of_nat k - of_nat c :: u32) = of_nat (k - c)" by (simp add: of_nat_diff)
  have "unat (of_nat (k - c) :: u32) = k - c"
    unfolding unat_of_nat using assms by (intro mod_less) simp
  then show ?thesis using True by (simp only: e if_True)
next
  case False
  have "(of_nat (2 ^ 32 - (c - k)) :: u32) = of_nat (2 ^ 32) - of_nat (c - k)"
    using assms by (intro of_nat_diff) simp
  also have "\<dots> = of_nat k - of_nat c" using False by (simp add: of_nat_diff)
  finally have "(of_nat k - of_nat c :: u32) = of_nat (2 ^ 32 - (c - k))" by simp
  moreover have "unat (of_nat (2 ^ 32 - (c - k)) :: u32) = 2 ^ 32 - (c - k)"
    unfolding unat_of_nat using False assms by (intro mod_less) simp
  ultimately show ?thesis using False by simp
qed

lemma minus_8: "of_nat k - 5 - 3 = (of_nat k - of_nat 8 :: u32)"
  "of_nat k - 5 - 2 = (of_nat k - of_nat 7 :: u32)"
  by simp_all

lemma recv_ffaa_eq:
  assumes "net_inv n" "k < 65536"
  shows "recv_ffaa k n =
    (if 8 \<le> k \<and> k \<le> 1505
     then Some (n \<lparr> gw := (gw n) \<lparr>
        TcpRecvBuf := take (k - 8) (drop 3 (Tdata n)) @ drop (k - 8) (TcpRecvBuf (gw n)),
        TcpRecvLenth := of_nat (k - 8) \<rparr> \<rparr>)
     else None)"
proof -
  have len: "length (Tdata n) = 1500" "length (TcpRecvBuf (gw n)) = 1500"
    using assms(1) by (simp_all add: net_inv_def)
  have L: "unat (of_nat k - of_nat 8 :: u32) = (if 8 \<le> k then k - 8 else 2 ^ 32 - (8 - k))"
    using packet_length[of 8 k] assms(2) by simp
  show ?thesis
  proof (cases "8 \<le> k \<and> k \<le> 1505")
    case True
    then have le: "8 \<le> k" "k - 8 \<le> 1500" "k - 5 \<le> 1500" "3 + (k - 8) \<le> 1500" by auto
    from True have "(of_nat k - of_nat 8 :: u32) = of_nat (k - 8)" by (simp add: of_nat_diff)
    then show ?thesis
      using True len L le unfolding recv_ffaa_def minus_8 Let_def
      by (simp add: cread_def cwrite_def del: of_nat_numeral)
  next
    case False
    then have "cread (Tdata n) 3 (unat (of_nat k - of_nat 8 :: u32)) = None"
      using len unfolding L by (auto simp: cread_def)
    then show ?thesis using False unfolding recv_ffaa_def minus_8 Let_def by simp
  qed
qed

lemma net_inv_list:
  "net_inv n \<Longrightarrow> length l = 1400 \<Longrightarrow>
   net_inv (n \<lparr> gw := (gw n) \<lparr> TCP2RS485CMDLIST := l, DevIndex := 0, TcpRecvLenth := 0 \<rparr> \<rparr>)"
  by (simp add: net_inv_def)

lemma recv_ffbb_eq:
  assumes "net_inv n" "k < 65536"
  shows "recv_ffbb k n =
    (if 7 \<le> k \<and> k \<le> 1407
     then Some (write_out (line ''FFBBsave'') (n \<lparr> gw := (gw n) \<lparr>
        TCP2RS485CMDLIST := take (k - 7) (drop 2 (Tdata n)) @
          drop (k - 7) (replicate 1024 0 @ drop 1024 (TCP2RS485CMDLIST (gw n))),
        DevIndex := 0, TcpRecvLenth := 0 \<rparr> \<rparr>))
     else None)"
proof -
  have len: "length (Tdata n) = 1500" "length (TCP2RS485CMDLIST (gw n)) = 1400"
    using assms(1) by (simp_all add: net_inv_def)
  have L: "unat (of_nat k - of_nat 7 :: u32) = (if 7 \<le> k then k - 7 else 2 ^ 32 - (7 - k))"
    using packet_length[of 7 k] assms(2) by simp
  have w: "cwrite (TCP2RS485CMDLIST (gw n)) 0 (replicate 1024 0) =
      Some (replicate 1024 0 @ drop 1024 (TCP2RS485CMDLIST (gw n)))"
    using len by (simp add: cwrite_def)
  show ?thesis
  proof (cases "7 \<le> k \<and> k \<le> 1407")
    case True
    then have "7 \<le> k" "k - 7 \<le> 1400" "2 + (k - 7) \<le> 1500" "k - 5 \<le> 1500" by auto
    then show ?thesis
      using True len L unfolding recv_ffbb_def minus_8 Let_def w
      by (simp add: cread_def cwrite_def)
  next
    case False
    let ?l = "replicate 1024 0 @ drop 1024 (TCP2RS485CMDLIST (gw n))"
    have "cread (Tdata n) 2 (unat (of_nat k - of_nat 7 :: u32)) \<bind> cwrite ?l 0 = None"
      using False len unfolding L by (auto simp: cread_def cwrite_def)
    then show ?thesis using False unfolding recv_ffbb_def minus_8 Let_def w
      by (cases "cread (Tdata n) 2 (unat (of_nat k - of_nat 7 :: u32))") simp_all
  qed
qed

text \<open>A comparison with a command word is a prefix test.\<close>

lemma starts_take:
  assumes "length T = 1500"
  shows "strneq T (str ''mem'') 3 \<longleftrightarrow> take 3 T = map of_char ''mem''"
    "strneq T (str ''start'') 5 \<longleftrightarrow> take 5 T = map of_char ''start''"
    "strneq T (str ''stop'') 4 \<longleftrightarrow> take 4 T = map of_char ''stop''"
    "strneq T (str ''getrun'') 6 \<longleftrightarrow> take 6 T = map of_char ''getrun''"
    "strneq T (str ''getid'') 5 \<longleftrightarrow> take 5 T = map of_char ''getid''"
    "strneq T (str ''getconfig'') 9 \<longleftrightarrow> take 9 T = map of_char ''getconfig''"
  using assms by (subst strneq_take; simp add: str_def)+

definition cmd_faults :: "bytes \<Rightarrow> nat \<Rightarrow> bool" where
  "cmd_faults T k \<longleftrightarrow> take 2 T = [0xFF, 0xAA] \<and> (k < 8 \<or> 1505 < k) \<or>
     take 2 T = [0xFF, 0xBB] \<and> (k < 7 \<or> 1407 < k) \<or> take 5 T = map of_char ''getid''"

lemma starts_ff:
  assumes "length T = 1500" "b \<noteq> 0"
  shows "strneq T [0xFF, b] 2 \<longleftrightarrow> take 2 T = [0xFF, b]"
  using assms by (subst strneq_take) auto

lemma getid_first:
  fixes T :: bytes
  assumes "take 5 T = map of_char ''getid''"
  shows "take 2 T \<noteq> [0xFF, 0xAA]" "take 2 T \<noteq> [0xFF, 0xBB]" "take 3 T \<noteq> map of_char ''mem''"
    "take 5 T \<noteq> map of_char ''start''" "take 4 T \<noteq> map of_char ''stop''"
    "take 6 T \<noteq> map of_char ''getrun''"
proof -
  have "take k T = take k (map of_char ''getid'')" if "k \<le> 5" for k
    using that by (simp add: assms[symmetric] min_def del: list.map)
  from this[of 2] this[of 3] this[of 4] show "take 2 T \<noteq> [0xFF, 0xAA]" "take 2 T \<noteq> [0xFF, 0xBB]"
    "take 3 T \<noteq> map of_char ''mem''" "take 4 T \<noteq> map of_char ''stop''"
    by simp_all
  show "take 5 T \<noteq> map of_char ''start''" unfolding assms by simp
  show "take 6 T \<noteq> map of_char ''getrun''"
  proof
    assume "take 6 T = map of_char ''getrun''"
    then have "take 5 (take 6 T) = take 5 (map of_char ''getrun'')" by simp
    then have "take 5 T = take 5 (map of_char ''getrun'')" by simp
    then show False unfolding assms by simp
  qed
qed

lemma recv_getid_None: "net_inv n \<Longrightarrow> recv_getid e n = None"
  using net_inv_uid[of n]
  by (simp add: recv_getid_def Let_def put_uid_def puts_None[of 16 "0x24"] del: puts.simps)

lemma msg_Some:
  assumes "flash_laws (hw e)" "net_inv n"
  shows "\<exists>b n'. channel_msg e n = Some (b, n') \<and> net_inv n'"
    "\<exists>b n'. config_msg e n = Some (b, n') \<and> net_inv n'"
proof -
  obtain n' where n': "load_config (hw e) n = Some n'" "net_inv n'"
    using load_config_Some[OF assms] by blast
  then have "length (flash_net_buf n') = 4" by (simp add: net_inv_def)
  then show "\<exists>b n'. channel_msg e n = Some (b, n') \<and> net_inv n'"
    "\<exists>b n'. config_msg e n = Some (b, n') \<and> net_inv n'"
    using n' by (simp_all add: channel_msg_def config_msg_def)
qed

lemma set_server_Some:
  assumes "flash_laws (hw e)" "net_inv n" "20 \<le> length d"
  shows "\<exists>n'. set_server e d k n = Some n' \<and> net_inv n'"
  using assms(2) unfolding set_server_eq[OF assms] by (simp add: net_inv_def server_words_def)

lemma run_msg_Some:
  assumes "net_inv n" "k \<le> 16"
  shows "\<exists>n' b. fill_run n = Some n' \<and> cread (uid_of n') 0 k = Some b \<and> net_inv n'"
proof -
  obtain n' where "fill_run n = Some n'" "net_inv n'" using fill_run_Some[OF assms(1)] by blast
  then show ?thesis using net_inv_uid[of n'] assms(2) by (simp add: cread_def)
qed

lemma tcp_command_cases:
  assumes "flash_laws (hw e)" "net_inv n" "k < 65536"
  shows "case tcp_command e k n of
      None \<Rightarrow> cmd_faults (Tdata n) k
    | Some n' \<Rightarrow> \<not> cmd_faults (Tdata n) k \<and> net_inv n'"
proof -
  let ?T = "Tdata n"
  have T: "length ?T = 1500" using assms(2) by (simp add: net_inv_def)
  note st = starts_take[OF T]
  have ff: "strneq ?T [0xFF, 0xAA] 2 \<longleftrightarrow> take 2 ?T = [0xFF, 0xAA]"
    "strneq ?T [0xFF, 0xBB] 2 \<longleftrightarrow> take 2 ?T = [0xFF, 0xBB]"
    using starts_ff[OF T] by simp_all
  consider (aa) "take 2 ?T = [0xFF, 0xAA]" | (bb) "take 2 ?T = [0xFF, 0xBB]"
    | (id) "take 5 ?T = map of_char ''getid''"
    | (rest) "take 2 ?T \<noteq> [0xFF, 0xAA]" "take 2 ?T \<noteq> [0xFF, 0xBB]" "take 5 ?T \<noteq> map of_char ''getid''"
    by blast
  then show ?thesis
  proof cases
    case aa
    then have "cmd_faults ?T k = (k < 8 \<or> 1505 < k)"
      using getid_first(1)[of ?T] by (auto simp: cmd_faults_def)
    moreover have "tcp_command e k n = recv_ffaa k n" using aa ff(1) by (simp add: tcp_command_def Let_def)
    ultimately show ?thesis
      using assms(2) T by (auto simp: recv_ffaa_eq[OF assms(2,3)] net_inv_def)
  next
    case bb
    then have "cmd_faults ?T k = (k < 7 \<or> 1407 < k)"
      using getid_first(2)[of ?T] by (auto simp: cmd_faults_def)
    moreover have "tcp_command e k n = recv_ffbb k n" using bb ff by (simp add: tcp_command_def Let_def)
    moreover have "length (TCP2RS485CMDLIST (gw n)) = 1400" using assms(2) by (simp add: net_inv_def)
    ultimately show ?thesis
      using T by (auto simp: recv_ffbb_eq[OF assms(2,3)] net_inv_list[OF assms(2)])
  next
    case id
    then have "tcp_command e k n = recv_getid e n"
      unfolding tcp_command_def Let_def ff st using getid_first[OF id] by (simp only: id if_False if_True)
    then show ?thesis using id recv_getid_None[OF assms(2)] by (simp add: cmd_faults_def)
  next
    case rest
    then have nf: "\<not> cmd_faults ?T k" by (simp add: cmd_faults_def)
    obtain n1 b1 where 1: "fill_run n = Some n1" "cread (uid_of n1) 0 12 = Some b1" "net_inv n1"
      using run_msg_Some[OF assms(2), of 12] by auto
    obtain n2 where 2: "set_channel e ?T n = Some n2" "net_inv n2"
      using set_channel_Some[OF assms(1,2), of ?T] T by auto
    obtain n3 where 3: "set_server e ?T 0 n = Some n3" "net_inv n3"
      using set_server_Some[OF assms(1,2), of ?T 0] T by auto
    obtain b4 n4 b5 n5 where 4: "channel_msg e n = Some (b4, n4)" "net_inv n4"
      "config_msg e n = Some (b5, n5)" "net_inv n5"
      using msg_Some[OF assms(1,2)] by auto
    have "\<exists>n'. tcp_command e k n = Some n' \<and> net_inv n'"
      unfolding tcp_command_def Let_def ff st
      by (simp only: rest if_False) (simp add: 1 2 3 4 assms(2))
    then show ?thesis using nf by auto
  qed
qed

section \<open>Words and their bytes\<close>

text \<open>The server address as one word, most significant byte first, and back.\<close>

definition join4 :: "u8 \<Rightarrow> u8 \<Rightarrow> u8 \<Rightarrow> u8 \<Rightarrow> u32" where
  "join4 a b c d = push_bit 24 (ucast a) + push_bit 16 (ucast b) + push_bit 8 (ucast c) + ucast d"

lemma join4_or: "join4 a b c d = push_bit 24 (ucast a) OR push_bit 16 (ucast b) OR push_bit 8 (ucast c) OR ucast d"
   (is "_ = ?a OR ?b OR ?c OR ?d")
proof -
  have or: "x + y = x OR y" if "x AND y = 0" for x y :: u32
    using that by (rule disjunctive_add_eq_or)
  have z: "bit x n \<Longrightarrow> n < 8" for x :: u8 and n by (auto dest: bit_imp_le_length)
  have 1: "?a + ?b = ?a OR ?b" by (rule or, rule bit_word_eqI) (auto simp: bit_simps dest: z)
  have 2: "(?a OR ?b) + ?c = ?a OR ?b OR ?c"
    by (subst or, rule bit_word_eqI) (auto simp: bit_simps or.assoc dest: z)
  have 3: "(?a OR ?b OR ?c) + ?d = ?a OR ?b OR ?c OR ?d"
    by (subst or, rule bit_word_eqI) (auto simp: bit_simps or.assoc dest: z)
  show ?thesis by (simp only: join4_def 1 2 3)
qed

lemma byte_join4:
  "byte 3 (join4 a b c d) = a" "byte 2 (join4 a b c d) = b"
  "byte 1 (join4 a b c d) = c" "byte 0 (join4 a b c d) = d"
proof -
  have z: "bit x n \<Longrightarrow> n < 8" for x :: u8 and n by (auto dest: bit_imp_le_length)
  show "byte 3 (join4 a b c d) = a" "byte 2 (join4 a b c d) = b"
    "byte 1 (join4 a b c d) = c" "byte 0 (join4 a b c d) = d"
    by (rule bit_word_eqI; auto simp: byte_def join4_or bit_simps dest: z)+
qed

lemma byte_port:
  "byte 1 (ucast (push_bit 8 (ucast h) + ucast l :: u16)) = h"
  "byte 0 (ucast (push_bit 8 (ucast h) + ucast l :: u16)) = l"
proof -
  have z: "bit x n \<Longrightarrow> n < 8" for x :: u8 and n by (auto dest: bit_imp_le_length)
  have or: "(push_bit 8 (ucast h) + ucast l :: u16) = push_bit 8 (ucast h) OR ucast l"
    by (rule disjunctive_add_eq_or, rule bit_word_eqI) (auto simp: bit_simps dest: z)
  show "byte 1 (ucast (push_bit 8 (ucast h) + ucast l :: u16)) = h"
  "byte 0 (ucast (push_bit 8 (ucast h) + ucast l :: u16)) = l"
    unfolding or by (rule bit_word_eqI; auto simp: byte_def bit_simps dest: z)+
qed

lemmas byte_simps [simp] = byte_join4[simplified] byte_port[simplified]

section \<open>The configuration over TCP and UDP\<close>

lemma strneq_Cons [simp]:
  "strneq (x # xs) (y # ys) (numeral k) \<longleftrightarrow> x = y \<and> (x = 0 \<or> strneq xs ys (pred_numeral k))"
  by (simp add: numeral_eq_Suc)

lemma strneq_1 [simp]: "strneq (x # xs) (y # ys) (Suc 0) \<longleftrightarrow> x = y"
  by auto

lemma load_config_eq:
  assumes "length c = 4" "c ! 0 \<noteq> 0xffffffff" "c ! 1 \<noteq> 0xffffffff" "c ! 3 \<noteq> 0xffffffff"
    "fmem (chip n) = config_mem c m"
  shows "load_config h n =
    Some (n \<lparr> flash_net_buf := c, chip := (chip n) \<lparr> unlocked := True, irq := True \<rparr> \<rparr>)"
  using GetIp_config[OF assms(2-4,1,5)] by (simp add: load_config_def)

text \<open>A \<open>setconfig\<close> request of 20 bytes; the bytes between the numbers are not read.\<close>

definition setconfig_req :: "u8 \<Rightarrow> u8 \<Rightarrow> u8 \<Rightarrow> u8 \<Rightarrow> u8 \<Rightarrow> u8 \<Rightarrow> bytes" where
  "setconfig_req a b c d h l =
     map of_char ''setconfig.'' @ [a, 0x2E, b, 0x2E, c, 0x2E, d, 0x3A, h, l]"

lemma tcp_setconfig:
  assumes "take 20 (Tdata m) = setconfig_req a b c d h l"
  shows "tcp_command e k m = map_option (write_out OK_CRLF) (set_server e (Tdata m) 0 m)"
proof -
  define r where "r = drop 20 (Tdata m)"
  have T: "Tdata m = setconfig_req a b c d h l @ r"
    using assms append_take_drop_id[of 20 "Tdata m"] by (simp add: r_def)
  show ?thesis
    unfolding tcp_command_def Let_def T by (simp add: setconfig_req_def str_def)
qed

text \<open>Three of the four words are not blank after \<open>setconfig\<close>.\<close>

definition server_set :: "bytes \<Rightarrow> u8 \<Rightarrow> u8 \<Rightarrow> u32 \<Rightarrow> net \<Rightarrow> bool" where
  "server_set ip h l ch n \<longleftrightarrow> length ip = 4 \<and> ipaddr_sever n = ip \<and>
     port_sever n = push_bit 8 (ucast h) + ucast l \<and>
     (\<exists>c m. length c = 4 \<and> c ! 0 = join4 (ip ! 0) (ip ! 1) (ip ! 2) (ip ! 3) \<and>
        c ! 1 = ucast (port_sever n) \<and> c ! 3 = ch \<and>
        flash_net_buf n = c \<and> fmem (chip n) = config_mem c m)"

lemma set_server_set:
  assumes "flash_laws (hw e)" "net_inv n" "d = setconfig_req a b c x h l @ r"
  shows "\<exists>n'. set_server e d k n = Some n' \<and> server_set [a, b, c, x] h l (flash_net_buf n ! 3) n' \<and>
    net_inv n' \<and> irq (chip n')"
proof -
  have len: "20 \<le> length d" by (simp add: assms(3) setconfig_req_def)
  have d: "d ! 10 = a" "d ! 12 = b" "d ! 14 = c" "d ! 16 = x" "d ! 18 = h" "d ! 19 = l"
    by (simp_all add: assms(3) setconfig_req_def)
  have "length (flash_net_buf n) = 4" using assms(2) by (simp add: net_inv_def)
  then show ?thesis
    using assms(2) unfolding set_server_eq[OF assms(1,2) len] d server_words_def
    by (auto simp: server_set_def net_inv_def join4_def)
qed

lemma udp_callback_eq:
  assumes "unat (u_tot_len u) < 1024" "unat (u_tot_len u) \<le> length (u_payload u)"
    "length (stack e) = 1024"
  shows "udp_client_callback e (Some u) n = udp_command e u
    (take (unat (u_tot_len u)) (u_payload u) @ drop (unat (u_tot_len u)) (stack e)) (call Pbuf_free n)"
  using assms by (simp add: udp_client_callback_def cread_def cwrite_def min_def)

lemma udp_getconfig_command:
  "udp_command e u (map of_char ''getconfig'' @ r) n = udp_getconfig e u n"
  by (simp add: udp_command_def str_def)

text \<open>
  What the configuration in the flash answers: the server set, or the default one when a word of
  it reads as an erased one.
\<close>

definition config_answer :: "u8 \<Rightarrow> u8 \<Rightarrow> u8 \<Rightarrow> u8 \<Rightarrow> u8 \<Rightarrow> u8 \<Rightarrow> u32 \<Rightarrow> bytes" where
  "config_answer a b c d h l ch =
    (if join4 a b c d = 0xffffffff \<or> ch = 0xffffffff
     then [0xAB, 0x49, 0x50, 123, 59, 96, 233, 0x50, 0x4F, 0x52, 0x54, 0x16, 0x2F, 0xCD, 0x24, 0x0d, 0x0a]
     else [0xAB, 0x49, 0x50, a, b, c, d, 0x50, 0x4F, 0x52, 0x54, h, l, 0xCD, 0x24, 0x0d, 0x0a])"

lemma config_msg_default:
  assumes "flash_laws (hw e)" "length c = 4" "c ! 0 = 0xffffffff \<or> c ! 3 = 0xffffffff"
    "fmem (chip n) = config_mem c m"
  shows "\<exists>n'. config_msg e n = Some ([0xAB, 0x49, 0x50, 123, 59, 96, 233, 0x50, 0x4F, 0x52, 0x54, 0x16, 0x2F,
      0xCD, 0x24, 0x0d, 0x0a], n') \<and> calls n' = calls n"
proof -
  let ?mid = "[0x7B3B60E9, 0x162F, c ! 2, 0 :: u32]"
  have "GetIpFromFlash (hw e) (chip n) = Some (?mid, (chip n) \<lparr> unlocked := True, irq := False,
      fmem := config_mem ?mid (config_mem c m) \<rparr>)"
    using assms(1,3,4) write_config[OF assms(1), where c = ?mid and m = "config_mem c m" and
        f = "(chip n) \<lparr> unlocked := True, irq := True \<rparr>"]
    by (auto simp: GetIp_words Let_def)
  then show ?thesis by (simp add: config_msg_def load_config_def byte_def)
qed

lemma config_msg_eq:
  assumes "server_set [a, b, c, x] h l ch n" "flash_laws (hw e)"
  shows "\<exists>n'. config_msg e n = Some (config_answer a b c x h l ch, n') \<and> calls n' = calls n"
proof -
  obtain ws m where w: "length ws = 4" "ws ! 0 = join4 a b c x" "ws ! 1 = ucast (port_sever n)"
    "ws ! 3 = ch" "fmem (chip n) = config_mem ws m" "port_sever n = push_bit 8 (ucast h) + ucast l"
    using assms(1) by (auto simp: server_set_def)
  have "ws ! 1 \<noteq> 0xffffffff"
  proof
    assume "ws ! 1 = 0xffffffff"
    then have "unat (ucast (port_sever n) :: u32) = 0xffffffff" using w(3) by simp
    moreover have "unat (ucast (port_sever n) :: u32) < 65536" using unat_u16[of "port_sever n"]
      by (simp add: unsigned_ucast_eq take_bit_eq_mod le_less_trans[OF mod_less_eq_dividend])
    ultimately show False by simp
  qed
  note port = this
  show ?thesis
  proof (cases "join4 a b c x = 0xffffffff \<or> ch = 0xffffffff")
    case True
    then show ?thesis
      using config_msg_default[OF assms(2) w(1) _ w(5)] w(2,4) by (simp add: config_answer_def)
  next
    case False
    then have l: "load_config h' n = Some (n \<lparr> flash_net_buf := ws,
        chip := (chip n) \<lparr> unlocked := True, irq := True \<rparr> \<rparr>)" for h'
      using load_config_eq[OF w(1) _ port _ w(5)] w(2,4) by simp
    have "cget ws 0 = Some (join4 a b c x)" "cget ws 1 = Some (ucast (push_bit 8 (ucast h) + ucast l :: u16))"
      using w by simp_all
    then show ?thesis using False by (simp add: config_msg_def l config_answer_def)
  qed
qed

section \<open>The receive callback\<close>

text \<open>What \<open>Tdata\<close> holds when the comparisons run.\<close>

definition seen :: "bytes \<Rightarrow> nat \<Rightarrow> net \<Rightarrow> bytes" where
  "seen payload k n = (if k < 1500 then take k payload @ drop k (Tdata n) else Tdata n)"

definition arrived :: "bytes \<Rightarrow> nat \<Rightarrow> net \<Rightarrow> net" where
  "arrived payload k n =
    call Pbuf_free ((call (Tcp_recved k) n) \<lparr> Tdata := seen payload k n \<rparr>)"

lemma write_out_fields [simp]:
  "gw (write_out b n) = gw n" "chip (write_out b n) = chip n" "Tdata (write_out b n) = Tdata n"
  "calls (write_out b n) = calls n @ [Tcp_write b, Tcp_output]"
  by (simp_all add: write_out_def call_def)

lemma call_fields [simp]:
  "gw (call c n) = gw n" "chip (call c n) = chip n" "Tdata (call c n) = Tdata n"
  "calls (call c n) = calls n @ [c]" "flash_net_buf (call c n) = flash_net_buf n"
  "RX_Buf (call c n) = RX_Buf n" "Tcplink (call c n) = Tcplink n"
  by (simp_all add: call_def)

lemma arrived_fields [simp]:
  "gw (arrived p k n) = gw n" "chip (arrived p k n) = chip n" "Tdata (arrived p k n) = seen p k n"
  "flash_net_buf (arrived p k n) = flash_net_buf n" "in_reset (arrived p k n) = in_reset n"
  by (simp_all add: arrived_def call_def)

lemma reciver_eq:
  assumes "net_inv n" "unat k \<le> length payload"
  shows "tcp_client_reciver e (Some (payload, k)) 0 n =
    tcp_command e (unat k) (arrived payload (unat k) n)"
proof -
  have len: "length (Tdata n) = 1500" using assms(1) by (simp add: net_inv_def)
  have keep: "call c n \<lparr> Tdata := Tdata n \<rparr> = call c n" for c by (simp add: call_def)
  show ?thesis
  proof (cases "unat k < 1500")
    case True
    then have "cread payload 0 (unat k) = Some (take (unat k) payload)"
      "cwrite (Tdata n) 0 (take (unat k) payload) = Some (seen payload (unat k) n)"
      using assms(2) len by (simp_all add: cwrite_def seen_def)
    then show ?thesis using True by (simp add: tcp_client_reciver_def call_def arrived_def Let_def)
  next
    case False
    then show ?thesis by (simp add: tcp_client_reciver_def seen_def keep arrived_def Let_def)
  qed
qed

lemma arrived_inv: "net_inv n \<Longrightarrow> k \<le> length payload \<Longrightarrow> net_inv (arrived payload k n)"
  by (auto simp: net_inv_def arrived_def call_def seen_def)

lemma command_ffaa:
  "strneq (Tdata m) [0xFF, 0xAA] 2 \<Longrightarrow> tcp_command e k m = recv_ffaa k m"
  "\<not> strneq (Tdata m) [0xFF, 0xAA] 2 \<Longrightarrow> strneq (Tdata m) [0xFF, 0xBB] 2 \<Longrightarrow>
   tcp_command e k m = recv_ffbb k m"
  by (simp_all add: tcp_command_def Let_def)

lemma strneq_2: "strneq (a # b # xs) [c, d] 2 \<longleftrightarrow> a = c \<and> (a = 0 \<or> b = d)"
  by (simp add: numeral_2_eq_2)

section \<open>The UDP commands\<close>

definition env_ok :: "net_env \<Rightarrow> bool" where
  "env_ok e \<longleftrightarrow> length (stack e) = 1024 \<and> length (junk e) = 40 \<and> length (DataStr e) = 12 \<and>
     length (TimeStr e) = 9"

definition udp_data :: "net_env \<Rightarrow> udp_in \<Rightarrow> bytes" where
  "udp_data e u = take (unat (u_tot_len u)) (u_payload u) @ drop (unat (u_tot_len u)) (stack e)"

lemma net_inv_reply [simp]: "net_inv (udp_reply u b n) = net_inv n"
  by (simp add: udp_reply_def)

lemma getver_Some:
  assumes "env_ok e"
  shows "\<exists>v. udp_getver e u n = Some (udp_reply u v n)"
  using assms
  by (simp add: env_ok_def udp_getver_def cread_def cwrite_def) blast

lemma set_mode_Some:
  assumes "flash_laws (hw e)" "net_inv n"
  shows "\<exists>n'. udp_set_mode e w u n = Some n' \<and> net_inv n'"
  using assms by (simp add: udp_set_mode_def set_word_Some save_config_Some)

lemma getiap_cases:
  assumes "flash_laws (hw e)" "net_inv n" "env_ok e"
  shows "if u_ps u then udp_getiap e u n = None else \<exists>n'. udp_getiap e u n = Some n' \<and> net_inv n'"
proof -
  obtain n' where n': "load_config (hw e) n = Some n'" "net_inv n'"
    using load_config_Some[OF assms(1,2)] by blast
  then have "length (flash_net_buf n') = 4" by (simp add: net_inv_def)
  moreover have "junk e \<noteq> []" using assms(3) by (auto simp: env_ok_def)
  ultimately show ?thesis using n' by (simp add: udp_getiap_def Let_def cread_def)
qed

lemma starts_udp:
  assumes "length T = 1024"
  shows "strneq T (str ''getid'') 5 \<longleftrightarrow> take 5 T = map of_char ''getid''"
    "strneq T (str ''getrun'') 6 \<longleftrightarrow> take 6 T = map of_char ''getrun''"
    "strneq T (str ''getiap'') 6 \<longleftrightarrow> take 6 T = map of_char ''getiap''"
  using assms by (subst strneq_take; simp add: str_def)+

lemma getiap_first:
  fixes T :: bytes
  assumes "take 6 T = map of_char ''getiap''"
  shows "take 5 T \<noteq> map of_char ''getid''" "take 6 T \<noteq> map of_char ''getrun''"
proof -
  have "take 5 T = take 5 (map of_char ''getiap'')" by (simp add: assms[symmetric] min_def del: list.map)
  then show "take 5 T \<noteq> map of_char ''getid''" by simp
  show "take 6 T \<noteq> map of_char ''getrun''" unfolding assms by simp
qed

lemma udp_command_cases:
  assumes "flash_laws (hw e)" "env_ok e" "net_inv n" "length d = 1024"
  shows "case udp_command e u d n of
      None \<Rightarrow> take 6 d = map of_char ''getiap'' \<and> u_ps u
    | Some n' \<Rightarrow> \<not> (take 6 d = map of_char ''getiap'' \<and> u_ps u) \<and> net_inv n'"
proof -
  note st = starts_udp[OF assms(4)]
  show ?thesis
  proof (cases "take 6 d = map of_char ''getiap''")
    case True
    then have "udp_command e u d n = udp_getiap e u n"
      unfolding udp_command_def st using getiap_first[OF True] by (simp only: True if_False if_True)
    then show ?thesis using getiap_cases[OF assms(1,3,2), of u] True by (auto split: if_splits)
  next
    case False
    obtain n1 b1 where 1: "fill_run n = Some n1" "cread (uid_of n1) 0 12 = Some b1" "net_inv n1"
      using run_msg_Some[OF assms(3), of 12] by auto
    obtain n2 where 2: "set_channel e d n = Some n2" "net_inv n2"
      using set_channel_Some[OF assms(1,3), of d] assms(4) by auto
    obtain n3 where 3: "set_server e d 3 n = Some n3" "net_inv n3"
      using set_server_Some[OF assms(1,3), of d 3] assms(4) by auto
    obtain b4 n4 b5 n5 where 4: "channel_msg e n = Some (b4, n4)" "net_inv n4"
      "config_msg e n = Some (b5, n5)" "net_inv n5"
      using msg_Some[OF assms(1,3)] by auto
    obtain n6 n7 where 5: "udp_set_mode e 0x55555555 u n = Some n6" "net_inv n6"
      "udp_set_mode e 0xAAAAAAAA u n = Some n7" "net_inv n7"
      using set_mode_Some[OF assms(1,3)] by blast
    obtain v where 6: "udp_getver e u n = Some (udp_reply u v n)" using getver_Some[OF assms(2)] by blast
    have "\<exists>n'. udp_getid e u n = Some n' \<and> net_inv n'"
    proof -
      obtain n8 where n8: "put_uid [(0, 0xAB), (1, 0x00), (2, byte 0 (uid_sum e)), (3, byte 1 (uid_sum e)),
          (4, byte 2 (uid_sum e)), (5, 0xCD), (6, 0x24), (7, 0x0d), (8, 0x0a)] n = Some n8" "net_inv n8"
        using put_uid_Some[OF assms(3), of "[(0, 0xAB), (1, 0x00), (2, byte 0 (uid_sum e)),
          (3, byte 1 (uid_sum e)), (4, byte 2 (uid_sum e)), (5, 0xCD), (6, 0x24), (7, 0x0d), (8, 0x0a)]"]
        by auto
      then show ?thesis using net_inv_uid[of n8] by (simp add: udp_getid_def Let_def cread_def)
    qed
    then obtain n9 where 7: "udp_getid e u n = Some n9" "net_inv n9" by blast
    have "junk e \<noteq> []" using assms(2) by (auto simp: env_ok_def)
    then have "\<exists>n'. udp_command e u d n = Some n' \<and> net_inv n'"
      unfolding udp_command_def st
      by (simp only: False if_False)
        (simp add: 1 2 3 4 5 6 7 assms(3) udp_getrun_def udp_getchl_def udp_getconfig_def)
    then show ?thesis using False by auto
  qed
qed


section \<open>What the callbacks leave of the gateway\<close>

text \<open>Every command but the two data packets changes \<open>UID_STM32\<close> at most.\<close>

definition same_gw :: "net \<Rightarrow> net \<Rightarrow> bool" where
  "same_gw n n' \<longleftrightarrow> (\<exists>u. gw n' = (gw n) \<lparr> mbm := (mbm (gw n)) \<lparr> UID_STM32 := u \<rparr> \<rparr>)"

lemma same_gw_eq: "gw n' = gw n \<Longrightarrow> same_gw n n'"
  unfolding same_gw_def by (intro exI[of _ "uid_of n"]) simp

lemma same_gw_out [simp]:
  "same_gw n (write_out b n') = same_gw n n'" "same_gw n (call c n') = same_gw n n'"
  "same_gw n (udp_reply u b n') = same_gw n n'" "same_gw (call c n) n' = same_gw n n'"
  by (simp_all add: same_gw_def write_out_def call_def udp_reply_def)

lemma put_uid_gw: "put_uid l n = Some n' \<Longrightarrow> same_gw n n'"
  by (auto simp: put_uid_def same_gw_def bind_eq_Some_conv)

lemma config_gw:
  "load_config h n = Some n' \<Longrightarrow> gw n' = gw n" "save_config h k n = Some n' \<Longrightarrow> gw n' = gw n"
  "set_word i w n = Some n' \<Longrightarrow> gw n' = gw n"
  by (auto simp: load_config_def save_config_def set_word_def bind_eq_Some_conv)

lemma messages_gw:
  "set_channel e d n = Some n' \<Longrightarrow> gw n' = gw n" "set_server e d k n = Some n' \<Longrightarrow> gw n' = gw n"
  "channel_msg e n = Some (b, n') \<Longrightarrow> gw n' = gw n" "config_msg e n = Some (b, n') \<Longrightarrow> gw n' = gw n"
  by (auto simp: set_channel_def set_server_def channel_msg_def config_msg_def bind_eq_Some_conv Let_def
      dest!: config_gw)

lemma tcp_command_gw:
  assumes "tcp_command e k n = Some n'" "\<not> strneq (Tdata n) [0xFF, 0xAA] 2" "\<not> strneq (Tdata n) [0xFF, 0xBB] 2"
  shows "same_gw n n'"
  using assms(1) unfolding tcp_command_def Let_def
  by (simp only: assms(2,3) if_False)
    (auto simp: fill_run_def recv_getid_def bind_eq_Some_conv Let_def same_gw_eq
      dest!: put_uid_gw messages_gw split: if_splits)

lemma fill_run_gw: "fill_run n = Some n' \<Longrightarrow> same_gw n n'"
  unfolding fill_run_def by (rule put_uid_gw)

lemma udp_handlers_gw:
  "udp_getid e u n = Some n' \<Longrightarrow> same_gw n n'"
  "udp_getrun u n = Some n' \<Longrightarrow> same_gw n n'"
  "udp_set_mode e w u n = Some n' \<Longrightarrow> same_gw n n'"
  "udp_getchl e u n = Some n' \<Longrightarrow> same_gw n n'"
  "udp_getconfig e u n = Some n' \<Longrightarrow> same_gw n n'"
  unfolding udp_getid_def udp_getrun_def udp_set_mode_def udp_getchl_def udp_getconfig_def Let_def
  by (auto simp: bind_eq_Some_conv same_gw_eq dest!: put_uid_gw fill_run_gw messages_gw config_gw)

lemma bind_SomeE:
  assumes "Option.bind x f = Some y"
  obtains v where "x = Some v" "f v = Some y"
  using assms by (cases x) auto

lemma if_SomeE:
  assumes "(if b then x else y) = Some z"
  obtains "x = Some z" | "y = Some z"
  using assms by (cases b) auto

lemma udp_getiap_gw:
  assumes "udp_getiap e u n = Some n'"
  shows "same_gw n n'"
proof -
  from assms obtain m b where "load_config (hw e) n = Some m" "n' = udp_reply u b m"
    unfolding udp_getiap_def Let_def
    by (elim bind_SomeE if_SomeE) (simp_all only: option.inject, blast+)
  then show ?thesis by (simp add: same_gw_eq config_gw)
qed

lemma udp_getver_gw:
  assumes "udp_getver e u n = Some n'"
  shows "same_gw n n'"
proof -
  from assms obtain v where "n' = udp_reply u v n"
    unfolding udp_getver_def by (elim bind_SomeE) (simp only: option.inject, blast)
  then show ?thesis by (simp add: same_gw_eq)
qed

lemma udp_command_gw:
  assumes "udp_command e u d n = Some n'"
  shows "same_gw n n'"
proof -
  have map: "same_gw n n'" if "map_option f x = Some n'" "\<And>m. x = Some m \<Longrightarrow> same_gw n (f m)" for f x
    using that by auto
  have put: "same_gw n (udp_reply u OK_msg m)" if "set_channel e d n = Some m" for m
    using messages_gw(1)[OF that] by (simp add: same_gw_eq)
  have srv: "same_gw n (udp_reply u OK_msg m)" if "set_server e d 3 n = Some m" for m
    using messages_gw(2)[OF that] by (simp add: same_gw_eq)
  have "same_gw n n'" if "Some (n \<lparr> in_reset := True \<rparr>) = Some n' \<or> Some n = Some n'"
    using that by (auto simp: same_gw_eq)
  with assms show ?thesis
    unfolding udp_command_def
    by (elim if_SomeE) (blast intro: map put srv udp_handlers_gw udp_getiap_gw udp_getver_gw)+
qed

text \<open>The gateway part of the invariant.\<close>

definition fw_inv :: "net \<Rightarrow> bool" where
  "fw_inv n \<longleftrightarrow> net_inv n \<and> gw_inv (gw n)"

lemma gw_inv_uid:
  assumes "gw_inv g" "length u = 16"
  shows "gw_inv (g \<lparr> mbm := (mbm g) \<lparr> UID_STM32 := u \<rparr> \<rparr>)"
proof -
  have "mbm_inv ((mbm g) \<lparr> UID_STM32 := u \<rparr>)" if "mbm_inv (mbm g)"
    using that assms(2) by (simp add: mbm_inv_def)
  then show ?thesis using assms(1) by (auto simp: gw_inv_def list_ok_def at_entry_def)
qed

lemma same_gw_inv:
  assumes "fw_inv n" "net_inv n'" "same_gw n n'"
  shows "fw_inv n'"
proof -
  obtain u where u: "gw n' = (gw n) \<lparr> mbm := (mbm (gw n)) \<lparr> UID_STM32 := u \<rparr> \<rparr>"
    using assms(3) by (auto simp: same_gw_def)
  have "length u = 16" using net_inv_uid[OF assms(2)] by (simp add: u)
  then show ?thesis using assms(1,2) gw_inv_uid[of "gw n" u] by (simp add: fw_inv_def u)
qed

text \<open>A poll list that fits: the cleared part of the array is 1024 bytes.\<close>

definition fits :: "(bytes \<times> u32) list \<Rightarrow> bool" where
  "fits es \<longleftrightarrow> length (entries 0 es) < 1024 \<and> (\<forall>e \<in> set es. length (fst e) \<le> 24)"

lemma poll_list_cleared:
  assumes "fits es" "length L = 1400"
  shows "poll_list es (entries 0 es @ drop (length (entries 0 es)) (replicate 1024 0 @ drop 1024 L))"
proof -
  define E where "E = entries 0 es"
  have E: "length E < 1024" "\<forall>e \<in> set es. length (fst e) \<le> 24" using assms(1) by (simp_all add: fits_def E_def)
  define l where "l = E @ drop (length E) (replicate 1024 0 @ drop 1024 L)"
  have "7 * length es \<le> length E" unfolding E_def by (rule entries_length)
  then have n: "length es \<le> 146" using E(1) by simp
  have "l ! length E = 0" using E(1) by (simp add: l_def nth_append)
  moreover have "unat (of_nat (0x41 + length es) :: u8) = 0x41 + length es"
    using n by (intro unat_of_nat_u8) simp
  then have "(of_nat (0x41 + length es) :: u8) \<noteq> 0" by (metis add_is_0 unsigned_0 zero_neq_numeral)
  ultimately show ?thesis
    using n E assms(2) unfolding poll_list_def E_def[symmetric] by (simp add: l_def)
qed

lemma recv_ffbb_list:
  assumes "net_inv m" "fits es" "take (length (entries 0 es)) (drop 2 (Tdata m)) = entries 0 es"
  shows "\<exists>n'. recv_ffbb (length (entries 0 es) + 7) m = Some n' \<and> at_entry 0 es (gw n') \<and> net_inv n' \<and>
    TcpRecvLenth (gw n') = 0 \<and> mbm (gw n') = mbm (gw m) \<and> rf (gw n') = rf (gw m) \<and>
    TcpRecvBuf (gw n') = TcpRecvBuf (gw m) \<and> length (TCP2RS485CMDLIST (gw n')) = 1400"
proof -
  have len: "length (TCP2RS485CMDLIST (gw m)) = 1400" "length (entries 0 es) < 1024"
    using assms(1,2) by (simp_all add: net_inv_def fits_def)
  define l where "l = entries 0 es @ drop (length (entries 0 es)) (replicate 1024 0 @ drop 1024 (TCP2RS485CMDLIST (gw m)))"
  define n' where "n' = m \<lparr> gw := (gw m) \<lparr> TCP2RS485CMDLIST := l, DevIndex := 0, TcpRecvLenth := 0 \<rparr> \<rparr>"
  have r: "recv_ffbb (length (entries 0 es) + 7) m = Some (write_out (line ''FFBBsave'') n')"
    using len recv_ffbb_eq[OF assms(1), of "length (entries 0 es) + 7"] assms(3)
    by (simp add: n'_def l_def)
  have l: "poll_list es l" "length l = 1400" "mbm_inv (mbm (gw m))"
    using poll_list_cleared[OF assms(2) len(1)] len assms(1) by (simp_all add: l_def net_inv_def)
  have "net_inv n'" unfolding n'_def by (rule net_inv_list[OF assms(1) l(2)])
  then show ?thesis
    unfolding r using l by (intro exI[of _ "write_out (line ''FFBBsave'') n'"]) (simp add: at_entry_def n'_def)
qed

text \<open>A packet that does no harm: no fault, and its poll list, if it is one, well formed.\<close>

definition safe_packet :: "bytes \<Rightarrow> nat \<Rightarrow> bool" where
  "safe_packet T k \<longleftrightarrow> \<not> cmd_faults T k \<and>
     (take 2 T = [0xFF, 0xBB] \<longrightarrow> (\<exists>es. fits es \<and> k = length (entries 0 es) + 7 \<and>
        take (length (entries 0 es)) (drop 2 T) = entries 0 es))"

lemma gw_inv_packet:
  assumes "gw_inv g" "length b = 1500" "unat L \<le> 1497"
  shows "gw_inv (g \<lparr> TcpRecvBuf := b, TcpRecvLenth := L \<rparr>)"
proof -
  have "at_entry i es (g \<lparr> TcpRecvBuf := b, TcpRecvLenth := L \<rparr>) = at_entry i es g" for i es
    by (simp add: at_entry_def)
  then show ?thesis using assms by (simp add: gw_inv_def list_ok_def)
qed

lemma tcp_command_inv:
  assumes "flash_laws (hw e)" "fw_inv n" "k < 65536" "safe_packet (Tdata n) k"
  shows "\<exists>n'. tcp_command e k n = Some n' \<and> fw_inv n'"
proof -
  have inv: "net_inv n" "gw_inv (gw n)" using assms(2) by (simp_all add: fw_inv_def)
  have T: "length (Tdata n) = 1500" using inv(1) by (simp add: net_inv_def)
  obtain n' where n': "tcp_command e k n = Some n'" "net_inv n'"
    using tcp_command_cases[OF assms(1) inv(1) assms(3)] assms(4)
    by (auto simp: safe_packet_def split: option.splits)
  have ff: "strneq (Tdata n) [0xFF, 0xAA] 2 \<longleftrightarrow> take 2 (Tdata n) = [0xFF, 0xAA]"
    "strneq (Tdata n) [0xFF, 0xBB] 2 \<longleftrightarrow> take 2 (Tdata n) = [0xFF, 0xBB]"
    using starts_ff[OF T] by simp_all
  consider (aa) "take 2 (Tdata n) = [0xFF, 0xAA]" | (bb) "take 2 (Tdata n) = [0xFF, 0xBB]"
    | (rest) "\<not> strneq (Tdata n) [0xFF, 0xAA] 2" "\<not> strneq (Tdata n) [0xFF, 0xBB] 2"
    using ff by blast
  then have "gw_inv (gw n')"
  proof cases
    case aa
    then have "recv_ffaa k n = Some n'" using n'(1) ff command_ffaa(1)[of n e k] by simp
    moreover have "unat (of_nat (k - 8) :: u32) = k - 8"
      unfolding unat_of_nat using assms(3) by (intro mod_less) simp
    moreover have "length (TcpRecvBuf (gw n)) = 1500" using inv(1) by (simp add: net_inv_def)
    moreover have "8 \<le> k \<and> k \<le> 1505" using calculation(1) recv_ffaa_eq[OF inv(1) assms(3)] by (auto split: if_splits)
    ultimately show ?thesis
      using gw_inv_packet[OF inv(2), of "take (k - 8) (drop 3 (Tdata n)) @ drop (k - 8) (TcpRecvBuf (gw n))"
        "of_nat (k - 8)"] T by (auto simp: recv_ffaa_eq[OF inv(1) assms(3)])
  next
    case bb
    then have r: "recv_ffbb k n = Some n'" using n'(1) ff command_ffaa(2)[of n e k] by simp
    obtain es where es: "fits es" "k = length (entries 0 es) + 7"
      "take (length (entries 0 es)) (drop 2 (Tdata n)) = entries 0 es"
      using assms(4) bb by (auto simp: safe_packet_def)
    from recv_ffbb_list[OF inv(1) es(1,3)] r show ?thesis
      using inv(2) unfolding es(2) by (auto simp: gw_inv_def list_ok_def)
  next
    case rest
    then have "same_gw n n'" using tcp_command_gw[OF n'(1)] by blast
    then show ?thesis using same_gw_inv[OF assms(2) n'(2)] by (simp add: fw_inv_def)
  qed
  then show ?thesis using n' by (simp add: fw_inv_def)
qed

lemma fw_inv_call [simp]: "fw_inv (call c n) = fw_inv n"
  by (simp add: fw_inv_def)

lemma fw_inv_flags [simp]:
  "fw_inv (n \<lparr> Tcplink := b \<rparr>) = fw_inv n" "fw_inv (n \<lparr> in_reset := b \<rparr>) = fw_inv n"
  "fw_inv (n \<lparr> Udplink := b \<rparr>) = fw_inv n" "fw_inv (n \<lparr> TCPCreatTrm := w \<rparr>) = fw_inv n"
  "fw_inv (n \<lparr> retry_TCP_connect := w \<rparr>) = fw_inv n" "fw_inv (n \<lparr> RunSecTimer := w \<rparr>) = fw_inv n"
  "fw_inv (n \<lparr> SystemRunTime := w \<rparr>) = fw_inv n" "fw_inv (n \<lparr> num := v \<rparr>) = fw_inv n"
  "fw_inv (n \<lparr> num2 := v \<rparr>) = fw_inv n"
  by (simp_all add: fw_inv_def net_inv_def)

lemma arrived_fw: "fw_inv n \<Longrightarrow> k \<le> length payload \<Longrightarrow> fw_inv (arrived payload k n)"
  by (simp add: fw_inv_def arrived_inv)

lemma reciver_inv:
  assumes "flash_laws (hw e)" "fw_inv n"
    "case p of None \<Rightarrow> True | Some (payload, k) \<Rightarrow> err = 0 \<longrightarrow>
       unat k \<le> length payload \<and> safe_packet (seen payload (unat k) n) (unat k)"
  shows "\<exists>n'. tcp_client_reciver e p err n = Some n' \<and> fw_inv n'"
proof -
  have inv: "net_inv n" using assms(2) by (simp add: fw_inv_def)
  show ?thesis
  proof (cases p)
    case None
    then show ?thesis using assms(2) by (simp add: tcp_client_reciver_def)
  next
    case (Some q)
    obtain payload k where q: "q = (payload, k)" by (cases q)
    show ?thesis
    proof (cases "err = 0")
      case True
      then have s: "unat k \<le> length payload" "safe_packet (seen payload (unat k) n) (unat k)"
        using assms(3) Some q by simp_all
      from tcp_command_inv[OF assms(1) arrived_fw[OF assms(2) s(1)], of "unat k"] s(2)
      show ?thesis using True Some q reciver_eq[OF inv s(1), of e] by simp
    next
      case False
      then show ?thesis using assms(2) Some q by (simp add: tcp_client_reciver_def)
    qed
  qed
qed

lemma udp_callback_inv:
  assumes "flash_laws (hw e)" "env_ok e" "fw_inv n"
    "case p of None \<Rightarrow> True | Some u \<Rightarrow> unat (u_tot_len u) < 1024 \<longrightarrow>
       unat (u_tot_len u) \<le> length (u_payload u) \<and>
       \<not> (take 6 (udp_data e u) = map of_char ''getiap'' \<and> u_ps u)"
  shows "\<exists>n'. udp_client_callback e p n = Some n' \<and> fw_inv n'"
proof (cases p)
  case None
  then show ?thesis using assms(3) by (simp add: udp_client_callback_def)
next
  case (Some u)
  show ?thesis
  proof (cases "unat (u_tot_len u) < 1024")
    case True
    then have le: "unat (u_tot_len u) \<le> length (u_payload u)"
      and ok: "\<not> (take 6 (udp_data e u) = map of_char ''getiap'' \<and> u_ps u)"
      using assms(4) Some by simp_all
    have st: "length (stack e) = 1024" using assms(2) by (simp add: env_ok_def)
    then have len: "length (udp_data e u) = 1024" using le True by (simp add: udp_data_def)
    have "net_inv (call Pbuf_free n)" using assms(3) by (simp add: fw_inv_def)
    from udp_command_cases[OF assms(1,2) this len, of u] ok obtain n' where
      n': "udp_command e u (udp_data e u) (call Pbuf_free n) = Some n'" "net_inv n'"
      by (auto split: option.splits)
    have "same_gw (call Pbuf_free n) n'" using n'(1) by (rule udp_command_gw)
    then have "fw_inv n'" using same_gw_inv[OF assms(3) n'(2)] by simp
    then show ?thesis
      using n'(1) Some udp_callback_eq[OF True le st, of n] by (simp add: udp_data_def)
  next
    case False
    then show ?thesis using assms(3) Some by (simp add: udp_client_callback_def)
  qed
qed

lemma radio_out:
  assumes "net_inv n" "\<not> Tcplink n" "0 < RxSi4432Len n"
  shows "Si4432SendDataToSever erro n =
    (let n = call (Tcp_write (server_frame (uid_of n) (take (unat (RxSi4432Len n)) (RX_Buf n))))
               (n \<lparr> RxSi4432Len := 0 \<rparr>)
     in Some (if erro = 0 then call Tcp_output n
              else n \<lparr> num2 := (if 50 \<le> num2 n + 1 then 0 else num2 n + 1) \<rparr>))"
proof -
  let ?len = "unat (RxSi4432Len n)"
  define f where "f = take ?len (RX_Buf n)"
  have len: "?len \<le> 64" and f: "length f = ?len" "cread (RX_Buf n) 0 ?len = Some f"
    using assms(1) by (simp_all add: net_inv_def f_def)
  have h: "uid_header (uid_of n) = Some (server_header (uid_of n))"
    by (rule uid_header_Some[OF net_inv_uid[OF assms(1)]])
  let ?h = "server_header (uid_of n)"
  have w: "cwrite (replicate 100 0) 0 ?h = Some (?h @ replicate 87 0)"
    "cwrite (?h @ replicate 87 0) 13 f = Some (?h @ f @ replicate (87 - ?len) 0)"
    using len f(1) by (simp_all add: cwrite_def)
  have p: "puts [(?len + 13, 0xAA), (?len + 13 + 1, 0xFF), (?len + 13 + 2, 0x24),
       (?len + 13 + 3, 0x0D), (?len + 13 + 4, 0x0A)] (?h @ f @ replicate (87 - ?len) 0) =
     Some (server_frame (uid_of n) f @ replicate (82 - ?len) 0)"
    using five_csets[of "?h @ f @ replicate (87 - ?len) 0" "?len + 13" "0xAA" "0xFF" "0x24" "0x0D" "0x0A" Some]
      len f(1) by (simp add: server_frame_def add.commute)
  have "cread (server_frame (uid_of n) f @ replicate (82 - ?len) 0) 0 (?len + 18) =
      Some (server_frame (uid_of n) f)"
    using len f(1) by (simp add: cread_def)
  then show ?thesis
    using assms(2,3) unfolding Si4432SendDataToSever_def Let_def
    by (simp only: h w f(2) p bind.bind_lunit not_False_eq_True simp_thms if_True f_def[symmetric])
qed

lemma net_inv_packet:
  "net_inv m \<Longrightarrow> length b = 1500 \<Longrightarrow>
   net_inv (m \<lparr> gw := (gw m) \<lparr> TcpRecvBuf := b, TcpRecvLenth := L \<rparr> \<rparr>)"
  by (simp add: net_inv_def)

lemma packet_stored:
  assumes "net_inv n" "length d \<le> 1491"
  shows "\<exists>n'. tcp_client_reciver e
      (Some ([0xFF, 0xAA, c] @ d @ [0xAA, 0xFF, 0x24, 0x0D, 0x0A], of_nat (length d + 8))) 0 n = Some n' \<and>
    TcpRecvLenth (gw n') = of_nat (length d) \<and>
    take (length d) (TcpRecvBuf (gw n')) = d \<and> mbm (gw n') = mbm (gw n) \<and>
    in_reset n' = in_reset n \<and> net_inv n'"
proof -
  define p where "p = [0xFF, 0xAA, c] @ d @ [0xAA, 0xFF, 0x24, 0x0D, 0x0A]"
  let ?k = "length d + 8"
  have k: "unat (of_nat ?k :: u16) = ?k" using assms(2) by (intro unat_of_nat_u16) simp
  then have le: "unat (of_nat ?k :: u16) \<le> length p" by (simp add: p_def)
  have s: "seen p ?k n = p @ drop ?k (Tdata n)" using assms(2) by (simp add: seen_def p_def)
  define m where "m = arrived p ?k n"
  have inv: "net_inv m" unfolding m_def by (rule arrived_inv[OF assms(1)]) (simp add: p_def)
  have T: "Tdata m = p @ drop ?k (Tdata n)" by (simp add: m_def s)
  then have "strneq (Tdata m) [0xFF, 0xAA] 2" by (simp add: p_def strneq_2)
  then have "tcp_command e ?k m = recv_ffaa ?k m" by (rule command_ffaa)
  then have "tcp_client_reciver e (Some (p, of_nat ?k)) 0 n = recv_ffaa ?k m"
    unfolding reciver_eq[OF assms(1) le] k m_def .
  moreover have "take (length d) (drop 3 (Tdata m)) = d" by (simp add: T p_def)
  moreover have "length (TcpRecvBuf (gw n)) = 1500" using assms(1) by (simp add: net_inv_def)
  ultimately show ?thesis
    using assms(2) recv_ffaa_eq[OF inv, of ?k] net_inv_packet[OF inv] T unfolding p_def by (simp add: m_def)
qed

section \<open>Properties\<close>

text \<open>
  C17: The receive callback leaves its buffers for exactly these contents of Tdata: an
  FF AA packet shorter than 8 or longer than 1505 bytes, an FF BB packet shorter than 7
  or longer than 1407 bytes, or the command getid, whose answer is longer than
  UID_STM32; in all other cases it returns and keeps the buffers well formed.
\<close>

theorem tcp_packet_faults_iff:
  assumes "net_inv n" "flash_laws (hw e)" "unat k \<le> length payload"
  shows "(tcp_client_reciver e (Some (payload, k)) 0 n = None \<longleftrightarrow>
      cmd_faults (seen payload (unat k) n) (unat k)) \<and>
    (\<forall>n'. tcp_client_reciver e (Some (payload, k)) 0 n = Some n' \<longrightarrow> net_inv n')"
  using tcp_command_cases[OF assms(2) arrived_inv[OF assms(1,3)], of "unat k"]
  unfolding reciver_eq[OF assms(1,3)] by (auto split: option.splits)

text \<open>
  A TCP packet FF AA, a type byte, up to 1491 data bytes and the five bytes of the
  trailer, whole in the first segment, leaves exactly the data bytes in TcpRecvBuf and
  their number in TcpRecvLenth, and does not touch the Modbus master.
\<close>

theorem server_packet_stored:
  assumes "net_inv n" "length d \<le> 1491"
  shows "\<exists>n'. tcp_client_reciver e
      (Some ([0xFF, 0xAA, c] @ d @ [0xAA, 0xFF, 0x24, 0x0D, 0x0A], of_nat (length d + 8))) 0 n = Some n' \<and>
    TcpRecvLenth (gw n') = of_nat (length d) \<and>
    take (length d) (TcpRecvBuf (gw n')) = d \<and> mbm (gw n') = mbm (gw n)"
  using packet_stored[OF assms] by blast

text \<open>
  A packet of 1500 to 1505 bytes is not copied, but the comparisons run all the
  same on the previous packet in Tdata, so an old FF AA packet is sent again with the
  length of the new one.
\<close>

theorem oversize_packet_replays_old_data:
  assumes "net_inv n" "take 2 (Tdata n) = [0xFF, 0xAA]" "1500 \<le> unat k" "unat k \<le> 1505"
    "unat k \<le> length payload"
  shows "\<exists>n'. tcp_client_reciver e (Some (payload, k)) 0 n = Some n' \<and>
    TcpRecvLenth (gw n') = of_nat (unat k - 8) \<and>
    take (unat k - 8) (TcpRecvBuf (gw n')) = take (unat k - 8) (drop 3 (Tdata n))"
proof -
  define m where "m = arrived payload (unat k) n"
  have inv: "net_inv m" unfolding m_def by (rule arrived_inv[OF assms(1,5)])
  have T: "Tdata m = Tdata n" using assms(3) by (simp add: m_def seen_def)
  have len: "length (Tdata n) = 1500" using assms(1) by (simp add: net_inv_def)
  have "strneq (Tdata m) [0xFF, 0xAA] 2"
    using starts_ff[where T = "Tdata m" and b = "0xAA"] assms(2) len by (simp add: T)
  then have "tcp_client_reciver e (Some (payload, k)) 0 n = recv_ffaa (unat k) m"
    unfolding reciver_eq[OF assms(1,5)] m_def[symmetric] by (rule command_ffaa)
  then show ?thesis
    using assms(3,4) recv_ffaa_eq[OF inv, of "unat k"] len by (simp add: T min_def)
qed

text \<open>
  A TCP packet FF BB with a well formed poll list of less than 1024 bytes becomes
  the poll list of the gateway: the next poll starts at its first command, and no packet
  is left to send.
\<close>

theorem poll_list_stored:
  assumes "net_inv n" "length (entries 0 es) < 1024" "\<forall>e \<in> set es. length (fst e) \<le> 24"
  shows "\<exists>n'. tcp_client_reciver e
      (Some ([0xFF, 0xBB] @ entries 0 es @ [0xBB, 0xFF, 0x24, 0x0D, 0x0A],
             of_nat (length (entries 0 es) + 7))) 0 n = Some n' \<and>
    at_entry 0 es (gw n') \<and> TcpRecvLenth (gw n') = 0 \<and> mbm (gw n') = mbm (gw n)"
proof -
  define E where "E = entries 0 es"
  define p where "p = [0xFF, 0xBB] @ E @ [0xBB, 0xFF, 0x24, 0x0D, 0x0A]"
  let ?k = "length E + 7"
  have E: "length E < 1024" using assms(2) by (simp add: E_def)
  then have k: "unat (of_nat ?k :: u16) = ?k" by (intro unat_of_nat_u16) simp
  then have le: "unat (of_nat ?k :: u16) \<le> length p" by (simp add: p_def)
  have s: "seen p ?k n = p @ drop ?k (Tdata n)" using E by (simp add: seen_def p_def)
  define m where "m = arrived p ?k n"
  have inv: "net_inv m" unfolding m_def by (rule arrived_inv[OF assms(1)]) (simp add: p_def)
  have T: "Tdata m = p @ drop ?k (Tdata n)" by (simp add: m_def s)
  have "tcp_command e ?k m = recv_ffbb ?k m"
    by (rule command_ffaa) (simp_all add: T p_def strneq_2)
  then have r: "tcp_client_reciver e (Some (p, of_nat ?k)) 0 n = recv_ffbb ?k m"
    unfolding reciver_eq[OF assms(1) le] k m_def .
  have f: "fits es" using assms(2,3) by (simp add: fits_def)
  have "take (length (entries 0 es)) (drop 2 (Tdata m)) = entries 0 es"
    by (simp add: T p_def E_def)
  from recv_ffbb_list[OF inv f this] show ?thesis
    using r unfolding p_def E_def[symmetric] by (auto simp: m_def)
qed

text \<open>
  C18: The server address and port that a setconfig request over TCP sets are in use at
  once and the interrupts are on again. A getconfig request over UDP that follows, for
  whose answer a packet buffer can be allocated, answers them from the flash - unless
  the address is 255.255.255.255 or the stored channel word reads as erased: then it
  answers the default server 123.59.96.233, port 0x162F.
\<close>

theorem setconfig_then_getconfig:
  assumes "net_inv n" "flash_laws (hw e)" "length (stack e) = 1024"
  shows "\<exists>n1 n2 pre. tcp_client_reciver e (Some (setconfig_req a b c d h l, 20)) 0 n = Some n1 \<and>
    ipaddr_sever n1 = [a, b, c, d] \<and> port_sever n1 = push_bit 8 (ucast h) + ucast l \<and>
    irq (chip n1) \<and>
    udp_client_callback e (Some \<lparr> u_payload = map of_char ''getconfig'', u_tot_len = 9, u_addr = ad,
        u_port = po, u_ps = True \<rparr>) n1 = Some n2 \<and>
    calls n2 = pre @ [Udp_sendto (config_answer a b c d h l (flash_net_buf n ! 3)) ad po, Pbuf_free]"
proof -
  define q where "q = setconfig_req a b c d h l"
  have q: "length q = 20" by (simp add: q_def setconfig_req_def)
  define m where "m = arrived q 20 n"
  have inv: "net_inv m" unfolding m_def by (rule arrived_inv[OF assms(1)]) (simp add: q)
  have T: "Tdata m = q @ drop 20 (Tdata n)" by (simp add: m_def seen_def q)
  have "take 20 (Tdata m) = q" by (simp add: T q)
  then have cmd: "tcp_command e 20 m = map_option (write_out OK_CRLF) (set_server e (Tdata m) 0 m)"
    unfolding q_def by (rule tcp_setconfig)
  let ?ch = "flash_net_buf n ! 3"
  have ch: "flash_net_buf m = flash_net_buf n" by (simp add: m_def)
  obtain n0 where n0: "set_server e (Tdata m) 0 m = Some n0" "server_set [a, b, c, d] h l ?ch n0" "irq (chip n0)"
    using set_server_set[OF assms(2) inv T[unfolded q_def], of 0] unfolding T q_def ch by blast
  define n1 where "n1 = write_out OK_CRLF n0"
  have s1: "server_set [a, b, c, d] h l ?ch (call k n1)" for k
    using n0(2) by (simp add: server_set_def n1_def write_out_def call_def)
  have "tcp_client_reciver e (Some (q, 20)) 0 n = Some n1"
    using reciver_eq[OF assms(1), of 20 q e] q cmd n0(1) by (simp add: n1_def flip: m_def)
  moreover obtain n3 where n3: "config_msg e (call Pbuf_free n1) = Some (config_answer a b c d h l ?ch, n3)"
    "calls n3 = calls (call Pbuf_free n1)"
    using config_msg_eq[OF s1 assms(2)] by blast
  define u where "u = \<lparr> u_payload = map of_char ''getconfig'', u_tot_len = 9, u_addr = ad,
        u_port = po, u_ps = True \<rparr>"
  have len: "unat (u_tot_len u) = 9" "length (u_payload u) = 9" by (simp_all add: u_def)
  then have "udp_client_callback e (Some u) n1 =
      udp_command e u (u_payload u @ drop 9 (stack e)) (call Pbuf_free n1)"
    using udp_callback_eq[of u e n1] assms(3) by simp
  then have "udp_client_callback e (Some u) n1 = udp_getconfig e u (call Pbuf_free n1)"
    unfolding udp_getconfig_command[symmetric, where r = "drop 9 (stack e)"] by (simp add: u_def)
  then have "udp_client_callback e (Some u) n1 = Some (udp_reply u (config_answer a b c d h l ?ch) n3)"
    by (simp add: udp_getconfig_def n3)
  moreover have "server_set [a, b, c, d] h l ?ch n0" "irq (chip n1)" by (simp_all add: n0 n1_def)
  moreover have "ipaddr_sever n1 = ipaddr_sever n0" "port_sever n1 = port_sever n0"
    by (simp_all add: n1_def write_out_def call_def)
  ultimately show ?thesis
    unfolding q_def u_def server_set_def by (auto simp: udp_reply_def)
qed

text \<open>
  The UDP callback leaves its buffers for the command getiap alone (when its answer
  can be allocated); every other datagram keeps the buffers well formed.
\<close>

theorem udp_packet_faults_iff:
  assumes "net_inv n" "flash_laws (hw e)" "env_ok e" "unat (u_tot_len u) \<le> length (u_payload u)"
  shows "(udp_client_callback e (Some u) n = None \<longleftrightarrow>
      unat (u_tot_len u) < 1024 \<and> take 6 (udp_data e u) = map of_char ''getiap'' \<and> u_ps u) \<and>
    (\<forall>n'. udp_client_callback e (Some u) n = Some n' \<longrightarrow> net_inv n')"
proof (cases "unat (u_tot_len u) < 1024")
  case True
  have len: "length (udp_data e u) = 1024"
    using assms(3,4) True by (simp add: udp_data_def env_ok_def)
  have eq: "udp_client_callback e (Some u) n = udp_command e u (udp_data e u) (call Pbuf_free n)"
    using udp_callback_eq[OF True assms(4)] assms(3) by (simp add: env_ok_def udp_data_def)
  have "net_inv (call Pbuf_free n)" using assms(1) by simp
  from udp_command_cases[OF assms(2,3) this len, of u] show ?thesis
    unfolding eq using True by (auto split: option.splits)
next
  case False
  then show ?thesis using assms(1) by (simp add: udp_client_callback_def)
qed

text \<open>
  A frame of the radio is written to the connection between the header with the id
  of the gateway and the trailer, and the receive length is cleared.
\<close>

theorem radio_frame_to_server:
  assumes "net_inv n" "\<not> Tcplink n" "0 < RxSi4432Len n"
  shows "\<exists>n'. Si4432SendDataToSever 0 n = Some n' \<and> RxSi4432Len n' = 0 \<and>
    calls n' = calls n @
      [Tcp_write (server_frame (uid_of n) (take (unat (RxSi4432Len n)) (RX_Buf n))), Tcp_output]"
  using assms by (simp add: radio_out Let_def call_def)

section \<open>Witnesses\<close>

definition sample_env :: net_env where
  "sample_env = \<lparr> hw = nor_flash, uid_sum = 0x010203, meminf = [0], DataStr = replicate 12 0,
     TimeStr = replicate 9 0, stack = replicate 1024 0, junk = replicate 40 0 \<rparr>"

definition sample_net :: net where
  "sample_net = \<lparr> gw = idle_gateway, chip = blank_flash, flash_net_buf = [0, 0, 0, 0],
     ipaddr_sever = [0, 0, 0, 0], port_sever = 0, Tcplink = False, Udplink = True,
     retry_TCP_connect = 0, SystemRunTime = 0, TCPCreatTrm = 0, RunSecTimer = 0, cansent = False,
     Tdata = [0xFF, 0xAA] @ replicate 1498 0, num = 0, num2 = 0, RX_Buf = replicate 64 0,
     RxSi4432Len = 2, in_reset = False, calls = [] \<rparr>"

lemma sample_ready:
  "net_inv sample_net" "flash_laws (hw sample_env)" "env_ok sample_env"
  using idle_gateway_ready(1) nor_flash_laws
  by (simp_all add: net_inv_def sample_net_def sample_env_def env_ok_def idle_gateway_def)

theorem tcp_packet_faults_iff_witness:
  "tcp_client_reciver sample_env (Some ([0x67, 0x65, 0x74, 0x69, 0x64], 5)) 0 sample_net = None"
  using tcp_packet_faults_iff[OF sample_ready(1,2), of 5 "[0x67, 0x65, 0x74, 0x69, 0x64]"]
  by (simp add: cmd_faults_def seen_def)

theorem server_packet_stored_witness:
  "\<exists>n'. tcp_client_reciver sample_env
      (Some ([0xFF, 0xAA, 1, 6, 3, 0xAA, 0xFF, 0x24, 0x0D, 0x0A], 10)) 0 sample_net = Some n' \<and>
    TcpRecvLenth (gw n') = 2 \<and> take 2 (TcpRecvBuf (gw n')) = [6, 3]"
  using server_packet_stored[OF sample_ready(1), of "[6, 3]" sample_env 1] by (auto simp: numeral_2_eq_2)

theorem oversize_packet_replays_old_data_witness:
  "\<exists>n'. tcp_client_reciver sample_env (Some (replicate 1500 7, 1500)) 0 sample_net = Some n' \<and>
    TcpRecvLenth (gw n') = 1492"
  using oversize_packet_replays_old_data[OF sample_ready(1), of 1500 "replicate 1500 7" sample_env]
  by (auto simp: sample_net_def)

theorem poll_list_stored_witness:
  "\<exists>n'. tcp_client_reciver sample_env
      (Some ([0xFF, 0xBB] @ entries 0 one_entry @ [0xBB, 0xFF, 0x24, 0x0D, 0x0A],
             of_nat (length (entries 0 one_entry) + 7))) 0 sample_net = Some n' \<and>
    at_entry 0 one_entry (gw n')"
  using poll_list_stored[OF sample_ready(1), of one_entry sample_env]
  by (auto simp: one_entry_def entry_def)

theorem setconfig_then_getconfig_witness:
  "\<exists>n1 n2 pre. tcp_client_reciver sample_env (Some (setconfig_req 192 168 0 4 8 253, 20)) 0 sample_net = Some n1 \<and>
    ipaddr_sever n1 = [192, 168, 0, 4] \<and> port_sever n1 = 2301 \<and>
    udp_client_callback sample_env (Some \<lparr> u_payload = map of_char ''getconfig'', u_tot_len = 9, u_addr = 1,
        u_port = 2, u_ps = True \<rparr>) n1 = Some n2 \<and>
    calls n2 = pre @ [Udp_sendto [0xAB, 0x49, 0x50, 192, 168, 0, 4, 0x50, 0x4F, 0x52, 0x54, 8, 253,
        0xCD, 0x24, 0x0d, 0x0a] 1 2, Pbuf_free]"
proof -
  have c: "length (stack sample_env) = 1024" "config_answer 192 168 0 4 8 253 (flash_net_buf sample_net ! 3) =
      [0xAB, 0x49, 0x50, 192, 168, 0, 4, 0x50, 0x4F, 0x52, 0x54, 8, 253, 0xCD, 0x24, 0x0d, 0x0a]"
    by (simp_all add: sample_env_def config_answer_def sample_net_def join4_def)
  have p: "push_bit 8 (ucast (8 :: u8)) + ucast (253 :: u8) = (2301 :: u16)" by simp
  show ?thesis
    using setconfig_then_getconfig[OF sample_ready(1,2) c(1), of 192 168 0 4 8 253 1 2] unfolding c(2) p by blast
qed

theorem udp_packet_faults_iff_witness:
  "udp_client_callback sample_env (Some \<lparr> u_payload = map of_char ''getiap'', u_tot_len = 6,
     u_addr = 1, u_port = 2, u_ps = True \<rparr>) sample_net = None"
  using udp_packet_faults_iff[OF sample_ready, of "\<lparr> u_payload = map of_char ''getiap'', u_tot_len = 6,
     u_addr = 1, u_port = 2, u_ps = True \<rparr>"]
  by (simp add: udp_data_def)

theorem radio_frame_to_server_witness:
  "\<exists>n'. Si4432SendDataToSever 0 sample_net = Some n' \<and> RxSi4432Len n' = 0"
  using radio_frame_to_server[OF sample_ready(1)] by (auto simp: sample_net_def)

end
