(* ===== verification/Firmware.thy ===== *)
theory Firmware
  imports TcpUdp
begin

text \<open>
  The whole gateway: the start of \<open>main.c\<close>, one turn of its endless loop with the lwIP
  callbacks that run inside it (the Ethernet is polled from the loop), and the
  interrupts that come between the turns.  A state in which the code has armed the
  watchdog and spins is left alone.
\<close>

datatype lwip_event =
    Received "(bytes \<times> u16) option" int | Conn_err int | Conn_up | Datagram "udp_in option"

datatype lwip_timer = Tcp_tmr | Tftp_tmr | Etharp_tmr | Dhcp_fine_tmr | Dhcp_coarse_tmr

record system =
  netw :: net
  LocalTime :: u32
  iap_mode :: u32
  TCPTimer :: u32
  ARPTimer :: u32
  DHCPfineTimer :: u32
  DHCPcoarseTimer :: u32
  timers_run :: "lwip_timer list"
  macaddress :: bytes

text \<open>
  What a turn takes from outside: whether \<open>tcp_bind\<close> succeeds, the results of the two
  \<open>tcp_write\<close>, the callbacks lwIP makes for the frames read and from \<open>tcp_tmr\<close>.
\<close>

record turn_in =
  bind_ok :: bool
  line_err :: int
  rf_err :: int
  eth_events :: "lwip_event list"
  tmr_events :: "lwip_event list"

record board =
  nenv :: net_env
  module :: si_env

section \<open>lwIP\<close>

fun callback :: "net_env \<Rightarrow> lwip_event \<Rightarrow> net \<Rightarrow> net option" where
  "callback e (Received p err) n = tcp_client_reciver e p err n"
| "callback e (Conn_err err) n = Some (tcp_client_err err n)"
| "callback e Conn_up n = Some (tcp_client_connected n)"
| "callback e (Datagram p) n = udp_client_callback e p n"

fun callbacks :: "net_env \<Rightarrow> lwip_event list \<Rightarrow> net \<Rightarrow> net option" where
  "callbacks e [] n = Some n"
| "callbacks e (ev # evs) n =
    (if in_reset n then Some n else do { n \<leftarrow> callback e ev n; callbacks e evs n })"

text \<open>The timers of \<open>LwIP_Periodic_Handle\<close>, after \<open>ETH_Recive_Poll\<close>.\<close>

definition LwIP_Periodic_Handle :: "net_env \<Rightarrow> turn_in \<Rightarrow> system \<Rightarrow> system option" where
  "LwIP_Periodic_Handle e i s = do {
     n \<leftarrow> callbacks e (eth_events i) (netw s);
     let s = s \<lparr> netw := n \<rparr>;
     let now = LocalTime s;
     s \<leftarrow> (if 250 \<le> now - TCPTimer s then do {
             n \<leftarrow> callbacks e (tmr_events i) (netw s);
             Some (s \<lparr> netw := n, TCPTimer := now, timers_run := timers_run s @ [Tcp_tmr, Tftp_tmr] \<rparr>)
           } else Some s);
     let s = (if 5000 \<le> now - ARPTimer s
              then s \<lparr> ARPTimer := now, timers_run := timers_run s @ [Etharp_tmr] \<rparr> else s);
     let s = (if 500 \<le> now - DHCPfineTimer s
              then s \<lparr> DHCPfineTimer := now, timers_run := timers_run s @ [Dhcp_fine_tmr] \<rparr> else s);
     Some (if 60000 \<le> now - DHCPcoarseTimer s
           then s \<lparr> DHCPcoarseTimer := now, timers_run := timers_run s @ [Dhcp_coarse_tmr] \<rparr> else s)
   }"

section \<open>The loop\<close>

definition radio_of :: "board \<Rightarrow> net \<Rightarrow> radio_env option" where
  "radio_of b n = do { c \<leftarrow> cget (flash_net_buf n) 3; Some \<lparr> si = module b, chl = c \<rparr> }"

definition Si4432Thread :: "board \<Rightarrow> int \<Rightarrow> net \<Rightarrow> net option" where
  "Si4432Thread b erro n = do {
     let r = rf (gw n);
     let (hw, t) = Check_si4432_HW (module b) (pins r);
     let r = r \<lparr> pins := t \<rparr>;
     let n = n \<lparr> gw := (gw n) \<lparr> rf := r \<rparr> \<rparr>;
     if hw then do {
       (leg, buf, r) \<leftarrow> save_rec_data (module b) (RX_Buf n) r;
       let n = n \<lparr> gw := (gw n) \<lparr> rf := r \<rparr>, RX_Buf := buf, RxSi4432Len := leg \<rparr>;
       if 0 < leg then Si4432SendDataToSever erro n else Some n
     } else Some n
   }"

definition modbus_part :: "board \<Rightarrow> u32 \<Rightarrow> net \<Rightarrow> net option" where
  "modbus_part b t n = do {
     x \<leftarrow> radio_of b n;
     g \<leftarrow> ModbusSenttset x (uid_sum (nenv b)) t (gw n);
     (_, m) \<leftarrow> eMBMasterPoll (mbm g);
     Some (n \<lparr> gw := g \<lparr> mbm := m \<rparr> \<rparr>)
   }"

definition main_turn :: "board \<Rightarrow> turn_in \<Rightarrow> system \<Rightarrow> system option" where
  "main_turn b i s =
    (if in_reset (netw s) then Some s else do {
       let n = TcpTestThread (bind_ok i) (LocalTime s) (netw s);
       n \<leftarrow> SendDataToSever (line_err i) n;
       s \<leftarrow> LwIP_Periodic_Handle (nenv b) i (s \<lparr> netw := n \<rparr>);
       if in_reset (netw s) then Some s else do {
         n \<leftarrow> modbus_part b (LocalTime s) (netw s);
         n \<leftarrow> Si4432Thread b (rf_err i) n;
         Some (s \<lparr> netw := n \<rparr>)
       }
     })"

section \<open>Interrupts and start\<close>

definition TIM2_IRQHandler :: "system \<Rightarrow> system" where
  "TIM2_IRQHandler s =
    (let now = LocalTime s + 10 in s \<lparr> LocalTime := now, netw := SynruntimHook now (netw s) \<rparr>)"

definition on_rtu :: "(rtu_master \<Rightarrow> rtu_master) \<Rightarrow> net \<Rightarrow> net" where
  "on_rtu f n = n \<lparr> gw := (gw n) \<lparr> mbm := (mbm (gw n)) \<lparr> rtu := f (rtu (mbm (gw n))) \<rparr> \<rparr> \<rparr>"

text \<open>
  The start: the configuration of the flash, the Modbus master on the second serial port,
  the radio, and the MAC address; the clocks, pins and the network chip are left out.
\<close>

definition System_Setup :: "mb_master \<Rightarrow> mb_master option" where
  "System_Setup m = do {
     (_, m) \<leftarrow> eMBMasterInit MB_RTU 2 9600 MB_PAR_NONE m;
     (_, m) \<leftarrow> eMBMasterEnable m;
     Some m
   }"

definition GetMacAddr :: "net_env \<Rightarrow> bytes" where
  "GetMacAddr e = (let cid = uid_sum e in [0x00, 0x26, byte 0 cid, byte 1 cid, byte 2 cid, byte 3 cid])"

definition main_start :: "board \<Rightarrow> system \<Rightarrow> system option" where
  "main_start b s = do {
     n \<leftarrow> load_config (hw (nenv b)) (netw s);
     ip \<leftarrow> cget (flash_net_buf n) 0;
     pt \<leftarrow> cget (flash_net_buf n) 1;
     md \<leftarrow> cget (flash_net_buf n) 2;
     c \<leftarrow> cget (flash_net_buf n) 3;
     a \<leftarrow> puts [(0, byte 3 ip), (1, byte 2 ip), (2, byte 1 ip), (3, byte 0 ip)] (ipaddr_sever n);
     m \<leftarrow> System_Setup (mbm (gw n));
     let r = rf (gw n);
     let t = spi_seq (module b) rx_data (initsi4432 (module b) c (pins r));
     Some (s \<lparr> netw := n \<lparr> ipaddr_sever := a, port_sever := ucast pt,
                 gw := (gw n) \<lparr> mbm := m, rf := r \<lparr> pins := t \<rparr> \<rparr> \<rparr>,
               iap_mode := md, macaddress := GetMacAddr (nenv b) \<rparr>)
   }"


section \<open>What the callbacks leave of the master\<close>

definition same_mbm :: "net \<Rightarrow> net \<Rightarrow> bool" where
  "same_mbm n n' \<longleftrightarrow> (\<exists>u. mbm (gw n') = (mbm (gw n)) \<lparr> UID_STM32 := u \<rparr>)"

lemma same_mbm_gw: "same_gw n n' \<Longrightarrow> same_mbm n n'"
  by (auto simp: same_gw_def same_mbm_def)

lemma same_mbm_eq: "mbm (gw n') = mbm (gw n) \<Longrightarrow> same_mbm n n'"
  unfolding same_mbm_def by (intro exI[of _ "uid_of n"]) simp

lemma same_mbm_trans: "same_mbm n n' \<Longrightarrow> same_mbm n' n'' \<Longrightarrow> same_mbm n n''"
  by (auto simp: same_mbm_def)

lemma recv_mbm:
  "recv_ffaa k n = Some n' \<Longrightarrow> mbm (gw n') = mbm (gw n)"
  "recv_ffbb k n = Some n' \<Longrightarrow> mbm (gw n') = mbm (gw n)"
  by (auto simp: recv_ffaa_def recv_ffbb_def Let_def bind_eq_Some_conv)

lemma tcp_command_mbm: "tcp_command e k n = Some n' \<Longrightarrow> same_mbm n n'"
  using tcp_command_gw[of e k n n'] command_ffaa[of n e k] recv_mbm[of k n n']
  by (cases "strneq (Tdata n) [0xFF, 0xAA] 2"; cases "strneq (Tdata n) [0xFF, 0xBB] 2")
    (simp_all add: same_mbm_eq same_mbm_gw)

lemma reciver_mbm:
  assumes "tcp_client_reciver e p err n = Some n'"
  shows "same_mbm n n'"
proof -
  obtain m where m: "same_mbm n m"
    "(if \<not> in_reset m \<and> ((err = 0 \<and> p = None) \<or> err < 0)
      then Some (call Tcp_close (m \<lparr> Tcplink := True \<rparr>)) else Some m) = Some n'"
  proof (cases "p = None \<or> err \<noteq> 0")
    case True
    then have "(if \<not> in_reset n \<and> ((err = 0 \<and> p = None) \<or> err < 0)
      then Some (call Tcp_close (n \<lparr> Tcplink := True \<rparr>)) else Some n) = Some n'"
      using assms by (auto simp: tcp_client_reciver_def split: option.splits)
    then show ?thesis using that[of n] by (simp add: same_mbm_eq)
  next
    case False
    then obtain payload k where p: "p = Some (payload, k)" "err = 0" by auto
    then obtain m t where mt: "tcp_command e (unat k) (call Pbuf_free t) = Some m" "mbm (gw t) = mbm (gw n)"
      "(if \<not> in_reset m \<and> ((err = 0 \<and> p = None) \<or> err < 0)
        then Some (call Tcp_close (m \<lparr> Tcplink := True \<rparr>)) else Some m) = Some n'"
      using assms unfolding tcp_client_reciver_def Let_def
      by (auto simp: bind_eq_Some_conv split: if_splits)
    have "same_mbm n m" using tcp_command_mbm[OF mt(1)] mt(2) by (simp add: same_mbm_def)
    then show ?thesis using that[of m] mt(3) by blast
  qed
  then show ?thesis by (auto simp: same_mbm_def split: if_splits)
qed

lemma udp_callback_mbm:
  assumes "udp_client_callback e p n = Some n'"
  shows "same_mbm n n'"
  using assms
  by (auto simp: udp_client_callback_def bind_eq_Some_conv same_mbm_eq same_mbm_gw
      dest!: udp_command_gw split: option.splits if_splits)

lemma callback_mbm: "callback e ev n = Some n' \<Longrightarrow> same_mbm n n'"
  by (cases ev)
    (auto simp: reciver_mbm udp_callback_mbm tcp_client_err_def tcp_client_connected_def same_mbm_eq)

lemma callbacks_mbm: "callbacks e evs n = Some n' \<Longrightarrow> same_mbm n n'"
proof (induction evs arbitrary: n)
  case (Cons ev evs)
  then show ?case
    by (auto simp: bind_eq_Some_conv same_mbm_eq split: if_splits
        intro: same_mbm_trans dest: callback_mbm)
qed (simp add: same_mbm_eq)


section \<open>Events that do no harm\<close>

definition safe_event :: "net_env \<Rightarrow> net \<Rightarrow> lwip_event \<Rightarrow> bool" where
  "safe_event e n ev =
    (case ev of
       Received (Some (payload, k)) err \<Rightarrow> err = 0 \<longrightarrow>
         unat k \<le> length payload \<and> safe_packet (seen payload (unat k) n) (unat k)
     | Datagram (Some u) \<Rightarrow> unat (u_tot_len u) < 1024 \<longrightarrow>
         unat (u_tot_len u) \<le> length (u_payload u) \<and>
         \<not> (take 6 (udp_data e u) = map of_char ''getiap'' \<and> u_ps u)
     | _ \<Rightarrow> True)"

fun events_ok :: "net_env \<Rightarrow> lwip_event list \<Rightarrow> net \<Rightarrow> bool" where
  "events_ok e [] n = True"
| "events_ok e (ev # evs) n =
    (in_reset n \<or> safe_event e n ev \<and>
      (case callback e ev n of None \<Rightarrow> False | Some n' \<Rightarrow> events_ok e evs n'))"

definition env_laws :: "net_env \<Rightarrow> bool" where
  "env_laws e \<longleftrightarrow> flash_laws (hw e) \<and> env_ok e"

lemma callback_inv:
  assumes "env_laws e" "fw_inv n" "safe_event e n ev"
  shows "\<exists>n'. callback e ev n = Some n' \<and> fw_inv n'"
proof (cases ev)
  case (Received p err)
  then show ?thesis
    using assms reciver_inv[of e n err p]
    by (auto simp: env_laws_def safe_event_def split: option.splits)
next
  case (Conn_err err)
  then show ?thesis using assms(2) by (simp add: tcp_client_err_def)
next
  case Conn_up
  then show ?thesis using assms(2) by (simp add: tcp_client_connected_def fw_inv_def net_inv_def call_def)
next
  case (Datagram p)
  then show ?thesis
    using assms udp_callback_inv[of e n p]
    by (auto simp: env_laws_def safe_event_def split: option.splits)
qed

lemma callbacks_inv:
  assumes "env_laws e" "fw_inv n" "events_ok e evs n"
  shows "\<exists>n'. callbacks e evs n = Some n' \<and> fw_inv n'"
  using assms(2,3)
proof (induction evs arbitrary: n)
  case (Cons ev evs)
  show ?case
  proof (cases "in_reset n")
    case False
    then obtain n1 where "callback e ev n = Some n1" "fw_inv n1"
      using callback_inv[OF assms(1) Cons.prems(1), of ev] Cons.prems(2) by auto
    then show ?thesis using Cons.IH[of n1] Cons.prems(2) False by simp
  qed (use Cons.prems in simp)
qed simp

section \<open>The parts of a turn\<close>

lemma TcpTestThread_fw:
  assumes "fw_inv n"
  shows "fw_inv (TcpTestThread ok t n)" "gw (TcpTestThread ok t n) = gw n"
    "in_reset (TcpTestThread ok t n) = in_reset n"
  using assms
  by (simp_all add: TcpTestThread_def Let_def tcp_client_callback_def udp_client_callback_app_def call_def
      fw_inv_def net_inv_def)

lemma fw_inv_sent:
  "fw_inv n \<Longrightarrow> fw_inv (n \<lparr> gw := (gw n) \<lparr> mbm := (mbm (gw n)) \<lparr> Mb2TcpLenth := 0 \<rparr> \<rparr> \<rparr>)"
  by (auto simp: fw_inv_def net_inv_def gw_inv_def mbm_inv_def list_ok_def at_entry_def)

text \<open>What the sender does: the frame, if there is one and the connection is up.\<close>

lemma SendDataToSever_eq:
  assumes "fw_inv n"
  defines "L \<equiv> Mb2TcpLenth (mbm (gw n))"
  defines "n0 \<equiv> n \<lparr> gw := (gw n) \<lparr> mbm := (mbm (gw n)) \<lparr> Mb2TcpLenth := 0 \<rparr> \<rparr> \<rparr>"
  shows "SendDataToSever erro n = Some
    (if L = 0 then n else if Tcplink n then n0 else
       let n1 = call (Tcp_write (take (unat L) (Mb2TcpBuff (mbm (gw n))))) n0
       in if erro = 0 then call Tcp_output n1
          else n1 \<lparr> num := (if 50 \<le> num n1 + 1 then 0 else num n1 + 1) \<rparr>)"
proof -
  have le: "unat L \<le> 256" and len: "length (Mb2TcpBuff (mbm (gw n))) = 256"
    using assms(1) by (simp_all add: fw_inv_def gw_inv_def mbm_inv_def L_def)
  have u: "unat (ucast L :: u16) = unat L" using le by (simp add: unsigned_ucast_eq take_bit_nat_eq_self)
  have pos: "0 < L \<longleftrightarrow> L \<noteq> 0" by (simp add: word_neq_0_conv)
  show ?thesis
    using le len u unfolding SendDataToSever_def Let_def L_def[symmetric] n0_def[symmetric] pos
    by (auto simp: n0_def call_def)
qed

lemma SendDataToSever_fw:
  assumes "fw_inv n"
  shows "\<exists>n'. SendDataToSever erro n = Some n' \<and> fw_inv n' \<and> in_reset n' = in_reset n \<and>
    rtu (mbm (gw n')) = rtu (mbm (gw n)) \<and> usLength (mbm (gw n')) = usLength (mbm (gw n)) \<and>
    eMBState (mbm (gw n')) = eMBState (mbm (gw n))"
  using assms fw_inv_sent[OF assms]
  by (simp add: SendDataToSever_eq[OF assms] Let_def) (simp add: call_def fw_inv_def net_inv_def)


lemma execute_length:
  assumes "execute_frame s = Some s'" "length (Mb2TcpBuff s) = 256" "unat (Mb2TcpLenth s) \<le> 256"
  shows "unat (Mb2TcpLenth s') \<le> 256"
proof (cases "usLength s < 256")
  case True
  from assms(1) have b: "unat (usLength s) < 239 \<and> Mb2TcpLenth s' = ucast (usLength s) + 18"
    unfolding execute_frame_def Let_def if_P[OF True]
    by (elim bind_SomeE) (auto simp: cset_Some dest!: cwrite_length simp: assms(2))
  have "unat (ucast (usLength s) + 18 :: u32) = unat (usLength s) + 18"
  proof -
    have "take_bit 32 (unat (usLength s)) = unat (usLength s)" using b by (intro take_bit_nat_eq_self) simp
    then show ?thesis using b by (simp add: unat_word_ariths unsigned_ucast_eq)
  qed
  then show ?thesis using b by simp
next
  case False
  then show ?thesis using assms(1,3) by (simp add: execute_frame_def)
qed

lemma poll_length:
  assumes "eMBMasterPoll s = Some (c, s')" "length (Mb2TcpBuff s) = 256" "unat (Mb2TcpLenth s) \<le> 256"
  shows "unat (Mb2TcpLenth s') \<le> 256"
  using assms execute_length
  by (auto simp: eMBMasterPoll_def Let_def case_prod_beta split: if_splits option.splits
      eMBMasterEventType.splits)

lemma modbus_part_fw:
  assumes "fw_inv n"
  shows "if poll_overflows (mbm (gw n)) then modbus_part b t n = None
    else \<exists>n'. modbus_part b t n = Some n' \<and> fw_inv n'"
proof -
  have "length (flash_net_buf n) = 4" using assms(1) by (simp add: fw_inv_def net_inv_def)
  then have x: "radio_of b n = Some \<lparr> si = module b, chl = flash_net_buf n ! 3 \<rparr>" (is "_ = Some ?x")
    by (simp add: radio_of_def)
  have "gw_inv (gw n)" using assms(1) by (simp add: fw_inv_def)
  from Senttset_inv[OF this, of ?x "uid_sum (nenv b)" t] obtain g where
    g: "ModbusSenttset ?x (uid_sum (nenv b)) t (gw n) = Some g" "gw_inv g"
      "queue (rtu (mbm g)) = queue (rtu (mbm (gw n)))" "usLength (mbm g) = usLength (mbm (gw n))"
      "eMBState (mbm g) = eMBState (mbm (gw n))"
    by blast
  have inv: "mbm_inv (mbm g)" "unat (Mb2TcpLenth (mbm g)) \<le> 256" using g(2) by (simp_all add: gw_inv_def)
  have po: "poll_overflows (mbm g) \<longleftrightarrow> poll_overflows (mbm (gw n))"
    using g(3-5) by (simp add: poll_overflows_def queued_def)
  show ?thesis
  proof (cases "poll_overflows (mbm g)")
    case True
    then have "eMBMasterPoll (mbm g) = None" using eMBMasterPoll_inv[OF inv(1)] by (auto split: option.splits)
    then show ?thesis using True po by (simp add: modbus_part_def x g(1))
  next
    case False
  then obtain c m where m: "eMBMasterPoll (mbm g) = Some (c, m)" "mbm_inv m"
    using eMBMasterPoll_inv[OF inv(1)] by (auto split: option.splits)
  have "unat (Mb2TcpLenth m) \<le> 256"
    using poll_length[OF m(1)] inv by (simp add: mbm_inv_def)
  then have "gw_inv (g \<lparr> mbm := m \<rparr>)"
    using g(2) m(2) by (auto simp: gw_inv_def list_ok_def at_entry_def)
  then have "fw_inv (n \<lparr> gw := g \<lparr> mbm := m \<rparr> \<rparr>)"
    using assms(1) by (simp add: fw_inv_def net_inv_def gw_inv_def)
  then show ?thesis using False po by (simp add: modbus_part_def x g(1) m(1))
  qed
qed

text \<open>
  What the module drives on its lines is not known, so neither is the length it reports:
  the 64 bytes of \<open>RX_Buf\<close> are left exactly when the module is found, says that it
  received something and reports more than them.
\<close>

definition radio_faults :: "board \<Rightarrow> net \<Rightarrow> bool" where
  "radio_faults b n \<longleftrightarrow>
    (let (found, t) = Check_si4432_HW (module b) (pins (rf (gw n)))
     in found \<and> \<not> NIRQ (module b) t \<and> 64 < unat (rx_len (module b) t))"

lemma Check_released: "released t \<Longrightarrow> released (snd (Check_si4432_HW e t))"
  using transfers_frame(2)[of t "access (0, 0)"]
  by (simp add: Check_si4432_HW_def case_prod_beta Let_def access_def)

definition with_rf :: "radio \<Rightarrow> net \<Rightarrow> net" where
  "with_rf r n = n \<lparr> gw := (gw n) \<lparr> rf := r \<rparr> \<rparr>"

lemma with_rf_fw: "fw_inv n \<Longrightarrow> released (pins r) \<Longrightarrow> fw_inv (with_rf r n)"
  by (auto simp: with_rf_def fw_inv_def net_inv_def gw_inv_def list_ok_def at_entry_def)

lemma with_rf_same [simp]:
  "mbm (gw (with_rf r n)) = mbm (gw n)" "in_reset (with_rf r n) = in_reset n"
  "Tcplink (with_rf r n) = Tcplink n" "calls (with_rf r n) = calls n" "RX_Buf (with_rf r n) = RX_Buf n"
  by (simp_all add: with_rf_def)

lemma radio_out_fw:
  assumes "fw_inv n" "length buf = 64" "unat leg \<le> 64"
  shows "\<exists>n'. (if 0 < leg then Si4432SendDataToSever erro (n \<lparr> RX_Buf := buf, RxSi4432Len := leg \<rparr>)
      else Some (n \<lparr> RX_Buf := buf, RxSi4432Len := leg \<rparr>)) = Some n' \<and> fw_inv n' \<and>
      mbm (gw n') = mbm (gw n)"
proof -
  let ?n = "n \<lparr> RX_Buf := buf, RxSi4432Len := leg \<rparr>"
  have fw: "fw_inv ?n" "fw_inv (?n \<lparr> RxSi4432Len := 0 \<rparr>)"
    using assms by (simp_all add: fw_inv_def net_inv_def)
  show ?thesis
  proof (cases "0 < leg \<and> \<not> Tcplink n")
    case True
    then have "0 < RxSi4432Len ?n" "\<not> Tcplink ?n" by simp_all
    moreover have "net_inv ?n" using fw(1) by (simp add: fw_inv_def)
    ultimately show ?thesis
      using True fw(2) radio_out[of ?n erro] by (simp add: Let_def)
  next
    case False
    then show ?thesis using fw by (auto simp: Si4432SendDataToSever_def Let_def)
  qed
qed

lemma Si4432Thread_fw:
  assumes "fw_inv n"
  shows "if radio_faults b n then Si4432Thread b erro n = None
    else \<exists>n'. Si4432Thread b erro n = Some n' \<and> fw_inv n' \<and> mbm (gw n') = mbm (gw n)"
proof -
  define t where "t = snd (Check_si4432_HW (module b) (pins (rf (gw n))))"
  define r where "r = (rf (gw n)) \<lparr> pins := t \<rparr>"
  have rel: "released (pins r)"
    using assms Check_released[of "pins (rf (gw n))"] by (simp add: fw_inv_def gw_inv_def r_def t_def)
  have fw: "fw_inv (with_rf r n)" using assms rel by (rule with_rf_fw)
  have buf: "length (RX_Buf n) = 64" using assms by (simp add: fw_inv_def net_inv_def)
  have faults: "radio_faults b n \<longleftrightarrow> fst (Check_si4432_HW (module b) (pins (rf (gw n)))) \<and>
      \<not> NIRQ (module b) (pins r) \<and> 64 < unat (rx_len (module b) (pins r))"
    by (simp add: radio_faults_def case_prod_beta Let_def r_def t_def)
  show ?thesis
  proof (cases "fst (Check_si4432_HW (module b) (pins (rf (gw n))))")
    case False
    then have "Si4432Thread b erro n = Some (with_rf r n)"
      by (simp add: Si4432Thread_def case_prod_beta Let_def with_rf_def r_def t_def)
    then show ?thesis using fw faults False by simp
  next
    case found: True
    have eq: "Si4432Thread b erro n = Option.bind (save_rec_data (module b) (RX_Buf n) r) (\<lambda>(leg, buf, r').
      if 0 < leg then Si4432SendDataToSever erro ((with_rf r' n) \<lparr> RX_Buf := buf, RxSi4432Len := leg \<rparr>)
      else Some ((with_rf r' n) \<lparr> RX_Buf := buf, RxSi4432Len := leg \<rparr>))"
      using found unfolding with_rf_def
      by (simp add: Si4432Thread_def case_prod_beta Let_def r_def[symmetric] t_def[symmetric])
    have "if radio_faults b n then save_rec_data (module b) (RX_Buf n) r = None
      else \<exists>leg buf r'. save_rec_data (module b) (RX_Buf n) r = Some (leg, buf, r') \<and> length buf = 64 \<and>
        unat leg \<le> 64 \<and> released (pins r')"
    proof (cases "NIRQ (module b) (pins r)")
      case True
      then show ?thesis using buf rel faults by (simp add: save_rec_data_def)
    next
      case False
      then have f: "radio_faults b n \<longleftrightarrow> 64 < unat (rx_len (module b) (pins r))" using faults found by simp
      show ?thesis
        using save_rec_data_eq[OF False rel, of "RX_Buf n"] buf unfolding f by (auto simp: rx_bytes_def)
    qed
    note s = this
    show ?thesis
    proof (cases "radio_faults b n")
      case True
      then show ?thesis using s eq by simp
    next
      case False
      then obtain leg buf' r' where s: "save_rec_data (module b) (RX_Buf n) r = Some (leg, buf', r')"
        "length buf' = 64" "unat leg \<le> 64" "released (pins r')" using s by auto
      have "fw_inv (with_rf r' n)" using assms s(4) by (rule with_rf_fw)
      note out = radio_out_fw[OF this s(2,3), of erro]
      show ?thesis using False out eq s(1) by simp
    qed
  qed
qed


section \<open>A turn and a run\<close>

definition turn_begin :: "turn_in \<Rightarrow> system \<Rightarrow> net option" where
  "turn_begin i s = SendDataToSever (line_err i) (TcpTestThread (bind_ok i) (LocalTime s) (netw s))"

text \<open>The events of a turn are harmless when none of them does harm where it occurs.\<close>

definition harmless :: "board \<Rightarrow> turn_in \<Rightarrow> system \<Rightarrow> bool" where
  "harmless b i s \<longleftrightarrow> in_reset (netw s) \<or>
    (case turn_begin i s of None \<Rightarrow> False | Some n0 \<Rightarrow> events_ok (nenv b) (eth_events i) n0 \<and>
      (case callbacks (nenv b) (eth_events i) n0 of None \<Rightarrow> False | Some n1 \<Rightarrow>
        250 \<le> LocalTime s - TCPTimer s \<longrightarrow> events_ok (nenv b) (tmr_events i) n1))"

text \<open>
  The other two ways to leave a buffer in a turn, after its events: a reply waits that is
  too long for \<open>Mb2TcpBuff\<close> with its header and trailer, or the radio reports more bytes
  than \<open>RX_Buf\<close> has.
\<close>

definition turn_events :: "board \<Rightarrow> turn_in \<Rightarrow> system \<Rightarrow> system option" where
  "turn_events b i s = do { n \<leftarrow> turn_begin i s; LwIP_Periodic_Handle (nenv b) i (s \<lparr> netw := n \<rparr>) }"

definition reply_too_long :: "board \<Rightarrow> turn_in \<Rightarrow> system \<Rightarrow> bool" where
  "reply_too_long b i s \<longleftrightarrow> \<not> in_reset (netw s) \<and>
    (case turn_events b i s of None \<Rightarrow> False
     | Some s \<Rightarrow> \<not> in_reset (netw s) \<and> poll_overflows (mbm (gw (netw s))))"

definition radio_overrun :: "board \<Rightarrow> turn_in \<Rightarrow> system \<Rightarrow> bool" where
  "radio_overrun b i s \<longleftrightarrow> \<not> in_reset (netw s) \<and>
    (case turn_events b i s of None \<Rightarrow> False
     | Some s \<Rightarrow> \<not> in_reset (netw s) \<and>
        (case modbus_part b (LocalTime s) (netw s) of None \<Rightarrow> False | Some n \<Rightarrow> radio_faults b n))"

lemma main_turn_parts:
  "main_turn b i s = (if in_reset (netw s) then Some s else do {
     s \<leftarrow> turn_events b i s;
     if in_reset (netw s) then Some s else do {
       n \<leftarrow> modbus_part b (LocalTime s) (netw s);
       n \<leftarrow> Si4432Thread b (rf_err i) n;
       Some (s \<lparr> netw := n \<rparr>)
     }
   })"
  by (simp add: main_turn_def turn_events_def turn_begin_def Let_def)

lemma LwIP_fw:
  assumes "env_laws e" "fw_inv (netw s)" "events_ok e (eth_events i) (netw s)"
    "\<And>n. callbacks e (eth_events i) (netw s) = Some n \<Longrightarrow> 250 \<le> LocalTime s - TCPTimer s \<Longrightarrow>
      events_ok e (tmr_events i) n"
  shows "\<exists>s'. LwIP_Periodic_Handle e i s = Some s' \<and> fw_inv (netw s') \<and> LocalTime s' = LocalTime s \<and>
    same_mbm (netw s) (netw s')"
proof -
  obtain n1 where n1: "callbacks e (eth_events i) (netw s) = Some n1" "fw_inv n1"
    using callbacks_inv[OF assms(1-3)] by blast
  have m1: "same_mbm (netw s) n1" using callbacks_mbm[OF n1(1)] .
  show ?thesis
  proof (cases "250 \<le> LocalTime s - TCPTimer s")
    case True
    then obtain n2 where n2: "callbacks e (tmr_events i) n1 = Some n2" "fw_inv n2"
      using callbacks_inv[OF assms(1) n1(2)] assms(4)[OF n1(1)] by blast
    have "same_mbm (netw s) n2" using same_mbm_trans[OF m1 callbacks_mbm[OF n2(1)]] .
    then show ?thesis using n1 n2 True by (simp add: LwIP_Periodic_Handle_def Let_def)
  next
    case False
    then show ?thesis using n1 m1 by (simp add: LwIP_Periodic_Handle_def Let_def)
  qed
qed

lemma turn_events_fw:
  assumes "env_laws (nenv b)" "fw_inv (netw s)" "harmless b i s" "\<not> in_reset (netw s)"
  shows "\<exists>s1. turn_events b i s = Some s1 \<and> fw_inv (netw s1) \<and> LocalTime s1 = LocalTime s \<and>
    (poll_overflows (mbm (gw (netw s1))) \<longleftrightarrow> poll_overflows (mbm (gw (netw s))))"
proof -
  let ?n = "TcpTestThread (bind_ok i) (LocalTime s) (netw s)"
  note T = TcpTestThread_fw[OF assms(2), of "bind_ok i" "LocalTime s"]
  obtain n0 where n0: "SendDataToSever (line_err i) ?n = Some n0" "fw_inv n0"
    "rtu (mbm (gw n0)) = rtu (mbm (gw ?n))" "usLength (mbm (gw n0)) = usLength (mbm (gw ?n))"
    "eMBState (mbm (gw n0)) = eMBState (mbm (gw ?n))"
    using SendDataToSever_fw[OF T(1)] by blast
  define s0 where "s0 = s \<lparr> netw := n0 \<rparr>"
  have ok: "turn_begin i s = Some n0" using n0(1) by (simp add: turn_begin_def)
  have s0: "fw_inv (netw s0)" "events_ok (nenv b) (eth_events i) (netw s0)"
    "\<And>n. callbacks (nenv b) (eth_events i) (netw s0) = Some n \<Longrightarrow> 250 \<le> LocalTime s0 - TCPTimer s0 \<Longrightarrow>
      events_ok (nenv b) (tmr_events i) n"
    using n0(2) assms(3,4) ok by (auto simp: s0_def harmless_def split: option.splits)
  obtain s1 where s1: "LwIP_Periodic_Handle (nenv b) i s0 = Some s1" "fw_inv (netw s1)"
    "LocalTime s1 = LocalTime s0" "same_mbm (netw s0) (netw s1)"
    using LwIP_fw[OF assms(1) s0] by blast
  have "poll_overflows (mbm (gw (netw s1))) \<longleftrightarrow> poll_overflows (mbm (gw (netw s)))"
    using n0(3-5) T(2) s1(4) by (auto simp: poll_overflows_def queued_def same_mbm_def s0_def)
  then show ?thesis using ok s1 by (simp add: turn_events_def s0_def)
qed

lemma main_turn_fw:
  assumes "env_laws (nenv b)" "fw_inv (netw s)" "harmless b i s"
  shows "if reply_too_long b i s \<or> radio_overrun b i s then main_turn b i s = None
    else \<exists>s'. main_turn b i s = Some s' \<and> fw_inv (netw s')"
proof (cases "in_reset (netw s)")
  case True
  then show ?thesis using assms(2) by (simp add: main_turn_def reply_too_long_def radio_overrun_def)
next
  case False
  obtain s1 where s1: "turn_events b i s = Some s1" "fw_inv (netw s1)"
    using turn_events_fw[OF assms False] by blast
  note turn = main_turn_parts[of b i s, unfolded s1(1)]
  show ?thesis
  proof (cases "in_reset (netw s1)")
    case True
    then show ?thesis using s1 False by (simp add: turn reply_too_long_def radio_overrun_def)
  next
    case nr: False
    have long: "reply_too_long b i s \<longleftrightarrow> poll_overflows (mbm (gw (netw s1)))"
      using False nr s1(1) by (simp add: reply_too_long_def)
    show ?thesis
    proof (cases "poll_overflows (mbm (gw (netw s1)))")
      case True
      then show ?thesis
        using modbus_part_fw[OF s1(2), of b "LocalTime s1"] nr False long by (simp add: turn)
    next
      case po: False
      then obtain n2 where n2: "modbus_part b (LocalTime s1) (netw s1) = Some n2" "fw_inv n2"
        using modbus_part_fw[OF s1(2), of b "LocalTime s1"] by auto
      have "radio_overrun b i s \<longleftrightarrow> radio_faults b n2"
        using False nr s1(1) n2(1) by (simp add: radio_overrun_def)
      then show ?thesis
        using Si4432Thread_fw[OF n2(2), of b "rf_err i"] po long nr False by (auto simp: turn n2(1))
    qed
  qed
qed

text \<open>Whether a reply too long waits is known before the turn.\<close>

lemma reply_too_long_waits:
  assumes "env_laws (nenv b)" "fw_inv (netw s)" "harmless b i s" "reply_too_long b i s"
  shows "poll_overflows (mbm (gw (netw s)))"
proof -
  have "\<not> in_reset (netw s)" using assms(4) by (simp add: reply_too_long_def)
  then show ?thesis
    using turn_events_fw[OF assms(1-3)] assms(4) by (auto simp: reply_too_long_def)
qed

text \<open>
  A run: turns of the loop, timer ticks and the interrupts of the serial port and its
  timer, in any order.
\<close>

datatype fw_step = Turn turn_in | Tick | Usart "u8 option" bool | Rtu_timer bool

definition set_rtu :: "rtu_master \<Rightarrow> system \<Rightarrow> system" where
  "set_rtu r s = s \<lparr> netw := on_rtu (\<lambda>_. r) (netw s) \<rparr>"

fun perform :: "board \<Rightarrow> fw_step \<Rightarrow> system \<Rightarrow> system option" where
  "perform b (Turn i) s = main_turn b i s"
| "perform b Tick s = Some (TIM2_IRQHandler s)"
| "perform b (Usart rxne txe) s =
     map_option (\<lambda>r. set_rtu r s) (USART2_IRQHandler rxne txe (rtu (mbm (gw (netw s)))))"
| "perform b (Rtu_timer u) s = Some (set_rtu (TIM3_IRQHandler u (rtu (mbm (gw (netw s))))) s)"

fun step_ok :: "board \<Rightarrow> fw_step \<Rightarrow> system \<Rightarrow> bool" where
  "step_ok b (Turn i) s = harmless b i s"
| "step_ok b _ s = True"

inductive run :: "board \<Rightarrow> system \<Rightarrow> system \<Rightarrow> bool" for b where
  run_start: "run b s s"
| run_step: "run b s t \<Longrightarrow> step_ok b l t \<Longrightarrow> perform b l t = Some u \<Longrightarrow> run b s u"

lemma fw_inv_rtu:
  assumes "fw_inv n" "mbm_inv ((mbm (gw n)) \<lparr> rtu := r \<rparr>)"
  shows "fw_inv (on_rtu (\<lambda>_. r) n)"
  using assms by (auto simp: on_rtu_def fw_inv_def net_inv_def gw_inv_def list_ok_def at_entry_def)

fun overruns :: "board \<Rightarrow> fw_step \<Rightarrow> system \<Rightarrow> bool" where
  "overruns b (Turn i) s = (reply_too_long b i s \<or> radio_overrun b i s)"
| "overruns b _ s = False"

lemma perform_inv:
  assumes "env_laws (nenv b)" "fw_inv (netw s)" "step_ok b l s"
  shows "if overruns b l s then perform b l s = None else \<exists>s'. perform b l s = Some s' \<and> fw_inv (netw s')"
proof (cases l)
  case (Turn i)
  then show ?thesis using assms main_turn_fw[OF assms(1,2)] by simp
next
  case Tick
  then show ?thesis using assms(2) by (simp add: TIM2_IRQHandler_def Let_def SynruntimHook_def)
next
  case (Usart rxne txe)
  have "mbm_inv (mbm (gw (netw s)))" using assms(2) by (simp add: fw_inv_def gw_inv_def)
  from USART2_mbm[OF this, of rxne txe] show ?thesis
    using Usart fw_inv_rtu[OF assms(2)] by (auto simp: set_rtu_def)
next
  case (Rtu_timer u)
  have "mbm_inv (mbm (gw (netw s)))" using assms(2) by (simp add: fw_inv_def gw_inv_def)
  from TIM3_mbm[OF this, of u] show ?thesis
    using Rtu_timer fw_inv_rtu[OF assms(2)] by (simp add: set_rtu_def)
qed

lemma run_inv: "run b s t \<Longrightarrow> env_laws (nenv b) \<Longrightarrow> fw_inv (netw s) \<Longrightarrow> fw_inv (netw t)"
proof (induction rule: run.induct)
  case (run_step s t l u)
  then show ?case using perform_inv[of b t l] by (auto split: if_splits)
qed


section \<open>Start\<close>

lemma System_Setup_inv:
  assumes "mbm_inv m"
  shows "\<exists>m'. System_Setup m = Some m' \<and> mbm_inv m' \<and> eMBState m' = STATE_ENABLED \<and>
    eRcvState (rtu m') = STATE_M_RX_INIT \<and> usart_baud (rtu m') = 9600 \<and>
    Mb2TcpLenth m' = Mb2TcpLenth m"
proof -
  have "t35_50us 9600 = Some 80" by (simp add: t35_50us_def)
  then show ?thesis
    using assms
    by (simp add: System_Setup_def eMBMasterInit_def eMBMasterRTUInit_def xMBMasterPortSerialInit_def
        xMBMasterPortTimersInit_def xMBMasterPortEventInit_def eMBMasterEnable_def eMBMasterRTUStart_def
        mbm_inv_def rtu_inv_def rtu_defs queued_def Let_def)
qed

lemma initsi_released: "released t \<Longrightarrow> released (initsi4432 e c t)"
proof -
  assume "released t"
  then have "released (t @ [Port_clocks, Gpio_Init CHR ''A'' [4, 5, 7] Out_PP, Gpio_Init CHR ''A'' [6] IPU,
            Gpio_Init CHR ''C'' [4] IPD, Gpio_Init CHR ''C'' [5] Out_PP,
            Delay_init 72, Delay_us 10000, SDN False, Delay_us 200000])"
    by (simp add: released_def slave_of_def)
  then show ?thesis unfolding initsi4432_def by (rule transfers_seq(2))
qed

lemma main_start_inv:
  assumes "env_laws (nenv b)" "fw_inv (netw s)"
  shows "\<exists>s'. main_start b s = Some s' \<and> fw_inv (netw s') \<and>
    eMBState (mbm (gw (netw s'))) = STATE_ENABLED \<and> usart_baud (rtu (mbm (gw (netw s')))) = 9600 \<and>
    (let ip = flash_net_buf (netw s') ! 0 in
      ipaddr_sever (netw s') = [byte 3 ip, byte 2 ip, byte 1 ip, byte 0 ip]) \<and>
    port_sever (netw s') = ucast (flash_net_buf (netw s') ! 1)"
proof -
  have laws: "flash_laws (hw (nenv b))" and inv: "net_inv (netw s)"
    using assms by (simp_all add: env_laws_def fw_inv_def)
  obtain n where n: "load_config (hw (nenv b)) (netw s) = Some n" "net_inv n"
    using load_config_Some[OF laws inv] by blast
  have gw: "gw n = gw (netw s)" using config_gw(1)[OF n(1)] .
  have len: "length (flash_net_buf n) = 4" "length (ipaddr_sever n) = 4"
    using n(2) by (simp_all add: net_inv_def)
  obtain m where m: "System_Setup (mbm (gw n)) = Some m" "mbm_inv m" "eMBState m = STATE_ENABLED"
    "usart_baud (rtu m) = 9600" "Mb2TcpLenth m = Mb2TcpLenth (mbm (gw n))"
    using System_Setup_inv[of "mbm (gw n)"] n(2) by (auto simp: net_inv_def)
  let ?ip = "flash_net_buf n ! 0"
  let ?t = "spi_seq (module b) rx_data (initsi4432 (module b) (flash_net_buf n ! 3) (pins (rf (gw n))))"
  have "gw_inv (gw n)" using assms(2) by (simp add: gw fw_inv_def)
  then have rel: "released ?t" by (intro transfers_seq(2) initsi_released) (simp add: gw_inv_def)
  define n' where "n' = n \<lparr> ipaddr_sever := [byte 3 ?ip, byte 2 ?ip, byte 1 ?ip, byte 0 ?ip],
      port_sever := ucast (flash_net_buf n ! 1),
      gw := (gw n) \<lparr> mbm := m, rf := (rf (gw n)) \<lparr> pins := ?t \<rparr> \<rparr> \<rparr>"
  have "fw_inv n'"
    using n(2) \<open>gw_inv (gw n)\<close> m rel
    by (auto simp: n'_def fw_inv_def net_inv_def gw_inv_def list_ok_def at_entry_def simp del: spi_seq_trace)
  moreover have "main_start b s = Some (s \<lparr> netw := n', iap_mode := flash_net_buf n ! 2,
      macaddress := GetMacAddr (nenv b) \<rparr>)"
    using len puts_ip[OF len(2)]
    by (simp add: main_start_def n(1) m(1) Let_def n'_def del: spi_seq_trace puts.simps)
  ultimately show ?thesis using m by (simp add: n'_def)
qed


section \<open>Turns in which nothing arrives\<close>

text \<open>The radio receives nothing: if the module is found at all, its interrupt line is high.\<close>

definition radio_silent :: "si_env \<Rightarrow> bool" where
  "radio_silent e \<longleftrightarrow> (\<forall>t. fst (Check_si4432_HW e t) \<longrightarrow> NIRQ e (snd (Check_si4432_HW e t)))"

definition quiet :: "turn_in \<Rightarrow> bool" where
  "quiet i \<longleftrightarrow> eth_events i = [] \<and> tmr_events i = [] \<and> line_err i = 0"

text \<open>Nothing to send on the line: no packet, and no poll list.\<close>

definition line_quiet :: "system \<Rightarrow> bool" where
  "line_quiet s \<longleftrightarrow> TcpRecvLenth (gw (netw s)) = 0 \<and> TCP2RS485CMDLIST (gw (netw s)) ! 0 = 0"

definition unsent :: "mb_master \<Rightarrow> mb_master" where
  "unsent m = m \<lparr> Mb2TcpLenth := 0 \<rparr>"

lemma unsent_id: "Mb2TcpLenth m = 0 \<Longrightarrow> unsent m = m"
  by (cases m) (simp add: unsent_def)

definition frame_calls :: "net \<Rightarrow> net_call list" where
  "frame_calls n = (if Tcplink n \<or> Mb2TcpLenth (mbm (gw n)) = 0 then [] else
     [Tcp_write (take (unat (Mb2TcpLenth (mbm (gw n)))) (Mb2TcpBuff (mbm (gw n)))), Tcp_output])"

lemma send_fields:
  assumes "fw_inv n" "SendDataToSever 0 n = Some n0"
  shows "gw n0 = (gw n) \<lparr> mbm := unsent (mbm (gw n)) \<rparr> \<and> Tcplink n0 = Tcplink n \<and>
    calls n0 = calls n @ frame_calls n"
proof (cases "Mb2TcpLenth (mbm (gw n)) = 0")
  case True
  then have "n0 = n" using assms(2) by (simp add: SendDataToSever_eq[OF assms(1)])
  then show ?thesis using True by (simp add: unsent_id frame_calls_def)
next
  case pos: False
  show ?thesis
  proof (cases "Tcplink n")
    case True
    then have "n0 = n \<lparr> gw := (gw n) \<lparr> mbm := (mbm (gw n)) \<lparr> Mb2TcpLenth := 0 \<rparr> \<rparr> \<rparr>"
      using assms(2) pos by (simp add: SendDataToSever_eq[OF assms(1)])
    then show ?thesis using True by (simp add: unsent_def frame_calls_def)
  next
    case False
    then have "n0 = call Tcp_output (call (Tcp_write (take (unat (Mb2TcpLenth (mbm (gw n)))) (Mb2TcpBuff (mbm (gw n)))))
        (n \<lparr> gw := (gw n) \<lparr> mbm := (mbm (gw n)) \<lparr> Mb2TcpLenth := 0 \<rparr> \<rparr> \<rparr>))"
      using assms(2) pos by (simp add: SendDataToSever_eq[OF assms(1)] Let_def)
    then show ?thesis using False pos by (simp add: unsent_def frame_calls_def)
  qed
qed

lemma quiet_begin:
  assumes "fw_inv (netw s)" "quiet i"
  shows "\<exists>n0. turn_begin i s = Some n0 \<and> fw_inv n0 \<and> in_reset n0 = in_reset (netw s) \<and>
    gw n0 = (gw (netw s)) \<lparr> mbm := unsent (mbm (gw (netw s))) \<rparr> \<and>
    Tcplink n0 = Tcplink (netw s) \<and>
    calls n0 = calls (TcpTestThread (bind_ok i) (LocalTime s) (netw s)) @ frame_calls (netw s)"
proof -
  define n where "n = TcpTestThread (bind_ok i) (LocalTime s) (netw s)"
  note T = TcpTestThread_fw[OF assms(1), of "bind_ok i" "LocalTime s", folded n_def]
  have link: "Tcplink n = Tcplink (netw s)"
    by (simp add: n_def TcpTestThread_def Let_def tcp_client_callback_def udp_client_callback_app_def call_def)
  obtain n0 where n0: "SendDataToSever 0 n = Some n0" "fw_inv n0" "in_reset n0 = in_reset n"
    using SendDataToSever_fw[OF T(1)] by blast
  note f = send_fields[OF T(1) n0(1)]
  show ?thesis
    using f n0 T(2,3) link assms(2) by (auto simp: turn_begin_def n_def[symmetric] quiet_def frame_calls_def)
qed

lemma quiet_line:
  assumes "fw_inv n" "TcpRecvLenth (gw n) = 0" "TCP2RS485CMDLIST (gw n) ! 0 = 0"
    "eMBMasterPoll (mbm (gw n)) = Some (c, m)"
  shows "\<exists>n'. modbus_part b t n = Some n' \<and> mbm (gw n') = m \<and> TcpRecvLenth (gw n') = 0 \<and>
    TCP2RS485CMDLIST (gw n') ! 0 = 0 \<and> calls n' = calls n \<and> Tcplink n' = Tcplink n \<and>
    in_reset n' = in_reset n \<and> rf (gw n') = rf (gw n)"
proof -
  have "length (flash_net_buf n) = 4" using assms(1) by (simp add: fw_inv_def net_inv_def)
  moreover have "cget (TCP2RS485CMDLIST (gw n)) 0 = Some 0"
    using assms(1,3) by (subst cget_in) (simp_all add: fw_inv_def gw_inv_def)
  ultimately show ?thesis
    using assms(2-4) by (simp add: modbus_part_def radio_of_def ModbusSenttset_def Let_def)
qed

lemma silent_thread:
  assumes "radio_silent (module b)"
  shows "\<exists>n'. Si4432Thread b erro n = Some n' \<and> mbm (gw n') = mbm (gw n) \<and>
    TcpRecvLenth (gw n') = TcpRecvLenth (gw n) \<and> TCP2RS485CMDLIST (gw n') = TCP2RS485CMDLIST (gw n) \<and>
    calls n' = calls n \<and> Tcplink n' = Tcplink n \<and> in_reset n' = in_reset n"
  using assms by (simp add: Si4432Thread_def radio_silent_def save_rec_data_def case_prod_beta Let_def)

lemma LwIP_events:
  assumes "callbacks e (eth_events i) (netw s) = Some n" "tmr_events i = []"
  shows "\<exists>s'. LwIP_Periodic_Handle e i s = Some s' \<and> netw s' = n \<and> LocalTime s' = LocalTime s"
  using assms by (simp add: LwIP_Periodic_Handle_def Let_def)

lemma quiet_turn:
  assumes "env_laws (nenv b)" "radio_silent (module b)" "fw_inv (netw s)" "\<not> in_reset (netw s)" "quiet i"
    "line_quiet s" "eMBMasterPoll (unsent (mbm (gw (netw s)))) = Some (c, m)"
  shows "\<exists>s'. main_turn b i s = Some s' \<and> fw_inv (netw s') \<and> mbm (gw (netw s')) = m \<and> line_quiet s' \<and>
    \<not> in_reset (netw s') \<and> Tcplink (netw s') = Tcplink (netw s) \<and>
    calls (netw s') = calls (TcpTestThread (bind_ok i) (LocalTime s) (netw s)) @ frame_calls (netw s)"
proof -
  obtain n0 where n0: "turn_begin i s = Some n0" "fw_inv n0" "in_reset n0 = in_reset (netw s)"
    "gw n0 = (gw (netw s)) \<lparr> mbm := unsent (mbm (gw (netw s))) \<rparr>" "Tcplink n0 = Tcplink (netw s)"
    "calls n0 = calls (TcpTestThread (bind_ok i) (LocalTime s) (netw s)) @ frame_calls (netw s)"
    using quiet_begin[OF assms(3,5)] by blast
  obtain s1 where s1: "LwIP_Periodic_Handle (nenv b) i (s \<lparr> netw := n0 \<rparr>) = Some s1" "netw s1 = n0"
    using LwIP_events[of "nenv b" i "s \<lparr> netw := n0 \<rparr>" n0] assms(5) by (auto simp: quiet_def)
  obtain n2 where n2: "modbus_part b (LocalTime s1) n0 = Some n2" "mbm (gw n2) = m"
    "TcpRecvLenth (gw n2) = 0" "TCP2RS485CMDLIST (gw n2) ! 0 = 0" "calls n2 = calls n0"
    "Tcplink n2 = Tcplink n0" "in_reset n2 = in_reset n0"
    using quiet_line[OF n0(2), of c m b "LocalTime s1"] assms(6,7) n0(4) by (auto simp: line_quiet_def)
  obtain n3 where n3: "Si4432Thread b (rf_err i) n2 = Some n3" "mbm (gw n3) = mbm (gw n2)"
    "TcpRecvLenth (gw n3) = TcpRecvLenth (gw n2)" "TCP2RS485CMDLIST (gw n3) = TCP2RS485CMDLIST (gw n2)"
    "calls n3 = calls n2" "Tcplink n3 = Tcplink n2" "in_reset n3 = in_reset n2"
    using silent_thread[OF assms(2)] by blast
  have turn: "main_turn b i s = Some (s1 \<lparr> netw := n3 \<rparr>)"
    using n0(1,3) s1 n2(1) n3(1) assms(4) by (simp add: main_turn_def turn_begin_def Let_def)
  have "harmless b i s" using n0(1,3) assms(5) by (simp add: harmless_def quiet_def)
  from main_turn_fw[OF assms(1,3) this] have "fw_inv (netw (s1 \<lparr> netw := n3 \<rparr>))"
    by (auto simp: turn split: if_splits)
  then show ?thesis
    using n2 n0 n3 assms(4) turn by (simp add: line_quiet_def)
qed

text \<open>What is sent to the server: the calls that write to the connection.\<close>

definition to_server :: "net \<Rightarrow> net_call list" where
  "to_server n = filter (\<lambda>c. case c of Tcp_write _ \<Rightarrow> True | Tcp_output \<Rightarrow> True | _ \<Rightarrow> False) (calls n)"

lemma to_server_same: "calls n' = calls n \<Longrightarrow> to_server n' = to_server n"
  by (simp add: to_server_def)

lemma to_server_TcpTestThread: "to_server (TcpTestThread ok t n) = to_server n"
  by (simp add: to_server_def TcpTestThread_def Let_def tcp_client_callback_def udp_client_callback_app_def call_def)

lemma to_server_frame:
  "calls n' = calls n @ frame_calls m \<Longrightarrow> to_server n' = to_server n @ frame_calls m"
  by (simp add: to_server_def frame_calls_def)


section \<open>Sequences of steps\<close>

fun performs :: "board \<Rightarrow> fw_step list \<Rightarrow> system \<Rightarrow> system option" where
  "performs b [] s = Some s"
| "performs b (l # ls) s = do { s \<leftarrow> perform b l s; performs b ls s }"

lemma performs_append: "performs b (xs @ ys) s = Option.bind (performs b xs s) (performs b ys)"
proof (induction xs arbitrary: s)
  case (Cons x xs)
  then show ?case by (cases "perform b x s") simp_all
qed simp

definition bytes_in :: "bytes \<Rightarrow> fw_step list" where
  "bytes_in bs = map (\<lambda>x. Usart (Some x) False) bs"

lemma set_rtu_twice [simp]: "set_rtu r' (set_rtu r s) = set_rtu r' s"
  by (simp add: set_rtu_def on_rtu_def)

lemma set_rtu_same [simp]:
  "mbm (gw (netw (set_rtu r s))) = (mbm (gw (netw s))) \<lparr> rtu := r \<rparr>"
  "in_reset (netw (set_rtu r s)) = in_reset (netw s)" "Tcplink (netw (set_rtu r s)) = Tcplink (netw s)"
  "line_quiet (set_rtu r s) = line_quiet s" "calls (netw (set_rtu r s)) = calls (netw s)"
  by (simp_all add: set_rtu_def on_rtu_def line_quiet_def)

lemma performs_bytes:
  "rx_all bs (rtu (mbm (gw (netw s)))) = Some r \<Longrightarrow> bs \<noteq> [] \<Longrightarrow>
   performs b (bytes_in bs) s = Some (set_rtu r s)"
proof (induction bs arbitrary: s)
  case (Cons x xs)
  obtain q where q: "USART2_IRQHandler (Some x) False (rtu (mbm (gw (netw s)))) = Some q" "rx_all xs q = Some r"
    using Cons.prems(1) by (auto simp: bind_eq_Some_conv)
  show ?case
  proof (cases "xs = []")
    case True
    then show ?thesis using q by (simp add: bytes_in_def)
  next
    case False
    then show ?thesis using q Cons.IH[of "set_rtu q s"] by (simp add: bytes_in_def)
  qed
qed simp

lemma performs_fw:
  assumes "env_laws (nenv b)" "fw_inv (netw s)" "performs b ls s = Some t" "\<forall>l \<in> set ls. \<forall>i. l \<noteq> Turn i"
  shows "fw_inv (netw t)"
  using assms(2-4)
proof (induction ls arbitrary: s)
  case (Cons l ls)
  have "step_ok b l s" "\<not> overruns b l s" using Cons.prems(3) by (cases l; auto)+
  then obtain t' where "perform b l s = Some t'" "fw_inv (netw t')"
    using perform_inv[OF assms(1) Cons.prems(1), of l] by auto
  then show ?case using Cons.prems(2,3) Cons.IH[of t'] by simp
qed simp

lemma line_reply:
  assumes "env_laws (nenv b)" "radio_silent (module b)" "fw_inv (netw s)" "\<not> in_reset (netw s)"
    "\<not> Tcplink (netw s)" "line_quiet s" "eMBState (mbm (gw (netw s))) = STATE_ENABLED"
    "eRcvState (rtu (mbm (gw (netw s)))) = STATE_M_RX_IDLE" "Mb2TcpLenth (mbm (gw (netw s))) = 0"
    "4 \<le> length bs" "length bs \<le> 238" "quiet i1" "quiet i2" "quiet i3"
  shows "\<exists>s2 s3. performs b (bytes_in bs @ [Rtu_timer True, Turn i1, Turn i2]) s = Some s2 \<and>
    to_server (netw s2) = to_server (netw s) \<and> main_turn b i3 s2 = Some s3 \<and> fw_inv (netw s3) \<and>
    to_server (netw s3) = to_server (netw s) @
      [Tcp_write (server_frame (UID_STM32 (mbm (gw (netw s)))) bs), Tcp_output]"
proof -
  let ?m = "mbm (gw (netw s))"
  have inv: "mbm_inv ?m" using assms(3) by (simp add: fw_inv_def gw_inv_def)
  have ne: "bs \<noteq> []" and le: "length bs \<le> 256" using assms(10,11) by auto
  obtain r m1 where r: "rx_all bs (rtu ?m) = Some r"
    "eMBMasterPoll (?m \<lparr> rtu := TIM3_IRQHandler True r \<rparr>) = Some (MB_ENOERR, m1)"
    "Mb2TcpLenth m1 = Mb2TcpLenth ?m" "frame_arrives bs ?m = poll m1"
    by (rule frame_first_poll[OF inv assms(7,8,10) le])
  obtain m2 where m2: "poll m1 = Some m2" "take (length bs + 18) (Mb2TcpBuff m2) = server_frame (UID_STM32 ?m) bs"
    "Mb2TcpLenth m2 = of_nat (length bs + 18)" "unat (usLength m2) = length bs"
    using frame_to_server[OF inv assms(7,8,10,11)] unfolding r(4) by blast
  define s0 where "s0 = set_rtu (TIM3_IRQHandler True r) s"
  have in0: "performs b (bytes_in bs @ [Rtu_timer True]) s = Some s0"
    using performs_bytes[of bs s r b] r(1) ne by (simp add: performs_append s0_def)
  have s0: "fw_inv (netw s0)" "\<not> in_reset (netw s0)" "line_quiet s0"
    "Mb2TcpLenth (mbm (gw (netw s0))) = 0" "\<not> Tcplink (netw s0)"
    using performs_fw[OF assms(1,3) in0] assms(4-6,9) by (auto simp: bytes_in_def s0_def)
  have t0: "to_server (netw s0) = to_server (netw s)" by (simp add: s0_def to_server_def)
  have "eMBMasterPoll (unsent (mbm (gw (netw s0)))) = Some (MB_ENOERR, m1)"
    using r(2) by (simp add: unsent_id[OF s0(4)]) (simp add: s0_def)
  from quiet_turn[OF assms(1,2) s0(1,2) assms(12) s0(3) this] obtain s1 where
    s1: "main_turn b i1 s0 = Some s1" "fw_inv (netw s1)" "mbm (gw (netw s1)) = m1" "line_quiet s1"
      "\<not> in_reset (netw s1)" "\<not> Tcplink (netw s1)"
      "calls (netw s1) = calls (TcpTestThread (bind_ok i1) (LocalTime s0) (netw s0)) @ frame_calls (netw s0)"
    using s0(5) by auto
  have t1: "to_server (netw s1) = to_server (netw s)"
    using to_server_frame[OF s1(7)] by (simp add: to_server_TcpTestThread t0) (simp add: frame_calls_def s0(4))
  have l1: "Mb2TcpLenth m1 = 0" using r(3) assms(9) by simp
  obtain c2 where c2: "eMBMasterPoll m1 = Some (c2, m2)" using m2(1) by (auto simp: poll_def)
  then have "eMBMasterPoll (unsent (mbm (gw (netw s1)))) = Some (c2, m2)" by (simp add: s1(3) unsent_id[OF l1])
  from quiet_turn[OF assms(1,2) s1(2,5) assms(13) s1(4) this] obtain s2 where
    s2: "main_turn b i2 s1 = Some s2" "fw_inv (netw s2)" "mbm (gw (netw s2)) = m2" "line_quiet s2"
      "\<not> in_reset (netw s2)" "\<not> Tcplink (netw s2)"
      "calls (netw s2) = calls (TcpTestThread (bind_ok i2) (LocalTime s1) (netw s1)) @ frame_calls (netw s1)"
    using s1(6) by auto
  have t2: "to_server (netw s2) = to_server (netw s)"
    using to_server_frame[OF s2(7)] by (simp add: to_server_TcpTestThread t1) (simp add: frame_calls_def s1(3) l1)
  have u: "unat (of_nat (length bs + 18) :: u32) = length bs + 18"
    unfolding unat_of_nat using assms(11) by (intro mod_less) simp
  then have ne0: "Mb2TcpLenth m2 \<noteq> 0" unfolding m2(3) by (metis add_is_0 unsigned_0 zero_neq_numeral)
  have "mbm_inv m2" using s2(2,3) by (simp add: fw_inv_def gw_inv_def)
  then have minv: "mbm_inv (unsent m2)" by (simp add: unsent_def mbm_inv_def)
  have "\<not> poll_overflows (unsent m2)" using m2(4) assms(11) by (simp add: unsent_def poll_overflows_def)
  then obtain c3 m3 where "eMBMasterPoll (unsent (mbm (gw (netw s2)))) = Some (c3, m3)"
    using eMBMasterPoll_inv[OF minv] by (auto simp: s2(3) split: option.splits)
  from quiet_turn[OF assms(1,2) s2(2,5) assms(14) s2(4) this] obtain s3 where
    s3: "main_turn b i3 s2 = Some s3" "fw_inv (netw s3)"
      "calls (netw s3) = calls (TcpTestThread (bind_ok i3) (LocalTime s2) (netw s2)) @ frame_calls (netw s2)"
    by auto
  have "frame_calls (netw s2) = [Tcp_write (server_frame (UID_STM32 ?m) bs), Tcp_output]"
    using m2(2) s2(6) ne0 u unfolding frame_calls_def s2(3) by (simp add: m2(3))
  then have "to_server (netw s3) = to_server (netw s) @
      [Tcp_write (server_frame (UID_STM32 ?m) bs), Tcp_output]"
    using to_server_frame[OF s3(3)] by (simp add: to_server_TcpTestThread t2)
  moreover have "performs b (bytes_in bs @ [Rtu_timer True, Turn i1, Turn i2]) s = Some s2"
    using performs_append[of b "bytes_in bs @ [Rtu_timer True]" "[Turn i1, Turn i2]" s]
      in0 s1(1) s2(1) by simp
  ultimately show ?thesis using s3(1,2) t2 by blast
qed


section \<open>A packet of the server\<close>

definition data_packet :: "u8 \<Rightarrow> bytes \<Rightarrow> lwip_event" where
  "data_packet c d = Received
     (Some ([0xFF, 0xAA, c] @ d @ [0xAA, 0xFF, 0x24, 0x0D, 0x0A], of_nat (length d + 8))) 0"

lemma data_packet_stored:
  assumes "env_laws e" "fw_inv n" "length d \<le> 1491"
  shows "\<exists>n'. callback e (data_packet c d) n = Some n' \<and> fw_inv n' \<and>
    TcpRecvLenth (gw n') = of_nat (length d) \<and> take (length d) (TcpRecvBuf (gw n')) = d \<and>
    mbm (gw n') = mbm (gw n) \<and> in_reset n' = in_reset n"
proof -
  define p where "p = [0xFF, 0xAA, c] @ d @ [0xAA, 0xFF, 0x24, 0x0D, 0x0A]"
  have k: "unat (of_nat (length d + 8) :: u16) = length d + 8"
    using assms(3) by (intro unat_of_nat_u16) simp
  have le: "unat (of_nat (length d + 8) :: u16) \<le> length p" unfolding k by (simp add: p_def)
  have s: "seen p (length d + 8) n = p @ drop (length d + 8) (Tdata n)"
    using assms(3) by (simp add: seen_def p_def)
  have "safe_packet (seen p (length d + 8) n) (length d + 8)"
    unfolding s using assms(3) by (simp add: safe_packet_def cmd_faults_def p_def)
  then have ev: "safe_event e n (data_packet c d)"
    using le unfolding safe_event_def data_packet_def p_def[symmetric] lwip_event.case option.case prod.case k
    by blast
  obtain n' where n': "callback e (data_packet c d) n = Some n'" "fw_inv n'"
    using callback_inv[OF assms(1,2) ev] by blast
  have "net_inv n" using assms(2) by (simp add: fw_inv_def)
  from packet_stored[OF this assms(3), of e c] n' show ?thesis
    unfolding data_packet_def callback.simps by auto
qed

lemma poll_idle:
  "\<not> xMasterEventInQueue (queue (rtu m)) \<Longrightarrow> \<exists>c. eMBMasterPoll m = Some (c, m)"
  by (cases "eMBState m = STATE_ENABLED") (simp_all add: poll_empty poll_disabled)

lemma packet_sent:
  assumes "fw_inv n" "eRcvState (rtu (mbm (gw n))) = STATE_M_RX_IDLE"
    "\<not> xMasterEventInQueue (queue (rtu (mbm (gw n))))"
    "TcpRecvLenth (gw n) = of_nat (length d)" "take (length d) (TcpRecvBuf (gw n)) = d"
    "1 \<le> length d" "length d \<le> 253"
  shows "\<exists>n' r. modbus_part b t n = Some n' \<and> fw_inv n' \<and> TcpRecvLenth (gw n') = 0 \<and>
    tx_irqs (Suc (length d)) (rtu (mbm (gw n'))) = Some r \<and> wire r = wire (rtu (mbm (gw n))) @ d"
proof -
  have len: "length (flash_net_buf n) = 4" using assms(1) by (simp add: fw_inv_def net_inv_def)
  define x where "x = \<lparr> si = module b, chl = flash_net_buf n ! 3 \<rparr>"
  have x: "radio_of b n = Some x" using len by (simp add: radio_of_def x_def)
  have gw: "gw_inv (gw n)" "mbm_inv (mbm (gw n))" "length (TcpRecvBuf (gw n)) = 1500"
    using assms(1) by (simp_all add: fw_inv_def gw_inv_def)
  obtain g r where g: "ModbusSenttset x (uid_sum (nenv b)) t (gw n) = Some g" "TcpRecvLenth g = 0"
    "tx_irqs (Suc (length d)) (rtu (mbm g)) = Some r" "wire r = wire (rtu (mbm (gw n))) @ d"
    using forward_wire[OF gw(2) assms(2) gw(3) assms(4,6,7), of x "uid_sum (nenv b)" t]
    unfolding assms(5) by blast
  have "queue (rtu (mbm g)) = queue (rtu (mbm (gw n)))"
    using Senttset_inv[OF gw(1), of x "uid_sum (nenv b)" t] g(1) by auto
  then obtain c where c: "eMBMasterPoll (mbm g) = Some (c, mbm g)" using poll_idle assms(3) by metis
  have m: "modbus_part b t n = Some (n \<lparr> gw := g \<rparr>)" by (simp add: modbus_part_def x g(1) c)
  have "\<not> poll_overflows (mbm (gw n))" using assms(3) by (simp add: poll_overflows_def queued_def)
  then have "fw_inv (n \<lparr> gw := g \<rparr>)" using modbus_part_fw[OF assms(1), of b t] m by auto
  then show ?thesis using m g by (intro exI[of _ "n \<lparr> gw := g \<rparr>"] exI[of _ r]) simp
qed

lemma turn_sends:
  assumes "\<not> radio_overrun b i s" "fw_inv (netw s)" "\<not> in_reset (netw s)" "tmr_events i = []"
    "eRcvState (rtu (mbm (gw (netw s)))) = STATE_M_RX_IDLE"
    "\<not> xMasterEventInQueue (queue (rtu (mbm (gw (netw s)))))"
    "\<And>n. fw_inv n \<Longrightarrow> in_reset n = in_reset (netw s) \<Longrightarrow> \<exists>n'. callbacks (nenv b) (eth_events i) n = Some n' \<and>
      fw_inv n' \<and> in_reset n' = in_reset n \<and> TcpRecvLenth (gw n') = of_nat (length d) \<and>
      take (length d) (TcpRecvBuf (gw n')) = d \<and> mbm (gw n') = mbm (gw n)"
    "1 \<le> length d" "length d \<le> 253"
  shows "\<exists>s' r. main_turn b i s = Some s' \<and> fw_inv (netw s') \<and>
    tx_irqs (Suc (length d)) (rtu (mbm (gw (netw s')))) = Some r \<and>
    wire r = wire (rtu (mbm (gw (netw s)))) @ d"
proof -
  let ?n = "TcpTestThread (bind_ok i) (LocalTime s) (netw s)"
  note T = TcpTestThread_fw[OF assms(2), of "bind_ok i" "LocalTime s"]
  obtain n0 where n0: "SendDataToSever (line_err i) ?n = Some n0" "fw_inv n0" "in_reset n0 = in_reset ?n"
    "rtu (mbm (gw n0)) = rtu (mbm (gw ?n))"
    using SendDataToSever_fw[OF T(1)] by blast
  obtain n1 where n1: "callbacks (nenv b) (eth_events i) n0 = Some n1" "fw_inv n1" "in_reset n1 = in_reset n0"
    "TcpRecvLenth (gw n1) = of_nat (length d)" "take (length d) (TcpRecvBuf (gw n1)) = d"
    "mbm (gw n1) = mbm (gw n0)"
    using assms(7)[OF n0(2)] n0(3) T(3) by auto
  obtain s1 where s1: "LwIP_Periodic_Handle (nenv b) i (s \<lparr> netw := n0 \<rparr>) = Some s1" "netw s1 = n1"
    "LocalTime s1 = LocalTime s"
    using LwIP_events[of "nenv b" i "s \<lparr> netw := n0 \<rparr>" n1] n1(1) assms(4) by auto
  have rtu: "rtu (mbm (gw n1)) = rtu (mbm (gw (netw s)))" using n1(6) n0(4) T(2) by simp
  obtain n2 r where n2: "modbus_part b (LocalTime s) n1 = Some n2" "fw_inv n2"
    "tx_irqs (Suc (length d)) (rtu (mbm (gw n2))) = Some r" "wire r = wire (rtu (mbm (gw n1))) @ d"
    using packet_sent[OF n1(2) _ _ n1(4,5) assms(8,9), of b "LocalTime s"] assms(5,6) rtu by auto
  have ev: "turn_events b i s = Some s1" using n0(1) s1(1) by (simp add: turn_events_def turn_begin_def)
  have nr: "\<not> in_reset (netw s1)" using s1(2) n1(3) n0(3) T(3) assms(3) by simp
  have "\<not> radio_faults b n2"
    using assms(1,3) n2(1) nr by (simp add: radio_overrun_def ev s1(2,3))
  then obtain n3 where n3: "Si4432Thread b (rf_err i) n2 = Some n3" "fw_inv n3" "mbm (gw n3) = mbm (gw n2)"
    using Si4432Thread_fw[OF n2(2), of b "rf_err i"] by auto
  have "main_turn b i s = Some (s1 \<lparr> netw := n3 \<rparr>)"
    using n0(1,3) s1 n1(3) n2(1) n3(1) assms(3) T(3) by (simp add: main_turn_def Let_def)
  then show ?thesis
    using n2 n3 rtu by (intro exI[of _ "s1 \<lparr> netw := n3 \<rparr>"] exI[of _ r]) simp
qed


section \<open>Time\<close>

lemma ticks:
  assumes "fw_inv (netw s)"
  shows "\<exists>s'. performs b (replicate n Tick) s = Some s' \<and> fw_inv (netw s') \<and>
    LocalTime s' = LocalTime s + of_nat (10 * n) \<and> gw (netw s') = gw (netw s) \<and>
    calls (netw s') = calls (netw s) \<and> Tcplink (netw s') = Tcplink (netw s) \<and>
    TCPCreatTrm (netw s') = TCPCreatTrm (netw s) \<and> in_reset (netw s') = in_reset (netw s) \<and>
    ipaddr_sever (netw s') = ipaddr_sever (netw s) \<and> port_sever (netw s') = port_sever (netw s)"
  using assms
proof (induction n arbitrary: s)
  case (Suc n)
  define t where "t = TIM2_IRQHandler s"
  have t: "fw_inv (netw t)" "LocalTime t = LocalTime s + 10" "gw (netw t) = gw (netw s)"
    "calls (netw t) = calls (netw s)" "Tcplink (netw t) = Tcplink (netw s)"
    "TCPCreatTrm (netw t) = TCPCreatTrm (netw s)" "in_reset (netw t) = in_reset (netw s)"
    "ipaddr_sever (netw t) = ipaddr_sever (netw s)" "port_sever (netw t) = port_sever (netw s)"
    using Suc.prems by (simp_all add: t_def TIM2_IRQHandler_def Let_def SynruntimHook_def)
  have "LocalTime s + 10 + of_nat (10 * n) = LocalTime s + of_nat (10 * Suc n)" by simp
  then show ?case using Suc.IH[OF t(1)] t(2-) by (simp add: t_def[symmetric] add.assoc)
qed simp

text \<open>A new attempt is due after n ticks when 5000 ms have passed since the last one.\<close>

definition retry_due :: "nat \<Rightarrow> system \<Rightarrow> bool" where
  "retry_due n s \<longleftrightarrow> 5000 \<le> LocalTime s + of_nat (10 * n) - TCPCreatTrm (netw s)"

lemma retry_comes_due: "\<exists>n \<le> 500. retry_due n s"
proof -
  define e where "e = unat (LocalTime s - TCPCreatTrm (netw s))"
  define n where "n = (5009 - e) div 10"
  have n: "10 * n \<le> 5009" "5000 \<le> e + 10 * n" by (simp_all add: n_def)
  have eq: "LocalTime s + of_nat (10 * n) - TCPCreatTrm (netw s) = of_nat (e + 10 * n)"
    by (simp add: e_def)
  have e: "e < 2 ^ 32" unfolding e_def using unsigned_less[of "LocalTime s - TCPCreatTrm (netw s)"] by simp
  have "e + 10 * n < 2 ^ 32"
  proof (cases "n = 0")
    case False
    then have "e < 5000" by (simp add: n_def)
    then show ?thesis using n(1) by simp
  qed (use e in simp)
  then have "unat (of_nat (e + 10 * n) :: u32) = e + 10 * n" unfolding unat_of_nat by (intro mod_less) simp
  then have "retry_due n s" unfolding retry_due_def eq word_le_nat_alt using n(2) by simp
  then show ?thesis using n(1) by (intro exI[of _ n]) simp
qed

lemma retry_calls:
  assumes "Tcplink n"
  shows "calls (TcpTestThread ok t n) = calls n @
    (if 5000 \<le> t - TCPCreatTrm n then
       [Fs_write (line ''TCP_Retry''), Tcp_new, Tcp_bind 40096] @
       (if ok then [Tcp_connect (ipaddr_sever n) (port_sever n), Tcp_set_err, Tcp_set_recv] else []) @
       (if Udplink n then [] else [Fs_write (line ''UDP_Retry''), Udp_new, Udp_broadcast,
          Udp_bind 21228, Udp_set_recv])
     else [])"
    "TCPCreatTrm (TcpTestThread ok t n) = (if 5000 \<le> t - TCPCreatTrm n then t else TCPCreatTrm n)"
    "Tcplink (TcpTestThread ok t n)"
  using assms
  by (simp_all add: TcpTestThread_def Let_def tcp_client_callback_def udp_client_callback_app_def call_def)

text \<open>While the connection is down, what follows the reconnecting thread makes no calls.\<close>

lemma modbus_part_calls:
  assumes "modbus_part b t n = Some n'"
  shows "calls n' = calls n \<and> TCPCreatTrm n' = TCPCreatTrm n \<and> Tcplink n' = Tcplink n"
  using assms by (auto simp: modbus_part_def bind_eq_Some_conv)

lemma Si4432Thread_calls:
  assumes "Si4432Thread b erro n = Some n'" "Tcplink n"
  shows "calls n' = calls n \<and> TCPCreatTrm n' = TCPCreatTrm n"
proof -
  obtain found t where c: "Check_si4432_HW (module b) (pins (rf (gw n))) = (found, t)"
    by (cases "Check_si4432_HW (module b) (pins (rf (gw n)))")
  define r where "r = (rf (gw n)) \<lparr> pins := t \<rparr>"
  have down: "\<exists>l. Si4432SendDataToSever erro m = Some (m \<lparr> RxSi4432Len := l \<rparr>)" if "Tcplink m" for m
    using that by (cases "0 < RxSi4432Len m") (auto simp: Si4432SendDataToSever_def Let_def
        intro: exI[of _ "RxSi4432Len m"])
  show ?thesis
  proof (cases found)
    case True
    then obtain leg buf r' where "save_rec_data (module b) (RX_Buf n) r = Some (leg, buf, r')"
      using assms(1) by (auto simp: Si4432Thread_def c Let_def r_def bind_eq_Some_conv)
    moreover define m where "m = (with_rf r' n) \<lparr> RX_Buf := buf, RxSi4432Len := leg \<rparr>"
    ultimately have "(if 0 < leg then Si4432SendDataToSever erro m else Some m) = Some n'"
      using assms(1) True by (simp add: Si4432Thread_def c Let_def r_def with_rf_def split: if_splits)
    moreover have "Tcplink m" "calls m = calls n" "TCPCreatTrm m = TCPCreatTrm n"
      using assms(2) by (simp_all add: m_def with_rf_def)
    ultimately show ?thesis using down[of m] by (auto split: if_splits)
  next
    case False
    then show ?thesis using assms(1) by (auto simp: Si4432Thread_def c Let_def)
  qed
qed

lemma retry_turn:
  assumes "fw_inv (netw t)" "\<not> in_reset (netw t)" "Tcplink (netw t)" "eth_events i = []" "tmr_events i = []"
    "main_turn b i t = Some s'"
  shows "calls (netw s') = calls (TcpTestThread (bind_ok i) (LocalTime t) (netw t)) \<and>
    TCPCreatTrm (netw s') = TCPCreatTrm (TcpTestThread (bind_ok i) (LocalTime t) (netw t))"
proof -
  define n where "n = TcpTestThread (bind_ok i) (LocalTime t) (netw t)"
  note T = TcpTestThread_fw[OF assms(1), of "bind_ok i" "LocalTime t", folded n_def]
  have link: "Tcplink n" using retry_calls(3)[OF assms(3)] by (simp add: n_def)
  obtain n0 where n0: "SendDataToSever (line_err i) n = Some n0" using SendDataToSever_fw[OF T(1)] by blast
  have c0: "calls n0 = calls n" "TCPCreatTrm n0 = TCPCreatTrm n" "Tcplink n0" "in_reset n0 = in_reset n"
    using n0 link by (auto simp: SendDataToSever_eq[OF T(1)] split: if_splits)
  obtain s1 where s1: "LwIP_Periodic_Handle (nenv b) i (t \<lparr> netw := n0 \<rparr>) = Some s1" "netw s1 = n0"
    using LwIP_events[of "nenv b" i "t \<lparr> netw := n0 \<rparr>" n0] assms(4,5) by auto
  have "turn_events b i t = Some s1"
    using n0 s1(1) by (simp add: turn_events_def turn_begin_def n_def)
  then obtain n2 n3 where "modbus_part b (LocalTime s1) n0 = Some n2" "Si4432Thread b (rf_err i) n2 = Some n3"
    "netw s' = n3"
    using assms(2,6) c0(4) T(3) s1(2) by (auto simp: main_turn_parts bind_eq_Some_conv)
  then show ?thesis
    using modbus_part_calls[of b _ n0 n2] Si4432Thread_calls[of b _ n2 n3] c0 by (simp add: n_def)
qed

lemma retry_after:
  assumes "env_laws (nenv b)" "fw_inv (netw s)" "\<not> in_reset (netw s)" "Tcplink (netw s)"
    "eth_events i = []" "tmr_events i = []"
  shows "\<exists>t. performs b (replicate n Tick) s = Some t \<and>
    (if reply_too_long b i t \<or> radio_overrun b i t then main_turn b i t = None
     else \<exists>s' new. main_turn b i t = Some s' \<and> calls (netw s') = calls (netw s) @ new \<and>
       (Tcp_connect (ipaddr_sever (netw s)) (port_sever (netw s)) \<in> set new \<longleftrightarrow> retry_due n s \<and> bind_ok i) \<and>
       TCPCreatTrm (netw s') = (if retry_due n s then LocalTime t else TCPCreatTrm (netw s)))"
proof -
  obtain t where t: "performs b (replicate n Tick) s = Some t" "fw_inv (netw t)"
    "LocalTime t = LocalTime s + of_nat (10 * n)" "calls (netw t) = calls (netw s)" "Tcplink (netw t)"
    "TCPCreatTrm (netw t) = TCPCreatTrm (netw s)" "\<not> in_reset (netw t)"
    "ipaddr_sever (netw t) = ipaddr_sever (netw s)" "port_sever (netw t) = port_sever (netw s)"
    using ticks[OF assms(2), of b n] assms(3,4) by auto
  have "\<exists>n0. turn_begin i t = Some n0"
    using SendDataToSever_fw[OF TcpTestThread_fw(1)[OF t(2)]] unfolding turn_begin_def by blast
  then have "harmless b i t" using assms(5,6) by (auto simp: harmless_def)
  note turn = main_turn_fw[OF assms(1) t(2) this]
  have due: "5000 \<le> LocalTime t - TCPCreatTrm (netw t) \<longleftrightarrow> retry_due n s" by (simp only: t(3,6) retry_due_def)
  show ?thesis
  proof (cases "reply_too_long b i t \<or> radio_overrun b i t")
    case True
    then show ?thesis using turn t(1) by auto
  next
    case False
    then obtain s' where s': "main_turn b i t = Some s'" using turn by auto
    have "\<exists>new. calls (netw s') = calls (netw s) @ new \<and>
       (Tcp_connect (ipaddr_sever (netw s)) (port_sever (netw s)) \<in> set new \<longleftrightarrow> retry_due n s \<and> bind_ok i)"
      unfolding conjunct1[OF retry_turn[OF t(2,7,5) assms(5,6) s']] retry_calls(1)[OF t(5)] due t(4,8,9)
      by (rule exI, rule conjI, rule refl) simp
    moreover have "TCPCreatTrm (netw s') = (if retry_due n s then LocalTime t else TCPCreatTrm (netw s))"
      using retry_turn[OF t(2,7,5) assms(5,6) s'] retry_calls(2)[OF t(5)] due t(6) by simp
    ultimately show ?thesis using False s' t(1) by auto
  qed
qed

lemma both_packets:
  assumes "env_laws e" "fw_inv n" "\<not> in_reset n" "length d1 \<le> 1491" "length d2 \<le> 1491"
  shows "\<exists>n'. callbacks e [data_packet c1 d1, data_packet c2 d2] n = Some n' \<and> fw_inv n' \<and>
    in_reset n' = in_reset n \<and> TcpRecvLenth (gw n') = of_nat (length d2) \<and>
    take (length d2) (TcpRecvBuf (gw n')) = d2 \<and> mbm (gw n') = mbm (gw n)"
proof -
  obtain n1 where n1: "callback e (data_packet c1 d1) n = Some n1" "fw_inv n1" "mbm (gw n1) = mbm (gw n)"
    "in_reset n1 = in_reset n"
    using data_packet_stored[OF assms(1,2,4), of c1] by blast
  obtain n2 where "callback e (data_packet c2 d2) n1 = Some n2" "fw_inv n2" "mbm (gw n2) = mbm (gw n1)"
    "in_reset n2 = in_reset n1" "TcpRecvLenth (gw n2) = of_nat (length d2)"
    "take (length d2) (TcpRecvBuf (gw n2)) = d2"
    using data_packet_stored[OF assms(1) n1(2) assms(5), of c2] by blast
  then show ?thesis using n1 assms(3) by simp
qed

end
