(* ===== verification/MbFuncsM.thy ===== *)
theory MbFuncsM
  imports MbM MbFuncs
begin

text \<open>
  The functions of the master, \<open>mbfuncholding_m.c\<close>, \<open>mbfuncinput_m.c\<close>,
  \<open>mbfunccoils_m.c\<close> and \<open>mbfuncdisc_m.c\<close>: a request puts its PDU into the send
  buffer and posts \<open>EV_MASTER_FRAME_SENT\<close>; a handler takes the address and the
  number of registers from that request, still in the send buffer, and the values
  from the response, into the copy the master keeps of the slave's banks.  The
  table that would call the handlers is compiled out of \<open>eMBMasterPoll\<close>.
\<close>

unbundle bit_operations_syntax

datatype eMBMasterReqErrCode =
    MB_MRE_NO_ERR | MB_MRE_NO_REG | MB_MRE_ILL_ARG | MB_MRE_PORT_ERR | MB_MRE_NO_RES
  | MB_MRE_IO | MB_MRE_ILL_STATE | MB_MRE_TIMEDOUT | MB_MRE_MASTER_BUSY | MB_MRE_SLAVE_EXCE

section \<open>Requests\<close>

text \<open>
  What a granted request does: the destination, the PDU with \<open>fill\<close>, its length
  (converted to a byte), and the event.
\<close>

definition master_request ::
    "u8 \<Rightarrow> (bytes \<Rightarrow> bytes option) \<Rightarrow> u8 \<Rightarrow> mb_master \<Rightarrow> (eMBMasterReqErrCode \<times> mb_master) option" where
  "master_request ucSndAddr fill len s = do {
     let s = vMBMasterSetDestAddress ucSndAddr s;
     buf \<leftarrow> fill (ucMasterRTUSndBuf (rtu s));
     let r = vMBMasterSetPDUSndLength len ((rtu s) \<lparr> ucMasterRTUSndBuf := buf \<rparr>);
     Some (MB_MRE_NO_ERR, s \<lparr> rtu := snd (event_post EV_MASTER_FRAME_SENT r) \<rparr>)
   }"

definition eMBMasterReqWriteHoldingRegister ::
    "u8 \<Rightarrow> u16 \<Rightarrow> u16 \<Rightarrow> mb_master \<Rightarrow> (eMBMasterReqErrCode \<times> mb_master) option" where
  "eMBMasterReqWriteHoldingRegister ucSndAddr usRegAddr usRegData s =
    (if xMBMasterGetIsBusy s then Some (MB_MRE_MASTER_BUSY, s)
     else if MB_MASTER_TOTAL_SLAVE_NUM < unat ucSndAddr then Some (MB_MRE_ILL_ARG, s)
     else master_request ucSndAddr
       (\<lambda>b. cwrite b 0 [MB_FUNC_WRITE_REGISTER, hi8 usRegAddr, lo8 usRegAddr, hi8 usRegData, lo8 usRegData])
       (1 + 4) s)"

text \<open>The loop over the registers is \<open>regs_to_buf\<close>: high byte, low byte, next register.\<close>

definition eMBMasterReqWriteMultipleHoldingRegister ::
    "u8 \<Rightarrow> u16 \<Rightarrow> u16 \<Rightarrow> u16 list \<Rightarrow> mb_master \<Rightarrow> (eMBMasterReqErrCode \<times> mb_master) option" where
  "eMBMasterReqWriteMultipleHoldingRegister ucSndAddr usRegAddr usNRegs pusDataBuffer s =
    (if xMBMasterGetIsBusy s then Some (MB_MRE_MASTER_BUSY, s)
     else if MB_MASTER_TOTAL_SLAVE_NUM < unat ucSndAddr then Some (MB_MRE_ILL_ARG, s)
     else master_request ucSndAddr
       (\<lambda>b. do {
          b \<leftarrow> cwrite b 0 [MB_FUNC_WRITE_MULTIPLE_REGISTERS, hi8 usRegAddr, lo8 usRegAddr,
                           hi8 usNRegs, lo8 usNRegs, ucast (usNRegs * 2)];
          regs_to_buf (unat usNRegs) pusDataBuffer 0 b 6 })
       (ucast (1 + 5 + 2 * usNRegs)) s)"

definition eMBMasterReqReadHoldingRegister ::
    "u8 \<Rightarrow> u16 \<Rightarrow> u16 \<Rightarrow> mb_master \<Rightarrow> (eMBMasterReqErrCode \<times> mb_master) option" where
  "eMBMasterReqReadHoldingRegister ucSndAddr usRegAddr usNRegs s =
    (if xMBMasterGetIsBusy s then Some (MB_MRE_MASTER_BUSY, s)
     else if MB_MASTER_TOTAL_SLAVE_NUM < unat ucSndAddr then Some (MB_MRE_ILL_ARG, s)
     else master_request ucSndAddr
       (\<lambda>b. cwrite b 0 [MB_FUNC_READ_HOLDING_REGISTER, hi8 usRegAddr, lo8 usRegAddr, hi8 usNRegs, lo8 usNRegs])
       (1 + 4) s)"

definition eMBMasterReqReadWriteMultipleHoldingRegister ::
    "u8 \<Rightarrow> u16 \<Rightarrow> u16 \<Rightarrow> u16 list \<Rightarrow> u16 \<Rightarrow> u16 \<Rightarrow> mb_master \<Rightarrow> (eMBMasterReqErrCode \<times> mb_master) option" where
  "eMBMasterReqReadWriteMultipleHoldingRegister ucSndAddr usReadRegAddr usNReadRegs pusDataBuffer
     usWriteRegAddr usNWriteRegs s =
    (if xMBMasterGetIsBusy s then Some (MB_MRE_MASTER_BUSY, s)
     else if MB_MASTER_TOTAL_SLAVE_NUM < unat ucSndAddr then Some (MB_MRE_ILL_ARG, s)
     else master_request ucSndAddr
       (\<lambda>b. do {
          b \<leftarrow> cwrite b 0 [MB_FUNC_READWRITE_MULTIPLE_REGISTERS, hi8 usReadRegAddr, lo8 usReadRegAddr,
                           hi8 usNReadRegs, lo8 usNReadRegs, hi8 usWriteRegAddr, lo8 usWriteRegAddr,
                           hi8 usNWriteRegs, lo8 usNWriteRegs, ucast (usNWriteRegs * 2)];
          regs_to_buf (unat usNWriteRegs) pusDataBuffer 0 b 10 })
       (ucast (1 + 9 + 2 * usNWriteRegs)) s)"

definition eMBMasterReqReadInputRegister ::
    "u8 \<Rightarrow> u16 \<Rightarrow> u16 \<Rightarrow> mb_master \<Rightarrow> (eMBMasterReqErrCode \<times> mb_master) option" where
  "eMBMasterReqReadInputRegister ucSndAddr usRegAddr usNRegs s =
    (if xMBMasterGetIsBusy s then Some (MB_MRE_MASTER_BUSY, s)
     else if MB_MASTER_TOTAL_SLAVE_NUM < unat ucSndAddr then Some (MB_MRE_ILL_ARG, s)
     else master_request ucSndAddr
       (\<lambda>b. cwrite b 0 [MB_FUNC_READ_INPUT_REGISTER, hi8 usRegAddr, lo8 usRegAddr, hi8 usNRegs, lo8 usNRegs])
       (1 + 4) s)"

definition eMBMasterReqReadCoils ::
    "u8 \<Rightarrow> u16 \<Rightarrow> u16 \<Rightarrow> mb_master \<Rightarrow> (eMBMasterReqErrCode \<times> mb_master) option" where
  "eMBMasterReqReadCoils ucSndAddr usCoilAddr usNCoils s =
    (if xMBMasterGetIsBusy s then Some (MB_MRE_MASTER_BUSY, s)
     else if MB_MASTER_TOTAL_SLAVE_NUM < unat ucSndAddr then Some (MB_MRE_ILL_ARG, s)
     else master_request ucSndAddr
       (\<lambda>b. cwrite b 0 [MB_FUNC_READ_COILS, hi8 usCoilAddr, lo8 usCoilAddr, hi8 usNCoils, lo8 usNCoils])
       (1 + 4) s)"

text \<open>The second test looks at the address of the coil, not at that of the slave.\<close>

definition eMBMasterReqWriteCoil ::
    "u8 \<Rightarrow> u16 \<Rightarrow> u16 \<Rightarrow> mb_master \<Rightarrow> (eMBMasterReqErrCode \<times> mb_master) option" where
  "eMBMasterReqWriteCoil ucSndAddr usCoilAddr usCoilData s =
    (if xMBMasterGetIsBusy s then Some (MB_MRE_MASTER_BUSY, s)
     else if MB_MASTER_TOTAL_SLAVE_NUM < unat usCoilAddr then Some (MB_MRE_ILL_ARG, s)
     else if usCoilData \<noteq> 0xFF00 \<and> usCoilData \<noteq> 0x0000 then Some (MB_MRE_ILL_ARG, s)
     else master_request ucSndAddr
       (\<lambda>b. cwrite b 0 [MB_FUNC_WRITE_SINGLE_COIL, hi8 usCoilAddr, lo8 usCoilAddr, hi8 usCoilData, lo8 usCoilData])
       (1 + 4) s)"

definition eMBMasterReqWriteMultipleCoils ::
    "u8 \<Rightarrow> u16 \<Rightarrow> u16 \<Rightarrow> bytes \<Rightarrow> mb_master \<Rightarrow> (eMBMasterReqErrCode \<times> mb_master) option" where
  "eMBMasterReqWriteMultipleCoils ucSndAddr usCoilAddr usNCoils pucDataBuffer s =
    (if xMBMasterGetIsBusy s then Some (MB_MRE_MASTER_BUSY, s)
     else if MB_MASTER_TOTAL_SLAVE_NUM < unat ucSndAddr then Some (MB_MRE_ILL_ARG, s)
     else if 0x07B0 < usNCoils then Some (MB_MRE_ILL_ARG, s)
     else
       let ucByteCount = ucNBytes usNCoils in
       master_request ucSndAddr
       (\<lambda>b. do {
          b \<leftarrow> cwrite b 0 [MB_FUNC_WRITE_MULTIPLE_COILS, hi8 usCoilAddr, lo8 usCoilAddr,
                           hi8 usNCoils, lo8 usNCoils, ucByteCount];
          src \<leftarrow> cread pucDataBuffer 0 (unat ucByteCount);
          cwrite b 6 src })
       (1 + 5 + ucByteCount) s)"

definition eMBMasterReqReadDiscreteInputs ::
    "u8 \<Rightarrow> u16 \<Rightarrow> u16 \<Rightarrow> mb_master \<Rightarrow> (eMBMasterReqErrCode \<times> mb_master) option" where
  "eMBMasterReqReadDiscreteInputs ucSndAddr usDiscreteAddr usNDiscreteIn s =
    (if xMBMasterGetIsBusy s then Some (MB_MRE_MASTER_BUSY, s)
     else if MB_MASTER_TOTAL_SLAVE_NUM < unat ucSndAddr then Some (MB_MRE_ILL_ARG, s)
     else master_request ucSndAddr
       (\<lambda>b. cwrite b 0 [MB_FUNC_READ_DISCRETE_INPUTS, hi8 usDiscreteAddr, lo8 usDiscreteAddr,
                        hi8 usNDiscreteIn, lo8 usNDiscreteIn])
       (1 + 4) s)"

section \<open>Responses\<close>

text \<open>
  \<open>b\<close> is the send buffer with the request, \<open>f\<close> the response.  The comparison with
  the byte count of the response is made in \<open>int\<close>, and only when the count is positive.
\<close>

type_synonym master_handler =
  "mb_regs \<Rightarrow> bytes \<Rightarrow> bytes \<Rightarrow> u16 \<Rightarrow> (eMBException \<times> mb_regs \<times> bytes \<times> bytes) option"

definition eMBMasterFuncWriteHoldingRegister :: master_handler where
  "eMBMasterFuncWriteHoldingRegister r b f usLen =
    (if usLen = 1 + 4 then do {
       a \<leftarrow> frame16 f 1;
       (eRegStatus, r, f) \<leftarrow> eMBRegHoldingCB r f 3 (a + 1) 1 MB_REG_WRITE;
       Some (exc_of eRegStatus, r, b, f)
     } else Some (MB_EX_ILLEGAL_DATA_VALUE, r, b, f))"

definition eMBMasterFuncWriteMultipleHoldingRegister :: master_handler where
  "eMBMasterFuncWriteMultipleHoldingRegister r b f usLen =
    (if usLen = 1 + 4 then do {
       a \<leftarrow> frame16 b 1;
       usRegCount \<leftarrow> frame16 b 3;
       ucRegByteCount \<leftarrow> cget b 5;
       if unat ucRegByteCount = 2 * unat usRegCount then do {
         (eRegStatus, r, b) \<leftarrow> eMBRegHoldingCB r b 6 (a + 1) usRegCount MB_REG_WRITE;
         Some (exc_of eRegStatus, r, b, f)
       } else Some (MB_EX_ILLEGAL_DATA_VALUE, r, b, f)
     } else Some (MB_EX_ILLEGAL_DATA_VALUE, r, b, f))"

text \<open>As in the slave, the second assignment of the count overwrites the first.\<close>

definition read_count :: "bytes \<Rightarrow> bytes \<Rightarrow> (u16 \<times> bool) option" where
  "read_count b f = do {
     _ \<leftarrow> cget b 3;
     l \<leftarrow> cget b 4;
     let usRegCount = (ucast l :: u16);
     ok \<leftarrow> (if 1 \<le> usRegCount then map_option (\<lambda>c. 2 * unat usRegCount = unat c) (cget f 1) else Some False);
     Some (usRegCount, ok)
   }"

definition eMBMasterFuncReadHoldingRegister :: master_handler where
  "eMBMasterFuncReadHoldingRegister r b f usLen =
    (if 1 + 1 \<le> usLen then do {
       a \<leftarrow> frame16 b 1;
       (usRegCount, ok) \<leftarrow> read_count b f;
       if ok then do {
         (eRegStatus, r, f) \<leftarrow> eMBRegHoldingCB r f 2 (a + 1) usRegCount MB_REG_READ;
         Some (exc_of eRegStatus, r, b, f)
       } else Some (MB_EX_ILLEGAL_DATA_VALUE, r, b, f)
     } else Some (MB_EX_ILLEGAL_DATA_VALUE, r, b, f))"

definition eMBMasterFuncReadWriteMultipleHoldingRegister :: master_handler where
  "eMBMasterFuncReadWriteMultipleHoldingRegister r b f usLen =
    (if 1 + 1 \<le> usLen then do {
       ra \<leftarrow> frame16 b 1;
       usRegReadCount \<leftarrow> frame16 b 3;
       wa \<leftarrow> frame16 b 5;
       usRegWriteCount \<leftarrow> frame16 b 7;
       c \<leftarrow> cget f 1;
       if 2 * unat usRegReadCount = unat c then do {
         (eRegStatus, r, b) \<leftarrow> eMBRegHoldingCB r b 10 (wa + 1) usRegWriteCount MB_REG_WRITE;
         (eRegStatus, r, f) \<leftarrow> (if eRegStatus = MB_ENOERR
            then eMBRegHoldingCB r f 2 (ra + 1) usRegReadCount MB_REG_READ
            else Some (eRegStatus, r, f));
         Some (exc_of eRegStatus, r, b, f)
       } else Some (MB_EX_ILLEGAL_DATA_VALUE, r, b, f)
     } else Some (MB_EX_NONE, r, b, f))"

definition eMBMasterFuncReadInputRegister :: master_handler where
  "eMBMasterFuncReadInputRegister r b f usLen =
    (if 1 + 1 \<le> usLen then do {
       a \<leftarrow> frame16 b 1;
       (usRegCount, ok) \<leftarrow> read_count b f;
       if ok then do {
         (eRegStatus, r, f) \<leftarrow> eMBRegInputCB r f 2 (a + 1) usRegCount;
         Some (exc_of eRegStatus, r, b, f)
       } else Some (MB_EX_ILLEGAL_DATA_VALUE, r, b, f)
     } else Some (MB_EX_ILLEGAL_DATA_VALUE, r, b, f))"

definition eMBMasterFuncReadCoils :: master_handler where
  "eMBMasterFuncReadCoils r b f usLen =
    (if 1 + 1 \<le> usLen then do {
       a \<leftarrow> frame16 b 1;
       usCoilCount \<leftarrow> frame16 b 3;
       ok \<leftarrow> (if 1 \<le> usCoilCount then map_option (\<lambda>c. ucNBytes usCoilCount = c) (cget f 1) else Some False);
       if ok then do {
         (eRegStatus, r, f) \<leftarrow> eMBRegCoilsCB r f 2 (a + 1) usCoilCount MB_REG_READ;
         Some (exc_of eRegStatus, r, b, f)
       } else Some (MB_EX_ILLEGAL_DATA_VALUE, r, b, f)
     } else Some (MB_EX_ILLEGAL_DATA_VALUE, r, b, f))"

definition eMBMasterFuncWriteCoil :: master_handler where
  "eMBMasterFuncWriteCoil r b f usLen =
    (if usLen = 4 + 1 then do {
       a \<leftarrow> frame16 f 1;
       hi \<leftarrow> cget f 3;
       lo \<leftarrow> cget f 4;
       if lo = 0x00 \<and> (hi = 0xFF \<or> hi = 0x00) then do {
         let ucBuf = [if hi = 0xFF then 1 else 0, 0];
         (eRegStatus, r, ucBuf) \<leftarrow> eMBRegCoilsCB r ucBuf 0 (a + 1) 1 MB_REG_WRITE;
         Some (exc_of eRegStatus, r, b, f)
       } else Some (MB_EX_ILLEGAL_DATA_VALUE, r, b, f)
     } else Some (MB_EX_ILLEGAL_DATA_VALUE, r, b, f))"

definition eMBMasterFuncWriteMultipleCoils :: master_handler where
  "eMBMasterFuncWriteMultipleCoils r b f usLen =
    (if usLen = 5 then do {
       a \<leftarrow> frame16 f 1;
       usCoilCnt \<leftarrow> frame16 f 3;
       ucByteCount \<leftarrow> cget b 5;
       if 1 \<le> usCoilCnt \<and> ucNBytes usCoilCnt = ucByteCount then do {
         (eRegStatus, r, b) \<leftarrow> eMBRegCoilsCB r b 6 (a + 1) usCoilCnt MB_REG_WRITE;
         Some (exc_of eRegStatus, r, b, f)
       } else Some (MB_EX_ILLEGAL_DATA_VALUE, r, b, f)
     } else Some (MB_EX_ILLEGAL_DATA_VALUE, r, b, f))"

definition eMBMasterFuncReadDiscreteInputs :: master_handler where
  "eMBMasterFuncReadDiscreteInputs r b f usLen =
    (if 1 + 1 \<le> usLen then do {
       a \<leftarrow> frame16 b 1;
       usDiscreteCnt \<leftarrow> frame16 b 3;
       ok \<leftarrow> (if 1 \<le> usDiscreteCnt then map_option (\<lambda>c. ucNBytes usDiscreteCnt = c) (cget f 1) else Some False);
       if ok then do {
         (eRegStatus, r, f) \<leftarrow> eMBRegDiscreteCB r f 2 (a + 1) usDiscreteCnt;
         Some (exc_of eRegStatus, r, b, f)
       } else Some (MB_EX_ILLEGAL_DATA_VALUE, r, b, f)
     } else Some (MB_EX_ILLEGAL_DATA_VALUE, r, b, f))"

section \<open>A granted request\<close>

definition request :: "mb_master \<Rightarrow> u8 \<Rightarrow> bytes \<Rightarrow> u8 \<Rightarrow> mb_master \<Rightarrow> bool" where
  "request s a b n s' \<longleftrightarrow> mbm_inv s' \<and> queued (rtu s') EV_MASTER_FRAME_SENT \<and>
     ucMBMasterGetDestAddress s' = a \<and> ucMasterRTUSndBuf (rtu s') = b \<and>
     ucMasterSendPDULength (rtu s') = n \<and> eMBState s' = eMBState s \<and>
     eRcvState (rtu s') = eRcvState (rtu s) \<and> wire (rtu s') = wire (rtu s)"

text \<open>The PDU a request leaves in the send buffer.\<close>

definition pdu :: "mb_master \<Rightarrow> bytes" where
  "pdu s = take (unat (ucMasterSendPDULength (rtu s))) (ucMasterRTUSndBuf (rtu s))"

lemma master_request_ok:
  assumes "mbm_inv s" "fill (ucMasterRTUSndBuf (rtu s)) = Some b" "length b = 253" "unat n \<le> 253"
  shows "\<exists>s'. master_request a fill n s = Some (MB_MRE_NO_ERR, s') \<and> request s a b n s'"
  using assms
  by (simp add: master_request_def request_def Let_def vMBMasterSetDestAddress_def vMBMasterSetPDUSndLength_def
      ucMBMasterGetDestAddress_def mbm_inv_def rtu_inv_def event_post_def xMBMasterPortEventPost_def queued_def)

lemma master_request_None:
  "master_request a fill n s = None \<longleftrightarrow> fill (ucMasterRTUSndBuf (rtu s)) = None"
  by (auto simp: master_request_def Let_def vMBMasterSetDestAddress_def bind_eq_None_conv)

text \<open>The next poll sends the PDU, and nothing before or after it.\<close>

lemma request_sent:
  assumes "request s a b n s'" "eMBState s = STATE_ENABLED" "eRcvState (rtu s) = STATE_M_RX_IDLE" "a \<le> 16"
  shows "\<exists>s2 r. eMBMasterPoll s' = Some (MB_ENOERR, s2) \<and> mbm_inv s2 \<and>
    tx_irqs (Suc (unat n)) (rtu s2) = Some r \<and> wire r = wire (rtu s) @ pdu s'"
proof -
  have inv: "mbm_inv s'" and q: "queued (rtu s') EV_MASTER_FRAME_SENT" and st: "eMBState s' = STATE_ENABLED"
    using assms(1,2) by (simp_all add: request_def)
  define r0 where "r0 = (rtu (dequeued s')) \<lparr> xMasterIsBusy := True \<rparr>"
  define s2 where "s2 = s' \<lparr> rtu := snd (eMBMasterRTUSend a (SndBuf 0) (ucast n) r0), ucMBFrame := Some (SndBuf 0) \<rparr>"
  have p: "eMBMasterPoll s' = Some (MB_ENOERR, s2)"
    using poll_sent[OF st q] assms(1) by (simp add: request_def ucMBMasterGetDestAddress_def s2_def r0_def)
  then have "mbm_inv s2" using eMBMasterPoll_inv[OF inv] by simp
  moreover have "rtu_inv r0" "eRcvState r0 = STATE_M_RX_IDLE" "wire r0 = wire (rtu s)"
    "ucMasterRTUSndBuf r0 = b"
    using assms(1,3) inv by (simp_all add: r0_def request_def mbm_inv_def)
  moreover have "unat n \<le> 253" using assms(1) unfolding request_def mbm_inv_def rtu_inv_def by blast
  ultimately show ?thesis
    using sent_frame[of r0 a "ucast n"] assms(1,4) p
    by (auto simp: s2_def pdu_def request_def tx_done_def rtu_defs Let_def simp del: tx_irqs.simps)
qed

text \<open>The five bytes of a read request.\<close>

definition read_pdu :: "u8 \<Rightarrow> u16 \<Rightarrow> u16 \<Rightarrow> bytes" where
  "read_pdu c a n = [c, hi8 a, lo8 a, hi8 n, lo8 n]"

lemma read_pdu_length [simp]: "length (read_pdu c a n) = 5"
  by (simp add: read_pdu_def)

lemma cwrite_0: "length xs \<le> length b \<Longrightarrow> cwrite b 0 xs = Some (xs @ drop (length xs) b)"
  by (simp add: cwrite_def)

lemma read_request:
  assumes "mbm_inv s" "\<not> xMBMasterGetIsBusy s" "unat a \<le> 16"
  shows "\<exists>s'. eMBMasterReqReadHoldingRegister a adr n s = Some (MB_MRE_NO_ERR, s') \<and>
    request s a (read_pdu 3 adr n @ drop 5 (ucMasterRTUSndBuf (rtu s))) 5 s'"
proof -
  have len: "length (ucMasterRTUSndBuf (rtu s)) = 253" using assms(1) by (simp add: mbm_inv_def rtu_inv_def)
  then have "cwrite (ucMasterRTUSndBuf (rtu s)) 0 (read_pdu 3 adr n) =
      Some (read_pdu 3 adr n @ drop 5 (ucMasterRTUSndBuf (rtu s)))"
    by (simp add: cwrite_0 read_pdu_length)
  moreover have "eMBMasterReqReadHoldingRegister a adr n s =
      master_request a (\<lambda>b. cwrite b 0 (read_pdu 3 adr n)) 5 s"
    using assms(2,3)
    by (simp add: eMBMasterReqReadHoldingRegister_def MB_MASTER_TOTAL_SLAVE_NUM_def
        MB_FUNC_READ_HOLDING_REGISTER_def read_pdu_def)
  ultimately show ?thesis
    using master_request_ok[OF assms(1), of "\<lambda>b. cwrite b 0 (read_pdu 3 adr n)" _ 5 a] len
    by (simp add: read_pdu_def)
qed

text \<open>The PDU that writes the registers \<open>vs\<close>.\<close>

definition write_pdu :: "u16 \<Rightarrow> u16 list \<Rightarrow> bytes" where
  "write_pdu a vs = [16, hi8 a, lo8 a, hi8 (of_nat (length vs)), lo8 (of_nat (length vs)),
     of_nat (2 * length vs)] @ reg_bytes vs"

lemma write_pdu_length [simp]: "length (write_pdu a vs) = 6 + 2 * length vs"
  by (simp add: write_pdu_def)

lemma byte_of_count: "(ucast (of_nat n :: u16) :: u8) = of_nat n"
  by (simp add: word_unat_eq_iff unat_of_nat unsigned_ucast_eq take_bit_eq_mod mod_mod_cancel)

lemma write_request:
  assumes "mbm_inv s" "\<not> xMBMasterGetIsBusy s" "unat a \<le> 16" "length vs < 65536"
  defines "n \<equiv> of_nat (length vs) :: u16"
  shows "if length vs \<le> 123
    then \<exists>s'. eMBMasterReqWriteMultipleHoldingRegister a adr n vs s = Some (MB_MRE_NO_ERR, s') \<and>
      request s a (write_pdu adr vs @ drop (6 + 2 * length vs) (ucMasterRTUSndBuf (rtu s)))
        (of_nat (6 + 2 * length vs)) s'
    else eMBMasterReqWriteMultipleHoldingRegister a adr n vs s = None"
proof -
  let ?b = "ucMasterRTUSndBuf (rtu s)"
  let ?fill = "\<lambda>b. do {
      b \<leftarrow> cwrite b 0 [MB_FUNC_WRITE_MULTIPLE_REGISTERS, hi8 adr, lo8 adr, hi8 n, lo8 n, ucast (n * 2)];
      regs_to_buf (unat n) vs 0 b 6 }"
  have len: "length ?b = 253" using assms(1) by (simp add: mbm_inv_def rtu_inv_def)
  have n: "unat n = length vs" using assms(4) by (simp add: n_def unat_of_nat_u16)
  have "n * 2 = of_nat (2 * length vs)" "1 + 5 + 2 * n = of_nat (6 + 2 * length vs)" by (simp_all add: n_def)
  then have bc: "(ucast (n * 2) :: u8) = of_nat (2 * length vs)"
    and pl: "(ucast (1 + 5 + 2 * n) :: u8) = of_nat (6 + 2 * length vs)"
    by (simp_all only: byte_of_count)
  define h where "h = [MB_FUNC_WRITE_MULTIPLE_REGISTERS, hi8 adr, lo8 adr, hi8 n, lo8 n, ucast (n * 2)]"
  have h: "length h = 6" "write_pdu adr vs = h @ reg_bytes vs"
    unfolding write_pdu_def h_def bc by (simp_all add: n_def MB_FUNC_WRITE_MULTIPLE_REGISTERS_def)
  have w: "cwrite ?b 0 h = Some (h @ drop 6 ?b)" using len h(1) by (simp add: cwrite_0)
  have fill: "?fill ?b = (if length vs \<le> 123 then Some (write_pdu adr vs @ drop (6 + 2 * length vs) ?b) else None)"
    unfolding h_def[symmetric] using len h by (auto simp: w regs_to_buf_eq n add.commute)
  have eq: "eMBMasterReqWriteMultipleHoldingRegister a adr n vs s = master_request a ?fill (of_nat (6 + 2 * length vs)) s"
    using assms(2,3) pl
    by (simp add: eMBMasterReqWriteMultipleHoldingRegister_def MB_MASTER_TOTAL_SLAVE_NUM_def)
  show ?thesis
  proof (cases "length vs \<le> 123")
    case True
    then have l: "length (write_pdu adr vs @ drop (6 + 2 * length vs) ?b) = 253" using len by simp
    have "unat (of_nat (6 + 2 * length vs) :: u8) = 6 + 2 * length vs"
      using True by (intro unat_of_nat_u8) linarith
    then have "unat (of_nat (6 + 2 * length vs) :: u8) \<le> 253" using True by linarith
    from master_request_ok[OF assms(1) _ l this, of ?fill a] show ?thesis
      using True fill unfolding eq by simp
  next
    case False
    then show ?thesis using fill unfolding eq by (simp add: master_request_None)
  qed
qed

section \<open>The master's copy of a bank\<close>

text \<open>
  What the register callbacks ask the master for: whether they work for it
  (\<open>vMBMasterSetCBRunInMasterMode\<close> is called with \<open>TRUE\<close> before a handler), and for which
  slave, which is what the last request set.
\<close>

definition asks_master :: "mb_master \<Rightarrow> mb_regs \<Rightarrow> mb_regs" where
  "asks_master s r = r \<lparr> cb_master := xMBMasterGetCBRunInMasterMode s, cb_dest := ucMBMasterGetDestAddress s \<rparr>"

lemma asks_master_request:
  assumes "request s a b n s'" "wf_regs r"
  shows "cb_master (asks_master (vMBMasterSetCBRunInMasterMode True s') r)"
    "cb_dest (asks_master (vMBMasterSetCBRunInMasterMode True s') r) = a"
    "wf_regs (asks_master (vMBMasterSetCBRunInMasterMode True s') r)"
    "usMRegHoldBuf (asks_master (vMBMasterSetCBRunInMasterMode True s') r) = usMRegHoldBuf r"
  using assms
  by (simp_all add: asks_master_def request_def xMBMasterGetCBRunInMasterMode_def vMBMasterSetCBRunInMasterMode_def
      ucMBMasterGetDestAddress_def wf_regs_def)

lemma hold_master:
  assumes "wf_regs r" "cb_master r" "unat (cb_dest r) < 16" "p + 2 * unat n \<le> length buf"
    "1 \<le> unat a" "unat a + unat n \<le> 101"
  shows "\<exists>r'. eMBRegHoldingCB r buf p a n m = Some (MB_ENOERR, r', buf) \<and>
    usMRegHoldBuf r' = (usMRegHoldBuf r)[unat (cb_dest r) :=
      take (unat a - 1) (usMRegHoldBuf r ! unat (cb_dest r)) @ bytes_regs (take (2 * unat n) (drop p buf)) @
      drop (unat a - 1 + unat n) (usMRegHoldBuf r ! unat (cb_dest r))] \<and>
    usSRegHoldBuf r' = usSRegHoldBuf r"
proof -
  let ?d = "unat (cb_dest r)"
  have l: "length (usMRegHoldBuf r) = 16" "length (usMRegHoldBuf r ! ?d) = 100"
    using assms(1,3) by (auto simp: wf_regs_def list_all_length)
  then have b: "pick_bank usMRegHoldBuf usSRegHoldBuf r = Some (usMRegHoldBuf r ! ?d)"
    using assms(2,3) by (simp add: pick_bank_master)
  have i: "unat a - 1 + unat n \<le> 100" using assms(5,6) by linarith
  show ?thesis
    using assms l(2) i
    by (simp add: eMBRegHoldingCB_def Let_def b bank_consts buf_to_regs_eq put_bank_def)
      (simp add: toggle_led_def)
qed

lemma hold_master_None:
  assumes "wf_regs r" "cb_master r" "unat (cb_dest r) = 16" "1 \<le> unat a" "unat a + unat n \<le> 101"
  shows "eMBRegHoldingCB r buf p a n m = None"
  using assms by (simp add: eMBRegHoldingCB_def Let_def bank_consts pick_bank_def wf_regs_def cget_def)

text \<open>The handlers of the responses, on the PDU that the request left in the send buffer.\<close>

lemma row_length: "wf_regs r \<Longrightarrow> i < 16 \<Longrightarrow> length (usMRegHoldBuf r) = 16 \<and> length (usMRegHoldBuf r ! i) = 100"
  by (auto simp: wf_regs_def list_all_length)

lemma read_response:
  assumes r: "wf_regs r" "cb_master r" and b: "b = read_pdu 3 adr n @ z"
    and f: "f = [3, of_nat (2 * unat n)] @ reg_bytes vs @ z'" "length vs = unat n"
    and n: "1 \<le> unat n" "unat adr + unat n \<le> 100"
  shows "unat (cb_dest r) < 16 \<Longrightarrow> \<exists>r'. eMBMasterFuncReadHoldingRegister r b f (of_nat (2 + 2 * unat n)) =
      Some (MB_EX_NONE, r', b, f) \<and> usMRegHoldBuf r' = (usMRegHoldBuf r)[unat (cb_dest r) :=
        take (unat adr) (usMRegHoldBuf r ! unat (cb_dest r)) @ vs @
        drop (unat adr + unat n) (usMRegHoldBuf r ! unat (cb_dest r))]"
    and "unat (cb_dest r) = 16 \<Longrightarrow> eMBMasterFuncReadHoldingRegister r b f (of_nat (2 + 2 * unat n)) = None"
proof -
  let ?m = "unat n"
  have a1: "unat (adr + 1) = unat adr + 1" using n(2) by (simp add: unat_word_ariths)
  have len: "unat (of_nat (2 + 2 * ?m) :: u16) = 2 + 2 * ?m" using n(2) by (intro unat_of_nat_u16) simp
  have fb: "f ! 1 = of_nat (2 * ?m)" "take (2 * ?m) (drop 2 f) = reg_bytes vs" "2 + 2 * ?m \<le> length f"
    using f(2) by (simp_all add: f(1))
  have lo: "ucast (lo8 n) = n" using n(2) by (intro ucast_lo8) simp
  have cnt: "read_count b f = Some (n, True)"
  proof -
    have "unat (of_nat (2 * ?m) :: u8) = 2 * ?m" using n(2) by (intro unat_of_nat_u8) simp
    moreover have "1 \<le> n" using n(1) by (simp add: word_le_nat_alt)
    moreover have "1 < length f" using fb(3) by simp
    ultimately show ?thesis using fb(1) lo by (simp add: read_count_def b read_pdu_def Let_def)
  qed
  have fr: "frame16 b 1 = Some adr" by (simp add: b read_pdu_def)
  have l2: "(1 + 1 :: u16) \<le> of_nat (2 + 2 * ?m)" unfolding word_le_nat_alt len by simp
  have c: "1 \<le> unat (adr + 1)" "unat (adr + 1) + ?m \<le> 101" using n(2) a1 by simp_all
  show "\<exists>r'. eMBMasterFuncReadHoldingRegister r b f (of_nat (2 + 2 * ?m)) =
      Some (MB_EX_NONE, r', b, f) \<and> usMRegHoldBuf r' = (usMRegHoldBuf r)[unat (cb_dest r) :=
        take (unat adr) (usMRegHoldBuf r ! unat (cb_dest r)) @ vs @
        drop (unat adr + ?m) (usMRegHoldBuf r ! unat (cb_dest r))]" if d: "unat (cb_dest r) < 16"
  proof -
    obtain r' where r': "eMBRegHoldingCB r f 2 (adr + 1) n MB_REG_READ = Some (MB_ENOERR, r', f)"
      "usMRegHoldBuf r' = (usMRegHoldBuf r)[unat (cb_dest r) :=
        take (unat adr) (usMRegHoldBuf r ! unat (cb_dest r)) @ vs @
        drop (unat adr + ?m) (usMRegHoldBuf r ! unat (cb_dest r))]"
      using hold_master[OF r d fb(3) c, of MB_REG_READ] a1 fb(2) by auto
    then show ?thesis using l2 by (simp add: eMBMasterFuncReadHoldingRegister_def fr[simplified] cnt r'(1))
  qed
  show "eMBMasterFuncReadHoldingRegister r b f (of_nat (2 + 2 * ?m)) = None" if d: "unat (cb_dest r) = 16"
    using hold_master_None[OF r d c] l2 by (simp add: eMBMasterFuncReadHoldingRegister_def fr[simplified] cnt)
qed

lemma write_response:
  assumes r: "wf_regs r" "cb_master r" and b: "b = write_pdu adr vs @ z"
    and n: "1 \<le> length vs" "unat adr + length vs \<le> 100"
  shows "unat (cb_dest r) < 16 \<Longrightarrow> \<exists>r'. eMBMasterFuncWriteMultipleHoldingRegister r b f 5 =
      Some (MB_EX_NONE, r', b, f) \<and> usMRegHoldBuf r' = (usMRegHoldBuf r)[unat (cb_dest r) :=
        take (unat adr) (usMRegHoldBuf r ! unat (cb_dest r)) @ vs @
        drop (unat adr + length vs) (usMRegHoldBuf r ! unat (cb_dest r))]"
    and "unat (cb_dest r) = 16 \<Longrightarrow> eMBMasterFuncWriteMultipleHoldingRegister r b f 5 = None"
proof -
  let ?n = "length vs"
  have le: "?n \<le> 100" using n(2) by linarith
  have a1: "unat (adr + 1) = unat adr + 1" using n(2) by (simp add: unat_word_ariths)
  have fr: "frame16 b 1 = Some adr" "frame16 b 3 = Some (of_nat ?n)" "cget b 5 = Some (of_nat (2 * ?n))"
    by (simp_all add: b write_pdu_def)
  have cn: "unat (of_nat ?n :: u16) = ?n" "unat (of_nat (2 * ?n) :: u8) = 2 * ?n"
    using le by (simp_all only: unat_of_nat_u16 unat_of_nat_u8)
  have vals: "take (2 * ?n) (drop 6 b) = reg_bytes vs" "6 + 2 * unat (of_nat ?n :: u16) \<le> length b"
    unfolding cn by (simp_all add: b write_pdu_def)
  have c: "1 \<le> unat (adr + 1)" "unat (adr + 1) + unat (of_nat ?n :: u16) \<le> 101"
    unfolding cn(1) using n(2) a1 by simp_all
  show "\<exists>r'. eMBMasterFuncWriteMultipleHoldingRegister r b f 5 =
      Some (MB_EX_NONE, r', b, f) \<and> usMRegHoldBuf r' = (usMRegHoldBuf r)[unat (cb_dest r) :=
        take (unat adr) (usMRegHoldBuf r ! unat (cb_dest r)) @ vs @
        drop (unat adr + ?n) (usMRegHoldBuf r ! unat (cb_dest r))]" if d: "unat (cb_dest r) < 16"
  proof -
    obtain r' where r': "eMBRegHoldingCB r b 6 (adr + 1) (of_nat ?n) MB_REG_WRITE = Some (MB_ENOERR, r', b)"
      "usMRegHoldBuf r' = (usMRegHoldBuf r)[unat (cb_dest r) :=
        take (unat adr) (usMRegHoldBuf r ! unat (cb_dest r)) @ vs @
        drop (unat adr + ?n) (usMRegHoldBuf r ! unat (cb_dest r))]"
      using hold_master[OF r d vals(2) c, of MB_REG_WRITE] unfolding cn(1) using a1 vals(1) by auto
    then show ?thesis by (simp add: eMBMasterFuncWriteMultipleHoldingRegister_def fr[simplified] cn[simplified] r'(1))
  qed
  show "eMBMasterFuncWriteMultipleHoldingRegister r b f 5 = None" if d: "unat (cb_dest r) = 16"
    using hold_master_None[OF r d c]
    by (simp add: eMBMasterFuncWriteMultipleHoldingRegister_def fr[simplified] cn[simplified])
qed

section \<open>Properties\<close>



text \<open>
  A request of the master leaves on the line as the bare PDU, without the address
  of the slave and without a CRC.
\<close>

theorem request_leaves_without_address:
  assumes "mbm_inv s" "eMBState s = STATE_ENABLED" "\<not> xMBMasterGetIsBusy s"
    "eRcvState (rtu s) = STATE_M_RX_IDLE" "unat a \<le> 16"
  shows "\<exists>s' s2 r. eMBMasterReqReadHoldingRegister a adr n s = Some (MB_MRE_NO_ERR, s') \<and>
    eMBMasterPoll s' = Some (MB_ENOERR, s2) \<and> tx_irqs 6 (rtu s2) = Some r \<and>
    wire r = wire (rtu s) @ [3, hi8 adr, lo8 adr, hi8 n, lo8 n]"
proof -
  obtain s' where s': "eMBMasterReqReadHoldingRegister a adr n s = Some (MB_MRE_NO_ERR, s')"
    "request s a (read_pdu 3 adr n @ drop 5 (ucMasterRTUSndBuf (rtu s))) 5 s'"
    using read_request[OF assms(1,3,5)] by blast
  have "pdu s' = read_pdu 3 adr n" using s'(2) by (simp add: pdu_def request_def)
  moreover have "a \<le> 16" using assms(5) by (simp add: word_le_nat_alt)
  moreover have "Suc (unat (5 :: u8)) = 6" by simp
  ultimately show ?thesis
    using request_sent[OF s'(2) assms(2,4)] s'(1) unfolding read_pdu_def by metis
qed

text \<open>
  The request to write multiple registers leaves the send buffer of the master
  exactly when it is given more than 123 registers.
\<close>

theorem write_request_overflows:
  assumes "mbm_inv s" "\<not> xMBMasterGetIsBusy s" "unat a \<le> 16" "length vs < 65536"
  shows "eMBMasterReqWriteMultipleHoldingRegister a adr (of_nat (length vs)) vs s = None \<longleftrightarrow> 123 < length vs"
  using write_request[OF assms, of adr] by (auto split: if_splits)

text \<open>
  The request to write a coil of any slave is granted exactly for the coils 0 to 16: what
  is compared with the number of slaves is the address of the coil, not that of the slave.
\<close>

theorem write_coil_checks_coil:
  assumes "mbm_inv s" "\<not> xMBMasterGetIsBusy s"
  shows "(\<exists>s'. eMBMasterReqWriteCoil a coil data s = Some (MB_MRE_NO_ERR, s')) \<longleftrightarrow>
    unat coil \<le> 16 \<and> (data = 0xFF00 \<or> data = 0)"
proof -
  let ?p = "[MB_FUNC_WRITE_SINGLE_COIL, hi8 coil, lo8 coil, hi8 data, lo8 data]"
  have len: "length (ucMasterRTUSndBuf (rtu s)) = 253" using assms(1) by (simp add: mbm_inv_def rtu_inv_def)
  then have "cwrite (ucMasterRTUSndBuf (rtu s)) 0 ?p = Some (?p @ drop (length ?p) (ucMasterRTUSndBuf (rtu s)))"
    by (intro cwrite_0) simp
  then obtain s' where "master_request a (\<lambda>b. cwrite b 0 ?p) 5 s = Some (MB_MRE_NO_ERR, s')"
    using master_request_ok[OF assms(1), of "\<lambda>b. cwrite b 0 ?p" _ 5 a] len by auto
  then show ?thesis
    using assms(2) by (simp add: eMBMasterReqWriteCoil_def MB_MASTER_TOTAL_SLAVE_NUM_def)
qed

text \<open>
  A request to the slave 16 is granted, but its response leaves the bank of the master,
  which has the rows 0 to 15 and is indexed by the address.
\<close>

theorem destination_16_faults:
  assumes "mbm_inv s" "\<not> xMBMasterGetIsBusy s" "wf_regs rm" "cb_master rm" "cb_dest rm = 16"
    "1 \<le> unat n" "unat adr + unat n \<le> 100" "2 \<le> l" "2 \<le> length f" "unat (f ! 1) = 2 * unat n"
  shows "\<exists>s'. eMBMasterReqReadHoldingRegister 16 adr n s = Some (MB_MRE_NO_ERR, s') \<and>
    eMBMasterFuncReadHoldingRegister rm (ucMasterRTUSndBuf (rtu s')) f l = None"
proof -
  obtain s' where s': "eMBMasterReqReadHoldingRegister 16 adr n s = Some (MB_MRE_NO_ERR, s')"
    "request s 16 (read_pdu 3 adr n @ drop 5 (ucMasterRTUSndBuf (rtu s))) 5 s'"
    using read_request[OF assms(1,2), of 16 adr n] by auto
  define b where "b = ucMasterRTUSndBuf (rtu s')"
  have b: "b = read_pdu 3 adr n @ drop 5 (ucMasterRTUSndBuf (rtu s))" using s'(2) by (simp add: request_def b_def)
  have a1: "unat (adr + 1) = unat adr + 1" using assms(7) by (simp add: unat_word_ariths)
  have "ucast (lo8 n) = n" using assms(7) by (intro ucast_lo8) simp
  moreover have "1 \<le> n" using assms(6) by (simp add: word_le_nat_alt)
  ultimately have cnt: "read_count b f = Some (n, True)"
    using assms(9,10) by (simp add: read_count_def b read_pdu_def Let_def)
  have "frame16 b 1 = Some adr" by (simp add: b read_pdu_def)
  moreover have "eMBRegHoldingCB rm f 2 (adr + 1) n MB_REG_READ = None"
    using hold_master_None[OF assms(3,4)] assms(5,7) a1 by simp
  ultimately have "eMBMasterFuncReadHoldingRegister rm b f l = None"
    using assms(8) cnt by (simp add: eMBMasterFuncReadHoldingRegister_def)
  then show ?thesis using s'(1) by (simp add: b_def)
qed

section \<open>Witnesses\<close>

definition master_regs :: "u8 \<Rightarrow> mb_regs" where
  "master_regs a = init_regs \<lparr> cb_master := True, cb_dest := a \<rparr>"

lemma exchange_ready:
  "\<not> xMBMasterGetIsBusy enabled_master" "slave_ok init_regs" "wf_regs (master_regs a)"
  "cb_master (master_regs a)" "cb_dest (master_regs a) = a"
  by (simp_all add: xMBMasterGetIsBusy_def enabled_master_def idle_rtu_def slave_ok_def init_regs_def
      wf_regs_def list_all_length master_regs_def)

definition filled_regs :: mb_regs where
  "filled_regs = init_regs \<lparr> usSRegHoldBuf := replicate 100 7 \<rparr>"

lemma filled_regs_ready: "slave_ok filled_regs" "take 2 (drop 10 (usSRegHoldBuf filled_regs)) = [7, 7]"
  using exchange_ready(2) by (simp_all add: filled_regs_def slave_ok_def wf_regs_def numeral_eq_Suc)



theorem request_leaves_without_address_witness:
  "\<exists>s' s2 r. eMBMasterReqReadHoldingRegister 6 10 2 enabled_master = Some (MB_MRE_NO_ERR, s') \<and>
    eMBMasterPoll s' = Some (MB_ENOERR, s2) \<and> tx_irqs 6 (rtu s2) = Some r \<and> wire r = [3, 0, 10, 0, 2]"
  using request_leaves_without_address[OF enabled_master_ready(1,2) exchange_ready(1) enabled_master_ready(3),
      of 6 10 2]
  by (simp add: enabled_master_def idle_rtu_def hi8_def lo8_def del: tx_irqs.simps)

theorem write_request_overflows_witness:
  "eMBMasterReqWriteMultipleHoldingRegister 6 10 124 (replicate 124 0) enabled_master = None"
  using write_request_overflows[OF enabled_master_ready(1) exchange_ready(1), of 6 "replicate 124 0" 10] by simp

theorem write_coil_checks_coil_witness:
  "\<exists>s'. eMBMasterReqWriteCoil 200 16 0xFF00 enabled_master = Some (MB_MRE_NO_ERR, s')"
  using write_coil_checks_coil[where s = enabled_master and a = 200 and coil = 16 and data = "0xFF00"]
    enabled_master_ready(1) exchange_ready(1) by simp

theorem destination_16_faults_witness:
  "\<exists>s'. eMBMasterReqReadHoldingRegister 16 10 1 enabled_master = Some (MB_MRE_NO_ERR, s') \<and>
    eMBMasterFuncReadHoldingRegister (master_regs 16) (ucMasterRTUSndBuf (rtu s')) [3, 2, 0, 7] 4 = None"
proof -
  have c: "1 \<le> unat (1 :: u16)" "unat (10 :: u16) + unat (1 :: u16) \<le> 100" "(2 :: u16) \<le> 4"
    "2 \<le> length [3 :: u8, 2, 0, 7]" "unat ([3 :: u8, 2, 0, 7] ! 1) = 2 * unat (1 :: u16)" by simp_all
  show ?thesis by (rule destination_16_faults[OF enabled_master_ready(1) exchange_ready(1,3-5) c])
qed

end
