(* ===== verification/MbSlave.thy ===== *)
theory MbSlave
  imports MbRtu MbM MbFuncs
begin

text \<open>
  The slave stack of \<open>mb.c\<close>: its life cycle, the table of function handlers and the
  poll that answers a request.  A function pointer is a constructor of
  \<open>pxMBFunctionHandler\<close>; what a handler of the application does is an argument.
  The frame the poll works on is the rest of the buffer from the offset in
  \<open>s_frame\<close> on.
\<close>

unbundle bit_operations_syntax

section \<open>State\<close>

datatype pxMBFunctionHandler =
    P_eMBFuncReportSlaveID | P_eMBFuncReadInputRegister | P_eMBFuncReadHoldingRegister
  | P_eMBFuncWriteMultipleHoldingRegister | P_eMBFuncWriteHoldingRegister
  | P_eMBFuncReadWriteMultipleHoldingRegister | P_eMBFuncReadCoils | P_eMBFuncWriteCoil
  | P_eMBFuncWriteMultipleCoils | P_eMBFuncReadDiscreteInputs | P_application nat

type_synonym handler_table = "(u8 \<times> pxMBFunctionHandler option) list"

record mb_slave =
  srtu :: rtu_slave
  sregs :: mb_regs
  sid :: slave_id
  s_selected :: bool
  s_state :: mb_state
  ucMBAddress :: u8
  xFuncHandlers :: handler_table
  s_frame :: "nat option"
  ucRcvAddress :: u8
  s_FunctionCode :: u8
  s_usLength :: u16
  eException :: eMBException

definition xFuncHandlers_init :: handler_table where
  "xFuncHandlers_init =
     [(MB_FUNC_OTHER_REPORT_SLAVEID, Some P_eMBFuncReportSlaveID),
      (MB_FUNC_READ_INPUT_REGISTER, Some P_eMBFuncReadInputRegister),
      (MB_FUNC_READ_HOLDING_REGISTER, Some P_eMBFuncReadHoldingRegister),
      (MB_FUNC_WRITE_MULTIPLE_REGISTERS, Some P_eMBFuncWriteMultipleHoldingRegister),
      (MB_FUNC_WRITE_REGISTER, Some P_eMBFuncWriteHoldingRegister),
      (MB_FUNC_READWRITE_MULTIPLE_REGISTERS, Some P_eMBFuncReadWriteMultipleHoldingRegister),
      (MB_FUNC_READ_COILS, Some P_eMBFuncReadCoils),
      (MB_FUNC_WRITE_SINGLE_COIL, Some P_eMBFuncWriteCoil),
      (MB_FUNC_WRITE_MULTIPLE_COILS, Some P_eMBFuncWriteMultipleCoils),
      (MB_FUNC_READ_DISCRETE_INPUTS, Some P_eMBFuncReadDiscreteInputs)] @ replicate 6 (0, None)"

section \<open>Life cycle\<close>

definition eMBInit ::
    "eMBMode \<Rightarrow> u8 \<Rightarrow> u8 \<Rightarrow> u32 \<Rightarrow> eMBParity \<Rightarrow> mb_slave \<Rightarrow> (eMBErrorCode \<times> mb_slave) option" where
  "eMBInit eMode ucSlaveAddress ucPort ulBaudRate eParity s =
    (if ucSlaveAddress = MB_ADDRESS_BROADCAST \<or> ucSlaveAddress < MB_ADDRESS_MIN \<or>
        MB_ADDRESS_MAX < ucSlaveAddress
     then Some (MB_EINVAL, s)
     else do {
       let s = s \<lparr> ucMBAddress := ucSlaveAddress \<rparr>;
       (eStatus, s) \<leftarrow> (case eMode of
           MB_RTU \<Rightarrow> do {
             (e, r) \<leftarrow> eMBRTUInit ucSlaveAddress ucPort ulBaudRate eParity (srtu s);
             Some (e, s \<lparr> srtu := r, s_selected := True \<rparr>)
           }
         | _ \<Rightarrow> Some (MB_EINVAL, s));
       if eStatus = MB_ENOERR then
         (let (ok, q) = xMBPortEventInit (s_queue (srtu s));
              s = s \<lparr> srtu := (srtu s) \<lparr> s_queue := q \<rparr> \<rparr>
          in if \<not> ok then Some (MB_EPORTERR, s)
             else Some (eStatus, s \<lparr> s_state := STATE_DISABLED \<rparr>))
       else Some (eStatus, s)
     })"

definition eMBClose :: "mb_slave \<Rightarrow> eMBErrorCode \<times> mb_slave" where
  "eMBClose s = (if s_state s = STATE_DISABLED then MB_ENOERR else MB_EILLSTATE, s)"

definition eMBEnable :: "mb_slave \<Rightarrow> (eMBErrorCode \<times> mb_slave) option" where
  "eMBEnable s =
    (if s_state s = STATE_DISABLED then
       if s_selected s
       then Some (MB_ENOERR, s \<lparr> srtu := eMBRTUStart (srtu s), s_state := STATE_ENABLED \<rparr>)
       else None
     else Some (MB_EILLSTATE, s))"

definition eMBDisable :: "mb_slave \<Rightarrow> (eMBErrorCode \<times> mb_slave) option" where
  "eMBDisable s =
    (if s_state s = STATE_ENABLED then
       if s_selected s
       then Some (MB_ENOERR, s \<lparr> srtu := eMBRTUStop (srtu s), s_state := STATE_DISABLED \<rparr>)
       else None
     else if s_state s = STATE_DISABLED then Some (MB_ENOERR, s)
     else Some (MB_EILLSTATE, s))"

section \<open>The table of handlers\<close>

text \<open>The first entry that is free or already has this handler; \<open>None\<close> when there is none.\<close>

fun put_handler :: "u8 \<Rightarrow> pxMBFunctionHandler \<Rightarrow> handler_table \<Rightarrow> handler_table option" where
  "put_handler c p [] = None"
| "put_handler c p (h # t) =
    (if snd h = None \<or> snd h = Some p then Some ((c, Some p) # t) else map_option (Cons h) (put_handler c p t))"

fun remove_handler :: "u8 \<Rightarrow> handler_table \<Rightarrow> handler_table" where
  "remove_handler c [] = []"
| "remove_handler c (h # t) = (if fst h = c then (0, None) # t else h # remove_handler c t)"

definition eMBRegisterCB ::
    "u8 \<Rightarrow> pxMBFunctionHandler option \<Rightarrow> mb_slave \<Rightarrow> eMBErrorCode \<times> mb_slave" where
  "eMBRegisterCB ucFunctionCode pxHandler s =
    (if 0 < ucFunctionCode \<and> ucFunctionCode \<le> 127 then
       (case pxHandler of
          Some p \<Rightarrow> (case put_handler ucFunctionCode p (xFuncHandlers s) of
              Some t \<Rightarrow> (MB_ENOERR, s \<lparr> xFuncHandlers := t \<rparr>)
            | None \<Rightarrow> (MB_ENORES, s))
        | None \<Rightarrow> (MB_ENOERR, s \<lparr> xFuncHandlers := remove_handler ucFunctionCode (xFuncHandlers s) \<rparr>))
     else (MB_EINVAL, s))"

text \<open>The search of the poll: it ends at the first entry whose code is 0.\<close>

fun find_handler :: "u8 \<Rightarrow> handler_table \<Rightarrow> pxMBFunctionHandler option option" where
  "find_handler c [] = None"
| "find_handler c (h # t) =
    (if fst h = 0 then None else if fst h = c then Some (snd h) else find_handler c t)"

fun call_handler :: "(nat \<Rightarrow> handler) \<Rightarrow> slave_id \<Rightarrow> pxMBFunctionHandler \<Rightarrow> handler" where
  "call_handler app i P_eMBFuncReportSlaveID r f n =
     map_option (\<lambda>(e, f, n). (e, r, f, n)) (eMBFuncReportSlaveID i f n)"
| "call_handler app i P_eMBFuncReadInputRegister r f n = eMBFuncReadInputRegister r f n"
| "call_handler app i P_eMBFuncReadHoldingRegister r f n = eMBFuncReadHoldingRegister r f n"
| "call_handler app i P_eMBFuncWriteMultipleHoldingRegister r f n = eMBFuncWriteMultipleHoldingRegister r f n"
| "call_handler app i P_eMBFuncWriteHoldingRegister r f n = eMBFuncWriteHoldingRegister r f n"
| "call_handler app i P_eMBFuncReadWriteMultipleHoldingRegister r f n =
     eMBFuncReadWriteMultipleHoldingRegister r f n"
| "call_handler app i P_eMBFuncReadCoils r f n = eMBFuncReadCoils r f n"
| "call_handler app i P_eMBFuncWriteCoil r f n = eMBFuncWriteCoil r f n"
| "call_handler app i P_eMBFuncWriteMultipleCoils r f n = eMBFuncWriteMultipleCoils r f n"
| "call_handler app i P_eMBFuncReadDiscreteInputs r f n = eMBFuncReadDiscreteInputs r f n"
| "call_handler app i (P_application k) r f n = app k r f n"

section \<open>The poll\<close>

text \<open>
  \<open>run_handler\<close>: the handler of the function code works on the frame in the buffer.
  \<open>answer\<close>: the exception, if there was one, in place of the response, and the sending.
\<close>

definition run_handler :: "(nat \<Rightarrow> handler) \<Rightarrow> nat \<Rightarrow> mb_slave \<Rightarrow> mb_slave option" where
  "run_handler app p s = do {
     let buf = ucRTUBuf (srtu s);
     let f = drop p buf;
     c \<leftarrow> cget f 0;
     (e, r, f, n) \<leftarrow> (case find_handler c (xFuncHandlers s) of
         None \<Rightarrow> Some (MB_EX_ILLEGAL_FUNCTION, sregs s, f, s_usLength s)
       | Some None \<Rightarrow> None
       | Some (Some h) \<Rightarrow> call_handler app (sid s) h (sregs s) f (s_usLength s));
     Some (s \<lparr> srtu := (srtu s) \<lparr> ucRTUBuf := take p buf @ f \<rparr>, sregs := r, s_FunctionCode := c,
               s_usLength := n, eException := e \<rparr>)
   }"

definition answer :: "nat \<Rightarrow> mb_slave \<Rightarrow> mb_slave option" where
  "answer p s = do {
     s \<leftarrow> (if eException s \<noteq> MB_EX_NONE then do {
            buf \<leftarrow> cset (ucRTUBuf (srtu s)) p (s_FunctionCode s OR MB_FUNC_ERROR);
            buf \<leftarrow> cset buf (p + 1) (ex_code (eException s));
            Some (s \<lparr> srtu := (srtu s) \<lparr> ucRTUBuf := buf \<rparr>, s_usLength := 2 \<rparr>)
          } else Some s);
     (_, r) \<leftarrow> eMBRTUSend (ucMBAddress s) p (s_usLength s) (srtu s);
     Some (s \<lparr> srtu := r \<rparr>)
   }"

definition eMBPoll :: "(nat \<Rightarrow> handler) \<Rightarrow> mb_slave \<Rightarrow> (eMBErrorCode \<times> mb_slave) option" where
  "eMBPoll app s =
    (if s_state s \<noteq> STATE_ENABLED then Some (MB_EILLSTATE, s) else
     let (e, q) = xMBPortEventGet (s_queue (srtu s));
         s = s \<lparr> srtu := (srtu s) \<lparr> s_queue := q \<rparr> \<rparr>
     in case e of
          None \<Rightarrow> Some (MB_ENOERR, s)
        | Some EV_READY \<Rightarrow> Some (MB_ENOERR, s)
        | Some EV_FRAME_RECEIVED \<Rightarrow> do {
            (eStatus, a, p, n) \<leftarrow> eMBRTUReceive (ucRcvAddress s, s_frame s, s_usLength s) (srtu s);
            let s = s \<lparr> ucRcvAddress := a, s_frame := p, s_usLength := n \<rparr>;
            Some (MB_ENOERR,
              if eStatus = MB_ENOERR \<and> (a = ucMBAddress s \<or> a = MB_ADDRESS_BROADCAST)
              then s \<lparr> srtu := snd (s_event_post EV_EXECUTE (srtu s)) \<rparr> else s)
          }
        | Some EV_EXECUTE \<Rightarrow> do {
            p \<leftarrow> s_frame s;
            s \<leftarrow> run_handler app p s;
            s \<leftarrow> (if ucRcvAddress s \<noteq> MB_ADDRESS_BROADCAST then answer p s else Some s);
            Some (MB_ENOERR, s)
          }
        | Some EV_FRAME_SENT \<Rightarrow> Some (MB_ENOERR, s))"

section \<open>What the handlers leave\<close>

lemma write_bits_length: "write_bits c off n b p = Some c' \<Longrightarrow> length c' = length c"
  using write_bits_Some[of n off c p b] write_bits_None[of n c off b p]
  by (cases "nbytes n = 0"; cases "off div 8 + nbytes n < length c"; cases "p + nbytes n \<le> length b") auto

lemma read_bits_length: "read_bits c off n b p = Some b' \<Longrightarrow> length b' = length b"
  using read_bits_Some[of off n c p b] read_bits_None[of c off n b p]
  by (cases "off div 8 + n div 8 + 1 < length c"; cases "p + n div 8 + 1 \<le> length b") auto

lemma coils_keep:
  assumes "eMBRegCoilsCB r f p a n m = Some (e, r', f')" "slave_ok r"
  shows "slave_ok r' \<and> length f' = length f"
  using assms write_bits_length read_bits_length
  by (auto simp: eMBRegCoilsCB_def slave_ok_def wf_regs_def bind_eq_Some_conv
      split: if_splits eMBRegisterMode.splits)

lemma discrete_keep:
  assumes "eMBRegDiscreteCB r f p a n = Some (e, r', f')" "slave_ok r"
  shows "slave_ok r' \<and> length f' = length f"
  using assms read_bits_length
  by (auto simp: eMBRegDiscreteCB_def slave_ok_def wf_regs_def bind_eq_Some_conv split: if_splits)

text \<open>
  A handler may leave its buffers (the coils do, for some ranges); when it returns, the
  banks and the length of the frame are as before, and the response fits into a PDU.
\<close>

definition handler_keeps :: "handler \<Rightarrow> bool" where
  "handler_keeps h \<longleftrightarrow> (\<forall>r f l e r' f' l'. slave_ok r \<longrightarrow> 255 \<le> length f \<longrightarrow> h r f l = Some (e, r', f', l') \<longrightarrow>
     slave_ok r' \<and> length f' = length f \<and> (l' = l \<or> unat l' \<le> 252))"

lemma handler_ok_keeps: "handler_ok h \<Longrightarrow> handler_keeps h"
  unfolding handler_ok_def handler_keeps_def slave_ok_def
proof (intro allI impI)
  fix r f l e r' f' l'
  assume h: "\<forall>r f l. wf_regs r \<longrightarrow> \<not> cb_master r \<longrightarrow> 255 \<le> length f \<longrightarrow>
      (\<exists>e r' f' l'. h r f l = Some (e, r', f', l') \<and> wf_regs r' \<and> \<not> cb_master r' \<and>
        length f' = length f \<and> (l' = l \<or> unat l' \<le> 252))"
    and r: "wf_regs r \<and> \<not> cb_master r" "255 \<le> length f" "h r f l = Some (e, r', f', l')"
  from h[rule_format, of r f l] r
  show "(wf_regs r' \<and> \<not> cb_master r') \<and> length f' = length f \<and> (l' = l \<or> unat l' \<le> 252)" by auto
qed

lemma ucNBytes_le: "n < 0x07D0 \<Longrightarrow> unat (2 + ucast (ucNBytes n) :: u16) \<le> 252"
proof -
  assume n: "n < 0x07D0"
  define m where "m = unat n"
  have m: "m < 2000" using n by (simp add: m_def word_less_nat_alt)
  have "unat (ucNBytes n) \<le> 250"
  proof (cases "n AND 0x0007 \<noteq> 0")
    case True
    have "m div 8 + 1 \<le> 250" using m by linarith
    moreover have "unat (n div 8 + 1) = m div 8 + 1" using m by (simp add: unat_word_ariths unat_div m_def)
    ultimately show ?thesis using True by (simp add: ucNBytes_def unsigned_ucast_eq take_bit_nat_eq_self)
  next
    case False
    have "m div 8 \<le> 250" using m by simp
    then show ?thesis using False
      by (simp add: ucNBytes_def unsigned_ucast_eq unat_div m_def take_bit_nat_eq_self)
  qed
  then show ?thesis by (simp add: unat_word_ariths)
qed

lemma coil_handlers_keep:
  "handler_keeps eMBFuncReadCoils" "handler_keeps eMBFuncWriteCoil"
  "handler_keeps eMBFuncWriteMultipleCoils" "handler_keeps eMBFuncReadDiscreteInputs"
  unfolding handler_keeps_def
  by (auto simp: eMBFuncReadCoils_def eMBFuncWriteCoil_def eMBFuncWriteMultipleCoils_def
      eMBFuncReadDiscreteInputs_def bind_eq_Some_conv cset_Some ucNBytes_le
      dest!: coils_keep discrete_keep split: if_splits)

section \<open>Invariant\<close>

definition table_ok :: "handler_table \<Rightarrow> bool" where
  "table_ok t \<longleftrightarrow> (\<forall>h \<in> set t. fst h \<noteq> 0 \<longrightarrow> snd h \<noteq> None)"

definition sid_ok :: "slave_id \<Rightarrow> bool" where
  "sid_ok i \<longleftrightarrow> length (ucMBSlaveID i) = 32 \<and> unat (usMBSlaveIDLen i) \<le> 32"

definition s_queued :: "rtu_slave \<Rightarrow> eMBEventType \<Rightarrow> bool" where
  "s_queued r e \<longleftrightarrow> xEventInQueue (s_queue r) \<and> eQueuedEvent (s_queue r) = e"

definition mbs_inv :: "mb_slave \<Rightarrow> bool" where
  "mbs_inv s \<longleftrightarrow> srtu_inv (srtu s) \<and> slave_ok (sregs s) \<and> sid_ok (sid s) \<and> table_ok (xFuncHandlers s) \<and>
     (s_queued (srtu s) EV_EXECUTE \<longrightarrow> s_frame s = Some 1 \<and> unat (s_usLength s) \<le> 253)"

text \<open>The handlers that can leave their buffers: those of the bits, and those that are not known.\<close>

fun may_fault :: "pxMBFunctionHandler \<Rightarrow> bool" where
  "may_fault P_eMBFuncReadCoils = True"
| "may_fault P_eMBFuncWriteCoil = True"
| "may_fault P_eMBFuncWriteMultipleCoils = True"
| "may_fault P_eMBFuncReadDiscreteInputs = True"
| "may_fault (P_application k) = True"
| "may_fault _ = False"

lemma slave_id_ok:
  assumes "sid_ok i"
  shows "handler_ok (\<lambda>r f n. map_option (\<lambda>(e, f, n). (e, r, f, n)) (eMBFuncReportSlaveID i f n))"
proof -
  have "unat (1 + usMBSlaveIDLen i) = 1 + unat (usMBSlaveIDLen i)"
    using assms by (simp add: sid_ok_def unat_word_ariths)
  then show ?thesis
    using assms by (auto simp: handler_ok_def sid_ok_def eMBFuncReportSlaveID_def cwrite_def)
qed

lemma call_ok:
  assumes "sid_ok i"
  shows "\<not> may_fault h \<Longrightarrow> handler_ok (call_handler app i h)"
    and "(\<And>k. handler_keeps (app k)) \<Longrightarrow> handler_keeps (call_handler app i h)"
proof -
  have regs: "handler_ok eMBFuncWriteHoldingRegister" "handler_ok eMBFuncWriteMultipleHoldingRegister"
    "handler_ok eMBFuncReadHoldingRegister" "handler_ok eMBFuncReadWriteMultipleHoldingRegister"
    "handler_ok eMBFuncReadInputRegister"
    by (simp_all add: write_register_ok write_multiple_ok read_holding_ok read_write_ok read_input_ok)
  have eq: "call_handler app i P_eMBFuncReportSlaveID =
      (\<lambda>r f n. map_option (\<lambda>(e, f, n). (e, r, f, n)) (eMBFuncReportSlaveID i f n))"
    "call_handler app i P_eMBFuncReadInputRegister = eMBFuncReadInputRegister"
    "call_handler app i P_eMBFuncReadHoldingRegister = eMBFuncReadHoldingRegister"
    "call_handler app i P_eMBFuncWriteMultipleHoldingRegister = eMBFuncWriteMultipleHoldingRegister"
    "call_handler app i P_eMBFuncWriteHoldingRegister = eMBFuncWriteHoldingRegister"
    "call_handler app i P_eMBFuncReadWriteMultipleHoldingRegister = eMBFuncReadWriteMultipleHoldingRegister"
    "call_handler app i P_eMBFuncReadCoils = eMBFuncReadCoils"
    "call_handler app i P_eMBFuncWriteCoil = eMBFuncWriteCoil"
    "call_handler app i P_eMBFuncWriteMultipleCoils = eMBFuncWriteMultipleCoils"
    "call_handler app i P_eMBFuncReadDiscreteInputs = eMBFuncReadDiscreteInputs"
    "call_handler app i (P_application k) = app k" for k
    by (intro ext, simp)+
  show 1: "handler_ok (call_handler app i h)" if "\<not> may_fault h"
    using that by (cases h) (simp_all only: eq regs slave_id_ok[OF assms] may_fault.simps simp_thms)
  show "handler_keeps (call_handler app i h)" if "\<And>k. handler_keeps (app k)"
  proof (cases "may_fault h")
    case True
    then show ?thesis
      by (cases h) (simp_all only: eq coil_handlers_keep that may_fault.simps simp_thms)
  qed (use 1 handler_ok_keeps in blast)
qed

lemma table_find:
  assumes "table_ok t" "find_handler c t = Some p"
  shows "\<exists>h. p = Some h"
  using assms by (induction c t rule: find_handler.induct) (auto simp: table_ok_def split: if_splits)

lemma run_handler_inv:
  assumes "mbs_inv s" "unat (s_usLength s) \<le> 253" "\<And>k. handler_keeps (app k)"
  shows "(run_handler app 1 s = None \<longrightarrow>
      (\<exists>h. find_handler (ucRTUBuf (srtu s) ! 1) (xFuncHandlers s) = Some (Some h) \<and> may_fault h)) \<and>
    (\<forall>s'. run_handler app 1 s = Some s' \<longrightarrow> srtu_inv (srtu s') \<and> slave_ok (sregs s') \<and> sid s' = sid s \<and>
      xFuncHandlers s' = xFuncHandlers s \<and> s_queue (srtu s') = s_queue (srtu s) \<and>
      s_frame s' = s_frame s \<and> unat (s_usLength s') \<le> 253)"
proof -
  let ?B = "ucRTUBuf (srtu s)" and ?c = "ucRTUBuf (srtu s) ! 1"
  have len: "length ?B = 256" and ok: "slave_ok (sregs s)" "sid_ok (sid s)" "table_ok (xFuncHandlers s)"
    using assms(1) by (simp_all add: mbs_inv_def srtu_inv_def)
  have f: "length (drop 1 ?B) = 255" "drop 1 ?B ! 0 = ?c" "drop 1 ?B \<noteq> []" using len by (simp, simp, auto)
  consider "find_handler ?c (xFuncHandlers s) = None"
    | h where "find_handler ?c (xFuncHandlers s) = Some (Some h)"
    using table_find[OF ok(3)] by (cases "find_handler ?c (xFuncHandlers s)") auto
  then show ?thesis
  proof cases
    case 1
    then show ?thesis
      using assms(1,2) f len by (simp add: run_handler_def Let_def mbs_inv_def srtu_inv_def)
  next
    case (2 h)
    show ?thesis
    proof (cases "call_handler app (sid s) h (sregs s) (drop 1 ?B) (s_usLength s)")
      case None
      have "may_fault h"
      proof (rule ccontr)
        assume "\<not> may_fault h"
        then have "handler_ok (call_handler app (sid s) h)" using call_ok(1)[OF ok(2)] by blast
        from this[unfolded handler_ok_def, rule_format, of "sregs s" "drop 1 ?B" "s_usLength s"]
        show False using None ok(1) f(1) by (auto simp: slave_ok_def)
      qed
      then show ?thesis using None 2 f by (simp add: run_handler_def Let_def)
    next
      case (Some q)
      obtain e r' f' l' where q: "q = (e, r', f', l')" by (cases q)
      have "handler_keeps (call_handler app (sid s) h)" using call_ok(2)[OF ok(2) assms(3)] .
      then have "slave_ok r'" "length f' = 255" "l' = s_usLength s \<or> unat l' \<le> 252"
        using Some f(1) ok(1) unfolding q handler_keeps_def by (metis order_refl)+
      then show ?thesis
        using Some 2 q f len assms(1,2)
        by (auto simp: run_handler_def Let_def mbs_inv_def srtu_inv_def)
    qed
  qed
qed

section \<open>The poll and the interrupts\<close>

text \<open>The one case in which the poll leaves its buffers: the handler of the request does.\<close>

definition faulty_request :: "mb_slave \<Rightarrow> bool" where
  "faulty_request s \<longleftrightarrow> s_queued (srtu s) EV_EXECUTE \<and>
     (\<exists>h. find_handler (ucRTUBuf (srtu s) ! 1) (xFuncHandlers s) = Some (Some h) \<and> may_fault h)"

lemma send_inv:
  assumes "srtu_inv s" "unat n \<le> 253"
  shows "\<exists>e s'. eMBRTUSend a 1 n s = Some (e, s') \<and> srtu_inv s' \<and> s_queue s' = s_queue s"
proof (cases "s_RcvState s = STATE_RX_IDLE")
  case True
  have "length (take (unat n) (drop 1 (ucRTUBuf s))) = unat n" using assms by (simp add: srtu_inv_def)
  moreover have "unat (n + 3) = unat n + 3" using assms(2) by (simp add: unat_word_ariths)
  ultimately show ?thesis
    using eMBRTUSend_eq[OF assms(1) True assms(2)] assms by (simp add: srtu_inv_def srtu_defs)
qed (use assms in \<open>simp add: eMBRTUSend_def\<close>)

lemma answer_inv:
  assumes "srtu_inv (srtu s)" "unat (s_usLength s) \<le> 253"
  shows "\<exists>s'. answer 1 s = Some s' \<and> srtu_inv (srtu s') \<and> s_queue (srtu s') = s_queue (srtu s) \<and>
    sregs s' = sregs s \<and> sid s' = sid s \<and> xFuncHandlers s' = xFuncHandlers s"
proof (cases "eException s = MB_EX_NONE")
  case True
  from send_inv[OF assms, of "ucMBAddress s"] show ?thesis using True by (auto simp: answer_def)
next
  case False
  let ?r = "(srtu s) \<lparr> ucRTUBuf := (ucRTUBuf (srtu s))[1 := s_FunctionCode s OR MB_FUNC_ERROR,
              2 := ex_code (eException s)] \<rparr>"
  have len: "length (ucRTUBuf (srtu s)) = 256" using assms(1) by (simp add: srtu_inv_def)
  have "srtu_inv ?r" using assms(1) by (simp add: srtu_inv_def)
  from send_inv[OF this, of 2 "ucMBAddress s"]
  obtain e r where "eMBRTUSend (ucMBAddress s) 1 2 ?r = Some (e, r)" "srtu_inv r"
    "s_queue r = s_queue (srtu s)" by auto
  then show ?thesis
    using False len by (simp add: answer_def flip: numeral_2_eq_2)
qed

lemma slave_receive_end:
  assumes "srtu_inv r"
  shows "\<exists>e a p n. eMBRTUReceive out r = Some (e, a, p, n) \<and>
     (e = MB_ENOERR \<longrightarrow> p = Some 1 \<and> unat n \<le> 253)"
proof -
  have "4 \<le> unat (usRcvBufferPos r) \<Longrightarrow> unat (usRcvBufferPos r - 3) \<le> 253"
    using assms by (auto simp: srtu_inv_def unat_sub word_le_nat_alt)
  then show ?thesis unfolding eMBRTUReceive_eq[OF assms] by (cases out) auto
qed

lemma eMBPoll_event:
  assumes "s_state s = STATE_ENABLED" "xEventInQueue (s_queue (srtu s))"
    "s0 = s \<lparr> srtu := (srtu s) \<lparr> s_queue := (s_queue (srtu s)) \<lparr> xEventInQueue := False \<rparr> \<rparr> \<rparr>"
  shows "eMBPoll app s = (case eQueuedEvent (s_queue (srtu s)) of
          EV_READY \<Rightarrow> Some (MB_ENOERR, s0)
        | EV_FRAME_RECEIVED \<Rightarrow> do {
            (eStatus, a, p, n) \<leftarrow> eMBRTUReceive (ucRcvAddress s0, s_frame s0, s_usLength s0) (srtu s0);
            let s = s0 \<lparr> ucRcvAddress := a, s_frame := p, s_usLength := n \<rparr>;
            Some (MB_ENOERR,
              if eStatus = MB_ENOERR \<and> (a = ucMBAddress s \<or> a = MB_ADDRESS_BROADCAST)
              then s \<lparr> srtu := snd (s_event_post EV_EXECUTE (srtu s)) \<rparr> else s)
          }
        | EV_EXECUTE \<Rightarrow> do {
            p \<leftarrow> s_frame s0;
            s \<leftarrow> run_handler app p s0;
            s \<leftarrow> (if ucRcvAddress s \<noteq> MB_ADDRESS_BROADCAST then answer p s else Some s);
            Some (MB_ENOERR, s)
          }
        | EV_FRAME_SENT \<Rightarrow> Some (MB_ENOERR, s0))"
  using assms by (simp add: eMBPoll_def xMBPortEventGet_def Let_def split: eMBEventType.splits)

lemma slave_poll_inv:
  assumes "mbs_inv s" "\<And>k. handler_keeps (app k)"
  shows "(eMBPoll app s = None \<longrightarrow> faulty_request s) \<and>
    (\<forall>e s'. eMBPoll app s = Some (e, s') \<longrightarrow> mbs_inv s')"
proof (cases "s_state s = STATE_ENABLED \<and> xEventInQueue (s_queue (srtu s))")
  case False
  then have "eMBPoll app s = Some (MB_EILLSTATE, s) \<or> eMBPoll app s = Some (MB_ENOERR, s)"
    by (auto simp: eMBPoll_def xMBPortEventGet_def)
  then show ?thesis using assms(1) by auto
next
  case True
  define s0 where "s0 = s \<lparr> srtu := (srtu s) \<lparr> s_queue := (s_queue (srtu s)) \<lparr> xEventInQueue := False \<rparr> \<rparr> \<rparr>"
  have s0: "srtu_inv (srtu s0)" "slave_ok (sregs s0)" "sid_ok (sid s0)" "table_ok (xFuncHandlers s0)"
    "\<not> xEventInQueue (s_queue (srtu s0))" "mbs_inv s0"
    using assms(1) by (simp_all add: s0_def mbs_inv_def srtu_inv_def s_queued_def)
  note poll = eMBPoll_event[OF conjunct1[OF True] conjunct2[OF True] s0_def, of app]
  show ?thesis
  proof (cases "eQueuedEvent (s_queue (srtu s))")
    case EV_FRAME_RECEIVED
    obtain e a p n where r: "eMBRTUReceive (ucRcvAddress s0, s_frame s0, s_usLength s0) (srtu s0) = Some (e, a, p, n)"
      "e = MB_ENOERR \<longrightarrow> p = Some 1 \<and> unat n \<le> 253"
      using slave_receive_end[OF s0(1)] by blast
    show ?thesis using r s0 poll EV_FRAME_RECEIVED
      by (simp add: mbs_inv_def srtu_inv_def s_queued_def s_event_post_def xMBPortEventPost_def Let_def)
  next
    case EV_EXECUTE
    have l: "s_frame s0 = Some 1" "unat (s_usLength s0) \<le> 253"
      using assms(1) True EV_EXECUTE by (simp_all add: mbs_inv_def s_queued_def s0_def)
    note run = run_handler_inv[OF s0(6) l(2) assms(2)]
    show ?thesis
    proof (cases "run_handler app 1 s0")
      case None
      then show ?thesis using run poll True EV_EXECUTE l(1)
        by (simp add: faulty_request_def s_queued_def) (simp add: s0_def)
    next
      case (Some s1)
      note r = conjunct2[OF run, rule_format, OF Some]
      obtain s2 where s2: "answer 1 s1 = Some s2" "srtu_inv (srtu s2)" "s_queue (srtu s2) = s_queue (srtu s1)"
        "sregs s2 = sregs s1" "sid s2 = sid s1" "xFuncHandlers s2 = xFuncHandlers s1"
        using answer_inv[of s1] r by blast
      show ?thesis using poll EV_EXECUTE l(1) Some r s2 s0(3-5)
        by (simp add: mbs_inv_def s_queued_def)
    qed
  qed (use poll s0(6) in simp_all)
qed

lemma slave_irq_queue:
  "USART1_IRQHandler b t r = Some r' \<Longrightarrow> s_queued r' EV_EXECUTE \<Longrightarrow> s_queued r EV_EXECUTE"
  "s_queued (TIM3_IRQHandler_s u r) EV_EXECUTE \<Longrightarrow> s_queued r EV_EXECUTE"
proof -
  have rx: "s_queue q = s_queue r" if "map_option snd (xMBRTUReceiveFSM x r) = Some q" for x q
    using that by (auto simp: xMBRTUReceiveFSM_def srtu_defs cmem bind_eq_Some_conv
        split: eMBRcvState.splits if_splits)
  have tx: "s_queued q EV_EXECUTE" if "map_option snd (xMBRTUTransmitFSM q) = Some r'" "s_queued r' EV_EXECUTE" for q
    using that by (auto simp: xMBRTUTransmitFSM_def srtu_defs cmem bind_eq_Some_conv s_queued_def Let_def
        split: eMBSndState.splits if_splits)
  show "USART1_IRQHandler b t r = Some r' \<Longrightarrow> s_queued r' EV_EXECUTE \<Longrightarrow> s_queued r EV_EXECUTE"
    unfolding USART1_IRQHandler_def bind_eq_Some_conv
  proof (elim exE conjE)
    fix q assume q: "(case b of None \<Rightarrow> Some r | Some x \<Rightarrow> map_option snd (xMBRTUReceiveFSM x r)) = Some q"
      "(if t then map_option snd (xMBRTUTransmitFSM q) else Some q) = Some r'" "s_queued r' EV_EXECUTE"
    have "s_queued q EV_EXECUTE" using q(2,3) tx[of q] by (cases t) simp_all
    moreover have "s_queue q = s_queue r"
    proof (cases b)
      case (Some x)
      then have "map_option snd (xMBRTUReceiveFSM x r) = Some q" using q(1) by (simp only: option.case)
      then show ?thesis by (rule rx)
    qed (use q(1) in simp)
    ultimately show "s_queued r EV_EXECUTE" by (simp add: s_queued_def)
  qed
  show "s_queued (TIM3_IRQHandler_s u r) EV_EXECUTE \<Longrightarrow> s_queued r EV_EXECUTE"
    by (cases "s_RcvState r"; cases u)
      (simp_all add: TIM3_IRQHandler_s_def xMBRTUTimerT35Expired_def srtu_defs s_queued_def Let_def)
qed

section \<open>The stack running\<close>

text \<open>
  What happens to the stack once it is initialised: the calls of the application and the
  interrupts, one after the other.
\<close>

datatype slave_event =
    S_poll | S_enable | S_disable | S_register u8 "pxMBFunctionHandler option"
  | S_usart "u8 option" bool | S_timer bool

fun slave_step :: "(nat \<Rightarrow> handler) \<Rightarrow> slave_event \<Rightarrow> mb_slave \<Rightarrow> mb_slave option" where
  "slave_step app S_poll s = map_option snd (eMBPoll app s)"
| "slave_step app S_enable s = map_option snd (eMBEnable s)"
| "slave_step app S_disable s = map_option snd (eMBDisable s)"
| "slave_step app (S_register c h) s = Some (snd (eMBRegisterCB c h s))"
| "slave_step app (S_usart rxne txe) s = map_option (\<lambda>r. s \<lparr> srtu := r \<rparr>) (USART1_IRQHandler rxne txe (srtu s))"
| "slave_step app (S_timer u) s = Some (s \<lparr> srtu := TIM3_IRQHandler_s u (srtu s) \<rparr>)"

inductive slave_run :: "(nat \<Rightarrow> handler) \<Rightarrow> mb_slave \<Rightarrow> mb_slave \<Rightarrow> bool" for app where
  slave_start: "slave_run app s s"
| slave_next: "slave_run app s s' \<Longrightarrow> slave_step app e s' = Some s'' \<Longrightarrow> slave_run app s s''"

definition mbs_ok :: "mb_slave \<Rightarrow> bool" where
  "mbs_ok s \<longleftrightarrow> mbs_inv s \<and> (s_state s \<noteq> STATE_NOT_INITIALIZED \<longrightarrow> s_selected s)"

lemma table_ok_simps [simp]:
  "table_ok []" "table_ok (h # t) \<longleftrightarrow> (fst h \<noteq> 0 \<longrightarrow> snd h \<noteq> None) \<and> table_ok t"
  by (simp_all add: table_ok_def)

lemma put_handler_table: "table_ok t \<Longrightarrow> put_handler c p t = Some t' \<Longrightarrow> table_ok t'"
  by (induction t arbitrary: t') (auto split: if_splits)

lemma remove_handler_table: "table_ok t \<Longrightarrow> table_ok (remove_handler c t)"
  by (induction t) auto

lemma poll_state: "eMBPoll app s = Some (e, s') \<Longrightarrow> s_state s' = s_state s \<and> s_selected s' = s_selected s"
  by (auto simp: eMBPoll_def run_handler_def answer_def bind_eq_Some_conv Let_def
      split: if_splits option.splits eMBEventType.splits prod.splits)

lemma slave_step_ok:
  assumes "mbs_ok s" "\<And>k. handler_keeps (app k)"
  shows "(slave_step app e s = None \<longrightarrow> e = S_poll \<and> faulty_request s) \<and>
    (\<forall>s'. slave_step app e s = Some s' \<longrightarrow> mbs_ok s')"
proof (cases e)
  case S_poll
  have "mbs_inv s" using assms(1) by (simp add: mbs_ok_def)
  from slave_poll_inv[OF this assms(2)] S_poll show ?thesis
    using assms(1) poll_state[of app s] by (auto simp: mbs_ok_def)
next
  case (S_usart b t)
  have "srtu_inv (srtu s)" using assms(1) by (simp add: mbs_ok_def mbs_inv_def)
  from USART1_inv[OF this, of b t] S_usart slave_irq_queue(1)[of b t "srtu s"] show ?thesis
    using assms(1) by (auto simp: mbs_ok_def mbs_inv_def)
next
  case (S_timer u)
  have "srtu_inv (srtu s)" using assms(1) by (simp add: mbs_ok_def mbs_inv_def)
  from TIM3_s_inv[OF this, of u] S_timer slave_irq_queue(2)[of u "srtu s"] show ?thesis
    using assms(1) by (auto simp: mbs_ok_def mbs_inv_def)
next
  case (S_register c h)
  then show ?thesis
    using assms(1) put_handler_table[of "xFuncHandlers s"] remove_handler_table[of "xFuncHandlers s"]
    by (auto simp: mbs_ok_def mbs_inv_def eMBRegisterCB_def split: option.splits)
qed (use assms(1) in \<open>auto simp: mbs_ok_def mbs_inv_def eMBEnable_def eMBDisable_def eMBRTUStart_def
      eMBRTUStop_def srtu_defs srtu_inv_def s_queued_def\<close>)

lemma slave_run_ok:
  assumes "slave_run app s s'" "mbs_ok s" "\<And>k. handler_keeps (app k)"
  shows "mbs_ok s'"
  using assms by (induction rule: slave_run.induct) (use slave_step_ok in blast)+

lemma slave_rtu_init:
  assumes "srtu_inv r" "eMBRTUInit a p b par r = Some (e, r')"
  shows "srtu_inv r'"
  using assms by (cases "p = 1"; cases "t35_50us b")
    (auto simp: eMBRTUInit_def xMBPortSerialInit_def xMBPortTimersInit_def srtu_inv_def)

lemma eMBInit_ok:
  assumes "mbs_ok s" "eMBInit m a p b par s = Some (e, s')"
  shows "mbs_ok s'"
proof -
  let ?bad = "a = MB_ADDRESS_BROADCAST \<or> a < MB_ADDRESS_MIN \<or> MB_ADDRESS_MAX < a"
  define s1 where "s1 = s \<lparr> ucMBAddress := a \<rparr>"
  have ok1: "mbs_ok s1" "srtu s1 = srtu s" using assms(1) by (simp_all add: mbs_ok_def mbs_inv_def s1_def)
  have inv: "srtu_inv (srtu s)" using assms(1) by (simp add: mbs_ok_def mbs_inv_def)
  consider "?bad" | "\<not> ?bad" "m \<noteq> MB_RTU" | "\<not> ?bad" "m = MB_RTU" by blast
  then show ?thesis
  proof cases
    case 1
    then have "s' = s" using assms(2) by (simp only: eMBInit_def if_True option.inject prod.inject)
    then show ?thesis using assms(1) by simp
  next
    case 2
    then have "s' = s1"
      using assms(2) unfolding eMBInit_def s1_def[symmetric] Let_def
      by (cases m) (simp_all only: if_False eMBMode.case bind.bind_lunit prod.case, simp_all)
    then show ?thesis using ok1 by simp
  next
    case 3
    obtain e1 r where r: "eMBRTUInit a p b par (srtu s) = Some (e1, r)"
      using assms(2) unfolding eMBInit_def s1_def[symmetric] Let_def ok1(2)
      by (cases "eMBRTUInit a p b par (srtu s)") (simp_all only: 3 if_False eMBMode.case bind.bind_lzero, auto)
    have s': "s' = (if e1 = MB_ENOERR
        then s1 \<lparr> srtu := r \<lparr> s_queue := (s_queue r) \<lparr> xEventInQueue := False \<rparr> \<rparr>, s_selected := True,
                  s_state := STATE_DISABLED \<rparr>
        else s1 \<lparr> srtu := r, s_selected := True \<rparr>)"
      using assms(2) unfolding eMBInit_def s1_def[symmetric] Let_def ok1(2)
      by (simp only: 3 if_False eMBMode.case bind.bind_lunit prod.case r xMBPortEventInit_def)
        (auto split: if_splits)
    have "s_queue r = s_queue (srtu s)"
      using r by (cases "p = 1"; cases "t35_50us b")
        (simp_all add: eMBRTUInit_def xMBPortSerialInit_def xMBPortTimersInit_def, auto)
    with slave_rtu_init[OF inv r] ok1 show ?thesis
      unfolding s' mbs_ok_def mbs_inv_def s_queued_def srtu_inv_def by simp
  qed
qed

section \<open>A request and its answer\<close>

text \<open>
  A frame on the line, the silence after it and two polls; then the transmit interrupts.
\<close>

definition slave_request :: "(nat \<Rightarrow> handler) \<Rightarrow> bytes \<Rightarrow> mb_slave \<Rightarrow> mb_slave option" where
  "slave_request app bs s = do {
     r \<leftarrow> slave_rx bs (srtu s);
     (_, s) \<leftarrow> eMBPoll app (s \<lparr> srtu := TIM3_IRQHandler_s True r \<rparr>);
     (_, s) \<leftarrow> eMBPoll app s;
     Some s
   }"

definition slave_exchange :: "(nat \<Rightarrow> handler) \<Rightarrow> bytes \<Rightarrow> nat \<Rightarrow> mb_slave \<Rightarrow> mb_slave option" where
  "slave_exchange app bs k s = do {
     s \<leftarrow> slave_request app bs s;
     r \<leftarrow> slave_tx k (srtu s);
     Some (s \<lparr> srtu := r \<rparr>)
   }"

definition slave_ready :: "mb_slave \<Rightarrow> bool" where
  "slave_ready s \<longleftrightarrow> mbs_inv s \<and> s_state s = STATE_ENABLED \<and> s_RcvState (srtu s) = STATE_RX_IDLE"

definition dispatch :: "(nat \<Rightarrow> handler) \<Rightarrow> mb_slave \<Rightarrow> handler" where
  "dispatch app s r f n = (case find_handler (f ! 0) (xFuncHandlers s) of
       None \<Rightarrow> Some (MB_EX_ILLEGAL_FUNCTION, r, f, n)
     | Some None \<Rightarrow> None
     | Some (Some h) \<Rightarrow> call_handler app (sid s) h r f n)"

text \<open>The state in which the first poll leaves the stack.\<close>

definition arrived :: "bytes \<Rightarrow> mb_slave \<Rightarrow> mb_slave" where
  "arrived bs s = s \<lparr> srtu := (srtu s) \<lparr> ucRTUBuf := bs @ drop (length bs) (ucRTUBuf (srtu s)),
      usRcvBufferPos := of_nat (length bs), s_RcvState := STATE_RX_IDLE, s_tim_ie := False, s_tim_on := False,
      s_queue := \<lparr> eQueuedEvent = EV_FRAME_RECEIVED, xEventInQueue = False \<rparr> \<rparr> \<rparr>"

lemma slave_arrived_inv:
  assumes "slave_ready s" "bs \<noteq> []" "length bs \<le> 256"
  shows "srtu_inv (srtu (arrived bs s))" "slave_ready (arrived bs s)"
proof -
  have u: "unat (of_nat (length bs) :: u16) = length bs" using assms(3) by (intro unat_of_nat_u16) simp
  show "srtu_inv (srtu (arrived bs s))"
    using assms u by (simp add: arrived_def slave_ready_def mbs_inv_def srtu_inv_def)
  then show "slave_ready (arrived bs s)"
    using assms(1) by (simp add: slave_ready_def mbs_inv_def s_queued_def) (simp add: arrived_def)
qed

lemma first_poll:
  assumes "slave_ready s" "bs \<noteq> []" "length bs \<le> 256"
  defines "t \<equiv> arrived bs s"
  shows "slave_request app bs s = do {
    (_, s) \<leftarrow> eMBPoll app (if 4 \<le> length bs \<and> crc_ref bs = 0
        then (let t' = t \<lparr> ucRcvAddress := bs ! 0, s_frame := Some 1, s_usLength := of_nat (length bs) - 3 \<rparr>
              in if bs ! 0 = ucMBAddress s \<or> bs ! 0 = MB_ADDRESS_BROADCAST
                 then t' \<lparr> srtu := snd (s_event_post EV_EXECUTE (srtu t')) \<rparr> else t')
        else t);
    Some s
  }"
proof -
  let ?B = "bs @ drop (length bs) (ucRTUBuf (srtu s))"
  have r: "srtu_inv (srtu s)" "s_RcvState (srtu s) = STATE_RX_IDLE" "s_state s = STATE_ENABLED"
    using assms(1) by (simp_all add: slave_ready_def mbs_inv_def)
  have u: "unat (of_nat (length bs) :: u16) = length bs" using assms(3) by (intro unat_of_nat_u16) simp
  define s1 where "s1 = s \<lparr> srtu := TIM3_IRQHandler_s True (received ?B (length bs) (srtu s)) \<rparr>"
  have s1: "s_state s1 = STATE_ENABLED" "eQueuedEvent (s_queue (srtu s1)) = EV_FRAME_RECEIVED"
    "xEventInQueue (s_queue (srtu s1))" using r by (simp_all add: s1_def received_timer)
  have t: "s1 \<lparr> srtu := (srtu s1) \<lparr> s_queue := (s_queue (srtu s1)) \<lparr> xEventInQueue := False \<rparr> \<rparr> \<rparr> = t"
    by (simp add: s1_def t_def arrived_def received_timer)
  have out: "ucRcvAddress t = ucRcvAddress s" "s_frame t = s_frame s" "s_usLength t = s_usLength s"
    "ucMBAddress t = ucMBAddress s" by (simp_all add: t_def arrived_def)
  have buf: "ucRTUBuf (srtu t) = ?B" "usRcvBufferPos (srtu t) = of_nat (length bs)"
    by (simp_all add: t_def arrived_def)
  have "take (length bs) ?B = bs" "?B ! 0 = bs ! 0" using assms(2) by (simp_all add: nth_append)
  then have rcv: "eMBRTUReceive (ucRcvAddress t, s_frame t, s_usLength t) (srtu t) =
      Some (if 4 \<le> length bs \<and> crc_ref bs = 0 then (MB_ENOERR, bs ! 0, Some 1, of_nat (length bs) - 3)
            else (MB_EIO, ucRcvAddress t, s_frame t, s_usLength t))"
    using eMBRTUReceive_eq[of "srtu t"] slave_arrived_inv(1)[OF assms(1-3)] u by (simp add: buf t_def[symmetric])
  have "t \<lparr> ucRcvAddress := ucRcvAddress t, s_frame := s_frame t, s_usLength := s_usLength t \<rparr> = t" by simp
  then have poll: "eMBPoll app s1 = Some (MB_ENOERR, if 4 \<le> length bs \<and> crc_ref bs = 0
        then (let t' = t \<lparr> ucRcvAddress := bs ! 0, s_frame := Some 1, s_usLength := of_nat (length bs) - 3 \<rparr>
              in if bs ! 0 = ucMBAddress s \<or> bs ! 0 = MB_ADDRESS_BROADCAST
                 then t' \<lparr> srtu := snd (s_event_post EV_EXECUTE (srtu t')) \<rparr> else t')
        else t)"
    using eMBPoll_event[OF s1(1,3) t[symmetric], of app] rcv out(4)
    by (cases "4 \<le> length bs \<and> crc_ref bs = 0") (auto simp: s1(2) Let_def)
  have "slave_rx bs (srtu s) = Some (received ?B (length bs) (srtu s))"
    using slave_rx_frame[OF r(1,2) assms(2,3)] .
  then show ?thesis by (simp add: slave_request_def poll s1_def[symmetric])
qed

lemma slave_poll_empty: "\<not> xEventInQueue (s_queue (srtu s)) \<Longrightarrow> s_state s = STATE_ENABLED \<Longrightarrow>
    eMBPoll app s = Some (MB_ENOERR, s)"
  by (simp add: eMBPoll_def xMBPortEventGet_def Let_def)

text \<open>
  C13: A frame of at most 256 bytes that is shorter than 4 bytes, has a wrong CRC or is
  for another slave changes no register and starts no transmission, and the slave is
  ready for the next frame.
\<close>

theorem slave_ignores:
  assumes "slave_ready s" "bs \<noteq> []" "length bs \<le> 256"
    "length bs < 4 \<or> crc_ref bs \<noteq> 0 \<or> (bs ! 0 \<noteq> ucMBAddress s \<and> bs ! 0 \<noteq> MB_ADDRESS_BROADCAST)"
  shows "\<exists>s'. slave_request app bs s = Some s' \<and> sregs s' = sregs s \<and> s_wire (srtu s') = s_wire (srtu s) \<and>
    s_SndState (srtu s') = s_SndState (srtu s) \<and> s_txe_ie (srtu s') = s_txe_ie (srtu s) \<and> slave_ready s'"
proof -
  let ?t = "arrived bs s"
  have t: "\<not> xEventInQueue (s_queue (srtu ?t))" "s_state ?t = STATE_ENABLED" "sregs ?t = sregs s"
    "s_wire (srtu ?t) = s_wire (srtu s)" "s_SndState (srtu ?t) = s_SndState (srtu s)"
    "s_txe_ie (srtu ?t) = s_txe_ie (srtu s)"
    using assms(1) by (simp_all add: arrived_def slave_ready_def)
  note r = slave_arrived_inv(2)[OF assms(1-3)]
  show ?thesis
  proof (cases "4 \<le> length bs \<and> crc_ref bs = 0")
    case False
    then have "slave_request app bs s = Some ?t"
      using first_poll[OF assms(1-3), of app] slave_poll_empty[OF t(1,2), of app] by (simp only: if_False) simp
    then show ?thesis using t r by simp
  next
    case True
    let ?t' = "?t \<lparr> ucRcvAddress := bs ! 0, s_frame := Some 1, s_usLength := of_nat (length bs) - 3 \<rparr>"
    have "slave_ready ?t'"
      using r t(1) by (simp add: slave_ready_def mbs_inv_def s_queued_def)
    moreover have "slave_request app bs s = Some ?t'"
      using first_poll[OF assms(1-3), of app] True assms(4) t by (simp add: slave_poll_empty)
    ultimately show ?thesis using t by simp
  qed
qed

text \<open>The second poll, for a frame that is executed.\<close>

lemma slave_executes:
  assumes "slave_ready s" "1 \<le> length p" "length p \<le> 253" "a = ucMBAddress s \<or> a = MB_ADDRESS_BROADCAST"
    "dispatch app s (sregs s) (drop 1 (adu a p) @ drop (length p + 3) (ucRTUBuf (srtu s))) (of_nat (length p))
       = Some (e, r', f', l')"
    "length f' = 255"
  shows "\<exists>s1. slave_request app (adu a p) s = (if a = MB_ADDRESS_BROADCAST then Some s1 else answer 1 s1) \<and>
    srtu_inv (srtu s1) \<and> s_RcvState (srtu s1) = STATE_RX_IDLE \<and> drop 1 (ucRTUBuf (srtu s1)) = f' \<and>
    sregs s1 = r' \<and> s_usLength s1 = l' \<and> eException s1 = e \<and> s_FunctionCode s1 = p ! 0 \<and>
    ucMBAddress s1 = ucMBAddress s \<and> s_wire (srtu s1) = s_wire (srtu s) \<and>
    s_SndState (srtu s1) = s_SndState (srtu s) \<and> s_txe_ie (srtu s1) = s_txe_ie (srtu s)"
proof -
  let ?bs = "adu a p" and ?f = "drop 1 (adu a p) @ drop (length p + 3) (ucRTUBuf (srtu s))"
  have bs: "?bs \<noteq> []" "length ?bs \<le> 256" "?bs ! 0 = a" "4 \<le> length ?bs \<and> crc_ref ?bs = 0"
    using assms(2,3) by (auto simp: crc_ref_adu) (simp_all add: adu_def)
  have n: "of_nat (length ?bs) - 3 = (of_nat (length p) :: u16)" by simp
  define t where "t = (arrived ?bs s) \<lparr> ucRcvAddress := a, s_frame := Some 1, s_usLength := of_nat (length p) \<rparr>"
  define s1 where "s1 = t \<lparr> srtu := snd (s_event_post EV_EXECUTE (srtu t)) \<rparr>"
  have req: "slave_request app ?bs s = do { (_, s) \<leftarrow> eMBPoll app s1; Some s }"
    using first_poll[OF assms(1) bs(1,2), of app] bs(4) assms(4)
    by (simp only: bs(3) n if_True Let_def t_def[symmetric] s1_def[symmetric] simp_thms)
  have t: "s_state t = STATE_ENABLED" "ucRTUBuf (srtu t) = a # ?f" "xFuncHandlers t = xFuncHandlers s"
    "sregs t = sregs s" "sid t = sid s" "ucMBAddress t = ucMBAddress s" "ucRcvAddress t = a" "s_frame t = Some 1"
    "s_usLength t = of_nat (length p)" "s_RcvState (srtu t) = STATE_RX_IDLE" "s_wire (srtu t) = s_wire (srtu s)"
    "s_SndState (srtu t) = s_SndState (srtu s)" "s_txe_ie (srtu t) = s_txe_ie (srtu s)" "srtu_inv (srtu t)"
    using assms(1) slave_arrived_inv(1)[OF assms(1) bs(1,2)]
    by (simp_all add: t_def) (simp_all add: arrived_def slave_ready_def adu_def numeral_3_eq_3)
  define s0 where "s0 = s1 \<lparr> srtu := (srtu s1) \<lparr> s_queue := (s_queue (srtu s1)) \<lparr> xEventInQueue := False \<rparr> \<rparr> \<rparr>"
  have s1: "s_state s1 = STATE_ENABLED" "xEventInQueue (s_queue (srtu s1))" "eQueuedEvent (s_queue (srtu s1)) = EV_EXECUTE"
    using t(1) by (simp_all add: s1_def srtu_defs)
  have s0: "ucRTUBuf (srtu s0) = a # ?f" "xFuncHandlers s0 = xFuncHandlers s"
    "sregs s0 = sregs s" "sid s0 = sid s" "ucMBAddress s0 = ucMBAddress s" "ucRcvAddress s0 = a" "s_frame s0 = Some 1"
    "s_usLength s0 = of_nat (length p)" "s_RcvState (srtu s0) = STATE_RX_IDLE" "s_wire (srtu s0) = s_wire (srtu s)"
    "s_SndState (srtu s0) = s_SndState (srtu s)" "s_txe_ie (srtu s0) = s_txe_ie (srtu s)" "srtu_inv (srtu s0)"
    using t by (simp_all add: s0_def s1_def srtu_defs srtu_inv_def)
  have f: "cget ?f 0 = Some (p ! 0)" "?f ! 0 = p ! 0" "drop 1 (a # ?f) = ?f" "take 1 (a # ?f) = [a]"
    using assms(2) by (cases p; simp add: adu_def)+
  define s2 where "s2 = s0 \<lparr> srtu := (srtu s0) \<lparr> ucRTUBuf := [a] @ f' \<rparr>, sregs := r', s_FunctionCode := p ! 0,
      s_usLength := l', eException := e \<rparr>"
  have run: "run_handler app 1 s0 = Some s2"
    using assms(5) unfolding run_handler_def dispatch_def Let_def s0(1-4,8) f s2_def
    by (simp split: option.splits)
  have "slave_request app ?bs s = (if a = MB_ADDRESS_BROADCAST then Some s2 else answer 1 s2)"
    unfolding req eMBPoll_event[OF s1(1,2) s0_def] s1(3)
    using run s0(7) by (simp add: s2_def s0(6))
  moreover have "srtu_inv (srtu s2)" using s0(13) assms(6) by (simp add: s2_def srtu_inv_def)
  ultimately show ?thesis using s0 by (intro exI[of _ s2]) (simp add: s2_def)
qed

lemma list_at_least_3: "3 \<le> length xs \<Longrightarrow> \<exists>x y z zs. xs = x # y # z # zs"
  by (cases xs; cases "tl xs"; cases "tl (tl xs)") auto

lemma slave_answers:
  assumes "slave_ready s" "1 \<le> length p" "length p \<le> 253" "ucMBAddress s \<noteq> MB_ADDRESS_BROADCAST"
    "\<And>f. length f = 255 \<Longrightarrow> take (length p) f = p \<Longrightarrow>
       \<exists>f' l'. dispatch app s (sregs s) f (of_nat (length p)) = Some (e, r', f', l') \<and> length f' = 255 \<and>
         (e = MB_EX_NONE \<longrightarrow> unat l' = length q \<and> take (length q) f' = q)"
    "e \<noteq> MB_EX_NONE \<Longrightarrow> q = [p ! 0 OR MB_FUNC_ERROR, ex_code e]" "length q \<le> 253"
  shows "\<exists>s'. slave_exchange app (adu (ucMBAddress s) p) (length q + 4) s = Some s' \<and>
    s_wire (srtu s') = s_wire (srtu s) @ adu (ucMBAddress s) q \<and> sregs s' = r' \<and>
    s_SndState (srtu s') = STATE_TX_IDLE \<and> s_rxne_ie (srtu s')"
proof -
  let ?a = "ucMBAddress s"
  let ?f = "drop 1 (adu ?a p) @ drop (length p + 3) (ucRTUBuf (srtu s))"
  have "length (ucRTUBuf (srtu s)) = 256" using assms(1) by (simp add: slave_ready_def mbs_inv_def srtu_inv_def)
  then have "length ?f = 255" "take (length p) ?f = p" using assms(3) by (simp_all add: adu_def)
  then obtain f' l' where d: "dispatch app s (sregs s) ?f (of_nat (length p)) = Some (e, r', f', l')"
    "length f' = 255" "e = MB_EX_NONE \<longrightarrow> unat l' = length q \<and> take (length q) f' = q"
    using assms(5) by blast
  obtain s1 where s1: "slave_request app (adu ?a p) s = answer 1 s1" "srtu_inv (srtu s1)"
    "s_RcvState (srtu s1) = STATE_RX_IDLE" "drop 1 (ucRTUBuf (srtu s1)) = f'" "sregs s1 = r'" "s_usLength s1 = l'"
    "eException s1 = e" "s_FunctionCode s1 = p ! 0" "ucMBAddress s1 = ?a" "s_wire (srtu s1) = s_wire (srtu s)"
    using slave_executes[OF assms(1-3) disjI1[OF refl] d(1,2)] assms(4) by auto
  define n :: u16 where "n = (if e = MB_EX_NONE then l' else 2)"
  define r where "r = (if e = MB_EX_NONE then srtu s1
     else (srtu s1) \<lparr> ucRTUBuf := (ucRTUBuf (srtu s1))[1 := p ! 0 OR MB_FUNC_ERROR, 2 := ex_code e] \<rparr>)"
  have len: "length (ucRTUBuf (srtu s1)) = 256" using s1(2) by (simp add: srtu_inv_def)
  have r: "srtu_inv r" "s_RcvState r = STATE_RX_IDLE" "s_wire r = s_wire (srtu s)"
    using s1 by (simp_all add: r_def srtu_inv_def)
  have n: "unat n = length q" using d(3) assms(6) by (simp add: n_def)
  have buf: "take (length q) (drop 1 (ucRTUBuf r)) = q"
  proof (cases "e = MB_EX_NONE")
    case True
    then show ?thesis using d(3) s1(4) by (simp add: r_def)
  next
    case False
    have "3 \<le> length (ucRTUBuf (srtu s1))" using len by simp
    from list_at_least_3[OF this] obtain x y z bs where "ucRTUBuf (srtu s1) = x # y # z # bs" by blast
    then show ?thesis using assms(6)[OF False] False by (simp add: r_def numeral_2_eq_2)
  qed
  have "unat n \<le> 253" using n assms(7) by simp
  from slave_sends[OF r(1,2) this, of ?a] obtain r1 r2 where tx: "eMBRTUSend ?a 1 n r = Some (MB_ENOERR, r1)"
    "slave_tx (length q + 4) r1 = Some r2" "s_wire r2 = s_wire (srtu s) @ adu ?a q"
    "s_SndState r2 = STATE_TX_IDLE" "s_rxne_ie r2"
    unfolding n r(3) buf by blast
  have "\<exists>s2. answer 1 s1 = Some s2 \<and> srtu s2 = r1 \<and> sregs s2 = r'"
    using tx(1) s1(5-9) len by (cases "e = MB_EX_NONE") (simp_all add: answer_def r_def n_def numeral_2_eq_2)
  then show ?thesis using tx by (auto simp: slave_exchange_def s1(1) simp del: slave_tx.simps)
qed

section \<open>Properties\<close>

text \<open>
  The stack as it is when the program starts, initialised for the address 1 and enabled.
\<close>

definition slave_at_reset :: mb_slave where
  "slave_at_reset = \<lparr> srtu = idle_slave_rtu \<lparr> s_rxne_ie := False, s_usart_on := False, s_RcvState := STATE_RX_INIT \<rparr>,
     sregs = init_regs, sid = \<lparr> ucMBSlaveID = replicate 32 0, usMBSlaveIDLen = 0 \<rparr>, s_selected = False,
     s_state = STATE_NOT_INITIALIZED, ucMBAddress = 0, xFuncHandlers = xFuncHandlers_init, s_frame = None,
     ucRcvAddress = 0, s_FunctionCode = 0, s_usLength = 0, eException = MB_EX_NONE \<rparr>"

definition slave_at_work :: mb_slave where
  "slave_at_work = slave_at_reset \<lparr> srtu := idle_slave_rtu, s_selected := True, s_state := STATE_ENABLED,
     ucMBAddress := 1 \<rparr>"

lemma init_slave_ok: "slave_ok init_regs"
  by (simp add: slave_ok_def init_regs_def wf_regs_def list_all_length)

lemma slave_at_reset_ok: "mbs_ok slave_at_reset"
  by (simp add: mbs_ok_def mbs_inv_def slave_at_reset_def idle_slave_rtu_def srtu_inv_def init_slave_ok
      sid_ok_def xFuncHandlers_init_def s_queued_def numeral_eq_Suc)

lemma slave_at_work_ready: "slave_ready slave_at_work"
  using slave_at_reset_ok idle_slave_ready
  by (simp add: mbs_ok_def mbs_inv_def slave_ready_def slave_at_work_def slave_at_reset_def s_queued_def)

lemma slave_at_work_fields:
  "ucMBAddress slave_at_work = 1" "xFuncHandlers slave_at_work = xFuncHandlers_init"
  "sregs slave_at_work = init_regs" "s_wire (srtu slave_at_work) = []"
  by (simp_all add: slave_at_work_def slave_at_reset_def idle_slave_rtu_def)

lemma echo_keeps: "handler_keeps (\<lambda>r f n. Some (MB_EX_NONE, r, f, n))"
  by (simp add: handler_keeps_def)

text \<open>
  C11: However the slave stack was initialised from a well formed state, even with a
  transmission under way, in every sequence of polls, enabling, disabling, registrations
  of handlers and interrupts it stays well formed, and the only step that can leave a
  buffer is a poll that executes a request for a handler of the bits or of the
  application. The handlers of the application, which are not in the repository, are
  taken to keep the shape of the banks and the length of the frame buffer and to answer
  at most 252 bytes or as many as they were given, whenever they return.
\<close>

theorem slave_stack_runs:
  assumes "mbs_ok s0" "eMBInit m a p b par s0 = Some (er, s)"
    "\<And>k. handler_keeps (app k)" "slave_run app s s'"
  shows "mbs_ok s' \<and> (\<forall>ev. slave_step app ev s' = None \<longrightarrow> ev = S_poll \<and> faulty_request s')"
proof -
  have ok: "mbs_ok s'" using slave_run_ok[OF assms(4) eMBInit_ok[OF assms(1,2)] assms(3)] .
  show ?thesis
  proof (intro conjI allI ok)
    fix ev
    show "slave_step app ev s' = None \<longrightarrow> ev = S_poll \<and> faulty_request s'"
      by (rule conjunct1[OF slave_step_ok[where e = ev, OF ok assms(3)]])
  qed
qed

text \<open>
  A run for the witness: a handler of the application for the code 100 is registered, the stack
  is enabled, the silence after the start passes and the poll takes the event it leaves.
\<close>

lemma slave_started:
  "\<exists>s s'. eMBInit MB_RTU 1 1 9600 MB_PAR_NONE slave_at_reset = Some (MB_ENOERR, s) \<and> slave_run app s s' \<and>
    s_state s' = STATE_ENABLED \<and> find_handler 100 (xFuncHandlers s') = Some (Some (P_application 0)) \<and>
    s_queued (srtu s') EV_READY"
proof -
  obtain s where s: "eMBInit MB_RTU 1 1 9600 MB_PAR_NONE slave_at_reset = Some (MB_ENOERR, s)"
    "s_state s = STATE_DISABLED" "s_selected s" "xFuncHandlers s = xFuncHandlers_init"
    by (simp add: eMBInit_def MB_ADDRESS_BROADCAST_def MB_ADDRESS_MIN_def MB_ADDRESS_MAX_def eMBRTUInit_def
        xMBPortSerialInit_def xMBPortTimersInit_def xMBPortEventInit_def t35_50us_def Let_def slave_at_reset_def)
  have six: "replicate 6 x = [x, x, x, x, x, x]" for x :: "u8 \<times> pxMBFunctionHandler option" by (simp add: numeral_eq_Suc)
  define s1 where "s1 = snd (eMBRegisterCB 100 (Some (P_application 0)) s)"
  have s1: "slave_step app (S_register 100 (Some (P_application 0))) s = Some s1" "s_state s1 = STATE_DISABLED"
    "s_selected s1" "find_handler 100 (xFuncHandlers s1) = Some (Some (P_application 0))"
    using s(2-4) by (simp_all add: s1_def eMBRegisterCB_def xFuncHandlers_init_def six
        MB_FUNC_OTHER_REPORT_SLAVEID_def MB_FUNC_READ_INPUT_REGISTER_def MB_FUNC_READ_HOLDING_REGISTER_def
        MB_FUNC_WRITE_MULTIPLE_REGISTERS_def MB_FUNC_WRITE_REGISTER_def MB_FUNC_READWRITE_MULTIPLE_REGISTERS_def
        MB_FUNC_READ_COILS_def MB_FUNC_WRITE_SINGLE_COIL_def MB_FUNC_WRITE_MULTIPLE_COILS_def
        MB_FUNC_READ_DISCRETE_INPUTS_def)
  define s2 where "s2 = s1 \<lparr> srtu := eMBRTUStart (srtu s1), s_state := STATE_ENABLED \<rparr>"
  have s2: "slave_step app S_enable s1 = Some s2" using s1 by (simp add: eMBEnable_def s2_def)
  define s3 where "s3 = s2 \<lparr> srtu := TIM3_IRQHandler_s True (srtu s2) \<rparr>"
  have s3: "slave_step app (S_timer True) s2 = Some s3" by (simp add: s3_def)
  have "s_state s3 = STATE_ENABLED" "find_handler 100 (xFuncHandlers s3) = Some (Some (P_application 0))"
    "s_queued (srtu s3) EV_READY"
    using s1(4) by (simp_all add: s3_def s2_def eMBRTUStart_def srtu_defs TIM3_IRQHandler_s_def
        xMBRTUTimerT35Expired_def s_queued_def Let_def)
  then show ?thesis
    using s(1) slave_next[OF slave_next[OF slave_next[OF slave_start s1(1)] s2] s3] by blast
qed

theorem slave_stack_runs_witness:
  "\<exists>s s' s''. eMBInit MB_RTU 1 1 9600 MB_PAR_NONE slave_at_reset = Some (MB_ENOERR, s) \<and>
     slave_run (\<lambda>k r f n. Some (MB_EX_NONE, r, f, n)) s s' \<and> s_state s' = STATE_ENABLED \<and>
     find_handler 100 (xFuncHandlers s') = Some (Some (P_application 0)) \<and> mbs_ok s' \<and>
     slave_step (\<lambda>k r f n. Some (MB_EX_NONE, r, f, n)) S_poll s' = Some s''"
proof -
  obtain s s' where s: "eMBInit MB_RTU 1 1 9600 MB_PAR_NONE slave_at_reset = Some (MB_ENOERR, s)"
    "slave_run (\<lambda>k r f n. Some (MB_EX_NONE, r, f, n)) s s'" "s_state s' = STATE_ENABLED"
    "find_handler 100 (xFuncHandlers s') = Some (Some (P_application 0))" "s_queued (srtu s') EV_READY"
    using slave_started by blast
  note r = slave_stack_runs[OF slave_at_reset_ok s(1) echo_keeps s(2)]
  have "\<not> faulty_request s'" using s(5) by (simp add: faulty_request_def s_queued_def)
  then obtain s'' where "slave_step (\<lambda>k r f n. Some (MB_EX_NONE, r, f, n)) S_poll s' = Some s''"
    using conjunct2[OF r, rule_format, of S_poll]
    by (cases "slave_step (\<lambda>k r f n. Some (MB_EX_NONE, r, f, n)) S_poll s'") auto
  then show ?thesis using s(1-4) conjunct1[OF r] by blast
qed

lemma fc03_answer:
  assumes "slave_ok r" "length f = 255" "take 5 f = [3, hi8 w, lo8 w, h, n]" "1 \<le> unat n" "unat w + unat n \<le> 100"
  shows "\<exists>f' l'. eMBFuncReadHoldingRegister r f 5 = Some (MB_EX_NONE, r, f', l') \<and> length f' = 255 \<and>
    unat l' = 2 + 2 * unat n \<and>
    take (2 + 2 * unat n) f' = [3, 2 * n] @ reg_bytes (take (unat n) (drop (unat w) (usSRegHoldBuf r)))"
proof -
  have f: "f ! 1 = hi8 w" "f ! 2 = lo8 w" "f ! 4 = n"
    using nth_take[of 1 5 f] nth_take[of 2 5 f] nth_take[of 4 5 f] unfolding assms(3) by simp_all
  have w: "mk16 (f ! 1) (f ! 2) = w" by (simp only: f mk16_hi_lo)
  have len: "255 \<le> length f" "1 \<le> unat (f ! 4)" "unat (mk16 (f ! 1) (f ! 2)) + unat (f ! 4) \<le> 100"
    unfolding w unfolding f using assms(2,4,5) by simp_all
  obtain f' where f': "eMBFuncReadHoldingRegister r f 5 = Some (MB_EX_NONE, r, f', 2 + 2 * ucast n)"
    "take (2 + 2 * unat n) f' = [3, 2 * n] @ reg_bytes (take (unat n) (drop (unat w) (usSRegHoldBuf r)))"
    using fc03_count_low_byte[OF assms(1) len] unfolding w unfolding f by blast
  have "length f' = length f"
    using read_holding_ok[unfolded handler_ok_def, rule_format, of r f 5] f'(1) assms(1,2) by (auto simp: slave_ok_def)
  moreover have "unat (2 + 2 * ucast n :: u16) = 2 + 2 * unat n" using assms(5) by (simp add: unat_word_ariths)
  ultimately show ?thesis using f' assms(2) by auto
qed

text \<open>
  C12: A read holding registers request of at most 100 registers that arrives on the
  line for the address of the slave is answered on the line with the registers and a
  correct CRC; the high byte of the count is not looked at.
\<close>

theorem slave_answers_read:
  assumes "slave_ready s" "ucMBAddress s = a" "a \<noteq> MB_ADDRESS_BROADCAST"
    "find_handler 3 (xFuncHandlers s) = Some (Some P_eMBFuncReadHoldingRegister)"
    "1 \<le> unat n" "unat w + unat n \<le> 100"
  shows "\<exists>s'. slave_exchange app (adu a [3, hi8 w, lo8 w, h, n]) (6 + 2 * unat n) s = Some s' \<and>
    s_wire (srtu s') = s_wire (srtu s) @
      adu a ([3, 2 * n] @ reg_bytes (take (unat n) (drop (unat w) (usSRegHoldBuf (sregs s))))) \<and>
    sregs s' = sregs s"
proof -
  let ?p = "[3, hi8 w, lo8 w, h, n]"
  let ?q = "[3, 2 * n] @ reg_bytes (take (unat n) (drop (unat w) (usSRegHoldBuf (sregs s))))"
  have ok: "slave_ok (sregs s)" using assms(1) by (simp add: slave_ready_def mbs_inv_def)
  have "length (usSRegHoldBuf (sregs s)) = 100" using ok by (simp add: slave_ok_def wf_regs_def)
  then have q: "length ?q = 2 + 2 * unat n" using assms(6) by simp
  have p: "length ?p = 5" "1 \<le> length ?p" "length ?p \<le> 253" by simp_all
  have na: "ucMBAddress s \<noteq> MB_ADDRESS_BROADCAST" using assms(2,3) by simp
  have d: "\<exists>f' l'. dispatch app s (sregs s) f (of_nat (length ?p)) = Some (MB_EX_NONE, sregs s, f', l') \<and>
      length f' = 255 \<and> (MB_EX_NONE = MB_EX_NONE \<longrightarrow> unat l' = length ?q \<and> take (length ?q) f' = ?q)"
    if f: "length f = 255" "take (length ?p) f = ?p" for f
  proof -
    have f5: "take 5 f = ?p" using f(2) unfolding p(1) .
    have "f ! 0 = 3" using nth_take[of 0 5 f] unfolding f5 by simp
    moreover have "of_nat (length ?p) = (5 :: u16)" by simp
    ultimately show ?thesis
      using fc03_answer[OF ok f(1) f5 assms(5,6)] assms(4)
      unfolding q dispatch_def by (simp only: option.case call_handler.simps simp_thms)
  qed
  have "length ?q \<le> 253" unfolding q using assms(6) by simp
  from slave_answers[OF assms(1) p(2,3) na d _ this]
  show ?thesis unfolding q unfolding assms(2) by (simp add: add.commute add.left_commute) blast
qed

theorem slave_answers_read_witness:
  "\<exists>s'. slave_exchange (\<lambda>k r f n. None) (adu 1 [3, hi8 0, lo8 0, 0, 2]) 10 slave_at_work = Some s' \<and>
    s_wire (srtu s') = adu 1 ([3, 4] @ reg_bytes [0, 0])"
proof -
  have c: "unat (2 :: u8) = 2" "1 \<le> unat (2 :: u8)" "unat (0 :: u16) + unat (2 :: u8) \<le> 100"
    "(1 :: u8) \<noteq> MB_ADDRESS_BROADCAST" by (simp_all add: MB_ADDRESS_BROADCAST_def)
  have h: "find_handler 3 (xFuncHandlers slave_at_work) = Some (Some P_eMBFuncReadHoldingRegister)"
    unfolding slave_at_work_fields by (code_simp)
  have "take 2 (drop 0 (usSRegHoldBuf init_regs)) = [0, 0]" by (simp add: init_regs_def numeral_2_eq_2)
  then show ?thesis
    using slave_answers_read[OF slave_at_work_ready slave_at_work_fields(1) c(4) h c(2,3)]
    unfolding c(1) slave_at_work_fields by (auto simp del: replicate.simps)
qed

text \<open>
  A request with a function code that has no handler is answered with the code with its
  top bit set and the exception 1; the registers keep their values.
\<close>

theorem slave_unknown_function:
  assumes "slave_ready s" "ucMBAddress s = a" "a \<noteq> MB_ADDRESS_BROADCAST"
    "find_handler c (xFuncHandlers s) = None" "length p \<le> 252"
  shows "\<exists>s'. slave_exchange app (adu a (c # p)) 6 s = Some s' \<and>
    s_wire (srtu s') = s_wire (srtu s) @ adu a [c OR 0x80, 1] \<and> sregs s' = sregs s"
proof -
  let ?q = "[c OR 0x80, 1 :: u8]"
  have na: "ucMBAddress s \<noteq> MB_ADDRESS_BROADCAST" using assms(2,3) by simp
  have d: "\<exists>f' l'. dispatch app s (sregs s) f (of_nat (length (c # p))) = Some (MB_EX_ILLEGAL_FUNCTION, sregs s, f', l') \<and>
      length f' = 255 \<and> (MB_EX_ILLEGAL_FUNCTION = MB_EX_NONE \<longrightarrow> unat l' = length ?q \<and> take (length ?q) f' = ?q)"
    if f: "length f = 255" "take (length (c # p)) f = c # p" for f
    using f assms(4) by (cases f) (simp_all add: dispatch_def)
  have "length (c # p) \<le> 253" "1 \<le> length (c # p)" "length ?q \<le> 253" using assms(5) by simp_all
  from slave_answers[OF assms(1) this(2,1) na d _ this(3)] show ?thesis
    unfolding assms(2) by (auto simp: MB_FUNC_ERROR_def)
qed

theorem slave_unknown_function_witness:
  "\<exists>s'. slave_exchange (\<lambda>k r f n. None) (adu 1 [0x2B, 0x0E]) 6 slave_at_work = Some s' \<and>
    s_wire (srtu s') = adu 1 [0x2B OR 0x80, 1]"
proof -
  have c: "(1 :: u8) \<noteq> MB_ADDRESS_BROADCAST" "length [0x0E :: u8] \<le> 252"
    by (simp_all add: MB_ADDRESS_BROADCAST_def)
  have h: "find_handler 0x2B (xFuncHandlers slave_at_work) = None"
    unfolding slave_at_work_fields by (code_simp)
  show ?thesis
    using slave_unknown_function[OF slave_at_work_ready slave_at_work_fields(1) c(1) h c(2)]
    unfolding slave_at_work_fields by auto
qed

theorem slave_ignores_witness:
  "\<exists>s'. slave_request (\<lambda>k r f n. None) [9, 3, 0, 0, 0, 1] slave_at_work = Some s' \<and>
    sregs s' = init_regs \<and> s_wire (srtu s') = []"
proof -
  have c: "[9, 3, 0, 0, 0, 1 :: u8] \<noteq> []" "length [9, 3, 0, 0, 0, 1 :: u8] \<le> 256"
    "[9, 3, 0, 0, 0, 1 :: u8] ! 0 \<noteq> 1 \<and> [9, 3, 0, 0, 0, 1 :: u8] ! 0 \<noteq> MB_ADDRESS_BROADCAST"
    by (simp_all add: MB_ADDRESS_BROADCAST_def)
  show ?thesis
    using slave_ignores[OF slave_at_work_ready c(1,2)] c(3) unfolding slave_at_work_fields by blast
qed

lemma fc06_answer:
  assumes "slave_ok r" "length f = 255" "take 5 f = [6, hi8 w, lo8 w, hi8 v, lo8 v]" "unat w < 100"
  shows "eMBFuncWriteHoldingRegister r f 5 =
    Some (MB_EX_NONE, toggle_led (r \<lparr> usSRegHoldBuf := (usSRegHoldBuf r)[unat w := v] \<rparr>), f, 5)"
proof -
  have f: "f ! 1 = hi8 w" "f ! 2 = lo8 w" "f ! 3 = hi8 v" "f ! 4 = lo8 v"
    using nth_take[of 1 5 f] nth_take[of 2 5 f] nth_take[of 3 5 f] nth_take[of 4 5 f]
    unfolding assms(3) by simp_all
  have w: "mk16 (f ! 1) (f ! 2) = w" "mk16 (f ! 3) (f ! 4) = v" by (simp_all only: f mk16_hi_lo)
  have len: "length (usSRegHoldBuf r) = 100" using assms(1) by (simp add: slave_ok_def wf_regs_def)
  have a: "unat (w + 1) = unat w + 1" using assms(4) by (simp add: unat_word_ariths)
  have "take 2 (drop 3 f) = [f ! 3, f ! 4]"
    using assms(2) by (simp add: take_Suc_drop numeral_2_eq_2 numeral_3_eq_3 eval_nat_numeral)
  then have b: "bytes_regs (take (2 * unat (1 :: u16)) (drop 3 f)) = [v]" by (simp add: w(2))
  have upd: "take (unat w) (usSRegHoldBuf r) @ [v] @ drop (unat w + 1) (usSRegHoldBuf r) = (usSRegHoldBuf r)[unat w := v]"
    using assms(4) len by (simp add: upd_conv_take_nth_drop)
  have cb: "eMBRegHoldingCB r f 3 (w + 1) 1 MB_REG_WRITE =
      Some (MB_ENOERR, toggle_led (r \<lparr> usSRegHoldBuf := (usSRegHoldBuf r)[unat w := v] \<rparr>), f)"
    using eMBRegHoldingCB_write[of r 3 1 f "w + 1"] assms(1,2,4) a b upd
    by (simp add: slave_ok_def del: append_Cons)
  have "frame16 f 1 = Some w" using assms(2) w(1) by simp
  then show ?thesis using cb by (simp add: eMBFuncWriteHoldingRegister_def)
qed

lemma fc06_dispatch:
  assumes "slave_ready s" "find_handler 6 (xFuncHandlers s) = Some (Some P_eMBFuncWriteHoldingRegister)"
    "unat w < 100" "length f = 255" "take 5 f = [6, hi8 w, lo8 w, hi8 v, lo8 v]"
  shows "dispatch app s (sregs s) f 5 = Some (MB_EX_NONE,
    toggle_led ((sregs s) \<lparr> usSRegHoldBuf := (usSRegHoldBuf (sregs s))[unat w := v] \<rparr>), f, 5)"
proof -
  have ok: "slave_ok (sregs s)" using assms(1) by (simp add: slave_ready_def mbs_inv_def)
  have "f ! 0 = 6" using nth_take[of 0 5 f] unfolding assms(5) by simp
  then show ?thesis using fc06_answer[OF ok assms(4,5,3)] assms(2)
    unfolding dispatch_def by (simp only: option.case call_handler.simps)
qed

text \<open>
  A write register request for the address of the slave sets exactly that register
  and is echoed on the line; the same request as a broadcast sets it and is not
  answered.
\<close>

theorem slave_writes_register:
  assumes "slave_ready s" "ucMBAddress s \<noteq> MB_ADDRESS_BROADCAST"
    "find_handler 6 (xFuncHandlers s) = Some (Some P_eMBFuncWriteHoldingRegister)" "unat w < 100"
  shows "(\<exists>s'. slave_exchange app (adu (ucMBAddress s) [6, hi8 w, lo8 w, hi8 v, lo8 v]) 9 s = Some s' \<and>
      s_wire (srtu s') = s_wire (srtu s) @ adu (ucMBAddress s) [6, hi8 w, lo8 w, hi8 v, lo8 v] \<and>
      usSRegHoldBuf (sregs s') = (usSRegHoldBuf (sregs s))[unat w := v]) \<and>
    (\<exists>s'. slave_request app (adu MB_ADDRESS_BROADCAST [6, hi8 w, lo8 w, hi8 v, lo8 v]) s = Some s' \<and>
      s_wire (srtu s') = s_wire (srtu s) \<and> s_SndState (srtu s') = s_SndState (srtu s) \<and>
      s_txe_ie (srtu s') = s_txe_ie (srtu s) \<and> usSRegHoldBuf (sregs s') = (usSRegHoldBuf (sregs s))[unat w := v])"
proof
  let ?p = "[6, hi8 w, lo8 w, hi8 v, lo8 v]"
  let ?r = "toggle_led ((sregs s) \<lparr> usSRegHoldBuf := (usSRegHoldBuf (sregs s))[unat w := v] \<rparr>)"
  have p: "1 \<le> length ?p" "length ?p \<le> 253" "length ?p = 5" by simp_all
  have n: "of_nat (length ?p) = (5 :: u16)" "unat (5 :: u16) = length ?p" by simp_all
  note fc06 = fc06_dispatch[OF assms(1,3,4)]
  have d: "\<exists>f' l'. dispatch app s (sregs s) f (of_nat (length ?p)) = Some (MB_EX_NONE, ?r, f', l') \<and>
      length f' = 255 \<and> (MB_EX_NONE = MB_EX_NONE \<longrightarrow> unat l' = length ?p \<and> take (length ?p) f' = ?p)"
    if "length f = 255" "take (length ?p) f = ?p" for f
    using fc06[of f v app] that n unfolding p(3) by auto
  from slave_answers[OF assms(1) p(1,2) assms(2) d _ p(2)]
  show "\<exists>s'. slave_exchange app (adu (ucMBAddress s) ?p) 9 s = Some s' \<and>
      s_wire (srtu s') = s_wire (srtu s) @ adu (ucMBAddress s) ?p \<and>
      usSRegHoldBuf (sregs s') = (usSRegHoldBuf (sregs s))[unat w := v]"
    by (simp add: numeral_eq_Suc) auto
  let ?f = "drop 1 (adu MB_ADDRESS_BROADCAST ?p) @ drop (length ?p + 3) (ucRTUBuf (srtu s))"
  have "length (ucRTUBuf (srtu s)) = 256" using assms(1) by (simp add: slave_ready_def mbs_inv_def srtu_inv_def)
  then have f: "length ?f = 255" "take 5 ?f = ?p" by (simp_all add: adu_def)
  from slave_executes[OF assms(1) p(1,2) disjI2[OF refl] fc06[OF f, of app, folded n(1)] f(1)]
  show "\<exists>s'. slave_request app (adu MB_ADDRESS_BROADCAST ?p) s = Some s' \<and>
      s_wire (srtu s') = s_wire (srtu s) \<and> s_SndState (srtu s') = s_SndState (srtu s) \<and>
      s_txe_ie (srtu s') = s_txe_ie (srtu s) \<and> usSRegHoldBuf (sregs s') = (usSRegHoldBuf (sregs s))[unat w := v]"
    by auto
qed

theorem slave_writes_register_witness:
  "\<exists>s'. slave_request (\<lambda>k r f n. None) (adu MB_ADDRESS_BROADCAST [6, hi8 3, lo8 3, hi8 500, lo8 500]) slave_at_work = Some s' \<and>
    s_wire (srtu s') = [] \<and> usSRegHoldBuf (sregs s') = (usSRegHoldBuf init_regs)[3 := 500]"
proof -
  have c: "unat (3 :: u16) = 3" "unat (3 :: u16) < 100" "(1 :: u8) \<noteq> MB_ADDRESS_BROADCAST"
    by (simp_all add: MB_ADDRESS_BROADCAST_def)
  have h: "find_handler 6 (xFuncHandlers slave_at_work) = Some (Some P_eMBFuncWriteHoldingRegister)"
    unfolding slave_at_work_fields by (code_simp)
  have a: "ucMBAddress slave_at_work \<noteq> MB_ADDRESS_BROADCAST" unfolding slave_at_work_fields by (rule c(3))
  show ?thesis
    using conjunct2[OF slave_writes_register[OF slave_at_work_ready a h c(2)], of "\<lambda>k r f n. None" 500]
    unfolding slave_at_work_fields c(1) by blast
qed

text \<open>
  Removing a handler leaves a free entry in the table, at which the search of the poll
  ends: only the handlers before it are still found.
\<close>

theorem removed_handler_hides_the_rest:
  assumes "xFuncHandlers s = t1 @ (c, Some p) # t2" "\<forall>h \<in> set t1. fst h \<noteq> c" "1 \<le> unat c" "unat c \<le> 127"
  shows "\<exists>s'. eMBRegisterCB c None s = (MB_ENOERR, s') \<and>
    (\<forall>d. find_handler d (xFuncHandlers s') = find_handler d t1)"
proof -
  have r: "remove_handler c (t1 @ (c, Some p) # t2) = t1 @ (0, None) # t2"
    using assms(2) by (induction t1) auto
  have f: "find_handler d (t1 @ (0, None) # t2) = find_handler d t1" for d
    by (induction t1) auto
  have "0 < c" "c \<le> 127" using assms(3,4) by (simp_all add: word_less_nat_alt word_le_nat_alt)
  then show ?thesis using r f by (simp add: eMBRegisterCB_def assms(1))
qed

theorem removed_handler_hides_the_rest_witness:
  "\<exists>s'. eMBRegisterCB 17 None slave_at_work = (MB_ENOERR, s') \<and> find_handler 3 (xFuncHandlers s') = None"
proof -
  have "xFuncHandlers slave_at_work = [] @ (17, Some P_eMBFuncReportSlaveID) # tl xFuncHandlers_init"
    unfolding slave_at_work_fields by (simp add: xFuncHandlers_init_def MB_FUNC_OTHER_REPORT_SLAVEID_def)
  from removed_handler_hides_the_rest[OF this] show ?thesis by auto
qed

end
