(* ===== verification/HeapMem.thy ===== *)
theory HeapMem
  imports Prelude
begin

text \<open>
  The heap of lwIP (\<open>core/mem.c\<close>), from which the program takes the buffers of
  the packets it sends and the arguments of the TFTP server.  The heap lies in
  one array of bytes, and its blocks are headed by a \<open>struct mem\<close> of eight bytes:
  the offsets of the next and of the previous header and the flag \<open>used\<close>.  The
  model keeps the bytes: the memory is a function from addresses to bytes, the
  headers are read from it and written to it, so a header that lay on the data of
  another block would destroy it.

  The configuration is that of \<open>lwipopts.h\<close> and \<open>opt.h\<close> of this repository:
  \<open>MEM_SIZE\<close> is 6144, \<open>MEM_ALIGNMENT\<close> 4, \<open>mem_size_t\<close> 16 bits wide, no pools, no
  freeing from interrupts.  \<open>LWIP_ASSERT\<close> hands its message to
  \<open>LWIP_PLATFORM_ASSERT(x)\<close>, which waits when \<open>x\<close> is null; a message never is,
  so an assertion of lwIP has no effect and none is modelled.
\<close>

section \<open>The state\<close>

type_synonym mem_size_t = u16

record lwip_heap =
  ram :: nat                       \<comment> \<open>\<open>ram\<close>: the address of the first header\<close>
  cells :: "nat \<Rightarrow> u8"             \<comment> \<open>the memory, by address\<close>
  lfree :: nat                     \<comment> \<open>\<open>lfree\<close>: the address of the lowest free header\<close>

definition MEM_SIZE_ALIGNED :: nat where "MEM_SIZE_ALIGNED = 6144"

definition SIZEOF_STRUCT_MEM :: nat where "SIZEOF_STRUCT_MEM = 8"

definition MIN_SIZE_ALIGNED :: nat where "MIN_SIZE_ALIGNED = 12"

definition ram_end :: "lwip_heap \<Rightarrow> nat" where "ram_end h = ram h + MEM_SIZE_ALIGNED"

text \<open>The fields of the \<open>struct mem\<close> at an address; the chip is little-endian.\<close>

definition load16 :: "(nat \<Rightarrow> u8) \<Rightarrow> nat \<Rightarrow> u16" where
  "load16 c a = mk16 (c (a + 1)) (c a)"

definition store16 :: "u16 \<Rightarrow> nat \<Rightarrow> (nat \<Rightarrow> u8) \<Rightarrow> (nat \<Rightarrow> u8)" where
  "store16 w a c = c(a := lo8 w, a + 1 := hi8 w)"

definition m_next :: "lwip_heap \<Rightarrow> nat \<Rightarrow> mem_size_t" where
  "m_next h a = load16 (cells h) a"

definition m_prev :: "lwip_heap \<Rightarrow> nat \<Rightarrow> mem_size_t" where
  "m_prev h a = load16 (cells h) (a + 2)"

definition m_used :: "lwip_heap \<Rightarrow> nat \<Rightarrow> u8" where
  "m_used h a = cells h (a + 4)"

definition set_next :: "mem_size_t \<Rightarrow> nat \<Rightarrow> lwip_heap \<Rightarrow> lwip_heap" where
  "set_next w a h = h\<lparr>cells := store16 w a (cells h)\<rparr>"

definition set_prev :: "mem_size_t \<Rightarrow> nat \<Rightarrow> lwip_heap \<Rightarrow> lwip_heap" where
  "set_prev w a h = h\<lparr>cells := store16 w (a + 2) (cells h)\<rparr>"

definition set_used :: "u8 \<Rightarrow> nat \<Rightarrow> lwip_heap \<Rightarrow> lwip_heap" where
  "set_used b a h = h\<lparr>cells := (cells h)(a + 4 := b)\<rparr>"

text \<open>\<open>&ram[i]\<close>, and the offset \<open>(mem_size_t)((u8_t *)mem - ram)\<close> of an address.\<close>

definition at :: "lwip_heap \<Rightarrow> mem_size_t \<Rightarrow> nat" where
  "at h i = ram h + unat i"

definition offs :: "lwip_heap \<Rightarrow> nat \<Rightarrow> mem_size_t" where
  "offs h a = word_of_int (int a - int (ram h))"

section \<open>The operations\<close>

text \<open>\<open>mem_init\<close>: one free block, and the end marked as used.\<close>

definition mem_init :: "lwip_heap \<Rightarrow> lwip_heap" where
  "mem_init h =
     (let h = set_used 0 (ram h) (set_prev 0 (ram h)
                (set_next (word_of_nat MEM_SIZE_ALIGNED) (ram h) h));
          h = set_prev (word_of_nat MEM_SIZE_ALIGNED) (ram_end h)
                (set_next (word_of_nat MEM_SIZE_ALIGNED) (ram_end h)
                  (set_used 1 (ram_end h) h))
      in h\<lparr>lfree := ram h\<rparr>)"

text \<open>\<open>plug_holes\<close>: join a block that became free with free neighbours.\<close>

definition plug_forward :: "nat \<Rightarrow> lwip_heap \<Rightarrow> lwip_heap" where
  "plug_forward mem h =
     (let nmem = at h (m_next h mem) in
      if mem \<noteq> nmem \<and> m_used h nmem = 0 \<and> nmem \<noteq> ram_end h then
        let h = (if lfree h = nmem then h\<lparr>lfree := mem\<rparr> else h);
            h = set_next (m_next h nmem) mem h
        in set_prev (offs h mem) (at h (m_next h nmem)) h
      else h)"

definition plug_backward :: "nat \<Rightarrow> lwip_heap \<Rightarrow> lwip_heap" where
  "plug_backward mem h =
     (let pmem = at h (m_prev h mem) in
      if pmem \<noteq> mem \<and> m_used h pmem = 0 then
        let h = (if lfree h = mem then h\<lparr>lfree := pmem\<rparr> else h);
            h = set_next (m_next h mem) pmem h
        in set_prev (offs h pmem) (at h (m_next h mem)) h
      else h)"

definition plug_holes :: "nat \<Rightarrow> lwip_heap \<Rightarrow> lwip_heap" where
  "plug_holes mem h = plug_backward mem (plug_forward mem h)"

text \<open>\<open>mem_free\<close>; the null pointer is address 0.\<close>

definition mem_free :: "nat \<Rightarrow> lwip_heap \<Rightarrow> lwip_heap" where
  "mem_free rmem h =
     (if rmem = 0 then h
      else if rmem < ram h \<or> ram_end h \<le> rmem then h
      else let mem = rmem - SIZEOF_STRUCT_MEM;
               h = set_used 0 mem h;
               h = (if mem < lfree h then h\<lparr>lfree := mem\<rparr> else h)
           in plug_holes mem h)"

text \<open>\<open>LWIP_MEM_ALIGN_SIZE\<close> is computed in 32 bits and cut to the 16 of \<open>mem_size_t\<close>.\<close>

definition LWIP_MEM_ALIGN_SIZE :: "u32 \<Rightarrow> u32" where
  "LWIP_MEM_ALIGN_SIZE s = (s + 4 - 1) AND NOT 3"

definition mem_round :: "mem_size_t \<Rightarrow> mem_size_t" where
  "mem_round sz =
     (let sz = ucast (LWIP_MEM_ALIGN_SIZE (ucast sz)) :: mem_size_t
      in if unat sz < MIN_SIZE_ALIGNED then word_of_nat MIN_SIZE_ALIGNED else sz)"

text \<open>The size of the data of the block at offset \<open>ptr\<close>, in the unsigned arithmetic of
  the comparisons: \<open>mem->next - (ptr + SIZEOF_STRUCT_MEM)\<close>.\<close>

definition user_size :: "lwip_heap \<Rightarrow> mem_size_t \<Rightarrow> u32" where
  "user_size h ptr = ucast (m_next h (at h ptr)) - (ucast ptr + word_of_nat SIZEOF_STRUCT_MEM)"

text \<open>The two loops of \<open>mem_malloc\<close>: the search for a block that is large enough, and the
  search for the next free block when the lowest one was taken.  Both follow the
  links of the heap and end only when these are in order.\<close>

partial_function (option) mem_fit :: "mem_size_t \<Rightarrow> mem_size_t \<Rightarrow> lwip_heap \<Rightarrow> mem_size_t option option" where
  "mem_fit sz ptr h =
     (if unat ptr < MEM_SIZE_ALIGNED - unat sz then
        if m_used h (at h ptr) = 0 \<and> ucast sz \<le> user_size h ptr then Some (Some ptr)
        else mem_fit sz (m_next h (at h ptr)) h
      else Some None)"

partial_function (option) next_free :: "nat \<Rightarrow> lwip_heap \<Rightarrow> nat option" where
  "next_free cur h =
     (if m_used h cur \<noteq> 0 \<and> cur \<noteq> ram_end h then next_free (at h (m_next h cur)) h
      else Some cur)"

definition mem_split :: "mem_size_t \<Rightarrow> mem_size_t \<Rightarrow> lwip_heap \<Rightarrow> lwip_heap" where
  "mem_split sz ptr h =
     (let mem = at h ptr;
          ptr2 = ptr + word_of_nat SIZEOF_STRUCT_MEM + sz;
          mem2 = at h ptr2;
          h = set_used 0 mem2 h;
          h = set_next (m_next h mem) mem2 h;
          h = set_prev ptr mem2 h;
          h = set_next ptr2 mem h;
          h = set_used 1 mem h
      in if unat (m_next h mem2) \<noteq> MEM_SIZE_ALIGNED
         then set_prev ptr2 (at h (m_next h mem2)) h else h)"

definition mem_take :: "mem_size_t \<Rightarrow> mem_size_t \<Rightarrow> lwip_heap \<Rightarrow> lwip_heap" where
  "mem_take sz ptr h =
     (if ucast sz + word_of_nat SIZEOF_STRUCT_MEM + word_of_nat MIN_SIZE_ALIGNED \<le> user_size h ptr
      then mem_split sz ptr h
      else set_used 1 (at h ptr) h)"

definition mem_malloc :: "mem_size_t \<Rightarrow> lwip_heap \<Rightarrow> (nat \<times> lwip_heap) option" where
  "mem_malloc sz h =
     (if sz = 0 then Some (0, h)
      else let sz = mem_round sz in
      if MEM_SIZE_ALIGNED < unat sz then Some (0, h)
      else do {
        fit \<leftarrow> mem_fit sz (offs h (lfree h)) h;
        case fit of
          None \<Rightarrow> Some (0, h)
        | Some ptr \<Rightarrow> do {
            let mem = at h ptr;
            let h = mem_take sz ptr h;
            h \<leftarrow> (if mem = lfree h then do {
                     cur \<leftarrow> next_free (lfree h) h;
                     Some (h\<lparr>lfree := cur\<rparr>)
                   } else Some h);
            Some (mem + SIZEOF_STRUCT_MEM, h)
          }
      })"

text \<open>\<open>mem_trim\<close> makes a block smaller and gives the rest back.\<close>

definition trim_free :: "nat \<Rightarrow> mem_size_t \<Rightarrow> mem_size_t \<Rightarrow> lwip_heap \<Rightarrow> lwip_heap" where
  "trim_free mem ptr newsize h =
     (let mem2 = at h (m_next h mem);
          next = m_next h mem2;
          ptr2 = ptr + word_of_nat SIZEOF_STRUCT_MEM + newsize;
          h = (if lfree h = mem2 then h\<lparr>lfree := at h ptr2\<rparr> else h);
          mem2 = at h ptr2;
          h = set_used 0 mem2 h;
          h = set_next next mem2 h;
          h = set_prev ptr mem2 h;
          h = set_next ptr2 mem h
      in if unat (m_next h mem2) \<noteq> MEM_SIZE_ALIGNED
         then set_prev ptr2 (at h (m_next h mem2)) h else h)"

definition trim_used :: "nat \<Rightarrow> mem_size_t \<Rightarrow> mem_size_t \<Rightarrow> lwip_heap \<Rightarrow> lwip_heap" where
  "trim_used mem ptr newsize h =
     (let ptr2 = ptr + word_of_nat SIZEOF_STRUCT_MEM + newsize;
          mem2 = at h ptr2;
          h = (if mem2 < lfree h then h\<lparr>lfree := mem2\<rparr> else h);
          h = set_used 0 mem2 h;
          h = set_next (m_next h mem) mem2 h;
          h = set_prev ptr mem2 h;
          h = set_next ptr2 mem h
      in if unat (m_next h mem2) \<noteq> MEM_SIZE_ALIGNED
         then set_prev ptr2 (at h (m_next h mem2)) h else h)"

definition mem_trim :: "nat \<Rightarrow> mem_size_t \<Rightarrow> lwip_heap \<Rightarrow> nat \<times> lwip_heap" where
  "mem_trim rmem newsize h =
     (let newsize = mem_round newsize in
      if MEM_SIZE_ALIGNED < unat newsize then (0, h)
      else if rmem < ram h \<or> ram_end h \<le> rmem then (rmem, h)
      else
        let mem = rmem - SIZEOF_STRUCT_MEM;
            ptr = offs h mem;
            sz = m_next h mem - ptr - word_of_nat SIZEOF_STRUCT_MEM
        in if sz < newsize then (0, h)
           else if newsize = sz then (rmem, h)
           else if m_used h (at h (m_next h mem)) = 0 then (rmem, trim_free mem ptr newsize h)
           else if (ucast newsize :: u32) + word_of_nat SIZEOF_STRUCT_MEM + word_of_nat MIN_SIZE_ALIGNED
                     \<le> ucast sz
                then (rmem, trim_used mem ptr newsize h)
                else (rmem, h))"

text \<open>\<open>mem_calloc\<close> hands the product to \<open>mem_malloc\<close>, which reads 16 bits of it, and
  clears as many bytes as the product itself says.\<close>

definition mem_calloc :: "mem_size_t \<Rightarrow> mem_size_t \<Rightarrow> lwip_heap \<Rightarrow> (nat \<times> lwip_heap) option" where
  "mem_calloc count sz h = do {
     (p, h) \<leftarrow> mem_malloc (count * sz) h;
     Some (p, if p \<noteq> 0
              then h\<lparr>cells := (\<lambda>a. if p \<le> a \<and> a < p + unat count * unat sz then 0 else cells h a)\<rparr>
              else h)
   }"

section \<open>Headers\<close>

text \<open>Two headers that do not overlap.\<close>

definition apart :: "nat \<Rightarrow> nat \<Rightarrow> bool" where
  "apart a b \<longleftrightarrow> a + 5 \<le> b \<or> b + 5 \<le> a"

named_theorems header "the fields of a header after a field was written"

lemma load_store16 [simp]: "load16 (store16 w a c) a = w"
  by (simp add: load16_def store16_def)

lemma load_store16_other: "a + 2 \<le> b \<or> b + 2 \<le> a \<Longrightarrow> load16 (store16 w a c) b = load16 c b"
  by (auto simp: load16_def store16_def)

lemma load16_upd_other: "a < b \<or> b + 2 \<le> a \<Longrightarrow> load16 (c(a := x)) b = load16 c b"
  by (auto simp: load16_def)

lemma set_ram [simp]:
  "ram (set_next w a h) = ram h" "ram (set_prev w a h) = ram h" "ram (set_used b a h) = ram h"
  "lfree (set_next w a h) = lfree h" "lfree (set_prev w a h) = lfree h" "lfree (set_used b a h) = lfree h"
  by (simp_all add: set_next_def set_prev_def set_used_def)

lemma at_set [simp]:
  "at (set_next w a h) = at h" "at (set_prev w a h) = at h" "at (set_used b a h) = at h"
  "at (h\<lparr>lfree := f\<rparr>) = at h"
  "offs (set_next w a h) = offs h" "offs (set_prev w a h) = offs h" "offs (set_used b a h) = offs h"
  "offs (h\<lparr>lfree := f\<rparr>) = offs h"
  "ram_end (set_next w a h) = ram_end h" "ram_end (set_prev w a h) = ram_end h"
  "ram_end (set_used b a h) = ram_end h" "ram_end (h\<lparr>lfree := f\<rparr>) = ram_end h"
  by (simp_all add: fun_eq_iff at_def offs_def ram_end_def)

lemma fields_lfree [simp]:
  "m_next (h\<lparr>lfree := f\<rparr>) a = m_next h a" "m_prev (h\<lparr>lfree := f\<rparr>) a = m_prev h a"
  "m_used (h\<lparr>lfree := f\<rparr>) a = m_used h a"
  by (simp_all add: m_next_def m_prev_def m_used_def)

lemma fields_same [header]:
  "m_next (set_next w a h) a = w" "m_prev (set_next w a h) a = m_prev h a"
  "m_used (set_next w a h) a = m_used h a"
  "m_next (set_prev w a h) a = m_next h a" "m_prev (set_prev w a h) a = w"
  "m_used (set_prev w a h) a = m_used h a"
  "m_next (set_used b a h) a = m_next h a" "m_prev (set_used b a h) a = m_prev h a"
  "m_used (set_used b a h) a = b"
  by (simp_all add: m_next_def m_prev_def m_used_def set_next_def set_prev_def set_used_def
      load_store16_other load16_upd_other) (simp_all add: store16_def)

lemma fields_apart [header]:
  assumes "apart a b"
  shows "m_next (set_next w a h) b = m_next h b" "m_prev (set_next w a h) b = m_prev h b"
    "m_used (set_next w a h) b = m_used h b"
    "m_next (set_prev w a h) b = m_next h b" "m_prev (set_prev w a h) b = m_prev h b"
    "m_used (set_prev w a h) b = m_used h b"
    "m_next (set_used c a h) b = m_next h b" "m_prev (set_used c a h) b = m_prev h b"
    "m_used (set_used c a h) b = m_used h b"
  using assms
  by (auto simp: apart_def m_next_def m_prev_def m_used_def set_next_def set_prev_def set_used_def
      load_store16_other load16_upd_other) (auto simp: store16_def)

text \<open>Which bytes a write to a field can change.\<close>

lemma cells_set [header]:
  "a \<noteq> b \<and> a \<noteq> b + 1 \<Longrightarrow> cells (set_next w b h) a = cells h a"
  "a \<noteq> b + 2 \<and> a \<noteq> b + 3 \<Longrightarrow> cells (set_prev w b h) a = cells h a"
  "a \<noteq> b + 4 \<Longrightarrow> cells (set_used c b h) a = cells h a"
  by (auto simp: set_next_def set_prev_def set_used_def store16_def)

lemma fields_cong:
  assumes "\<And>i. i < 5 \<Longrightarrow> cells h' (a + i) = cells h (a + i)"
  shows "m_next h' a = m_next h a" "m_prev h' a = m_prev h a" "m_used h' a = m_used h a"
  using assms[of 0] assms[of 1] assms[of 2] assms[of 3] assms[of 4]
  by (simp_all add: m_next_def m_prev_def m_used_def load16_def numeral_eq_Suc)

section \<open>The heap as a list of blocks\<close>

text \<open>A block is its length, header included, and whether it is in use.\<close>

type_synonym block = "nat \<times> bool"

definition extent :: "block list \<Rightarrow> nat" where
  "extent bs = sum_list (map fst bs)"

lemma extent_simps [simp]:
  "extent [] = 0" "extent ((n, u) # bs) = n + extent bs" "extent (as @ bs) = extent as + extent bs"
  by (simp_all add: extent_def)

definition is_block :: "lwip_heap \<Rightarrow> nat \<Rightarrow> nat \<Rightarrow> block \<Rightarrow> bool" where
  "is_block h p q b \<longleftrightarrow>
     (case b of (n, u) \<Rightarrow>
        20 \<le> n \<and> 4 dvd n \<and> unat (m_next h (ram h + p)) = p + n \<and>
        unat (m_prev h (ram h + p)) = q \<and> m_used h (ram h + p) = of_bool u)"

text \<open>\<open>seg h p q bs\<close>: the blocks \<open>bs\<close> lie one after the other from offset \<open>p\<close>, the first one
  pointing back to \<open>q\<close>; \<open>chain\<close>: and the end of the heap follows.\<close>

fun seg :: "lwip_heap \<Rightarrow> nat \<Rightarrow> nat \<Rightarrow> block list \<Rightarrow> bool" where
  "seg h p q [] \<longleftrightarrow> True"
| "seg h p q ((n, u) # bs) \<longleftrightarrow> is_block h p q (n, u) \<and> seg h (p + n) p bs"

fun chain :: "lwip_heap \<Rightarrow> nat \<Rightarrow> nat \<Rightarrow> block list \<Rightarrow> bool" where
  "chain h p q [] \<longleftrightarrow>
     p = MEM_SIZE_ALIGNED \<and> unat (m_next h (ram h + p)) = p \<and> m_used h (ram h + p) = 1"
| "chain h p q ((n, u) # bs) \<longleftrightarrow> is_block h p q (n, u) \<and> chain h (p + n) p bs"

text \<open>The offset of the last of the blocks.\<close>

fun last_at :: "nat \<Rightarrow> nat \<Rightarrow> block list \<Rightarrow> nat" where
  "last_at p q [] = q"
| "last_at p q ((n, u) # bs) = last_at (p + n) p bs"

lemma last_at_snoc [simp]: "last_at p q (bs @ [(n, u)]) = p + extent bs"
  by (induction bs arbitrary: p q) auto

lemma chain_append:
  "chain h p q (as @ bs) \<longleftrightarrow> seg h p q as \<and> chain h (p + extent as) (last_at p q as) bs"
  by (induction as arbitrary: p q) (auto simp: add.assoc)

lemma seg_append:
  "seg h p q (as @ bs) \<longleftrightarrow> seg h p q as \<and> seg h (p + extent as) (last_at p q as) bs"
  by (induction as arbitrary: p q) (auto simp: add.assoc)

lemma chain_extent: "chain h p q bs \<Longrightarrow> p + extent bs = MEM_SIZE_ALIGNED"
proof (induction bs arbitrary: p q)
  case (Cons b bs)
  then show ?case by (cases b) (fastforce simp: add.assoc)
qed simp

lemma extent_nil_end:
  "chain h p q bs \<Longrightarrow> p \<noteq> MEM_SIZE_ALIGNED \<Longrightarrow> p + 20 \<le> MEM_SIZE_ALIGNED"
  using chain_extent[of h p q bs] by (cases bs) (auto simp: is_block_def)

lemma is_block_cong:
  assumes "is_block h p q b" "ram h' = ram h"
    "\<And>a. ram h + p \<le> a \<Longrightarrow> a < ram h + p + 5 \<Longrightarrow> cells h' a = cells h a"
  shows "is_block h' p q b"
proof -
  have "m_next h' (ram h + p) = m_next h (ram h + p)" "m_prev h' (ram h + p) = m_prev h (ram h + p)"
    "m_used h' (ram h + p) = m_used h (ram h + p)"
    by (rule fields_cong; rule assms(3); simp)+
  then show ?thesis using assms(1,2) by (simp add: is_block_def split: prod.splits)
qed

lemma seg_cong:
  assumes "seg h p q bs" "ram h' = ram h"
    "\<And>a. ram h + p \<le> a \<Longrightarrow> a < ram h + p + extent bs \<Longrightarrow> cells h' a = cells h a"
  shows "seg h' p q bs"
  using assms
proof (induction bs arbitrary: p q)
  case (Cons b bs)
  obtain n u where b: "b = (n, u)" by (cases b)
  have n: "20 \<le> n" using Cons.prems(1) by (simp add: b is_block_def)
  have "is_block h' p q b"
    by (rule is_block_cong[of h]) (use Cons.prems n in \<open>simp_all add: b\<close>)
  moreover have "seg h' (p + n) p bs"
    by (rule Cons.IH) (use Cons.prems n in \<open>simp_all add: b add.assoc\<close>)
  ultimately show ?case by (simp add: b)
qed simp

text \<open>The rest of the heap stays in order when the first header of it is made to point
  back elsewhere.\<close>

lemma chain_relink:
  assumes "chain h p q bs" "ram h' = ram h"
    "\<And>a. ram h + p \<le> a \<Longrightarrow> a \<noteq> ram h + p + 2 \<Longrightarrow> a \<noteq> ram h + p + 3 \<Longrightarrow> cells h' a = cells h a"
    "p \<noteq> MEM_SIZE_ALIGNED \<Longrightarrow> unat (m_prev h' (ram h + p)) = q'"
  shows "chain h' p q' bs"
  using assms
proof (induction bs arbitrary: p q q')
  case Nil
  have "m_next h' (ram h + p) = m_next h (ram h + p)" "m_used h' (ram h + p) = m_used h (ram h + p)"
    using Nil.prems(3) by (simp_all add: m_next_def m_used_def load16_def)
  then show ?case using Nil.prems(1,2) by auto
next
  case (Cons b bs)
  obtain n u where b: "b = (n, u)" by (cases b)
  have n: "20 \<le> n" using Cons.prems(1) by (simp add: b is_block_def)
  have p: "p \<noteq> MEM_SIZE_ALIGNED" using chain_extent[OF Cons.prems(1)] n by (simp add: b)
  have "m_next h' (ram h + p) = m_next h (ram h + p)" "m_used h' (ram h + p) = m_used h (ram h + p)"
    using Cons.prems(3) by (simp_all add: m_next_def m_used_def load16_def)
  then have "is_block h' p q' b"
    using Cons.prems(1,2) Cons.prems(4)[OF p] by (simp add: b is_block_def)
  moreover have "chain h' (p + n) p bs"
  proof (rule Cons.IH)
    show "chain h (p + n) p bs" using Cons.prems(1) by (simp add: b)
    show "cells h' a = cells h a" if "ram h + (p + n) \<le> a" for a
      by (rule Cons.prems(3)) (use that n in simp_all)
    show "unat (m_prev h' (ram h + (p + n))) = p" if "p + n \<noteq> MEM_SIZE_ALIGNED"
    proof (cases bs)
      case Nil
      then show ?thesis using Cons.prems(1) that by (simp add: b)
    next
      case (Cons c cs)
      have "m_prev h' (ram h + (p + n)) = m_prev h (ram h + (p + n))"
        by (rule fields_cong(2); rule Cons.prems(3)) (use n in simp_all)
      then show ?thesis using \<open>chain h p q (b # bs)\<close> Cons by (cases c) (simp add: b is_block_def)
    qed
  qed (use Cons.prems in simp)
  ultimately show ?case by (simp add: b)
qed

section \<open>What the search finds\<close>

text \<open>The offset of the first free block, and the state of the heap: the blocks
  are chained up, \<open>lfree\<close> is the first free one, no two free blocks are neighbours.\<close>

fun first_free :: "block list \<Rightarrow> nat" where
  "first_free [] = 0"
| "first_free ((n, u) # bs) = (if u then n + first_free bs else 0)"

definition no_holes :: "block list \<Rightarrow> bool" where
  "no_holes = successively (\<lambda>b c. snd b \<or> snd c)"

definition heap_ok :: "lwip_heap \<Rightarrow> block list \<Rightarrow> bool" where
  "heap_ok h bs \<longleftrightarrow>
     8 \<le> ram h \<and> 4 dvd ram h \<and> chain h 0 0 bs \<and> lfree h = ram h + first_free bs \<and> no_holes bs"

definition fits :: "nat \<Rightarrow> block \<Rightarrow> bool" where
  "fits s b \<longleftrightarrow> \<not> snd b \<and> s + SIZEOF_STRUCT_MEM \<le> fst b"

lemma no_holes_append:
  "no_holes (as @ bs) \<longleftrightarrow>
     no_holes as \<and> no_holes bs \<and> (as \<noteq> [] \<and> bs \<noteq> [] \<longrightarrow> snd (last as) \<or> snd (hd bs))"
  by (auto simp: no_holes_def successively_append_iff)

lemma no_holes_Cons: "no_holes (b # bs) \<longleftrightarrow> no_holes bs \<and> (bs \<noteq> [] \<longrightarrow> snd b \<or> snd (hd bs))"
  by (cases bs) (auto simp: no_holes_def)

lemma no_holes_Nil [simp]: "no_holes []"
  by (simp add: no_holes_def)

lemma first_free_append:
  "first_free (as @ bs) = (if \<forall>b\<in>set as. snd b then extent as + first_free bs else first_free as)"
  by (induction as rule: first_free.induct) auto

lemma first_free_used: "\<forall>b\<in>set bs. snd b \<Longrightarrow> first_free bs = extent bs"
  by (induction bs rule: first_free.induct) auto

lemma at_of_nat [simp]: "p \<le> MEM_SIZE_ALIGNED \<Longrightarrow> at h (word_of_nat p) = ram h + p"
  by (simp add: at_def unat_of_nat_u16 MEM_SIZE_ALIGNED_def)

lemma unat_offset: "p \<le> MEM_SIZE_ALIGNED \<Longrightarrow> unat (word_of_nat p :: u16) = p"
  by (simp add: unat_of_nat_u16 MEM_SIZE_ALIGNED_def)

lemma offs_at [simp]: "offs h (ram h + p) = word_of_nat p"
  by (simp add: offs_def)

lemma at_next: "is_block h p q (n, u) \<Longrightarrow> at h (m_next h (ram h + p)) = ram h + (p + n)"
  by (simp add: is_block_def at_def)

lemma next_word: "is_block h p q (n, u) \<Longrightarrow> m_next h (ram h + p) = word_of_nat (p + n)"
proof -
  assume "is_block h p q (n, u)"
  then have "p + n = unat (m_next h (ram h + p))" by (simp add: is_block_def)
  then show ?thesis by (simp only: of_nat_unat ucast_id)
qed

lemma used_iff: "is_block h p q (n, u) \<Longrightarrow> m_used h (ram h + p) = 0 \<longleftrightarrow> \<not> u"
  by (simp add: is_block_def)

lemma ucast_offset: "k \<le> MEM_SIZE_ALIGNED \<Longrightarrow> (ucast (word_of_nat k :: u16) :: u32) = word_of_nat k"
proof -
  assume k: "k \<le> MEM_SIZE_ALIGNED"
  have "(word_of_nat (unat (word_of_nat k :: u16)) :: u32) = ucast (word_of_nat k :: u16)"
    by (rule of_nat_unat)
  then show ?thesis by (simp only: unat_offset[OF k])
qed

lemma user_size_block:
  assumes "is_block h p q (n, u)" "p + n \<le> MEM_SIZE_ALIGNED"
  shows "user_size h (word_of_nat p) = word_of_nat (n - SIZEOF_STRUCT_MEM)"
proof -
  have n: "20 \<le> n" using assms(1) by (simp add: is_block_def)
  have p: "p \<le> MEM_SIZE_ALIGNED" using assms(2) by simp
  have "user_size h (word_of_nat p) = word_of_nat (p + n) - (word_of_nat p + word_of_nat SIZEOF_STRUCT_MEM)"
    using ucast_offset[OF p] ucast_offset[OF assms(2)] by (simp only: user_size_def at_of_nat[OF p] next_word[OF assms(1)])
  also have "\<dots> = word_of_nat (n - SIZEOF_STRUCT_MEM)"
    using n by (simp add: SIZEOF_STRUCT_MEM_def)
  finally show ?thesis .
qed

lemma user_size_le:
  assumes "is_block h p q (n, u)" "p + n \<le> MEM_SIZE_ALIGNED" "k < 2 ^ 20"
  shows "(word_of_nat k :: u32) \<le> user_size h (word_of_nat p) \<longleftrightarrow> k + SIZEOF_STRUCT_MEM \<le> n"
proof -
  have n: "20 \<le> n" using assms(1) by (simp add: is_block_def)
  have k: "unat (word_of_nat k :: u32) = k" using assms(3) unfolding unat_of_nat by (intro mod_less) simp
  have d: "unat (word_of_nat (n - SIZEOF_STRUCT_MEM) :: u32) = n - SIZEOF_STRUCT_MEM"
    unfolding unat_of_nat using assms(2) by (intro mod_less) (simp add: MEM_SIZE_ALIGNED_def)
  show ?thesis
    unfolding user_size_block[OF assms(1,2)] word_le_nat_alt k d
    using n by (auto simp: SIZEOF_STRUCT_MEM_def)
qed

lemma unat16_less: "unat (sz :: u16) < 65536"
  using unsigned_less[where ?'b = 16 and ?'a = nat, of sz] by simp

text \<open>One step of the search.\<close>

lemma mem_fit_step:
  assumes b: "is_block h p q (n, u)" and p: "p + n \<le> MEM_SIZE_ALIGNED"
  shows "mem_fit sz (word_of_nat p) h =
    (if p < MEM_SIZE_ALIGNED - unat sz then
       if fits (unat sz) (n, u) then Some (Some (word_of_nat p))
       else mem_fit sz (word_of_nat (p + n)) h
     else Some None)"
proof -
  have "p \<le> MEM_SIZE_ALIGNED" using p by simp
  moreover have "unat sz < 2 ^ 20" using unat16_less[of sz] by (rule less_trans) simp
  ultimately show ?thesis
    using user_size_le[OF b p, of "unat sz"]
    by (subst mem_fit.simps)
      (simp add: unat_offset used_iff[OF b] next_word[OF b] fits_def del: of_nat_add)
qed

lemma mem_fit_end: "p = MEM_SIZE_ALIGNED \<Longrightarrow> mem_fit sz (word_of_nat p) h = Some None"
  by (subst mem_fit.simps) (auto simp: unat_offset)

lemma mem_fit_none:
  "chain h p q bs \<Longrightarrow> \<forall>b\<in>set bs. \<not> fits (unat sz) b \<Longrightarrow> mem_fit sz (word_of_nat p) h = Some None"
proof (induction bs arbitrary: p q)
  case Nil
  then show ?case by (simp add: mem_fit_end)
next
  case (Cons b bs)
  obtain n u where b: "b = (n, u)" by (cases b)
  have "p + n \<le> MEM_SIZE_ALIGNED" using chain_extent[OF Cons.prems(1)] by (simp add: b)
  moreover have "mem_fit sz (word_of_nat (p + n)) h = Some None"
    by (rule Cons.IH) (use Cons.prems in \<open>auto simp: b\<close>)
  ultimately show ?case
    using Cons.prems by (simp add: b mem_fit_step[of h p q n u] del: of_nat_add)
qed

lemma mem_fit_some:
  "chain h p q (ds @ (n, False) # es) \<Longrightarrow> \<forall>b\<in>set ds. \<not> fits (unat sz) b \<Longrightarrow> fits (unat sz) (n, False) \<Longrightarrow>
    mem_fit sz (word_of_nat p) h = Some (Some (word_of_nat (p + extent ds)))"
proof (induction ds arbitrary: p q)
  case Nil
  have "p + n \<le> MEM_SIZE_ALIGNED" using chain_extent[OF Nil.prems(1)] by simp
  moreover have "p < MEM_SIZE_ALIGNED - unat sz"
    using calculation Nil.prems(3) by (simp add: fits_def SIZEOF_STRUCT_MEM_def)
  ultimately show ?case using Nil by (simp add: mem_fit_step[of h p q n False])
next
  case (Cons b ds)
  obtain m u where b: "b = (m, u)" by (cases b)
  have t: "p + (m + (extent ds + (n + extent es))) = MEM_SIZE_ALIGNED"
    using chain_extent[OF Cons.prems(1)] by (simp add: b)
  then have "p + m \<le> MEM_SIZE_ALIGNED" by simp
  moreover have "p < MEM_SIZE_ALIGNED - unat sz"
    using t Cons.prems(3) by (simp add: fits_def SIZEOF_STRUCT_MEM_def)
  moreover have "mem_fit sz (word_of_nat (p + m)) h = Some (Some (word_of_nat (p + m + extent ds)))"
    by (rule Cons.IH) (use Cons.prems in \<open>auto simp: b\<close>)
  ultimately show ?case
    using Cons.prems(1,2) by (simp add: b mem_fit_step[of h p q m u] add.assoc del: of_nat_add)
qed

lemma next_free_chain:
  "chain h p q bs \<Longrightarrow> next_free (ram h + p) h = Some (ram h + p + first_free bs)"
proof (induction bs arbitrary: p q)
  case Nil
  then show ?case by (subst next_free.simps) (simp add: ram_end_def)
next
  case (Cons b bs)
  obtain n u where b: "b = (n, u)" by (cases b)
  have blk: "is_block h p q (n, u)" using Cons.prems by (simp add: b)
  have "p \<noteq> MEM_SIZE_ALIGNED" using chain_extent[OF Cons.prems] blk by (simp add: b is_block_def)
  then show ?case
    using Cons.prems Cons.IH[of "p + n" p]
    by (subst next_free.simps) (simp add: b used_iff[OF blk] at_next[OF blk] ram_end_def add.assoc)
qed

section \<open>Cutting a block in two\<close>

text \<open>The blocks a heap has after a header was written inside one of its blocks: from
  what the fields of the three headers hold and what is left as it was.\<close>

lemma chain_cut:
  assumes tl: "chain h (p + n) r cs" and q: "unat (m_prev h (ram h + p)) = q"
    and k: "20 \<le> k" "4 dvd k" "k + 20 \<le> n" "4 dvd n"
    and ram: "ram h' = ram h"
    and mem: "m_next h' (ram h + p) = word_of_nat (p + k)" "m_prev h' (ram h + p) = m_prev h (ram h + p)"
      "m_used h' (ram h + p) = of_bool u"
    and mem2: "m_next h' (ram h + (p + k)) = word_of_nat (p + n)"
      "m_prev h' (ram h + (p + k)) = word_of_nat p" "m_used h' (ram h + (p + k)) = 0"
    and nxt: "p + n \<noteq> MEM_SIZE_ALIGNED \<Longrightarrow> m_prev h' (ram h + (p + n)) = word_of_nat (p + k)"
    and rest: "\<And>a. ram h + (p + n) \<le> a \<Longrightarrow> a \<noteq> ram h + (p + n) + 2 \<Longrightarrow> a \<noteq> ram h + (p + n) + 3 \<Longrightarrow>
      cells h' a = cells h a"
  shows "chain h' p q ((k, u) # (n - k, False) # cs)"
proof -
  have le: "p + n \<le> MEM_SIZE_ALIGNED" using chain_extent[OF tl] by simp
  have "chain h' (p + n) (p + k) cs"
    by (rule chain_relink[OF tl ram]) (use rest nxt le k in \<open>simp_all add: unat_offset del: of_nat_add\<close>)
  moreover have "unat (m_next h' (ram h + p)) = p + k" "unat (m_next h' (ram h + (p + k))) = p + n"
    "unat (m_prev h' (ram h + (p + k))) = p"
    using le k by (simp_all only: mem mem2, simp_all add: unat_offset del: of_nat_add)
  ultimately show ?thesis
    using k q mem mem2 ram by (simp add: is_block_def dvd_diff_nat add.assoc)
qed

lemma apartI: "a + 5 \<le> b \<Longrightarrow> apart a b" "b + 5 \<le> a \<Longrightarrow> apart a b"
  by (simp_all add: apart_def)

text \<open>\<open>mem_split\<close> writes the two headers, and the back pointer of the block that follows.\<close>

lemma mem_split_chain:
  assumes ch: "chain h p q ((n, False) # cs)" and sz: "12 \<le> unat sz" "4 dvd unat sz" "unat sz + 28 \<le> n"
  defines "h' \<equiv> mem_split sz (word_of_nat p) h"
  shows "chain h' p q ((unat sz + 8, True) # (n - (unat sz + 8), False) # cs)"
    "ram h' = ram h" "lfree h' = lfree h"
    "\<And>a. cells h' a \<noteq> cells h a \<Longrightarrow> a \<in> {ram h + p ..< ram h + p + 8}
      \<union> {ram h + p + unat sz + 8 ..< ram h + p + unat sz + 16} \<union> {ram h + p + n ..< ram h + p + n + 8}"
    "\<And>a. ram_end h \<le> a \<Longrightarrow> cells h' a = cells h a"
proof -
  let ?k = "unat sz + 8"
  have blk: "is_block h p q (n, False)" and tl: "chain h (p + n) p cs" using ch by simp_all
  have le: "p + n \<le> MEM_SIZE_ALIGNED" using chain_extent[OF tl] by simp
  have p2: "word_of_nat p + word_of_nat SIZEOF_STRUCT_MEM + sz = (word_of_nat (p + ?k) :: u16)"
    by (simp add: SIZEOF_STRUCT_MEM_def)
  have at2: "at g (word_of_nat (p + ?k)) = ram g + (p + ?k)" for g
    using le sz by (simp del: of_nat_add)
  have atn: "at g (m_next h (ram h + p)) = ram g + (p + n)" for g
    using blk by (simp add: at_def is_block_def)
  have un: "unat (m_next h (ram h + p)) = p + n" using blk by (simp add: is_block_def)
  have ap: "apart (ram h + p) (ram h + (p + ?k))" "apart (ram h + (p + ?k)) (ram h + p)"
    "apart (ram h + (p + n)) (ram h + p)" "apart (ram h + (p + n)) (ram h + (p + ?k))"
    using sz by (simp_all add: apart_def)
  have h': "h' = (let g = set_used 1 (ram h + p) (set_next (word_of_nat (p + ?k)) (ram h + p)
      (set_prev (word_of_nat p) (ram h + (p + ?k)) (set_next (m_next h (ram h + p)) (ram h + (p + ?k))
        (set_used 0 (ram h + (p + ?k)) h))))
      in if p + n \<noteq> MEM_SIZE_ALIGNED then set_prev (word_of_nat (p + ?k)) (ram h + (p + n)) g else g)"
    using le ap un
    by (simp add: h'_def mem_split_def Let_def p2 at2 atn header del: of_nat_add)
  have ap': "apart b a \<longleftrightarrow> apart a b" for a b by (auto simp: apart_def)
  show "chain h' p q ((unat sz + 8, True) # (n - (unat sz + 8), False) # cs)"
    by (rule chain_cut[OF tl])
      (use blk sz ap ap' next_word[OF blk] in \<open>simp_all add: h' Let_def header is_block_def del: of_nat_add\<close>)
  show "ram h' = ram h" "lfree h' = lfree h" by (simp_all add: h' Let_def)
  show "a \<in> {ram h + p ..< ram h + p + 8}
      \<union> {ram h + p + unat sz + 8 ..< ram h + p + unat sz + 16} \<union> {ram h + p + n ..< ram h + p + n + 8}"
    if "cells h' a \<noteq> cells h a" for a
  proof (rule ccontr)
    assume "\<not> ?thesis"
    then have "cells h' a = cells h a" by (auto simp: h' Let_def header)
    then show False using that by contradiction
  qed
  show "cells h' a = cells h a" if "ram_end h \<le> a" for a
    using that le sz extent_nil_end[OF tl] by (auto simp: h' Let_def header ram_end_def)
qed

end
