(* ===== verification/Allocator.thy ===== *)
theory Allocator
  imports Prelude
begin

text \<open>
  The contract of an allocator, as the users of lwIP's heap and of its pools rely on it,
  and what follows from it for any user: what is stored in an area stays there until the
  area is given back, whatever happens to the others.  Two allocators over one memory
  that keep off each other's areas are one allocator.
\<close>

abbreviation area :: "nat \<Rightarrow> nat \<Rightarrow> nat set" where
  "area x l \<equiv> {x ..< x + l}"

text \<open>What the users of an allocator rely on: areas that were handed out do not overlap,
  giving one out or taking one back leaves the bytes of the others, and writing inside
  an area changes nothing else.  \<open>room r\<close> is what an area handed out for the request
  \<open>r\<close> holds at least.\<close>

locale lender =
  fixes alloc :: "'r \<Rightarrow> 's \<Rightarrow> (nat \<times> 's) option"
    and free :: "nat \<Rightarrow> 's \<Rightarrow> 's"
    and put :: "nat \<Rightarrow> u8 \<Rightarrow> 's \<Rightarrow> 's"
    and byte :: "'s \<Rightarrow> nat \<Rightarrow> u8"
    and handed :: "'s \<Rightarrow> (nat \<times> nat) set"
    and ok :: "'s \<Rightarrow> bool"
    and room :: "'r \<Rightarrow> 's \<Rightarrow> nat"
  assumes separate: "ok s \<Longrightarrow> (x, l) \<in> handed s \<Longrightarrow> (y, m) \<in> handed s \<Longrightarrow>
      (x = y \<longrightarrow> l = m) \<and> (x \<noteq> y \<longrightarrow> area x l \<inter> area y m = {})"
    and alloc_returns: "ok s \<Longrightarrow> \<exists>p s'. alloc n s = Some (p, s')"
    and alloc_none: "ok s \<Longrightarrow> alloc n s = Some (0, s') \<Longrightarrow> s' = s"
    and alloc_some: "ok s \<Longrightarrow> alloc n s = Some (p, s') \<Longrightarrow> p \<noteq> 0 \<Longrightarrow> ok s' \<and> p \<notin> fst ` handed s \<and>
      (\<exists>l. room n s \<le> l \<and> handed s' = insert (p, l) (handed s))"
    and alloc_keeps: "ok s \<Longrightarrow> alloc n s = Some (p, s') \<Longrightarrow> (x, l) \<in> handed s \<Longrightarrow> a \<in> area x l \<Longrightarrow>
      byte s' a = byte s a"
    and free_area: "ok s \<Longrightarrow> (p, l) \<in> handed s \<Longrightarrow>
      ok (free p s) \<and> handed (free p s) = handed s - {(p, l)}"
    and free_keeps: "ok s \<Longrightarrow> (p, l) \<in> handed s \<Longrightarrow> (x, m) \<in> handed s \<Longrightarrow> x \<noteq> p \<Longrightarrow> a \<in> area x m \<Longrightarrow>
      byte (free p s) a = byte s a"
    and put_area: "ok s \<Longrightarrow> (p, l) \<in> handed s \<Longrightarrow> i < l \<Longrightarrow> ok (put (p + i) b s) \<and>
      handed (put (p + i) b s) = handed s \<and> byte (put (p + i) b s) = (byte s)(p + i := b)"
begin

text \<open>The areas in use as seen by their owners: what each of them wrote last.\<close>

definition holds :: "'s \<Rightarrow> (nat \<rightharpoonup> bytes) \<Rightarrow> bool" where
  "holds s m \<longleftrightarrow> ok s \<and> dom m = fst ` handed s \<and>
     (\<forall>p l d. (p, l) \<in> handed s \<longrightarrow> m p = Some d \<longrightarrow> length d \<le> l \<and> map (byte s) [p ..< p + length d] = d)"

lemma holdsD:
  assumes "holds s m" "m p = Some d"
  obtains l where "(p, l) \<in> handed s" "length d \<le> l" "map (byte s) [p ..< p + length d] = d"
  using assms unfolding holds_def by (metis (no_types, lifting) domI fst_conv imageE prod.collapse)

lemma map_byte_cong: "(\<And>a. a \<in> area p l \<Longrightarrow> f a = g a) \<Longrightarrow> n \<le> l \<Longrightarrow>
    map f [p ..< p + n] = map g [p ..< p + n]"
  by auto

lemma holds_disjoint:
  assumes "holds s m" "m p = Some d" "m q = Some e" "p \<noteq> q"
  shows "{p ..< p + length d} \<inter> {q ..< q + length e} = {}"
proof -
  obtain l where l: "(p, l) \<in> handed s" "length d \<le> l" using holdsD[OF assms(1,2)] by blast
  obtain k where k: "(q, k) \<in> handed s" "length e \<le> k" using holdsD[OF assms(1,3)] by blast
  have "area p l \<inter> area q k = {}" using separate[of s p l q k] l(1) k(1) assms(1,4) by (simp add: holds_def)
  moreover have "{p ..< p + length d} \<subseteq> area p l" "{q ..< q + length e} \<subseteq> area q k" using l(2) k(2) by auto
  ultimately show ?thesis by blast
qed

lemma handed_diff:
  assumes ok: "ok s" and l: "(p, l) \<in> handed s"
  shows "fst ` (handed s - {(p, l)}) = fst ` handed s - {p}"
proof (intro set_eqI iffI)
  fix x assume "x \<in> fst ` handed s - {p}"
  then obtain k where "(x, k) \<in> handed s" "x \<noteq> p" by auto
  then show "x \<in> fst ` (handed s - {(p, l)})" by (intro image_eqI[of _ _ "(x, k)"]) auto
next
  fix x assume "x \<in> fst ` (handed s - {(p, l)})"
  then obtain k where k: "(x, k) \<in> handed s - {(p, l)}" by (elim imageE) (metis prod.collapse)
  then show "x \<in> fst ` handed s - {p}" using separate[OF ok l, of x k] k by (auto intro: image_eqI[of _ _ "(x, k)"])
qed

lemma holds_alloc:
  assumes h: "holds s m" and a: "alloc n s = Some (p, s')" and p: "p \<noteq> 0" and n: "k \<le> room n s"
  shows "holds s' (m(p \<mapsto> map (byte s') [p ..< p + k]))" "p \<notin> dom m"
proof -
  have ok: "ok s" using h by (simp add: holds_def)
  obtain l where l: "ok s'" "p \<notin> fst ` handed s" "k \<le> l" "handed s' = insert (p, l) (handed s)"
    using alloc_some[OF ok a p] n le_trans by blast
  show "p \<notin> dom m" using l(2) h by (simp add: holds_def)
  have "length d \<le> j \<and> map (byte s') [x ..< x + length d] = d"
    if "(x, j) \<in> handed s" "m x = Some d" for x j d
  proof -
    have "length d \<le> j" "map (byte s) [x ..< x + length d] = d" using h that by (auto simp: holds_def)
    moreover have "map (byte s') [x ..< x + length d] = map (byte s) [x ..< x + length d]"
      by (rule map_byte_cong[OF alloc_keeps[OF ok a that(1)] \<open>length d \<le> j\<close>])
    ultimately show ?thesis by simp
  qed
  moreover have "x \<noteq> p" if "(x, j) \<in> handed s" for x j using l(2) that by force
  ultimately show "holds s' (m(p \<mapsto> map (byte s') [p ..< p + k]))"
    using h l(1,3) by (auto simp: holds_def l(4) simp del: upt_Suc)
qed

lemma holds_free:
  assumes h: "holds s m" and d: "m p = Some d"
  shows "holds (free p s) (m(p := None))"
proof -
  have ok: "ok s" using h by (simp add: holds_def)
  obtain l where l: "(p, l) \<in> handed s" by (rule holdsD[OF h d])
  note f = free_area[OF ok l]
  have one: "x \<noteq> p" if "(x, k) \<in> handed s - {(p, l)}" for x k
    using separate[OF ok l, of x k] that by auto
  have "length e \<le> k \<and> map (byte (free p s)) [x ..< x + length e] = e"
    if "(x, k) \<in> handed s - {(p, l)}" "m x = Some e" for x k e
  proof -
    have xk: "(x, k) \<in> handed s" using that by simp
    have e: "length e \<le> k" "map (byte s) [x ..< x + length e] = e"
      using h that(2) xk by (auto simp: holds_def)
    have "map (byte (free p s)) [x ..< x + length e] = map (byte s) [x ..< x + length e]"
      by (rule map_byte_cong[OF free_keeps[OF ok l xk one[OF that(1)]] e(1)])
    then show ?thesis using e by simp
  qed
  moreover have "dom (m(p := None)) = fst ` (handed s - {(p, l)})"
  proof -
    show ?thesis using h handed_diff[OF ok l] by (auto simp: holds_def)
  qed
  moreover have "(m(p := None)) x = Some e \<Longrightarrow> m x = Some e" for x e by (simp split: if_splits)
  ultimately show ?thesis unfolding holds_def conjunct2[OF f] using conjunct1[OF f] by blast
qed

lemma holds_put:
  assumes h: "holds s m" and d: "m p = Some d" and i: "i < length d"
  shows "holds (put (p + i) b s) (m(p \<mapsto> d[i := b]))"
proof -
  have ok: "ok s" using h by (simp add: holds_def)
  obtain l where l: "(p, l) \<in> handed s" "length d \<le> l" "map (byte s) [p ..< p + length d] = d"
    by (rule holdsD[OF h d])
  note w = put_area[OF ok l(1) less_le_trans[OF i l(2)], of b]
  have "length e \<le> j \<and> map ((byte s)(p + i := b)) [x ..< x + length e] = e"
    if xj: "(x, j) \<in> handed s" and e: "(m(p \<mapsto> d[i := b])) x = Some e" for x j e
  proof (cases "x = p")
    case True
    then have j: "j = l" "e = d[i := b]" using separate[OF ok l(1) xj] e by auto
    have nth: "byte s (p + k) = d ! k" if "k < length d" for k
      using arg_cong[OF l(3), of "\<lambda>xs. xs ! k"] that by (simp del: upt_Suc)
    have "map ((byte s)(p + i := b)) [p ..< p + length d] = d[i := b]"
      by (rule nth_equalityI) (auto simp: nth nth_list_update simp del: upt_Suc)
    then show ?thesis using l(2) j True by simp
  next
    case False
    then have e': "length e \<le> j" "map (byte s) [x ..< x + length e] = e"
      using h xj e by (auto simp: holds_def)
    have "area x j \<inter> area p l = {}" using separate[OF ok xj l(1)] False by simp
    then have "p + i \<notin> area x j" using i l(2) by auto
    then have "map ((byte s)(p + i := b)) [x ..< x + length e] = map (byte s) [x ..< x + length e]"
      by (intro map_byte_cong[OF _ e'(1)]) auto
    then show ?thesis using e' by simp
  qed
  moreover have "dom (m(p \<mapsto> d[i := b])) = fst ` handed s"
    using h d by (auto simp: holds_def)
  ultimately show ?thesis
    unfolding holds_def using w by (simp del: fun_upd_apply) 
qed

end

text \<open>An allocator that can also make an area smaller.\<close>

locale allocator = lender alloc free put byte handed ok room
  for alloc :: "'r \<Rightarrow> 's \<Rightarrow> (nat \<times> 's) option" and free :: "nat \<Rightarrow> 's \<Rightarrow> 's"
    and put :: "nat \<Rightarrow> u8 \<Rightarrow> 's \<Rightarrow> 's" and byte :: "'s \<Rightarrow> nat \<Rightarrow> u8"
    and handed :: "'s \<Rightarrow> (nat \<times> nat) set" and ok :: "'s \<Rightarrow> bool" and room :: "'r \<Rightarrow> 's \<Rightarrow> nat" +
  fixes trim :: "nat \<Rightarrow> u16 \<Rightarrow> 's \<Rightarrow> nat \<times> 's"
  assumes trim_area: "ok s \<Longrightarrow> (p, l) \<in> handed s \<Longrightarrow> unat n \<le> l \<Longrightarrow> \<exists>s' k. trim p n s = (p, s') \<and> ok s' \<and>
      unat n \<le> k \<and> k \<le> l \<and> handed s' = insert (p, k) (handed s - {(p, l)})"
    and trim_keeps: "ok s \<Longrightarrow> (p, l) \<in> handed s \<Longrightarrow> unat n \<le> l \<Longrightarrow> trim p n s = (q, s') \<Longrightarrow>
      (x, m) \<in> handed s' \<Longrightarrow> a \<in> area x m \<Longrightarrow> byte s' a = byte s a"
begin

lemma holds_trim:
  assumes h: "holds s m" and d: "m p = Some d" and n: "unat n \<le> length d" and t: "trim p n s = (q, s')"
  shows "q = p" "holds s' (m(p \<mapsto> take (unat n) d))"
proof -
  have ok: "ok s" using h by (simp add: holds_def)
  obtain l where l: "(p, l) \<in> handed s" "length d \<le> l" "map (byte s) [p ..< p + length d] = d"
    by (rule holdsD[OF h d])
  note nl = le_trans[OF n l(2)]
  obtain s1 k where k: "trim p n s = (p, s1)" "ok s1" "unat n \<le> k" "k \<le> l"
    "handed s1 = insert (p, k) (handed s - {(p, l)})"
    using trim_area[OF ok l(1) nl] by blast
  have s1: "s1 = s'" and "q = p" using k(1) t by simp_all
  note keeps = trim_keeps[OF ok l(1) nl k(1)]
  show "q = p" by (rule \<open>q = p\<close>)
  have one: "x \<noteq> p" if "(x, k) \<in> handed s - {(p, l)}" for x k
    using separate[OF ok l(1), of x k] that by auto
  have "length e \<le> j \<and> map (byte s1) [x ..< x + length e] = e"
    if xj: "(x, j) \<in> handed s1" and e: "(m(p \<mapsto> take (unat n) d)) x = Some e" for x j e
  proof (cases "x = p")
    case True
    then have j: "j = k" using xj one[of p j] unfolding k(5) by blast
    have e': "e = take (unat n) d" using e True by simp
    have "map (byte s1) [p ..< p + unat n] = map (byte s) [p ..< p + unat n]"
      by (rule map_byte_cong[OF keeps k(3)]) (use xj True j in auto)
    also have "\<dots> = take (unat n) (map (byte s) [p ..< p + length d])"
      using n by (simp add: take_map)
    finally have "map (byte s1) [p ..< p + unat n] = e" unfolding l(3) e' .
    moreover have "length e = unat n" using n by (simp add: e')
    ultimately show ?thesis using k(3) True j by simp
  next
    case False
    then have "(x, j) \<in> handed s" "m x = Some e" using xj e unfolding k(5) by auto
    then have e': "length e \<le> j" "map (byte s) [x ..< x + length e] = e"
      using h by (auto simp: holds_def)
    have "map (byte s1) [x ..< x + length e] = map (byte s) [x ..< x + length e]"
      by (rule map_byte_cong[OF keeps[OF xj] e'(1)])
    then show ?thesis using e' by simp
  qed
  moreover have "dom (m(p \<mapsto> take (unat n) d)) = fst ` handed s1"
  proof -
    have "dom m = fst ` handed s" using h by (simp add: holds_def)
    moreover have "p \<in> fst ` handed s" by (rule image_eqI[OF _ l(1)]) simp
    ultimately have "dom (m(p \<mapsto> take (unat n) d)) = insert p (fst ` handed s)" by simp
    also have "\<dots> = fst ` handed s1"
      unfolding k(5) image_insert handed_diff[OF ok l(1)] by simp
    finally show ?thesis .
  qed
  ultimately show "holds s' (m(p \<mapsto> take (unat n) d))"
    unfolding holds_def s1[symmetric] using k(2) by blast
qed

end

text \<open>Two allocators over one memory whose areas do not meet, and neither of which touches
  what the other one keeps, are one allocator; \<open>belongs p s\<close> tells which one handed out \<open>p\<close>.\<close>

locale two_lenders =
  one: lender alloc free put byte handed ok room + two: lender alloc' free' put byte handed' ok' room'
  for alloc :: "'r \<Rightarrow> 's \<Rightarrow> (nat \<times> 's) option" and free :: "nat \<Rightarrow> 's \<Rightarrow> 's"
    and put :: "nat \<Rightarrow> u8 \<Rightarrow> 's \<Rightarrow> 's" and byte :: "'s \<Rightarrow> nat \<Rightarrow> u8"
    and handed :: "'s \<Rightarrow> (nat \<times> nat) set" and ok :: "'s \<Rightarrow> bool" and room :: "'r \<Rightarrow> 's \<Rightarrow> nat"
    and alloc' :: "'q \<Rightarrow> 's \<Rightarrow> (nat \<times> 's) option" and free' :: "nat \<Rightarrow> 's \<Rightarrow> 's"
    and handed' :: "'s \<Rightarrow> (nat \<times> nat) set" and ok' :: "'s \<Rightarrow> bool" and room' :: "'q \<Rightarrow> 's \<Rightarrow> nat" +
  fixes belongs :: "nat \<Rightarrow> 's \<Rightarrow> bool"
  assumes apart: "ok s \<Longrightarrow> ok' s \<Longrightarrow> (x, l) \<in> handed s \<Longrightarrow> (y, m) \<in> handed' s \<Longrightarrow>
      x \<noteq> y \<and> area x l \<inter> area y m = {}"
    and mine: "ok s \<Longrightarrow> (x, l) \<in> handed s \<Longrightarrow> belongs x s"
    and theirs: "ok s \<Longrightarrow> ok' s \<Longrightarrow> (x, l) \<in> handed' s \<Longrightarrow> \<not> belongs x s"
    and alloc_frame: "ok s \<Longrightarrow> ok' s \<Longrightarrow> alloc n s = Some (p, s') \<Longrightarrow> ok' s' \<and> handed' s' = handed' s \<and>
      (\<forall>x l a. (x, l) \<in> handed' s \<longrightarrow> a \<in> area x l \<longrightarrow> byte s' a = byte s a)"
    and alloc_frame': "ok s \<Longrightarrow> ok' s \<Longrightarrow> alloc' q s = Some (p, s') \<Longrightarrow> ok s' \<and> handed s' = handed s \<and>
      (\<forall>x l a. (x, l) \<in> handed s \<longrightarrow> a \<in> area x l \<longrightarrow> byte s' a = byte s a)"
    and free_frame: "ok s \<Longrightarrow> ok' s \<Longrightarrow> (p, l) \<in> handed s \<Longrightarrow> ok' (free p s) \<and> handed' (free p s) = handed' s \<and>
      (\<forall>x m a. (x, m) \<in> handed' s \<longrightarrow> a \<in> area x m \<longrightarrow> byte (free p s) a = byte s a)"
    and free_frame': "ok s \<Longrightarrow> ok' s \<Longrightarrow> (p, l) \<in> handed' s \<Longrightarrow> ok (free' p s) \<and> handed (free' p s) = handed s \<and>
      (\<forall>x m a. (x, m) \<in> handed s \<longrightarrow> a \<in> area x m \<longrightarrow> byte (free' p s) a = byte s a)"
    and put_frame: "ok s \<Longrightarrow> ok' s \<Longrightarrow> (p, l) \<in> handed s \<Longrightarrow> i < l \<Longrightarrow>
      ok' (put (p + i) b s) \<and> handed' (put (p + i) b s) = handed' s"
    and put_frame': "ok s \<Longrightarrow> ok' s \<Longrightarrow> (p, l) \<in> handed' s \<Longrightarrow> i < l \<Longrightarrow>
      ok (put (p + i) b s) \<and> handed (put (p + i) b s) = handed s"
begin

definition alloc_both :: "'r + 'q \<Rightarrow> 's \<Rightarrow> (nat \<times> 's) option" where
  "alloc_both r s = (case r of Inl n \<Rightarrow> alloc n s | Inr q \<Rightarrow> alloc' q s)"

definition free_both :: "nat \<Rightarrow> 's \<Rightarrow> 's" where
  "free_both p s = (if belongs p s then free p s else free' p s)"

definition handed_both :: "'s \<Rightarrow> (nat \<times> nat) set" where
  "handed_both s = handed s \<union> handed' s"

definition room_both :: "'r + 'q \<Rightarrow> 's \<Rightarrow> nat" where
  "room_both r s = (case r of Inl n \<Rightarrow> room n s | Inr q \<Rightarrow> room' q s)"

end


sublocale two_lenders \<subseteq> both: lender alloc_both free_both put byte handed_both "\<lambda>s. ok s \<and> ok' s" room_both
proof unfold_locales
  fix s x l y m assume o: "ok s \<and> ok' s" and x: "(x, l) \<in> handed_both s" and y: "(y, m) \<in> handed_both s"
  from x y consider "(x, l) \<in> handed s" "(y, m) \<in> handed s" | "(x, l) \<in> handed' s" "(y, m) \<in> handed' s"
    | "(x, l) \<in> handed s" "(y, m) \<in> handed' s" | "(x, l) \<in> handed' s" "(y, m) \<in> handed s"
    by (auto simp: handed_both_def)
  then show "(x = y \<longrightarrow> l = m) \<and> (x \<noteq> y \<longrightarrow> area x l \<inter> area y m = {})"
  proof cases
    case 1 then show ?thesis using one.separate o by blast
  next
    case 2 then show ?thesis using two.separate o by blast
  next
    case 3 then show ?thesis using apart o by blast
  next
    case 4 then show ?thesis using apart[of s y m x l] o by blast
  qed
next
  fix s n assume "ok s \<and> ok' s"
  then show "\<exists>p s'. alloc_both n s = Some (p, s')"
    using one.alloc_returns two.alloc_returns by (auto simp: alloc_both_def split: sum.split)
next
  fix s n s' assume "ok s \<and> ok' s" "alloc_both n s = Some (0, s')"
  then show "s' = s"
    using one.alloc_none two.alloc_none by (auto simp: alloc_both_def split: sum.splits)
next
  fix s n p s' assume o: "ok s \<and> ok' s" and a: "alloc_both n s = Some (p, s')" and p: "p \<noteq> 0"
  show "(ok s' \<and> ok' s') \<and> p \<notin> fst ` handed_both s \<and>
      (\<exists>l. room_both n s \<le> l \<and> handed_both s' = insert (p, l) (handed_both s))"
  proof (cases n)
    case (Inl r)
    have a: "alloc r s = Some (p, s')" using a by (simp add: alloc_both_def Inl)
    obtain l where l: "ok s'" "p \<notin> fst ` handed s" "room r s \<le> l" "handed s' = insert (p, l) (handed s)"
      using one.alloc_some[OF _ a p] o by blast
    have f: "ok' s'" "handed' s' = handed' s" using alloc_frame[OF _ _ a] o by blast+
    have "p \<notin> fst ` handed' s" using apart[OF l(1) f(1), of p l p] l(4) f(2) by force
    then show ?thesis using l f by (auto simp: handed_both_def room_both_def Inl)
  next
    case (Inr r)
    have a: "alloc' r s = Some (p, s')" using a by (simp add: alloc_both_def Inr)
    obtain l where l: "ok' s'" "p \<notin> fst ` handed' s" "room' r s \<le> l" "handed' s' = insert (p, l) (handed' s)"
      using two.alloc_some[OF _ a p] o by blast
    have f: "ok s'" "handed s' = handed s" using alloc_frame'[OF _ _ a] o by blast+
    have "p \<notin> fst ` handed s" using apart[OF f(1) l(1), of p _ p l] l(4) f(2) by force
    then show ?thesis using l f by (auto simp: handed_both_def room_both_def Inr)
  qed
next
  fix s n p s' x l a assume o: "ok s \<and> ok' s" and a: "alloc_both n s = Some (p, s')"
    and x: "(x, l) \<in> handed_both s" "a \<in> area x l"
  show "byte s' a = byte s a"
  proof (cases n)
    case (Inl r)
    have a: "alloc r s = Some (p, s')" using a by (simp add: alloc_both_def Inl)
    show ?thesis using x one.alloc_keeps[OF _ a] alloc_frame[OF _ _ a] o by (auto simp: handed_both_def)
  next
    case (Inr r)
    have a: "alloc' r s = Some (p, s')" using a by (simp add: alloc_both_def Inr)
    show ?thesis using x two.alloc_keeps[OF _ a] alloc_frame'[OF _ _ a] o by (auto simp: handed_both_def)
  qed
next
  fix s p l assume o: "ok s \<and> ok' s" and x: "(p, l) \<in> handed_both s"
  show "(ok (free_both p s) \<and> ok' (free_both p s)) \<and> handed_both (free_both p s) = handed_both s - {(p, l)}"
  proof (cases "(p, l) \<in> handed s")
    case True
    have "(p, l) \<notin> handed' s" using apart[of s p l p l] True o by blast
    then show ?thesis
      using one.free_area[OF _ True] free_frame[OF _ _ True] mine[OF _ True] o
      by (auto simp: free_both_def handed_both_def)
  next
    case False
    then have p: "(p, l) \<in> handed' s" using x by (simp add: handed_both_def)
    show ?thesis
      using two.free_area[OF _ p] free_frame'[OF _ _ p] theirs[OF _ _ p] o False
      by (auto simp: free_both_def handed_both_def)
  qed
next
  fix s p l x m a
  assume o: "ok s \<and> ok' s" and p: "(p, l) \<in> handed_both s" and x: "(x, m) \<in> handed_both s" "x \<noteq> p" "a \<in> area x m"
  show "byte (free_both p s) a = byte s a"
  proof (cases "(p, l) \<in> handed s")
    case True
    show ?thesis
    proof (cases "(x, m) \<in> handed s")
      case t: True
      show ?thesis using one.free_keeps[OF _ True t x(2,3)] mine[OF _ True] o by (simp add: free_both_def)
    next
      case False
      then have "(x, m) \<in> handed' s" using x(1) by (simp add: handed_both_def)
      then show ?thesis using free_frame[OF _ _ True] mine[OF _ True] o x(3) by (simp add: free_both_def)
    qed
  next
    case False
    then have p: "(p, l) \<in> handed' s" using p by (simp add: handed_both_def)
    show ?thesis
    proof (cases "(x, m) \<in> handed s")
      case True
      show ?thesis using free_frame'[OF _ _ p] theirs[OF _ _ p] o True x(3) by (auto simp: free_both_def)
    next
      case False
      then have "(x, m) \<in> handed' s" using x(1) by (simp add: handed_both_def)
      then show ?thesis using two.free_keeps[OF _ p _ x(2,3)] theirs[OF _ _ p] o by (simp add: free_both_def)
    qed
  qed
next
  fix s p l i b assume o: "ok s \<and> ok' s" and p: "(p, l) \<in> handed_both s" and i: "i < l"
  show "(ok (put (p + i) b s) \<and> ok' (put (p + i) b s)) \<and> handed_both (put (p + i) b s) = handed_both s \<and>
      byte (put (p + i) b s) = (byte s)(p + i := b)"
  proof (cases "(p, l) \<in> handed s")
    case True
    show ?thesis using one.put_area[OF _ True i] put_frame[OF _ _ True i] o by (simp add: handed_both_def)
  next
    case False
    then have p: "(p, l) \<in> handed' s" using p by (simp add: handed_both_def)
    show ?thesis using two.put_area[OF _ p i] put_frame'[OF _ _ p i] o by (simp add: handed_both_def)
  qed
qed

end
