(* ===== verification/HeapAlloc.thy ===== *)
theory HeapAlloc
  imports HeapMem Allocator
begin

text \<open>
  What the operations of \<open>core/mem.c\<close> do to the list of blocks of a heap: \<open>mem_malloc\<close> cuts
  the first free block that is large enough, \<open>mem_free\<close> joins a block with its free
  neighbours, \<open>mem_trim\<close> gives the end of a block back.  No other byte of the memory changes
  than those of the headers, and the areas behind the headers are disjoint.
\<close>

section \<open>What \<open>mem_malloc\<close> does\<close>

lemma unat_align_size:
  assumes "unat s + 3 < 2 ^ 32"
  shows "unat (LWIP_MEM_ALIGN_SIZE s) = (unat s + 3) div 4 * 4"
proof -
  let ?t = "s + 4 - 1"
  have t: "unat ?t = unat s + 3"
    using assms by (simp add: unat_word_ariths)
  have m: "(3 :: u32) = mask 2" by (simp add: mask_eq_exp_minus_1)
  have "LWIP_MEM_ALIGN_SIZE s = ?t AND NOT (take_bit 2 ?t)"
    unfolding LWIP_MEM_ALIGN_SIZE_def m by (rule bit_word_eqI) (auto simp: bit_simps)
  also have "\<dots> = ?t - take_bit 2 ?t"
    by (rule disjunctive_diff[symmetric]) (simp add: bit_simps)
  finally have "unat (LWIP_MEM_ALIGN_SIZE s) = unat ?t - unat (take_bit 2 ?t)"
    by (simp only:) (rule unat_sub, simp add: word_le_nat_alt unsigned_take_bit_eq)
  also have "unat (take_bit 2 ?t) = unat ?t mod 4"
    by (simp only: unsigned_take_bit_eq) (simp add: take_bit_eq_mod)
  finally show ?thesis by (simp only: t minus_mod_eq_div_mult)
qed

lemma round_bound:
  fixes k :: nat
  assumes "k < 65536"
  shows "(k + 3) div 4 * 4 < 65536 \<longleftrightarrow> k \<le> 65532" "(k + 3) div 4 * 4 \<le> 65536"
  using assms by (auto simp: less_mult_imp_div_less)

lemma unat_mem_round:
  "unat (mem_round sz) = (if unat sz \<le> 65532 then max 12 ((unat sz + 3) div 4 * 4) else 12)"
proof -
  define d where "d = (unat sz + 3) div 4"
  have l: "unat (ucast sz :: u32) = unat sz"
    unfolding unsigned_ucast_eq using unat16_less[of sz] by (intro take_bit_nat_eq_self) (erule less_trans, simp)
  have "unat (LWIP_MEM_ALIGN_SIZE (ucast sz)) = d * 4"
    using unat_align_size[of "ucast sz"] unat16_less[of sz] by (simp add: l d_def)
  then have c: "unat (ucast (LWIP_MEM_ALIGN_SIZE (ucast sz)) :: u16) = (d * 4) mod 65536"
    by (simp add: unsigned_ucast_eq take_bit_eq_mod)
  have d: "d * 4 < 65536 \<longleftrightarrow> unat sz \<le> 65532" "d * 4 \<le> 65536"
    using round_bound[OF unat16_less[of sz]] by (simp_all add: d_def)
  show ?thesis
  proof (cases "unat sz \<le> 65532")
    case True
    then have "unat (ucast (LWIP_MEM_ALIGN_SIZE (ucast sz)) :: u16) = d * 4"
      using c d by simp
    then show ?thesis using True
      by (simp add: mem_round_def Let_def MIN_SIZE_ALIGNED_def d_def)
  next
    case False
    then have "d * 4 = 65536" using d by linarith
    then have "unat (ucast (LWIP_MEM_ALIGN_SIZE (ucast sz)) :: u16) = 0" using c by simp
    then show ?thesis using False
      by (simp add: mem_round_def Let_def MIN_SIZE_ALIGNED_def)
  qed
qed

lemma mem_round_bounds: "12 \<le> unat (mem_round sz)" "4 dvd unat (mem_round sz)"
  by (auto simp: unat_mem_round max_def)

lemma mem_round_enough: "unat sz \<le> 65532 \<Longrightarrow> unat sz \<le> unat (mem_round sz)"
  by (simp add: unat_mem_round)

text \<open>The block that is taken, and what is left of it.\<close>

definition taken :: "nat \<Rightarrow> nat \<Rightarrow> block list" where
  "taken s n = (if s + 28 \<le> n then [(s + 8, True), (n - (s + 8), False)] else [(n, True)])"

lemma taken_Cons: "\<exists>m rest. taken s n = (m, True) # rest \<and> (s + 8 \<le> n \<longrightarrow> s + 8 \<le> m)"
  by (simp add: taken_def)

lemma extent_taken [simp]: "extent (taken s n) = n"
  by (simp add: taken_def)

lemma set_used_chain:
  assumes "chain h p q ((n, u) # cs)"
  shows "chain (set_used (of_bool v) (ram h + p) h) p q ((n, v) # cs)"
proof -
  have n: "20 \<le> n" using assms by (simp add: is_block_def)
  have "chain (set_used (of_bool v) (ram h + p) h) (p + n) p cs"
  proof (rule chain_relink)
    show "chain h (p + n) p cs" using assms by simp
    show "unat (m_prev (set_used (of_bool v) (ram h + p) h) (ram h + (p + n))) = p"
      if "p + n \<noteq> MEM_SIZE_ALIGNED"
    proof -
      have "apart (ram h + p) (ram h + (p + n))" using n by (simp add: apart_def)
      then show ?thesis using assms that
        by (cases cs) (auto simp: header is_block_def)
    qed
  qed (use n in \<open>simp_all add: header\<close>)
  then show ?thesis using assms by (simp add: is_block_def header)
qed

lemma mem_take_chain:
  assumes ch: "chain h p q ((n, False) # cs)" and sz: "12 \<le> unat sz" "4 dvd unat sz" "fits (unat sz) (n, False)"
  defines "h' \<equiv> mem_take sz (word_of_nat p) h"
  shows "chain h' p q (taken (unat sz) n @ cs)" "ram h' = ram h" "lfree h' = lfree h"
    "\<And>a. cells h' a \<noteq> cells h a \<Longrightarrow> a \<in> {ram h + p ..< ram h + p + 8}
      \<union> (if unat sz + 28 \<le> n then {ram h + p + unat sz + 8 ..< ram h + p + unat sz + 16} else {})
      \<union> {ram h + p + n ..< ram h + p + n + 8}"
    "\<And>a. ram_end h \<le> a \<Longrightarrow> cells h' a = cells h a"
proof -
  have blk: "is_block h p q (n, False)" and le: "p + n \<le> MEM_SIZE_ALIGNED"
    using ch chain_extent[OF ch] by simp_all
  have k: "unat sz + 20 < 2 ^ 20"
    using add_strict_right_mono[OF unat16_less[of sz], of 20] by (rule less_trans) simp
  have "ucast sz + word_of_nat SIZEOF_STRUCT_MEM + word_of_nat MIN_SIZE_ALIGNED
      = (word_of_nat (unat sz + 20) :: u32)"
    by (simp add: SIZEOF_STRUCT_MEM_def MIN_SIZE_ALIGNED_def)
  then have c: "ucast sz + word_of_nat SIZEOF_STRUCT_MEM + word_of_nat MIN_SIZE_ALIGNED
      \<le> user_size h (word_of_nat p) \<longleftrightarrow> unat sz + 28 \<le> n"
    by (simp only: user_size_le[OF blk le k]) (auto simp: SIZEOF_STRUCT_MEM_def)
  have p: "at h (word_of_nat p) = ram h + p" using le by simp
  show "chain h' p q (taken (unat sz) n @ cs)"
    using mem_split_chain(1)[OF ch sz(1,2)] set_used_chain[OF ch, of True]
    by (simp add: h'_def mem_take_def c p taken_def)
  show "ram h' = ram h" "lfree h' = lfree h"
    using mem_split_chain(2,3)[OF ch sz(1,2)] by (simp_all add: h'_def mem_take_def c)
  show "a \<in> {ram h + p ..< ram h + p + 8}
      \<union> (if unat sz + 28 \<le> n then {ram h + p + unat sz + 8 ..< ram h + p + unat sz + 16} else {})
      \<union> {ram h + p + n ..< ram h + p + n + 8}" if "cells h' a \<noteq> cells h a" for a
  proof (cases "unat sz + 28 \<le> n")
    case True
    then show ?thesis using mem_split_chain(4)[OF ch sz(1,2) True, of a] that
      by (simp add: h'_def mem_take_def c)
  next
    case False
    then have "a = ram h + p + 4" using that
      by (auto simp: h'_def mem_take_def c p set_used_def split: if_splits)
    then show ?thesis by simp
  qed
  show "cells h' a = cells h a" if "ram_end h \<le> a" for a
    using mem_split_chain(5)[OF ch sz(1,2) _ that] that le blk
    by (cases "unat sz + 28 \<le> n") (auto simp: h'_def mem_take_def c p set_used_def ram_end_def is_block_def)
qed

lemma chain_lfree [simp]:
  "is_block (h\<lparr>lfree := f\<rparr>) p q b = is_block h p q b"
  "seg (h\<lparr>lfree := f\<rparr>) p q bs = seg h p q bs" "chain (h\<lparr>lfree := f\<rparr>) p q bs = chain h p q bs"
proof -
  show [simp]: "is_block (h\<lparr>lfree := f\<rparr>) p q b = is_block h p q b" for p q b
    by (simp add: is_block_def)
  show "seg (h\<lparr>lfree := f\<rparr>) p q bs = seg h p q bs"
    by (induction bs arbitrary: p q) auto
  show "chain (h\<lparr>lfree := f\<rparr>) p q bs = chain h p q bs"
    by (induction bs arbitrary: p q) auto
qed

text \<open>The addresses of the headers, and the areas that were handed out: their addresses and
  their lengths.\<close>

fun hdrs :: "nat \<Rightarrow> block list \<Rightarrow> nat set" where
  "hdrs a [] = {a ..< a + 8}"
| "hdrs a ((n, u) # bs) = {a ..< a + 8} \<union> hdrs (a + n) bs"

fun areas :: "nat \<Rightarrow> block list \<Rightarrow> (nat \<times> nat) set" where
  "areas a [] = {}"
| "areas a ((n, u) # bs) = (if u then {(a + 8, n - 8)} else {}) \<union> areas (a + n) bs"

lemma hdrs_append: "hdrs a (as @ bs) = hdrs a as \<union> hdrs (a + extent as) bs"
  by (induction as arbitrary: a) (auto simp: add.assoc, (cases bs; auto)+)

lemma areas_append: "areas a (as @ bs) = areas a as \<union> areas (a + extent as) bs"
  by (induction as arbitrary: a) (auto simp: add.assoc)

lemma chain_sizes: "chain h p q bs \<Longrightarrow> \<forall>b\<in>set bs. 20 \<le> fst b \<and> 4 dvd fst b"
proof (induction bs arbitrary: p q)
  case (Cons b bs)
  then show ?case by (cases b) (auto simp: is_block_def dest: Cons.IH)
qed simp

lemma seg_sizes: "seg h p q bs \<Longrightarrow> \<forall>b\<in>set bs. 20 \<le> fst b \<and> 4 dvd fst b"
proof (induction bs arbitrary: p q)
  case (Cons b bs)
  then show ?case by (cases b) (auto simp: is_block_def dest: Cons.IH)
qed simp

lemma first_free_le: "first_free bs \<le> extent bs"
  by (induction bs rule: first_free.induct) auto

lemma first_free_less:
  "\<exists>b\<in>set bs. \<not> snd b \<Longrightarrow> \<forall>b\<in>set bs. 20 \<le> fst b \<Longrightarrow> first_free bs < extent bs"
  by (induction bs rule: first_free.induct) auto

lemma hdrs_head: "{a ..< a + 8} \<subseteq> hdrs a bs"
  by (cases bs) auto

lemma heap_ok_chain:
  assumes "heap_ok h (as @ bs)"
  shows "seg h 0 0 as" "chain h (extent as) (last_at 0 0 as) bs"
  using assms by (simp_all add: heap_ok_def chain_append)

text \<open>A change of the blocks from offset \<open>p\<close> on leaves those before it.\<close>

lemma chain_suffix:
  assumes "seg h 0 0 ds" "chain h' (extent ds) (last_at 0 0 ds) bs" "ram h' = ram h"
    "\<And>a. cells h' a \<noteq> cells h a \<Longrightarrow> ram h + extent ds \<le> a"
  shows "chain h' 0 0 (ds @ bs)"
proof -
  have "seg h' 0 0 ds"
    by (rule seg_cong[OF assms(1,3)]) (use assms(4) in fastforce)
  then show ?thesis using assms(2) by (simp add: chain_append)
qed

lemma no_holes_taken:
  assumes "no_holes (ds @ (n, False) # es)"
  shows "no_holes (ds @ taken s n @ es)"
  using assms by (auto simp: no_holes_append no_holes_Cons taken_def)

text \<open>The search starts at the first free block.\<close>

lemma first_free_split:
  obtains us vs where "bs = us @ vs" "\<forall>b\<in>set us. snd b" "first_free bs = extent us"
    "vs = [] \<or> \<not> snd (hd vs)"
proof
  show "bs = takeWhile snd bs @ dropWhile snd bs" by simp
  show "\<forall>b\<in>set (takeWhile snd bs). snd b" by (blast dest: set_takeWhileD)
  show "first_free bs = extent (takeWhile snd bs)"
    by (induction bs rule: first_free.induct) auto
  show "dropWhile snd bs = [] \<or> \<not> snd (hd (dropWhile snd bs))"
    using hd_dropWhile by blast
qed

lemma search_none:
  assumes ok: "heap_ok h bs" and no: "\<forall>b\<in>set bs. \<not> fits (unat s) b"
  shows "mem_fit s (offs h (lfree h)) h = Some None"
proof -
  obtain us vs where uv: "bs = us @ vs" "first_free bs = extent us" by (rule first_free_split)
  have "chain h (extent us) (last_at 0 0 us) vs"
    using heap_ok_chain(2)[OF ok[unfolded uv(1)]] .
  then have "mem_fit s (word_of_nat (extent us)) h = Some None"
    by (rule mem_fit_none) (use no uv(1) in simp)
  then show ?thesis using ok by (simp add: heap_ok_def uv(2))
qed

lemma mem_search_found:
  assumes ok: "heap_ok h (ds @ (n, False) # es)"
    and no: "\<forall>b\<in>set ds. \<not> fits (unat s) b" and fit: "fits (unat s) (n, False)"
  shows "mem_fit s (offs h (lfree h)) h = Some (Some (word_of_nat (extent ds)))"
proof -
  obtain us vs where uv: "ds = us @ vs" "\<forall>b\<in>set us. snd b" "first_free ds = extent us"
    "vs = [] \<or> \<not> snd (hd vs)" by (rule first_free_split)
  have ff: "first_free (ds @ (n, False) # es) = extent us"
    using uv by (cases vs) (auto simp: first_free_append)
  have "chain h (extent us) (last_at 0 0 us) (vs @ (n, False) # es)"
    using heap_ok_chain(2)[of h us "vs @ (n, False) # es"] ok uv(1) by simp
  then have "mem_fit s (word_of_nat (extent us)) h = Some (Some (word_of_nat (extent us + extent vs)))"
    by (rule mem_fit_some) (use no uv(1) fit in simp_all)
  then show ?thesis using ok ff by (simp add: heap_ok_def uv(1))
qed

lemma mem_malloc_found:
  assumes ok: "heap_ok h (ds @ (n, False) # es)" and nz: "sz \<noteq> 0"
    and no: "\<forall>b\<in>set ds. \<not> fits (unat (mem_round sz)) b"
    and fit: "fits (unat (mem_round sz)) (n, False)"
  obtains h' where "mem_malloc sz h = Some (ram h + extent ds + 8, h')"
    "heap_ok h' (ds @ taken (unat (mem_round sz)) n @ es)" "ram h' = ram h"
    "\<And>a. cells h' a \<noteq> cells h a \<Longrightarrow> a \<in> hdrs (ram h) (ds @ taken (unat (mem_round sz)) n @ es)"
    "\<And>a. ram_end h \<le> a \<Longrightarrow> cells h' a = cells h a"
proof -
  define s where "s = mem_round sz"
  note sb = mem_round_bounds[of sz, folded s_def]
  have ch: "seg h 0 0 ds" "chain h (extent ds) (last_at 0 0 ds) ((n, False) # es)"
    using heap_ok_chain[OF ok] .
  have al: "8 \<le> ram h" "4 dvd ram h" "lfree h = ram h + first_free (ds @ (n, False) # es)"
    "chain h 0 0 (ds @ (n, False) # es)"
    using ok by (simp_all add: heap_ok_def)
  have le: "extent ds + (n + extent es) = MEM_SIZE_ALIGNED" using chain_extent[OF ch(2)] by simp
  have s: "\<not> MEM_SIZE_ALIGNED < unat s" using fit le by (simp add: fits_def s_def)
  define h1 where "h1 = mem_take s (word_of_nat (extent ds)) h"
  note tk = mem_take_chain[OF ch(2) sb fit[folded s_def], folded h1_def]
  have ch1: "chain h1 0 0 (ds @ taken (unat s) n @ es)"
    by (rule chain_suffix[OF ch(1) tk(1,2)]) (use tk(4) in \<open>fastforce split: if_splits\<close>)
  have cells: "a \<in> hdrs (ram h) (ds @ taken (unat s) n @ es)" if "cells h1 a \<noteq> cells h a" for a
  proof -
    have "{ram h + extent ds ..< ram h + extent ds + 8}
      \<union> (if unat s + 28 \<le> n then {ram h + extent ds + unat s + 8 ..< ram h + extent ds + unat s + 16} else {})
      \<union> {ram h + extent ds + n ..< ram h + extent ds + n + 8} \<subseteq> hdrs (ram h + extent ds) (taken (unat s) n @ es)"
      using hdrs_head[of "ram h + extent ds + n" es] by (auto simp: taken_def algebra_simps)
    then show ?thesis using tk(4)[OF that] by (auto simp: hdrs_append)
  qed
  have first: "mem_fit s (offs h (lfree h)) h = Some (Some (word_of_nat (extent ds)))"
    by (rule mem_search_found[OF ok]) (use no fit in \<open>simp_all add: s_def\<close>)
  have at: "at h (word_of_nat (extent ds)) = ram h + extent ds" using le by simp
  have ch2: "chain h1 (extent ds) (last_at 0 0 ds) (taken (unat s) n @ es)"
    using ch1 by (simp add: chain_append)
  define h2 where "h2 = h1\<lparr>lfree := ram h + first_free (ds @ taken (unat s) n @ es)\<rparr>"
  have upd: "(if ram h + extent ds = lfree h1
      then do { cur \<leftarrow> next_free (lfree h1) h1; Some (h1\<lparr>lfree := cur\<rparr>) } else Some h1) = Some h2"
  proof (cases "\<forall>b\<in>set ds. snd b")
    case True
    then have "lfree h1 = ram h1 + extent ds" by (simp add: al tk first_free_append)
    then show ?thesis
      using next_free_chain[OF ch2] True by (simp add: h2_def tk first_free_append)
  next
    case False
    then have f: "first_free (ds @ bs) = first_free ds" for bs unfolding first_free_append by (rule if_not_P)
    have "first_free ds < extent ds"
      by (rule first_free_less) (use False seg_sizes[OF ch(1)] in auto)
    then show ?thesis using al(3) by (simp add: h2_def tk(3) f)
  qed
  have "mem_malloc sz h = Some (ram h + extent ds + 8, h2)"
    using nz s first upd
    by (cases "ram h + extent ds = lfree h1")
      (auto simp: mem_malloc_def Let_def s_def[symmetric] at h1_def[symmetric] SIZEOF_STRUCT_MEM_def
        bind_eq_Some_conv)
  moreover have "heap_ok h2 (ds @ taken (unat s) n @ es)"
  proof -
    have "chain h2 0 0 (ds @ taken (unat s) n @ es)"
      using ch1 by (simp add: h2_def)
    moreover have "no_holes (ds @ taken (unat s) n @ es)"
      by (rule no_holes_taken) (use ok in \<open>simp add: heap_ok_def\<close>)
    ultimately show ?thesis using al by (simp add: heap_ok_def h2_def tk)
  qed
  ultimately show ?thesis
    by (rule that[folded s_def]) (simp_all add: h2_def tk(2) tk(5) cells)
qed

lemma mem_malloc_at:
  assumes "heap_ok h (ds @ (n, False) # es)" "sz \<noteq> 0" "\<forall>b\<in>set ds. \<not> fits (unat (mem_round sz)) b"
    "fits (unat (mem_round sz)) (n, False)"
  shows "\<exists>h'. mem_malloc sz h = Some (ram h + extent ds + 8, h')"
  by (rule mem_malloc_found[OF assms]) blast

lemma mem_malloc_nothing:
  assumes "sz = 0 \<or> MEM_SIZE_ALIGNED < unat (mem_round sz)"
  shows "mem_malloc sz h = Some (0, h)"
  using assms by (auto simp: mem_malloc_def Let_def)

lemma mem_malloc_none:
  assumes "heap_ok h bs" "\<forall>b\<in>set bs. \<not> fits (unat (mem_round sz)) b"
  shows "mem_malloc sz h = Some (0, h)"
  using search_none[OF assms] by (auto simp: mem_malloc_def Let_def)

section \<open>What \<open>mem_init\<close> and \<open>mem_free\<close> do\<close>

lemma mem_init_ok:
  assumes "8 \<le> ram h" "4 dvd ram h"
  shows "heap_ok (mem_init h) [(MEM_SIZE_ALIGNED, False)]" "ram (mem_init h) = ram h"
proof -
  have ap: "apart (ram h) (ram h + 6144)" "apart (ram h + 6144) (ram h)"
    by (simp_all add: apart_def)
  show "heap_ok (mem_init h) [(MEM_SIZE_ALIGNED, False)]"
    using assms
    by (simp add: heap_ok_def mem_init_def Let_def is_block_def fields_same ram_end_def
        fields_apart[OF ap(1)] fields_apart[OF ap(2)] MEM_SIZE_ALIGNED_def no_holes_def)
  show "ram (mem_init h) = ram h" by (simp add: mem_init_def Let_def)
qed

text \<open>The blocks after a block became free: it is joined with a free block after it, then
  with a free block before it.\<close>

fun join_right :: "nat \<Rightarrow> block list \<Rightarrow> block list" where
  "join_right n ((m, False) # es) = (n + m, False) # es"
| "join_right n es = (n, False) # es"

definition join_left :: "block list \<Rightarrow> block list \<Rightarrow> block list" where
  "join_left ds es =
     (if ds \<noteq> [] \<and> \<not> snd (last ds)
      then butlast ds @ (fst (last ds) + fst (hd es), False) # tl es
      else ds @ es)"

lemma hdrs_ge: "x \<in> hdrs a bs \<Longrightarrow> a \<le> x"
  by (induction a bs rule: hdrs.induct) auto

lemma chain_join:
  assumes ch: "chain h p q ((n, u) # (m, v) # es)"
  defines "h' \<equiv> set_prev (word_of_nat p) (ram h + (p + (n + m)))
    (set_next (word_of_nat (p + (n + m))) (ram h + p) h)"
  shows "chain h' p q ((n + m, u) # es)" "ram h' = ram h" "lfree h' = lfree h"
    "\<And>a. cells h' a \<noteq> cells h a \<Longrightarrow>
      a \<in> {ram h + p ..< ram h + p + 8} \<union> hdrs (ram h + p + n + m) es"
proof -
  show "ram h' = ram h" "lfree h' = lfree h" by (simp_all add: h'_def)
  show "a \<in> {ram h + p ..< ram h + p + 8} \<union> hdrs (ram h + p + n + m) es"
    if "cells h' a \<noteq> cells h a" for a
  proof -
    have "a \<in> {ram h + p, ram h + p + 1, ram h + p + n + m + 2, ram h + p + n + m + 3}"
      by (rule ccontr) (use that in \<open>simp add: h'_def header add.assoc\<close>)
    moreover have "{ram h + p + n + m + 2, ram h + p + n + m + 3} \<subseteq> hdrs (ram h + p + n + m) es"
      by (rule subset_trans[OF _ hdrs_head]) simp
    ultimately show ?thesis by auto
  qed
  have nm: "20 \<le> n" "20 \<le> m" "4 dvd n" "4 dvd m" using ch by (simp_all add: is_block_def)
  have le: "p + (n + m) \<le> MEM_SIZE_ALIGNED" using chain_extent[OF ch] by simp
  have ap: "apart (ram h + (p + (n + m))) (ram h + p)" using nm by (simp add: apart_def)
  have "chain h (p + (n + m)) (p + n) es" using ch by (simp add: add.assoc)
  then have "chain h' (p + (n + m)) p es"
    by (rule chain_relink) (use nm le in \<open>simp_all add: h'_def header unat_offset del: of_nat_add\<close>)
  then show "chain h' p q ((n + m, u) # es)"
    using ch nm le ap
    by (simp add: h'_def is_block_def header unat_offset add.assoc del: of_nat_add)
qed

lemma plug_forward_chain:
  assumes ch: "chain h p q ((n, False) # es)" and lf: "lfree h \<le> ram h + p"
  defines "h' \<equiv> plug_forward (ram h + p) h"
  shows "chain h' p q (join_right n es)" "ram h' = ram h" "lfree h' = lfree h"
    "\<And>a. cells h' a \<noteq> cells h a \<Longrightarrow> ram h + p \<le> a \<and> a \<in> hdrs (ram h + p) ((n, False) # es)"
proof -
  have blk: "is_block h p q (n, False)" and tl: "chain h (p + n) p es" using ch by simp_all
  have n: "20 \<le> n" using blk by (simp add: is_block_def)
  have nx: "at h (m_next h (ram h + p)) = ram h + (p + n)" by (rule at_next[OF blk])
  have free: "m_used h (ram h + (p + n)) = 0 \<and> ram h + (p + n) \<noteq> ram_end h
    \<longleftrightarrow> (\<exists>m cs. es = (m, False) # cs)"
    using tl chain_extent[OF tl] by (cases es) (auto simp: ram_end_def is_block_def)
  have "chain h' p q (join_right n es) \<and> ram h' = ram h \<and> lfree h' = lfree h \<and>
    (\<forall>a. cells h' a \<noteq> cells h a \<longrightarrow> ram h + p \<le> a \<and> a \<in> hdrs (ram h + p) ((n, False) # es))"
  proof (cases "\<exists>m cs. es = (m, False) # cs")
    case False
    then have "join_right n es = (n, False) # es" by (cases "(n, es)" rule: join_right.cases) auto
    moreover have "h' = h" using False free n nx by (auto simp: h'_def plug_forward_def)
    ultimately show ?thesis using ch by simp
  next
    case True
    then obtain m cs where es: "es = (m, False) # cs" by blast
    have blk2: "is_block h (p + n) p (m, False)" using tl by (simp add: es)
    have ap: "apart (ram h + p) (ram h + (p + n))" using n by (simp add: apart_def)
    have h': "h' = set_prev (word_of_nat p) (ram h + (p + (n + m)))
      (set_next (word_of_nat (p + (n + m))) (ram h + p) h)"
      using n lf free[THEN iffD2, OF True] next_word[OF blk2] at_next[OF blk2]
      by (simp add: h'_def plug_forward_def nx fields_apart[OF ap] Let_def add.assoc
          del: of_nat_add at_of_nat)
    note j = chain_join[OF ch[unfolded es], folded h']
    have "ram h + p \<le> a \<and> a \<in> hdrs (ram h + p) ((n, False) # es)" if "cells h' a \<noteq> cells h a" for a
      using j(4)[OF that] hdrs_ge[of a "ram h + p + n + m" cs] by (auto simp: es)
    moreover have "join_right n es = (n + m, False) # cs" by (simp add: es)
    ultimately show ?thesis using j(1-3) by (metis (no_types, lifting))
  qed
  then show "chain h' p q (join_right n es)" "ram h' = ram h" "lfree h' = lfree h"
    "\<And>a. cells h' a \<noteq> cells h a \<Longrightarrow> ram h + p \<le> a \<and> a \<in> hdrs (ram h + p) ((n, False) # es)"
    by blast+
qed

lemma plug_backward_chain:
  assumes ch: "chain h 0 0 (ds @ (n, False) # es)"
    and lf: "lfree h = ram h + first_free (ds @ (n, False) # es)"
  defines "h' \<equiv> plug_backward (ram h + extent ds) h"
  shows "chain h' 0 0 (join_left ds ((n, False) # es))" "ram h' = ram h" "lfree h' = lfree h"
    "\<And>a. cells h' a \<noteq> cells h a \<Longrightarrow> a \<in> hdrs (ram h) (ds @ (n, False) # es)"
proof -
  have sg: "seg h 0 0 ds" and blk: "is_block h (extent ds) (last_at 0 0 ds) (n, False)"
    using ch by (simp_all add: chain_append)
  have pv: "at h (m_prev h (ram h + extent ds)) = ram h + last_at 0 0 ds"
    using blk by (simp add: is_block_def at_def)
  have "chain h' 0 0 (join_left ds ((n, False) # es)) \<and> ram h' = ram h \<and> lfree h' = lfree h \<and>
    (\<forall>a. cells h' a \<noteq> cells h a \<longrightarrow> a \<in> hdrs (ram h) (ds @ (n, False) # es))"
  proof (cases "ds \<noteq> [] \<and> \<not> snd (last ds)")
    case False
    have "h' = h"
    proof (cases ds rule: rev_cases)
      case Nil
      then show ?thesis using pv by (simp add: h'_def plug_backward_def)
    next
      case (snoc cs c)
      obtain m u where c: "c = (m, u)" by (cases c)
      have "is_block h (extent cs) (last_at 0 0 cs) (m, u)"
        using sg by (simp add: snoc c seg_append)
      then have "m_used h (ram h + extent cs) \<noteq> 0" using False by (simp add: used_iff snoc c)
      then show ?thesis using pv by (simp add: h'_def plug_backward_def snoc c)
    qed
    then show ?thesis using ch False by (auto simp: join_left_def)
  next
    case True
    then obtain cs m where ds: "ds = cs @ [(m, False)]"
      by (metis append_butlast_last_id surjective_pairing)
    have ch2: "chain h (extent cs) (last_at 0 0 cs) ((m, False) # (n, False) # es)"
      and sc: "seg h 0 0 cs" using ch by (simp_all add: chain_append ds)
    have blk2: "is_block h (extent cs) (last_at 0 0 cs) (m, False)" using ch2 by simp
    have m: "20 \<le> m" using blk2 by (simp add: is_block_def)
    have le: "extent cs + (m + n) \<le> MEM_SIZE_ALIGNED" using chain_extent[OF ch2] by simp
    have "first_free (ds @ (n, False) # es) \<le> extent cs"
      using first_free_le[of cs] by (auto simp: ds first_free_append)
    then have lf2: "lfree h \<noteq> ram h + extent ds" using m by (simp add: lf ds)
    have ap: "apart (ram h + extent cs) (ram h + (extent cs + m))" using m by (simp add: apart_def)
    have nx: "m_next h (ram h + (extent cs + m)) = word_of_nat (extent cs + (m + n))"
      using next_word[OF blk] by (simp add: ds add.assoc)
    have h': "h' = set_prev (word_of_nat (extent cs)) (ram h + (extent cs + (m + n)))
      (set_next (word_of_nat (extent cs + (m + n))) (ram h + extent cs) h)"
      using m le lf2 used_iff[OF blk2] pv
      by (simp add: h'_def plug_backward_def ds nx fields_apart[OF ap] Let_def
          del: of_nat_add)
    note j = chain_join[OF ch2, folded h']
    have "chain h' 0 0 (cs @ (m + n, False) # es)"
      by (rule chain_suffix[OF sc j(1,2)]) (use j(4) in \<open>fastforce dest: hdrs_ge\<close>)
    moreover have "a \<in> hdrs (ram h) (ds @ (n, False) # es)" if "cells h' a \<noteq> cells h a" for a
      using j(4)[OF that] by (auto simp: ds hdrs_append add.assoc)
    ultimately show ?thesis using j(2,3) by (simp add: ds join_left_def)
  qed
  then show "chain h' 0 0 (join_left ds ((n, False) # es))" "ram h' = ram h" "lfree h' = lfree h"
    "\<And>a. cells h' a \<noteq> cells h a \<Longrightarrow> a \<in> hdrs (ram h) (ds @ (n, False) # es)"
    by blast+
qed

lemma join_right_Cons: obtains m cs where "join_right n es = (m, False) # cs" "n \<le> m"
  by (cases "(n, es)" rule: join_right.cases) auto

lemma first_free_joins: "first_free (join_left ds (join_right n es)) = first_free (ds @ (n, False) # es)"
proof -
  obtain m cs where j: "join_right n es = (m, False) # cs" by (rule join_right_Cons)
  show ?thesis
    by (cases ds rule: rev_cases) (auto simp: join_left_def j first_free_append)
qed

lemma no_holes_joins:
  assumes "no_holes (ds @ (n, True) # es)"
  shows "no_holes (join_left ds (join_right n es))"
proof -
  have d: "no_holes ds" and "no_holes es" using assms by (simp_all add: no_holes_append no_holes_Cons)
  then have r: "no_holes (join_right n es)"
    by (cases "(n, es)" rule: join_right.cases) (simp_all add: no_holes_Cons)
  obtain m cs where j: "join_right n es = (m, False) # cs" by (rule join_right_Cons)
  show ?thesis
  proof (cases ds rule: rev_cases)
    case Nil
    then show ?thesis using r by (simp add: join_left_def)
  next
    case (snoc as a)
    then show ?thesis
      using d r by (cases "snd a") (auto simp: join_left_def j no_holes_append no_holes_Cons)
  qed
qed

text \<open>\<open>mem_free\<close> of a block that is in use.\<close>

lemma mem_free_used:
  assumes ok: "heap_ok h (ds @ (n, True) # es)"
  defines "h' \<equiv> mem_free (ram h + extent ds + 8) h"
  shows "heap_ok h' (join_left ds (join_right n es))" "ram h' = ram h"
    "\<And>a. cells h' a \<noteq> cells h a \<Longrightarrow> a \<in> hdrs (ram h) (ds @ (n, True) # es)"
proof -
  let ?p = "extent ds"
  have ch: "seg h 0 0 ds" "chain h ?p (last_at 0 0 ds) ((n, True) # es)" using heap_ok_chain[OF ok] .
  have n: "20 \<le> n" using ch(2) by (simp add: is_block_def)
  have le: "?p + (n + extent es) = MEM_SIZE_ALIGNED" using chain_extent[OF ch(2)] by simp
  have al: "8 \<le> ram h" "4 dvd ram h" "lfree h = ram h + first_free (ds @ (n, True) # es)"
    "no_holes (ds @ (n, True) # es)"
    using ok by (simp_all add: heap_ok_def)
  define h1 where "h1 = set_used 0 (ram h + ?p) h"
  define h2 where "h2 = (if ram h + ?p < lfree h1 then h1\<lparr>lfree := ram h + ?p\<rparr> else h1)"
  define h3 where "h3 = plug_forward (ram h + ?p) h2"
  have h': "h' = plug_backward (ram h + ?p) h3"
    using n le al(1)
    by (simp add: h'_def mem_free_def SIZEOF_STRUCT_MEM_def ram_end_def Let_def plug_holes_def
        h1_def h2_def h3_def)
  have r2: "ram h2 = ram h" by (simp add: h2_def h1_def)
  have c2: "chain h2 ?p (last_at 0 0 ds) ((n, False) # es)"
    using set_used_chain[OF ch(2), of False] by (simp add: h2_def h1_def)
  have l2: "lfree h2 = ram h + first_free (ds @ (n, False) # es)"
    using al(3) first_free_le[of ds] n by (auto simp: h2_def h1_def first_free_append)
  have d2: "a = ram h + ?p + 4" if "cells h2 a \<noteq> cells h a" for a
    using that by (auto simp: h2_def h1_def set_used_def split: if_splits)
  have l2': "lfree h2 \<le> ram h2 + ?p"
    using first_free_le[of ds] by (auto simp: l2 r2 first_free_append)
  note f = plug_forward_chain[OF c2 l2', unfolded r2, folded h3_def]
  obtain m cs where j: "join_right n es = (m, False) # cs" by (rule join_right_Cons)
  have d3: "ram h + ?p \<le> a" if "cells h3 a \<noteq> cells h a" for a
    using f(4)[of a] d2[of a] that by (cases "cells h3 a = cells h2 a") auto
  have "chain h3 0 0 (ds @ join_right n es)"
    by (rule chain_suffix[OF ch(1) f(1) f(2)]) (rule d3)
  then have c3: "chain h3 0 0 (ds @ (m, False) # cs)" by (simp add: j)
  have l3: "lfree h3 = ram h3 + first_free (ds @ (m, False) # cs)"
    using l2 by (simp add: f first_free_append)
  note b = plug_backward_chain[OF c3 l3, unfolded f(2), folded h']
  show "heap_ok h' (join_left ds (join_right n es))"
  proof -
    have "chain h' 0 0 (join_left ds (join_right n es))" using b(1) by (simp only: j)
    moreover have "lfree h' = ram h + first_free (join_left ds (join_right n es))"
      by (simp only: b(3) f(3) l2 first_free_joins)
    ultimately show ?thesis using al(1,2) no_holes_joins[OF al(4)] by (simp add: heap_ok_def b(2))
  qed
  show "ram h' = ram h" by (rule b(2))
  show "a \<in> hdrs (ram h) (ds @ (n, True) # es)" if c: "cells h' a \<noteq> cells h a" for a
  proof -
    have "hdrs (ram h + ?p) (join_right n es) \<subseteq> hdrs (ram h + ?p) ((n, False) # es)"
      by (cases "(n, es)" rule: join_right.cases) (auto simp: add.assoc)
    then have "hdrs (ram h) (ds @ (m, False) # cs) \<subseteq> hdrs (ram h) (ds @ (n, True) # es)"
      by (auto simp: hdrs_append j)
    moreover have "ram h + ?p + 4 \<in> hdrs (ram h) (ds @ (n, True) # es)" by (simp add: hdrs_append)
    moreover have "hdrs (ram h + ?p) ((n, False) # es) \<subseteq> hdrs (ram h) (ds @ (n, True) # es)"
      by (auto simp: hdrs_append)
    moreover consider "cells h' a \<noteq> cells h3 a" | "cells h3 a \<noteq> cells h2 a" | "cells h2 a \<noteq> cells h a"
      using c by fastforce
    ultimately show ?thesis by cases (use b(4) f(4) d2 in blast)+
  qed
qed

section \<open>What \<open>mem_trim\<close> does\<close>

text \<open>The blocks after the block of length \<open>n\<close> was made smaller, to \<open>s\<close> bytes of data.\<close>

fun trimmed :: "nat \<Rightarrow> nat \<Rightarrow> block list \<Rightarrow> block list" where
  "trimmed s n ((m, False) # es) =
     (if s + 8 < n then (s + 8, True) # (n + m - (s + 8), False) # es
      else (n, True) # (m, False) # es)"
| "trimmed s n es =
     (if s + 28 \<le> n then (s + 8, True) # (n - (s + 8), False) # es else (n, True) # es)"

text \<open>The writes both branches make; \<open>next\<close> is what the new header points to.\<close>

definition new_header :: "nat \<Rightarrow> mem_size_t \<Rightarrow> mem_size_t \<Rightarrow> mem_size_t \<Rightarrow> lwip_heap \<Rightarrow> lwip_heap" where
  "new_header mem ptr ptr2 next h =
     (let mem2 = at h ptr2;
          h = set_next ptr2 mem (set_prev ptr mem2 (set_next next mem2 (set_used 0 mem2 h)))
      in if unat (m_next h mem2) \<noteq> MEM_SIZE_ALIGNED
         then set_prev ptr2 (at h (m_next h mem2)) h else h)"

lemma new_header_chain:
  assumes tl: "chain h (p + n) r cs" and q: "unat (m_prev h (ram h + p)) = q"
    and u: "m_used h (ram h + p) = of_bool u"
    and k: "20 \<le> k" "4 dvd k" "k + 20 \<le> n" "4 dvd n"
  defines "h' \<equiv> new_header (ram h + p) (word_of_nat p) (word_of_nat (p + k)) (word_of_nat (p + n)) h"
  shows "chain h' p q ((k, u) # (n - k, False) # cs)" "ram h' = ram h" "lfree h' = lfree h"
    "\<And>a. cells h' a \<noteq> cells h a \<Longrightarrow> ram h + p \<le> a \<and> a \<in> hdrs (ram h + p) ((k, u) # (n - k, False) # cs)"
proof -
  have le: "p + n \<le> MEM_SIZE_ALIGNED" using chain_extent[OF tl] by simp
  have at2: "at g (word_of_nat (p + k)) = ram g + (p + k)"
    "at g (word_of_nat (p + n)) = ram g + (p + n)" for g
    using le k by (simp_all del: of_nat_add)
  have ap: "apart (ram h + p) (ram h + (p + k))" "apart (ram h + (p + k)) (ram h + p)"
    "apart (ram h + (p + n)) (ram h + p)" "apart (ram h + (p + n)) (ram h + (p + k))"
    "apart (ram h + (p + k)) (ram h + (p + n))" "apart (ram h + p) (ram h + (p + n))"
    using k by (simp_all add: apart_def)
  note hd = fields_same ap[THEN fields_apart(1)] ap[THEN fields_apart(2)] ap[THEN fields_apart(3)]
    ap[THEN fields_apart(4)] ap[THEN fields_apart(5)] ap[THEN fields_apart(6)]
    ap[THEN fields_apart(7)] ap[THEN fields_apart(8)] ap[THEN fields_apart(9)]
  define g where "g = set_next (word_of_nat (p + k)) (ram h + p) (set_prev (word_of_nat p) (ram h + (p + k))
      (set_next (word_of_nat (p + n)) (ram h + (p + k)) (set_used 0 (ram h + (p + k)) h)))"
  have nx: "m_next g (ram h + (p + k)) = word_of_nat (p + n)" by (simp add: g_def hd)
  have h': "h' = (if p + n \<noteq> MEM_SIZE_ALIGNED then set_prev (word_of_nat (p + k)) (ram h + (p + n)) g else g)"
    unfolding h'_def new_header_def Let_def at2 g_def[symmetric] nx unat_offset[OF le] by (simp add: g_def)
  show "chain h' p q ((k, u) # (n - k, False) # cs)"
    by (rule chain_cut[OF tl q k]) (use u k in \<open>simp_all add: h' g_def hd cells_set del: of_nat_add\<close>)
  show "ram h' = ram h" "lfree h' = lfree h" by (simp_all add: h' g_def)
  show "ram h + p \<le> a \<and> a \<in> hdrs (ram h + p) ((k, u) # (n - k, False) # cs)"
    if "cells h' a \<noteq> cells h a" for a
  proof -
    have "a \<in> {ram h + p ..< ram h + p + 8} \<union> {ram h + (p + k) ..< ram h + (p + k) + 8} \<union>
        {ram h + (p + n) ..< ram h + (p + n) + 8}" (is "_ \<in> ?A")
      by (rule ccontr) (use that in \<open>auto simp: h' g_def cells_set split: if_splits\<close>)
    moreover have "?A \<subseteq> hdrs (ram h + p) ((k, u) # (n - k, False) # cs)"
      using hdrs_head[of "ram h + (p + n)" cs] k by (auto simp: add.assoc)
    ultimately show ?thesis by fastforce
  qed
qed

lemma trim_free_eq:
  "trim_free mem ptr newsize h =
     (let mem2 = at h (m_next h mem);
          ptr2 = ptr + word_of_nat SIZEOF_STRUCT_MEM + newsize;
          g = (if lfree h = mem2 then h\<lparr>lfree := at h ptr2\<rparr> else h)
      in new_header mem ptr ptr2 (m_next h mem2) g)"
  by (simp add: trim_free_def new_header_def Let_def)

lemma trim_used_eq:
  assumes "apart mem (at h (ptr + word_of_nat SIZEOF_STRUCT_MEM + newsize))"
  shows "trim_used mem ptr newsize h =
     (let ptr2 = ptr + word_of_nat SIZEOF_STRUCT_MEM + newsize;
          g = (if at h ptr2 < lfree h then h\<lparr>lfree := at h ptr2\<rparr> else h)
      in new_header mem ptr ptr2 (m_next h mem) g)"
proof -
  have "apart (at h (ptr + word_of_nat SIZEOF_STRUCT_MEM + newsize)) mem"
    using assms by (auto simp: apart_def)
  then show ?thesis by (simp add: trim_used_def new_header_def Let_def header)
qed

lemma no_holes_trimmed:
  assumes "no_holes (ds @ (n, True) # es)"
  shows "no_holes (ds @ trimmed s n es)"
  using assms by (cases "(s, n, es)" rule: trimmed.cases) (auto simp: no_holes_append no_holes_Cons)

lemma extent_trimmed: "20 \<le> n \<Longrightarrow> \<forall>b\<in>set es. 20 \<le> fst b \<Longrightarrow> extent (trimmed s n es) = n + extent es"
  by (cases "(s, n, es)" rule: trimmed.cases) auto

text \<open>Which branch \<open>mem_trim\<close> takes.\<close>

lemma mem_trim_branch:
  assumes ch: "chain h p q ((n, True) # es)" and s: "unat (mem_round newsize) + 8 \<le> n"
  defines "w \<equiv> mem_round newsize"
  shows "mem_trim (ram h + p + 8) newsize h =
     (ram h + p + 8,
      if unat w + 8 = n then h
      else if \<exists>m cs. es = (m, False) # cs then trim_free (ram h + p) (word_of_nat p) w h
      else if unat w + 28 \<le> n then trim_used (ram h + p) (word_of_nat p) w h
      else h)"
proof -
  define s where "s = unat w"
  have sb: "12 \<le> s" "4 dvd s" "s + 8 \<le> n" using mem_round_bounds[of newsize] assms(2) by (simp_all add: s_def w_def)
  have blk: "is_block h p q (n, True)" and tl: "chain h (p + n) p es" using ch by simp_all
  have n: "20 \<le> n" "4 dvd n" using blk by (simp_all add: is_block_def)
  have le: "p + (n + extent es) = MEM_SIZE_ALIGNED" using chain_extent[OF ch] by simp
  have size: "m_next h (ram h + p) - word_of_nat p - word_of_nat SIZEOF_STRUCT_MEM = word_of_nat (n - 8)"
    using n by (simp add: next_word[OF blk] SIZEOF_STRUCT_MEM_def)
  have un: "unat (word_of_nat (n - 8) :: u16) = n - 8" using le by (intro unat_offset) simp
  have free: "m_used h (ram h + (p + n)) = 0 \<longleftrightarrow> (\<exists>m cs. es = (m, False) # cs)"
    using tl by (cases es) (auto simp: is_block_def)
  have "\<not> MEM_SIZE_ALIGNED < unat w" using sb le by (simp add: s_def[symmetric])
  moreover have "\<not> (ram h + p + 8 < ram h \<or> ram_end h \<le> ram h + p + 8)"
    using le n by (simp add: ram_end_def)
  moreover have "\<not> word_of_nat (n - 8) < w" using sb unfolding word_less_nat_alt un by (simp add: s_def[symmetric])
  moreover have "w = word_of_nat (n - 8) \<longleftrightarrow> s + 8 = n"
    using sb un by (auto simp: s_def)
  moreover have "(ucast w :: u32) + word_of_nat SIZEOF_STRUCT_MEM + word_of_nat MIN_SIZE_ALIGNED
      \<le> ucast (word_of_nat (n - 8) :: u16) \<longleftrightarrow> s + 28 \<le> n"
  proof -
    have "(ucast w :: u32) = word_of_nat s" by (simp add: s_def)
    then have l: "(ucast w :: u32) + word_of_nat SIZEOF_STRUCT_MEM + word_of_nat MIN_SIZE_ALIGNED
        = word_of_nat (s + 20)"
      by (simp add: SIZEOF_STRUCT_MEM_def MIN_SIZE_ALIGNED_def)
    have r: "(ucast (word_of_nat (n - 8) :: u16) :: u32) = word_of_nat (n - 8)"
      using le by (intro ucast_offset) simp
    have "unat (word_of_nat (s + 20) :: u32) = s + 20" "unat (word_of_nat (n - 8) :: u32) = n - 8"
      unfolding unat_of_nat using le sb by (intro mod_less; simp add: MEM_SIZE_ALIGNED_def)+
    then show ?thesis unfolding l r word_le_nat_alt using n by auto
  qed
  moreover have "ram h + p + 8 - SIZEOF_STRUCT_MEM = ram h + p" by (simp add: SIZEOF_STRUCT_MEM_def)
  ultimately show ?thesis
    unfolding mem_trim_def Let_def w_def[symmetric]
    by (simp only: offs_at size at_next[OF blk] free if_False s_def split: if_split) blast
qed

text \<open>The heap after a new header was written behind the smaller block.\<close>

lemma trim_cut:
  assumes ok: "heap_ok h (ds @ (n, True) # es)" and tl: "chain h (extent ds + N) r cs"
    and k: "20 \<le> k" "4 dvd k" "k + 20 \<le> N" "4 dvd N"
    and T: "T = (k, True) # (N - k, False) # cs" and holes: "no_holes (ds @ T)"
  defines "h' \<equiv> new_header (ram h + extent ds) (word_of_nat (extent ds)) (word_of_nat (extent ds + k))
    (word_of_nat (extent ds + N)) (h\<lparr>lfree := ram h + first_free (ds @ T)\<rparr>)"
  shows "heap_ok h' (ds @ T)" "ram h' = ram h"
    "\<And>a. cells h' a \<noteq> cells h a \<Longrightarrow> a \<in> hdrs (ram h) (ds @ T)"
proof -
  let ?g = "h\<lparr>lfree := ram h + first_free (ds @ T)\<rparr>"
  have ch: "seg h 0 0 ds" "chain h (extent ds) (last_at 0 0 ds) ((n, True) # es)" using heap_ok_chain[OF ok] .
  then have pv: "unat (m_prev h (ram h + extent ds)) = last_at 0 0 ds"
    "m_used h (ram h + extent ds) = of_bool True"
    by (simp_all add: is_block_def)
  have "chain ?g (extent ds + N) r cs" using tl by simp
  have r: "ram ?g = ram h" "cells ?g = cells h" by simp_all
  note nh = new_header_chain[OF \<open>chain ?g (extent ds + N) r cs\<close>, unfolded r fields_lfree, OF pv k,
      folded h'_def T]
  show "ram h' = ram h" by (rule nh(2))
  have "chain h' 0 0 (ds @ T)"
    by (rule chain_suffix[OF ch(1) nh(1,2)]) (use nh(4) in blast)
  then show "heap_ok h' (ds @ T)" using ok holes nh(2,3) by (simp add: heap_ok_def)
  show "a \<in> hdrs (ram h) (ds @ T)" if "cells h' a \<noteq> cells h a" for a
    using nh(4)[OF that] by (simp add: hdrs_append)
qed

lemma mem_trim_used:
  assumes ok: "heap_ok h (ds @ (n, True) # es)" and s: "unat (mem_round newsize) + 8 \<le> n"
  obtains h' where "mem_trim (ram h + extent ds + 8) newsize h = (ram h + extent ds + 8, h')"
    "heap_ok h' (ds @ trimmed (unat (mem_round newsize)) n es)" "ram h' = ram h"
    "\<And>a. cells h' a \<noteq> cells h a \<Longrightarrow> a \<in> hdrs (ram h) (ds @ trimmed (unat (mem_round newsize)) n es)"
proof -
  let ?p = "extent ds"
  define w where "w = mem_round newsize"
  define s where "s = unat w"
  define T where "T = trimmed s n es"
  have ch: "chain h ?p (last_at 0 0 ds) ((n, True) # es)" using heap_ok_chain(2)[OF ok] .
  have blk: "is_block h ?p (last_at 0 0 ds) (n, True)" and tl: "chain h (?p + n) ?p es" using ch by simp_all
  have n: "20 \<le> n" "4 dvd n" using blk by (simp_all add: is_block_def)
  have le: "?p + (n + extent es) = MEM_SIZE_ALIGNED" using chain_extent[OF ch] by simp
  have k: "20 \<le> s + 8" "4 dvd s + 8" "s + 8 \<le> n"
    using mem_round_bounds[of newsize] assms(2) by (simp_all add: s_def w_def dvd_add)
  have lfree: "lfree h = ram h + first_free (ds @ (n, True) # es)" and holes: "no_holes (ds @ T)"
    using ok no_holes_trimmed by (auto simp: heap_ok_def T_def)
  have p2: "word_of_nat ?p + word_of_nat SIZEOF_STRUCT_MEM + w = (word_of_nat (?p + (s + 8)) :: u16)"
    by (simp add: SIZEOF_STRUCT_MEM_def s_def)
  have at2: "at h (word_of_nat (?p + (s + 8))) = ram h + (?p + (s + 8))" using le k by (simp del: of_nat_add)
  note br = mem_trim_branch[OF ch assms(2), folded w_def s_def]
  have "\<exists>h'. mem_trim (ram h + ?p + 8) newsize h = (ram h + ?p + 8, h') \<and> heap_ok h' (ds @ T) \<and>
    ram h' = ram h \<and> (\<forall>a. cells h' a \<noteq> cells h a \<longrightarrow> a \<in> hdrs (ram h) (ds @ T))"
  proof (cases "T = (n, True) # es")
    case True
    moreover have "mem_trim (ram h + ?p + 8) newsize h = (ram h + ?p + 8, h)"
      using True k(3) br by (cases "(s, n, es)" rule: trimmed.cases) (auto simp: T_def split: if_splits)
    ultimately show ?thesis using ok by auto
  next
    case False
    then consider m cs where "es = (m, False) # cs" "s + 8 < n" "T = (s + 8, True) # (n + m - (s + 8), False) # cs"
      | "\<nexists>m cs. es = (m, False) # cs" "s + 28 \<le> n" "T = (s + 8, True) # (n - (s + 8), False) # es"
      unfolding T_def by (cases "(s, n, es)" rule: trimmed.cases) (auto split: if_splits)
    then show ?thesis
    proof cases
      case (1 m cs)
      have blk2: "is_block h (?p + n) ?p (m, False)" and tl2: "chain h (?p + (n + m)) (?p + n) cs"
        using tl by (simp_all add: 1 add.assoc)
      have m: "20 \<le> m" "4 dvd m" using blk2 by (simp_all add: is_block_def)
      have lf: "(if lfree h = ram h + (?p + n) then h\<lparr>lfree := ram h + (?p + (s + 8))\<rparr> else h)
          = h\<lparr>lfree := ram h + first_free (ds @ T)\<rparr>"
        using lfree first_free_le[of ds] n by (auto simp: first_free_append 1)
      have "trim_free (ram h + ?p) (word_of_nat ?p) w h = new_header (ram h + ?p) (word_of_nat ?p)
          (word_of_nat (?p + (s + 8))) (word_of_nat (?p + (n + m))) (h\<lparr>lfree := ram h + first_free (ds @ T)\<rparr>)"
        unfolding trim_free_eq Let_def p2 at2 at_next[OF blk] next_word[OF blk2] lf by (simp only: add.assoc)
      moreover have "s + 8 + 20 \<le> n + m" "4 dvd n + m" using 1 n m by simp_all
      ultimately show ?thesis using trim_cut[OF ok tl2 k(1,2) _ _ 1(3) holes] br 1 by auto
    next
      case 2
      have lf: "(if ram h + (?p + (s + 8)) < lfree h then h\<lparr>lfree := ram h + (?p + (s + 8))\<rparr> else h)
          = h\<lparr>lfree := ram h + first_free (ds @ T)\<rparr>"
        using lfree first_free_le[of ds] 2 by (auto simp: first_free_append)
      have ap: "apart (ram h + ?p) (at h (word_of_nat ?p + word_of_nat SIZEOF_STRUCT_MEM + w))"
        unfolding p2 at2 by (simp add: apart_def)
      have "trim_used (ram h + ?p) (word_of_nat ?p) w h = new_header (ram h + ?p) (word_of_nat ?p)
          (word_of_nat (?p + (s + 8))) (word_of_nat (?p + n)) (h\<lparr>lfree := ram h + first_free (ds @ T)\<rparr>)"
        unfolding trim_used_eq[OF ap] Let_def p2 at2 next_word[OF blk] lf ..
      then show ?thesis using trim_cut[OF ok tl k(1,2) _ n(2) 2(3) holes] br 2 by auto
    qed
  qed
  then show ?thesis using that by (auto simp: T_def s_def w_def)
qed

section \<open>Areas\<close>

text \<open>The lengths of the blocks of a heap, which the facts about areas rest on.\<close>

definition sizes_ok :: "block list \<Rightarrow> bool" where
  "sizes_ok bs \<longleftrightarrow> (\<forall>b\<in>set bs. 20 \<le> fst b \<and> 4 dvd fst b)"

lemma heap_ok_sizes: "heap_ok h bs \<Longrightarrow> sizes_ok bs"
  by (auto simp: heap_ok_def sizes_ok_def dest: chain_sizes)

lemma heap_ok_extent: "heap_ok h bs \<Longrightarrow> extent bs = MEM_SIZE_ALIGNED"
  using chain_extent[of h 0 0 bs] by (simp add: heap_ok_def)

lemma sizes_Cons [simp]: "sizes_ok ((n, u) # bs) \<longleftrightarrow> 20 \<le> n \<and> 4 dvd n \<and> sizes_ok bs"
  by (auto simp: sizes_ok_def)

lemma areas_bounds: "(x, l) \<in> areas a bs \<Longrightarrow> sizes_ok bs \<Longrightarrow> a + 8 \<le> x \<and> x + l \<le> a + extent bs \<and> 12 \<le> l"
  by (induction a bs rule: areas.induct) (auto split: if_splits)

lemma areas_aligned: "(x, l) \<in> areas a bs \<Longrightarrow> sizes_ok bs \<Longrightarrow> 4 dvd a \<Longrightarrow> 4 dvd x"
  by (induction a bs rule: areas.induct) (auto split: if_splits simp: dvd_add)

lemma hdrs_bounds: "x \<in> hdrs a bs \<Longrightarrow> a \<le> x \<and> x < a + extent bs + 8"
  by (induction a bs rule: hdrs.induct) auto

lemma areas_no_header:
  "(x, l) \<in> areas a bs \<Longrightarrow> sizes_ok bs \<Longrightarrow> area x l \<inter> hdrs a bs = {}"
proof (induction a bs rule: areas.induct)
  case (2 a n u bs)
  have h: "a + n \<le> y" if "y \<in> hdrs (a + n) bs" for y using hdrs_bounds[OF that] by simp
  show ?case
  proof (cases "(x, l) \<in> areas (a + n) bs")
    case True
    then have "a + n + 8 \<le> x" using areas_bounds 2(3) by force
    then show ?thesis using 2(1)[OF True] 2(3) by auto
  next
    case False
    then show ?thesis using 2(2,3) h by (fastforce split: if_splits)
  qed
qed simp

lemma areas_disjoint:
  "(x, l) \<in> areas a bs \<Longrightarrow> (y, m) \<in> areas a bs \<Longrightarrow> sizes_ok bs \<Longrightarrow>
    (x = y \<longrightarrow> l = m) \<and> (x \<noteq> y \<longrightarrow> area x l \<inter> area y m = {})"
proof (induction a bs rule: areas.induct)
  case (2 a n u bs)
  have b: "a + n + 8 \<le> z" if "(z, k) \<in> areas (a + n) bs" for z k
    using areas_bounds[OF that] 2(4) by simp
  show ?case
    using 2(1)[OF _ _ ] 2(2-4) b by (fastforce split: if_splits)
qed simp

lemma areas_split:
  assumes "(x, l) \<in> areas a bs"
  obtains ds n es where "bs = ds @ (n, True) # es" "x = a + extent ds + 8" "l = n - 8"
  using assms
proof (induction a bs arbitrary: thesis rule: areas.induct)
  case (2 a n u bs)
  show ?case
  proof (cases "(x, l) \<in> areas (a + n) bs")
    case True
    obtain ds m es where "bs = ds @ (m, True) # es" "x = a + n + extent ds + 8" "l = m - 8"
      by (rule 2(1)[OF _ True])
    then show ?thesis using 2(2)[of "(n, u) # ds" m es] by (simp add: add.assoc)
  next
    case False
    then show ?thesis using 2(2)[of "[]" n bs] 2(3) by (simp split: if_splits)
  qed
qed simp

text \<open>How the areas change: the taken block is added, the freed one is removed, the
  trimmed one is made smaller, and the others stay.\<close>

lemma areas_taken:
  "s + 8 \<le> n \<Longrightarrow> areas a (ds @ taken s n @ es) =
    insert (a + extent ds + 8, if s + 28 \<le> n then s else n - 8) (areas a (ds @ (n, False) # es))"
  by (simp add: areas_append taken_def add.assoc)

lemma areas_join_right: "areas a (join_right n es) = areas (a + n) es"
  by (cases "(n, es)" rule: join_right.cases) (auto simp: add.assoc)

lemma areas_join_left:
  "areas a (join_left ds ((n, False) # es)) = areas a (ds @ (n, False) # es)"
  by (cases ds rule: rev_cases) (auto simp: join_left_def areas_append add.assoc)

lemma areas_freed:
  assumes "sizes_ok (ds @ (n, True) # es)"
  shows "areas a (join_left ds (join_right n es)) =
    areas a (ds @ (n, True) # es) - {(a + extent ds + 8, n - 8)}"
proof -
  obtain m cs where j: "join_right n es = (m, False) # cs" by (rule join_right_Cons)
  have "areas a (join_left ds (join_right n es)) = areas a ds \<union> areas (a + extent ds + n) es"
    using areas_join_right[of "a + extent ds" n es]
    by (simp add: j areas_join_left areas_append)
  moreover have "(a + extent ds + 8, n - 8) \<notin> areas a ds \<union> areas (a + extent ds + n) es"
    using areas_bounds[of "a + extent ds + 8" "n - 8" a ds]
      areas_bounds[of "a + extent ds + 8" "n - 8" "a + extent ds + n" es] assms
    by (auto simp: sizes_ok_def)
  ultimately show ?thesis by (auto simp: areas_append)
qed

lemma areas_trimmed:
  assumes "s + 8 \<le> n"
  shows "\<exists>l. s \<le> l \<and> l \<le> n - 8 \<and> areas a (ds @ trimmed s n es) =
    insert (a + extent ds + 8, l) (areas a ds \<union> areas (a + extent ds + n) es)"
proof -
  have "\<exists>l. s \<le> l \<and> l \<le> n - 8 \<and> areas b (trimmed s n es) = insert (b + 8, l) (areas (b + n) es)" for b
  proof (cases "(s, n, es)" rule: trimmed.cases)
    case (1 s' n' m cs)
    then show ?thesis
      using assms by (intro exI[of _ "if s + 8 < n then s else n - 8"]) (auto simp: add.assoc)
  qed (use assms in \<open>auto intro!: exI[of _ "if s + 28 \<le> n then s else n - 8"] simp: add.assoc\<close>)
  then obtain l where "s \<le> l" "l \<le> n - 8"
    "areas (a + extent ds) (trimmed s n es) = insert (a + extent ds + 8, l) (areas (a + extent ds + n) es)"
    by blast
  then show ?thesis by (auto simp: areas_append)
qed

end
