(* ===== verification/LwipHeap.thy ===== *)
theory LwipHeap
  imports HeapAlloc
begin

text \<open>
  The heap of lwIP as its users see it: it satisfies the contract \<open>allocator\<close>, so whatever
  sequence of operations a program makes, the areas keep their data; what \<open>mem_malloc\<close>
  answers; the requests it gets wrong; \<open>mem_calloc\<close>; and the report \<open>Getmeminf\<close>.
\<close>

section \<open>The heap as an allocator\<close>

text \<open>The blocks of a heap, read off the links; the areas in use; a heap in order.\<close>

fun blocks_from :: "nat \<Rightarrow> lwip_heap \<Rightarrow> nat \<Rightarrow> block list" where
  "blocks_from 0 h p = []"
| "blocks_from (Suc k) h p =
     (if p < MEM_SIZE_ALIGNED
      then let q = unat (m_next h (ram h + p))
           in (q - p, m_used h (ram h + p) \<noteq> 0) # blocks_from k h q
      else [])"

definition heap_blocks :: "lwip_heap \<Rightarrow> block list" where
  "heap_blocks h = blocks_from MEM_SIZE_ALIGNED h 0"

definition in_use :: "lwip_heap \<Rightarrow> (nat \<times> nat) set" where
  "in_use h = areas (ram h) (heap_blocks h)"

definition well_formed :: "lwip_heap \<Rightarrow> bool" where
  "well_formed h \<longleftrightarrow> heap_ok h (heap_blocks h)"

definition poke :: "nat \<Rightarrow> u8 \<Rightarrow> lwip_heap \<Rightarrow> lwip_heap" where
  "poke a b h = h\<lparr>cells := (cells h)(a := b)\<rparr>"

lemma blocks_from_chain: "chain h p q bs \<Longrightarrow> length bs \<le> k \<Longrightarrow> blocks_from k h p = bs"
proof (induction k h p arbitrary: q bs rule: blocks_from.induct)
  case (2 k h p)
  show ?case
  proof (cases bs)
    case (Cons b cs)
    obtain n u where b: "b = (n, u)" by (cases b)
    have "p < MEM_SIZE_ALIGNED" using chain_extent[OF 2(2)] 2(2) by (simp add: Cons b is_block_def)
    then show ?thesis using 2 by (auto simp: Cons b is_block_def Let_def)
  qed (use 2 in auto)
qed simp

lemma sizes_length: "sizes_ok bs \<Longrightarrow> length bs \<le> extent bs"
  by (induction bs) (auto simp: extent_def sizes_ok_def)

lemma heap_blocks_ok: "heap_ok h bs \<Longrightarrow> heap_blocks h = bs"
  using sizes_length[of bs] heap_ok_sizes heap_ok_extent
  by (auto simp: heap_blocks_def heap_ok_def intro: blocks_from_chain)

lemma well_formed_iff: "well_formed h \<longleftrightarrow> (\<exists>bs. heap_ok h bs)"
  by (metis heap_blocks_ok well_formed_def)

lemma in_use_ok: "heap_ok h bs \<Longrightarrow> in_use h = areas (ram h) bs"
  by (simp add: in_use_def heap_blocks_ok)

text \<open>The first block that fits, or none.\<close>

lemma first_fit:
  obtains (none) "\<forall>b\<in>set bs. \<not> fits s b"
  | (found) ds n es where "bs = ds @ (n, False) # es" "\<forall>b\<in>set ds. \<not> fits s b" "fits s (n, False)"
proof (cases "\<exists>b\<in>set bs. fits s b")
  case True
  obtain ds b es where "bs = ds @ b # es" "fits s b" "\<forall>c\<in>set ds. \<not> fits s c"
    using split_list_first_prop[OF True] by blast
  then show ?thesis using found by (cases b) (auto simp: fits_def)
qed (use none in blast)

lemma malloc_cases:
  assumes ok: "heap_ok h bs"
  obtains (none) "mem_malloc sz h = Some (0, h)" "sz = 0 \<or> (\<forall>b\<in>set bs. \<not> fits (unat (mem_round sz)) b)"
  | (found) ds n es h' where "sz \<noteq> 0" "bs = ds @ (n, False) # es"
    "\<forall>b\<in>set ds. \<not> fits (unat (mem_round sz)) b" "fits (unat (mem_round sz)) (n, False)"
    "mem_malloc sz h = Some (ram h + extent ds + 8, h')"
    "heap_ok h' (ds @ taken (unat (mem_round sz)) n @ es)" "ram h' = ram h"
    "\<And>a. cells h' a \<noteq> cells h a \<Longrightarrow> a \<in> hdrs (ram h) (ds @ taken (unat (mem_round sz)) n @ es)"
    "\<And>a. ram_end h \<le> a \<Longrightarrow> cells h' a = cells h a"
proof (cases rule: first_fit[of bs "unat (mem_round sz)"])
  case none
  then show ?thesis using mem_malloc_none[OF ok none] that(1) by blast
next
  case (found ds n es)
  show ?thesis
  proof (cases "sz = 0")
    case True
    then show ?thesis using that(1) mem_malloc_nothing by blast
  next
    case False
    obtain h' where "mem_malloc sz h = Some (ram h + extent ds + 8, h')"
      "heap_ok h' (ds @ taken (unat (mem_round sz)) n @ es)" "ram h' = ram h"
      "\<And>a. cells h' a \<noteq> cells h a \<Longrightarrow> a \<in> hdrs (ram h) (ds @ taken (unat (mem_round sz)) n @ es)"
      "\<And>a. ram_end h \<le> a \<Longrightarrow> cells h' a = cells h a"
      using mem_malloc_found[OF ok[unfolded found(1)] False found(2,3)] by blast
    then show ?thesis using that(2)[OF False found] by blast
  qed
qed

lemma heap_ok_poke:
  assumes "heap_ok h bs" "a \<notin> hdrs (ram h) bs"
  shows "heap_ok (poke a b h) bs"
proof -
  have "chain (poke a b h) p q bs" if "chain h p q bs" "a \<notin> hdrs (ram h + p) bs" for p q
    using that
  proof (induction bs arbitrary: p q)
    case Nil
    then have "m_next (poke a b h) (ram h + p) = m_next h (ram h + p)"
      "m_used (poke a b h) (ram h + p) = m_used h (ram h + p)"
      by (intro fields_cong; auto simp: poke_def)+
    then show ?case using Nil(1) by (auto simp: poke_def)
  next
    case (Cons c cs)
    obtain n u where c: "c = (n, u)" by (cases c)
    have "is_block (poke a b h) p q c"
      by (rule is_block_cong[of h]) (use Cons.prems in \<open>auto simp: c poke_def\<close>)
    then show ?case using Cons by (simp add: c add.assoc)
  qed
  from this[of 0 0] show ?thesis using assms by (simp add: heap_ok_def poke_def)
qed

text \<open>A request for at most as many bytes as an area holds is also rounded to at most that.\<close>

lemma round_le: "(i :: nat) \<le> 4 * k \<Longrightarrow> (i + 3) div 4 * 4 \<le> 4 * k"
  by presburger

lemma mem_round_le:
  assumes "unat n \<le> l" "4 dvd l" "12 \<le> l" "l \<le> MEM_SIZE_ALIGNED"
  shows "unat (mem_round n) \<le> l"
proof -
  obtain k where "l = 4 * k" using assms(2) by blast
  then have "(unat n + 3) div 4 * 4 \<le> l" using assms(1) round_le by simp
  then show ?thesis using assms by (simp add: unat_mem_round)
qed

lemma area_multiple: "(x, l) \<in> areas a bs \<Longrightarrow> sizes_ok bs \<Longrightarrow> 4 dvd l \<and> 12 \<le> l \<and> l \<le> extent bs"
proof -
  assume x: "(x, l) \<in> areas a bs" and s: "sizes_ok bs"
  obtain ds n es where b: "bs = ds @ (n, True) # es" "l = n - 8" by (rule areas_split[OF x])
  then have "20 \<le> n" "4 dvd n" using s by (auto simp: sizes_ok_def)
  then show ?thesis using b by (auto intro: dvd_diff_nat)
qed

text \<open>What a request is good for: all of it, unless rounding it up wraps; then it is the
  smallest area.\<close>

definition heap_room :: "mem_size_t \<Rightarrow> lwip_heap \<Rightarrow> nat" where
  "heap_room n h = (if unat n \<le> 65532 then unat n else 12)"

lemma mem_alloc_area:
  assumes ok: "heap_ok h bs" and m: "mem_malloc n h = Some (p, h')" and p: "p \<noteq> 0"
  shows "well_formed h' \<and> p \<notin> fst ` areas (ram h) bs \<and>
    (\<exists>l. heap_room n h \<le> l \<and> in_use h' = insert (p, l) (areas (ram h) bs))"
    "\<And>x l a. (x, l) \<in> areas (ram h) bs \<Longrightarrow> a \<in> area x l \<Longrightarrow> cells h' a = cells h a"
proof -
  define s where "s = unat (mem_round n)"
  from malloc_cases[OF ok, of n] obtain ds k es where f: "n \<noteq> 0" "bs = ds @ (k, False) # es"
    "fits s (k, False)" "p = ram h + extent ds + 8" "heap_ok h' (ds @ taken s k @ es)" "ram h' = ram h"
    "\<And>a. cells h' a \<noteq> cells h a \<Longrightarrow> a \<in> hdrs (ram h) (ds @ taken s k @ es)"
    by cases (use m p in \<open>auto simp: s_def\<close>)
  have sk: "s + 8 \<le> k" using f(3) by (simp add: fits_def SIZEOF_STRUCT_MEM_def)
  define l where "l = (if s + 28 \<le> k then s else k - 8)"
  have use': "in_use h' = insert (p, l) (areas (ram h) bs)"
    using areas_taken[OF sk, of "ram h" ds es] by (simp add: in_use_ok[OF f(5)] f(2,4,6) l_def)
  have sz: "sizes_ok bs" "sizes_ok (ds @ taken s k @ es)" using heap_ok_sizes[OF ok] heap_ok_sizes[OF f(5)] .
  have pn: "p \<notin> fst ` areas (ram h) bs"
  proof
    assume "p \<in> fst ` areas (ram h) bs"
    then obtain m where "(p, m) \<in> areas (ram h) bs" by force
    then have "(p, m) \<in> areas (ram h) ds \<or> (p, m) \<in> areas (ram h + extent ds + k) es"
      by (simp add: f(2) areas_append add.assoc)
    then show False
      using areas_bounds[of p m "ram h" ds] areas_bounds[of p m "ram h + extent ds + k" es] sz(1) sk
      by (auto simp: f(2,4) sizes_ok_def)
  qed
  have "unat n \<le> l" if "unat n \<le> 65532"
    using mem_round_enough[OF that, folded s_def] sk by (auto simp: l_def)
  moreover have "12 \<le> s" by (simp add: s_def unat_mem_round)
  then have "12 \<le> l" using sk by (auto simp: l_def)
  ultimately have "heap_room n h \<le> l" by (simp add: heap_room_def)
  then show "well_formed h' \<and> p \<notin> fst ` areas (ram h) bs \<and>
      (\<exists>l. heap_room n h \<le> l \<and> in_use h' = insert (p, l) (areas (ram h) bs))"
    using use' pn f(5) by (auto simp: well_formed_iff)
  show "cells h' a = cells h a" if x: "(x, l) \<in> areas (ram h) bs" "a \<in> area x l" for x l a
  proof -
    have "(x, l) \<in> areas (ram h) (ds @ taken s k @ es)"
      using x(1) areas_taken[OF sk, of "ram h" ds es] by (simp add: f(2))
    then have "a \<notin> hdrs (ram h) (ds @ taken s k @ es)" using areas_no_header sz(2) x(2) by blast
    then show ?thesis using f(7) by blast
  qed
qed

lemma mem_free_area:
  assumes ok: "heap_ok h bs" and x: "(p, l) \<in> areas (ram h) bs"
  shows "well_formed (mem_free p h) \<and> in_use (mem_free p h) = areas (ram h) bs - {(p, l)}"
    "\<And>y m a. (y, m) \<in> areas (ram h) bs \<Longrightarrow> a \<in> area y m \<Longrightarrow> cells (mem_free p h) a = cells h a"
proof -
  obtain ds n es where b: "bs = ds @ (n, True) # es" "p = ram h + extent ds + 8" "l = n - 8"
    by (rule areas_split[OF x])
  note f = mem_free_used[OF ok[unfolded b(1)], folded b(2)]
  show "well_formed (mem_free p h) \<and> in_use (mem_free p h) = areas (ram h) bs - {(p, l)}"
    using f areas_freed[of ds n es "ram h"] heap_ok_sizes[OF ok]
    by (auto simp: well_formed_iff in_use_ok b)
  show "cells (mem_free p h) a = cells h a" if "(y, m) \<in> areas (ram h) bs" "a \<in> area y m" for y m a
    using areas_no_header[OF that(1) heap_ok_sizes[OF ok]] that(2) f(3)[of a] by (auto simp: b(1))
qed

lemma mem_trim_area:
  assumes ok: "heap_ok h bs" and x: "(p, l) \<in> areas (ram h) bs" and n: "unat n \<le> l"
  shows "\<exists>h' k. mem_trim p n h = (p, h') \<and> well_formed h' \<and> unat n \<le> k \<and> k \<le> l \<and>
      in_use h' = insert (p, k) (areas (ram h) bs - {(p, l)})"
    "\<And>q h' y m a. mem_trim p n h = (q, h') \<Longrightarrow> (y, m) \<in> in_use h' \<Longrightarrow> a \<in> area y m \<Longrightarrow>
      cells h' a = cells h a"
proof -
  obtain ds k es where b: "bs = ds @ (k, True) # es" "p = ram h + extent ds + 8" "l = k - 8"
    by (rule areas_split[OF x])
  have sz: "sizes_ok bs" using heap_ok_sizes[OF ok] .
  note am = area_multiple[OF x sz, unfolded heap_ok_extent[OF ok]]
  have r: "unat (mem_round n) \<le> l" by (rule mem_round_le[OF n]) (use am in auto)
  then have r8: "unat (mem_round n) + 8 \<le> k" using sz by (simp add: b(3)) (auto simp: b(1) sizes_ok_def)
  obtain h' where h': "mem_trim p n h = (p, h')" "heap_ok h' (ds @ trimmed (unat (mem_round n)) k es)"
    "ram h' = ram h" "\<And>a. cells h' a \<noteq> cells h a \<Longrightarrow> a \<in> hdrs (ram h) (ds @ trimmed (unat (mem_round n)) k es)"
    using mem_trim_used[OF ok[unfolded b(1)] r8, folded b(2)] by blast
  obtain j where j: "unat (mem_round n) \<le> j" "j \<le> l" "areas (ram h) (ds @ trimmed (unat (mem_round n)) k es) =
      insert (p, j) (areas (ram h) ds \<union> areas (ram h + extent ds + k) es)"
    using areas_trimmed[OF r8, of "ram h" ds es, folded b(2,3)] by blast
  have "(p, l) \<notin> areas (ram h) ds \<union> areas (ram h + extent ds + k) es"
    using areas_bounds[of p l "ram h" ds] areas_bounds[of p l "ram h + extent ds + k" es] sz
    by (auto simp: b sizes_ok_def)
  then have "areas (ram h) bs - {(p, l)} = areas (ram h) ds \<union> areas (ram h + extent ds + k) es"
    by (auto simp: b areas_append)
  then have u: "in_use h' = insert (p, j) (areas (ram h) bs - {(p, l)})"
    using j(3) by (simp add: in_use_ok[OF h'(2)] h'(3))
  have "unat n \<le> unat (mem_round n)"
    using mem_round_enough[of n] n am by (simp add: MEM_SIZE_ALIGNED_def)
  then show "\<exists>h' k. mem_trim p n h = (p, h') \<and> well_formed h' \<and> unat n \<le> k \<and> k \<le> l \<and>
      in_use h' = insert (p, k) (areas (ram h) bs - {(p, l)})"
    using h'(1,2) u j(1,2) by (auto simp: well_formed_iff intro!: exI[of _ j])
  show "cells g a = cells h a" if "mem_trim p n h = (q, g)" "(y, m) \<in> in_use g" "a \<in> area y m" for q g y m a
  proof -
    have "g = h'" using that(1) h'(1) by simp
    then have "a \<notin> hdrs (ram h) (ds @ trimmed (unat (mem_round n)) k es)"
      using areas_no_header[of y m "ram h" "ds @ trimmed (unat (mem_round n)) k es"] that(2,3)
        heap_ok_sizes[OF h'(2)] by (auto simp: in_use_ok[OF h'(2)] h'(3))
    then show ?thesis using h'(4) \<open>g = h'\<close> by blast
  qed
qed

interpretation lwip: allocator mem_malloc mem_free poke cells in_use well_formed heap_room mem_trim
proof unfold_locales
  fix s x l y m assume "well_formed s" "(x, l) \<in> in_use s" "(y, m) \<in> in_use s"
  then show "(x = y \<longrightarrow> l = m) \<and> (x \<noteq> y \<longrightarrow> area x l \<inter> area y m = {})"
    using areas_disjoint heap_ok_sizes unfolding well_formed_def in_use_def by blast
next
  fix s n assume "well_formed s"
  then show "\<exists>p s'. mem_malloc n s = Some (p, s')"
    unfolding well_formed_def by (cases rule: malloc_cases[of s "heap_blocks s" n]) auto
next
  fix s n s' assume w: "well_formed s" and m: "mem_malloc n s = Some (0, s')"
  show "s' = s"
    using w unfolding well_formed_def
    by (cases rule: malloc_cases[of s "heap_blocks s" n]) (use m in \<open>auto simp: heap_ok_def\<close>)
next
  fix s n p s' assume "well_formed s" "mem_malloc n s = Some (p, s')" "p \<noteq> 0"
  then show "well_formed s' \<and> p \<notin> fst ` in_use s \<and>
      (\<exists>l. heap_room n s \<le> l \<and> in_use s' = insert (p, l) (in_use s))"
    using mem_alloc_area(1)[of s "heap_blocks s" n p s'] unfolding well_formed_def[of s] in_use_def[of s]
    by auto
next
  fix s n p s' x l a
  assume w: "well_formed s" and m: "mem_malloc n s = Some (p, s')" and x: "(x, l) \<in> in_use s" "a \<in> area x l"
  show "cells s' a = cells s a"
  proof (cases "p = 0")
    case True
    have "s' = s"
      using w unfolding well_formed_def
      by (cases rule: malloc_cases[of s "heap_blocks s" n]) (use m True in \<open>auto simp: heap_ok_def\<close>)
    then show ?thesis by simp
  next
    case False
    then show ?thesis using mem_alloc_area(2)[of s "heap_blocks s" n p s' x l a] w m x
      unfolding well_formed_def in_use_def by blast
  qed
next
  fix s p l assume "well_formed s" "(p, l) \<in> in_use s"
  then show "well_formed (mem_free p s) \<and> in_use (mem_free p s) = in_use s - {(p, l)}"
    unfolding well_formed_def[of s] in_use_def[of s] by (rule mem_free_area)
next
  fix s p l x m a assume "well_formed s" "(p, l) \<in> in_use s" "(x, m) \<in> in_use s" "x \<noteq> p" "a \<in> area x m"
  then show "cells (mem_free p s) a = cells s a"
    using mem_free_area(2) unfolding well_formed_def in_use_def by blast
next
  fix s p l and n :: u16 assume "well_formed s" "(p, l) \<in> in_use s" "unat n \<le> l"
  then show "\<exists>s' k. mem_trim p n s = (p, s') \<and> well_formed s' \<and> unat n \<le> k \<and> k \<le> l \<and>
      in_use s' = insert (p, k) (in_use s - {(p, l)})"
    unfolding well_formed_def[of s] in_use_def[of s] by (rule mem_trim_area)
next
  fix s p l and n :: u16 and q s' x m a
  assume "well_formed s" "(p, l) \<in> in_use s" "unat n \<le> l" "mem_trim p n s = (q, s')"
    "(x, m) \<in> in_use s'" "a \<in> area x m"
  then show "cells s' a = cells s a"
    unfolding well_formed_def[of s] in_use_def[of s] by (rule mem_trim_area)
next
  fix s p l i b assume w: "well_formed s" and p: "(p, l) \<in> in_use s" and i: "i < l"
  have ok: "heap_ok s (heap_blocks s)" using w by (simp add: well_formed_def)
  have "p + i \<notin> hdrs (ram s) (heap_blocks s)"
  proof -
    have "p + i \<in> area p l" using i by simp
    then show ?thesis using areas_no_header[OF p[unfolded in_use_def] heap_ok_sizes[OF ok]] by blast
  qed
  note ok' = heap_ok_poke[OF ok this, of b]
  have "in_use (poke (p + i) b s) = in_use s" using in_use_ok[OF ok'] by (simp add: in_use_def poke_def)
  moreover have "well_formed (poke (p + i) b s)" using ok' well_formed_iff by blast
  ultimately show "well_formed (poke (p + i) b s) \<and> in_use (poke (p + i) b s) = in_use s \<and>
      cells (poke (p + i) b s) = (cells s)(p + i := b)"
    by (simp add: poke_def)
qed

text \<open>A run of a program over the heap, with what it stored: requests, of which it uses what
  they are good for, frees and trims of what it was given, writes inside it.\<close>

inductive heap_run :: "lwip_heap \<Rightarrow> (nat \<rightharpoonup> bytes) \<Rightarrow> bool" where
  init: "8 \<le> ram h \<Longrightarrow> 4 dvd ram h \<Longrightarrow> heap_run (mem_init h) Map.empty"
| malloc: "heap_run h m \<Longrightarrow> mem_malloc n h = Some (p, h') \<Longrightarrow> p \<noteq> 0 \<Longrightarrow>
    heap_run h' (m(p \<mapsto> map (cells h') [p ..< p + heap_room n h]))"
| refused: "heap_run h m \<Longrightarrow> mem_malloc n h = Some (0, h') \<Longrightarrow> heap_run h' m"
| free: "heap_run h m \<Longrightarrow> m p = Some d \<Longrightarrow> heap_run (mem_free p h) (m(p := None))"
| trim: "heap_run h m \<Longrightarrow> m p = Some d \<Longrightarrow> unat n \<le> length d \<Longrightarrow> mem_trim p n h = (q, h') \<Longrightarrow>
    heap_run h' (m(p \<mapsto> take (unat n) d))"
| store: "heap_run h m \<Longrightarrow> m p = Some d \<Longrightarrow> i < length d \<Longrightarrow>
    heap_run (poke (p + i) b h) (m(p \<mapsto> d[i := b]))"

lemma heap_run_holds: "heap_run h m \<Longrightarrow> lwip.holds h m"
proof (induction rule: heap_run.induct)
  case (init h)
  have ok: "heap_ok (mem_init h) [(MEM_SIZE_ALIGNED, False)]" using mem_init_ok init by blast
  then have "well_formed (mem_init h)" using well_formed_iff by blast
  moreover have "in_use (mem_init h) = {}" using in_use_ok[OF ok] by simp
  ultimately show ?case by (simp add: lwip.holds_def)
next
  case (malloc h m n p h')
  then show ?case using lwip.holds_alloc[of h m n p h' "heap_room n h"] by blast
next
  case (refused h m n h')
  then show ?case using lwip.alloc_none[of h n h'] by (auto simp: lwip.holds_def)
next
  case (free h m p d)
  then show ?case using lwip.holds_free by blast
next
  case (trim h m p d n q h')
  then show ?case using lwip.holds_trim by blast
next
  case (store h m p d i b)
  then show ?case using lwip.holds_put by blast
qed

lemma holds_place:
  assumes "lwip.holds h m" "m p = Some d"
  shows "map (cells h) [p ..< p + length d] = d" "4 dvd p" "ram h + 8 \<le> p" "p + length d \<le> ram_end h"
proof -
  obtain l where l: "(p, l) \<in> in_use h" "length d \<le> l" "map (cells h) [p ..< p + length d] = d"
    by (rule lwip.holdsD[OF assms])
  have ok: "heap_ok h (heap_blocks h)" using assms(1) by (simp add: lwip.holds_def well_formed_def)
  note sz = heap_ok_sizes[OF ok] and x = l(1)[unfolded in_use_def]
  show "map (cells h) [p ..< p + length d] = d" by (rule l(3))
  show "4 dvd p" by (rule areas_aligned[OF x sz]) (use ok in \<open>simp add: heap_ok_def\<close>)
  show "ram h + 8 \<le> p" "p + length d \<le> ram_end h"
    using areas_bounds[OF x sz] l(2) heap_ok_extent[OF ok] by (simp_all add: ram_end_def)
qed

section \<open>What the users of the heap get\<close>

text \<open>
  A heap of lwIP that was initialised and then used by any sequence of allocations,
  frees, trims and writes keeps the data of its owners: what an owner last wrote is in
  the memory at its address, aligned and inside the heap, and two areas never overlap.
\<close>

theorem heap_keeps_data:
  assumes "heap_run h m" "m p = Some d"
  shows "map (cells h) [p ..< p + length d] = d \<and> 4 dvd p \<and> ram h + 8 \<le> p \<and> p + length d \<le> ram_end h \<and>
    (\<forall>q e. m q = Some e \<longrightarrow> q \<noteq> p \<longrightarrow> {p ..< p + length d} \<inter> {q ..< q + length e} = {})"
  using holds_place[OF heap_run_holds[OF assms(1)] assms(2)]
    lwip.holds_disjoint[OF heap_run_holds[OF assms(1)] assms(2)] by blast

text \<open>The heap of the witnesses.\<close>

definition heap0 :: lwip_heap where
  "heap0 = \<lparr>ram = 8, cells = (\<lambda>_. 0), lfree = 0\<rparr>"

lemma heap0_ok: "heap_ok (mem_init heap0) [(6144, False)]" "ram (mem_init heap0) = 8"
  using mem_init_ok[of heap0] by (simp_all add: heap0_def MEM_SIZE_ALIGNED_def)

lemma mem_malloc_fresh:
  assumes "8 \<le> ram h" "4 dvd ram h" "n \<noteq> 0" "unat (mem_round n) \<le> 6136"
  obtains h' where "mem_malloc n (mem_init h) = Some (ram h + 8, h')" "ram h' = ram h"
    "heap_ok h' (taken (unat (mem_round n)) 6144)"
proof -
  note i = mem_init_ok[OF assms(1,2), unfolded MEM_SIZE_ALIGNED_def]
  have "fits (unat (mem_round n)) (6144, False)" using assms(4) by (simp add: fits_def SIZEOF_STRUCT_MEM_def)
  then obtain h' where "mem_malloc n (mem_init h) = Some (ram (mem_init h) + extent [] + 8, h')"
    "heap_ok h' ([] @ taken (unat (mem_round n)) 6144 @ [])" "ram h' = ram (mem_init h)"
    using mem_malloc_found[of "mem_init h" "[]" 6144 "[]" n] i(1) assms(3) by (metis append_Nil empty_iff list.set(1))
  then show ?thesis using that i(2) by simp
qed

lemma heap0_malloc:
  assumes "n \<noteq> 0" "unat (mem_round n) \<le> 6136"
  obtains h' where "mem_malloc n (mem_init heap0) = Some (16, h')" "ram h' = 8"
    "heap_ok h' (taken (unat (mem_round n)) 6144)"
  using mem_malloc_fresh[of heap0 n] assms that by (auto simp: heap0_def)

lemma heap0_run: "heap_run (mem_init heap0) Map.empty"
  by (rule heap_run.init) (simp_all add: heap0_def)

theorem heap_keeps_data_witness:
  "\<exists>h m. heap_run h m \<and> length (the (m 16)) = 16 \<and> cells h 16 = 7"
proof -
  have r: "unat (mem_round 16) = 16" by (simp add: unat_mem_round)
  obtain h1 where h1: "mem_malloc 16 (mem_init heap0) = Some (16, h1)"
    by (rule heap0_malloc[of 16]) (simp_all add: r)
  let ?d = "map (cells h1) [16 ..< 16 + unat (16 :: u16)]"
  have "heap_run h1 (Map.empty(16 \<mapsto> ?d))"
    using heap_run.malloc[OF heap0_run h1] by (simp add: heap_room_def)
  then have run: "heap_run (poke (16 + 0) 7 h1) (Map.empty(16 \<mapsto> ?d, 16 \<mapsto> ?d[0 := 7]))"
    by (rule heap_run.store) simp_all
  have "map (cells (poke (16 + 0) 7 h1)) [16 ..< 16 + length (?d[0 := 7])] = ?d[0 := 7]"
    using heap_keeps_data[OF run, of 16 "?d[0 := 7]"] by simp
  then have "cells (poke (16 + 0) 7 h1) 16 = 7" by (simp add: upt_rec[of 16])
  then show ?thesis using run by (intro exI conjI) auto
qed

text \<open>
  C27: An allocation from such a heap always returns; it succeeds exactly when the
  request is not empty and some free block holds the rounded size with its header, and
  it then gets the first such block.
\<close>

theorem mem_malloc_first_fit:
  assumes "heap_run h m"
  shows "\<exists>p h'. mem_malloc n h = Some (p, h') \<and>
    (p \<noteq> 0 \<longleftrightarrow> n \<noteq> 0 \<and> (\<exists>b\<in>set (heap_blocks h). fits (unat (mem_round n)) b)) \<and>
    (p \<noteq> 0 \<longrightarrow> (\<exists>ds b es. heap_blocks h = ds @ b # es \<and> p = ram h + extent ds + 8 \<and>
       fits (unat (mem_round n)) b \<and> (\<forall>c\<in>set ds. \<not> fits (unat (mem_round n)) c)))"
proof -
  have "heap_ok h (heap_blocks h)"
    using heap_run_holds[OF assms] by (simp add: lwip.holds_def well_formed_def)
  then show ?thesis
  proof (cases rule: malloc_cases[of h "heap_blocks h" n])
    case (found ds k es h')
    then show ?thesis
      by (intro exI[of _ "ram h + extent ds + 8"] exI[of _ h']) (auto intro!: exI[of _ ds])
  qed auto
qed

theorem mem_malloc_first_fit_witness:
  "\<exists>h'. mem_malloc 100 (mem_init heap0) = Some (16, h')"
proof -
  have b: "heap_blocks (mem_init heap0) = [(6144, False)]" by (rule heap_blocks_ok[OF heap0_ok(1)])
  have f: "fits (unat (mem_round 100)) (6144, False)"
    by (simp add: unat_mem_round fits_def SIZEOF_STRUCT_MEM_def)
  obtain p h' where p: "mem_malloc 100 (mem_init heap0) = Some (p, h')"
    "p \<noteq> 0 \<longleftrightarrow> (100 :: u16) \<noteq> 0 \<and> (\<exists>b\<in>set [(6144, False)]. fits (unat (mem_round 100)) b)"
    "p \<noteq> 0 \<longrightarrow> (\<exists>ds b es. [(6144, False)] = ds @ b # es \<and> p = ram (mem_init heap0) + extent ds + 8 \<and>
       fits (unat (mem_round 100)) b \<and> (\<forall>c\<in>set ds. \<not> fits (unat (mem_round 100)) c))"
    using mem_malloc_first_fit[OF heap0_run, of 100] unfolding b by (elim exE conjE) (rule that)
  have "p \<noteq> 0" using p(2) f by simp
  then obtain ds c es where "[(6144, False)] = ds @ c # es" "p = 8 + extent ds + 8"
    using p(3) heap0_ok(2) by metis
  then show ?thesis using p(1) by (auto simp: Cons_eq_append_conv)
qed

lemma all_free_one:
  assumes "no_holes bs" "\<forall>b\<in>set bs. \<not> snd b" "bs \<noteq> []"
  shows "\<exists>n. bs = [(n, False)]"
proof (cases bs)
  case (Cons b cs)
  have "cs = []" using assms by (cases cs) (auto simp: Cons no_holes_def)
  then show ?thesis using assms(2) Cons by (cases b) auto
qed (use assms in simp)

lemma areas_empty: "areas a bs = {} \<Longrightarrow> \<forall>b\<in>set bs. \<not> snd b"
  by (induction a bs rule: areas.induct) (auto split: if_splits)

text \<open>
  C28: The heap does not stay fragmented: once every area was given back it is the one
  free block it was after mem_init, and any request it can hold is served at its start.
\<close>

theorem freed_heap_is_whole:
  assumes "heap_run h Map.empty"
  shows "heap_blocks h = [(MEM_SIZE_ALIGNED, False)] \<and>
    (\<forall>n. n \<noteq> 0 \<longrightarrow> unat n \<le> 6136 \<longrightarrow> (\<exists>h'. mem_malloc n h = Some (ram h + 8, h')))"
proof -
  have ok: "heap_ok h (heap_blocks h)" and "in_use h = {}"
    using heap_run_holds[OF assms] by (simp_all add: lwip.holds_def well_formed_def)
  then have free: "\<forall>b\<in>set (heap_blocks h). \<not> snd b" using areas_empty by (simp add: in_use_def)
  have ext: "extent (heap_blocks h) = MEM_SIZE_ALIGNED" using heap_ok_extent[OF ok] .
  then have "heap_blocks h \<noteq> []" by (auto simp: MEM_SIZE_ALIGNED_def)
  then obtain k where k: "heap_blocks h = [(k, False)]"
    using all_free_one free ok unfolding heap_ok_def by metis
  then have b: "heap_blocks h = [(MEM_SIZE_ALIGNED, False)]" using ext by simp
  have "\<exists>h'. mem_malloc n h = Some (ram h + 8, h')" if n: "n \<noteq> 0" "unat n \<le> 6136" for n
  proof -
    have "unat (mem_round n) \<le> 6136" by (rule mem_round_le[OF n(2)]) (simp_all add: MEM_SIZE_ALIGNED_def)
    then have "fits (unat (mem_round n)) (MEM_SIZE_ALIGNED, False)"
      by (simp add: fits_def SIZEOF_STRUCT_MEM_def MEM_SIZE_ALIGNED_def)
    from mem_malloc_found[of h "[]" MEM_SIZE_ALIGNED "[]" n, OF _ n(1) _ this] ok b show ?thesis
      by (metis add_0_right append_Nil empty_iff extent_simps(1) list.set(1))
  qed
  then show ?thesis using b by blast
qed

theorem freed_heap_is_whole_witness:
  "\<exists>h h1 h'. mem_malloc 16 h1 = Some (16, h) \<and> mem_malloc 6136 (mem_free 16 h) = Some (16, h')"
proof -
  have r: "unat (mem_round 16) = 16" by (simp add: unat_mem_round)
  obtain h where h: "mem_malloc 16 (mem_init heap0) = Some (16, h)" "ram h = 8" "heap_ok h (taken 16 6144)"
    by (rule heap0_malloc[of 16]) (simp_all add: r)
  have "heap_run h (Map.empty(16 \<mapsto> map (cells h) [16 ..< 16 + unat (16 :: u16)]))"
    using heap_run.malloc[OF heap0_run h(1)] by (simp add: heap_room_def)
  from heap_run.free[OF this, of 16] have run: "heap_run (mem_free 16 h) Map.empty" by simp
  have "ram (mem_free 16 h) = 8"
    using mem_free_used(2)[of h "[]" 24 "[(6120, False)]"] h(2,3) by (simp add: taken_def)
  then show ?thesis using freed_heap_is_whole[OF run] h(1) by fastforce
qed

lemma mem_round_wrapped: "65532 < unat n \<Longrightarrow> mem_round n = mem_round 12"
  by (simp add: word_unat_eq_iff unat_mem_round)

lemma mem_malloc_wrapped:
  assumes "65532 < unat n"
  shows "mem_malloc n h = mem_malloc 12 h"
proof -
  have "n \<noteq> 0" using assms by auto
  then show ?thesis by (simp add: mem_malloc_def mem_round_wrapped[OF assms])
qed

text \<open>
  C29: A request of 65533 to 65535 bytes does not fail for its size: rounding it up
  wraps to 0, and on every heap that a run reaches it does exactly what the request for
  12 bytes does. It succeeds when some free block holds 12 bytes with the header, and
  gets an area of 12 to 31 bytes.
\<close>

theorem mem_malloc_wraps:
  assumes "heap_run h m" "65532 < unat n"
  shows "\<exists>p h'. mem_malloc n h = Some (p, h') \<and> mem_malloc 12 h = Some (p, h') \<and>
    (p \<noteq> 0 \<longleftrightarrow> (\<exists>b\<in>set (heap_blocks h). fits 12 b)) \<and>
    (p \<noteq> 0 \<longrightarrow> (\<exists>l. in_use h' = insert (p, l) (in_use h) \<and> 12 \<le> l \<and> l < 32))"
proof -
  have ok: "heap_ok h (heap_blocks h)"
    using heap_run_holds[OF assms(1)] by (simp add: lwip.holds_def well_formed_def)
  note w = mem_malloc_wrapped[OF assms(2)]
  have r: "unat (mem_round 12) = 12" by (simp add: unat_mem_round)
  show ?thesis unfolding w
  proof (cases rule: malloc_cases[OF ok, of 12, unfolded r, case_names none found])
    case none
    then show "\<exists>p h'. mem_malloc 12 h = Some (p, h') \<and> mem_malloc 12 h = Some (p, h') \<and>
      (p \<noteq> 0 \<longleftrightarrow> (\<exists>b\<in>set (heap_blocks h). fits 12 b)) \<and>
      (p \<noteq> 0 \<longrightarrow> (\<exists>l. in_use h' = insert (p, l) (in_use h) \<and> 12 \<le> l \<and> l < 32))" by auto
  next
    case (found ds k es h')
    define l where "l = (if 12 + 28 \<le> k then 12 else k - 8)"
    have k: "12 + 8 \<le> k" using found(4) by (simp add: fits_def SIZEOF_STRUCT_MEM_def)
    have l: "12 \<le> l" "l < 32" using k by (auto simp: l_def)
    have "in_use h' = insert (ram h + extent ds + 8, l) (in_use h)"
      using areas_taken[OF k, of "ram h" ds es] in_use_ok[OF ok]
      by (simp add: in_use_ok[OF found(6)] found(2,7) l_def)
    moreover have "\<exists>b\<in>set (heap_blocks h). fits 12 b" using found(2,4) by auto
    ultimately show "\<exists>p h'. mem_malloc 12 h = Some (p, h') \<and> mem_malloc 12 h = Some (p, h') \<and>
      (p \<noteq> 0 \<longleftrightarrow> (\<exists>b\<in>set (heap_blocks h). fits 12 b)) \<and>
      (p \<noteq> 0 \<longrightarrow> (\<exists>l. in_use h' = insert (p, l) (in_use h) \<and> 12 \<le> l \<and> l < 32))"
      using found(5) l by auto
  qed
qed

theorem mem_malloc_wraps_witness:
  "\<exists>h1 l. mem_malloc 65535 (mem_init heap0) = Some (16, h1) \<and> in_use h1 = {(16, l)} \<and> l < 32"
proof -
  have "unat (mem_round 65535) = 12" by (simp add: unat_mem_round)
  then obtain h1 where h1: "mem_malloc 65535 (mem_init heap0) = Some (16, h1)"
    by (rule_tac heap0_malloc[of 65535]) simp_all
  have "in_use (mem_init heap0) = {}" using in_use_ok[OF heap0_ok(1)] by simp
  then show ?thesis using mem_malloc_wraps[OF heap0_run, of 65535] h1 by auto
qed

text \<open>\<open>mem_calloc\<close> clears the area it returns, and nothing else, as long as the product fits the
  16 bits of \<open>mem_size_t\<close>.\<close>

lemma mem_calloc_clears:
  assumes "heap_ok h bs" "unat count * unat sz \<le> 65532" "mem_calloc count sz h = Some (p, h')" "p \<noteq> 0"
  shows "\<forall>a. p \<le> a \<and> a < p + unat count * unat sz \<longrightarrow> cells h' a = 0"
    "\<forall>x l a. (x, l) \<in> in_use h \<longrightarrow> a \<in> area x l \<longrightarrow> cells h' a = cells h a"
proof -
  obtain g where g: "mem_malloc (count * sz) h = Some (p, g)"
    "h' = g\<lparr>cells := (\<lambda>a. if p \<le> a \<and> a < p + unat count * unat sz then 0 else cells g a)\<rparr>"
    using assms(3,4) by (auto simp: mem_calloc_def bind_eq_Some_conv)
  show "\<forall>a. p \<le> a \<and> a < p + unat count * unat sz \<longrightarrow> cells h' a = 0" by (simp add: g)
  have m: "unat (count * sz) = unat count * unat sz"
    using assms(2) by (simp add: unat_word_ariths)
  have wf: "well_formed h" using assms(1) well_formed_iff by blast
  obtain l where l: "well_formed g" "p \<notin> fst ` in_use h" "unat count * unat sz \<le> l"
    "in_use g = insert (p, l) (in_use h)"
    using lwip.alloc_some[OF wf g(1) assms(4)] assms(2) by (auto simp: m heap_room_def)
  show "\<forall>x l a. (x, l) \<in> in_use h \<longrightarrow> a \<in> area x l \<longrightarrow> cells h' a = cells h a"
  proof (intro allI impI)
    fix x k a assume x: "(x, k) \<in> in_use h" "a \<in> area x k"
    then have "x \<noteq> p" using l(2) by force
    then have "area x k \<inter> area p l = {}" using lwip.separate[OF l(1), of x k p l] x(1) l(4) by auto
    then have "a \<notin> {p ..< p + unat count * unat sz}" using x(2) l(3) by fastforce
    then show "cells h' a = cells h a" using lwip.alloc_keeps[OF wf g(1) x] by (auto simp: g(2))
  qed
qed

text \<open>A product that does not fit is cut for the allocation and not for the clearing, which
  then runs over the end of the area and of the heap.\<close>

lemma mem_calloc_overruns:
  assumes "8 \<le> ram h" "4 dvd ram h"
  shows "\<exists>h'. mem_calloc 256 257 (mem_init h) = Some (ram h + 8, h') \<and> \<not> well_formed h'"
proof -
  have c: "(256 :: u16) * 257 = 256" by simp
  have u: "unat (256 :: u16) * unat (257 :: u16) = 65792"
    using unat_of_nat_u16[of 256] unat_of_nat_u16[of 257] by simp
  have "unat (mem_round 256) \<le> 6136" by (simp add: unat_mem_round)
  then obtain g where g: "mem_malloc 256 (mem_init h) = Some (ram h + 8, g)" "ram g = ram h"
    by (rule mem_malloc_fresh[OF assms, rotated]) simp_all
  define h' where "h' = g\<lparr>cells := (\<lambda>a. if ram h + 8 \<le> a \<and> a < ram h + 65800 then 0 else cells g a)\<rparr>"
  have "mem_calloc 256 257 (mem_init h) = Some (ram h + 8, h')"
    unfolding mem_calloc_def c g(1) u using assms(1) by (simp add: h'_def add.assoc)
  moreover have "\<not> well_formed h'"
  proof
    assume "well_formed h'"
    then obtain bs where "heap_ok h' bs" using well_formed_iff by blast
    then have "m_used h' (ram h' + MEM_SIZE_ALIGNED) = 1"
      using chain_append[of h' 0 0 bs "[]"] chain_extent[of h' 0 0 bs] by (auto simp: heap_ok_def)
    then show False by (simp add: h'_def m_used_def g(2) MEM_SIZE_ALIGNED_def)
  qed
  ultimately show ?thesis by blast
qed

section \<open>The report of the heap\<close>

text \<open>\<open>Getmeminf\<close>, which answers the command \<open>mem\<close> of the server: it prints fields of the
  header at the end of the heap, as if they counted bytes.  The headings are in GBK.\<close>

fun digits :: "nat \<Rightarrow> bytes" where
  "digits n = (if n < 10 then [word_of_nat (48 + n)] else digits (n div 10) @ [word_of_nat (48 + n mod 10)])"

definition sprintf_d :: "int \<Rightarrow> bytes" where
  "sprintf_d i = (if i < 0 then 0x2D # digits (nat (- i)) else digits (nat i))"

definition mem_titles :: "bytes list" where
  "mem_titles =
    [[0xC4, 0xDA, 0xB4, 0xE6, 0xD0, 0xC5, 0xCF, 0xA2],
     [0xD7, 0xDC, 0xC4, 0xDA, 0xB4, 0xE6, 0xCA, 0xFD, 0xA3, 0xA8, 0xD7, 0xD6, 0xBD, 0xDA, 0xA3, 0xA9, 0xA3, 0xBA],
     [0xD2, 0xD1, 0xD3, 0xC3, 0xC4, 0xDA, 0xB4, 0xE6, 0xA3, 0xA8, 0xD7, 0xD6, 0xBD, 0xDA, 0xA3, 0xA9, 0xA3, 0xBA],
     [0xCA, 0xA3, 0xD3, 0xE0, 0xC4, 0xDA, 0xB4, 0xE6, 0xCA, 0xFD, 0xA3, 0xA8, 0xD7, 0xD6, 0xBD, 0xDA, 0xA3, 0xA9, 0xA3, 0xBA],
     [0xCA, 0xB9, 0xD3, 0xC3, 0xB1, 0xEA, 0xCA, 0xBE, 0xA3, 0xBA]]"

text \<open>One line: the heading at \<open>l\<close>, the number with the null of \<open>sprintf\<close>, then CR and LF; \<open>l\<close> is
  left at the LF, which the next line overwrites.\<close>

definition put_line :: "bytes \<Rightarrow> bytes \<Rightarrow> bytes \<times> nat \<Rightarrow> (bytes \<times> nat) option" where
  "put_line title num = (\<lambda>(buf, l). do {
     buf \<leftarrow> cwrite buf l title;
     let l = l + length title;
     buf \<leftarrow> (if num = [] then Some buf else cwrite buf l (num @ [0]));
     let l = l + length num;
     buf \<leftarrow> cset buf l 0x0D;
     buf \<leftarrow> cset buf (l + 1) 0x0A;
     Some (buf, l + 1)
   })"

definition meminf_numbers :: "lwip_heap \<Rightarrow> bytes list" where
  "meminf_numbers h =
     (let nxt = int (unat (m_next h (ram_end h)));
          prv = int (unat (m_prev h (ram_end h)));
          usd = int (unat (m_used h (ram_end h)))
      in [[], sprintf_d nxt, sprintf_d prv, sprintf_d (nxt - prv), sprintf_d usd])"

fun put_lines :: "(bytes \<times> bytes) list \<Rightarrow> bytes \<times> nat \<Rightarrow> (bytes \<times> nat) option" where
  "put_lines [] s = Some s"
| "put_lines ((t, n) # ls) s = do { s \<leftarrow> put_line t n s; put_lines ls s }"

definition Getmeminf :: "lwip_heap \<Rightarrow> bytes \<Rightarrow> bytes option" where
  "Getmeminf h buf =
     map_option fst (put_lines (zip mem_titles (meminf_numbers h)) (buf, 0))"

lemma digits_length: "n < 10 ^ Suc k \<Longrightarrow> length (digits n) \<le> Suc k"
proof (induction k arbitrary: n)
  case (Suc k)
  show ?case
  proof (cases "n < 10")
    case False
    have "n div 10 < 10 ^ Suc k" using Suc.prems by (intro less_mult_imp_div_less) simp
    then show ?thesis using Suc.IH False by (subst digits.simps) simp
  qed simp
qed simp

declare digits.simps [simp del]

lemma sprintf_d_lengths:
  "length (sprintf_d (int (unat (w :: u16)))) \<le> 5" "length (sprintf_d (int (unat (v :: u8)))) \<le> 3"
  "length (sprintf_d (int (unat (w :: u16)) - int (unat (x :: u16)))) \<le> 6"
proof -
  have w: "unat y < 100000" for y :: u16 using unat16_less[of y] by (rule less_trans) simp
  have v: "unat v < 1000" using unsigned_less[where ?'b = 8 and ?'a = nat, of v] by (rule less_trans) simp
  show "length (sprintf_d (int (unat w))) \<le> 5"
    using digits_length[of "unat w" 4] w[of w] by (simp add: sprintf_d_def)
  show "length (sprintf_d (int (unat v))) \<le> 3" using digits_length[of "unat v" 2] v by (simp add: sprintf_d_def)
  have "nat \<bar>int (unat w) - int (unat x)\<bar> < 100000" using w[of w] w[of x] by linarith
  then show "length (sprintf_d (int (unat w) - int (unat x))) \<le> 6"
    using digits_length[of "nat \<bar>int (unat w) - int (unat x)\<bar>" 4] by (auto simp: sprintf_d_def abs_if split: if_splits)
qed

lemma put_line_bound:
  assumes "l + length title + length num + 1 < length buf"
  obtains buf' where "put_line title num (buf, l) = Some (buf', l + length title + length num + 1)"
    "length buf' = length buf"
proof -
  have w: "\<exists>b. cwrite a off xs = Some b \<and> length b = length a" if "off + length xs \<le> length a" for a off and xs :: bytes
    using that by (simp add: cwrite_def)
  obtain b1 where b1: "cwrite buf l title = Some b1" "length b1 = length buf" using w[of l title buf] assms by auto
  obtain b2 where b2: "(if num = [] then Some b1 else cwrite b1 (l + length title) (num @ [0])) = Some b2"
    "length b2 = length buf"
    using w[of "l + length title" "num @ [0]" b1] b1(2) assms by (cases "num = []") auto
  then show ?thesis using that assms b1 by (simp add: put_line_def Let_def)
qed

text \<open>The report fits its buffer of 100 bytes, whatever the header at the end holds.\<close>

lemma getmeminf_in_bounds:
  assumes "length buf = 100"
  shows "\<exists>buf'. Getmeminf h buf = Some buf' \<and> length buf' = 100"
proof -
  define a b c d where "a = sprintf_d (int (unat (m_next h (ram_end h))))"
    and "b = sprintf_d (int (unat (m_prev h (ram_end h))))"
    and "c = sprintf_d (int (unat (m_next h (ram_end h))) - int (unat (m_prev h (ram_end h))))"
    and "d = sprintf_d (int (unat (m_used h (ram_end h))))"
  have l: "length a \<le> 5" "length b \<le> 5" "length c \<le> 6" "length d \<le> 3"
    unfolding a_def b_def c_def d_def by (rule sprintf_d_lengths)+
  have z: "zip mem_titles (meminf_numbers h) =
      zip mem_titles [[], a, b, c, d]" by (simp add: meminf_numbers_def Let_def a_def b_def c_def d_def)
  obtain b1 where 1: "put_line (mem_titles ! 0) [] (buf, 0) = Some (b1, 9)" "length b1 = 100"
    by (rule put_line_bound[of 0 "mem_titles ! 0" "[]" buf]) (use assms in \<open>simp_all add: mem_titles_def\<close>)
  obtain b2 where 2: "put_line (mem_titles ! 1) a (b1, 9) = Some (b2, 28 + length a)" "length b2 = 100"
    by (rule put_line_bound[of 9 "mem_titles ! 1" a b1]) (use 1 l in \<open>simp_all add: mem_titles_def\<close>)
  obtain b3 where 3: "put_line (mem_titles ! 2) b (b2, 28 + length a) = Some (b3, 47 + length a + length b)"
    "length b3 = 100"
    by (rule put_line_bound[of "28 + length a" "mem_titles ! 2" b b2])
      (use 2 l in \<open>simp_all add: mem_titles_def add.commute add.left_commute\<close>)
  obtain b4 where 4: "put_line (mem_titles ! 3) c (b3, 47 + length a + length b) =
      Some (b4, 68 + length a + length b + length c)" "length b4 = 100"
    by (rule put_line_bound[of "47 + length a + length b" "mem_titles ! 3" c b3])
      (use 3 l in \<open>simp_all add: mem_titles_def add.commute add.left_commute\<close>)
  obtain b5 where 5: "put_line (mem_titles ! 4) d (b4, 68 + length a + length b + length c) =
      Some (b5, 79 + length a + length b + length c + length d)" "length b5 = 100"
    by (rule put_line_bound[of "68 + length a + length b + length c" "mem_titles ! 4" d b4])
      (use 4 l in \<open>simp_all add: mem_titles_def add.commute add.left_commute\<close>)
  have "mem_titles = map (nth mem_titles) [0, 1, 2, 3, 4]" by (simp add: mem_titles_def)
  then have "zip mem_titles [[], a, b, c, d] =
      [(mem_titles ! 0, []), (mem_titles ! 1, a), (mem_titles ! 2, b), (mem_titles ! 3, c), (mem_titles ! 4, d)]"
    by (simp add: mem_titles_def)
  then show ?thesis using 1 2 3 4 5 by (simp add: Getmeminf_def z)
qed

text \<open>
  The report that answers the command mem counts nothing: on the heap as it is
  initialised it says that all 6144 bytes are used and 0 are left, and an allocation
  never changes it.
\<close>

theorem getmeminf_counts_nothing:
  assumes "8 \<le> ram h" "4 dvd ram h" "heap_run g m" "mem_malloc n g = Some (p, g')"
  shows "meminf_numbers (mem_init h) = [[], sprintf_d 6144, sprintf_d 6144, sprintf_d 0, sprintf_d 1] \<and>
    Getmeminf g' buf = Getmeminf g buf"
proof
  show "meminf_numbers (mem_init h) = [[], sprintf_d 6144, sprintf_d 6144, sprintf_d 0, sprintf_d 1]"
    by (simp add: meminf_numbers_def Let_def mem_init_def ram_end_def fields_same MEM_SIZE_ALIGNED_def)
  have ok: "heap_ok g (heap_blocks g)"
    using heap_run_holds[OF assms(3)] by (simp add: lwip.holds_def well_formed_def)
  have g': "ram g' = ram g \<and> (\<forall>a. ram_end g \<le> a \<longrightarrow> cells g' a = cells g a)"
    by (cases rule: malloc_cases[OF ok, of n]) (use assms(4) in auto)
  have e: "ram_end g' = ram_end g" using g' by (simp add: ram_end_def)
  have "m_next g' (ram_end g) = m_next g (ram_end g)" "m_prev g' (ram_end g) = m_prev g (ram_end g)"
    "m_used g' (ram_end g) = m_used g (ram_end g)"
    by (rule fields_cong; use g' in simp)+
  then show "Getmeminf g' buf = Getmeminf g buf" by (simp add: Getmeminf_def meminf_numbers_def e)
qed

theorem getmeminf_counts_nothing_witness:
  "\<exists>g'. mem_malloc 6000 (mem_init heap0) = Some (16, g') \<and>
     Getmeminf g' (replicate 100 0) = Getmeminf (mem_init heap0) (replicate 100 0)"
proof -
  obtain g' where g: "mem_malloc 6000 (mem_init heap0) = Some (16, g')"
    by (rule heap0_malloc[of 6000]) (simp_all add: unat_mem_round)
  then show ?thesis
    using getmeminf_counts_nothing[of heap0 "mem_init heap0" Map.empty 6000 16 g' "replicate 100 0"] heap0_run
    by (simp add: heap0_def)
qed

end
