(* ===== verification/Memp.thy ===== *)
theory Memp
  imports LwipHeap
begin

text \<open>
  The memory pools of lwIP (\<open>core/memp.c\<close>): for every kind of object a fixed number of
  elements of a fixed size, carved out of one array; the free elements of a pool are linked
  through their first four bytes.  As configured there is no overflow check, so an element
  that is in use has no header (\<open>MEMP_SIZE\<close> is 0).  The pools lie in the same memory as the
  heap of \<open>core/mem.c\<close>; together they are one allocator for the rest of lwIP.

  The numbers and sizes of the elements come from \<open>lwip/memp_std.h\<close> and the sizes of the
  structures there; they are fields of the state which no operation changes.
\<close>

section \<open>The state and the operations\<close>

record lwip_mem =
  heap :: lwip_heap                   \<comment> \<open>\<open>core/mem.c\<close>, and the memory of both\<close>
  memp_pools :: "(nat \<times> nat) list"     \<comment> \<open>\<open>memp_num\<close> and \<open>memp_sizes\<close>\<close>
  memp_memory :: nat                  \<comment> \<open>where the first element lies\<close>
  memp_tab :: "nat list"              \<comment> \<open>the first free element of each pool, 0 for none\<close>
  mf :: u32                           \<comment> \<open>the counter of the TCP connections\<close>

text \<open>A pointer of the chip: four bytes, the least significant first.\<close>

definition load_ptr :: "(nat \<Rightarrow> u8) \<Rightarrow> nat \<Rightarrow> nat" where
  "load_ptr c a = unat (load16 c a) + 65536 * unat (load16 c (a + 2))"

definition store_ptr :: "nat \<Rightarrow> nat \<Rightarrow> (nat \<Rightarrow> u8) \<Rightarrow> (nat \<Rightarrow> u8)" where
  "store_ptr p a c = store16 (word_of_nat (p div 65536)) (a + 2) (store16 (word_of_nat p) a c)"

definition mem_bytes :: "lwip_mem \<Rightarrow> nat \<Rightarrow> u8" where
  "mem_bytes s = cells (heap s)"

definition set_bytes :: "(nat \<Rightarrow> u8) \<Rightarrow> lwip_mem \<Rightarrow> lwip_mem" where
  "set_bytes c s = s\<lparr>heap := (heap s)\<lparr>cells := c\<rparr>\<rparr>"

text \<open>\<open>memp_init\<close>: the elements of a pool are linked one after the other, so the last one is
  the first to be given out.\<close>

fun init_pool :: "nat \<Rightarrow> nat \<Rightarrow> nat \<Rightarrow> nat \<Rightarrow> (nat \<Rightarrow> u8) \<Rightarrow> nat \<times> nat \<times> (nat \<Rightarrow> u8)" where
  "init_pool 0 z memp tab c = (tab, memp, c)"
| "init_pool (Suc j) z memp tab c = init_pool j z (memp + z) memp (store_ptr tab memp c)"

fun init_pools :: "(nat \<times> nat) list \<Rightarrow> nat \<Rightarrow> (nat \<Rightarrow> u8) \<Rightarrow> nat list \<times> (nat \<Rightarrow> u8)" where
  "init_pools [] memp c = ([], c)"
| "init_pools ((n, z) # ps) memp c =
     (let (t, memp, c) = init_pool n z memp 0 c;
          (ts, c) = init_pools ps memp c
      in (t # ts, c))"

definition memp_init :: "lwip_mem \<Rightarrow> lwip_mem" where
  "memp_init s =
     (let (ts, c) = init_pools (memp_pools s) (memp_memory s) (mem_bytes s)
      in set_bytes c (s\<lparr>memp_tab := ts\<rparr>))"

definition MEMP_TCP_PCB :: nat where "MEMP_TCP_PCB = 2"

definition memp_malloc :: "nat \<Rightarrow> lwip_mem \<Rightarrow> nat \<times> lwip_mem" where
  "memp_malloc t s =
     (if t < length (memp_tab s) then
        let memp = memp_tab s ! t in
        if memp \<noteq> 0 then
          let s = (if t = MEMP_TCP_PCB then s\<lparr>mf := mf s + 1\<rparr> else s)
          in (memp, s\<lparr>memp_tab := (memp_tab s)[t := load_ptr (mem_bytes s) memp]\<rparr>)
        else (0, s)
      else (0, s))"

text \<open>\<open>memp_free\<close> does not check the type; \<open>None\<close> is an access outside \<open>memp_tab\<close>.\<close>

definition memp_free :: "nat \<Rightarrow> nat \<Rightarrow> lwip_mem \<Rightarrow> lwip_mem option" where
  "memp_free t mem s =
     (if mem = 0 then Some s
      else do {
        let s = (if t = MEMP_TCP_PCB then s\<lparr>mf := mf s - 1\<rparr> else s);
        first \<leftarrow> cget (memp_tab s) t;
        let s = set_bytes (store_ptr first mem (mem_bytes s)) s;
        tab \<leftarrow> cset (memp_tab s) t mem;
        Some (s\<lparr>memp_tab := tab\<rparr>)
      })"

section \<open>Elements and free lists\<close>

definition pool_num :: "lwip_mem \<Rightarrow> nat \<Rightarrow> nat" where
  "pool_num s t = fst (memp_pools s ! t)"

definition pool_size :: "lwip_mem \<Rightarrow> nat \<Rightarrow> nat" where
  "pool_size s t = snd (memp_pools s ! t)"

definition pools_extent :: "(nat \<times> nat) list \<Rightarrow> nat" where
  "pools_extent ps = sum_list (map (\<lambda>(n, z). n * z) ps)"

definition pool_start :: "lwip_mem \<Rightarrow> nat \<Rightarrow> nat" where
  "pool_start s t = memp_memory s + pools_extent (take t (memp_pools s))"

definition pool_end :: "lwip_mem \<Rightarrow> nat" where
  "pool_end s = memp_memory s + pools_extent (memp_pools s)"

definition elements :: "lwip_mem \<Rightarrow> nat \<Rightarrow> nat list" where
  "elements s t = map (\<lambda>k. pool_start s t + k * pool_size s t) [0 ..< pool_num s t]"

text \<open>The free elements, read off the links.\<close>

fun follow :: "nat \<Rightarrow> (nat \<Rightarrow> u8) \<Rightarrow> nat \<Rightarrow> nat list" where
  "follow 0 c p = []"
| "follow (Suc n) c p = (if p = 0 then [] else p # follow n c (load_ptr c p))"

fun linked :: "(nat \<Rightarrow> u8) \<Rightarrow> nat \<Rightarrow> nat list \<Rightarrow> bool" where
  "linked c p [] \<longleftrightarrow> p = 0"
| "linked c p (x # xs) \<longleftrightarrow> p = x \<and> x \<noteq> 0 \<and> linked c (load_ptr c x) xs"

definition free_elements :: "lwip_mem \<Rightarrow> nat \<Rightarrow> nat list" where
  "free_elements s t = follow (pool_num s t) (mem_bytes s) (memp_tab s ! t)"

definition pool_ok :: "lwip_mem \<Rightarrow> nat \<Rightarrow> nat list \<Rightarrow> bool" where
  "pool_ok s t fs \<longleftrightarrow> linked (mem_bytes s) (memp_tab s ! t) fs \<and> distinct fs \<and> set fs \<subseteq> set (elements s t)"

definition pools_fit :: "lwip_mem \<Rightarrow> bool" where
  "pools_fit s \<longleftrightarrow> 0 < memp_memory s \<and> pool_end s \<le> 2 ^ 32 \<and> (\<forall>(n, z)\<in>set (memp_pools s). 4 \<le> z)"

definition pools_ok :: "lwip_mem \<Rightarrow> bool" where
  "pools_ok s \<longleftrightarrow> pools_fit s \<and> length (memp_tab s) = length (memp_pools s) \<and>
     (\<forall>t < length (memp_pools s). pool_ok s t (free_elements s t))"

definition pool_handed :: "lwip_mem \<Rightarrow> (nat \<times> nat) set" where
  "pool_handed s = {(p, pool_size s t) | p t. t < length (memp_pools s) \<and>
     p \<in> set (elements s t) - set (free_elements s t)}"


lemma load_store_ptr [simp]: "p < 2 ^ 32 \<Longrightarrow> load_ptr (store_ptr p a c) a = p"
proof -
  assume p: "p < 2 ^ 32"
  have "unat (word_of_nat p :: u16) = p mod 65536" by (simp add: unat_of_nat)
  moreover have "unat (word_of_nat (p div 65536) :: u16) = p div 65536"
    by (rule unat_of_nat_u16) (use p in simp)
  ultimately show ?thesis by (simp add: load_ptr_def store_ptr_def load_store16_other)
qed

lemma store_ptr_other: "b < a \<or> a + 4 \<le> b \<Longrightarrow> store_ptr p a c b = c b"
  by (auto simp: store_ptr_def store16_def)

lemma load_ptr_cong:
  assumes "\<And>b. a \<le> b \<Longrightarrow> b < a + 4 \<Longrightarrow> c' b = c b"
  shows "load_ptr c' a = load_ptr c a"
  using assms[of a] assms[of "a + 1"] assms[of "a + 2"] assms[of "a + 2 + 1"]
  by (simp add: load_ptr_def load16_def)

lemma load_ptr_less: "load_ptr c a < 2 ^ 32"
proof -
  have "unat (load16 c a) < 65536" "unat (load16 c (a + 2)) < 65536" by (rule unat_u16)+
  then have "load_ptr c a < 65536 * 65536" unfolding load_ptr_def by linarith
  then show ?thesis by simp
qed

lemma mem_bytes_set [simp]:
  "mem_bytes (set_bytes c s) = c" "mem_bytes (s\<lparr>memp_tab := ts\<rparr>) = mem_bytes s"
  "mem_bytes (s\<lparr>mf := k\<rparr>) = mem_bytes s"
  "memp_pools (set_bytes c s) = memp_pools s" "memp_memory (set_bytes c s) = memp_memory s"
  "memp_tab (set_bytes c s) = memp_tab s" "mf (set_bytes c s) = mf s"
  "set_bytes c (s\<lparr>memp_tab := ts\<rparr>) = (set_bytes c s)\<lparr>memp_tab := ts\<rparr>"
  "set_bytes c (s\<lparr>mf := k\<rparr>) = (set_bytes c s)\<lparr>mf := k\<rparr>"
  by (simp_all add: mem_bytes_def set_bytes_def)

subsection \<open>Where the elements lie\<close>

lemma pools_extent_simps [simp]:
  "pools_extent [] = 0" "pools_extent ((n, z) # ps) = n * z + pools_extent ps"
  "pools_extent (as @ bs) = pools_extent as + pools_extent bs"
  by (simp_all add: pools_extent_def)

lemma pool_start_next:
  assumes "t < length (memp_pools s)"
  shows "pool_start s (Suc t) = pool_start s t + pool_num s t * pool_size s t"
proof -
  have "memp_pools s ! t = (pool_num s t, pool_size s t)" by (simp add: pool_num_def pool_size_def)
  then show ?thesis using assms by (simp add: pool_start_def take_Suc_conv_app_nth)
qed

lemma pool_start_mono: "t \<le> u \<Longrightarrow> pool_start s t \<le> pool_start s u"
proof -
  assume "t \<le> u"
  then have "take u (memp_pools s) = take t (memp_pools s) @ take (u - t) (drop t (memp_pools s))"
    by (metis le_add_diff_inverse take_add)
  then show ?thesis by (simp add: pool_start_def)
qed

lemma pool_start_end: "pool_start s t \<le> pool_end s"
proof -
  have "pools_extent (memp_pools s) = pools_extent (take t (memp_pools s)) + pools_extent (drop t (memp_pools s))"
    by (metis append_take_drop_id pools_extent_simps(3))
  then show ?thesis by (simp add: pool_start_def pool_end_def)
qed

lemma pool_after:
  assumes "t < u" "u \<le> length (memp_pools s)"
  shows "pool_start s t + pool_num s t * pool_size s t \<le> pool_start s u"
  using pool_start_next[of t s] pool_start_mono[of "Suc t" u s] assms by simp

lemma element_bounds:
  assumes "e \<in> set (elements s t)" "t < length (memp_pools s)"
  shows "pool_start s t \<le> e" "e + pool_size s t \<le> pool_start s (Suc t)" "e + pool_size s t \<le> pool_end s"
    "memp_memory s \<le> e"
proof -
  obtain k where k: "k < pool_num s t" "e = pool_start s t + k * pool_size s t"
    using assms(1) by (auto simp: elements_def)
  have "Suc k * pool_size s t \<le> pool_num s t * pool_size s t" using k(1) by (intro mult_le_mono1) simp
  then show e: "pool_start s t \<le> e" "e + pool_size s t \<le> pool_start s (Suc t)"
    using pool_start_next[OF assms(2)] k(2) by simp_all
  show "e + pool_size s t \<le> pool_end s" using e(2) pool_start_end le_trans by blast
  show "memp_memory s \<le> e" using e(1) by (simp add: pool_start_def)
qed

lemma elements_apart:
  assumes "e \<in> set (elements s t)" "f \<in> set (elements s u)" "t < length (memp_pools s)" "u < length (memp_pools s)"
    and ne: "e \<noteq> f \<or> t \<noteq> u"
  shows "e + pool_size s t \<le> f \<or> f + pool_size s u \<le> e"
proof (cases t u rule: linorder_cases)
  case less
  then have "pool_start s (Suc t) \<le> pool_start s u" by (intro pool_start_mono) simp
  then show ?thesis using element_bounds[OF assms(1,3)] element_bounds[OF assms(2,4)] by simp
next
  case greater
  then have "pool_start s (Suc u) \<le> pool_start s t" by (intro pool_start_mono) simp
  then show ?thesis using element_bounds[OF assms(1,3)] element_bounds[OF assms(2,4)] by simp
next
  case equal
  obtain j k where jk: "e = pool_start s t + j * pool_size s t" "f = pool_start s t + k * pool_size s t"
    using assms(1,2) equal by (auto simp: elements_def)
  then have "j \<noteq> k" using ne equal by auto
  then have "Suc j \<le> k \<or> Suc k \<le> j" by linarith
  then have "Suc j * pool_size s t \<le> k * pool_size s t \<or> Suc k * pool_size s t \<le> j * pool_size s t"
    using mult_le_mono1 by blast
  then show ?thesis using jk equal by auto
qed

lemma pool_size_ge: "pools_fit s \<Longrightarrow> t < length (memp_pools s) \<Longrightarrow> 4 \<le> pool_size s t"
  unfolding pools_fit_def pool_size_def by (metis case_prod_unfold nth_mem)

lemma element_pointer:
  assumes "pools_fit s" "e \<in> set (elements s t)" "t < length (memp_pools s)"
  shows "0 < e" "e < 2 ^ 32"
  using element_bounds[OF assms(2,3)] pool_size_ge[OF assms(1,3)] assms(1) by (simp_all add: pools_fit_def)

lemma element_unique:
  assumes "pools_fit s" "e \<in> set (elements s t)" "e \<in> set (elements s u)"
    "t < length (memp_pools s)" "u < length (memp_pools s)"
  shows "t = u"
  using elements_apart[OF assms(2,3,4,5)] pool_size_ge[OF assms(1,4)] pool_size_ge[OF assms(1,5)] by fastforce

lemma elements_distinct: "pools_fit s \<Longrightarrow> t < length (memp_pools s) \<Longrightarrow> distinct (elements s t)"
  using pool_size_ge[of s t] by (auto simp: elements_def distinct_map inj_on_def)

subsection \<open>Free lists\<close>

lemma follow_linked: "linked c p xs \<Longrightarrow> length xs \<le> n \<Longrightarrow> follow n c p = xs"
proof (induction n c p arbitrary: xs rule: follow.induct)
  case (2 n c p)
  then show ?case by (cases xs) auto
qed simp

lemma linked_cong:
  "linked c p xs \<Longrightarrow> (\<And>x. x \<in> set xs \<Longrightarrow> load_ptr c' x = load_ptr c x) \<Longrightarrow> linked c' p xs"
  by (induction c p xs rule: linked.induct) auto

lemma pool_ok_length:
  assumes "pool_ok s t fs"
  shows "length fs \<le> pool_num s t"
proof -
  have "length fs = card (set fs)" using assms distinct_card by (fastforce simp: pool_ok_def)
  also have "\<dots> \<le> card (set (elements s t))" using assms by (intro card_mono) (auto simp: pool_ok_def)
  also have "\<dots> \<le> pool_num s t" using card_length[of "elements s t"] by (simp add: elements_def)
  finally show ?thesis .
qed

lemma pool_ok_free: "pool_ok s t fs \<Longrightarrow> free_elements s t = fs"
  using follow_linked pool_ok_length by (simp add: free_elements_def pool_ok_def)

lemma pools_okI:
  assumes "pools_fit s" "length (memp_tab s) = length (memp_pools s)"
    "\<And>t. t < length (memp_pools s) \<Longrightarrow> pool_ok s t (f t)"
  shows "pools_ok s" "\<And>t. t < length (memp_pools s) \<Longrightarrow> free_elements s t = f t"
  using assms pool_ok_free[OF assms(3)] by (auto simp: pools_ok_def)

lemma handed_iff:
  "(p, z) \<in> pool_handed s \<longleftrightarrow> (\<exists>t < length (memp_pools s). z = pool_size s t \<and>
     p \<in> set (elements s t) \<and> p \<notin> set (free_elements s t))"
  by (auto simp: pool_handed_def)


lemma same_pools:
  assumes "memp_pools s' = memp_pools s" "memp_memory s' = memp_memory s"
  shows "elements s' = elements s" "pool_size s' = pool_size s" "pool_num s' = pool_num s"
    "pools_fit s' = pools_fit s" "pool_end s' = pool_end s"
  using assms by (simp_all add: fun_eq_iff elements_def pool_size_def pool_num_def pools_fit_def pool_end_def pool_start_def)

section \<open>What the operations do\<close>

lemma init_pool_links:
  assumes "linked c tab xs" "\<forall>x\<in>set xs. x + 4 \<le> memp" "4 \<le> z" "0 < memp" "memp + j * z \<le> 2 ^ 32" "tab < 2 ^ 32"
    "init_pool j z memp tab c = (t, m, c')"
  shows "m = memp + j * z \<and> linked c' t (rev (map (\<lambda>k. memp + k * z) [0 ..< j]) @ xs) \<and> t < 2 ^ 32 \<and>
    (\<forall>b. b < memp \<or> memp + j * z \<le> b \<longrightarrow> c' b = c b)"
  using assms
proof (induction j arbitrary: memp tab c xs)
  case (Suc j)
  define c1 where "c1 = store_ptr tab memp c"
  have "4 \<le> Suc j * z" using Suc.prems(3) by simp
  then have small: "memp < 2 ^ 32" using Suc.prems(5) by linarith
  have "linked c1 tab xs"
    by (rule linked_cong[OF Suc.prems(1)])
      (use Suc.prems(2) in \<open>auto simp: c1_def intro!: load_ptr_cong store_ptr_other\<close>)
  then have l: "linked c1 memp (memp # xs)" using Suc.prems(4,6) by (simp add: c1_def)
  have IH: "m = memp + z + j * z \<and>
      linked c' t (rev (map (\<lambda>k. memp + z + k * z) [0 ..< j]) @ memp # xs) \<and> t < 2 ^ 32 \<and>
      (\<forall>b. b < memp + z \<or> memp + z + j * z \<le> b \<longrightarrow> c' b = c1 b)"
    by (rule Suc.IH[OF l]) (use Suc.prems small in \<open>auto simp: c1_def\<close>)
  have "map (\<lambda>k. memp + k * z) [0 ..< Suc j] = memp # map (\<lambda>k. memp + z + k * z) [0 ..< j]"
    by (simp add: upt_conv_Cons map_Suc_upt[symmetric] add.assoc del: upt_Suc map_Suc_upt)
  then show ?case using IH Suc.prems(3) by (auto simp: c1_def store_ptr_other)
qed auto

lemma init_pools_links:
  assumes "\<forall>(n, z)\<in>set ps. 4 \<le> z" "0 < memp" "memp + pools_extent ps \<le> 2 ^ 32" "init_pools ps memp c = (ts, c')"
  shows "length ts = length ps \<and> (\<forall>b. b < memp \<or> memp + pools_extent ps \<le> b \<longrightarrow> c' b = c b) \<and>
    (\<forall>t < length ps. linked c' (ts ! t)
       (rev (map (\<lambda>k. memp + pools_extent (take t ps) + k * snd (ps ! t)) [0 ..< fst (ps ! t)])))"
  using assms
proof (induction ps arbitrary: memp c ts)
  case (Cons p ps)
  obtain n z where p: "p = (n, z)" by (cases p)
  obtain t m c1 where 1: "init_pool n z memp 0 c = (t, m, c1)" by (metis prod_cases3)
  obtain us c2 where 2: "init_pools ps m c1 = (us, c2)" by fastforce
  have r: "ts = t # us" "c' = c2" using Cons.prems(4) by (simp_all add: p 1 2)
  have i: "m = memp + n * z" "linked c1 t (rev (map (\<lambda>k. memp + k * z) [0 ..< n]))"
    "\<forall>b. b < memp \<or> memp + n * z \<le> b \<longrightarrow> c1 b = c b"
    using init_pool_links[of c 0 "[]" memp z n t m c1] Cons.prems 1 by (simp_all add: p)
  have j: "length us = length ps" "\<forall>b. b < m \<or> m + pools_extent ps \<le> b \<longrightarrow> c2 b = c1 b"
    "\<forall>t < length ps. linked c2 (us ! t)
       (rev (map (\<lambda>k. m + pools_extent (take t ps) + k * snd (ps ! t)) [0 ..< fst (ps ! t)]))"
    using Cons.IH[of m c1 us] Cons.prems 2 by (simp_all add: p i(1) r(2))
  have "linked c2 t (rev (map (\<lambda>k. memp + k * z) [0 ..< n]))"
  proof (rule linked_cong[OF i(2)])
    fix x assume "x \<in> set (rev (map (\<lambda>k. memp + k * z) [0 ..< n]))"
    then obtain k where k: "k < n" "x = memp + k * z" by auto
    then have "Suc k * z \<le> n * z" by (intro mult_le_mono1) simp
    moreover have "4 \<le> z" using Cons.prems(1) by (simp add: p)
    ultimately have "x + 4 \<le> m" using k(2) by (simp add: i(1))
    then show "load_ptr c2 x = load_ptr c1 x" using j(2) by (intro load_ptr_cong) simp
  qed
  then show ?case
    using i j by (auto simp: r p nth_Cons' add.assoc less_Suc_eq_0_disj nth_Cons split: nat.splits)
qed auto

lemma memp_init_ok:
  assumes "pools_fit s"
  shows "pools_ok (memp_init s)" "pool_handed (memp_init s) = {}"
    "\<And>b. b < memp_memory s \<or> pool_end s \<le> b \<Longrightarrow> mem_bytes (memp_init s) b = mem_bytes s b"
    "mf (memp_init s) = mf s"
proof -
  obtain ts c where r: "init_pools (memp_pools s) (memp_memory s) (mem_bytes s) = (ts, c)" by fastforce
  define s' where "s' = memp_init s"
  have s': "memp_tab s' = ts" "mem_bytes s' = c" "memp_pools s' = memp_pools s" "memp_memory s' = memp_memory s"
    "mf s' = mf s"
    by (simp_all add: s'_def memp_init_def r)
  note same = same_pools[OF s'(3,4)]
  have fit: "pools_fit s'" using assms by (simp add: same)
  have i: "length ts = length (memp_pools s)"
    "\<And>b. b < memp_memory s \<or> pool_end s \<le> b \<Longrightarrow> c b = mem_bytes s b"
    "\<And>t. t < length (memp_pools s) \<Longrightarrow> linked c (ts ! t) (rev (elements s t))"
    using init_pools_links[OF _ _ _ r] assms
    by (auto simp: pools_fit_def pool_end_def elements_def pool_start_def pool_num_def pool_size_def)
  have p: "pool_ok s' t (rev (elements s t))" if "t < length (memp_pools s')" for t
    using that i(3) elements_distinct[OF assms] by (simp add: pool_ok_def s' same)
  show "pools_ok (memp_init s)" using pools_okI(1)[OF fit _ p] i(1) by (simp add: s' s'_def[symmetric])
  have "free_elements s' t = rev (elements s' t)" if "t < length (memp_pools s')" for t
    using pools_okI(2)[OF fit _ p that] i(1) by (simp add: s' same)
  then show "pool_handed (memp_init s) = {}" by (auto simp: pool_handed_def s'_def[symmetric])
  show "mem_bytes (memp_init s) b = mem_bytes s b" if "b < memp_memory s \<or> pool_end s \<le> b" for b
    using i(2)[OF that] s' by (simp add: s'_def)
  show "mf (memp_init s) = mf s" using s'(5) by (simp add: s'_def)
qed


text \<open>What changes when the free lists become \<open>f\<close>.\<close>

lemma new_lists:
  assumes ok: "pools_ok s" and same: "memp_pools s' = memp_pools s" "memp_memory s' = memp_memory s"
    and tab: "length (memp_tab s') = length (memp_tab s)"
    and p: "\<And>u. u < length (memp_pools s) \<Longrightarrow> pool_ok s' u (f u)"
  shows "pools_ok s'" "\<And>u. u < length (memp_pools s) \<Longrightarrow> free_elements s' u = f u"
  using pools_okI[of s' f] same_pools[OF same] ok same tab p by (auto simp: pools_ok_def)

lemma memp_malloc_cases:
  assumes ok: "pools_ok s"
  obtains (none) "memp_malloc t s = (0, s)" "length (memp_pools s) \<le> t \<or> free_elements s t = []"
  | (some) x fs s' where "t < length (memp_pools s)" "free_elements s t = x # fs" "memp_malloc t s = (x, s')"
    "x \<noteq> 0" "pools_ok s'" "memp_pools s' = memp_pools s" "memp_memory s' = memp_memory s" "heap s' = heap s"
    "\<And>u. u < length (memp_pools s) \<Longrightarrow> free_elements s' u = (if u = t then fs else free_elements s u)"
    "mf s' = (if t = MEMP_TCP_PCB then mf s + 1 else mf s)"
proof (cases "t < length (memp_pools s)")
  case t: True
  have l: "length (memp_tab s) = length (memp_pools s)" using ok by (simp add: pools_ok_def)
  have pok: "pool_ok s u (free_elements s u)" if "u < length (memp_pools s)" for u
    using ok that by (simp add: pools_ok_def)
  show ?thesis
  proof (cases "free_elements s t")
    case Nil
    then have "memp_tab s ! t = 0" using pok[OF t] by (simp add: pool_ok_def)
    then show ?thesis using none Nil t l by (simp add: memp_malloc_def)
  next
    case (Cons x fs)
    have x: "memp_tab s ! t = x" "x \<noteq> 0" using pok[OF t] by (simp_all add: pool_ok_def Cons)
    define s' where "s' = snd (memp_malloc t s)"
    have m: "memp_malloc t s = (x, s')" using x t l by (simp add: s'_def memp_malloc_def Let_def)
    have s': "memp_pools s' = memp_pools s" "memp_memory s' = memp_memory s" "heap s' = heap s"
      "mf s' = (if t = MEMP_TCP_PCB then mf s + 1 else mf s)"
      "memp_tab s' = (memp_tab s)[t := load_ptr (mem_bytes s) x]"
      using x t l by (simp_all add: s'_def memp_malloc_def Let_def mem_bytes_def)
    have mb: "mem_bytes s' = mem_bytes s" using s'(3) by (simp add: mem_bytes_def)
    have el: "elements s' = elements s" by (rule same_pools[OF s'(1,2)])
    have "pool_ok s' u (if u = t then fs else free_elements s u)" if "u < length (memp_pools s)" for u
      using pok[OF that] t l by (auto simp: pool_ok_def el mb s'(5) Cons)
    from new_lists[OF ok s'(1,2) _ this] show ?thesis
      using some[OF t Cons m x(2)] s' by simp
  qed
qed (use none ok in \<open>simp add: memp_malloc_def pools_ok_def\<close>)

lemma memp_free_spec:
  assumes ok: "pools_ok s" and t: "t < length (memp_pools s)"
    and p: "p \<in> set (elements s t)" "p \<notin> set (free_elements s t)"
  obtains s' where "memp_free t p s = Some s'" "pools_ok s'" "memp_pools s' = memp_pools s"
    "memp_memory s' = memp_memory s"
    "\<And>u. u < length (memp_pools s) \<Longrightarrow> free_elements s' u = (if u = t then p # free_elements s t else free_elements s u)"
    "\<And>a. a < p \<or> p + 4 \<le> a \<Longrightarrow> mem_bytes s' a = mem_bytes s a"
    "heap s' = (heap s)\<lparr>cells := mem_bytes s'\<rparr>" "mf s' = (if t = MEMP_TCP_PCB then mf s - 1 else mf s)"
proof -
  have l: "length (memp_tab s) = length (memp_pools s)" and fit: "pools_fit s" using ok by (simp_all add: pools_ok_def)
  have pok: "pool_ok s u (free_elements s u)" if "u < length (memp_pools s)" for u
    using ok that by (simp add: pools_ok_def)
  note pp = element_pointer[OF fit p(1) t]
  define s' where "s' = the (memp_free t p s)"
  have m: "memp_free t p s = Some s'" using pp t l by (simp add: s'_def memp_free_def Let_def)
  have s': "memp_pools s' = memp_pools s" "memp_memory s' = memp_memory s"
    "mem_bytes s' = store_ptr (memp_tab s ! t) p (mem_bytes s)" "memp_tab s' = (memp_tab s)[t := p]"
    "mf s' = (if t = MEMP_TCP_PCB then mf s - 1 else mf s)" "heap s' = (heap s)\<lparr>cells := mem_bytes s'\<rparr>"
    using pp t l by (simp_all add: s'_def memp_free_def Let_def mem_bytes_def set_bytes_def)
  have el: "elements s' = elements s" by (rule same_pools[OF s'(1,2)])
  have head: "memp_tab s ! t < 2 ^ 32"
  proof (cases "free_elements s t")
    case Nil
    then show ?thesis using pok[OF t] by (simp add: pool_ok_def)
  next
    case (Cons x fs)
    then show ?thesis using pok[OF t] element_pointer(2)[OF fit _ t, of x] by (simp add: pool_ok_def)
  qed
  have keep: "linked (mem_bytes s') q (free_elements s u)"
    if "linked (mem_bytes s) q (free_elements s u)" "u < length (memp_pools s)" for q u
  proof (rule linked_cong[OF that(1)])
    fix x assume x: "x \<in> set (free_elements s u)"
    then have "x \<in> set (elements s u)" using pok[OF that(2)] by (auto simp: pool_ok_def)
    moreover have "x \<noteq> p \<or> u \<noteq> t" using x p(2) by auto
    ultimately have "x + pool_size s u \<le> p \<or> p + pool_size s t \<le> x"
      using elements_apart[OF _ p(1) that(2) t] by blast
    then show "load_ptr (mem_bytes s') x = load_ptr (mem_bytes s) x"
      using pool_size_ge[OF fit that(2)] pool_size_ge[OF fit t]
      by (intro load_ptr_cong) (auto simp: s'(3) intro!: store_ptr_other)
  qed
  have "pool_ok s' u (if u = t then p # free_elements s t else free_elements s u)" if "u < length (memp_pools s)" for u
    using pok[OF that] keep[OF _ that] t l p pp head by (auto simp: pool_ok_def el s'(3,4))
  from new_lists[OF ok s'(1,2) _ this] show ?thesis
    using that[OF m _ s'(1,2) _ _ s'(6,5)] by (simp add: s'(3,4) store_ptr_other)
qed

lemma element_write:
  assumes ok: "pools_ok s" and a: "\<And>u x. u < length (memp_pools s) \<Longrightarrow> x \<in> set (free_elements s u) \<Longrightarrow> a < x \<or> x + 4 \<le> a"
    and same: "memp_pools s' = memp_pools s" "memp_memory s' = memp_memory s" "memp_tab s' = memp_tab s"
      "mem_bytes s' = (mem_bytes s)(a := b)"
  shows "pools_ok s'" "pool_handed s' = pool_handed s"
proof -
  have el: "elements s' = elements s" "pool_size s' = pool_size s" by (rule same_pools[OF same(1,2)])+
  have "pool_ok s' u (free_elements s u)" if u: "u < length (memp_pools s)" for u
  proof -
    have p: "pool_ok s u (free_elements s u)" using ok u by (simp add: pools_ok_def)
    have "linked (mem_bytes s') (memp_tab s ! u) (free_elements s u)"
    proof (rule linked_cong)
      show "linked (mem_bytes s) (memp_tab s ! u) (free_elements s u)" using p by (simp add: pool_ok_def)
      show "load_ptr (mem_bytes s') x = load_ptr (mem_bytes s) x" if "x \<in> set (free_elements s u)" for x
        using a[OF u that] by (intro load_ptr_cong) (auto simp: same(4))
    qed
    then show ?thesis using p by (simp add: pool_ok_def same(3) el)
  qed
  note n = new_lists[OF ok same(1,2) _ this]
  show "pools_ok s'" using n(1) by (simp add: same(3))
  have f: "free_elements s' u = free_elements s u" if "u < length (memp_pools s)" for u
    using n(2) that by (simp add: same(3))
  have "x \<in> pool_handed s' \<longleftrightarrow> x \<in> pool_handed s" for x
    by (cases x) (auto simp: handed_iff el same(1) f)
  then show "pool_handed s' = pool_handed s" by blast
qed

section \<open>The pools as an allocator\<close>

definition pool_of :: "nat \<Rightarrow> lwip_mem \<Rightarrow> nat" where
  "pool_of p s = hd (filter (\<lambda>t. p \<in> set (elements s t)) [0 ..< length (memp_pools s)] @ [length (memp_pools s)])"

text \<open>What the rest of lwIP does when it hands an element back to the pool it came from.\<close>

definition give_back :: "nat \<Rightarrow> lwip_mem \<Rightarrow> lwip_mem" where
  "give_back p s = (case memp_free (pool_of p s) p s of Some s' \<Rightarrow> s' | None \<Rightarrow> s)"

definition mem_poke :: "nat \<Rightarrow> u8 \<Rightarrow> lwip_mem \<Rightarrow> lwip_mem" where
  "mem_poke a b s = s\<lparr>heap := poke a b (heap s)\<rparr>"

definition pool_room :: "nat \<Rightarrow> lwip_mem \<Rightarrow> nat" where
  "pool_room t s = (if t < length (memp_pools s) then pool_size s t else 0)"

lemma pool_of_element:
  assumes "pools_fit s" "p \<in> set (elements s t)" "t < length (memp_pools s)"
  shows "pool_of p s = t"
proof -
  define F where "F = filter (\<lambda>t. p \<in> set (elements s t)) [0 ..< length (memp_pools s)]"
  have "u = t" if "u \<in> set F" for u
    using that element_unique[OF assms(1) _ assms(2) _ assms(3), of u] by (auto simp: F_def)
  moreover have "t \<in> set F" using assms(2,3) by (simp add: F_def)
  ultimately have "hd (F @ [length (memp_pools s)]) = t" by (metis hd_append2 hd_in_set empty_iff empty_set)
  then show ?thesis by (simp add: pool_of_def F_def)
qed

lemma handed_cases:
  assumes "pools_ok s" "(p, z) \<in> pool_handed s"
  obtains t where "t < length (memp_pools s)" "z = pool_size s t" "p \<in> set (elements s t)"
    "p \<notin> set (free_elements s t)" "pool_of p s = t"
  using assms pool_of_element that by (auto simp: handed_iff pools_ok_def)

lemma memp_malloc_handed:
  assumes ok: "pools_ok s" and m: "memp_malloc t s = (p, s')" and p: "p \<noteq> 0"
  shows "pools_ok s'" "p \<notin> fst ` pool_handed s" "pool_handed s' = insert (p, pool_size s t) (pool_handed s)"
    "t < length (memp_pools s)" "heap s' = heap s" "p \<in> set (elements s t)"
    "memp_pools s' = memp_pools s" "memp_memory s' = memp_memory s"
proof -
  from memp_malloc_cases[OF ok, of t] obtain fs where f: "t < length (memp_pools s)"
    "free_elements s t = p # fs" "pools_ok s'" "memp_pools s' = memp_pools s"
    "memp_memory s' = memp_memory s" "heap s' = heap s"
    "\<And>u. u < length (memp_pools s) \<Longrightarrow> free_elements s' u = (if u = t then fs else free_elements s u)"
    by cases (use m p in auto)
  have fit: "pools_fit s" and t: "pool_ok s t (p # fs)" using ok f(1,2) by (auto simp: pools_ok_def)
  then have pe: "p \<in> set (elements s t)" "p \<notin> set fs" "set fs \<subseteq> set (elements s t)" by (auto simp: pool_ok_def)
  have el: "elements s' = elements s" "pool_size s' = pool_size s" by (rule same_pools[OF f(4,5)])+
  show "pools_ok s'" "t < length (memp_pools s)" "heap s' = heap s" "p \<in> set (elements s t)"
    "memp_pools s' = memp_pools s" "memp_memory s' = memp_memory s"
    using f pe by simp_all
  show "p \<notin> fst ` pool_handed s"
  proof
    assume "p \<in> fst ` pool_handed s"
    then obtain z where "(p, z) \<in> pool_handed s" by (elim imageE) (metis prod.collapse)
    then obtain u where u: "u < length (memp_pools s)" "p \<in> set (elements s u)" "p \<notin> set (free_elements s u)"
      by (auto simp: handed_iff)
    then have "u = t" using element_unique[OF fit u(2) pe(1) u(1) f(1)] by simp
    then show False using u(3) f(2) by simp
  qed
  have "(q, z) \<in> pool_handed s' \<longleftrightarrow> (q, z) \<in> insert (p, pool_size s t) (pool_handed s)" for q z
  proof
    assume "(q, z) \<in> pool_handed s'"
    then obtain u where u: "u < length (memp_pools s)" "z = pool_size s u" "q \<in> set (elements s u)"
      "q \<notin> set (free_elements s' u)" by (auto simp: handed_iff el f(4))
    show "(q, z) \<in> insert (p, pool_size s t) (pool_handed s)"
    proof (cases "u = t \<and> q = p")
      case False
      then have "q \<notin> set (free_elements s u)" using u f(1,2,7) by (auto split: if_splits)
      then show ?thesis using u by (auto simp: handed_iff)
    qed (use u in simp)
  next
    assume "(q, z) \<in> insert (p, pool_size s t) (pool_handed s)"
    then show "(q, z) \<in> pool_handed s'"
      using f(1,2,7) pe by (auto simp: handed_iff el f(4) split: if_splits)
  qed
  then show "pool_handed s' = insert (p, pool_size s t) (pool_handed s)" by auto
qed

lemma give_back_handed:
  assumes ok: "pools_ok s" and p: "(p, l) \<in> pool_handed s"
  shows "pools_ok (give_back p s)" "pool_handed (give_back p s) = pool_handed s - {(p, l)}"
    "\<And>a. a \<notin> area p l \<Longrightarrow> mem_bytes (give_back p s) a = mem_bytes s a"
    "heap (give_back p s) = (heap s)\<lparr>cells := mem_bytes (give_back p s)\<rparr>"
    "memp_pools (give_back p s) = memp_pools s" "memp_memory (give_back p s) = memp_memory s"
proof -
  obtain t where t: "t < length (memp_pools s)" "l = pool_size s t" "p \<in> set (elements s t)"
    "p \<notin> set (free_elements s t)" "pool_of p s = t" by (rule handed_cases[OF ok p])
  have fit: "pools_fit s" using ok by (simp add: pools_ok_def)
  obtain s' where f: "memp_free t p s = Some s'" "pools_ok s'" "memp_pools s' = memp_pools s"
    "memp_memory s' = memp_memory s"
    "\<And>u. u < length (memp_pools s) \<Longrightarrow> free_elements s' u = (if u = t then p # free_elements s t else free_elements s u)"
    "\<And>a. a < p \<or> p + 4 \<le> a \<Longrightarrow> mem_bytes s' a = mem_bytes s a" "heap s' = (heap s)\<lparr>cells := mem_bytes s'\<rparr>"
    by (rule memp_free_spec[OF ok t(1,3,4)]) blast
  have g: "give_back p s = s'" by (simp add: give_back_def t(5) f(1))
  have el: "elements s' = elements s" "pool_size s' = pool_size s" by (rule same_pools[OF f(3,4)])+
  show "pools_ok (give_back p s)" "heap (give_back p s) = (heap s)\<lparr>cells := mem_bytes (give_back p s)\<rparr>"
    "memp_pools (give_back p s) = memp_pools s" "memp_memory (give_back p s) = memp_memory s"
    using f by (simp_all add: g)
  show "mem_bytes (give_back p s) a = mem_bytes s a" if "a \<notin> area p l" for a
    using that f(6)[of a] pool_size_ge[OF fit t(1)] by (auto simp: g t(2))
  have "(q, z) \<in> pool_handed s' \<longleftrightarrow> (q, z) \<in> pool_handed s - {(p, l)}" for q z
  proof
    assume "(q, z) \<in> pool_handed s'"
    then obtain u where u: "u < length (memp_pools s)" "z = pool_size s u" "q \<in> set (elements s u)"
      "q \<notin> set (free_elements s' u)" by (auto simp: handed_iff el f(3))
    have "\<not> (q = p \<and> z = l)"
    proof
      assume "q = p \<and> z = l"
      then have "u = t" using element_unique[OF fit _ t(3) u(1) t(1)] u(3) by simp
      then show False using u(4) f(5)[OF t(1)] \<open>q = p \<and> z = l\<close> by simp
    qed
    then show "(q, z) \<in> pool_handed s - {(p, l)}" using u f(5)[OF u(1)] by (auto simp: handed_iff split: if_splits)
  next
    assume "(q, z) \<in> pool_handed s - {(p, l)}"
    then obtain u where u: "u < length (memp_pools s)" "z = pool_size s u" "q \<in> set (elements s u)"
      "q \<notin> set (free_elements s u)" "\<not> (q = p \<and> z = l)" by (auto simp: handed_iff)
    then have "q \<notin> set (free_elements s' u)" using f(5)[OF u(1)] t(2) by (auto split: if_splits)
    then show "(q, z) \<in> pool_handed s'" using u by (auto simp: handed_iff el f(3))
  qed
  then show "pool_handed (give_back p s) = pool_handed s - {(p, l)}" by (auto simp: g)
qed

lemma pool_areas_apart:
  assumes ok: "pools_ok s" and x: "(x, l) \<in> pool_handed s" and y: "(y, m) \<in> pool_handed s"
  shows "(x = y \<longrightarrow> l = m) \<and> (x \<noteq> y \<longrightarrow> area x l \<inter> area y m = {})"
proof -
  have fit: "pools_fit s" using ok by (simp add: pools_ok_def)
  obtain t where t: "t < length (memp_pools s)" "l = pool_size s t" "x \<in> set (elements s t)"
    using x by (auto simp: handed_iff)
  obtain u where u: "u < length (memp_pools s)" "m = pool_size s u" "y \<in> set (elements s u)"
    using y by (auto simp: handed_iff)
  show ?thesis
    using elements_apart[OF t(3) u(3) t(1) u(1)] element_unique[OF fit t(3) _ t(1) u(1)] t(2) u(2,3) by auto
qed

interpretation pools: lender "\<lambda>t s. Some (memp_malloc t s)" give_back mem_poke mem_bytes pool_handed pools_ok pool_room
proof unfold_locales
  fix s x l y m assume "pools_ok s" "(x, l) \<in> pool_handed s" "(y, m) \<in> pool_handed s"
  then show "(x = y \<longrightarrow> l = m) \<and> (x \<noteq> y \<longrightarrow> area x l \<inter> area y m = {})" by (rule pool_areas_apart)
next
  fix s n show "\<exists>p s'. Some (memp_malloc n s) = Some (p, s')" by auto
next
  fix s n s' assume ok: "pools_ok s" and m: "Some (memp_malloc n s) = Some (0, s')"
  from memp_malloc_cases[OF ok, of n] show "s' = s" by cases (use m in auto)
next
  fix s n p s' assume "pools_ok s" "Some (memp_malloc n s) = Some (p, s')" "p \<noteq> 0"
  then show "pools_ok s' \<and> p \<notin> fst ` pool_handed s \<and>
      (\<exists>l. pool_room n s \<le> l \<and> pool_handed s' = insert (p, l) (pool_handed s))"
    using memp_malloc_handed[of s n p s'] by (auto simp: pool_room_def)
next
  fix s n p s' x l a assume ok: "pools_ok s" and m: "Some (memp_malloc n s) = Some (p, s')"
  have "heap s' = heap s" by (cases rule: memp_malloc_cases[OF ok, of n]) (use m in auto)
  then show "mem_bytes s' a = mem_bytes s a" by (simp add: mem_bytes_def)
next
  fix s p l assume "pools_ok s" "(p, l) \<in> pool_handed s"
  then show "pools_ok (give_back p s) \<and> pool_handed (give_back p s) = pool_handed s - {(p, l)}"
    using give_back_handed by blast
next
  fix s p l x m a
  assume ok: "pools_ok s" and p: "(p, l) \<in> pool_handed s" and x: "(x, m) \<in> pool_handed s" "x \<noteq> p" "a \<in> area x m"
  then show "mem_bytes (give_back p s) a = mem_bytes s a"
    using pool_areas_apart[OF ok x(1) p] by (intro give_back_handed(3)[OF ok p]) blast
next
  fix s p l i b assume ok: "pools_ok s" and p: "(p, l) \<in> pool_handed s" and i: "i < l"
  obtain t where t: "t < length (memp_pools s)" "l = pool_size s t" "p \<in> set (elements s t)"
    "p \<notin> set (free_elements s t)" by (rule handed_cases[OF ok p])
  have away: "p + i < x \<or> x + 4 \<le> p + i" if "u < length (memp_pools s)" "x \<in> set (free_elements s u)" for u x
  proof -
    have "x \<in> set (elements s u)" using ok that by (auto simp: pools_ok_def pool_ok_def)
    moreover have "x \<noteq> p \<or> u \<noteq> t" using that(2) t(4) by auto
    moreover have "4 \<le> pool_size s u" using ok that(1) pool_size_ge by (simp add: pools_ok_def)
    ultimately show ?thesis using elements_apart[OF _ t(3) that(1) t(1)] i t(2) by fastforce
  qed
  have b: "mem_bytes (mem_poke (p + i) b s) = (mem_bytes s)(p + i := b)"
    by (simp add: mem_bytes_def mem_poke_def poke_def)
  show "pools_ok (mem_poke (p + i) b s) \<and> pool_handed (mem_poke (p + i) b s) = pool_handed s \<and>
      mem_bytes (mem_poke (p + i) b s) = (mem_bytes s)(p + i := b)"
    using element_write[where a = "p + i" and s' = "mem_poke (p + i) b s" and b = b, OF ok away] b
    by (simp add: mem_poke_def)
qed

end
