(* ===== verification/LwipMem.thy ===== *)
theory LwipMem
  imports Memp
begin

text \<open>
  The heap of \<open>core/mem.c\<close> and the pools of \<open>core/memp.c\<close> as one memory: each is a lender of areas
  (\<open>mheap\<close> and \<open>pools\<close>), \<open>memory\<close> joins the two, and \<open>lwip_memory\<close> adds the trim of the heap.
  \<open>memory_run\<close> is a run of the users of this memory.
\<close>

section \<open>Heap and pools in one memory\<close>

text \<open>The heap operations on the whole state.\<close>

definition heap_malloc :: "u16 \<Rightarrow> lwip_mem \<Rightarrow> (nat \<times> lwip_mem) option" where
  "heap_malloc n s = map_option (\<lambda>(p, h). (p, s\<lparr>heap := h\<rparr>)) (mem_malloc n (heap s))"

definition heap_free :: "nat \<Rightarrow> lwip_mem \<Rightarrow> lwip_mem" where
  "heap_free p s = s\<lparr>heap := mem_free p (heap s)\<rparr>"

definition heap_trim :: "nat \<Rightarrow> u16 \<Rightarrow> lwip_mem \<Rightarrow> nat \<times> lwip_mem" where
  "heap_trim p n s = (let (q, h) = mem_trim p n (heap s) in (q, s\<lparr>heap := h\<rparr>))"

text \<open>The heap lies apart from the pools.\<close>

definition regions_apart :: "lwip_mem \<Rightarrow> bool" where
  "regions_apart s \<longleftrightarrow> pool_end s \<le> ram (heap s) \<or> ram_end (heap s) + SIZEOF_STRUCT_MEM \<le> memp_memory s"

definition heap_fine :: "lwip_mem \<Rightarrow> bool" where
  "heap_fine s \<longleftrightarrow> well_formed (heap s) \<and> regions_apart s"

definition in_heap :: "nat \<Rightarrow> lwip_mem \<Rightarrow> bool" where
  "in_heap a s \<longleftrightarrow> ram (heap s) \<le> a \<and> a < ram_end (heap s) + SIZEOF_STRUCT_MEM"

lemma heap_upd [simp]:
  "heap (s\<lparr>heap := h\<rparr>) = h" "memp_pools (s\<lparr>heap := h\<rparr>) = memp_pools s" "memp_memory (s\<lparr>heap := h\<rparr>) = memp_memory s"
  "memp_tab (s\<lparr>heap := h\<rparr>) = memp_tab s" "mf (s\<lparr>heap := h\<rparr>) = mf s" "mem_bytes (s\<lparr>heap := h\<rparr>) = cells h"
  by (simp_all add: mem_bytes_def)

lemma regions_same:
  assumes "ram (heap s') = ram (heap s)" "memp_pools s' = memp_pools s" "memp_memory s' = memp_memory s"
  shows "regions_apart s' = regions_apart s" "in_heap a s' = in_heap a s"
  using assms by (simp_all add: regions_apart_def in_heap_def pool_end_def ram_end_def)

lemma hdrs_in_heap:
  assumes "heap_ok h bs" "a \<in> hdrs (ram g) bs"
  shows "ram g \<le> a \<and> a < ram_end g + SIZEOF_STRUCT_MEM"
  using hdrs_bounds[OF assms(2)] heap_ok_extent[OF assms(1)] by (simp add: ram_end_def SIZEOF_STRUCT_MEM_def)

text \<open>The heap operations keep to the heap.\<close>

lemma mem_malloc_local:
  assumes "well_formed h" "mem_malloc n h = Some (p, h')"
  shows "ram h' = ram h" "a < ram h \<or> ram_end h + SIZEOF_STRUCT_MEM \<le> a \<Longrightarrow> cells h' a = cells h a"
proof -
  have ok: "heap_ok h (heap_blocks h)" using assms(1) by (simp add: well_formed_def)
  have "ram h' = ram h \<and> (a < ram h \<or> ram_end h + SIZEOF_STRUCT_MEM \<le> a \<longrightarrow> cells h' a = cells h a)"
  proof (cases rule: malloc_cases[OF ok, of n])
    case 1
    then show ?thesis using assms(2) by simp
  next
    case (2 ds m es g)
    have "a \<notin> hdrs (ram h) (ds @ taken (unat (mem_round n)) m @ es)"
      if "a < ram h \<or> ram_end h + SIZEOF_STRUCT_MEM \<le> a"
      using hdrs_in_heap[OF 2(6), of a h] that by fastforce
    then show ?thesis using 2(5,7) 2(8)[of a] assms(2) by auto
  qed
  then show "ram h' = ram h" "a < ram h \<or> ram_end h + SIZEOF_STRUCT_MEM \<le> a \<Longrightarrow> cells h' a = cells h a"
    by blast+
qed

lemma mem_free_local:
  assumes "well_formed h" "(p, l) \<in> in_use h"
  shows "ram (mem_free p h) = ram h"
    "a < ram h \<or> ram_end h + SIZEOF_STRUCT_MEM \<le> a \<Longrightarrow> cells (mem_free p h) a = cells h a"
proof -
  have ok: "heap_ok h (heap_blocks h)" using assms(1) by (simp add: well_formed_def)
  obtain ds n es where b: "heap_blocks h = ds @ (n, True) # es" "p = ram h + extent ds + 8" "l = n - 8"
    by (rule areas_split[OF assms(2)[unfolded in_use_def]])
  note f = mem_free_used[OF ok[unfolded b(1)], folded b(2)]
  show "ram (mem_free p h) = ram h" by (rule f(2))
  show "cells (mem_free p h) a = cells h a" if "a < ram h \<or> ram_end h + SIZEOF_STRUCT_MEM \<le> a"
    using f(3)[of a] hdrs_in_heap[OF ok[unfolded b(1)], of a h] that by fastforce
qed

lemma mem_trim_local:
  assumes "well_formed h" "(p, l) \<in> in_use h" "unat n \<le> l" "mem_trim p n h = (q, h')"
  shows "ram h' = ram h" "a < ram h \<or> ram_end h + SIZEOF_STRUCT_MEM \<le> a \<Longrightarrow> cells h' a = cells h a"
proof -
  have ok: "heap_ok h (heap_blocks h)" using assms(1) by (simp add: well_formed_def)
  obtain ds k es where b: "heap_blocks h = ds @ (k, True) # es" "p = ram h + extent ds + 8" "l = k - 8"
    by (rule areas_split[OF assms(2)[unfolded in_use_def]])
  note sz = heap_ok_sizes[OF ok] and am = area_multiple[OF assms(2)[unfolded in_use_def] heap_ok_sizes[OF ok],
      unfolded heap_ok_extent[OF ok]]
  have r: "unat (mem_round n) \<le> l" by (rule mem_round_le[OF assms(3)]) (use am in auto)
  then have r8: "unat (mem_round n) + 8 \<le> k" using sz b(3) by (auto simp: b(1) sizes_ok_def)
  obtain g where g: "mem_trim p n h = (p, g)" "heap_ok g (ds @ trimmed (unat (mem_round n)) k es)"
    "ram g = ram h" "\<And>a. cells g a \<noteq> cells h a \<Longrightarrow> a \<in> hdrs (ram h) (ds @ trimmed (unat (mem_round n)) k es)"
    using mem_trim_used[OF ok[unfolded b(1)] r8, folded b(2)] by blast
  show "ram h' = ram h" using g(1,3) assms(4) by simp
  show "cells h' a = cells h a" if "a < ram h \<or> ram_end h + SIZEOF_STRUCT_MEM \<le> a"
    using g(1) g(4)[of a] hdrs_in_heap[OF g(2), of a h] that assms(4) by fastforce
qed

lemma in_use_inside:
  assumes "well_formed h" "(p, l) \<in> in_use h"
  shows "ram h + 8 \<le> p" "p + l \<le> ram_end h" "12 \<le> l" "4 dvd p"
proof -
  have ok: "heap_ok h (heap_blocks h)" using assms(1) by (simp add: well_formed_def)
  note x = assms(2)[unfolded in_use_def] and sz = heap_ok_sizes[OF ok]
  show "ram h + 8 \<le> p" "p + l \<le> ram_end h"
    using areas_bounds[OF x sz] heap_ok_extent[OF ok] by (simp_all add: ram_end_def)
  show "12 \<le> l" using area_multiple[OF x sz] by simp
  show "4 dvd p" by (rule areas_aligned[OF x sz]) (use ok in \<open>simp add: heap_ok_def\<close>)
qed

text \<open>A heap whose bytes did not change is the same heap.\<close>

lemma heap_unchanged:
  assumes "well_formed h" "ram h' = ram h" "lfree h' = lfree h"
    "\<And>a. ram h \<le> a \<Longrightarrow> a < ram_end h + SIZEOF_STRUCT_MEM \<Longrightarrow> cells h' a = cells h a"
  shows "well_formed h'" "in_use h' = in_use h"
proof -
  have ok: "heap_ok h (heap_blocks h)" using assms(1) by (simp add: well_formed_def)
  have c: "cells h' (ram h + p + i) = cells h (ram h + p + i)" if "p \<le> MEM_SIZE_ALIGNED" "i < 5" for p i
    using that by (intro assms(4)) (simp_all add: ram_end_def SIZEOF_STRUCT_MEM_def)
  have "chain h' p q bs" if "chain h p q bs" for p q bs
    using that
  proof (induction bs arbitrary: p q)
    case Nil
    then have "p \<le> MEM_SIZE_ALIGNED" by simp
    from fields_cong[of h' "ram h + p" h, OF c[OF this]] show ?case using Nil assms(2) by auto
  next
    case (Cons b bs)
    obtain n u where b: "b = (n, u)" by (cases b)
    have "p \<le> MEM_SIZE_ALIGNED" using chain_extent[OF Cons.prems] by simp
    from fields_cong[of h' "ram h + p" h, OF c[OF this]] have "is_block h' p q b"
      using Cons.prems by (simp add: is_block_def b assms(2))
    then show ?case using Cons by (simp add: b)
  qed
  then have "heap_ok h' (heap_blocks h)" using ok assms(2,3) by (simp add: heap_ok_def)
  then show "well_formed h'" "in_use h' = in_use h"
    using well_formed_iff in_use_ok assms(2) by (auto simp: in_use_def[of h])
qed


lemma heap_malloc_Some:
  "heap_malloc n s = Some (p, s') \<longleftrightarrow> (\<exists>h. mem_malloc n (heap s) = Some (p, h) \<and> s' = s\<lparr>heap := h\<rparr>)"
  by (auto simp: heap_malloc_def)

abbreviation heap_handed :: "lwip_mem \<Rightarrow> (nat \<times> nat) set" where
  "heap_handed s \<equiv> in_use (heap s)"

lemma mem_poke_simps [simp]:
  "heap (mem_poke a b s) = poke a b (heap s)" "memp_pools (mem_poke a b s) = memp_pools s"
  "memp_memory (mem_poke a b s) = memp_memory s" "memp_tab (mem_poke a b s) = memp_tab s"
  "mf (mem_poke a b s) = mf s" "mem_bytes (mem_poke a b s) = (mem_bytes s)(a := b)"
  "ram (poke a b h) = ram h" "lfree (poke a b h) = lfree h" "cells (poke a b h) = (cells h)(a := b)"
  by (simp_all add: mem_poke_def poke_def mem_bytes_def)

interpretation mheap: allocator heap_malloc heap_free mem_poke mem_bytes heap_handed heap_fine
  "\<lambda>n s. heap_room n (heap s)" heap_trim
proof unfold_locales
  fix s x l y m assume "heap_fine s" "(x, l) \<in> heap_handed s" "(y, m) \<in> heap_handed s"
  then show "(x = y \<longrightarrow> l = m) \<and> (x \<noteq> y \<longrightarrow> area x l \<inter> area y m = {})"
    using lwip.separate unfolding heap_fine_def by blast
next
  fix s n assume "heap_fine s"
  then show "\<exists>p s'. heap_malloc n s = Some (p, s')"
    using lwip.alloc_returns[of "heap s" n] by (auto simp: heap_malloc_Some heap_fine_def)
next
  fix s n s' assume "heap_fine s" "heap_malloc n s = Some (0, s')"
  then show "s' = s" using lwip.alloc_none[of "heap s" n] by (auto simp: heap_malloc_Some heap_fine_def)
next
  fix s n p s' assume ok: "heap_fine s" and m: "heap_malloc n s = Some (p, s')" and p: "p \<noteq> 0"
  obtain h where h: "mem_malloc n (heap s) = Some (p, h)" "s' = s\<lparr>heap := h\<rparr>"
    using m by (auto simp: heap_malloc_Some)
  have w: "well_formed (heap s)" using ok by (simp add: heap_fine_def)
  have "regions_apart s'"
    using regions_same(1)[of s' s] mem_malloc_local(1)[OF w h(1)] ok by (simp add: h(2) heap_fine_def)
  then show "heap_fine s' \<and> p \<notin> fst ` heap_handed s \<and>
      (\<exists>l. heap_room n (heap s) \<le> l \<and> heap_handed s' = insert (p, l) (heap_handed s))"
    using lwip.alloc_some[OF w h(1) p] by (simp add: h(2) heap_fine_def)
next
  fix s n p s' x l a
  assume "heap_fine s" "heap_malloc n s = Some (p, s')" "(x, l) \<in> heap_handed s" "a \<in> area x l"
  then show "mem_bytes s' a = mem_bytes s a"
    using lwip.alloc_keeps[of "heap s" n] by (auto simp: heap_malloc_Some heap_fine_def mem_bytes_def)
next
  fix s p l assume ok: "heap_fine s" and p: "(p, l) \<in> heap_handed s"
  have w: "well_formed (heap s)" using ok by (simp add: heap_fine_def)
  have "regions_apart (heap_free p s)"
    using regions_same(1)[of "heap_free p s" s] mem_free_local(1)[OF w p] ok by (simp add: heap_free_def heap_fine_def)
  then show "heap_fine (heap_free p s) \<and> heap_handed (heap_free p s) = heap_handed s - {(p, l)}"
    using lwip.free_area[OF w p] by (simp add: heap_free_def heap_fine_def)
next
  fix s p l x m a
  assume "heap_fine s" "(p, l) \<in> heap_handed s" "(x, m) \<in> heap_handed s" "x \<noteq> p" "a \<in> area x m"
  then show "mem_bytes (heap_free p s) a = mem_bytes s a"
    using lwip.free_keeps[of "heap s" p l x m a] by (simp add: heap_fine_def heap_free_def mem_bytes_def)
next
  fix s p l i b assume ok: "heap_fine s" and p: "(p, l) \<in> heap_handed s" and i: "i < l"
  have w: "well_formed (heap s)" using ok by (simp add: heap_fine_def)
  have "regions_apart (mem_poke (p + i) b s)"
    using regions_same(1)[of "mem_poke (p + i) b s" s] ok by (simp add: heap_fine_def)
  then show "heap_fine (mem_poke (p + i) b s) \<and> heap_handed (mem_poke (p + i) b s) = heap_handed s \<and>
      mem_bytes (mem_poke (p + i) b s) = (mem_bytes s)(p + i := b)"
    using lwip.put_area[OF w p i, of b] by (simp add: heap_fine_def)
next
  fix s p l and n :: u16 assume ok: "heap_fine s" and p: "(p, l) \<in> heap_handed s" and n: "unat n \<le> l"
  have w: "well_formed (heap s)" using ok by (simp add: heap_fine_def)
  obtain h k where h: "mem_trim p n (heap s) = (p, h)" "well_formed h" "unat n \<le> k" "k \<le> l"
    "in_use h = insert (p, k) (in_use (heap s) - {(p, l)})"
    using lwip.trim_area[OF w p n] by blast
  have "regions_apart (s\<lparr>heap := h\<rparr>)"
    using regions_same(1)[of "s\<lparr>heap := h\<rparr>" s] mem_trim_local(1)[OF w p n h(1)] ok by (simp add: heap_fine_def)
  then show "\<exists>s' k. heap_trim p n s = (p, s') \<and> heap_fine s' \<and> unat n \<le> k \<and> k \<le> l \<and>
      heap_handed s' = insert (p, k) (heap_handed s - {(p, l)})"
    using h by (auto simp: heap_trim_def heap_fine_def intro!: exI[of _ k])
next
  fix s p l and n :: u16 and q s' x m a
  assume ok: "heap_fine s" and p: "(p, l) \<in> heap_handed s" and n: "unat n \<le> l" and t: "heap_trim p n s = (q, s')"
    and x: "(x, m) \<in> heap_handed s'" "a \<in> area x m"
  obtain h where h: "mem_trim p n (heap s) = (q, h)" "s' = s\<lparr>heap := h\<rparr>"
    using t by (auto simp: heap_trim_def split: prod.splits)
  show "mem_bytes s' a = mem_bytes s a"
    using lwip.trim_keeps[of "heap s" p l n q h x m a] ok p n x h(1) by (simp add: h(2) heap_fine_def mem_bytes_def)
qed

text \<open>Which of the two a byte belongs to.\<close>

lemma heap_area_inside:
  assumes "heap_fine s" "(x, l) \<in> heap_handed s" "a \<in> area x l"
  shows "in_heap a s"
  using in_use_inside[of "heap s" x l] assms by (auto simp: heap_fine_def in_heap_def)

lemma pool_area_inside:
  assumes "pools_ok s" "(x, l) \<in> pool_handed s"
  shows "memp_memory s \<le> x" "x + l \<le> pool_end s" "4 \<le> l"
proof -
  obtain t where t: "t < length (memp_pools s)" "l = pool_size s t" "x \<in> set (elements s t)"
    using assms(2) by (auto simp: handed_iff)
  show "memp_memory s \<le> x" "x + l \<le> pool_end s" "4 \<le> l"
    using element_bounds[OF t(3,1)] pool_size_ge[OF _ t(1)] assms(1) by (simp_all add: t(2) pools_ok_def)
qed

lemma pool_outside:
  assumes "regions_apart s" "memp_memory s \<le> a" "a < pool_end s"
  shows "\<not> in_heap a s"
  using assms by (auto simp: regions_apart_def in_heap_def)

text \<open>Pools whose bytes did not change are the same pools.\<close>

lemma pools_unchanged:
  assumes ok: "pools_ok s" and same: "memp_pools s' = memp_pools s" "memp_memory s' = memp_memory s"
      "memp_tab s' = memp_tab s"
    and b: "\<And>a. memp_memory s \<le> a \<Longrightarrow> a < pool_end s \<Longrightarrow> mem_bytes s' a = mem_bytes s a"
  shows "pools_ok s'" "pool_handed s' = pool_handed s"
proof -
  have fit: "pools_fit s" using ok by (simp add: pools_ok_def)
  have el: "elements s' = elements s" "pool_size s' = pool_size s" by (rule same_pools[OF same(1,2)])+
  have "pool_ok s' u (free_elements s u)" if u: "u < length (memp_pools s)" for u
  proof -
    have p: "pool_ok s u (free_elements s u)" using ok u by (simp add: pools_ok_def)
    have "linked (mem_bytes s') (memp_tab s ! u) (free_elements s u)"
    proof (rule linked_cong)
      show "linked (mem_bytes s) (memp_tab s ! u) (free_elements s u)" using p by (simp add: pool_ok_def)
      show "load_ptr (mem_bytes s') x = load_ptr (mem_bytes s) x" if "x \<in> set (free_elements s u)" for x
      proof (rule load_ptr_cong)
        fix a assume "x \<le> a" "a < x + 4"
        moreover have "x \<in> set (elements s u)" using p that by (auto simp: pool_ok_def)
        ultimately show "mem_bytes s' a = mem_bytes s a"
          using element_bounds[OF _ u, of x] pool_size_ge[OF fit u] by (intro b) simp_all
      qed
    qed
    then show ?thesis using p by (simp add: pool_ok_def same(3) el)
  qed
  note n = new_lists[OF ok same(1,2) _ this]
  show "pools_ok s'" using n(1) by (simp add: same(3))
  have f: "free_elements s' u = free_elements s u" if "u < length (memp_pools s)" for u
    using n(2) that by (simp add: same(3))
  have "x \<in> pool_handed s' \<longleftrightarrow> x \<in> pool_handed s" for x
    by (cases x) (auto simp: handed_iff el same(1) f)
  then show "pool_handed s' = pool_handed s" by blast
qed


lemma malloc_keeps_pools:
  assumes "heap_fine s" "pools_ok s" "heap_malloc n s = Some (p, s')"
  shows "pools_ok s'" "pool_handed s' = pool_handed s"
    "(x, l) \<in> pool_handed s \<Longrightarrow> a \<in> area x l \<Longrightarrow> mem_bytes s' a = mem_bytes s a"
proof -
  obtain h where h: "mem_malloc n (heap s) = Some (p, h)" "s' = s\<lparr>heap := h\<rparr>"
    using assms(3) by (auto simp: heap_malloc_Some)
  have r: "well_formed (heap s)" "regions_apart s" using assms(1) by (simp_all add: heap_fine_def)
  have b: "mem_bytes s' a = mem_bytes s a" if "memp_memory s \<le> a" "a < pool_end s" for a
    using mem_malloc_local(2)[OF r(1) h(1), of a] pool_outside[OF r(2) that]
    by (auto simp: h(2) in_heap_def mem_bytes_def)
  then show "pools_ok s'" "pool_handed s' = pool_handed s"
    using pools_unchanged[OF assms(2), of s'] by (simp_all add: h(2))
  show "mem_bytes s' a = mem_bytes s a" if "(x, l) \<in> pool_handed s" "a \<in> area x l"
    by (rule b) (use pool_area_inside[OF assms(2) that(1)] that(2) in simp_all)
qed

lemma free_keeps_pools:
  assumes "heap_fine s" "pools_ok s" "(p, l) \<in> heap_handed s"
  shows "pools_ok (heap_free p s)" "pool_handed (heap_free p s) = pool_handed s"
    "(x, m) \<in> pool_handed s \<Longrightarrow> a \<in> area x m \<Longrightarrow> mem_bytes (heap_free p s) a = mem_bytes s a"
proof -
  have r: "well_formed (heap s)" "regions_apart s" using assms(1) by (simp_all add: heap_fine_def)
  have b: "mem_bytes (heap_free p s) a = mem_bytes s a" if "memp_memory s \<le> a" "a < pool_end s" for a
    using mem_free_local(2)[OF r(1) assms(3), of a] pool_outside[OF r(2) that]
    by (auto simp: heap_free_def in_heap_def mem_bytes_def)
  then show "pools_ok (heap_free p s)" "pool_handed (heap_free p s) = pool_handed s"
    using pools_unchanged[OF assms(2), of "heap_free p s"] by (simp_all add: heap_free_def)
  show "mem_bytes (heap_free p s) a = mem_bytes s a" if "(x, m) \<in> pool_handed s" "a \<in> area x m"
    by (rule b) (use pool_area_inside[OF assms(2) that(1)] that(2) in simp_all)
qed

lemma keeps_heap:
  assumes "heap_fine s" "heap s' = (heap s)\<lparr>cells := mem_bytes s'\<rparr>"
    "memp_pools s' = memp_pools s" "memp_memory s' = memp_memory s"
    "\<And>a. in_heap a s \<Longrightarrow> mem_bytes s' a = mem_bytes s a"
  shows "heap_fine s'" "heap_handed s' = heap_handed s"
proof -
  have e: "ram (heap s') = ram (heap s)" "lfree (heap s') = lfree (heap s)" by (subst assms(2), simp)+
  have r: "well_formed (heap s)" "regions_apart s" using assms(1) by (simp_all add: heap_fine_def)
  have "cells (heap s') a = cells (heap s) a" if "ram (heap s) \<le> a" "a < ram_end (heap s) + SIZEOF_STRUCT_MEM" for a
    using assms(5)[of a] that by (simp add: in_heap_def mem_bytes_def)
  note u = heap_unchanged[OF r(1) e this]
  show "heap_handed s' = heap_handed s" by (rule u(2))
  show "heap_fine s'" using u(1) regions_same(1)[OF e(1) assms(3,4)] r(2) by (simp add: heap_fine_def)
qed

interpretation memory: two_lenders heap_malloc heap_free mem_poke mem_bytes heap_handed heap_fine
  "\<lambda>n s. heap_room n (heap s)" "\<lambda>t s. Some (memp_malloc t s)" give_back pool_handed pools_ok pool_room in_heap
proof unfold_locales
  fix s x l y m
  assume ok: "heap_fine s" "pools_ok s" and x: "(x, l) \<in> heap_handed s" and y: "(y, m) \<in> pool_handed s"
  have "12 \<le> l" using in_use_inside[OF _ x] ok(1) by (simp add: heap_fine_def)
  moreover have "\<not> in_heap a s" if "a \<in> area y m" for a
    using pool_outside[of s a] pool_area_inside[OF ok(2) y] ok(1) that by (simp add: heap_fine_def)
  ultimately show "x \<noteq> y \<and> area x l \<inter> area y m = {}"
    using heap_area_inside[OF ok(1) x] pool_area_inside(3)[OF ok(2) y] by fastforce
next
  fix s x l assume "heap_fine s" "(x, l) \<in> heap_handed s"
  then show "in_heap x s"
    using heap_area_inside[of s x l x] in_use_inside(3)[of "heap s" x l] by (simp add: heap_fine_def)
next
  fix s x l assume "heap_fine s" "pools_ok s" "(x, l) \<in> pool_handed s"
  then show "\<not> in_heap x s"
    using pool_outside[of s x] pool_area_inside[of s x l] by (simp add: heap_fine_def)
next
  fix s n p s' assume ok: "heap_fine s" "pools_ok s" and m: "heap_malloc n s = Some (p, s')"
  show "pools_ok s' \<and> pool_handed s' = pool_handed s \<and>
      (\<forall>x l a. (x, l) \<in> pool_handed s \<longrightarrow> a \<in> area x l \<longrightarrow> mem_bytes s' a = mem_bytes s a)"
    using malloc_keeps_pools[OF ok m] by blast
next
  fix s q p s' assume ok: "heap_fine s" "pools_ok s" and m: "Some (memp_malloc q s) = Some (p, s')"
  have h: "heap s' = heap s" "memp_pools s' = memp_pools s" "memp_memory s' = memp_memory s"
    by (cases rule: memp_malloc_cases[OF ok(2), of q]; use m in auto)+
  then show "heap_fine s' \<and> heap_handed s' = heap_handed s \<and>
      (\<forall>x l a. (x, l) \<in> heap_handed s \<longrightarrow> a \<in> area x l \<longrightarrow> mem_bytes s' a = mem_bytes s a)"
    using ok(1) regions_same(1)[of s' s] by (simp add: heap_fine_def mem_bytes_def)
next
  fix s p l assume ok: "heap_fine s" "pools_ok s" and p: "(p, l) \<in> heap_handed s"
  show "pools_ok (heap_free p s) \<and> pool_handed (heap_free p s) = pool_handed s \<and>
      (\<forall>x m a. (x, m) \<in> pool_handed s \<longrightarrow> a \<in> area x m \<longrightarrow> mem_bytes (heap_free p s) a = mem_bytes s a)"
    using free_keeps_pools[OF ok p] by blast
next
  fix s p l assume ok: "heap_fine s" "pools_ok s" and p: "(p, l) \<in> pool_handed s"
  note g = give_back_handed[OF ok(2) p]
  have r: "regions_apart s" using ok(1) by (simp add: heap_fine_def)
  have away: "mem_bytes (give_back p s) a = mem_bytes s a" if "in_heap a s" for a
  proof (rule g(3))
    show "a \<notin> area p l"
    proof
      assume "a \<in> area p l"
      then have "\<not> in_heap a s" using pool_area_inside[OF ok(2) p] by (intro pool_outside[OF r]) simp_all
      then show False using that by contradiction
    qed
  qed
  note k = keeps_heap[OF ok(1) g(4,5,6) away]
  show "heap_fine (give_back p s) \<and> heap_handed (give_back p s) = heap_handed s \<and>
      (\<forall>x m a. (x, m) \<in> heap_handed s \<longrightarrow> a \<in> area x m \<longrightarrow> mem_bytes (give_back p s) a = mem_bytes s a)"
    using k away heap_area_inside[OF ok(1)] by blast
next
  fix s p l i b assume ok: "heap_fine s" "pools_ok s" and p: "(p, l) \<in> heap_handed s" and i: "i < l"
  have "in_heap (p + i) s" using heap_area_inside[OF ok(1) p, of "p + i"] i by simp
  then have "mem_bytes (mem_poke (p + i) b s) a = mem_bytes s a" if "memp_memory s \<le> a" "a < pool_end s" for a
    using pool_outside[OF _ that] ok(1) by (auto simp: heap_fine_def)
  then show "pools_ok (mem_poke (p + i) b s) \<and> pool_handed (mem_poke (p + i) b s) = pool_handed s"
    using pools_unchanged[OF ok(2), of "mem_poke (p + i) b s"] by simp
next
  fix s p l i b assume ok: "heap_fine s" "pools_ok s" and p: "(p, l) \<in> pool_handed s" and i: "i < l"
  have "\<not> in_heap (p + i) s"
    using pool_outside[of s "p + i"] pool_area_inside[OF ok(2) p] ok(1) i by (simp add: heap_fine_def)
  then have "mem_bytes (mem_poke (p + i) b s) a = mem_bytes s a" if "in_heap a s" for a using that by auto
  from keeps_heap[OF ok(1) _ _ _ this]
  show "heap_fine (mem_poke (p + i) b s) \<and> heap_handed (mem_poke (p + i) b s) = heap_handed s"
    by (simp add: poke_def mem_bytes_def mem_poke_def)
qed


text \<open>Making an area smaller: only the heap does it.\<close>

definition trim_area_of :: "nat \<Rightarrow> u16 \<Rightarrow> lwip_mem \<Rightarrow> nat \<times> lwip_mem" where
  "trim_area_of p n s = (if in_heap p s then heap_trim p n s else (p, s))"

lemma trim_keeps_pools:
  assumes "heap_fine s" "pools_ok s" "(p, l) \<in> heap_handed s" "unat n \<le> l" "heap_trim p n s = (q, s')"
  shows "pools_ok s'" "pool_handed s' = pool_handed s"
    "(x, m) \<in> pool_handed s \<Longrightarrow> a \<in> area x m \<Longrightarrow> mem_bytes s' a = mem_bytes s a"
    "memp_pools s' = memp_pools s" "memp_memory s' = memp_memory s" "mf s' = mf s"
proof -
  obtain h where h: "mem_trim p n (heap s) = (q, h)" "s' = s\<lparr>heap := h\<rparr>"
    using assms(5) by (auto simp: heap_trim_def split: prod.splits)
  have r: "well_formed (heap s)" "regions_apart s" using assms(1) by (simp_all add: heap_fine_def)
  have b: "mem_bytes s' a = mem_bytes s a" if "memp_memory s \<le> a" "a < pool_end s" for a
    using mem_trim_local(2)[OF r(1) assms(3,4) h(1), of a] pool_outside[OF r(2) that]
    by (auto simp: h(2) in_heap_def mem_bytes_def)
  then show "pools_ok s'" "pool_handed s' = pool_handed s"
    using pools_unchanged[OF assms(2), of s'] by (simp_all add: h(2))
  show "mem_bytes s' a = mem_bytes s a" if "(x, m) \<in> pool_handed s" "a \<in> area x m"
    by (rule b) (use pool_area_inside[OF assms(2) that(1)] that(2) in simp_all)
  show "memp_pools s' = memp_pools s" "memp_memory s' = memp_memory s" "mf s' = mf s" by (simp_all add: h(2))
qed

lemma both_cases:
  assumes "heap_fine s \<and> pools_ok s" "(p, l) \<in> memory.handed_both s"
  obtains (heap) "(p, l) \<in> heap_handed s" "in_heap p s" | (pool) "(p, l) \<in> pool_handed s" "\<not> in_heap p s"
  using assms memory.mine memory.theirs by (auto simp: memory.handed_both_def)

interpretation lwip_memory: allocator memory.alloc_both memory.free_both mem_poke mem_bytes memory.handed_both
  "\<lambda>s. heap_fine s \<and> pools_ok s" memory.room_both trim_area_of
proof unfold_locales
  fix s p l and n :: u16
  assume ok: "heap_fine s \<and> pools_ok s" and p: "(p, l) \<in> memory.handed_both s" and n: "unat n \<le> l"
  show "\<exists>s' k. trim_area_of p n s = (p, s') \<and> (heap_fine s' \<and> pools_ok s') \<and> unat n \<le> k \<and> k \<le> l \<and>
      memory.handed_both s' = insert (p, k) (memory.handed_both s - {(p, l)})"
  proof (cases rule: both_cases[OF ok p, case_names heap pool])
    case heap
    obtain s' k where s': "heap_trim p n s = (p, s')" "heap_fine s'" "unat n \<le> k" "k \<le> l"
      "heap_handed s' = insert (p, k) (heap_handed s - {(p, l)})"
      using mheap.trim_area[OF _ heap(1) n] ok by blast
    have "(p, l) \<notin> pool_handed s" using memory.apart[of s p l p l] ok heap(1) by blast
    then have "memory.handed_both s' = insert (p, k) (memory.handed_both s - {(p, l)})"
      using trim_keeps_pools(2)[OF _ _ heap(1) n s'(1)] s'(5) ok by (auto simp: memory.handed_both_def)
    then show ?thesis
      using s' trim_keeps_pools(1)[OF _ _ heap(1) n s'(1)] ok heap(2)
      by (intro exI[of _ s'] exI[of _ k]) (simp add: trim_area_of_def)
  next
    case pool
    then show ?thesis using ok p n by (intro exI[of _ s] exI[of _ l]) (auto simp: trim_area_of_def)
  qed
next
  fix s p l and n :: u16 and q s' x m a
  assume ok: "heap_fine s \<and> pools_ok s" and p: "(p, l) \<in> memory.handed_both s" and n: "unat n \<le> l"
    and t: "trim_area_of p n s = (q, s')" and x: "(x, m) \<in> memory.handed_both s'" "a \<in> area x m"
  show "mem_bytes s' a = mem_bytes s a"
  proof (cases rule: both_cases[OF ok p, case_names heap pool])
    case heap
    have t: "heap_trim p n s = (q, s')" using t heap(2) by (simp add: trim_area_of_def)
    have "(x, m) \<in> heap_handed s' \<or> (x, m) \<in> pool_handed s"
      using x(1) trim_keeps_pools(2)[OF _ _ heap(1) n t] ok by (auto simp: memory.handed_both_def)
    then show ?thesis
      using mheap.trim_keeps[OF _ heap(1) n t, of x m a] trim_keeps_pools(3)[OF _ _ heap(1) n t, of x m a] ok x(2)
      by blast
  next
    case pool
    then show ?thesis using t by (simp add: trim_area_of_def)
  qed
qed

section \<open>Runs of a program over the memory\<close>

text \<open>\<open>lwip_init\<close> sets up both; then requests, frees, trims of the heap and writes, with what each
  owner wrote last.  An owner may use what its request is good for: the bytes it asked for, or
  the size of the element; 12 bytes when the request was larger than 65532 (see
  \<open>heap_room\<close>).\<close>

inductive memory_run :: "lwip_mem \<Rightarrow> (nat \<rightharpoonup> bytes) \<Rightarrow> bool" where
  init: "8 \<le> ram (heap s) \<Longrightarrow> 4 dvd ram (heap s) \<Longrightarrow> pools_fit s \<Longrightarrow> regions_apart s \<Longrightarrow> mf s = 0 \<Longrightarrow>
    memory_run (memp_init (s\<lparr>heap := mem_init (heap s)\<rparr>)) Map.empty"
| malloc: "memory_run s m \<Longrightarrow> heap_malloc n s = Some (p, s') \<Longrightarrow> p \<noteq> 0 \<Longrightarrow>
    memory_run s' (m(p \<mapsto> map (mem_bytes s') [p ..< p + heap_room n (heap s)]))"
| no_heap: "memory_run s m \<Longrightarrow> heap_malloc n s = Some (0, s') \<Longrightarrow> memory_run s' m"
| element: "memory_run s m \<Longrightarrow> memp_malloc t s = (p, s') \<Longrightarrow> p \<noteq> 0 \<Longrightarrow>
    memory_run s' (m(p \<mapsto> map (mem_bytes s') [p ..< p + pool_size s t]))"
| no_element: "memory_run s m \<Longrightarrow> memp_malloc t s = (0, s') \<Longrightarrow> memory_run s' m"
| free: "memory_run s m \<Longrightarrow> m p = Some d \<Longrightarrow> in_heap p s \<Longrightarrow> memory_run (heap_free p s) (m(p := None))"
| free_element: "memory_run s m \<Longrightarrow> m p = Some d \<Longrightarrow> t < length (memp_pools s) \<Longrightarrow> p \<in> set (elements s t) \<Longrightarrow>
    memp_free t p s = Some s' \<Longrightarrow> memory_run s' (m(p := None))"
| trim: "memory_run s m \<Longrightarrow> m p = Some d \<Longrightarrow> in_heap p s \<Longrightarrow> unat n \<le> length d \<Longrightarrow> heap_trim p n s = (q, s') \<Longrightarrow>
    memory_run s' (m(p \<mapsto> take (unat n) d))"
| store: "memory_run s m \<Longrightarrow> m p = Some d \<Longrightarrow> i < length d \<Longrightarrow>
    memory_run (mem_poke (p + i) b s) (m(p \<mapsto> d[i := b]))"

text \<open>The TCP connections in use.\<close>

definition tcp_pcbs :: "lwip_mem \<Rightarrow> nat set" where
  "tcp_pcbs s = {p \<in> fst ` pool_handed s. pool_of p s = MEMP_TCP_PCB}"


lemma finite_pool_handed: "finite (pool_handed s)"
proof -
  have "pool_handed s \<subseteq> (\<Union>t < length (memp_pools s). (\<lambda>p. (p, pool_size s t)) ` set (elements s t))"
    by (fastforce simp: handed_iff)
  then show ?thesis by (rule finite_subset) simp
qed

lemma finite_tcp_pcbs: "finite (tcp_pcbs s)"
  by (simp add: tcp_pcbs_def finite_pool_handed)

lemma pool_of_same:
  "memp_pools s' = memp_pools s \<Longrightarrow> memp_memory s' = memp_memory s \<Longrightarrow> pool_of p s' = pool_of p s"
  using same_pools(1)[of s' s] by (simp add: pool_of_def)

lemma tcp_pcbs_same:
  assumes "memp_pools s' = memp_pools s" "memp_memory s' = memp_memory s" "pool_handed s' = pool_handed s"
  shows "tcp_pcbs s' = tcp_pcbs s"
  by (simp only: tcp_pcbs_def pool_of_same[OF assms(1,2)] assms(3))

text \<open>\<open>mf\<close> counts them.\<close>

definition mf_counts :: "lwip_mem \<Rightarrow> bool" where
  "mf_counts s \<longleftrightarrow> mf s = word_of_nat (card (tcp_pcbs s))"

lemma mf_counts_same:
  assumes "memp_pools s' = memp_pools s" "memp_memory s' = memp_memory s" "pool_handed s' = pool_handed s"
    "mf s' = mf s" "mf_counts s"
  shows "mf_counts s'"
  using assms(4,5) by (simp only: mf_counts_def tcp_pcbs_same[OF assms(1-3)])

lemma mf_counts_malloc:
  assumes ok: "pools_ok s" and m: "memp_malloc t s = (p, s')" and c: "mf_counts s"
  shows "mf_counts s'"
proof (cases "p = 0")
  case True
  have "s' = s" by (cases rule: memp_malloc_cases[OF ok, of t]) (use m True in auto)
  then show ?thesis using c by simp
next
  case False
  note h = memp_malloc_handed[OF ok m False]
  have fit: "pools_fit s" using ok by (simp add: pools_ok_def)
  have t: "pool_of p s = t" by (rule pool_of_element[OF fit h(6,4)])
  have mf': "mf s' = (if t = MEMP_TCP_PCB then mf s + 1 else mf s)"
    by (cases rule: memp_malloc_cases[OF ok, of t]) (use m False in auto)
  have "tcp_pcbs s' = (if t = MEMP_TCP_PCB then insert p (tcp_pcbs s) else tcp_pcbs s)"
    using t by (auto simp: tcp_pcbs_def h(3) pool_of_same[OF h(7,8)])
  moreover have "p \<notin> tcp_pcbs s" using h(2) by (simp add: tcp_pcbs_def)
  ultimately show ?thesis using c mf' by (simp add: mf_counts_def finite_tcp_pcbs)
qed

lemma mf_counts_free:
  assumes ok: "pools_ok s" and p: "(p, l) \<in> pool_handed s" and c: "mf_counts s"
  shows "mf_counts (give_back p s)"
proof -
  obtain t where t: "t < length (memp_pools s)" "l = pool_size s t" "p \<in> set (elements s t)"
    "p \<notin> set (free_elements s t)" "pool_of p s = t" by (rule handed_cases[OF ok p])
  obtain s' where f: "memp_free t p s = Some s'" "mf s' = (if t = MEMP_TCP_PCB then mf s - 1 else mf s)"
    by (rule memp_free_spec[OF ok t(1,3,4)]) blast
  have g: "give_back p s = s'" by (simp add: give_back_def t(5) f(1))
  note h = give_back_handed[OF ok p]
  have rest: "tcp_pcbs s' = tcp_pcbs s - {p}"
    unfolding g[symmetric] tcp_pcbs_def h(2) pool_of_same[OF h(5,6)] pools.handed_diff[OF ok p] by auto
  have iff: "p \<in> tcp_pcbs s \<longleftrightarrow> t = MEMP_TCP_PCB" using p t(5) by (auto simp: tcp_pcbs_def intro: rev_image_eqI)
  show ?thesis
  proof (cases "t = MEMP_TCP_PCB")
    case True
    have "card (tcp_pcbs s) = Suc (card (tcp_pcbs s'))"
      unfolding rest by (rule card_Suc_Diff1[symmetric, OF finite_tcp_pcbs]) (simp add: iff True)
    then have "(word_of_nat (card (tcp_pcbs s)) :: u32) = word_of_nat (card (tcp_pcbs s')) + 1" by simp
    then show ?thesis using c f(2) True by (simp add: mf_counts_def g)
  next
    case False
    then have "tcp_pcbs s' = tcp_pcbs s" using rest iff by blast
    then show ?thesis using c f(2) False by (simp add: mf_counts_def g)
  qed
qed

text \<open>What a run keeps.\<close>

lemma memory_holds_area:
  assumes "memory.both.holds s m" "m p = Some d"
  obtains l where "heap_fine s \<and> pools_ok s" "(p, l) \<in> memory.handed_both s" "length d \<le> l"
    "map (mem_bytes s) [p ..< p + length d] = d"
  using memory.both.holdsD[OF assms] assms(1) by (auto simp: memory.both.holds_def)

lemma fresh_memory:
  assumes "8 \<le> ram (heap s)" "4 dvd ram (heap s)" "pools_fit s" "regions_apart s" "mf s = 0"
  defines "s' \<equiv> memp_init (s\<lparr>heap := mem_init (heap s)\<rparr>)"
  shows "memory.both.holds s' Map.empty" "mf_counts s'" "memp_pools s' = memp_pools s"
    "memp_memory s' = memp_memory s" "ram (heap s') = ram (heap s)"
    "heap_fine s' \<and> pools_ok s'" "memory.handed_both s' = {}"
proof -
  define s1 where "s1 = s\<lparr>heap := mem_init (heap s)\<rparr>"
  have ok: "heap_ok (mem_init (heap s)) [(MEM_SIZE_ALIGNED, False)]" using mem_init_ok assms(1,2) by blast
  have r1: "ram (mem_init (heap s)) = ram (heap s)" by (simp add: mem_init_def Let_def)
  have w: "well_formed (heap s1)" using ok well_formed_iff by (auto simp: s1_def)
  have u: "heap_handed s1 = {}" using in_use_ok[OF ok] by (simp add: s1_def)
  have fine: "heap_fine s1" using w assms(4) regions_same(1)[of s1 s] r1 by (simp add: heap_fine_def s1_def)
  have fit: "pools_fit s1" using assms(3) same_pools(4)[of s1 s] by (simp add: s1_def)
  note i = memp_init_ok[OF fit]
  have s': "memp_pools s' = memp_pools s" "memp_memory s' = memp_memory s"
    "heap s' = (heap s1)\<lparr>cells := mem_bytes s'\<rparr>" "s' = memp_init s1"
    by (simp_all add: s'_def s1_def memp_init_def set_bytes_def mem_bytes_def split: prod.splits)
  have away: "mem_bytes s' a = mem_bytes s1 a" if "in_heap a s1" for a
  proof -
    have "\<not> (memp_memory s1 \<le> a \<and> a < pool_end s1)" using pool_outside fine that by (auto simp: heap_fine_def)
    then show ?thesis using i(3)[of a] by (auto simp: s'(4))
  qed
  have k: "heap_fine s'" "heap_handed s' = heap_handed s1"
    by (rule keeps_heap[OF fine s'(3)]; use s' away in \<open>simp add: s1_def\<close>)+
  show all: "heap_fine s' \<and> pools_ok s'" using k i(1) by (simp add: s'(4))
  show none: "memory.handed_both s' = {}" using k(2) u i(2) by (simp add: memory.handed_both_def s'(4))
  show "memory.both.holds s' Map.empty" using all none by (simp add: memory.both.holds_def)
  show "mf_counts s'" using i(2,4) assms(5) by (simp add: mf_counts_def tcp_pcbs_def s'(4) s1_def)
  show "memp_pools s' = memp_pools s" "memp_memory s' = memp_memory s" by (rule s')+
  show "ram (heap s') = ram (heap s)" by (subst s'(3)) (simp add: s1_def r1)
qed

lemma memory_run_holds: "memory_run s m \<Longrightarrow> memory.both.holds s m \<and> mf_counts s"
proof (induction rule: memory_run.induct)
  case (init s)
  then show ?case using fresh_memory by blast
next
  case (malloc s m n p s')
  have "memory.alloc_both (Inl n) s = Some (p, s')" using malloc(2) by (simp add: memory.alloc_both_def)
  moreover have "heap_room n (heap s) \<le> memory.room_both (Inl n) s" by (simp only: memory.room_both_def sum.case)
  ultimately have h: "memory.both.holds s' (m(p \<mapsto> map (mem_bytes s') [p ..< p + heap_room n (heap s)]))"
    using memory.both.holds_alloc malloc by blast
  have ok: "heap_fine s" "pools_ok s" using malloc.IH by (simp_all add: memory.both.holds_def)
  have "mf_counts s'"
    by (rule mf_counts_same[of s' s]) (use malloc_keeps_pools(2)[OF ok malloc(2)] malloc in \<open>auto simp: heap_malloc_Some\<close>)
  then show ?case using h by blast
next
  case (no_heap s m n s')
  then have "s' = s" using mheap.alloc_none by (auto simp: memory.both.holds_def)
  then show ?case using no_heap by simp
next
  case (element s m t p s')
  have ok: "pools_ok s" using element.IH by (simp add: memory.both.holds_def)
  have "memory.alloc_both (Inr t) s = Some (p, s')" using element(2) by (simp add: memory.alloc_both_def)
  moreover have "pool_size s t \<le> memory.room_both (Inr t) s"
    using memp_malloc_handed(4)[OF ok element(2,3)] by (simp add: memory.room_both_def pool_room_def)
  ultimately show ?case using memory.both.holds_alloc element mf_counts_malloc[OF ok element(2)] by blast
next
  case (no_element s m t s')
  then have ok: "pools_ok s" by (simp add: memory.both.holds_def)
  have "s' = s" by (cases rule: memp_malloc_cases[OF ok, of t]) (use no_element in auto)
  then show ?case using no_element by simp
next
  case (free s m p d)
  obtain l where l: "heap_fine s \<and> pools_ok s" "(p, l) \<in> memory.handed_both s"
    by (rule memory_holds_area[OF conjunct1[OF free.IH] free(2)])
  have p: "(p, l) \<in> heap_handed s"
    by (cases rule: both_cases[OF l]) (use free(3) in auto)
  have "memory.free_both p s = heap_free p s" using free(3) by (simp add: memory.free_both_def)
  moreover have "mf_counts (heap_free p s)"
    by (rule mf_counts_same[of _ s]) (use free_keeps_pools(2)[OF _ _ p] l free in \<open>auto simp: heap_free_def\<close>)
  moreover have "memory.both.holds (heap_free p s) (m(p := None))"
    using memory.both.holds_free[OF conjunct1[OF free.IH] free(2)] \<open>memory.free_both p s = heap_free p s\<close> by metis
  ultimately show ?case by blast
next
  case (free_element s m p d t s')
  obtain l where l: "heap_fine s \<and> pools_ok s" "(p, l) \<in> memory.handed_both s"
    by (rule memory_holds_area[OF conjunct1[OF free_element.IH] free_element(2)])
  have fit: "pools_fit s" using l(1) by (simp add: pools_ok_def)
  have "\<not> in_heap p s"
    using pool_outside[of s p] element_bounds[OF free_element(4,3)] pool_size_ge[OF fit free_element(3)] l(1)
    by (simp add: heap_fine_def)
  then have p: "(p, l) \<in> pool_handed s" and fb: "memory.free_both p s = give_back p s"
    by (cases rule: both_cases[OF l]; simp add: memory.free_both_def)+
  have "give_back p s = s'"
    using pool_of_element[OF fit free_element(4,3)] free_element(5) by (simp add: give_back_def)
  moreover have "mf_counts (give_back p s)" using mf_counts_free[OF _ p] l(1) free_element.IH by blast
  ultimately show ?case
    using memory.both.holds_free[OF conjunct1[OF free_element.IH] free_element(2)] fb by metis
next
  case (trim s m p d n q s')
  obtain l where l: "heap_fine s \<and> pools_ok s" "(p, l) \<in> memory.handed_both s" "length d \<le> l"
    by (rule memory_holds_area[OF conjunct1[OF trim.IH] trim(2)])
  have p: "(p, l) \<in> heap_handed s"
    by (cases rule: both_cases[OF l(1,2)]) (use trim(3) in auto)
  have n: "unat n \<le> l" using trim(4) l(3) by simp
  note k = trim_keeps_pools[OF _ _ p n trim(5)]
  have "trim_area_of p n s = (q, s')" using trim(3,5) by (simp add: trim_area_of_def)
  then have "memory.both.holds s' (m(p \<mapsto> take (unat n) d))"
    using lwip_memory.holds_trim(2)[OF conjunct1[OF trim.IH] trim(2,4)] by blast
  moreover have "mf_counts s'" by (rule mf_counts_same[of s' s]) (use k l(1) trim.IH in auto)
  ultimately show ?case by blast
next
  case (store s m p d i b)
  obtain l where l: "heap_fine s \<and> pools_ok s" "(p, l) \<in> memory.handed_both s" "length d \<le> l"
    by (rule memory_holds_area[OF conjunct1[OF store.IH] store(2)])
  have i: "i < l" using store(3) l(3) by simp
  have same: "pool_handed (mem_poke (p + i) b s) = pool_handed s"
  proof (cases rule: both_cases[OF l(1,2), case_names heap pool])
    case heap
    then show ?thesis using memory.put_frame[OF _ _ heap(1) i] l(1) by blast
  next
    case pool
    then show ?thesis using pools.put_area[OF _ pool(1) i] l(1) by blast
  qed
  have "mf_counts (mem_poke (p + i) b s)"
    by (rule mf_counts_same[OF _ _ same]) (use store.IH in simp_all)
  then show ?case using memory.both.holds_put[OF conjunct1[OF store.IH] store(2,3)] by blast
qed


lemma pools_ok_fit: "pools_ok s \<Longrightarrow> pools_fit s"
  by (simp add: pools_ok_def)

lemma holds_ok:
  assumes "memory.both.holds s m"
  shows "heap_fine s" "pools_ok s" "pools_fit s" "dom m = fst ` memory.handed_both s"
proof -
  show "heap_fine s" "pools_ok s" "dom m = fst ` memory.handed_both s"
    using assms by (simp_all add: memory.both.holds_def)
  then show "pools_fit s" using pools_ok_fit by blast
qed

lemma pool_of_iff:
  assumes "pools_fit s" "t < length (memp_pools s)"
  shows "pool_of p s = t \<longleftrightarrow> p \<in> set (elements s t)"
proof
  assume t: "pool_of p s = t"
  define F where "F = filter (\<lambda>t. p \<in> set (elements s t)) [0 ..< length (memp_pools s)]"
  have "F \<noteq> []" using t assms(2) by (auto simp: pool_of_def F_def)
  then have "hd F = t" using t by (simp add: pool_of_def F_def)
  then have "t \<in> set F" using \<open>F \<noteq> []\<close> hd_in_set by metis
  then show "p \<in> set (elements s t)" by (simp add: F_def)
qed (rule pool_of_element[OF assms(1) _ assms(2)])

lemma in_heap_no_pool:
  assumes "heap_fine s" "pools_ok s" "in_heap p s"
  shows "pool_of p s = length (memp_pools s)"
proof -
  have "p \<notin> set (elements s t)" if "t < length (memp_pools s)" for t
    using element_bounds[OF _ that, of p] pool_size_ge[OF _ that] pool_outside[of s p] assms
    by (fastforce simp: heap_fine_def pools_ok_def)
  then have "filter (\<lambda>t. p \<in> set (elements s t)) [0 ..< length (memp_pools s)] = []"
    by (simp add: filter_empty_conv)
  then show ?thesis by (simp add: pool_of_def)
qed

text \<open>The elements of a pool that are in use.\<close>

lemma pool_owners:
  assumes h: "memory.both.holds s m" and t: "t < length (memp_pools s)"
  shows "{q \<in> dom m. pool_of q s = t} = set (elements s t) - set (free_elements s t)"
proof -
  note ok = holds_ok(1,2)[OF h] and fit = holds_ok(3)[OF h] and d = holds_ok(4)[OF h]
  show ?thesis
  proof (intro set_eqI iffI)
    fix q assume "q \<in> {q \<in> dom m. pool_of q s = t}"
    then have q: "q \<in> fst ` memory.handed_both s" "pool_of q s = t" using d by auto
    then obtain l where l: "(q, l) \<in> memory.handed_both s" by (elim imageE) (metis prod.collapse)
    show "q \<in> set (elements s t) - set (free_elements s t)"
    proof (cases rule: both_cases[OF conjI[OF ok] l, case_names heap pool])
      case heap
      then show ?thesis using in_heap_no_pool[OF ok heap(2)] q(2) t by simp
    next
      case pool
      show ?thesis by (rule handed_cases[OF ok(2) pool(1)]) (use q(2) in auto)
    qed
  next
    fix q assume q: "q \<in> set (elements s t) - set (free_elements s t)"
    then have "(q, pool_size s t) \<in> memory.handed_both s" using t by (auto simp: memory.handed_both_def handed_iff)
    then have "q \<in> dom m" unfolding d by (rule rev_image_eqI) simp
    then show "q \<in> {q \<in> dom m. pool_of q s = t}" using pool_of_iff[OF fit t] q by simp
  qed
qed

lemma pool_owners_card:
  assumes h: "memory.both.holds s m" and t: "t < length (memp_pools s)"
  shows "card {q \<in> dom m. pool_of q s = t} + length (free_elements s t) = pool_num s t"
proof -
  note ok = holds_ok(2)[OF h] and fit = holds_ok(3)[OF h]
  have f: "distinct (free_elements s t)" "set (free_elements s t) \<subseteq> set (elements s t)"
    using ok t by (simp_all add: pools_ok_def pool_ok_def)
  have "card (set (elements s t)) = pool_num s t"
    using distinct_card[OF elements_distinct[OF fit t]] by (simp add: elements_def)
  moreover have "card (set (elements s t) - set (free_elements s t)) + card (set (free_elements s t)) = card (set (elements s t))"
    using f(2) by (metis List.finite_set card_Diff_subset card_mono le_add_diff_inverse2)
  ultimately show ?thesis by (simp add: pool_owners[OF h t] distinct_card[OF f(1)])
qed

section \<open>What the users of the memory get\<close>

text \<open>
  C33: The heap and the pools of lwIP as one memory: in every run from the
  initialisation, with requests of any size to either, frees and trims of what was given
  out and writes inside it, what an owner last wrote is in the memory at its address,
  and no two areas that are in use overlap. An owner uses the bytes it asked for, or the
  element; of a heap request of more than 65532 bytes, which wraps (C29), it can use 12.
\<close>

theorem memory_keeps_data:
  assumes "memory_run s m" "m p = Some d"
  shows "map (mem_bytes s) [p ..< p + length d] = d \<and>
    (\<forall>q e. m q = Some e \<longrightarrow> q \<noteq> p \<longrightarrow> {p ..< p + length d} \<inter> {q ..< q + length e} = {})"
proof -
  have h: "memory.both.holds s m" using memory_run_holds[OF assms(1)] by blast
  then show ?thesis using memory_holds_area[OF h assms(2)] memory.both.holds_disjoint[OF h assms(2)] by metis
qed

text \<open>
  C34: In such a run memp_malloc grants an element exactly when fewer elements of its
  pool are in use than the pool has, and the counter mf is the number of TCP connections
  in use.
\<close>

theorem pools_count:
  assumes "memory_run s m" "t < length (memp_pools s)" "MEMP_TCP_PCB < length (memp_pools s)"
  shows "(fst (memp_malloc t s) \<noteq> 0 \<longleftrightarrow> card {q \<in> dom m. pool_of q s = t} < pool_num s t) \<and>
    mf s = word_of_nat (card {q \<in> dom m. pool_of q s = MEMP_TCP_PCB})"
proof
  have h: "memory.both.holds s m" and c: "mf_counts s" using memory_run_holds[OF assms(1)] by blast+
  note ok = holds_ok(2)[OF h] and fit = holds_ok(3)[OF h]
  show "fst (memp_malloc t s) \<noteq> 0 \<longleftrightarrow> card {q \<in> dom m. pool_of q s = t} < pool_num s t"
    using pool_owners_card[OF h assms(2)]
    by (cases rule: memp_malloc_cases[OF ok, of t]) (use assms(2) in auto)
  have "tcp_pcbs s = {q \<in> dom m. pool_of q s = MEMP_TCP_PCB}"
  proof -
    have "q \<in> set (elements s MEMP_TCP_PCB) - set (free_elements s MEMP_TCP_PCB)" if "q \<in> tcp_pcbs s" for q
    proof -
      have "q \<in> fst ` pool_handed s" and p: "pool_of q s = MEMP_TCP_PCB" using that by (simp_all add: tcp_pcbs_def)
      then obtain z where z: "(q, z) \<in> pool_handed s" by (elim imageE) (metis prod.collapse)
      show ?thesis by (rule handed_cases[OF ok z]) (use p in auto)
    qed
    moreover have "q \<in> tcp_pcbs s" if "q \<in> set (elements s MEMP_TCP_PCB) - set (free_elements s MEMP_TCP_PCB)" for q
    proof -
      have "(q, pool_size s MEMP_TCP_PCB) \<in> pool_handed s" using that assms(3) by (auto simp: handed_iff)
      then show ?thesis using that pool_of_iff[OF fit assms(3)] by (auto simp: tcp_pcbs_def intro: rev_image_eqI)
    qed
    ultimately have "tcp_pcbs s = set (elements s MEMP_TCP_PCB) - set (free_elements s MEMP_TCP_PCB)" by blast
    then show ?thesis using pool_owners[OF h assms(3)] by blast
  qed
  then show "mf s = word_of_nat (card {q \<in> dom m. pool_of q s = MEMP_TCP_PCB})" using c by (simp add: mf_counts_def)
qed

text \<open>The memory of the witnesses: three pools behind the heap, the third with two elements.\<close>

definition mem0 :: lwip_mem where
  "mem0 = \<lparr>heap = \<lparr>ram = 8, cells = (\<lambda>_. 0), lfree = 0\<rparr>, memp_pools = [(1, 8), (1, 8), (2, 16)],
     memp_memory = 8000, memp_tab = [], mf = 0\<rparr>"

definition mem1 :: lwip_mem where
  "mem1 = memp_init (mem0\<lparr>heap := mem_init (heap mem0)\<rparr>)"

lemma mem1_run: "memory_run mem1 Map.empty"
  unfolding mem1_def
  by (rule memory_run.init)
    (simp_all add: mem0_def pools_fit_def pool_end_def regions_apart_def ram_end_def MEM_SIZE_ALIGNED_def SIZEOF_STRUCT_MEM_def)

lemma mem1_pools: "memp_pools mem1 = [(1, 8), (1, 8), (2, 16)]" "memp_tab mem1 = [8000, 8008, 8032]"
  by (simp_all add: mem1_def memp_init_def mem0_def set_bytes_def numeral_2_eq_2 split: prod.splits)

lemma mem1_element: "fst (memp_malloc 2 mem1) = 8032"
  by (simp add: memp_malloc_def mem1_pools MEMP_TCP_PCB_def)

theorem memory_keeps_data_witness:
  "\<exists>s d. memory_run s [8032 \<mapsto> d] \<and> length d = 16 \<and> map (mem_bytes s) [8032 ..< 8048] = d"
proof -
  define s where "s = snd (memp_malloc 2 mem1)"
  have r: "memp_malloc 2 mem1 = (8032, s)" by (metis mem1_element prod.collapse s_def)
  define d where "d = map (mem_bytes s) [8032 ..< 8032 + pool_size mem1 2]"
  have l: "length d = 16" by (simp add: d_def pool_size_def mem1_pools)
  have run: "memory_run s [8032 \<mapsto> d]" using memory_run.element[OF mem1_run r] by (simp add: d_def)
  then have "map (mem_bytes s) [8032 ..< 8032 + length d] = d" using memory_keeps_data[OF run, of 8032 d] by simp
  then show ?thesis using run l by auto
qed

theorem pools_count_witness: "fst (memp_malloc 2 mem1) \<noteq> 0 \<and> mf mem1 = 0"
  using pools_count[OF mem1_run, of 2] by (simp add: mem1_pools MEMP_TCP_PCB_def pool_num_def)

end
