(* ===== verification/Pbuf.thy ===== *)
theory Pbuf
  imports LwipMem
begin

text \<open>
  The packet buffers of lwIP (\<open>core/pbuf.c\<close>): \<open>struct pbuf\<close> as the 16 bytes it occupies in the
  memory of \<open>LwipMem\<close>, chains of them linked by \<open>next\<close>, the payloads they point to, and every
  function of the file on them.  A pointer is an address, 0 is \<open>NULL\<close>; an access through
  \<open>NULL\<close> is \<open>None\<close>.  A loop along a chain follows the links and ends only when these do, so it
  is a \<open>partial_function\<close>.

  The configuration is that of \<open>opt.h\<close> and \<open>lwipopts.h\<close>: no padding before the Ethernet header,
  \<open>TCP_MSS\<close> 1460 (so a pool buffer has 1516 bytes), no queue of out-of-sequence segments, no
  checksum on copying.  Custom pbufs are supported; what the function behind
  \<open>custom_free_function\<close> does is the argument \<open>custom\<close>.
\<close>

section \<open>The structure\<close>

definition SIZEOF_STRUCT_PBUF :: nat where "SIZEOF_STRUCT_PBUF = 16"
definition PBUF_POOL_BUFSIZE_ALIGNED :: nat where "PBUF_POOL_BUFSIZE_ALIGNED = 1516"

text \<open>The places of the two kinds of pbufs among the pools of \<open>lwip/memp_std.h\<close>.\<close>

definition MEMP_PBUF :: nat where "MEMP_PBUF = 7"
definition MEMP_PBUF_POOL :: nat where "MEMP_PBUF_POOL = 8"

definition PBUF_RAM :: u8 where "PBUF_RAM = 0"
definition PBUF_ROM :: u8 where "PBUF_ROM = 1"
definition PBUF_REF :: u8 where "PBUF_REF = 2"
definition PBUF_POOL :: u8 where "PBUF_POOL = 3"

definition PBUF_TRANSPORT :: nat where "PBUF_TRANSPORT = 0"
definition PBUF_IP :: nat where "PBUF_IP = 1"
definition PBUF_LINK :: nat where "PBUF_LINK = 2"
definition PBUF_RAW :: nat where "PBUF_RAW = 3"

definition PBUF_FLAG_IS_CUSTOM :: u8 where "PBUF_FLAG_IS_CUSTOM = 2"

definition ERR_OK :: int where "ERR_OK = 0"
definition ERR_VAL :: int where "ERR_VAL = -6"
definition ERR_ARG :: int where "ERR_ARG = -14"

text \<open>The fields, read from the memory and written to it.\<close>

definition p_next :: "lwip_mem \<Rightarrow> nat \<Rightarrow> nat" where "p_next s p = load_ptr (mem_bytes s) p"
definition p_payload :: "lwip_mem \<Rightarrow> nat \<Rightarrow> nat" where "p_payload s p = load_ptr (mem_bytes s) (p + 4)"
definition p_tot_len :: "lwip_mem \<Rightarrow> nat \<Rightarrow> u16" where "p_tot_len s p = load16 (mem_bytes s) (p + 8)"
definition p_len :: "lwip_mem \<Rightarrow> nat \<Rightarrow> u16" where "p_len s p = load16 (mem_bytes s) (p + 10)"
definition p_type :: "lwip_mem \<Rightarrow> nat \<Rightarrow> u8" where "p_type s p = mem_bytes s (p + 12)"
definition p_flags :: "lwip_mem \<Rightarrow> nat \<Rightarrow> u8" where "p_flags s p = mem_bytes s (p + 13)"
definition p_ref :: "lwip_mem \<Rightarrow> nat \<Rightarrow> u16" where "p_ref s p = load16 (mem_bytes s) (p + 14)"

definition set_p_next :: "nat \<Rightarrow> nat \<Rightarrow> lwip_mem \<Rightarrow> lwip_mem" where
  "set_p_next q p s = set_bytes (store_ptr q p (mem_bytes s)) s"
definition set_p_payload :: "nat \<Rightarrow> nat \<Rightarrow> lwip_mem \<Rightarrow> lwip_mem" where
  "set_p_payload q p s = set_bytes (store_ptr q (p + 4) (mem_bytes s)) s"
definition set_p_tot_len :: "u16 \<Rightarrow> nat \<Rightarrow> lwip_mem \<Rightarrow> lwip_mem" where
  "set_p_tot_len w p s = set_bytes (store16 w (p + 8) (mem_bytes s)) s"
definition set_p_len :: "u16 \<Rightarrow> nat \<Rightarrow> lwip_mem \<Rightarrow> lwip_mem" where
  "set_p_len w p s = set_bytes (store16 w (p + 10) (mem_bytes s)) s"
definition set_p_type :: "u8 \<Rightarrow> nat \<Rightarrow> lwip_mem \<Rightarrow> lwip_mem" where
  "set_p_type b p s = set_bytes ((mem_bytes s)(p + 12 := b)) s"
definition set_p_flags :: "u8 \<Rightarrow> nat \<Rightarrow> lwip_mem \<Rightarrow> lwip_mem" where
  "set_p_flags b p s = set_bytes ((mem_bytes s)(p + 13 := b)) s"
definition set_p_ref :: "u16 \<Rightarrow> nat \<Rightarrow> lwip_mem \<Rightarrow> lwip_mem" where
  "set_p_ref w p s = set_bytes (store16 w (p + 14) (mem_bytes s)) s"

text \<open>Bytes from an address on, and \<open>MEMCPY\<close> of bytes to an address.\<close>

definition bytes_at :: "lwip_mem \<Rightarrow> nat \<Rightarrow> nat \<Rightarrow> bytes" where
  "bytes_at s a n = map (mem_bytes s) [a ..< a + n]"

definition write_at :: "nat \<Rightarrow> bytes \<Rightarrow> lwip_mem \<Rightarrow> lwip_mem" where
  "write_at a d s = set_bytes (\<lambda>b. if a \<le> b \<and> b < a + length d then d ! (b - a) else mem_bytes s b) s"

definition LWIP_MEM_ALIGN :: "nat \<Rightarrow> nat" where
  "LWIP_MEM_ALIGN a = unat (LWIP_MEM_ALIGN_SIZE (word_of_nat a))"

section \<open>Reference counts and freeing\<close>

definition pbuf_ref :: "nat \<Rightarrow> lwip_mem \<Rightarrow> lwip_mem" where
  "pbuf_ref p s = (if p \<noteq> 0 then set_p_ref (p_ref s p + 1) p s else s)"

definition release :: "(nat \<Rightarrow> lwip_mem \<Rightarrow> lwip_mem option) \<Rightarrow> nat \<Rightarrow> lwip_mem \<Rightarrow> lwip_mem option" where
  "release custom p s =
     (let type = p_type s p in
      if p_flags s p AND PBUF_FLAG_IS_CUSTOM \<noteq> 0 then custom p s
      else if type = PBUF_POOL then memp_free MEMP_PBUF_POOL p s
      else if type = PBUF_ROM \<or> type = PBUF_REF then memp_free MEMP_PBUF p s
      else Some (heap_free p s))"

partial_function (option) free_loop ::
    "(nat \<Rightarrow> lwip_mem \<Rightarrow> lwip_mem option) \<Rightarrow> nat \<Rightarrow> u8 \<Rightarrow> lwip_mem \<Rightarrow> (u8 \<times> lwip_mem) option" where
  "free_loop custom p count s =
     (if p = 0 then Some (count, s)
      else let ref = p_ref s p - 1;
               s = set_p_ref ref p s
        in if ref = 0 then
             let q = p_next s p in
             Option.bind (release custom p s) (\<lambda>s. free_loop custom q (count + 1) s)
           else Some (count, s))"

definition pbuf_free ::
    "(nat \<Rightarrow> lwip_mem \<Rightarrow> lwip_mem option) \<Rightarrow> nat \<Rightarrow> lwip_mem \<Rightarrow> (u8 \<times> lwip_mem) option" where
  "pbuf_free custom p s = (if p = 0 then Some (0, s) else free_loop custom p 0 s)"

partial_function (option) clen_loop :: "nat \<Rightarrow> u8 \<Rightarrow> lwip_mem \<Rightarrow> u8 option" where
  "clen_loop p len s = (if p \<noteq> 0 then clen_loop (p_next s p) (len + 1) s else Some len)"

definition pbuf_clen :: "nat \<Rightarrow> lwip_mem \<Rightarrow> u8 option" where
  "pbuf_clen p s = clen_loop p 0 s"

section \<open>Allocation\<close>

definition pbuf_offset :: "nat \<Rightarrow> nat option" where
  "pbuf_offset layer =
     (if layer = PBUF_TRANSPORT then Some (14 + 20 + 20)
      else if layer = PBUF_IP then Some (14 + 20)
      else if layer = PBUF_LINK then Some 14
      else if layer = PBUF_RAW then Some 0
      else None)"

text \<open>The tail of a chain from the pool: \<open>r\<close> is the pbuf before, \<open>rem_len\<close>, which fits 16 bits,
  the length still missing.  When the pool is empty the chain so far, from \<open>p\<close> on, is freed.\<close>

function alloc_tail ::
    "(nat \<Rightarrow> lwip_mem \<Rightarrow> lwip_mem option) \<Rightarrow> nat \<Rightarrow> nat \<Rightarrow> nat \<Rightarrow> lwip_mem \<Rightarrow> (bool \<times> lwip_mem) option" where
  "alloc_tail custom p r rem_len s =
     (if 0 < rem_len then
        let (q, s) = memp_malloc MEMP_PBUF_POOL s in
        if q = 0 then map_option (\<lambda>(_, s). (False, s)) (pbuf_free custom p s)
        else
          let len = min rem_len PBUF_POOL_BUFSIZE_ALIGNED;
              s = set_p_type PBUF_POOL q s;
              s = set_p_flags 0 q s;
              s = set_p_next 0 q s;
              s = set_p_next q r s;
              s = set_p_tot_len (word_of_nat rem_len) q s;
              s = set_p_len (word_of_nat len) q s;
              s = set_p_payload (q + SIZEOF_STRUCT_PBUF) q s;
              s = set_p_ref 1 q s
          in alloc_tail custom p q (rem_len - len) s
      else Some (True, s))"
  by pat_completeness auto
termination
  by (relation "measure (\<lambda>(custom, p, r, rem_len, s). rem_len)") (auto simp: PBUF_POOL_BUFSIZE_ALIGNED_def)

definition alloc_pool ::
    "(nat \<Rightarrow> lwip_mem \<Rightarrow> lwip_mem option) \<Rightarrow> nat \<Rightarrow> u16 \<Rightarrow> lwip_mem \<Rightarrow> (nat \<times> lwip_mem) option" where
  "alloc_pool custom offset n s =
     (let (p, s) = memp_malloc MEMP_PBUF_POOL s in
      if p = 0 then Some (0, s)
      else do {
        let s = set_p_type PBUF_POOL p s;
        let s = set_p_next 0 p s;
        let s = set_p_payload (LWIP_MEM_ALIGN (p + (SIZEOF_STRUCT_PBUF + offset))) p s;
        let s = set_p_tot_len n p s;
        let s = set_p_len (min n (word_of_nat (PBUF_POOL_BUFSIZE_ALIGNED - LWIP_MEM_ALIGN offset))) p s;
        let s = set_p_ref 1 p s;
        (ok, s) \<leftarrow> alloc_tail custom p p (unat n - unat (p_len s p)) s;
        Some (if ok then (p, s) else (0, s))
      })"

definition alloc_ram :: "nat \<Rightarrow> u16 \<Rightarrow> lwip_mem \<Rightarrow> (nat \<times> lwip_mem) option" where
  "alloc_ram offset n s = do {
     (p, s) \<leftarrow> heap_malloc (ucast (LWIP_MEM_ALIGN_SIZE (word_of_nat (SIZEOF_STRUCT_PBUF + offset)) +
                                 LWIP_MEM_ALIGN_SIZE (ucast n))) s;
     if p = 0 then Some (0, s)
     else do {
       let s = set_p_payload (LWIP_MEM_ALIGN (p + SIZEOF_STRUCT_PBUF + offset)) p s;
       let s = set_p_len n p (set_p_tot_len n p s);
       let s = set_p_next 0 p s;
       Some (p, set_p_type PBUF_RAM p s)
     }
   }"

definition alloc_ref :: "u8 \<Rightarrow> u16 \<Rightarrow> lwip_mem \<Rightarrow> (nat \<times> lwip_mem) option" where
  "alloc_ref type n s =
     (let (p, s) = memp_malloc MEMP_PBUF s in
      if p = 0 then Some (0, s)
      else
        let s = set_p_payload 0 p s;
            s = set_p_len n p (set_p_tot_len n p s);
            s = set_p_next 0 p s
        in Some (p, set_p_type type p s))"

definition pbuf_alloc ::
    "(nat \<Rightarrow> lwip_mem \<Rightarrow> lwip_mem option) \<Rightarrow> nat \<Rightarrow> u16 \<Rightarrow> u8 \<Rightarrow> lwip_mem \<Rightarrow> (nat \<times> lwip_mem) option" where
  "pbuf_alloc custom layer n type s =
     (case pbuf_offset layer of
        None \<Rightarrow> Some (0, s)
      | Some offset \<Rightarrow> do {
          (p, s) \<leftarrow> (if type = PBUF_POOL then alloc_pool custom offset n s
                    else if type = PBUF_RAM then alloc_ram offset n s
                    else if type = PBUF_ROM \<or> type = PBUF_REF then alloc_ref type n s
                    else Some (0, s));
          if p = 0 then Some (0, s)
          else Some (p, set_p_flags 0 p (set_p_ref 1 p s))
        })"

text \<open>The structure of a custom pbuf was allocated by the caller.\<close>

definition pbuf_alloced_custom ::
    "nat \<Rightarrow> u16 \<Rightarrow> u8 \<Rightarrow> nat \<Rightarrow> nat \<Rightarrow> u16 \<Rightarrow> lwip_mem \<Rightarrow> (nat \<times> lwip_mem) option" where
  "pbuf_alloced_custom layer n type p payload_mem payload_mem_len s =
     (case pbuf_offset layer of
        None \<Rightarrow> Some (0, s)
      | Some offset \<Rightarrow>
          if unat payload_mem_len < LWIP_MEM_ALIGN offset + unat n then Some (0, s)
          else if p = 0 then None
          else
            let s = set_p_next 0 p s;
                s = set_p_payload (if payload_mem \<noteq> 0 then payload_mem + LWIP_MEM_ALIGN offset else 0) p s;
                s = set_p_flags PBUF_FLAG_IS_CUSTOM p s;
                s = set_p_len n p (set_p_tot_len n p s);
                s = set_p_type type p s;
                s = set_p_ref 1 p s
            in Some (p, s))"


section \<open>Chains\<close>

text \<open>\<open>pbuf_cat\<close> walks to the last pbuf of \<open>h\<close> and adds the total length of \<open>t\<close> on the way.\<close>

partial_function (option) cat_loop :: "nat \<Rightarrow> nat \<Rightarrow> lwip_mem \<Rightarrow> lwip_mem option" where
  "cat_loop p t s =
     (let q = p_next s p;
          s = set_p_tot_len (p_tot_len s p + p_tot_len s t) p s
      in if q \<noteq> 0 then cat_loop q t s else Some (set_p_next t p s))"

definition pbuf_cat :: "nat \<Rightarrow> nat \<Rightarrow> lwip_mem \<Rightarrow> lwip_mem option" where
  "pbuf_cat h t s = (if h = 0 \<or> t = 0 then Some s else cat_loop h t s)"

definition pbuf_chain :: "nat \<Rightarrow> nat \<Rightarrow> lwip_mem \<Rightarrow> lwip_mem option" where
  "pbuf_chain h t s = map_option (pbuf_ref t) (pbuf_cat h t s)"

definition pbuf_dechain ::
    "(nat \<Rightarrow> lwip_mem \<Rightarrow> lwip_mem option) \<Rightarrow> nat \<Rightarrow> lwip_mem \<Rightarrow> (nat \<times> lwip_mem) option" where
  "pbuf_dechain custom p s =
     (if p = 0 then None
      else
        let q = p_next s p in
        if q \<noteq> 0 then do {
          let s = set_p_tot_len (p_tot_len s p - p_len s p) q s;
          let s = set_p_next 0 p s;
          let s = set_p_tot_len (p_len s p) p s;
          (tail_gone, s) \<leftarrow> pbuf_free custom q s;
          Some (if 0 < tail_gone then 0 else q, s)
        } else Some (0, s))"

text \<open>\<open>pbuf_realloc\<close>: the pbufs that stay, then the one that becomes the last.\<close>

partial_function (option) realloc_walk ::
    "nat \<Rightarrow> u16 \<Rightarrow> u16 \<Rightarrow> lwip_mem \<Rightarrow> (nat \<times> u16 \<times> lwip_mem) option" where
  "realloc_walk q rem_len grow s =
     (if q = 0 then None
      else if p_len s q < rem_len then
        let r = rem_len - p_len s q;
            s = set_p_tot_len (p_tot_len s q + grow) q s
        in realloc_walk (p_next s q) r grow s
      else Some (q, rem_len, s))"

definition pbuf_realloc ::
    "(nat \<Rightarrow> lwip_mem \<Rightarrow> lwip_mem option) \<Rightarrow> nat \<Rightarrow> u16 \<Rightarrow> lwip_mem \<Rightarrow> lwip_mem option" where
  "pbuf_realloc custom p new_len s =
     (if p = 0 then None
      else if p_tot_len s p \<le> new_len then Some s
      else do {
        (q, rem_len, s) \<leftarrow> realloc_walk p new_len (new_len - p_tot_len s p) s;
        let (q, s) = (if p_type s q = PBUF_RAM \<and> rem_len \<noteq> p_len s q
                      then heap_trim q (word_of_int (int (p_payload s q) - int q) + rem_len) s
                      else (q, s));
        if q = 0 then None
        else do {
          let s = set_p_len rem_len q s;
          let s = set_p_tot_len (p_len s q) q s;
          s \<leftarrow> (if p_next s q \<noteq> 0 then map_option snd (pbuf_free custom (p_next s q) s) else Some s);
          Some (set_p_next 0 q s)
        }
      })"

section \<open>Headers\<close>

text \<open>The payload pointer is moved in the 32 bits of a pointer, before it is checked.\<close>

definition pbuf_header :: "nat \<Rightarrow> u16 \<Rightarrow> lwip_mem \<Rightarrow> u8 \<times> lwip_mem" where
  "pbuf_header p inc s =
     (if inc = 0 \<or> p = 0 then (0, s)
      else
        let increment_magnitude = (if sint inc < 0 then - inc else inc);
            payload = p_payload s p;
            moved = unat (word_of_int (int payload - sint inc) :: u32);
            adjust = (\<lambda>s. set_p_tot_len (p_tot_len s p + inc) p (set_p_len (p_len s p + inc) p s))
        in
        if sint inc < 0 \<and> p_len s p < increment_magnitude then (1, s)
        else if p_type s p = PBUF_RAM \<or> p_type s p = PBUF_POOL then
          let s = set_p_payload moved p s in
          if p_payload s p < p + SIZEOF_STRUCT_PBUF then (1, set_p_payload payload p s)
          else (0, adjust s)
        else if p_type s p = PBUF_REF \<or> p_type s p = PBUF_ROM then
          if sint inc < 0 \<and> increment_magnitude \<le> p_len s p then (0, adjust (set_p_payload moved p s))
          else (1, s)
        else (1, s))"

section \<open>Copying\<close>

text \<open>The bytes that \<open>pbuf_copy_partial\<close> stores from \<open>dataptr\<close> on; it returns their number.\<close>

partial_function (option) copy_loop :: "nat \<Rightarrow> u16 \<Rightarrow> u16 \<Rightarrow> lwip_mem \<Rightarrow> bytes option" where
  "copy_loop p len off s =
     (if len \<noteq> 0 \<and> p \<noteq> 0 then
        if off \<noteq> 0 \<and> p_len s p \<le> off then copy_loop (p_next s p) len (off - p_len s p) s
        else
          let k = min (p_len s p - off) len in
          Option.bind (copy_loop (p_next s p) (len - k) 0 s)
            (\<lambda>d. Some (bytes_at s (p_payload s p + unat off) (unat k) @ d))
      else Some [])"

definition pbuf_copy_partial :: "nat \<Rightarrow> u16 \<Rightarrow> u16 \<Rightarrow> lwip_mem \<Rightarrow> bytes option" where
  "pbuf_copy_partial buf len off s = (if buf = 0 then Some [] else copy_loop buf len off s)"

partial_function (option) take_loop :: "nat \<Rightarrow> bytes \<Rightarrow> lwip_mem \<Rightarrow> lwip_mem option" where
  "take_loop p d s =
     (if d = [] then Some s
      else if p = 0 then None
      else
        let k = min (length d) (unat (p_len s p)) in
        take_loop (p_next s p) (drop k d) (write_at (p_payload s p) (take k d) s))"

text \<open>\<open>d\<close> are the \<open>len\<close> bytes from \<open>dataptr\<close> on.\<close>

definition pbuf_take :: "nat \<Rightarrow> bytes \<Rightarrow> lwip_mem \<Rightarrow> (int \<times> lwip_mem) option" where
  "pbuf_take buf d s =
     (if buf = 0 then Some (0, s)
      else if unat (p_tot_len s buf) < length d then Some (ERR_ARG, s)
      else map_option (Pair ERR_OK) (take_loop buf d s))"

partial_function (option) pbuf_copy_loop ::
    "nat \<Rightarrow> nat \<Rightarrow> u16 \<Rightarrow> u16 \<Rightarrow> lwip_mem \<Rightarrow> (int \<times> lwip_mem) option" where
  "pbuf_copy_loop p_to p_from offset_to offset_from s =
     (if p_to = 0 then None
      else
        let len = (if int (unat (p_len s p_from)) - int (unat offset_from) \<le> int (unat (p_len s p_to)) - int (unat offset_to)
                   then p_len s p_from - offset_from else p_len s p_to - offset_to);
            s = write_at (p_payload s p_to + unat offset_to)
                  (bytes_at s (p_payload s p_from + unat offset_from) (unat len)) s;
            offset_to = offset_to + len;
            offset_from = offset_from + len;
            from_done = (p_len s p_from \<le> offset_from);
            to_done = (offset_to = p_len s p_to);
            p_from = (if from_done then p_next s p_from else p_from);
            p_to = (if to_done then p_next s p_to else p_to)
        in if to_done \<and> p_to = 0 \<and> p_from \<noteq> 0 then Some (ERR_ARG, s)
           else if p_from \<noteq> 0 \<and> p_len s p_from = p_tot_len s p_from \<and> p_next s p_from \<noteq> 0 then Some (ERR_VAL, s)
           else if p_to \<noteq> 0 \<and> p_len s p_to = p_tot_len s p_to \<and> p_next s p_to \<noteq> 0 then Some (ERR_VAL, s)
           else if p_from \<noteq> 0
           then pbuf_copy_loop p_to p_from (if to_done then 0 else offset_to) (if from_done then 0 else offset_from) s
           else Some (ERR_OK, s))"

definition pbuf_copy :: "nat \<Rightarrow> nat \<Rightarrow> lwip_mem \<Rightarrow> (int \<times> lwip_mem) option" where
  "pbuf_copy p_to p_from s =
     (if p_to \<noteq> 0 \<and> p_from \<noteq> 0 \<and> p_tot_len s p_from \<le> p_tot_len s p_to
      then pbuf_copy_loop p_to p_from 0 0 s
      else Some (ERR_ARG, s))"

definition pbuf_coalesce ::
    "(nat \<Rightarrow> lwip_mem \<Rightarrow> lwip_mem option) \<Rightarrow> nat \<Rightarrow> nat \<Rightarrow> lwip_mem \<Rightarrow> (nat \<times> lwip_mem) option" where
  "pbuf_coalesce custom p layer s =
     (if p = 0 then None
      else if p_next s p = 0 then Some (p, s)
      else do {
        (q, s) \<leftarrow> pbuf_alloc custom layer (p_tot_len s p) PBUF_RAM s;
        if q = 0 then Some (p, s)
        else do {
          (err, s) \<leftarrow> pbuf_copy q p s;
          (count, s) \<leftarrow> pbuf_free custom p s;
          Some (q, s)
        }
      })"

section \<open>Looking into a chain\<close>

text \<open>The pbuf that holds an offset, and the offset in it.\<close>

partial_function (option) skip_to :: "nat \<Rightarrow> u16 \<Rightarrow> lwip_mem \<Rightarrow> (nat \<times> u16) option" where
  "skip_to q off s =
     (if q \<noteq> 0 \<and> p_len s q \<le> off then skip_to (p_next s q) (off - p_len s q) s
      else Some (q, off))"

definition pbuf_get_at :: "nat \<Rightarrow> u16 \<Rightarrow> lwip_mem \<Rightarrow> u8 option" where
  "pbuf_get_at p off s = do {
     (q, copy_from) \<leftarrow> skip_to p off s;
     Some (if q \<noteq> 0 \<and> copy_from < p_len s q then mem_bytes s (p_payload s q + unat copy_from) else 0)
   }"

text \<open>The comparison loop: \<open>d\<close> are the bytes of \<open>s2\<close> still to compare, \<open>i\<close> the index of the first.\<close>

fun memcmp_loop :: "nat \<Rightarrow> u16 \<Rightarrow> u16 \<Rightarrow> bytes \<Rightarrow> lwip_mem \<Rightarrow> u16 option" where
  "memcmp_loop q start i [] s = Some 0"
| "memcmp_loop q start i (b # d) s = do {
     a \<leftarrow> pbuf_get_at q (start + i) s;
     if a \<noteq> b then Some (i + 1) else memcmp_loop q start (i + 1) d s
   }"

definition pbuf_memcmp :: "nat \<Rightarrow> u16 \<Rightarrow> bytes \<Rightarrow> lwip_mem \<Rightarrow> u16 option" where
  "pbuf_memcmp p off d s = do {
     (q, start) \<leftarrow> skip_to p off s;
     if q \<noteq> 0 \<and> start < p_len s q then memcmp_loop q start 0 d s else Some 0xFFFF
   }"

partial_function (option) find_loop :: "nat \<Rightarrow> bytes \<Rightarrow> u16 \<Rightarrow> u16 \<Rightarrow> lwip_mem \<Rightarrow> u16 option" where
  "find_loop p d mx i s =
     (if i \<le> mx then
        Option.bind (pbuf_memcmp p i d s) (\<lambda>plus. if plus = 0 then Some i else find_loop p d mx (i + plus) s)
      else Some 0xFFFF)"

definition pbuf_memfind :: "nat \<Rightarrow> bytes \<Rightarrow> u16 \<Rightarrow> lwip_mem \<Rightarrow> u16 option" where
  "pbuf_memfind p d start_offset s =
     (if p = 0 then None
      else if length d + unat start_offset \<le> unat (p_tot_len s p)
      then find_loop p d (p_tot_len s p - word_of_nat (length d)) start_offset s
      else Some 0xFFFF)"

text \<open>\<open>d\<close> is the string without its final null.\<close>

definition pbuf_strstr :: "nat \<Rightarrow> bytes \<Rightarrow> lwip_mem \<Rightarrow> u16 option" where
  "pbuf_strstr p d s =
     (if d = [] then Some 0xFFFF
      else if p = 0 then None
      else if p_tot_len s p = 0xFFFF \<or> 0xFFFF \<le> length d then Some 0xFFFF
      else pbuf_memfind p d 0 s)"

end
