(* ===== verification/PbufChain.thy ===== *)
theory PbufChain
  imports Pbuf
begin

text \<open>
  Chains of pbufs as the bytes they hold: what the functions that look into a chain, copy out
  of it or fill it do to its contents, whatever the cutting into pbufs.
\<close>

section \<open>Fields\<close>

named_theorems pfield "the fields of a pbuf after a write"

text \<open>Two structures that do not overlap.\<close>

definition separate :: "nat \<Rightarrow> nat \<Rightarrow> bool" where
  "separate p q \<longleftrightarrow> p + 16 \<le> q \<or> q + 16 \<le> p"

lemma separate_sym: "separate p q \<longleftrightarrow> separate q p"
  by (auto simp: separate_def)

text \<open>The fields depend on the bytes of the structure only.\<close>

lemma load16_cong: "c' a = c a \<Longrightarrow> c' (a + 1) = c (a + 1) \<Longrightarrow> load16 c' a = load16 c a"
  by (simp add: load16_def)

lemma pbuf_cong:
  assumes "\<And>a. p \<le> a \<Longrightarrow> a < p + 16 \<Longrightarrow> mem_bytes s' a = mem_bytes s a"
  shows "p_next s' p = p_next s p" "p_payload s' p = p_payload s p" "p_tot_len s' p = p_tot_len s p"
    "p_len s' p = p_len s p" "p_type s' p = p_type s p" "p_flags s' p = p_flags s p" "p_ref s' p = p_ref s p"
  unfolding p_next_def p_payload_def p_tot_len_def p_len_def p_type_def p_flags_def p_ref_def
  by (simp_all add: load_ptr_def load16_def assms)

text \<open>Which bytes a setter can change.\<close>

lemma bytes_set_field:
  assumes "a < p \<or> p + 16 \<le> a"
  shows "mem_bytes (set_p_next q p s) a = mem_bytes s a" "mem_bytes (set_p_payload q p s) a = mem_bytes s a"
    "mem_bytes (set_p_tot_len w p s) a = mem_bytes s a" "mem_bytes (set_p_len w p s) a = mem_bytes s a"
    "mem_bytes (set_p_type b p s) a = mem_bytes s a" "mem_bytes (set_p_flags b p s) a = mem_bytes s a"
    "mem_bytes (set_p_ref w p s) a = mem_bytes s a"
  using assms
  by (auto simp: set_p_next_def set_p_payload_def set_p_tot_len_def set_p_len_def set_p_type_def set_p_flags_def
      set_p_ref_def store_ptr_def store16_def)

lemma set_field_other [simp]:
  "memp_pools (set_p_next q p s) = memp_pools s" "memp_pools (set_p_payload q p s) = memp_pools s"
  "memp_pools (set_p_tot_len w p s) = memp_pools s" "memp_pools (set_p_len w p s) = memp_pools s"
  "memp_pools (set_p_type b p s) = memp_pools s" "memp_pools (set_p_flags b p s) = memp_pools s"
  "memp_pools (set_p_ref w p s) = memp_pools s"
  "memp_memory (set_p_next q p s) = memp_memory s" "memp_memory (set_p_payload q p s) = memp_memory s"
  "memp_memory (set_p_tot_len w p s) = memp_memory s" "memp_memory (set_p_len w p s) = memp_memory s"
  "memp_memory (set_p_type b p s) = memp_memory s" "memp_memory (set_p_flags b p s) = memp_memory s"
  "memp_memory (set_p_ref w p s) = memp_memory s"
  by (simp_all add: set_p_next_def set_p_payload_def set_p_tot_len_def set_p_len_def set_p_type_def
      set_p_flags_def set_p_ref_def)

text \<open>A field after a write to the same pbuf.\<close>

lemmas field_defs = p_next_def p_payload_def p_tot_len_def p_len_def p_type_def p_flags_def p_ref_def
  set_p_next_def set_p_payload_def set_p_tot_len_def set_p_len_def set_p_type_def set_p_flags_def set_p_ref_def

lemma load16_store_ptr: "b + 2 \<le> a \<or> a + 4 \<le> b \<Longrightarrow> load16 (store_ptr q a c) b = load16 c b"
  by (intro load16_cong store_ptr_other) auto

lemma load_ptr_store16: "b + 4 \<le> a \<or> a + 2 \<le> b \<Longrightarrow> load_ptr (store16 w a c) b = load_ptr c b"
  by (intro load_ptr_cong) (auto simp: store16_def)

lemma load_ptr_store_ptr: "b + 4 \<le> a \<or> a + 4 \<le> b \<Longrightarrow> load_ptr (store_ptr q a c) b = load_ptr c b"
  by (intro load_ptr_cong store_ptr_other) auto

lemma load_ptr_upd: "b + 4 \<le> a \<or> a < b \<Longrightarrow> load_ptr (c(a := x)) b = load_ptr c b"
  by (intro load_ptr_cong) auto

lemmas load_store_other = load_store16_other load16_upd_other load16_store_ptr load_ptr_store16 load_ptr_store_ptr
  load_ptr_upd

lemma same_next [pfield]:
  "q < 2 ^ 32 \<Longrightarrow> p_next (set_p_next q p s) p = q" "p_next (set_p_payload q p s) p = p_next s p"
  "p_next (set_p_tot_len w p s) p = p_next s p" "p_next (set_p_len w p s) p = p_next s p"
  "p_next (set_p_type b p s) p = p_next s p" "p_next (set_p_flags b p s) p = p_next s p"
  "p_next (set_p_ref w p s) p = p_next s p"
  by (simp_all add: field_defs load_store_other)

lemma same_payload [pfield]:
  "q < 2 ^ 32 \<Longrightarrow> p_payload (set_p_payload q p s) p = q" "p_payload (set_p_next q p s) p = p_payload s p"
  "p_payload (set_p_tot_len w p s) p = p_payload s p" "p_payload (set_p_len w p s) p = p_payload s p"
  "p_payload (set_p_type b p s) p = p_payload s p" "p_payload (set_p_flags b p s) p = p_payload s p"
  "p_payload (set_p_ref w p s) p = p_payload s p"
  by (simp_all add: field_defs load_store_other)

lemma same_tot_len [pfield]:
  "p_tot_len (set_p_tot_len w p s) p = w" "p_tot_len (set_p_payload q p s) p = p_tot_len s p"
  "p_tot_len (set_p_next q p s) p = p_tot_len s p" "p_tot_len (set_p_len w p s) p = p_tot_len s p"
  "p_tot_len (set_p_type b p s) p = p_tot_len s p" "p_tot_len (set_p_flags b p s) p = p_tot_len s p"
  "p_tot_len (set_p_ref w p s) p = p_tot_len s p"
  by (simp_all add: field_defs load_store_other)

lemma same_len [pfield]:
  "p_len (set_p_len w p s) p = w" "p_len (set_p_payload q p s) p = p_len s p"
  "p_len (set_p_next q p s) p = p_len s p" "p_len (set_p_tot_len w p s) p = p_len s p"
  "p_len (set_p_type b p s) p = p_len s p" "p_len (set_p_flags b p s) p = p_len s p"
  "p_len (set_p_ref w p s) p = p_len s p"
  by (simp_all add: field_defs load_store_other)

lemma same_type [pfield]:
  "p_type (set_p_type b p s) p = b" "p_type (set_p_payload q p s) p = p_type s p"
  "p_type (set_p_next q p s) p = p_type s p" "p_type (set_p_tot_len w p s) p = p_type s p"
  "p_type (set_p_len w p s) p = p_type s p" "p_type (set_p_flags b p s) p = p_type s p"
  "p_type (set_p_ref w p s) p = p_type s p"
  by (simp_all add: field_defs store_ptr_def store16_def)

lemma same_flags [pfield]:
  "p_flags (set_p_flags b p s) p = b" "p_flags (set_p_payload q p s) p = p_flags s p"
  "p_flags (set_p_next q p s) p = p_flags s p" "p_flags (set_p_tot_len w p s) p = p_flags s p"
  "p_flags (set_p_len w p s) p = p_flags s p" "p_flags (set_p_type b p s) p = p_flags s p"
  "p_flags (set_p_ref w p s) p = p_flags s p"
  by (simp_all add: field_defs store_ptr_def store16_def)

lemma same_ref [pfield]:
  "p_ref (set_p_ref w p s) p = w" "p_ref (set_p_payload q p s) p = p_ref s p"
  "p_ref (set_p_next q p s) p = p_ref s p" "p_ref (set_p_tot_len w p s) p = p_ref s p"
  "p_ref (set_p_len w p s) p = p_ref s p" "p_ref (set_p_type b p s) p = p_ref s p"
  "p_ref (set_p_flags b p s) p = p_ref s p"
  by (simp_all add: field_defs load_store_other)

text \<open>The fields of another pbuf.\<close>

lemma other_pbuf [pfield]:
  assumes "separate p q"
  shows "p_next (set_p_next n p s) q = p_next s q" "p_next (set_p_payload n p s) q = p_next s q"
    "p_next (set_p_tot_len w p s) q = p_next s q" "p_next (set_p_len w p s) q = p_next s q"
    "p_next (set_p_type b p s) q = p_next s q" "p_next (set_p_flags b p s) q = p_next s q"
    "p_next (set_p_ref w p s) q = p_next s q"
    "p_payload (set_p_next n p s) q = p_payload s q" "p_payload (set_p_payload n p s) q = p_payload s q"
    "p_payload (set_p_tot_len w p s) q = p_payload s q" "p_payload (set_p_len w p s) q = p_payload s q"
    "p_payload (set_p_type b p s) q = p_payload s q" "p_payload (set_p_flags b p s) q = p_payload s q"
    "p_payload (set_p_ref w p s) q = p_payload s q"
    "p_tot_len (set_p_next n p s) q = p_tot_len s q" "p_tot_len (set_p_payload n p s) q = p_tot_len s q"
    "p_tot_len (set_p_tot_len w p s) q = p_tot_len s q" "p_tot_len (set_p_len w p s) q = p_tot_len s q"
    "p_tot_len (set_p_type b p s) q = p_tot_len s q" "p_tot_len (set_p_flags b p s) q = p_tot_len s q"
    "p_tot_len (set_p_ref w p s) q = p_tot_len s q"
    "p_len (set_p_next n p s) q = p_len s q" "p_len (set_p_payload n p s) q = p_len s q"
    "p_len (set_p_tot_len w p s) q = p_len s q" "p_len (set_p_len w p s) q = p_len s q"
    "p_len (set_p_type b p s) q = p_len s q" "p_len (set_p_flags b p s) q = p_len s q"
    "p_len (set_p_ref w p s) q = p_len s q"
    "p_type (set_p_next n p s) q = p_type s q" "p_type (set_p_payload n p s) q = p_type s q"
    "p_type (set_p_tot_len w p s) q = p_type s q" "p_type (set_p_len w p s) q = p_type s q"
    "p_type (set_p_type b p s) q = p_type s q" "p_type (set_p_flags b p s) q = p_type s q"
    "p_type (set_p_ref w p s) q = p_type s q"
    "p_flags (set_p_next n p s) q = p_flags s q" "p_flags (set_p_payload n p s) q = p_flags s q"
    "p_flags (set_p_tot_len w p s) q = p_flags s q" "p_flags (set_p_len w p s) q = p_flags s q"
    "p_flags (set_p_type b p s) q = p_flags s q" "p_flags (set_p_flags b p s) q = p_flags s q"
    "p_flags (set_p_ref w p s) q = p_flags s q"
    "p_ref (set_p_next n p s) q = p_ref s q" "p_ref (set_p_payload n p s) q = p_ref s q"
    "p_ref (set_p_tot_len w p s) q = p_ref s q" "p_ref (set_p_len w p s) q = p_ref s q"
    "p_ref (set_p_type b p s) q = p_ref s q" "p_ref (set_p_flags b p s) q = p_ref s q"
    "p_ref (set_p_ref w p s) q = p_ref s q"
  using assms by (intro pbuf_cong bytes_set_field; auto simp: separate_def)+


section \<open>Chains\<close>

fun pchain :: "lwip_mem \<Rightarrow> nat \<Rightarrow> nat list \<Rightarrow> bool" where
  "pchain s p [] \<longleftrightarrow> p = 0"
| "pchain s p (x # xs) \<longleftrightarrow> p = x \<and> x \<noteq> 0 \<and> pchain s (p_next s x) xs"

definition pbuf_bytes :: "lwip_mem \<Rightarrow> nat \<Rightarrow> bytes" where
  "pbuf_bytes s p = bytes_at s (p_payload s p) (unat (p_len s p))"

definition contents :: "lwip_mem \<Rightarrow> nat list \<Rightarrow> bytes" where
  "contents s ps = concat (map (pbuf_bytes s) ps)"

lemma length_bytes_at [simp]: "length (bytes_at s a n) = n"
  by (simp add: bytes_at_def)

lemma length_pbuf_bytes [simp]: "length (pbuf_bytes s p) = unat (p_len s p)"
  by (simp add: pbuf_bytes_def)

lemma contents_simps [simp]:
  "contents s [] = []" "contents s (p # ps) = pbuf_bytes s p @ contents s ps"
  "contents s (ps @ qs) = contents s ps @ contents s qs"
  by (simp_all add: contents_def)

lemma bytes_at_part: "i + k \<le> n \<Longrightarrow> bytes_at s (a + i) k = take k (drop i (bytes_at s a n))"
  by (simp add: bytes_at_def drop_map take_map add.assoc)

lemma bytes_at_nth: "i < n \<Longrightarrow> bytes_at s a n ! i = mem_bytes s (a + i)"
  by (simp add: bytes_at_def)

section \<open>Reading\<close>

lemma unat_diff_le: "b \<le> a \<Longrightarrow> unat (a - b :: u16) = unat a - unat b"
  by (simp add: unat_sub)

lemma unat_min: "unat (min a b :: u16) = min (unat a) (unat b)"
  by (simp add: min_def word_le_nat_alt)

text \<open>Copying out of a chain gives the part asked for of its contents.\<close>

lemma copy_loop_contents:
  "pchain s p ps \<Longrightarrow> copy_loop p len off s = Some (take (unat len) (drop (unat off) (contents s ps)))"
proof (induction ps arbitrary: p len off)
  case Nil
  then show ?case by (subst copy_loop.simps) simp
next
  case (Cons x ps)
  have p: "p = x" "x \<noteq> 0" "pchain s (p_next s x) ps" using Cons.prems by simp_all
  show ?case
  proof (cases "len = 0")
    case True
    then show ?thesis by (subst copy_loop.simps) simp
  next
    case nz: False
    show ?thesis
    proof (cases "off \<noteq> 0 \<and> p_len s x \<le> off")
      case True
      then have "copy_loop p len off s = copy_loop (p_next s x) len (off - p_len s x) s"
        using nz p by (subst copy_loop.simps) simp
      then show ?thesis
        using Cons.IH[OF p(3)] True by (simp add: unat_diff_le word_le_nat_alt)
    next
      case False
      then have o: "off \<le> p_len s x" by (metis linorder_not_le order_less_imp_le word_zero_le)
      define k where "k = min (p_len s x - off) len"
      have k: "unat k = min (unat (p_len s x) - unat off) (unat len)" "k \<le> len"
        using o by (simp_all add: k_def unat_min unat_diff_le)
      have ol: "unat off + unat k \<le> unat (p_len s x)" using o k(1) by (simp add: word_le_nat_alt)
      have "copy_loop p len off s =
          Some (bytes_at s (p_payload s x + unat off) (unat k) @ take (unat len - unat k) (contents s ps))"
        using False nz p Cons.IH[OF p(3), of "len - k" 0]
        by (subst copy_loop.simps) (auto simp: k_def[symmetric] unat_diff_le[OF k(2)])
      moreover have "bytes_at s (p_payload s x + unat off) (unat k) = take (unat k) (drop (unat off) (pbuf_bytes s x))"
        unfolding pbuf_bytes_def by (rule bytes_at_part[OF ol])
      moreover have "take (unat len) (drop (unat off) (pbuf_bytes s x @ contents s ps)) =
          take (unat k) (drop (unat off) (pbuf_bytes s x)) @ take (unat len - unat k) (contents s ps)"
        using o k(1) by (cases "unat (p_len s x) - unat off \<le> unat len") (simp_all add: word_le_nat_alt)
      ultimately show ?thesis by simp
    qed
  qed
qed

text \<open>\<open>pbuf_get_at\<close> indexes the contents, and answers 0 behind their end.\<close>

definition at_or_0 :: "bytes \<Rightarrow> nat \<Rightarrow> u8" where
  "at_or_0 d i = (if i < length d then d ! i else 0)"

lemma skip_to_ex:
  assumes "pchain s p ps"
  shows "\<exists>q qs o'. skip_to p off s = Some (q, o') \<and> pchain s q qs \<and>
    drop (unat off) (contents s ps) = drop (unat o') (contents s qs) \<and>
    (if unat off < length (contents s ps)
     then q \<noteq> 0 \<and> o' < p_len s q \<and> unat o' \<le> unat off \<and>
       length (contents s ps) - unat off = length (contents s qs) - unat o'
     else q = 0)"
  using assms
proof (induction ps arbitrary: p off)
  case Nil
  then show ?case by (intro exI[of _ 0] exI[of _ "[]"] exI[of _ off]) (subst skip_to.simps, auto)
next
  case (Cons x ps)
  have p: "p = x" "x \<noteq> 0" "pchain s (p_next s x) ps" using Cons.prems by simp_all
  show ?case
  proof (cases "p_len s x \<le> off")
    case True
    have "skip_to p off s = skip_to (p_next s x) (off - p_len s x) s" using True p by (subst skip_to.simps) simp
    moreover have "drop (unat off) (contents s (x # ps)) = drop (unat (off - p_len s x)) (contents s ps)"
      "unat off < length (contents s (x # ps)) \<longleftrightarrow> unat (off - p_len s x) < length (contents s ps)"
      "length (contents s (x # ps)) - unat off = length (contents s ps) - unat (off - p_len s x)"
      "unat (off - p_len s x) \<le> unat off"
      using True unat_diff_le[OF True] by (auto simp: word_le_nat_alt)
    ultimately show ?thesis using Cons.IH[OF p(3), of "off - p_len s x"] by (auto intro: le_trans)
  next
    case False
    then have l: "off < p_len s x" by simp
    have "skip_to p off s = Some (x, off)" using False p by (subst skip_to.simps) simp
    then show ?thesis
      using Cons.prems l p by (intro exI[of _ x] exI[of _ "x # ps"] exI[of _ off]) (auto simp: word_less_nat_alt)
  qed
qed

lemma skip_to_chain:
  assumes "pchain s p ps"
  obtains (inside) q qs o' where "skip_to p off s = Some (q, o')" "pchain s q qs"
    "drop (unat off) (contents s ps) = drop (unat o') (contents s qs)"
    "unat off < length (contents s ps)" "q \<noteq> 0" "o' < p_len s q" "unat o' \<le> unat off"
    "length (contents s ps) - unat off = length (contents s qs) - unat o'"
  | (behind) o' where "skip_to p off s = Some (0, o')" "length (contents s ps) \<le> unat off"
  using skip_to_ex[OF assms, of off] that by (auto split: if_splits)

lemma drop_eq_nth: "drop i xs = drop j ys \<Longrightarrow> i + k < length xs \<Longrightarrow> j + k < length ys \<Longrightarrow> xs ! (i + k) = ys ! (j + k)"
  by (metis add_leD1 less_imp_le_nat nth_drop)

lemma get_at_contents:
  assumes "pchain s p ps"
  shows "pbuf_get_at p off s = Some (at_or_0 (contents s ps) (unat off))"
proof (cases rule: skip_to_chain[OF assms, of off, case_names inside behind])
  case (inside q qs o')
  obtain rs where qs: "qs = q # rs" using inside(2,5) by (cases qs) auto
  have l: "unat o' < unat (p_len s q)" using inside(6) by (simp add: word_less_nat_alt)
  have "contents s ps ! unat off = contents s qs ! unat o'"
    using drop_eq_nth[OF inside(3), of 0] inside(4) l by (simp add: qs)
  also have "\<dots> = mem_bytes s (p_payload s q + unat o')"
    using l by (simp add: qs nth_append pbuf_bytes_def bytes_at_nth)
  finally show ?thesis using inside by (simp add: pbuf_get_at_def at_or_0_def)
next
  case (behind o')
  then show ?thesis by (simp add: pbuf_get_at_def at_or_0_def)
qed


section \<open>Searching\<close>

lemma memcmp_loop_result:
  assumes "pchain s q qs" "unat start + unat i + length d \<le> 65535"
  shows "\<exists>r. memcmp_loop q start i d s = Some r \<and>
    (r = 0 \<and> (\<forall>j < length d. at_or_0 (contents s qs) (unat start + unat i + j) = d ! j) \<or>
     (\<exists>j < length d. unat r = unat i + j + 1 \<and> at_or_0 (contents s qs) (unat start + unat i + j) \<noteq> d ! j \<and>
        (\<forall>k < j. at_or_0 (contents s qs) (unat start + unat i + k) = d ! k)))"
  using assms(2)
proof (induction d arbitrary: i)
  case (Cons b d)
  have s: "unat (start + i) = unat start + unat i" "unat (i + 1) = unat i + 1"
    using Cons.prems by (simp_all add: unat_word_ariths)
  have g: "pbuf_get_at q (start + i) s = Some (at_or_0 (contents s qs) (unat start + unat i))"
    using get_at_contents[OF assms(1)] by (simp add: s)
  show ?case
  proof (cases "at_or_0 (contents s qs) (unat start + unat i) = b")
    case False
    then show ?thesis using g s(2) by (intro exI[of _ "i + 1"]) auto
  next
    case True
    obtain r where r: "memcmp_loop q start (i + 1) d s = Some r"
      "r = 0 \<and> (\<forall>j < length d. at_or_0 (contents s qs) (unat start + unat (i + 1) + j) = d ! j) \<or>
     (\<exists>j < length d. unat r = unat (i + 1) + j + 1 \<and> at_or_0 (contents s qs) (unat start + unat (i + 1) + j) \<noteq> d ! j \<and>
        (\<forall>k < j. at_or_0 (contents s qs) (unat start + unat (i + 1) + k) = d ! k))"
      using Cons.IH[of "i + 1"] Cons.prems s(2) by auto
    have m: "memcmp_loop q start i (b # d) s = Some r" using g True r(1) by simp
    from r(2) show ?thesis
    proof (elim disjE exE conjE)
      assume "r = 0" and all: "\<forall>j < length d. at_or_0 (contents s qs) (unat start + unat (i + 1) + j) = d ! j"
      have "at_or_0 (contents s qs) (unat start + unat i + j) = (b # d) ! j" if "j < length (b # d)" for j
        using that all True s(2) by (cases j) auto
      then show ?thesis using m \<open>r = 0\<close> by blast
    next
      fix j assume j: "j < length d" "unat r = unat (i + 1) + j + 1"
        "at_or_0 (contents s qs) (unat start + unat (i + 1) + j) \<noteq> d ! j"
        "\<forall>k < j. at_or_0 (contents s qs) (unat start + unat (i + 1) + k) = d ! k"
      have "at_or_0 (contents s qs) (unat start + unat i + k) = (b # d) ! k" if "k < Suc j" for k
        using that j(4) True s(2) by (cases k) auto
      moreover have "unat r = unat i + Suc j + 1" "at_or_0 (contents s qs) (unat start + unat i + Suc j) \<noteq> (b # d) ! Suc j"
        using j(2,3) s(2) by simp_all
      moreover have "Suc j < length (b # d)" using j(1) by simp
      ultimately show ?thesis using m by blast
    qed
  qed
qed simp

definition occurs :: "bytes \<Rightarrow> nat \<Rightarrow> bytes \<Rightarrow> bool" where
  "occurs d i c \<longleftrightarrow> i + length d \<le> length c \<and> take (length d) (drop i c) = d"

lemma occurs_iff: "occurs d i c \<longleftrightarrow> i + length d \<le> length c \<and> (\<forall>j < length d. c ! (i + j) = d ! j)"
  by (auto simp: occurs_def list_eq_iff_nth_eq)

lemma memcmp_result:
  assumes p: "pchain s p ps" and i: "unat off < length (contents s ps)" "unat off + length d \<le> 65535"
    "unat off + length d \<le> length (contents s ps)"
  shows "\<exists>r. pbuf_memcmp p off d s = Some r \<and>
    (r = 0 \<and> occurs d (unat off) (contents s ps) \<or>
     (\<exists>j < length d. unat r = j + 1 \<and> contents s ps ! (unat off + j) \<noteq> d ! j \<and>
        (\<forall>k < j. contents s ps ! (unat off + k) = d ! k)))"
proof (cases rule: skip_to_chain[OF p, of off, case_names inside behind])
  case (inside q qs o')
  have at: "at_or_0 (contents s qs) (unat o' + j) = contents s ps ! (unat off + j)" if "j < length d" for j
  proof -
    have "unat off + j < length (contents s ps)" "unat o' + j < length (contents s qs)"
      using that i(3) inside(8) by linarith+
    then show ?thesis using drop_eq_nth[OF inside(3), of j] by (simp add: at_or_0_def)
  qed
  have "pbuf_memcmp p off d s = memcmp_loop q o' 0 d s" using inside by (simp add: pbuf_memcmp_def)
  moreover have "unat o' + unat (0 :: u16) + length d \<le> 65535" using inside(7) i(2) by simp
  ultimately obtain r where r: "pbuf_memcmp p off d s = Some r"
    "r = 0 \<and> (\<forall>j < length d. at_or_0 (contents s qs) (unat o' + j) = d ! j) \<or>
     (\<exists>j < length d. unat r = j + 1 \<and> at_or_0 (contents s qs) (unat o' + j) \<noteq> d ! j \<and>
        (\<forall>k < j. at_or_0 (contents s qs) (unat o' + k) = d ! k))"
    using memcmp_loop_result[OF inside(2), of o' 0 d] by auto
  have "r = 0 \<and> occurs d (unat off) (contents s ps) \<or>
     (\<exists>j < length d. unat r = j + 1 \<and> contents s ps ! (unat off + j) \<noteq> d ! j \<and>
        (\<forall>k < j. contents s ps ! (unat off + k) = d ! k))"
    using r(2)
  proof (elim disjE exE conjE)
    assume "r = 0" "\<forall>j < length d. at_or_0 (contents s qs) (unat o' + j) = d ! j"
    then show ?thesis using i(3) at by (simp add: occurs_iff)
  next
    fix j assume j: "j < length d" "unat r = j + 1" "at_or_0 (contents s qs) (unat o' + j) \<noteq> d ! j"
      "\<forall>k < j. at_or_0 (contents s qs) (unat o' + k) = d ! k"
    then have "\<forall>k < j. contents s ps ! (unat off + k) = d ! k" using at by (metis less_trans)
    then show ?thesis using j at by auto
  qed
  then show ?thesis using r(1) by blast
next
  case (behind o')
  then show ?thesis using i(1) by simp
qed

text \<open>What the search from an offset on answers: an occurrence, and the first one when the byte it
  starts with does not appear before.\<close>

lemma find_loop_result:
  assumes p: "pchain s p ps" and c: "length (contents s ps) \<le> 65535" and d: "d \<noteq> []" "length d \<le> length (contents s ps)"
    and mx: "unat mx = length (contents s ps) - length d"
  shows "\<exists>r. find_loop p d mx i s = Some r \<and>
    (r \<noteq> 0xFFFF \<longrightarrow> unat i \<le> unat r \<and> occurs d (unat r) (contents s ps)) \<and>
    (\<forall>m. occurs d m (contents s ps) \<and> unat i \<le> m \<and> (\<forall>k. unat i \<le> k \<and> k < m \<longrightarrow> contents s ps ! k \<noteq> hd d) \<longrightarrow> unat r = m)"
proof (induction "Suc (unat mx) - unat i" arbitrary: i rule: less_induct)
  case less
  show ?case
  proof (cases "i \<le> mx")
    case False
    then have "find_loop p d mx i s = Some 0xFFFF" by (subst find_loop.simps) simp
    moreover have "\<not> (occurs d m (contents s ps) \<and> unat i \<le> m)" for m
      using False mx d by (auto simp: occurs_def word_le_nat_alt)
    ultimately show ?thesis by blast
  next
    case True
    then have im: "unat i \<le> unat mx" by (simp add: word_le_nat_alt)
    have d0: "0 < length d" using d(1) by simp
    have il: "unat i + length d \<le> length (contents s ps)" using im mx d(2) by linarith
    obtain plus where plus: "pbuf_memcmp p i d s = Some plus"
      "plus = 0 \<and> occurs d (unat i) (contents s ps) \<or>
     (\<exists>j < length d. unat plus = j + 1 \<and> contents s ps ! (unat i + j) \<noteq> d ! j \<and>
        (\<forall>k < j. contents s ps ! (unat i + k) = d ! k))"
      using memcmp_result[OF p, of i d] il c d0 by auto
    from plus(2) show ?thesis
    proof (elim disjE exE conjE)
      assume z: "plus = 0" and o: "occurs d (unat i) (contents s ps)"
      have r: "find_loop p d mx i s = Some i" using True plus(1) z by (subst find_loop.simps) simp
      have "m = unat i" if "occurs d m (contents s ps)" "unat i \<le> m"
        "\<forall>k. unat i \<le> k \<and> k < m \<longrightarrow> contents s ps ! k \<noteq> hd d" for m
      proof (rule ccontr)
        assume "m \<noteq> unat i"
        then have "contents s ps ! unat i \<noteq> hd d" using that(2,3) by auto
        moreover have "contents s ps ! unat i = hd d"
          using o d0 by (auto simp: occurs_iff hd_conv_nth[OF d(1)])
        ultimately show False by contradiction
      qed
      then show ?thesis using r o by blast
    next
      fix j assume j: "j < length d" "unat plus = j + 1" "contents s ps ! (unat i + j) \<noteq> d ! j"
        "\<forall>k < j. contents s ps ! (unat i + k) = d ! k"
      have np: "plus \<noteq> 0" using j(2) by auto
      have ip: "unat (i + plus) = unat i + j + 1" using j(1,2) il c by (simp add: unat_word_ariths)
      have e: "find_loop p d mx i s = find_loop p d mx (i + plus) s"
        using True plus(1) np by (subst find_loop.simps) simp
      have "Suc (unat mx) - unat (i + plus) < Suc (unat mx) - unat i" using ip im by linarith
      from less.hyps[OF this] obtain r where r: "find_loop p d mx (i + plus) s = Some r"
        "r \<noteq> 0xFFFF \<longrightarrow> unat (i + plus) \<le> unat r \<and> occurs d (unat r) (contents s ps)"
        "\<forall>m. occurs d m (contents s ps) \<and> unat (i + plus) \<le> m \<and>
          (\<forall>k. unat (i + plus) \<le> k \<and> k < m \<longrightarrow> contents s ps ! k \<noteq> hd d) \<longrightarrow> unat r = m"
        by blast
      have "unat r = m" if m: "occurs d m (contents s ps)" "unat i \<le> m"
        "\<forall>k. unat i \<le> k \<and> k < m \<longrightarrow> contents s ps ! k \<noteq> hd d" for m
      proof -
        have ne: "m \<noteq> unat i"
        proof
          assume "m = unat i"
          then have "contents s ps ! (unat i + j) = d ! j" using m(1) j(1) by (simp add: occurs_iff)
          then show False using j(3) by contradiction
        qed
        then have "contents s ps ! unat i \<noteq> hd d" using m(2,3) by auto
        then have "j = 0" using j(4) by (cases j) (auto simp: hd_conv_nth[OF d(1)])
        then have "unat (i + plus) \<le> m" using ip ne m(2) by linarith
        moreover have "contents s ps ! k \<noteq> hd d" if "unat (i + plus) \<le> k" "k < m" for k
          using m(3) ip that by simp
        ultimately show ?thesis using r(3) m(1) by blast
      qed
      moreover have "unat i \<le> unat r \<and> occurs d (unat r) (contents s ps)" if "r \<noteq> 0xFFFF"
        using r(2) that ip by linarith
      moreover have "find_loop p d mx i s = Some r" using e r(1) by simp
      ultimately show ?thesis by blast
    qed
  qed
qed

text \<open>A chain whose total length is that of its contents.\<close>

fun tot_ok :: "lwip_mem \<Rightarrow> nat list \<Rightarrow> bool" where
  "tot_ok s [] \<longleftrightarrow> True"
| "tot_ok s (p # ps) \<longleftrightarrow> unat (p_tot_len s p) = length (contents s (p # ps)) \<and> tot_ok s ps"

text \<open>
  C37: An index that pbuf_memfind answers is a place at or after the start where the
  pattern stands, across the borders of the pbufs; and it answers the first such place
  when no byte between the start and it equals the first byte of the pattern.
\<close>

theorem pbuf_memfind_first:
  assumes p: "pchain s p ps" "tot_ok s ps" "ps \<noteq> []" and d: "d \<noteq> []" "length d + unat start \<le> length (contents s ps)"
  shows "\<exists>r. pbuf_memfind p d start s = Some r \<and>
    (r \<noteq> 0xFFFF \<longrightarrow> unat start \<le> unat r \<and> occurs d (unat r) (contents s ps)) \<and>
    (\<forall>m. occurs d m (contents s ps) \<and> unat start \<le> m \<and>
       (\<forall>k. unat start \<le> k \<and> k < m \<longrightarrow> contents s ps ! k \<noteq> hd d) \<longrightarrow> unat r = m)"
proof -
  obtain x xs where ps: "ps = x # xs" using p(3) by (cases ps) auto
  have t: "p = x" "x \<noteq> 0" "unat (p_tot_len s p) = length (contents s ps)" using p(1,2) by (simp_all add: ps)
  have c: "length (contents s ps) \<le> 65535" using t(3) unat_u16[of "p_tot_len s p"] by linarith
  have l: "unat (word_of_nat (length d) :: u16) = length d" by (rule unat_of_nat_u16) (use d(2) c in linarith)
  have mx: "unat (p_tot_len s p - word_of_nat (length d)) = length (contents s ps) - length d"
    using d(2) t(3) l by (subst unat_diff_le) (simp_all add: word_le_nat_alt)
  have "pbuf_memfind p d start s = find_loop p d (p_tot_len s p - word_of_nat (length d)) start s"
    using t d(2) by (simp add: pbuf_memfind_def)
  then show ?thesis using find_loop_result[OF p(1) c d(1) _ mx, of start] d(2) by simp
qed

text \<open>But it misses occurrences: a search for \<open>[x, y]\<close> in \<open>[x, x, y]\<close> goes on behind the
  mismatch and ends without a result.\<close>

theorem pbuf_memfind_misses:
  assumes "pchain s p ps" "tot_ok s ps" "contents s ps = [x, x, y]" "x \<noteq> y"
  shows "pbuf_memfind p [x, y] 0 s = Some 0xFFFF \<and> occurs [x, y] 1 (contents s ps)"
proof
  obtain q qs where ps: "ps = q # qs" using assms(3) by (cases ps) auto
  have "p = q" "q \<noteq> 0" "unat (p_tot_len s p) = length (contents s ps)" using assms(1,2) by (simp_all add: ps)
  then have t: "p = q" "q \<noteq> 0" "unat (p_tot_len s p) = 3" unfolding assms(3) by simp_all
  have t3: "p_tot_len s p = 3" using t(3) by (simp add: word_unat_eq_iff)
  obtain plus where plus: "pbuf_memcmp p 0 [x, y] s = Some plus"
    "plus = 0 \<and> occurs [x, y] 0 [x, x, y] \<or>
     (\<exists>j < 2. unat plus = j + 1 \<and> [x, x, y] ! j \<noteq> [x, y] ! j \<and> (\<forall>k < j. [x, x, y] ! k = [x, y] ! k))"
    using memcmp_result[OF assms(1), of 0 "[x, y]"] assms(3) by auto
  have "unat plus = 2"
    using plus(2) assms(4) by (auto simp: occurs_def less_2_cases_iff)
  then have "plus = 2" by (simp add: word_unat_eq_iff)
  then have "find_loop p [x, y] 1 0 s = find_loop p [x, y] 1 2 s"
    using plus(1) by (subst find_loop.simps) simp
  also have "\<dots> = Some 0xFFFF" by (subst find_loop.simps) (simp add: word_le_nat_alt)
  finally show "pbuf_memfind p [x, y] 0 s = Some 0xFFFF" using t t3 by (simp add: pbuf_memfind_def)
  show "occurs [x, y] 1 (contents s ps)" by (simp add: occurs_def assms(3))
qed


section \<open>Filling a chain\<close>

text \<open>What must not overlap for a chain to be written to: the payloads with the structures and with
  each other.\<close>

definition payload_area :: "lwip_mem \<Rightarrow> nat \<Rightarrow> nat set" where
  "payload_area s p = {p_payload s p ..< p_payload s p + unat (p_len s p)}"

definition struct_area :: "nat \<Rightarrow> nat set" where
  "struct_area p = {p ..< p + SIZEOF_STRUCT_PBUF}"

definition payloads_apart :: "lwip_mem \<Rightarrow> nat list \<Rightarrow> bool" where
  "payloads_apart s ps \<longleftrightarrow> distinct ps \<and>
     (\<forall>p\<in>set ps. \<forall>q\<in>set ps. payload_area s p \<inter> struct_area q = {} \<and>
        (p \<noteq> q \<longrightarrow> payload_area s p \<inter> payload_area s q = {}))"

lemma mem_bytes_write_at:
  "mem_bytes (write_at a d s) b = (if a \<le> b \<and> b < a + length d then d ! (b - a) else mem_bytes s b)"
  by (simp add: write_at_def)

lemma write_at_other [simp]:
  "memp_pools (write_at a d s) = memp_pools s" "memp_memory (write_at a d s) = memp_memory s"
  by (simp_all add: write_at_def)

lemma bytes_at_write_apart:
  "{a ..< a + length d} \<inter> {b ..< b + n} = {} \<Longrightarrow> bytes_at (write_at a d s) b n = bytes_at s b n"
  by (auto simp: bytes_at_def mem_bytes_write_at disjoint_iff)

lemma bytes_at_write_here:
  "length d \<le> n \<Longrightarrow> bytes_at (write_at a d s) a n = d @ drop (length d) (bytes_at s a n)"
  by (rule nth_equalityI) (auto simp: bytes_at_nth mem_bytes_write_at nth_append)

lemma fields_write_apart:
  assumes "{a ..< a + length d} \<inter> struct_area p = {}"
  shows "p_next (write_at a d s) p = p_next s p" "p_payload (write_at a d s) p = p_payload s p"
    "p_tot_len (write_at a d s) p = p_tot_len s p" "p_len (write_at a d s) p = p_len s p"
    "p_type (write_at a d s) p = p_type s p" "p_flags (write_at a d s) p = p_flags s p"
    "p_ref (write_at a d s) p = p_ref s p"
  using assms
  by (intro pbuf_cong; fastforce simp: mem_bytes_write_at struct_area_def SIZEOF_STRUCT_PBUF_def disjoint_iff)+

lemma pchain_cong:
  "pchain s p ps \<Longrightarrow> (\<And>q. q \<in> set ps \<Longrightarrow> p_next s' q = p_next s q) \<Longrightarrow> pchain s' p ps"
  by (induction s p ps rule: pchain.induct) auto

lemma tot_ok_cong:
  assumes "tot_ok s ps" "\<And>q. q \<in> set ps \<Longrightarrow> p_tot_len s' q = p_tot_len s q \<and> p_len s' q = p_len s q"
  shows "tot_ok s' ps"
proof -
  have "length (contents s' qs) = length (contents s qs)" if "set qs \<subseteq> set ps" for qs
    using that assms(2) by (induction qs) auto
  then show ?thesis using assms
  proof (induction ps)
    case (Cons p ps)
    have "length (contents s' (p # ps)) = length (contents s (p # ps))" by (rule Cons.prems(1)) simp
    moreover have "tot_ok s' ps" by (rule Cons.IH) (use Cons.prems in auto)
    ultimately show ?case using Cons.prems by simp
  qed simp
qed

lemma payloads_apart_cong:
  assumes "payloads_apart s ps" "\<And>q. q \<in> set ps \<Longrightarrow> p_payload s' q = p_payload s q \<and> p_len s' q = p_len s q"
  shows "payloads_apart s' ps"
  using assms by (simp add: payloads_apart_def payload_area_def)

text \<open>All structures of a chain untouched.\<close>

definition same_structs :: "lwip_mem \<Rightarrow> lwip_mem \<Rightarrow> nat list \<Rightarrow> bool" where
  "same_structs s s' ps \<longleftrightarrow> (\<forall>p\<in>set ps. \<forall>a\<in>struct_area p. mem_bytes s' a = mem_bytes s a)"

lemma same_structsD:
  assumes "same_structs s s' ps" "p \<in> set ps"
  shows "p_next s' p = p_next s p" "p_payload s' p = p_payload s p" "p_tot_len s' p = p_tot_len s p"
    "p_len s' p = p_len s p" "p_type s' p = p_type s p" "p_flags s' p = p_flags s p" "p_ref s' p = p_ref s p"
  using assms by (intro pbuf_cong; simp add: same_structs_def struct_area_def SIZEOF_STRUCT_PBUF_def)+

lemma take_loop_fills:
  assumes "pchain s p ps" "payloads_apart s ps" "length d \<le> length (contents s ps)"
  shows "\<exists>s'. take_loop p d s = Some s' \<and> contents s' ps = d @ drop (length d) (contents s ps) \<and>
    (\<forall>a. a \<notin> (\<Union>q\<in>set ps. payload_area s q) \<longrightarrow> mem_bytes s' a = mem_bytes s a)"
  using assms
proof (induction ps arbitrary: p d s)
  case Nil
  then show ?case by (subst take_loop.simps) simp
next
  case (Cons x ps)
  have p: "p = x" "x \<noteq> 0" "pchain s (p_next s x) ps" using Cons.prems(1) by simp_all
  show ?case
  proof (cases "d = []")
    case True
    then show ?thesis by (subst take_loop.simps) simp
  next
    case False
    define k where "k = min (length d) (unat (p_len s x))"
    define s1 where "s1 = write_at (p_payload s x) (take k d) s"
    have lk: "length (take k d) = k" by (simp add: k_def)
    have kx: "{p_payload s x ..< p_payload s x + length (take k d)} \<subseteq> payload_area s x"
      by (auto simp: payload_area_def k_def)
    have pa: "payload_area s x \<inter> struct_area q = {}" if "q \<in> set (x # ps)" for q
      using Cons.prems(2) that by (auto simp: payloads_apart_def)
    have pb: "payload_area s x \<inter> payload_area s q = {}" if "q \<in> set ps" for q
      using Cons.prems(2) that by (auto simp: payloads_apart_def)
    have fields: "p_next s1 q = p_next s q" "p_payload s1 q = p_payload s q" "p_tot_len s1 q = p_tot_len s q"
      "p_len s1 q = p_len s q" if "q \<in> set (x # ps)" for q
      unfolding s1_def by (rule fields_write_apart; use kx pa[OF that] in blast)+
    have ch: "pchain s1 (p_next s1 x) ps" using pchain_cong[OF p(3)] fields(1) by simp
    have ap: "payloads_apart s1 ps"
      using payloads_apart_cong[of s ps s1] Cons.prems(2) fields by (simp add: payloads_apart_def)
    have area: "payload_area s1 q = payload_area s q" if "q \<in> set (x # ps)" for q
      using fields[OF that] by (simp add: payload_area_def)
    have "pbuf_bytes s1 q = pbuf_bytes s q" if q: "q \<in> set ps" for q
    proof -
      have "bytes_at s1 (p_payload s q) (unat (p_len s q)) = bytes_at s (p_payload s q) (unat (p_len s q))"
        unfolding s1_def
        by (rule bytes_at_write_apart) (use pb[OF q, unfolded payload_area_def] kx[unfolded payload_area_def] in blast)
      then show ?thesis using fields[of q] q by (simp add: pbuf_bytes_def)
    qed
    then have c1: "contents s1 ps = contents s ps" by (simp add: contents_def cong: map_cong)
    have "length (drop k d) \<le> length (contents s1 ps)"
      using Cons.prems(3) by (simp add: c1 k_def)
    from Cons.IH[OF ch ap this] obtain s' where s': "take_loop (p_next s1 x) (drop k d) s1 = Some s'"
      "contents s' ps = drop k d @ drop (length (drop k d)) (contents s1 ps)"
      "\<forall>a. a \<notin> (\<Union>q\<in>set ps. payload_area s1 q) \<longrightarrow> mem_bytes s' a = mem_bytes s1 a"
      by blast
    have "take_loop p d s = Some s'"
      using s'(1) False p(1,2) fields(1)[of x] by (subst take_loop.simps) (simp add: s1_def k_def Let_def)
    moreover have "pbuf_bytes s' x = take k d @ drop k (pbuf_bytes s x)"
    proof -
      have away: "mem_bytes s' a = mem_bytes s1 a" if "a \<in> payload_area s x \<union> struct_area x" for a
        using s'(3) that pb Cons.prems(2) area by (fastforce simp: payloads_apart_def)
      have "p_payload s' x = p_payload s1 x" "p_len s' x = p_len s1 x"
        by (rule pbuf_cong; use away in \<open>simp add: struct_area_def SIZEOF_STRUCT_PBUF_def\<close>)+
      then have "pbuf_bytes s' x = bytes_at s' (p_payload s x) (unat (p_len s x))"
        using fields[of x] by (simp add: pbuf_bytes_def)
      also have "\<dots> = bytes_at s1 (p_payload s x) (unat (p_len s x))"
        unfolding bytes_at_def using away by (simp add: payload_area_def)
      also have "\<dots> = take k d @ drop (length (take k d)) (bytes_at s (p_payload s x) (unat (p_len s x)))"
        unfolding s1_def by (rule bytes_at_write_here) (simp add: k_def)
      finally show ?thesis unfolding lk pbuf_bytes_def .
    qed
    moreover have "take k d @ drop k (pbuf_bytes s x) @ drop k d @ drop (length (drop k d)) (contents s ps) =
        d @ drop (length d) (contents s (x # ps))"
      by (cases "length d \<le> unat (p_len s x)") (simp_all add: k_def)
    moreover have "\<forall>a. a \<notin> (\<Union>q\<in>set (x # ps). payload_area s q) \<longrightarrow> mem_bytes s' a = mem_bytes s a"
    proof (intro allI impI)
      fix a assume a: "a \<notin> (\<Union>q\<in>set (x # ps). payload_area s q)"
      then have "a \<notin> (\<Union>q\<in>set ps. payload_area s1 q)" using area by simp
      moreover have "a \<notin> {p_payload s x ..< p_payload s x + length (take k d)}" using a kx by auto
      ultimately show "mem_bytes s' a = mem_bytes s a"
        using s'(3) by (auto simp: s1_def mem_bytes_write_at)
    qed
    ultimately show ?thesis using s'(2) c1 by simp
  qed
qed

text \<open>
  C35: pbuf_take fills a chain of pbufs with any data that fits, over whatever pbufs it
  is cut into: pbuf_copy_partial then reads the data and the old rest behind it back, at
  any offset and length, and no byte outside the payloads of the chain has changed.
\<close>

theorem pbuf_take_then_copy:
  assumes p: "pchain s p ps" "tot_ok s ps" "payloads_apart s ps" "ps \<noteq> []"
    and d: "length d \<le> length (contents s ps)"
  shows "\<exists>s'. pbuf_take p d s = Some (ERR_OK, s') \<and> pchain s' p ps \<and>
    (\<forall>len off. pbuf_copy_partial p len off s' =
       Some (take (unat len) (drop (unat off) (d @ drop (length d) (contents s ps))))) \<and>
    (\<forall>a. a \<notin> (\<Union>q\<in>set ps. payload_area s q) \<longrightarrow> mem_bytes s' a = mem_bytes s a)"
proof -
  obtain x xs where ps: "ps = x # xs" using p(4) by (cases ps) auto
  have t: "p = x" "x \<noteq> 0" "unat (p_tot_len s p) = length (contents s ps)" using p(1,2) by (simp_all add: ps)
  obtain s' where s': "take_loop p d s = Some s'" "contents s' ps = d @ drop (length d) (contents s ps)"
    "\<forall>a. a \<notin> (\<Union>q\<in>set ps. payload_area s q) \<longrightarrow> mem_bytes s' a = mem_bytes s a"
    using take_loop_fills[OF p(1,3) d] by blast
  have "same_structs s s' ps"
    using s'(3) p(3) by (fastforce simp: same_structs_def payloads_apart_def)
  then have ch: "pchain s' p ps" using pchain_cong[OF p(1)] same_structsD(1) by blast
  have "pbuf_take p d s = Some (ERR_OK, s')" using t d s'(1) by (simp add: pbuf_take_def)
  then show ?thesis
    using ch copy_loop_contents[OF ch] s'(2,3) t by (auto simp: pbuf_copy_partial_def)
qed


text \<open>The chain of the witnesses: two pbufs that hold \<open>[5, 5]\<close> and \<open>[7]\<close>.\<close>

definition make_pbuf :: "nat \<Rightarrow> nat \<Rightarrow> nat \<Rightarrow> u16 \<Rightarrow> u16 \<Rightarrow> u8 \<Rightarrow> lwip_mem \<Rightarrow> lwip_mem" where
  "make_pbuf p q pay tot len type s =
     set_p_type type p (set_p_len len p (set_p_tot_len tot p (set_p_payload pay p (set_p_next q p s))))"

definition chain0 :: lwip_mem where
  "chain0 = make_pbuf 100 116 1000 3 2 PBUF_RAM (make_pbuf 116 0 2000 1 1 PBUF_RAM
     (write_at 2000 [7] (write_at 1000 [5, 5] mem0)))"

lemma chain0_fields:
  "p_next chain0 100 = 116" "p_next chain0 116 = 0" "p_payload chain0 100 = 1000" "p_payload chain0 116 = 2000"
  "p_len chain0 100 = 2" "p_len chain0 116 = 1" "p_tot_len chain0 100 = 3" "p_tot_len chain0 116 = 1"
  "p_type chain0 100 = PBUF_RAM" "p_type chain0 116 = PBUF_RAM"
  by (simp_all add: chain0_def make_pbuf_def pfield separate_def)

lemma chain0_bytes: "mem_bytes chain0 1000 = 5" "mem_bytes chain0 1001 = 5" "mem_bytes chain0 2000 = 7"
  by (simp_all add: chain0_def make_pbuf_def bytes_set_field mem_bytes_write_at)

lemma chain0:
  "pchain chain0 100 [100, 116]" "tot_ok chain0 [100, 116]" "payloads_apart chain0 [100, 116]"
  "contents chain0 [100, 116] = [5, 5, 7]"
proof -
  show "pchain chain0 100 [100, 116]" "tot_ok chain0 [100, 116]" "payloads_apart chain0 [100, 116]"
    by (auto simp: chain0_fields payloads_apart_def payload_area_def struct_area_def SIZEOF_STRUCT_PBUF_def)
  show "contents chain0 [100, 116] = [5, 5, 7]"
    by (simp add: chain0_fields pbuf_bytes_def bytes_at_def upt_rec chain0_bytes)
qed

theorem pbuf_take_then_copy_witness:
  "\<exists>s'. pbuf_take 100 [1, 2] chain0 = Some (ERR_OK, s') \<and> pbuf_copy_partial 100 9 1 s' = Some [2, 7]"
proof -
  obtain s' where s': "pbuf_take 100 [1, 2] chain0 = Some (ERR_OK, s')"
    "\<forall>len off. pbuf_copy_partial 100 len off s' = Some (take (unat len) (drop (unat off) [1, 2, 7]))"
    using pbuf_take_then_copy[OF chain0(1,2,3), of "[1, 2]", unfolded chain0(4)] by auto
  have "pbuf_copy_partial 100 9 1 s' = Some [2, 7]" using s'(2) by simp
  then show ?thesis using s'(1) by blast
qed

theorem pbuf_memfind_first_witness: "\<exists>r. pbuf_memfind 100 [5, 7] 1 chain0 = Some r \<and> unat r = 1"
proof -
  have "occurs [5, 7] 1 [5, 5, 7]" by (simp add: occurs_def)
  then show ?thesis
    using pbuf_memfind_first[OF chain0(1,2), of "[5, 7]" 1, unfolded chain0(4)] by auto
qed

theorem pbuf_memfind_misses_witness: "pbuf_memfind 100 [5, 7] 0 chain0 = Some 0xFFFF"
  using pbuf_memfind_misses[OF chain0(1,2,4)] by simp

section \<open>Hiding and revealing headers\<close>

definition structs_apart :: "nat list \<Rightarrow> bool" where
  "structs_apart ps \<longleftrightarrow> distinct ps \<and> (\<forall>p\<in>set ps. \<forall>q\<in>set ps. p \<noteq> q \<longrightarrow> separate p q)"

lemma contents_cong:
  assumes "\<And>q. q \<in> set qs \<Longrightarrow> p_payload s' q = p_payload s q \<and> p_len s' q = p_len s q"
    "\<And>q a. q \<in> set qs \<Longrightarrow> a \<in> payload_area s q \<Longrightarrow> mem_bytes s' a = mem_bytes s a"
  shows "contents s' qs = contents s qs"
proof -
  have "pbuf_bytes s' q = pbuf_bytes s q" if "q \<in> set qs" for q
    using assms(1)[OF that] assms(2)[OF that] by (auto simp: pbuf_bytes_def bytes_at_def payload_area_def)
  then show ?thesis by (simp add: contents_def cong: map_cong)
qed

text \<open>A write to the structure at the head of a chain leaves the rest of it.\<close>

lemma tail_unchanged:
  assumes "structs_apart (p # ps)" "payloads_apart s (p # ps)"
    "\<And>a. a \<notin> struct_area p \<Longrightarrow> mem_bytes s' a = mem_bytes s a" "tot_ok s ps" "pchain s q ps"
  shows "contents s' ps = contents s ps" "tot_ok s' ps" "pchain s' q ps"
proof -
  have away: "a \<notin> struct_area p" if "r \<in> set ps" "a \<in> payload_area s r \<union> struct_area r" for r a
    using assms(1,2) that
    by (fastforce simp: structs_apart_def payloads_apart_def struct_area_def SIZEOF_STRUCT_PBUF_def separate_def)
  have st: "same_structs s s' ps"
    using away assms(3) by (simp add: same_structs_def)
  show "contents s' ps = contents s ps"
    by (rule contents_cong) (use same_structsD[OF st] away assms(3) in auto)
  show "tot_ok s' ps" by (rule tot_ok_cong[OF assms(4)]) (use same_structsD[OF st] in auto)
  show "pchain s' q ps" by (rule pchain_cong[OF assms(5)]) (use same_structsD[OF st] in auto)
qed

lemma unat_moved: "0 \<le> x \<Longrightarrow> x < 2 ^ 32 \<Longrightarrow> unat (word_of_int x :: u32) = nat x"
  by (simp add: unsigned_of_int take_bit_int_eq_self)


lemma sint_small16:
  assumes "n \<le> 32767"
  shows "sint (word_of_nat n :: u16) = int n" "0 < n \<Longrightarrow> sint (- word_of_nat n :: u16) = - int n"
proof -
  have "sint (word_of_int k :: u16) = k" if "-32768 \<le> k" "k \<le> 32767" for k
    using that by (simp add: signed_of_int signed_take_bit_int_eq_self)
  from this[of "int n"] this[of "- int n"]
  show "sint (word_of_nat n :: u16) = int n" "0 < n \<Longrightarrow> sint (- word_of_nat n :: u16) = - int n"
    using assms by simp_all
qed

text \<open>A move that is allowed: backwards into the payload for every kind of pbuf, forwards to the end
  of the structure for one that owns the memory before its payload.\<close>

definition owns_room :: "lwip_mem \<Rightarrow> nat \<Rightarrow> bool" where
  "owns_room s p \<longleftrightarrow> p_type s p = PBUF_RAM \<or> p_type s p = PBUF_POOL"

definition refers :: "lwip_mem \<Rightarrow> nat \<Rightarrow> bool" where
  "refers s p \<longleftrightarrow> p_type s p = PBUF_ROM \<or> p_type s p = PBUF_REF"

lemma header_moves:
  assumes p: "p \<noteq> 0" and inc: "inc \<noteq> 0" and mag: "\<not> (sint inc < 0 \<and> p_len s p < - inc)"
    and m: "m = int (p_payload s p) - sint inc" "0 \<le> m" "m < 2 ^ 32"
    and ok: "owns_room s p \<and> int p + 16 \<le> m \<or> refers s p \<and> sint inc < 0"
  shows "\<exists>s'. pbuf_header p inc s = (0, s') \<and> p_payload s' p = nat m \<and> p_len s' p = p_len s p + inc \<and>
    p_tot_len s' p = p_tot_len s p + inc \<and> p_next s' p = p_next s p \<and> p_type s' p = p_type s p \<and>
    (\<forall>a. a \<notin> struct_area p \<longrightarrow> mem_bytes s' a = mem_bytes s a)"
proof -
  have u: "unat (word_of_int (int (p_payload s p) - sint inc) :: u32) = nat m"
    using m by (subst unat_moved) auto
  define s1 where "s1 = set_p_payload (nat m) p s"
  have n: "nat m < 2 ^ 32" using m(2,3) by simp
  have f: "p_tot_len s1 p = p_tot_len s p" "p_len s1 p = p_len s p" "p_payload s1 p = nat m"
    using n by (simp_all add: s1_def pfield)
  have c: "\<not> (inc = 0 \<or> p = 0)" "\<not> (sint inc < 0 \<and> p_len s p < (if sint inc < 0 then - inc else inc))"
    using p inc mag by auto
  have "pbuf_header p inc s = (0, set_p_tot_len (p_tot_len s p + inc) p (set_p_len (p_len s p + inc) p s1))"
  proof (cases "owns_room s p")
    case True
    have r: "\<not> nat m < p + SIZEOF_STRUCT_PBUF"
      using ok True by (auto simp: SIZEOF_STRUCT_PBUF_def owns_room_def refers_def PBUF_RAM_def PBUF_POOL_def PBUF_ROM_def PBUF_REF_def)
    show ?thesis
      unfolding pbuf_header_def Let_def u if_not_P[OF c(1)] if_not_P[OF c(2)] if_P[OF True[unfolded owns_room_def]]
        s1_def[symmetric] f if_not_P[OF r] ..
  next
    case False
    then have t: "p_type s p = PBUF_REF \<or> p_type s p = PBUF_ROM" "\<not> (p_type s p = PBUF_RAM \<or> p_type s p = PBUF_POOL)"
      "sint inc < 0" using ok by (auto simp: refers_def owns_room_def)
    then have g: "sint inc < 0 \<and> (if sint inc < 0 then - inc else inc) \<le> p_len s p" using mag by auto
    show ?thesis
      unfolding pbuf_header_def Let_def u if_not_P[OF c(1)] if_not_P[OF c(2)] if_not_P[OF t(2)] if_P[OF t(1)] if_P[OF g]
        s1_def[symmetric] f ..
  qed
  then show ?thesis
    using n by (auto simp: s1_def pfield bytes_set_field struct_area_def SIZEOF_STRUCT_PBUF_def)
qed

lemma header_refers_refused:
  assumes "p \<noteq> 0" "refers s p" "inc \<noteq> 0" "0 \<le> sint inc"
  shows "pbuf_header p inc s = (1, s)"
  using assms by (auto simp: pbuf_header_def Let_def refers_def PBUF_RAM_def PBUF_POOL_def PBUF_ROM_def PBUF_REF_def)

lemma header_too_much_refused:
  assumes "p \<noteq> 0" "k \<le> 32767" "unat (p_len s p) < k"
  shows "pbuf_header p (- word_of_nat k) s = (1, s)"
proof -
  have wk: "unat (word_of_nat k :: u16) = k" using assms(2) unat_of_nat_u16[of k] by simp
  have "(word_of_nat k :: u16) \<noteq> 0" using wk assms(3) by auto
  moreover have "sint (- word_of_nat k :: u16) < 0" using sint_small16(2)[OF assms(2)] assms(3) by simp
  moreover have "p_len s p < word_of_nat k" using assms(3) by (simp add: word_less_nat_alt wk)
  ultimately show ?thesis using assms(1) by (simp add: pbuf_header_def)
qed

lemma header_refused:
  assumes p: "p \<noteq> 0" "p_type s p = PBUF_RAM \<or> p_type s p = PBUF_POOL"
    and k: "0 < k" "k \<le> 32767" "k \<le> p_payload s p" "p_payload s p < p + 16 + k" "p_payload s p < 2 ^ 32"
  shows "fst (pbuf_header p (word_of_nat k) s) = 1"
proof -
  have u: "unat (word_of_int (int (p_payload s p) - sint (word_of_nat k :: u16)) :: u32) = p_payload s p - k"
    using k sint_small16(1)[OF k(2)] by (subst unat_moved) auto
  have wk: "unat (word_of_nat k :: u16) = k" using k unat_of_nat_u16[of k] by simp
  have c: "\<not> ((word_of_nat k :: u16) = 0 \<or> p = 0)" using p(1) k(1) wk by (auto simp: word_unat_eq_iff)
  have d: "\<not> (sint (word_of_nat k :: u16) < 0 \<and>
      p_len s p < (if sint (word_of_nat k :: u16) < 0 then - word_of_nat k else word_of_nat k))"
    using sint_small16(1)[OF k(2)] by simp
  have "p_payload (set_p_payload (p_payload s p - k) p s) p = p_payload s p - k"
    using k(5) by (simp add: pfield)
  then have l: "p_payload (set_p_payload (p_payload s p - k) p s) p < p + SIZEOF_STRUCT_PBUF"
    using k(3,4) by (simp add: SIZEOF_STRUCT_PBUF_def)
  show ?thesis
    unfolding pbuf_header_def Let_def u if_not_P[OF c] if_not_P[OF d] if_P[OF p(2)] if_P[OF l] fst_conv ..
qed

text \<open>The state after the first n bytes were hidden, and hiding and revealing as one lemma each.\<close>

definition hidden :: "lwip_mem \<Rightarrow> nat \<Rightarrow> nat \<Rightarrow> lwip_mem \<Rightarrow> bool" where
  "hidden s p n s1 \<longleftrightarrow> p_payload s1 p = p_payload s p + n \<and> p_len s1 p = p_len s p - word_of_nat n \<and>
     p_tot_len s1 p = p_tot_len s p - word_of_nat n \<and> p_next s1 p = p_next s p \<and> p_type s1 p = p_type s p \<and>
     (\<forall>a. a \<notin> struct_area p \<longrightarrow> mem_bytes s1 a = mem_bytes s a)"

lemma small16:
  assumes "0 < n" "n \<le> 32767"
  shows "unat (word_of_nat n :: u16) = n" "(word_of_nat n :: u16) \<noteq> 0"
  using assms unat_of_nat_u16[of n] by (auto simp: word_unat_eq_iff)

lemma header_hides:
  assumes ch: "pchain s p (p # ps)" "tot_ok s (p # ps)" "payloads_apart s (p # ps)" "structs_apart (p # ps)"
    and ty: "owns_room s p \<and> p + 16 \<le> p_payload s p \<or> refers s p"
    and pay: "payload_area s p \<inter> struct_area p = {}" "p_payload s p + unat (p_len s p) < 2 ^ 32"
    and n: "0 < n" "n \<le> unat (p_len s p)" "n \<le> 32767"
  shows "\<exists>s1. pbuf_header p (- word_of_nat n) s = (0, s1) \<and> hidden s p n s1 \<and>
    pchain s1 p (p # ps) \<and> tot_ok s1 (p # ps) \<and> contents s1 (p # ps) = drop n (contents s (p # ps))"
proof -
  have p: "p \<noteq> 0" "pchain s (p_next s p) ps" using ch(1) by simp_all
  have tot: "unat (p_tot_len s p) = unat (p_len s p) + length (contents s ps)" "tot_ok s ps" using ch(2) by simp_all
  note wn = small16[OF n(1,3)]
  have nl: "word_of_nat n \<le> p_len s p" "word_of_nat n \<le> p_tot_len s p"
    using n tot by (simp_all add: word_le_nat_alt wn)
  have mag0: "\<not> (sint (- word_of_nat n :: u16) < 0 \<and> p_len s p < - (- word_of_nat n))"
    using nl(1) by (simp add: not_less)
  obtain s1 where s1: "pbuf_header p (- word_of_nat n) s = (0, s1)" "p_payload s1 p = p_payload s p + n"
    "p_len s1 p = p_len s p - word_of_nat n" "p_tot_len s1 p = p_tot_len s p - word_of_nat n"
    "p_next s1 p = p_next s p" "p_type s1 p = p_type s p"
    "\<forall>a. a \<notin> struct_area p \<longrightarrow> mem_bytes s1 a = mem_bytes s a"
    using header_moves[OF p(1) _ mag0, of "int (p_payload s p) + int n"] ty pay(2) n wn(2) sint_small16[OF n(3)]
    by (auto simp: nat_int_add)
  note t1 = tail_unchanged[OF ch(4,3) s1(7)[rule_format] tot(2) p(2)]
  have body: "a \<notin> struct_area p" if "a \<in> payload_area s p" for a
    using that pay(1) by blast
  have l1: "unat (p_len s1 p) = unat (p_len s p) - n" using nl(1) by (simp add: s1(3) unat_diff_le wn)
  have "pbuf_bytes s1 p = bytes_at s (p_payload s p + n) (unat (p_len s p) - n)"
    using s1(7) body n(2) unfolding pbuf_bytes_def l1 s1(2) by (auto simp: bytes_at_def payload_area_def)
  also have "\<dots> = drop n (pbuf_bytes s p)"
    using bytes_at_part[of n "unat (p_len s p) - n" "unat (p_len s p)" s "p_payload s p"] n(2)
    by (simp add: pbuf_bytes_def)
  finally have c1: "contents s1 (p # ps) = drop n (contents s (p # ps))" using t1(1) n(2) by simp
  have o1: "tot_ok s1 (p # ps)" using t1(1,2) tot(1) n(2) nl(2) l1 by (simp add: s1(4) unat_diff_le wn)
  have k1: "pchain s1 p (p # ps)" using t1(3) p(1) by (simp add: s1(5))
  show ?thesis using s1 c1 o1 k1 unfolding hidden_def by blast
qed

lemma header_reveals:
  assumes ch: "pchain s p (p # ps)" "tot_ok s (p # ps)" "payloads_apart s (p # ps)" "structs_apart (p # ps)"
    and ty: "owns_room s p" "p + 16 \<le> p_payload s p"
    and pay: "payload_area s p \<inter> struct_area p = {}" "p_payload s p + unat (p_len s p) < 2 ^ 32"
    and n: "0 < n" "n \<le> 32767" and s1: "hidden s p n s1"
  shows "\<exists>s2. pbuf_header p (word_of_nat n) s1 = (0, s2) \<and>
    pchain s2 p (p # ps) \<and> tot_ok s2 (p # ps) \<and> contents s2 (p # ps) = contents s (p # ps)"
proof -
  have p: "p \<noteq> 0" "pchain s (p_next s p) ps" using ch(1) by simp_all
  have tot: "unat (p_tot_len s p) = unat (p_len s p) + length (contents s ps)" "tot_ok s ps" using ch(2) by simp_all
  note h = s1[unfolded hidden_def]
  have "\<not> (sint (word_of_nat n :: u16) < 0 \<and> p_len s1 p < - word_of_nat n)" using sint_small16(1)[OF n(2)] by simp
  from header_moves[OF p(1) small16(2)[OF n] this, of "int (p_payload s p)"] obtain s2 where
    s2: "pbuf_header p (word_of_nat n) s1 = (0, s2)" "p_payload s2 p = p_payload s p"
    "p_len s2 p = p_len s p" "p_tot_len s2 p = p_tot_len s p" "p_next s2 p = p_next s1 p"
    "\<forall>a. a \<notin> struct_area p \<longrightarrow> mem_bytes s2 a = mem_bytes s1 a"
    using ty h pay(2) sint_small16(1)[OF n(2)] by (auto simp: owns_room_def)
  have a2: "mem_bytes s2 a = mem_bytes s a" if "a \<notin> struct_area p" for a using h s2(6) that by simp
  note t2 = tail_unchanged[OF ch(4,3) a2 tot(2) p(2)]
  have "pbuf_bytes s2 p = pbuf_bytes s p"
    using a2 pay(1) unfolding pbuf_bytes_def s2(2,3) by (auto simp: bytes_at_def payload_area_def disjoint_iff)
  then have "contents s2 (p # ps) = contents s (p # ps)" using t2(1) by simp
  moreover have "tot_ok s2 (p # ps)" using t2(1,2) tot(1) by (simp add: s2(3,4))
  moreover have "pchain s2 p (p # ps)" using t2(3) p(1) h by (simp add: s2(5))
  ultimately show ?thesis using s2(1) by blast
qed

text \<open>
  C36: pbuf_header hides the first n bytes, 1 to 32767, of a chain of pbufs that lie
  apart, if its first pbuf has as many: the contents are then those without the first n
  bytes and the lengths stay consistent. If the first pbuf is a PBUF_RAM or PBUF_POOL a
  second call reveals them, with the old contents again, and a move in front of its
  structure is refused; if it is a PBUF_ROM or PBUF_REF the second call is refused.
  Hiding more bytes than the first pbuf has is refused and changes nothing.
\<close>

theorem pbuf_header_roundtrip:
  assumes ch: "pchain s p (p # ps)" "tot_ok s (p # ps)" "payloads_apart s (p # ps)" "structs_apart (p # ps)"
    and ty: "owns_room s p \<and> p + 16 \<le> p_payload s p \<or> refers s p"
    and pay: "payload_area s p \<inter> struct_area p = {}" "p_payload s p + unat (p_len s p) < 2 ^ 32"
    and n: "0 < n" "n \<le> 32767"
  shows "if unat (p_len s p) < n then pbuf_header p (- word_of_nat n) s = (1, s) else
    (\<exists>s1. pbuf_header p (- word_of_nat n) s = (0, s1) \<and>
      pchain s1 p (p # ps) \<and> tot_ok s1 (p # ps) \<and> contents s1 (p # ps) = drop n (contents s (p # ps)) \<and>
      (if refers s p then pbuf_header p (word_of_nat n) s1 = (1, s1) else
        (\<exists>s2. pbuf_header p (word_of_nat n) s1 = (0, s2) \<and>
          pchain s2 p (p # ps) \<and> tot_ok s2 (p # ps) \<and> contents s2 (p # ps) = contents s (p # ps)) \<and>
        (\<forall>k. 0 < k \<and> k \<le> 32767 \<and> k \<le> p_payload s p \<and> p_payload s p < p + 16 + k \<longrightarrow>
          fst (pbuf_header p (word_of_nat k) s) = 1)))"
proof (cases "unat (p_len s p) < n")
  case True
  then show ?thesis using header_too_much_refused[OF _ n(2)] ch(1) by simp
next
  case long: False
  then have le: "n \<le> unat (p_len s p)" by simp
  have p: "p \<noteq> 0" using ch(1) by simp
  obtain s1 where s1: "pbuf_header p (- word_of_nat n) s = (0, s1)" "hidden s p n s1"
    "pchain s1 p (p # ps)" "tot_ok s1 (p # ps)" "contents s1 (p # ps) = drop n (contents s (p # ps))"
    using header_hides[OF ch ty pay n(1) le n(2)] by blast
  have "pbuf_header p (word_of_nat n) s1 = (1, s1)" if "refers s p"
    by (rule header_refers_refused[OF p _ small16(2)[OF n]])
      (use that s1(2) sint_small16(1)[OF n(2)] in \<open>simp_all add: refers_def hidden_def\<close>)
  moreover have "\<exists>s2. pbuf_header p (word_of_nat n) s1 = (0, s2) \<and>
      pchain s2 p (p # ps) \<and> tot_ok s2 (p # ps) \<and> contents s2 (p # ps) = contents s (p # ps)" if "\<not> refers s p"
    using header_reveals[OF ch _ _ pay n s1(2)] ty that by blast
  moreover have "fst (pbuf_header p (word_of_nat k) s) = 1"
    if "\<not> refers s p" "0 < k \<and> k \<le> 32767 \<and> k \<le> p_payload s p \<and> p_payload s p < p + 16 + k" for k
    using that ty pay(2) header_refused[OF p, of s k] by (auto simp: owns_room_def)
  ultimately have "if refers s p then pbuf_header p (word_of_nat n) s1 = (1, s1) else
      (\<exists>s2. pbuf_header p (word_of_nat n) s1 = (0, s2) \<and>
        pchain s2 p (p # ps) \<and> tot_ok s2 (p # ps) \<and> contents s2 (p # ps) = contents s (p # ps)) \<and>
      (\<forall>k. 0 < k \<and> k \<le> 32767 \<and> k \<le> p_payload s p \<and> p_payload s p < p + 16 + k \<longrightarrow>
        fst (pbuf_header p (word_of_nat k) s) = 1)" unfolding if_bool_eq_conj by blast
  then show ?thesis unfolding if_not_P[OF long] using s1(1,3-5) by blast
qed

theorem pbuf_header_roundtrip_witness:
  "\<exists>s1 s2. pbuf_header 100 (- 1) chain0 = (0, s1) \<and> contents s1 [100, 116] = [5, 7] \<and>
    pbuf_header 100 1 s1 = (0, s2) \<and> contents s2 [100, 116] = [5, 5, 7]"
proof -
  have a: "structs_apart [100, 116]" by (simp add: structs_apart_def separate_def)
  have own: "owns_room chain0 100" "\<not> refers chain0 100"
    by (simp_all add: owns_room_def refers_def chain0_fields PBUF_RAM_def PBUF_ROM_def PBUF_REF_def)
  have p: "payload_area chain0 100 \<inter> struct_area 100 = {}"
    by (auto simp: payload_area_def struct_area_def chain0_fields SIZEOF_STRUCT_PBUF_def)
  show ?thesis
    using pbuf_header_roundtrip[OF chain0(1,2,3) a _ p, of 1, unfolded chain0(4)] own by (auto simp: chain0_fields)
qed

end
