(* ===== verification/PbufMem.thy ===== *)
theory PbufMem
  imports PbufChain
begin

text \<open>
  Packet buffers in the memory that heap and pools lend out: which area a pbuf lies in, what
  \<open>pbuf_free\<close> gives back and what \<open>pbuf_alloc\<close> hands out, and the joining and splitting of chains.
\<close>

section \<open>Writes inside an area\<close>

abbreviation lent :: "lwip_mem \<Rightarrow> (nat \<times> nat) set" where
  "lent s \<equiv> memory.handed_both s"

text \<open>Memory in order: heap and pools as their operations need them, within the address space and
  aligned, with the two pools of pbufs as they are configured.\<close>

definition mem_ok :: "lwip_mem \<Rightarrow> bool" where
  "mem_ok s \<longleftrightarrow> heap_fine s \<and> pools_ok s \<and> MEMP_PBUF_POOL < length (memp_pools s) \<and>
     pool_size s MEMP_PBUF = SIZEOF_STRUCT_PBUF \<and>
     pool_size s MEMP_PBUF_POOL = SIZEOF_STRUCT_PBUF + PBUF_POOL_BUFSIZE_ALIGNED \<and>
     4 dvd memp_memory s \<and> (\<forall>(n, z)\<in>set (memp_pools s). 4 dvd z) \<and>
     ram_end (heap s) + SIZEOF_STRUCT_MEM \<le> 2 ^ 32"

lemma mem_okD:
  assumes "mem_ok s"
  shows "heap_fine s" "pools_ok s" "pools_fit s" "heap_fine s \<and> pools_ok s"
    "MEMP_PBUF_POOL < length (memp_pools s)" "MEMP_PBUF < length (memp_pools s)"
    "pool_size s MEMP_PBUF = 16" "pool_size s MEMP_PBUF_POOL = 1532"
  using assms pools_ok_fit
  by (auto simp: mem_ok_def MEMP_PBUF_POOL_def MEMP_PBUF_def SIZEOF_STRUCT_PBUF_def PBUF_POOL_BUFSIZE_ALIGNED_def)

lemma mem_okI:
  assumes "mem_ok s" "heap_fine s'" "pools_ok s'" "memp_pools s' = memp_pools s" "memp_memory s' = memp_memory s"
    "ram (heap s') = ram (heap s)"
  shows "mem_ok s'"
  using assms same_pools[OF assms(4,5)] by (simp add: mem_ok_def ram_end_def)

lemma extent_aligned: "(\<forall>(n, z)\<in>set ps. 4 dvd z) \<Longrightarrow> 4 dvd pools_extent ps"
  by (induction ps) auto

lemma lent_area:
  assumes ok: "mem_ok s" and p: "(p, l) \<in> lent s"
  shows "4 dvd p" "p + l \<le> 2 ^ 32" "0 < p"
proof -
  note m = mem_okD[OF ok]
  have al: "4 dvd memp_memory s" "\<And>n z. (n, z) \<in> set (memp_pools s) \<Longrightarrow> 4 dvd z" "ram_end (heap s) + 8 \<le> 2 ^ 32"
    using ok by (auto simp: mem_ok_def SIZEOF_STRUCT_MEM_def)
  have "4 dvd p \<and> p + l \<le> 2 ^ 32 \<and> 0 < p"
  proof (cases rule: both_cases[OF m(4) p, case_names heap pool])
    case heap
    then show ?thesis using in_use_inside[OF _ heap(1)] m(1) al(3) by (simp add: heap_fine_def)
  next
    case pool
    obtain t where t: "t < length (memp_pools s)" "l = pool_size s t" "p \<in> set (elements s t)"
      using pool(1) by (auto simp: handed_iff)
    have "4 dvd pools_extent (take t (memp_pools s))"
      by (rule extent_aligned) (use al(2) in \<open>auto dest: in_set_takeD\<close>)
    moreover have "4 dvd pool_size s t"
      using al(2)[of "fst (memp_pools s ! t)" "pool_size s t"] t(1) by (simp add: pool_size_def)
    ultimately have "4 dvd p" using t(3) al(1) by (auto simp: elements_def pool_start_def)
    moreover have "p + l \<le> 2 ^ 32" "0 < p"
      using pool_area_inside[OF m(2) pool(1)] m(3) by (simp_all add: pools_fit_def)
    ultimately show ?thesis by blast
  qed
  then show "4 dvd p" "p + l \<le> 2 ^ 32" "0 < p" by blast+
qed

text \<open>Nothing but bytes changed, and all of them inside the area at \<open>p\<close>.\<close>

definition inside :: "nat \<Rightarrow> nat \<Rightarrow> lwip_mem \<Rightarrow> lwip_mem \<Rightarrow> bool" where
  "inside p l s s' \<longleftrightarrow> (\<exists>f. s' = set_bytes f s \<and> (\<forall>a. a \<notin> area p l \<longrightarrow> f a = mem_bytes s a))"

lemma set_bytes_twice [simp]: "set_bytes f (set_bytes g s) = set_bytes f s"
  by (simp add: set_bytes_def)

lemma set_bytes_same: "set_bytes (mem_bytes s) s = s"
  by (simp add: set_bytes_def mem_bytes_def)

lemma inside_refl: "inside p l s s"
  unfolding inside_def by (rule exI[of _ "mem_bytes s"]) (simp add: set_bytes_same)

lemma inside_trans: "inside p l s s' \<Longrightarrow> inside p l s' s'' \<Longrightarrow> inside p l s s''"
  by (auto simp: inside_def)

lemma inside_bytes: "inside p l s s' \<Longrightarrow> a \<notin> area p l \<Longrightarrow> mem_bytes s' a = mem_bytes s a"
  by (auto simp: inside_def)

lemma inside_same:
  assumes "inside p l s s'"
  shows "memp_pools s' = memp_pools s" "memp_memory s' = memp_memory s" "mf s' = mf s" "memp_tab s' = memp_tab s"
    "ram (heap s') = ram (heap s)"
  using assms by (auto simp: inside_def set_bytes_def)

text \<open>Every setter of a field writes inside its structure.\<close>

lemma inside_field:
  assumes "16 \<le> l"
  shows "inside p l s (set_p_next q p s)" "inside p l s (set_p_payload q p s)" "inside p l s (set_p_tot_len w p s)"
    "inside p l s (set_p_len w p s)" "inside p l s (set_p_type b p s)" "inside p l s (set_p_flags b p s)"
    "inside p l s (set_p_ref w p s)"
proof -
  have *: "inside p l s s'" if "\<exists>f. s' = set_bytes f s" "\<And>a. a < p \<or> p + 16 \<le> a \<Longrightarrow> mem_bytes s' a = mem_bytes s a" for s'
    using that assms unfolding inside_def by fastforce
  show "inside p l s (set_p_next q p s)" "inside p l s (set_p_payload q p s)" "inside p l s (set_p_tot_len w p s)"
    "inside p l s (set_p_len w p s)" "inside p l s (set_p_type b p s)" "inside p l s (set_p_flags b p s)"
    "inside p l s (set_p_ref w p s)"
    by (rule *; (auto simp: bytes_set_field)?;
        auto simp: set_p_next_def set_p_payload_def set_p_tot_len_def set_p_len_def set_p_type_def
          set_p_flags_def set_p_ref_def)+
qed

lemma inside_write_at: "length d \<le> l \<Longrightarrow> p \<le> a \<Longrightarrow> a + length d \<le> p + l \<Longrightarrow> inside p l s (write_at a d s)"
  unfolding inside_def write_at_def by (intro exI conjI) (rule refl, auto)

text \<open>Such a change is a sequence of single writes of the owner.\<close>

lemma poke_one:
  assumes ok: "heap_fine s" "pools_ok s" and p: "(p, l) \<in> lent s" and i: "i < l"
  shows "heap_fine (mem_poke (p + i) b s)" "pools_ok (mem_poke (p + i) b s)"
    "heap_handed (mem_poke (p + i) b s) = heap_handed s" "pool_handed (mem_poke (p + i) b s) = pool_handed s"
proof -
  have "heap_fine (mem_poke (p + i) b s) \<and> pools_ok (mem_poke (p + i) b s) \<and>
      heap_handed (mem_poke (p + i) b s) = heap_handed s \<and> pool_handed (mem_poke (p + i) b s) = pool_handed s"
  proof (cases rule: both_cases[OF conjI[OF ok] p, case_names heap pool])
    case heap
    show ?thesis using mheap.put_area[OF ok(1) heap(1) i] memory.put_frame[OF ok heap(1) i] by blast
  next
    case pool
    show ?thesis using pools.put_area[OF ok(2) pool(1) i] memory.put_frame'[OF ok pool(1) i] by blast
  qed
  then show "heap_fine (mem_poke (p + i) b s)" "pools_ok (mem_poke (p + i) b s)"
    "heap_handed (mem_poke (p + i) b s) = heap_handed s" "pool_handed (mem_poke (p + i) b s) = pool_handed s" by blast+
qed

lemma change_inside:
  assumes ok: "mem_ok s" and p: "(p, l) \<in> lent s" and c: "inside p l s s'"
  shows "mem_ok s'" "heap_handed s' = heap_handed s" "pool_handed s' = pool_handed s" "lent s' = lent s"
proof -
  obtain f where f: "s' = set_bytes f s" "\<And>a. a \<notin> area p l \<Longrightarrow> f a = mem_bytes s a"
    using c by (auto simp: inside_def)
  define t where "t k = set_bytes (\<lambda>a. if a \<in> area p k then f a else mem_bytes s a) s" for k
  have step: "t (Suc k) = mem_poke (p + k) (f (p + k)) (t k)" for k
  proof -
    have "(\<lambda>a. if a \<in> area p (Suc k) then f a else mem_bytes s a) =
        (\<lambda>a. if a \<in> area p k then f a else mem_bytes s a)(p + k := f (p + k))"
      by (auto simp: fun_eq_iff)
    then show ?thesis by (simp add: t_def mem_poke_def poke_def set_bytes_def)
  qed
  have "heap_fine (t k) \<and> pools_ok (t k) \<and> heap_handed (t k) = heap_handed s \<and> pool_handed (t k) = pool_handed s"
    if "k \<le> l" for k
    using that
  proof (induction k)
    case 0
    have "t 0 = s" by (simp add: t_def set_bytes_same)
    then show ?case using mem_okD[OF ok] by simp
  next
    case (Suc k)
    then have IH: "heap_fine (t k)" "pools_ok (t k)" "heap_handed (t k) = heap_handed s" "pool_handed (t k) = pool_handed s"
      by simp_all
    then have "(p, l) \<in> lent (t k)" using p by (simp add: memory.handed_both_def)
    from poke_one[OF IH(1,2) this, of k "f (p + k)"] IH show ?case using Suc.prems by (simp add: step)
  qed
  moreover have "t l = s'"
  proof -
    have "(\<lambda>a. if a \<in> area p l then f a else mem_bytes s a) = f" using f(2) by auto
    then show ?thesis by (simp add: t_def f(1))
  qed
  ultimately have r: "heap_fine s'" "pools_ok s'" "heap_handed s' = heap_handed s" "pool_handed s' = pool_handed s" by auto
  then show "mem_ok s'" using mem_okI[OF ok] inside_same[OF c] by blast
  show "heap_handed s' = heap_handed s" "pool_handed s' = pool_handed s" "lent s' = lent s"
    using r by (simp_all add: memory.handed_both_def)
qed

section \<open>Giving back\<close>

text \<open>A pbuf that is not a custom one lies in an area of the place its type tells.\<close>

definition pbuf_area :: "lwip_mem \<Rightarrow> nat \<Rightarrow> nat \<Rightarrow> bool" where
  "pbuf_area s p l \<longleftrightarrow> p_flags s p AND PBUF_FLAG_IS_CUSTOM = 0 \<and> SIZEOF_STRUCT_PBUF \<le> l \<and>
     (p_type s p = PBUF_RAM \<and> (p, l) \<in> heap_handed s \<or>
      p_type s p = PBUF_POOL \<and> (p, l) \<in> pool_handed s \<and> pool_of p s = MEMP_PBUF_POOL \<or>
      (p_type s p = PBUF_ROM \<or> p_type s p = PBUF_REF) \<and> (p, l) \<in> pool_handed s \<and> pool_of p s = MEMP_PBUF)"

lemma pbuf_areaD: "pbuf_area s p l \<Longrightarrow> (p, l) \<in> lent s" "pbuf_area s p l \<Longrightarrow> 16 \<le> l"
  by (auto simp: pbuf_area_def memory.handed_both_def SIZEOF_STRUCT_PBUF_def)

lemma pbuf_area_cong:
  assumes "pbuf_area s p l" "(p, l) \<in> heap_handed s \<longleftrightarrow> (p, l) \<in> heap_handed s'"
    "(p, l) \<in> pool_handed s \<longleftrightarrow> (p, l) \<in> pool_handed s'"
    "memp_pools s' = memp_pools s" "memp_memory s' = memp_memory s"
    "p_type s' p = p_type s p" "p_flags s' p = p_flags s p"
  shows "pbuf_area s' p l"
  using assms(1-3) by (simp add: pbuf_area_def assms(6,7) pool_of_same[OF assms(4,5)])

lemma release_gives_back:
  assumes ok: "mem_ok s" and p: "pbuf_area s p l"
  shows "release custom p s = Some (memory.free_both p s)"
proof -
  note m = mem_okD[OF ok]
  have pool: "memp_free t p s = Some (memory.free_both p s)" if h: "(p, l) \<in> pool_handed s" "pool_of p s = t" for t
  proof -
    obtain u where u: "u < length (memp_pools s)" "p \<in> set (elements s u)" "p \<notin> set (free_elements s u)" "pool_of p s = u"
      by (rule handed_cases[OF m(2) h(1)]) blast
    obtain s' where "memp_free t p s = Some s'" using memp_free_spec[OF m(2) u(1-3)] h(2) u(4) by blast
    then show ?thesis using memory.theirs[OF m(1,2) h(1)] h(2) by (simp add: memory.free_both_def give_back_def)
  qed
  have c: "\<not> (p_flags s p AND PBUF_FLAG_IS_CUSTOM \<noteq> 0)" using p by (simp add: pbuf_area_def)
  consider "p_type s p = PBUF_RAM" "(p, l) \<in> heap_handed s" | "p_type s p = PBUF_POOL" "(p, l) \<in> pool_handed s" "pool_of p s = MEMP_PBUF_POOL"
    | "p_type s p = PBUF_ROM \<or> p_type s p = PBUF_REF" "(p, l) \<in> pool_handed s" "pool_of p s = MEMP_PBUF"
    using p by (auto simp: pbuf_area_def)
  then show ?thesis
  proof cases
    case 1
    then show ?thesis using memory.mine[OF m(1) 1(2)] c
      by (simp add: release_def memory.free_both_def PBUF_RAM_def PBUF_POOL_def PBUF_ROM_def PBUF_REF_def)
  next
    case 2
    then show ?thesis using pool[OF 2(2,3)] c by (simp add: release_def)
  next
    case 3
    then show ?thesis using pool[OF 3(2,3)] c
      by (auto simp: release_def PBUF_RAM_def PBUF_POOL_def PBUF_ROM_def PBUF_REF_def)
  qed
qed

lemma give_back_area:
  assumes ok: "mem_ok s" and p: "(p, l) \<in> lent s"
  shows "mem_ok (memory.free_both p s)" "lent (memory.free_both p s) = lent s - {(p, l)}"
    "heap_handed (memory.free_both p s) = heap_handed s - {(p, l)}"
    "pool_handed (memory.free_both p s) = pool_handed s - {(p, l)}"
    "memp_pools (memory.free_both p s) = memp_pools s" "memp_memory (memory.free_both p s) = memp_memory s"
    "ram (heap (memory.free_both p s)) = ram (heap s)"
proof -
  note m = mem_okD[OF ok]
  have f: "heap_fine (memory.free_both p s)" "pools_ok (memory.free_both p s)"
    "lent (memory.free_both p s) = lent s - {(p, l)}"
    using memory.both.free_area[OF m(4) p] by blast+
  show "lent (memory.free_both p s) = lent s - {(p, l)}" by (rule f(3))
  have r: "heap_handed (memory.free_both p s) = heap_handed s - {(p, l)} \<and>
    pool_handed (memory.free_both p s) = pool_handed s - {(p, l)} \<and>
    memp_pools (memory.free_both p s) = memp_pools s \<and> memp_memory (memory.free_both p s) = memp_memory s \<and>
    ram (heap (memory.free_both p s)) = ram (heap s)"
  proof (cases rule: both_cases[OF m(4) p, case_names heap pool])
    case heap
    have "(p, l) \<notin> pool_handed s" using memory.apart[OF m(1,2) heap(1), of p l] by blast
    then show ?thesis
      using mheap.free_area[OF m(1) heap(1)] memory.free_frame[OF m(1,2) heap(1)] heap(2)
        mem_free_local(1)[OF _ heap(1)] m(1)[unfolded heap_fine_def]
      by (simp add: memory.free_both_def heap_free_def)
  next
    case pool
    have "(p, l) \<notin> heap_handed s" using memory.apart[OF m(1,2) _ pool(1), of p l] by blast
    then show ?thesis
      using pools.free_area[OF m(2) pool(1)] memory.free_frame'[OF m(1,2) pool(1)] pool(2) give_back_handed(4,5,6)[OF m(2) pool(1)]
      by (simp add: memory.free_both_def)
  qed
  then show "heap_handed (memory.free_both p s) = heap_handed s - {(p, l)}"
    "pool_handed (memory.free_both p s) = pool_handed s - {(p, l)}"
    "memp_pools (memory.free_both p s) = memp_pools s" "memp_memory (memory.free_both p s) = memp_memory s"
    "ram (heap (memory.free_both p s)) = ram (heap s)" by blast+
  then show "mem_ok (memory.free_both p s)" using mem_okI[OF ok f(1,2)] by blast
qed

text \<open>Areas that are lent do not overlap, so the structures in them do not either.\<close>

lemma lent_apart:
  assumes "mem_ok s" "(p, l) \<in> lent s" "(q, k) \<in> lent s"
  shows "p = q \<Longrightarrow> l = k" "p \<noteq> q \<Longrightarrow> area p l \<inter> area q k = {}"
  using memory.both.separate[OF mem_okD(4)[OF assms(1)] assms(2,3)] by blast+

text \<open>What happens in other areas leaves a pbuf alone.\<close>

lemma other_area:
  assumes "pbuf_area s q k" "\<And>a. a \<in> area q k \<Longrightarrow> mem_bytes s' a = mem_bytes s a"
    "(q, k) \<in> heap_handed s \<longleftrightarrow> (q, k) \<in> heap_handed s'" "(q, k) \<in> pool_handed s \<longleftrightarrow> (q, k) \<in> pool_handed s'"
    "memp_pools s' = memp_pools s" "memp_memory s' = memp_memory s"
  shows "pbuf_area s' q k" "p_next s' q = p_next s q" "p_payload s' q = p_payload s q"
    "p_tot_len s' q = p_tot_len s q" "p_len s' q = p_len s q" "p_ref s' q = p_ref s q"
    "p_type s' q = p_type s q" "p_flags s' q = p_flags s q"
proof -
  have b: "mem_bytes s' a = mem_bytes s a" if "q \<le> a" "a < q + 16" for a
    using that pbuf_areaD(2)[OF assms(1)] by (intro assms(2)) simp
  note c = pbuf_cong[of q s' s, OF b]
  show "pbuf_area s' q k" by (rule pbuf_area_cong[OF assms(1,3-6)]) (simp_all add: c)
  show "p_next s' q = p_next s q" "p_payload s' q = p_payload s q" "p_tot_len s' q = p_tot_len s q"
    "p_len s' q = p_len s q" "p_ref s' q = p_ref s q" "p_type s' q = p_type s q" "p_flags s' q = p_flags s q"
    by (simp_all add: c)
qed

text \<open>One pbuf whose last reference goes.\<close>

lemma drop_last:
  assumes ok: "mem_ok s" and x: "pbuf_area s x l" "p_ref s x = 1"
  obtains s' where "x \<noteq> 0 \<Longrightarrow> free_loop custom x n s = free_loop custom (p_next s x) (n + 1) s'" "mem_ok s'"
    "lent s' = lent s - {(x, l)}"
    "\<And>q k a. (q, k) \<in> lent s \<Longrightarrow> q \<noteq> x \<Longrightarrow> a \<in> area q k \<Longrightarrow> mem_bytes s' a = mem_bytes s a"
    "\<And>q k. pbuf_area s q k \<Longrightarrow> q \<noteq> x \<Longrightarrow> pbuf_area s' q k"
proof -
  define s1 where "s1 = set_p_ref 0 x s"
  define s2 where "s2 = memory.free_both x s1"
  note lx = pbuf_areaD[OF x(1)]
  have i: "inside x 16 s s1" "inside x l s s1" using inside_field(7)[of 16] inside_field(7)[OF lx(2)] by (simp_all add: s1_def)
  note w = change_inside[OF ok lx(1) i(2)] and sm = inside_same[OF i(2)]
  have a1: "pbuf_area s1 x l"
    by (rule pbuf_area_cong[OF x(1)]) (simp_all add: w(2,3) sm, simp_all add: s1_def pfield)
  have lx1: "(x, l) \<in> lent s1" using lx(1) w(4) by simp
  note g = give_back_area[OF w(1) lx1, folded s2_def]
  have "release custom x s1 = Some s2" unfolding s2_def by (rule release_gives_back[OF w(1) a1])
  moreover have "p_next s1 x = p_next s x" "p_ref s1 x = 0" by (simp_all add: s1_def pfield)
  ultimately have loop: "free_loop custom x n s = free_loop custom (p_next s x) (n + 1) s2" if "x \<noteq> 0"
    using that x(2) by (subst free_loop.simps) (simp add: s1_def[symmetric] Let_def)
  have keep: "mem_bytes s2 a = mem_bytes s a" if q: "(q, k) \<in> lent s" "q \<noteq> x" "a \<in> area q k" for q k a
  proof -
    have "mem_bytes s2 a = mem_bytes s1 a"
      unfolding s2_def by (rule memory.both.free_keeps[OF mem_okD(4)[OF w(1)] lx1 _ q(2,3)]) (use q(1) w(4) in simp)
    also have "\<dots> = mem_bytes s a"
      using lent_apart(2)[OF ok q(1) lx(1) q(2)] q(3) by (intro inside_bytes[OF i(2)]) blast
    finally show ?thesis .
  qed
  have "pbuf_area s2 q k" if q: "pbuf_area s q k" "q \<noteq> x" for q k
    by (rule other_area(1)[OF q(1) keep[OF pbuf_areaD(1)[OF q(1)] q(2)]])
      (use q(2) in \<open>simp_all add: g(3-6) w(2,3) sm\<close>)
  then show ?thesis using that[of s2] loop g(1,2) w(4) keep by simp
qed

lemma free_loop_gives_back:
  assumes ok: "mem_ok s" and ch: "pchain s p (fs @ rs)" "distinct (fs @ rs)"
    and ar: "\<forall>x\<in>set (fs @ rs). \<exists>l. pbuf_area s x l"
    and ref: "\<forall>x\<in>set fs. p_ref s x = 1" "rs \<noteq> [] \<Longrightarrow> p_ref s (hd rs) \<noteq> 1"
  shows "\<exists>s'. free_loop custom p n s = Some (n + word_of_nat (length fs), s') \<and> mem_ok s' \<and>
    lent s' = {(x, l) \<in> lent s. x \<notin> set fs} \<and>
    (rs \<noteq> [] \<longrightarrow> p_ref s' (hd rs) = p_ref s (hd rs) - 1) \<and>
    (\<forall>(q, k) \<in> lent s'. \<forall>a \<in> area q k. (rs \<noteq> [] \<longrightarrow> a \<noteq> hd rs + 14 \<and> a \<noteq> hd rs + 15) \<longrightarrow>
       mem_bytes s' a = mem_bytes s a)"
  using assms
proof (induction fs arbitrary: p s n)
  case Nil
  show ?case
  proof (cases rs)
    case Nil
    then show ?thesis using Nil.prems by (subst free_loop.simps) auto
  next
    case (Cons y ys)
    have y: "p = y" "y \<noteq> 0" "p_ref s y \<noteq> 1" using Nil.prems by (simp_all add: Cons)
    obtain l where l: "pbuf_area s y l" using Nil.prems(4) by (auto simp: Cons)
    define s' where "s' = set_p_ref (p_ref s y - 1) y s"
    have i: "inside y l s s'" unfolding s'_def by (rule inside_field[OF pbuf_areaD(2)[OF l]])
    note w = change_inside[OF Nil.prems(1) pbuf_areaD(1)[OF l] i]
    have "free_loop custom p n s = Some (n, s')"
      using y by (subst free_loop.simps) (simp add: s'_def Let_def)
    moreover have "mem_bytes s' a = mem_bytes s a" if "a \<noteq> y + 14" "a \<noteq> y + 15" for a
      using that by (simp add: s'_def set_p_ref_def store16_def)
    ultimately show ?thesis
      using w by (intro exI[of _ s']) (auto simp: Cons s'_def pfield)
  qed
next
  case (Cons x fs)
  obtain l where l: "pbuf_area s x l" using Cons.prems(4) by auto
  have x: "p = x" "x \<noteq> 0" "pchain s (p_next s x) (fs @ rs)" "p_ref s x = 1" using Cons.prems(2,5) by simp_all
  obtain s1 where s1: "free_loop custom x n s = free_loop custom (p_next s x) (n + 1) s1" "mem_ok s1"
    "lent s1 = lent s - {(x, l)}"
    "\<And>q k a. (q, k) \<in> lent s \<Longrightarrow> q \<noteq> x \<Longrightarrow> a \<in> area q k \<Longrightarrow> mem_bytes s1 a = mem_bytes s a"
    "\<And>q k. pbuf_area s q k \<Longrightarrow> q \<noteq> x \<Longrightarrow> pbuf_area s1 q k"
    using drop_last[OF Cons.prems(1) l x(4)] x(2) by metis
  have same: "p_next s1 q = p_next s q \<and> p_ref s1 q = p_ref s q \<and> (\<exists>l. pbuf_area s1 q l)" if qs: "q \<in> set (fs @ rs)" for q
  proof -
    have q: "q \<noteq> x" using qs Cons.prems(3) by auto
    obtain k where k: "pbuf_area s q k" using qs Cons.prems(4) by auto
    have "mem_bytes s1 a = mem_bytes s a" if "q \<le> a" "a < q + 16" for a
      using that pbuf_areaD(2)[OF k] by (intro s1(4)[OF pbuf_areaD(1)[OF k] q]) simp
    from pbuf_cong[of q s1 s, OF this] show ?thesis using s1(5)[OF k q] by blast
  qed
  have ch: "pchain s1 (p_next s x) (fs @ rs)" by (rule pchain_cong[OF x(3)]) (use same in blast)
  have hd: "hd rs \<in> set (fs @ rs)" if "rs \<noteq> []" using that by simp
  have dist: "distinct (fs @ rs)" and ar: "\<forall>x\<in>set (fs @ rs). \<exists>l. pbuf_area s1 x l"
    and rf: "\<forall>x\<in>set fs. p_ref s1 x = 1" "rs \<noteq> [] \<Longrightarrow> p_ref s1 (hd rs) \<noteq> 1"
    using Cons.prems(3,5,6) same hd by simp_all
  obtain s' where s': "free_loop custom (p_next s x) (n + 1) s1 = Some (n + 1 + word_of_nat (length fs), s')" "mem_ok s'"
    "lent s' = {(x, l) \<in> lent s1. x \<notin> set fs}"
    "rs \<noteq> [] \<longrightarrow> p_ref s' (hd rs) = p_ref s1 (hd rs) - 1"
    "\<forall>(q, k) \<in> lent s'. \<forall>a \<in> area q k. (rs \<noteq> [] \<longrightarrow> a \<noteq> hd rs + 14 \<and> a \<noteq> hd rs + 15) \<longrightarrow>
       mem_bytes s' a = mem_bytes s1 a"
    using Cons.IH[OF s1(2) ch dist ar rf(1) rf(2), of "n + 1"] by blast
  have one: "(q, k) \<in> lent s \<and> q \<noteq> x" if "(q, k) \<in> lent s1" for q k
    using that lent_apart(1)[OF Cons.prems(1) _ pbuf_areaD(1)[OF l], of q k] unfolding s1(3) by auto
  have "(y, k) \<in> lent s' \<longleftrightarrow> (y, k) \<in> lent s \<and> y \<notin> set (x # fs)" for y k
  proof -
    have "(y, k) \<in> lent s1 \<longleftrightarrow> (y, k) \<in> lent s \<and> y \<noteq> x" using one[of y k] by (auto simp: s1(3))
    then show ?thesis by (simp add: s'(3))
  qed
  then have "lent s' = {(y, k) \<in> lent s. y \<notin> set (x # fs)}" by blast
  moreover have "mem_bytes s' a = mem_bytes s a"
    if "(q, k) \<in> lent s'" "a \<in> area q k" "rs \<noteq> [] \<longrightarrow> a \<noteq> hd rs + 14 \<and> a \<noteq> hd rs + 15" for q k a
  proof -
    have "(q, k) \<in> lent s1" using that(1) by (simp add: s'(3))
    then have "mem_bytes s1 a = mem_bytes s a" using s1(4) one that(2) by blast
    then show ?thesis using s'(5) that by fastforce
  qed
  moreover have "n + word_of_nat (length (x # fs)) = n + 1 + word_of_nat (length fs)" by (simp add: add.assoc)
  moreover have "p_ref s' (hd rs) = p_ref s (hd rs) - 1" if "rs \<noteq> []" using s'(4) same hd that by simp
  ultimately show ?case
    unfolding x(1) s1(1) s'(1) using s'(2) by (intro exI[of _ s']) (auto simp del: length_Cons)
qed

lemma pbuf_freed:
  assumes ok: "mem_ok s" and ch: "pchain s p (fs @ rs)" "distinct (fs @ rs)"
    and ar: "\<forall>x\<in>set (fs @ rs). \<exists>l. pbuf_area s x l"
    and ref: "\<forall>x\<in>set fs. p_ref s x = 1" "rs \<noteq> [] \<Longrightarrow> p_ref s (hd rs) \<noteq> 1"
  shows "\<exists>s'. pbuf_free custom p s = Some (word_of_nat (length fs), s') \<and> mem_ok s' \<and>
    lent s' = {(x, l) \<in> lent s. x \<notin> set fs} \<and>
    (rs \<noteq> [] \<longrightarrow> p_ref s' (hd rs) = p_ref s (hd rs) - 1) \<and>
    (\<forall>(q, k) \<in> lent s'. \<forall>a \<in> area q k. (rs \<noteq> [] \<longrightarrow> a \<noteq> hd rs + 14 \<and> a \<noteq> hd rs + 15) \<longrightarrow>
       mem_bytes s' a = mem_bytes s a)"
proof -
  have "pbuf_free custom p s = free_loop custom p 0 s"
    by (simp add: pbuf_free_def) (subst free_loop.simps, simp)
  then show ?thesis using free_loop_gives_back[OF assms, of custom 0] by simp
qed

section \<open>Joining and splitting\<close>

text \<open>Structures and payloads of a chain that do not overlap.\<close>

definition clear :: "lwip_mem \<Rightarrow> nat list \<Rightarrow> bool" where
  "clear s ps \<longleftrightarrow> structs_apart ps \<and> payloads_apart s ps"

lemma clearD:
  assumes "clear s ps"
  shows "distinct ps" "p \<in> set ps \<Longrightarrow> q \<in> set ps \<Longrightarrow> p \<noteq> q \<Longrightarrow> separate p q"
    "p \<in> set ps \<Longrightarrow> q \<in> set ps \<Longrightarrow> payload_area s p \<inter> struct_area q = {}"
    "p \<in> set ps \<Longrightarrow> q \<in> set ps \<Longrightarrow> p \<noteq> q \<Longrightarrow> payload_area s p \<inter> payload_area s q = {}"
  using assms by (simp_all add: clear_def structs_apart_def payloads_apart_def)

lemma clearI:
  assumes "distinct ps" "\<And>p q. p \<in> set ps \<Longrightarrow> q \<in> set ps \<Longrightarrow> p \<noteq> q \<Longrightarrow> separate p q"
    "\<And>p q. p \<in> set ps \<Longrightarrow> q \<in> set ps \<Longrightarrow> payload_area s p \<inter> struct_area q = {}"
    "\<And>p q. p \<in> set ps \<Longrightarrow> q \<in> set ps \<Longrightarrow> p \<noteq> q \<Longrightarrow> payload_area s p \<inter> payload_area s q = {}"
  shows "clear s ps"
  using assms by (simp add: clear_def structs_apart_def payloads_apart_def)

lemma clear_sub:
  assumes c: "clear s ps" and "distinct qs" and q: "set qs \<subseteq> set ps"
  shows "clear s qs"
  by (rule clearI[OF assms(2)]) (rule clearD[OF c], use q in blast, use q in blast, assumption?)+

lemma clear_cong:
  "clear s ps \<Longrightarrow> (\<And>q. q \<in> set ps \<Longrightarrow> p_payload s' q = p_payload s q \<and> p_len s' q = p_len s q) \<Longrightarrow> clear s' ps"
  unfolding clear_def using payloads_apart_cong[of s ps s'] by blast

text \<open>Changes in the structures at \<open>P\<close> only leave the other pbufs of a chain.\<close>

lemma frame_fields:
  assumes c: "clear s ps" and P: "P \<subseteq> set ps" and q: "q \<in> set ps" "q \<notin> P"
    and same: "\<forall>a. a \<notin> (\<Union>p\<in>P. struct_area p) \<longrightarrow> mem_bytes s' a = mem_bytes s a"
  shows "p_next s' q = p_next s q" "p_payload s' q = p_payload s q" "p_tot_len s' q = p_tot_len s q"
    "p_len s' q = p_len s q" "p_type s' q = p_type s q" "p_flags s' q = p_flags s q" "p_ref s' q = p_ref s q"
proof -
  have "mem_bytes s' a = mem_bytes s a" if a: "q \<le> a" "a < q + 16" for a
  proof (rule same[rule_format])
    have "a \<notin> struct_area p" if "p \<in> P" for p
    proof -
      have "separate q p" using clearD(2)[OF c q(1), of p] P q(2) that by blast
      then show ?thesis using a by (auto simp: separate_def struct_area_def SIZEOF_STRUCT_PBUF_def)
    qed
    then show "a \<notin> (\<Union>p\<in>P. struct_area p)" by simp
  qed
  then show "p_next s' q = p_next s q" "p_payload s' q = p_payload s q" "p_tot_len s' q = p_tot_len s q"
    "p_len s' q = p_len s q" "p_type s' q = p_type s q" "p_flags s' q = p_flags s q" "p_ref s' q = p_ref s q"
    by (intro pbuf_cong; blast)+
qed

text \<open>The payloads are not touched either; only the fields that say where they are matter.\<close>

lemma frame_bytes:
  assumes c: "clear s ps" and P: "P \<subseteq> set ps" and q: "q \<in> set ps"
    and f: "p_payload s' q = p_payload s q" "p_len s' q = p_len s q"
    and same: "\<forall>a. a \<notin> (\<Union>p\<in>P. struct_area p) \<longrightarrow> mem_bytes s' a = mem_bytes s a"
  shows "pbuf_bytes s' q = pbuf_bytes s q"
proof -
  have "mem_bytes s' a = mem_bytes s a" if "a \<in> payload_area s q" for a
    using clearD(3)[OF c q] P that by (intro same[rule_format]) blast
  then show ?thesis by (auto simp: pbuf_bytes_def bytes_at_def payload_area_def f)
qed

lemma frame_chain:
  assumes c: "clear s ps" and P: "P \<subseteq> set ps" and q: "set qs \<subseteq> set ps - P"
    and same: "\<forall>a. a \<notin> (\<Union>p\<in>P. struct_area p) \<longrightarrow> mem_bytes s' a = mem_bytes s a"
  shows "contents s' qs = contents s qs" "tot_ok s qs \<Longrightarrow> tot_ok s' qs" "pchain s x qs \<Longrightarrow> pchain s' x qs"
proof -
  have f: "p_payload s' r = p_payload s r" "p_len s' r = p_len s r" "p_next s' r = p_next s r" "p_tot_len s' r = p_tot_len s r"
    "pbuf_bytes s' r = pbuf_bytes s r" if "r \<in> set qs" for r
    using frame_fields[OF c P _ _ same, of r] frame_bytes[OF c P _ _ _ same, of r] that q by auto
  show "contents s' qs = contents s qs" using f(5) by (simp add: contents_def cong: map_cong)
  show "tot_ok s qs \<Longrightarrow> tot_ok s' qs" using tot_ok_cong f(2,4) by blast
  show "pchain s x qs \<Longrightarrow> pchain s' x qs" using pchain_cong f(3) by blast
qed

text \<open>The loop of \<open>pbuf_cat\<close>.\<close>

lemma cat_loop_joins:
  assumes "pchain s p hs" "hs \<noteq> []" "tot_ok s hs" "pchain s t ts" "ts \<noteq> []" "tot_ok s ts" "clear s (hs @ ts)"
    "length (contents s hs) + length (contents s ts) \<le> 65535" "t < 2 ^ 32"
  shows "\<exists>s'. cat_loop p t s = Some s' \<and> pchain s' p (hs @ ts) \<and> tot_ok s' (hs @ ts) \<and>
    contents s' (hs @ ts) = contents s hs @ contents s ts \<and>
    (\<forall>q\<in>set (hs @ ts). p_len s' q = p_len s q \<and> p_payload s' q = p_payload s q \<and> p_ref s' q = p_ref s q) \<and>
    (\<forall>a. a \<notin> (\<Union>q\<in>set hs. struct_area q) \<longrightarrow> mem_bytes s' a = mem_bytes s a)"
  using assms
proof (induction hs arbitrary: p s)
  case (Cons x hs)
  have p: "p = x" "x \<noteq> 0" "pchain s (p_next s x) hs" using Cons.prems(1) by simp_all
  have tx: "unat (p_tot_len s x) = unat (p_len s x) + length (contents s hs)" "tot_ok s hs" using Cons.prems(3) by simp_all
  obtain ts' where ts: "ts = t # ts'" using Cons.prems(4,5) by (cases ts) auto
  have tt: "unat (p_tot_len s t) = length (contents s ts)" using Cons.prems(6) by (simp add: ts)
  define s1 where "s1 = set_p_tot_len (p_tot_len s x + p_tot_len s t) x s"
  have out1: "\<forall>a. a \<notin> (\<Union>q\<in>{x}. struct_area q) \<longrightarrow> mem_bytes s1 a = mem_bytes s a"
    unfolding s1_def by (auto simp: bytes_set_field struct_area_def SIZEOF_STRUCT_PBUF_def)
  have d: "x \<notin> set (hs @ ts)" "distinct (hs @ ts)" using Cons.prems(7) by (simp_all add: clear_def structs_apart_def)
  have P: "{x} \<subseteq> set ((x # hs) @ ts)" by simp
  have sub: "set hs \<subseteq> set ((x # hs) @ ts) - {x}" "set ts \<subseteq> set ((x # hs) @ ts) - {x}" using d by auto
  note fh = frame_chain[OF Cons.prems(7) P sub(1) out1] and ft = frame_chain[OF Cons.prems(7) P sub(2) out1]
  note fo = frame_fields[OF Cons.prems(7) P _ _ out1]
  have tot1: "unat (p_tot_len s x + p_tot_len s t) = unat (p_tot_len s x) + length (contents s ts)"
    using Cons.prems(8) tx(1) tt by (simp add: unat_word_ariths)
  have x1: "p_next s1 x = p_next s x" "p_len s1 x = p_len s x" "p_payload s1 x = p_payload s x" "p_ref s1 x = p_ref s x"
    "p_tot_len s1 x = p_tot_len s x + p_tot_len s t"
    by (simp_all add: s1_def pfield)
  show ?case
  proof (cases hs)
    case Nil
    define s' where "s' = set_p_next t x s1"
    have "cat_loop p t s = Some s'"
      using p by (subst cat_loop.simps) (simp add: Nil s1_def s'_def Let_def)
    have out: "\<forall>a. a \<notin> (\<Union>q\<in>{x}. struct_area q) \<longrightarrow> mem_bytes s' a = mem_bytes s a"
      unfolding s'_def s1_def
      by (auto simp: bytes_set_field struct_area_def SIZEOF_STRUCT_PBUF_def)
    note f2 = frame_chain[OF Cons.prems(7) P sub(2) out] and fo2 = frame_fields[OF Cons.prems(7) P _ _ out]
    have x2: "p_next s' x = t" "p_len s' x = p_len s x" "p_payload s' x = p_payload s x" "p_ref s' x = p_ref s x"
      "p_tot_len s' x = p_tot_len s x + p_tot_len s t"
      using Cons.prems(9) by (simp_all add: s'_def s1_def pfield)
    have xb: "pbuf_bytes s' x = pbuf_bytes s x" by (rule frame_bytes[OF Cons.prems(7) P _ x2(3,2) out]) simp
    have "pchain s' p (x # ts)" using p(1,2) x2(1) f2(3)[OF Cons.prems(4)] by simp
    moreover have "tot_ok s' (x # ts)" using f2(1,2) Cons.prems(6) x2 tot1 tx(1) by (simp add: Nil)
    moreover have "p_len s' q = p_len s q \<and> p_payload s' q = p_payload s q \<and> p_ref s' q = p_ref s q" if "q \<in> set (x # ts)" for q
      using that x2 fo2[of q] d by (cases "q = x") auto
    ultimately show ?thesis using \<open>cat_loop p t s = Some s'\<close> xb f2(1) out by (intro exI[of _ s']) (auto simp: Nil)
  next
    case (Cons y ys)
    have "clear s1 (hs @ ts)"
      by (rule clear_cong[OF clear_sub[OF Cons.prems(7) d(2)]]) (use fo d(1) in auto)
    from Cons.IH[OF fh(3)[OF p(3)] _ fh(2)[OF tx(2)] ft(3)[OF Cons.prems(4)] Cons.prems(5) ft(2)[OF Cons.prems(6)] this]
    obtain s' where s': "cat_loop (p_next s x) t s1 = Some s'" "pchain s' (p_next s x) (hs @ ts)" "tot_ok s' (hs @ ts)"
      "contents s' (hs @ ts) = contents s hs @ contents s ts"
      "\<forall>q\<in>set (hs @ ts). p_len s' q = p_len s1 q \<and> p_payload s' q = p_payload s1 q \<and> p_ref s' q = p_ref s1 q"
      "\<forall>a. a \<notin> (\<Union>q\<in>set hs. struct_area q) \<longrightarrow> mem_bytes s' a = mem_bytes s1 a"
      using Cons.prems(8,9) fh(1) ft(1) by (fastforce simp: Cons)
    have c1: "clear s1 ((x # hs) @ ts)"
      by (rule clear_cong[OF Cons.prems(7)]) (use fo x1(2,3) d(1) in \<open>auto split: if_splits\<close>)
    have P2: "set hs \<subseteq> set ((x # hs) @ ts)" by auto
    have x2: "p_next s' x = p_next s x" "p_len s' x = p_len s x" "p_payload s' x = p_payload s x" "p_ref s' x = p_ref s x"
      "p_tot_len s' x = p_tot_len s x + p_tot_len s t"
      using frame_fields[OF c1 P2 _ _ s'(6), of x] d(1) x1 by simp_all
    have out: "\<forall>a. a \<notin> (\<Union>q\<in>set (x # hs). struct_area q) \<longrightarrow> mem_bytes s' a = mem_bytes s a"
      using s'(6) out1 by simp
    have xb: "pbuf_bytes s' x = pbuf_bytes s x"
      by (rule frame_bytes[OF Cons.prems(7) _ _ x2(3,2) out]) auto
    have "cat_loop p t s = Some s'"
      using p s'(1) by (subst cat_loop.simps) (auto simp: s1_def[symmetric] Let_def x1(1) Cons)
    moreover have "pchain s' p ((x # hs) @ ts)" using p(1,2) s'(2) x2(1) by simp
    moreover have "tot_ok s' ((x # hs) @ ts)" using s'(3,4) x2(2,5) tot1 tx(1) by simp
    moreover have "p_len s' q = p_len s q \<and> p_payload s' q = p_payload s q \<and> p_ref s' q = p_ref s q"
      if "q \<in> set ((x # hs) @ ts)" for q
      using that x2 s'(5) fo[of q] d(1) by (cases "q = x") auto
    moreover have "length (contents s' hs) + length (contents s' ts) = length (contents s hs) + length (contents s ts)"
      using s'(4) by (metis contents_simps(3) length_append)
    ultimately show ?thesis using xb s'(4) out by (intro exI[of _ s']) simp
  qed
qed simp


lemma pbuf_chain_joined:
  assumes h: "pchain s h hs" "hs \<noteq> []" "tot_ok s hs" and t: "pchain s t ts" "ts \<noteq> []" "tot_ok s ts"
    and c: "clear s (hs @ ts)" "length (contents s hs) + length (contents s ts) \<le> 65535" "t < 2 ^ 32"
  shows "\<exists>s'. pbuf_chain h t s = Some s' \<and> pchain s' h (hs @ ts) \<and> tot_ok s' (hs @ ts) \<and>
    contents s' (hs @ ts) = contents s hs @ contents s ts \<and> p_ref s' t = p_ref s t + 1 \<and> clear s' (hs @ ts) \<and>
    contents s' hs = contents s hs \<and> contents s' ts = contents s ts \<and>
    (\<forall>a. a \<notin> (\<Union>q\<in>set hs. struct_area q) \<and> a \<noteq> t + 14 \<and> a \<noteq> t + 15 \<longrightarrow> mem_bytes s' a = mem_bytes s a)"
proof -
  obtain s1 where s1: "cat_loop h t s = Some s1" "pchain s1 h (hs @ ts)" "tot_ok s1 (hs @ ts)"
    "contents s1 (hs @ ts) = contents s hs @ contents s ts"
    "\<forall>q\<in>set (hs @ ts). p_len s1 q = p_len s q \<and> p_payload s1 q = p_payload s q \<and> p_ref s1 q = p_ref s q"
    "\<forall>a. a \<notin> (\<Union>q\<in>set hs. struct_area q) \<longrightarrow> mem_bytes s1 a = mem_bytes s a"
    using cat_loop_joins[OF h t c] by blast
  have nz: "h \<noteq> 0" "t \<noteq> 0" "t \<in> set (hs @ ts)" using h(1,2) t(1,2) by (cases hs; cases ts; simp)+
  define s' where "s' = set_p_ref (p_ref s1 t + 1) t s1"
  have cat: "pbuf_chain h t s = Some s'"
    using s1(1) nz(1,2) by (simp add: pbuf_chain_def pbuf_cat_def pbuf_ref_def s'_def)
  have c1: "clear s1 (hs @ ts)" by (rule clear_cong[OF c(1)]) (use s1(5) in blast)
  have out: "\<forall>a. a \<notin> (\<Union>q\<in>{t}. struct_area q) \<longrightarrow> mem_bytes s' a = mem_bytes s1 a"
    unfolding s'_def by (auto simp: bytes_set_field struct_area_def SIZEOF_STRUCT_PBUF_def)
  have fo: "p_next s' q = p_next s1 q \<and> p_tot_len s' q = p_tot_len s1 q \<and> p_len s' q = p_len s1 q \<and>
      p_payload s' q = p_payload s1 q \<and> pbuf_bytes s' q = pbuf_bytes s1 q" if q: "q \<in> set (hs @ ts)" for q
  proof -
    have f: "p_next s' q = p_next s1 q" "p_tot_len s' q = p_tot_len s1 q" "p_len s' q = p_len s1 q" "p_payload s' q = p_payload s1 q"
      using frame_fields[OF c1 _ q _ out] nz(3) by (cases "q = t"; simp add: s'_def pfield)+
    then show ?thesis using frame_bytes[OF c1 _ q f(4,3) out] nz(3) by simp
  qed
  have "pchain s' h (hs @ ts)" by (rule pchain_cong[OF s1(2)]) (use fo in blast)
  moreover have "tot_ok s' (hs @ ts)" by (rule tot_ok_cong[OF s1(3)]) (use fo in blast)
  moreover have "contents s' (hs @ ts) = contents s1 (hs @ ts)"
    unfolding contents_def using fo by (intro arg_cong[of _ _ concat] map_cong) auto
  moreover have "clear s' (hs @ ts)" by (rule clear_cong[OF c1]) (use fo in blast)
  moreover have "p_ref s' t = p_ref s t + 1" using s1(5) nz(3) by (simp add: s'_def pfield)
  moreover have "mem_bytes s' a = mem_bytes s1 a" if "a \<noteq> t + 14" "a \<noteq> t + 15" for a
    using that by (simp add: s'_def set_p_ref_def store16_def)
  moreover have "contents s1 hs = contents s hs \<and> contents s1 ts = contents s ts"
  proof -
    have "length (contents s1 hs) = length (contents s hs)"
      using s1(5) by (simp add: contents_def length_concat comp_def cong: map_cong)
    then show ?thesis using s1(4) by simp
  qed
  moreover have "contents s' hs = contents s1 hs" "contents s' ts = contents s1 ts"
    unfolding contents_def using fo by (intro arg_cong[of _ _ concat] map_cong; auto)+
  ultimately show ?thesis using cat s1(4,6) by (intro exI[of _ s']) auto
qed

lemma pbuf_dechained:
  assumes ch: "pchain s p (p # q # qs)" "tot_ok s (p # q # qs)" "clear s (p # q # qs)" and r: "p_ref s q \<noteq> 1"
  shows "\<exists>s'. pbuf_dechain custom p s = Some (q, s') \<and> pchain s' p [p] \<and> tot_ok s' [p] \<and> contents s' [p] = contents s [p] \<and>
    pchain s' q (q # qs) \<and> tot_ok s' (q # qs) \<and> contents s' (q # qs) = contents s (q # qs) \<and> p_ref s' q = p_ref s q - 1"
proof -
  have p: "p \<noteq> 0" "p_next s p = q" "q \<noteq> 0" "pchain s q (q # qs)" using ch(1) by simp_all
  have pq: "separate p q" "separate q p" using clearD(2)[OF ch(3), of p q] clearD(1)[OF ch(3)] separate_sym by auto
  have tp: "unat (p_tot_len s p) = unat (p_len s p) + length (contents s (q # qs))" and tq: "tot_ok s (q # qs)"
    using ch(2) by simp_all
  have le: "p_len s p \<le> p_tot_len s p" using tp by (simp add: word_le_nat_alt)
  have len: "p_tot_len s p - p_len s p = p_tot_len s q"
  proof (rule word_unat_eq_iff[THEN iffD2])
    show "unat (p_tot_len s p - p_len s p) = unat (p_tot_len s q)" using tp tq by (simp add: unat_diff_le[OF le])
  qed
  define s1 where "s1 = set_p_tot_len (p_len s p) p (set_p_next 0 p (set_p_tot_len (p_tot_len s q) q s))"
  define s2 where "s2 = set_p_ref (p_ref s q - 1) q s1"
  have f1: "p_ref s1 q = p_ref s q" "p_len (set_p_next 0 p (set_p_tot_len (p_tot_len s q) q s)) p = p_len s p"
    using pq by (simp_all add: s1_def pfield)
  have "pbuf_free custom q s1 = Some (0, s2)"
    using p(3) r f1(1) by (simp add: pbuf_free_def s2_def[symmetric]) (subst free_loop.simps, simp add: Let_def s2_def)
  then have d: "pbuf_dechain custom p s = Some (q, s2)"
    using p f1(2) by (simp add: pbuf_dechain_def Let_def len s1_def)
  have out: "\<forall>a. a \<notin> (\<Union>x\<in>{p, q}. struct_area x) \<longrightarrow> mem_bytes s2 a = mem_bytes s a"
    unfolding s2_def s1_def by (auto simp: bytes_set_field struct_area_def SIZEOF_STRUCT_PBUF_def)
  have fp: "p_next s2 p = 0" "p_len s2 p = p_len s p" "p_tot_len s2 p = p_len s p" "p_payload s2 p = p_payload s p"
    and fq: "p_next s2 q = p_next s q" "p_len s2 q = p_len s q" "p_tot_len s2 q = p_tot_len s q"
      "p_payload s2 q = p_payload s q" "p_ref s2 q = p_ref s q - 1"
    using pq by (simp_all add: s2_def s1_def pfield)
  have PQ: "{p, q} \<subseteq> set (p # q # qs)" by auto
  have b: "pbuf_bytes s2 p = pbuf_bytes s p" "pbuf_bytes s2 q = pbuf_bytes s q"
    by (rule frame_bytes[OF ch(3) PQ _ fp(4,2) out], simp) (rule frame_bytes[OF ch(3) PQ _ fq(4,2) out], simp)
  have sub: "set qs \<subseteq> set (p # q # qs) - {p, q}" using clearD(1)[OF ch(3)] by auto
  note fr = frame_chain[OF ch(3) PQ sub out]
  have "tot_ok s2 (q # qs)" using tq fr(1,2) b(2) fq(2,3) by simp
  moreover have "pchain s2 q (q # qs)" using p(4) fr(3) fq(1) by simp
  ultimately show ?thesis
    using d p(1) fp(1-3) fq(5) b fr(1) by (intro exI[of _ s2]) simp
qed

text \<open>
  C40: pbuf_chain puts two chains together that lie apart and have at most 65535 bytes:
  the contents are those of the first followed by those of the second, the lengths are
  consistent, the second has one reference more, and no other byte outside the
  structures of the first chain changes. pbuf_dechain on the result takes off its first
  pbuf, if something else still holds the one that follows (its reference count is not
  1): both parts are chains with consistent lengths and together have the same bytes,
  and the second part loses one reference. When the first chain was a single pbuf with
  the second one held, the two chains are apart again as they were.
\<close>

theorem pbuf_chain_dechain:
  assumes h: "pchain s h hs" "hs \<noteq> []" "tot_ok s hs" and t: "pchain s t ts" "ts \<noteq> []" "tot_ok s ts"
    and c: "clear s (hs @ ts)" "length (contents s hs) + length (contents s ts) \<le> 65535" "t < 2 ^ 32"
  shows "\<exists>s1. pbuf_chain h t s = Some s1 \<and> pchain s1 h (hs @ ts) \<and> tot_ok s1 (hs @ ts) \<and>
    contents s1 (hs @ ts) = contents s hs @ contents s ts \<and> p_ref s1 t = p_ref s t + 1 \<and>
    (\<forall>a. a \<notin> (\<Union>q\<in>set hs. struct_area q) \<and> a \<noteq> t + 14 \<and> a \<noteq> t + 15 \<longrightarrow> mem_bytes s1 a = mem_bytes s a) \<and>
    (\<forall>r rs. hs @ ts = h # r # rs \<and> p_ref s1 r \<noteq> 1 \<longrightarrow>
      (\<exists>s2. pbuf_dechain custom h s1 = Some (r, s2) \<and> pchain s2 h [h] \<and> tot_ok s2 [h] \<and>
        pchain s2 r (r # rs) \<and> tot_ok s2 (r # rs) \<and>
        contents s2 [h] @ contents s2 (r # rs) = contents s hs @ contents s ts \<and>
        p_ref s2 r = p_ref s1 r - 1 \<and>
        (hs = [h] \<longrightarrow> r = t \<and> contents s2 [h] = contents s [h] \<and> p_ref s2 t = p_ref s t)))"
proof -
  obtain s1 where s1: "pbuf_chain h t s = Some s1" "pchain s1 h (hs @ ts)" "tot_ok s1 (hs @ ts)"
    "contents s1 (hs @ ts) = contents s hs @ contents s ts" "p_ref s1 t = p_ref s t + 1" "clear s1 (hs @ ts)"
    "contents s1 hs = contents s hs"
    "\<forall>a. a \<notin> (\<Union>q\<in>set hs. struct_area q) \<and> a \<noteq> t + 14 \<and> a \<noteq> t + 15 \<longrightarrow> mem_bytes s1 a = mem_bytes s a"
    using pbuf_chain_joined[OF assms] by blast
  have "\<exists>s2. pbuf_dechain custom h s1 = Some (r, s2) \<and> pchain s2 h [h] \<and> tot_ok s2 [h] \<and>
        pchain s2 r (r # rs) \<and> tot_ok s2 (r # rs) \<and>
        contents s2 [h] @ contents s2 (r # rs) = contents s hs @ contents s ts \<and> p_ref s2 r = p_ref s1 r - 1 \<and>
        (hs = [h] \<longrightarrow> r = t \<and> contents s2 [h] = contents s [h] \<and> p_ref s2 t = p_ref s t)"
    if r: "hs @ ts = h # r # rs" "p_ref s1 r \<noteq> 1" for r rs
  proof -
    from pbuf_dechained[OF _ _ _ r(2), of h rs custom] s1(2,3,6)[unfolded r(1)] obtain s2 where
      s2: "pbuf_dechain custom h s1 = Some (r, s2)" "pchain s2 h [h]" "tot_ok s2 [h]" "contents s2 [h] = contents s1 [h]"
        "pchain s2 r (r # rs)" "tot_ok s2 (r # rs)" "contents s2 (r # rs) = contents s1 (r # rs)" "p_ref s2 r = p_ref s1 r - 1"
      by blast
    have "contents s1 (h # r # rs) = contents s1 [h] @ contents s1 (r # rs)" by simp
    then have "contents s2 [h] @ contents s2 (r # rs) = contents s hs @ contents s ts"
      using s1(4)[unfolded r(1)] s2(4,7) by metis
    moreover have "r = t \<and> contents s2 [h] = contents s [h] \<and> p_ref s2 t = p_ref s t" if one: "hs = [h]"
    proof -
      have "ts = r # rs" using r(1) one by simp
      then have rt: "r = t" using t(1) by simp
      have "p_ref s2 t = p_ref s t" using s2(8) s1(5) unfolding rt by simp
      then show ?thesis using rt s2(4) s1(7) unfolding one by metis
    qed
    ultimately show ?thesis using s2 by blast
  qed
  then show ?thesis using s1(1-5,8) by (intro exI[of _ s1]) blast
qed

definition two_pbufs :: lwip_mem where
  "two_pbufs = make_pbuf 100 0 1000 2 2 PBUF_RAM (make_pbuf 116 0 2000 1 1 PBUF_RAM
     (set_p_ref 1 116 (write_at 2000 [7] (write_at 1000 [5, 5] mem0))))"

lemma two_pbufs_fields:
  "p_next two_pbufs 100 = 0" "p_next two_pbufs 116 = 0" "p_payload two_pbufs 100 = 1000" "p_payload two_pbufs 116 = 2000"
  "p_len two_pbufs 100 = 2" "p_len two_pbufs 116 = 1" "p_tot_len two_pbufs 100 = 2" "p_tot_len two_pbufs 116 = 1"
  "p_ref two_pbufs 116 = 1"
  by (simp_all add: two_pbufs_def make_pbuf_def pfield separate_def)

lemma two_pbufs_bytes: "pbuf_bytes two_pbufs 100 = [5, 5]" "pbuf_bytes two_pbufs 116 = [7]"
proof -
  have "mem_bytes two_pbufs 1000 = 5" "mem_bytes two_pbufs 1001 = 5" "mem_bytes two_pbufs 2000 = 7"
    by (simp_all add: two_pbufs_def make_pbuf_def bytes_set_field mem_bytes_write_at)
  then show "pbuf_bytes two_pbufs 100 = [5, 5]" "pbuf_bytes two_pbufs 116 = [7]"
    by (simp_all add: pbuf_bytes_def two_pbufs_fields bytes_at_def upt_rec)
qed

theorem pbuf_chain_dechain_witness:
  "\<exists>s1 s2. pbuf_chain 100 116 two_pbufs = Some s1 \<and> contents s1 [100, 116] = [5, 5, 7] \<and>
    pbuf_dechain (\<lambda>_ _. None) 100 s1 = Some (116, s2) \<and> contents s2 [116] = [7] \<and> p_ref s2 116 = 1"
proof -
  have "clear two_pbufs ([100] @ [116])"
    by (rule clearI) (auto simp: separate_def payload_area_def struct_area_def SIZEOF_STRUCT_PBUF_def two_pbufs_fields)
  then show ?thesis
    using pbuf_chain_dechain[of two_pbufs 100 "[100]" 116 "[116]" "\<lambda>_ _. None"]
    by (fastforce simp: two_pbufs_fields two_pbufs_bytes)
qed

end
