(* ===== verification/PbufAlloc.thy ===== *)
theory PbufAlloc
  imports PbufMem
begin

text \<open>
  What \<open>pbuf_alloc\<close> hands out: a chain of the length asked for, in areas of its own, with room for
  the headers, which \<open>pbuf_free\<close> gives back as a whole; or nothing, and then nothing is lost.
\<close>

section \<open>Handing out\<close>

lemma grant_element:
  assumes ok: "mem_ok s" and m: "memp_malloc t s = (p, s')" and p: "p \<noteq> 0"
  shows "mem_ok s'" "heap_handed s' = heap_handed s" "pool_handed s' = insert (p, pool_size s t) (pool_handed s)"
    "lent s' = insert (p, pool_size s t) (lent s)" "p \<notin> fst ` lent s" "mem_bytes s' = mem_bytes s"
    "memp_pools s' = memp_pools s" "memp_memory s' = memp_memory s" "pool_of p s' = t" "t < length (memp_pools s)"
    "p \<in> set (free_elements s t)"
proof -
  note d = mem_okD[OF ok] and g = memp_malloc_handed[OF mem_okD(2)[OF ok] m p]
  have f: "heap_fine s'" "heap_handed s' = heap_handed s" using memory.alloc_frame'[OF d(1,2), of t p s'] m by simp_all
  show "mem_ok s'" by (rule mem_okI[OF ok f(1) g(1,7,8)]) (simp add: g(5))
  show "heap_handed s' = heap_handed s" "pool_handed s' = insert (p, pool_size s t) (pool_handed s)" by (fact f(2), fact g(3))
  then show "lent s' = insert (p, pool_size s t) (lent s)" by (auto simp: memory.handed_both_def)
  have "memory.alloc_both (Inr t) s = Some (p, s')" using m by (simp add: memory.alloc_both_def)
  then show "p \<notin> fst ` lent s" using memory.both.alloc_some[OF d(4) _ p] by blast
  show "mem_bytes s' = mem_bytes s" using g(5) by (simp add: mem_bytes_def)
  show "memp_pools s' = memp_pools s" "memp_memory s' = memp_memory s" "t < length (memp_pools s)" by (fact g(7), fact g(8), fact g(4))
  show "pool_of p s' = t" using pool_of_same[OF g(7,8)] pool_of_element[OF d(3) g(6,4)] by simp
  show "p \<in> set (free_elements s t)"
    by (cases rule: memp_malloc_cases[OF d(2), of t]) (use m p in auto)
qed

lemma grant_none: "mem_ok s \<Longrightarrow> memp_malloc t s = (0, s') \<Longrightarrow> s' = s"
  by (cases rule: memp_malloc_cases[OF mem_okD(2), of s t]) auto

lemma grant_heap:
  assumes ok: "mem_ok s" and m: "heap_malloc n s = Some (p, s')" and p: "p \<noteq> 0" and n: "unat n \<le> 65532"
  obtains l where "unat n \<le> l" "mem_ok s'" "heap_handed s' = insert (p, l) (heap_handed s)" "pool_handed s' = pool_handed s"
    "lent s' = insert (p, l) (lent s)" "p \<notin> fst ` lent s"
    "\<And>q k a. (q, k) \<in> lent s \<Longrightarrow> a \<in> area q k \<Longrightarrow> mem_bytes s' a = mem_bytes s a"
    "memp_pools s' = memp_pools s" "memp_memory s' = memp_memory s"
proof -
  note d = mem_okD[OF ok]
  obtain h where h: "mem_malloc n (heap s) = Some (p, h)" "s' = s\<lparr>heap := h\<rparr>" using m by (auto simp: heap_malloc_Some)
  obtain l where l: "heap_fine s'" "unat n \<le> l" "heap_handed s' = insert (p, l) (heap_handed s)"
    using mheap.alloc_some[OF d(1) m p] n by (auto simp: heap_room_def)
  have f: "pools_ok s'" "pool_handed s' = pool_handed s" using memory.alloc_frame[OF d(1,2) m] by blast+
  have b: "memory.alloc_both (Inl n) s = Some (p, s')" using m by (simp add: memory.alloc_both_def)
  have "mem_ok s'"
    by (rule mem_okI[OF ok l(1) f(1)]) (use mem_malloc_local(1)[OF _ h(1)] d(1) in \<open>simp_all add: h(2) heap_fine_def\<close>)
  then show ?thesis
    using that[OF l(2) _ l(3) f(2)] memory.both.alloc_some[OF d(4) b p] memory.both.alloc_keeps[OF d(4) b]
    by (simp add: memory.handed_both_def l(3) f(2)) (simp add: h(2))
qed

lemma heap_always_answers:
  assumes "mem_ok s"
  obtains p s' where "heap_malloc n s = Some (p, s')"
  using mheap.alloc_returns[OF mem_okD(1)[OF assms]] by blast

text \<open>A new last pbuf.\<close>

lemma pchain_extend:
  assumes "pchain s p ps" "ps \<noteq> []" "distinct ps" "\<And>x. x \<in> set ps \<Longrightarrow> x \<noteq> last ps \<Longrightarrow> p_next s' x = p_next s x"
    "p_next s' (last ps) = q" "q \<noteq> 0" "p_next s' q = 0"
  shows "pchain s' p (ps @ [q])"
  using assms
proof (induction ps arbitrary: p)
  case (Cons x ps)
  show ?case
  proof (cases "ps = []")
    case True
    then show ?thesis using Cons.prems by simp
  next
    case False
    then have l: "last (x # ps) = last ps" "last ps \<in> set ps" by simp_all
    have x: "p_next s' x = p_next s x" using Cons.prems(3,4) l by auto
    have "pchain s' (p_next s x) (ps @ [q])"
      by (rule Cons.IH) (use Cons.prems False l in auto)
    then show ?thesis using Cons.prems(1) x by simp
  qed
qed simp

text \<open>A pbuf with one reference whose data lie in its own area, behind the structure.\<close>

definition own_pbuf :: "lwip_mem \<Rightarrow> nat \<Rightarrow> nat \<Rightarrow> bool" where
  "own_pbuf s x l \<longleftrightarrow> pbuf_area s x l \<and> p_ref s x = 1 \<and> x + SIZEOF_STRUCT_PBUF \<le> p_payload s x \<and>
     p_payload s x + unat (p_len s x) \<le> x + l"

lemma own_pbufD:
  assumes "own_pbuf s x l"
  shows "pbuf_area s x l" "p_ref s x = 1" "payload_area s x \<subseteq> {x + 16 ..< x + l}" "(x, l) \<in> lent s" "16 \<le> l"
  using assms pbuf_areaD by (auto simp: own_pbuf_def payload_area_def SIZEOF_STRUCT_PBUF_def)

lemma areas_separate:
  assumes "area p l \<inter> area q k = {}" "16 \<le> l" "16 \<le> k"
  shows "separate p q"
proof (rule ccontr)
  assume "\<not> separate p q"
  then have "max p q \<in> area p l \<inter> area q k" using assms(2,3) by (auto simp: separate_def)
  then show False using assms(1) by blast
qed

text \<open>Such pbufs in different areas do not meet.\<close>

lemma own_pbufs_clear:
  assumes "mem_ok s" "distinct ps" "\<forall>x\<in>set ps. \<exists>l. own_pbuf s x l"
  shows "clear s ps"
proof (rule clearI[OF assms(2)])
  fix p q assume "p \<in> set ps" "q \<in> set ps"
  then obtain l k where c: "own_pbuf s p l" "own_pbuf s q k" using assms(3) by blast
  note P = own_pbufD[OF c(1)] and Q = own_pbufD[OF c(2)]
  have d: "p \<noteq> q \<Longrightarrow> area p l \<inter> area q k = {}" using lent_apart(2)[OF assms(1) P(4) Q(4)] .
  show "separate p q" if "p \<noteq> q"
    using areas_separate[OF d[OF that] P(5) Q(5)] .
  show "payload_area s p \<inter> struct_area q = {}"
  proof (cases "p = q")
    case True
    then show ?thesis using P(3) by (auto simp: struct_area_def SIZEOF_STRUCT_PBUF_def)
  next
    case False
    then show ?thesis using d P(3,5) Q(5) by (fastforce simp: struct_area_def SIZEOF_STRUCT_PBUF_def)
  qed
  show "payload_area s p \<inter> payload_area s q = {}" if "p \<noteq> q"
    using d[OF that] P(3) Q(3) by fastforce
qed

lemma own_pbuf_cong:
  assumes c: "own_pbuf s q k" and b: "\<And>a. a \<in> area q k \<Longrightarrow> mem_bytes s' a = mem_bytes s a"
    and h: "(q, k) \<in> heap_handed s \<longleftrightarrow> (q, k) \<in> heap_handed s'" "(q, k) \<in> pool_handed s \<longleftrightarrow> (q, k) \<in> pool_handed s'"
    "memp_pools s' = memp_pools s" "memp_memory s' = memp_memory s"
  shows "own_pbuf s' q k"
  using other_area[OF own_pbufD(1)[OF c] b h] c by (simp add: own_pbuf_def)

text \<open>A pbuf of the pool is set up and linked behind \<open>r\<close>.\<close>

lemma tail_set_up:
  assumes ok: "mem_ok s" and q: "(q, 1532) \<in> pool_handed s" "pool_of q s = MEMP_PBUF_POOL"
    and r: "(r, l) \<in> lent s" "16 \<le> l" "r \<noteq> q" and rem: "rem < 65536"
  defines "s' \<equiv> set_p_ref 1 q (set_p_payload (q + SIZEOF_STRUCT_PBUF) q
    (set_p_len (word_of_nat (min rem PBUF_POOL_BUFSIZE_ALIGNED)) q (set_p_tot_len (word_of_nat rem) q
    (set_p_next q r (set_p_next 0 q (set_p_flags 0 q (set_p_type PBUF_POOL q s)))))))"
  shows "mem_ok s'" "heap_handed s' = heap_handed s" "pool_handed s' = pool_handed s" "lent s' = lent s"
    "memp_pools s' = memp_pools s" "memp_memory s' = memp_memory s" "own_pbuf s' q 1532" "p_next s' q = 0"
    "p_next s' r = q" "unat (p_tot_len s' q) = rem" "unat (p_len s' q) = min rem 1516"
    "p_tot_len s' r = p_tot_len s r" "p_len s' r = p_len s r" "p_payload s' r = p_payload s r" "p_ref s' r = p_ref s r"
    "p_type s' r = p_type s r" "p_flags s' r = p_flags s r"
    "\<And>a. a \<notin> area q 1532 \<Longrightarrow> a \<notin> {r ..< r + 4} \<Longrightarrow> mem_bytes s' a = mem_bytes s a"
proof -
  have lq: "(q, 1532) \<in> lent s" using q(1) by (simp add: memory.handed_both_def)
  note la = lent_area[OF ok lq]
  define a1 where "a1 = set_p_next 0 q (set_p_flags 0 q (set_p_type PBUF_POOL q s))"
  define a2 where "a2 = set_p_next q r a1"
  have s': "s' = set_p_ref 1 q (set_p_payload (q + SIZEOF_STRUCT_PBUF) q
    (set_p_len (word_of_nat (min rem PBUF_POOL_BUFSIZE_ALIGNED)) q (set_p_tot_len (word_of_nat rem) q a2)))"
    by (simp add: s'_def a2_def a1_def)
  have i1: "inside q 1532 s a1" unfolding a1_def by (intro inside_trans[OF _ inside_field(1)] inside_trans[OF _ inside_field(6)] inside_field(5)) simp_all
  note c1 = change_inside[OF ok lq i1] inside_same[OF i1]
  have i2: "inside r l a1 a2" unfolding a2_def by (rule inside_field(1)[OF r(2)])
  have "(r, l) \<in> lent a1" using r(1) c1 by simp
  note c2 = change_inside[OF c1(1) this i2] inside_same[OF i2]
  have i3: "inside q 1532 a2 s'" unfolding s'
    by (intro inside_trans[OF _ inside_field(7)] inside_trans[OF _ inside_field(2)] inside_trans[OF _ inside_field(4)] inside_field(3)) simp_all
  have "(q, 1532) \<in> lent a2" using lq c1 c2 by simp
  note c3 = change_inside[OF c2(1) this i3] inside_same[OF i3]
  show m: "mem_ok s'" "heap_handed s' = heap_handed s" "pool_handed s' = pool_handed s" "lent s' = lent s"
    "memp_pools s' = memp_pools s" "memp_memory s' = memp_memory s"
    using c1 c2 c3 by simp_all
  have "area r l \<inter> area q 1532 = {}" using lent_apart(2)[OF ok r(1) lq r(3)] .
  then have sep: "separate r q" "separate q r"
    using areas_separate[of r l q 1532] r(2) separate_sym by auto
  show n: "p_next s' q = 0" "p_next s' r = q"
    using sep la(2) by (simp_all add: s'_def pfield)
  show "p_tot_len s' r = p_tot_len s r" "p_len s' r = p_len s r" "p_payload s' r = p_payload s r" "p_ref s' r = p_ref s r"
    "p_type s' r = p_type s r" "p_flags s' r = p_flags s r"
    using sep by (simp_all add: s'_def pfield)
  have sz: "unat (word_of_nat rem :: u16) = rem" "unat (word_of_nat (min rem 1516) :: u16) = min rem 1516"
    using rem by (simp_all add: unat_of_nat_u16)
  show t: "unat (p_tot_len s' q) = rem" "unat (p_len s' q) = min rem 1516"
    using sz by (simp_all add: s'_def pfield PBUF_POOL_BUFSIZE_ALIGNED_def)
  have f: "p_type s' q = PBUF_POOL" "p_flags s' q = 0" "p_ref s' q = 1" "p_payload s' q = q + 16"
    using sep la(2) by (simp_all add: s'_def pfield SIZEOF_STRUCT_PBUF_def)
  show "own_pbuf s' q 1532"
    using f t(2) q m(3) pool_of_same[OF m(5,6)]
    by (simp add: own_pbuf_def pbuf_area_def SIZEOF_STRUCT_PBUF_def)
  show "mem_bytes s' a = mem_bytes s a" if "a \<notin> area q 1532" "a \<notin> {r ..< r + 4}" for a
  proof -
    have "mem_bytes s' a = mem_bytes a2 a" by (rule inside_bytes[OF i3 that(1)])
    also have "\<dots> = mem_bytes a1 a" using that(2) by (auto simp: a2_def set_p_next_def not_less intro!: store_ptr_other)
    also have "\<dots> = mem_bytes s a" by (rule inside_bytes[OF i1 that(1)])
    finally show ?thesis .
  qed
qed

declare alloc_tail.simps [simp del]

text \<open>One more pbuf behind the chain: what the body of the loop in \<open>pbuf_alloc\<close> does.\<close>

lemma tail_step:
  assumes ok: "mem_ok s" and ch: "pchain s p ps" and ne: "ps \<noteq> []" and la: "last ps = r" and di: "distinct ps"
    and ca: "\<forall>x\<in>set ps. own_pbuf s x 1532" and rem: "rem < 65536"
    and m: "memp_malloc MEMP_PBUF_POOL s = (q, s1)" and q: "q \<noteq> 0"
  defines "s2 \<equiv> set_p_ref 1 q (set_p_payload (q + SIZEOF_STRUCT_PBUF) q
        (set_p_len (word_of_nat (min rem PBUF_POOL_BUFSIZE_ALIGNED)) q (set_p_tot_len (word_of_nat rem) q
        (set_p_next q r (set_p_next 0 q (set_p_flags 0 q (set_p_type PBUF_POOL q s1)))))))"
  shows "mem_ok s2" "pchain s2 p (ps @ [q])" "distinct (ps @ [q])" "\<forall>x\<in>set (ps @ [q]). own_pbuf s2 x 1532"
    "\<And>x. x \<in> set ps \<Longrightarrow> p_tot_len s2 x = p_tot_len s x \<and> p_len s2 x = p_len s x \<and> p_payload s2 x = p_payload s x"
    "unat (p_tot_len s2 q) = rem" "unat (p_len s2 q) = min rem 1516" "lent s2 = insert (q, 1532) (lent s)"
    "q \<notin> fst ` lent s"
    "\<And>y k a. (y, k) \<in> lent s \<Longrightarrow> y \<noteq> r \<Longrightarrow> a \<in> area y k \<Longrightarrow> mem_bytes s2 a = mem_bytes s a"
proof -
  note g = grant_element[OF ok m q, unfolded mem_okD(8)[OF ok]]
  have lp: "(x, 1532) \<in> lent s" "x \<noteq> q" if "x \<in> set ps" for x
    using that ca own_pbufD(4)[of s x 1532] g(5) by (auto simp: image_iff)
  have r: "r \<in> set ps" using ne la by auto
  have q1: "(q, 1532) \<in> pool_handed s1" "(r, 1532) \<in> lent s1" using lp[OF r] g(3,4) by simp_all
  note t = tail_set_up[OF g(1) q1(1) g(9) q1(2) _ lp(2)[OF r] rem, folded s2_def, simplified]
  have lq: "(q, 1532) \<in> lent s1" using g(4) by simp
  have keep: "mem_bytes s2 a = mem_bytes s a" if y: "(y, k) \<in> lent s" "y \<noteq> r" "a \<in> area y k" for y k a
  proof -
    have y1: "(y, k) \<in> lent s1" "y \<noteq> q" using y(1) g(4,5) by (auto simp: image_iff)
    have "a \<notin> area q 1532" using lent_apart(2)[OF g(1) y1(1) lq y1(2)] y(3) by blast
    moreover have "a \<notin> {r ..< r + 4}" using lent_apart(2)[OF g(1) y1(1) q1(2) y(2)] y(3) by fastforce
    ultimately show ?thesis using t(18)[of a] g(6) by simp
  qed
  have car: "own_pbuf s2 x 1532" if x: "x \<in> set ps" for x
  proof -
    have cx: "own_pbuf s x 1532" using ca x by blast
    have h: "(x, 1532) \<in> heap_handed s \<longleftrightarrow> (x, 1532) \<in> heap_handed s2" "(x, 1532) \<in> pool_handed s \<longleftrightarrow> (x, 1532) \<in> pool_handed s2"
      "memp_pools s2 = memp_pools s" "memp_memory s2 = memp_memory s"
      using lp[OF x] g(2,3,7,8) t(2,3,5,6) by simp_all
    show ?thesis
    proof (cases "x = r")
      case True
      have f: "p_type s2 x = p_type s x" "p_flags s2 x = p_flags s x" "p_ref s2 x = p_ref s x"
        "p_payload s2 x = p_payload s x" "p_len s2 x = p_len s x"
        using t(12-17) g(6) pbuf_cong[of x s1 s] by (simp_all add: True)
      have "pbuf_area s2 x 1532" by (rule pbuf_area_cong[OF own_pbufD(1)[OF cx] h f(1,2)])
      then show ?thesis using cx f by (simp add: own_pbuf_def)
    next
      case False
      show ?thesis by (rule own_pbuf_cong[OF cx keep[OF lp(1)[OF x] False] h])
    qed
  qed
  have same: "p_next s2 x = p_next s x" if "x \<in> set ps" "x \<noteq> r" for x
    using pbuf_cong(1)[of x s2 s] keep[OF lp(1)[OF that(1)] that(2)] by simp
  have flds: "p_tot_len s2 x = p_tot_len s x" "p_len s2 x = p_len s x" "p_payload s2 x = p_payload s x" if "x \<in> set ps" for x
  proof -
    have "p_tot_len s2 x = p_tot_len s x \<and> p_len s2 x = p_len s x \<and> p_payload s2 x = p_payload s x"
    proof (cases "x = r")
      case True
      then show ?thesis using t(12-14) g(6) pbuf_cong[of x s1 s] by simp
    next
      case False
      then show ?thesis using pbuf_cong[of x s2 s] keep[OF lp(1)[OF that] False] by simp
    qed
    then show "p_tot_len s2 x = p_tot_len s x" "p_len s2 x = p_len s x" "p_payload s2 x = p_payload s x" by blast+
  qed
  have CH: "pchain s2 p (ps @ [q])"
    by (rule pchain_extend[OF ch ne di]) (use same t(8,9) la q in auto)
  show "mem_ok s2" "unat (p_tot_len s2 q) = rem" "unat (p_len s2 q) = min rem 1516" using t(1,10,11) by simp_all
  show "distinct (ps @ [q])" using di lp(2) by auto
  show "\<forall>x\<in>set (ps @ [q]). own_pbuf s2 x 1532" using car t(7) by simp
  show "pchain s2 p (ps @ [q])" by (rule CH)
  show "lent s2 = insert (q, 1532) (lent s)" "q \<notin> fst ` lent s" using t(4) g(4,5) by simp_all
  show "p_tot_len s2 x = p_tot_len s x \<and> p_len s2 x = p_len s x \<and> p_payload s2 x = p_payload s x" if "x \<in> set ps" for x
    using flds[OF that] by blast
  show "mem_bytes s2 a = mem_bytes s a" if "(y, k) \<in> lent s" "y \<noteq> r" "a \<in> area y k" for y k a using keep that by blast
qed

lemma alloc_tail_result:
  assumes "mem_ok s" "pchain s p ps" "ps \<noteq> []" "last ps = r" "distinct ps" "\<forall>x\<in>set ps. own_pbuf s x 1532" "rem < 65536"
  shows "(\<exists>qs s'. alloc_tail custom p r rem s = Some (True, s') \<and> mem_ok s' \<and> pchain s' p (ps @ qs) \<and>
      distinct (ps @ qs) \<and> (\<forall>x\<in>set (ps @ qs). own_pbuf s' x 1532) \<and>
      (\<forall>x\<in>set ps. p_tot_len s' x = p_tot_len s x \<and> p_len s' x = p_len s x \<and> p_payload s' x = p_payload s x) \<and>
      tot_ok s' qs \<and> length (contents s' qs) = rem \<and> lent s' = lent s \<union> (\<lambda>x. (x, 1532)) ` set qs \<and>
      (\<forall>x\<in>set qs. x \<notin> fst ` lent s) \<and>
      (\<forall>(y, k)\<in>lent s. \<forall>a\<in>area y k. y \<notin> set ps \<longrightarrow> mem_bytes s' a = mem_bytes s a)) \<or>
    (\<exists>s'. alloc_tail custom p r rem s = Some (False, s') \<and> mem_ok s' \<and> lent s' = {(x, l) \<in> lent s. x \<notin> set ps} \<and>
      (\<forall>(y, k)\<in>lent s'. \<forall>a\<in>area y k. mem_bytes s' a = mem_bytes s a))"
  using assms
proof (induction rem arbitrary: s r ps rule: less_induct)
  case (less rem)
  show ?case
  proof (cases "rem = 0")
    case True
    then have "alloc_tail custom p r rem s = Some (True, s)" by (subst alloc_tail.simps) simp
    then show ?thesis using less.prems True by (intro disjI1 exI[of _ "[]"] exI[of _ s]) auto
  next
    case nz: False
    obtain q s1 where m: "memp_malloc MEMP_PBUF_POOL s = (q, s1)" by (cases "memp_malloc MEMP_PBUF_POOL s")
    show ?thesis
    proof (cases "q = 0")
      case True
      then have s1: "s1 = s" using grant_none less.prems(1) m by blast
      obtain s' n where s': "pbuf_free custom p s = Some (n, s')" "mem_ok s'" "lent s' = {(x, l) \<in> lent s. x \<notin> set ps}"
        "\<forall>(y, k)\<in>lent s'. \<forall>a\<in>area y k. mem_bytes s' a = mem_bytes s a"
        using pbuf_freed[of s p ps "[]" custom] less.prems own_pbufD(1,2) by fastforce
      have "alloc_tail custom p r rem s = Some (False, s')"
        using nz m True s1 s'(1) by (subst alloc_tail.simps) simp
      then show ?thesis using s' by blast
    next
      case q: False
      define s2 where "s2 = set_p_ref 1 q (set_p_payload (q + SIZEOF_STRUCT_PBUF) q
        (set_p_len (word_of_nat (min rem PBUF_POOL_BUFSIZE_ALIGNED)) q (set_p_tot_len (word_of_nat rem) q
        (set_p_next q r (set_p_next 0 q (set_p_flags 0 q (set_p_type PBUF_POOL q s1)))))))"
      note st = tail_step[OF less.prems m q, folded s2_def]
      note keep = st(10) and l2 = st(8)
      have r: "r \<in> set ps" using less.prems(3,4) by auto
      have step: "alloc_tail custom p r rem s = alloc_tail custom p q (rem - min rem 1516) s2"
        using nz m q by (subst alloc_tail.simps) (simp add: s2_def PBUF_POOL_BUFSIZE_ALIGNED_def Let_def)
      have small: "rem - min rem 1516 < rem" "rem - min rem 1516 < 65536" using nz less.prems(7) by auto
      have old: "(y, k) \<in> lent s2 \<and> y \<noteq> q" if "(y, k) \<in> lent s" for y k using that l2 st(9) by (auto simp: image_iff)
      from less.IH[OF small(1) st(1,2) _ _ st(3,4) small(2)] consider
        (full) qs s' where "alloc_tail custom p q (rem - min rem 1516) s2 = Some (True, s')" "mem_ok s'"
          "pchain s' p ((ps @ [q]) @ qs)" "distinct ((ps @ [q]) @ qs)" "\<forall>x\<in>set ((ps @ [q]) @ qs). own_pbuf s' x 1532"
          "\<forall>x\<in>set (ps @ [q]). p_tot_len s' x = p_tot_len s2 x \<and> p_len s' x = p_len s2 x \<and> p_payload s' x = p_payload s2 x"
          "tot_ok s' qs" "length (contents s' qs) = rem - min rem 1516" "lent s' = lent s2 \<union> (\<lambda>x. (x, 1532)) ` set qs"
          "\<forall>x\<in>set qs. x \<notin> fst ` lent s2"
          "\<forall>(y, k)\<in>lent s2. \<forall>a\<in>area y k. y \<notin> set (ps @ [q]) \<longrightarrow> mem_bytes s' a = mem_bytes s2 a"
        | (empty) s' where "alloc_tail custom p q (rem - min rem 1516) s2 = Some (False, s')" "mem_ok s'"
          "lent s' = {(x, l) \<in> lent s2. x \<notin> set (ps @ [q])}"
          "\<forall>(y, k)\<in>lent s'. \<forall>a\<in>area y k. mem_bytes s' a = mem_bytes s2 a"
        by force
      then show ?thesis
      proof cases
        case (full qs s')
        have tot: "tot_ok s' (q # qs)" "length (contents s' (q # qs)) = rem" using full(6-8) st(6,7) by simp_all
        have flds': "\<forall>x\<in>set ps. p_tot_len s' x = p_tot_len s x \<and> p_len s' x = p_len s x \<and> p_payload s' x = p_payload s x"
          using full(6) st(5) by simp
        have le: "lent s' = lent s \<union> (\<lambda>x. (x, 1532)) ` set (q # qs)" using full(9) l2 by auto
        have new: "\<forall>x\<in>set (q # qs). x \<notin> fst ` lent s" using full(10) l2 st(9) by auto
        have "mem_bytes s' a = mem_bytes s a" if "(y, k) \<in> lent s" "a \<in> area y k" "y \<notin> set ps" for y k a
          using full(11) old[OF that(1)] that(2,3) keep[OF that(1) _ that(2)] r by fastforce
        then have kept: "\<forall>(y, k)\<in>lent s. \<forall>a\<in>area y k. y \<notin> set ps \<longrightarrow> mem_bytes s' a = mem_bytes s a" by blast
        have ends: "alloc_tail custom p r rem s = Some (True, s')" "pchain s' p (ps @ q # qs)" "distinct (ps @ q # qs)"
          "\<forall>x\<in>set (ps @ q # qs). own_pbuf s' x 1532" using full(1,3-5) step by simp_all
        show ?thesis
          by (intro disjI1 exI[of _ "q # qs"] exI[of _ s'] conjI; fact)
      next
        case (empty s')
        have le: "(y, k) \<in> lent s' \<longleftrightarrow> (y, k) \<in> lent s \<and> y \<notin> set ps" for y k
          using old[of y k] by (auto simp: empty(3) l2)
        then have le': "lent s' = {(x, l) \<in> lent s. x \<notin> set ps}" by blast
        have "mem_bytes s' a = mem_bytes s a" if "(y, k) \<in> lent s'" "a \<in> area y k" for y k a
          using empty(4) that keep[of y k a] le[of y k] r by fastforce
        then have kept: "\<forall>(y, k)\<in>lent s'. \<forall>a\<in>area y k. mem_bytes s' a = mem_bytes s a" by blast
        have "alloc_tail custom p r rem s = Some (False, s')" using empty(1) step by simp
        then show ?thesis using empty(2) le' kept by blast
      qed
    qed
  qed
qed

lemma mem_align:
  assumes "a + 3 < 2 ^ 32"
  shows "LWIP_MEM_ALIGN a = (a + 3) div 4 * 4"
proof -
  have "unat (word_of_nat a :: u32) = a" using assms by (simp add: unsigned_of_nat take_bit_nat_eq_self)
  then show ?thesis using unat_align_size[of "word_of_nat a"] assms by (simp add: LWIP_MEM_ALIGN_def)
qed

lemma mem_align_bounds:
  assumes "a + 3 < 2 ^ 32"
  shows "a \<le> LWIP_MEM_ALIGN a" "LWIP_MEM_ALIGN a \<le> a + 3" "4 dvd b \<Longrightarrow> b + a + 3 < 2 ^ 32 \<Longrightarrow> LWIP_MEM_ALIGN (b + a) = b + LWIP_MEM_ALIGN a"
proof -
  show "a \<le> LWIP_MEM_ALIGN a" "LWIP_MEM_ALIGN a \<le> a + 3" using mem_align[OF assms] by simp_all
  assume b: "4 dvd b" "b + a + 3 < 2 ^ 32"
  then obtain c where "b = 4 * c" by auto
  then have "(b + a + 3) div 4 = c + (a + 3) div 4" by simp
  then show "LWIP_MEM_ALIGN (b + a) = b + LWIP_MEM_ALIGN a"
    using mem_align[OF b(2)] mem_align[OF assms] \<open>b = 4 * c\<close> by simp
qed

lemma pbuf_offset_bound: "pbuf_offset layer = Some off \<Longrightarrow> off \<le> 54"
  by (auto simp: pbuf_offset_def split: if_splits)

text \<open>The first pbuf of a chain from the pool.\<close>

lemma head_set_up:
  fixes n :: u16
  assumes ok: "mem_ok s" and p: "(p, 1532) \<in> pool_handed s" "pool_of p s = MEMP_PBUF_POOL"
    and fl: "p_flags s p AND PBUF_FLAG_IS_CUSTOM = 0" and off: "off \<le> 54"
  defines "s' \<equiv> set_p_ref 1 p (set_p_len (min n (word_of_nat (PBUF_POOL_BUFSIZE_ALIGNED - LWIP_MEM_ALIGN off))) p
    (set_p_tot_len n p (set_p_payload (LWIP_MEM_ALIGN (p + (SIZEOF_STRUCT_PBUF + off))) p
    (set_p_next 0 p (set_p_type PBUF_POOL p s)))))"
  shows "mem_ok s'" "lent s' = lent s" "own_pbuf s' p 1532" "pchain s' p [p]" "p_tot_len s' p = n"
    "p_len s' p \<le> n" "p + 16 + off \<le> p_payload s' p" "\<And>a. a \<notin> area p 1532 \<Longrightarrow> mem_bytes s' a = mem_bytes s a"
proof -
  have lp: "(p, 1532) \<in> lent s" using p(1) by (simp add: memory.handed_both_def)
  note la = lent_area[OF ok lp]
  have i: "inside p 1532 s s'" unfolding s'_def
    by (intro inside_trans[OF _ inside_field(7)] inside_trans[OF _ inside_field(4)] inside_trans[OF _ inside_field(3)]
        inside_trans[OF _ inside_field(2)] inside_trans[OF _ inside_field(1)] inside_field(5)) simp_all
  note c = change_inside[OF ok lp i] inside_same[OF i]
  show "mem_ok s'" "lent s' = lent s" "\<And>a. a \<notin> area p 1532 \<Longrightarrow> mem_bytes s' a = mem_bytes s a"
    using c inside_bytes[OF i] by simp_all
  have al: "LWIP_MEM_ALIGN (p + (16 + off)) = p + LWIP_MEM_ALIGN (16 + off)" "16 + off \<le> LWIP_MEM_ALIGN (16 + off)"
    "LWIP_MEM_ALIGN (16 + off) = 16 + LWIP_MEM_ALIGN off" "LWIP_MEM_ALIGN off \<le> off + 3"
    using mem_align_bounds[of "16 + off"] mem_align_bounds[of off] la off by simp_all
  have f: "p_payload s' p = p + LWIP_MEM_ALIGN (16 + off)" "p_next s' p = 0" "p_ref s' p = 1"
    "p_len s' p = min n (word_of_nat (1516 - LWIP_MEM_ALIGN off))" "p_tot_len s' p = n" "p_type s' p = PBUF_POOL"
    "p_flags s' p = p_flags s p"
    using al la off by (simp_all add: s'_def pfield SIZEOF_STRUCT_PBUF_def PBUF_POOL_BUFSIZE_ALIGNED_def)
  show "p_tot_len s' p = n" "p_len s' p \<le> n" "p + 16 + off \<le> p_payload s' p" "pchain s' p [p]"
    using f al(2) la(3) by simp_all
  have "unat (p_len s' p) \<le> 1516 - LWIP_MEM_ALIGN off"
    using unat_of_nat_u16[of "1516 - LWIP_MEM_ALIGN off"] by (simp add: f(4) unat_min)
  then show "own_pbuf s' p 1532"
    using f al off p c(3) fl pool_of_same[OF c(5,6)]
    by (simp add: own_pbuf_def pbuf_area_def SIZEOF_STRUCT_PBUF_def)
qed

lemma alloc_pool_result:
  fixes n :: u16
  assumes ok: "mem_ok s" and off: "off \<le> 54"
    and fl: "\<forall>x\<in>set (free_elements s MEMP_PBUF_POOL). p_flags s x AND PBUF_FLAG_IS_CUSTOM = 0"
  shows "\<exists>p s'. alloc_pool custom off n s = Some (p, s') \<and> mem_ok s' \<and>
    (\<forall>(y, k)\<in>lent s. \<forall>a\<in>area y k. mem_bytes s' a = mem_bytes s a) \<and>
    (if p = 0 then lent s' = lent s else \<exists>qs. pchain s' p (p # qs) \<and> distinct (p # qs) \<and>
      (\<forall>x\<in>set (p # qs). own_pbuf s' x 1532) \<and> tot_ok s' (p # qs) \<and> length (contents s' (p # qs)) = unat n \<and>
      lent s' = lent s \<union> (\<lambda>x. (x, 1532)) ` set (p # qs) \<and> (\<forall>x\<in>set (p # qs). x \<notin> fst ` lent s) \<and>
      p + 16 + off \<le> p_payload s' p)"
proof -
  obtain p s1 where m: "memp_malloc MEMP_PBUF_POOL s = (p, s1)" by (cases "memp_malloc MEMP_PBUF_POOL s")
  show ?thesis
  proof (cases "p = 0")
    case True
    then have "s1 = s" using grant_none ok m by blast
    then have "alloc_pool custom off n s = Some (0, s)" using m True by (simp add: alloc_pool_def)
    then show ?thesis using ok by (intro exI[of _ 0] exI[of _ s]) auto
  next
    case p: False
    note g = grant_element[OF ok m p, unfolded mem_okD(8)[OF ok]]
    define s2 where "s2 = set_p_ref 1 p (set_p_len (min n (word_of_nat (PBUF_POOL_BUFSIZE_ALIGNED - LWIP_MEM_ALIGN off))) p
      (set_p_tot_len n p (set_p_payload (LWIP_MEM_ALIGN (p + (SIZEOF_STRUCT_PBUF + off))) p
      (set_p_next 0 p (set_p_type PBUF_POOL p s1)))))"
    have "(p, 1532) \<in> pool_handed s1" using g(3) by simp
    moreover have "p_flags s1 p AND PBUF_FLAG_IS_CUSTOM = 0" using fl g(6,11) by (simp add: p_flags_def)
    ultimately have h: "mem_ok s2" "lent s2 = lent s1" "own_pbuf s2 p 1532" "pchain s2 p [p]" "p_tot_len s2 p = n"
      "p_len s2 p \<le> n" "p + 16 + off \<le> p_payload s2 p" "\<And>a. a \<notin> area p 1532 \<Longrightarrow> mem_bytes s2 a = mem_bytes s1 a"
      using head_set_up[OF g(1) _ g(9) _ off, where n = n, folded s2_def] by blast+
    define rem where "rem = unat n - unat (p_len s2 p)"
    have rem: "rem < 65536" unfolding rem_def by (rule le_less_trans[OF diff_le_self]) (rule unat16_less)
    have step: "alloc_pool custom off n s = map_option (\<lambda>(ok, s). if ok then (p, s) else (0, s)) (alloc_tail custom p p rem s2)"
      using m p by (simp add: alloc_pool_def s2_def[symmetric] rem_def Let_def map_option_case split: option.split)
    have l2: "lent s2 = insert (p, 1532) (lent s)" using h(2) g(4) by simp
    have new: "y \<noteq> p" if "(y, k) \<in> lent s" for y k using that g(5) by force
    have keep: "mem_bytes s2 a = mem_bytes s a" if y: "(y, k) \<in> lent s" "a \<in> area y k" for y k a
    proof -
      have "area y k \<inter> area p 1532 = {}" by (rule lent_apart(2)[OF h(1)]) (use l2 y(1) new in auto)
      then show ?thesis using h(8)[of a] y(2) g(6) by auto
    qed
    from alloc_tail_result[OF h(1,4) _ _ _ _ rem, of p custom] h(3) consider
      (full) qs s' where "alloc_tail custom p p rem s2 = Some (True, s')" "mem_ok s'" "pchain s' p ([p] @ qs)"
        "distinct ([p] @ qs)" "\<forall>x\<in>set ([p] @ qs). own_pbuf s' x 1532"
        "p_tot_len s' p = p_tot_len s2 p" "p_len s' p = p_len s2 p" "p_payload s' p = p_payload s2 p"
        "tot_ok s' qs" "length (contents s' qs) = rem" "lent s' = lent s2 \<union> (\<lambda>x. (x, 1532)) ` set qs"
        "\<forall>x\<in>set qs. x \<notin> fst ` lent s2" "\<forall>(y, k)\<in>lent s2. \<forall>a\<in>area y k. y \<notin> set [p] \<longrightarrow> mem_bytes s' a = mem_bytes s2 a"
      | (empty) s' where "alloc_tail custom p p rem s2 = Some (False, s')" "mem_ok s'"
        "lent s' = {(x, l) \<in> lent s2. x \<notin> set [p]}" "\<forall>(y, k)\<in>lent s'. \<forall>a\<in>area y k. mem_bytes s' a = mem_bytes s2 a"
      by force
    then show ?thesis
    proof cases
      case (full qs s')
      have len: "length (contents s' (p # qs)) = unat n"
        using full(7,10) h(6) by (simp add: rem_def word_le_nat_alt)
      then have tot: "tot_ok s' (p # qs)" using full(6,9) h(5) by simp
      have le: "lent s' = lent s \<union> (\<lambda>x. (x, 1532)) ` set (p # qs)" using full(11) l2 by auto
      have fresh: "\<forall>x\<in>set (p # qs). x \<notin> fst ` lent s" using full(12) l2 g(5) by auto
      have kept: "\<forall>(y, k)\<in>lent s. \<forall>a\<in>area y k. mem_bytes s' a = mem_bytes s a"
        using full(13) keep new l2 by fastforce
      have ends: "alloc_pool custom off n s = Some (p, s')" "pchain s' p (p # qs)" "distinct (p # qs)"
        "\<forall>x\<in>set (p # qs). own_pbuf s' x 1532" "p + 16 + off \<le> p_payload s' p"
        using step full(1,3-5,8) h(7) by simp_all
      show ?thesis
        by (rule exI[of _ p], rule exI[of _ s'], unfold if_not_P[OF p], intro conjI exI[of _ qs]; fact)
    next
      case (empty s')
      have le: "(y, k) \<in> lent s' \<longleftrightarrow> (y, k) \<in> lent s" for y k using new[of y k] by (auto simp: empty(3) l2)
      then have "lent s' = lent s" by auto
      moreover have "\<forall>(y, k)\<in>lent s. \<forall>a\<in>area y k. mem_bytes s' a = mem_bytes s a" using empty(4) keep le by fastforce
      ultimately show ?thesis using step empty(1,2) by (intro exI[of _ 0] exI[of _ s']) simp
    qed
  qed
qed

text \<open>The reference count and the flags of a finished pbuf.\<close>

lemma marks:
  assumes ok: "mem_ok s" and ch: "pchain s p (p # qs)" "tot_ok s (p # qs)" "distinct (p # qs)"
    and ca: "\<forall>x\<in>set (p # qs). \<exists>l. own_pbuf s x l"
  defines "s' \<equiv> set_p_flags 0 p (set_p_ref 1 p s)"
  shows "mem_ok s'" "lent s' = lent s" "pchain s' p (p # qs)" "tot_ok s' (p # qs)" "\<forall>x\<in>set (p # qs). \<exists>l. own_pbuf s' x l"
    "contents s' (p # qs) = contents s (p # qs)" "p_payload s' p = p_payload s p"
    "\<And>a. a \<notin> struct_area p \<Longrightarrow> mem_bytes s' a = mem_bytes s a"
proof -
  obtain l where l: "own_pbuf s p l" using ca by auto
  note P = own_pbufD[OF l]
  have i: "inside p l s s'" unfolding s'_def
    using P(5) by (intro inside_trans[OF _ inside_field(6)] inside_field(7))
  note c = change_inside[OF ok P(4) i] and sm = inside_same[OF i]
  show "mem_ok s'" "lent s' = lent s" using c by simp_all
  show out: "mem_bytes s' a = mem_bytes s a" if "a \<notin> struct_area p" for a
    using that unfolding s'_def by (auto simp: bytes_set_field struct_area_def SIZEOF_STRUCT_PBUF_def)
  then have outP: "\<forall>a. a \<notin> (\<Union>x\<in>{p}. struct_area x) \<longrightarrow> mem_bytes s' a = mem_bytes s a" by simp
  have cl: "clear s (p # qs)" by (rule own_pbufs_clear[OF ok ch(3) ca])
  have f: "p_next s' p = p_next s p" "p_payload s' p = p_payload s p" "p_len s' p = p_len s p" "p_tot_len s' p = p_tot_len s p"
    "p_type s' p = p_type s p" "p_flags s' p = 0" "p_ref s' p = 1" by (simp_all add: s'_def pfield)
  show "p_payload s' p = p_payload s p" by (rule f(2))
  have Pp: "{p} \<subseteq> set (p # qs)" by simp
  note fr = frame_chain[OF cl Pp _ outP, of qs] and fo = frame_fields[OF cl Pp _ _ outP]
  have sub: "set qs \<subseteq> set (p # qs) - {p}" using ch(3) by auto
  have b: "pbuf_bytes s' p = pbuf_bytes s p" by (rule frame_bytes[OF cl Pp _ f(2,3) outP]) simp
  show "pchain s' p (p # qs)" using ch(1) fr(3)[OF sub] f(1) by simp
  show "contents s' (p # qs) = contents s (p # qs)" using fr(1)[OF sub] b by simp
  show "tot_ok s' (p # qs)" using ch(2) fr(1,2)[OF sub] b f(3,4) by simp
  have "\<exists>l. own_pbuf s' x l" if x: "x \<in> set qs" for x
  proof -
    obtain k where k: "own_pbuf s x k" using ca x by auto
    have "x \<noteq> p" using ch(3) x by auto
    from lent_apart(2)[OF ok own_pbufD(4)[OF k] P(4) this] have "own_pbuf s' x k"
      by (intro own_pbuf_cong[OF k] inside_bytes[OF i]) (auto simp: c(2,3) sm)
    then show ?thesis ..
  qed
  moreover have "own_pbuf s' p l"
  proof -
    have "pbuf_area s' p l"
      using P(1) f(5,6) by (simp add: pbuf_area_def c(2,3) pool_of_same[OF sm(1,2)])
    then show ?thesis using l f(2,3,7) by (simp add: own_pbuf_def)
  qed
  ultimately show "\<forall>x\<in>set (p # qs). \<exists>l. own_pbuf s' x l" by auto
qed

lemma ram_request:
  fixes n :: u16
  assumes "off \<le> 54" "unat n \<le> 65460"
  defines "R \<equiv> ucast (LWIP_MEM_ALIGN_SIZE (word_of_nat (SIZEOF_STRUCT_PBUF + off)) + LWIP_MEM_ALIGN_SIZE (ucast n)) :: u16"
  shows "LWIP_MEM_ALIGN (16 + off) + unat n \<le> unat R" "unat R \<le> 65532"
proof -
  define A where "A = LWIP_MEM_ALIGN_SIZE (word_of_nat (SIZEOF_STRUCT_PBUF + off))"
  define B where "B = LWIP_MEM_ALIGN_SIZE (ucast n)"
  have A: "unat A = LWIP_MEM_ALIGN (16 + off)" by (simp add: A_def LWIP_MEM_ALIGN_def SIZEOF_STRUCT_PBUF_def)
  have n: "unat (ucast n :: u32) = unat n"
    unfolding unsigned_ucast_eq by (intro take_bit_nat_eq_self) (rule le_less_trans[OF assms(2)], simp)
  have B: "unat B = (unat n + 3) div 4 * 4"
    using unat_align_size[of "ucast n"] assms(2) unfolding n B_def by simp
  have bounds: "unat A \<le> 72" "4 dvd unat A" "unat B \<le> 65460"
    using mem_align[of "16 + off"] assms(1,2) by (auto simp: A B)
  have "unat (A + B) = unat A + unat B"
    using bounds by (subst unat_add_lem[THEN iffD1]) simp_all
  then have R: "unat R = unat A + unat B"
    using bounds unfolding R_def A_def[symmetric] B_def[symmetric] by (simp add: unsigned_ucast_eq take_bit_nat_eq_self)
  show "LWIP_MEM_ALIGN (16 + off) + unat n \<le> unat R" "unat R \<le> 65532" using R A B bounds by simp_all
qed

lemma heap_area_end:
  assumes ok: "mem_ok s" and p: "(p, l) \<in> heap_handed s"
  shows "p + l + 8 \<le> 2 ^ 32"
proof -
  have "ram_end (heap s) + 8 \<le> 2 ^ 32" using ok by (simp add: mem_ok_def SIZEOF_STRUCT_MEM_def)
  then show ?thesis using in_use_inside(2)[OF _ p] mem_okD(1)[OF ok] by (simp add: heap_fine_def)
qed

lemma alloc_ram_result:
  fixes n :: u16
  assumes ok: "mem_ok s" and off: "off \<le> 54" and n: "unat n \<le> 65460"
  obtains (none) "alloc_ram off n s = Some (0, s)"
  | (some) p s1 l where "p \<noteq> 0" "alloc_ram off n s = Some (p, s1)"
    "let s' = set_p_flags 0 p (set_p_ref 1 p s1) in mem_ok s' \<and> pchain s' p [p] \<and> tot_ok s' [p] \<and> own_pbuf s' p l \<and>
       unat (p_len s' p) = unat n \<and> p + 16 + off \<le> p_payload s' p \<and> lent s' = insert (p, l) (lent s) \<and> p \<notin> fst ` lent s \<and>
       (\<forall>(y, k)\<in>lent s. \<forall>a\<in>area y k. mem_bytes s' a = mem_bytes s a)"
proof -
  define R :: u16 where "R = ucast (LWIP_MEM_ALIGN_SIZE (word_of_nat (SIZEOF_STRUCT_PBUF + off)) + LWIP_MEM_ALIGN_SIZE (ucast n))"
  note r = ram_request[OF off n, folded R_def]
  obtain p s1 where m: "heap_malloc R s = Some (p, s1)" by (rule heap_always_answers[OF ok])
  show ?thesis
  proof (cases "p = 0")
    case True
    then have "s1 = s" using mheap.alloc_none[OF mem_okD(1)[OF ok]] m by blast
    then have m0: "heap_malloc R s = Some (0, s)" using m True by simp
    show ?thesis by (rule none) (simp only: alloc_ram_def R_def[symmetric] m0, simp)
  next
    case p: False
    obtain l where g: "unat R \<le> l" "mem_ok s1" "heap_handed s1 = insert (p, l) (heap_handed s)" "pool_handed s1 = pool_handed s"
      "lent s1 = insert (p, l) (lent s)" "p \<notin> fst ` lent s"
      "\<And>q k a. (q, k) \<in> lent s \<Longrightarrow> a \<in> area q k \<Longrightarrow> mem_bytes s1 a = mem_bytes s a"
      by (rule grant_heap[OF ok m p r(2)]) blast
    have lp: "(p, l) \<in> lent s1" using g(5) by simp
    note la = lent_area[OF g(2) lp]
    have e: "p + l + 8 \<le> 2 ^ 32" by (rule heap_area_end[OF g(2)]) (simp add: g(3))
    define t where "t = set_p_type PBUF_RAM p (set_p_next 0 p (set_p_len n p (set_p_tot_len n p
      (set_p_payload (LWIP_MEM_ALIGN (p + SIZEOF_STRUCT_PBUF + off)) p s1))))"
    define s' where "s' = set_p_flags 0 p (set_p_ref 1 p t)"
    have al: "LWIP_MEM_ALIGN (p + (16 + off)) = p + LWIP_MEM_ALIGN (16 + off)" "16 + off \<le> LWIP_MEM_ALIGN (16 + off)"
      "16 \<le> l" "p + LWIP_MEM_ALIGN (16 + off) + unat n \<le> p + l"
      using mem_align_bounds[of "16 + off"] mem_align_bounds(3)[of "16 + off" p] la off r(1) g(1) e by simp_all
    have i: "inside p l s1 s'" unfolding s'_def t_def
      by (intro inside_trans[OF _ inside_field(6)] inside_trans[OF _ inside_field(7)] inside_trans[OF _ inside_field(5)]
          inside_trans[OF _ inside_field(1)] inside_trans[OF _ inside_field(4)] inside_trans[OF _ inside_field(3)]
          inside_field(2)) (fact al(3))+
    note c = change_inside[OF g(2) lp i]
    have f: "p_payload s' p = p + LWIP_MEM_ALIGN (16 + off)" "p_next s' p = 0" "p_ref s' p = 1" "p_len s' p = n"
      "p_tot_len s' p = n" "p_type s' p = PBUF_RAM" "p_flags s' p = 0"
      using al la e by (simp_all add: s'_def t_def pfield SIZEOF_STRUCT_PBUF_def add.assoc)
    have "own_pbuf s' p l"
      using f al c(2) g(3) by (simp add: own_pbuf_def pbuf_area_def SIZEOF_STRUCT_PBUF_def)
    moreover have "mem_bytes s' a = mem_bytes s a" if y: "(y, k) \<in> lent s" "a \<in> area y k" for y k a
    proof -
      have "area y k \<inter> area p l = {}"
        by (rule lent_apart(2)[OF g(2) _ lp]) (use g(5,6) y(1) in \<open>auto simp: image_iff\<close>)
      then have "mem_bytes s' a = mem_bytes s1 a" using y(2) by (intro inside_bytes[OF i]) blast
      then show ?thesis using g(7)[OF y] by simp
    qed
    moreover have "pchain s' p [p]" "tot_ok s' [p]" "unat (p_len s' p) = unat n" "p + 16 + off \<le> p_payload s' p"
      using p f al(2) by simp_all
    moreover have "alloc_ram off n s = Some (p, t)"
      unfolding alloc_ram_def R_def[symmetric] m using p by (simp add: t_def)
    ultimately show ?thesis
      by (intro some[of p t l]) (use p c(1,4) g(5,6) in \<open>auto simp: Let_def s'_def[symmetric]\<close>)
  qed
qed

lemma pbuf_alloc_result:
  fixes n :: u16
  assumes ok: "mem_ok s" and off: "pbuf_offset layer = Some off"
    and type: "type = PBUF_RAM \<and> unat n \<le> 65460 \<or>
      type = PBUF_POOL \<and> (\<forall>x\<in>set (free_elements s MEMP_PBUF_POOL). p_flags s x AND PBUF_FLAG_IS_CUSTOM = 0)"
  shows "\<exists>p s'. pbuf_alloc custom layer n type s = Some (p, s') \<and> mem_ok s' \<and>
    (\<forall>(y, k)\<in>lent s. \<forall>a\<in>area y k. mem_bytes s' a = mem_bytes s a) \<and>
    (if p = 0 then lent s' = lent s
     else \<exists>ps new. pchain s' p ps \<and> tot_ok s' ps \<and> clear s' ps \<and> length (contents s' ps) = unat n \<and>
       (\<forall>x\<in>set ps. \<exists>l. own_pbuf s' x l) \<and> p + 16 + off \<le> p_payload s' p \<and>
       lent s' = lent s \<union> new \<and> fst ` new = set ps \<and> fst ` new \<inter> fst ` lent s = {})"
  using type
proof (elim disjE conjE)
  assume t: "type = PBUF_RAM" "unat n \<le> 65460"
  have call: "pbuf_alloc custom layer n type s = (case alloc_ram off n s of None \<Rightarrow> None
      | Some (p, s1) \<Rightarrow> if p = 0 then Some (0, s1) else Some (p, set_p_flags 0 p (set_p_ref 1 p s1)))"
    by (simp add: pbuf_alloc_def off t(1) PBUF_RAM_def PBUF_POOL_def split: option.split prod.split)
  show ?thesis
  proof (cases rule: alloc_ram_result[OF ok pbuf_offset_bound[OF off] t(2), case_names none some])
    case none
    then show ?thesis using ok by (intro exI[of _ 0] exI[of _ s]) (auto simp: call)
  next
    case (some p s1 l)
    define s' where "s' = set_p_flags 0 p (set_p_ref 1 p s1)"
    note r = some(3)[unfolded Let_def, folded s'_def]
    have ca: "\<forall>x\<in>set [p]. \<exists>l. own_pbuf s' x l" using r by auto
    have cl: "clear s' [p]" by (rule own_pbufs_clear[OF _ _ ca]) (use r in simp_all)
    have al: "pbuf_alloc custom layer n type s = Some (p, s')" using call some(1,2) by (simp add: s'_def)
    have len: "length (contents s' [p]) = unat n" using r by simp
    have new: "fst ` {(p, l)} = set [p]" "fst ` {(p, l)} \<inter> fst ` lent s = {}" "lent s' = lent s \<union> {(p, l)}" using r by auto
    have kept: "\<forall>(y, k)\<in>lent s. \<forall>a\<in>area y k. mem_bytes s' a = mem_bytes s a" and ok': "mem_ok s'" "pchain s' p [p]"
      "tot_ok s' [p]" "p + 16 + off \<le> p_payload s' p" using r by blast+
    show ?thesis
      by (rule exI[of _ p], rule exI[of _ s'], unfold if_not_P[OF some(1)],
          intro conjI exI[of _ "[p]"] exI[of _ "{(p, l)}"]; fact al kept ok' cl len ca new)
  qed
next
  assume t: "type = PBUF_POOL" and fl: "\<forall>x\<in>set (free_elements s MEMP_PBUF_POOL). p_flags s x AND PBUF_FLAG_IS_CUSTOM = 0"
  have call: "pbuf_alloc custom layer n type s = (case alloc_pool custom off n s of None \<Rightarrow> None
      | Some (p, s1) \<Rightarrow> if p = 0 then Some (0, s1) else Some (p, set_p_flags 0 p (set_p_ref 1 p s1)))"
    by (simp add: pbuf_alloc_def off t split: option.split prod.split)
  obtain p s1 where a: "alloc_pool custom off n s = Some (p, s1)" "mem_ok s1"
    "\<forall>(y, k)\<in>lent s. \<forall>a\<in>area y k. mem_bytes s1 a = mem_bytes s a"
    "if p = 0 then lent s1 = lent s else \<exists>qs. pchain s1 p (p # qs) \<and> distinct (p # qs) \<and>
      (\<forall>x\<in>set (p # qs). own_pbuf s1 x 1532) \<and> tot_ok s1 (p # qs) \<and> length (contents s1 (p # qs)) = unat n \<and>
      lent s1 = lent s \<union> (\<lambda>x. (x, 1532)) ` set (p # qs) \<and> (\<forall>x\<in>set (p # qs). x \<notin> fst ` lent s) \<and>
      p + 16 + off \<le> p_payload s1 p"
    using alloc_pool_result[OF ok pbuf_offset_bound[OF off] fl, of custom n] by blast
  show ?thesis
  proof (cases "p = 0")
    case True
    then show ?thesis using a by (intro exI[of _ 0] exI[of _ s1]) (auto simp: call)
  next
    case p: False
    obtain qs where q: "pchain s1 p (p # qs)" "distinct (p # qs)" "\<forall>x\<in>set (p # qs). own_pbuf s1 x 1532"
      "tot_ok s1 (p # qs)" "length (contents s1 (p # qs)) = unat n" "lent s1 = lent s \<union> (\<lambda>x. (x, 1532)) ` set (p # qs)"
      "\<forall>x\<in>set (p # qs). x \<notin> fst ` lent s" "p + 16 + off \<le> p_payload s1 p"
      using a(4) p by auto
    define s' where "s' = set_p_flags 0 p (set_p_ref 1 p s1)"
    have ca: "\<forall>x\<in>set (p # qs). \<exists>l. own_pbuf s1 x l" using q(3) by blast
    note mk = marks[OF a(2) q(1,4,2) ca, folded s'_def]
    have kept: "mem_bytes s' a = mem_bytes s a" if y: "(y, k) \<in> lent s" "a \<in> area y k" for y k a
    proof -
      have "y \<noteq> p" using q(7) y(1) by (auto simp: image_iff)
      then have "area y k \<inter> area p 1532 = {}" by (intro lent_apart(2)[OF a(2)]) (use y(1) q(6) in auto)
      then have "mem_bytes s' a = mem_bytes s1 a" using y(2) by (intro mk(8)) (fastforce simp: struct_area_def SIZEOF_STRUCT_PBUF_def)
      then show ?thesis using a(3) y by fastforce
    qed
    have cl: "clear s' (p # qs)" by (rule own_pbufs_clear[OF mk(1) q(2) mk(5)])
    have new: "fst ` (\<lambda>x. (x, 1532)) ` set (p # qs) = set (p # qs)" by (simp add: image_image)
    then have fresh: "fst ` (\<lambda>x. (x, 1532)) ` set (p # qs) \<inter> fst ` lent s = {}" using q(7) by auto
    have len: "length (contents s' (p # qs)) = unat n" using mk(6) q(5) by simp
    have le: "lent s' = lent s \<union> (\<lambda>x. (x, 1532)) ` set (p # qs)" using mk(2) q(6) by simp
    have pay: "p + 16 + off \<le> p_payload s' p" using mk(7) q(8) by simp
    have kept': "\<forall>(y, k)\<in>lent s. \<forall>a\<in>area y k. mem_bytes s' a = mem_bytes s a" using kept by blast
    have al: "pbuf_alloc custom layer n type s = Some (p, s')" using call a(1) p by (simp add: s'_def)
    show ?thesis
      by (rule exI[of _ p], rule exI[of _ s'], unfold if_not_P[OF p],
          intro conjI exI[of _ "p # qs"] exI[of _ "(\<lambda>x. (x, 1532)) ` set (p # qs)"]; fact al kept' mk(1,3,4,5) cl len pay le new fresh)
  qed
qed

text \<open>
  C38: pbuf_alloc with one of the four layers, for the pool, or for the heap with a
  length of at most 65460 bytes, in a well formed memory: it either gives nothing, and
  what is in use stays in use, or a chain of exactly the length asked for, in new areas
  with no overlap and with room for the headers in front, which pbuf_free gives back
  whole; in both cases what is in use elsewhere keeps its data. For the pool no free
  element may hold a left-over custom flag in its bytes (the findings show what happens
  then, and for longer requests to the heap).
\<close>

theorem pbuf_alloc_gives_chain:
  fixes n :: u16
  assumes ok: "mem_ok s" and off: "pbuf_offset layer = Some off"
    and type: "type = PBUF_RAM \<and> unat n \<le> 65460 \<or>
      type = PBUF_POOL \<and> (\<forall>x\<in>set (free_elements s MEMP_PBUF_POOL). p_flags s x AND PBUF_FLAG_IS_CUSTOM = 0)"
  shows "\<exists>p s'. pbuf_alloc custom layer n type s = Some (p, s') \<and> mem_ok s' \<and>
    (\<forall>(y, k)\<in>lent s. \<forall>a\<in>area y k. mem_bytes s' a = mem_bytes s a) \<and>
    (if p = 0 then lent s' = lent s
     else \<exists>ps new. pchain s' p ps \<and> tot_ok s' ps \<and> clear s' ps \<and> length (contents s' ps) = unat n \<and>
       (\<forall>x\<in>set ps. \<exists>l. own_pbuf s' x l) \<and> p + 16 + off \<le> p_payload s' p \<and>
       lent s' = lent s \<union> new \<and> fst ` new = set ps \<and> fst ` new \<inter> fst ` lent s = {} \<and>
       (\<exists>s''. pbuf_free custom p s' = Some (word_of_nat (length ps), s'') \<and> mem_ok s'' \<and> lent s'' = lent s))"
proof -
  obtain p s' where r: "pbuf_alloc custom layer n type s = Some (p, s')" "mem_ok s'"
    "\<forall>(y, k)\<in>lent s. \<forall>a\<in>area y k. mem_bytes s' a = mem_bytes s a"
    "if p = 0 then lent s' = lent s
     else \<exists>ps new. pchain s' p ps \<and> tot_ok s' ps \<and> clear s' ps \<and> length (contents s' ps) = unat n \<and>
       (\<forall>x\<in>set ps. \<exists>l. own_pbuf s' x l) \<and> p + 16 + off \<le> p_payload s' p \<and>
       lent s' = lent s \<union> new \<and> fst ` new = set ps \<and> fst ` new \<inter> fst ` lent s = {}"
    using pbuf_alloc_result[OF assms, of custom] by blast
  show ?thesis
  proof (cases "p = 0")
    case True
    then show ?thesis using r by (intro exI[of _ p] exI[of _ s']) simp
  next
    case p: False
    obtain ps new where c: "pchain s' p ps" "tot_ok s' ps" "clear s' ps" "length (contents s' ps) = unat n"
      "\<forall>x\<in>set ps. \<exists>l. own_pbuf s' x l" "p + 16 + off \<le> p_payload s' p" "lent s' = lent s \<union> new" "fst ` new = set ps"
      "fst ` new \<inter> fst ` lent s = {}" using r(4) p by auto
    obtain s'' where f: "pbuf_free custom p s' = Some (word_of_nat (length ps), s'')" "mem_ok s''"
      "lent s'' = {(x, l) \<in> lent s'. x \<notin> set ps}"
      using pbuf_freed[of s' p ps "[]" custom] r(2) c(1,5) clearD(1)[OF c(3)] own_pbufD(1,2) by fastforce
    have "{(x, l) \<in> lent s'. x \<notin> set ps} = lent s"
    proof -
      have "x \<in> set ps" if "(x, l) \<in> new" for x l using that c(8) by force
      moreover have "x \<notin> set ps" if "(x, l) \<in> lent s" for x l using that c(8,9) by force
      ultimately show ?thesis unfolding c(7) by auto
    qed
    then have f3: "lent s'' = lent s" using f(3) by simp
    have "\<exists>s''. pbuf_free custom p s' = Some (word_of_nat (length ps), s'') \<and> mem_ok s'' \<and> lent s'' = lent s"
      using f(1,2) f3 by blast
    then show ?thesis
      by (intro exI[of _ p] exI[of _ s'], unfold if_not_P[OF p], intro conjI exI[of _ ps] exI[of _ new])
        (rule r(1-3) c | assumption)+
  qed
qed

text \<open>
  C39: pbuf_free gives back exactly the pbufs at the head of the chain that lose their
  last reference, takes one reference from the next one, answers their number and
  changes nothing else that is in use.
\<close>

theorem pbuf_free_gives_back:
  assumes ok: "mem_ok s" and ch: "pchain s p (fs @ rs)" "distinct (fs @ rs)"
    and ar: "\<forall>x\<in>set (fs @ rs). \<exists>l. pbuf_area s x l"
    and ref: "\<forall>x\<in>set fs. p_ref s x = 1" "rs \<noteq> [] \<Longrightarrow> p_ref s (hd rs) \<noteq> 1"
  shows "\<exists>s'. pbuf_free custom p s = Some (word_of_nat (length fs), s') \<and> mem_ok s' \<and>
    lent s' = {(x, l) \<in> lent s. x \<notin> set fs} \<and>
    (rs \<noteq> [] \<longrightarrow> p_ref s' (hd rs) = p_ref s (hd rs) - 1) \<and>
    (\<forall>(q, k) \<in> lent s'. \<forall>a \<in> area q k. (rs \<noteq> [] \<longrightarrow> a \<noteq> hd rs + 14 \<and> a \<noteq> hd rs + 15) \<longrightarrow>
       mem_bytes s' a = mem_bytes s a)"
  by (rule pbuf_freed[OF assms])

text \<open>A length near the end of the 16 bits: the request for the heap wraps around to the size of the
  headers, and the pbuf is set up with the whole length.\<close>

lemma pbuf_ram_wraps:
  fixes n :: u16
  assumes off: "pbuf_offset layer = Some off" and n: "65532 < unat n"
    and m: "heap_malloc (word_of_nat (LWIP_MEM_ALIGN (16 + off))) s = Some (p, s1)" "p \<noteq> 0"
  shows "\<exists>s'. pbuf_alloc custom layer n PBUF_RAM s = Some (p, s') \<and> p_len s' p = n"
proof -
  define A where "A = LWIP_MEM_ALIGN_SIZE (word_of_nat (SIZEOF_STRUCT_PBUF + off))"
  have A: "unat A = LWIP_MEM_ALIGN (16 + off)" by (simp add: A_def LWIP_MEM_ALIGN_def SIZEOF_STRUCT_PBUF_def)
  have u: "unat (ucast n :: u32) = unat n"
    unfolding unsigned_ucast_eq by (intro take_bit_nat_eq_self) (rule less_trans[OF unat16_less], simp)
  have "unat (LWIP_MEM_ALIGN_SIZE (ucast n)) = (unat n + 3) div 4 * 4"
    using unat_align_size[of "ucast n"] less_trans[OF add_strict_right_mono[OF unat16_less[of n], of 3], of "2 ^ 32"] by (simp only: u) simp
  also have "\<dots> = 65536"
  proof -
    have "unat n = 65533 \<or> unat n = 65534 \<or> unat n = 65535" using n unat16_less[of n] by linarith
    then show ?thesis by auto
  qed
  finally have B: "LWIP_MEM_ALIGN_SIZE (ucast n) = 65536" by (simp add: word_unat_eq_iff)
  have "ucast (A + 65536) = (ucast A :: u16)" by (simp add: word_unat_eq_iff unsigned_ucast_eq unat_word_ariths take_bit_eq_mod mod_mod_cancel)
  also have "\<dots> = word_of_nat (LWIP_MEM_ALIGN (16 + off))" by (simp add: A[symmetric])
  finally have R: "ucast (LWIP_MEM_ALIGN_SIZE (word_of_nat (SIZEOF_STRUCT_PBUF + off)) + LWIP_MEM_ALIGN_SIZE (ucast n)) =
    (word_of_nat (LWIP_MEM_ALIGN (16 + off)) :: u16)" by (simp only: A_def B)
  define t where "t = set_p_type PBUF_RAM p (set_p_next 0 p (set_p_len n p (set_p_tot_len n p
    (set_p_payload (LWIP_MEM_ALIGN (p + SIZEOF_STRUCT_PBUF + off)) p s1))))"
  have al: "alloc_ram off n s = Some (p, t)" unfolding alloc_ram_def R m(1) using m(2) by (simp add: t_def)
  have "p_len t p = n" by (simp add: t_def pfield)
  then show ?thesis
    using off m(2) by (simp add: pbuf_alloc_def al PBUF_RAM_def PBUF_POOL_def Let_def pfield)
qed

section \<open>Witnesses\<close>

definition pbuf_mem :: lwip_mem where
  "pbuf_mem = (let s = mem0\<lparr>memp_pools := [(1, 8), (1, 8), (1, 8), (1, 8), (1, 8), (1, 8), (1, 8), (1, 16), (2, 1532)]\<rparr>
     in memp_init (s\<lparr>heap := mem_init (heap s)\<rparr>))"

lemma pbuf_mem:
  "mem_ok pbuf_mem" "lent pbuf_mem = {}" "memp_pools pbuf_mem = [(1, 8), (1, 8), (1, 8), (1, 8), (1, 8), (1, 8), (1, 8), (1, 16), (2, 1532)]"
  "memp_memory pbuf_mem = 8000"
proof -
  define s where "s = mem0\<lparr>memp_pools := [(1, 8), (1, 8), (1, 8), (1, 8), (1, 8), (1, 8), (1, 8), (1, 16), (2, 1532)]\<rparr>"
  have s: "pbuf_mem = memp_init (s\<lparr>heap := mem_init (heap s)\<rparr>)" by (simp add: pbuf_mem_def s_def)
  have pre: "8 \<le> ram (heap s)" "4 dvd ram (heap s)" "pools_fit s" "regions_apart s" "mf s = 0"
    by (simp_all add: s_def mem0_def pools_fit_def pool_end_def regions_apart_def ram_end_def MEM_SIZE_ALIGNED_def
        SIZEOF_STRUCT_MEM_def)
  note f = fresh_memory[OF pre, folded s]
  show "memp_pools pbuf_mem = [(1, 8), (1, 8), (1, 8), (1, 8), (1, 8), (1, 8), (1, 8), (1, 16), (2, 1532)]" "memp_memory pbuf_mem = 8000" "lent pbuf_mem = {}"
    using f(3,4,7) by (simp_all add: s_def mem0_def)
  then show "mem_ok pbuf_mem"
    using f(5,6) by (simp add: mem_ok_def pool_size_def MEMP_PBUF_def MEMP_PBUF_POOL_def SIZEOF_STRUCT_PBUF_def
        PBUF_POOL_BUFSIZE_ALIGNED_def s_def mem0_def ram_end_def MEM_SIZE_ALIGNED_def SIZEOF_STRUCT_MEM_def)
qed

lemma pbuf_mem_flags: "p_flags pbuf_mem 8072 = 0" "p_flags pbuf_mem 9604 = 0"
  by (simp_all add: p_flags_def pbuf_mem_def memp_init_def mem0_def set_bytes_def mem_bytes_def mem_init_def Let_def numeral_2_eq_2
      store_ptr_def store16_def set_prev_def set_next_def set_used_def ram_end_def MEM_SIZE_ALIGNED_def split: prod.splits)

lemma pbuf_mem_elements: "elements pbuf_mem MEMP_PBUF_POOL = [8072, 9604]"
  by (simp add: elements_def pbuf_mem pool_start_def pool_num_def pool_size_def MEMP_PBUF_POOL_def upt_rec)

lemma pbuf_mem_unflagged: "\<forall>x\<in>set (free_elements pbuf_mem MEMP_PBUF_POOL). p_flags pbuf_mem x AND PBUF_FLAG_IS_CUSTOM = 0"
proof -
  have "set (free_elements pbuf_mem MEMP_PBUF_POOL) \<subseteq> set (elements pbuf_mem MEMP_PBUF_POOL)"
    using mem_okD(2,5)[OF pbuf_mem(1)] by (simp add: pools_ok_def pool_ok_def)
  then show ?thesis using pbuf_mem_flags by (auto simp: pbuf_mem_elements)
qed

lemma pbuf_mem_first: "fst (memp_malloc MEMP_PBUF_POOL pbuf_mem) = 9604"
  by (simp add: memp_malloc_def MEMP_PBUF_POOL_def MEMP_TCP_PCB_def pbuf_mem_def memp_init_def mem0_def set_bytes_def
      numeral_2_eq_2 split: prod.splits)

lemma pbuf_mem_alloc: "\<exists>s'. pbuf_alloc custom PBUF_RAW 3 PBUF_POOL pbuf_mem = Some (9604, s')"
proof -
  obtain s1 where m: "memp_malloc MEMP_PBUF_POOL pbuf_mem = (9604, s1)"
    using pbuf_mem_first by (cases "memp_malloc MEMP_PBUF_POOL pbuf_mem") simp
  have "alloc_tail custom p r 0 s = Some (True, s)" for p r s by (subst alloc_tail.simps) simp
  moreover have "min 3 (word_of_nat (1516 - LWIP_MEM_ALIGN 0)) = (3 :: u16)" by (simp add: mem_align min_def)
  ultimately have "\<exists>s'. alloc_pool custom 0 3 pbuf_mem = Some (9604, s')"
    by (simp add: alloc_pool_def m Let_def pfield PBUF_POOL_BUFSIZE_ALIGNED_def)
  then show ?thesis
    by (auto simp: pbuf_alloc_def pbuf_offset_def PBUF_TRANSPORT_def PBUF_IP_def PBUF_LINK_def PBUF_RAW_def)
qed

theorem pbuf_alloc_gives_chain_witness:
  "\<exists>s' ps. pbuf_alloc (\<lambda>_ _. None) PBUF_RAW 3 PBUF_POOL pbuf_mem = Some (9604, s') \<and> pchain s' 9604 ps \<and>
    length (contents s' ps) = 3 \<and> fst ` lent s' = set ps"
proof -
  have off: "pbuf_offset PBUF_RAW = Some 0"
    by (simp add: pbuf_offset_def PBUF_TRANSPORT_def PBUF_IP_def PBUF_LINK_def PBUF_RAW_def)
  obtain t where t: "pbuf_alloc (\<lambda>_ _. None) PBUF_RAW 3 PBUF_POOL pbuf_mem = Some (9604, t)" using pbuf_mem_alloc by blast
  have "PBUF_POOL = PBUF_RAM \<and> unat (3 :: u16) \<le> 65460 \<or> PBUF_POOL = PBUF_POOL \<and>
      (\<forall>x\<in>set (free_elements pbuf_mem MEMP_PBUF_POOL). p_flags pbuf_mem x AND PBUF_FLAG_IS_CUSTOM = 0)"
    using pbuf_mem_unflagged by simp
  from pbuf_alloc_gives_chain[OF pbuf_mem(1) off this, of "\<lambda>_ _. None", unfolded t option.inject prod.inject pbuf_mem(2)]
  obtain ps new where "pchain t 9604 ps" "length (contents t ps) = unat (3 :: u16)" "lent t = {} \<union> new" "fst ` new = set ps"
    by auto
  then show ?thesis using t by auto
qed

theorem pbuf_free_gives_back_witness:
  "\<exists>s s'. fst ` lent s = {9604} \<and> pbuf_free (\<lambda>_ _. None) 9604 s = Some (1, s') \<and> lent s' = {}"
proof -
  obtain s1 where m: "memp_malloc MEMP_PBUF_POOL pbuf_mem = (9604, s1)"
    using pbuf_mem_first by (cases "memp_malloc MEMP_PBUF_POOL pbuf_mem") simp
  note g = grant_element[OF pbuf_mem(1) m, unfolded mem_okD(8)[OF pbuf_mem(1)] pbuf_mem(2), simplified]
  have "(9604, 1532) \<in> pool_handed s1" "p_flags s1 9604 AND PBUF_FLAG_IS_CUSTOM = 0"
    using g(3,6) pbuf_mem_flags by (simp_all add: p_flags_def)
  from head_set_up[OF g(1) this(1) g(9) this(2), of 0 3] obtain s where
    s: "mem_ok s" "lent s = {(9604, 1532)}" "own_pbuf s 9604 1532" "pchain s 9604 [9604]"
    using g(4) by simp
  then show ?thesis
    using pbuf_free_gives_back[of s 9604 "[9604]" "[]" "\<lambda>_ _. None"] own_pbufD(1,2)[OF s(3)] by fastforce
qed

end
