(* ===== verification/Chksum.thy ===== *)
theory Chksum
  imports Prelude
begin

text \<open>
  The Internet checksum of lwIP (\<open>core/ipv4/inet_chksum.c\<close>), which every packet of
  the program carries.  The file has three versions of the summing loop: version 2 is
  the one compiled here (no \<open>LWIP_CHKSUM_ALGORITHM\<close> is set), version 1 goes byte by
  byte, version 3 adds 32 bits at a time.  The model follows each of them, with the
  address of the data, whose parity the loops depend on, and with the wrap-around of
  the 32-bit sums; the reference is the ones' complement sum of RFC 1071 on numbers.
  The chip is little-endian.
\<close>

section \<open>The summing loops\<close>

definition FOLD_U32T :: "u32 \<Rightarrow> u32" where
  "FOLD_U32T u = drop_bit 16 u + (u AND 0xFFFF)"

definition SWAP_BYTES_IN_WORD :: "u32 \<Rightarrow> u32" where
  "SWAP_BYTES_IN_WORD w = push_bit 8 (w AND 0xFF) OR drop_bit 8 (w AND 0xFF00)"

definition lwip_htons :: "u16 \<Rightarrow> u16" where
  "lwip_htons n = push_bit 8 (n AND 0xFF) OR drop_bit 8 (n AND 0xFF00)"

text \<open>The loop over 16-bit words, \<open>sum += *ps++\<close> while more than one byte is left; the
  result is the sum and what is left.\<close>

fun add_words :: "u32 \<Rightarrow> bytes \<Rightarrow> u32 \<times> bytes" where
  "add_words s (a # b # d) = add_words (s + ucast (mk16 b a)) d"
| "add_words s d = (s, d)"

text \<open>The end bytes, collected in \<open>t\<close>: the first byte of data at an odd address, and the
  byte left over at the end.\<close>

definition head_byte :: "nat \<Rightarrow> bytes \<Rightarrow> u16 \<times> bytes" where
  "head_byte addr d =
     (if odd addr \<and> d \<noteq> [] then (mk16 (hd d) 0, tl d) else (0, d))"

definition tail_byte :: "u16 \<Rightarrow> bytes \<Rightarrow> u16" where
  "tail_byte t d = (if d \<noteq> [] then mk16 (hi8 t) (hd d) else t)"

definition lwip_standard_chksum :: "nat \<Rightarrow> bytes \<Rightarrow> u16" where
  "lwip_standard_chksum addr d =
     (let (t, d) = head_byte addr d;
          (s, d) = add_words 0 d;
          t = tail_byte t d;
          s = FOLD_U32T (FOLD_U32T (s + ucast t));
          s = (if odd addr then SWAP_BYTES_IN_WORD s else s)
      in ucast s)"

text \<open>Version 1: big-endian words, one byte at a time.\<close>

fun add_octets :: "u32 \<Rightarrow> bytes \<Rightarrow> u32 \<times> bytes" where
  "add_octets acc (a # b # d) = add_octets (acc + ucast (mk16 a b)) d"
| "add_octets acc d = (acc, d)"

definition lwip_standard_chksum1 :: "bytes \<Rightarrow> u16" where
  "lwip_standard_chksum1 d =
     (let (acc, d) = add_octets 0 d;
          acc = (if d \<noteq> [] then acc + ucast (mk16 (hd d) 0) else acc);
          acc = drop_bit 16 acc + (acc AND 0xFFFF);
          acc = (if acc AND 0xFFFF0000 \<noteq> 0 then drop_bit 16 acc + (acc AND 0xFFFF) else acc)
      in lwip_htons (ucast acc))"

text \<open>Version 3: eight bytes at a time as two 32-bit words, the carry added back.\<close>

definition load32 :: "u8 \<Rightarrow> u8 \<Rightarrow> u8 \<Rightarrow> u8 \<Rightarrow> u32" where
  "load32 a b c d = push_bit 16 (ucast (mk16 d c)) OR ucast (mk16 b a)"

definition add_carry :: "u32 \<Rightarrow> u32 \<Rightarrow> u32" where
  "add_carry s x = (let tmp = s + x in if tmp < s then tmp + 1 else tmp)"

fun add_longs :: "u32 \<Rightarrow> bytes \<Rightarrow> u32 \<times> bytes" where
  "add_longs s (a # b # c # d # e # f # g # h # r) =
     add_longs (add_carry (add_carry s (load32 a b c d)) (load32 e f g h)) r"
| "add_longs s r = (s, r)"

text \<open>The word before the 32-bit words when the address is not a multiple of four.\<close>

fun align_word :: "nat \<Rightarrow> u32 \<Rightarrow> bytes \<Rightarrow> u32 \<times> bytes" where
  "align_word addr s (a # b # d) =
     (if addr mod 4 \<noteq> 0 then (s + ucast (mk16 b a), d) else (s, a # b # d))"
| "align_word addr s d = (s, d)"

definition lwip_standard_chksum3 :: "nat \<Rightarrow> bytes \<Rightarrow> u16" where
  "lwip_standard_chksum3 addr d =
     (let (t, d1) = head_byte addr d;
          ps = (if odd addr \<and> d \<noteq> [] then addr + 1 else addr);
          (s, d2) = align_word ps 0 d1;
          (s, d3) = add_longs s d2;
          (s, d4) = add_words (FOLD_U32T s) d3;
          t = tail_byte t d4;
          s = FOLD_U32T (FOLD_U32T (s + ucast t));
          s = (if odd addr then SWAP_BYTES_IN_WORD s else s)
      in ucast s)"

section \<open>The reference: ones' complement sums\<close>

text \<open>The sum of the 16-bit words of the data, the first byte the less or the more
  significant one of its word, and its residue: 0 for 0 only, else 1 to 65535.\<close>

fun le_sum :: "bytes \<Rightarrow> nat" and be_sum :: "bytes \<Rightarrow> nat" where
  "le_sum [] = 0"
| "le_sum (a # d) = unat a + be_sum d"
| "be_sum [] = 0"
| "be_sum (a # d) = 256 * unat a + le_sum d"

definition ones :: "nat \<Rightarrow> nat" where
  "ones n = (if n = 0 then 0 else (n - 1) mod 65535 + 1)"

text \<open>Two numbers with the same ones' complement value.\<close>

definition same :: "nat \<Rightarrow> nat \<Rightarrow> bool" where
  "same m n \<longleftrightarrow> (m = 0 \<longleftrightarrow> n = 0) \<and> m mod 65535 = n mod 65535"

lemma ones_pos: "0 < n \<Longrightarrow> ones n = (if n mod 65535 = 0 then 65535 else n mod 65535)"
proof -
  assume n: "0 < n"
  define q r where "q = n div 65535" and "r = n mod 65535"
  have n': "n = 65535 * q + r" and r: "r < 65535" by (simp_all add: q_def r_def)
  show ?thesis
  proof (cases "r = 0")
    case True
    then obtain k where "q = Suc k" using n n' by (cases q) auto
    then have "n - 1 = 65535 * k + 65534" using n' True by simp
    then have "(n - 1) mod 65535 = 65534" by simp
    then show ?thesis using n True by (simp add: ones_def r_def)
  next
    case False
    then have "n - 1 = 65535 * q + (r - 1)" using n' by simp
    then have "(n - 1) mod 65535 = r - 1" using r by simp
    then show ?thesis using n False by (simp add: ones_def r_def)
  qed
qed

lemma ones_same: "ones m = ones n \<longleftrightarrow> same m n"
  using ones_pos[of m] ones_pos[of n] mod_less_divisor[of 65535 m] mod_less_divisor[of 65535 n]
  by (cases "m = 0"; cases "n = 0") (auto simp: same_def ones_def[of 0] split: if_splits)

lemma ones_small: "n \<le> 65535 \<Longrightarrow> ones n = n"
  by (auto simp: ones_def)

lemma ones_le: "ones n \<le> 65535"
  by (auto simp: ones_def Suc_le_eq)

lemma ones_0 [simp]: "ones 0 = 0"
  by (simp add: ones_def)

lemma same_refl [simp]: "same n n"
  by (simp add: same_def)

lemma same_sym: "same m n \<Longrightarrow> same n m"
  by (auto simp: same_def)

lemma same_trans [trans]: "same l m \<Longrightarrow> same m n \<Longrightarrow> same l n"
  by (auto simp: same_def)

lemma same_add: "same a b \<Longrightarrow> same c d \<Longrightarrow> same (a + c) (b + d)"
  by (auto simp: same_def intro: mod_add_cong)

lemma same_mult: "same a b \<Longrightarrow> 0 < k \<Longrightarrow> same (k * a) (k * b)"
  by (auto simp: same_def intro: mod_mult_cong)

lemma same_shift: "same (65536 * n) n"
proof -
  have "65536 * n = n + 65535 * n" by simp
  then have "65536 * n mod 65535 = n mod 65535" by (simp only: mod_mult_self2)
  then show ?thesis by (simp add: same_def)
qed

lemma same_ones: "same (ones n) n"
proof -
  have "ones (ones n) = ones n" by (rule ones_small[OF ones_le])
  then show ?thesis by (simp only: ones_same)
qed

text \<open>Moving the data by one byte multiplies its value by 256.\<close>

lemma be_le: "same (be_sum d) (256 * le_sum d)" "same (le_sum d) (256 * be_sum d)"
proof (induction d)
  case (Cons a d)
  have "same (256 * unat a + le_sum d) (256 * unat a + 256 * be_sum d)"
    by (rule same_add[OF same_refl Cons(2)])
  then show "same (be_sum (a # d)) (256 * le_sum (a # d))" by (simp add: distrib_left)
  have "same (unat a + be_sum d) (65536 * unat a + 256 * le_sum d)"
    by (rule same_add[OF same_sym[OF same_shift] Cons(1)])
  then show "same (le_sum (a # d)) (256 * be_sum (a # d))" by (simp add: distrib_left)
qed simp_all

lemma sums_append:
  "le_sum (xs @ ys) = le_sum xs + (if even (length xs) then le_sum ys else be_sum ys)"
  "be_sum (xs @ ys) = be_sum xs + (if even (length xs) then be_sum ys else le_sum ys)"
  by (induction xs) auto

lemma unat8_le: "unat (a :: u8) \<le> 255"
proof -
  have "unat a < Suc 255" by simp
  then show ?thesis by (simp only: less_Suc_eq_le)
qed

lemma unat16_le: "unat (w :: u16) \<le> 65535"
proof -
  have "unat w < Suc 65535" by simp
  then show ?thesis by (simp only: less_Suc_eq_le)
qed

lemma sum_bounds: "le_sum d \<le> (length d + 1) div 2 * 65535" "be_sum d \<le> (length d + 1) div 2 * 65535"
proof -
  note b = unat8_le
  have "le_sum d \<le> (length d + 1) div 2 * 65535 \<and> be_sum d \<le> (length d + 1) div 2 * 65535"
  proof (induction "length d" arbitrary: d rule: less_induct)
    case less
    show ?case
    proof (cases d)
      case (Cons a e)
      then show ?thesis
      proof (cases e)
        case Nil
        then show ?thesis using Cons b[of a] by simp
      next
        case (Cons c r)
        have "le_sum r \<le> (length r + 1) div 2 * 65535 \<and> be_sum r \<le> (length r + 1) div 2 * 65535"
          by (rule less) (simp add: \<open>d = a # e\<close> Cons)
        moreover have "(length d + 1) div 2 = (length r + 1) div 2 + 1"
          by (simp add: \<open>d = a # e\<close> Cons)
        ultimately show ?thesis using \<open>d = a # e\<close> Cons b[of a] b[of c] by simp
      qed
    qed simp
  qed
  then show "le_sum d \<le> (length d + 1) div 2 * 65535" "be_sum d \<le> (length d + 1) div 2 * 65535"
    by simp_all
qed

section \<open>The words of the loops as numbers\<close>

lemma unat_FOLD: "unat (FOLD_U32T u) = unat u div 65536 + unat u mod 65536"
proof -
  have m: "(0xFFFF :: u32) = mask 16" by (simp add: mask_eq_exp_minus_1)
  have hi: "unat (drop_bit 16 u) = unat u div 65536" by (simp only: unat_drop_bit_eq) (simp add: drop_bit_eq_div)
  have lo: "unat (u AND 0xFFFF) = unat u mod 65536"
    unfolding m take_bit_eq_mask[symmetric] by (simp only: unsigned_take_bit_eq) (simp add: take_bit_eq_mod)
  have "unat u < 65536 * 65536" using unsigned_less[where ?'b = 32 and ?'a = nat, of u] by simp
  then have "unat u div 65536 < 65536" by (rule less_mult_imp_div_less)
  moreover have "unat u mod 65536 < 65536" by simp
  ultimately have "unat (drop_bit 16 u) + unat (u AND 0xFFFF) < 2 ^ LENGTH(32)" by (simp add: hi lo)
  then show ?thesis by (simp only: FOLD_U32T_def unat_add_lem[THEN iffD1] hi lo)
qed

lemma fold_same: "same (k div 65536 + k mod 65536) k"
proof -
  have "same (65536 * (k div 65536) + k mod 65536) (k div 65536 + k mod 65536)"
    by (rule same_add[OF same_shift same_refl])
  then show ?thesis by (simp only: mult_div_mod_eq same_sym)
qed

lemma fold_twice:
  assumes "unat u = n"
  shows "unat (FOLD_U32T (FOLD_U32T u)) = ones n"
proof -
  define f where "f = unat (FOLD_U32T u)"
  have n: "n < 65536 * 65536" using unsigned_less[where ?'b = 32 and ?'a = nat, of u] assms by simp
  have f: "f = n div 65536 + n mod 65536" by (simp add: f_def unat_FOLD assms)
  have "n div 65536 \<le> 65535" using less_mult_imp_div_less[OF n] by simp
  then have "f \<le> 131070" using f mod_less_divisor[of 65536 n] by linarith
  then have "f div 65536 + f mod 65536 \<le> 65535"
  proof (cases "f < 65536")
    case False
    then obtain r where r: "f = 65536 + r" using le_Suc_ex[of 65536 f] by auto
    then show ?thesis using \<open>f \<le> 131070\<close> by simp
  qed simp
  then have "ones (f div 65536 + f mod 65536) = f div 65536 + f mod 65536" by (rule ones_small)
  moreover have "same (f div 65536 + f mod 65536) n"
    using same_trans[OF fold_same fold_same[of n, folded f]] .
  ultimately show ?thesis unfolding unat_FOLD[of "FOLD_U32T u"] f_def[symmetric] using ones_same by metis
qed

lemma byte_masks:
  "(0xFF00 :: u32) = push_bit 8 (mask 8)" "(0xFF :: u32) = mask 8"
  "(0xFF00 :: u16) = push_bit 8 (mask 8)" "(0xFF :: u16) = mask 8"
  by (simp_all add: mask_eq_exp_minus_1 push_bit_eq_mult)

lemma SWAP_mk16: "SWAP_BYTES_IN_WORD u = ucast (mk16 (ucast u) (ucast (drop_bit 8 u)))"
  unfolding SWAP_BYTES_IN_WORD_def byte_masks
  by (rule bit_word_eqI) (auto simp: mk16_def bit_simps)

lemma htons_mk16: "lwip_htons n = mk16 (lo8 n) (hi8 n)"
  unfolding lwip_htons_def lo8_def byte_masks
  by (rule bit_word_eqI) (auto simp: mk16_def hi8_def bit_simps)

lemma unat_SWAP:
  assumes "unat u \<le> 65535"
  shows "unat (SWAP_BYTES_IN_WORD u) = 256 * (unat u mod 256) + unat u div 256"
proof -
  have lo: "unat (ucast u :: u8) = unat u mod 256"
    by (simp only: unsigned_ucast_eq) (simp add: take_bit_eq_mod)
  have d: "unat (drop_bit 8 u) = unat u div 256"
    by (simp only: unat_drop_bit_eq) (simp add: drop_bit_eq_div)
  have "unat u div 256 < 256" using div_le_mono[OF assms, of 256] by simp
  then have hi: "unat (ucast (drop_bit 8 u) :: u8) = unat u div 256"
    by (simp only: unsigned_ucast_eq d) (simp add: take_bit_eq_mod)
  have "unat (ucast (mk16 (ucast u) (ucast (drop_bit 8 u))) :: u32) = unat (mk16 (ucast u) (ucast (drop_bit 8 u)))"
    by (simp only: unsigned_ucast_eq) (rule take_bit_nat_eq_self, rule less_le_trans[OF unsigned_less], simp)
  then show ?thesis by (simp only: SWAP_mk16 unat_mk16 lo hi)
qed

lemma swap_ones: "k \<le> 65535 \<Longrightarrow> 256 * (k mod 256) + k div 256 = ones (256 * k)"
proof -
  assume k: "k \<le> 65535"
  have "same (256 * (k mod 256) + 65536 * (k div 256)) (256 * (k mod 256) + k div 256)"
    by (rule same_add[OF same_refl same_shift])
  moreover have "256 * (k mod 256) + 65536 * (k div 256) = 256 * k"
    using mult_div_mod_eq[of 256 k] by linarith
  ultimately have "ones (256 * k) = ones (256 * (k mod 256) + k div 256)" by (simp only: ones_same same_sym)
  moreover have "256 * (k mod 256) + k div 256 \<le> 65535"
    using k mod_less_divisor[of 256 k] div_le_mono[of k 65535 256] by simp
  ultimately show ?thesis using ones_small by simp
qed

section \<open>Each version computes the ones' complement sum\<close>

lemma unat_ucast32: "unat (ucast (w :: u16) :: u32) = unat w"
  by (simp only: unsigned_ucast_eq) (rule take_bit_nat_eq_self, rule less_le_trans[OF unsigned_less], simp)

lemma unat_ucast16: "unat (u :: u32) \<le> 65535 \<Longrightarrow> unat (ucast u :: u16) = unat u"
  by (simp only: unsigned_ucast_eq) (rule take_bit_nat_eq_self, simp)

lemma unat_plus32: "unat (a :: u32) + unat b < 2 ^ 32 \<Longrightarrow> unat (a + b) = unat a + unat b"
  using unat_add_lem[of a b] by simp

lemma add_words_sum:
  "unat s + le_sum d < 2 ^ 32 \<Longrightarrow> add_words s d = (s', r) \<Longrightarrow>
    unat s' + le_sum r = unat s + le_sum d \<and> length r \<le> 1"
proof (induction s d rule: add_words.induct)
  case (1 s a b d)
  have w: "unat (ucast (mk16 b a) :: u32) = 256 * unat b + unat a" by (simp only: unat_ucast32 unat_mk16)
  have "unat (s + ucast (mk16 b a)) = unat s + (256 * unat b + unat a)"
    using 1(2) unat_plus32[of s "ucast (mk16 b a)"] by (simp add: w)
  then show ?case using 1 by simp
qed auto

lemma add_octets_sum:
  "unat s + be_sum d < 2 ^ 32 \<Longrightarrow> add_octets s d = (s', r) \<Longrightarrow>
    unat s' + be_sum r = unat s + be_sum d \<and> length r \<le> 1"
proof (induction s d rule: add_octets.induct)
  case (1 s a b d)
  have w: "unat (ucast (mk16 a b) :: u32) = 256 * unat a + unat b" by (simp only: unat_ucast32 unat_mk16)
  have "unat (s + ucast (mk16 a b)) = unat s + (256 * unat a + unat b)"
    using 1(2) unat_plus32[of s "ucast (mk16 a b)"] by (simp add: w)
  then show ?case using 1 by simp
qed auto

lemma short_list: "length r \<le> 1 \<Longrightarrow> r = [] \<or> (\<exists>a. r = [a])"
  by (cases r) auto

lemma tail_byte_sum:
  assumes "length r \<le> 1" "lo8 t = 0"
  shows "unat (tail_byte t r) = unat t + le_sum r"
proof -
  have "unat t = 256 * unat (hi8 t)" by (metis unat_mk16 mk16_hi_lo assms(2) unat_0 add_0_right)
  then show ?thesis using short_list[OF assms(1)] by (auto simp: tail_byte_def unat_mk16)
qed

lemma head_byte_sum:
  assumes "head_byte addr d = (t, r)"
  shows "lo8 t = 0" "unat t + le_sum r = (if odd addr then be_sum d else le_sum d)"
proof -
  have z: "lo8 0 = 0" by (simp add: lo8_def)
  show "lo8 t = 0" using assms z by (auto simp: head_byte_def split: if_splits)
  show "unat t + le_sum r = (if odd addr then be_sum d else le_sum d)"
    using assms by (cases d) (auto simp: head_byte_def unat_mk16 split: if_splits)
qed

lemma total_bound:
  assumes "length d \<le> 131072"
  shows "le_sum d \<le> 4294901760" "be_sum d \<le> 4294901760"
proof -
  have "(length d + 1) div 2 \<le> 65536" using assms by simp
  then have "(length d + 1) div 2 * 65535 \<le> 65536 * 65535" by (rule mult_right_mono) simp
  then show "le_sum d \<le> 4294901760" "be_sum d \<le> 4294901760" using sum_bounds[of d] by simp_all
qed

lemma ones_cong: "same m n \<Longrightarrow> ones m = ones n"
  by (simp add: ones_same)

text \<open>The last step of versions 2 and 3: two folds, and the swap when the address was odd.\<close>

lemma finish_sum:
  assumes "same (unat s) (if odd addr then be_sum d else le_sum d)"
  shows "unat (ucast (let s = FOLD_U32T (FOLD_U32T s) in if odd addr then SWAP_BYTES_IN_WORD s else s) :: u16)
    = ones (le_sum d)"
proof -
  define f where "f = FOLD_U32T (FOLD_U32T s)"
  have f: "unat f = ones (if odd addr then be_sum d else le_sum d)"
    unfolding f_def using fold_twice[OF refl] ones_cong[OF assms] by simp
  have le: "unat f \<le> 65535" by (simp only: f ones_le)
  show ?thesis
  proof (cases "odd addr")
    case True
    have "unat (SWAP_BYTES_IN_WORD f) = ones (256 * ones (be_sum d))"
      using unat_SWAP[OF le] swap_ones[OF le] True by (simp add: f)
    also have "\<dots> = ones (le_sum d)"
      by (rule ones_cong, rule same_trans[OF same_mult[OF same_ones] same_sym[OF be_le(2)]]) simp
    finally have s: "unat (SWAP_BYTES_IN_WORD f) = ones (le_sum d)" .
    then have "unat (ucast (SWAP_BYTES_IN_WORD f) :: u16) = ones (le_sum d)"
      using unat_ucast16[of "SWAP_BYTES_IN_WORD f"] ones_le[of "le_sum d"] by simp
    then show ?thesis using True by (simp add: f_def)
  next
    case False
    then show ?thesis using unat_ucast16[OF le] f by (simp add: f_def)
  qed
qed

lemma standard_chksum_sum:
  assumes "length d \<le> 131072"
  shows "unat (lwip_standard_chksum addr d) = ones (le_sum d)"
proof -
  obtain t r where h: "head_byte addr d = (t, r)" by (cases "head_byte addr d")
  note hb = head_byte_sum[OF h]
  obtain s r' where w: "add_words 0 r = (s, r')" by (cases "add_words 0 r")
  have T: "unat t + le_sum r \<le> 4294901760" using hb(2) total_bound[OF assms] by simp
  then have ws: "unat s + le_sum r' = le_sum r" "length r' \<le> 1" using add_words_sum[OF _ w] by simp_all
  have tb: "unat (tail_byte t r') = unat t + le_sum r'" by (rule tail_byte_sum[OF ws(2) hb(1)])
  have "unat (s + ucast (tail_byte t r')) = unat s + unat (tail_byte t r')"
    using unat_plus32[of s "ucast (tail_byte t r')"] T ws tb by (simp add: unat_ucast32)
  then have "unat (s + ucast (tail_byte t r')) = (if odd addr then be_sum d else le_sum d)"
    using tb ws hb(2) by simp
  then have "same (unat (s + ucast (tail_byte t r'))) (if odd addr then be_sum d else le_sum d)" by simp
  from finish_sum[OF this] show ?thesis by (simp add: lwip_standard_chksum_def h w Let_def)
qed

lemma standard_chksum1_sum:
  assumes "length d \<le> 65535"
  shows "unat (lwip_standard_chksum1 d) = ones (le_sum d)"
proof -
  obtain s r where w: "add_octets 0 d = (s, r)" by (cases "add_octets 0 d")
  have T: "be_sum d \<le> 4294901760" using total_bound[of d] assms by simp
  then have ws: "unat s + be_sum r = be_sum d" "length r \<le> 1" using add_octets_sum[OF _ w] by simp_all
  define a where "a = (if r \<noteq> [] then s + ucast (mk16 (hd r) 0) else s)"
  have a: "unat a = be_sum d"
    using short_list[OF ws(2)] ws(1) T unat_plus32[of s "ucast (mk16 (hd r) 0)"]
    by (auto simp: a_def unat_ucast32 unat_mk16)
  define f where "f = FOLD_U32T a"
  have g: "(if f AND 0xFFFF0000 \<noteq> 0 then FOLD_U32T f else f) = FOLD_U32T f"
  proof -
    have m: "(0xFFFF0000 :: u32) = push_bit 16 (mask 16)" by (simp add: mask_eq_exp_minus_1 push_bit_eq_mult)
    have "FOLD_U32T f = f" if z: "f AND 0xFFFF0000 = 0"
    proof -
      have d: "drop_bit 16 f = 0"
      proof (rule bit_word_eqI)
        fix n assume "n < LENGTH(32)"
        have "\<not> bit (f AND 0xFFFF0000) (16 + n)" by (simp add: z)
        then show "bit (drop_bit 16 f) n \<longleftrightarrow> bit 0 n"
          unfolding m by (auto simp: bit_simps dest: bit_imp_le_length)
      qed
      then have "f AND 0xFFFF = f"
      proof -
        have "(0xFFFF :: u32) = mask 16" by (simp add: mask_eq_exp_minus_1)
        then have "f AND 0xFFFF = take_bit 16 f" by (simp only: take_bit_eq_mask)
        then show ?thesis using d bits_ident[of 16 f] by simp
      qed
      then show ?thesis by (simp add: FOLD_U32T_def d)
    qed
    then show ?thesis by simp
  qed
  have F: "unat (FOLD_U32T f) = ones (be_sum d)" unfolding f_def by (rule fold_twice[OF a])
  then have c: "unat (ucast (FOLD_U32T f) :: u16) = ones (be_sum d)" using unat_ucast16 ones_le by simp
  have sw: "unat (lwip_htons n) = 256 * (unat n mod 256) + unat n div 256" for n
  proof -
    have "unat n = 256 * unat (hi8 n) + unat (lo8 n)" by (metis unat_mk16 mk16_hi_lo)
    then show ?thesis using unat8_le[of "lo8 n"] by (simp add: htons_mk16 unat_mk16)
  qed
  have "unat (lwip_htons (ucast (FOLD_U32T f))) = ones (256 * ones (be_sum d))"
    unfolding sw c by (rule swap_ones[OF ones_le])
  also have "\<dots> = ones (le_sum d)"
    by (rule ones_cong, rule same_trans[OF same_mult[OF same_ones] same_sym[OF be_le(2)]]) simp
  finally have "unat (lwip_htons (ucast (FOLD_U32T f))) = ones (le_sum d)" .
  moreover have "lwip_standard_chksum1 d = lwip_htons (ucast (if f AND 0xFFFF0000 \<noteq> 0 then FOLD_U32T f else f))"
    by (simp add: lwip_standard_chksum1_def w Let_def a_def[symmetric] f_def FOLD_U32T_def[symmetric])
  ultimately show ?thesis by (simp only: g)
qed

lemma add_carry_same: "same (unat (add_carry s x)) (unat s + unat x)"
proof (cases "unat s + unat x < 2 ^ 32")
  case True
  then have "unat (s + x) = unat s + unat x" by (rule unat_plus32)
  then show ?thesis by (simp add: add_carry_def Let_def word_less_nat_alt)
next
  case False
  define n where "n = unat s + unat x - 2 ^ 32"
  have l: "unat s < 65536 * 65536" "unat x < 65536 * 65536"
    using unsigned_less[where ?'b = 32 and ?'a = nat, of s] unsigned_less[where ?'b = 32 and ?'a = nat, of x]
    by (simp_all only: len_num0 len_num1 len_of_numeral_defs) simp_all
  have n: "unat s + unat x = n + 2 ^ 32" using False by (simp add: n_def)
  have u: "unat (s + x) = n"
  proof -
    have "unat (s + x) = (n + 2 ^ 32) mod 2 ^ 32" by (simp only: unat_word_ariths(1) n) simp
    also have "\<dots> = n" using n l by simp
    finally show ?thesis .
  qed
  have "s + x < s" unfolding word_less_nat_alt u using n l(2) by simp
  moreover have "unat (s + x + 1) = n + 1"
    using unat_plus32[of "s + x" 1] n l by (simp add: u)
  moreover have "n + 2 ^ 32 = (n + 1) + 65537 * 65535" by simp
  then have "(n + 2 ^ 32) mod 65535 = (n + 1) mod 65535" by (metis mod_mult_self1)
  ultimately show ?thesis by (simp add: add_carry_def Let_def same_def n)
qed

lemma load32_same: "same (unat (load32 a b c d)) (le_sum [a, b, c, d])"
proof -
  have "load32 a b c d = push_bit 16 (ucast (mk16 d c)) + ucast (mk16 b a)"
    unfolding load32_def
    by (rule disjunctive_add[symmetric]) (auto simp: bit_simps dest: bit_imp_le_length)
  moreover have h: "unat (push_bit 16 (ucast (mk16 d c)) :: u32) = 65536 * unat (mk16 d c)"
  proof -
    have "65536 * unat (mk16 d c) < 2 ^ 32" using unat16_le[of "mk16 d c"] by simp
    then show ?thesis by (simp add: push_bit_eq_mult unat_word_ariths unat_ucast32 mult.commute)
  qed
  ultimately have "unat (load32 a b c d) = 65536 * unat (mk16 d c) + unat (mk16 b a)"
    using unat_plus32[of "push_bit 16 (ucast (mk16 d c))" "ucast (mk16 b a)"] unat16_le[of "mk16 d c"]
      unat16_le[of "mk16 b a"] by (simp add: unat_ucast32)
  then have "same (unat (load32 a b c d)) (unat (mk16 d c) + unat (mk16 b a))"
    using same_add[OF same_shift same_refl] by simp
  then show ?thesis by (simp add: unat_mk16 ac_simps)
qed

lemma add_longs_sum:
  "add_longs s d = (s', r) \<Longrightarrow> same (unat s' + le_sum r) (unat s + le_sum d) \<and> length r < 8"
proof (induction s d rule: add_longs.induct)
  case (1 s a b c d e f g h r0)
  let ?m = "add_carry s (load32 a b c d)" and ?n = "add_carry (add_carry s (load32 a b c d)) (load32 e f g h)"
  have "same (unat ?m) (unat s + le_sum [a, b, c, d])"
    by (rule same_trans[OF add_carry_same same_add[OF same_refl load32_same]])
  then have "same (unat ?n) (unat s + le_sum [a, b, c, d] + le_sum [e, f, g, h])"
    by (rule same_trans[OF same_trans[OF add_carry_same same_add[OF same_refl load32_same]] same_add[OF _ same_refl]])
  then have "same (unat ?n + le_sum r0) (unat s + le_sum [a, b, c, d] + le_sum [e, f, g, h] + le_sum r0)"
    by (rule same_add[OF _ same_refl])
  then have n: "same (unat ?n + le_sum r0) (unat s + le_sum (a # b # c # d # e # f # g # h # r0))"
    by (simp add: ac_simps)
  have "add_longs ?n r0 = (s', r)" using 1(2) by simp
  from 1(1)[OF this] show ?case using same_trans[OF _ n] by blast
qed auto

lemma align_word_sum: "align_word addr 0 d = (s, r) \<Longrightarrow> unat s + le_sum r = le_sum d"
  by (cases "(addr, 0 :: u32, d)" rule: align_word.cases)
    (auto simp: unat_ucast32 unat_mk16 split: if_splits)

lemma standard_chksum3_sum: "unat (lwip_standard_chksum3 addr d) = ones (le_sum d)"
proof -
  define ps where "ps = (if odd addr \<and> d \<noteq> [] then addr + 1 else addr)"
  obtain t d1 where h: "head_byte addr d = (t, d1)" by (cases "head_byte addr d")
  note hb = head_byte_sum[OF h]
  obtain s2 d2 where a: "align_word ps 0 d1 = (s2, d2)" by (cases "align_word ps 0 d1")
  obtain s3 d3 where l: "add_longs s2 d2 = (s3, d3)" by (cases "add_longs s2 d2")
  obtain s4 d4 where w: "add_words (FOLD_U32T s3) d3 = (s4, d4)" by (cases "add_words (FOLD_U32T s3) d3")
  have l3: "same (unat s3 + le_sum d3) (le_sum d1)" "length d3 < 8"
    using add_longs_sum[OF l] align_word_sum[OF a] by simp_all
  have f: "same (unat (FOLD_U32T s3)) (unat s3)" "unat (FOLD_U32T s3) \<le> 131070"
  proof -
    show "same (unat (FOLD_U32T s3)) (unat s3)" unfolding unat_FOLD by (rule fold_same)
    have "unat s3 < 65536 * 65536" using unsigned_less[where ?'b = 32 and ?'a = nat, of s3] by simp
    then have "unat s3 div 65536 \<le> 65535" using less_mult_imp_div_less[of "unat s3" 65536 65536] by simp
    then show "unat (FOLD_U32T s3) \<le> 131070"
      using mod_less_divisor[of 65536 "unat s3"] unfolding unat_FOLD by linarith
  qed
  have "(length d3 + 1) div 2 \<le> 4" using l3(2) by simp
  then have d3: "le_sum d3 \<le> 262140" using sum_bounds(1)[of d3] mult_right_mono[of "(length d3 + 1) div 2" 4 65535] by simp
  have ws: "unat s4 + le_sum d4 = unat (FOLD_U32T s3) + le_sum d3" "length d4 \<le> 1"
    using add_words_sum[OF _ w] f(2) d3 by simp_all
  have tb: "unat (tail_byte t d4) = unat t + le_sum d4" by (rule tail_byte_sum[OF ws(2) hb(1)])
  have "unat (s4 + ucast (tail_byte t d4)) = unat s4 + unat (tail_byte t d4)"
    using unat_plus32[of s4 "ucast (tail_byte t d4)"] ws(1) f(2) d3 unat16_le[of "tail_byte t d4"]
    by (simp add: unat_ucast32)
  then have e: "unat (s4 + ucast (tail_byte t d4)) = unat t + (unat (FOLD_U32T s3) + le_sum d3)"
    using tb ws(1) by simp
  have "same (unat t + (unat (FOLD_U32T s3) + le_sum d3)) (unat t + le_sum d1)"
    by (rule same_add[OF same_refl same_trans[OF same_add[OF f(1) same_refl] l3(1)]])
  then have "same (unat (s4 + ucast (tail_byte t d4))) (if odd addr then be_sum d else le_sum d)"
    by (simp add: e hb(2))
  from finish_sum[OF this] show ?thesis
    by (simp add: lwip_standard_chksum3_def h a[unfolded ps_def] l w Let_def)
qed

text \<open>
  C30: The three versions of the checksum loop compute the same value, at any address
  and for data of any length a packet can have: the ones complement sum of its 16-bit
  words.
\<close>

theorem chksum_versions_agree:
  assumes "length d \<le> 65535"
  shows "lwip_standard_chksum addr d = lwip_standard_chksum1 d \<and>
    lwip_standard_chksum3 addr d = lwip_standard_chksum1 d \<and>
    unat (lwip_standard_chksum1 d) = ones (le_sum d)"
  using standard_chksum_sum[of d addr] standard_chksum1_sum[OF assms] standard_chksum3_sum[of addr d] assms
  by (simp add: word_unat_eq_iff)

theorem chksum_versions_agree_witness:
  "lwip_standard_chksum 3 [0x45, 0x00, 0x01, 0xFF, 0x7E] = lwip_standard_chksum1 [0x45, 0x00, 0x01, 0xFF, 0x7E] \<and>
   lwip_standard_chksum1 [0x45, 0x00, 0x01, 0xFF, 0x7E] = 0xFFC4"
proof -
  let ?d = "[0x45, 0x00, 0x01, 0xFF, 0x7E] :: bytes"
  have "unat (lwip_standard_chksum1 ?d) = 65476"
    using chksum_versions_agree[of ?d 3] by (simp add: ones_def)
  then have "lwip_standard_chksum1 ?d = 0xFFC4" by (simp add: word_unat_eq_iff)
  then show ?thesis using chksum_versions_agree[of ?d 3] by simp
qed

section \<open>Checksums of packets\<close>

text \<open>A chain of pbufs as the checksum sees it: for each, the address of its payload and its
  \<open>len\<close> bytes.\<close>

type_synonym pbufs = "(nat \<times> bytes) list"

definition chain_data :: "pbufs \<Rightarrow> bytes" where
  "chain_data ps = concat (map snd ps)"

definition inet_chksum :: "nat \<Rightarrow> bytes \<Rightarrow> u16" where
  "inet_chksum addr d = NOT (lwip_standard_chksum addr d)"

text \<open>The body of the loop over the chain: add, fold, and swap the bytes of the sum after a
  pbuf of odd length.\<close>

definition sum_pbuf :: "nat \<Rightarrow> bytes \<Rightarrow> nat \<Rightarrow> u32 \<times> bool \<Rightarrow> u32 \<times> bool" where
  "sum_pbuf addr d len = (\<lambda>(acc, swapped).
     let acc = FOLD_U32T (acc + ucast (lwip_standard_chksum addr d))
     in if odd len then (SWAP_BYTES_IN_WORD acc, \<not> swapped) else (acc, swapped))"

fun sum_chain :: "pbufs \<Rightarrow> u32 \<times> bool \<Rightarrow> u32 \<times> bool" where
  "sum_chain [] s = s"
| "sum_chain ((addr, d) # q) s = sum_chain q (sum_pbuf addr d (length d) s)"

fun sum_partial :: "pbufs \<Rightarrow> u16 \<Rightarrow> u32 \<times> bool \<Rightarrow> u32 \<times> bool" where
  "sum_partial [] chksum_len s = s"
| "sum_partial ((addr, d) # q) chksum_len s =
     (if 0 < chksum_len then
        let chklen = min (length d) (unat chksum_len)
        in sum_partial q (chksum_len - word_of_nat chklen) (sum_pbuf addr (take chklen d) (length d) s)
      else s)"

definition unswap :: "u32 \<times> bool \<Rightarrow> u32" where
  "unswap = (\<lambda>(acc, swapped). if swapped then SWAP_BYTES_IN_WORD acc else acc)"

definition inet_chksum_pbuf :: "pbufs \<Rightarrow> u16" where
  "inet_chksum_pbuf p = NOT (ucast (unswap (sum_chain p (0, False)) AND 0xFFFF))"

definition pseudo_end :: "u32 \<Rightarrow> u32 \<Rightarrow> u32 \<Rightarrow> u8 \<Rightarrow> u16 \<Rightarrow> u16" where
  "pseudo_end acc src dest proto proto_len =
     (let acc = acc + (src AND 0xFFFF);
          acc = acc + (drop_bit 16 src AND 0xFFFF);
          acc = acc + (dest AND 0xFFFF);
          acc = acc + (drop_bit 16 dest AND 0xFFFF);
          acc = acc + ucast (lwip_htons (ucast proto));
          acc = acc + ucast (lwip_htons proto_len)
      in NOT (ucast (FOLD_U32T (FOLD_U32T acc) AND 0xFFFF)))"

definition inet_chksum_pseudo :: "pbufs \<Rightarrow> u32 \<Rightarrow> u32 \<Rightarrow> u8 \<Rightarrow> u16 \<Rightarrow> u16" where
  "inet_chksum_pseudo p src dest proto proto_len =
     pseudo_end (unswap (sum_chain p (0, False))) src dest proto proto_len"

definition inet_chksum_pseudo_partial :: "pbufs \<Rightarrow> u32 \<Rightarrow> u32 \<Rightarrow> u8 \<Rightarrow> u16 \<Rightarrow> u16 \<Rightarrow> u16" where
  "inet_chksum_pseudo_partial p src dest proto proto_len chksum_len =
     pseudo_end (unswap (sum_partial p chksum_len (0, False))) src dest proto proto_len"

section \<open>The sum of a chain is the sum of its bytes\<close>

text \<open>The state of the loop: the sum so far, swapped when an odd number of bytes was summed.\<close>

definition sum_state :: "nat \<Rightarrow> u32 \<times> bool \<Rightarrow> bool" where
  "sum_state n s \<longleftrightarrow> unat (fst s) = ones (if snd s then 256 * n else n)"

lemma sum_pbuf_state:
  assumes s: "sum_state n s" and len: "length d \<le> 65535"
  shows "sum_state (n + (if snd s then be_sum d else le_sum d)) (sum_pbuf addr d len s) \<and>
    snd (sum_pbuf addr d len s) = (snd s \<noteq> odd len)"
proof -
  obtain acc sw where sc: "s = (acc, sw)" by (cases s)
  let ?n = "if sw then 256 * n else n" and ?m = "n + (if sw then be_sum d else le_sum d)"
  have a: "unat acc = ones ?n" using s by (simp add: sum_state_def sc)
  have c: "unat (ucast (lwip_standard_chksum addr d) :: u32) = ones (le_sum d)"
    using standard_chksum_sum[of d addr] len by (simp add: unat_ucast32)
  have p: "unat (acc + ucast (lwip_standard_chksum addr d)) = ones ?n + ones (le_sum d)"
    using unat_plus32[of acc "ucast (lwip_standard_chksum addr d)"] ones_le[of ?n] ones_le[of "le_sum d"]
    by (simp add: a c)
  define f where "f = FOLD_U32T (acc + ucast (lwip_standard_chksum addr d))"
  have "same (ones ?n + ones (le_sum d)) (?n + le_sum d)" by (rule same_add[OF same_ones same_ones])
  also have "same (?n + le_sum d) (if sw then 256 * ?m else ?m)"
    using same_add[OF same_refl be_le(2)[of d], of "256 * n"] by (simp add: distrib_left)
  finally have "same (ones ?n + ones (le_sum d)) (if sw then 256 * ?m else ?m)" .
  moreover have "unat f = (ones ?n + ones (le_sum d)) div 65536 + (ones ?n + ones (le_sum d)) mod 65536"
    by (simp only: f_def unat_FOLD p)
  moreover have "\<dots> \<le> 65535"
  proof (cases "ones ?n + ones (le_sum d) < 65536")
    case False
    then obtain r where r: "ones ?n + ones (le_sum d) = 65536 + r" using le_Suc_ex by (metis not_less)
    then have "r \<le> 65534" using ones_le[of ?n] ones_le[of "le_sum d"] by linarith
    then show ?thesis unfolding r by simp
  qed simp
  ultimately have f: "unat f = ones (if sw then 256 * ?m else ?m)"
    using ones_small ones_cong[OF same_trans[OF fold_same]] by metis
  show ?thesis
  proof (cases "odd len")
    case True
    have "unat (SWAP_BYTES_IN_WORD f) = ones (256 * ones (if sw then 256 * ?m else ?m))"
      using unat_SWAP[of f] swap_ones[OF ones_le] ones_le by (simp add: f)
    also have "\<dots> = ones (256 * (if sw then 256 * ?m else ?m))"
      by (rule ones_cong, rule same_mult[OF same_ones]) simp
    also have "\<dots> = ones (if sw then ?m else 256 * ?m)"
      using same_shift[of ?m] by (auto intro: ones_cong)
    finally show ?thesis
      using True by (simp add: sum_state_def sum_pbuf_def sc Let_def f_def[symmetric])
  next
    case False
    then show ?thesis using f by (simp add: sum_state_def sum_pbuf_def sc Let_def f_def[symmetric])
  qed
qed

lemma sum_chain_state:
  "sum_state n s \<Longrightarrow> \<forall>(a, d)\<in>set ps. length d \<le> 65535 \<Longrightarrow>
    sum_state (n + (if snd s then be_sum (chain_data ps) else le_sum (chain_data ps))) (sum_chain ps s)"
proof (induction ps arbitrary: n s)
  case (Cons p q)
  obtain addr d where p: "p = (addr, d)" by (cases p)
  let ?s = "sum_pbuf addr d (length d) s"
  have st: "sum_state (n + (if snd s then be_sum d else le_sum d)) ?s" "snd ?s = (snd s \<noteq> odd (length d))"
    using sum_pbuf_state[OF Cons.prems(1), of d addr "length d"] Cons.prems(2) by (simp_all add: p)
  from Cons.IH[OF st(1)] Cons.prems(2) show ?case
    by (auto simp: p st(2) chain_data_def sums_append ac_simps split: if_splits)
qed (simp add: chain_data_def)

lemma unswap_state: "sum_state n s \<Longrightarrow> unat (unswap s) = ones n"
proof -
  assume s: "sum_state n s"
  obtain acc sw where sc: "s = (acc, sw)" by (cases s)
  show ?thesis
  proof (cases sw)
    case True
    have a: "unat acc = ones (256 * n)" using s True by (simp add: sum_state_def sc)
    have "unat (SWAP_BYTES_IN_WORD acc) = ones (256 * ones (256 * n))"
      using unat_SWAP[of acc] swap_ones[OF ones_le] ones_le by (simp add: a)
    also have "\<dots> = ones (256 * (256 * n))" by (rule ones_cong, rule same_mult[OF same_ones]) simp
    also have "\<dots> = ones n" using same_shift[of n] by (intro ones_cong) simp
    finally show ?thesis using True by (simp add: unswap_def sc)
  qed (use s in \<open>simp add: unswap_def sc sum_state_def\<close>)
qed

lemma sum_partial_state:
  "sum_state n s \<Longrightarrow> \<forall>(a, d)\<in>set ps. length d \<le> 65535 \<Longrightarrow>
    sum_state (n + (if snd s then be_sum (take (unat k) (chain_data ps)) else le_sum (take (unat k) (chain_data ps))))
      (sum_partial ps k s)"
proof (induction ps arbitrary: n s k)
  case (Cons p q)
  obtain addr d where p: "p = (addr, d)" by (cases p)
  show ?case
  proof (cases "k = 0")
    case True
    then show ?thesis using Cons.prems by (simp add: p)
  next
    case False
    define c where "c = min (length d) (unat k)"
    let ?s = "sum_pbuf addr (take c d) (length d) s"
    have tl: "length (take c d) \<le> 65535" using Cons.prems(2) by (simp add: p) linarith
    have st: "sum_state (n + (if snd s then be_sum (take c d) else le_sum (take c d))) ?s"
      "snd ?s = (snd s \<noteq> odd (length d))"
      using sum_pbuf_state[OF Cons.prems(1) tl, of addr "length d"] by blast+
    have k: "unat (k - word_of_nat c) = unat k - c"
    proof -
      have u: "unat (word_of_nat c :: u16) = c"
        using unat16_le[of k] by (intro unat_of_nat_u16) (simp add: c_def)
      have "unat (k - word_of_nat c) = unat k - unat (word_of_nat c :: u16)"
        by (rule unat_sub) (simp only: word_le_nat_alt u, simp add: c_def)
      then show ?thesis by (simp only: u)
    qed
    note ih = Cons.IH[OF st(1), of "k - word_of_nat c", unfolded k st(2)]
    have step: "sum_partial (p # q) k s = sum_partial q (k - word_of_nat c) ?s"
      using False by (simp add: p c_def word_gt_0 Let_def)
    show ?thesis
    proof (cases "length d \<le> unat k")
      case True
      then have "c = length d" by (simp add: c_def)
      then show ?thesis unfolding step using ih Cons.prems(2) True
        by (auto simp: p chain_data_def sums_append ac_simps split: if_splits)
    next
      case False
      then have "c = unat k" by (simp add: c_def)
      then show ?thesis unfolding step using ih Cons.prems(2) False
        by (auto simp: p chain_data_def split: if_splits)
    qed
  qed
qed (simp add: chain_data_def)

text \<open>The pseudo header of TCP and UDP as it would lie in memory: the addresses, 0 and the
  protocol, the length in network order.\<close>

definition half_bytes :: "u16 \<Rightarrow> bytes" where
  "half_bytes w = [lo8 w, hi8 w]"

definition pseudo_header :: "u32 \<Rightarrow> u32 \<Rightarrow> u8 \<Rightarrow> u16 \<Rightarrow> bytes" where
  "pseudo_header src dest proto proto_len =
     half_bytes (ucast src) @ half_bytes (ucast (drop_bit 16 src)) @
     half_bytes (ucast dest) @ half_bytes (ucast (drop_bit 16 dest)) @
     [0, proto, hi8 proto_len, lo8 proto_len]"

lemma le_sum_half: "le_sum (half_bytes w @ d) = unat w + le_sum d"
proof -
  have "unat w = 256 * unat (hi8 w) + unat (lo8 w)" by (metis unat_mk16 mk16_hi_lo)
  then show ?thesis by (simp add: half_bytes_def)
qed

lemma unat_half: "unat (u AND 0xFFFF) = unat (ucast (u :: u32) :: u16)"
proof -
  have "(0xFFFF :: u32) = mask 16" by (simp add: mask_eq_exp_minus_1)
  then have "u AND 0xFFFF = take_bit 16 u" by (simp only: take_bit_eq_mask)
  then show ?thesis by (simp only: unsigned_take_bit_eq unsigned_ucast_eq) simp
qed

lemma pseudo_header_sum:
  "le_sum (pseudo_header src dest proto len) =
    unat (src AND 0xFFFF) + unat (drop_bit 16 src AND 0xFFFF) + unat (dest AND 0xFFFF) +
    unat (drop_bit 16 dest AND 0xFFFF) + unat (lwip_htons (ucast proto)) + unat (lwip_htons len)"
proof -
  have "lo8 (ucast proto) = proto" "hi8 (ucast proto) = 0"
    by (rule bit_word_eqI; auto simp: lo8_def hi8_def bit_simps dest: bit_imp_le_length)+
  then show ?thesis
    by (simp add: pseudo_header_def le_sum_half unat_half htons_mk16 unat_mk16)
qed

lemma add_all32:
  assumes "\<forall>x\<in>set xs. unat x \<le> 65535" "unat (a :: u32) + length xs * 65535 < 2 ^ 32"
  shows "unat (foldl (+) a xs) = unat a + sum_list (map unat xs)"
  using assms
proof (induction xs arbitrary: a)
  case (Cons x xs)
  have "unat (a + x) = unat a + unat x" using Cons.prems by (intro unat_plus32) simp
  then show ?case using Cons.IH[of "a + x"] Cons.prems by simp
qed simp

lemma NOT_ones:
  assumes "unat (u :: u32) \<le> 65535"
  shows "NOT (ucast (u AND 0xFFFF) :: u16) = word_of_nat (65535 - unat u)"
proof -
  have "u AND 0xFFFF = u"
    by (simp only: word_unat_eq_iff unat_half unat_ucast16[OF assms])
  then have "NOT (ucast (u AND 0xFFFF) :: u16) = - ucast u - 1" by (simp add: not_eq_complement)
  also have "\<dots> = word_of_nat 65535 - word_of_nat (unat u)" by simp
  finally show ?thesis using assms by (simp add: of_nat_diff)
qed

lemma pseudo_end_sum:
  assumes "unat acc = ones n"
  shows "pseudo_end acc src dest proto len =
    word_of_nat (65535 - ones (le_sum (pseudo_header src dest proto len) + n))"
proof -
  define xs where "xs = [src AND 0xFFFF, drop_bit 16 src AND 0xFFFF, dest AND 0xFFFF,
    drop_bit 16 dest AND 0xFFFF, ucast (lwip_htons (ucast proto)), ucast (lwip_htons len)]"
  have b: "\<forall>x\<in>set xs. unat x \<le> 65535" by (simp add: xs_def unat_half unat_ucast32 unat16_le)
  have "length xs = 6" by (simp add: xs_def)
  then have "unat acc + length xs * 65535 < 2 ^ 32" using ones_le[of n] by (simp add: assms)
  from add_all32[OF b this]
  have t: "unat (foldl (+) acc xs) = ones n + le_sum (pseudo_header src dest proto len)"
    by (simp add: assms pseudo_header_sum) (simp add: xs_def unat_ucast32 add.assoc)
  define f where "f = FOLD_U32T (FOLD_U32T (foldl (+) acc xs))"
  have "unat f = ones (le_sum (pseudo_header src dest proto len) + n)"
    unfolding f_def fold_twice[OF t]
    by (rule ones_cong, subst add.commute) (rule same_add[OF same_refl same_ones])
  moreover have "pseudo_end acc src dest proto len = NOT (ucast (f AND 0xFFFF))"
    by (simp add: pseudo_end_def f_def xs_def Let_def)
  ultimately show ?thesis using NOT_ones[of f] ones_le by simp
qed

lemma inet_chksum_pseudo_value':
  assumes "\<forall>(a, d)\<in>set p. length d \<le> 65535"
  shows "inet_chksum_pseudo p src dest proto len = word_of_nat (65535 -
      ones (le_sum (pseudo_header src dest proto len @ chain_data p)))"
proof -
  have e: "even (length (pseudo_header src dest proto len))" by (simp add: pseudo_header_def half_bytes_def)
  have s0: "sum_state 0 (0, False)" by (simp add: sum_state_def)
  show ?thesis
    using pseudo_end_sum[OF unswap_state[OF sum_chain_state[OF s0 assms]]]
    by (simp add: inet_chksum_pseudo_def sums_append e)
qed

text \<open>
  C31: The checksum of a chain of pbufs is the complement of the ones complement sum of
  the pseudo header and of the bytes of the chain: it does not depend on how these are
  cut into pbufs or where the pieces lie; the partial one is that of the first bytes.
\<close>

theorem inet_chksum_pseudo_value:
  assumes "\<forall>(a, d)\<in>set p. length d \<le> 65535"
  shows "inet_chksum_pseudo p src dest proto len = word_of_nat (65535 -
      ones (le_sum (pseudo_header src dest proto len @ chain_data p))) \<and>
    inet_chksum_pseudo_partial p src dest proto len k = word_of_nat (65535 -
      ones (le_sum (pseudo_header src dest proto len @ take (unat k) (chain_data p))))"
proof -
  have e: "even (length (pseudo_header src dest proto len))" by (simp add: pseudo_header_def half_bytes_def)
  have s0: "sum_state 0 (0, False)" by (simp add: sum_state_def)
  show ?thesis
    using inet_chksum_pseudo_value'[OF assms]
      pseudo_end_sum[OF unswap_state[OF sum_partial_state[OF s0 assms, of k]]]
    by (simp add: inet_chksum_pseudo_partial_def sums_append e)
qed

theorem inet_chksum_pseudo_value_witness:
  "inet_chksum_pseudo [(1, [1, 2, 3]), (8, [4])] 0 0 6 4 = inet_chksum_pseudo [(0, [1, 2, 3, 4])] 0 0 6 4"
  using inet_chksum_pseudo_value[of "[(1, [1, 2, 3]), (8, [4])]" 0 0 6 4 0]
    inet_chksum_pseudo_value[of "[(0, [1, 2, 3, 4])]" 0 0 6 4 0]
  by (simp add: chain_data_def)

section \<open>What the receiver checks\<close>

text \<open>The receiver drops a segment unless the checksum over all of it, the checksum field
  included, is 0.\<close>

lemma mod_add_cancel: "((a :: nat) + b) mod n = (a + c) mod n \<Longrightarrow> b mod n = c mod n"
proof -
  assume "(a + b) mod n = (a + c) mod n"
  then have "int (a + b) mod int n = int (a + c) mod int n" by (simp only: flip: zmod_int)
  then have "int n dvd int (a + b) - int (a + c)" by (simp only: mod_eq_dvd_iff)
  then have "int n dvd int b - int c" by simp
  then have "int b mod int n = int c mod int n" by (simp only: mod_eq_dvd_iff)
  then show "b mod n = c mod n" by (metis of_nat_eq_iff zmod_int)
qed

lemma pseudo_zero_iff:
  assumes "\<forall>(a, d)\<in>set p. length d \<le> 65535"
  shows "inet_chksum_pseudo p src dest proto len = 0 \<longleftrightarrow>
    ones (le_sum (pseudo_header src dest proto len @ chain_data p)) = 65535"
proof -
  let ?n = "ones (le_sum (pseudo_header src dest proto len @ chain_data p))"
  have "unat (word_of_nat (65535 - ?n) :: u16) = 65535 - ?n" by (intro unat_of_nat_u16) simp
  then have "(word_of_nat (65535 - ?n) :: u16) = 0 \<longleftrightarrow> 65535 - ?n = 0"
    by (metis unat_0_iff)
  then show ?thesis
    using inet_chksum_pseudo_value'[OF assms] ones_le[of "le_sum (pseudo_header src dest proto len @ chain_data p)"]
    by auto
qed

lemma le_sum_update:
  assumes "i < length d"
  shows "le_sum (d[i := x]) + (if even i then 1 else 256) * unat (d ! i) =
    le_sum d + (if even i then 1 else 256) * unat x"
    "be_sum (d[i := x]) + (if even i then 256 else 1) * unat (d ! i) =
    be_sum d + (if even i then 256 else 1) * unat x"
  using assms
proof (induction d arbitrary: i)
  case (Cons a d)
  {
    case 1
    then show ?case using Cons(2)[of "i - 1"] by (cases i) (auto split: if_splits)
  next
    case 2
    then show ?case using Cons(1)[of "i - 1"] by (cases i) (auto split: if_splits)
  }
qed simp_all

text \<open>
  C32: A segment whose checksum field was filled in as the sender does, at an even place
  and over a field of zeros, passes the check of the receiver however it is cut into
  pbufs there; if any one byte of it is changed on the way, it does not.
\<close>

theorem checksum_checks:
  assumes p: "\<forall>(a, d)\<in>set p. length d \<le> 65535" and q: "\<forall>(a, d)\<in>set q. length d \<le> 65535"
    and r: "\<forall>(a, d)\<in>set r. length d \<le> 65535"
    and i: "even i" "i + 1 < length (chain_data p)" "chain_data p ! i = 0" "chain_data p ! (i + 1) = 0"
    and c: "c = inet_chksum_pseudo p src dest proto len"
    and sent: "chain_data q = (chain_data p)[i := lo8 c, i + 1 := hi8 c]"
    and j: "j < length (chain_data q)" "x \<noteq> chain_data q ! j"
    and changed: "chain_data r = (chain_data q)[j := x]"
  shows "inet_chksum_pseudo q src dest proto len = 0 \<and> inet_chksum_pseudo r src dest proto len \<noteq> 0"
proof
  let ?H = "le_sum (pseudo_header src dest proto len)"
  have e: "even (length (pseudo_header src dest proto len))" by (simp add: pseudo_header_def half_bytes_def)
  then have ap: "le_sum (pseudo_header src dest proto len @ d) = ?H + le_sum d" for d by (simp add: sums_append)
  let ?S = "?H + le_sum (chain_data p)"
  have cu: "unat c = 65535 - ones ?S"
    unfolding c using inet_chksum_pseudo_value'[OF p, of src dest proto len]
    by (simp add: ap unat_of_nat_u16)
  have "le_sum (chain_data q) = le_sum (chain_data p) + (unat (lo8 c) + 256 * unat (hi8 c))"
    using le_sum_update(1)[of i "chain_data p" "lo8 c"] i
      le_sum_update(1)[of "i + 1" "(chain_data p)[i := lo8 c]" "hi8 c"] by (simp add: sent)
  also have "unat (lo8 c) + 256 * unat (hi8 c) = unat c" by (metis unat_mk16 mk16_hi_lo add.commute)
  finally have q1: "?H + le_sum (chain_data q) = ?S + (65535 - ones ?S)" by (simp add: cu)
  have "same (?S + (65535 - ones ?S)) (ones ?S + (65535 - ones ?S))"
    by (rule same_add[OF same_sym[OF same_ones] same_refl])
  then have q2: "ones (?H + le_sum (chain_data q)) = 65535"
    using ones_cong ones_le[of ?S] by (fastforce simp: q1 ones_small)
  then show "inet_chksum_pseudo q src dest proto len = 0" by (simp add: pseudo_zero_iff[OF q] ap)
  show "inet_chksum_pseudo r src dest proto len \<noteq> 0"
  proof
    assume "inet_chksum_pseudo r src dest proto len = 0"
    then have "ones (?H + le_sum (chain_data r)) = ones (?H + le_sum (chain_data q))"
      by (simp add: pseudo_zero_iff[OF r] ap q2)
    then have m: "(?H + le_sum (chain_data r)) mod 65535 = (?H + le_sum (chain_data q)) mod 65535"
      by (simp add: ones_same same_def)
    define w :: nat where "w = (if even j then 1 else 256)"
    have u: "le_sum (chain_data r) + w * unat (chain_data q ! j) = le_sum (chain_data q) + w * unat x"
      using le_sum_update(1)[OF j(1), of x] by (simp add: changed w_def)
    have "(w * unat x) mod 65535 = (w * unat (chain_data q ! j)) mod 65535"
    proof -
      have "(?H + le_sum (chain_data q) + w * unat x) mod 65535 = (?H + le_sum (chain_data q) + w * unat (chain_data q ! j)) mod 65535"
        using mod_add_cong[OF m refl, of "w * unat (chain_data q ! j)"] by (simp only: add.assoc u)
      then show ?thesis by (rule mod_add_cancel)
    qed
    moreover have "w * unat y < 65535" for y :: u8
      using unat8_le[of y] by (simp add: w_def)
    ultimately have "w * unat x = w * unat (chain_data q ! j)" by simp
    then have "x = chain_data q ! j" by (simp add: w_def word_unat_eq_iff split: if_splits)
    then show False using j(2) by contradiction
  qed
qed

theorem checksum_checks_witness:
  "\<exists>c. inet_chksum_pseudo [(0, [lo8 c, hi8 c, 7]), (9, [5])] 0 0 6 4 = 0 \<and>
     inet_chksum_pseudo [(0, [lo8 c, hi8 c, 7, 6])] 0 0 6 4 \<noteq> 0"
  using checksum_checks[of "[(0, [0, 0, 7, 5])]" "[(0, [lo8 c, hi8 c, 7]), (9, [5])]" "[(0, [lo8 c, hi8 c, 7, 6])]"
    0 "c" 0 0 6 4 3 6 for c]
  by (intro exI[of _ "inet_chksum_pseudo [(0, [0, 0, 7, 5])] 0 0 6 4"]) (simp add: chain_data_def)

end
