(* ===== verification/Spec2Isabelle.thy ===== *)
theory Spec2Isabelle
  imports Tftp NetBios MbAscii MbTcp Ds18b20 MbCrc Firmware MbFuncsM MbSlave PbufAlloc Chksum
begin

text \<open>
  A gateway between an RS485 line that speaks Modbus RTU, a server reached over TCP,
  a configuration tool on UDP and a 433 MHz radio, on an STM32F107.  The sources are
  those of \<open>src/Net2Modbus/Lwip1.4.1+efls ByWang\<close>; in what follows \<open>modbus\<close> is
  \<open>modbus/freemodbus-v1.6.0\<close>.

  The program and its theories.

  \<^item> \<open>Prelude\<close>: the integer types of C as words, arrays whose loads and stores answer
    \<open>None\<close> outside the array, the packing of registers into bytes.
  \<^item> \<open>MbTypes\<close>: the enumerations and constants of \<open>modbus/modbus/include\<close>.
  \<^item> \<open>MbCrc\<close>: \<open>rtu/mbcrc.c\<close>.  Both tables and the loop; equivalence with the bitwise CRC,
    the check of a received frame, the errors it detects.
  \<^item> \<open>MbUtils\<close>, \<open>RegBank\<close>, \<open>UserApp\<close>, \<open>MbFuncs\<close>: \<open>functions/mbutils.c\<close>,
    \<open>port/user_mb_app.c\<close> and the function handlers \<open>mbfuncholding.c\<close>, \<open>mbfuncinput.c\<close>,
    \<open>mbfunccoils.c\<close>, \<open>mbfuncdisc.c\<close>, \<open>mbfuncother.c\<close>.  A bank is a list of registers or
    packed coils; \<open>RegBank\<close> states as a locale what reads answer after writes, and
    \<open>UserApp\<close> interprets it for the holding registers and the coils.
  \<^item> \<open>PortEvent\<close>: the queues of one event of \<open>portevent.c\<close> and \<open>portevent_m.c\<close>, both
    interpretations of one locale.
  \<^item> \<open>MbRtuM\<close>: \<open>rtu/mbrtu_m.c\<close>, \<open>portserial_m.c\<close>, \<open>porttimer_m.c\<close>.  The receiver, the
    transmitter and the timer as functions on a record of their static variables and of
    the registers of the peripherals they set; \<open>wire\<close> is what was sent so far.
  \<^item> \<open>MbM\<close>: \<open>mb_m.c\<close>.  Life cycle and \<open>eMBMasterPoll\<close>, which puts a reply of the line
    between the header and the trailer the server expects.
  \<^item> \<open>MbFuncsM\<close>: the requests and the response handlers of the master, \<open>mbfuncholding_m.c\<close>,
    \<open>mbfuncinput_m.c\<close>, \<open>mbfunccoils_m.c\<close>, \<open>mbfuncdisc_m.c\<close>.  They are compiled, but the gateway does
    not call them and the poll of the master does not either (\<open>#if 0\<close> in \<open>mb_m.c\<close>).  Exchanges of
    a request, the handler of a slave and the response, and what the requests let through.
  \<^item> \<open>MbRtu\<close> and \<open>MbSlave\<close>: the slave stack, \<open>rtu/mbrtu.c\<close>, \<open>portserial.c\<close>, \<open>porttimer.c\<close> and
    \<open>mb.c\<close>, as compiled with \<open>MB_SLAVE_RTU_ENABLED\<close> (\<open>mbconfig.h\<close> has it off).  A frame is
    \<open>adu a p\<close>: address, PDU and CRC.  \<open>slave_request\<close> is a frame on the line, the silence
    after it and two polls, \<open>slave_exchange\<close> adds the transmit interrupts.
  \<^item> \<open>SI4432\<close>: \<open>SI4432_Driver/SI4432.c\<close>.  The SPI by hand, the registers, sending and
    receiving; the state is the sequence of operations on the pins.
  \<^item> \<open>Gateway\<close>: \<open>modbus/User/modbus_main.c\<close>.  \<open>ModbusSenttset\<close> hands a packet of the server or
    the next command of the poll list to the line and to the radio.
  \<^item> \<open>FlashIf\<close>: \<open>flash/src/flash_if.c\<close>.  The four words of the configuration.
  \<^item> \<open>TcpUdp\<close>: \<open>myself/src/client_tcpudp.c\<close>.  The callbacks of the connection and of the UDP
    port with every command, the reconnecting thread, and the two senders.
  \<^item> \<open>Firmware\<close>: \<open>main.c\<close>, \<open>LwIP_Periodic_Handle\<close> and \<open>GetMacAddr\<close> of \<open>netconf.c\<close>, the
    Modbus part of \<open>System_Setup\<close> in \<open>stm32f107.c\<close>.  One turn of the endless loop, the start,
    and \<open>run\<close>, the turns and interrupts in any order.

  \<^item> \<open>OneWire\<close> and \<open>Ds18b20\<close>: \<open>myself/src/ds18b20sech.c\<close> and \<open>myself/src/DS18B20SROM.c\<close>, as
    compiled with \<open>USED_DS18B20\<close> (off).  The slots of the 1-Wire pin as operations, what the
    devices answer as an argument with the law of a wired-and bus (\<open>ow_bus\<close>, which \<open>bus_sim\<close>
    satisfies); the search enumerates the devices; the measurements and the text line.

  \<^item> \<open>FrameLayer\<close>, \<open>MbAscii\<close>, \<open>MbTcp\<close>: what the stack relies on in a serial framing, as a locale
    that \<open>MbRtu\<close> and \<open>MbAscii\<close> interpret (any conversation of two stations is delivered);
    \<open>ascii/mbascii.c\<close> and \<open>tcp/mbtcp.c\<close>, which \<open>mbconfig.h\<close> has off.
  \<^item> \<open>Iap\<close>: \<open>iap/src/tftpserver_iap.c\<close> and \<open>main_iap.c\<close>, the boot loader: packets with blocks of
    a program to words in the flash (\<open>fbyte\<close> reads them back as bytes), and the start of it.
  \<^item> \<open>Tftp\<close>: \<open>tftp/tftpserver.c\<close> and \<open>tftputils.c\<close>; the file system is an argument with the laws
    \<open>read_law\<close> and \<open>write_law\<close> (a write answers how many bytes it appended, which may be fewer
    than it was given), and memory that was freed is a fault.
  \<^item> \<open>NetBios\<close>: \<open>netbios/netbios.c\<close>.

  The memory and the packets of lwIP, \<open>src/core\<close> of \<open>lwip-1.4.1\<close>, which every connection of the
  gateway rests on:

  \<^item> \<open>HeapMem\<close>, \<open>HeapAlloc\<close>, \<open>LwipHeap\<close>: \<open>mem.c\<close>, the heap with its headers inside the memory it
    manages.  The blocks always cover it without a gap; an allocation takes the first block
    that is large enough; freeing joins neighbours.
  \<^item> \<open>Allocator\<close>: the contract of an allocator as locales (\<open>lender\<close>, \<open>allocator\<close> with a trim,
    \<open>two_lenders\<close> for two that share a memory): what an owner wrote stays.  \<open>LwipHeap\<close> interprets
    it for the heap, \<open>Memp\<close> (\<open>memp.c\<close>) for the pools, \<open>LwipMem\<close> for both together.
  \<^item> \<open>Pbuf\<close>: \<open>pbuf.c\<close>, the packet buffers as the bytes of their structures; \<open>PbufChain\<close>: chains
    of them as the bytes they hold; \<open>PbufMem\<close> and \<open>PbufAlloc\<close>: the areas of heap and pools they
    lie in, what freeing gives back and what an allocation hands out.
  \<^item> \<open>Chksum\<close>: \<open>inet_chksum.c\<close>, the three versions of its loop against the sum of RFC 1071.

  How the parts interact.  \<open>main_start\<close> reads the flash and enables the master and the radio.
  A turn (\<open>main_turn\<close>) first renews the connection, sends the frame that waits in
  \<open>Mb2TcpBuff\<close>, lets lwIP run its callbacks (which store packets and poll lists in the
  buffers of the gateway), then lets \<open>ModbusSenttset\<close> send, polls the master and reads the
  radio.  The states nest the same way: \<open>rtu_master\<close> in \<open>mb_master\<close> in \<open>gateway\<close> in
  \<open>net\<close> in \<open>system\<close>.

  What is proved.  The properties of this theory are those of the whole gateway: in a
  run that takes only harmless events a step leaves an array exactly when a reply of 239 to
  255 bytes waits to be wrapped up or the radio reports more than 64 bytes
  (\<open>gateway_runs\<close>), a packet of the server reaches the wire in the same turn, a reply of the
  line reaches the server in three turns, a lost connection is renewed when five seconds
  have passed since the last attempt, and of two packets in one turn only the last is sent.
  An event is harmless (\<open>safe_event\<close>) when its callback stays in its buffers and leaves a
  well formed poll list.  The other properties
  stand in the theory of their component.  The invariants \<open>rtu_inv\<close>, \<open>mbm_inv\<close>, \<open>gw_inv\<close>,
  \<open>net_inv\<close> and \<open>fw_inv\<close> build on each other, and each has lemmas that its operations keep it;
  where the code can leave an array, a property says for which inputs exactly.

  Failure and termination.  \<open>None\<close> is an access outside an array (a fault of the C
  program); return codes are values.  Every function is total: the loops end by structure
  or by a measure (\<open>tx_wait\<close>: at most 350 polls of the radio, \<open>erase_from\<close>: the pages up to the
  last one), and no fuel is used anywhere.  The loops that follow links in the memory of
  lwIP (a chain of pbufs, the blocks of the heap) end only when the links do: they are partial
  functions, \<open>None\<close> when they do not end, and the theorems say that they return.  A wait for the watchdog (\<open>in_reset\<close>) ends the
  run.  Counters are words of their width, so the times wrap as in the code.

  Granularity.  Interrupts come between the turns and not inside one; the code turns them
  off where it shares a state with them, but not everywhere, and the model does not show
  what happens elsewhere.  \<open>TIM2_IRQHandler\<close> runs when its flag is set.

  Arguments of the model, which are hardware or the lwIP stack: the answers of the radio
  on its lines (\<open>si_env\<close>), the effect of erasing and programming the flash (\<open>flash_hw\<close>, with
  the law that a programmed erased word reads back), the unique id of the chip, the error
  codes of \<open>tcp_write\<close> and \<open>tcp_bind\<close> and the callbacks lwIP makes in a turn.  The calls made
  to lwIP are recorded in \<open>calls\<close>.

  Not modelled: the protocols of lwIP above its memory, packets and checksums, the libraries
  of the chip and of the file system, which are vendored;
  set-up of clocks, pins and the Ethernet chip, which only writes registers; the web server
  and the mail client, which come with lwIP and are switched off, and the logging into files.
\<close>

section \<open>The whole gateway\<close>

text \<open>
  C1: From any well formed state, with a flash whose erased words read back what is
  programmed, the start of main succeeds and enables the Modbus master. In every run
  from there - turns of the loop, timer ticks and the interrupts of the serial port and
  its timer in any order, with all network events but harmful ones - the state stays
  well formed, and the next step of that kind does not return exactly when it is a turn
  in which a reply of 239 to 255 bytes waits to be wrapped up, or the radio reports more
  than the 64 bytes of its buffer. A network event is harmful when its callback leaves
  its buffers (the packets of C17, a getiap that can be answered, a length beyond the
  payload that holds it) or when an FF BB packet is not a well formed poll list that
  fits.
\<close>

theorem gateway_runs:
  assumes "env_laws (nenv b)" "fw_inv (netw s)"
  shows "\<exists>s0. main_start b s = Some s0 \<and> eMBState (mbm (gw (netw s0))) = STATE_ENABLED \<and>
    (\<forall>t. run b s0 t \<longrightarrow> fw_inv (netw t) \<and>
      (\<forall>l. step_ok b l t \<longrightarrow> (perform b l t = None \<longleftrightarrow> overruns b l t)))"
proof -
  obtain s0 where s0: "main_start b s = Some s0" "fw_inv (netw s0)"
    "eMBState (mbm (gw (netw s0))) = STATE_ENABLED"
    using main_start_inv[OF assms] by blast
  have "fw_inv (netw t)" if "run b s0 t" for t using run_inv[OF that assms(1) s0(2)] .
  moreover have "perform b l t = None \<longleftrightarrow> overruns b l t" if "fw_inv (netw t)" "step_ok b l t" for t l
    using perform_inv[OF assms(1) that] by (auto split: if_splits)
  ultimately show ?thesis using s0 by blast
qed

text \<open>
  C2: When the Modbus master is idle (its receiver idle, no event queued) and a packet
  FF AA with 1 to 253 data bytes, whole in one pbuf, is the only network event of a turn
  of the main loop, with no callback from the timers of lwIP in it, then the turn
  returns and after it and the transmit interrupts the data is on the RS485 line, byte
  for byte; the radio must not report more than 64 bytes in that turn, which would leave
  its buffer (C1).
\<close>

theorem server_packet_to_wire:
  assumes "env_laws (nenv b)" "\<not> radio_overrun b i s" "fw_inv (netw s)" "\<not> in_reset (netw s)"
    "eRcvState (rtu (mbm (gw (netw s)))) = STATE_M_RX_IDLE"
    "\<not> xMasterEventInQueue (queue (rtu (mbm (gw (netw s)))))"
    "eth_events i = [data_packet c d]" "tmr_events i = []" "1 \<le> length d" "length d \<le> 253"
  shows "\<exists>s' r. main_turn b i s = Some s' \<and>
    tx_irqs (Suc (length d)) (rtu (mbm (gw (netw s')))) = Some r \<and>
    wire r = wire (rtu (mbm (gw (netw s)))) @ d"
proof -
  have "\<exists>n'. callbacks (nenv b) (eth_events i) n = Some n' \<and> fw_inv n' \<and> in_reset n' = in_reset n \<and>
      TcpRecvLenth (gw n') = of_nat (length d) \<and> take (length d) (TcpRecvBuf (gw n')) = d \<and>
      mbm (gw n') = mbm (gw n)" if "fw_inv n" "in_reset n = in_reset (netw s)" for n
    using data_packet_stored[OF assms(1) that(1), of d c] that(2) assms(4,7,10) by auto
  from turn_sends[OF assms(2-4,8,5,6) this assms(9,10)] show ?thesis by blast
qed

text \<open>
  C20: When the Modbus master is idle (its receiver idle, no event queued) and two FF AA
  packets, the first with up to 1491 and the second with 1 to 253 data bytes, each whole
  in one pbuf, are the only network events of a turn of the main loop, with no callback
  from the timers of lwIP in it and no more than 64 bytes from the radio, only the data
  of the second reaches the line: the first is overwritten before it is sent.
\<close>

theorem first_packet_of_turn_lost:
  assumes "env_laws (nenv b)" "\<not> radio_overrun b i s" "fw_inv (netw s)" "\<not> in_reset (netw s)"
    "eRcvState (rtu (mbm (gw (netw s)))) = STATE_M_RX_IDLE"
    "\<not> xMasterEventInQueue (queue (rtu (mbm (gw (netw s)))))"
    "eth_events i = [data_packet c1 d1, data_packet c2 d2]" "tmr_events i = []"
    "length d1 \<le> 1491" "1 \<le> length d2" "length d2 \<le> 253"
  shows "\<exists>s' r. main_turn b i s = Some s' \<and>
    tx_irqs (Suc (length d2)) (rtu (mbm (gw (netw s')))) = Some r \<and>
    wire r = wire (rtu (mbm (gw (netw s)))) @ d2"
proof -
  have "\<exists>n'. callbacks (nenv b) (eth_events i) n = Some n' \<and> fw_inv n' \<and> in_reset n' = in_reset n \<and>
      TcpRecvLenth (gw n') = of_nat (length d2) \<and> take (length d2) (TcpRecvBuf (gw n')) = d2 \<and>
      mbm (gw n') = mbm (gw n)" if "fw_inv n" "in_reset n = in_reset (netw s)" for n
    using both_packets[OF assms(1) that(1), of d1 d2 c1 c2] that(2) assms(4,7,9,11) by auto
  from turn_sends[OF assms(2-4,8,5,6) this assms(10,11)] show ?thesis by blast
qed

text \<open>
  C3: The connection to the server is up, the Modbus master is enabled and its receiver
  idle, no frame, packet or poll list waits, and the radio receives nothing. Then a
  reply of 4 to 238 bytes, received in the serial interrupts and closed by the t3.5
  timer, is written to the server by the third of the next three turns of the main loop,
  in which the network brings nothing and tcp_write succeeds: the first two turns write
  nothing to the server, and the third writes exactly the reply between the header with
  the id of the gateway and the trailer.
\<close>

theorem line_reply_to_server:
  assumes "env_laws (nenv b)" "radio_silent (module b)" "fw_inv (netw s)" "\<not> in_reset (netw s)"
    "\<not> Tcplink (netw s)" "line_quiet s" "eMBState (mbm (gw (netw s))) = STATE_ENABLED"
    "eRcvState (rtu (mbm (gw (netw s)))) = STATE_M_RX_IDLE" "Mb2TcpLenth (mbm (gw (netw s))) = 0"
    "4 \<le> length bs" "length bs \<le> 238" "quiet i1" "quiet i2" "quiet i3"
  shows "\<exists>s2 s3. performs b (bytes_in bs @ [Rtu_timer True, Turn i1, Turn i2]) s = Some s2 \<and>
    to_server (netw s2) = to_server (netw s) \<and> main_turn b i3 s2 = Some s3 \<and>
    to_server (netw s3) = to_server (netw s) @
      [Tcp_write (server_frame (UID_STM32 (mbm (gw (netw s)))) bs), Tcp_output]"
  using line_reply[OF assms] by blast


section \<open>Witnesses\<close>

definition sample_board :: board where
  "sample_board = \<lparr> nenv = sample_env, module = quiet_module \<rparr>"

definition sample_system :: system where
  "sample_system = \<lparr> netw = sample_net \<lparr> RxSi4432Len := 0 \<rparr>, LocalTime = 0, iap_mode = 0, TCPTimer = 0,
     ARPTimer = 0, DHCPfineTimer = 0, DHCPcoarseTimer = 0, timers_run = [], macaddress = replicate 6 0 \<rparr>"

definition idle_turn :: turn_in where
  "idle_turn = \<lparr> bind_ok = True, line_err = 0, rf_err = 0, eth_events = [], tmr_events = [] \<rparr>"

lemma quiet_reads_0: "fst (spi_rw quiet_module a 0 t) = 0"
proof (rule bit_word_eqI)
  fix j assume "j < LENGTH(8)"
  then show "bit (fst (spi_rw quiet_module a 0 t)) j = bit (0 :: u8) j"
    using shift_data_value[of 8 j quiet_module 0]
    by (simp add: spi_rw_def Let_def case_prod_beta quiet_module_def)
qed

lemma sample_board_ready:
  "env_laws (nenv sample_board)" "radio_silent (module sample_board)" "fw_inv (netw sample_system)"
  "\<not> in_reset (netw sample_system)" "quiet idle_turn" "line_quiet sample_system"
  "\<not> radio_overrun sample_board i s"
proof -
  have away: "\<not> fst (Check_si4432_HW quiet_module t)" for t
    by (simp add: Check_si4432_HW_def case_prod_beta Let_def quiet_reads_0)
  show "env_laws (nenv sample_board)"
    using sample_ready(2,3) by (simp add: env_laws_def sample_board_def)
  show "radio_silent (module sample_board)" by (simp add: radio_silent_def away sample_board_def)
  have "\<not> radio_faults sample_board n" for n
    by (simp add: radio_faults_def case_prod_beta Let_def away sample_board_def)
  then show "\<not> radio_overrun sample_board i s" by (auto simp: radio_overrun_def split: option.splits)
  have "net_inv sample_net" by (rule sample_ready)
  then show "fw_inv (netw sample_system)"
    by (simp add: fw_inv_def net_inv_def gw_inv_def sample_system_def sample_net_def list_ok_def
        idle_gateway_def enabled_master_def)
qed (simp_all add: quiet_def idle_turn_def line_quiet_def sample_system_def sample_net_def idle_gateway_def)

lemma sample_system_idle:
  "eRcvState (rtu (mbm (gw (netw sample_system)))) = STATE_M_RX_IDLE"
  "\<not> xMasterEventInQueue (queue (rtu (mbm (gw (netw sample_system)))))"
  "eMBState (mbm (gw (netw sample_system))) = STATE_ENABLED"
  "\<not> Tcplink (netw sample_system)" "Mb2TcpLenth (mbm (gw (netw sample_system))) = 0"
  "wire (rtu (mbm (gw (netw sample_system)))) = []" "calls (netw sample_system) = []"
  "\<not> poll_overflows (mbm (gw (netw sample_system)))"
  by (simp_all add: sample_system_def sample_net_def idle_gateway_def enabled_master_ready
      poll_overflows_def queued_def) (simp_all add: enabled_master_def idle_rtu_def)

theorem gateway_runs_witness:
  "\<exists>s0. main_start sample_board sample_system = Some s0 \<and>
    eMBState (mbm (gw (netw s0))) = STATE_ENABLED \<and> fw_inv (netw s0) \<and>
    (\<exists>u. perform sample_board Tick s0 = Some u)"
proof -
  obtain s0 where s0: "main_start sample_board sample_system = Some s0"
    "eMBState (mbm (gw (netw s0))) = STATE_ENABLED"
    "\<forall>t. run sample_board s0 t \<longrightarrow> fw_inv (netw t) \<and>
      (\<forall>l. step_ok sample_board l t \<longrightarrow> (perform sample_board l t = None \<longleftrightarrow> overruns sample_board l t))"
    using gateway_runs[OF sample_board_ready(1,3)] by blast
  have "fw_inv (netw s0)" "perform sample_board Tick s0 \<noteq> None" using s0(3) run_start[of sample_board s0] by auto
  then show ?thesis using s0 by auto
qed

theorem server_packet_to_wire_witness:
  "\<exists>s' r. main_turn sample_board (idle_turn \<lparr> eth_events := [data_packet 1 [6, 3]] \<rparr>) sample_system = Some s' \<and>
    tx_irqs 3 (rtu (mbm (gw (netw s')))) = Some r \<and> wire r = [6, 3]"
  using server_packet_to_wire[OF sample_board_ready(1,7,3,4) sample_system_idle(1,2),
      of "idle_turn \<lparr> eth_events := [data_packet 1 [6, 3]] \<rparr>" 1 "[6, 3]"]
  by (simp add: idle_turn_def sample_system_idle numeral_3_eq_3 del: tx_irqs.simps)

theorem first_packet_of_turn_lost_witness:
  "\<exists>s' r. main_turn sample_board
      (idle_turn \<lparr> eth_events := [data_packet 1 [1, 2], data_packet 1 [6, 3]] \<rparr>) sample_system = Some s' \<and>
    tx_irqs 3 (rtu (mbm (gw (netw s')))) = Some r \<and> wire r = [6, 3]"
  using first_packet_of_turn_lost[OF sample_board_ready(1,7,3,4) sample_system_idle(1,2),
      of "idle_turn \<lparr> eth_events := [data_packet 1 [1, 2], data_packet 1 [6, 3]] \<rparr>" 1 "[1, 2]" 1 "[6, 3]"]
  by (simp add: idle_turn_def sample_system_idle numeral_3_eq_3 del: tx_irqs.simps)

theorem line_reply_to_server_witness:
  "\<exists>s2 s3. performs sample_board
      (bytes_in [6, 3, 2, 0] @ [Rtu_timer True, Turn idle_turn, Turn idle_turn]) sample_system = Some s2 \<and>
    to_server (netw s2) = [] \<and> main_turn sample_board idle_turn s2 = Some s3 \<and>
    to_server (netw s3) =
      [Tcp_write (server_frame (UID_STM32 (mbm (gw (netw sample_system)))) [6, 3, 2, 0]), Tcp_output]"
proof -
  have "to_server (netw sample_system) = []" by (simp add: to_server_def sample_system_idle)
  then show ?thesis
    using line_reply_to_server[OF sample_board_ready(1-4) sample_system_idle(4) sample_board_ready(6)
        sample_system_idle(3,1,5), of "[6, 3, 2, 0]" idle_turn idle_turn idle_turn]
    by (simp add: sample_board_ready del: performs.simps)
qed


end
